(* ===== verification/Prelude.thy ===== *)
theory Prelude
  imports Main "HOL-Library.Word"
begin

text \<open>
  Shared vocabulary of the development: the machine types of the C++ sources, the outcome of
  a C++ call that may stop (an \<open>assert\<close> of a debug build, a thrown exception, a
  dereference of a dead pointer), and the generic facts on outcomes, lists and finite sets of
  naturals that the components share.
\<close>

unbundle bit_operations_syntax

named_theorems res_simps \<open>unfolding of outcomes\<close>
named_theorems bitmap_simps \<open>bit level facts on the bitmaps of utils/bitmap.hpp\<close>
named_theorems mem_simps \<open>reads and updates of the version store\<close>

section \<open>Machine types\<close>

type_synonym u8 = "8 word"
type_synonym u16 = "16 word"
type_synonym u32 = "32 word"
type_synonym u64 = "64 word"

section \<open>Outcomes of C++ calls\<close>

text \<open>
  \<open>AssertFailed\<close> is a failed \<open>assert\<close>, \<open>RuntimeError\<close> a thrown
  \<open>std::runtime_error\<close>, \<open>NullDeref\<close>, \<open>UseAfterFree\<close> and \<open>OutOfRange\<close>
  are accesses the C++ standard leaves undefined: the model stops there.
\<close>

datatype cxx_error =
    AssertFailed
  | RuntimeError string
  | NullDeref
  | UseAfterFree
  | OutOfRange

type_synonym 'a res = "cxx_error + 'a"

definition ebind :: "'a res \<Rightarrow> ('a \<Rightarrow> 'b res) \<Rightarrow> 'b res" where
  "ebind r f = (case r of Inl e \<Rightarrow> Inl e | Inr x \<Rightarrow> f x)"

definition guard :: "bool \<Rightarrow> cxx_error \<Rightarrow> 'a res \<Rightarrow> 'a res" where
  "guard b e k = (if b then k else Inl e)"

abbreviation assert_then :: "bool \<Rightarrow> 'a res \<Rightarrow> 'a res" where
  "assert_then b k \<equiv> guard b AssertFailed k"

lemma ebind_Inl [simp, res_simps]: "ebind (Inl e) f = Inl e"
  by (simp add: ebind_def)

lemma ebind_Inr [simp, res_simps]: "ebind (Inr x) f = f x"
  by (simp add: ebind_def)

lemma guard_True [simp, res_simps]: "guard True e k = k"
  by (simp add: guard_def)

lemma guard_False [simp, res_simps]: "guard False e k = Inl e"
  by (simp add: guard_def)

lemma ebind_eq_Inr [res_simps]: "ebind r f = Inr y \<longleftrightarrow> (\<exists>x. r = Inr x \<and> f x = Inr y)"
  by (cases r) auto

lemma guard_eq_Inr [res_simps]: "guard b e k = Inr y \<longleftrightarrow> b \<and> k = Inr y"
  by (simp add: guard_def)

lemma ebind_cong [fundef_cong]:
  "r = r' \<Longrightarrow> (\<And>x. r' = Inr x \<Longrightarrow> f x = g x) \<Longrightarrow> ebind r f = ebind r' g"
  by (cases r') auto

section \<open>Finite sets of naturals\<close>

lemma Max_eq_if:
  fixes S :: "nat set"
  assumes "finite S" and "m \<in> S" and "\<And>x. x \<in> S \<Longrightarrow> x \<le> m"
  shows "Max S = m"
  using assms by (auto intro: Max_eqI)

lemma card_less_Suc_iff:
  fixes S :: "nat set"
  assumes "finite S" and "k \<in> S"
  shows "card {x \<in> S. x \<le> k} = Suc (card {x \<in> S. x < k})"
proof -
  have "{x \<in> S. x \<le> k} = insert k {x \<in> S. x < k}"
    using assms(2) by auto
  then show ?thesis using assms(1) by simp
qed

lemma div_mod_less:
  fixes x y d :: nat
  assumes "0 < d"
  shows "x < y \<longleftrightarrow> x div d < y div d \<or> x div d = y div d \<and> x mod d < y mod d"
proof (cases "x div d = y div d")
  case True
  then have "x = y div d * d + x mod d" "y = y div d * d + y mod d" by (metis div_mult_mod_eq)+
  then have "x < y \<longleftrightarrow> x mod d < y mod d" by linarith
  with True show ?thesis by simp
next
  case False
  then show ?thesis by (metis div_le_mono le_less not_le)
qed

section \<open>Visibility\<close>

text \<open>
  The specification all three protocols share: among the serial ids that wrote a row, a
  transaction reads the one with the largest id below its own, if there is one.
\<close>

definition visible_in :: "nat set \<Rightarrow> nat \<Rightarrow> nat option" where
  "visible_in S n = (if {x \<in> S. x < n} = {} then None else Some (Max {x \<in> S. x < n}))"

lemma visible_in_Some:
  "visible_in S n = Some m \<longleftrightarrow> m \<in> S \<and> m < n \<and> (\<forall>x. x \<in> S \<longrightarrow> x < n \<longrightarrow> x \<le> m)"
proof -
  have fin: "finite {x \<in> S. x < n}" by simp
  show ?thesis
  proof
    assume "visible_in S n = Some m"
    then have ne: "{x \<in> S. x < n} \<noteq> {}" and m: "m = Max {x \<in> S. x < n}"
      by (auto simp: visible_in_def split: if_splits)
    have "m \<in> {x \<in> S. x < n}" unfolding m by (rule Max_in [OF fin ne])
    moreover have "x \<le> m" if "x \<in> S" "x < n" for x
      unfolding m using that by (intro Max_ge fin) simp
    ultimately show "m \<in> S \<and> m < n \<and> (\<forall>x. x \<in> S \<longrightarrow> x < n \<longrightarrow> x \<le> m)" by simp
  next
    assume "m \<in> S \<and> m < n \<and> (\<forall>x. x \<in> S \<longrightarrow> x < n \<longrightarrow> x \<le> m)"
    moreover then have "Max {x \<in> S. x < n} = m" by (intro Max_eq_if fin) auto
    ultimately show "visible_in S n = Some m" by (auto simp: visible_in_def)
  qed
qed

lemma visible_in_None: "visible_in S n = None \<longleftrightarrow> (\<forall>x. x \<in> S \<longrightarrow> n \<le> x)"
  by (auto simp: visible_in_def not_less)

lemma visible_in_empty [simp]: "visible_in {} n = None"
  by (simp add: visible_in_def)

lemma visible_in_cases:
  obtains (None) "visible_in S n = None" "\<And>x. x \<in> S \<Longrightarrow> n \<le> x"
  | (Some) m where "visible_in S n = Some m" "m \<in> S" "m < n" "\<And>x. x \<in> S \<Longrightarrow> x < n \<Longrightarrow> x \<le> m"
  by (cases "visible_in S n") (auto simp: visible_in_None visible_in_Some)

lemma visible_in_insert_ge: "n \<le> i \<Longrightarrow> visible_in (insert i S) n = visible_in S n"
  unfolding visible_in_def by (rule arg_cong [where f = "\<lambda>A. if A = {} then None else Some (Max A)"]) auto

lemma visible_in_insert_less:
  "i < n \<Longrightarrow> visible_in (insert i S) n =
     Some (case visible_in S n of None \<Rightarrow> i | Some m \<Rightarrow> max m i)"
proof (rule visible_in_cases [of S n])
  assume "i < n" and "visible_in S n = None" and "\<And>x. x \<in> S \<Longrightarrow> n \<le> x"
  then show ?thesis by (simp add: visible_in_Some) (meson leD)
next
  fix m assume "i < n" and m: "visible_in S n = Some m" "m \<in> S" "m < n"
    and le: "\<And>x. x \<in> S \<Longrightarrow> x < n \<Longrightarrow> x \<le> m"
  then have "visible_in (insert i S) n = Some (max m i)"
    by (auto simp: visible_in_Some max_def dest: le)
  with m(1) show ?thesis by simp
qed

lemma visible_in_cong:
  "(\<And>x. x < n \<Longrightarrow> x \<in> S \<longleftrightarrow> x \<in> T) \<Longrightarrow> visible_in S n = visible_in T n"
  unfolding visible_in_def by (rule arg_cong [where f = "\<lambda>A. if A = {} then None else Some (Max A)"]) auto

end
