(* ===== verification/Bitmap.thy ===== *)
theory Bitmap
  imports Prelude
begin

text \<open>
  The 64-bit bitmaps of utils/bitmap.hpp.
\<close>

section \<open>Compiler builtins\<close>

definition builtin_popcountll :: "u64 \<Rightarrow> nat" where
  "builtin_popcountll x = length (filter (bit x) [0..<64])"

definition builtin_ffsll :: "u64 \<Rightarrow> nat" where
  "builtin_ffsll x = (case find (bit x) [0..<64] of None \<Rightarrow> 0 | Some n \<Rightarrow> Suc n)"

section \<open>The functions of utils/bitmap.hpp\<close>

definition count_bits :: "u64 \<Rightarrow> int" where
  "count_bits bits = int (builtin_popcountll bits)"

definition set_upper_bit_signed :: u64 where
  "set_upper_bit_signed = NOT (drop_bit 1 (NOT 0))"

definition set_upper_bit_unsigned :: u64 where
  "set_upper_bit_unsigned = NOT (drop_bit 1 (NOT 0))"

definition set_bit_at_the_given_location :: "nat \<Rightarrow> u64" where
  "set_bit_at_the_given_location pos = drop_bit pos set_upper_bit_unsigned"

definition is_bit_set_at_the_position :: "u64 \<Rightarrow> nat \<Rightarrow> bool" where
  "is_bit_set_at_the_position bitmap pos \<longleftrightarrow> bitmap AND set_bit_at_the_given_location pos \<noteq> 0"

definition set_bit_in_bitmap :: "u64 \<Rightarrow> nat \<Rightarrow> u64 res" where
  "set_bit_in_bitmap bitmap pos =
     assert_then (pos < 64)
       (assert_then (\<not> is_bit_set_at_the_position bitmap pos)
         (Inr (bitmap OR set_bit_at_the_given_location pos)))"

definition fill_the_left_side_until_before_the_given_position :: "nat \<Rightarrow> u64" where
  "fill_the_left_side_until_before_the_given_position pos =
     (if pos = 0 then 0 else signed_drop_bit (pos - 1) set_upper_bit_signed)"

definition fill_the_left_side_until_the_given_position :: "nat \<Rightarrow> u64" where
  "fill_the_left_side_until_the_given_position pos = signed_drop_bit pos set_upper_bit_signed"

definition find_the_location_of_first_bit_from_right :: "u64 \<Rightarrow> int" where
  "find_the_location_of_first_bit_from_right bits = int (builtin_ffsll bits)"

definition find_the_largest :: "u64 \<Rightarrow> int res" where
  "find_the_largest bits =
     assert_then (bits \<noteq> 0)
       (let result = 64 - find_the_location_of_first_bit_from_right bits
        in assert_then (0 \<le> result \<and> result < 64) (Inr result))"

definition find_the_largest_among_or_less_than :: "u64 \<Rightarrow> nat \<Rightarrow> int res" where
  "find_the_largest_among_or_less_than bitmap pos =
     assert_then (bitmap \<noteq> 0) (assert_then (pos < 64)
       (let smallers = bitmap AND fill_the_left_side_until_the_given_position pos
        in if smallers = 0 then Inr (- 1) else find_the_largest smallers))"

definition find_the_two_largest_among_or_less_than :: "u64 \<Rightarrow> nat \<Rightarrow> (int \<times> int) res" where
  "find_the_two_largest_among_or_less_than bitmap pos =
     assert_then (bitmap \<noteq> 0) (assert_then (pos < 64)
       (let smallers = bitmap AND fill_the_left_side_until_the_given_position pos
        in if smallers = 0 then Inr (- 1, - 1)
           else ebind (find_the_largest smallers) (\<lambda>largest_pos.
             assert_then (largest_pos < 64)
               (if builtin_popcountll smallers = 1 then Inr (- 1, largest_pos)
                else assert_then (0 \<le> largest_pos)
                  (ebind (find_the_largest
                            (NOT (set_bit_at_the_given_location (nat largest_pos)) AND smallers))
                     (\<lambda>second_largest_pos.
                        assert_then (second_largest_pos < largest_pos)
                          (Inr (second_largest_pos, largest_pos))))))))"

definition find_the_largest_among_less_than :: "u64 \<Rightarrow> nat \<Rightarrow> int res" where
  "find_the_largest_among_less_than bitmap pos =
     assert_then (bitmap \<noteq> 0) (assert_then (pos < 64)
       (let smallers = bitmap AND fill_the_left_side_until_before_the_given_position pos
        in if smallers = 0 then Inr (- 1) else find_the_largest smallers))"

section \<open>A bitmap as the set of its positions\<close>

text \<open>Position 0 is the most significant bit, as in the comments of the source.\<close>

definition ones :: "u64 \<Rightarrow> nat set" where
  "ones bm = {p. p < 64 \<and> bit bm (63 - p)}"

lemma finite_ones [simp]: "finite (ones bm)"
  by (simp add: ones_def)

lemma ones_less: "p \<in> ones bm \<Longrightarrow> p < 64"
  by (simp add: ones_def)

lemma bit_ones: "n < 64 \<Longrightarrow> bit bm n \<longleftrightarrow> 63 - n \<in> ones bm"
  by (auto simp: ones_def)

lemma bit_u64_less: "bit (bm :: u64) n \<Longrightarrow> n < 64"
  using bit_imp_le_length [of bm n] by simp

lemma ones_eq_empty_iff [simp]: "ones bm = {} \<longleftrightarrow> bm = 0"
proof
  assume empty: "ones bm = {}"
  have "\<not> bit bm n" for n
    using empty bit_u64_less [of bm n] bit_ones [of n bm] by auto
  then show "bm = 0" by (simp add: bit_eq_iff)
qed (simp add: ones_def)

lemma ones_0 [simp]: "ones 0 = {}"
  by simp

lemma ones_and: "ones (a AND b) = ones a \<inter> ones b"
  by (auto simp: ones_def bit_and_iff)

lemma ones_or: "ones (a OR b) = ones a \<union> ones b"
  by (auto simp: ones_def bit_or_iff)

lemma ones_not: "ones (NOT a) = {..<64} - ones a"
  by (auto simp: ones_def bit_not_iff)

lemma ones_inject: "ones a = ones b \<longleftrightarrow> a = b"
proof
  assume eq: "ones a = ones b"
  have "bit a n \<longleftrightarrow> bit b n" for n
    using eq bit_ones [of n a] bit_ones [of n b] bit_u64_less by blast
  then show "a = b" by (simp add: bit_eq_iff)
qed simp

lemma bit_upper: "bit (NOT (drop_bit 1 (NOT 0 :: u64))) n \<longleftrightarrow> n = 63"
  by (auto simp: bit_not_iff bit_mask_iff dest: bit_u64_less)

lemma bit_set_upper [bitmap_simps]:
  "bit set_upper_bit_signed n \<longleftrightarrow> n = 63" "bit set_upper_bit_unsigned n \<longleftrightarrow> n = 63"
  by (simp_all only: set_upper_bit_signed_def set_upper_bit_unsigned_def bit_upper)

lemma ones_set_bit [simp]: "p < 64 \<Longrightarrow> ones (set_bit_at_the_given_location p) = {p}"
  by (auto simp: ones_def set_bit_at_the_given_location_def bit_drop_bit_eq bitmap_simps)

lemma bit_fill:
  assumes "p < 64" and "n < 64"
  shows "bit (signed_drop_bit p set_upper_bit_signed) n \<longleftrightarrow> 63 - p \<le> n"
  using assms by (auto simp: bit_signed_drop_bit_iff bitmap_simps)

lemma ones_fill_until [simp]:
  "p < 64 \<Longrightarrow> ones (fill_the_left_side_until_the_given_position p) = {..p}"
  by (auto simp: ones_def fill_the_left_side_until_the_given_position_def bit_fill)

lemma ones_fill_before [simp]:
  "p \<le> 64 \<Longrightarrow> ones (fill_the_left_side_until_before_the_given_position p) = {..<p}"
  by (auto simp: ones_def fill_the_left_side_until_before_the_given_position_def bit_fill)

lemma is_bit_set_iff [bitmap_simps]:
  "p < 64 \<Longrightarrow> is_bit_set_at_the_position bm p \<longleftrightarrow> p \<in> ones bm"
  unfolding is_bit_set_at_the_position_def ones_eq_empty_iff [symmetric] by (simp add: ones_and)

section \<open>The searches against their specification\<close>

lemma popcount_card: "builtin_popcountll bm = card (ones bm)"
proof -
  have "builtin_popcountll bm = card {n. n < 64 \<and> bit bm n}"
    by (simp add: builtin_popcountll_def distinct_length_filter Int_def conj_commute)
  also have "\<dots> = card (ones bm)"
  proof -
    have "ones bm = (\<lambda>n. 63 - n) ` {n. n < 64 \<and> bit bm n}"
      by (auto simp: ones_def image_iff intro!: exI [of _ "63 - _"])
    moreover have "inj_on (\<lambda>n. 63 - n) {n. n < 64 \<and> bit bm n}"
      by (auto simp: inj_on_def)
    ultimately show ?thesis by (simp add: card_image)
  qed
  finally show ?thesis .
qed

lemma ffsll_Max:
  assumes "bm \<noteq> 0"
  shows "builtin_ffsll bm = 64 - Max (ones bm)"
proof -
  define M where "M = Max (ones bm)"
  have M: "M \<in> ones bm" using assms unfolding M_def by (intro Max_in) auto
  have le: "p \<le> M" if "p \<in> ones bm" for p unfolding M_def using that by (rule Max_ge [OF finite_ones])
  have "find (bit bm) [0..<64] = Some (63 - M)"
  proof -
    have "\<not> bit bm j" if "j < 63 - M" for j
      using le [of "63 - j"] bit_ones [of j bm] that by auto
    moreover have "bit bm (63 - M)" using M by (simp add: ones_def)
    ultimately show ?thesis
      using ones_less [OF M] by (auto simp: find_Some_iff intro!: exI [of _ "63 - M"])
  qed
  then show ?thesis using ones_less [OF M] by (simp add: builtin_ffsll_def M_def)
qed

lemma Max_ones_less: "bm \<noteq> 0 \<Longrightarrow> Max (ones bm) < 64"
  by (rule ones_less [of _ bm]) (simp add: Max_in)

lemma find_the_largest_eq [bitmap_simps]:
  assumes "bm \<noteq> 0"
  shows "find_the_largest bm = Inr (int (Max (ones bm)))"
proof -
  have "64 - find_the_location_of_first_bit_from_right bm = int (Max (ones bm))"
    using Max_ones_less [OF assms] ffsll_Max [OF assms]
    unfolding find_the_location_of_first_bit_from_right_def by linarith
  then show ?thesis
    using assms Max_ones_less [OF assms] unfolding find_the_largest_def Let_def guard_def by presburger
qed

text \<open>The source encodes ``no such position'' as -1.\<close>

definition pos_of :: "nat option \<Rightarrow> int" where
  "pos_of v = (case v of None \<Rightarrow> - 1 | Some p \<Rightarrow> int p)"

lemma pos_of_simps [simp]: "pos_of None = - 1" "pos_of (Some p) = int p"
  by (simp_all add: pos_of_def)

lemma pos_of_eq_minus_1 [simp]: "pos_of v = - 1 \<longleftrightarrow> v = None"
  by (cases v) auto

lemma ones_below:
  "p < 64 \<Longrightarrow> ones (bm AND fill_the_left_side_until_before_the_given_position p) = {x \<in> ones bm. x < p}"
  "p < 64 \<Longrightarrow> ones (bm AND fill_the_left_side_until_the_given_position p) = {x \<in> ones bm. x < Suc p}"
  by (auto simp: ones_and)

lemma find_the_largest_among_less_than_eq [bitmap_simps]:
  assumes "bm \<noteq> 0" and "p < 64"
  shows "find_the_largest_among_less_than bm p = Inr (pos_of (visible_in (ones bm) p))"
proof -
  let ?s = "bm AND fill_the_left_side_until_before_the_given_position p"
  have "?s = 0 \<longleftrightarrow> {x \<in> ones bm. x < p} = {}"
    using ones_below(1) [OF assms(2)] by (metis ones_eq_empty_iff)
  then show ?thesis
    using assms ones_below(1) [OF assms(2), of bm]
    by (auto simp: find_the_largest_among_less_than_def visible_in_def bitmap_simps Let_def
        simp del: ones_eq_empty_iff)
qed

lemma find_the_largest_among_or_less_than_eq [bitmap_simps]:
  assumes "bm \<noteq> 0" and "p < 64"
  shows "find_the_largest_among_or_less_than bm p = Inr (pos_of (visible_in (ones bm) (Suc p)))"
proof -
  let ?s = "bm AND fill_the_left_side_until_the_given_position p"
  have "?s = 0 \<longleftrightarrow> {x \<in> ones bm. x < Suc p} = {}"
    using ones_below(2) [OF assms(2)] by (metis ones_eq_empty_iff)
  then show ?thesis
    using assms ones_below(2) [OF assms(2), of bm]
    by (auto simp: find_the_largest_among_or_less_than_def visible_in_def bitmap_simps Let_def
        simp del: ones_eq_empty_iff)
qed

lemma find_the_two_largest_eq [bitmap_simps]:
  assumes "bm \<noteq> 0" and "p < 64"
  shows "find_the_two_largest_among_or_less_than bm p =
     Inr (case visible_in (ones bm) (Suc p) of None \<Rightarrow> (- 1, - 1)
          | Some f \<Rightarrow> (pos_of (visible_in (ones bm) f), int f))"
proof (rule visible_in_cases [of "ones bm" "Suc p"])
  define sm where "sm = bm AND fill_the_left_side_until_the_given_position p"
  have s: "ones sm = {x \<in> ones bm. x < Suc p}" unfolding sm_def by (rule ones_below(2) [OF assms(2)])
  have unf: "find_the_two_largest_among_or_less_than bm p =
      (if sm = 0 then Inr (- 1, - 1)
       else ebind (find_the_largest sm) (\<lambda>l. assert_then (l < 64)
         (if builtin_popcountll sm = 1 then Inr (- 1, l)
          else assert_then (0 \<le> l)
            (ebind (find_the_largest (NOT (set_bit_at_the_given_location (nat l)) AND sm))
               (\<lambda>l2. assert_then (l2 < l) (Inr (l2, l)))))))"
    using assms
    unfolding find_the_two_largest_among_or_less_than_def Let_def sm_def [symmetric] by simp
  {
    assume none: "visible_in (ones bm) (Suc p) = None" and "\<And>x. x \<in> ones bm \<Longrightarrow> Suc p \<le> x"
    then have "ones sm = {}" unfolding s by force
    then show ?thesis using none by (simp add: unf)
  next
    fix f assume f: "visible_in (ones bm) (Suc p) = Some f" "f \<in> ones bm" "f < Suc p"
      and le: "\<And>x. x \<in> ones bm \<Longrightarrow> x < Suc p \<Longrightarrow> x \<le> f"
    have f64: "f < 64" using f(2) by (rule ones_less)
    have fs: "f \<in> ones sm" unfolding s using f by simp
    then have nz: "sm \<noteq> 0" by force
    have "Max (ones sm) = f" unfolding s by (rule Max_eq_if) (use f le in auto)
    then have large: "find_the_largest sm = Inr (int f)" by (simp add: find_the_largest_eq [OF nz])
    define rm where "rm = NOT (set_bit_at_the_given_location f) AND sm"
    have "ones rm = ({..<64} - {f}) \<inter> ones sm"
      unfolding rm_def by (simp only: ones_and ones_not ones_set_bit [OF f64])
    then have r: "ones rm = ones sm - {f}" and r': "ones rm = {x \<in> ones bm. x < f}"
      using f(3) le unfolding s by (auto dest: ones_less le_neq_implies_less)
    show ?thesis
    proof (cases "builtin_popcountll sm = 1")
      case True
      then obtain q where "ones sm = {q}" by (auto simp: popcount_card card_1_singleton_iff)
      with fs r have "ones rm = {}" by auto
      then have "visible_in (ones bm) f = None" unfolding r' visible_in_def by simp
      with True large nz f f64 show ?thesis by (simp add: unf)
    next
      case False
      have "ones sm \<noteq> {f}" using False by (auto simp: popcount_card)
      with fs have "ones rm \<noteq> {}" unfolding r by blast
      then have rz: "rm \<noteq> 0" and vis: "visible_in (ones bm) f = Some (Max (ones rm))"
        unfolding visible_in_def r' [symmetric] by auto
      have "find_the_largest rm = Inr (int (Max (ones rm)))" by (rule find_the_largest_eq [OF rz])
      moreover have "Max (ones rm) < f" using vis by (simp add: visible_in_Some)
      ultimately show ?thesis using False large nz f f64 vis by (simp add: unf rm_def [symmetric])
    qed
  }
qed

lemma set_bit_in_bitmap_eq [bitmap_simps]:
  assumes "p < 64" and "p \<notin> ones bm"
  shows "set_bit_in_bitmap bm p = Inr (bm OR set_bit_at_the_given_location p)"
  using assms by (simp add: set_bit_in_bitmap_def bitmap_simps)

lemma ones_or_set_bit [simp]:
  "p < 64 \<Longrightarrow> ones (bm OR set_bit_at_the_given_location p) = insert p (ones bm)"
  by (simp add: ones_or)

lemma set_bit_in_bitmap_Inr:
  "set_bit_in_bitmap bm p = Inr bm' \<Longrightarrow> p < 64 \<and> p \<notin> ones bm \<and> ones bm' = insert p (ones bm)"
  by (auto simp: set_bit_in_bitmap_def guard_eq_Inr bitmap_simps)

section \<open>Properties\<close>

text \<open>C30: The bitmap searches find what their names say, on every bitmap with a bit set and every position below 64:
  the largest set position at or before \<open>pos\<close>, the largest strictly before it, and the two largest at or before it
  (-1 where there is none), with position 0 at the most significant bit, and none of their later assertions fails.
  On the empty bitmap and on a position from 64 on, each of the three fails with its first assertions.\<close>

theorem bitmap_searches:
  "find_the_largest_among_or_less_than bm p =
     (if bm \<noteq> 0 \<and> p < 64 then Inr (pos_of (visible_in (ones bm) (Suc p))) else Inl AssertFailed)
   \<and> find_the_largest_among_less_than bm p =
     (if bm \<noteq> 0 \<and> p < 64 then Inr (pos_of (visible_in (ones bm) p)) else Inl AssertFailed)
   \<and> find_the_two_largest_among_or_less_than bm p =
     (if bm \<noteq> 0 \<and> p < 64
      then Inr (case visible_in (ones bm) (Suc p) of None \<Rightarrow> (- 1, - 1)
                | Some f \<Rightarrow> (pos_of (visible_in (ones bm) f), int f))
      else Inl AssertFailed)"
proof (cases "bm \<noteq> 0 \<and> p < 64")
  case True
  then show ?thesis by (simp add: bitmap_simps)
next
  case False
  then consider "bm = 0" | "\<not> p < 64" by blast
  then show ?thesis
    by cases (simp_all only: find_the_largest_among_or_less_than_def find_the_largest_among_less_than_def
        find_the_two_largest_among_or_less_than_def guard_def simp_thms if_True if_False if_cancel)
qed

theorem bitmap_searches_witness:
  "find_the_two_largest_among_or_less_than 13 61 = Inr (60, 61)
   \<and> find_the_largest_among_less_than 13 60 = Inr (- 1)
   \<and> find_the_largest_among_or_less_than 0 60 = Inl AssertFailed"
proof -
  have ones: "p \<in> ones 13 \<longleftrightarrow> p \<in> {60, 61, 63}" for p
  proof -
    have "p \<in> ones 13 \<longleftrightarrow> p < 64 \<and> (63 - p = 0 \<or> 63 - p = 2 \<or> 63 - p = 3)"
      by (auto simp: ones_def bit_numeral_rec gr0_conv_Suc split: nat.splits)
    then show ?thesis by auto
  qed
  have "visible_in (ones 13) 62 = Some 61" "visible_in (ones 13) 61 = Some 60" "visible_in (ones 13) 60 = None"
    by (auto simp: visible_in_Some visible_in_None ones)
  then show ?thesis
    using bitmap_searches [of 13 61] bitmap_searches [of 13 60] bitmap_searches [of 0 60] by simp
qed

end
