(* ===== verification/Two_Level.thy ===== *)
theory Two_Level
  imports Bitmap
begin

text \<open>
  The search both Serval's row regions and Cheetah's write bitmaps make: a core bitmap says
  which cores wrote the row, and one transaction bitmap per core which of its transactions did.
  The serial id of transaction \<open>t\<close> of core \<open>c\<close> is \<open>64 c + t\<close>.
\<close>

section \<open>The search\<close>

definition two_level :: "u64 \<Rightarrow> (nat \<Rightarrow> u64) \<Rightarrow> nat \<Rightarrow> nat \<Rightarrow> (bool \<times> nat \<times> nat) res" where
  "two_level cb tb core tx =
     ebind (find_the_two_largest_among_or_less_than cb core) (\<lambda>(second_core, first_core).
       if first_core = - 1 then assert_then (first_core = - 1 \<and> second_core = - 1) (Inr (False, 0, 0))
       else if first_core = int core then
         ebind (find_the_largest_among_less_than (tb (nat first_core)) tx) (\<lambda>first_tx.
              if first_tx \<noteq> - 1 then Inr (True, nat first_core, nat first_tx)
              else if second_core \<noteq> - 1 then
                ebind (find_the_largest (tb (nat second_core))) (\<lambda>t. Inr (True, nat second_core, nat t))
              else Inr (False, 0, 0))
       else assert_then (0 \<le> first_core \<and> first_core < int core)
         (ebind (find_the_largest (tb (nat first_core))) (\<lambda>t. Inr (True, nat first_core, nat t))))"

definition two_level_ids :: "u64 \<Rightarrow> (nat \<Rightarrow> u64) \<Rightarrow> nat set" where
  "two_level_ids cb tb = {i. i div 64 \<in> ones cb \<and> i mod 64 \<in> ones (tb (i div 64))}"

definition found_pos :: "nat option \<Rightarrow> bool \<times> nat \<times> nat" where
  "found_pos v = (case v of None \<Rightarrow> (False, 0, 0) | Some i \<Rightarrow> (True, i div 64, i mod 64))"

lemma found_pos_simps [simp]: "found_pos None = (False, 0, 0)" "found_pos (Some i) = (True, i div 64, i mod 64)"
  by (simp_all add: found_pos_def)

lemma div_mod_64_less:
  fixes x y :: nat
  shows "x < y \<longleftrightarrow> x div 64 < y div 64 \<or> x div 64 = y div 64 \<and> x mod 64 < y mod 64"
  by (rule div_mod_less) simp

lemma two_level_ids_at: "t < 64 \<Longrightarrow> c * 64 + t \<in> two_level_ids cb tb \<longleftrightarrow> c \<in> ones cb \<and> t \<in> ones (tb c)"
  by (simp add: two_level_ids_def)

lemma pos_le: "x div 64 < c \<or> x div 64 = c \<and> x mod 64 \<le> t \<Longrightarrow> x \<le> c * 64 + (t :: nat)"
  using div_mult_mod_eq [of x 64] mod_less_divisor [of 64 x] by linarith

section \<open>Its specification\<close>

text \<open>The largest id below another, by core and transaction.\<close>

lemma visible_pos:
  assumes c: "c \<in> ones cb" and t: "t \<in> ones (tb c)" and lt: "c < n div 64 \<or> c = n div 64 \<and> t < n mod 64"
    and max: "\<And>d u. d \<in> ones cb \<Longrightarrow> u \<in> ones (tb d) \<Longrightarrow>
      d < n div 64 \<or> d = n div 64 \<and> u < n mod 64 \<Longrightarrow> d < c \<or> d = c \<and> u \<le> t"
  shows "visible_in (two_level_ids cb tb) n = Some (c * 64 + t)"
  unfolding visible_in_Some
proof (intro conjI allI impI)
  have t64: "t < 64" using t by (rule ones_less)
  show "c * 64 + t \<in> two_level_ids cb tb" using c t t64 by (simp add: two_level_ids_at)
  show "c * 64 + t < n" using lt t64 by (subst div_mod_64_less) simp
  fix x assume x: "x \<in> two_level_ids cb tb" "x < n"
  then have "x div 64 < c \<or> x div 64 = c \<and> x mod 64 \<le> t"
    using max [of "x div 64" "x mod 64"] by (simp add: two_level_ids_def div_mod_64_less [of x n])
  then show "x \<le> c * 64 + t" by (rule pos_le)
qed

text \<open>The last transaction of the last core in front.\<close>

lemma visible_last:
  assumes c: "c \<in> ones cb" "tb c \<noteq> 0" "c < n div 64"
    and last: "\<And>d u. d \<in> ones cb \<Longrightarrow> u \<in> ones (tb d) \<Longrightarrow>
      d < n div 64 \<or> d = n div 64 \<and> u < n mod 64 \<Longrightarrow> d \<le> c"
  shows "ebind (find_the_largest (tb c)) (\<lambda>t. Inr (True, c, nat t)) =
    Inr (found_pos (visible_in (two_level_ids cb tb) n))"
proof -
  let ?t = "Max (ones (tb c))"
  have t: "?t \<in> ones (tb c)" using c(2) by (simp add: Max_in)
  have "d < c \<or> d = c \<and> u \<le> ?t" if "d \<in> ones cb" "u \<in> ones (tb d)" "d < n div 64 \<or> d = n div 64 \<and> u < n mod 64" for d u
    using last [OF that] that(2) by (auto simp: order.order_iff_strict [of d])
  then have "visible_in (two_level_ids cb tb) n = Some (c * 64 + ?t)"
    using visible_pos [where tb = tb, OF c(1) t disjI1 [OF c(3)]] by blast
  then show ?thesis using c(2) ones_less [OF t] by (simp add: bitmap_simps)
qed

lemma two_level_spec:
  assumes cb: "cb \<noteq> 0" and tb: "\<And>c. c \<in> ones cb \<Longrightarrow> tb c \<noteq> 0" and n: "n < 4096"
  shows "two_level cb tb (n div 64) (n mod 64) = Inr (found_pos (visible_in (two_level_ids cb tb) n))"
proof -
  define core tx where "core = n div 64" and "tx = n mod 64"
  have n64: "core < 64" "tx < 64" using n by (auto simp: core_def tx_def)
  note two = find_the_two_largest_eq [OF cb n64(1)]
  have "two_level cb tb core tx = Inr (found_pos (visible_in (two_level_ids cb tb) n))"
  proof (rule visible_in_cases [of "ones cb" "Suc core"])
    assume none: "visible_in (ones cb) (Suc core) = None" and late: "\<And>x. x \<in> ones cb \<Longrightarrow> Suc core \<le> x"
    have "visible_in (two_level_ids cb tb) n = None"
      unfolding visible_in_None two_level_ids_def
      by (auto simp: not_less [symmetric] div_mod_64_less [of _ n] core_def dest!: late)
    then show ?thesis by (simp add: two_level_def two none)
  next
    fix f assume f: "visible_in (ones cb) (Suc core) = Some f" "f \<in> ones cb" "f < Suc core"
      "\<And>x. x \<in> ones cb \<Longrightarrow> x < Suc core \<Longrightarrow> x \<le> f"
    show ?thesis
    proof (cases "f = core")
      case False
      have "d \<le> f" if "d \<in> ones cb" "d < core \<or> d = core \<and> u < tx" for d u
        using f(4) [OF that(1)] that(2) by auto
      with visible_last [where tb = tb, OF f(2) tb [OF f(2)], of n] False f(3) show ?thesis
        by (simp add: two_level_def two f(1) flip: core_def tx_def)
    next
      case feq: True
      note less = find_the_largest_among_less_than_eq [OF tb [OF f(2)] n64(2), unfolded feq]
      show ?thesis
      proof (rule visible_in_cases [of "ones (tb core)" tx])
        fix t assume t: "visible_in (ones (tb core)) tx = Some t" "t \<in> ones (tb core)" "t < tx"
          "\<And>x. x \<in> ones (tb core) \<Longrightarrow> x < tx \<Longrightarrow> x \<le> t"
        have "visible_in (two_level_ids cb tb) n = Some (core * 64 + t)"
          by (rule visible_pos) (use f(2) feq t core_def tx_def in auto)
        then show ?thesis using ones_less [OF t(2)]
          by (simp add: two_level_def two f(1) [unfolded feq] less t(1))
      next
        assume t: "visible_in (ones (tb core)) tx = None" "\<And>x. x \<in> ones (tb core) \<Longrightarrow> tx \<le> x"
        have before: "d < core" if "d \<in> ones cb" "u \<in> ones (tb d)" "d < core \<or> d = core \<and> u < tx" for d u
          using that t(2) [of u] by auto
        show ?thesis
        proof (rule visible_in_cases [of "ones cb" core])
          fix s assume s: "visible_in (ones cb) core = Some s" "s \<in> ones cb" "s < core"
            "\<And>x. x \<in> ones cb \<Longrightarrow> x < core \<Longrightarrow> x \<le> s"
          have "ebind (find_the_largest (tb s)) (\<lambda>t. Inr (True, s, nat t)) =
              Inr (found_pos (visible_in (two_level_ids cb tb) n))"
            using s before by (intro visible_last tb) (auto simp flip: core_def tx_def)
          then show ?thesis by (simp add: two_level_def two f(1) [unfolded feq] less t(1) s(1))
        next
          assume s: "visible_in (ones cb) core = None" "\<And>x. x \<in> ones cb \<Longrightarrow> core \<le> x"
          have "visible_in (two_level_ids cb tb) n = None"
            unfolding visible_in_None two_level_ids_def
          proof (intro allI impI)
            fix x assume "x \<in> {i. i div 64 \<in> ones cb \<and> i mod 64 \<in> ones (tb (i div 64))}"
            then show "n \<le> x" using s(2) before [of "x div 64" "x mod 64"]
              by (fastforce simp: not_less [symmetric] div_mod_64_less [of x n] core_def tx_def)
          qed
          then show ?thesis by (simp add: two_level_def two f(1) [unfolded feq] less t(1) s(1))
        qed
      qed
    qed
  qed
  then show ?thesis by (simp only: core_def tx_def)
qed

end
