(* ===== verification/Stats.thy ===== *)
theory Stats
  imports Prelude
begin

text \<open>
  The measurement record of benchmarks/ycsb/include/tx_utils.hpp: the array
  \<open>measures_\<close> indexed by \<open>MeasureType\<close>, and the commit and abort counters kept per
  transaction profile. The counters are 64 bits wide, so they wrap around.
\<close>

datatype measure_type =
    Core | Node | Create | Delete | TotalTime | InitializationTime | ExecutionTime
  | Sync1Time | Sync2Time | WaitInInitialization | WaitInExecution | WaitInGC
  | PerfLeader | PerfMember

datatype tx_profile = READ_TX | UPDATE_TX | READMODIFYWRITE_TX

record per_tx_type =
  num_commits :: u64
  num_usr_aborts :: u64
  num_sys_aborts :: u64

record stat =
  measures :: "measure_type \<Rightarrow> u64"
  per_type :: "tx_profile \<Rightarrow> per_tx_type"

definition per_tx_type_init :: per_tx_type where
  "per_tx_type_init = \<lparr>num_commits = 0, num_usr_aborts = 0, num_sys_aborts = 0\<rparr>"

definition stat_init :: stat where
  "stat_init = \<lparr>measures = (\<lambda>_. 0), per_type = (\<lambda>_. per_tx_type_init)\<rparr>"

definition stat_record :: "measure_type \<Rightarrow> u64 \<Rightarrow> stat \<Rightarrow> stat" where
  "stat_record type n s = s\<lparr>measures := (measures s)(type := n)\<rparr>"

definition stat_increment :: "measure_type \<Rightarrow> stat \<Rightarrow> stat" where
  "stat_increment type s = s\<lparr>measures := (measures s)(type := measures s type + 1)\<rparr>"

definition stat_add :: "measure_type \<Rightarrow> u64 \<Rightarrow> stat \<Rightarrow> stat" where
  "stat_add type n s = s\<lparr>measures := (measures s)(type := measures s type + n)\<rparr>"

definition per_tx_type_add :: "per_tx_type \<Rightarrow> per_tx_type \<Rightarrow> per_tx_type" where
  "per_tx_type_add a rhs =
     \<lparr>num_commits = num_commits a + num_commits rhs,
      num_usr_aborts = num_usr_aborts a + num_usr_aborts rhs,
      num_sys_aborts = num_sys_aborts a + num_sys_aborts rhs\<rparr>"

text \<open>The loops over \<open>TxProfileID::MAX\<close> run through the profiles in the order of the enum.\<close>

definition tx_profiles :: "tx_profile list" where
  "tx_profiles = [READ_TX, UPDATE_TX, READMODIFYWRITE_TX]"

definition stat_add_all :: "stat \<Rightarrow> stat \<Rightarrow> stat" where
  "stat_add_all s rhs =
     fold (\<lambda>i t. t\<lparr>per_type := (per_type t)(i := per_tx_type_add (per_type t i) (per_type rhs i))\<rparr>)
       tx_profiles s"

definition aggregate_perf :: "stat \<Rightarrow> per_tx_type" where
  "aggregate_perf s = fold (\<lambda>i out. per_tx_type_add out (per_type s i)) tx_profiles per_tx_type_init"

lemma set_tx_profiles [simp]: "set tx_profiles = UNIV"
  using tx_profile.exhaust by (auto simp: tx_profiles_def)

lemma measures_simps [simp]:
  "measures (stat_increment t s) u = (if u = t then measures s t + 1 else measures s u)"
  "measures (stat_record t n s) u = (if u = t then n else measures s u)"
  "measures (stat_add t n s) u = (if u = t then measures s t + n else measures s u)"
  by (simp_all add: stat_increment_def stat_record_def stat_add_def)

text \<open>Merging two threads' statistics and aggregating commutes with aggregating first.\<close>

lemma aggregate_perf_add_all:
  "aggregate_perf (stat_add_all s t) = per_tx_type_add (aggregate_perf s) (aggregate_perf t)"
  by (simp add: aggregate_perf_def stat_add_all_def tx_profiles_def per_tx_type_add_def
      per_tx_type_init_def)

section \<open>Properties\<close>

text \<open>Merging the statistics of two threads and aggregating them over the transaction profiles gives the sum
  of the threads' aggregates, also where the 64-bit counters wrap around.\<close>

theorem stat_merge:
  "aggregate_perf (stat_add_all s t) = per_tx_type_add (aggregate_perf s) (aggregate_perf t)"
  by (rule aggregate_perf_add_all)

end
