(* ===== verification/Version_Store.thy ===== *)
theory Version_Store
  imports Stats
begin

text \<open>
  The heap the protocols share: \<open>Version\<close> objects and the records they point to
  (protocols/caracal/include/version.hpp, protocols/cheetah/include/version.hpp and the
  \<open>Version\<close> class of protocols/serval/include/row_region.hpp are the same class).
  Addresses are naturals, \<open>0\<close> is \<open>nullptr\<close>, \<open>brk\<close> is the next fresh address.
  A freed object is absent from the map, so reading it is the outcome \<open>UseAfterFree\<close>.
  The statistics record of the running thread is part of the store, because every allocation
  and every release of a version is counted in it.
\<close>

section \<open>Versions and the store\<close>

datatype version_status = PENDING | STABLE

record version =
  ver_rec :: nat
  ver_status :: version_status
  ver_deleted :: bool

record mem =
  vers :: "nat \<Rightarrow> version option"
  recs :: "nat \<Rightarrow> nat option"
  brk :: nat
  mstat :: stat

abbreviation (input) nullptr :: nat where
  "nullptr \<equiv> 0"

definition mem_init :: mem where
  "mem_init = \<lparr>vers = Map.empty, recs = Map.empty, brk = 1, mstat = stat_init\<rparr>"

definition load_version :: "nat \<Rightarrow> mem \<Rightarrow> version res" where
  "load_version v m =
     (if v = nullptr then Inl NullDeref
      else case vers m v of None \<Rightarrow> Inl UseAfterFree | Some x \<Rightarrow> Inr x)"

text \<open>\<open>operator new(record_size)\<close>, and \<open>new Record()\<close> of the initializers.\<close>

definition new_record :: "nat \<Rightarrow> mem \<Rightarrow> nat \<times> mem" where
  "new_record sz m = (brk m, m\<lparr>recs := (recs m)(brk m \<mapsto> sz), brk := brk m + 1\<rparr>)"

definition new_version :: "version \<Rightarrow> mem \<Rightarrow> nat \<times> mem" where
  "new_version x m = (brk m, m\<lparr>vers := (vers m)(brk m \<mapsto> x), brk := brk m + 1\<rparr>)"

text \<open>
  \<open>create_pending_version\<close> of the three protocols: a fresh version without record, not
  deleted and pending, counted as created.
\<close>

definition create_pending_version :: "mem \<Rightarrow> nat \<times> mem" where
  "create_pending_version m =
     (let (version, m1) = new_version \<lparr>ver_rec = nullptr, ver_status = PENDING, ver_deleted = False\<rparr> m
      in (version, m1\<lparr>mstat := stat_increment Create (mstat m1)\<rparr>))"

text \<open>
  The common tail of every collector: \<open>delete version->rec; delete version;
  stat.increment(Delete)\<close>. Deleting \<open>nullptr\<close> does nothing, deleting a dead record is an error.
\<close>

definition delete_version :: "nat \<Rightarrow> mem \<Rightarrow> mem res" where
  "delete_version v m =
     ebind (load_version v m) (\<lambda>x.
       guard (ver_rec x = nullptr \<or> recs m (ver_rec x) \<noteq> None) UseAfterFree
         (Inr (m\<lparr>recs := (if ver_rec x = nullptr then recs m else (recs m)(ver_rec x := None)),
                 vers := (vers m)(v := None),
                 mstat := stat_increment Delete (mstat m)\<rparr>)))"

text \<open>\<open>upsert\<close>: allocate the record, publish it, then mark the version stable.\<close>

definition upsert :: "nat \<Rightarrow> nat \<Rightarrow> mem \<Rightarrow> (nat \<times> mem) res" where
  "upsert record_size pending m =
     (let (r, m1) = new_record record_size m
      in ebind (load_version pending m1) (\<lambda>x.
           Inr (r, m1\<lparr>vers := (vers m1)(pending \<mapsto> x\<lparr>ver_rec := r, ver_status := STABLE\<rparr>)\<rparr>)))"

definition execute_read :: "nat \<Rightarrow> mem \<Rightarrow> nat res" where
  "execute_read visible m =
     assert_then (visible \<noteq> nullptr) (ebind (load_version visible m) (\<lambda>x. Inr (ver_rec x)))"

text \<open>
  The spin loop of \<open>wait_stable_and_execute_read\<close> leaves as soon as it observes a version that is
  not pending; \<open>None\<close> says that the loop spins in this store.
\<close>

definition wait_stable_and_execute_read :: "nat \<Rightarrow> mem \<Rightarrow> nat option res" where
  "wait_stable_and_execute_read visible m =
     assert_then (visible \<noteq> nullptr) (ebind (load_version visible m) (\<lambda>x.
       if ver_status x = PENDING then Inr None
       else ebind (execute_read visible m) (\<lambda>r. Inr (Some r))))"

section \<open>Well-formed stores\<close>

text \<open>
  Addresses in use lie below \<open>brk\<close>; a version's record is alive, is not shared with another
  version, and a stable version has one.
\<close>

definition live :: "mem \<Rightarrow> nat \<Rightarrow> bool" where
  "live m v \<longleftrightarrow> v \<noteq> nullptr \<and> vers m v \<noteq> None"

definition mem_ok :: "mem \<Rightarrow> bool" where
  "mem_ok m \<longleftrightarrow> 0 < brk m
     \<and> (\<forall>v. vers m v \<noteq> None \<longrightarrow> 0 < v \<and> v < brk m)
     \<and> (\<forall>r. recs m r \<noteq> None \<longrightarrow> 0 < r \<and> r < brk m)
     \<and> (\<forall>v x. vers m v = Some x \<longrightarrow> ver_rec x \<noteq> nullptr \<longrightarrow> recs m (ver_rec x) \<noteq> None)
     \<and> (\<forall>v w x y. vers m v = Some x \<longrightarrow> vers m w = Some y \<longrightarrow> ver_rec x = ver_rec y
          \<longrightarrow> ver_rec x \<noteq> nullptr \<longrightarrow> v = w)
     \<and> (\<forall>v x. vers m v = Some x \<longrightarrow> (ver_status x = STABLE \<longleftrightarrow> ver_rec x \<noteq> nullptr))"

definition stable :: "mem \<Rightarrow> nat \<Rightarrow> bool" where
  "stable m v \<longleftrightarrow> (\<exists>x. vers m v = Some x \<and> ver_status x = STABLE)"

lemma mem_okD:
  assumes "mem_ok m"
  shows "0 < brk m"
    and "vers m v = Some x \<Longrightarrow> 0 < v \<and> v < brk m"
    and "recs m r = Some n \<Longrightarrow> 0 < r \<and> r < brk m"
    and "vers m v = Some x \<Longrightarrow> ver_rec x \<noteq> nullptr \<Longrightarrow> \<exists>n. recs m (ver_rec x) = Some n"
    and "vers m v = Some x \<Longrightarrow> vers m w = Some y \<Longrightarrow> ver_rec x = ver_rec y \<Longrightarrow> ver_rec x \<noteq> nullptr \<Longrightarrow> v = w"
    and "vers m v = Some x \<Longrightarrow> ver_status x = STABLE \<longleftrightarrow> ver_rec x \<noteq> nullptr"
  using assms unfolding mem_ok_def by blast+

lemma mem_ok_init [simp]: "mem_ok mem_init"
  by (simp add: mem_ok_def mem_init_def)

lemma mem_ok_fresh: "mem_ok m \<Longrightarrow> vers m (brk m) = None \<and> recs m (brk m) = None"
  unfolding mem_ok_def by (meson less_irrefl)

lemma live_load: "mem_ok m \<Longrightarrow> live m v \<longleftrightarrow> (\<exists>x. load_version v m = Inr x)"
  by (auto simp: live_def load_version_def split: option.splits)

lemma load_version_Inr: "load_version v m = Inr x \<longleftrightarrow> v \<noteq> nullptr \<and> vers m v = Some x"
  by (auto simp: load_version_def split: option.splits)

lemma create_pending_version_eq:
  "create_pending_version m =
     (brk m, m\<lparr>vers := (vers m)(brk m \<mapsto> \<lparr>ver_rec = nullptr, ver_status = PENDING, ver_deleted = False\<rparr>),
               brk := brk m + 1, mstat := stat_increment Create (mstat m)\<rparr>)"
  by (simp add: create_pending_version_def new_version_def)

lemma create_pending_version_ok:
  assumes "mem_ok m" and "create_pending_version m = (v, m')"
  shows "mem_ok m'" "vers m v = None" "v \<noteq> nullptr" "v = brk m"
    "vers m' = (vers m)(v \<mapsto> \<lparr>ver_rec = nullptr, ver_status = PENDING, ver_deleted = False\<rparr>)"
proof -
  have eq: "v = brk m"
    "m' = m\<lparr>vers := (vers m)(brk m \<mapsto> \<lparr>ver_rec = nullptr, ver_status = PENDING, ver_deleted = False\<rparr>),
            brk := brk m + 1, mstat := stat_increment Create (mstat m)\<rparr>"
    using assms(2) by (auto simp: create_pending_version_eq)
  show "vers m v = None" "v = brk m" "v \<noteq> nullptr"
    "vers m' = (vers m)(v \<mapsto> \<lparr>ver_rec = nullptr, ver_status = PENDING, ver_deleted = False\<rparr>)"
    using mem_ok_fresh [OF assms(1)] mem_okD(1) [OF assms(1)] by (simp_all add: eq)
  show "mem_ok m'"
    using assms(1) unfolding mem_ok_def eq by (auto split: if_splits)
qed

lemma delete_version_ok:
  assumes ok: "mem_ok m" and v: "live m v"
  obtains m' where "delete_version v m = Inr m'" "mem_ok m'" "vers m' = (vers m)(v := None)"
    "brk m' = brk m" "mstat m' = stat_increment Delete (mstat m)"
proof -
  from v obtain x where x: "v \<noteq> nullptr" "vers m v = Some x" by (auto simp: live_def)
  define m' where "m' = m\<lparr>recs := (if ver_rec x = nullptr then recs m else (recs m)(ver_rec x := None)),
     vers := (vers m)(v := None), mstat := stat_increment Delete (mstat m)\<rparr>"
  have "delete_version v m = Inr m'"
    using x mem_okD(4) [OF ok x(2)] by (auto simp: delete_version_def load_version_def guard_def m'_def)
  moreover have "mem_ok m'"
    using ok x unfolding mem_ok_def m'_def by (auto split: if_splits)
  ultimately show ?thesis by (rule that) (simp_all add: m'_def)
qed

lemma upsert_ok:
  assumes ok: "mem_ok m" and v: "live m v" and pend: "\<not> stable m v"
  obtains r m' x where "upsert sz v m = Inr (r, m')" "mem_ok m'" "vers m v = Some x"
    "vers m' = (vers m)(v \<mapsto> x\<lparr>ver_rec := r, ver_status := STABLE\<rparr>)" "r = brk m" "mstat m' = mstat m"
proof -
  from v obtain x where x: "v \<noteq> nullptr" "vers m v = Some x" by (auto simp: live_def)
  define m' where "m' = m\<lparr>recs := (recs m)(brk m \<mapsto> sz), brk := brk m + 1,
     vers := (vers m)(v \<mapsto> x\<lparr>ver_rec := brk m, ver_status := STABLE\<rparr>)\<rparr>"
  have "upsert sz v m = Inr (brk m, m')"
    using x by (simp add: upsert_def new_record_def load_version_def m'_def)
  moreover have "mem_ok m'"
  proof -
    have lt: "ver_rec y < brk m" if "vers m w = Some y" for w y
      using mem_okD(1) [OF ok] mem_okD(4) [OF ok that] mem_okD(3) [OF ok, of "ver_rec y"]
      by (cases "ver_rec y = nullptr") auto
    show ?thesis
      using ok x lt unfolding mem_ok_def m'_def
      by (auto split: if_splits intro: less_SucI) (metis less_irrefl)+
  qed
  ultimately show ?thesis by (rule that) (simp_all add: m'_def x)
qed

lemma execute_read_eq:
  "v \<noteq> nullptr \<Longrightarrow> vers m v = Some x \<Longrightarrow> execute_read v m = Inr (ver_rec x)"
  by (simp add: execute_read_def load_version_def)

lemma wait_stable_eq:
  "v \<noteq> nullptr \<Longrightarrow> vers m v = Some x \<Longrightarrow>
     wait_stable_and_execute_read v m = Inr (if ver_status x = PENDING then None else Some (ver_rec x))"
  by (simp add: wait_stable_and_execute_read_def load_version_def execute_read_eq)

lemma stable_load: "stable m v \<Longrightarrow> mem_ok m \<Longrightarrow> \<exists>x. load_version v m = Inr x \<and> ver_rec x \<noteq> nullptr \<and> ver_status x = STABLE"
  using mem_okD(2,6) by (fastforce simp: stable_def load_version_Inr)

lemma stable_live: "stable m v \<Longrightarrow> mem_ok m \<Longrightarrow> live m v"
  using mem_okD(2) by (fastforce simp: stable_def live_def)

section \<open>Pending and stable versions\<close>

definition pend :: "mem \<Rightarrow> nat \<Rightarrow> bool" where
  "pend m v \<longleftrightarrow> (\<exists>x. vers m v = Some x \<and> ver_status x = PENDING)"

definition stab :: "mem \<Rightarrow> nat \<Rightarrow> nat \<Rightarrow> bool" where
  "stab m v r \<longleftrightarrow> (\<exists>x. vers m v = Some x \<and> ver_status x = STABLE \<and> ver_rec x = r)"

lemma stab_stable: "stab m v r \<Longrightarrow> stable m v"
  by (auto simp: stab_def stable_def)

lemma wait_pend: "v \<noteq> nullptr \<Longrightarrow> pend m v \<Longrightarrow> wait_stable_and_execute_read v m = Inr None"
  by (auto simp: pend_def wait_stable_eq)

lemma wait_stab: "v \<noteq> nullptr \<Longrightarrow> stab m v r \<Longrightarrow> wait_stable_and_execute_read v m = Inr (Some r)"
  by (auto simp: stab_def wait_stable_eq)

lemma read_stab: "v \<noteq> nullptr \<Longrightarrow> stab m v r \<Longrightarrow> execute_read v m = Inr r"
  by (auto simp: stab_def execute_read_eq)

lemma upsert_brk: "upsert sz v m = Inr (r, m') \<Longrightarrow> brk m' = brk m + 1"
  by (auto simp: upsert_def new_record_def load_version_def split: if_splits option.splits)

lemma pend_upsert:
  assumes "mem_ok m" and "pend m v" and "v \<noteq> nullptr"
  obtains r m' x where "upsert sz v m = Inr (r, m')" "mem_ok m'" "vers m v = Some x"
    "vers m' = (vers m)(v \<mapsto> x\<lparr>ver_rec := r, ver_status := STABLE\<rparr>)" "brk m \<le> brk m'"
proof -
  have "live m v" "\<not> stable m v" using assms(2,3) by (auto simp: pend_def live_def stable_def)
  from upsert_ok [OF assms(1) this, of sz] obtain r m' x where u: "upsert sz v m = Inr (r, m')" "mem_ok m'"
    "vers m v = Some x" "vers m' = (vers m)(v \<mapsto> x\<lparr>ver_rec := r, ver_status := STABLE\<rparr>)" by metis
  then show ?thesis using that upsert_brk [OF u(1)] by simp
qed

text \<open>What reading a stable version returns, and what waiting for a pending one does.\<close>

definition read_of :: "mem \<Rightarrow> nat \<Rightarrow> nat option" where
  "read_of m v = (case vers m v of None \<Rightarrow> None
     | Some x \<Rightarrow> if ver_status x = PENDING then None else Some (ver_rec x))"

lemma wait_read_of: "live m v \<Longrightarrow> wait_stable_and_execute_read v m = Inr (read_of m v)"
  by (auto simp: live_def read_of_def wait_stable_eq)

lemma stab_rec_inject: "mem_ok m \<Longrightarrow> stab m v r \<Longrightarrow> stab m w r \<Longrightarrow> v = w"
  using mem_okD(5,6) unfolding stab_def by metis

section \<open>How a store evolves\<close>

text \<open>Before the execution phase, versions are only created and freed: a version that is still there is unchanged.\<close>

definition mem_evolves :: "mem \<Rightarrow> mem \<Rightarrow> bool" where
  "mem_evolves m m' \<longleftrightarrow> brk m \<le> brk m' \<and> (\<forall>v < brk m. vers m' v = vers m v \<or> vers m' v = None)"

lemma mem_evolves_refl [simp]: "mem_evolves m m"
  by (simp add: mem_evolves_def)

lemma mem_evolves_trans: "mem_evolves m m1 \<Longrightarrow> mem_evolves m1 m2 \<Longrightarrow> mem_evolves m m2"
  unfolding mem_evolves_def by (metis (no_types, lifting) le_trans less_le_trans)

lemma mem_evolves_delete: "delete_version v m = Inr m' \<Longrightarrow> mem_evolves m m'"
  by (auto simp: delete_version_def ebind_eq_Inr guard_eq_Inr mem_evolves_def split: if_splits)

lemma mem_evolves_create: "create_pending_version m = (v, m') \<Longrightarrow> mem_evolves m m'"
  by (auto simp: create_pending_version_eq mem_evolves_def)

lemma mem_evolves_stab:
  assumes "mem_ok m" and "mem_evolves m m'" and "stab m v r" and "vers m' v \<noteq> None"
  shows "stab m' v r"
proof -
  obtain x where x: "vers m v = Some x" "ver_status x = STABLE" "ver_rec x = r" using assms(3) by (auto simp: stab_def)
  then have "v < brk m" using mem_okD(2) [OF assms(1)] by blast
  then show ?thesis using assms(2,4) x by (auto simp: mem_evolves_def stab_def)
qed

section \<open>Loading a record\<close>

lemma ver_rec_less: "mem_ok m \<Longrightarrow> vers m v = Some x \<Longrightarrow> ver_rec x < brk m"
  using mem_okD(1) [of m] mem_okD(4) [of m v x] mem_okD(3) [of m "ver_rec x"]
  by (cases "ver_rec x = nullptr") auto

lemma new_record_ok:
  assumes ok: "mem_ok m" and r: "new_record sz m = (r, m1)"
  shows "mem_ok m1" "recs m1 r = Some sz" "r \<noteq> nullptr" "vers m1 = vers m" "r = brk m" "brk m1 = brk m + 1"
proof -
  have eq: "r = brk m" "m1 = m\<lparr>recs := (recs m)(brk m \<mapsto> sz), brk := brk m + 1\<rparr>"
    using r by (auto simp: new_record_def)
  show "mem_ok m1" using ok unfolding mem_ok_def eq by (auto split: if_splits intro: less_SucI)
  show "recs m1 r = Some sz" "r \<noteq> nullptr" "vers m1 = vers m" "r = brk m" "brk m1 = brk m + 1"
    using mem_okD(1) [OF ok] by (simp_all add: eq)
qed

lemma new_stable_version_ok:
  assumes ok: "mem_ok m" and r: "recs m r \<noteq> None" "\<And>v x. vers m v = Some x \<Longrightarrow> ver_rec x \<noteq> r"
    and v: "new_version \<lparr>ver_rec = r, ver_status = STABLE, ver_deleted = False\<rparr> m = (v, m1)"
  shows "mem_ok m1" "v = brk m" "brk m1 = brk m + 1" "recs m1 = recs m"
    "vers m1 = (vers m)(v \<mapsto> \<lparr>ver_rec = r, ver_status = STABLE, ver_deleted = False\<rparr>)"
proof -
  have eq: "v = brk m"
    "m1 = m\<lparr>vers := (vers m)(brk m \<mapsto> \<lparr>ver_rec = r, ver_status = STABLE, ver_deleted = False\<rparr>), brk := brk m + 1\<rparr>"
    using v by (auto simp: new_version_def)
  have r0: "r \<noteq> nullptr" using r(1) mem_okD(3) [OF ok, of r] by auto
  show "mem_ok m1"
    using ok r r0 unfolding mem_ok_def eq by (auto split: if_splits intro: less_SucI)
  show "v = brk m" "brk m1 = brk m + 1" "recs m1 = recs m"
    "vers m1 = (vers m)(v \<mapsto> \<lparr>ver_rec = r, ver_status = STABLE, ver_deleted = False\<rparr>)" by (simp_all add: eq)
qed

end
