(* ===== verification/Version_Array.thy ===== *)
theory Version_Array
  imports Prelude
begin

text \<open>
  Vectors of (id, version) pairs kept in ascending order of the ids, the representation of the
  global version arrays of Serval and Caracal and of Caracal's per-core buffers, and the
  contract \<open>mv_index\<close> that every index of the versions of a row satisfies.
\<close>

section \<open>std::upper_bound and std::vector::insert\<close>

text \<open>
  On a range partitioned by \<open>p\<close>, \<open>std::upper_bound\<close> returns the first position where
  \<open>p\<close> holds, the end if there is none.
\<close>

definition upper_bound :: "('a \<Rightarrow> bool) \<Rightarrow> 'a list \<Rightarrow> nat" where
  "upper_bound p xs = length (takeWhile (\<lambda>x. \<not> p x) xs)"

definition vector_insert :: "nat \<Rightarrow> 'a \<Rightarrow> 'a list \<Rightarrow> 'a list" where
  "vector_insert it x xs = take it xs @ x # drop it xs"

lemma set_vector_insert [simp]: "set (vector_insert it x xs) = insert x (set xs)"
proof -
  have "set (take it xs) \<union> set (drop it xs) = set xs" by (metis append_take_drop_id set_append)
  then show ?thesis by (auto simp: vector_insert_def)
qed

abbreviation ascending :: "('k::linorder \<times> 'v) list \<Rightarrow> bool" where
  "ascending xs \<equiv> sorted_wrt (<) (map fst xs)"

text \<open>Insertion before the first element with a larger id.\<close>

definition insert_ascending :: "'k::linorder \<Rightarrow> 'v \<Rightarrow> ('k \<times> 'v) list \<Rightarrow> ('k \<times> 'v) list" where
  "insert_ascending k v xs = vector_insert (upper_bound (\<lambda>p. k < fst p) xs) (k, v) xs"

lemma takeWhile_eq_filter_sorted:
  fixes xs :: "('k::linorder \<times> 'v) list"
  shows "ascending xs \<Longrightarrow> takeWhile (\<lambda>p. fst p < n) xs = filter (\<lambda>p. fst p < n) xs"
proof (induction xs)
  case (Cons p xs)
  show ?case
  proof (cases "fst p < n")
    case False
    with Cons.prems have "filter (\<lambda>p. fst p < n) xs = []"
      by (force simp: filter_empty_conv)
    with False show ?thesis by simp
  qed (use Cons in simp)
qed simp

lemma insert_ascending_simps [simp]:
  "insert_ascending k v [] = [(k, v)]"
  "insert_ascending k v (p # xs) =
     (if k < fst p then (k, v) # p # xs else p # insert_ascending k v xs)"
  by (simp_all add: insert_ascending_def upper_bound_def vector_insert_def)

lemma set_insert_ascending [simp]: "set (insert_ascending k v xs) = insert (k, v) (set xs)"
  by (induction xs) auto

lemma length_insert_ascending [simp]: "length (insert_ascending k v xs) = Suc (length xs)"
  by (induction xs) auto

lemma insert_ascending_not_Nil [simp]: "insert_ascending k v xs \<noteq> []"
  by (cases xs) auto

lemma distinct_insert_ascending:
  "distinct (map f (insert_ascending k v xs)) \<longleftrightarrow> f (k, v) \<notin> f ` set xs \<and> distinct (map f xs)"
  by (induction xs) auto

lemma ascending_insert:
  "ascending xs \<Longrightarrow> k \<notin> fst ` set xs \<Longrightarrow> ascending (insert_ascending k v xs)"
  by (induction xs) (auto dest: less_trans)

lemma ascending_distinct: "ascending xs \<Longrightarrow> distinct (map fst xs)"
  by (simp add: strict_sorted_iff)

lemma map_of_insert_ascending:
  "k \<notin> fst ` set xs \<Longrightarrow> map_of (insert_ascending k v xs) = (map_of xs)(k \<mapsto> v)"
  by (induction xs) (auto simp: fun_eq_iff)

lemma insert_ascending_last:
  "\<forall>p \<in> set xs. fst p < k \<Longrightarrow> insert_ascending k v xs = xs @ [(k, v)]"
  by (induction xs) auto

lemma ascending_last: "ascending xs \<Longrightarrow> p \<in> set xs \<Longrightarrow> fst p \<le> fst (last xs)"
  by (induction xs) (auto intro: less_imp_le)

text \<open>
  The element before the first one whose id is not below \<open>n\<close>: what \<open>upper_bound\<close> with the
  comparison \<open>id <= pair.first\<close> followed by \<open>--it\<close> designates.
\<close>

lemma upper_bound_prev:
  assumes "ascending xs" and "\<exists>p \<in> set xs. fst p < n"
  defines "i \<equiv> upper_bound (\<lambda>p. n \<le> fst p) xs"
  shows "0 < i" "i \<le> length xs" "xs ! (i - 1) \<in> set xs" "fst (xs ! (i - 1)) < n"
    "\<And>p. p \<in> set xs \<Longrightarrow> fst p < n \<Longrightarrow> fst p \<le> fst (xs ! (i - 1))"
proof -
  let ?t = "takeWhile (\<lambda>p. fst p < n) xs"
  have i: "i = length ?t" by (simp add: i_def upper_bound_def not_le)
  have t: "?t = filter (\<lambda>p. fst p < n) xs" by (rule takeWhile_eq_filter_sorted [OF assms(1)])
  have ne: "?t \<noteq> []" using assms(2) by (auto simp: t filter_empty_conv)
  show "0 < i" "i \<le> length xs" using ne by (simp_all add: i length_takeWhile_le)
  have nth: "xs ! (i - 1) = last ?t"
    using ne by (simp add: i last_conv_nth takeWhile_nth)
  have "last ?t \<in> set ?t" using ne by simp
  then show "xs ! (i - 1) \<in> set xs" "fst (xs ! (i - 1)) < n" unfolding nth unfolding t by auto
  fix p assume p: "p \<in> set xs" "fst p < n"
  then have "p \<in> set ?t" by (simp add: t)
  moreover have "ascending ?t" using assms(1) unfolding t by (simp add: sorted_wrt_filter sorted_wrt_map)
  ultimately show "fst p \<le> fst (xs ! (i - 1))" unfolding nth by (intro ascending_last)
qed

section \<open>The contract of a visibility search\<close>

text \<open>
  What every protocol's search promises: over the serial ids that wrote the row, it finds the
  largest one below the reader's.
\<close>

locale version_lookup =
  fixes wf :: "'r \<Rightarrow> bool"
    and ids :: "'r \<Rightarrow> nat set"
    and search :: "'r \<Rightarrow> nat \<Rightarrow> nat option res"
    and searchable :: "'r \<Rightarrow> nat \<Rightarrow> bool"
  assumes search_ok: "wf r \<Longrightarrow> searchable r n \<Longrightarrow> search r n = Inr (visible_in (ids r) n)"
begin

lemma search_sees_past:
  assumes "wf r" and "searchable r n" and "search r n = Inr (Some i)"
  shows "i < n" and "i \<in> ids r"
proof -
  have "visible_in (ids r) n = Some i" using search_ok [OF assms(1,2)] assms(3) by simp
  then show "i < n" "i \<in> ids r" by (simp_all add: visible_in_Some)
qed

text \<open>Two readers in serial order see versions in serial order.\<close>

lemma search_mono:
  assumes "wf r" and "searchable r n" and "searchable r n'" and "n \<le> n'" and "search r n = Inr (Some i)"
  obtains j where "search r n' = Inr (Some j)" "i \<le> j"
proof -
  have i: "i \<in> ids r" "i < n" using search_sees_past [OF assms(1,2,5)] by auto
  show ?thesis
  proof (rule visible_in_cases [of "ids r" n'])
    assume "\<And>x. x \<in> ids r \<Longrightarrow> n' \<le> x"
    with i assms(4) show ?thesis by fastforce
  next
    fix j assume "visible_in (ids r) n' = Some j" and "\<And>x. x \<in> ids r \<Longrightarrow> x < n' \<Longrightarrow> x \<le> j"
    with that i assms(4) search_ok [OF assms(1,3)] show ?thesis by simp
  qed
qed

text \<open>Writers at or after the reader do not matter.\<close>

lemma search_ignores_future:
  assumes "wf r" and "wf r'" and "searchable r n" and "searchable r' n"
    and "\<And>x. x < n \<Longrightarrow> x \<in> ids r \<longleftrightarrow> x \<in> ids r'"
  shows "search r n = search r' n"
proof -
  have "visible_in (ids r) n = visible_in (ids r') n" using assms(5) by (rule visible_in_cong)
  then show ?thesis using search_ok [OF assms(1,3)] search_ok [OF assms(2,4)] by simp
qed

end

section \<open>The contract of a version index\<close>

text \<open>
  What a protocol relies on when it stores the versions of a row: appending adds one entry,
  and a lookup for serial id \<open>n\<close> returns the entry with the largest id below \<open>n\<close>.
  \<open>room\<close> is what an index needs before an append (capacity, or appends of one core in
  ascending order), \<open>readable\<close> what it needs before a lookup.
\<close>

definition visible_entry :: "(nat \<Rightarrow> 'v option) \<Rightarrow> nat \<Rightarrow> (nat \<times> 'v) option" where
  "visible_entry e n = (case visible_in (dom e) n of None \<Rightarrow> None | Some i \<Rightarrow> Some (i, the (e i)))"

fun run_appends :: "(nat \<Rightarrow> 'v \<Rightarrow> 'r \<Rightarrow> 'r res) \<Rightarrow> (nat \<times> 'v) list \<Rightarrow> 'r \<Rightarrow> 'r res" where
  "run_appends app [] r = Inr r"
| "run_appends app ((i, v) # ws) r = ebind (app i v r) (run_appends app ws)"

fun rooms :: "(nat \<Rightarrow> 'v \<Rightarrow> 'r \<Rightarrow> 'r res) \<Rightarrow> ('r \<Rightarrow> nat \<Rightarrow> 'v \<Rightarrow> bool) \<Rightarrow> (nat \<times> 'v) list \<Rightarrow> 'r \<Rightarrow> bool" where
  "rooms app room [] r = True"
| "rooms app room ((i, v) # ws) r =
     (room r i v \<and> (case app i v r of Inl _ \<Rightarrow> False | Inr r' \<Rightarrow> rooms app room ws r'))"

lemma visible_entry_Some:
  "visible_entry e n = Some (i, v) \<longleftrightarrow>
     e i = Some v \<and> i < n \<and> (\<forall>x. x \<in> dom e \<longrightarrow> x < n \<longrightarrow> x \<le> i)"
proof -
  have "visible_entry e n = Some (i, v) \<longleftrightarrow> visible_in (dom e) n = Some i \<and> the (e i) = v"
    by (auto simp: visible_entry_def split: option.splits)
  then show ?thesis unfolding visible_in_Some by auto
qed

lemma visible_entry_None: "visible_entry e n = None \<longleftrightarrow> (\<forall>x. x \<in> dom e \<longrightarrow> n \<le> x)"
  unfolding visible_in_None [symmetric] by (simp add: visible_entry_def split: option.splits)

lemma visible_entry_upd_ge:
  assumes "n \<le> i"
  shows "visible_entry (e(i \<mapsto> v)) n = visible_entry e n"
proof -
  have "visible_in (dom (e(i \<mapsto> v))) n = visible_in (dom e) n"
    using assms by (simp add: visible_in_insert_ge)
  moreover have "j \<noteq> i" if "visible_in (dom e) n = Some j" for j
    using that assms by (auto simp: visible_in_Some)
  ultimately show ?thesis by (auto simp: visible_entry_def split: option.splits)
qed

locale mv_index =
  fixes invar :: "'r \<Rightarrow> bool"
    and entries :: "'r \<Rightarrow> nat \<Rightarrow> 'v option"
    and app :: "nat \<Rightarrow> 'v \<Rightarrow> 'r \<Rightarrow> 'r res"
    and look :: "'r \<Rightarrow> nat \<Rightarrow> (nat \<times> 'v) option res"
    and room :: "'r \<Rightarrow> nat \<Rightarrow> 'v \<Rightarrow> bool"
    and readable :: "'r \<Rightarrow> nat \<Rightarrow> bool"
  assumes app_ok: "invar r \<Longrightarrow> room r i v \<Longrightarrow>
      \<exists>r'. app i v r = Inr r' \<and> invar r' \<and> entries r' = (entries r)(i \<mapsto> v)"
    and look_ok: "invar r \<Longrightarrow> readable r n \<Longrightarrow> look r n = Inr (visible_entry (entries r) n)"
begin

lemma look_own_invisible:
  assumes "invar r" and "readable r n" and "look r n = Inr (Some (i, v))"
  shows "i < n" and "entries r i = Some v"
  using assms look_ok [of r n] by (simp_all add: visible_entry_Some)

lemma look_append_later:
  assumes "invar r" and "room r i v" and "app i v r = Inr r'" and "readable r n" and "readable r' n"
    and "n \<le> i"
  shows "look r' n = look r n"
proof -
  from app_ok [OF assms(1,2)] assms(3) have "invar r'" "entries r' = (entries r)(i \<mapsto> v)"
    by auto
  with assms show ?thesis by (simp add: look_ok visible_entry_upd_ge)
qed

lemma run_ok:
  "invar r \<Longrightarrow> rooms app room ws r \<Longrightarrow>
     \<exists>r'. run_appends app ws r = Inr r' \<and> invar r' \<and> entries r' = entries r ++ map_of (rev ws)"
proof (induction ws arbitrary: r)
  case (Cons w ws)
  obtain i v where w: "w = (i, v)" by fastforce
  with Cons.prems have rm: "room r i v" by simp
  from app_ok [OF Cons.prems(1) rm] obtain r1 where
    r1: "app i v r = Inr r1" "invar r1" "entries r1 = (entries r)(i \<mapsto> v)" by blast
  with Cons.prems(2) have "rooms app room ws r1" by (simp add: w)
  from Cons.IH [OF r1(2) this] obtain r' where
    r': "run_appends app ws r1 = Inr r'" "invar r'" "entries r' = entries r1 ++ map_of (rev ws)"
    by blast
  have "entries r ++ map_of (rev (w # ws)) = (entries r)(i \<mapsto> v) ++ map_of (rev ws)"
    by (simp add: w)
  with r' r1 show ?case by (simp add: w)
qed simp

text \<open>
  The order of the appends does not matter: two schedules of the same writes give indexes
  with the same answers.
\<close>

lemma run_order_irrelevant:
  assumes "invar r" and "rooms app room ws r" and "rooms app room ws' r"
    and "distinct (map fst ws)" and "distinct (map fst ws')" and "set ws = set ws'"
    and "run_appends app ws r = Inr r1" and "run_appends app ws' r = Inr r2"
    and "readable r1 n" and "readable r2 n"
  shows "look r1 n = look r2 n"
proof -
  have "map_of (rev ws) = map_of (rev ws')"
    using assms(4-6) by (intro map_of_inject_set [THEN iffD2]) (simp_all add: rev_map [symmetric])
  moreover from run_ok [OF assms(1,2)] assms(7) have
    "invar r1" "entries r1 = entries r ++ map_of (rev ws)" by auto
  moreover from run_ok [OF assms(1,3)] assms(8) have
    "invar r2" "entries r2 = entries r ++ map_of (rev ws')" by auto
  ultimately show ?thesis using assms(9,10) by (simp add: look_ok)
qed

end

sublocale mv_index \<subseteq> lookup: version_lookup invar "\<lambda>r. dom (entries r)"
  "\<lambda>r n. ebind (look r n) (\<lambda>e. Inr (map_option fst e))" readable
proof (unfold_locales, goal_cases)
  case (1 r n)
  then show ?case by (simp add: look_ok visible_entry_def option.map_comp comp_def split: option.splits)
qed

section \<open>The transactions that execute on a row\<close>

datatype actor = Reader nat | Writer nat

definition actors :: "nat set \<Rightarrow> nat set \<Rightarrow> actor set" where
  "actors W R = Reader ` R \<union> Writer ` W"

text \<open>What a reader must get: the record of the last writer before it, or the one of the old master.\<close>

definition must_read :: "nat set \<Rightarrow> nat \<Rightarrow> (nat \<Rightarrow> nat) \<Rightarrow> nat \<Rightarrow> nat" where
  "must_read W r0 wr n = (case visible_in W n of None \<Rightarrow> r0 | Some i \<Rightarrow> wr i)"

end
