(* ===== verification/Serval_Region.thy ===== *)
theory Serval_Region
  imports Two_Level Version_Store Version_Array
begin

text \<open>
  protocols/serval/include/row_region.hpp: Serval's global version array, the per-core version
  arrays with their transaction bitmap, the row region that holds one of them per core with the
  core bitmap, and the controller that hands out regions.
\<close>

section \<open>Collecting versions\<close>

text \<open>The body of the collection loops: checks, deletes and counts every version of a vector.\<close>

fun gc_versions :: "nat list \<Rightarrow> mem \<Rightarrow> mem res" where
  "gc_versions [] m = Inr m"
| "gc_versions (version # rest) m =
     assert_then (version \<noteq> nullptr) (ebind (load_version version m) (\<lambda>x.
       assert_then (ver_rec x \<noteq> nullptr) (assert_then (ver_status x = STABLE)
         (ebind (delete_version version m) (gc_versions rest)))))"

section \<open>class GlobalVersionArray\<close>

record global_version_array =
  ids_slots :: "(int \<times> nat) list"

definition gva_is_exist :: "int \<Rightarrow> global_version_array \<Rightarrow> bool" where
  "gva_is_exist tx a \<longleftrightarrow> find (\<lambda>p. fst p = tx) (ids_slots a) \<noteq> None"

definition gva_search_visible_version :: "int \<Rightarrow> global_version_array \<Rightarrow> bool \<times> u64 \<times> nat" where
  "gva_search_visible_version serial_id a =
     (if ids_slots a = [] \<or> serial_id \<le> fst (hd (ids_slots a)) then (False, 0, nullptr)
      else let it = upper_bound (\<lambda>p. serial_id \<le> fst p) (ids_slots a);
               p = ids_slots a ! (it - 1)
           in (True, word_of_int (fst p), snd p))"

definition gva_append :: "nat \<Rightarrow> int \<Rightarrow> global_version_array \<Rightarrow> global_version_array res" where
  "gva_append version serial_id a =
     assert_then (version \<noteq> nullptr)
       (Inr (a\<lparr>ids_slots := insert_ascending serial_id version (ids_slots a)\<rparr>))"

definition gva_minor_gc :: "global_version_array \<Rightarrow> mem \<Rightarrow> (global_version_array \<times> mem) res" where
  "gva_minor_gc a m =
     ebind (gc_versions (map snd (ids_slots a)) m)
       (\<lambda>m'. Inr (a\<lparr>ids_slots := map (\<lambda>p. (fst p, nullptr)) (ids_slots a)\<rparr>, m'))"

definition gva_gc :: "global_version_array \<Rightarrow> mem \<Rightarrow> (global_version_array \<times> mem) res" where
  "gva_gc a m = ebind (gva_minor_gc a m) (\<lambda>(a', m'). Inr (a'\<lparr>ids_slots := []\<rparr>, m'))"

definition gva_is_dirty :: "global_version_array \<Rightarrow> bool" where
  "gva_is_dirty a \<longleftrightarrow> ids_slots a \<noteq> []"

definition gva_is_empty :: "global_version_array \<Rightarrow> bool" where
  "gva_is_empty a \<longleftrightarrow> ids_slots a = []"

definition gva_pop_final_state :: "global_version_array \<Rightarrow> (int \<times> nat) \<times> global_version_array" where
  "gva_pop_final_state a =
     (if gva_is_empty a then ((- 1, nullptr), a)
      else (last (ids_slots a), a\<lparr>ids_slots := butlast (ids_slots a)\<rparr>))"

definition gva_latest :: "global_version_array \<Rightarrow> int \<times> nat" where
  "gva_latest a = (if gva_is_empty a then (- 1, nullptr) else last (ids_slots a))"

section \<open>class PerCoreVersionArray\<close>

record per_core_version_array =
  transaction_bitmap :: u64
  slots :: "nat list"

definition MAX_SLOTS_OF_PER_CORE_ARRAY :: int where
  "MAX_SLOTS_OF_PER_CORE_ARRAY = 64"

definition pcva_init :: per_core_version_array where
  "pcva_init = \<lparr>transaction_bitmap = 0, slots = []\<rparr>"

definition pcva_minor_gc :: "per_core_version_array \<Rightarrow> mem \<Rightarrow> (per_core_version_array \<times> mem) res" where
  "pcva_minor_gc a m =
     ebind (gc_versions (slots a) m)
       (\<lambda>m'. Inr (a\<lparr>slots := map (\<lambda>_. nullptr) (slots a)\<rparr>, m'))"

definition pcva_do_gc_and_initialize_tx_bitmap ::
  "per_core_version_array \<Rightarrow> mem \<Rightarrow> (per_core_version_array \<times> mem) res" where
  "pcva_do_gc_and_initialize_tx_bitmap a m =
     ebind (pcva_minor_gc a m) (\<lambda>(a', m'). Inr (a'\<lparr>transaction_bitmap := 0, slots := []\<rparr>, m'))"

definition pcva_update_transaction_bitmap ::
  "nat \<Rightarrow> per_core_version_array \<Rightarrow> per_core_version_array res" where
  "pcva_update_transaction_bitmap tx_id a =
     assert_then (\<not> is_bit_set_at_the_position (transaction_bitmap a) tx_id)
       (ebind (set_bit_in_bitmap (transaction_bitmap a) tx_id) (\<lambda>b.
          assert_then (transaction_bitmap a \<noteq> b)
            (assert_then (builtin_popcountll (transaction_bitmap a) + 1 = builtin_popcountll b)
              (assert_then (is_bit_set_at_the_position b tx_id)
                (Inr (a\<lparr>transaction_bitmap := b\<rparr>))))))"

definition pcva_length :: "per_core_version_array \<Rightarrow> int" where
  "pcva_length a = int (builtin_popcountll (transaction_bitmap a))"

definition pcva_get :: "nat \<Rightarrow> per_core_version_array \<Rightarrow> nat res" where
  "pcva_get tx a =
     assert_then (tx < 64) (assert_then (set_bit_at_the_given_location tx \<noteq> 0)
       (let mask = fill_the_left_side_until_the_given_position tx;
            len = int (builtin_popcountll (transaction_bitmap a AND mask));
            index = len - 1
        in assert_then (0 \<le> index)
             (guard (nat index < length (slots a)) OutOfRange
               (assert_then (slots a ! nat index \<noteq> nullptr) (Inr (slots a ! nat index))))))"

definition pcva_latest :: "per_core_version_array \<Rightarrow> nat res" where
  "pcva_latest a =
     assert_then (0 < pcva_length a) (assert_then (pcva_length a = int (length (slots a)))
       (Inr (slots a ! nat (pcva_length a - 1))))"

definition pcva_pop_latest :: "per_core_version_array \<Rightarrow> ((int \<times> nat) \<times> per_core_version_array) res" where
  "pcva_pop_latest a =
     assert_then (0 < pcva_length a) (assert_then (pcva_length a = int (length (slots a)))
       (ebind (find_the_largest (transaction_bitmap a)) (\<lambda>id.
          Inr ((id, last (slots a)), a\<lparr>slots := butlast (slots a)\<rparr>))))"

definition pcva_append :: "nat \<Rightarrow> nat \<Rightarrow> per_core_version_array \<Rightarrow> per_core_version_array res" where
  "pcva_append version tx_id a =
     assert_then (version \<noteq> nullptr) (assert_then (tx_id < 64)
       (assert_then (pcva_length a < MAX_SLOTS_OF_PER_CORE_ARRAY)
         (let len = pcva_length a; debug_len = length (slots a)
          in assert_then (len = int (length (slots a))) (assert_then (length (slots a) < 64)
               (let a1 = a\<lparr>slots := vector_insert (nat len) version (slots a)\<rparr>
                in assert_then (length (slots a1) < 64) (assert_then (debug_len + 1 = length (slots a1))
                     (assert_then (\<not> is_bit_set_at_the_position (transaction_bitmap a1) tx_id)
                       (ebind (pcva_update_transaction_bitmap tx_id a1) (\<lambda>a2.
                          assert_then (is_bit_set_at_the_position (transaction_bitmap a2) tx_id)
                            (assert_then (len + 1 = pcva_length a2)
                              (assert_then (pcva_length a2 = int (length (slots a2)))
                                (Inr a2))))))))))))"

section \<open>class RowRegion\<close>

definition LOGICAL_CORE_SIZE :: nat where
  "LOGICAL_CORE_SIZE = 64"

record row_region =
  core_bitmap :: u64
  arrays :: "nat \<Rightarrow> per_core_version_array"

definition region_init :: row_region where
  "region_init = \<lparr>core_bitmap = 0, arrays = (\<lambda>core_id. pcva_init)\<rparr>"

definition initialize_core_bitmap :: "row_region \<Rightarrow> row_region" where
  "initialize_core_bitmap r = r\<lparr>core_bitmap := 0\<rparr>"

definition identify_visible_version :: "nat \<Rightarrow> nat \<Rightarrow> row_region \<Rightarrow> (bool \<times> nat \<times> nat) res" where
  "identify_visible_version core tx r =
     ebind (find_the_two_largest_among_or_less_than (core_bitmap r) core) (\<lambda>(second_core, first_core).
       if first_core = - 1 then assert_then (first_core = - 1 \<and> second_core = - 1) (Inr (False, 0, 0))
       else if first_core = int core then
         ebind (find_the_largest_among_less_than (transaction_bitmap (arrays r (nat first_core))) tx)
           (\<lambda>first_tx.
              if first_tx \<noteq> - 1 then Inr (True, nat first_core, nat first_tx)
              else if second_core \<noteq> - 1 then
                ebind (find_the_largest (transaction_bitmap (arrays r (nat second_core)))) (\<lambda>t.
                  Inr (True, nat second_core, nat t))
              else Inr (False, 0, 0))
       else assert_then (0 \<le> first_core \<and> first_core < int core)
         (ebind (find_the_largest (transaction_bitmap (arrays r (nat first_core)))) (\<lambda>t.
            Inr (True, nat first_core, nat t))))"

definition region_is_dirty :: "row_region \<Rightarrow> bool" where
  "region_is_dirty r \<longleftrightarrow> core_bitmap r \<noteq> 0"

definition region_pop_final_state :: "row_region \<Rightarrow> ((int \<times> nat) \<times> row_region) res" where
  "region_pop_final_state r =
     ebind (find_the_largest (core_bitmap r)) (\<lambda>core.
       ebind (pcva_pop_latest (arrays r (nat core))) (\<lambda>(p, a).
         Inr (p, r\<lparr>arrays := (arrays r)(nat core := a)\<rparr>)))"

definition region_gc_and_initialize_tx_bitmap :: "nat \<Rightarrow> row_region \<Rightarrow> mem \<Rightarrow> (row_region \<times> mem) res" where
  "region_gc_and_initialize_tx_bitmap core r m =
     guard (core < LOGICAL_CORE_SIZE) OutOfRange
       (ebind (pcva_do_gc_and_initialize_tx_bitmap (arrays r core) m) (\<lambda>(a, m').
          Inr (r\<lparr>arrays := (arrays r)(core := a)\<rparr>, m')))"

definition region_is_first_write :: "nat \<Rightarrow> row_region \<Rightarrow> bool" where
  "region_is_first_write core r \<longleftrightarrow> \<not> is_bit_set_at_the_position (core_bitmap r) core"

definition region_append :: "nat \<Rightarrow> nat \<Rightarrow> nat \<Rightarrow> row_region \<Rightarrow> mem \<Rightarrow> (row_region \<times> mem) res" where
  "region_append core version tx r m =
     assert_then (version \<noteq> nullptr) (assert_then (tx < 64)
       (guard (core < LOGICAL_CORE_SIZE) OutOfRange
         (let is_first_write = \<not> is_bit_set_at_the_position (core_bitmap r) core
          in ebind (if is_first_write
                    then ebind (region_gc_and_initialize_tx_bitmap core r m) (\<lambda>(r1, m1).
                           let r2 = r1\<lparr>core_bitmap := core_bitmap r1 OR set_bit_at_the_given_location core\<rparr>
                           in assert_then (is_bit_set_at_the_position (core_bitmap r2) core) (Inr (r2, m1)))
                    else Inr (r, m))
             (\<lambda>(r2, m1). assert_then (is_bit_set_at_the_position (core_bitmap r2) core)
                (ebind (pcva_append version tx (arrays r2 core)) (\<lambda>a.
                   Inr (r2\<lparr>arrays := (arrays r2)(core := a)\<rparr>, m1)))))))"

section \<open>class RowRegionController\<close>

text \<open>
  The regions are an array of \<open>NUM_REGIONS\<close> objects; a \<open>RowRegion *\<close> is an index into it.
  The controller's lock is taken and released inside \<open>fetch_new_region\<close>, which is one atomic step.
\<close>

definition NUM_REGIONS :: nat where
  "NUM_REGIONS = 10000"

record row_region_controller =
  regions :: "nat \<Rightarrow> row_region"
  used :: nat

definition rrc_init :: row_region_controller where
  "rrc_init = \<lparr>regions = (\<lambda>_. region_init), used = 0\<rparr>"

definition fetch_new_region :: "row_region_controller \<Rightarrow> (nat \<times> row_region_controller) res" where
  "fetch_new_region c =
     assert_then (used c < NUM_REGIONS)
       (if NUM_REGIONS \<le> used c then Inl (RuntimeError ''NUM_REGIONS <= used_'')
        else Inr (used c, c\<lparr>used := used c + 1\<rparr>))"

section \<open>The global version array as a version index\<close>

definition gva_ok :: "global_version_array \<Rightarrow> bool" where
  "gva_ok a \<longleftrightarrow> ascending (ids_slots a)
     \<and> (\<forall>p \<in> set (ids_slots a). 0 \<le> fst p \<and> fst p < 2 ^ 31 \<and> snd p \<noteq> nullptr)"

definition gva_entries :: "global_version_array \<Rightarrow> nat \<Rightarrow> nat option" where
  "gva_entries a i = map_of (ids_slots a) (int i)"

text \<open>The search result as an optional entry.\<close>

definition found_entry :: "bool \<times> u64 \<times> nat \<Rightarrow> (nat \<times> nat) option" where
  "found_entry t = (case t of (b, i, v) \<Rightarrow> if b then Some (unat i, v) else None)"

lemma dom_gva_entries_iff: "x \<in> dom (gva_entries a) \<longleftrightarrow> int x \<in> fst ` set (ids_slots a)"
  by (simp add: domIff gva_entries_def map_of_eq_None_iff)

lemma gva_search_spec:
  assumes "gva_ok a"
  shows "found_entry (gva_search_visible_version (int n) a) = visible_entry (gva_entries a) n"
proof (cases "\<exists>p \<in> set (ids_slots a). fst p < int n")
  case True
  let ?xs = "ids_slots a"
  let ?it = "upper_bound (\<lambda>p. int n \<le> fst p) ?xs"
  have asc: "ascending ?xs" using assms by (simp add: gva_ok_def)
  note ub = upper_bound_prev [OF asc True]
  obtain j v where jv: "?xs ! (?it - 1) = (j, v)" by fastforce
  with ub(3,4) have in_xs: "(j, v) \<in> set ?xs" and lt: "j < int n" by auto
  then have j: "0 \<le> j" "j < 2 ^ 31" using assms by (auto simp: gva_ok_def)
  have hd: "fst (hd ?xs) < int n"
    using True asc by (cases ?xs) (auto dest: less_trans)
  have uj: "unat (word_of_int j :: u64) = nat j"
    using j by (simp add: unat_eq_nat_uint uint_word_of_int take_bit_int_eq_self)
  have "found_entry (gva_search_visible_version (int n) a) = Some (nat j, v)"
    using True hd jv uj by (auto simp: gva_search_visible_version_def found_entry_def Let_def)
  moreover have "visible_entry (gva_entries a) n = Some (nat j, v)"
    unfolding visible_entry_Some
  proof (intro conjI allI impI)
    show "gva_entries a (nat j) = Some v"
      using in_xs j ascending_distinct [OF asc] by (simp add: gva_entries_def)
    show "nat j < n" using lt j by simp
    fix x assume "x \<in> dom (gva_entries a)" "x < n"
    then obtain p where "p \<in> set ?xs" "int x = fst p" by (auto simp: dom_gva_entries_iff)
    with \<open>x < n\<close> show "x \<le> nat j" using ub(5) [of p] jv by simp
  qed
  ultimately show ?thesis by simp
next
  case False
  then have "visible_entry (gva_entries a) n = None"
    by (auto simp: visible_entry_None dom_gva_entries_iff not_less)
  moreover have "ids_slots a = [] \<or> int n \<le> fst (hd (ids_slots a))"
    using False by (cases "ids_slots a") (auto simp: not_less)
  ultimately show ?thesis by (auto simp: gva_search_visible_version_def found_entry_def)
qed

lemma gva_append_ok:
  assumes "gva_ok a" and "v \<noteq> nullptr" and "i < 2 ^ 31" and "i \<notin> dom (gva_entries a)"
  shows "\<exists>a'. gva_append v (int i) a = Inr a' \<and> gva_ok a' \<and> gva_entries a' = (gva_entries a)(i \<mapsto> v)"
proof -
  let ?a = "a\<lparr>ids_slots := insert_ascending (int i) v (ids_slots a)\<rparr>"
  have new: "int i \<notin> fst ` set (ids_slots a)"
    using assms(4) by (simp add: dom_gva_entries_iff)
  have "gva_ok ?a"
    using assms new by (simp add: gva_ok_def ascending_insert)
  moreover have "gva_entries ?a = (gva_entries a)(i \<mapsto> v)"
    by (auto simp: gva_entries_def fun_eq_iff map_of_insert_ascending [OF new])
  ultimately show ?thesis using assms(2) by (simp add: gva_append_def)
qed

definition gva_app :: "nat \<Rightarrow> nat \<Rightarrow> global_version_array \<Rightarrow> global_version_array res" where
  "gva_app i v a = gva_append v (int i) a"

definition gva_look :: "global_version_array \<Rightarrow> nat \<Rightarrow> (nat \<times> nat) option res" where
  "gva_look a n = Inr (found_entry (gva_search_visible_version (int n) a))"

definition gva_room :: "global_version_array \<Rightarrow> nat \<Rightarrow> nat \<Rightarrow> bool" where
  "gva_room a i v \<longleftrightarrow> v \<noteq> nullptr \<and> i < 2 ^ 31 \<and> \<not> gva_is_exist (int i) a"

lemma gva_is_exist_iff: "gva_is_exist (int i) a \<longleftrightarrow> i \<in> dom (gva_entries a)"
  by (simp add: gva_is_exist_def find_None_iff dom_gva_entries_iff image_iff Bex_def)

interpretation gva: mv_index gva_ok gva_entries gva_app gva_look gva_room "\<lambda>_ _. True"
  by unfold_locales
    (simp_all add: gva_app_def gva_look_def gva_room_def gva_append_ok gva_search_spec gva_is_exist_iff)

section \<open>Collection frees what it is given, once\<close>

lemma gc_versions_ok:
  assumes "mem_ok m" and "distinct vs" and "\<forall>v \<in> set vs. stable m v"
  shows "\<exists>m'. gc_versions vs m = Inr m' \<and> mem_ok m' \<and> vers m' = vers m |` (- set vs) \<and> brk m' = brk m"
  using assms
proof (induction vs arbitrary: m)
  case (Cons v vs)
  then obtain x where x: "load_version v m = Inr x" "ver_rec x \<noteq> nullptr" "ver_status x = STABLE"
    using stable_load by (metis list.set_intros(1))
  then have v0: "v \<noteq> nullptr" and lv: "live m v" by (auto simp: load_version_Inr live_def)
  obtain m1 where m1: "delete_version v m = Inr m1" "mem_ok m1" "vers m1 = (vers m)(v := None)" "brk m1 = brk m"
    using delete_version_ok [OF Cons.prems(1) lv] by metis
  have "\<forall>w \<in> set vs. stable m1 w" using Cons.prems m1(3) by (auto simp: stable_def)
  with Cons.IH [OF m1(2)] Cons.prems(2) obtain m' where
    m': "gc_versions vs m1 = Inr m'" "mem_ok m'" "vers m' = vers m1 |` (- set vs)" "brk m' = brk m1" by auto
  have "vers m' = vers m |` (- set (v # vs))"
    by (auto simp: m' m1 restrict_map_def fun_eq_iff)
  with m' m1 x v0 show ?case by simp
qed (simp add: restrict_map_def)

section \<open>The per-core version array\<close>

text \<open>Slot \<open>k\<close> belongs to the transaction with the \<open>k\<close>-th smallest set bit.\<close>

definition rank :: "nat set \<Rightarrow> nat \<Rightarrow> nat" where
  "rank S t = card {x \<in> S. x < t}"

definition pcva_ok :: "per_core_version_array \<Rightarrow> bool" where
  "pcva_ok a \<longleftrightarrow> length (slots a) = card (ones (transaction_bitmap a))
     \<and> card (ones (transaction_bitmap a)) < 64 \<and> nullptr \<notin> set (slots a)"

definition pcva_entries :: "per_core_version_array \<Rightarrow> nat \<Rightarrow> nat option" where
  "pcva_entries a t =
     (if t \<in> ones (transaction_bitmap a) then Some (slots a ! rank (ones (transaction_bitmap a)) t) else None)"

lemma dom_pcva_entries [simp]: "dom (pcva_entries a) = ones (transaction_bitmap a)"
  by (auto simp: pcva_entries_def dom_def)

lemma rank_less_card: "finite S \<Longrightarrow> t \<in> S \<Longrightarrow> rank S t < card S"
  unfolding rank_def by (intro psubset_card_mono) auto

lemma rank_insert_larger: "t \<le> u \<Longrightarrow> rank (insert u S) t = rank S t"
  unfolding rank_def by (rule arg_cong [where f = card]) auto

lemma rank_all_below: "\<forall>x \<in> S. x < t \<Longrightarrow> rank S t = card S"
  unfolding rank_def by (rule arg_cong [where f = card]) auto

lemma pcva_init_ok [simp]: "pcva_ok pcva_init" "pcva_entries pcva_init = Map.empty"
  by (simp_all add: pcva_ok_def pcva_init_def pcva_entries_def fun_eq_iff)

lemma pcva_length_card: "pcva_length a = int (card (ones (transaction_bitmap a)))"
  by (simp add: pcva_length_def popcount_card)

text \<open>The bitmap selects the right slot.\<close>

lemma pcva_get_eq:
  assumes ok: "pcva_ok a" and t: "pcva_entries a t = Some v"
  shows "pcva_get t a = Inr v"
proof -
  let ?S = "ones (transaction_bitmap a)"
  have tS: "t \<in> ?S" and v: "v = slots a ! rank ?S t"
    using t by (auto simp: pcva_entries_def split: if_splits)
  then have t64: "t < 64" by (simp add: ones_less)
  have r: "rank ?S t < length (slots a)" using ok tS by (simp add: pcva_ok_def rank_less_card)
  then have nz: "slots a ! rank ?S t \<noteq> nullptr" using ok by (metis nth_mem pcva_ok_def)
  have "builtin_popcountll (transaction_bitmap a AND fill_the_left_side_until_the_given_position t)
      = card {x \<in> ?S. x \<le> t}"
    using t64 by (simp add: popcount_card ones_below less_Suc_eq_le)
  also have "\<dots> = Suc (rank ?S t)" using tS by (simp add: card_less_Suc_iff rank_def)
  finally have pop: "builtin_popcountll (transaction_bitmap a AND fill_the_left_side_until_the_given_position t)
      = Suc (rank ?S t)" .
  have "set_bit_at_the_given_location t \<noteq> 0"
    using t64 by (simp flip: ones_eq_empty_iff)
  with t64 r nz v show ?thesis by (simp add: pcva_get_def pop)
qed

lemma pcva_append_eq:
  assumes ok: "pcva_ok a" and v: "v \<noteq> nullptr" and t: "t < 64"
    and asc: "\<forall>x \<in> ones (transaction_bitmap a). x < t" and len: "length (slots a) < 63"
  shows "pcva_append v t a =
    Inr \<lparr>transaction_bitmap = transaction_bitmap a OR set_bit_at_the_given_location t, slots = slots a @ [v]\<rparr>"
proof -
  let ?b = "transaction_bitmap a" let ?b' = "?b OR set_bit_at_the_given_location t"
  have nt: "t \<notin> ones ?b" using asc by auto
  then have ne: "?b \<noteq> ?b'" using t ones_inject [of ?b ?b'] by auto
  have card: "card (ones ?b') = Suc (card (ones ?b))" using nt t by simp
  have L: "length (slots a) = card (ones ?b)" using ok by (simp add: pcva_ok_def)
  have upd: "pcva_update_transaction_bitmap t (a\<lparr>slots := xs\<rparr>) =
      Inr (a\<lparr>slots := xs, transaction_bitmap := ?b'\<rparr>)" for xs
    using t nt ne card by (simp add: pcva_update_transaction_bitmap_def bitmap_simps popcount_card)
  show ?thesis
    using t nt L card len v upd
    by (simp add: pcva_append_def pcva_length_card MAX_SLOTS_OF_PER_CORE_ARRAY_def bitmap_simps
        vector_insert_def Let_def)
qed

lemma pcva_append_ok:
  assumes ok: "pcva_ok a" and v: "v \<noteq> nullptr" and t: "t < 64"
    and asc: "\<forall>x \<in> ones (transaction_bitmap a). x < t" and len: "length (slots a) < 63"
  obtains a' where "pcva_append v t a = Inr a'" "pcva_ok a'" "slots a' = slots a @ [v]"
    "ones (transaction_bitmap a') = insert t (ones (transaction_bitmap a))"
    "pcva_entries a' = (pcva_entries a)(t \<mapsto> v)"
proof -
  let ?S = "ones (transaction_bitmap a)"
  have L: "length (slots a) = card ?S" using ok by (simp add: pcva_ok_def)
  have nt: "t \<notin> ?S" using asc by auto
  define a' where "a' = \<lparr>transaction_bitmap = transaction_bitmap a OR set_bit_at_the_given_location t, slots = slots a @ [v]\<rparr>"
  have b': "ones (transaction_bitmap a') = insert t ?S" using t by (simp add: a'_def)
  have "pcva_entries a' = (pcva_entries a)(t \<mapsto> v)"
  proof
    fix x
    have "rank (insert t ?S) x = rank ?S x" "rank ?S x < length (slots a)" if "x \<in> ?S"
      using that asc rank_insert_larger [of x t ?S] rank_less_card [of ?S x] by (auto simp: L less_imp_le)
    moreover have "rank (insert t ?S) t = length (slots a)"
      using asc by (simp add: rank_insert_larger rank_all_below L)
    ultimately show "pcva_entries a' x = ((pcva_entries a)(t \<mapsto> v)) x"
      by (auto simp: pcva_entries_def b' nth_append) (auto simp: a'_def nth_append)
  qed
  moreover have "pcva_ok a'"
    using ok len v nt b' by (simp add: pcva_ok_def) (simp add: a'_def)
  ultimately show ?thesis
    using that [of a'] b' pcva_append_eq [OF assms] by (simp add: a'_def)
qed

text \<open>The 64th transaction of a core does not fit, although the array has 64 slots.\<close>

lemma pcva_append_64th:
  assumes "pcva_ok a" and "length (slots a) = 63"
  shows "pcva_append v t a = Inl AssertFailed"
  using assms
  by (simp add: pcva_append_def pcva_ok_def pcva_length_card vector_insert_def Let_def guard_def)

section \<open>The row region as a version index\<close>

text \<open>
  The cores whose bit is set hold the versions of the current epoch. The slots of the other
  cores are left from earlier epochs; they are stable and are freed by the core's next first
  write. No version is in two slots.
\<close>

definition region_ok :: "row_region \<times> mem \<Rightarrow> bool" where
  "region_ok rm \<longleftrightarrow> (case rm of (r, m) \<Rightarrow> mem_ok m
     \<and> (\<forall>c < 64. distinct (slots (arrays r c)))
     \<and> (\<forall>c < 64. \<forall>d < 64. c \<noteq> d \<longrightarrow> set (slots (arrays r c)) \<inter> set (slots (arrays r d)) = {})
     \<and> (\<forall>c < 64. c \<in> ones (core_bitmap r) \<longrightarrow> pcva_ok (arrays r c) \<and> transaction_bitmap (arrays r c) \<noteq> 0)
     \<and> (\<forall>c < 64. c \<notin> ones (core_bitmap r) \<longrightarrow> (\<forall>v \<in> set (slots (arrays r c)). stable m v)))"

definition region_entries :: "row_region \<Rightarrow> nat \<Rightarrow> nat option" where
  "region_entries r i =
     (if i div 64 \<in> ones (core_bitmap r) then pcva_entries (arrays r (i div 64)) (i mod 64) else None)"

definition region_room :: "row_region \<times> mem \<Rightarrow> nat \<Rightarrow> nat \<Rightarrow> bool" where
  "region_room rm i v \<longleftrightarrow> (case rm of (r, m) \<Rightarrow>
     v \<noteq> nullptr \<and> i < 4096 \<and> (\<forall>c < 64. v \<notin> set (slots (arrays r c)))
     \<and> (i div 64 \<in> ones (core_bitmap r) \<longrightarrow>
          length (slots (arrays r (i div 64))) < 63
          \<and> (\<forall>x \<in> ones (transaction_bitmap (arrays r (i div 64))). x < i mod 64)))"

definition region_app :: "nat \<Rightarrow> nat \<Rightarrow> row_region \<times> mem \<Rightarrow> (row_region \<times> mem) res" where
  "region_app i v rm = (case rm of (r, m) \<Rightarrow> region_append (i div 64) v (i mod 64) r m)"

text \<open>A read of a dirty region: identify the version, then fetch it from the core's array.\<close>

definition region_look :: "row_region \<Rightarrow> nat \<Rightarrow> (nat \<times> nat) option res" where
  "region_look r n =
     ebind (identify_visible_version (n div 64) (n mod 64) r) (\<lambda>(is_found, core, tx).
       if is_found then ebind (pcva_get tx (arrays r core)) (\<lambda>v. Inr (Some (core * 64 + tx, v)))
       else Inr None)"

lemma region_entries_at:
  "t < 64 \<Longrightarrow> region_entries r (c * 64 + t) =
     (if c \<in> ones (core_bitmap r) then pcva_entries (arrays r c) t else None)"
  by (simp add: region_entries_def)

lemma identify_two_level:
  "identify_visible_version core tx r = two_level (core_bitmap r) (\<lambda>c. transaction_bitmap (arrays r c)) core tx"
  by (simp add: identify_visible_version_def two_level_def)

lemma dom_region_entries:
  "dom (region_entries r) = two_level_ids (core_bitmap r) (\<lambda>c. transaction_bitmap (arrays r c))"
  by (auto simp: region_entries_def pcva_entries_def two_level_ids_def dom_def)

lemma region_look_spec:
  assumes ok: "region_ok (r, m)" and n: "n < 4096" and dirty: "core_bitmap r \<noteq> 0"
  shows "region_look r n = Inr (visible_entry (region_entries r) n)"
proof -
  have "transaction_bitmap (arrays r c) \<noteq> 0" if "c \<in> ones (core_bitmap r)" for c
    using ok that ones_less [OF that] by (auto simp: region_ok_def)
  from two_level_spec [OF dirty this n] have
    id: "identify_visible_version (n div 64) (n mod 64) r = Inr (found_pos (visible_in (dom (region_entries r)) n))"
    by (simp add: identify_two_level dom_region_entries)
  show ?thesis
  proof (cases "visible_in (dom (region_entries r)) n")
    case None
    then show ?thesis by (simp add: region_look_def id visible_entry_def)
  next
    case (Some i)
    then obtain v where v: "region_entries r i = Some v" by (auto simp: visible_in_Some)
    then have e: "pcva_entries (arrays r (i div 64)) (i mod 64) = Some v" "i div 64 \<in> ones (core_bitmap r)"
      by (auto simp: region_entries_def split: if_splits)
    then have "pcva_ok (arrays r (i div 64))" using ok ones_less [OF e(2)] by (auto simp: region_ok_def)
    with pcva_get_eq [OF this e(1)] Some v show ?thesis by (simp add: region_look_def id visible_entry_def)
  qed
qed

lemma region_okD:
  assumes "region_ok (r, m)"
  shows "mem_ok m" and "c < 64 \<Longrightarrow> distinct (slots (arrays r c))"
    and "c < 64 \<Longrightarrow> d < 64 \<Longrightarrow> c \<noteq> d \<Longrightarrow> set (slots (arrays r c)) \<inter> set (slots (arrays r d)) = {}"
    and "c \<in> ones (core_bitmap r) \<Longrightarrow> pcva_ok (arrays r c)"
    and "c \<in> ones (core_bitmap r) \<Longrightarrow> transaction_bitmap (arrays r c) \<noteq> 0"
    and "c < 64 \<Longrightarrow> c \<notin> ones (core_bitmap r) \<Longrightarrow> v \<in> set (slots (arrays r c)) \<Longrightarrow> stable m v"
  using assms ones_less unfolding region_ok_def by auto

lemma region_init_ok [simp]: "mem_ok m \<Longrightarrow> region_ok (region_init, m)" "region_entries region_init = Map.empty"
  by (auto simp: region_ok_def region_init_def pcva_init_def region_entries_def fun_eq_iff)

text \<open>The array a core appends to: its own, emptied if this is the core's first write of the epoch.\<close>

definition region_cleared :: "row_region \<Rightarrow> nat \<Rightarrow> per_core_version_array" where
  "region_cleared r c = (if c \<in> ones (core_bitmap r) then arrays r c else pcva_init)"

definition region_stale :: "row_region \<Rightarrow> nat \<Rightarrow> nat set" where
  "region_stale r c = (if c \<in> ones (core_bitmap r) then {} else set (slots (arrays r c)))"

lemma region_append_eq:
  assumes ok: "region_ok (r, m)" and "v \<noteq> nullptr" and t: "t < 64" and c: "c < 64"
    and a': "pcva_append v t (region_cleared r c) = Inr a'"
  obtains m' where "region_append c v t r m =
      Inr (\<lparr>core_bitmap = core_bitmap r OR set_bit_at_the_given_location c, arrays = (arrays r)(c := a')\<rparr>, m')"
    "mem_ok m'" "vers m' = vers m |` (- region_stale r c)" "brk m' = brk m"
proof (cases "c \<in> ones (core_bitmap r)")
  case True
  then have "core_bitmap r OR set_bit_at_the_given_location c = core_bitmap r"
    using c by (auto simp flip: ones_inject)
  with that [of m] True assms region_okD(1) [OF ok] show ?thesis
    by (simp add: region_append_def LOGICAL_CORE_SIZE_def region_cleared_def region_stale_def bitmap_simps
        restrict_map_def)
next
  case False
  let ?r2 = "r\<lparr>core_bitmap := core_bitmap r OR set_bit_at_the_given_location c, arrays := (arrays r)(c := pcva_init)\<rparr>"
  have "\<forall>w \<in> set (slots (arrays r c)). stable m w" using region_okD(6) [OF ok c False] by blast
  then obtain m' where m': "gc_versions (slots (arrays r c)) m = Inr m'" "mem_ok m'"
      "vers m' = vers m |` (- set (slots (arrays r c)))" "brk m' = brk m"
    using gc_versions_ok [OF region_okD(1) [OF ok] region_okD(2) [OF ok c]] by auto
  then have "pcva_do_gc_and_initialize_tx_bitmap (arrays r c) m = Inr (pcva_init, m')"
    by (simp add: pcva_do_gc_and_initialize_tx_bitmap_def pcva_minor_gc_def pcva_init_def)
  with that [of m'] False assms m' show ?thesis
    by (simp add: region_append_def LOGICAL_CORE_SIZE_def region_cleared_def region_stale_def bitmap_simps
        region_gc_and_initialize_tx_bitmap_def)
qed

lemma region_append_ok:
  assumes ok: "region_ok (r, m)" and v: "v \<noteq> nullptr" and t: "t < 64" and c: "c < 64"
    and fresh: "\<forall>c < 64. v \<notin> set (slots (arrays r c))"
    and room: "c \<in> ones (core_bitmap r) \<longrightarrow> length (slots (arrays r c)) < 63
      \<and> (\<forall>x \<in> ones (transaction_bitmap (arrays r c)). x < t)"
  obtains r' m' where "region_append c v t r m = Inr (r', m')" "region_ok (r', m')"
    "region_entries r' = (region_entries r)(c * 64 + t \<mapsto> v)"
    "ones (core_bitmap r') = insert c (ones (core_bitmap r))"
    "arrays r' = (arrays r)(c := arrays r' c)" "slots (arrays r' c) = slots (region_cleared r c) @ [v]"
    "vers m' = vers m |` (- region_stale r c)" "brk m' = brk m"
proof -
  have okc: "pcva_ok (region_cleared r c)"
    using region_okD(4) [OF ok] by (simp add: region_cleared_def)
  have "\<forall>x \<in> ones (transaction_bitmap (region_cleared r c)). x < t" "length (slots (region_cleared r c)) < 63"
    using room by (auto simp: region_cleared_def pcva_init_def)
  from pcva_append_ok [OF okc v t this] obtain a' where a': "pcva_append v t (region_cleared r c) = Inr a'"
    "pcva_ok a'" "slots a' = slots (region_cleared r c) @ [v]"
    "ones (transaction_bitmap a') = insert t (ones (transaction_bitmap (region_cleared r c)))"
    "pcva_entries a' = (pcva_entries (region_cleared r c))(t \<mapsto> v)" by metis
  define r' where "r' = \<lparr>core_bitmap = core_bitmap r OR set_bit_at_the_given_location c, arrays = (arrays r)(c := a')\<rparr>"
  from region_append_eq [OF ok v t c a'(1)] obtain m' where m': "region_append c v t r m = Inr (r', m')"
    "mem_ok m'" "vers m' = vers m |` (- region_stale r c)" "brk m' = brk m"
    unfolding r'_def by metis
  have cb: "ones (core_bitmap r') = insert c (ones (core_bitmap r))" using c by (simp add: r'_def)
  have sl: "set (slots a') \<subseteq> insert v (set (slots (arrays r c)))" "distinct (slots a')"
    using a'(3) fresh region_okD(2) [OF ok c] c by (auto simp: region_cleared_def pcva_init_def)
  have tb: "transaction_bitmap a' \<noteq> 0" using a'(4) by (auto simp flip: ones_eq_empty_iff)
  have "region_ok (r', m')"
  proof -
    have st: "stable m' w" if "d < 64" "d \<noteq> c" "d \<notin> ones (core_bitmap r)" "w \<in> set (slots (arrays r d))" for d w
      using region_okD(6) [OF ok that(1,3,4)] region_okD(3) [OF ok that(1) c that(2)] that(4) m'(3)
      by (auto simp: stable_def region_stale_def restrict_map_def)
    have disj: "set (slots a') \<inter> set (slots (arrays r d)) = {}" if "d < 64" "d \<noteq> c" for d
      using sl(1) fresh that region_okD(3) [OF ok that(1) c that(2)] by fastforce
    show ?thesis unfolding region_ok_def prod.case
    proof (intro conjI allI impI ballI)
      show "mem_ok m'" by (rule m')
    next
      fix d :: nat assume "d < 64" then show "distinct (slots (arrays r' d))"
        using sl(2) region_okD(2) [OF ok] by (simp add: r'_def)
    next
      fix d e :: nat assume "d < 64" "e < 64" "d \<noteq> e"
      then show "set (slots (arrays r' d)) \<inter> set (slots (arrays r' e)) = {}"
        using disj [of d] disj [of e] region_okD(3) [OF ok, of d e] by (auto simp: r'_def)
    next
      fix d :: nat assume "d \<in> ones (core_bitmap r')"
      then show "pcva_ok (arrays r' d)" "transaction_bitmap (arrays r' d) \<noteq> 0"
        using a'(2) tb region_okD(4,5) [OF ok, of d] cb by (auto simp: r'_def)
    next
      fix d w assume "d < 64" "d \<notin> ones (core_bitmap r')" "w \<in> set (slots (arrays r' d))"
      then show "stable m' w" using st [of d w] cb by (auto simp: r'_def)
    qed
  qed
  moreover have "region_entries r' = (region_entries r)(c * 64 + t \<mapsto> v)"
  proof
    fix x
    have x: "x = c * 64 + t \<longleftrightarrow> x div 64 = c \<and> x mod 64 = t" using t by auto
    show "region_entries r' x = ((region_entries r)(c * 64 + t \<mapsto> v)) x"
      using a'(5) by (auto simp: region_entries_def cb x region_cleared_def) (auto simp: r'_def)
  qed
  ultimately show ?thesis
    using that m' cb a'(3) by (simp add: r'_def)
qed

interpretation region: mv_index region_ok "\<lambda>(r, m). region_entries r" region_app
  "\<lambda>(r, m) n. region_look r n" region_room "\<lambda>(r, m) n. n < 4096 \<and> core_bitmap r \<noteq> 0"
proof (unfold_locales, goal_cases)
  case (1 rm i v)
  obtain r m where rm: "rm = (r, m)" by fastforce
  have rt: "v \<noteq> nullptr" "i mod 64 < 64" "i div 64 < 64" "\<forall>c < 64. v \<notin> set (slots (arrays r c))"
    "i div 64 \<in> ones (core_bitmap r) \<longrightarrow> length (slots (arrays r (i div 64))) < 63
      \<and> (\<forall>x \<in> ones (transaction_bitmap (arrays r (i div 64))). x < i mod 64)"
    using 1(2) by (auto simp: region_room_def rm)
  obtain r' m' where
    "region_append (i div 64) v (i mod 64) r m = Inr (r', m')" "region_ok (r', m')"
    "region_entries r' = (region_entries r)(i div 64 * 64 + i mod 64 \<mapsto> v)"
    by (rule region_append_ok [OF 1(1) [unfolded rm] rt]) blast
  then show ?case by (simp add: rm region_app_def)
next
  case (2 rm n)
  then show ?case by (auto intro: region_look_spec)
qed

section \<open>Properties\<close>

text \<open>C27: The order in which the cores append to a row region does not matter: two schedules of the same
  appends, each with its cores' ids ascending and room for them, give regions in which every transaction
  finds the same visible version.\<close>

theorem region_lookup_any_order:
  assumes "region_ok (r, m)" and "rooms region_app region_room ws (r, m)" and "rooms region_app region_room ws' (r, m)"
    and "distinct (map fst ws)" and "distinct (map fst ws')" and "set ws = set ws'"
    and "run_appends region_app ws (r, m) = Inr (r1, m1)" and "run_appends region_app ws' (r, m) = Inr (r2, m2)"
    and "n < 4096" and "core_bitmap r1 \<noteq> 0" and "core_bitmap r2 \<noteq> 0"
  shows "region_look r1 n = region_look r2 n"
  using region.run_order_irrelevant [OF assms(1-8), of n] assms(9-11) by simp

lemma two_core_schedules:
  assumes "mem_ok m"
  shows "\<exists>r1 r2. rooms region_app region_room [(0, 5), (64, 6)] (region_init, m)
      \<and> rooms region_app region_room [(64, 6), (0, 5)] (region_init, m)
      \<and> run_appends region_app [(0, 5), (64, 6)] (region_init, m) = Inr r1
      \<and> run_appends region_app [(64, 6), (0, 5)] (region_init, m) = Inr r2
      \<and> core_bitmap (fst r1) \<noteq> 0 \<and> core_bitmap (fst r2) \<noteq> 0"
proof -
  have room: "region_room (region_init, m) i v" if "v \<noteq> nullptr" "i < 4096" for i v
    using that by (auto simp: region_room_def region_init_def pcva_init_def)
  have step: "\<exists>r'. region_app i v (region_init, m) = Inr r' \<and> region_ok r' \<and> region_room r' j w
      \<and> (\<exists>r''. region_app j w r' = Inr r'' \<and> core_bitmap (fst r'') \<noteq> 0)"
    if iv: "v \<noteq> nullptr" "i < 4096" and jw: "w \<noteq> nullptr" "j < 4096" "i div 64 \<noteq> j div 64" "v \<noteq> w" for i v j w
  proof -
    have i: "i div 64 < 64" "j div 64 < 64" using iv(2) jw(2) by simp_all
    have clr: "region_cleared region_init c = pcva_init" for c by (simp add: region_cleared_def region_init_def)
    obtain a where a: "pcva_append v (i mod 64) pcva_init = Inr a" "pcva_ok a" "slots a = [v]"
      by (rule pcva_append_ok [of pcva_init v "i mod 64"]) (use iv(1) in \<open>auto simp: pcva_init_def pcva_ok_def\<close>)
    have ok: "region_ok (region_init, m)" by (rule region_init_ok(1) [OF assms])
    obtain r1 m1 where r1: "region_append (i div 64) v (i mod 64) region_init m = Inr (r1, m1)"
      "region_ok (r1, m1)" "ones (core_bitmap r1) = {i div 64}" "arrays r1 = (arrays region_init)(i div 64 := a)"
    proof -
      obtain m' where m': "region_append (i div 64) v (i mod 64) region_init m =
          Inr (\<lparr>core_bitmap = core_bitmap region_init OR set_bit_at_the_given_location (i div 64),
                arrays = (arrays region_init)(i div 64 := a)\<rparr>, m')"
        by (rule region_append_eq [OF ok iv(1) _ i(1), of "i mod 64" a]) (simp_all add: clr a(1))
      obtain r2 m2 where "region_append (i div 64) v (i mod 64) region_init m = Inr (r2, m2)" "region_ok (r2, m2)"
        by (rule region_append_ok [OF ok iv(1) mod_less_divisor i(1)]) (auto simp: region_init_def pcva_init_def)
      with m' that show ?thesis using i(1) by (simp add: region_init_def)
    qed
    have rm: "region_room (r1, m1) j w"
      using jw i r1(3,4) a(3) by (auto simp: region_room_def region_init_def pcva_init_def)
    then obtain r' where r': "region_app j w (r1, m1) = Inr r'" using region.app_ok [OF r1(2)] by blast
    have "core_bitmap (fst r') \<noteq> 0"
    proof -
      obtain b where b: "pcva_append w (j mod 64) pcva_init = Inr b"
        by (rule pcva_append_ok [of pcva_init w "j mod 64"]) (use jw(1) in \<open>auto simp: pcva_init_def pcva_ok_def\<close>)
      then have b: "pcva_append w (j mod 64) (region_cleared r1 (j div 64)) = Inr b"
        using jw(3) i r1(3,4) by (simp add: region_cleared_def region_init_def)
      obtain m' where "region_append (j div 64) w (j mod 64) r1 m1 =
          Inr (\<lparr>core_bitmap = core_bitmap r1 OR set_bit_at_the_given_location (j div 64),
                arrays = (arrays r1)(j div 64 := b)\<rparr>, m')"
        by (rule region_append_eq [OF r1(2) jw(1) _ i(2) b]) simp_all
      then have "core_bitmap (fst r') = core_bitmap r1 OR set_bit_at_the_given_location (j div 64)"
        using r' by (auto simp: region_app_def)
      then have "j div 64 \<in> ones (core_bitmap (fst r'))" using i(2) by (simp only: ones_or_set_bit) simp
      then show ?thesis by force
    qed
    with r1 rm r' show ?thesis by (cases r') (auto simp: region_app_def)
  qed
  from step [of 5 0 6 64] step [of 6 64 5 0] room [of 5 0] room [of 6 64] show ?thesis by auto
qed

theorem region_lookup_any_order_witness:
  "\<exists>r1 r2. run_appends region_app [(0, 5), (64, 6)] (region_init, mem_init) = Inr r1
     \<and> run_appends region_app [(64, 6), (0, 5)] (region_init, mem_init) = Inr r2
     \<and> region_look (fst r1) 100 = region_look (fst r2) 100"
proof -
  obtain r1 m1 r2 m2 where r: "rooms region_app region_room [(0, 5), (64, 6)] (region_init, mem_init)"
    "rooms region_app region_room [(64, 6), (0, 5)] (region_init, mem_init)"
    "run_appends region_app [(0, 5), (64, 6)] (region_init, mem_init) = Inr (r1, m1)"
    "run_appends region_app [(64, 6), (0, 5)] (region_init, mem_init) = Inr (r2, m2)"
    "core_bitmap r1 \<noteq> 0" "core_bitmap r2 \<noteq> 0"
    using two_core_schedules [OF mem_ok_init] by auto
  have "region_look r1 100 = region_look r2 100"
    by (rule region_lookup_any_order [OF region_init_ok(1) [OF mem_ok_init] r(1,2) _ _ _ r(3,4) _ r(5,6)]) auto
  with r(3,4) show ?thesis by auto
qed

text \<open>C28: A per-core version array holds at most 63 versions although \<open>MAX_SLOTS_OF_PER_CORE_ARRAY\<close> is 64: the
  append of a transaction later than all others succeeds exactly while there are fewer than 63, because the
  64th insertion fails the assertion \<open>slots_.size() < 64\<close>.\<close>

theorem per_core_array_capacity:
  assumes "pcva_ok a" and "v \<noteq> nullptr" and "t < 64" and "\<forall>x \<in> ones (transaction_bitmap a). x < t"
  shows "(\<exists>a'. pcva_append v t a = Inr a') \<longleftrightarrow> length (slots a) < 63"
proof
  assume "\<exists>a'. pcva_append v t a = Inr a'"
  moreover have "length (slots a) \<le> 63"
  proof -
    have "card (ones (transaction_bitmap a)) \<le> card {..<t}" using assms(4) by (intro card_mono) auto
    then show ?thesis using assms(1,3) by (simp add: pcva_ok_def)
  qed
  ultimately show "length (slots a) < 63" using pcva_append_64th [OF assms(1)] by (cases "length (slots a) = 63") auto
next
  assume "length (slots a) < 63"
  then show "\<exists>a'. pcva_append v t a = Inr a'" using pcva_append_eq [OF assms] by blast
qed

theorem per_core_array_capacity_witness:
  "\<not> (\<exists>a'. pcva_append 7 63 \<lparr>transaction_bitmap = - 2, slots = replicate 63 5\<rparr> = Inr a')
   \<and> (\<exists>a'. pcva_append 7 0 pcva_init = Inr a')"
proof -
  have one: "ones 1 = {63}" by (auto simp: ones_def bit_1_iff)
  have "ones (NOT 1) = {..<63}" unfolding ones_not one by auto
  then have o: "ones (- 2) = {..<63}" by simp
  have "pcva_ok \<lparr>transaction_bitmap = - 2, slots = replicate 63 5\<rparr>" unfolding pcva_ok_def by (simp only: per_core_version_array.simps o) simp
  from per_core_array_capacity [OF this, of 7 63] per_core_array_capacity [OF pcva_init_ok(1), of 7 0]
  show ?thesis by (simp add: o) (simp add: pcva_init_def)
qed

end
