(* ===== verification/Lock.thy ===== *)
theory Lock
  imports Prelude
begin

text \<open>
  protocols/common/readwritelock.hpp over utils/atomic_wrapper.hpp: a reader-writer lock in one
  signed counter. Every operation is split at its atomic accesses, and any number of threads
  interleave at that granularity.
\<close>

section \<open>utils/atomic_wrapper.hpp\<close>

definition load_acquire :: "'a \<Rightarrow> 'a" where
  "load_acquire ptr = ptr"

definition store_release :: "'a \<Rightarrow> 'a \<Rightarrow> 'a" where
  "store_release ptr v = v"

text \<open>Success flag, new memory contents, and the value left in \<open>before\<close>.\<close>

definition compare_exchange :: "'a \<Rightarrow> 'a \<Rightarrow> 'a \<Rightarrow> bool \<times> 'a \<times> 'a" where
  "compare_exchange m before after = (if m = before then (True, after, before) else (False, m, m))"

definition fetch_add :: "'a::plus \<Rightarrow> 'a \<Rightarrow> 'a \<times> 'a" where
  "fetch_add m v = (m, m + v)"

definition exchange :: "'a \<Rightarrow> 'a \<Rightarrow> 'a \<times> 'a" where
  "exchange m after = (m, after)"

section \<open>class RWLock\<close>

text \<open>
  Where a thread is: outside, at the load or at the compare-and-exchange (with its local
  \<open>expected\<close>) of one of the six acquiring operations, or holding the lock.
\<close>

datatype lock_pc =
    Outside
  | SharedLoad | SharedCas int
  | UpgradeLoad | UpgradeCas int
  | LockLoad | LockCas int
  | TrySharedLoad | TrySharedLoop int
  | TryUpgradeLoad | TryUpgradeCas int
  | TryLockLoad | TryLockCas int
  | HoldsShared | HoldsExclusive

fun lock_shared_step :: "lock_pc \<Rightarrow> int \<Rightarrow> lock_pc \<times> int" where
  "lock_shared_step SharedLoad cnt =
     (let expected = load_acquire cnt in (if expected \<ge> 0 then SharedCas expected else SharedLoad, cnt))"
| "lock_shared_step (SharedCas expected) cnt =
     (case compare_exchange cnt expected (expected + 1) of
        (ok, cnt', _) \<Rightarrow> (if ok then HoldsShared else SharedLoad, cnt'))"
| "lock_shared_step pc cnt = (pc, cnt)"

fun lock_upgrade_step :: "lock_pc \<Rightarrow> int \<Rightarrow> lock_pc \<times> int" where
  "lock_upgrade_step UpgradeLoad cnt =
     (let expected = load_acquire cnt in (if expected = 1 then UpgradeCas expected else UpgradeLoad, cnt))"
| "lock_upgrade_step (UpgradeCas expected) cnt =
     (case compare_exchange cnt expected (- 1) of
        (ok, cnt', _) \<Rightarrow> (if ok then HoldsExclusive else UpgradeLoad, cnt'))"
| "lock_upgrade_step pc cnt = (pc, cnt)"

fun lock_step :: "lock_pc \<Rightarrow> int \<Rightarrow> lock_pc \<times> int" where
  "lock_step LockLoad cnt =
     (let expected = load_acquire cnt in (if expected = 0 then LockCas expected else LockLoad, cnt))"
| "lock_step (LockCas expected) cnt =
     (case compare_exchange cnt expected (- 1) of
        (ok, cnt', _) \<Rightarrow> (if ok then HoldsExclusive else LockLoad, cnt'))"
| "lock_step pc cnt = (pc, cnt)"

text \<open>
  \<open>try_lock_shared\<close> loads once; a failed compare-and-exchange refreshes \<open>expected\<close>, and
  the loop goes on while it is not negative.
\<close>

fun try_lock_shared_step :: "lock_pc \<Rightarrow> int \<Rightarrow> lock_pc \<times> int" where
  "try_lock_shared_step TrySharedLoad cnt = (TrySharedLoop (load_acquire cnt), cnt)"
| "try_lock_shared_step (TrySharedLoop expected) cnt =
     (if expected \<ge> 0 then
        case compare_exchange cnt expected (expected + 1) of
          (ok, cnt', expected') \<Rightarrow> (if ok then HoldsShared else TrySharedLoop expected', cnt')
      else (Outside, cnt))"
| "try_lock_shared_step pc cnt = (pc, cnt)"

fun try_lock_upgrade_step :: "lock_pc \<Rightarrow> int \<Rightarrow> lock_pc \<times> int" where
  "try_lock_upgrade_step TryUpgradeLoad cnt =
     (let expected = load_acquire cnt in (if expected = 1 then TryUpgradeCas expected else HoldsShared, cnt))"
| "try_lock_upgrade_step (TryUpgradeCas expected) cnt =
     (case compare_exchange cnt expected (- 1) of
        (ok, cnt', _) \<Rightarrow> (if ok then HoldsExclusive else HoldsShared, cnt'))"
| "try_lock_upgrade_step pc cnt = (pc, cnt)"

fun try_lock_step :: "lock_pc \<Rightarrow> int \<Rightarrow> lock_pc \<times> int" where
  "try_lock_step TryLockLoad cnt =
     (let expected = load_acquire cnt in (if expected = 0 then TryLockCas expected else Outside, cnt))"
| "try_lock_step (TryLockCas expected) cnt =
     (case compare_exchange cnt expected (- 1) of
        (ok, cnt', _) \<Rightarrow> (if ok then HoldsExclusive else Outside, cnt'))"
| "try_lock_step pc cnt = (pc, cnt)"

definition unlock_shared :: "int \<Rightarrow> int" where
  "unlock_shared cnt = snd (fetch_add cnt (- 1))"

definition unlock :: "int \<Rightarrow> int" where
  "unlock cnt = snd (fetch_add cnt 1)"

definition get_cnt :: "int \<Rightarrow> int" where
  "get_cnt cnt = load_acquire cnt"

text \<open>An uninterrupted \<open>try_lock\<close>, and \<open>lock\<close>, which spins (\<open>None\<close>) on a taken lock.\<close>

definition try_lock :: "int \<Rightarrow> bool \<times> int" where
  "try_lock cnt =
     (case try_lock_step TryLockLoad cnt of (pc, c1) \<Rightarrow>
        case try_lock_step pc c1 of (pc', c2) \<Rightarrow> (pc' = HoldsExclusive, c2))"

definition lock :: "int \<Rightarrow> int option" where
  "lock cnt =
     (case lock_step LockLoad cnt of (pc, c1) \<Rightarrow>
        case lock_step pc c1 of (pc', c2) \<Rightarrow> if pc' = HoldsExclusive then Some c2 else None)"

lemma try_lock_eq [simp]: "try_lock cnt = (if cnt = 0 then (True, - 1) else (False, cnt))"
  by (simp add: try_lock_def load_acquire_def compare_exchange_def)

lemma lock_eq [simp]: "lock cnt = (if cnt = 0 then Some (- 1) else None)"
  by (simp add: lock_def load_acquire_def compare_exchange_def)

lemma unlock_eq [simp]: "unlock cnt = cnt + 1" "unlock_shared cnt = cnt - 1"
  by (simp_all add: unlock_def unlock_shared_def fetch_add_def)

section \<open>Interleavings\<close>

record lock_state =
  lcnt :: int
  lpc :: "nat \<Rightarrow> lock_pc"

definition lock_init :: lock_state where
  "lock_init = \<lparr>lcnt = 0, lpc = (\<lambda>_. Outside)\<rparr>"

text \<open>One atomic access of the operation the thread is in.\<close>

definition lock_access :: "lock_pc \<Rightarrow> int \<Rightarrow> lock_pc \<times> int" where
  "lock_access pc cnt =
     (case pc of
        SharedLoad \<Rightarrow> lock_shared_step pc cnt | SharedCas _ \<Rightarrow> lock_shared_step pc cnt
      | UpgradeLoad \<Rightarrow> lock_upgrade_step pc cnt | UpgradeCas _ \<Rightarrow> lock_upgrade_step pc cnt
      | LockLoad \<Rightarrow> lock_step pc cnt | LockCas _ \<Rightarrow> lock_step pc cnt
      | TrySharedLoad \<Rightarrow> try_lock_shared_step pc cnt | TrySharedLoop _ \<Rightarrow> try_lock_shared_step pc cnt
      | TryUpgradeLoad \<Rightarrow> try_lock_upgrade_step pc cnt | TryUpgradeCas _ \<Rightarrow> try_lock_upgrade_step pc cnt
      | TryLockLoad \<Rightarrow> try_lock_step pc cnt | TryLockCas _ \<Rightarrow> try_lock_step pc cnt
      | _ \<Rightarrow> (pc, cnt))"

text \<open>
  A thread calls the operations the way the comments ask: an upgrade from a shared hold, an
  unlock by the holder.
\<close>

definition lock_calls :: "(lock_pc \<times> lock_pc) set" where
  "lock_calls = {(Outside, SharedLoad), (Outside, LockLoad), (Outside, TrySharedLoad), (Outside, TryLockLoad),
     (HoldsShared, UpgradeLoad), (HoldsShared, TryUpgradeLoad)}"

inductive lock_trans :: "lock_state \<Rightarrow> lock_state \<Rightarrow> bool" where
  call: "(lpc s t, pc) \<in> lock_calls \<Longrightarrow> lock_trans s (s\<lparr>lpc := (lpc s)(t := pc)\<rparr>)"
| access: "lock_access (lpc s t) (lcnt s) = (pc, cnt) \<Longrightarrow>
    lock_trans s (s\<lparr>lcnt := cnt, lpc := (lpc s)(t := pc)\<rparr>)"
| release_shared: "lpc s t = HoldsShared \<Longrightarrow>
    lock_trans s (s\<lparr>lcnt := unlock_shared (lcnt s), lpc := (lpc s)(t := Outside)\<rparr>)"
| release: "lpc s t = HoldsExclusive \<Longrightarrow>
    lock_trans s (s\<lparr>lcnt := unlock (lcnt s), lpc := (lpc s)(t := Outside)\<rparr>)"

inductive lock_reachable :: "lock_state \<Rightarrow> bool" where
  init: "lock_reachable lock_init"
| step: "lock_reachable s \<Longrightarrow> lock_trans s s' \<Longrightarrow> lock_reachable s'"

text \<open>A thread in an upgrade still holds its shared lock.\<close>

definition reading :: "lock_pc \<Rightarrow> bool" where
  "reading pc \<longleftrightarrow> (case pc of HoldsShared \<Rightarrow> True | UpgradeLoad \<Rightarrow> True | UpgradeCas _ \<Rightarrow> True
     | TryUpgradeLoad \<Rightarrow> True | TryUpgradeCas _ \<Rightarrow> True | _ \<Rightarrow> False)"

definition readers :: "lock_state \<Rightarrow> nat set" where
  "readers s = {t. reading (lpc s t)}"

definition writers :: "lock_state \<Rightarrow> nat set" where
  "writers s = {t. lpc s t = HoldsExclusive}"

text \<open>A pending compare-and-exchange expects what its load allowed.\<close>

definition pc_ok :: "lock_pc \<Rightarrow> bool" where
  "pc_ok pc \<longleftrightarrow> (case pc of SharedCas e \<Rightarrow> 0 \<le> e | UpgradeCas e \<Rightarrow> e = 1 | TryUpgradeCas e \<Rightarrow> e = 1
     | LockCas e \<Rightarrow> e = 0 | TryLockCas e \<Rightarrow> e = 0 | _ \<Rightarrow> True)"

definition lock_inv :: "lock_state \<Rightarrow> bool" where
  "lock_inv s \<longleftrightarrow> finite (readers s) \<and> (\<forall>t. pc_ok (lpc s t))
     \<and> (if writers s = {} then lcnt s = int (card (readers s))
        else lcnt s = - 1 \<and> readers s = {} \<and> (\<exists>t. writers s = {t}))"

section \<open>Mutual exclusion\<close>

abbreviation lock_move :: "lock_state \<Rightarrow> nat \<Rightarrow> lock_pc \<Rightarrow> int \<Rightarrow> lock_state" where
  "lock_move s t pc c \<equiv> s\<lparr>lcnt := c, lpc := (lpc s)(t := pc)\<rparr>"

lemma readers_move: "readers (lock_move s t pc c) = (if reading pc then insert t (readers s) else readers s - {t})"
  by (auto simp: readers_def)

lemma writers_move:
  "writers (lock_move s t pc c) = (if pc = HoldsExclusive then insert t (writers s) else writers s - {t})"
  by (auto simp: writers_def)

lemma lock_invD:
  assumes "lock_inv s"
  shows "finite (readers s)" "pc_ok (lpc s t)" "lcnt s \<ge> 0 \<Longrightarrow> writers s = {} \<and> lcnt s = int (card (readers s))"
    "lcnt s < 0 \<Longrightarrow> lcnt s = - 1 \<and> readers s = {}"
    "t \<in> writers s \<Longrightarrow> writers s = {t} \<and> readers s = {} \<and> lcnt s = - 1"
    "t \<in> readers s \<Longrightarrow> writers s = {} \<and> 0 < card (readers s)"
  using assms by (auto simp: lock_inv_def card_gt_0_iff split: if_splits)

lemma lock_inv_same:
  assumes "lock_inv s" and "reading pc = reading (lpc s t)" and "pc = HoldsExclusive \<longleftrightarrow> lpc s t = HoldsExclusive"
    and "pc_ok pc"
  shows "lock_inv (lock_move s t pc (lcnt s))"
proof -
  have "readers (lock_move s t pc (lcnt s)) = readers s" "writers (lock_move s t pc (lcnt s)) = writers s"
    using assms(2,3) by (auto simp: readers_move writers_move readers_def writers_def)
  with assms(1,4) show ?thesis by (simp add: lock_inv_def)
qed

lemma lock_inv_get_shared:
  assumes "lock_inv s" and "\<not> reading (lpc s t)" and "0 \<le> lcnt s"
  shows "lock_inv (lock_move s t HoldsShared (lcnt s + 1))"
proof -
  have "t \<notin> readers s" using assms(2) by (simp add: readers_def)
  with lock_invD(1-3) [OF assms(1)] assms(3) show ?thesis
    by (simp add: lock_inv_def readers_move writers_move reading_def pc_ok_def)
qed

lemma lock_inv_drop_shared:
  assumes "lock_inv s" and "lpc s t = HoldsShared"
  shows "lock_inv (lock_move s t Outside (lcnt s - 1))"
proof -
  have t: "t \<in> readers s" using assms(2) by (simp add: readers_def reading_def)
  have w: "writers s = {}" "finite (readers s)" "\<forall>u. pc_ok (lpc s u)"
    using lock_invD(1,2) [OF assms(1)] lock_invD(6) [OF assms(1) t] by auto
  then have "lcnt s = int (card (readers s))" using assms(1) by (simp add: lock_inv_def)
  also have "card (readers s) = Suc (card (readers s - {t}))" using t w(2) by (simp only: card_Suc_Diff1)
  finally show ?thesis using w
    by (simp add: lock_inv_def readers_move writers_move reading_def pc_ok_def)
qed

lemma lock_inv_get_exclusive:
  assumes inv: "lock_inv s" and "reading (lpc s t) \<and> lcnt s = 1 \<or> \<not> reading (lpc s t) \<and> lcnt s = 0"
  shows "lock_inv (lock_move s t HoldsExclusive (- 1))"
proof -
  have w: "writers s = {}" "lcnt s = int (card (readers s))" using lock_invD(3) [OF inv] assms(2) by auto
  have "readers s - {t} = {}"
  proof (cases "reading (lpc s t)")
    case True
    then have "t \<in> readers s" by (simp add: readers_def)
    moreover have "card (readers s) = 1" using True assms(2) w(2) by simp
    ultimately show ?thesis by (auto simp: card_1_singleton_iff)
  next
    case False
    then have "card (readers s) = 0" using assms(2) w(2) by simp
    then show ?thesis using lock_invD(1) [OF inv] by simp
  qed
  with w lock_invD(1,2) [OF inv] show ?thesis
    by (auto simp: lock_inv_def readers_move writers_move reading_def pc_ok_def)
qed

lemma lock_inv_drop_exclusive:
  assumes "lock_inv s" and "lpc s t = HoldsExclusive"
  shows "lock_inv (lock_move s t Outside (lcnt s + 1))"
proof -
  have "t \<in> writers s" using assms(2) by (simp add: writers_def)
  with lock_invD(5) [OF assms(1) this] lock_invD(2) [OF assms(1)] show ?thesis
    by (simp add: lock_inv_def readers_move writers_move reading_def pc_ok_def)
qed

lemmas lock_access_simps =
  lock_access_def compare_exchange_def load_acquire_def Let_def

lemma lock_access_inv:
  assumes inv: "lock_inv s" and "lock_access (lpc s t) (lcnt s) = (pc, c)"
  shows "lock_inv (lock_move s t pc c)"
proof -
  have "pc_ok (lpc s t)" by (rule lock_invD(2) [OF inv])
  then consider
      "c = lcnt s" "reading pc = reading (lpc s t)" "pc = HoldsExclusive \<longleftrightarrow> lpc s t = HoldsExclusive" "pc_ok pc"
    | "pc = HoldsShared" "c = lcnt s + 1" "\<not> reading (lpc s t)" "0 \<le> lcnt s"
    | "pc = HoldsExclusive" "c = - 1" "reading (lpc s t) \<and> lcnt s = 1 \<or> \<not> reading (lpc s t) \<and> lcnt s = 0"
    using assms(2) by (cases "lpc s t") (auto simp: lock_access_simps reading_def pc_ok_def split: if_splits)
  then show ?thesis
  proof cases
    case 1
    then show ?thesis using lock_inv_same [OF inv, of pc t] by blast
  next
    case 2
    then show ?thesis using lock_inv_get_shared [OF inv, of t] by blast
  next
    case 3
    then show ?thesis using lock_inv_get_exclusive [OF inv, of t] by blast
  qed
qed

lemma lock_trans_inv: "lock_trans s s' \<Longrightarrow> lock_inv s \<Longrightarrow> lock_inv s'"
proof (induction rule: lock_trans.induct)
  case (call s t pc)
  then have "lock_inv (lock_move s t pc (lcnt s))"
    by (intro lock_inv_same) (auto simp: lock_calls_def reading_def pc_ok_def)
  then show ?case by simp
qed (simp_all add: lock_access_inv lock_inv_drop_shared lock_inv_drop_exclusive)

lemma lock_inv_init: "lock_inv lock_init"
  by (simp add: lock_inv_def lock_init_def readers_def writers_def reading_def pc_ok_def)

lemma lock_reachable_inv: "lock_reachable s \<Longrightarrow> lock_inv s"
  by (induction rule: lock_reachable.induct) (blast intro: lock_inv_init lock_trans_inv)+

section \<open>Properties\<close>

text \<open>C12: Mutual exclusion of \<open>RWLock\<close> under every interleaving of the threads' atomic accesses: at most one
  thread holds the lock exclusively, and then nobody holds it shared; the counter is the number of shared
  holders, or -1.\<close>

theorem rwlock_mutual_exclusion:
  assumes "lock_reachable s"
  shows "(t \<in> writers s \<longrightarrow> writers s = {t} \<and> readers s = {}) \<and> finite (readers s)
    \<and> lcnt s = (if writers s = {} then int (card (readers s)) else - 1)"
  using lock_invD(1,5) [OF lock_reachable_inv [OF assms]] lock_reachable_inv [OF assms]
  by (auto simp: lock_inv_def split: if_splits)

lemma lock_taken_reachable: "lock_reachable \<lparr>lcnt = - 1, lpc = (\<lambda>_. Outside)(3 := HoldsExclusive)\<rparr>"
proof -
  have 1: "lock_reachable (lock_init\<lparr>lpc := (lpc lock_init)(3 := TryLockLoad)\<rparr>)" (is "lock_reachable ?s1")
    by (rule lock_reachable.step [OF lock_reachable.init]) (rule lock_trans.call, simp add: lock_init_def lock_calls_def)
  have 2: "lock_reachable (?s1\<lparr>lcnt := 0, lpc := (lpc ?s1)(3 := TryLockCas 0)\<rparr>)" (is "lock_reachable ?s2")
    by (rule lock_reachable.step [OF 1]) (rule lock_trans.access, simp add: lock_init_def lock_access_def load_acquire_def)
  have "lock_reachable (?s2\<lparr>lcnt := - 1, lpc := (lpc ?s2)(3 := HoldsExclusive)\<rparr>)"
    by (rule lock_reachable.step [OF 2]) (rule lock_trans.access, simp add: lock_access_def compare_exchange_def)
  then show ?thesis by (simp add: lock_init_def)
qed

theorem rwlock_mutual_exclusion_witness:
  "writers \<lparr>lcnt = - 1, lpc = (\<lambda>_. Outside)(3 := HoldsExclusive)\<rparr> = {3}
     \<and> readers \<lparr>lcnt = - 1, lpc = (\<lambda>_. Outside)(3 := HoldsExclusive)\<rparr> = {}"
  using rwlock_mutual_exclusion [OF lock_taken_reachable, of 3] by (simp add: writers_def)

end
