(* ===== verification/Serval_Row.thy ===== *)
theory Serval_Row
  imports Serval_Region Lock
begin

text \<open>
  A row of Serval: struct Value of protocols/serval/include/value.hpp, and what its
  initialization at the first write of an epoch does to the versions of the previous one.
\<close>

section \<open>struct Value\<close>

text \<open>\<open>row_region_\<close> is \<open>None\<close> for \<open>nullptr\<close> and otherwise the index of a region of the controller.\<close>

record serval_value =
  rwl :: int
  val_epoch :: nat
  master :: nat
  global_array :: global_version_array
  row_region_ptr :: "nat option"

definition val_has_dirty_region :: "row_region_controller \<Rightarrow> serval_value \<Rightarrow> bool" where
  "val_has_dirty_region ctl val =
     (case row_region_ptr val of None \<Rightarrow> False | Some k \<Rightarrow> region_is_dirty (regions ctl k))"

definition val_initialize :: "serval_value \<Rightarrow> serval_value" where
  "val_initialize val = val\<lparr>rwl := 0\<rparr>"

definition val_lock :: "serval_value \<Rightarrow> serval_value option" where
  "val_lock val = map_option (\<lambda>c. val\<lparr>rwl := c\<rparr>) (lock (rwl val))"

definition val_try_lock :: "serval_value \<Rightarrow> bool \<times> serval_value" where
  "val_try_lock val = (case try_lock (rwl val) of (ok, c) \<Rightarrow> (ok, val\<lparr>rwl := c\<rparr>))"

definition val_unlock :: "serval_value \<Rightarrow> serval_value" where
  "val_unlock val = val\<lparr>rwl := unlock (rwl val)\<rparr>"

definition gc_master_version :: "nat \<Rightarrow> serval_value \<Rightarrow> mem \<Rightarrow> (serval_value \<times> mem) res" where
  "gc_master_version latest val m =
     assert_then (master val \<noteq> nullptr) (ebind (load_version (master val) m) (\<lambda>x.
       assert_then (ver_rec x \<noteq> nullptr)
         (ebind (delete_version (master val) m) (\<lambda>m'. Inr (val\<lparr>master := latest\<rparr>, m')))))"

definition initialize_the_row ::
  "nat \<Rightarrow> serval_value \<Rightarrow> row_region_controller \<Rightarrow> mem \<Rightarrow> (serval_value \<times> row_region_controller \<times> mem) res" where
  "initialize_the_row epoch val ctl m =
     assert_then (\<not> (gva_is_dirty (global_array val) \<and> val_has_dirty_region ctl val))
       (ebind
         (if gva_is_dirty (global_array val) then
            assert_then (\<not> val_has_dirty_region ctl val)
              (case gva_pop_final_state (global_array val) of ((_, latest), g) \<Rightarrow>
                 assert_then (latest \<noteq> nullptr)
                   (ebind (gva_gc g m) (\<lambda>(g', m1).
                      ebind (gc_master_version latest (val\<lparr>global_array := g'\<rparr>) m1) (\<lambda>(val', m2).
                        Inr (val', ctl, m2)))))
          else if val_has_dirty_region ctl val then
            assert_then (\<not> gva_is_dirty (global_array val))
              (case row_region_ptr val of
                 None \<Rightarrow> Inl NullDeref
               | Some k \<Rightarrow>
                   ebind (region_pop_final_state (regions ctl k)) (\<lambda>((_, latest), r).
                     assert_then (latest \<noteq> nullptr)
                       (ebind (gc_master_version latest val m) (\<lambda>(val', m1).
                          Inr (val', ctl\<lparr>regions := (regions ctl)(k := initialize_core_bitmap r)\<rparr>, m1)))))
          else Inr (val, ctl, m))
         (\<lambda>(val', ctl', m'). Inr (val'\<lparr>val_epoch := epoch\<rparr>, ctl', m')))"

section \<open>Well-formed rows\<close>

definition region_slots :: "row_region \<Rightarrow> nat set" where
  "region_slots r = (\<Union>c \<in> {..<64}. set (slots (arrays r c)))"

definition row_versions :: "row_region_controller \<Rightarrow> serval_value \<Rightarrow> nat set" where
  "row_versions ctl val = snd ` set (ids_slots (global_array val))
     \<union> (case row_region_ptr val of None \<Rightarrow> {} | Some k \<Rightarrow> region_slots (regions ctl k))"

text \<open>
  Once a region is installed the global array stays empty. The master version is stable and is
  none of the row's other versions.
\<close>

definition row_ok :: "row_region_controller \<Rightarrow> serval_value \<Rightarrow> mem \<Rightarrow> bool" where
  "row_ok ctl val m \<longleftrightarrow> mem_ok m \<and> stable m (master val)
     \<and> ascending (ids_slots (global_array val)) \<and> distinct (map snd (ids_slots (global_array val)))
     \<and> (\<forall>p \<in> set (ids_slots (global_array val)). - 1 \<le> fst p \<and> fst p < 4096)
     \<and> (\<forall>v \<in> row_versions ctl val. live m v \<and> v \<noteq> master val)
     \<and> (case row_region_ptr val of None \<Rightarrow> True
        | Some k \<Rightarrow> ids_slots (global_array val) = [] \<and> k < used ctl \<and> region_ok (regions ctl k, m))"

text \<open>The version that ends the row's latest written epoch.\<close>

definition row_final :: "row_region_controller \<Rightarrow> serval_value \<Rightarrow> nat" where
  "row_final ctl val =
     (if ids_slots (global_array val) \<noteq> [] then snd (last (ids_slots (global_array val)))
      else case row_region_ptr val of
        None \<Rightarrow> master val
      | Some k \<Rightarrow> (if core_bitmap (regions ctl k) = 0 then master val
                   else last (slots (arrays (regions ctl k) (Max (ones (core_bitmap (regions ctl k))))))))"

definition row_entries :: "row_region_controller \<Rightarrow> serval_value \<Rightarrow> nat \<Rightarrow> nat option" where
  "row_entries ctl val =
     (case row_region_ptr val of None \<Rightarrow> gva_entries (global_array val)
      | Some k \<Rightarrow> region_entries (regions ctl k))"

lemma row_okD:
  assumes "row_ok ctl val m"
  shows "mem_ok m" "stable m (master val)" "ascending (ids_slots (global_array val))"
    "distinct (map snd (ids_slots (global_array val)))"
    "v \<in> row_versions ctl val \<Longrightarrow> live m v" "v \<in> row_versions ctl val \<Longrightarrow> v \<noteq> master val"
    "row_region_ptr val = Some k \<Longrightarrow> ids_slots (global_array val) = [] \<and> k < used ctl \<and> region_ok (regions ctl k, m)"
    "p \<in> set (ids_slots (global_array val)) \<Longrightarrow> - 1 \<le> fst p \<and> fst p < 4096"
  using assms unfolding row_ok_def by auto

lemma gc_master_version_ok:
  assumes "mem_ok m" and "stable m (master val)"
  obtains m' where "gc_master_version latest val m = Inr (val\<lparr>master := latest\<rparr>, m')" "mem_ok m'"
    "vers m' = (vers m)(master val := None)" "brk m' = brk m"
proof -
  obtain x where x: "load_version (master val) m = Inr x" "ver_rec x \<noteq> nullptr"
    using stable_load [OF assms(2,1)] by blast
  then have "live m (master val)" "master val \<noteq> nullptr" by (auto simp: load_version_Inr live_def)
  with delete_version_ok [OF assms(1)] obtain m' where "delete_version (master val) m = Inr m'" "mem_ok m'"
    "vers m' = (vers m)(master val := None)" "brk m' = brk m" by metis
  with x that \<open>master val \<noteq> nullptr\<close> show ?thesis by (simp add: gc_master_version_def)
qed

lemma region_slots_iff: "v \<in> region_slots r \<longleftrightarrow> (\<exists>c < 64. v \<in> set (slots (arrays r c)))"
  by (auto simp: region_slots_def)

lemma region_slots_at:
  assumes "c < 64"
  shows "region_slots r = set (slots (arrays r c)) \<union> (\<Union>d \<in> {..<64} - {c}. set (slots (arrays r d)))"
    and "region_slots (r\<lparr>arrays := (arrays r)(c := a)\<rparr>) =
      set (slots a) \<union> (\<Union>d \<in> {..<64} - {c}. set (slots (arrays r d)))"
  using assms by (auto simp: region_slots_def split: if_splits)

text \<open>Popping the final state of a dirty region, then clearing the core bitmap.\<close>

lemma region_pop_final_state_ok:
  assumes ok: "region_ok (r, m)" and dirty: "core_bitmap r \<noteq> 0"
    and stb: "\<forall>v \<in> region_slots r. stable m v"
  defines "c \<equiv> Max (ones (core_bitmap r))"
  obtains id r' where "region_pop_final_state r = Inr ((id, last (slots (arrays r c))), r')"
    "region_ok (initialize_core_bitmap r', m)" "core_bitmap (initialize_core_bitmap r') = 0"
    "region_slots (initialize_core_bitmap r') = region_slots r - {last (slots (arrays r c))}"
    "last (slots (arrays r c)) \<in> region_slots r"
proof -
  let ?a = "arrays r c"
  have c: "c \<in> ones (core_bitmap r)" using dirty by (simp add: c_def Max_in)
  then have c64: "c < 64" by (rule ones_less)
  have a: "pcva_ok ?a" "transaction_bitmap ?a \<noteq> 0" using region_okD(4,5) [OF ok c] by auto
  then have ne: "slots ?a \<noteq> []" by (auto simp: pcva_ok_def)
  define r' where "r' = r\<lparr>arrays := (arrays r)(c := ?a\<lparr>slots := butlast (slots ?a)\<rparr>)\<rparr>"
  have pop: "region_pop_final_state r = Inr ((int (Max (ones (transaction_bitmap ?a))), last (slots ?a)), r')"
    using a dirty by (simp add: region_pop_final_state_def pcva_pop_latest_def pcva_length_card bitmap_simps
        pcva_ok_def r'_def card_gt_0_iff flip: c_def)
  have split: "slots ?a = butlast (slots ?a) @ [last (slots ?a)]" using ne by simp
  have dist: "distinct (butlast (slots ?a))" "last (slots ?a) \<notin> set (butlast (slots ?a))"
    using region_okD(2) [OF ok c64] by (subst (asm) split, simp)+
  have sub: "set (slots (arrays r' d)) \<subseteq> set (slots (arrays r d))" for d
    by (auto simp: r'_def dest: in_set_butlastD)
  have "region_ok (initialize_core_bitmap r', m)"
  proof -
    have "stable m v" if "d < 64" "v \<in> set (slots (arrays r' d))" for d v
      using stb that sub [of d] by (metis region_slots_iff subsetD)
    moreover have "distinct (slots (arrays r' d))" if "d < 64" for d
      using dist(1) region_okD(2) [OF ok that] by (simp add: r'_def)
    moreover have "set (slots (arrays r' d)) \<inter> set (slots (arrays r' e)) = {}" if "d < 64" "e < 64" "d \<noteq> e" for d e
      using sub [of d] sub [of e] region_okD(3) [OF ok that] by blast
    ultimately show ?thesis
      using region_okD(1) [OF ok] by (simp add: region_ok_def initialize_core_bitmap_def)
  qed
  moreover have "region_slots r' = region_slots r - {last (slots ?a)}"
  proof -
    have "last (slots ?a) \<notin> (\<Union>d \<in> {..<64} - {c}. set (slots (arrays r d)))"
      using region_okD(3) [OF ok _ c64] last_in_set [OF ne] by blast
    moreover have "set (slots ?a) = insert (last (slots ?a)) (set (butlast (slots ?a)))"
      by (subst split) simp
    ultimately show ?thesis
      unfolding r'_def region_slots_at(2) [OF c64] region_slots_at(1) [OF c64, of r]
      using dist(2) by auto
  qed
  moreover have "last (slots ?a) \<in> region_slots r" using ne c64 by (auto simp: region_slots_iff)
  moreover have "region_slots (initialize_core_bitmap r') = region_slots r'"
    by (simp add: region_slots_def initialize_core_bitmap_def)
  ultimately show ?thesis using that pop by (simp add: initialize_core_bitmap_def)
qed

lemma region_ok_mem_mono:
  assumes "region_ok (r, m)" and "mem_ok m'" and "\<And>v. v \<in> region_slots r \<Longrightarrow> vers m' v = vers m v"
  shows "region_ok (r, m')"
  using assms unfolding region_ok_def stable_def region_slots_iff by (auto, metis)

text \<open>
  The first write of an epoch on a row: no assertion fails, the final version of the last
  epoch becomes the master version, the old master is freed, and no version is visible.
\<close>

lemma initialize_global:
  assumes ok: "row_ok ctl val m" and stb: "\<forall>v \<in> row_versions ctl val. stable m v"
    and ne: "ids_slots (global_array val) \<noteq> []"
  obtains val' m' where "initialize_the_row e val ctl m = Inr (val', ctl, m')"
    "row_ok ctl val' m'" "master val' = row_final ctl val" "val_epoch val' = e"
    "ids_slots (global_array val') = []" "row_region_ptr val' = None" "rwl val' = rwl val"
    "vers m' = vers m |` (- (insert (master val) (row_versions ctl val) - {row_final ctl val}))" "brk m' = brk m"
proof -
  let ?g = "global_array val" let ?xs = "ids_slots ?g"
  have none: "row_region_ptr val = None" using row_okD(7) [OF ok] ne by fastforce
  have fin: "row_final ctl val = snd (last ?xs)" using ne by (simp add: row_final_def)
  have rv: "row_versions ctl val = snd ` set ?xs" by (simp add: row_versions_def none)
  have split: "?xs = butlast ?xs @ [last ?xs]" using ne by simp
  have dist: "distinct (map snd (butlast ?xs))" "snd (last ?xs) \<notin> snd ` set (butlast ?xs)"
    using row_okD(4) [OF ok] by (subst (asm) split, simp)+
  have sx: "snd ` set ?xs = insert (snd (last ?xs)) (snd ` set (butlast ?xs))" by (subst split) simp
  have "\<forall>v \<in> set (map snd (butlast ?xs)). stable m v" using stb by (auto simp: rv dest: in_set_butlastD)
  with gc_versions_ok [OF row_okD(1) [OF ok] dist(1)] obtain m1 where m1:
    "gc_versions (map snd (butlast ?xs)) m = Inr m1" "mem_ok m1"
    "vers m1 = vers m |` (- (snd ` set (butlast ?xs)))" "brk m1 = brk m" by auto
  let ?v1 = "val\<lparr>global_array := ?g\<lparr>ids_slots := []\<rparr>\<rparr>"
  have mst: "master val \<notin> snd ` set ?xs" using row_okD(6) [OF ok] rv by blast
  then have "stable m1 (master ?v1)"
    using row_okD(2) [OF ok] m1(3) sx by (auto simp: stable_def restrict_map_def)
  then obtain m2 where m2:
    "gc_master_version (snd (last ?xs)) ?v1 m1 = Inr (?v1\<lparr>master := snd (last ?xs)\<rparr>, m2)" "mem_ok m2"
    "vers m2 = (vers m1)(master ?v1 := None)" "brk m2 = brk m1"
    by (rule gc_master_version_ok [OF m1(2)])
  have lv: "snd (last ?xs) \<noteq> nullptr" "stable m (snd (last ?xs))"
    using row_okD(5) [OF ok] stb ne by (auto simp: rv live_def)
  have gc: "gva_gc (?g\<lparr>ids_slots := butlast ?xs\<rparr>) m = Inr (?g\<lparr>ids_slots := []\<rparr>, m1)"
    by (simp add: gva_gc_def gva_minor_gc_def m1(1))
  let ?val' = "?v1\<lparr>master := snd (last ?xs), val_epoch := e\<rparr>"
  have init: "initialize_the_row e val ctl m = Inr (?val', ctl, m2)"
    using ne lv(1) gc m2(1)
    by (simp add: initialize_the_row_def gva_is_dirty_def gva_is_empty_def val_has_dirty_region_def none
        gva_pop_final_state_def case_prod_unfold)
  have vm: "vers m2 = vers m |` (- (insert (master val) (row_versions ctl val) - {row_final ctl val}))"
    using mst dist(2) by (auto simp: fun_eq_iff m2(3) m1(3) restrict_map_def fin rv sx)
  have "stable m2 (snd (last ?xs))"
    using lv(2) dist(2) mst sx by (auto simp: stable_def m2(3) m1(3) restrict_map_def)
  then have "row_ok ctl ?val' m2"
    using m2(2) by (simp add: row_ok_def row_versions_def none)
  then show ?thesis
    using that [OF init] vm fin none m1(4) m2(4) by simp
qed

lemma initialize_region:
  assumes ok: "row_ok ctl val m" and stb: "\<forall>v \<in> row_versions ctl val. stable m v"
    and k: "row_region_ptr val = Some k" and dirty: "core_bitmap (regions ctl k) \<noteq> 0"
  obtains val' r' m' where
    "initialize_the_row e val ctl m = Inr (val', ctl\<lparr>regions := (regions ctl)(k := r')\<rparr>, m')"
    "row_ok (ctl\<lparr>regions := (regions ctl)(k := r')\<rparr>) val' m'" "master val' = row_final ctl val" "val_epoch val' = e"
    "ids_slots (global_array val') = []" "row_region_ptr val' = Some k" "core_bitmap r' = 0" "rwl val' = rwl val"
    "vers m' = (vers m)(master val := None)" "brk m' = brk m" "region_slots r' \<subseteq> region_slots (regions ctl k)"
    "row_final ctl val \<in> region_slots (regions ctl k)"
proof -
  let ?r = "regions ctl k"
  let ?l = "last (slots (arrays ?r (Max (ones (core_bitmap ?r)))))"
  have kr: "ids_slots (global_array val) = []" "k < used ctl" "region_ok (?r, m)" using row_okD(7) [OF ok k] by auto
  have rv: "row_versions ctl val = region_slots ?r" by (simp add: row_versions_def k kr)
  have fin: "row_final ctl val = ?l" using dirty by (simp add: row_final_def k kr)
  from stb rv have "\<forall>v \<in> region_slots ?r. stable m v" by simp
  from region_pop_final_state_ok [OF kr(3) dirty this] obtain sid r where pop:
    "region_pop_final_state ?r = Inr ((sid, ?l), r)" "region_ok (initialize_core_bitmap r, m)"
    "core_bitmap (initialize_core_bitmap r) = 0"
    "region_slots (initialize_core_bitmap r) = region_slots ?r - {?l}" "?l \<in> region_slots ?r" by blast
  obtain m' where m': "gc_master_version ?l val m = Inr (val\<lparr>master := ?l\<rparr>, m')" "mem_ok m'"
    "vers m' = (vers m)(master val := None)" "brk m' = brk m"
    by (rule gc_master_version_ok [OF row_okD(1,2) [OF ok]])
  have l: "?l \<noteq> nullptr" "stable m ?l" "?l \<noteq> master val"
    using row_okD(5,6) [OF ok, of ?l] pop(5) stb rv by (auto simp: live_def)
  let ?r' = "initialize_core_bitmap r" let ?val' = "val\<lparr>master := ?l, val_epoch := e\<rparr>"
  let ?ctl' = "ctl\<lparr>regions := (regions ctl)(k := ?r')\<rparr>"
  have init: "initialize_the_row e val ctl m = Inr (?val', ?ctl', m')"
    using pop(1) m'(1) l(1) kr(1) dirty
    by (simp add: initialize_the_row_def gva_is_dirty_def val_has_dirty_region_def k region_is_dirty_def)
  have keep: "vers m' v = vers m v" if "v \<in> region_slots ?r" for v
    using row_okD(6) [OF ok, of v] that rv m'(3) by auto
  have "region_ok (?r', m')" using pop(2) m'(2) by (rule region_ok_mem_mono) (use keep pop(4) in auto)
  moreover have "live m' v \<and> v \<noteq> ?l" if "v \<in> region_slots ?r'" for v
    using that keep [of v] row_okD(5) [OF ok, of v] rv pop(4) by (auto simp: live_def)
  moreover have "stable m' ?l" using l(2) keep [OF pop(5)] by (simp add: stable_def)
  ultimately have "row_ok ?ctl' ?val' m'"
    using m'(2) kr by (simp add: row_ok_def row_versions_def k)
  then show ?thesis using that [OF init] fin k kr(1) pop(3-5) m'(3,4) by auto
qed

text \<open>
  The versions the row reaches afterwards were the row's before, and everything else in the
  store is as it was.
\<close>

lemma initialize_the_row_ok:
  assumes ok: "row_ok ctl val m" and stb: "\<forall>v \<in> row_versions ctl val. stable m v"
  obtains val' ctl' m' where
    "initialize_the_row e val ctl m = Inr (val', ctl', m')" "row_ok ctl' val' m'"
    "master val' = row_final ctl val" "val_epoch val' = e" "row_entries ctl' val' = Map.empty"
    "\<forall>v \<in> row_versions ctl' val'. stable m' v" "used ctl' = used ctl" "rwl val' = rwl val"
    "row_region_ptr val' = row_region_ptr val" "ids_slots (global_array val') = []"
    "\<And>k. row_region_ptr val = Some k \<Longrightarrow> core_bitmap (regions ctl' k) = 0"
    "\<And>v. v \<noteq> master val \<Longrightarrow> v \<notin> row_versions ctl val \<Longrightarrow> vers m' v = vers m v"
    "\<And>j. row_region_ptr val \<noteq> Some j \<Longrightarrow> regions ctl' j = regions ctl j" "brk m' = brk m"
    "insert (master val') (row_versions ctl' val') \<subseteq> insert (master val) (row_versions ctl val)"
proof -
  let ?g = "ids_slots (global_array val)"
  consider (global) "?g \<noteq> []" | (region) k where "row_region_ptr val = Some k" "core_bitmap (regions ctl k) \<noteq> 0"
    | (clean) "?g = []" "\<And>k. row_region_ptr val = Some k \<Longrightarrow> core_bitmap (regions ctl k) = 0"
    by (cases "row_region_ptr val") auto
  then show ?thesis
  proof cases
    case global
    have none: "row_region_ptr val = None" using row_okD(7) [OF ok] global by fastforce
    obtain val' m' where i: "initialize_the_row e val ctl m = Inr (val', ctl, m')"
      "row_ok ctl val' m'" "master val' = row_final ctl val" "val_epoch val' = e"
      "ids_slots (global_array val') = []" "row_region_ptr val' = None" "rwl val' = rwl val"
      "vers m' = vers m |` (- (insert (master val) (row_versions ctl val) - {row_final ctl val}))" "brk m' = brk m"
      by (rule initialize_global [OF ok stb global])
    moreover have "row_final ctl val \<in> row_versions ctl val" using global by (simp add: row_final_def row_versions_def)
    ultimately show ?thesis
      using none by (intro that [OF i(1-4)])
        (auto simp: row_entries_def row_versions_def gva_entries_def fun_eq_iff restrict_map_def)
  next
    case (region k)
    obtain val' r' m' where i:
      "initialize_the_row e val ctl m = Inr (val', ctl\<lparr>regions := (regions ctl)(k := r')\<rparr>, m')"
      "row_ok (ctl\<lparr>regions := (regions ctl)(k := r')\<rparr>) val' m'" "master val' = row_final ctl val" "val_epoch val' = e"
      "ids_slots (global_array val') = []" "row_region_ptr val' = Some k" "core_bitmap r' = 0" "rwl val' = rwl val"
      "vers m' = (vers m)(master val := None)" "brk m' = brk m" "region_slots r' \<subseteq> region_slots (regions ctl k)"
    "row_final ctl val \<in> region_slots (regions ctl k)"
      by (rule initialize_region [OF ok stb region])
    have kr: "?g = []" using row_okD(7) [OF ok region(1)] by simp
    have "stable m' v" if "v \<in> region_slots r'" for v
    proof -
      have v: "v \<in> row_versions ctl val" using that i(11) by (auto simp: row_versions_def region kr)
      then show ?thesis using stb row_okD(6) [OF ok v] by (simp add: stable_def i(9))
    qed
    then show ?thesis
      using region i by (intro that [OF i(1-4)])
        (auto simp: row_entries_def row_versions_def region_entries_def fun_eq_iff)
  next
    case clean
    then have i: "initialize_the_row e val ctl m = Inr (val\<lparr>val_epoch := e\<rparr>, ctl, m)"
      by (cases "row_region_ptr val")
        (simp_all add: initialize_the_row_def gva_is_dirty_def val_has_dirty_region_def region_is_dirty_def)
    have ok': "row_ok ctl (val\<lparr>val_epoch := e\<rparr>) m" using ok by (auto simp: row_ok_def row_versions_def split: option.splits)
    show ?thesis
      using clean stb by (intro that [OF i ok'])
        (auto simp: row_final_def row_entries_def row_versions_def gva_entries_def region_entries_def fun_eq_iff
          split: option.splits)
  qed
qed

section \<open>Appending to a region, by serial id\<close>

definition core_ids :: "(nat \<Rightarrow> nat option) \<Rightarrow> nat \<Rightarrow> nat set" where
  "core_ids e c = {j \<in> dom e. j div 64 = c}"

lemma core_ids_upd: "core_ids (e(i \<mapsto> v)) c = (if i div 64 = c then insert i (core_ids e c) else core_ids e c)"
  by (auto simp: core_ids_def)

lemma core_ids_region:
  assumes "c \<in> ones (core_bitmap r)"
  shows "core_ids (region_entries r) c = (\<lambda>t. c * 64 + t) ` ones (transaction_bitmap (arrays r c))"
proof
  show "core_ids (region_entries r) c \<subseteq> (\<lambda>t. c * 64 + t) ` ones (transaction_bitmap (arrays r c))"
  proof
    fix j assume "j \<in> core_ids (region_entries r) c"
    then have "j div 64 = c" "j mod 64 \<in> ones (transaction_bitmap (arrays r c))"
      by (auto simp: core_ids_def region_entries_def pcva_entries_def split: if_splits)
    then show "j \<in> (\<lambda>t. c * 64 + t) ` ones (transaction_bitmap (arrays r c))"
      by (intro image_eqI [of _ _ "j mod 64"]) auto
  qed
  show "(\<lambda>t. c * 64 + t) ` ones (transaction_bitmap (arrays r c)) \<subseteq> core_ids (region_entries r) c"
    using assms ones_less by (auto simp: core_ids_def dom_def region_entries_at pcva_entries_def)
qed

lemma card_core_ids:
  assumes "region_ok (r, m)" and "c \<in> ones (core_bitmap r)"
  shows "card (core_ids (region_entries r) c) = length (slots (arrays r c))"
proof -
  have "card (core_ids (region_entries r) c) = card (ones (transaction_bitmap (arrays r c)))"
    by (simp add: core_ids_region [OF assms(2)] card_image inj_on_def)
  then show ?thesis using region_okD(4) [OF assms] by (simp add: pcva_ok_def)
qed

lemma region_append_id:
  assumes ok: "region_ok (r, m)" and i: "i < 4096" and v: "v \<noteq> nullptr" "v \<notin> region_slots r"
    and asc: "\<forall>j \<in> core_ids (region_entries r) (i div 64). j < i"
    and cap: "card (core_ids (region_entries r) (i div 64)) < 63"
  obtains r' m' where "region_append (i div 64) v (i mod 64) r m = Inr (r', m')" "region_ok (r', m')"
    "region_entries r' = (region_entries r)(i \<mapsto> v)" "core_bitmap r' \<noteq> 0"
    "region_slots r' \<subseteq> insert v (region_slots r)" "v \<in> region_slots r'" "brk m' = brk m"
    "\<And>w. w \<in> region_slots r' \<or> w \<notin> region_slots r \<Longrightarrow> vers m' w = vers m w"
proof -
  let ?c = "i div 64"
  have c: "?c < 64" "i mod 64 < 64" using i by auto
  have room: "?c \<in> ones (core_bitmap r) \<longrightarrow> length (slots (arrays r ?c)) < 63
      \<and> (\<forall>x \<in> ones (transaction_bitmap (arrays r ?c)). x < i mod 64)"
  proof (intro impI conjI ballI)
    assume on: "?c \<in> ones (core_bitmap r)"
    show "length (slots (arrays r ?c)) < 63" using cap card_core_ids [OF ok on] by simp
    fix x assume "x \<in> ones (transaction_bitmap (arrays r ?c))"
    then have "?c * 64 + x < i" "x < 64" using asc core_ids_region [OF on] ones_less by auto
    then show "x < i mod 64" by presburger
  qed
  have fresh: "\<forall>c < 64. v \<notin> set (slots (arrays r c))" using v(2) by (auto simp: region_slots_iff)
  obtain r' m' where r': "region_append ?c v (i mod 64) r m = Inr (r', m')" "region_ok (r', m')"
    "region_entries r' = (region_entries r)(?c * 64 + i mod 64 \<mapsto> v)"
    "ones (core_bitmap r') = insert ?c (ones (core_bitmap r))"
    "arrays r' = (arrays r)(?c := arrays r' ?c)" "slots (arrays r' ?c) = slots (region_cleared r ?c) @ [v]"
    "vers m' = vers m |` (- region_stale r ?c)" "brk m' = brk m"
    by (rule region_append_ok [OF ok v(1) c(2,1) fresh room])
  let ?o = "\<Union>d \<in> {..<64} - {?c}. set (slots (arrays r d))"
  have off: "(\<Union>d \<in> {..<64} - {?c}. set (slots (arrays r' d))) = ?o"
    by (subst r'(5)) simp
  have sl: "region_slots r' = insert v (set (slots (region_cleared r ?c))) \<union> ?o"
    unfolding region_slots_at(1) [OF c(1), of r'] off r'(6) by auto
  have slr: "region_slots r = set (slots (arrays r ?c)) \<union> ?o" by (rule region_slots_at(1) [OF c(1)])
  have stale: "region_stale r ?c \<inter> region_slots r' = {}" "region_stale r ?c \<subseteq> region_slots r"
  proof -
    have "set (slots (arrays r ?c)) \<inter> ?o = {}" using region_okD(3) [OF ok c(1)] by blast
    moreover have "v \<notin> set (slots (arrays r ?c))" using fresh c(1) by blast
    ultimately show "region_stale r ?c \<inter> region_slots r' = {}" "region_stale r ?c \<subseteq> region_slots r"
      unfolding sl slr by (auto simp: region_stale_def region_cleared_def pcva_init_def)
  qed
  have "region_slots r' \<subseteq> insert v (region_slots r)"
    unfolding sl slr by (auto simp: region_cleared_def pcva_init_def)
  moreover have "vers m' w = vers m w" if "w \<in> region_slots r' \<or> w \<notin> region_slots r" for w
    using that stale by (auto simp: r'(7) restrict_map_def)
  moreover have "core_bitmap r' \<noteq> 0" using r'(4) by (auto simp flip: ones_eq_empty_iff)
  ultimately show ?thesis using that r' sl by simp
qed

end
