(* ===== verification/Serval.thy ===== *)
theory Serval
  imports Serval_Row
begin

text \<open>
  The protocol class of protocols/serval/include/serval.hpp, the loader of
  protocols/serval/ycsb/initializer.hpp, the collector of protocols/serval/include/major_gc.hpp
  and the phases of executables/ycsb_serval.cpp. This theory has the calls of one thread that is
  not interrupted: an outcome \<open>Inr None\<close> is a spin loop that does not leave in the given state.
  \<open>idx\<close> is the Masstree index, \<open>record_size\<close> the schema. The times measured with
  \<open>rdtscp\<close> for the statistics are left out.
\<close>

section \<open>State\<close>

text \<open>All rows by their \<open>Value *\<close>, the regions, and the store.\<close>

record serval_db =
  svalues :: "nat \<Rightarrow> serval_value"
  sctl :: row_region_controller
  smem :: mem

record serval_thread =
  thr_core :: nat
  thr_serial_id :: nat
  thr_epoch :: nat
  write_set :: "nat \<Rightarrow> nat list"
  written_tables :: "nat set"

type_synonym index_find = "nat \<Rightarrow> nat \<Rightarrow> nat option"

definition not_found :: cxx_error where
  "not_found = AssertFailed"

definition put_val :: "nat \<Rightarrow> serval_value \<Rightarrow> serval_db \<Rightarrow> serval_db" where
  "put_val k val db = db\<lparr>svalues := (svalues db)(k := val)\<rparr>"

section \<open>Appending a pending version\<close>

definition get_core_serial :: "nat \<Rightarrow> nat" where
  "get_core_serial serial_id = serial_id div 64"

definition get_tx_serial :: "nat \<Rightarrow> nat" where
  "get_tx_serial serial_id = serial_id mod 64"

definition decompose_id_serial :: "nat \<Rightarrow> nat \<times> nat" where
  "decompose_id_serial serial_id = (get_core_serial serial_id, get_tx_serial serial_id)"

fun move_slots :: "(int \<times> nat) list \<Rightarrow> row_region \<Rightarrow> mem \<Rightarrow> (row_region \<times> mem) res" where
  "move_slots [] r m = Inr (r, m)"
| "move_slots ((serial_id, version) # rest) r m =
     (case decompose_id_serial (nat (serial_id mod 2 ^ 64)) of (core, tx) \<Rightarrow>
        ebind (region_append core version tx r m) (\<lambda>(r', m'). move_slots rest r' m'))"

definition move_global_array_to_row_region ::
  "global_version_array \<Rightarrow> row_region \<Rightarrow> mem \<Rightarrow> (global_version_array \<times> row_region \<times> mem) res" where
  "move_global_array_to_row_region g r m =
     ebind (move_slots (ids_slots g) r m) (\<lambda>(r', m'). Inr (g\<lparr>ids_slots := []\<rparr>, r', m'))"

definition may_be_contented :: "nat option \<Rightarrow> bool" where
  "may_be_contented row_region \<longleftrightarrow> row_region \<noteq> None"

definition append_to_unconted_row ::
  "nat \<Rightarrow> serval_value \<Rightarrow> mem \<Rightarrow> (nat \<times> serval_value \<times> mem) res" where
  "append_to_unconted_row serial_id val m =
     (let (new_version, m1) = create_pending_version m
      in ebind (gva_append new_version (int serial_id) (global_array val)) (\<lambda>g.
           assert_then (gva_is_exist (int serial_id) g)
             (Inr (new_version, val\<lparr>global_array := g\<rparr>, m1))))"

definition append_to_contented_row ::
  "nat \<Rightarrow> nat \<Rightarrow> nat \<Rightarrow> row_region_controller \<Rightarrow> mem \<Rightarrow> (nat \<times> row_region_controller \<times> mem) res" where
  "append_to_contented_row core serial_id region ctl m =
     (let (pending, m1) = create_pending_version m
      in ebind (region_append core pending (get_tx_serial serial_id) (regions ctl region) m1) (\<lambda>(r, m2).
           Inr (pending, ctl\<lparr>regions := (regions ctl)(region := r)\<rparr>, m2)))"

text \<open>The part of \<open>wait_region_installation\<close> that runs with the row locked.\<close>

definition install_region ::
  "serval_value \<Rightarrow> row_region_controller \<Rightarrow> mem \<Rightarrow> (nat \<times> serval_value \<times> row_region_controller \<times> mem) res" where
  "install_region val ctl m =
     (case row_region_ptr val of
        Some region \<Rightarrow> Inr (region, val, ctl, m)
      | None \<Rightarrow>
          ebind (fetch_new_region ctl) (\<lambda>(region, ctl1).
            ebind (move_global_array_to_row_region (global_array val) (regions ctl1 region) m) (\<lambda>(g, r, m1).
              Inr (region, val\<lparr>global_array := g, row_region_ptr := Some region\<rparr>,
                   ctl1\<lparr>regions := (regions ctl1)(region := r)\<rparr>, m1))))"

definition wait_region_installation ::
  "serval_value \<Rightarrow> row_region_controller \<Rightarrow> mem \<Rightarrow> (nat \<times> serval_value \<times> row_region_controller \<times> mem) option res" where
  "wait_region_installation val ctl m =
     (case row_region_ptr val of
        Some region \<Rightarrow> Inr (Some (region, val, ctl, m))
      | None \<Rightarrow>
          (case val_try_lock val of (ok, val1) \<Rightarrow>
             if ok then ebind (install_region val1 ctl m) (\<lambda>(region, val2, ctl2, m2).
                          Inr (Some (region, val_unlock val2, ctl2, m2)))
             else Inr None))"

definition epoch_guard ::
  "nat \<Rightarrow> serval_value \<Rightarrow> row_region_controller \<Rightarrow> mem \<Rightarrow> (serval_value \<times> row_region_controller \<times> mem) option res" where
  "epoch_guard epoch val ctl m =
     (if val_epoch val < epoch then
        (case val_try_lock val of (ok, val1) \<Rightarrow>
           if ok then
             ebind (if val_epoch val1 < epoch then initialize_the_row epoch val1 ctl m else Inr (val1, ctl, m))
               (\<lambda>(val2, ctl2, m2). Inr (Some (val_unlock val2, ctl2, m2)))
           else Inr None)
      else Inr (Some (val, ctl, m)))"

definition do_append_pending_version ::
  "serval_thread \<Rightarrow> nat \<Rightarrow> serval_value \<Rightarrow> row_region_controller \<Rightarrow> mem
   \<Rightarrow> (nat \<times> serval_value \<times> row_region_controller \<times> mem) option res" where
  "do_append_pending_version t pending val ctl m =
     assert_then (pending = nullptr)
       (ebind (epoch_guard (thr_epoch t) val ctl m) (\<lambda>g. case g of None \<Rightarrow> Inr None | Some (val, ctl, m) \<Rightarrow>
          assert_then (val_epoch val = thr_epoch t)
            (case val_try_lock val of (ok, val1) \<Rightarrow>
               if ok then
                 ebind (case row_region_ptr val1 of
                          Some cur_region \<Rightarrow>
                            ebind (append_to_contented_row (thr_core t) (thr_serial_id t) cur_region ctl m)
                              (\<lambda>(p, ctl', m'). Inr (p, val1, ctl', m'))
                        | None \<Rightarrow>
                            ebind (append_to_unconted_row (thr_serial_id t) val1 m)
                              (\<lambda>(p, val', m'). Inr (p, val', ctl, m')))
                   (\<lambda>(p, val2, ctl2, m2). Inr (Some (p, val_unlock val2, ctl2, m2)))
               else
                 ebind (wait_region_installation val ctl m) (\<lambda>w. case w of None \<Rightarrow> Inr None
                   | Some (region, val2, ctl2, m2) \<Rightarrow>
                       ebind (append_to_contented_row (thr_core t) (thr_serial_id t) region ctl2 m2)
                         (\<lambda>(p, ctl3, m3). Inr (Some (p, val2, ctl3, m3)))))))"

definition append_pending_version ::
  "index_find \<Rightarrow> nat \<Rightarrow> nat \<Rightarrow> nat \<Rightarrow> serval_thread \<Rightarrow> serval_db \<Rightarrow> (nat \<times> serval_thread \<times> serval_db) option res" where
  "append_pending_version idx table_id key pending t db =
     (let t1 = t\<lparr>written_tables := insert table_id (written_tables t)\<rparr>
      in if key \<notin> set (write_set t1 table_id) then
           case idx table_id key of
             None \<Rightarrow> Inl not_found
           | Some k \<Rightarrow>
               ebind (do_append_pending_version t1 pending (svalues db k) (sctl db) (smem db)) (\<lambda>r.
                 case r of None \<Rightarrow> Inr None
                 | Some (p, val, ctl, m) \<Rightarrow>
                     assert_then (p \<noteq> nullptr)
                       (Inr (Some (p, t1\<lparr>write_set := (write_set t1)(table_id := write_set t1 table_id @ [key])\<rparr>,
                                   (put_val k val db)\<lparr>sctl := ctl, smem := m\<rparr>))))
         else Inl (RuntimeError ''error''))"

definition terminate_transaction :: "serval_thread \<Rightarrow> serval_thread" where
  "terminate_transaction t =
     t\<lparr>write_set := (\<lambda>table_id. if table_id \<in> written_tables t then [] else write_set t table_id), written_tables := {}\<rparr>"

section \<open>Reading and writing\<close>

definition serval_read_row ::
  "serval_thread \<Rightarrow> serval_value \<Rightarrow> row_region_controller \<Rightarrow> mem \<Rightarrow> nat option res" where
  "serval_read_row t val ctl m =
     (if val_epoch val \<noteq> thr_epoch t then ebind (execute_read (master val) m) (\<lambda>r. Inr (Some r))
      else if gva_is_dirty (global_array val) then
        (case gva_search_visible_version (int (thr_serial_id t)) (global_array val) of (is_found, txid, v) \<Rightarrow>
           if is_found then
             assert_then (unat txid < thr_serial_id t) (wait_stable_and_execute_read v m)
           else ebind (execute_read (master val) m) (\<lambda>r. Inr (Some r)))
      else if val_has_dirty_region ctl val then
        (case row_region_ptr val of None \<Rightarrow> Inl NullDeref
         | Some k \<Rightarrow>
             ebind (identify_visible_version (thr_core t) (get_tx_serial (thr_serial_id t)) (regions ctl k))
               (\<lambda>(is_found, core, tx).
                  if is_found then
                    assert_then (core * 64 + tx < thr_serial_id t)
                      (ebind (pcva_get tx (arrays (regions ctl k) core)) (\<lambda>v. wait_stable_and_execute_read v m))
                  else ebind (execute_read (master val) m) (\<lambda>r. Inr (Some r))))
      else ebind (execute_read (master val) m) (\<lambda>r. Inr (Some r)))"

definition serval_read :: "index_find \<Rightarrow> nat \<Rightarrow> nat \<Rightarrow> serval_thread \<Rightarrow> serval_db \<Rightarrow> nat option res" where
  "serval_read idx table_id key t db =
     (case idx table_id key of
        None \<Rightarrow> Inl not_found
      | Some k \<Rightarrow> serval_read_row t (svalues db k) (sctl db) (smem db))"

definition serval_write :: "(nat \<Rightarrow> nat) \<Rightarrow> nat \<Rightarrow> nat \<Rightarrow> serval_db \<Rightarrow> (nat \<times> serval_db) res" where
  "serval_write record_size table_id pending db =
     ebind (upsert (record_size table_id) pending (smem db)) (\<lambda>(r, m). Inr (r, db\<lparr>smem := m\<rparr>))"

section \<open>protocols/serval/ycsb/initializer.hpp\<close>

definition serval_insert_into_index :: "nat \<Rightarrow> nat \<Rightarrow> mem \<Rightarrow> (serval_value \<times> mem) res" where
  "serval_insert_into_index r r2 m =
     (let (epoch_1_version, m1) = new_version \<lparr>ver_rec = r, ver_status = STABLE, ver_deleted = False\<rparr> m
      in ebind (gva_append epoch_1_version (- 1) \<lparr>ids_slots = []\<rparr>) (\<lambda>g.
           let (epoch_minus_1_version, m2) = new_version \<lparr>ver_rec = r2, ver_status = STABLE, ver_deleted = False\<rparr> m1
           in Inr (\<lparr>rwl = 0, val_epoch = 0, master = epoch_minus_1_version, global_array = g,
                    row_region_ptr = None\<rparr>, m2)))"

fun serval_load_all_tables :: "nat \<Rightarrow> nat \<Rightarrow> serval_db \<Rightarrow> serval_db res" where
  "serval_load_all_tables record_size 0 db = Inr db"
| "serval_load_all_tables record_size (Suc key) db =
     ebind (serval_load_all_tables record_size key db) (\<lambda>db.
       let (r, m1) = new_record record_size (smem db); (r2, m2) = new_record record_size m1
       in ebind (serval_insert_into_index r r2 m2) (\<lambda>(val, m3). Inr ((put_val key val db)\<lparr>smem := m3\<rparr>)))"

section \<open>One append on a well-formed row\<close>

text \<open>A row within an epoch: its entries are serial ids of the epoch.\<close>

definition row_cur :: "row_region_controller \<Rightarrow> serval_value \<Rightarrow> mem \<Rightarrow> bool" where
  "row_cur ctl val m \<longleftrightarrow> row_ok ctl val m \<and> (\<forall>p \<in> set (ids_slots (global_array val)). 0 \<le> fst p)"

lemma gva_ok_row: "row_cur ctl val m \<Longrightarrow> gva_ok (global_array val)"
proof -
  assume cur: "row_cur ctl val m"
  then have ok: "row_ok ctl val m" by (simp add: row_cur_def)
  have "snd p \<noteq> nullptr" if "p \<in> set (ids_slots (global_array val))" for p
    using row_okD(5) [OF ok, of "snd p"] that by (auto simp: row_versions_def live_def)
  moreover have "fst p < 2 ^ 31" if "p \<in> set (ids_slots (global_array val))" for p
    using row_okD(8) [OF ok that] by simp
  ultimately show ?thesis using cur row_okD(3) [OF ok] by (simp add: gva_ok_def row_cur_def)
qed

lemma dom_row_entries: "row_cur ctl val m \<Longrightarrow> i \<in> dom (row_entries ctl val) \<Longrightarrow> i < 4096"
proof (cases "row_region_ptr val")
  case None
  moreover assume cur: "row_cur ctl val m" and "i \<in> dom (row_entries ctl val)"
  ultimately obtain p where "p \<in> set (ids_slots (global_array val))" "int i = fst p"
    by (auto simp: row_entries_def dom_gva_entries_iff)
  moreover from cur have "row_ok ctl val m" by (simp add: row_cur_def)
  ultimately show ?thesis using row_okD(8) by fastforce
next
  case (Some k)
  moreover assume "i \<in> dom (row_entries ctl val)"
  ultimately have "i div 64 \<in> ones (core_bitmap (regions ctl k))"
    by (auto simp: row_entries_def region_entries_def split: if_splits)
  then show ?thesis using ones_less by fastforce
qed

lemma live_less_brk: "mem_ok m \<Longrightarrow> live m v \<Longrightarrow> v < brk m"
  using mem_okD(2) by (fastforce simp: live_def)

lemma row_fresh: "row_ok ctl val m \<Longrightarrow> brk m \<notin> row_versions ctl val \<and> brk m \<noteq> master val"
  using live_less_brk stable_live row_okD(1,2,5) by (metis less_irrefl)

lemma append_to_unconted_row_ok:
  assumes cur: "row_cur ctl val m" and none: "row_region_ptr val = None" and i: "i < 4096"
    and new: "i \<notin> dom (row_entries ctl val)"
  obtains val' m' where "append_to_unconted_row i val m = Inr (brk m, val', m')" "row_cur ctl val' m'"
    "row_entries ctl val' = (row_entries ctl val)(i \<mapsto> brk m)" "row_region_ptr val' = None"
    "val_epoch val' = val_epoch val" "rwl val' = rwl val" "master val' = master val"
    "vers m' = (vers m)(brk m \<mapsto> \<lparr>ver_rec = nullptr, ver_status = PENDING, ver_deleted = False\<rparr>)" "brk m' = brk m + 1"
    "row_versions ctl val' = insert (brk m) (row_versions ctl val)"
proof -
  let ?g = "global_array val" let ?xs = "ids_slots ?g"
  let ?g' = "?g\<lparr>ids_slots := insert_ascending (int i) (brk m) ?xs\<rparr>" let ?val' = "val\<lparr>global_array := ?g'\<rparr>"
  have ok: "row_ok ctl val m" "\<forall>p \<in> set ?xs. 0 \<le> fst p" using cur by (auto simp: row_cur_def)
  obtain m' where c: "create_pending_version m = (brk m, m')" by (simp add: create_pending_version_eq)
  note cp = create_pending_version_ok [OF row_okD(1) [OF ok(1)] c]
  have brk': "brk m' = brk m + 1" using c by (auto simp: create_pending_version_eq)
  have nid: "int i \<notin> fst ` set ?xs" using new by (simp add: row_entries_def none dom_gva_entries_iff)
  note fr = row_fresh [OF ok(1)]
  have rv: "row_versions ctl val = snd ` set ?xs" "row_versions ctl ?val' = insert (brk m) (snd ` set ?xs)"
    by (auto simp: row_versions_def none)
  have distinct: "distinct (map snd (insert_ascending (int i) (brk m) ys))"
    if "distinct (map snd ys)" "brk m \<notin> snd ` set ys" for ys
    using that by (induction ys) auto
  have "row_ok ctl ?val' m'"
    unfolding row_ok_def
  proof (intro conjI)
    show "stable m' (master ?val')" using row_okD(2) [OF ok(1)] fr cp(5) by (auto simp: stable_def)
    show "distinct (map snd (ids_slots (global_array ?val')))"
      using distinct row_okD(4) [OF ok(1)] fr rv(1) by simp
    show "\<forall>v \<in> row_versions ctl ?val'. live m' v \<and> v \<noteq> master ?val'"
      using row_okD(5,6) [OF ok(1)] fr cp(3,5) by (auto simp: rv live_def)
  qed (use cp(1) row_okD(3,8) [OF ok(1)] nid i none in \<open>auto simp: ascending_insert\<close>)
  moreover have "row_entries ctl ?val' = (row_entries ctl val)(i \<mapsto> brk m)"
    by (auto simp: row_entries_def none gva_entries_def fun_eq_iff map_of_insert_ascending [OF nid])
  moreover have "append_to_unconted_row i val m = Inr (brk m, ?val', m')"
    using cp(3) by (auto simp: append_to_unconted_row_def c gva_append_def gva_is_exist_def find_None_iff guard_def)
  ultimately show ?thesis
    using that [of ?val' m'] ok(2) none cp(5) brk' rv by (simp add: row_cur_def)
qed

lemma append_to_contented_row_ok:
  assumes cur: "row_cur ctl val m" and k: "row_region_ptr val = Some k" and i: "i < 4096"
    and asc: "\<forall>j \<in> core_ids (row_entries ctl val) (i div 64). j < i"
    and cap: "card (core_ids (row_entries ctl val) (i div 64)) < 63"
  obtains r m' where "append_to_contented_row (i div 64) i k ctl m =
      Inr (brk m, ctl\<lparr>regions := (regions ctl)(k := r)\<rparr>, m')"
    "row_cur (ctl\<lparr>regions := (regions ctl)(k := r)\<rparr>) val m'"
    "row_entries (ctl\<lparr>regions := (regions ctl)(k := r)\<rparr>) val = (row_entries ctl val)(i \<mapsto> brk m)"
    "core_bitmap r \<noteq> 0" "brk m' = brk m + 1"
    "vers m' (brk m) = Some \<lparr>ver_rec = nullptr, ver_status = PENDING, ver_deleted = False\<rparr>"
    "\<And>w. w \<noteq> brk m \<Longrightarrow> w \<in> region_slots r \<or> w \<notin> region_slots (regions ctl k) \<Longrightarrow> vers m' w = vers m w"
    "row_versions (ctl\<lparr>regions := (regions ctl)(k := r)\<rparr>) val \<subseteq> insert (brk m) (row_versions ctl val)"
proof -
  let ?r = "regions ctl k"
  have ok: "row_ok ctl val m" using cur by (simp add: row_cur_def)
  have kr: "ids_slots (global_array val) = []" "k < used ctl" "region_ok (?r, m)" using row_okD(7) [OF ok k] by auto
  have e: "row_entries ctl val = region_entries ?r" by (simp add: row_entries_def k)
  have rv: "row_versions ctl val = region_slots ?r" by (simp add: row_versions_def k kr)
  obtain m1 where c: "create_pending_version m = (brk m, m1)" by (simp add: create_pending_version_eq)
  note cp = create_pending_version_ok [OF row_okD(1) [OF ok] c]
  have brk1: "brk m1 = brk m + 1" using c by (auto simp: create_pending_version_eq)
  note fr = row_fresh [OF ok]
  have keep: "vers m1 w = vers m w" if "w \<noteq> brk m" for w using that cp(5) by simp
  have "region_ok (?r, m1)" using kr(3) cp(1) by (rule region_ok_mem_mono) (metis fr rv keep)
  then obtain r m' where a: "region_append (i div 64) (brk m) (i mod 64) ?r m1 = Inr (r, m')" "region_ok (r, m')"
    "region_entries r = (region_entries ?r)(i \<mapsto> brk m)" "core_bitmap r \<noteq> 0"
    "region_slots r \<subseteq> insert (brk m) (region_slots ?r)" "brk m \<in> region_slots r" "brk m' = brk m1"
    "\<And>w. w \<in> region_slots r \<or> w \<notin> region_slots ?r \<Longrightarrow> vers m' w = vers m1 w"
    by (rule region_append_id [OF _ i]) (use cp(3) fr rv asc cap e in auto)
  let ?ctl = "ctl\<lparr>regions := (regions ctl)(k := r)\<rparr>"
  have mst: "vers m' (master val) = vers m (master val)"
    using a(8) [of "master val"] row_okD(6) [OF ok] rv fr keep [of "master val"] by fastforce
  have new: "vers m' (brk m) = Some \<lparr>ver_rec = nullptr, ver_status = PENDING, ver_deleted = False\<rparr>"
    using a(8) [of "brk m"] a(6) cp(5) by simp
  have old: "vers m' w = vers m w" if "w \<noteq> brk m" "w \<in> region_slots r \<or> w \<notin> region_slots ?r" for w
    using a(8) that keep by simp
  have "live m' v \<and> v \<noteq> master val" if "v \<in> region_slots r" for v
    using that a(5) old [of v] new cp(3) fr row_okD(5,6) [OF ok, of v] rv
    by (cases "v = brk m") (auto simp: live_def)
  then have "row_cur ?ctl val m'"
    using cur a(2) kr mst region_okD(1) [OF a(2)]
    by (simp add: row_cur_def row_ok_def row_versions_def k stable_def)
  moreover have "append_to_contented_row (i div 64) i k ctl m = Inr (brk m, ?ctl, m')"
    by (simp add: append_to_contented_row_def c get_tx_serial_def a(1))
  ultimately show ?thesis
    using that a(3,4,5,7) new old brk1 by (simp add: e row_entries_def row_versions_def k kr)
qed

lemma region_entries_slots:
  assumes "region_ok (r, m)" and "region_entries r i = Some v"
  shows "v \<in> region_slots r"
proof -
  let ?a = "arrays r (i div 64)"
  have c: "i div 64 \<in> ones (core_bitmap r)" "i mod 64 \<in> ones (transaction_bitmap ?a)"
    "v = slots ?a ! rank (ones (transaction_bitmap ?a)) (i mod 64)"
    using assms(2) by (auto simp: region_entries_def pcva_entries_def split: if_splits)
  then have "v \<in> set (slots ?a)"
    using region_okD(4) [OF assms(1) c(1)] by (auto simp: pcva_ok_def intro!: nth_mem rank_less_card)
  then show ?thesis using ones_less [OF c(1)] by (auto simp: region_slots_iff)
qed

text \<open>Moving the global array into a region keeps every entry.\<close>

lemma move_slots_ok:
  assumes "region_ok (r, m)" and "ascending xs" and "distinct (map snd xs)"
    and "\<forall>p \<in> set xs. 0 \<le> fst p \<and> fst p < 4096 \<and> snd p \<noteq> nullptr \<and> snd p \<notin> region_slots r"
    and "\<forall>p \<in> set xs. \<forall>j \<in> dom (region_entries r). int j < fst p"
    and "\<forall>c. card (core_ids (region_entries r ++ (\<lambda>i. map_of xs (int i))) c) \<le> 63"
  shows "\<exists>r' m'. move_slots xs r m = Inr (r', m') \<and> region_ok (r', m')
      \<and> region_entries r' = region_entries r ++ (\<lambda>i. map_of xs (int i))
      \<and> region_slots r' \<subseteq> region_slots r \<union> snd ` set xs \<and> brk m' = brk m
      \<and> (\<forall>w. w \<in> region_slots r' \<or> w \<notin> region_slots r \<longrightarrow> vers m' w = vers m w)"
  using assms
proof (induction xs arbitrary: r m)
  case (Cons p xs)
  obtain s v where p: "p = (s, v)" by fastforce
  define i where "i = nat s"
  have s: "s = int i" "i < 4096" "v \<noteq> nullptr" "v \<notin> region_slots r" using Cons.prems(4) by (auto simp: p i_def)
  have i64: "nat (s mod 2 ^ 64) = i" using s by simp
  let ?e = "region_entries r" let ?e' = "?e(i \<mapsto> v)"
  have mo: "(\<lambda>j. map_of (p # xs) (int j)) = (\<lambda>j. map_of xs (int j))(i \<mapsto> v)" by (auto simp: p s fun_eq_iff)
  have nx: "int i \<notin> fst ` set xs" using Cons.prems(2) by (auto simp: p s)
  have fold: "?e ++ (\<lambda>j. map_of (p # xs) (int j)) = ?e' ++ (\<lambda>j. map_of xs (int j))"
    unfolding mo using nx [folded map_of_eq_None_iff] by (auto simp: fun_eq_iff map_add_def split: option.splits)
  have asc: "\<forall>j \<in> core_ids ?e (i div 64). j < i" using Cons.prems(5) by (auto simp: core_ids_def p s)
  have cap: "card (core_ids ?e (i div 64)) < 63"
  proof -
    have fin: "finite (core_ids (?e ++ (\<lambda>j. map_of (p # xs) (int j))) (i div 64))"
      by (rule finite_subset [of _ "{..<64 * (i div 64) + 64}"]) (auto simp: core_ids_def)
    have "insert i (core_ids ?e (i div 64)) \<subseteq> core_ids (?e ++ (\<lambda>j. map_of (p # xs) (int j))) (i div 64)"
      unfolding fold by (auto simp: core_ids_def)
    moreover have "i \<notin> core_ids ?e (i div 64)" using asc by blast
    ultimately have "core_ids ?e (i div 64) \<subset> core_ids (?e ++ (\<lambda>j. map_of (p # xs) (int j))) (i div 64)"
      by blast
    from psubset_card_mono [OF fin this] Cons.prems(6) show ?thesis by (meson less_le_trans)
  qed
  obtain r1 m1 where a: "region_append (i div 64) v (i mod 64) r m = Inr (r1, m1)" "region_ok (r1, m1)"
    "region_entries r1 = ?e'" "core_bitmap r1 \<noteq> 0"
    "region_slots r1 \<subseteq> insert v (region_slots r)" "v \<in> region_slots r1" "brk m1 = brk m"
    "\<And>w. w \<in> region_slots r1 \<or> w \<notin> region_slots r \<Longrightarrow> vers m1 w = vers m w"
    by (rule region_append_id [OF Cons.prems(1) s(2-4) asc cap]) blast
  have "\<exists>r' m'. move_slots xs r1 m1 = Inr (r', m') \<and> region_ok (r', m')
      \<and> region_entries r' = region_entries r1 ++ (\<lambda>i. map_of xs (int i))
      \<and> region_slots r' \<subseteq> region_slots r1 \<union> snd ` set xs \<and> brk m' = brk m1
      \<and> (\<forall>w. w \<in> region_slots r' \<or> w \<notin> region_slots r1 \<longrightarrow> vers m' w = vers m1 w)"
  proof (rule Cons.IH [OF a(2)])
    show "\<forall>q \<in> set xs. 0 \<le> fst q \<and> fst q < 4096 \<and> snd q \<noteq> nullptr \<and> snd q \<notin> region_slots r1"
      using Cons.prems(3,4) a(5) by (auto simp: p)
    show "\<forall>q \<in> set xs. \<forall>j \<in> dom (region_entries r1). int j < fst q"
      using Cons.prems(2,5) by (auto simp: a(3) p s)
    show "\<forall>c. card (core_ids (region_entries r1 ++ (\<lambda>i. map_of xs (int i))) c) \<le> 63"
      using Cons.prems(6) fold by (simp add: a(3))
  qed (use Cons.prems in \<open>auto simp: p\<close>)
  then obtain r' m' where r': "move_slots xs r1 m1 = Inr (r', m')" "region_ok (r', m')"
    "region_entries r' = region_entries r1 ++ (\<lambda>i. map_of xs (int i))"
    "region_slots r' \<subseteq> region_slots r1 \<union> snd ` set xs" "brk m' = brk m1"
    "\<forall>w. w \<in> region_slots r' \<or> w \<notin> region_slots r1 \<longrightarrow> vers m' w = vers m1 w" by blast
  have "region_entries r' i = Some v"
    using nx [folded map_of_eq_None_iff] by (simp add: r'(3) a(3) map_add_def)
  then have vr': "v \<in> region_slots r'" by (rule region_entries_slots [OF r'(2)])
  have "vers m' w = vers m w" if w: "w \<in> region_slots r' \<or> w \<notin> region_slots r" for w
  proof (cases "w \<in> region_slots r")
    case True
    then have "w \<notin> snd ` set xs" using Cons.prems(4) by auto
    then have "w \<in> region_slots r1" using True w r'(4) by blast
    then show ?thesis using r'(6) a(8) True w by auto
  next
    case False
    then show ?thesis using r'(6) a(8) a(5) vr' by (metis insertE subsetD)
  qed
  moreover have "region_slots r' \<subseteq> region_slots r \<union> snd ` set (p # xs)" using r'(4) a(5) by (auto simp: p)
  moreover have "move_slots (p # xs) r m = Inr (r', m')"
    by (simp only: p move_slots.simps i64 decompose_id_serial_def get_core_serial_def get_tx_serial_def
        prod.case a(1) ebind_Inr r'(1))
  ultimately show ?case using r' a(3,7) fold by auto
qed simp

text \<open>Unused regions are as the constructor left them.\<close>

definition rrc_ok :: "row_region_controller \<Rightarrow> bool" where
  "rrc_ok ctl \<longleftrightarrow> (\<forall>k. used ctl \<le> k \<longrightarrow> regions ctl k = region_init)"

lemma install_region_ok:
  assumes cur: "row_cur ctl val m" and none: "row_region_ptr val = None" and rrc: "rrc_ok ctl"
    and free: "used ctl < NUM_REGIONS" and cap: "\<forall>c. card (core_ids (row_entries ctl val) c) \<le> 63"
  obtains val' ctl' m' where "install_region val ctl m = Inr (used ctl, val', ctl', m')"
    "row_cur ctl' val' m'" "row_entries ctl' val' = row_entries ctl val" "row_region_ptr val' = Some (used ctl)"
    "val_epoch val' = val_epoch val" "rwl val' = rwl val" "master val' = master val"
    "rrc_ok ctl'" "used ctl' = used ctl + 1" "\<And>k. k \<noteq> used ctl \<Longrightarrow> regions ctl' k = regions ctl k"
    "vers m' = vers m" "brk m' = brk m" "row_versions ctl' val' \<subseteq> row_versions ctl val"
proof -
  let ?g = "global_array val" let ?xs = "ids_slots ?g" let ?k = "used ctl"
  have ok: "row_ok ctl val m" using cur by (simp add: row_cur_def)
  have fresh: "regions ctl ?k = region_init" using rrc by (simp add: rrc_ok_def)
  have rs: "region_slots region_init = {}" by (simp add: region_slots_def region_init_def pcva_init_def)
  have e: "row_entries ctl val = (\<lambda>i. map_of ?xs (int i))"
    by (simp add: row_entries_def none gva_entries_def fun_eq_iff)
  have "\<forall>p \<in> set ?xs. 0 \<le> fst p \<and> fst p < 4096 \<and> snd p \<noteq> nullptr \<and> snd p \<notin> region_slots region_init"
    using gva_ok_row [OF cur] row_okD(8) [OF ok] by (auto simp: gva_ok_def rs)
  with move_slots_ok [of region_init m ?xs] obtain r m' where mv: "move_slots ?xs region_init m = Inr (r, m')"
    "region_ok (r, m')" "region_entries r = row_entries ctl val" "region_slots r \<subseteq> snd ` set ?xs"
    "brk m' = brk m" "\<forall>w. vers m' w = vers m w"
    using row_okD(1,3,4) [OF ok] cap e by (auto simp: rs)
  let ?val' = "val\<lparr>global_array := ?g\<lparr>ids_slots := []\<rparr>, row_region_ptr := Some ?k\<rparr>"
  let ?ctl' = "ctl\<lparr>used := ?k + 1, regions := (regions ctl)(?k := r)\<rparr>"
  have "install_region val ctl m = Inr (?k, ?val', ?ctl', m')"
    using free by (simp add: install_region_def none fetch_new_region_def move_global_array_to_row_region_def
        fresh mv(1))
  moreover have "row_cur ?ctl' ?val' m'"
  proof -
    have "live m' v \<and> v \<noteq> master val" if "v \<in> region_slots r" for v
    proof -
      have "v \<in> row_versions ctl val" using that mv(4) by (auto simp: row_versions_def none)
      then show ?thesis using row_okD(5,6) [OF ok] mv(6) by (simp add: live_def)
    qed
    then show ?thesis
      using mv(2,6) row_okD(2) [OF ok] region_okD(1) [OF mv(2)]
      by (simp add: row_cur_def row_ok_def row_versions_def stable_def)
  qed
  moreover have "rrc_ok ?ctl'" using rrc by (simp add: rrc_ok_def)
  moreover have "row_entries ?ctl' ?val' = row_entries ctl val" using mv(3) by (simp add: row_entries_def)
  moreover have "row_versions ?ctl' ?val' \<subseteq> row_versions ctl val" using mv(4) by (auto simp: row_versions_def none)
  ultimately show ?thesis using that mv(5,6) by (simp add: fun_eq_iff)
qed

section \<open>Reads\<close>

text \<open>
  In an epoch that has written the row, a read by serial id \<open>n\<close> goes to the version with the
  largest id below \<open>n\<close>, and to the master version if there is none.
\<close>

definition row_visible :: "row_region_controller \<Rightarrow> serval_value \<Rightarrow> nat \<Rightarrow> nat" where
  "row_visible ctl val n =
     (case visible_entry (row_entries ctl val) n of None \<Rightarrow> master val | Some (i, v) \<Rightarrow> v)"

lemma row_entries_versions:
  assumes "row_cur ctl val m" and "row_entries ctl val i = Some v"
  shows "v \<in> row_versions ctl val"
proof (cases "row_region_ptr val")
  case None
  then have "(int i, v) \<in> set (ids_slots (global_array val))"
    using assms(2) by (simp add: row_entries_def gva_entries_def map_of_SomeD)
  then show ?thesis by (force simp: row_versions_def)
next
  case (Some k)
  then have "region_ok (regions ctl k, m)" using assms(1) row_okD(7) by (auto simp: row_cur_def)
  then show ?thesis using region_entries_slots assms(2) Some by (auto simp: row_versions_def row_entries_def)
qed

lemma master_read:
  assumes "row_ok ctl val m"
  shows "ebind (execute_read (master val) m) (\<lambda>r. Inr (Some r)) = Inr (read_of m (master val))"
  using row_okD(2) [OF assms] mem_okD(2) [OF row_okD(1) [OF assms]]
  by (fastforce simp: stable_def read_of_def execute_read_eq)

lemma serval_read_row_eq:
  assumes cur: "row_cur ctl val m" and ep: "val_epoch val = thr_epoch t"
    and n: "thr_serial_id t < 4096" "thr_core t = thr_serial_id t div 64"
  shows "serval_read_row t val ctl m = Inr (read_of m (row_visible ctl val (thr_serial_id t)))"
proof -
  let ?n = "thr_serial_id t" let ?g = "global_array val"
  have ok: "row_ok ctl val m" using cur by (simp add: row_cur_def)
  note mst = master_read [OF ok]
  have lv: "live m v" if "row_entries ctl val i = Some v" for i v
    using row_entries_versions [OF cur that] row_okD(5) [OF ok] by blast
  show ?thesis
  proof (cases "row_region_ptr val")
    case none: None
    note sp = gva_search_spec [OF gva_ok_row [OF cur], of ?n]
    obtain b x v where s: "gva_search_visible_version (int ?n) ?g = (b, x, v)" by (metis prod_cases3)
    have e: "row_entries ctl val = gva_entries ?g" by (simp add: row_entries_def none)
    show ?thesis
    proof (cases b)
      case True
      then have ve: "visible_entry (row_entries ctl val) ?n = Some (unat x, v)" using sp s by (simp add: e found_entry_def)
      then have "row_entries ctl val (unat x) = Some v" "unat x < ?n" by (auto simp: visible_entry_Some)
      moreover have "gva_is_dirty ?g" using s True by (auto simp: gva_search_visible_version_def gva_is_dirty_def)
      ultimately show ?thesis
        using ep ve lv wait_read_of by (simp add: serval_read_row_def s True row_visible_def)
    next
      case False
      then have "visible_entry (row_entries ctl val) ?n = None" using sp s by (simp add: e found_entry_def)
      then show ?thesis
        using ep mst False by (simp add: serval_read_row_def s val_has_dirty_region_def none row_visible_def)
    qed
  next
    case (Some k)
    let ?r = "regions ctl k"
    have kr: "ids_slots ?g = []" "region_ok (?r, m)" using row_okD(7) [OF ok Some] by auto
    have e: "row_entries ctl val = region_entries ?r" by (simp add: row_entries_def Some)
    show ?thesis
    proof (cases "core_bitmap ?r = 0")
      case True
      then have "visible_entry (row_entries ctl val) ?n = None"
        by (simp add: e visible_entry_None region_entries_def dom_def)
      then show ?thesis
        using ep mst True by (simp add: serval_read_row_def kr gva_is_dirty_def val_has_dirty_region_def Some
            region_is_dirty_def row_visible_def)
    next
      case False
      note look = region_look_spec [OF kr(2) n(1) False]
      obtain z where z: "identify_visible_version (?n div 64) (?n mod 64) ?r = Inr z"
        using look by (auto simp: region_look_def ebind_eq_Inr)
      obtain b c x where zz: "z = (b, c, x)" by (metis prod_cases3)
      show ?thesis
      proof (cases b)
        case True
        then obtain v where v: "pcva_get x (arrays ?r c) = Inr v"
          "visible_entry (row_entries ctl val) ?n = Some (c * 64 + x, v)"
          using look by (auto simp: region_look_def z zz ebind_eq_Inr e)
        then have "row_entries ctl val (c * 64 + x) = Some v" "c * 64 + x < ?n" by (auto simp: visible_entry_Some)
        then show ?thesis
          using ep False v lv wait_read_of n(2)
          by (simp add: serval_read_row_def kr gva_is_dirty_def val_has_dirty_region_def Some
              region_is_dirty_def row_visible_def get_tx_serial_def z zz True)
      next
        case nf: False
        then have "visible_entry (row_entries ctl val) ?n = None" using look by (simp add: region_look_def z zz e)
        then show ?thesis
          using ep False mst nf n(2)
          by (simp add: serval_read_row_def kr gva_is_dirty_def val_has_dirty_region_def Some
              region_is_dirty_def row_visible_def get_tx_serial_def z zz)
      qed
    qed
  qed
qed

end
