(* ===== verification/Serval_Init.thy ===== *)
theory Serval_Init
  imports Serval
begin

text \<open>
  Serval's initialization phase on one row, with 64 workers interleaved at their accesses to the
  row: \<open>append_pending_version\<close> of serval.hpp is split at the loads of \<open>epoch_\<close> and
  \<open>row_region_\<close>, at every \<open>try_lock\<close> and at every \<open>unlock\<close>. What runs between
  them is one step: either the row's lock is held, or only the worker's own per-core array and
  the core bitmap (by an atomic or) are written.
\<close>

section \<open>The machine\<close>

text \<open>Each constructor carries the serial id whose version is being appended.\<close>

datatype init_pc =
    Ready
  | GuardLoop nat | GuardLock nat | GuardInit nat | GuardUnlock nat
  | TryLock nat | Locked nat | AppendUnlock nat
  | WaitLoop nat | WaitLock nat | Install nat | InstallUnlock nat nat
  | RegionAppend nat nat

record init_conf =
  ival :: serval_value
  ictl :: row_region_controller
  imem :: mem
  ipc :: "nat \<Rightarrow> init_pc"
  todo :: "nat \<Rightarrow> nat list"
  pendings :: "nat \<Rightarrow> nat option"

abbreviation goto :: "nat \<Rightarrow> init_pc \<Rightarrow> init_conf \<Rightarrow> init_conf" where
  "goto w pc s \<equiv> s\<lparr>ipc := (ipc s)(w := pc)\<rparr>"

text \<open>\<open>do_append_pending_version\<close> with \<open>epoch_guard\<close> and \<open>wait_region_installation\<close>, one access at a time.\<close>

definition init_step :: "nat \<Rightarrow> nat \<Rightarrow> init_conf \<Rightarrow> init_conf res" where
  "init_step epoch w s =
     (case ipc s w of
        Ready \<Rightarrow>
          (case todo s w of [] \<Rightarrow> Inr s
           | i # rest \<Rightarrow> Inr (goto w (GuardLoop i) (s\<lparr>todo := (todo s)(w := rest)\<rparr>)))
      | GuardLoop i \<Rightarrow> Inr (goto w (if val_epoch (ival s) < epoch then GuardLock i else TryLock i) s)
      | GuardLock i \<Rightarrow>
          (case val_try_lock (ival s) of (ok, v) \<Rightarrow>
             Inr (goto w (if ok then GuardInit i else GuardLoop i) (s\<lparr>ival := v\<rparr>)))
      | GuardInit i \<Rightarrow>
          ebind (if val_epoch (ival s) < epoch then initialize_the_row epoch (ival s) (ictl s) (imem s)
                 else Inr (ival s, ictl s, imem s)) (\<lambda>(val, ctl, m).
            Inr (goto w (GuardUnlock i) (s\<lparr>ival := val, ictl := ctl, imem := m\<rparr>)))
      | GuardUnlock i \<Rightarrow> Inr (goto w (TryLock i) (s\<lparr>ival := val_unlock (ival s)\<rparr>))
      | TryLock i \<Rightarrow>
          assert_then (val_epoch (ival s) = epoch)
            (case val_try_lock (ival s) of (ok, v) \<Rightarrow>
               Inr (goto w (if ok then Locked i else WaitLoop i) (s\<lparr>ival := v\<rparr>)))
      | Locked i \<Rightarrow>
          (case row_region_ptr (ival s) of
             Some cur_region \<Rightarrow>
               ebind (append_to_contented_row w i cur_region (ictl s) (imem s)) (\<lambda>(p, ctl, m).
                 Inr (goto w (AppendUnlock i) (s\<lparr>ictl := ctl, imem := m, pendings := (pendings s)(i \<mapsto> p)\<rparr>)))
           | None \<Rightarrow>
               ebind (append_to_unconted_row i (ival s) (imem s)) (\<lambda>(p, val, m).
                 Inr (goto w (AppendUnlock i) (s\<lparr>ival := val, imem := m, pendings := (pendings s)(i \<mapsto> p)\<rparr>))))
      | AppendUnlock i \<Rightarrow> Inr (goto w Ready (s\<lparr>ival := val_unlock (ival s)\<rparr>))
      | WaitLoop i \<Rightarrow>
          Inr (goto w (case row_region_ptr (ival s) of Some region \<Rightarrow> RegionAppend i region | None \<Rightarrow> WaitLock i) s)
      | WaitLock i \<Rightarrow>
          (case val_try_lock (ival s) of (ok, v) \<Rightarrow>
             Inr (goto w (if ok then Install i else WaitLoop i) (s\<lparr>ival := v\<rparr>)))
      | Install i \<Rightarrow>
          ebind (install_region (ival s) (ictl s) (imem s)) (\<lambda>(region, val, ctl, m).
            Inr (goto w (InstallUnlock i region) (s\<lparr>ival := val, ictl := ctl, imem := m\<rparr>)))
      | InstallUnlock i region \<Rightarrow> Inr (goto w (RegionAppend i region) (s\<lparr>ival := val_unlock (ival s)\<rparr>))
      | RegionAppend i region \<Rightarrow>
          ebind (append_to_contented_row w i region (ictl s) (imem s)) (\<lambda>(p, ctl, m).
            Inr (goto w Ready (s\<lparr>ictl := ctl, imem := m, pendings := (pendings s)(i \<mapsto> p)\<rparr>))))"

text \<open>A schedule is a list of workers.\<close>

fun init_run :: "nat \<Rightarrow> nat list \<Rightarrow> init_conf \<Rightarrow> init_conf res" where
  "init_run epoch [] s = Inr s"
| "init_run epoch (w # sched) s = ebind (init_step epoch w s) (init_run epoch sched)"

definition init_start :: "serval_value \<Rightarrow> row_region_controller \<Rightarrow> mem \<Rightarrow> (nat \<Rightarrow> nat list) \<Rightarrow> init_conf" where
  "init_start val ctl m W =
     \<lparr>ival = val, ictl = ctl, imem = m, ipc = (\<lambda>_. Ready), todo = W, pendings = Map.empty\<rparr>"

definition init_done :: "init_conf \<Rightarrow> bool" where
  "init_done s \<longleftrightarrow> (\<forall>w < 64. ipc s w = Ready \<and> todo s w = [])"

section \<open>The invariant\<close>

fun holding :: "init_pc \<Rightarrow> bool" where
  "holding (GuardInit i) = True"
| "holding (GuardUnlock i) = True"
| "holding (Locked i) = True"
| "holding (AppendUnlock i) = True"
| "holding (Install i) = True"
| "holding (InstallUnlock i k) = True"
| "holding pc = False"

text \<open>The id a worker has taken and not appended yet.\<close>

fun current :: "init_pc \<Rightarrow> nat list" where
  "current Ready = []"
| "current (AppendUnlock i) = []"
| "current (GuardLoop i) = [i]"
| "current (GuardLock i) = [i]"
| "current (GuardInit i) = [i]"
| "current (GuardUnlock i) = [i]"
| "current (TryLock i) = [i]"
| "current (Locked i) = [i]"
| "current (WaitLoop i) = [i]"
| "current (WaitLock i) = [i]"
| "current (Install i) = [i]"
| "current (InstallUnlock i k) = [i]"
| "current (RegionAppend i k) = [i]"

text \<open>What a worker's position says of the row.\<close>

fun pc_says :: "nat \<Rightarrow> serval_value \<Rightarrow> init_pc \<Rightarrow> bool" where
  "pc_says e val Ready = True"
| "pc_says e val (GuardLoop i) = True"
| "pc_says e val (GuardLock i) = True"
| "pc_says e val (GuardInit i) = True"
| "pc_says e val (InstallUnlock i k) = (val_epoch val = e \<and> row_region_ptr val = Some k)"
| "pc_says e val (RegionAppend i k) = (val_epoch val = e \<and> row_region_ptr val = Some k)"
| "pc_says e val pc = (val_epoch val = e)"

text \<open>
  The writes of the epoch on the row: each of the 64 workers has its own ids, in ascending
  order, and at most 63 of them.
\<close>

definition writes_ok :: "(nat \<Rightarrow> nat list) \<Rightarrow> bool" where
  "writes_ok W \<longleftrightarrow> (\<forall>w. sorted_wrt (<) (W w) \<and> (\<forall>i \<in> set (W w). i div 64 = w) \<and> length (W w) \<le> 63
     \<and> (64 \<le> w \<longrightarrow> W w = []))"

definition lock_part :: "int \<Rightarrow> (nat \<Rightarrow> init_pc) \<Rightarrow> bool" where
  "lock_part c pcs \<longleftrightarrow> (if \<exists>w. holding (pcs w) then c = - 1 else c = 0)
     \<and> (\<forall>w w'. holding (pcs w) \<longrightarrow> holding (pcs w') \<longrightarrow> w = w')"

definition progress_part ::
  "(nat \<Rightarrow> nat list) \<Rightarrow> (nat \<Rightarrow> nat option) \<Rightarrow> (nat \<Rightarrow> init_pc) \<Rightarrow> (nat \<Rightarrow> nat list) \<Rightarrow> bool" where
  "progress_part W p pcs td \<longleftrightarrow>
     (\<forall>w. (W w = [] \<longrightarrow> pcs w = Ready) \<and> (\<exists>d. W w = d @ current (pcs w) @ td w \<and> core_ids p w = set d))"

definition pendings_ok :: "mem \<Rightarrow> (nat \<Rightarrow> nat option) \<Rightarrow> bool" where
  "pendings_ok m p \<longleftrightarrow> (\<forall>i v. p i = Some v \<longrightarrow>
     vers m v = Some \<lparr>ver_rec = nullptr, ver_status = PENDING, ver_deleted = False\<rparr>)"

definition row_part :: "nat \<Rightarrow> nat \<Rightarrow> serval_value \<Rightarrow> row_region_controller \<Rightarrow> mem \<Rightarrow> (nat \<Rightarrow> nat option) \<Rightarrow> bool" where
  "row_part e M val ctl m p \<longleftrightarrow> val_epoch val \<le> e \<and> rrc_ok ctl
     \<and> (row_region_ptr val = None \<longrightarrow> used ctl < NUM_REGIONS)
     \<and> (if val_epoch val < e
        then p = Map.empty \<and> row_ok ctl val m \<and> (\<forall>v \<in> row_versions ctl val. stable m v) \<and> row_final ctl val = M
        else row_cur ctl val m \<and> row_entries ctl val = p \<and> master val = M \<and> pendings_ok m p)"

definition init_inv :: "nat \<Rightarrow> nat \<Rightarrow> (nat \<Rightarrow> nat list) \<Rightarrow> init_conf \<Rightarrow> bool" where
  "init_inv e M W s \<longleftrightarrow> lock_part (rwl (ival s)) (ipc s) \<and> progress_part W (pendings s) (ipc s) (todo s)
     \<and> row_part e M (ival s) (ictl s) (imem s) (pendings s) \<and> (\<forall>w. pc_says e (ival s) (ipc s w))"

lemma row_rwl [simp]:
  "row_versions ctl (val\<lparr>rwl := c\<rparr>) = row_versions ctl val"
  "row_entries ctl (val\<lparr>rwl := c\<rparr>) = row_entries ctl val"
  "row_final ctl (val\<lparr>rwl := c\<rparr>) = row_final ctl val"
  "row_ok ctl (val\<lparr>rwl := c\<rparr>) m = row_ok ctl val m"
  "row_cur ctl (val\<lparr>rwl := c\<rparr>) m = row_cur ctl val m"
  "row_part e M (val\<lparr>rwl := c\<rparr>) ctl m p = row_part e M val ctl m p"
  "pc_says e (val\<lparr>rwl := c\<rparr>) pc = pc_says e val pc"
proof -
  show [simp]: "row_versions ctl (val\<lparr>rwl := c\<rparr>) = row_versions ctl val"
    "row_entries ctl (val\<lparr>rwl := c\<rparr>) = row_entries ctl val"
    "row_final ctl (val\<lparr>rwl := c\<rparr>) = row_final ctl val"
    by (simp_all add: row_versions_def row_entries_def row_final_def split: option.split)
  show [simp]: "row_ok ctl (val\<lparr>rwl := c\<rparr>) m = row_ok ctl val m"
    by (auto simp: row_ok_def split: option.splits)
  show [simp]: "row_cur ctl (val\<lparr>rwl := c\<rparr>) m = row_cur ctl val m" by (simp add: row_cur_def)
  show "row_part e M (val\<lparr>rwl := c\<rparr>) ctl m p = row_part e M val ctl m p" by (simp add: row_part_def)
  show "pc_says e (val\<lparr>rwl := c\<rparr>) pc = pc_says e val pc" by (cases pc) simp_all
qed

lemma init_inv_start:
  assumes "row_ok ctl val m" and "\<forall>v \<in> row_versions ctl val. stable m v" and "rrc_ok ctl" and "rwl val = 0"
    and "row_region_ptr val = None \<longrightarrow> used ctl < NUM_REGIONS" and "val_epoch val < e"
  shows "init_inv e (row_final ctl val) W (init_start val ctl m W)"
  using assms
  by (auto simp: init_inv_def init_start_def lock_part_def progress_part_def row_part_def core_ids_def)

lemma lock_keep: "lock_part c pcs \<Longrightarrow> holding pc = holding (pcs w) \<Longrightarrow> lock_part c (pcs(w := pc))"
  unfolding lock_part_def by (metis fun_upd_apply)

lemma lock_take: "lock_part 0 pcs \<Longrightarrow> holding pc \<Longrightarrow> lock_part (- 1) (pcs(w := pc))"
  unfolding lock_part_def by (auto split: if_splits)

lemma lock_drop: "lock_part c pcs \<Longrightarrow> holding (pcs w) \<Longrightarrow> \<not> holding pc \<Longrightarrow> lock_part (c + 1) (pcs(w := pc))"
  unfolding lock_part_def by (auto split: if_splits)

lemma lock_try:
  assumes "lock_part c pcs" and "try_lock c = (ok, c')" and "\<not> holding (pcs w)" and "holding yes" and "\<not> holding no"
  shows "lock_part c' (pcs(w := if ok then yes else no))"
  using assms lock_take [of pcs yes w] lock_keep [of c pcs no w] by (auto split: if_splits)

lemma progress_keep:
  "progress_part W p pcs td \<Longrightarrow> current pc = current (pcs w) \<Longrightarrow> pcs w \<noteq> Ready \<Longrightarrow>
    progress_part W p (pcs(w := pc)) td"
  unfolding progress_part_def by (metis fun_upd_apply)

lemma progress_take:
  assumes "progress_part W p pcs td" and "pcs w = Ready" and "td w = i # rest"
  shows "progress_part W p (pcs(w := GuardLoop i)) (td(w := rest))"
  unfolding progress_part_def
proof
  fix u
  from assms(1) obtain d where "W u = d @ current (pcs u) @ td u" "core_ids p u = set d" "W u = [] \<longrightarrow> pcs u = Ready"
    unfolding progress_part_def by blast
  with assms(2,3) show "(W u = [] \<longrightarrow> (pcs(w := GuardLoop i)) u = Ready)
      \<and> (\<exists>d. W u = d @ current ((pcs(w := GuardLoop i)) u) @ (td(w := rest)) u \<and> core_ids p u = set d)"
    by (cases "u = w") auto
qed

lemma progress_append:
  assumes wr: "writes_ok W" and pr: "progress_part W p pcs td" and cur: "current (pcs w) = [i]" and pc: "current pc = []"
  shows "progress_part W (p(i \<mapsto> v)) (pcs(w := pc)) td" "i div 64 = w" "i < 4096" "i \<notin> dom p"
    "\<forall>j \<in> core_ids p w. j < i" "card (core_ids p w) < 63"
proof -
  obtain d where d: "W w = d @ [i] @ td w" "core_ids p w = set d"
    using pr cur unfolding progress_part_def by metis
  have W: "sorted_wrt (<) (W w)" "\<forall>j \<in> set (W w). j div 64 = w" "length (W w) \<le> 63" "64 \<le> w \<longrightarrow> W w = []"
    using wr unfolding writes_ok_def by blast+
  show iw: "i div 64 = w" using W(2) d(1) by simp
  moreover have "w < 64" using W(4) d(1) by (cases "64 \<le> w") auto
  ultimately show "i < 4096" by simp
  show asc: "\<forall>j \<in> core_ids p w. j < i" using W(1) d by (simp add: sorted_wrt_append)
  then show "i \<notin> dom p" using iw by (auto simp: core_ids_def)
  have "card (core_ids p w) \<le> length d" by (simp add: d(2) card_length)
  then show "card (core_ids p w) < 63" using W(3) d(1) by simp
  show "progress_part W (p(i \<mapsto> v)) (pcs(w := pc)) td"
    unfolding progress_part_def
  proof
    fix u
    show "(W u = [] \<longrightarrow> (pcs(w := pc)) u = Ready)
      \<and> (\<exists>d. W u = d @ current ((pcs(w := pc)) u) @ td u \<and> core_ids (p(i \<mapsto> v)) u = set d)"
    proof (cases "u = w")
      case True
      then show ?thesis using d pc iw by (intro conjI exI [of _ "d @ [i]"]) (simp_all add: core_ids_upd)
    next
      case False
      then show ?thesis using pr iw unfolding progress_part_def by (simp add: core_ids_upd)
    qed
  qed
qed

lemma pc_says_early: "pc_says e val pc \<Longrightarrow> val_epoch val \<noteq> e \<Longrightarrow> pc_says e val' pc"
  by (cases pc) simp_all

lemma pc_says_mono:
  "pc_says e val pc \<Longrightarrow> val_epoch val' = val_epoch val \<Longrightarrow>
    (\<And>k. row_region_ptr val = Some k \<Longrightarrow> row_region_ptr val' = Some k) \<Longrightarrow> pc_says e val' pc"
  by (cases pc) simp_all

lemma row_part_now:
  assumes "row_part e M val ctl m p" and "val_epoch val = e"
  shows "row_cur ctl val m" "row_entries ctl val = p" "master val = M" "pendings_ok m p" "rrc_ok ctl"
    "row_region_ptr val = None \<Longrightarrow> used ctl < NUM_REGIONS"
  using assms by (simp_all add: row_part_def)

text \<open>The appending steps.\<close>

lemma row_part_unconted:
  assumes rp: "row_part e M val ctl m p" and e: "val_epoch val = e" and none: "row_region_ptr val = None"
    and i: "i < 4096" "i \<notin> dom p"
  obtains v val' m' where "append_to_unconted_row i val m = Inr (v, val', m')"
    "row_part e M val' ctl m' (p(i \<mapsto> v))" "val_epoch val' = e" "row_region_ptr val' = None" "rwl val' = rwl val"
proof -
  note now = row_part_now [OF rp e]
  have new: "i \<notin> dom (row_entries ctl val)" using i(2) now(2) by simp
  obtain val' m' where a: "append_to_unconted_row i val m = Inr (brk m, val', m')" "row_cur ctl val' m'"
    "row_entries ctl val' = (row_entries ctl val)(i \<mapsto> brk m)" "row_region_ptr val' = None"
    "val_epoch val' = val_epoch val" "rwl val' = rwl val" "master val' = master val"
    "vers m' = (vers m)(brk m \<mapsto> \<lparr>ver_rec = nullptr, ver_status = PENDING, ver_deleted = False\<rparr>)" "brk m' = brk m + 1"
    by (rule append_to_unconted_row_ok [OF now(1) none i(1) new]) blast
  have "pendings_ok m' (p(i \<mapsto> brk m))" using now(4) by (simp add: pendings_ok_def a(8))
  with a now none e have "row_part e M val' ctl m' (p(i \<mapsto> brk m))" by (simp add: row_part_def)
  with that a e show ?thesis by simp
qed

lemma row_part_contented:
  assumes rp: "row_part e M val ctl m p" and e: "val_epoch val = e" and k: "row_region_ptr val = Some k"
    and i: "i < 4096" "\<forall>j \<in> core_ids p (i div 64). j < i" "card (core_ids p (i div 64)) < 63"
  obtains v ctl' m' where "append_to_contented_row (i div 64) i k ctl m = Inr (v, ctl', m')"
    "row_part e M val ctl' m' (p(i \<mapsto> v))"
proof -
  note now = row_part_now [OF rp e]
  have asc: "\<forall>j \<in> core_ids (row_entries ctl val) (i div 64). j < i" using i(2) now(2) by simp
  have cap: "card (core_ids (row_entries ctl val) (i div 64)) < 63" using i(3) now(2) by simp
  obtain r m' where a: "append_to_contented_row (i div 64) i k ctl m =
      Inr (brk m, ctl\<lparr>regions := (regions ctl)(k := r)\<rparr>, m')"
    "row_cur (ctl\<lparr>regions := (regions ctl)(k := r)\<rparr>) val m'"
    "row_entries (ctl\<lparr>regions := (regions ctl)(k := r)\<rparr>) val = (row_entries ctl val)(i \<mapsto> brk m)"
    "vers m' (brk m) = Some \<lparr>ver_rec = nullptr, ver_status = PENDING, ver_deleted = False\<rparr>"
    "\<And>w. w \<noteq> brk m \<Longrightarrow> w \<in> region_slots r \<or> w \<notin> region_slots (regions ctl k) \<Longrightarrow> vers m' w = vers m w"
    by (rule append_to_contented_row_ok [OF now(1) k i(1) asc cap]) blast
  let ?ctl = "ctl\<lparr>regions := (regions ctl)(k := r)\<rparr>"
  have kr: "k < used ctl" using now(1) row_okD(7) k by (auto simp: row_cur_def)
  then have rrc: "rrc_ok ?ctl" using now(5) by (simp add: rrc_ok_def)
  have "region_ok (r, m')" using a(2) row_okD(7) k by (fastforce simp: row_cur_def)
  have "pendings_ok m' (p(i \<mapsto> brk m))"
    unfolding pendings_ok_def
  proof (intro allI impI)
    fix j v assume pv: "(p(i \<mapsto> brk m)) j = Some v"
    then have "row_entries ?ctl val j = Some v" using a(3) now(2) by simp
    then have "v \<in> region_slots r" using \<open>region_ok (r, m')\<close> k by (auto simp: row_entries_def region_entries_slots)
    then show "vers m' v = Some \<lparr>ver_rec = nullptr, ver_status = PENDING, ver_deleted = False\<rparr>"
      using a(4,5) pv now(4) by (cases "v = brk m") (auto simp: pendings_ok_def split: if_splits)
  qed
  with a now k e rrc have "row_part e M val ?ctl m' (p(i \<mapsto> brk m))" by (simp add: row_part_def)
  with that a(1) show ?thesis by blast
qed

section \<open>Every step succeeds and keeps the invariant\<close>

abbreviation step_ok :: "nat \<Rightarrow> nat \<Rightarrow> (nat \<Rightarrow> nat list) \<Rightarrow> nat \<Rightarrow> init_conf \<Rightarrow> bool" where
  "step_ok e M W w s \<equiv> \<exists>s'. init_step e w s = Inr s' \<and> init_inv e M W s'"

lemma init_invD:
  assumes "init_inv e M W s"
  shows "lock_part (rwl (ival s)) (ipc s)" "progress_part W (pendings s) (ipc s) (todo s)"
    "row_part e M (ival s) (ictl s) (imem s) (pendings s)" "pc_says e (ival s) (ipc s w)"
  using assms by (auto simp: init_inv_def)

lemma inv_control:
  assumes inv: "init_inv e M W s" and "lock_part c ((ipc s)(w := pc))" and "current pc = current (ipc s w)"
    and "pc_says e (ival s) pc" and "ipc s w \<noteq> Ready"
  shows "init_inv e M W (s\<lparr>ival := (ival s)\<lparr>rwl := c\<rparr>, ipc := (ipc s)(w := pc)\<rparr>)"
  using assms init_invD [OF inv] by (simp add: init_inv_def progress_keep)

lemma inv_goto:
  assumes inv: "init_inv e M W s" and "holding pc = holding (ipc s w)" and "current pc = current (ipc s w)"
    and "pc_says e (ival s) pc" and "ipc s w \<noteq> Ready"
  shows "init_inv e M W (goto w pc s)"
  using assms init_invD [OF inv] by (simp add: init_inv_def progress_keep lock_keep)

lemma inv_try:
  assumes inv: "init_inv e M W s" and "\<not> holding (ipc s w)" and "val_try_lock (ival s) = (ok, v)"
    and "holding yes" "\<not> holding no" "current yes = current (ipc s w)" "current no = current (ipc s w)"
    "pc_says e (ival s) yes" "pc_says e (ival s) no" "ipc s w \<noteq> Ready"
  shows "init_inv e M W (goto w (if ok then yes else no) (s\<lparr>ival := v\<rparr>))"
proof -
  from assms(3) obtain c where c: "try_lock (rwl (ival s)) = (ok, c)" "v = (ival s)\<lparr>rwl := c\<rparr>"
    by (cases "try_lock (rwl (ival s))") (simp add: val_try_lock_def)
  have "lock_part c ((ipc s)(w := if ok then yes else no))"
    by (rule lock_try [OF init_invD(1) [OF inv] c(1)]) (use assms in auto)
  from inv_control [OF inv this] assms c(2) show ?thesis by (cases ok) simp_all
qed

lemma inv_unlock:
  assumes inv: "init_inv e M W s" and "holding (ipc s w)" and "\<not> holding pc"
    and "current pc = current (ipc s w)" and "pc_says e (ival s) pc"
  shows "init_inv e M W (goto w pc (s\<lparr>ival := val_unlock (ival s)\<rparr>))"
proof -
  have "lock_part (rwl (ival s) + 1) ((ipc s)(w := pc))"
    using lock_drop [OF init_invD(1) [OF inv]] assms(2,3) by blast
  moreover have "ipc s w \<noteq> Ready" using assms(2) by auto
  ultimately show ?thesis using inv_control [OF inv _ assms(4,5)] by (simp add: val_unlock_def)
qed

lemma inv_row:
  assumes inv: "init_inv e M W s" and "row_part e M val ctl m (pendings s)" and "rwl val = rwl (ival s)"
    and "holding pc = holding (ipc s w)" and "current pc = current (ipc s w)"
    and "pc_says e val pc" and "\<And>u. pc_says e val (ipc s u)" and "ipc s w \<noteq> Ready"
  shows "init_inv e M W (goto w pc (s\<lparr>ival := val, ictl := ctl, imem := m\<rparr>))"
  using assms init_invD [OF inv] by (simp add: init_inv_def progress_keep lock_keep)

lemma inv_append:
  assumes wr: "writes_ok W" and inv: "init_inv e M W s" and "row_part e M val ctl m ((pendings s)(i \<mapsto> v))"
    and "rwl val = rwl (ival s)" and "holding pc = holding (ipc s w)"
    and "current (ipc s w) = [i]" and "current pc = []"
    and "pc_says e val pc" and "\<And>u. pc_says e val (ipc s u)"
  shows "init_inv e M W (goto w pc (s\<lparr>ival := val, ictl := ctl, imem := m, pendings := (pendings s)(i \<mapsto> v)\<rparr>))"
  using assms init_invD [OF inv] progress_append(1) [OF wr init_invD(2) [OF inv] assms(6,7)]
  by (simp add: init_inv_def lock_keep)

lemma step_GuardInit:
  assumes inv: "init_inv e M W s" and pc: "ipc s w = GuardInit i"
  shows "step_ok e M W w s"
proof (cases "val_epoch (ival s) < e")
  case True
  note rp = init_invD(3) [OF inv]
  have r: "pendings s = Map.empty" "row_ok (ictl s) (ival s) (imem s)"
    "\<forall>v \<in> row_versions (ictl s) (ival s). stable (imem s) v" "row_final (ictl s) (ival s) = M" "rrc_ok (ictl s)"
    "row_region_ptr (ival s) = None \<longrightarrow> used (ictl s) < NUM_REGIONS"
    using rp True by (simp_all add: row_part_def)
  obtain val ctl m where i: "initialize_the_row e (ival s) (ictl s) (imem s) = Inr (val, ctl, m)" "row_ok ctl val m"
    "master val = row_final (ictl s) (ival s)" "val_epoch val = e" "row_entries ctl val = Map.empty"
    "used ctl = used (ictl s)" "rwl val = rwl (ival s)" "row_region_ptr val = row_region_ptr (ival s)"
    "ids_slots (global_array val) = []"
    "\<And>j. row_region_ptr (ival s) \<noteq> Some j \<Longrightarrow> regions ctl j = regions (ictl s) j"
    by (rule initialize_the_row_ok [OF r(2,3)]) blast
  have "rrc_ok ctl"
    using r(5) i(6,10) row_okD(7) [OF r(2)] by (metis leD rrc_ok_def)
  with r i have "row_part e M val ctl m (pendings s)"
    by (simp add: row_part_def row_cur_def pendings_ok_def)
  moreover have "pc_says e val (ipc s u)" for u
    using init_invD(4) [OF inv] by (rule pc_says_early) (use True in simp)
  ultimately have "init_inv e M W (goto w (GuardUnlock i) (s\<lparr>ival := val, ictl := ctl, imem := m\<rparr>))"
    using pc i by (intro inv_row [OF inv]) auto
  then show ?thesis using i(1) True by (simp add: init_step_def pc)
next
  case False
  then have "val_epoch (ival s) = e" using init_invD(3) [OF inv] by (simp add: row_part_def)
  then have "init_inv e M W (goto w (GuardUnlock i) s)" using pc by (intro inv_goto [OF inv]) auto
  then show ?thesis using False by (simp add: init_step_def pc)
qed

lemma step_Locked:
  assumes wr: "writes_ok W" and inv: "init_inv e M W s" and pc: "ipc s w = Locked i"
  shows "step_ok e M W w s"
proof -
  have e: "val_epoch (ival s) = e" using init_invD(4) [OF inv, of w] by (simp add: pc)
  note ap = progress_append [OF wr init_invD(2) [OF inv], of w i "AppendUnlock i"]
  have f: "i div 64 = w" "i < 4096" "i \<notin> dom (pendings s)" "\<forall>j \<in> core_ids (pendings s) w. j < i"
    "card (core_ids (pendings s) w) < 63" using ap by (auto simp: pc)
  show ?thesis
  proof (cases "row_region_ptr (ival s)")
    case None
    obtain v val m where a: "append_to_unconted_row i (ival s) (imem s) = Inr (v, val, m)"
      "row_part e M val (ictl s) m ((pendings s)(i \<mapsto> v))" "val_epoch val = e" "row_region_ptr val = None"
      "rwl val = rwl (ival s)"
      by (rule row_part_unconted [OF init_invD(3) [OF inv] e None f(2,3)])
    have "pc_says e val (ipc s u)" for u
      using init_invD(4) [OF inv] by (rule pc_says_mono) (use a e None in auto)
    with inv_append [OF wr inv a(2,5), of "AppendUnlock i" w] show ?thesis
      using a(1,3) None by (simp add: init_step_def pc)
  next
    case (Some k)
    obtain v ctl m where a: "append_to_contented_row (i div 64) i k (ictl s) (imem s) = Inr (v, ctl, m)"
      "row_part e M (ival s) ctl m ((pendings s)(i \<mapsto> v))"
      by (rule row_part_contented [OF init_invD(3) [OF inv] e Some f(2)]) (use f in auto)
    with inv_append [OF wr inv a(2) refl, of "AppendUnlock i" w] show ?thesis
      using a(1) Some e init_invD(4) [OF inv] f(1) by (simp add: init_step_def pc)
  qed
qed

lemma step_RegionAppend:
  assumes wr: "writes_ok W" and inv: "init_inv e M W s" and pc: "ipc s w = RegionAppend i k"
  shows "step_ok e M W w s"
proof -
  have e: "val_epoch (ival s) = e" "row_region_ptr (ival s) = Some k"
    using init_invD(4) [OF inv, of w] by (simp_all add: pc)
  note ap = progress_append [OF wr init_invD(2) [OF inv], of w i Ready]
  have f: "i div 64 = w" "i < 4096" "\<forall>j \<in> core_ids (pendings s) w. j < i"
    "card (core_ids (pendings s) w) < 63" using ap by (auto simp: pc)
  obtain v ctl m where a: "append_to_contented_row (i div 64) i k (ictl s) (imem s) = Inr (v, ctl, m)"
    "row_part e M (ival s) ctl m ((pendings s)(i \<mapsto> v))"
    by (rule row_part_contented [OF init_invD(3) [OF inv] e f(2)]) (use f in auto)
  with inv_append [OF wr inv a(2) refl, of Ready w] show ?thesis
    using a(1) init_invD(4) [OF inv] f(1) by (simp add: init_step_def pc)
qed

lemma core_ids_card_le:
  assumes wr: "writes_ok W" and inv: "init_inv e M W s"
  shows "card (core_ids (pendings s) c) \<le> 63"
proof -
  obtain d where d: "W c = d @ current (ipc s c) @ todo s c" "core_ids (pendings s) c = set d"
    using init_invD(2) [OF inv] unfolding progress_part_def by blast
  have "length (W c) \<le> 63" using wr by (simp add: writes_ok_def)
  moreover have "card (core_ids (pendings s) c) \<le> length d" by (simp add: d(2) card_length)
  ultimately show ?thesis using d(1) by simp
qed

lemma step_Install:
  assumes wr: "writes_ok W" and inv: "init_inv e M W s" and pc: "ipc s w = Install i"
  shows "step_ok e M W w s"
proof -
  have e: "val_epoch (ival s) = e" using init_invD(4) [OF inv, of w] by (simp add: pc)
  note now = row_part_now [OF init_invD(3) [OF inv] e]
  show ?thesis
  proof (cases "row_region_ptr (ival s)")
    case None
    have cap: "\<forall>c. card (core_ids (row_entries (ictl s) (ival s)) c) \<le> 63"
      using core_ids_card_le [OF wr inv] now(2) by simp
    obtain val ctl m where a: "install_region (ival s) (ictl s) (imem s) = Inr (used (ictl s), val, ctl, m)"
      "row_cur ctl val m" "row_entries ctl val = row_entries (ictl s) (ival s)" "row_region_ptr val = Some (used (ictl s))"
      "val_epoch val = val_epoch (ival s)" "rwl val = rwl (ival s)" "master val = master (ival s)" "rrc_ok ctl"
      "vers m = vers (imem s)"
      by (rule install_region_ok [OF now(1) None now(5) now(6) [OF None] cap]) blast
    have rp: "row_part e M val ctl m (pendings s)"
      using a now e by (simp add: row_part_def pendings_ok_def)
    have "pc_says e val (ipc s u)" for u
      using init_invD(4) [OF inv] by (rule pc_says_mono) (use a None in auto)
    with inv_row [OF inv rp a(6), of "InstallUnlock i (used (ictl s))" w] show ?thesis
      using a(1,4,5) e by (simp add: init_step_def pc)
  next
    case (Some k)
    then have "init_inv e M W (goto w (InstallUnlock i k) s)"
      using pc e by (intro inv_goto [OF inv]) auto
    then show ?thesis using Some by (simp add: init_step_def pc install_region_def)
  qed
qed

lemma init_step_ok:
  assumes wr: "writes_ok W" and inv: "init_inv e M W s"
  shows "step_ok e M W w s"
proof -
  have le: "val_epoch (ival s) \<le> e" using init_invD(3) [OF inv] by (simp add: row_part_def)
  note says = init_invD(4) [OF inv, of w]
  obtain ok v where t: "val_try_lock (ival s) = (ok, v)" by fastforce
  show ?thesis
  proof (cases "ipc s w")
    case Ready
    then show ?thesis
      using inv progress_take [OF init_invD(2) [OF inv] Ready] lock_keep [OF init_invD(1) [OF inv]]
      by (cases "todo s w") (auto simp: init_step_def init_inv_def)
  next
    case (GuardLoop i)
    then show ?thesis
      using le inv_goto [OF inv, of "GuardLock i" w] inv_goto [OF inv, of "TryLock i" w]
      by (cases "val_epoch (ival s) < e") (simp_all add: init_step_def)
  next
    case (GuardLock i)
    then show ?thesis using inv_try [OF inv _ t, of w "GuardInit i" "GuardLoop i"] t by (simp add: init_step_def)
  next
    case (GuardInit i)
    then show ?thesis by (rule step_GuardInit [OF inv])
  next
    case (GuardUnlock i)
    then show ?thesis using inv_unlock [OF inv, of w "TryLock i"] says by (simp add: init_step_def)
  next
    case (TryLock i)
    then show ?thesis
      using inv_try [OF inv _ t, of w "Locked i" "WaitLoop i"] t says by (simp add: init_step_def)
  next
    case (Locked i)
    then show ?thesis by (rule step_Locked [OF wr inv])
  next
    case (AppendUnlock i)
    then show ?thesis using inv_unlock [OF inv, of w Ready] by (simp add: init_step_def)
  next
    case (WaitLoop i)
    then show ?thesis
      using says inv_goto [OF inv, of "WaitLock i" w] inv_goto [OF inv, of "RegionAppend i k" w for k]
      by (cases "row_region_ptr (ival s)") (simp_all add: init_step_def)
  next
    case (WaitLock i)
    then show ?thesis
      using inv_try [OF inv _ t, of w "Install i" "WaitLoop i"] t says by (simp add: init_step_def)
  next
    case (Install i)
    then show ?thesis by (rule step_Install [OF wr inv])
  next
    case (InstallUnlock i k)
    then show ?thesis using inv_unlock [OF inv, of w "RegionAppend i k"] says by (simp add: init_step_def)
  next
    case (RegionAppend i k)
    then show ?thesis by (rule step_RegionAppend [OF wr inv])
  qed
qed

lemma init_run_ok:
  assumes "writes_ok W" and "init_inv e M W s"
  shows "\<exists>s'. init_run e sched s = Inr s' \<and> init_inv e M W s'"
  using assms(2)
proof (induction sched arbitrary: s)
  case (Cons w sched)
  from init_step_ok [OF assms(1) Cons.prems, of w] obtain s1 where
    "init_step e w s = Inr s1" "init_inv e M W s1" by blast
  with Cons.IH show ?case by simp
qed simp

section \<open>Progress\<close>

text \<open>How far a worker is from having no pending work, if it meets no taken lock.\<close>

fun pc_rank :: "init_pc \<Rightarrow> nat" where
  "pc_rank Ready = 0"
| "pc_rank (AppendUnlock i) = 1"
| "pc_rank (Locked i) = 2"
| "pc_rank (RegionAppend i k) = 3"
| "pc_rank (InstallUnlock i k) = 4"
| "pc_rank (Install i) = 5"
| "pc_rank (WaitLock i) = 6"
| "pc_rank (WaitLoop i) = 7"
| "pc_rank (TryLock i) = 8"
| "pc_rank (GuardUnlock i) = 9"
| "pc_rank (GuardInit i) = 10"
| "pc_rank (GuardLock i) = 11"
| "pc_rank (GuardLoop i) = 12"

definition work_left :: "init_conf \<Rightarrow> nat \<Rightarrow> nat" where
  "work_left s w = pc_rank (ipc s w) + 13 * length (todo s w)"

lemma step_only_own:
  assumes "init_step e w s = Inr s'" and "u \<noteq> w"
  shows "work_left s' u = work_left s u"
  using assms
  by (auto simp: init_step_def work_left_def ebind_eq_Inr guard_eq_Inr split: init_pc.splits list.splits prod.splits option.splits)

lemma step_decreases:
  assumes st: "init_step e w s = Inr s'" and busy: "work_left s w \<noteq> 0"
    and free: "holding (ipc s w) \<or> rwl (ival s) = 0"
  shows "work_left s' w < work_left s w"
  using assms
  by (cases "ipc s w")
    (auto simp: init_step_def work_left_def val_try_lock_def ebind_eq_Inr guard_eq_Inr
      split: list.splits option.splits if_splits)

lemma work_left_outside:
  assumes "writes_ok W" and "init_inv e M W s" and "64 \<le> w"
  shows "work_left s w = 0"
proof -
  have "W w = []" using assms(1,3) by (simp add: writes_ok_def)
  with init_invD(2) [OF assms(2)] show ?thesis unfolding progress_part_def work_left_def
    by (metis (no_types, lifting) Nil_is_append_conv add_0 list.size(3) mult_0_right pc_rank.simps(1))
qed

lemma some_worker_advances:
  assumes wr: "writes_ok W" and inv: "init_inv e M W s" and "\<not> init_done s"
  obtains w s' where "w < 64" "init_step e w s = Inr s'" "init_inv e M W s'" "work_left s' w < work_left s w"
proof -
  obtain u where "ipc s u \<noteq> Ready \<or> todo s u \<noteq> []" using assms(3) by (auto simp: init_done_def)
  then have "work_left s u \<noteq> 0" by (cases "ipc s u") (auto simp: work_left_def)
  moreover have "work_left s w \<noteq> 0" if "holding (ipc s w)" for w
    using that by (cases "ipc s w") (auto simp: work_left_def)
  ultimately obtain w where w: "work_left s w \<noteq> 0" "holding (ipc s w) \<or> rwl (ival s) = 0"
    using init_invD(1) [OF inv] unfolding lock_part_def by metis
  then have "w < 64" using work_left_outside [OF wr inv] by (meson not_less)
  moreover obtain s' where s': "init_step e w s = Inr s'" "init_inv e M W s'" using init_step_ok [OF wr inv] by blast
  ultimately show ?thesis using that step_decreases [OF s'(1) w] by blast
qed

lemma init_can_finish:
  assumes wr: "writes_ok W" and "init_inv e M W s"
  shows "\<exists>sched s'. init_run e sched s = Inr s' \<and> init_inv e M W s' \<and> init_done s'"
  using assms(2)
proof (induction "\<Sum>w < 64. work_left s w" arbitrary: s rule: less_induct)
  case less
  show ?case
  proof (cases "init_done s")
    case True
    then show ?thesis using less.prems by (intro exI [of _ "[]"] exI [of _ s]) simp
  next
    case False
    from some_worker_advances [OF wr less.prems False] obtain w s1 where
      s1: "w < 64" "init_step e w s = Inr s1" "init_inv e M W s1" "work_left s1 w < work_left s w" by blast
    have "(\<Sum>u < 64. work_left s1 u) < (\<Sum>u < 64. work_left s u)"
      using s1 step_only_own [OF s1(2)] by (intro sum_strict_mono_ex1) (auto, metis le_refl less_imp_le)
    from less.hyps [OF this s1(3)] obtain sched s' where
      "init_run e sched s1 = Inr s'" "init_inv e M W s'" "init_done s'" by blast
    then show ?thesis using s1(2) by (intro exI [of _ "w # sched"] exI [of _ s']) simp
  qed
qed

section \<open>The end of the phase\<close>

lemma init_done_pendings:
  assumes wr: "writes_ok W" and inv: "init_inv e M W s" and "init_done s"
  shows "dom (pendings s) = (\<Union>w < 64. set (W w))" and "rwl (ival s) = 0"
proof -
  have rd: "ipc s w = Ready \<and> todo s w = []" for w
  proof (cases "w < 64")
    case False
    then have "W w = []" using wr by (simp add: writes_ok_def)
    with init_invD(2) [OF inv] show ?thesis unfolding progress_part_def by (metis Nil_is_append_conv)
  qed (use assms(3) in \<open>simp add: init_done_def\<close>)
  then show "rwl (ival s) = 0" using init_invD(1) [OF inv] by (simp add: lock_part_def)
  have c: "core_ids (pendings s) w = set (W w)" for w
    using init_invD(2) [OF inv] rd [of w] unfolding progress_part_def by (metis append_Nil2 current.simps(1))
  have "dom (pendings s) = (\<Union>w. core_ids (pendings s) w)" by (auto simp: core_ids_def)
  also have "\<dots> = (\<Union>w < 64. set (W w))"
  proof -
    have "w < 64" if "i \<in> set (W w)" for i w
      using wr that unfolding writes_ok_def by (metis empty_iff empty_set not_less)
    then show ?thesis unfolding c by blast
  qed
  finally show "dom (pendings s) = (\<Union>w < 64. set (W w))" .
qed

section \<open>Loading\<close>

text \<open>A loaded row: no epoch has run, the lock is free, and both versions are stable.\<close>

lemma serval_insert_ok:
  assumes m: "mem_ok m" and r: "new_record sz m = (r, m1)" and r2: "new_record sz m1 = (r2, m2)"
  obtains val m3 where "serval_insert_into_index r r2 m2 = Inr (val, m3)" "row_ok ctl val m3"
    "\<forall>v \<in> row_versions ctl val. stable m3 v" "rwl val = 0" "val_epoch val = 0" "row_region_ptr val = None"
    "stab m3 (row_final ctl val) r" "stab m3 (master val) r2"
proof -
  note a = new_record_ok [OF m r]
  note b = new_record_ok [OF a(1) r2]
  obtain v1 m4 where v1: "new_version \<lparr>ver_rec = r, ver_status = STABLE, ver_deleted = False\<rparr> m2 = (v1, m4)" by fastforce
  have n1: "ver_rec x \<noteq> r \<and> ver_rec x \<noteq> r2" if "vers m2 v = Some x" for v x
    using ver_rec_less [OF m, of v x] that a b by auto
  have r1: "recs m2 r \<noteq> None" using r2 a by (auto simp: new_record_def)
  note c = new_stable_version_ok [OF b(1) r1 _ v1]
  obtain v2 m3 where v2: "new_version \<lparr>ver_rec = r2, ver_status = STABLE, ver_deleted = False\<rparr> m4 = (v2, m3)" by fastforce
  have c': "mem_ok m4" "v1 = brk m2" "brk m4 = brk m2 + 1" "recs m4 = recs m2"
    "vers m4 = (vers m2)(v1 \<mapsto> \<lparr>ver_rec = r, ver_status = STABLE, ver_deleted = False\<rparr>)" using c n1 by blast+
  have n2: "ver_rec x \<noteq> r2" if "vers m4 v = Some x" for v x
    using n1 that a(5,6) b(5) by (auto simp: c'(5) split: if_splits)
  have r2': "recs m4 r2 \<noteq> None" using b(2) c'(4) by simp
  have d: "mem_ok m3" "v2 = brk m4" "vers m3 = (vers m4)(v2 \<mapsto> \<lparr>ver_rec = r2, ver_status = STABLE, ver_deleted = False\<rparr>)"
    using new_stable_version_ok [OF c'(1) r2' _ v2] n2 by blast+
  let ?val = "\<lparr>rwl = 0, val_epoch = 0, master = v2, global_array = \<lparr>ids_slots = [(- 1, v1)]\<rparr>, row_region_ptr = None\<rparr>"
  have v0: "v1 \<noteq> nullptr" "v1 \<noteq> v2" using mem_okD(1) [OF b(1)] c'(2,3) d(2) by auto
  have ins: "serval_insert_into_index r r2 m2 = Inr (?val, m3)"
    using v0 by (simp add: serval_insert_into_index_def v1 v2 gva_append_def upper_bound_def vector_insert_def)
  have rv: "row_versions ctl ?val = {v1}" by (simp add: row_versions_def)
  have "row_ok ctl ?val m3" using d(1) v0 by (auto simp: row_ok_def rv stable_def live_def d(3) c'(5))
  then show ?thesis using ins v0
    by (intro that [OF ins]) (simp_all add: rv stable_def stab_def row_final_def d(3) c'(5))
qed

end
