(* ===== verification/Row_Execution.thy ===== *)
theory Row_Execution
  imports Version_Store Version_Array
begin

text \<open>
  The execution phase on one row, for a protocol that installed the row's pending versions before
  it: writers fill their own versions and readers wait for the version they must see, in any
  interleaving. The interface \<open>row_execution\<close> states what the phase relies on; Serval and
  Caracal implement it.
\<close>

section \<open>The machine\<close>

text \<open>\<open>filled\<close>, \<open>xrec\<close> and \<open>xout\<close> record who has written, what was written and what was read.\<close>

record row_exec =
  xmem :: mem
  filled :: "nat set"
  xrec :: "nat \<Rightarrow> nat"
  xout :: "nat \<Rightarrow> nat option"

definition row_exec_start :: "mem \<Rightarrow> row_exec" where
  "row_exec_start m = \<lparr>xmem = m, filled = {}, xrec = (\<lambda>_. 0), xout = Map.empty\<rparr>"

text \<open>
  \<open>pending\<close> is what the initialization phase stored in the operations. Filling a version stores
  the record and then the status; a reader looks at the record only after the status, so the two
  stores are one step. A transaction that has finished does nothing.
\<close>

definition row_exec_step ::
  "(nat \<Rightarrow> mem \<Rightarrow> nat option res) \<Rightarrow> (nat \<Rightarrow> nat option) \<Rightarrow> nat \<Rightarrow> actor \<Rightarrow> row_exec \<Rightarrow> row_exec res" where
  "row_exec_step read_row pending sz a s =
     (case a of
        Reader n \<Rightarrow>
          (case xout s n of Some _ \<Rightarrow> Inr s
           | None \<Rightarrow> ebind (read_row n (xmem s)) (\<lambda>r.
               Inr (case r of None \<Rightarrow> s | Some rc \<Rightarrow> s\<lparr>xout := (xout s)(n \<mapsto> rc)\<rparr>)))
      | Writer i \<Rightarrow>
          (if i \<in> filled s then Inr s
           else case pending i of None \<Rightarrow> Inr s
           | Some v \<Rightarrow> ebind (upsert sz v (xmem s)) (\<lambda>(r, m).
               Inr (s\<lparr>xmem := m, filled := insert i (filled s), xrec := (xrec s)(i := r)\<rparr>))))"

fun row_exec_run ::
  "(nat \<Rightarrow> mem \<Rightarrow> nat option res) \<Rightarrow> (nat \<Rightarrow> nat option) \<Rightarrow> nat \<Rightarrow> actor list \<Rightarrow> row_exec \<Rightarrow> row_exec res" where
  "row_exec_run read_row pending sz [] s = Inr s"
| "row_exec_run read_row pending sz (a # sched) s =
     ebind (row_exec_step read_row pending sz a s) (row_exec_run read_row pending sz sched)"

definition row_exec_done :: "nat set \<Rightarrow> nat set \<Rightarrow> row_exec \<Rightarrow> bool" where
  "row_exec_done W R s \<longleftrightarrow> W \<subseteq> filled s \<and> (\<forall>n \<in> R. xout s n \<noteq> None)"

text \<open>The versions of the row, given who has written.\<close>

definition row_exec_inv :: "(nat \<Rightarrow> nat option) \<Rightarrow> nat set \<Rightarrow> nat \<Rightarrow> nat \<Rightarrow> row_exec \<Rightarrow> bool" where
  "row_exec_inv pending R M r0 s \<longleftrightarrow> stab (xmem s) M r0
     \<and> (\<forall>i v. pending i = Some v \<longrightarrow> (if i \<in> filled s then stab (xmem s) v (xrec s i) else pend (xmem s) v))
     \<and> (\<forall>n \<in> R. \<forall>r. xout s n = Some r \<longrightarrow>
          r = must_read (dom pending) r0 (xrec s) n \<and> (\<forall>i. visible_in (dom pending) n = Some i \<longrightarrow> i \<in> filled s))
     \<and> filled s \<subseteq> dom pending"

lemma row_exec_invD:
  assumes "row_exec_inv pending R M r0 s"
  shows "stab (xmem s) M r0" "pending i = Some v \<Longrightarrow> i \<in> filled s \<Longrightarrow> stab (xmem s) v (xrec s i)"
    "pending i = Some v \<Longrightarrow> i \<notin> filled s \<Longrightarrow> pend (xmem s) v"
    "n \<in> R \<Longrightarrow> xout s n = Some r \<Longrightarrow> r = must_read (dom pending) r0 (xrec s) n"
  using assms unfolding row_exec_inv_def by auto

lemma stab_upd: "u \<noteq> v \<Longrightarrow> vers m' = (vers m)(v \<mapsto> y) \<Longrightarrow> stab m' u r = stab m u r"
  by (simp add: stab_def)

lemma pend_upd: "u \<noteq> v \<Longrightarrow> vers m' = (vers m)(v \<mapsto> y) \<Longrightarrow> pend m' u = pend m u"
  by (simp add: pend_def)

lemma read_of_stab: "stab m v r \<Longrightarrow> read_of m v = Some r"
  by (auto simp: stab_def read_of_def)

lemma read_of_pend: "pend m v \<Longrightarrow> read_of m v = None"
  by (auto simp: pend_def read_of_def)

lemma row_exec_run_append:
  "row_exec_run read_row p sz (xs @ ys) s = ebind (row_exec_run read_row p sz xs s) (row_exec_run read_row p sz ys)"
  by (induction xs arbitrary: s) (auto simp: ebind_def split: sum.splits)

section \<open>The interface\<close>

text \<open>
  \<open>read_row\<close> finds the version of the last writer before the reader, or the version \<open>M\<close> that
  ended the previous epoch; the row stays well-formed (\<open>wf\<close>) when a pending version is filled.
\<close>

locale row_execution =
  fixes read_row :: "'row \<Rightarrow> nat \<Rightarrow> mem \<Rightarrow> nat option res"
    and pending :: "'row \<Rightarrow> nat \<Rightarrow> nat option"
    and base :: "'row \<Rightarrow> nat"
    and wf :: "'row \<Rightarrow> mem \<Rightarrow> bool"
    and reader :: "nat \<Rightarrow> bool"
  assumes read_law: "wf row m \<Longrightarrow> reader n \<Longrightarrow>
      read_row row n m = Inr (read_of m (case visible_entry (pending row) n of None \<Rightarrow> base row | Some (i, v) \<Rightarrow> v))"
    and wf_mem: "wf row m \<Longrightarrow> mem_ok m"
    and wf_fill: "wf row m \<Longrightarrow> pending row i = Some v \<Longrightarrow> pend m v \<Longrightarrow> mem_ok m' \<Longrightarrow> vers m v = Some x \<Longrightarrow>
      vers m' = (vers m)(v \<mapsto> x\<lparr>ver_rec := r, ver_status := STABLE\<rparr>) \<Longrightarrow> wf row m'"
    and pending_inject: "wf row m \<Longrightarrow> pending row i = Some v \<Longrightarrow> pending row j = Some v \<Longrightarrow> i = j"
    and pending_not: "wf row m \<Longrightarrow> pending row i = Some v \<Longrightarrow> v \<noteq> base row \<and> v \<noteq> nullptr"
    and pending_finite: "wf row m \<Longrightarrow> finite (dom (pending row))"
begin

lemma writer_exec:
  assumes inv: "row_exec_inv (pending row) R (base row) r0 s" and w: "wf row (xmem s)" and i: "i \<notin> filled s" "i \<in> dom (pending row)"
  shows "\<exists>s'. row_exec_step (read_row row) (pending row) sz (Writer i) s = Inr s' \<and> row_exec_inv (pending row) R (base row) r0 s' \<and> wf row (xmem s')
    \<and> filled s' = insert i (filled s) \<and> xout s' = xout s"
proof -
  from i(2) obtain v where v: "pending row i = Some v" by blast
  have pd: "pend (xmem s) v" using inv v i(1) by (simp add: row_exec_inv_def)
  obtain r m' x where u: "upsert sz v (xmem s) = Inr (r, m')" "mem_ok m'" "vers (xmem s) v = Some x"
    "vers m' = (vers (xmem s))(v \<mapsto> x\<lparr>ver_rec := r, ver_status := STABLE\<rparr>)"
    using pend_upsert [OF wf_mem [OF w] pd] pending_not [OF w v] by metis
  let ?s = "s\<lparr>xmem := m', filled := insert i (filled s), xrec := (xrec s)(i := r)\<rparr>"
  have "row_exec_inv (pending row) R (base row) r0 ?s"
    unfolding row_exec_inv_def
  proof (intro conjI)
    show "stab (xmem ?s) (base row) r0" using inv pending_not [OF w v] by (simp add: row_exec_inv_def stab_def u(4))
    show "\<forall>j u. pending row j = Some u \<longrightarrow> (if j \<in> filled ?s then stab (xmem ?s) u (xrec ?s j) else pend (xmem ?s) u)"
    proof (intro allI impI)
      fix j u assume j: "pending row j = Some u"
      show "if j \<in> filled ?s then stab (xmem ?s) u (xrec ?s j) else pend (xmem ?s) u"
      proof (cases "j = i")
        case True
        then show ?thesis using j v by (simp add: stab_def u(4))
      next
        case False
        then have "u \<noteq> v" using pending_inject [OF w] j v by blast
        then show ?thesis
          using row_exec_invD(2,3) [OF inv j] False stab_upd [OF _ u(4)] pend_upd [OF _ u(4)] by simp
      qed
    qed
    show "\<forall>n \<in> R. \<forall>ra. xout ?s n = Some ra \<longrightarrow> ra = must_read (dom (pending row)) r0 (xrec ?s) n
        \<and> (\<forall>k. visible_in (dom (pending row)) n = Some k \<longrightarrow> k \<in> filled ?s)"
      using inv i(1) unfolding row_exec_inv_def by (auto simp: must_read_def split: option.splits)
  qed (use inv i(2) in \<open>simp add: row_exec_inv_def\<close>)
  moreover have "wf row m'" using wf_fill [OF w v pd u(2-4)] .
  ultimately show ?thesis using i(1) v u(1) by (simp add: row_exec_step_def)
qed

lemma visible_version:
  assumes inv: "row_exec_inv (pending row) R (base row) r0 s"
  shows "read_of (xmem s) (case visible_entry (pending row) n of None \<Rightarrow> base row | Some (i, v) \<Rightarrow> v) =
    (if \<forall>i. visible_in (dom (pending row)) n = Some i \<longrightarrow> i \<in> filled s
     then Some (must_read (dom (pending row)) r0 (xrec s) n) else None)"
proof (cases "visible_in (dom (pending row)) n")
  case None
  then show ?thesis using read_of_stab [OF row_exec_invD(1) [OF inv]] by (simp add: visible_entry_def must_read_def)
next
  case (Some i)
  then obtain v where v: "pending row i = Some v" by (auto simp: visible_in_Some)
  then show ?thesis
    using row_exec_invD(2,3) [OF inv v] Some read_of_stab read_of_pend
    by (cases "i \<in> filled s") (simp_all add: visible_entry_def must_read_def)
qed

text \<open>A reader that must wait stays; any other one takes the record it must read.\<close>

lemma reader_exec:
  assumes inv: "row_exec_inv (pending row) R (base row) r0 s" and w: "wf row (xmem s)" and n: "n \<in> R" "reader n" "xout s n = None"
  defines "go \<equiv> \<forall>i. visible_in (dom (pending row)) n = Some i \<longrightarrow> i \<in> filled s"
  defines "s' \<equiv> (if go then s\<lparr>xout := (xout s)(n \<mapsto> must_read (dom (pending row)) r0 (xrec s) n)\<rparr> else s)"
  shows "row_exec_step (read_row row) (pending row) sz (Reader n) s = Inr s'" "row_exec_inv (pending row) R (base row) r0 s'"
    "xmem s' = xmem s" "filled s' = filled s"
proof -
  show "xmem s' = xmem s" "filled s' = filled s" by (simp_all add: s'_def)
  note vv = visible_version [OF inv, of n, folded go_def] and rd = read_law [OF w n(2)]
  have "row_exec_step (read_row row) (pending row) sz (Reader n) s = Inr s' \<and> row_exec_inv (pending row) R (base row) r0 s'"
  proof (cases go)
    case True
    then have "row_exec_inv (pending row) R (base row) r0 s'" using inv by (simp add: row_exec_inv_def s'_def go_def)
    then show ?thesis using rd vv True n by (simp add: row_exec_step_def s'_def)
  next
    case False
    then have "read_row row n (xmem s) = Inr None" using rd vv by (simp only: if_False)
    then show ?thesis using n inv False by (simp add: row_exec_step_def s'_def)
  qed
  then show "row_exec_step (read_row row) (pending row) sz (Reader n) s = Inr s'" "row_exec_inv (pending row) R (base row) r0 s'"
    by simp_all
qed

lemma exec_any_schedule:
  assumes "row_exec_inv (pending row) R (base row) r0 s" and "wf row (xmem s)" and "set sched \<subseteq> actors (dom (pending row)) R" and "\<forall>n \<in> R. reader n"
  shows "\<exists>s'. row_exec_run (read_row row) (pending row) sz sched s = Inr s' \<and> row_exec_inv (pending row) R (base row) r0 s' \<and> wf row (xmem s')"
  using assms
proof (induction sched arbitrary: s)
  case (Cons a sched)
  have "\<exists>s1. row_exec_step (read_row row) (pending row) sz a s = Inr s1 \<and> row_exec_inv (pending row) R (base row) r0 s1 \<and> wf row (xmem s1)"
  proof (cases a)
    case (Reader n)
    then have n: "n \<in> R" "reader n" using Cons.prems(3,4) by (auto simp: actors_def)
    show ?thesis
    proof (cases "xout s n")
      case None
      note re = reader_exec [OF Cons.prems(1,2) n None]
      show ?thesis unfolding Reader using re(1) [where sz = sz] re(2) re(3) [symmetric] Cons.prems(2) by metis
    qed (use Cons.prems(1,2) Reader in \<open>simp add: row_exec_step_def\<close>)
  next
    case (Writer i)
    then have "i \<in> dom (pending row)" using Cons.prems(3) by (auto simp: actors_def)
    then show ?thesis using writer_exec [OF Cons.prems(1,2), of i] Cons.prems(1,2) Writer
      by (cases "i \<in> filled s") (auto simp: row_exec_step_def)
  qed
  with Cons.IH Cons.prems(3,4) show ?case by auto
qed simp

lemma exec_completes:
  assumes "row_exec_inv (pending row) R (base row) r0 s" and "wf row (xmem s)" and R: "\<forall>n \<in> R. reader n" "finite R"
  shows "\<exists>sched s'. set sched \<subseteq> actors (dom (pending row)) R \<and> row_exec_run (read_row row) (pending row) sz sched s = Inr s'
    \<and> row_exec_done (dom (pending row)) R s'"
  using assms(1,2)
proof (induction "card (dom (pending row) - filled s) + card {n \<in> R. xout s n = None}" arbitrary: s rule: less_induct)
  case less
  note fin = pending_finite [OF less.prems(2)] R(2)
  show ?case
  proof (cases "dom (pending row) \<subseteq> filled s")
    case False
    then obtain i where i: "i \<in> dom (pending row)" "i \<notin> filled s" by blast
    from writer_exec [OF less.prems i(2,1), of sz] obtain s1 where s1: "row_exec_step (read_row row) (pending row) sz (Writer i) s = Inr s1"
      "row_exec_inv (pending row) R (base row) r0 s1" "wf row (xmem s1)" "filled s1 = insert i (filled s)" "xout s1 = xout s" by blast
    have "card (dom (pending row) - filled s1) < card (dom (pending row) - filled s)"
      using i fin by (intro psubset_card_mono) (auto simp: s1(4))
    then obtain sched s' where "set sched \<subseteq> actors (dom (pending row)) R" "row_exec_run (read_row row) (pending row) sz sched s1 = Inr s'"
      "row_exec_done (dom (pending row)) R s'" using less.hyps [OF _ s1(2,3)] by (auto simp: s1(5))
    then show ?thesis using s1(1) i(1) by (intro exI [of _ "Writer i # sched"] exI [of _ s']) (auto simp: actors_def)
  next
    case all: True
    show ?thesis
    proof (cases "\<exists>n \<in> R. xout s n = None")
      case True
      then obtain n where n: "n \<in> R" "reader n" "xout s n = None" using R(1) by blast
      have "\<forall>i. visible_in (dom (pending row)) n = Some i \<longrightarrow> i \<in> filled s" using all by (auto simp: visible_in_Some)
      with reader_exec(1) [OF less.prems n, where sz = sz] reader_exec(2) [OF less.prems n] less.prems(2) obtain s1 r where s1:
        "row_exec_step (read_row row) (pending row) sz (Reader n) s = Inr s1" "row_exec_inv (pending row) R (base row) r0 s1"
        "wf row (xmem s1)" "filled s1 = filled s" "xout s1 = (xout s)(n \<mapsto> r)" by fastforce
      have "card {n \<in> R. xout s1 n = None} < card {n \<in> R. xout s n = None}"
        using n fin by (intro psubset_card_mono) (auto simp: s1(5))
      then obtain sched s' where "set sched \<subseteq> actors (dom (pending row)) R" "row_exec_run (read_row row) (pending row) sz sched s1 = Inr s'"
        "row_exec_done (dom (pending row)) R s'" using less.hyps [OF _ s1(2,3)] by (auto simp: s1(4))
      then show ?thesis using s1(1) n(1) by (intro exI [of _ "Reader n # sched"] exI [of _ s']) (auto simp: actors_def)
    next
      case False
      then show ?thesis using all by (intro exI [of _ "[]"] exI [of _ s]) (auto simp: row_exec_done_def)
    qed
  qed
qed

end

end
