(* ===== verification/Serval_Epoch.thy ===== *)
theory Serval_Epoch
  imports Serval_Init Row_Execution
begin

text \<open>
  A whole Serval epoch on one row: the initialization phase of Serval_Init, then the execution
  phase, in which the writers fill their pending versions and the readers search the row, in any
  interleaving. The row of one epoch is again a row the next epoch can start from.
\<close>

section \<open>The entries of a row\<close>

lemma row_curD: "row_cur ctl val m \<Longrightarrow> row_ok ctl val m"
  by (simp add: row_cur_def)

lemma rank_inject: "finite S \<Longrightarrow> t \<in> S \<Longrightarrow> u \<in> S \<Longrightarrow> rank S t = rank S u \<Longrightarrow> t = u"
proof (rule ccontr)
  assume S: "finite S" "t \<in> S" "u \<in> S" "rank S t = rank S u" and "t \<noteq> u"
  have less: "rank S a < rank S b" if "a \<in> S" "a < b" for a b
    unfolding rank_def using that S(1) by (intro psubset_card_mono) auto
  from \<open>t \<noteq> u\<close> consider "t < u" | "u < t" by linarith
  then show False using less S by cases fastforce+
qed

lemma rank_surj:
  assumes "finite S" and "k < card S"
  shows "\<exists>t \<in> S. rank S t = k"
proof -
  have "inj_on (rank S) S" using rank_inject [OF assms(1)] by (auto simp: inj_on_def)
  then have "rank S ` S = {..<card S}"
    using assms(1) rank_less_card by (intro card_subset_eq) (auto simp: card_image)
  then show ?thesis using assms(2) by (metis imageE lessThan_iff)
qed

lemma rank_Max:
  assumes "finite S" and "S \<noteq> {}"
  shows "rank S (Max S) = card S - 1"
proof -
  have "{x \<in> S. x < Max S} = S - {Max S}" using Max_ge [OF assms(1)] by (auto simp: le_less)
  then show ?thesis using assms by (simp add: rank_def)
qed

lemma region_entries_inject:
  assumes ok: "region_ok (r, m)" and i: "region_entries r i = Some v" and j: "region_entries r j = Some v"
  shows "i = j"
proof -
  let ?a = "\<lambda>i. arrays r (i div 64)" let ?S = "\<lambda>i. ones (transaction_bitmap (?a i))"
  have e: "k div 64 < 64" "k mod 64 \<in> ?S k" "v = slots (?a k) ! rank (?S k) (k mod 64)"
    "rank (?S k) (k mod 64) < length (slots (?a k))" if "region_entries r k = Some v" for k
  proof -
    have c: "k div 64 \<in> ones (core_bitmap r)" "pcva_entries (?a k) (k mod 64) = Some v"
      using that by (auto simp: region_entries_def split: if_splits)
    show "k div 64 < 64" "k mod 64 \<in> ?S k" "v = slots (?a k) ! rank (?S k) (k mod 64)"
      using c ones_less by (auto simp: pcva_entries_def split: if_splits)
    then show "rank (?S k) (k mod 64) < length (slots (?a k))"
      using region_okD(4) [OF ok c(1)] rank_less_card [of "?S k"] by (simp add: pcva_ok_def)
  qed
  note ei = e [OF i] and ej = e [OF j]
  have "i div 64 = j div 64"
  proof (rule ccontr)
    assume "i div 64 \<noteq> j div 64"
    then have "set (slots (?a i)) \<inter> set (slots (?a j)) = {}" by (rule region_okD(3) [OF ok ei(1) ej(1)])
    moreover have "v \<in> set (slots (?a i))" "v \<in> set (slots (?a j))" using ei(3,4) ej(3,4) nth_mem by metis+
    ultimately show False by blast
  qed
  moreover from this have "i mod 64 = j mod 64"
    using ei ej region_okD(2) [OF ok ei(1)] rank_inject [of "?S i" "i mod 64" "j mod 64"]
    by (simp add: nth_eq_iff_index_eq)
  ultimately show ?thesis by (metis div_mult_mod_eq)
qed

lemma row_entries_inject:
  assumes cur: "row_cur ctl val m" and i: "row_entries ctl val i = Some v" and j: "row_entries ctl val j = Some v"
  shows "i = j"
proof (cases "row_region_ptr val")
  case None
  have d: "distinct (map snd (ids_slots (global_array val)))" by (rule row_okD(4) [OF row_curD [OF cur]])
  have "(int i, v) \<in> set (ids_slots (global_array val))" "(int j, v) \<in> set (ids_slots (global_array val))"
    using i j None by (auto simp: row_entries_def gva_entries_def dest: map_of_SomeD)
  moreover from d have "inj_on snd (set (ids_slots (global_array val)))" by (simp add: distinct_map)
  ultimately have "(int i, v) = (int j, v)" by (metis inj_onD snd_conv)
  then show ?thesis by simp
next
  case (Some k)
  then have "region_ok (regions ctl k, m)" using cur row_okD(7) by (auto simp: row_cur_def)
  then show ?thesis using region_entries_inject i j Some by (simp add: row_entries_def)
qed

text \<open>A version the row reaches is an entry of the epoch, or a stable one left from an earlier epoch.\<close>

lemma row_versions_cases:
  assumes cur: "row_cur ctl val m" and v: "v \<in> row_versions ctl val"
  shows "(\<exists>i. row_entries ctl val i = Some v) \<or> stable m v"
proof (cases "row_region_ptr val")
  case None
  then obtain p where p: "p \<in> set (ids_slots (global_array val))" "v = snd p" using v by (auto simp: row_versions_def)
  have "0 \<le> fst p" "ascending (ids_slots (global_array val))" using cur p(1) row_okD(3) by (auto simp: row_cur_def)
  then have "map_of (ids_slots (global_array val)) (int (nat (fst p))) = Some v"
    using p ascending_distinct by (metis nat_0_le map_of_is_SomeI prod.collapse)
  then have "row_entries ctl val (nat (fst p)) = Some v" by (simp only: row_entries_def gva_entries_def None option.case)
  then show ?thesis by blast
next
  case (Some k)
  let ?r = "regions ctl k"
  have kr: "ids_slots (global_array val) = []" "region_ok (?r, m)" using cur row_okD(7) [OF _ Some] by (auto simp: row_cur_def)
  then obtain c where c: "c < 64" "v \<in> set (slots (arrays ?r c))" using v Some by (auto simp: row_versions_def region_slots_iff)
  show ?thesis
  proof (cases "c \<in> ones (core_bitmap ?r)")
    case False
    then show ?thesis using region_okD(6) [OF kr(2) c(1) _ c(2)] by simp
  next
    case True
    let ?S = "ones (transaction_bitmap (arrays ?r c))"
    obtain n where n: "n < length (slots (arrays ?r c))" "v = slots (arrays ?r c) ! n" using c(2) by (metis in_set_conv_nth)
    moreover have "length (slots (arrays ?r c)) = card ?S" using region_okD(4) [OF kr(2) True] by (simp add: pcva_ok_def)
    ultimately obtain t where t: "t \<in> ?S" "rank ?S t = n" using rank_surj [OF finite_ones] by metis
    then have "region_entries ?r (c * 64 + t) = Some v"
      using True n ones_less [OF t(1)] by (simp add: region_entries_at pcva_entries_def)
    then show ?thesis using Some by (auto simp: row_entries_def)
  qed
qed

lemma row_final_entry:
  assumes cur: "row_cur ctl val m"
  shows "dom (row_entries ctl val) = {} \<Longrightarrow> row_final ctl val = master val"
    and "dom (row_entries ctl val) \<noteq> {} \<Longrightarrow> row_entries ctl val (Max (dom (row_entries ctl val))) = Some (row_final ctl val)"
proof -
  note ok = row_curD [OF cur]
  let ?g = "ids_slots (global_array val)" let ?e = "row_entries ctl val"
  have fin: "finite (dom ?e)" by (rule finite_subset [of _ "{..<4096}"]) (use dom_row_entries [OF cur] in auto)
  show "row_final ctl val = master val" if e: "dom ?e = {}"
  proof (cases "row_region_ptr val")
    case None
    have "?g = []"
    proof (rule ccontr)
      assume g: "?g \<noteq> []"
      then have "0 \<le> fst (hd ?g)" "fst (hd ?g) \<in> fst ` set ?g" using cur by (auto simp: row_cur_def)
      then have "nat (fst (hd ?g)) \<in> dom ?e" by (simp add: row_entries_def None dom_gva_entries_iff)
      then show False using e by blast
    qed
    then show ?thesis using None by (simp add: row_final_def)
  next
    case (Some k)
    have "core_bitmap (regions ctl k) = 0"
    proof (rule ccontr)
      assume "core_bitmap (regions ctl k) \<noteq> 0"
      then obtain c where c: "c \<in> ones (core_bitmap (regions ctl k))" by (metis all_not_in_conv ones_eq_empty_iff)
      have "region_ok (regions ctl k, m)" using row_okD(7) [OF ok Some] by blast
      then obtain t where t: "t \<in> ones (transaction_bitmap (arrays (regions ctl k) c))"
        using region_okD(5) [OF _ c] by (metis all_not_in_conv ones_eq_empty_iff)
      have "c * 64 + t \<in> dom ?e" using c t ones_less [OF t] by (simp add: row_entries_def Some dom_region_entries two_level_ids_at)
      then show False using e by blast
    qed
    then show ?thesis using Some row_okD(7) [OF ok Some] by (simp add: row_final_def)
  qed
  show "?e (Max (dom ?e)) = Some (row_final ctl val)" if e: "dom ?e \<noteq> {}"
  proof (cases "row_region_ptr val")
    case None
    then have g: "?g \<noteq> []" using e by (auto simp: row_entries_def gva_entries_def)
    let ?l = "last ?g"
    have l: "?l \<in> set ?g" "0 \<le> fst ?l" using g cur by (auto simp: row_cur_def)
    have el: "?e (nat (fst ?l)) = Some (snd ?l)"
      using l ascending_distinct [OF row_okD(3) [OF ok]] by (simp add: row_entries_def gva_entries_def None)
    have "Max (dom ?e) = nat (fst ?l)"
    proof (rule Max_eq_if [OF fin])
      show "nat (fst ?l) \<in> dom ?e" using el by blast
      fix x assume "x \<in> dom ?e"
      then obtain p where "p \<in> set ?g" "int x = fst p" by (auto simp: row_entries_def None dom_gva_entries_iff)
      then show "x \<le> nat (fst ?l)" using ascending_last [OF row_okD(3) [OF ok]] by fastforce
    qed
    then show ?thesis using el g by (simp add: row_final_def)
  next
    case (Some k)
    let ?r = "regions ctl k" let ?c = "Max (ones (core_bitmap ?r))" let ?S = "ones (transaction_bitmap (arrays ?r ?c))"
    have kr: "?g = []" "region_ok (?r, m)" using row_okD(7) [OF ok Some] by auto
    have cb: "core_bitmap ?r \<noteq> 0" using e by (auto simp: row_entries_def Some dom_region_entries two_level_ids_def)
    then have c: "?c \<in> ones (core_bitmap ?r)" by (simp add: Max_in)
    have S: "?S \<noteq> {}" "pcva_ok (arrays ?r ?c)" using region_okD(4,5) [OF kr(2) c] by simp_all
    have t: "Max ?S \<in> ?S" using S(1) by (simp add: Max_in)
    have mx: "Max (dom ?e) = ?c * 64 + Max ?S"
    proof (rule Max_eq_if [OF fin])
      show "?c * 64 + Max ?S \<in> dom ?e" using c t ones_less [OF t] by (simp add: row_entries_def Some dom_region_entries two_level_ids_at)
      fix x assume "x \<in> dom ?e"
      then have x: "x div 64 \<in> ones (core_bitmap ?r)" "x mod 64 \<in> ones (transaction_bitmap (arrays ?r (x div 64)))"
        by (auto simp: row_entries_def Some dom_region_entries two_level_ids_def)
      then have "x div 64 < ?c \<or> x div 64 = ?c \<and> x mod 64 \<le> Max ?S" by (metis Max_ge finite_ones le_less)
      then show "x \<le> ?c * 64 + Max ?S" by (rule pos_le)
    qed
    have "length (slots (arrays ?r ?c)) = card ?S" "slots (arrays ?r ?c) \<noteq> []" using S by (auto simp: pcva_ok_def)
    then have "pcva_entries (arrays ?r ?c) (Max ?S) = Some (last (slots (arrays ?r ?c)))"
      using t S(1) by (simp add: pcva_entries_def rank_Max last_conv_nth)
    then have "?e (?c * 64 + Max ?S) = Some (last (slots (arrays ?r ?c)))"
      using c ones_less [OF t] by (simp add: row_entries_def Some region_entries_at)
    then show ?thesis using mx cb kr(1) by (simp add: row_final_def Some)
  qed
qed

section \<open>The execution phase\<close>

text \<open>The thread that executes transaction \<open>n\<close>: \<open>core_\<close> is \<open>n / 64\<close> in the execution phase.\<close>

definition serval_executor :: "nat \<Rightarrow> nat \<Rightarrow> serval_thread" where
  "serval_executor e n = \<lparr>thr_core = n div 64, thr_serial_id = n, thr_epoch = e, write_set = (\<lambda>_. []), written_tables = {}\<rparr>"

lemma row_cur_fill:
  assumes cur: "row_cur ctl val m" and e: "row_entries ctl val i = Some v" and pd: "pend m v"
    and ok: "mem_ok m'" and x: "vers m v = Some x"
    and m': "vers m' = (vers m)(v \<mapsto> x\<lparr>ver_rec := r, ver_status := STABLE\<rparr>)"
  shows "row_cur ctl val m'"
proof -
  note row = row_curD [OF cur]
  have vM: "v \<noteq> master val" using row_okD(6) [OF row row_entries_versions [OF cur e]] .
  have lv: "live m' u" if "live m u" for u using that by (auto simp: live_def m')
  have "region_ok (regions ctl k, m')" if k: "row_region_ptr val = Some k" for k
  proof -
    have rk: "region_ok (regions ctl k, m)" using row_okD(7) [OF row k] by blast
    have "stable m' u" if "c < 64" "c \<notin> ones (core_bitmap (regions ctl k))" "u \<in> set (slots (arrays (regions ctl k) c))" for c u
      using region_okD(6) [OF rk that] by (auto simp: stable_def m')
    then show ?thesis using rk ok unfolding region_ok_def by simp
  qed
  moreover have "stable m' (master val)" using row_okD(2) [OF row] vM by (simp add: stable_def m')
  ultimately show ?thesis
    using cur ok lv unfolding row_cur_def row_ok_def by (auto split: option.splits)
qed

text \<open>Reading by search, on a row whose pending versions are installed, meets the interface.\<close>

type_synonym serval_row = "nat \<times> serval_value \<times> row_region_controller"

definition serval_row_read :: "serval_row \<Rightarrow> nat \<Rightarrow> mem \<Rightarrow> nat option res" where
  "serval_row_read row n m = (case row of (e, val, ctl) \<Rightarrow> serval_read_row (serval_executor e n) val ctl m)"

definition serval_row_pending :: "serval_row \<Rightarrow> nat \<Rightarrow> nat option" where
  "serval_row_pending row = (case row of (e, val, ctl) \<Rightarrow> row_entries ctl val)"

definition serval_row_base :: "serval_row \<Rightarrow> nat" where
  "serval_row_base row = (case row of (e, val, ctl) \<Rightarrow> master val)"

definition serval_row_wf :: "serval_row \<Rightarrow> mem \<Rightarrow> bool" where
  "serval_row_wf row m = (case row of (e, val, ctl) \<Rightarrow> row_cur ctl val m \<and> val_epoch val = e)"

lemmas serval_row_defs = serval_row_read_def serval_row_pending_def serval_row_base_def serval_row_wf_def

interpretation serval_exec: row_execution serval_row_read serval_row_pending serval_row_base serval_row_wf "\<lambda>n. n < 4096"
proof (unfold_locales, goal_cases)
  case (1 row m n)
  obtain e val ctl where row: "row = (e, val, ctl)" by (metis prod_cases3)
  then show ?case
    using serval_read_row_eq [of ctl val m "serval_executor e n"] 1
    by (simp add: serval_executor_def row_visible_def serval_row_defs cong: option.case_cong)
next
  case (2 row m)
  then show ?case by (auto simp: serval_row_defs intro: row_okD(1) [OF row_curD])
next
  case (3 row m i v m' x r)
  obtain e val ctl where row: "row = (e, val, ctl)" by (metis prod_cases3)
  show ?case using row_cur_fill [of ctl val m i v m' x r] 3 by (simp add: row serval_row_defs)
next
  case (4 row m i v j)
  obtain e val ctl where row: "row = (e, val, ctl)" by (metis prod_cases3)
  show ?case using row_entries_inject [of ctl val m i v j] 4 by (simp add: row serval_row_defs)
next
  case (5 row m i v)
  obtain e val ctl where row: "row = (e, val, ctl)" by (metis prod_cases3)
  have cur: "row_cur ctl val m" using 5(1) by (simp add: row serval_row_defs)
  have "v \<in> row_versions ctl val" using row_entries_versions [OF cur] 5(2) by (simp add: row serval_row_defs)
  then show ?case using row_okD(5,6) [OF row_curD [OF cur]] by (auto simp: live_def row serval_row_defs)
next
  case (6 row m)
  obtain e val ctl where row: "row = (e, val, ctl)" by (metis prod_cases3)
  have "dom (row_entries ctl val) \<subseteq> {..<4096}" using dom_row_entries [of ctl val m] 6 by (auto simp: row serval_row_defs)
  then show ?case by (simp add: row serval_row_defs finite_subset)
qed

section \<open>The epoch\<close>

text \<open>What an epoch needs of the row, and what the row is worth in the next one.\<close>

definition row_ready :: "nat \<Rightarrow> row_region_controller \<Rightarrow> serval_value \<Rightarrow> mem \<Rightarrow> bool" where
  "row_ready e ctl val m \<longleftrightarrow> row_ok ctl val m \<and> (\<forall>v \<in> row_versions ctl val. stable m v) \<and> rrc_ok ctl \<and> rwl val = 0
     \<and> (row_region_ptr val = None \<longrightarrow> used ctl < NUM_REGIONS) \<and> val_epoch val < e"

text \<open>
  \<open>do_initialization_phase\<close> of all workers on the row, the barrier, and \<open>do_execution_phase\<close>;
  \<open>None\<close> if the schedule of the first phase does not reach the barrier.
\<close>

definition serval_epoch ::
  "nat \<Rightarrow> nat \<Rightarrow> (nat \<Rightarrow> nat list) \<Rightarrow> nat list \<Rightarrow> actor list \<Rightarrow> row_region_controller \<Rightarrow> serval_value \<Rightarrow> mem
   \<Rightarrow> (init_conf \<times> row_exec) option res" where
  "serval_epoch sz e W isched xsched ctl val m =
     ebind (init_run e isched (init_start val ctl m W)) (\<lambda>s.
       if init_done s then
         ebind (row_exec_run (serval_row_read (e, ival s, ictl s)) (pendings s) sz xsched (row_exec_start (imem s)))
           (\<lambda>x. Inr (Some (s, x)))
       else Inr None)"

definition epoch_writers :: "(nat \<Rightarrow> nat list) \<Rightarrow> nat set" where
  "epoch_writers W = (\<Union>w < 64. set (W w))"

lemma init_inv_ready: "row_ready e ctl val m \<Longrightarrow> init_inv e (row_final ctl val) W (init_start val ctl m W)"
  by (rule init_inv_start) (simp_all add: row_ready_def)

lemma barrier_state:
  assumes wr: "writes_ok W" and inv: "init_inv e M W s" and dn: "init_done s" and ne: "epoch_writers W \<noteq> {}"
  shows "serval_row_wf (e, ival s, ictl s) (imem s)" "serval_row_pending (e, ival s, ictl s) = pendings s"
    "serval_row_base (e, ival s, ictl s) = M" "dom (pendings s) = epoch_writers W" "rwl (ival s) = 0" "rrc_ok (ictl s)"
    "row_region_ptr (ival s) = None \<longrightarrow> used (ictl s) < NUM_REGIONS" "pendings_ok (imem s) (pendings s)"
proof -
  note d = init_done_pendings [OF wr inv dn] and rp = init_invD(3) [OF inv]
  show dom: "dom (pendings s) = epoch_writers W" and "rwl (ival s) = 0" using d by (simp_all add: epoch_writers_def)
  then have "\<not> val_epoch (ival s) < e" using rp ne by (auto simp: row_part_def)
  then show "serval_row_wf (e, ival s, ictl s) (imem s)" "serval_row_pending (e, ival s, ictl s) = pendings s"
    "serval_row_base (e, ival s, ictl s) = M" "rrc_ok (ictl s)"
    "row_region_ptr (ival s) = None \<longrightarrow> used (ictl s) < NUM_REGIONS" "pendings_ok (imem s) (pendings s)"
    using rp by (auto simp: row_part_def serval_row_defs)
qed

text \<open>The version that ended the last epoch keeps its record through the initialization phase.\<close>

lemma gc_versions_evolves: "gc_versions vs m = Inr m' \<Longrightarrow> mem_evolves m m'"
  by (induction vs arbitrary: m)
    (auto simp: ebind_eq_Inr guard_eq_Inr intro: mem_evolves_trans mem_evolves_delete)

lemma gc_master_evolves: "gc_master_version v val m = Inr (val', m') \<Longrightarrow> mem_evolves m m'"
  by (auto simp: gc_master_version_def ebind_eq_Inr guard_eq_Inr intro: mem_evolves_delete)

lemma initialize_evolves: "initialize_the_row e val ctl m = Inr (val', ctl', m') \<Longrightarrow> mem_evolves m m'"
  by (auto simp: initialize_the_row_def gva_gc_def gva_minor_gc_def ebind_eq_Inr guard_eq_Inr
      split: if_splits prod.splits option.splits
      dest!: gc_versions_evolves gc_master_evolves intro: mem_evolves_trans)

lemma region_append_evolves: "region_append c v t r m = Inr (r', m') \<Longrightarrow> mem_evolves m m'"
  by (auto simp: region_append_def region_gc_and_initialize_tx_bitmap_def pcva_do_gc_and_initialize_tx_bitmap_def
      pcva_minor_gc_def ebind_eq_Inr guard_eq_Inr Let_def split: if_splits prod.splits dest!: gc_versions_evolves)

lemma contented_evolves: "append_to_contented_row c i k ctl m = Inr (v, ctl', m') \<Longrightarrow> mem_evolves m m'"
  by (auto simp: append_to_contented_row_def ebind_eq_Inr Let_def split: prod.splits
      dest!: region_append_evolves mem_evolves_create intro: mem_evolves_trans)

lemma unconted_evolves: "append_to_unconted_row i val m = Inr (v, val', m') \<Longrightarrow> mem_evolves m m'"
  by (auto simp: append_to_unconted_row_def ebind_eq_Inr guard_eq_Inr Let_def split: prod.splits dest!: mem_evolves_create)

lemma move_slots_evolves: "move_slots xs r m = Inr (r', m') \<Longrightarrow> mem_evolves m m'"
proof (induction xs arbitrary: r m)
  case (Cons p xs)
  obtain i v where p: "p = (i, v)" by fastforce
  from Cons.prems obtain r1 m1 where "mem_evolves m m1" "move_slots xs r1 m1 = Inr (r', m')"
    by (auto simp: p ebind_eq_Inr decompose_id_serial_def dest!: region_append_evolves)
  with Cons.IH show ?case by (blast intro: mem_evolves_trans)
qed simp

lemma install_evolves: "install_region val ctl m = Inr (k, val', ctl', m') \<Longrightarrow> mem_evolves m m'"
  by (auto simp: install_region_def move_global_array_to_row_region_def ebind_eq_Inr split: option.splits prod.splits
      dest!: move_slots_evolves)

lemmas evolves_dests = initialize_evolves contented_evolves unconted_evolves install_evolves

lemma init_step_evolves: "init_step e w s = Inr s' \<Longrightarrow> mem_evolves (imem s) (imem s')"
  by (cases "ipc s w")
    (auto simp: init_step_def ebind_eq_Inr guard_eq_Inr split: list.splits prod.splits option.splits if_splits
      dest: evolves_dests)

lemma init_run_evolves: "init_run e sched s = Inr s' \<Longrightarrow> mem_evolves (imem s) (imem s')"
proof (induction sched arbitrary: s)
  case (Cons w sched)
  then obtain s1 where "init_step e w s = Inr s1" "init_run e sched s1 = Inr s'" by (auto simp: ebind_eq_Inr)
  with Cons.IH show ?case by (blast intro: init_step_evolves mem_evolves_trans)
qed simp

lemma exec_start_inv:
  assumes "pendings_ok m p" and "stab m M r0"
  shows "row_exec_inv p R M r0 (row_exec_start m)"
  using assms by (auto simp: row_exec_inv_def row_exec_start_def pendings_ok_def pend_def)

text \<open>The state in which the execution phase starts.\<close>

lemma exec_phase_start:
  assumes wr: "writes_ok W" and rd: "row_ready e ctl val m" and r0: "stab m (row_final ctl val) r0"
    and run: "init_run e isched (init_start val ctl m W) = Inr s" and dn: "init_done s" and ne: "epoch_writers W \<noteq> {}"
  shows "serval_row_wf (e, ival s, ictl s) (imem s)" "serval_row_pending (e, ival s, ictl s) = pendings s"
    "serval_row_base (e, ival s, ictl s) = row_final ctl val" "dom (pendings s) = epoch_writers W"
    "row_exec_inv (pendings s) R (row_final ctl val) r0 (row_exec_start (imem s))"
    "rwl (ival s) = 0" "rrc_ok (ictl s)" "row_region_ptr (ival s) = None \<longrightarrow> used (ictl s) < NUM_REGIONS"
proof -
  from init_run_ok [OF wr init_inv_ready [OF rd, of W], of isched] run have inv: "init_inv e (row_final ctl val) W s" by simp
  note b = barrier_state [OF wr inv dn ne]
  show "serval_row_wf (e, ival s, ictl s) (imem s)" "serval_row_pending (e, ival s, ictl s) = pendings s"
    "serval_row_base (e, ival s, ictl s) = row_final ctl val" "dom (pendings s) = epoch_writers W"
    "rwl (ival s) = 0" "rrc_ok (ictl s)" "row_region_ptr (ival s) = None \<longrightarrow> used (ictl s) < NUM_REGIONS"
    by (rule b)+
  have "stable (imem s) (row_final ctl val)" using b(1,3) by (auto simp: serval_row_defs dest!: row_curD row_okD(2))
  then have "vers (imem s) (row_final ctl val) \<noteq> None" by (auto simp: stable_def)
  moreover have "mem_ok m" using rd row_okD(1) by (simp add: row_ready_def) blast
  moreover have "mem_evolves m (imem s)" using init_run_evolves [OF run] by (simp add: init_start_def)
  ultimately have "stab (imem s) (row_final ctl val) r0" using r0 mem_evolves_stab by blast
  with b(8) show "row_exec_inv (pendings s) R (row_final ctl val) r0 (row_exec_start (imem s))" by (rule exec_start_inv)
qed

lemma row_ready_again:
  assumes wf: "serval_row_wf (e, val, ctl) m" and fill: "row_exec_inv (row_entries ctl val) R M r0 x" "xmem x = m"
    "dom (row_entries ctl val) \<subseteq> filled x" and rest: "rwl val = 0" "rrc_ok ctl" "row_region_ptr val = None \<longrightarrow> used ctl < NUM_REGIONS"
    and ne: "dom (row_entries ctl val) \<noteq> {}"
  shows "row_ready (Suc e) ctl val m" "stab m (row_final ctl val) (xrec x (Max (dom (row_entries ctl val))))"
proof -
  have cur: "row_cur ctl val m" "val_epoch val = e" using wf by (simp_all add: serval_row_defs)
  have st: "stab m v (xrec x i)" if "row_entries ctl val i = Some v" for i v
    using row_exec_invD(2) [OF fill(1) that] fill(2,3) that by blast
  have "stable m v" if "v \<in> row_versions ctl val" for v
    using row_versions_cases [OF cur(1) that] st stab_stable by blast
  then show "row_ready (Suc e) ctl val m" using row_curD [OF cur(1)] rest cur(2) by (simp add: row_ready_def)
  show "stab m (row_final ctl val) (xrec x (Max (dom (row_entries ctl val))))"
    using st [OF row_final_entry(2) [OF cur(1) ne]] .
qed

lemma epoch_run_exists:
  assumes "writes_ok W" and "row_ready e ctl val m" and "stab m (row_final ctl val) r0" and "epoch_writers W \<noteq> {}"
    and "R \<subseteq> {..<4096}"
  shows "\<exists>rest xsched s x. set xsched \<subseteq> actors (epoch_writers W) R
    \<and> serval_epoch sz e W (isched @ rest) xsched ctl val m = Inr (Some (s, x)) \<and> row_exec_done (epoch_writers W) R x"
proof -
  obtain s0 where s0: "init_run e isched (init_start val ctl m W) = Inr s0" "init_inv e (row_final ctl val) W s0"
    using init_run_ok [OF assms(1) init_inv_ready [OF assms(2)]] by blast
  from init_can_finish [OF assms(1) s0(2)] obtain rest s where s: "init_run e rest s0 = Inr s" "init_done s" by blast
  have app: "init_run e (xs @ ys) c = ebind (init_run e xs c) (init_run e ys)" for xs ys c
    by (induction xs arbitrary: c) (auto simp: ebind_def split: sum.splits)
  have run: "init_run e (isched @ rest) (init_start val ctl m W) = Inr s" using s0(1) s(1) by (simp add: app)
  note st = exec_phase_start [OF assms(1-3) run s(2) assms(4)]
  have rdr: "\<forall>n \<in> R. n < 4096" "finite R" using assms(5) finite_subset by auto
  from serval_exec.exec_completes [where row = "(e, ival s, ictl s)" and R = R and ?r0.0 = r0 and s = "row_exec_start (imem s)"
      and sz = sz] st rdr
  obtain xsched x where x: "set xsched \<subseteq> actors (epoch_writers W) R"
    "row_exec_run (serval_row_read (e, ival s, ictl s)) (pendings s) sz xsched (row_exec_start (imem s)) = Inr x"
    "row_exec_done (epoch_writers W) R x" by (auto simp: row_exec_start_def)
  then have "serval_epoch sz e W (isched @ rest) xsched ctl val m = Inr (Some (s, x))"
    using run s(2) by (simp add: serval_epoch_def)
  with x show ?thesis by blast
qed

section \<open>A loaded row, for the witnesses\<close>

definition two_writers :: "nat \<Rightarrow> nat list" where
  "two_writers w = (if w = 0 then [0, 3] else if w = 1 then [64] else [])"

lemma two_writers: "writes_ok two_writers" "epoch_writers two_writers = {0, 3, 64}"
proof -
  show "writes_ok two_writers"
    unfolding writes_ok_def
  proof
    fix w :: nat
    consider "w = 0" | "w = 1" | "1 < w" by linarith
    then show "sorted_wrt (<) (two_writers w) \<and> (\<forall>i \<in> set (two_writers w). i div 64 = w) \<and> length (two_writers w) \<le> 63
        \<and> (64 \<le> w \<longrightarrow> two_writers w = [])"
      by cases (simp_all add: two_writers_def)
  qed
  have "{..<64} = {0, 1} \<union> {2..<64 :: nat}" by auto
  moreover have "(\<Union>w \<in> {2..<64}. set (two_writers w)) = {}" by (auto simp: two_writers_def)
  ultimately have "epoch_writers two_writers = (\<Union>w \<in> {0, 1}. set (two_writers w))"
    unfolding epoch_writers_def by (simp only: UN_Un Un_empty_right)
  then show "epoch_writers two_writers = {0, 3, 64}" by (simp add: two_writers_def insert_commute)
qed

lemma loaded_row_ready:
  obtains val m where "serval_insert_into_index 1 2 (snd (new_record 8 (snd (new_record 8 mem_init)))) = Inr (val, m)"
    "row_ready 1 rrc_init val m" "stab m (row_final rrc_init val) 1"
proof -
  have r: "new_record 8 mem_init = (1, snd (new_record 8 mem_init))"
    "new_record 8 (snd (new_record 8 mem_init)) = (2, snd (new_record 8 (snd (new_record 8 mem_init))))"
    by (simp_all add: new_record_def mem_init_def)
  obtain val m where v: "serval_insert_into_index 1 2 (snd (new_record 8 (snd (new_record 8 mem_init)))) = Inr (val, m)"
    "row_ok rrc_init val m" "\<forall>v \<in> row_versions rrc_init val. stable m v" "rwl val = 0" "val_epoch val = 0"
    "row_region_ptr val = None" "stab m (row_final rrc_init val) 1"
    by (rule serval_insert_ok [OF mem_ok_init r, of rrc_init]) blast
  have "rrc_ok rrc_init" "used rrc_init < NUM_REGIONS" by (simp_all add: rrc_ok_def rrc_init_def NUM_REGIONS_def)
  with v that show ?thesis by (simp add: row_ready_def)
qed

lemma serval_epoch_run:
  assumes "writes_ok W" and "row_ready e ctl val m" and "stab m (row_final ctl val) r0" and "epoch_writers W \<noteq> {}"
    and "R \<subseteq> {..<4096}" and "set xsched \<subseteq> actors (epoch_writers W) R"
  shows "\<exists>res. serval_epoch sz e W isched xsched ctl val m = Inr res \<and>
    (\<forall>s x. res = Some (s, x) \<longrightarrow> row_exec_done (epoch_writers W) R x \<longrightarrow>
       (\<forall>n \<in> R. xout x n = Some (must_read (epoch_writers W) r0 (xrec x) n))
       \<and> row_ready (Suc e) (ictl s) (ival s) (xmem x)
       \<and> stab (xmem x) (row_final (ictl s) (ival s)) (xrec x (Max (epoch_writers W))))"
proof -
  obtain s where run: "init_run e isched (init_start val ctl m W) = Inr s"
    using init_run_ok [OF assms(1) init_inv_ready [OF assms(2)]] by blast
  show ?thesis
  proof (cases "init_done s")
    case False
    then show ?thesis using run by (simp add: serval_epoch_def)
  next
    case True
    note st = exec_phase_start [OF assms(1-3) run True assms(4)]
    have rdr: "\<forall>n \<in> R. n < 4096" using assms(5) by auto
    from serval_exec.exec_any_schedule [where row = "(e, ival s, ictl s)" and R = R and ?r0.0 = r0 and s = "row_exec_start (imem s)"
        and sched = xsched and sz = sz] st rdr assms(6)
    obtain x where x: "row_exec_run (serval_row_read (e, ival s, ictl s)) (pendings s) sz xsched (row_exec_start (imem s)) = Inr x"
      "row_exec_inv (pendings s) R (row_final ctl val) r0 x" "serval_row_wf (e, ival s, ictl s) (xmem x)"
      by (auto simp: row_exec_start_def)
    have en: "row_entries (ictl s) (ival s) = pendings s" using st(2) by (simp add: serval_row_defs)
    have "xout x n = Some (must_read (epoch_writers W) r0 (xrec x) n)"
      if "row_exec_done (epoch_writers W) R x" "n \<in> R" for n
      using row_exec_invD(4) [OF x(2) that(2)] that st(4) by (auto simp: row_exec_done_def)
    moreover have "row_ready (Suc e) (ictl s) (ival s) (xmem x)
        \<and> stab (xmem x) (row_final (ictl s) (ival s)) (xrec x (Max (epoch_writers W)))" if "row_exec_done (epoch_writers W) R x"
      using row_ready_again [OF x(3), of R "row_final ctl val" r0 x] x(2) en st assms(4) that by (simp add: row_exec_done_def)
    ultimately show ?thesis using run True x(1) by (simp add: serval_epoch_def)
  qed
qed

section \<open>Properties\<close>

text \<open>C6: Take a Serval row that is ready for epoch \<open>e\<close>, any distribution of at most 63 writes to each of
  the 64 cores, any schedule of the workers' accesses in the initialization phase, and any schedule of
  readers and writers in the execution phase. No assertion fails, no version is used after it is freed and
  none is freed twice. Once all have finished, every reader got the record of the last writer before it in
  serial order (the record that ended the last epoch if there is none), the row is ready for the next
  epoch, and its final version holds the record of the last writer.\<close>

theorem serval_epoch_serial:
  assumes "writes_ok W" and "row_ready e ctl val m" and "stab m (row_final ctl val) r0" and "epoch_writers W \<noteq> {}"
    and "R \<subseteq> {..<4096}" and "set xsched \<subseteq> actors (epoch_writers W) R"
  shows "\<exists>res. serval_epoch sz e W isched xsched ctl val m = Inr res \<and>
    (\<forall>s x. res = Some (s, x) \<longrightarrow> row_exec_done (epoch_writers W) R x \<longrightarrow>
       (\<forall>n \<in> R. xout x n = Some (must_read (epoch_writers W) r0 (xrec x) n))
       \<and> row_ready (Suc e) (ictl s) (ival s) (xmem x)
       \<and> stab (xmem x) (row_final (ictl s) (ival s)) (xrec x (Max (epoch_writers W))))"
  using assms by (rule serval_epoch_run)

theorem serval_epoch_serial_witness:
  "\<exists>val m isched xsched s x. serval_insert_into_index 1 2 (snd (new_record 8 (snd (new_record 8 mem_init)))) = Inr (val, m)
     \<and> serval_epoch 8 1 two_writers isched xsched rrc_init val m = Inr (Some (s, x))
     \<and> row_exec_done {0, 3, 64} {1, 70} x \<and> xout x 70 = Some (xrec x 64)"
proof -
  obtain val m where v: "serval_insert_into_index 1 2 (snd (new_record 8 (snd (new_record 8 mem_init)))) = Inr (val, m)"
    "row_ready 1 rrc_init val m" "stab m (row_final rrc_init val) 1" by (rule loaded_row_ready)
  have ne: "epoch_writers two_writers \<noteq> {}" by (simp add: two_writers)
  from epoch_run_exists [OF two_writers(1) v(2,3) ne, of "{1, 70}" 8 "[]"] obtain isched xsched s x where
    run: "set xsched \<subseteq> actors (epoch_writers two_writers) {1, 70}"
    "serval_epoch 8 1 two_writers isched xsched rrc_init val m = Inr (Some (s, x))"
    "row_exec_done (epoch_writers two_writers) {1, 70} x" by auto
  from serval_epoch_serial [OF two_writers(1) v(2,3) ne, of "{1, 70}" xsched 8 isched] run
  have "xout x 70 = Some (must_read {0, 3, 64} 1 (xrec x) 70)" by (auto simp: two_writers(2))
  moreover have "visible_in {0, 3, 64} 70 = Some 64" by (simp add: visible_in_Some)
  then have "must_read {0, 3, 64} 1 (xrec x) 70 = xrec x 64" by (simp add: must_read_def)
  ultimately show ?thesis using v(1) run(2,3) unfolding two_writers(2) by metis
qed

text \<open>No schedule of the epoch blocks: whatever the workers have done so far in the initialization
  phase, the phase can be completed, and then the execution phase can be completed.\<close>

theorem serval_epoch_completes:
  assumes "writes_ok W" and "row_ready e ctl val m" and "stab m (row_final ctl val) r0" and "epoch_writers W \<noteq> {}"
    and "R \<subseteq> {..<4096}"
  shows "\<exists>rest xsched s x. set xsched \<subseteq> actors (epoch_writers W) R
    \<and> serval_epoch sz e W (isched @ rest) xsched ctl val m = Inr (Some (s, x)) \<and> row_exec_done (epoch_writers W) R x"
  using assms by (rule epoch_run_exists)

theorem serval_epoch_completes_witness:
  "\<exists>val m rest xsched s x. serval_insert_into_index 1 2 (snd (new_record 8 (snd (new_record 8 mem_init)))) = Inr (val, m)
     \<and> serval_epoch 8 1 two_writers ([0, 0, 1] @ rest) xsched rrc_init val m = Inr (Some (s, x))
     \<and> row_exec_done (epoch_writers two_writers) {1, 70} x"
proof -
  obtain val m where v: "serval_insert_into_index 1 2 (snd (new_record 8 (snd (new_record 8 mem_init)))) = Inr (val, m)"
    "row_ready 1 rrc_init val m" "stab m (row_final rrc_init val) 1" by (rule loaded_row_ready)
  have "epoch_writers two_writers \<noteq> {}" by (simp add: two_writers)
  with serval_epoch_completes [OF two_writers(1) v(2,3), of "{1, 70}" 8 "[0, 0, 1]"] v(1) show ?thesis by fastforce
qed

text \<open>C25: A row that was written in epoch \<open>e\<close> and is read in another epoch without a write before the read:
  the read returns the record of the master version, which is the state before epoch \<open>e\<close>, and not the record
  of the last writer of epoch \<open>e\<close>, although the comment on this branch says it reads the final state of
  the previous epoch.\<close>

theorem serval_stale_read:
  assumes "writes_ok W" and "row_ready e ctl val m" and "stab m (row_final ctl val) r0" and "epoch_writers W \<noteq> {}"
    and "set xsched \<subseteq> actors (epoch_writers W) {}"
    and "serval_epoch sz e W isched xsched ctl val m = Inr (Some (s, x))" and "epoch_writers W \<subseteq> filled x" and "e' \<noteq> e"
  shows "serval_read_row (serval_executor e' n) (ival s) (ictl s) (xmem x) = Inr (Some r0)
    \<and> r0 \<noteq> xrec x (Max (epoch_writers W))"
proof -
  have run: "init_run e isched (init_start val ctl m W) = Inr s" and dn: "init_done s"
    and xr: "row_exec_run (serval_row_read (e, ival s, ictl s)) (pendings s) sz xsched (row_exec_start (imem s)) = Inr x"
    using assms(6) by (auto simp: serval_epoch_def ebind_eq_Inr split: if_splits)
  note st = exec_phase_start [OF assms(1-3) run dn assms(4)]
  from serval_exec.exec_any_schedule [where row = "(e, ival s, ictl s)" and R = "{}" and ?r0.0 = r0 and s = "row_exec_start (imem s)"
      and sched = xsched and sz = sz] st(1-5) assms(5) xr
  have x: "row_exec_inv (pendings s) {} (row_final ctl val) r0 x" "serval_row_wf (e, ival s, ictl s) (xmem x)"
    by (auto simp: row_exec_start_def)
  have cur: "row_cur (ictl s) (ival s) (xmem x)" "val_epoch (ival s) = e" "master (ival s) = row_final ctl val"
    "row_entries (ictl s) (ival s) = pendings s" using x(2) st(2,3) by (simp_all add: serval_row_defs)
  have old: "stab (xmem x) (master (ival s)) r0" using row_exec_invD(1) [OF x(1)] cur(3) by simp
  have "finite (epoch_writers W)" by (simp add: epoch_writers_def)
  then have "Max (epoch_writers W) \<in> dom (pendings s)" using assms(4) st(4) by simp
  then obtain v where v: "pendings s (Max (epoch_writers W)) = Some v" by blast
  have new: "stab (xmem x) v (xrec x (Max (epoch_writers W)))"
    using row_exec_invD(2) [OF x(1) v] assms(7) st(4) v by blast
  have ok: "mem_ok (xmem x)" by (rule row_okD(1) [OF row_curD [OF cur(1)]])
  have "v \<noteq> master (ival s)"
    using row_okD(6) [OF row_curD [OF cur(1)] row_entries_versions [OF cur(1), of "Max (epoch_writers W)" v]] v cur(4) by simp
  then have "r0 \<noteq> xrec x (Max (epoch_writers W))" using stab_rec_inject [OF ok old] new by blast
  moreover have "execute_read (master (ival s)) (xmem x) = Inr r0"
    using old ok mem_okD(2) [OF ok] by (intro read_stab) (auto simp: stab_def)
  ultimately show ?thesis using cur(2) assms(8) by (simp add: serval_read_row_def serval_executor_def)
qed

theorem serval_stale_read_witness:
  "\<exists>val m isched xsched s x.
     serval_insert_into_index 1 2 (snd (new_record 8 (snd (new_record 8 mem_init)))) = Inr (val, m)
     \<and> serval_epoch 8 1 two_writers isched xsched rrc_init val m = Inr (Some (s, x))
     \<and> serval_read_row (serval_executor 2 5) (ival s) (ictl s) (xmem x) = Inr (Some 1)
     \<and> xrec x (Max (epoch_writers two_writers)) \<noteq> 1"
proof -
  obtain val m where v: "serval_insert_into_index 1 2 (snd (new_record 8 (snd (new_record 8 mem_init)))) = Inr (val, m)"
    "row_ready 1 rrc_init val m" "stab m (row_final rrc_init val) 1" by (rule loaded_row_ready)
  have ne: "epoch_writers two_writers \<noteq> {}" by (simp add: two_writers)
  obtain rest xsched s x where e: "set xsched \<subseteq> actors (epoch_writers two_writers) {}"
    "serval_epoch 8 1 two_writers ([] @ rest) xsched rrc_init val m = Inr (Some (s, x))"
    "row_exec_done (epoch_writers two_writers) {} x"
    using epoch_run_exists [OF two_writers(1) v(2,3) ne, of "{}" 8 "[]"] by blast
  then have "epoch_writers two_writers \<subseteq> filled x" by (simp add: row_exec_done_def)
  then have "serval_read_row (serval_executor 2 5) (ival s) (ictl s) (xmem x) = Inr (Some 1)"
    "xrec x (Max (epoch_writers two_writers)) \<noteq> 1"
    using serval_stale_read [OF two_writers(1) v(2,3) ne e(1,2), of 2 5] by simp_all
  with v(1) e(2) show ?thesis by blast
qed

text \<open>C24: Initializing a row for a new epoch succeeds on every well-formed row whose versions are stable: the row's
  final version becomes the master, the row has no entries, its epoch is the new one, and every version it
  holds is alive and stable; only its old versions can have been freed.\<close>

theorem serval_initialize_row:
  assumes "row_ok ctl val m" and "\<forall>v \<in> row_versions ctl val. stable m v"
  shows "\<exists>val' ctl' m'. initialize_the_row e val ctl m = Inr (val', ctl', m') \<and> row_ok ctl' val' m'
    \<and> master val' = row_final ctl val \<and> val_epoch val' = e \<and> row_entries ctl' val' = Map.empty
    \<and> (\<forall>v \<in> row_versions ctl' val'. stable m' v)
    \<and> (\<forall>v. v \<noteq> master val \<longrightarrow> v \<notin> row_versions ctl val \<longrightarrow> vers m' v = vers m v)"
  by (rule initialize_the_row_ok [OF assms, of e]) blast

theorem serval_initialize_row_witness:
  "\<exists>val m val' ctl' m'. serval_insert_into_index 1 2 (snd (new_record 8 (snd (new_record 8 mem_init)))) = Inr (val, m)
     \<and> initialize_the_row 1 val rrc_init m = Inr (val', ctl', m') \<and> master val' = row_final rrc_init val"
proof -
  obtain val m where v: "serval_insert_into_index 1 2 (snd (new_record 8 (snd (new_record 8 mem_init)))) = Inr (val, m)"
    "row_ready 1 rrc_init val m" by (rule loaded_row_ready)
  then have "row_ok rrc_init val m" "\<forall>v \<in> row_versions rrc_init val. stable m v" by (simp_all add: row_ready_def)
  from serval_initialize_row [OF this, of 1] v(1) show ?thesis by blast
qed

text \<open>C14: Moving the versions of a row from its global array into a newly fetched region is invisible: the
  installation succeeds when every core has at most 63 versions and a region is left, and every transaction of the
  epoch reads the same as before, waiting included.\<close>

theorem serval_region_installation:
  assumes "row_cur ctl val m" and "row_region_ptr val = None" and "rrc_ok ctl" and "used ctl < NUM_REGIONS"
    and "\<forall>c. card (core_ids (row_entries ctl val) c) \<le> 63"
  shows "\<exists>val' ctl' m'. install_region val ctl m = Inr (used ctl, val', ctl', m') \<and> row_cur ctl' val' m'
    \<and> row_region_ptr val' = Some (used ctl)
    \<and> (\<forall>t. val_epoch val = thr_epoch t \<longrightarrow> thr_serial_id t < 4096 \<longrightarrow> thr_core t = thr_serial_id t div 64 \<longrightarrow>
         serval_read_row t val' ctl' m' = serval_read_row t val ctl m)"
proof -
  obtain val' ctl' m' where r: "install_region val ctl m = Inr (used ctl, val', ctl', m')"
    "row_cur ctl' val' m'" "row_entries ctl' val' = row_entries ctl val" "row_region_ptr val' = Some (used ctl)"
    "val_epoch val' = val_epoch val" "master val' = master val" "vers m' = vers m"
    by (rule install_region_ok [OF assms]) blast
  have vis: "row_visible ctl' val' n = row_visible ctl val n" "read_of m' v = read_of m v" for n v
    unfolding row_visible_def read_of_def r(3,6,7) by (rule refl)+
  have "serval_read_row t val' ctl' m' = serval_read_row t val ctl m"
    if "val_epoch val = thr_epoch t" "thr_serial_id t < 4096" "thr_core t = thr_serial_id t div 64" for t
    using serval_read_row_eq [OF r(2) _ that(2,3)] serval_read_row_eq [OF assms(1) that] that(1) r(5)
    by (simp add: vis)
  with r show ?thesis by blast
qed

theorem serval_region_installation_witness:
  "\<exists>val m val' ctl' m' r. serval_insert_into_index 1 2 (snd (new_record 8 (snd (new_record 8 mem_init)))) = Inr (val, m)
     \<and> initialize_the_row 1 val rrc_init m = Inr (val', ctl', m') \<and> install_region val' ctl' m' = Inr r"
proof -
  obtain val m where v: "serval_insert_into_index 1 2 (snd (new_record 8 (snd (new_record 8 mem_init)))) = Inr (val, m)"
    "row_ok rrc_init val m" "\<forall>v \<in> row_versions rrc_init val. stable m v" "row_region_ptr val = None"
    by (rule loaded_row_ready) (auto simp: row_ready_def serval_insert_into_index_def ebind_eq_Inr Let_def case_prod_unfold)
  obtain val' ctl' m' where i: "initialize_the_row 1 val rrc_init m = Inr (val', ctl', m')" "row_ok ctl' val' m'"
    "row_entries ctl' val' = Map.empty" "used ctl' = used rrc_init" "row_region_ptr val' = row_region_ptr val"
    "ids_slots (global_array val') = []" "\<And>j. row_region_ptr val \<noteq> Some j \<Longrightarrow> regions ctl' j = regions rrc_init j"
    by (rule initialize_the_row_ok [OF v(2,3), of 1]) blast
  have "row_cur ctl' val' m'" "rrc_ok ctl'" "used ctl' < NUM_REGIONS" "row_region_ptr val' = None"
    using i v(4) by (simp_all add: row_cur_def rrc_ok_def rrc_init_def NUM_REGIONS_def)
  from serval_region_installation [OF this(1,4,2,3)] v(1) i(1,3) show ?thesis by (simp add: core_ids_def) metis
qed

end
