(* ===== verification/Caracal_Buffer.thy ===== *)
theory Caracal_Buffer
  imports Bitmap Version_Store Version_Array Lock
begin

text \<open>
  protocols/caracal/include/row_buffer.hpp: global ids that carry the epoch, the per-core
  buffers, the global version array of a row with its collector, and the controller of the row
  buffers.
\<close>

section \<open>Global ids\<close>

definition convert_to_serial_id_with_epoch :: "u64 \<Rightarrow> u64 \<Rightarrow> u64" where
  "convert_to_serial_id_with_epoch epoch serial_id = push_bit 32 epoch OR serial_id"

definition get_serial_id :: "u64 \<Rightarrow> u64" where
  "get_serial_id global_id = global_id AND NOT (fill_the_left_side_until_before_the_given_position 32)"

definition get_epoch :: "u64 \<Rightarrow> u64" where
  "get_epoch global_id = drop_bit 32 global_id"

section \<open>class PerCoreBuffer\<close>

type_synonym id_slots = "(u64 \<times> nat) list"

text \<open>A compile-time parameter; the default of CMakeLists.txt.\<close>

definition MAX_SLOTS_OF_PER_CORE_BUFFER :: nat where
  "MAX_SLOTS_OF_PER_CORE_BUFFER = 4"

definition appendable :: "nat \<Rightarrow> u64 \<Rightarrow> u64 \<Rightarrow> id_slots \<Rightarrow> (bool \<times> id_slots) res" where
  "appendable version epoch serial_id b =
     assert_then (version \<noteq> nullptr)
       (let global_id = convert_to_serial_id_with_epoch epoch serial_id
        in assert_then (length b < MAX_SLOTS_OF_PER_CORE_BUFFER)
             (let b' = insert_ascending global_id version b
              in Inr (length b' < MAX_SLOTS_OF_PER_CORE_BUFFER, b')))"

section \<open>class GlobalVersionArray\<close>

record car_array =
  car_rwl :: int
  car_slots :: id_slots

definition car_lock :: "car_array \<Rightarrow> car_array option" where
  "car_lock a = map_option (\<lambda>c. a\<lparr>car_rwl := c\<rparr>) (lock (car_rwl a))"

definition car_try_lock :: "car_array \<Rightarrow> bool \<times> car_array" where
  "car_try_lock a = (case try_lock (car_rwl a) of (ok, c) \<Rightarrow> (ok, a\<lparr>car_rwl := c\<rparr>))"

definition car_unlock :: "car_array \<Rightarrow> car_array" where
  "car_unlock a = a\<lparr>car_rwl := unlock (car_rwl a)\<rparr>"

definition car_is_exist :: "u64 \<Rightarrow> u64 \<Rightarrow> id_slots \<Rightarrow> bool" where
  "car_is_exist epoch serial_id xs \<longleftrightarrow>
     find (\<lambda>p. fst p = convert_to_serial_id_with_epoch epoch serial_id) xs \<noteq> None"

definition is_exist_visible_version :: "u64 \<Rightarrow> id_slots \<Rightarrow> bool" where
  "is_exist_visible_version global_id xs \<longleftrightarrow>
     (if global_id \<noteq> 0 then find (\<lambda>p. fst p < global_id) xs \<noteq> None else True)"

definition is_visible :: "u64 \<Rightarrow> u64 \<Rightarrow> bool res" where
  "is_visible global_id visible_id =
     (if get_epoch visible_id < get_epoch global_id then Inr True
      else assert_then (get_epoch visible_id = get_epoch global_id)
        (assert_then (get_serial_id visible_id < get_serial_id global_id) (Inr True)))"

definition car_search_visible_version :: "u64 \<Rightarrow> u64 \<Rightarrow> id_slots \<Rightarrow> (u64 \<times> nat) res" where
  "car_search_visible_version epoch serial_id xs =
     (let global_id = convert_to_serial_id_with_epoch epoch serial_id
      in assert_then (xs \<noteq> []) (assert_then (is_exist_visible_version global_id xs)
           (let it = upper_bound (\<lambda>p. global_id \<le> fst p) xs
            in assert_then (it \<noteq> 0)
                 (ebind (is_visible global_id (fst (xs ! (it - 1)))) (\<lambda>ok.
                    assert_then ok (Inr (xs ! (it - 1))))))))"

definition append_with_no_gc :: "u64 \<Rightarrow> nat \<Rightarrow> id_slots \<Rightarrow> id_slots res" where
  "append_with_no_gc serial_id_with_epoch version xs =
     assert_then (version \<noteq> nullptr) (Inr (insert_ascending serial_id_with_epoch version xs))"

definition car_gc :: "u64 \<times> nat \<Rightarrow> u64 \<Rightarrow> mem \<Rightarrow> mem res" where
  "car_gc itr serial_id_with_epoch m =
     assert_then (fst itr < serial_id_with_epoch) (assert_then (snd itr \<noteq> nullptr)
       (ebind (load_version (snd itr) m) (\<lambda>x.
          assert_then (ver_status x = STABLE) (assert_then (ver_rec x \<noteq> nullptr)
            (delete_version (snd itr) m)))))"

fun minor_gc_loop :: "u64 \<Rightarrow> id_slots \<Rightarrow> mem \<Rightarrow> (id_slots \<times> mem) res" where
  "minor_gc_loop sid (p # q # rest) m =
     (if sid \<le> fst q then Inr (p # q # rest, m)
      else ebind (car_gc p sid m) (minor_gc_loop sid (q # rest)))"
| "minor_gc_loop sid xs m = Inr (xs, m)"

definition car_minor_gc :: "u64 \<Rightarrow> id_slots \<Rightarrow> mem \<Rightarrow> (id_slots \<times> mem) res" where
  "car_minor_gc epoch xs m =
     assert_then (xs \<noteq> [])
       (let sid = convert_to_serial_id_with_epoch epoch 0
        in assert_then (is_exist_visible_version sid xs)
             (ebind (minor_gc_loop sid xs m) (\<lambda>(xs', m').
                assert_then (xs' \<noteq> []) (assert_then (is_exist_visible_version sid xs') (Inr (xs', m'))))))"

fun append_all_no_gc :: "id_slots \<Rightarrow> id_slots \<Rightarrow> id_slots res" where
  "append_all_no_gc [] xs = Inr xs"
| "append_all_no_gc ((i, version) # rest) xs = ebind (append_with_no_gc i version xs) (append_all_no_gc rest)"

text \<open>The array's new contents, the emptied buffer, and the store.\<close>

definition batch_append :: "id_slots \<Rightarrow> u64 \<Rightarrow> id_slots \<Rightarrow> mem \<Rightarrow> (id_slots \<times> id_slots \<times> mem) res" where
  "batch_append buffer cur_epoch xs m =
     ebind (car_minor_gc cur_epoch xs m) (\<lambda>(xs1, m1).
       ebind (append_all_no_gc buffer xs1) (\<lambda>xs2. Inr (xs2, [], m1)))"

definition append_with_gc :: "u64 \<Rightarrow> u64 \<Rightarrow> nat \<Rightarrow> id_slots \<Rightarrow> mem \<Rightarrow> (id_slots \<times> mem) res" where
  "append_with_gc epoch serial_id version xs m =
     assert_then (version \<noteq> nullptr)
       (ebind (car_minor_gc epoch xs m) (\<lambda>(xs1, m1).
          ebind (append_with_no_gc (convert_to_serial_id_with_epoch epoch serial_id) version xs1) (\<lambda>xs2.
            Inr (xs2, m1))))"

section \<open>class RowBuffer and class RowBufferController\<close>

record row_buffer_controller =
  row_buffers :: "nat \<Rightarrow> nat \<Rightarrow> id_slots"
  used_buffers :: nat

definition row_buffer_init :: "nat \<Rightarrow> id_slots" where
  "row_buffer_init = (\<lambda>core_id. [])"

definition NUM_BUFFERS :: nat where
  "NUM_BUFFERS = 10000"

definition fetch_new_buffer :: "row_buffer_controller \<Rightarrow> (nat \<times> row_buffer_controller) res" where
  "fetch_new_buffer c =
     assert_then (used_buffers c < NUM_BUFFERS)
       (if NUM_BUFFERS \<le> used_buffers c then Inl (RuntimeError ''NUM_REGIONS <= used_'')
        else Inr (used_buffers c, c\<lparr>used_buffers := used_buffers c + 1\<rparr>))"

section \<open>Global ids order by epoch, then by serial id\<close>

lemma unat_convert:
  assumes "e < 2 ^ 32" and "s < 2 ^ 32"
  shows "unat (convert_to_serial_id_with_epoch e s) = unat e * 2 ^ 32 + unat s"
proof -
  have bs: "\<not> bit s n" if "32 \<le> n" for n
  proof -
    have "unat s < 2 ^ 32" using assms(2) by (simp add: word_less_nat_alt)
    also have "\<dots> \<le> (2 :: nat) ^ n" using that by (intro power_increasing) auto
    finally have "\<not> bit (unat s) n" by (simp add: bit_iff_odd)
    then show ?thesis using bit_u64_less [of s n] by (auto simp: bit_unsigned_iff)
  qed
  have "push_bit 32 e AND s = 0"
    using bs by (intro bit_eqI) (auto simp: bit_and_iff bit_push_bit_iff)
  then have "convert_to_serial_id_with_epoch e s = push_bit 32 e + s"
    by (simp add: convert_to_serial_id_with_epoch_def disjunctive_add_eq_or)
  moreover have "unat e < 2 ^ 32" "unat s < 2 ^ 32"
    using assms by (simp_all add: word_less_nat_alt)
  ultimately show ?thesis
    by (simp add: push_bit_eq_mult unat_word_ariths)
qed

lemma unat_get_epoch: "unat (get_epoch g) = unat g div 2 ^ 32"
  by (simp add: get_epoch_def drop_bit_eq_div unat_div_distrib)

lemma get_serial_id_take: "get_serial_id g = take_bit 32 g"
proof (rule bit_eqI)
  fix n assume "possible_bit TYPE(u64) n"
  then have n: "n < 64" by simp
  have "bit (fill_the_left_side_until_before_the_given_position 32) n \<longleftrightarrow> 32 \<le> n"
    using n by (auto simp: bit_ones)
  with n show "bit (get_serial_id g) n \<longleftrightarrow> bit (take_bit 32 g) n"
    by (auto simp: get_serial_id_def bit_and_iff bit_not_iff bit_take_bit_iff)
qed

lemma unat_get_serial_id: "unat (get_serial_id g) = unat g mod 2 ^ 32"
  by (simp add: get_serial_id_take take_bit_eq_mod unat_mod_distrib)

lemma convert_roundtrip:
  assumes "e < 2 ^ 32" and "s < 2 ^ 32"
  shows "get_epoch (convert_to_serial_id_with_epoch e s) = e"
    and "get_serial_id (convert_to_serial_id_with_epoch e s) = s"
proof -
  have lt: "unat e < 2 ^ 32" "unat s < 2 ^ 32" using assms by (simp_all add: word_less_nat_alt)
  have "unat (get_epoch (convert_to_serial_id_with_epoch e s)) = unat e"
    using lt by (simp add: unat_get_epoch unat_convert [OF assms])
  then show "get_epoch (convert_to_serial_id_with_epoch e s) = e" by (simp only: word_unat_eq_iff)
  have "unat (get_serial_id (convert_to_serial_id_with_epoch e s)) = unat s"
    using lt by (simp add: unat_get_serial_id unat_convert [OF assms])
  then show "get_serial_id (convert_to_serial_id_with_epoch e s) = s" by (simp only: word_unat_eq_iff)
qed

lemma id_order: "g < h \<longleftrightarrow> get_epoch g < get_epoch h \<or> get_epoch g = get_epoch h \<and> get_serial_id g < get_serial_id h"
  using div_mod_less [of "2 ^ 32" "unat g" "unat h"]
  by (simp only: word_less_nat_alt unat_get_epoch unat_get_serial_id word_unat_eq_iff) simp

lemma is_visible_True: "v < g \<Longrightarrow> is_visible g v = Inr True"
  by (auto simp: is_visible_def id_order [of v g])

section \<open>The array as a version index\<close>

definition car_ok :: "id_slots \<Rightarrow> bool" where
  "car_ok xs \<longleftrightarrow> ascending xs \<and> (\<forall>p \<in> set xs. snd p \<noteq> nullptr)"

definition car_entries :: "id_slots \<Rightarrow> nat \<Rightarrow> nat option" where
  "car_entries xs i = (if i < 2 ^ 64 then map_of xs (of_nat i) else None)"

lemma u64_of_nat_inverse [simp]: "i < 2 ^ 64 \<Longrightarrow> unat (of_nat i :: u64) = i"
  by (simp add: unat_of_nat take_bit_nat_eq_self)

lemma dom_car_entries: "dom (car_entries xs) = unat ` fst ` set xs"
proof
  show "dom (car_entries xs) \<subseteq> unat ` fst ` set xs"
  proof
    fix i assume "i \<in> dom (car_entries xs)"
    then obtain y where "i < 2 ^ 64" "map_of xs (of_nat i :: u64) = Some y"
      by (auto simp: car_entries_def split: if_splits)
    then have "i < 2 ^ 64" "(of_nat i :: u64) \<in> fst ` set xs" by (auto dest!: map_of_SomeD intro: rev_image_eqI)
    then show "i \<in> unat ` fst ` set xs" by (metis image_eqI u64_of_nat_inverse)
  qed
  show "unat ` fst ` set xs \<subseteq> dom (car_entries xs)"
  proof
    fix i assume "i \<in> unat ` fst ` set xs"
    then obtain g where g: "i = unat g" "g \<in> fst ` set xs" by blast
    then have "map_of xs g \<noteq> None" by (simp add: map_of_eq_None_iff)
    moreover have "unat g < 2 ^ 64" using unsigned_less [of g, where ?'a = nat] by simp
    ultimately show "i \<in> dom (car_entries xs)" by (simp add: g(1) car_entries_def domIff)
  qed
qed

lemma car_entries_unat: "car_entries xs (unat g) = map_of xs g"
  using unsigned_less [of g, where ?'a = nat] by (simp add: car_entries_def)

lemma find_less_iff: "find (\<lambda>p. fst p < g) xs \<noteq> None \<longleftrightarrow> (\<exists>p \<in> set xs. fst p < g)"
  unfolding find_None_iff by blast

lemma is_exist_visible_iff: "is_exist_visible_version g xs \<longleftrightarrow> g = 0 \<or> (\<exists>p \<in> set xs. fst p < g)"
  unfolding is_exist_visible_version_def find_less_iff by simp

lemma car_search_spec:
  assumes ok: "car_ok xs" and vis: "\<exists>p \<in> set xs. fst p < convert_to_serial_id_with_epoch e s"
  obtains i v where "car_search_visible_version e s xs = Inr (i, v)"
    "visible_entry (car_entries xs) (unat (convert_to_serial_id_with_epoch e s)) = Some (unat i, v)"
    "(i, v) \<in> set xs"
proof -
  let ?g = "convert_to_serial_id_with_epoch e s" let ?it = "upper_bound (\<lambda>p. ?g \<le> fst p) xs"
  have asc: "ascending xs" using ok by (simp add: car_ok_def)
  note ub = upper_bound_prev [OF asc vis]
  obtain i v where iv: "xs ! (?it - 1) = (i, v)" by fastforce
  have in_xs: "(i, v) \<in> set xs" "i < ?g" using ub(3,4) by (simp_all only: iv fst_conv)
  have "car_search_visible_version e s xs = Inr (i, v)"
    using vis ub(1) iv is_visible_True [OF in_xs(2)]
    by (auto simp: car_search_visible_version_def is_exist_visible_iff Let_def guard_def)
  moreover have "visible_entry (car_entries xs) (unat ?g) = Some (unat i, v)"
    unfolding visible_entry_Some
  proof (intro conjI allI impI)
    show "car_entries xs (unat i) = Some v"
      using in_xs ascending_distinct [OF asc] by (simp add: car_entries_unat)
    show "unat i < unat ?g" using in_xs(2) by (simp add: word_less_nat_alt)
    fix x assume "x \<in> dom (car_entries xs)" "x < unat ?g"
    then obtain p where "p \<in> set xs" "x = unat (fst p)" "fst p < ?g"
      by (auto simp: dom_car_entries word_less_nat_alt)
    with ub(5) [of p] iv show "x \<le> unat i" by (simp add: word_le_nat_alt)
  qed
  ultimately show ?thesis using that in_xs(1) by blast
qed

lemma append_with_no_gc_ok:
  assumes "car_ok xs" and "v \<noteq> nullptr" and "g \<notin> fst ` set xs"
  shows "append_with_no_gc g v xs = Inr (insert_ascending g v xs)" "car_ok (insert_ascending g v xs)"
    "car_entries (insert_ascending g v xs) = (car_entries xs)(unat g \<mapsto> v)"
proof -
  show "append_with_no_gc g v xs = Inr (insert_ascending g v xs)" using assms(2) by (simp add: append_with_no_gc_def)
  show "car_ok (insert_ascending g v xs)" using assms by (simp add: car_ok_def ascending_insert)
  have "unat g < 2 ^ 64" using unsigned_less [of g, where ?'a = nat] by simp
  moreover have "(of_nat i :: u64) = g \<longleftrightarrow> i = unat g" if "i < 2 ^ 64" for i
    using that u64_of_nat_inverse [OF that] by (auto simp: word_unat_eq_iff)
  ultimately show "car_entries (insert_ascending g v xs) = (car_entries xs)(unat g \<mapsto> v)"
    by (auto simp: car_entries_def fun_eq_iff map_of_insert_ascending [OF assms(3)])
qed

definition car_app :: "nat \<Rightarrow> nat \<Rightarrow> id_slots \<Rightarrow> id_slots res" where
  "car_app i v xs = append_with_no_gc (of_nat i) v xs"

definition car_look :: "id_slots \<Rightarrow> nat \<Rightarrow> (nat \<times> nat) option res" where
  "car_look xs n =
     ebind (car_search_visible_version (of_nat (n div 2 ^ 32)) (of_nat (n mod 2 ^ 32)) xs) (\<lambda>(i, v).
       Inr (Some (unat i, v)))"

definition car_room :: "id_slots \<Rightarrow> nat \<Rightarrow> nat \<Rightarrow> bool" where
  "car_room xs i v \<longleftrightarrow> v \<noteq> nullptr \<and> i < 2 ^ 64 \<and> i \<notin> dom (car_entries xs)"

definition car_readable :: "id_slots \<Rightarrow> nat \<Rightarrow> bool" where
  "car_readable xs n \<longleftrightarrow> n < 2 ^ 64 \<and> (\<exists>i \<in> dom (car_entries xs). i < n)"

lemma unat_convert_div_mod:
  assumes "n < 2 ^ 64"
  shows "unat (convert_to_serial_id_with_epoch (of_nat (n div 2 ^ 32)) (of_nat (n mod 2 ^ 32))) = n"
proof -
  have "n div 2 ^ 32 < 2 ^ 32" using assms by (simp add: less_mult_imp_div_less)
  then have "(of_nat (n div 2 ^ 32) :: u64) < 2 ^ 32" "(of_nat (n mod 2 ^ 32) :: u64) < 2 ^ 32"
    by (simp_all add: word_less_nat_alt del: of_nat_div of_nat_mod)
  from unat_convert [OF this] show ?thesis
    using \<open>n div 2 ^ 32 < 2 ^ 32\<close> by (simp del: of_nat_div of_nat_mod)
qed

interpretation car: mv_index car_ok car_entries car_app car_look car_room car_readable
proof (unfold_locales, goal_cases)
  case (1 xs i v)
  then have i: "unat (of_nat i :: u64) = i" by (simp add: car_room_def)
  then have "(of_nat i :: u64) \<notin> fst ` set xs"
    using 1(2) unfolding car_room_def dom_car_entries by (metis image_eqI)
  with append_with_no_gc_ok [OF 1(1), of v "of_nat i"] 1(2) i show ?case
    by (simp add: car_app_def car_room_def)
next
  case (2 xs n)
  let ?e = "of_nat (n div 2 ^ 32) :: u64" let ?s = "of_nat (n mod 2 ^ 32) :: u64"
  have n: "unat (convert_to_serial_id_with_epoch ?e ?s) = n"
    using 2(2) unat_convert_div_mod by (simp add: car_readable_def)
  have "\<exists>p \<in> set xs. fst p < convert_to_serial_id_with_epoch ?e ?s"
    using 2(2) unfolding car_readable_def dom_car_entries word_less_nat_alt n by auto
  then obtain i v where "car_search_visible_version ?e ?s xs = Inr (i, v)"
    "visible_entry (car_entries xs) n = Some (unat i, v)"
    using car_search_spec [OF 2(1), of ?e ?s] unfolding n by blast
  then show ?case by (simp only: car_look_def ebind_Inr prod.case)
qed

section \<open>Collection keeps what the epoch can see\<close>

text \<open>
  The collector leaves the last version older than the epoch and everything of the epoch, frees
  the rest, and no read of the epoch can tell.
\<close>

lemma car_gc_ok:
  assumes "mem_ok m" and "fst p < sid" and "stable m (snd p)"
  obtains m' where "car_gc p sid m = Inr m'" "mem_ok m'" "vers m' = (vers m)(snd p := None)" "brk m' = brk m"
proof -
  obtain x where x: "vers m (snd p) = Some x" "ver_status x = STABLE" using assms(3) by (auto simp: stable_def)
  then have "snd p \<noteq> nullptr" "ver_rec x \<noteq> nullptr" using mem_okD(2,6) [OF assms(1) x(1)] by auto
  moreover from this x have "live m (snd p)" by (simp add: live_def)
  ultimately show ?thesis
    using delete_version_ok [OF assms(1)] that assms(2) x by (simp add: car_gc_def load_version_def) metis
qed

lemma minor_gc_loop_ok:
  assumes "mem_ok m" and "ascending xs" and "distinct (map snd xs)"
    and "\<forall>p \<in> set xs. fst p < sid \<longrightarrow> stable m (snd p)"
    and "xs \<noteq> []" and "fst (hd xs) < sid"
  shows "\<exists>ys zs m'. minor_gc_loop sid xs m = Inr (zs, m') \<and> xs = ys @ zs \<and> zs \<noteq> [] \<and> fst (hd zs) < sid
    \<and> (\<forall>p \<in> set (tl zs). sid \<le> fst p) \<and> mem_ok m' \<and> vers m' = vers m |` (- (snd ` set ys)) \<and> brk m' = brk m"
  using assms
proof (induction sid xs m rule: minor_gc_loop.induct)
  case (1 sid p q rest m)
  show ?case
  proof (cases "sid \<le> fst q")
    case True
    then have "\<forall>r \<in> set (q # rest). sid \<le> fst r" using 1(3) by (auto intro: order_trans less_imp_le)
    with True 1 show ?thesis by (intro exI [of _ "[]"] exI [of _ "p # q # rest"] exI [of _ m]) (simp add: restrict_map_def)
  next
    case False
    have "stable m (snd p)" using 1(5,7) by simp
    with 1(2,7) obtain m1 where m1: "car_gc p sid m = Inr m1" "mem_ok m1" "vers m1 = (vers m)(snd p := None)" "brk m1 = brk m"
      using car_gc_ok [of m p sid] by auto
    have "\<forall>r \<in> set (q # rest). fst r < sid \<longrightarrow> stable m1 (snd r)"
      using 1(4,5) by (auto simp: stable_def m1(3) image_iff)
    then have "\<exists>ys zs m'. minor_gc_loop sid (q # rest) m1 = Inr (zs, m') \<and> q # rest = ys @ zs \<and> zs \<noteq> []
      \<and> fst (hd zs) < sid \<and> (\<forall>p \<in> set (tl zs). sid \<le> fst p) \<and> mem_ok m' \<and> vers m' = vers m1 |` (- (snd ` set ys))
      \<and> brk m' = brk m1"
      using 1(1) [OF False m1(1,2)] 1(3,4) False by (simp add: not_le)
    then obtain ys zs m' where r:
      "minor_gc_loop sid (q # rest) m1 = Inr (zs, m')" "q # rest = ys @ zs" "zs \<noteq> []" "fst (hd zs) < sid"
      "\<forall>p \<in> set (tl zs). sid \<le> fst p" "mem_ok m'" "vers m' = vers m1 |` (- (snd ` set ys))" "brk m' = brk m1"
      by blast
    have "vers m' = vers m |` (- (snd ` set (p # ys)))" by (auto simp: r(7) m1(3) restrict_map_def fun_eq_iff)
    moreover have "minor_gc_loop sid (p # q # rest) m = Inr (zs, m')" using r(1) m1(1) False by simp
    moreover have "p # q # rest = (p # ys) @ zs" using r(2) by simp
    moreover have "brk m' = brk m" using r(8) m1(4) by simp
    ultimately show ?thesis using r(3-6) by blast
  qed
qed (auto simp: restrict_map_def)

lemma visible_entry_drop:
  assumes asc: "ascending (ys @ zs)" and zs: "zs \<noteq> []" "unat (fst (hd zs)) < n"
  shows "visible_entry (car_entries (ys @ zs)) n = visible_entry (car_entries zs) n"
proof -
  have hd: "unat (fst (hd zs)) \<in> dom (car_entries zs)" using zs(1) by (simp add: dom_car_entries)
  then have "visible_entry (car_entries zs) n \<noteq> None" using zs(2) by (auto simp: visible_entry_None)
  then obtain i v where iv: "visible_entry (car_entries zs) n = Some (i, v)" by auto
  then have i: "car_entries zs i = Some v" "i < n" "\<And>x. x \<in> dom (car_entries zs) \<Longrightarrow> x < n \<Longrightarrow> x \<le> i"
    unfolding visible_entry_Some by auto
  have disj: "fst p < fst q" if "p \<in> set ys" "q \<in> set zs" for p q
    using asc that by (auto simp: sorted_wrt_append)
  have "car_entries (ys @ zs) i = Some v"
  proof -
    have lt: "i < 2 ^ 64" "map_of zs (of_nat i) = Some v" using i(1) by (auto simp: car_entries_def split: if_splits)
    then have "(of_nat i, v) \<in> set zs" by (simp add: map_of_SomeD)
    then have "(of_nat i :: u64) \<notin> fst ` set ys" using disj by force
    then have "map_of ys (of_nat i :: u64) = None" by (simp add: map_of_eq_None_iff)
    then show ?thesis using lt by (simp add: car_entries_def map_add_def)
  qed
  moreover have "x \<le> i" if "x \<in> dom (car_entries (ys @ zs))" "x < n" for x
  proof (cases "x \<in> dom (car_entries zs)")
    case False
    then have "x \<in> unat ` fst ` set ys" using that(1) by (auto simp: dom_car_entries)
    then obtain p where "p \<in> set ys" "x = unat (fst p)" by blast
    then have "x < unat (fst (hd zs))" using disj [of p "hd zs"] zs(1) by (simp add: word_less_nat_alt)
    then show ?thesis using i(3) [OF hd zs(2)] by simp
  qed (use i(3) that(2) in blast)
  ultimately have "visible_entry (car_entries (ys @ zs)) n = Some (i, v)"
    using i(2) unfolding visible_entry_Some by blast
  with iv show ?thesis by simp
qed

definition car_wf :: "u64 \<Rightarrow> id_slots \<Rightarrow> mem \<Rightarrow> bool" where
  "car_wf epoch xs m \<longleftrightarrow> mem_ok m \<and> car_ok xs \<and> distinct (map snd xs) \<and> xs \<noteq> []
     \<and> fst (hd xs) < convert_to_serial_id_with_epoch epoch 0 \<and> (\<forall>p \<in> set xs. live m (snd p))
     \<and> (\<forall>p \<in> set xs. fst p < convert_to_serial_id_with_epoch epoch 0 \<longrightarrow> stable m (snd p))"

lemma car_minor_gc_ok:
  assumes wf: "car_wf epoch xs m"
  defines "sid \<equiv> convert_to_serial_id_with_epoch epoch 0"
  obtains ys zs m' where "car_minor_gc epoch xs m = Inr (zs, m')" "xs = ys @ zs" "car_wf epoch zs m'"
    "\<forall>p \<in> set (tl zs). sid \<le> fst p" "vers m' = vers m |` (- (snd ` set ys))" "brk m' = brk m"
    "\<And>n. unat sid \<le> n \<Longrightarrow> visible_entry (car_entries zs) n = visible_entry (car_entries xs) n"
proof -
  have w: "mem_ok m" "ascending xs" "\<forall>p \<in> set xs. snd p \<noteq> nullptr" "distinct (map snd xs)" "xs \<noteq> []" "fst (hd xs) < sid"
    "\<forall>p \<in> set xs. live m (snd p)" "\<forall>p \<in> set xs. fst p < sid \<longrightarrow> stable m (snd p)"
    using wf unfolding car_wf_def car_ok_def sid_def by auto
  from minor_gc_loop_ok [OF w(1,2,4,8,5,6)] obtain ys zs m' where r:
    "minor_gc_loop sid xs m = Inr (zs, m')" "xs = ys @ zs" "zs \<noteq> []" "fst (hd zs) < sid"
    "\<forall>p \<in> set (tl zs). sid \<le> fst p" "mem_ok m'" "vers m' = vers m |` (- (snd ` set ys))" "brk m' = brk m" by auto
  have ex: "is_exist_visible_version sid xs" "is_exist_visible_version sid zs"
    using w(5,6) r(3,4) by (auto simp: is_exist_visible_iff intro: bexI [of _ "hd xs"] bexI [of _ "hd zs"])
  have gc: "car_minor_gc epoch xs m = Inr (zs, m')"
    using ex w(5) r(1,3) by (simp add: car_minor_gc_def flip: sid_def)
  have keep: "vers m' (snd p) = vers m (snd p)" if "p \<in> set zs" for p
    using w(4) that by (auto simp: r(2,7) restrict_map_def)
  have "car_wf epoch zs m'"
    using w r(2,3,4,6) keep
    by (auto simp: car_wf_def car_ok_def live_def stable_def sorted_wrt_append simp flip: sid_def)
  moreover have "visible_entry (car_entries zs) n = visible_entry (car_entries xs) n" if "unat sid \<le> n" for n
  proof -
    have "unat (fst (hd zs)) < n" using r(4) that by (simp add: word_less_nat_alt)
    from visible_entry_drop [OF w(2) [unfolded r(2)] r(3) this] show ?thesis by (simp add: r(2))
  qed
  ultimately show ?thesis using that gc r by blast
qed

lemma append_all_no_gc_ok:
  assumes "car_ok xs" and "distinct (map fst buf)" and "\<forall>p \<in> set buf. snd p \<noteq> nullptr \<and> fst p \<notin> fst ` set xs"
  shows "\<exists>xs'. append_all_no_gc buf xs = Inr xs' \<and> car_ok xs' \<and> set xs' = set xs \<union> set buf
    \<and> car_entries xs' = car_entries xs ++ car_entries buf \<and> length xs' = length xs + length buf"
  using assms
proof (induction buf arbitrary: xs)
  case (Cons p buf)
  obtain g v where p: "p = (g, v)" by fastforce
  have a: "append_with_no_gc g v xs = Inr (insert_ascending g v xs)" "car_ok (insert_ascending g v xs)"
    "car_entries (insert_ascending g v xs) = (car_entries xs)(unat g \<mapsto> v)"
    using append_with_no_gc_ok [OF Cons.prems(1), of v g] Cons.prems(3) by (auto simp: p)
  have "\<forall>q \<in> set buf. snd q \<noteq> nullptr \<and> fst q \<notin> fst ` set (insert_ascending g v xs)"
    using Cons.prems(2,3) by (auto simp: p)
  from Cons.IH [OF a(2) _ this] Cons.prems(2) obtain xs' where r: "append_all_no_gc buf (insert_ascending g v xs) = Inr xs'"
    "car_ok xs'" "set xs' = insert (g, v) (set xs) \<union> set buf"
    "car_entries xs' = car_entries (insert_ascending g v xs) ++ car_entries buf" "length xs' = length xs + Suc (length buf)"
    by (auto simp: p)
  have ng: "car_entries buf (unat g) = None" using Cons.prems(2) by (simp add: p car_entries_unat map_of_eq_None_iff)
  have "car_entries (p # buf) = (car_entries buf)(unat g \<mapsto> v)"
  proof
    fix i
    show "car_entries (p # buf) i = ((car_entries buf)(unat g \<mapsto> v)) i"
      using unsigned_less [of g, where ?'a = nat] by (auto simp: car_entries_def p)
  qed
  then have "car_entries xs' = car_entries xs ++ car_entries (p # buf)"
    using ng by (auto simp: r(4) a(3) map_add_def fun_eq_iff split: option.splits)
  with r a(1) show ?case by (simp add: p)
qed (simp add: car_entries_def map_add_def fun_eq_iff)

text \<open>A freshly loaded row is well-formed for every epoch but 0.\<close>

lemma car_wf_loaded:
  assumes ok: "mem_ok m" and r: "recs m r \<noteq> None" "\<And>v x. vers m v = Some x \<Longrightarrow> ver_rec x \<noteq> r"
    and v: "new_version \<lparr>ver_rec = r, ver_status = STABLE, ver_deleted = False\<rparr> m = (v, m1)"
    and e: "0 < e" "e < 2 ^ 32"
  shows "car_wf e [(0, v)] m1"
proof -
  note n = new_stable_version_ok [OF ok r v]
  have "v \<noteq> nullptr" using n(2) mem_okD(1) [OF ok] by simp
  moreover have "unat (0 :: u64) < unat (convert_to_serial_id_with_epoch e 0)"
    using e by (simp add: unat_convert unat_gt_0 word_neq_0_conv)
  ultimately show ?thesis using n(1,5) by (simp add: car_wf_def car_ok_def live_def stable_def word_less_nat_alt)
qed

section \<open>Properties\<close>

text \<open>C31: Caracal's global ids lose nothing and order transactions by epoch first and serial id second,
  for epochs and serial ids below 2 to the 32.\<close>

theorem global_id_roundtrip:
  assumes "e < 2 ^ 32" and "s < 2 ^ 32" and "e' < 2 ^ 32" and "s' < 2 ^ 32"
  shows "get_epoch (convert_to_serial_id_with_epoch e s) = e
    \<and> get_serial_id (convert_to_serial_id_with_epoch e s) = s
    \<and> (convert_to_serial_id_with_epoch e s < convert_to_serial_id_with_epoch e' s' \<longleftrightarrow> e < e' \<or> e = e' \<and> s < s')"
  using id_order [of "convert_to_serial_id_with_epoch e s" "convert_to_serial_id_with_epoch e' s'"]
  by (simp add: convert_roundtrip [OF assms(1,2)] convert_roundtrip [OF assms(3,4)])

theorem global_id_roundtrip_witness:
  "get_epoch (convert_to_serial_id_with_epoch 7 4095) = 7
   \<and> convert_to_serial_id_with_epoch 7 4095 < convert_to_serial_id_with_epoch 8 0"
  using global_id_roundtrip [of 7 4095 8 0] by simp

text \<open>C13: Caracal's minor collection at the start of an epoch succeeds on every well-formed array: it frees a
  prefix of the versions, keeps exactly one version older than the epoch, and changes the answer of no
  lookup by a transaction of this epoch or a later one.\<close>

theorem caracal_minor_gc_invisible:
  assumes "car_wf epoch xs m"
  shows "\<exists>ys zs m'. car_minor_gc epoch xs m = Inr (zs, m') \<and> xs = ys @ zs \<and> car_wf epoch zs m'
    \<and> (\<exists>p. {q \<in> set zs. fst q < convert_to_serial_id_with_epoch epoch 0} = {p})
    \<and> vers m' = vers m |` (- (snd ` set ys))
    \<and> (\<forall>n. unat (convert_to_serial_id_with_epoch epoch 0) \<le> n \<longrightarrow>
          visible_entry (car_entries zs) n = visible_entry (car_entries xs) n)"
proof -
  let ?sid = "convert_to_serial_id_with_epoch epoch 0"
  obtain ys zs m' where r: "car_minor_gc epoch xs m = Inr (zs, m')" "xs = ys @ zs" "car_wf epoch zs m'"
    "\<forall>p \<in> set (tl zs). ?sid \<le> fst p" "vers m' = vers m |` (- (snd ` set ys))" "brk m' = brk m"
    "\<And>n. unat ?sid \<le> n \<Longrightarrow> visible_entry (car_entries zs) n = visible_entry (car_entries xs) n"
    by (rule car_minor_gc_ok [OF assms]) blast
  have "{q \<in> set zs. fst q < ?sid} = {hd zs}"
    using r(3,4) by (cases zs) (auto simp: car_wf_def)
  with r show ?thesis by blast
qed

theorem caracal_minor_gc_invisible_witness:
  "\<exists>v m ys zs m'. new_version \<lparr>ver_rec = 1, ver_status = STABLE, ver_deleted = False\<rparr> (snd (new_record 8 mem_init)) = (v, m)
     \<and> car_minor_gc 1 [(0, v)] m = Inr (zs, m') \<and> [(0, v)] = ys @ zs"
proof -
  have r: "new_record 8 mem_init = (1, snd (new_record 8 mem_init))" by (simp add: new_record_def mem_init_def)
  note n = new_record_ok [OF mem_ok_init r]
  obtain v m where v: "new_version \<lparr>ver_rec = 1, ver_status = STABLE, ver_deleted = False\<rparr> (snd (new_record 8 mem_init)) = (v, m)"
    by fastforce
  have "car_wf 1 [(0, v)] m"
    by (rule car_wf_loaded [OF n(1) _ _ v]) (use n(2,4) in \<open>auto simp: mem_init_def\<close>)
  from caracal_minor_gc_invisible [OF this] v show ?thesis by blast
qed

end
