(* ===== verification/Caracal.thy ===== *)
theory Caracal
  imports Caracal_Buffer
begin

text \<open>
  The protocol class of protocols/caracal/include/caracal.hpp with its loader and its collector
  (ycsb/initializer.hpp, include/major_gc.hpp), as the calls of one thread; \<open>Inr None\<close> is a
  lock that spins in the given state. Timing statistics are left out.
\<close>

section \<open>State\<close>

record car_value =
  car_global :: car_array
  row_buffer_ptr :: "nat option"

record caracal_db =
  cvalues :: "nat \<Rightarrow> car_value"
  cctl :: row_buffer_controller
  cmem :: mem

text \<open>
  \<open>appended_core_buffers_\<close> is an unordered map from rows to per-core buffers; a buffer is named
  by its row buffer and core. The list order stands for the map's iteration order.
\<close>

record caracal_thread =
  cthr_core :: nat
  cthr_serial_id :: u64
  cthr_epoch :: u64
  cwrite_set :: "nat \<Rightarrow> nat list"
  cwritten_tables :: "nat set"
  spare_buffer :: "nat option"
  appended_core_buffers :: "(nat \<times> nat \<times> nat) list"

definition put_array :: "nat \<Rightarrow> car_array \<Rightarrow> caracal_db \<Rightarrow> caracal_db" where
  "put_array k a db = db\<lparr>cvalues := (cvalues db)(k := (cvalues db k)\<lparr>car_global := a\<rparr>)\<rparr>"

definition put_buffer :: "nat \<Rightarrow> nat \<Rightarrow> id_slots \<Rightarrow> caracal_db \<Rightarrow> caracal_db" where
  "put_buffer b core xs db = db\<lparr>cctl := (cctl db)\<lparr>row_buffers :=
     (row_buffers (cctl db))(b := (row_buffers (cctl db) b)(core := xs))\<rparr>\<rparr>"

section \<open>Appending a pending version\<close>

definition car_terminate_transaction :: "caracal_thread \<Rightarrow> caracal_thread" where
  "car_terminate_transaction t =
     t\<lparr>cwrite_set := (\<lambda>table_id. if table_id \<in> cwritten_tables t then [] else cwrite_set t table_id),
       cwritten_tables := {}\<rparr>"

text \<open>Batch-appends one per-core buffer to the row's array, which is locked.\<close>

definition batch_append_to ::
  "u64 \<Rightarrow> nat \<Rightarrow> nat \<Rightarrow> nat \<Rightarrow> caracal_db \<Rightarrow> caracal_db res" where
  "batch_append_to epoch k b core db =
     (let a = car_global (cvalues db k)
      in ebind (batch_append (row_buffers (cctl db) b core) epoch (car_slots a) (cmem db)) (\<lambda>(xs, buf, m).
           Inr ((put_buffer b core buf (put_array k (car_unlock (a\<lparr>car_slots := xs\<rparr>)) db))\<lparr>cmem := m\<rparr>)))"

definition car_append_to_uncontended_row ::
  "caracal_thread \<Rightarrow> nat \<Rightarrow> caracal_db \<Rightarrow> (nat \<times> caracal_db) res" where
  "car_append_to_uncontended_row t k db =
     (let (pending, m1) = create_pending_version (cmem db); a = car_global (cvalues db k)
      in ebind (append_with_gc (cthr_epoch t) (cthr_serial_id t) pending (car_slots a) m1) (\<lambda>(xs, m2).
           assert_then (car_is_exist (cthr_epoch t) (cthr_serial_id t) xs)
             (Inr (pending, (put_array k (car_unlock (a\<lparr>car_slots := xs\<rparr>)) db)\<lparr>cmem := m2\<rparr>))))"

definition insert_appended :: "nat \<Rightarrow> nat \<times> nat \<Rightarrow> (nat \<times> nat \<times> nat) list \<Rightarrow> (nat \<times> nat \<times> nat) list" where
  "insert_appended k b xs = (if k \<in> fst ` set xs then xs else (k, b) # xs)"

definition car_append_to_contented_row ::
  "caracal_thread \<Rightarrow> nat \<Rightarrow> nat \<Rightarrow> caracal_db \<Rightarrow> (nat \<times> caracal_thread \<times> caracal_db) option res" where
  "car_append_to_contented_row t k b db =
     (let core = cthr_core t; (pending, m1) = create_pending_version (cmem db); db1 = db\<lparr>cmem := m1\<rparr>
      in ebind (appendable pending (cthr_epoch t) (cthr_serial_id t) (row_buffers (cctl db) b core)) (\<lambda>(ok, buf).
           let db2 = put_buffer b core buf db1
           in if ok then
                Inr (Some (pending,
                  t\<lparr>appended_core_buffers := insert_appended k (b, core) (appended_core_buffers t)\<rparr>, db2))
              else
                (case car_lock (car_global (cvalues db2 k)) of
                   None \<Rightarrow> Inr None
                 | Some a \<Rightarrow>
                     ebind (batch_append_to (cthr_epoch t) k b core (put_array k a db2)) (\<lambda>db3.
                       Inr (Some (pending, t, db3))))))"

text \<open>A compare-and-exchange of the row's buffer pointer from \<open>nullptr\<close>.\<close>

definition try_install_new_buffer :: "nat \<Rightarrow> nat option \<Rightarrow> nat \<Rightarrow> caracal_db \<Rightarrow> (bool \<times> caracal_db) res" where
  "try_install_new_buffer k cur_buffer new_buffer db =
     assert_then (cur_buffer = None)
       (case compare_exchange (row_buffer_ptr (cvalues db k)) cur_buffer (Some new_buffer) of (ok, p, _) \<Rightarrow>
          Inr (ok, db\<lparr>cvalues := (cvalues db)(k := (cvalues db k)\<lparr>row_buffer_ptr := p\<rparr>)\<rparr>))"

definition car_do_append_pending_version ::
  "caracal_thread \<Rightarrow> nat \<Rightarrow> nat \<Rightarrow> caracal_db \<Rightarrow> (nat \<times> caracal_thread \<times> caracal_db) option res" where
  "car_do_append_pending_version t k pending db =
     assert_then (pending = nullptr)
       (case row_buffer_ptr (cvalues db k) of
          Some cur_buffer \<Rightarrow> car_append_to_contented_row t k cur_buffer db
        | None \<Rightarrow>
            (case car_try_lock (car_global (cvalues db k)) of (ok, a) \<Rightarrow>
               if ok then ebind (car_append_to_uncontended_row t k (put_array k a db)) (\<lambda>(p, db').
                            Inr (Some (p, t, db')))
               else
                 ebind (case spare_buffer t of
                          Some new_buffer \<Rightarrow> Inr (new_buffer, t\<lparr>spare_buffer := None\<rparr>, db)
                        | None \<Rightarrow> ebind (fetch_new_buffer (cctl db)) (\<lambda>(new_buffer, ctl).
                                     Inr (new_buffer, t, db\<lparr>cctl := ctl\<rparr>)))
                   (\<lambda>(new_buffer, t1, db1).
                      ebind (try_install_new_buffer k None new_buffer db1) (\<lambda>(installed, db2).
                        if installed then car_append_to_contented_row t1 k new_buffer db2
                        else case row_buffer_ptr (cvalues db2 k) of
                               None \<Rightarrow> Inl NullDeref
                             | Some other_buffer \<Rightarrow>
                                 car_append_to_contented_row (t1\<lparr>spare_buffer := Some new_buffer\<rparr>) k
                                   other_buffer db2))))"

definition car_append_pending_version ::
  "(nat \<Rightarrow> nat \<Rightarrow> nat option) \<Rightarrow> nat \<Rightarrow> nat \<Rightarrow> nat \<Rightarrow> caracal_thread \<Rightarrow> caracal_db
   \<Rightarrow> (nat \<times> caracal_thread \<times> caracal_db) option res" where
  "car_append_pending_version idx table_id key pending t db =
     assert_then (0 < cthr_epoch t)
       (let t1 = t\<lparr>cwritten_tables := insert table_id (cwritten_tables t)\<rparr>
        in if key \<notin> set (cwrite_set t1 table_id) then
             (case idx table_id key of
                None \<Rightarrow> Inl AssertFailed
              | Some k \<Rightarrow>
                  ebind (car_do_append_pending_version t1 k pending db) (\<lambda>r.
                    case r of None \<Rightarrow> Inr None
                    | Some (p, t2, db2) \<Rightarrow>
                        assert_then (p \<noteq> nullptr)
                          (Inr (Some (p, t2\<lparr>cwrite_set := (cwrite_set t2)(table_id := cwrite_set t2 table_id @ [key])\<rparr>,
                                      db2)))))
           else Inl (RuntimeError ''error''))"

section \<open>Reading and writing\<close>

definition caracal_read ::
  "(nat \<Rightarrow> nat \<Rightarrow> nat option) \<Rightarrow> nat \<Rightarrow> nat \<Rightarrow> caracal_thread \<Rightarrow> caracal_db \<Rightarrow> nat option res" where
  "caracal_read idx table_id key t db =
     (case idx table_id key of
        None \<Rightarrow> Inl AssertFailed
      | Some k \<Rightarrow>
          ebind (car_search_visible_version (cthr_epoch t) (cthr_serial_id t) (car_slots (car_global (cvalues db k))))
            (\<lambda>(visible_id, visible).
               assert_then (visible \<noteq> nullptr) (wait_stable_and_execute_read visible (cmem db))))"

definition caracal_write :: "(nat \<Rightarrow> nat) \<Rightarrow> nat \<Rightarrow> nat \<Rightarrow> caracal_db \<Rightarrow> (nat \<times> caracal_db) res" where
  "caracal_write record_size table_id pending db =
     ebind (upsert (record_size table_id) pending (cmem db)) (\<lambda>(r, m). Inr (r, db\<lparr>cmem := m\<rparr>))"

section \<open>The end of the initialization phase\<close>

text \<open>
  One pass over the map of buffers: rows whose lock is taken are skipped. The result is the
  remaining map. The outer loop repeats passes until the map is empty; \<open>None\<close> says that
  \<open>fuel\<close> passes were not enough.
\<close>

fun finalize_pass :: "u64 \<Rightarrow> (nat \<times> nat \<times> nat) list \<Rightarrow> caracal_db \<Rightarrow> ((nat \<times> nat \<times> nat) list \<times> caracal_db) res" where
  "finalize_pass epoch [] db = Inr ([], db)"
| "finalize_pass epoch ((k, b, core) # rest) db =
     (case car_try_lock (car_global (cvalues db k)) of (ok, a) \<Rightarrow>
        if \<not> ok then ebind (finalize_pass epoch rest db) (\<lambda>(left, db'). Inr ((k, b, core) # left, db'))
        else ebind (batch_append_to epoch k b core (put_array k a db)) (finalize_pass epoch rest))"

fun finalize_batch_append_optimized :: "nat \<Rightarrow> caracal_thread \<Rightarrow> caracal_db \<Rightarrow> (caracal_thread \<times> caracal_db) option res" where
  "finalize_batch_append_optimized fuel t db =
     (if appended_core_buffers t = [] then Inr (Some (t, db))
      else case fuel of 0 \<Rightarrow> Inr None
           | Suc fuel' \<Rightarrow>
               ebind (finalize_pass (cthr_epoch t) (appended_core_buffers t) db) (\<lambda>(left, db').
                 finalize_batch_append_optimized fuel' (t\<lparr>appended_core_buffers := left\<rparr>) db'))"

fun finalize_all :: "u64 \<Rightarrow> (nat \<times> nat \<times> nat) list \<Rightarrow> caracal_db \<Rightarrow> caracal_db option res" where
  "finalize_all epoch [] db = Inr (Some db)"
| "finalize_all epoch ((k, b, core) # rest) db =
     (case car_lock (car_global (cvalues db k)) of
        None \<Rightarrow> Inr None
      | Some a \<Rightarrow> ebind (batch_append_to epoch k b core (put_array k a db)) (finalize_all epoch rest))"

definition finalize_batch_append_non_optimized ::
  "caracal_thread \<Rightarrow> caracal_db \<Rightarrow> (caracal_thread \<times> caracal_db) option res" where
  "finalize_batch_append_non_optimized t db =
     ebind (finalize_all (cthr_epoch t) (appended_core_buffers t) db) (\<lambda>r.
       case r of None \<Rightarrow> Inr None | Some db' \<Rightarrow> Inr (Some (t\<lparr>appended_core_buffers := []\<rparr>, db')))"

section \<open>Loading\<close>

definition car_insert_into_index :: "nat \<Rightarrow> mem \<Rightarrow> (car_value \<times> mem) res" where
  "car_insert_into_index r m =
     (let (version, m1) = new_version \<lparr>ver_rec = r, ver_status = STABLE, ver_deleted = False\<rparr> m
      in ebind (append_with_no_gc 0 version []) (\<lambda>xs.
           Inr (\<lparr>car_global = \<lparr>car_rwl = 0, car_slots = xs\<rparr>, row_buffer_ptr = None\<rparr>, m1)))"

fun car_load_all_tables :: "nat \<Rightarrow> nat \<Rightarrow> caracal_db \<Rightarrow> caracal_db res" where
  "car_load_all_tables record_size 0 db = Inr db"
| "car_load_all_tables record_size (Suc key) db =
     ebind (car_load_all_tables record_size key db) (\<lambda>db.
       let (r, m1) = new_record record_size (cmem db)
       in ebind (car_insert_into_index r m1) (\<lambda>(val, m2).
            Inr (db\<lparr>cvalues := (cvalues db)(key := val), cmem := m2\<rparr>)))"

section \<open>class MajorGC\<close>

text \<open>\<open>arrays_\<close>: epochs in ascending order with the rows collected in them.\<close>

type_synonym gc_map = "(u64 \<times> nat list) list"

definition gc_k :: u64 where
  "gc_k = 4"

definition gc_collect :: "u64 \<Rightarrow> nat \<Rightarrow> gc_map \<Rightarrow> gc_map" where
  "gc_collect cur_epoch k g =
     (case map_of g cur_epoch of
        None \<Rightarrow> insert_ascending cur_epoch [k] g
      | Some ks \<Rightarrow> map (\<lambda>(e, ks). (e, if e = cur_epoch \<and> k \<notin> set ks then k # ks else ks)) g)"

fun gc_rows :: "u64 \<Rightarrow> nat list \<Rightarrow> caracal_db \<Rightarrow> caracal_db option res" where
  "gc_rows new_epoch [] db = Inr (Some db)"
| "gc_rows new_epoch (k # ks) db =
     (case car_lock (car_global (cvalues db k)) of
        None \<Rightarrow> Inr None
      | Some a \<Rightarrow>
          ebind (car_minor_gc new_epoch (car_slots a) (cmem db)) (\<lambda>(xs, m).
            gc_rows new_epoch ks ((put_array k (car_unlock (a\<lparr>car_slots := xs\<rparr>)) db)\<lparr>cmem := m\<rparr>)))"

fun car_major_gc :: "u64 \<Rightarrow> gc_map \<Rightarrow> caracal_db \<Rightarrow> (gc_map \<times> caracal_db) option res" where
  "car_major_gc new_epoch [] db = Inr (Some ([], db))"
| "car_major_gc new_epoch ((epoch, ks) # rest) db =
     (if new_epoch - gc_k \<le> epoch then Inr (Some ((epoch, ks) # rest, db))
      else ebind (gc_rows new_epoch ks db) (\<lambda>r.
             case r of None \<Rightarrow> Inr None | Some db' \<Rightarrow> car_major_gc new_epoch rest db'))"

end
