(* ===== verification/Caracal_Epoch.thy ===== *)
theory Caracal_Epoch
  imports Caracal Row_Execution
begin

text \<open>
  Caracal's epoch on one row. In the initialization phase the workers append their pending
  versions to the row's array directly, or, once the row is contended, to their per-core buffer,
  which they append to the array in batches; any interleaving of the workers' accesses is
  allowed. The execution phase is the one of \<open>row_execution\<close>.
\<close>

section \<open>The initialization phase, one access at a time\<close>

text \<open>
  Where a worker is in \<open>do_append_pending_version\<close> (with the serial id it appends) or in
  \<open>finalize_batch_append_optimized\<close>. A step that ends in \<open>Locked\<close> holds the array's lock.
\<close>

datatype car_pc =
    CNext
  | CTryLock nat | CAppendLocked nat
  | CFetch nat | CInstall nat nat
  | CInsert nat
  | CBatch | CBatchLocked
  | CFinal | CFinalLocked
  | CEnd

record car_conf =
  crow :: car_array
  cptr :: "nat option"
  cbufs :: row_buffer_controller
  cstore :: mem
  cspare :: "nat \<Rightarrow> nat option"
  cpc :: "nat \<Rightarrow> car_pc"
  ctodo :: "nat \<Rightarrow> nat list"
  cpend :: "nat \<Rightarrow> nat option"
  cregistered :: "nat set"

text \<open>The buffer of a worker in the row buffer that is installed.\<close>

definition core_buffer :: "car_conf \<Rightarrow> nat \<Rightarrow> id_slots" where
  "core_buffer s w = (case cptr s of None \<Rightarrow> [] | Some b \<Rightarrow> row_buffers (cbufs s) b w)"

definition set_core_buffer :: "nat \<Rightarrow> nat \<Rightarrow> id_slots \<Rightarrow> car_conf \<Rightarrow> car_conf" where
  "set_core_buffer b w xs s = s\<lparr>cbufs := (cbufs s)\<lparr>row_buffers :=
     (row_buffers (cbufs s))(b := (row_buffers (cbufs s) b)(w := xs))\<rparr>\<rparr>"

text \<open>Batch-appends the worker's buffer, releases the lock and goes on at \<open>pc\<close>.\<close>

definition car_batch :: "u64 \<Rightarrow> nat \<Rightarrow> car_pc \<Rightarrow> car_conf \<Rightarrow> car_conf res" where
  "car_batch e w pc s =
     (case cptr s of None \<Rightarrow> Inl NullDeref
      | Some b \<Rightarrow>
          ebind (batch_append (core_buffer s w) e (car_slots (crow s)) (cstore s)) (\<lambda>(xs, buf, m).
            Inr ((set_core_buffer b w buf s)\<lparr>crow := car_unlock ((crow s)\<lparr>car_slots := xs\<rparr>), cstore := m,
              cpc := (cpc s)(w := pc)\<rparr>)))"

definition car_init_step :: "u64 \<Rightarrow> nat \<Rightarrow> car_conf \<Rightarrow> car_conf res" where
  "car_init_step e w s =
     (let goto = (\<lambda>pc. s\<lparr>cpc := (cpc s)(w := pc)\<rparr>) in
      case cpc s w of
        CNext \<Rightarrow>
          (case ctodo s w of
             [] \<Rightarrow> Inr (goto (if w \<in> cregistered s then CFinal else CEnd))
           | i # rest \<Rightarrow>
               Inr (s\<lparr>ctodo := (ctodo s)(w := rest),
                 cpc := (cpc s)(w := if cptr s \<noteq> None then CInsert i else CTryLock i)\<rparr>))
      | CTryLock i \<Rightarrow>
          (case car_try_lock (crow s) of (ok, a) \<Rightarrow>
             Inr (s\<lparr>crow := a, cpc := (cpc s)(w := if ok then CAppendLocked i else CFetch i)\<rparr>))
      | CAppendLocked i \<Rightarrow>
          (let (v, m1) = create_pending_version (cstore s)
           in ebind (append_with_gc e (of_nat i) v (car_slots (crow s)) m1) (\<lambda>(xs, m2).
                assert_then (car_is_exist e (of_nat i) xs)
                  (Inr (s\<lparr>crow := car_unlock ((crow s)\<lparr>car_slots := xs\<rparr>), cstore := m2,
                    cpend := (cpend s)(i \<mapsto> v), cpc := (cpc s)(w := CNext)\<rparr>))))
      | CFetch i \<Rightarrow>
          (case cspare s w of
             Some b \<Rightarrow> Inr (s\<lparr>cspare := (cspare s)(w := None), cpc := (cpc s)(w := CInstall i b)\<rparr>)
           | None \<Rightarrow> ebind (fetch_new_buffer (cbufs s)) (\<lambda>(b, c).
                        Inr (s\<lparr>cbufs := c, cpc := (cpc s)(w := CInstall i b)\<rparr>)))
      | CInstall i b \<Rightarrow>
          (case compare_exchange (cptr s) None (Some b) of (ok, p, _) \<Rightarrow>
             Inr (s\<lparr>cptr := p, cspare := (if ok then cspare s else (cspare s)(w \<mapsto> b)),
               cpc := (cpc s)(w := CInsert i)\<rparr>))
      | CInsert i \<Rightarrow>
          (case cptr s of None \<Rightarrow> Inl NullDeref
           | Some b \<Rightarrow>
               (let (v, m1) = create_pending_version (cstore s)
                in ebind (appendable v e (of_nat i) (core_buffer s w)) (\<lambda>(ok, buf).
                     Inr ((set_core_buffer b w buf s)\<lparr>cstore := m1, cpend := (cpend s)(i \<mapsto> v),
                       cregistered := (if ok then insert w (cregistered s) else cregistered s),
                       cpc := (cpc s)(w := if ok then CNext else CBatch)\<rparr>))))
      | CBatch \<Rightarrow>
          (case car_lock (crow s) of None \<Rightarrow> Inr s
           | Some a \<Rightarrow> Inr (s\<lparr>crow := a, cpc := (cpc s)(w := CBatchLocked)\<rparr>))
      | CBatchLocked \<Rightarrow> car_batch e w CNext s
      | CFinal \<Rightarrow>
          (case car_try_lock (crow s) of (ok, a) \<Rightarrow>
             Inr (if ok then s\<lparr>crow := a, cpc := (cpc s)(w := CFinalLocked)\<rparr> else s))
      | CFinalLocked \<Rightarrow>
          ebind (car_batch e w CEnd s) (\<lambda>s'. Inr (s'\<lparr>cregistered := cregistered s' - {w}\<rparr>))
      | CEnd \<Rightarrow> Inr s)"

fun car_init_run :: "u64 \<Rightarrow> nat list \<Rightarrow> car_conf \<Rightarrow> car_conf res" where
  "car_init_run e [] s = Inr s"
| "car_init_run e (w # sched) s = ebind (car_init_step e w s) (car_init_run e sched)"

definition car_init_start ::
  "car_array \<Rightarrow> nat option \<Rightarrow> row_buffer_controller \<Rightarrow> (nat \<Rightarrow> nat option) \<Rightarrow> mem \<Rightarrow> (nat \<Rightarrow> nat list) \<Rightarrow> car_conf" where
  "car_init_start a p c sp m W =
     \<lparr>crow = a, cptr = p, cbufs = c, cstore = m, cspare = sp, cpc = (\<lambda>w. if w < 64 then CNext else CEnd), ctodo = W,
      cpend = Map.empty, cregistered = {}\<rparr>"

definition car_init_done :: "car_conf \<Rightarrow> bool" where
  "car_init_done s \<longleftrightarrow> (\<forall>w < 64. cpc s w = CEnd)"

section \<open>Appends and collections keep the row's last version\<close>

abbreviation epoch_id :: "u64 \<Rightarrow> u64" where
  "epoch_id e \<equiv> convert_to_serial_id_with_epoch e 0"

text \<open>The versions of the epoch in the array.\<close>

definition epoch_part :: "u64 \<Rightarrow> id_slots \<Rightarrow> (u64 \<times> nat) set" where
  "epoch_part e xs = {p \<in> set xs. epoch_id e \<le> fst p}"

text \<open>\<open>M\<close> is the version that ended the epoch before \<open>e\<close>, and \<open>r0\<close> its record.\<close>

definition car_base :: "u64 \<Rightarrow> id_slots \<Rightarrow> mem \<Rightarrow> nat \<Rightarrow> nat \<Rightarrow> bool" where
  "car_base e xs m M r0 \<longleftrightarrow> car_wf e xs m \<and> (\<exists>i. visible_entry (car_entries xs) (unat (epoch_id e)) = Some (i, M))
     \<and> stab m M r0"

lemma car_baseD:
  assumes "car_base e xs m M r0"
  shows "mem_ok m" "car_ok xs" "ascending xs" "distinct (map snd xs)" "xs \<noteq> []" "fst (hd xs) < epoch_id e"
    "\<And>p. p \<in> set xs \<Longrightarrow> live m (snd p)" "\<And>p. p \<in> set xs \<Longrightarrow> fst p < epoch_id e \<Longrightarrow> stable m (snd p)"
    "stab m M r0" "car_wf e xs m"
  using assms by (auto simp: car_base_def car_wf_def car_ok_def)

lemma stable_not_pend: "stable m v \<Longrightarrow> \<not> pend m v"
  by (auto simp: stable_def pend_def)

lemma car_gc_keeps:
  assumes base: "car_base e xs m M r0"
  obtains zs m' where "car_minor_gc e xs m = Inr (zs, m')" "car_base e zs m' M r0" "epoch_part e zs = epoch_part e xs"
    "\<And>v. pend m v \<Longrightarrow> pend m' v" "brk m' = brk m" "set zs \<subseteq> set xs"
proof -
  let ?sid = "epoch_id e"
  obtain ys zs m' where r: "car_minor_gc e xs m = Inr (zs, m')" "xs = ys @ zs" "car_wf e zs m'"
    "vers m' = vers m |` (- (snd ` set ys))" "brk m' = brk m"
    "\<And>n. unat ?sid \<le> n \<Longrightarrow> visible_entry (car_entries zs) n = visible_entry (car_entries xs) n"
    by (rule car_minor_gc_ok [OF car_baseD(10) [OF base]]) blast
  have zs: "zs \<noteq> []" "fst (hd zs) < ?sid" "\<forall>p \<in> set zs. live m' (snd p)" using r(3) by (simp_all add: car_wf_def)
  have "fst p < fst (hd zs)" if "p \<in> set ys" for p
    using car_baseD(3) [OF base] that zs(1) by (auto simp: r(2) sorted_wrt_append)
  then have old: "fst p < ?sid" if "p \<in> set ys" for p using that zs(2) by fastforce
  have part: "epoch_part e zs = epoch_part e xs" using old by (auto simp: epoch_part_def r(2) dest: leD)
  obtain i where i: "visible_entry (car_entries zs) (unat ?sid) = Some (i, M)"
    using base r(6) [OF order_refl] by (auto simp: car_base_def)
  then have "M \<in> snd ` set zs"
    unfolding visible_entry_Some by (auto simp: car_entries_def split: if_splits dest!: map_of_SomeD intro: rev_image_eqI)
  then have "vers m' M \<noteq> None" using zs(3) by (auto simp: live_def)
  then have "stab m' M r0" using car_baseD(9) [OF base] by (auto simp: r(4) stab_def restrict_map_def split: if_splits)
  moreover have "pend m' v" if "pend m v" for v
  proof -
    have "v \<notin> snd ` set ys" using that car_baseD(8) [OF base] old stable_not_pend by (fastforce simp: r(2))
    then show ?thesis using that by (auto simp: r(4) pend_def restrict_map_def)
  qed
  ultimately show ?thesis using that [OF r(1) _ part _ r(5)] r(2,3) i by (auto simp: car_base_def)
qed

lemma car_append_keeps:
  assumes base: "car_base e xs m M r0" and g: "epoch_id e \<le> g" "g \<notin> fst ` set xs" and v: "pend m v" "v \<noteq> nullptr" "v \<notin> snd ` set xs"
  shows "append_with_no_gc g v xs = Inr (insert_ascending g v xs)" "car_base e (insert_ascending g v xs) m M r0"
    "epoch_part e (insert_ascending g v xs) = insert (g, v) (epoch_part e xs)"
proof -
  note b = car_baseD [OF base]
  note a = append_with_no_gc_ok [OF b(2) v(2) g(2)]
  show "append_with_no_gc g v xs = Inr (insert_ascending g v xs)" by (rule a(1))
  show "epoch_part e (insert_ascending g v xs) = insert (g, v) (epoch_part e xs)" using g(1) by (auto simp: epoch_part_def)
  have hd: "fst (hd (insert_ascending g v xs)) < epoch_id e" using b(5,6) g(1) by (cases xs) auto
  have "distinct (map snd (insert_ascending g v xs))"
    using b(4) v(3) by (simp add: distinct_insert_ascending)
  moreover have "live m v" using v by (auto simp: live_def pend_def)
  ultimately have "car_wf e (insert_ascending g v xs) m"
    using b hd a(2) g(1) by (auto simp: car_wf_def dest: leD)
  moreover have "\<exists>i. visible_entry (car_entries (insert_ascending g v xs)) (unat (epoch_id e)) = Some (i, M)"
    using base g(1) by (simp add: a(3) visible_entry_upd_ge word_le_nat_alt car_base_def)
  ultimately show "car_base e (insert_ascending g v xs) m M r0" using b(9) by (simp add: car_base_def)
qed

lemma car_append_all_keeps:
  assumes "car_base e xs m M r0" and "distinct (map fst buf)" and "distinct (map snd buf)"
    and "\<forall>p \<in> set buf. epoch_id e \<le> fst p \<and> fst p \<notin> fst ` set xs \<and> pend m (snd p) \<and> snd p \<noteq> nullptr \<and> snd p \<notin> snd ` set xs"
  shows "\<exists>xs'. append_all_no_gc buf xs = Inr xs' \<and> car_base e xs' m M r0 \<and> epoch_part e xs' = epoch_part e xs \<union> set buf
    \<and> set xs' = set xs \<union> set buf"
  using assms
proof (induction buf arbitrary: xs)
  case (Cons p buf)
  obtain g v where p: "p = (g, v)" by fastforce
  note a = car_append_keeps [OF Cons.prems(1), of g v]
  have g: "epoch_id e \<le> g" "g \<notin> fst ` set xs" "pend m v" "v \<noteq> nullptr" "v \<notin> snd ` set xs" using Cons.prems(4) by (auto simp: p)
  have "\<forall>q \<in> set buf. epoch_id e \<le> fst q \<and> fst q \<notin> fst ` set (insert_ascending g v xs) \<and> pend m (snd q) \<and> snd q \<noteq> nullptr
      \<and> snd q \<notin> snd ` set (insert_ascending g v xs)"
    using Cons.prems(2-4) by (auto simp: p)
  from Cons.IH [OF a(2) [OF g] _ _ this] Cons.prems(2,3) obtain xs' where
    "append_all_no_gc buf (insert_ascending g v xs) = Inr xs'" "car_base e xs' m M r0"
    "epoch_part e xs' = epoch_part e (insert_ascending g v xs) \<union> set buf" "set xs' = set (insert_ascending g v xs) \<union> set buf" by (auto simp: p)
  with a [OF g] show ?case by (auto simp: p)
qed simp

section \<open>The invariant of the initialization phase\<close>

definition gid :: "u64 \<Rightarrow> nat \<Rightarrow> u64" where
  "gid e i = convert_to_serial_id_with_epoch e (of_nat i)"

lemma gid_facts:
  assumes "e < 2 ^ 32" and "i < 4096"
  shows "unat (gid e i) = unat e * 2 ^ 32 + i" "epoch_id e \<le> gid e i" "get_epoch (gid e i) = e"
proof -
  have i: "(of_nat i :: u64) < 2 ^ 32" using assms(2) by (simp add: word_less_nat_alt)
  have "unat (of_nat i :: u64) = i" using assms(2) by simp
  then show u: "unat (gid e i) = unat e * 2 ^ 32 + i" using unat_convert [OF assms(1) i] by (simp add: gid_def)
  show "epoch_id e \<le> gid e i" using u unat_convert [OF assms(1), of 0] by (simp add: word_le_nat_alt)
  show "get_epoch (gid e i) = e" by (simp add: gid_def convert_roundtrip [OF assms(1) i])
qed

lemma gid_inject: "e < 2 ^ 32 \<Longrightarrow> i < 4096 \<Longrightarrow> j < 4096 \<Longrightarrow> gid e i = gid e j \<longleftrightarrow> i = j"
  using gid_facts(1) [of e i] gid_facts(1) [of e j] by (metis add_left_cancel)

text \<open>Every pending version is in the array or in exactly one per-core buffer.\<close>

definition car_data ::
  "u64 \<Rightarrow> nat \<Rightarrow> nat \<Rightarrow> id_slots \<Rightarrow> mem \<Rightarrow> (nat \<Rightarrow> nat option) \<Rightarrow> (nat \<Rightarrow> id_slots) \<Rightarrow> bool" where
  "car_data e M r0 xs m pnd buf \<longleftrightarrow> car_base e xs m M r0
     \<and> epoch_part e xs \<union> (\<Union>w. set (buf w)) = {(gid e i, v) |i v. pnd i = Some v}
     \<and> (\<forall>w. distinct (map fst (buf w)) \<and> fst ` set (buf w) \<inter> fst ` set xs = {})
     \<and> (\<forall>w u. w \<noteq> u \<longrightarrow> fst ` set (buf w) \<inter> fst ` set (buf u) = {})
     \<and> (\<forall>i v. pnd i = Some v \<longrightarrow> i < 4096 \<and> pend m v \<and> v \<noteq> nullptr)
     \<and> (\<forall>i j v. pnd i = Some v \<longrightarrow> pnd j = Some v \<longrightarrow> i = j)"

fun in_flight :: "car_pc \<Rightarrow> nat list" where
  "in_flight (CTryLock i) = [i]"
| "in_flight (CAppendLocked i) = [i]"
| "in_flight (CFetch i) = [i]"
| "in_flight (CInstall i b) = [i]"
| "in_flight (CInsert i) = [i]"
| "in_flight _ = []"

fun locked_pc :: "car_pc \<Rightarrow> bool" where
  "locked_pc (CAppendLocked i) = True"
| "locked_pc CBatchLocked = True"
| "locked_pc CFinalLocked = True"
| "locked_pc _ = False"

fun installing :: "car_pc \<Rightarrow> nat option" where
  "installing (CInstall i b) = Some b"
| "installing _ = None"

fun before_fetch :: "car_pc \<Rightarrow> bool" where
  "before_fetch (CTryLock i) = True"
| "before_fetch (CFetch i) = True"
| "before_fetch _ = False"

abbreviation full_pc :: "car_pc \<Rightarrow> bool" where
  "full_pc pc \<equiv> pc = CBatch \<or> pc = CBatchLocked"

abbreviation final_pc :: "car_pc \<Rightarrow> bool" where
  "final_pc pc \<equiv> pc = CFinal \<or> pc = CFinalLocked"

definition remaining :: "(nat \<Rightarrow> car_pc) \<Rightarrow> (nat \<Rightarrow> nat list) \<Rightarrow> nat \<Rightarrow> nat list" where
  "remaining pcs todo w = in_flight (pcs w) @ todo w"

text \<open>Who has appended what.\<close>

definition car_todo :: "(nat \<Rightarrow> nat list) \<Rightarrow> (nat \<Rightarrow> car_pc) \<Rightarrow> (nat \<Rightarrow> nat list) \<Rightarrow> (nat \<Rightarrow> nat option) \<Rightarrow> bool" where
  "car_todo W pcs todo pnd \<longleftrightarrow> (\<forall>w. \<exists>d. W w = d @ remaining pcs todo w)
     \<and> dom pnd = (\<Union>w. set (W w) - set (remaining pcs todo w))
     \<and> (\<forall>w. (final_pc (pcs w) \<or> pcs w = CEnd) \<longrightarrow> todo w = [])"

definition car_locks :: "int \<Rightarrow> (nat \<Rightarrow> car_pc) \<Rightarrow> bool" where
  "car_locks cnt pcs \<longleftrightarrow> cnt = (if \<exists>w. locked_pc (pcs w) then - 1 else 0)
     \<and> (\<forall>w u. locked_pc (pcs w) \<longrightarrow> locked_pc (pcs u) \<longrightarrow> w = u)"

definition held :: "(nat \<Rightarrow> nat option) \<Rightarrow> (nat \<Rightarrow> car_pc) \<Rightarrow> nat \<Rightarrow> nat option" where
  "held sp pcs w = (case installing (pcs w) of Some b \<Rightarrow> Some b | None \<Rightarrow> sp w)"

text \<open>
  Row buffers that are not installed are empty and held by one worker at most; a worker that may
  still have to fetch one finds one.
\<close>

definition car_pool ::
  "nat option \<Rightarrow> row_buffer_controller \<Rightarrow> (nat \<Rightarrow> nat option) \<Rightarrow> (nat \<Rightarrow> car_pc) \<Rightarrow> bool" where
  "car_pool p c sp pcs \<longleftrightarrow>
     (\<forall>b w. used_buffers c \<le> b \<longrightarrow> row_buffers c b w = [])
     \<and> (\<forall>w b. held sp pcs w = Some b \<longrightarrow> b < used_buffers c \<and> p \<noteq> Some b \<and> (\<forall>u. row_buffers c b u = []))
     \<and> (\<forall>w u b. held sp pcs w = Some b \<longrightarrow> held sp pcs u = Some b \<longrightarrow> w = u)
     \<and> (\<forall>w. installing (pcs w) \<noteq> None \<longrightarrow> sp w = None)
     \<and> (\<forall>b. p = Some b \<longrightarrow> b < used_buffers c)
     \<and> used_buffers c + card {w. w < 64 \<and> held sp pcs w = None \<and> (p = None \<or> before_fetch (pcs w))} \<le> NUM_BUFFERS"

text \<open>What is in the workers' buffers, and which of them their map of buffers knows.\<close>

definition worker_fill :: "bool \<Rightarrow> id_slots \<Rightarrow> car_pc \<Rightarrow> bool \<Rightarrow> bool" where
  "worker_fill installed b pc registered \<longleftrightarrow> length b \<le> (if full_pc pc then 4 else 3)
     \<and> (b \<noteq> [] \<longrightarrow> registered \<or> full_pc pc)
     \<and> (registered \<or> full_pc pc \<or> (\<exists>i. pc = CInsert i) \<longrightarrow> installed)
     \<and> (final_pc pc \<longrightarrow> registered) \<and> (pc = CEnd \<longrightarrow> \<not> registered)"

definition car_fill :: "nat option \<Rightarrow> (nat \<Rightarrow> id_slots) \<Rightarrow> (nat \<Rightarrow> car_pc) \<Rightarrow> nat set \<Rightarrow> bool" where
  "car_fill p buf pcs reg \<longleftrightarrow> (\<forall>w. worker_fill (p \<noteq> None) (buf w) (pcs w) (w \<in> reg))"

definition car_inv :: "u64 \<Rightarrow> nat \<Rightarrow> nat \<Rightarrow> (nat \<Rightarrow> nat list) \<Rightarrow> car_conf \<Rightarrow> bool" where
  "car_inv e M r0 W s \<longleftrightarrow> car_data e M r0 (car_slots (crow s)) (cstore s) (cpend s) (core_buffer s)
     \<and> car_todo W (cpc s) (ctodo s) (cpend s) \<and> car_locks (car_rwl (crow s)) (cpc s)
     \<and> car_pool (cptr s) (cbufs s) (cspare s) (cpc s) \<and> car_fill (cptr s) (core_buffer s) (cpc s) (cregistered s)"

definition car_writes_ok :: "(nat \<Rightarrow> nat list) \<Rightarrow> bool" where
  "car_writes_ok W \<longleftrightarrow> (\<forall>w. distinct (W w) \<and> set (W w) \<subseteq> {..<4096}) \<and> (\<forall>w \<ge> 64. W w = [])
     \<and> (\<forall>w u. w \<noteq> u \<longrightarrow> set (W w) \<inter> set (W u) = {})"

lemma car_invD:
  assumes "car_inv e M r0 W s"
  shows "car_data e M r0 (car_slots (crow s)) (cstore s) (cpend s) (core_buffer s)"
    "car_todo W (cpc s) (ctodo s) (cpend s)" "car_locks (car_rwl (crow s)) (cpc s)"
    "car_pool (cptr s) (cbufs s) (cspare s) (cpc s)" "car_fill (cptr s) (core_buffer s) (cpc s) (cregistered s)"
  using assms unfolding car_inv_def by auto

section \<open>Each part under the steps\<close>

lemma car_dataD:
  assumes "car_data e M r0 xs m pnd buf"
  shows "car_base e xs m M r0" "epoch_part e xs \<union> (\<Union>w. set (buf w)) = {(gid e i, v) |i v. pnd i = Some v}"
    "distinct (map fst (buf w))" "fst ` set (buf w) \<inter> fst ` set xs = {}"
    "w \<noteq> u \<Longrightarrow> fst ` set (buf w) \<inter> fst ` set (buf u) = {}"
    "pnd i = Some v \<Longrightarrow> i < 4096 \<and> pend m v \<and> v \<noteq> nullptr" "pnd i = Some v \<Longrightarrow> pnd j = Some v \<Longrightarrow> i = j"
  using assms unfolding car_data_def by (elim conjE, (assumption | simp))+

lemma car_dataI:
  assumes "car_base e xs m M r0" "epoch_part e xs \<union> (\<Union>w. set (buf w)) = {(gid e i, v) |i v. pnd i = Some v}"
    "\<And>w. distinct (map fst (buf w))" "\<And>w. fst ` set (buf w) \<inter> fst ` set xs = {}"
    "\<And>w u. w \<noteq> u \<Longrightarrow> fst ` set (buf w) \<inter> fst ` set (buf u) = {}"
    "\<And>i v. pnd i = Some v \<Longrightarrow> i < 4096 \<and> pend m v \<and> v \<noteq> nullptr"
    "\<And>i j v. pnd i = Some v \<Longrightarrow> pnd j = Some v \<Longrightarrow> i = j"
  shows "car_data e M r0 xs m pnd buf"
  using assms by (simp add: car_data_def)

lemma car_data_version:
  assumes "car_data e M r0 xs m pnd buf" and "p \<in> epoch_part e xs \<or> p \<in> set (buf w)"
  obtains i where "pnd i = Some (snd p)" "fst p = gid e i" "i < 4096"
proof -
  have "p \<in> {(gid e i, v) |i v. pnd i = Some v}" using assms(2) car_dataD(2) [OF assms(1)] by blast
  then obtain i where "pnd i = Some (snd p)" "fst p = gid e i" by auto
  with that car_dataD(6) [OF assms(1)] show ?thesis by blast
qed

lemma car_data_fresh:
  assumes d: "car_data e M r0 xs m pnd buf" and e: "e < 2 ^ 32" and i: "i \<notin> dom pnd" "i < 4096"
  shows "gid e i \<notin> fst ` set xs" "gid e i \<notin> fst ` set (buf w)"
proof -
  have no: "fst p \<noteq> gid e i" if "p \<in> epoch_part e xs \<or> p \<in> set (buf w)" for p
    by (rule car_data_version [OF d that]) (use i gid_inject [OF e] in auto)
  then show "gid e i \<notin> fst ` set (buf w)" by force
  show "gid e i \<notin> fst ` set xs"
  proof
    assume "gid e i \<in> fst ` set xs"
    then obtain p where "p \<in> set xs" "fst p = gid e i" by auto
    moreover from this have "p \<in> epoch_part e xs" using gid_facts(2) [OF e i(2)] by (simp add: epoch_part_def)
    ultimately show False using no by blast
  qed
qed

text \<open>The versions of a buffer are fit to be appended to the array.\<close>

lemma car_data_buffer:
  assumes d: "car_data e M r0 xs m pnd buf" and e: "e < 2 ^ 32"
  shows "distinct (map snd (buf w))"
    "\<forall>p \<in> set (buf w). epoch_id e \<le> fst p \<and> fst p \<notin> fst ` set xs \<and> pend m (snd p) \<and> snd p \<noteq> nullptr \<and> snd p \<notin> snd ` set xs"
proof -
  have same: "fst p = fst q" if pq: "p \<in> epoch_part e xs \<or> p \<in> set (buf w)" "q \<in> epoch_part e xs \<or> q \<in> set (buf w)" "snd p = snd q" for p q
  proof -
    obtain i where i: "pnd i = Some (snd p)" "fst p = gid e i" by (rule car_data_version [OF d pq(1)])
    obtain j where j: "pnd j = Some (snd q)" "fst q = gid e j" by (rule car_data_version [OF d pq(2)])
    show ?thesis using car_dataD(7) [OF d i(1), of j] i(2) j pq(3) by simp
  qed
  show "distinct (map snd (buf w))"
    using car_dataD(3) [OF d, of w] same by (fastforce simp: distinct_map inj_on_def intro: prod_eqI)
  show "\<forall>p \<in> set (buf w). epoch_id e \<le> fst p \<and> fst p \<notin> fst ` set xs \<and> pend m (snd p) \<and> snd p \<noteq> nullptr \<and> snd p \<notin> snd ` set xs"
  proof
    fix p assume p: "p \<in> set (buf w)"
    then obtain i where i: "pnd i = Some (snd p)" "fst p = gid e i" "i < 4096" using car_data_version [OF d] by blast
    have pd: "pend m (snd p)" "snd p \<noteq> nullptr" using car_dataD(6) [OF d i(1)] by auto
    have nf: "fst p \<notin> fst ` set xs" using car_dataD(4) [OF d, of w] p by blast
    have "snd p \<noteq> snd q" if q: "q \<in> set xs" for q
    proof (cases "fst q < epoch_id e")
      case True
      then show ?thesis using car_baseD(8) [OF car_dataD(1) [OF d] q] stable_not_pend pd(1) by auto
    next
      case False
      then have "q \<in> epoch_part e xs" using q by (simp add: epoch_part_def)
      then show ?thesis using same [of p q] p nf q by auto
    qed
    then show "epoch_id e \<le> fst p \<and> fst p \<notin> fst ` set xs \<and> pend m (snd p) \<and> snd p \<noteq> nullptr \<and> snd p \<notin> snd ` set xs"
      using gid_facts(2) [OF e i(3)] i(2) nf pd by auto
  qed
qed

lemma car_data_create:
  assumes d: "car_data e M r0 xs m pnd buf" and c: "create_pending_version m = (v, m1)"
  shows "car_data e M r0 xs m1 pnd buf" "pend m1 v" "v \<noteq> nullptr" "v \<notin> snd ` set xs" "v \<notin> ran pnd"
proof -
  note b = car_baseD [OF car_dataD(1) [OF d]]
  have m1: "v = brk m" "mem_ok m1" "vers m1 = (vers m)(v \<mapsto> \<lparr>ver_rec = nullptr, ver_status = PENDING, ver_deleted = False\<rparr>)"
    using create_pending_version_ok [OF b(1) c] by auto
  have fresh: "vers m v = None" using mem_ok_fresh [OF b(1)] m1(1) by simp
  show "pend m1 v" by (simp add: m1(3) pend_def)
  show "v \<noteq> nullptr" using mem_okD(1) [OF b(1)] m1(1) by simp
  show nx: "v \<notin> snd ` set xs" using b(7) fresh by (fastforce simp: live_def)
  have np: "pend m1 u" "u \<noteq> v" if "pend m u" for u using that fresh by (auto simp: m1(3) pend_def)
  show "v \<notin> ran pnd" using car_dataD(6) [OF d] np(2) by (auto simp: ran_def)
  have st: "stable m1 u" if "stable m u" for u using that fresh by (auto simp: m1(3) stable_def)
  have "live m1 u" if "live m u" for u using that by (simp add: live_def m1(3))
  moreover have "stab m1 M r0" using b(9) fresh by (auto simp: m1(3) stab_def)
  ultimately have "car_base e xs m1 M r0"
    using car_dataD(1) [OF d] m1(2) st by (auto simp: car_base_def car_wf_def)
  then show "car_data e M r0 xs m1 pnd buf"
    by (rule car_dataI) (use car_dataD(2-7) [OF d] np(1) in auto)
qed

lemma car_data_gc:
  assumes d: "car_data e M r0 xs m pnd buf"
  obtains zs m' where "car_minor_gc e xs m = Inr (zs, m')" "car_data e M r0 zs m' pnd buf" "set zs \<subseteq> set xs" "\<And>v. pend m v \<Longrightarrow> pend m' v"
proof -
  obtain zs m' where r: "car_minor_gc e xs m = Inr (zs, m')" "car_base e zs m' M r0" "epoch_part e zs = epoch_part e xs"
    "\<And>v. pend m v \<Longrightarrow> pend m' v" "set zs \<subseteq> set xs"
    by (rule car_gc_keeps [OF car_dataD(1) [OF d]]) blast
  have "fst ` set (buf w) \<inter> fst ` set zs = {}" for w using car_dataD(4) [OF d, of w] r(5) by blast
  then have "car_data e M r0 zs m' pnd buf"
    using r(2-4) car_dataD(2,3,5,6,7) [OF d] by (intro car_dataI) simp_all
  then show ?thesis using that r by blast
qed

lemma pend_set_upd: "i \<notin> dom pnd \<Longrightarrow> {(gid e j, u) |j u. (pnd(i \<mapsto> v)) j = Some u} = insert (gid e i, v) {(gid e j, u) |j u. pnd j = Some u}"
  by (auto split: if_splits)

lemma car_data_append:
  assumes d: "car_data e M r0 xs m pnd buf" and e: "e < 2 ^ 32" and i: "i \<notin> dom pnd" "i < 4096"
    and v: "pend m v" "v \<noteq> nullptr" "v \<notin> snd ` set xs" "v \<notin> ran pnd"
  shows "append_with_no_gc (gid e i) v xs = Inr (insert_ascending (gid e i) v xs)"
    "car_data e M r0 (insert_ascending (gid e i) v xs) m (pnd(i \<mapsto> v)) buf"
proof -
  note f = car_data_fresh [OF d e i] and a = car_append_keeps [OF car_dataD(1) [OF d] gid_facts(2) [OF e i(2)] car_data_fresh(1) [OF d e i] v(1-3)]
  show "append_with_no_gc (gid e i) v xs = Inr (insert_ascending (gid e i) v xs)" by (rule a(1))
  have eq: "epoch_part e (insert_ascending (gid e i) v xs) \<union> (\<Union>w. set (buf w)) = {(gid e j, u) |j u. (pnd(i \<mapsto> v)) j = Some u}"
    unfolding pend_set_upd [OF i(1)] a(3) using car_dataD(2) [OF d] by simp
  have dj: "fst ` set (buf w) \<inter> fst ` set (insert_ascending (gid e i) v xs) = {}" for w
    using car_dataD(4) [OF d, of w] f(2) [of w] by auto
  have pv: "j < 4096 \<and> pend m u \<and> u \<noteq> nullptr" if "(pnd(i \<mapsto> v)) j = Some u" for j u
    using that car_dataD(6) [OF d, of j u] v i(2) by (auto split: if_splits)
  have ij: "j = k" if "(pnd(i \<mapsto> v)) j = Some u" "(pnd(i \<mapsto> v)) k = Some u" for j k u
    using that car_dataD(7) [OF d, of j u k] v(4) by (auto simp: ran_def split: if_splits)
  show "car_data e M r0 (insert_ascending (gid e i) v xs) m (pnd(i \<mapsto> v)) buf"
    by (rule car_dataI [OF a(2) eq car_dataD(3) [OF d] dj car_dataD(5) [OF d] pv ij])
qed

lemma car_data_append_with_gc:
  assumes d: "car_data e M r0 xs m pnd buf" and e: "e < 2 ^ 32" and i: "i \<notin> dom pnd" "i < 4096"
    and c: "create_pending_version m = (v, m1)"
  shows "\<exists>xs' m2. append_with_gc e (of_nat i) v xs m1 = Inr (xs', m2) \<and> car_is_exist e (of_nat i) xs'
    \<and> car_data e M r0 xs' m2 (pnd(i \<mapsto> v)) buf"
proof -
  note d1 = car_data_create [OF d c]
  obtain zs m2 where g: "car_minor_gc e xs m1 = Inr (zs, m2)" "car_data e M r0 zs m2 pnd buf" "set zs \<subseteq> set xs" "pend m2 v"
    using car_data_gc [OF d1(1)] d1(2) by metis
  have "v \<notin> snd ` set zs" using d1(4) g(3) by auto
  note a = car_data_append [OF g(2) e i g(4) d1(3) this d1(5)]
  have "car_is_exist e (of_nat i) (insert_ascending (gid e i) v zs)"
    by (auto simp: car_is_exist_def find_None_iff gid_def)
  with a g(1) d1(3) show ?thesis by (simp add: append_with_gc_def gid_def)
qed

lemma car_data_insert:
  assumes d: "car_data e M r0 xs m pnd buf" and e: "e < 2 ^ 32" and i: "i \<notin> dom pnd" "i < 4096"
    and c: "create_pending_version m = (v, m1)" and len: "length (buf w) < 4"
  defines "b' \<equiv> insert_ascending (gid e i) v (buf w)"
  shows "appendable v e (of_nat i) (buf w) = Inr (length (buf w) < 3, b')"
    "car_data e M r0 xs m1 (pnd(i \<mapsto> v)) (buf(w := b'))"
proof -
  note d1 = car_data_create [OF d c] and f = car_data_fresh [OF d e i]
  show "appendable v e (of_nat i) (buf w) = Inr (length (buf w) < 3, b')"
    using d1(3) len by (auto simp: appendable_def MAX_SLOTS_OF_PER_CORE_BUFFER_def b'_def gid_def Let_def guard_def)
  have dist: "distinct (map fst b')"
    using car_dataD(3) [OF d, of w] f(2) [of w] by (simp add: b'_def distinct_insert_ascending)
  have "epoch_part e xs \<union> (\<Union>u. set ((buf(w := b')) u)) = insert (gid e i, v) (epoch_part e xs \<union> (\<Union>u. set (buf u)))"
    by (auto simp: b'_def split: if_splits)
  then have eq: "epoch_part e xs \<union> (\<Union>u. set ((buf(w := b')) u)) = {(gid e j, u) |j u. (pnd(i \<mapsto> v)) j = Some u}"
    unfolding pend_set_upd [OF i(1)] car_dataD(2) [OF d] .
  have ds: "distinct (map fst ((buf(w := b')) u))" for u using dist car_dataD(3) [OF d] by simp
  have dj: "fst ` set ((buf(w := b')) u) \<inter> fst ` set xs = {}" for u
    using car_dataD(4) [OF d, of u] f(1) by (cases "u = w") (simp_all add: b'_def)
  have dd: "fst ` set ((buf(w := b')) u) \<inter> fst ` set ((buf(w := b')) u') = {}" if "u \<noteq> u'" for u u'
  proof -
    have sb: "fst ` set ((buf(w := b')) x) = (if x = w then insert (gid e i) (fst ` set (buf w)) else fst ` set (buf x))" for x
      by (simp add: b'_def)
    show ?thesis unfolding sb using that car_dataD(5) [OF d that] f(2) [of u] f(2) [of u'] by auto
  qed
  have pv: "j < 4096 \<and> pend m1 u \<and> u \<noteq> nullptr" if "(pnd(i \<mapsto> v)) j = Some u" for j u
    using that car_dataD(6) [OF d1(1), of j u] d1(2,3) i(2) by (auto split: if_splits)
  have ij: "j = k" if "(pnd(i \<mapsto> v)) j = Some u" "(pnd(i \<mapsto> v)) k = Some u" for j k u
    using that car_dataD(7) [OF d, of j u k] d1(5) by (auto simp: ran_def split: if_splits)
  show "car_data e M r0 xs m1 (pnd(i \<mapsto> v)) (buf(w := b'))"
    by (rule car_dataI [OF car_dataD(1) [OF d1(1)] eq ds dj dd pv ij])
qed

lemma car_data_batch:
  assumes d: "car_data e M r0 xs m pnd buf" and e: "e < 2 ^ 32"
  shows "\<exists>xs' m'. batch_append (buf w) e xs m = Inr (xs', [], m') \<and> car_data e M r0 xs' m' pnd (buf(w := []))"
proof -
  obtain zs m' where g: "car_minor_gc e xs m = Inr (zs, m')" "car_data e M r0 zs m' pnd buf"
    by (rule car_data_gc [OF d]) blast
  obtain xs' where a: "append_all_no_gc (buf w) zs = Inr xs'" "car_base e xs' m' M r0"
    "epoch_part e xs' = epoch_part e zs \<union> set (buf w)" "set xs' = set zs \<union> set (buf w)"
    using car_append_all_keeps [OF car_dataD(1) [OF g(2)] car_dataD(3) [OF g(2), of w] car_data_buffer [OF g(2) e, of w]] by blast
  have "epoch_part e xs' \<union> (\<Union>u. set ((buf(w := [])) u)) = epoch_part e zs \<union> (\<Union>u. set (buf u))"
    by (auto simp: a(3) split: if_splits)
  then have eq: "epoch_part e xs' \<union> (\<Union>u. set ((buf(w := [])) u)) = {(gid e i, v) |i v. pnd i = Some v}"
    unfolding car_dataD(2) [OF g(2)] .
  have dj: "fst ` set ((buf(w := [])) u) \<inter> fst ` set xs' = {}" for u
    using car_dataD(4) [OF g(2), of u] car_dataD(5) [OF g(2), of u w] by (cases "u = w") (auto simp: a(4) image_Un Int_Un_distrib)
  have ds: "distinct (map fst ((buf(w := [])) u))" for u using car_dataD(3) [OF g(2)] by simp
  have dd: "fst ` set ((buf(w := [])) u) \<inter> fst ` set ((buf(w := [])) u') = {}" if "u \<noteq> u'" for u u'
    using car_dataD(5) [OF g(2) that] by auto
  have "car_data e M r0 xs' m' pnd (buf(w := []))"
    by (rule car_dataI [OF a(2) eq ds dj dd car_dataD(6,7) [OF g(2)]])
  with g(1) a(1) show ?thesis by (simp add: batch_append_def)
qed

lemma car_todo_same:
  assumes t: "car_todo W pcs todo pnd" and "in_flight pc @ rest = remaining pcs todo w" "final_pc pc \<or> pc = CEnd \<Longrightarrow> rest = []"
  shows "car_todo W (pcs(w := pc)) (todo(w := rest)) pnd"
proof -
  have r: "remaining (pcs(w := pc)) (todo(w := rest)) = remaining pcs todo"
    using assms(2) by (auto simp: remaining_def fun_eq_iff)
  show ?thesis unfolding car_todo_def r using t assms(3) by (auto simp: car_todo_def)
qed

lemma car_todo_goto:
  assumes "car_todo W pcs todo pnd" and "in_flight pc = in_flight (pcs w)" and "final_pc pc \<or> pc = CEnd \<Longrightarrow> todo w = []"
  shows "car_todo W (pcs(w := pc)) todo pnd"
  using car_todo_same [OF assms(1), of pc "todo w" w] assms(2,3) by (simp add: remaining_def)

lemma car_todo_done:
  assumes W: "car_writes_ok W" and t: "car_todo W pcs todo pnd" and i: "in_flight (pcs w) = [i]"
    and pc: "in_flight pc = []" "\<not> final_pc pc" "pc \<noteq> CEnd"
  shows "i \<notin> dom pnd" "i < 4096" "car_todo W (pcs(w := pc)) todo (pnd(i \<mapsto> v))"
proof -
  have rem: "remaining pcs todo w = i # todo w" using i by (simp add: remaining_def)
  have "\<exists>d. W w = d @ remaining pcs todo w" using t by (simp add: car_todo_def)
  then obtain d where d: "W w = d @ i # todo w" unfolding rem by blast
  have dW: "distinct (W w)" "set (W w) \<subseteq> {..<4096}" using W by (auto simp: car_writes_ok_def)
  have iW: "i \<in> set (W w)" by (simp add: d)
  then show "i < 4096" using dW(2) by auto
  have other: "i \<notin> set (W u)" if "u \<noteq> w" for u using W iW that unfolding car_writes_ok_def by (metis disjoint_iff)
  have dom: "dom pnd = (\<Union>u. set (W u) - set (remaining pcs todo u))" using t by (simp add: car_todo_def)
  show "i \<notin> dom pnd"
  proof
    assume "i \<in> dom pnd"
    then obtain u where u: "i \<in> set (W u)" "i \<notin> set (remaining pcs todo u)" unfolding dom by blast
    then show False using other [of u] rem by (cases "u = w") simp_all
  qed
  let ?r = "remaining (pcs(w := pc)) todo"
  have r: "?r u = (if u = w then todo w else remaining pcs todo u)" for u using pc(1) by (simp add: remaining_def)
  have "(\<Union>u. set (W u) - set (?r u)) = insert i (dom pnd)"
  proof -
    have "set (W w) - set (todo w) = insert i (set (W w) - set (i # todo w))" using dW(1) iW by (auto simp: d)
    then have "set (W u) - set (?r u) = (if u = w then insert i (set (W u) - set (remaining pcs todo u)) else set (W u) - set (remaining pcs todo u))" for u
      by (simp add: r rem)
    then show ?thesis unfolding dom by (auto split: if_splits)
  qed
  moreover have "\<exists>d. W u = d @ ?r u" for u
    using t d unfolding r car_todo_def by (cases "u = w") (auto intro: exI [of _ "d @ [i]"])
  ultimately show "car_todo W (pcs(w := pc)) todo (pnd(i \<mapsto> v))"
    using t pc(2,3) by (auto simp: car_todo_def)
qed

lemma car_locks_same: "car_locks cnt pcs \<Longrightarrow> locked_pc pc = locked_pc (pcs w) \<Longrightarrow> car_locks cnt (pcs(w := pc))"
proof -
  assume "car_locks cnt pcs" "locked_pc pc = locked_pc (pcs w)"
  moreover from this(2) have "locked_pc ((pcs(w := pc)) u) = locked_pc (pcs u)" for u by simp
  ultimately show ?thesis unfolding car_locks_def by presburger
qed

lemma car_locks_take: "car_locks 0 pcs \<Longrightarrow> locked_pc pc \<Longrightarrow> car_locks (- 1) (pcs(w := pc))"
  by (auto simp: car_locks_def split: if_splits)

lemma car_locks_drop:
  "car_locks cnt pcs \<Longrightarrow> locked_pc (pcs w) \<Longrightarrow> \<not> locked_pc pc \<Longrightarrow> cnt = - 1 \<and> car_locks 0 (pcs(w := pc))"
  by (auto simp: car_locks_def split: if_splits)

lemma car_poolD:
  assumes "car_pool p c sp pcs"
  shows "used_buffers c \<le> b \<Longrightarrow> row_buffers c b w = []"
    "held sp pcs w = Some b \<Longrightarrow> b < used_buffers c \<and> p \<noteq> Some b \<and> (\<forall>u. row_buffers c b u = [])"
    "held sp pcs w = Some b \<Longrightarrow> held sp pcs u = Some b \<Longrightarrow> w = u"
    "installing (pcs w) \<noteq> None \<Longrightarrow> sp w = None" "p = Some b \<Longrightarrow> b < used_buffers c"
    "used_buffers c + card {w. w < 64 \<and> held sp pcs w = None \<and> (p = None \<or> before_fetch (pcs w))} \<le> NUM_BUFFERS"
  using assms unfolding car_pool_def by blast+

lemma car_poolI:
  assumes "\<And>b w. used_buffers c \<le> b \<Longrightarrow> row_buffers c b w = []"
    "\<And>w b. held sp pcs w = Some b \<Longrightarrow> b < used_buffers c \<and> p \<noteq> Some b \<and> (\<forall>u. row_buffers c b u = [])"
    "\<And>w u b. held sp pcs w = Some b \<Longrightarrow> held sp pcs u = Some b \<Longrightarrow> w = u"
    "\<And>w. installing (pcs w) \<noteq> None \<Longrightarrow> sp w = None" "\<And>b. p = Some b \<Longrightarrow> b < used_buffers c"
    "used_buffers c + card {w. w < 64 \<and> held sp pcs w = None \<and> (p = None \<or> before_fetch (pcs w))} \<le> NUM_BUFFERS"
  shows "car_pool p c sp pcs"
  using assms by (simp add: car_pool_def)

text \<open>Steps that do not touch the held buffers.\<close>

lemma card_needs_mono:
  fixes Q R :: "nat \<Rightarrow> bool"
  assumes "\<And>w. w < 64 \<Longrightarrow> Q w \<Longrightarrow> R w" and "n + card {w. w < 64 \<and> R w} \<le> (N :: nat)"
  shows "n + card {w. w < 64 \<and> Q w} \<le> N"
proof -
  have "card {w. w < 64 \<and> Q w} \<le> card {w. w < 64 \<and> R w}" using assms(1) by (intro card_mono) auto
  then show ?thesis using assms(2) by simp
qed

lemma car_pool_held:
  assumes pl: "car_pool p c sp pcs" and h: "held sp' pcs' = held sp pcs"
    and i: "\<And>w. installing (pcs' w) \<noteq> None \<Longrightarrow> sp' w = None" and b: "\<And>w. before_fetch (pcs' w) \<Longrightarrow> before_fetch (pcs w) \<or> p = None"
  shows "car_pool p c sp' pcs'"
proof (rule car_poolI, unfold h)
  show "used_buffers c + card {w. w < 64 \<and> held sp pcs w = None \<and> (p = None \<or> before_fetch (pcs' w))} \<le> NUM_BUFFERS"
    by (rule card_needs_mono [OF _ car_poolD(6) [OF pl]]) (use b in blast)
qed (fact car_poolD [OF pl] i)+

lemma car_pool_goto:
  assumes pl: "car_pool p c sp pcs" and "installing pc = installing (pcs w)" and "before_fetch pc \<Longrightarrow> before_fetch (pcs w) \<or> p = None"
  shows "car_pool p c sp (pcs(w := pc))"
  by (rule car_pool_held [OF pl]) (use assms car_poolD(4) [OF pl] in \<open>auto simp: held_def fun_eq_iff split: if_splits option.splits\<close>)

lemma car_pool_buffer:
  assumes "car_pool (Some b) c sp pcs"
  shows "car_pool (Some b) (c\<lparr>row_buffers := (row_buffers c)(b := f)\<rparr>) sp pcs"
  using assms by (auto simp: car_pool_def)

lemma car_pool_spare:
  assumes pl: "car_pool p c sp pcs" and "pcs w = CFetch i" and "sp w = Some b"
  shows "car_pool p c (sp(w := None)) (pcs(w := CInstall i b))"
  by (rule car_pool_held [OF pl]) (use assms car_poolD(4) [OF pl] in \<open>auto simp: held_def fun_eq_iff split: if_splits option.splits\<close>)

lemma car_pool_fetch:
  assumes pl: "car_pool p c sp pcs" and pc: "pcs w = CFetch i" and sp: "sp w = None" and w: "w < 64"
  shows "fetch_new_buffer c = Inr (used_buffers c, c\<lparr>used_buffers := used_buffers c + 1\<rparr>)"
    "car_pool p (c\<lparr>used_buffers := used_buffers c + 1\<rparr>) sp (pcs(w := CInstall i (used_buffers c)))"
proof -
  let ?N = "\<lambda>h q. {u. u < 64 \<and> h u = None \<and> (p = None \<or> before_fetch (q u))}"
  let ?pcs = "pcs(w := CInstall i (used_buffers c))"
  have h: "held sp ?pcs u = (if u = w then Some (used_buffers c) else held sp pcs u)" for u by (simp add: held_def)
  have hw: "held sp pcs w = None" using pc sp by (simp add: held_def)
  have "w \<in> ?N (held sp pcs) pcs" using pc w hw by simp
  moreover have n: "?N (held sp ?pcs) ?pcs = ?N (held sp pcs) pcs - {w}" by (auto simp: h split: if_splits)
  ultimately have c: "Suc (card (?N (held sp ?pcs) ?pcs)) = card (?N (held sp pcs) pcs)"
    unfolding n by (intro card_Suc_Diff1) simp_all
  then show "fetch_new_buffer c = Inr (used_buffers c, c\<lparr>used_buffers := used_buffers c + 1\<rparr>)"
    using car_poolD(6) [OF pl] by (simp add: fetch_new_buffer_def)
  have hu: "b < used_buffers c" if "held sp pcs u = Some b" for u b using car_poolD(2) [OF pl that] by simp
  have np: "p \<noteq> Some (used_buffers c)" using car_poolD(5) [OF pl] by auto
  show "car_pool p (c\<lparr>used_buffers := used_buffers c + 1\<rparr>) sp ?pcs"
  proof (rule car_poolI, goal_cases)
    case (1 b u)
    then show ?case using car_poolD(1) [OF pl] by simp
  next
    case (2 u b)
    then show ?case using np car_poolD(1,2) [OF pl] by (cases "u = w") (auto simp: h less_SucI)
  next
    case (3 u u' b)
    then show ?case using car_poolD(3) [OF pl, of u b u'] hu by (auto simp: h split: if_splits)
  next
    case (4 u)
    then show ?case using car_poolD(4) [OF pl, of u] sp by (cases "u = w") auto
  next
    case (5 b)
    then show ?case using car_poolD(5) [OF pl] by (simp add: less_SucI)
  next
    case 6
    then show ?case using c car_poolD(6) [OF pl] by simp
  qed
qed

lemma car_pool_install:
  assumes pl: "car_pool p c sp pcs" and pc: "pcs w = CInstall i b"
  shows "p = None \<Longrightarrow> car_pool (Some b) c sp (pcs(w := CInsert i)) \<and> (\<forall>u. row_buffers c b u = [])"
    and "p \<noteq> None \<Longrightarrow> car_pool p c (sp(w \<mapsto> b)) (pcs(w := CInsert i))"
proof -
  have sp: "sp w = None" using car_poolD(4) [OF pl, of w] pc by simp
  have hw: "held sp pcs w = Some b" using pc by (simp add: held_def)
  let ?pcs = "pcs(w := CInsert i)"
  have h: "held sp ?pcs u = (if u = w then None else held sp pcs u)" for u using sp by (simp add: held_def)
  {
    assume p: "p = None"
    have "used_buffers c + card {u. u < 64 \<and> held sp ?pcs u = None \<and> (Some b = None \<or> before_fetch (?pcs u))} \<le> NUM_BUFFERS"
      by (rule card_needs_mono [OF _ car_poolD(6) [OF pl]]) (auto simp: p h split: if_splits)
    moreover have "held sp pcs u \<noteq> Some b" if "u \<noteq> w" for u using car_poolD(3) [OF pl hw] that by blast
    ultimately have "car_pool (Some b) c sp ?pcs"
      using car_poolD(1-4) [OF pl] car_poolD(2) [OF pl hw] by (intro car_poolI) (auto simp: h split: if_splits)
    then show "car_pool (Some b) c sp ?pcs \<and> (\<forall>u. row_buffers c b u = [])" using car_poolD(2) [OF pl hw] by blast
  next
    assume "p \<noteq> None"
    then show "car_pool p c (sp(w \<mapsto> b)) ?pcs"
      by (intro car_pool_held [OF pl]) (use pc car_poolD(4) [OF pl] in \<open>auto simp: held_def fun_eq_iff split: if_splits option.splits\<close>)
  }
qed

section \<open>Every step keeps the invariant\<close>

lemma core_buffer_frame [simp]:
  "core_buffer (s\<lparr>crow := a\<rparr>) = core_buffer s" "core_buffer (s\<lparr>cstore := m\<rparr>) = core_buffer s"
  "core_buffer (s\<lparr>cspare := sp\<rparr>) = core_buffer s" "core_buffer (s\<lparr>cpc := pcs\<rparr>) = core_buffer s"
  "core_buffer (s\<lparr>ctodo := t\<rparr>) = core_buffer s" "core_buffer (s\<lparr>cpend := pd\<rparr>) = core_buffer s"
  "core_buffer (s\<lparr>cregistered := r\<rparr>) = core_buffer s"
  by (simp_all add: core_buffer_def fun_eq_iff cong: option.case_cong)

lemma core_buffer_set: "cptr s = Some b \<Longrightarrow> core_buffer (set_core_buffer b w xs s) = (core_buffer s)(w := xs)"
  by (auto simp: core_buffer_def set_core_buffer_def fun_eq_iff)

lemma set_core_buffer_frame [simp]:
  "crow (set_core_buffer b w xs s) = crow s" "cptr (set_core_buffer b w xs s) = cptr s" "cstore (set_core_buffer b w xs s) = cstore s"
  "cspare (set_core_buffer b w xs s) = cspare s" "cpc (set_core_buffer b w xs s) = cpc s" "ctodo (set_core_buffer b w xs s) = ctodo s"
  "cpend (set_core_buffer b w xs s) = cpend s" "cregistered (set_core_buffer b w xs s) = cregistered s"
  by (simp_all add: set_core_buffer_def)

lemma car_pool_set_buffer:
  "car_pool (cptr s) (cbufs s) sp pcs \<Longrightarrow> cptr s = Some b \<Longrightarrow> car_pool (Some b) (cbufs (set_core_buffer b w xs s)) sp pcs"
  by (simp add: set_core_buffer_def car_pool_buffer)

lemma car_fillD: "car_fill p buf pcs reg \<Longrightarrow> worker_fill (p \<noteq> None) (buf w) (pcs w) (w \<in> reg)"
  by (simp add: car_fill_def)

lemma car_fill_upd:
  assumes "car_fill p buf pcs reg" and "worker_fill (p' \<noteq> None) (buf' w) pc (w \<in> reg')"
    and "\<And>u. u \<noteq> w \<Longrightarrow> buf' u = buf u \<and> (u \<in> reg' \<longleftrightarrow> u \<in> reg)" and "p \<noteq> None \<Longrightarrow> p' \<noteq> None"
  shows "car_fill p' buf' (pcs(w := pc)) reg'"
  unfolding car_fill_def
proof
  fix u
  show "worker_fill (p' \<noteq> None) (buf' u) ((pcs(w := pc)) u) (u \<in> reg')"
  proof (cases "u = w")
    case False
    then have "worker_fill (p \<noteq> None) (buf' u) (pcs u) (u \<in> reg')" using car_fillD [OF assms(1), of u] assms(3) by simp
    then show ?thesis using False assms(4) by (auto simp: worker_fill_def)
  qed (use assms(2) in simp)
qed

lemma car_fill_goto:
  assumes "car_fill p buf pcs reg" and "worker_fill (p \<noteq> None) (buf w) (pcs w) (w \<in> reg) \<Longrightarrow> worker_fill (p \<noteq> None) (buf w) pc (w \<in> reg)"
  shows "car_fill p buf (pcs(w := pc)) reg"
  by (rule car_fill_upd [OF assms(1)]) (use assms(2) car_fillD [OF assms(1)] in auto)

lemma car_inv_goto:
  assumes inv: "car_inv e M r0 W s" and "in_flight pc = in_flight (cpc s w)" and "final_pc pc \<or> pc = CEnd \<Longrightarrow> ctodo s w = []"
    and "car_locks (car_rwl a) ((cpc s)(w := pc))" and "car_slots a = car_slots (crow s)"
    and "installing pc = installing (cpc s w)" and "before_fetch pc \<Longrightarrow> before_fetch (cpc s w) \<or> cptr s = None"
    and "worker_fill (cptr s \<noteq> None) (core_buffer s w) (cpc s w) (w \<in> cregistered s) \<Longrightarrow>
      worker_fill (cptr s \<noteq> None) (core_buffer s w) pc (w \<in> cregistered s)"
  shows "car_inv e M r0 W (s\<lparr>crow := a, cpc := (cpc s)(w := pc)\<rparr>)"
  using car_invD [OF inv] assms(4,5) car_todo_goto [OF car_invD(2) [OF inv] assms(2,3)]
    car_pool_goto [OF car_invD(4) [OF inv] assms(6,7)] car_fill_goto [OF car_invD(5) [OF inv] assms(8)]
  by (simp add: car_inv_def)

lemma step_CNext:
  assumes inv: "car_inv e M r0 W s" and pc: "cpc s w = CNext"
  shows "\<exists>s'. car_init_step e w s = Inr s' \<and> car_inv e M r0 W s'"
proof (cases "ctodo s w")
  case Nil
  let ?pc = "if w \<in> cregistered s then CFinal else CEnd"
  have "car_inv e M r0 W (s\<lparr>crow := crow s, cpc := (cpc s)(w := ?pc)\<rparr>)"
    by (rule car_inv_goto [OF inv]) (use Nil pc car_locks_same [OF car_invD(3) [OF inv], of ?pc w] in \<open>auto simp: worker_fill_def split: if_splits\<close>)
  then show ?thesis using pc Nil by (simp add: car_init_step_def)
next
  case (Cons i rest)
  let ?pc = "if cptr s \<noteq> None then CInsert i else CTryLock i"
  have "car_todo W ((cpc s)(w := ?pc)) ((ctodo s)(w := rest)) (cpend s)"
    by (rule car_todo_same [OF car_invD(2) [OF inv]]) (use pc Cons in \<open>auto simp: remaining_def split: if_splits\<close>)
  moreover have "car_locks (car_rwl (crow s)) ((cpc s)(w := ?pc))" by (rule car_locks_same [OF car_invD(3) [OF inv]]) (simp add: pc)
  moreover have "car_pool (cptr s) (cbufs s) (cspare s) ((cpc s)(w := ?pc))"
    by (rule car_pool_goto [OF car_invD(4) [OF inv]]) (use pc in \<open>auto split: if_splits\<close>)
  moreover have "car_fill (cptr s) (core_buffer s) ((cpc s)(w := ?pc)) (cregistered s)"
    by (rule car_fill_goto [OF car_invD(5) [OF inv]]) (use pc in \<open>auto simp: worker_fill_def\<close>)
  ultimately have "car_inv e M r0 W (s\<lparr>ctodo := (ctodo s)(w := rest), cpc := (cpc s)(w := ?pc)\<rparr>)"
    using car_invD(1) [OF inv] by (simp add: car_inv_def)
  then show ?thesis using pc Cons by (simp add: car_init_step_def)
qed

lemma try_lock_step:
  assumes inv: "car_inv e M r0 W s" and "\<not> locked_pc (cpc s w)"
  shows "car_try_lock (crow s) = (if car_rwl (crow s) = 0 then (True, (crow s)\<lparr>car_rwl := - 1\<rparr>) else (False, crow s))"
    "car_rwl (crow s) = 0 \<Longrightarrow> locked_pc pc \<Longrightarrow> car_locks (- 1) ((cpc s)(w := pc))"
    "\<not> locked_pc pc \<Longrightarrow> car_locks (car_rwl (crow s)) ((cpc s)(w := pc))"
proof -
  show "car_try_lock (crow s) = (if car_rwl (crow s) = 0 then (True, (crow s)\<lparr>car_rwl := - 1\<rparr>) else (False, crow s))"
    by (simp add: car_try_lock_def)
  show "car_rwl (crow s) = 0 \<Longrightarrow> locked_pc pc \<Longrightarrow> car_locks (- 1) ((cpc s)(w := pc))"
    using car_locks_take car_invD(3) [OF inv] by metis
  show "\<not> locked_pc pc \<Longrightarrow> car_locks (car_rwl (crow s)) ((cpc s)(w := pc))"
    using car_locks_same [OF car_invD(3) [OF inv], of pc w] assms(2) by simp
qed

lemma step_CTryLock:
  assumes inv: "car_inv e M r0 W s" and pc: "cpc s w = CTryLock i"
  shows "\<exists>s'. car_init_step e w s = Inr s' \<and> car_inv e M r0 W s'"
proof -
  have nl: "\<not> locked_pc (cpc s w)" by (simp add: pc)
  note tl = try_lock_step [OF inv nl]
  show ?thesis
  proof (cases "car_rwl (crow s) = 0")
    case True
    have "car_inv e M r0 W (s\<lparr>crow := (crow s)\<lparr>car_rwl := - 1\<rparr>, cpc := (cpc s)(w := CAppendLocked i)\<rparr>)"
      by (rule car_inv_goto [OF inv]) (use pc tl(2) [OF True, of "CAppendLocked i"] in \<open>auto simp: worker_fill_def\<close>)
    then show ?thesis using pc tl(1) True by (simp add: car_init_step_def)
  next
    case False
    have "car_inv e M r0 W (s\<lparr>crow := crow s, cpc := (cpc s)(w := CFetch i)\<rparr>)"
      by (rule car_inv_goto [OF inv]) (use pc tl(3) [of "CFetch i"] in \<open>auto simp: worker_fill_def\<close>)
    then show ?thesis using pc tl(1) False by (simp add: car_init_step_def)
  qed
qed

lemma step_CFinal:
  assumes inv: "car_inv e M r0 W s" and pc: "cpc s w = CFinal"
  shows "\<exists>s'. car_init_step e w s = Inr s' \<and> car_inv e M r0 W s'"
proof -
  have nl: "\<not> locked_pc (cpc s w)" by (simp add: pc)
  note tl = try_lock_step [OF inv nl]
  show ?thesis
  proof (cases "car_rwl (crow s) = 0")
    case True
    have td: "ctodo s w = []" using car_invD(2) [OF inv] pc by (simp add: car_todo_def)
    have "car_inv e M r0 W (s\<lparr>crow := (crow s)\<lparr>car_rwl := - 1\<rparr>, cpc := (cpc s)(w := CFinalLocked)\<rparr>)"
      by (rule car_inv_goto [OF inv]) (use pc td tl(2) [OF True, of CFinalLocked] in \<open>auto simp: worker_fill_def\<close>)
    then show ?thesis using pc tl(1) True by (simp add: car_init_step_def)
  next
    case False
    then show ?thesis using pc tl(1) inv by (simp add: car_init_step_def)
  qed
qed

lemma step_CBatch:
  assumes inv: "car_inv e M r0 W s" and pc: "cpc s w = CBatch"
  shows "\<exists>s'. car_init_step e w s = Inr s' \<and> car_inv e M r0 W s'"
proof (cases "car_rwl (crow s) = 0")
  case True
  have nl: "\<not> locked_pc (cpc s w)" by (simp add: pc)
  have "car_inv e M r0 W (s\<lparr>crow := (crow s)\<lparr>car_rwl := - 1\<rparr>, cpc := (cpc s)(w := CBatchLocked)\<rparr>)"
    by (rule car_inv_goto [OF inv]) (use pc try_lock_step(2) [OF inv nl True, of CBatchLocked] in \<open>auto simp: worker_fill_def\<close>)
  then show ?thesis using pc True by (simp add: car_init_step_def car_lock_def)
qed (use pc inv in \<open>simp add: car_init_step_def car_lock_def\<close>)

lemma car_goto_parts:
  assumes inv: "car_inv e M r0 W s" and "in_flight pc = in_flight (cpc s w)" and "\<not> final_pc pc" "pc \<noteq> CEnd"
    and "locked_pc pc = locked_pc (cpc s w)" and "full_pc pc = full_pc (cpc s w)" and "(\<exists>i. pc = CInsert i) \<Longrightarrow> cptr s \<noteq> None"
  shows "car_todo W ((cpc s)(w := pc)) (ctodo s) (cpend s)" "car_locks (car_rwl (crow s)) ((cpc s)(w := pc))"
    "car_fill (cptr s) (core_buffer s) ((cpc s)(w := pc)) (cregistered s)"
proof -
  show "car_todo W ((cpc s)(w := pc)) (ctodo s) (cpend s)"
    by (rule car_todo_goto [OF car_invD(2) [OF inv] assms(2)]) (use assms(3,4) in blast)
  show "car_locks (car_rwl (crow s)) ((cpc s)(w := pc))" by (rule car_locks_same [OF car_invD(3) [OF inv] assms(5)])
  show "car_fill (cptr s) (core_buffer s) ((cpc s)(w := pc)) (cregistered s)"
    by (rule car_fill_goto [OF car_invD(5) [OF inv]]) (use assms(3,4,7) in \<open>unfold worker_fill_def assms(6), blast\<close>)
qed

lemma step_CFetch:
  assumes inv: "car_inv e M r0 W s" and pc: "cpc s w = CFetch i" and w: "w < 64"
  shows "\<exists>s'. car_init_step e w s = Inr s' \<and> car_inv e M r0 W s'"
proof (cases "cspare s w")
  case (Some b)
  have "car_todo W ((cpc s)(w := CInstall i b)) (ctodo s) (cpend s)" "car_locks (car_rwl (crow s)) ((cpc s)(w := CInstall i b))"
    "car_fill (cptr s) (core_buffer s) ((cpc s)(w := CInstall i b)) (cregistered s)"
    using car_goto_parts [OF inv, of "CInstall i b" w] pc by simp_all
  then have "car_inv e M r0 W (s\<lparr>cspare := (cspare s)(w := None), cpc := (cpc s)(w := CInstall i b)\<rparr>)"
    using car_pool_spare [OF car_invD(4) [OF inv] pc Some] car_invD(1) [OF inv] by (simp add: car_inv_def)
  then show ?thesis using pc Some by (simp add: car_init_step_def)
next
  case None
  let ?b = "used_buffers (cbufs s)" let ?c = "(cbufs s)\<lparr>used_buffers := ?b + 1\<rparr>"
  let ?s = "s\<lparr>cbufs := ?c, cpc := (cpc s)(w := CInstall i ?b)\<rparr>"
  note f = car_pool_fetch [OF car_invD(4) [OF inv] pc None w]
  have cb: "core_buffer ?s = core_buffer s" by (simp add: core_buffer_def fun_eq_iff cong: option.case_cong)
  have "car_todo W ((cpc s)(w := CInstall i ?b)) (ctodo s) (cpend s)" "car_locks (car_rwl (crow s)) ((cpc s)(w := CInstall i ?b))"
    "car_fill (cptr s) (core_buffer s) ((cpc s)(w := CInstall i ?b)) (cregistered s)"
    using car_goto_parts [OF inv, of "CInstall i ?b" w] pc by simp_all
  then have "car_inv e M r0 W ?s" using f(2) car_invD(1) [OF inv] unfolding car_inv_def cb by simp
  then show ?thesis using pc None f(1) by (simp add: car_init_step_def)
qed

lemma step_CInstall:
  assumes inv: "car_inv e M r0 W s" and pc: "cpc s w = CInstall i b"
  shows "\<exists>s'. car_init_step e w s = Inr s' \<and> car_inv e M r0 W s'"
proof -
  let ?pcs = "(cpc s)(w := CInsert i)"
  note pool = car_pool_install [OF car_invD(4) [OF inv] pc]
  have td: "car_todo W ?pcs (ctodo s) (cpend s)" by (rule car_todo_goto [OF car_invD(2) [OF inv]]) (simp_all add: pc)
  have lk: "car_locks (car_rwl (crow s)) ?pcs" by (rule car_locks_same [OF car_invD(3) [OF inv]]) (simp add: pc)
  show ?thesis
  proof (cases "cptr s")
    case None
    let ?s = "s\<lparr>cptr := Some b, cspare := cspare s, cpc := ?pcs\<rparr>"
    have p: "car_pool (Some b) (cbufs s) (cspare s) ?pcs" "\<forall>u. row_buffers (cbufs s) b u = []" using pool(1) [OF None] by blast+
    have cb: "core_buffer ?s = core_buffer s" using p(2) by (simp add: core_buffer_def None fun_eq_iff)
    have "car_fill (Some b) (core_buffer s) ?pcs (cregistered s)"
      by (rule car_fill_upd [OF car_invD(5) [OF inv]]) (use car_fillD [OF car_invD(5) [OF inv], of w] pc None in \<open>auto simp: worker_fill_def\<close>)
    then have "car_inv e M r0 W ?s" using car_invD(1) [OF inv] td lk p(1) unfolding car_inv_def cb by simp
    then show ?thesis using pc None by (simp add: car_init_step_def compare_exchange_def)
  next
    case (Some b')
    let ?s = "s\<lparr>cptr := Some b', cspare := (cspare s)(w \<mapsto> b), cpc := ?pcs\<rparr>"
    have cb: "core_buffer ?s = core_buffer s" by (simp add: core_buffer_def Some fun_eq_iff)
    have "car_pool (Some b') (cbufs s) ((cspare s)(w \<mapsto> b)) ?pcs" using pool(2) Some by simp
    moreover have "car_fill (Some b') (core_buffer s) ?pcs (cregistered s)"
      by (rule car_fill_upd [OF car_invD(5) [OF inv]]) (use car_fillD [OF car_invD(5) [OF inv], of w] pc Some in \<open>auto simp: worker_fill_def\<close>)
    ultimately have "car_inv e M r0 W ?s" using car_invD(1) [OF inv] td lk unfolding car_inv_def cb by simp
    then show ?thesis using pc Some by (simp add: car_init_step_def compare_exchange_def)
  qed
qed

lemma step_CAppendLocked:
  assumes W: "car_writes_ok W" and e: "e < 2 ^ 32" and inv: "car_inv e M r0 W s" and pc: "cpc s w = CAppendLocked i"
  shows "\<exists>s'. car_init_step e w s = Inr s' \<and> car_inv e M r0 W s'"
proof -
  obtain v m1 where c: "create_pending_version (cstore s) = (v, m1)" by fastforce
  have t: "i \<notin> dom (cpend s)" "i < 4096" "car_todo W ((cpc s)(w := CNext)) (ctodo s) ((cpend s)(i \<mapsto> v))"
    using car_todo_done [OF W car_invD(2) [OF inv], where w = w and i = i and pc = CNext] pc by simp_all
  obtain xs' m2 where a: "append_with_gc e (of_nat i) v (car_slots (crow s)) m1 = Inr (xs', m2)" "car_is_exist e (of_nat i) xs'"
    "car_data e M r0 xs' m2 ((cpend s)(i \<mapsto> v)) (core_buffer s)"
    using car_data_append_with_gc [OF car_invD(1) [OF inv] e t(1,2) c] by blast
  have lk: "car_rwl (crow s) = - 1" "car_locks 0 ((cpc s)(w := CNext))"
    using car_locks_drop [OF car_invD(3) [OF inv], of w CNext] pc by simp_all
  have pl: "car_pool (cptr s) (cbufs s) (cspare s) ((cpc s)(w := CNext))"
    by (rule car_pool_goto [OF car_invD(4) [OF inv]]) (simp_all add: pc)
  have fl: "car_fill (cptr s) (core_buffer s) ((cpc s)(w := CNext)) (cregistered s)"
    by (rule car_fill_goto [OF car_invD(5) [OF inv]]) (simp add: pc worker_fill_def)
  let ?s = "s\<lparr>crow := car_unlock ((crow s)\<lparr>car_slots := xs'\<rparr>), cstore := m2, cpend := (cpend s)(i \<mapsto> v), cpc := (cpc s)(w := CNext)\<rparr>"
  have "car_inv e M r0 W ?s" unfolding car_inv_def using a(3) t(3) lk pl fl by (simp add: car_unlock_def)
  then show ?thesis using pc c a(1,2) by (simp add: car_init_step_def)
qed

lemma step_CInsert:
  assumes W: "car_writes_ok W" and e: "e < 2 ^ 32" and inv: "car_inv e M r0 W s" and pc: "cpc s w = CInsert i"
  shows "\<exists>s'. car_init_step e w s = Inr s' \<and> car_inv e M r0 W s'"
proof -
  obtain v m1 where c: "create_pending_version (cstore s) = (v, m1)" by fastforce
  note wf = car_fillD [OF car_invD(5) [OF inv], of w]
  obtain b where b: "cptr s = Some b" using wf pc by (auto simp: worker_fill_def)
  have len: "length (core_buffer s w) \<le> 3" using wf pc by (simp add: worker_fill_def)
  let ?ok = "length (core_buffer s w) < 3" let ?pc = "if ?ok then CNext else CBatch" let ?pcs = "(cpc s)(w := ?pc)"
  let ?buf = "insert_ascending (gid e i) v (core_buffer s w)" let ?reg = "if ?ok then insert w (cregistered s) else cregistered s"
  have t: "i \<notin> dom (cpend s)" "i < 4096" "car_todo W ?pcs (ctodo s) ((cpend s)(i \<mapsto> v))"
    using car_todo_done [OF W car_invD(2) [OF inv], where w = w and i = i and pc = ?pc] pc by (simp_all split: if_splits)
  have d: "appendable v e (of_nat i) (core_buffer s w) = Inr (?ok, ?buf)"
    "car_data e M r0 (car_slots (crow s)) m1 ((cpend s)(i \<mapsto> v)) ((core_buffer s)(w := ?buf))"
    using car_data_insert [OF car_invD(1) [OF inv] e t(1,2) c, of w] len by simp_all
  have lk: "car_locks (car_rwl (crow s)) ?pcs" by (rule car_locks_same [OF car_invD(3) [OF inv]]) (simp add: pc)
  have "car_pool (cptr s) (cbufs s) (cspare s) ?pcs"
    by (rule car_pool_goto [OF car_invD(4) [OF inv]]) (simp_all add: pc split: if_splits)
  then have pl: "car_pool (Some b) (cbufs (set_core_buffer b w ?buf s)) (cspare s) ?pcs" using b by (rule car_pool_set_buffer)
  have fl: "car_fill (Some b) ((core_buffer s)(w := ?buf)) ?pcs ?reg"
    by (rule car_fill_upd [OF car_invD(5) [OF inv]]) (use len in \<open>auto simp: worker_fill_def\<close>)
  let ?s = "(set_core_buffer b w ?buf s)\<lparr>cstore := m1, cpend := (cpend s)(i \<mapsto> v), cregistered := ?reg, cpc := ?pcs\<rparr>"
  have "car_inv e M r0 W ?s"
    unfolding car_inv_def using d(2) t(3) lk pl fl b by (simp add: core_buffer_set)
  then show ?thesis using pc c d(1) b by (simp add: car_init_step_def)
qed

lemma car_batch_ok:
  assumes e: "e < 2 ^ 32" and inv: "car_inv e M r0 W s" and pc: "locked_pc (cpc s w)" "in_flight (cpc s w) = []"
    and ptr: "cptr s = Some b" and pc': "\<not> locked_pc pc" "in_flight pc = []" "installing pc = None" "\<not> before_fetch pc" "\<not> full_pc pc"
    "\<And>i. pc \<noteq> CInsert i" "\<not> final_pc pc" "pc = CEnd \<Longrightarrow> ctodo s w = []" and reg: "reg = (if pc = CEnd then cregistered s - {w} else cregistered s)"
  shows "\<exists>s'. car_batch e w pc s = Inr s' \<and> cregistered s' = cregistered s \<and> car_inv e M r0 W (s'\<lparr>cregistered := reg\<rparr>)"
proof -
  obtain xs' m' where d: "batch_append (core_buffer s w) e (car_slots (crow s)) (cstore s) = Inr (xs', [], m')"
    "car_data e M r0 xs' m' (cpend s) ((core_buffer s)(w := []))"
    using car_data_batch [OF car_invD(1) [OF inv] e, of w] by blast
  let ?pcs = "(cpc s)(w := pc)"
  have td: "car_todo W ?pcs (ctodo s) (cpend s)"
    by (rule car_todo_goto [OF car_invD(2) [OF inv]]) (use pc(2) pc' in auto)
  have lk: "car_rwl (crow s) = - 1" "car_locks 0 ?pcs" using car_locks_drop [OF car_invD(3) [OF inv] pc(1) pc'(1)] by auto
  have "installing (cpc s w) = None" using pc by (cases "cpc s w") auto
  then have "car_pool (cptr s) (cbufs s) (cspare s) ?pcs"
    by (intro car_pool_goto [OF car_invD(4) [OF inv]]) (use pc' in auto)
  then have pl: "car_pool (Some b) (cbufs (set_core_buffer b w [] s)) (cspare s) ?pcs" using ptr by (rule car_pool_set_buffer)
  have fl: "car_fill (Some b) ((core_buffer s)(w := [])) ?pcs reg"
    by (rule car_fill_upd [OF car_invD(5) [OF inv]]) (use pc' in \<open>auto simp: worker_fill_def reg\<close>)
  let ?s = "(set_core_buffer b w [] s)\<lparr>crow := car_unlock ((crow s)\<lparr>car_slots := xs'\<rparr>), cstore := m', cpc := ?pcs\<rparr>"
  have "car_inv e M r0 W (?s\<lparr>cregistered := reg\<rparr>)"
    unfolding car_inv_def using d(2) td lk pl fl ptr by (simp add: core_buffer_set car_unlock_def)
  moreover have "car_batch e w pc s = Inr ?s" using d(1) ptr by (simp add: car_batch_def)
  ultimately show ?thesis by auto
qed

lemma step_CBatchLocked:
  assumes e: "e < 2 ^ 32" and inv: "car_inv e M r0 W s" and pc: "cpc s w = CBatchLocked"
  shows "\<exists>s'. car_init_step e w s = Inr s' \<and> car_inv e M r0 W s'"
proof -
  obtain b where "cptr s = Some b" using car_fillD [OF car_invD(5) [OF inv], of w] pc by (auto simp: worker_fill_def)
  from car_batch_ok [OF e inv _ _ this, of w CNext "cregistered s"] pc obtain s' where
    "car_batch e w CNext s = Inr s'" "cregistered s' = cregistered s" "car_inv e M r0 W (s'\<lparr>cregistered := cregistered s\<rparr>)" by auto
  moreover from this(2) have "s'\<lparr>cregistered := cregistered s\<rparr> = s'" by simp
  ultimately show ?thesis using pc by (simp add: car_init_step_def)
qed

lemma step_CFinalLocked:
  assumes e: "e < 2 ^ 32" and inv: "car_inv e M r0 W s" and pc: "cpc s w = CFinalLocked"
  shows "\<exists>s'. car_init_step e w s = Inr s' \<and> car_inv e M r0 W s'"
proof -
  obtain b where b: "cptr s = Some b" using car_fillD [OF car_invD(5) [OF inv], of w] pc by (auto simp: worker_fill_def)
  have "ctodo s w = []" using car_invD(2) [OF inv] pc by (simp add: car_todo_def)
  with car_batch_ok [OF e inv _ _ b, of w CEnd "cregistered s - {w}"] pc obtain s' where
    "car_batch e w CEnd s = Inr s'" "cregistered s' = cregistered s" "car_inv e M r0 W (s'\<lparr>cregistered := cregistered s - {w}\<rparr>)" by auto
  then show ?thesis using pc by (simp add: car_init_step_def)
qed

lemma car_init_step_ok:
  assumes W: "car_writes_ok W" and e: "e < 2 ^ 32" and inv: "car_inv e M r0 W s" and w: "w < 64"
  shows "\<exists>s'. car_init_step e w s = Inr s' \<and> car_inv e M r0 W s'"
proof (cases "cpc s w")
  case CEnd
  then show ?thesis using inv by (simp add: car_init_step_def)
qed (use step_CNext [OF inv] step_CTryLock [OF inv] step_CAppendLocked [OF W e inv] step_CFetch [OF inv _ w] step_CInstall [OF inv]
    step_CInsert [OF W e inv] step_CBatch [OF inv] step_CBatchLocked [OF e inv] step_CFinal [OF inv] step_CFinalLocked [OF e inv] in blast)+

lemma car_init_run_ok:
  assumes W: "car_writes_ok W" and e: "e < 2 ^ 32"
  shows "car_inv e M r0 W s \<Longrightarrow> set sched \<subseteq> {..<64} \<Longrightarrow> \<exists>s'. car_init_run e sched s = Inr s' \<and> car_inv e M r0 W s'"
proof (induction sched arbitrary: s)
  case (Cons w sched)
  from car_init_step_ok [OF W e Cons.prems(1), of w] Cons.prems(2) obtain s1 where
    "car_init_step e w s = Inr s1" "car_inv e M r0 W s1" by auto
  with Cons show ?case by simp
qed simp

section \<open>The phase ends with every version in the array\<close>

lemma car_init_step_frame:
  assumes "car_init_step e w s = Inr s'" and "u \<noteq> w"
  shows "cpc s' u = cpc s u" "ctodo s' u = ctodo s u"
proof -
  have "cpc s' u = cpc s u \<and> ctodo s' u = ctodo s u"
    using assms by (auto simp: car_init_step_def car_batch_def Let_def ebind_eq_Inr guard_eq_Inr case_prod_unfold
        split: car_pc.splits list.splits option.splits if_splits)
  then show "cpc s' u = cpc s u" "ctodo s' u = ctodo s u" by auto
qed

definition car_idle :: "car_conf \<Rightarrow> bool" where
  "car_idle s \<longleftrightarrow> (\<forall>w \<ge> 64. cpc s w = CEnd)"

lemma car_idle_run: "car_idle s \<Longrightarrow> set sched \<subseteq> {..<64} \<Longrightarrow> car_init_run e sched s = Inr s' \<Longrightarrow> car_idle s'"
proof (induction sched arbitrary: s)
  case (Cons w sched)
  then obtain s1 where s1: "car_init_step e w s = Inr s1" "car_init_run e sched s1 = Inr s'" by (auto simp: ebind_eq_Inr)
  have "car_idle s1" unfolding car_idle_def
  proof (intro allI impI)
    fix u :: nat assume "64 \<le> u"
    moreover from this have "u \<noteq> w" using Cons.prems(2) by auto
    ultimately show "cpc s1 u = CEnd" using car_init_step_frame(1) [OF s1(1)] Cons.prems(1) by (simp add: car_idle_def)
  qed
  with Cons s1(2) show ?case by simp
qed simp

text \<open>What an epoch needs of a row.\<close>

definition car_ready ::
  "u64 \<Rightarrow> car_array \<Rightarrow> nat option \<Rightarrow> row_buffer_controller \<Rightarrow> (nat \<Rightarrow> nat option) \<Rightarrow> mem \<Rightarrow> nat \<Rightarrow> nat \<Rightarrow> bool" where
  "car_ready e a p c sp m M r0 \<longleftrightarrow> car_base e (car_slots a) m M r0 \<and> epoch_part e (car_slots a) = {} \<and> car_rwl a = 0
     \<and> car_pool p c sp (\<lambda>w. CEnd) \<and> (\<forall>b w. p = Some b \<longrightarrow> row_buffers c b w = [])"

lemma car_inv_start:
  assumes "car_ready e a p c sp m M r0" and W: "car_writes_ok W"
  shows "car_inv e M r0 W (car_init_start a p c sp m W)" "car_idle (car_init_start a p c sp m W)"
proof -
  let ?s = "car_init_start a p c sp m W" let ?pcs = "\<lambda>w. if w < 64 then CNext else CEnd"
  have r: "car_base e (car_slots a) m M r0" "epoch_part e (car_slots a) = {}" "car_rwl a = 0" "car_pool p c sp (\<lambda>w. CEnd)"
    "\<And>b w. p = Some b \<Longrightarrow> row_buffers c b w = []" using assms(1) unfolding car_ready_def by auto
  have cb: "core_buffer ?s = (\<lambda>_. [])" using r(5) by (auto simp: core_buffer_def car_init_start_def fun_eq_iff split: option.splits)
  have "car_data e M r0 (car_slots a) m Map.empty (\<lambda>_. [])" by (rule car_dataI [OF r(1)]) (simp_all add: r(2))
  moreover have "car_todo W ?pcs W Map.empty"
    using W by (auto simp: car_todo_def remaining_def car_writes_ok_def split: if_splits)
  moreover have "car_locks 0 ?pcs" by (simp add: car_locks_def)
  moreover have "car_pool p c sp ?pcs"
    by (rule car_pool_held [OF r(4)]) (auto simp: held_def fun_eq_iff split: if_splits)
  moreover have "car_fill p (\<lambda>_. []) ?pcs {}" by (simp add: car_fill_def worker_fill_def)
  ultimately show "car_inv e M r0 W ?s" using r(3) unfolding car_inv_def cb by (simp add: car_init_start_def)
  show "car_idle ?s" by (simp add: car_idle_def car_init_start_def)
qed

text \<open>Everybody at the end: the array holds the versions of all writers, the buffers are empty again.\<close>

lemma car_init_done_row:
  assumes inv: "car_inv e M r0 W s" and idle: "car_idle s" and dn: "car_init_done s"
  shows "car_base e (car_slots (crow s)) (cstore s) M r0"
    "epoch_part e (car_slots (crow s)) = {(gid e i, v) |i v. cpend s i = Some v}"
    "dom (cpend s) = (\<Union>w. set (W w))" "car_rwl (crow s) = 0" "car_pool (cptr s) (cbufs s) (cspare s) (\<lambda>w. CEnd)"
    "\<And>b w. cptr s = Some b \<Longrightarrow> row_buffers (cbufs s) b w = []"
proof -
  have pc: "cpc s = (\<lambda>w. CEnd)" using idle dn unfolding car_idle_def car_init_done_def by (metis not_le)
  have buf: "core_buffer s w = []" for w
    using car_fillD [OF car_invD(5) [OF inv], of w] pc by (auto simp: worker_fill_def)
  show "car_base e (car_slots (crow s)) (cstore s) M r0" by (rule car_dataD(1) [OF car_invD(1) [OF inv]])
  show "epoch_part e (car_slots (crow s)) = {(gid e i, v) |i v. cpend s i = Some v}"
    using car_dataD(2) [OF car_invD(1) [OF inv]] by (simp add: buf)
  show "dom (cpend s) = (\<Union>w. set (W w))"
    using car_invD(2) [OF inv] by (simp add: car_todo_def remaining_def pc)
  show "car_rwl (crow s) = 0" using car_invD(3) [OF inv] by (simp add: car_locks_def pc)
  show "car_pool (cptr s) (cbufs s) (cspare s) (\<lambda>w. CEnd)" using car_invD(4) [OF inv] by (simp add: pc)
  show "row_buffers (cbufs s) b w = []" if "cptr s = Some b" for b w using buf [of w] that by (simp add: core_buffer_def)
qed

section \<open>The phase can always be completed\<close>

fun car_rank :: "car_pc \<Rightarrow> nat" where
  "car_rank CEnd = 0"
| "car_rank CFinalLocked = 1"
| "car_rank CFinal = 2"
| "car_rank CNext = 3"
| "car_rank CBatchLocked = 4"
| "car_rank (CAppendLocked i) = 4"
| "car_rank CBatch = 5"
| "car_rank (CInsert i) = 6"
| "car_rank (CInstall i b) = 7"
| "car_rank (CFetch i) = 8"
| "car_rank (CTryLock i) = 9"

definition car_work :: "car_conf \<Rightarrow> nat \<Rightarrow> nat" where
  "car_work s w = 10 * length (ctodo s w) + car_rank (cpc s w)"

text \<open>The holder of the lock, and anybody when it is free, makes progress.\<close>

lemma car_step_progress:
  assumes "car_init_step e w s = Inr s'" and "cpc s w \<noteq> CEnd" and "locked_pc (cpc s w) \<or> car_rwl (crow s) = 0"
  shows "car_work s' w < car_work s w"
  using assms by (auto simp: car_init_step_def car_batch_def car_work_def Let_def ebind_eq_Inr guard_eq_Inr case_prod_unfold
      car_lock_def car_try_lock_def split: car_pc.splits list.splits option.splits if_splits)

lemma car_init_completes:
  assumes W: "car_writes_ok W" and e: "e < 2 ^ 32"
  shows "car_inv e M r0 W s \<Longrightarrow> car_idle s \<Longrightarrow> \<exists>sched s'. set sched \<subseteq> {..<64} \<and> car_init_run e sched s = Inr s' \<and> car_init_done s'"
proof (induction "\<Sum>w < 64. car_work s w" arbitrary: s rule: less_induct)
  case less
  show ?case
  proof (cases "car_init_done s")
    case True
    then show ?thesis by (intro exI [of _ "[]"]) simp
  next
    case False
    obtain w where w: "w < 64" "cpc s w \<noteq> CEnd" "locked_pc (cpc s w) \<or> car_rwl (crow s) = 0"
    proof (cases "\<exists>w. locked_pc (cpc s w)")
      case True
      then obtain w where "locked_pc (cpc s w)" by blast
      moreover from this have "cpc s w \<noteq> CEnd" by auto
      moreover from this have "w < 64" using less.prems(2) by (meson car_idle_def not_le)
      ultimately show ?thesis using that by blast
    next
      case no: False
      then have "car_rwl (crow s) = 0" using car_invD(3) [OF less.prems(1)] by (simp add: car_locks_def)
      then show ?thesis using that False by (auto simp: car_init_done_def)
    qed
    obtain s1 where s1: "car_init_step e w s = Inr s1" "car_inv e M r0 W s1"
      using car_init_step_ok [OF W e less.prems(1) w(1)] by blast
    have idle: "car_idle s1" using car_idle_run [OF less.prems(2), of "[w]" e s1] s1(1) w(1) by simp
    have lt: "car_work s1 w < car_work s w" by (rule car_step_progress [OF s1(1) w(2,3)])
    have "car_work s1 u \<le> car_work s u" for u
      using car_init_step_frame [OF s1(1), of u] lt by (cases "u = w") (simp_all add: car_work_def)
    then have "(\<Sum>u < 64. car_work s1 u) < (\<Sum>u < 64. car_work s u)"
      using w(1) lt by (intro sum_strict_mono_ex1) auto
    from less.hyps [OF this s1(2) idle] obtain sched s' where
      "set sched \<subseteq> {..<64}" "car_init_run e sched s1 = Inr s'" "car_init_done s'" by blast
    then show ?thesis using s1(1) w(1) by (intro exI [of _ "w # sched"] exI [of _ s']) simp
  qed
qed

end
