(* ===== verification/Caracal_Phases.thy ===== *)
theory Caracal_Phases
  imports Caracal_Epoch
begin

text \<open>
  Caracal's two phases on a row, put together: the array that the initialization phase leaves
  implements the interface of the execution phase, and the row is ready for the next epoch.
\<close>

section \<open>The array in the execution phase\<close>

text \<open>The row as \<open>caracal_read\<close> of a transaction of epoch \<open>e\<close> with serial id \<open>n\<close> sees it.\<close>

definition car_executor :: "u64 \<Rightarrow> nat \<Rightarrow> caracal_thread" where
  "car_executor e n = \<lparr>cthr_core = n mod 64, cthr_serial_id = of_nat n, cthr_epoch = e, cwrite_set = (\<lambda>_. []),
     cwritten_tables = {}, spare_buffer = None, appended_core_buffers = []\<rparr>"

definition car_row_db :: "car_array \<Rightarrow> mem \<Rightarrow> caracal_db" where
  "car_row_db a m = \<lparr>cvalues = (\<lambda>_. \<lparr>car_global = a, row_buffer_ptr = None\<rparr>),
     cctl = \<lparr>row_buffers = (\<lambda>_. row_buffer_init), used_buffers = 0\<rparr>, cmem = m\<rparr>"

type_synonym car_row = "u64 \<times> car_array \<times> nat"

definition car_row_read :: "car_row \<Rightarrow> nat \<Rightarrow> mem \<Rightarrow> nat option res" where
  "car_row_read row n m = (case row of (e, a, M) \<Rightarrow>
     caracal_read (\<lambda>table key. Some 0) 0 0 (car_executor e n) (car_row_db a m))"

definition car_row_pending :: "car_row \<Rightarrow> nat \<Rightarrow> nat option" where
  "car_row_pending row i = (case row of (e, a, M) \<Rightarrow> if i < 4096 then map_of (car_slots a) (gid e i) else None)"

definition car_row_base :: "car_row \<Rightarrow> nat" where
  "car_row_base row = (case row of (e, a, M) \<Rightarrow> M)"

definition car_row_wf :: "car_row \<Rightarrow> mem \<Rightarrow> bool" where
  "car_row_wf row m = (case row of (e, a, M) \<Rightarrow> e < 2 ^ 32 \<and> (\<exists>r0. car_base e (car_slots a) m M r0)
     \<and> epoch_part e (car_slots a) \<subseteq> {(gid e i, v) |i v. i < 4096})"

lemmas car_row_defs = car_row_read_def car_row_pending_def car_row_base_def car_row_wf_def

lemma map_of_asc: "ascending xs \<Longrightarrow> map_of xs g = Some v \<longleftrightarrow> (g, v) \<in> set xs"
  by (simp add: ascending_distinct)

lemma car_row_entries:
  assumes wf: "car_row_wf (e, a, M) m"
  shows "car_row_pending (e, a, M) i = Some v \<longleftrightarrow> i < 4096 \<and> (gid e i, v) \<in> epoch_part e (car_slots a)"
proof -
  have asc: "ascending (car_slots a)" and e: "e < 2 ^ 32" using wf car_baseD(3) by (auto simp: car_row_wf_def)
  show ?thesis using gid_facts(2) [OF e, of i] by (auto simp: car_row_pending_def map_of_asc [OF asc] epoch_part_def)
qed

lemma car_ids_cases:
  assumes wf: "car_row_wf (e, a, M) m" and x: "x \<in> dom (car_entries (car_slots a))"
  obtains (old) "x < unat (epoch_id e)" | (new) i where "x = unat (gid e i)" "i \<in> dom (car_row_pending (e, a, M))" "i < 4096"
proof -
  from x obtain p where p: "p \<in> set (car_slots a)" "x = unat (fst p)" by (auto simp: dom_car_entries)
  show ?thesis
  proof (cases "epoch_id e \<le> fst p")
    case True
    then have pe: "p \<in> epoch_part e (car_slots a)" using p(1) by (simp add: epoch_part_def)
    then obtain i where i: "fst p = gid e i" "i < 4096" using wf by (auto simp: car_row_wf_def)
    then have "(gid e i, snd p) \<in> epoch_part e (car_slots a)" using pe by (metis prod.collapse)
    then have "i \<in> dom (car_row_pending (e, a, M))" using car_row_entries [OF wf, of i "snd p"] i(2) by blast
    then show ?thesis using new p(2) i by simp
  next
    case False
    then show ?thesis using old p(2) by (simp add: word_le_nat_alt)
  qed
qed

text \<open>What the search of the array finds.\<close>

lemma car_visible:
  assumes wf: "car_row_wf (e, a, M) m" and n: "n < 4096"
  shows "\<exists>i. visible_entry (car_entries (car_slots a)) (unat (gid e n)) =
    Some (i, case visible_entry (car_row_pending (e, a, M)) n of None \<Rightarrow> M | Some (j, v) \<Rightarrow> v)"
proof -
  let ?E = "car_entries (car_slots a)" let ?P = "car_row_pending (e, a, M)"
  have e: "e < 2 ^ 32" and base: "\<exists>i. visible_entry ?E (unat (epoch_id e)) = Some (i, M)"
    using wf by (auto simp: car_row_wf_def car_base_def)
  have u: "unat (gid e i) = unat e * 2 ^ 32 + i" if "i < 4096" for i by (rule gid_facts(1) [OF e that])
  have u0: "unat (epoch_id e) = unat e * 2 ^ 32" using unat_convert [OF e, of 0] by simp
  show ?thesis
  proof (cases "visible_entry ?P n")
    case None
    then have none: "n \<le> i" if "i \<in> dom ?P" for i using that by (auto simp: visible_entry_None)
    have "x < unat (epoch_id e)" if "x \<in> dom ?E" "x < unat (gid e n)" for x
      by (rule car_ids_cases [OF wf that(1)]) (use that(2) none u u0 n in force)+
    moreover have "unat (epoch_id e) \<le> unat (gid e n)" using u [OF n] u0 by simp
    ultimately have "visible_in (dom ?E) (unat (gid e n)) = visible_in (dom ?E) (unat (epoch_id e))"
      unfolding visible_in_def by (intro arg_cong [where f = "\<lambda>A. if A = {} then None else Some (Max A)"]) auto
    then show ?thesis using base None by (simp add: visible_entry_def)
  next
    case (Some jv)
    obtain j v where jv: "jv = (j, v)" by fastforce
    have j: "?P j = Some v" "j < n" "\<And>i. i \<in> dom ?P \<Longrightarrow> i < n \<Longrightarrow> i \<le> j"
      using Some unfolding jv visible_entry_Some by blast+
    have j4: "j < 4096" using j(2) n by simp
    have "?E (unat (gid e j)) = Some v" using j(1) j4 by (simp add: car_entries_unat car_row_pending_def)
    moreover have "unat (gid e j) < unat (gid e n)" using u [OF j4] u [OF n] j(2) by simp
    moreover have "x \<le> unat (gid e j)" if "x \<in> dom ?E" "x < unat (gid e n)" for x
    proof (rule car_ids_cases [OF wf that(1)])
      assume "x < unat (epoch_id e)"
      then show ?thesis using u [OF j4] u0 by simp
    next
      fix i assume i: "x = unat (gid e i)" "i \<in> dom ?P" "i < 4096"
      then have "i < n" using that(2) u [OF i(3)] u [OF n] by simp
      then show ?thesis using j(3) [OF i(2)] i(1) u [OF i(3)] u [OF j4] by simp
    qed
    ultimately have "visible_entry ?E (unat (gid e n)) = Some (unat (gid e j), v)" unfolding visible_entry_Some by blast
    then show ?thesis using Some by (auto simp: jv)
  qed
qed

lemma car_row_read_eq:
  assumes wf: "car_row_wf (e, a, M) m" and n: "n < 4096"
  shows "car_row_read (e, a, M) n m = Inr (read_of m (case visible_entry (car_row_pending (e, a, M)) n of None \<Rightarrow> M | Some (j, v) \<Rightarrow> v))"
proof -
  obtain r0 where base: "car_base e (car_slots a) m M r0" using wf by (auto simp: car_row_wf_def)
  note b = car_baseD [OF base]
  let ?v = "case visible_entry (car_row_pending (e, a, M)) n of None \<Rightarrow> M | Some (j, v) \<Rightarrow> v"
  obtain i where i: "visible_entry (car_entries (car_slots a)) (unat (gid e n)) = Some (i, ?v)" using car_visible [OF wf n] by blast
  have "fst (hd (car_slots a)) < gid e n" using b(6) gid_facts(2) [OF _ n, of e] wf by (auto simp: car_row_wf_def)
  then have ex: "\<exists>p \<in> set (car_slots a). fst p < gid e n" using b(5) by (meson hd_in_set)
  obtain g v where s: "car_search_visible_version e (of_nat n) (car_slots a) = Inr (g, v)"
    "visible_entry (car_entries (car_slots a)) (unat (gid e n)) = Some (unat g, v)" "(g, v) \<in> set (car_slots a)"
    using car_search_spec [OF b(2) ex [unfolded gid_def]] unfolding gid_def by blast
  then have v: "v = ?v" using i by simp
  have lv: "live m v" using b(7) [OF s(3)] by simp
  then have "v \<noteq> nullptr" by (simp add: live_def)
  then have "car_row_read (e, a, M) n m = wait_stable_and_execute_read v m"
    using s(1) by (simp add: car_row_read_def caracal_read_def car_executor_def car_row_db_def)
  then have "car_row_read (e, a, M) n m = Inr (read_of m v)" by (simp only: wait_read_of [OF lv])
  then show ?thesis by (simp only: v)
qed

interpretation caracal_exec: row_execution car_row_read car_row_pending car_row_base car_row_wf "\<lambda>n. n < 4096"
proof (unfold_locales, goal_cases)
  case (1 row m n)
  obtain e a M where row: "row = (e, a, M)" by (metis prod_cases3)
  show ?case using car_row_read_eq [OF 1 [unfolded row]] unfolding row car_row_base_def prod.case .
next
  case (2 row m)
  then show ?case using car_baseD(1) by (cases row) (auto simp: car_row_wf_def)
next
  case (3 row m i v m' x r)
  obtain e a M where row: "row = (e, a, M)" by (metis prod_cases3)
  then obtain r0 where base: "car_base e (car_slots a) m M r0" using 3(1) by (auto simp: car_row_wf_def)
  note b = car_baseD [OF base]
  have ns: "u \<noteq> v" if "stable m u" for u using that stable_not_pend 3(3) by blast
  have st: "stable m' u" if "stable m u" for u using ns [OF that] that by (simp add: stable_def 3(6))
  have "live m' u" if "live m u" for u using that by (auto simp: live_def 3(6))
  moreover have "stab m' M r0" using b(9) ns [OF stab_stable [OF b(9)]] by (simp add: stab_def 3(6))
  ultimately have "car_base e (car_slots a) m' M r0" using base 3(4) st by (auto simp: car_base_def car_wf_def)
  then show ?case using 3(1) by (auto simp: row car_row_wf_def)
next
  case (4 row m i v j)
  obtain e a M where row: "row = (e, a, M)" by (metis prod_cases3)
  then obtain r0 where base: "car_base e (car_slots a) m M r0" and e: "e < 2 ^ 32" using 4(1) by (auto simp: car_row_wf_def)
  have ij: "i < 4096" "j < 4096" "(gid e i, v) \<in> set (car_slots a)" "(gid e j, v) \<in> set (car_slots a)"
    using 4 car_row_entries [OF 4(1) [unfolded row]] by (auto simp: row epoch_part_def)
  then have "gid e i = gid e j" using car_baseD(4) [OF base] by (metis distinct_map inj_onD prod.inject snd_conv)
  then show ?case using gid_inject [OF e ij(1,2)] by simp
next
  case (5 row m i v)
  obtain e a M where row: "row = (e, a, M)" by (metis prod_cases3)
  then obtain r0 where base: "car_base e (car_slots a) m M r0" and e: "e < 2 ^ 32" using 5(1) by (auto simp: car_row_wf_def)
  have v: "(gid e i, v) \<in> epoch_part e (car_slots a)" using 5 car_row_entries [OF 5(1) [unfolded row]] by (auto simp: row)
  then have lv: "live m v" using car_baseD(7) [OF base] by (auto simp: epoch_part_def)
  obtain k where "visible_entry (car_entries (car_slots a)) (unat (epoch_id e)) = Some (k, M)" using base by (auto simp: car_base_def)
  then have M: "car_entries (car_slots a) k = Some M" "k < unat (epoch_id e)" by (auto simp: visible_entry_Some)
  then have "(of_nat k, M) \<in> set (car_slots a)" "(of_nat k :: u64) < epoch_id e"
    by (auto simp: car_entries_def word_less_nat_alt split: if_splits dest: map_of_SomeD)
  then have "v \<noteq> M" using v car_baseD(4) [OF base] unfolding epoch_part_def
    by (metis (mono_tags, lifting) distinct_map fst_conv inj_onD leD mem_Collect_eq snd_conv)
  then show ?case using lv by (simp add: row car_row_base_def live_def)
next
  case (6 row m)
  have "dom (car_row_pending row) \<subseteq> {..<4096}" by (cases row) (auto simp: car_row_pending_def split: if_splits)
  then show ?case by (rule finite_subset) simp
qed

section \<open>The epoch\<close>

text \<open>
  \<open>do_initialization_phase\<close> of all workers on the row, the barrier, and \<open>do_execution_phase\<close>;
  \<open>None\<close> if the schedule of the first phase does not reach the barrier.
\<close>

definition caracal_epoch ::
  "nat \<Rightarrow> u64 \<Rightarrow> nat list \<Rightarrow> actor list \<Rightarrow> car_conf \<Rightarrow> (car_conf \<times> row_exec) option res" where
  "caracal_epoch sz e isched xsched s0 =
     ebind (car_init_run e isched s0) (\<lambda>s.
       if car_init_done s then
         ebind (row_exec_run (\<lambda>n m. caracal_read (\<lambda>table key. Some 0) 0 0 (car_executor e n) (car_row_db (crow s) m))
                  (cpend s) sz xsched (row_exec_start (cstore s)))
           (\<lambda>x. Inr (Some (s, x)))
       else Inr None)"

definition car_writers :: "(nat \<Rightarrow> nat list) \<Rightarrow> nat set" where
  "car_writers W = (\<Union>w. set (W w))"

lemma car_writers_finite: "car_writes_ok W \<Longrightarrow> finite (car_writers W) \<and> car_writers W \<subseteq> {..<4096}"
  by (auto simp: car_writes_ok_def car_writers_def intro: finite_subset [of _ "{..<4096}"])

lemma car_barrier:
  assumes e: "e < 2 ^ 32" and inv: "car_inv e M r0 W s" and idle: "car_idle s" and dn: "car_init_done s"
  shows "car_row_wf (e, crow s, M) (cstore s)" "car_row_pending (e, crow s, M) = cpend s" "dom (cpend s) = car_writers W"
    "row_exec_inv (cpend s) R M r0 (row_exec_start (cstore s))"
proof -
  note d = car_init_done_row [OF inv idle dn] and dt = car_dataD [OF car_invD(1) [OF inv]]
  have "epoch_part e (car_slots (crow s)) \<subseteq> {(gid e i, v) |i v. i < 4096}" using d(2) dt(6) by blast
  then show wf: "car_row_wf (e, crow s, M) (cstore s)" using e d(1) by (auto simp: car_row_wf_def)
  have "car_row_pending (e, crow s, M) i = Some v \<longleftrightarrow> cpend s i = Some v" for i v
    unfolding car_row_entries [OF wf] d(2) using dt(6) gid_inject [OF e] by auto
  then show "car_row_pending (e, crow s, M) = cpend s" by (metis option.exhaust ext)
  show "dom (cpend s) = car_writers W" using d(3) by (simp add: car_writers_def)
  show "row_exec_inv (cpend s) R M r0 (row_exec_start (cstore s))"
    using car_baseD(9) [OF d(1)] dt(6) by (auto simp: row_exec_inv_def row_exec_start_def)
qed

text \<open>After the epoch every version of the row is stable, so the row is ready for the next one.\<close>

lemma epoch_id_Suc:
  assumes "e + 1 < 2 ^ 32" "e < 2 ^ 32" and "i < 4096"
  shows "gid e i < epoch_id (e + 1)" "epoch_id e \<le> epoch_id (e + 1)"
proof -
  have "unat (e + 1) = unat e + 1"
    using assms(2) unsigned_less [of e, where ?'a = nat] by (simp add: unat_word_ariths word_less_nat_alt)
  then have "unat (epoch_id (e + 1)) = unat e * 2 ^ 32 + 2 ^ 32" using unat_convert [OF assms(1), of 0] by simp
  then show "gid e i < epoch_id (e + 1)" "epoch_id e \<le> epoch_id (e + 1)"
    using gid_facts(1) [OF assms(2,3)] assms(3) unat_convert [OF assms(2), of 0] by (simp_all add: word_less_nat_alt word_le_nat_alt)
qed

lemma car_next_base:
  assumes wf: "car_row_wf (e, a, M) m" and e: "e + 1 < 2 ^ 32" "e < 2 ^ 32"
    and st: "\<And>i v. car_row_pending (e, a, M) i = Some v \<Longrightarrow> stab m v (rc i)"
    and ne: "dom (car_row_pending (e, a, M)) \<noteq> {}"
  defines "w \<equiv> Max (dom (car_row_pending (e, a, M)))"
  shows "car_base (e + 1) (car_slots a) m (the (car_row_pending (e, a, M) w)) (rc w)" "epoch_part (e + 1) (car_slots a) = {}"
proof -
  let ?P = "car_row_pending (e, a, M)" let ?xs = "car_slots a"
  obtain r0 where base: "car_base e ?xs m M r0" using wf by (auto simp: car_row_wf_def)
  note b = car_baseD [OF base] and ids = epoch_id_Suc [OF e]
  have fin: "finite (dom ?P)" using caracal_exec.pending_finite [OF wf] .
  have w: "w \<in> dom ?P" "\<And>i. i \<in> dom ?P \<Longrightarrow> i \<le> w" using fin ne by (auto simp: w_def)
  then obtain v where v: "?P w = Some v" by blast
  have w4: "w < 4096" using v car_row_entries [OF wf] by blast
  have part: "\<exists>i. fst p = gid e i \<and> i < 4096 \<and> ?P i = Some (snd p)" if p: "p \<in> set ?xs" "epoch_id e \<le> fst p" for p
  proof -
    have pe: "p \<in> epoch_part e ?xs" using p by (simp add: epoch_part_def)
    then obtain i where i: "fst p = gid e i" "i < 4096" using wf by (auto simp: car_row_wf_def)
    then have "(gid e i, snd p) \<in> epoch_part e ?xs" using pe by (metis prod.collapse)
    then show ?thesis using i car_row_entries [OF wf, of i "snd p"] by blast
  qed
  have lt: "fst p < epoch_id (e + 1)" if "p \<in> set ?xs" for p
  proof (cases "epoch_id e \<le> fst p")
    case True
    from part [OF that True] obtain i where "fst p = gid e i" "i < 4096" by blast
    then show ?thesis using ids(1) by simp
  next
    case False
    then show ?thesis using ids(2) [OF w4] by simp
  qed
  then show "epoch_part (e + 1) ?xs = {}" by (auto simp: epoch_part_def dest: leD)
  have "stable m (snd p)" if "p \<in> set ?xs" for p
    using b(8) [OF that] part [OF that] stab_stable [OF st] by (metis not_le)
  then have cw: "car_wf (e + 1) ?xs m" using b lt by (auto simp: car_wf_def)
  have "visible_entry (car_entries ?xs) (unat (epoch_id (e + 1))) = Some (unat (gid e w), v)"
    unfolding visible_entry_Some
  proof (intro conjI allI impI)
    show "car_entries ?xs (unat (gid e w)) = Some v" using v w4 by (simp add: car_entries_unat car_row_pending_def)
    show "unat (gid e w) < unat (epoch_id (e + 1))" using ids(1) [OF w4] by (simp add: word_less_nat_alt)
    fix x assume x: "x \<in> dom (car_entries ?xs)"
    have u: "unat (gid e i) = unat e * 2 ^ 32 + i" if "i < 4096" for i by (rule gid_facts(1) [OF e(2) that])
    show "x \<le> unat (gid e w)"
    proof (rule car_ids_cases [OF wf x])
      assume "x < unat (epoch_id e)"
      then show ?thesis using gid_facts(2) [OF e(2) w4] by (simp add: word_le_nat_alt)
    next
      fix i assume "x = unat (gid e i)" "i \<in> dom ?P" "i < 4096"
      then show ?thesis using w(2) [of i] u w4 by simp
    qed
  qed
  then show "car_base (e + 1) ?xs m (the (?P w)) (rc w)" using cw st [OF v] v by (auto simp: car_base_def)
qed

lemma car_next_base_idle:
  assumes base: "car_base e xs m M r0" and "epoch_part e xs = {}" and e: "e + 1 < 2 ^ 32" "e < 2 ^ 32"
  shows "car_base (e + 1) xs m M r0" "epoch_part (e + 1) xs = {}"
proof -
  note b = car_baseD [OF base]
  have le: "epoch_id e \<le> epoch_id (e + 1)" using epoch_id_Suc(2) [OF e, of 0] by simp
  have lt: "fst p < epoch_id e" if "p \<in> set xs" for p using assms(2) that unfolding epoch_part_def by (metis (mono_tags, lifting) empty_Collect_eq not_le)
  then have lt': "fst p < epoch_id (e + 1)" if "p \<in> set xs" for p using that le by fastforce
  then show "epoch_part (e + 1) xs = {}" by (auto simp: epoch_part_def dest: leD)
  have "visible_in (dom (car_entries xs)) (unat (epoch_id (e + 1))) = visible_in (dom (car_entries xs)) (unat (epoch_id e))"
    unfolding visible_in_def dom_car_entries using lt lt'
    by (intro arg_cong [where f = "\<lambda>A. if A = {} then None else Some (Max A)"]) (auto simp: word_less_nat_alt)
  then have "visible_entry (car_entries xs) (unat (epoch_id (e + 1))) = visible_entry (car_entries xs) (unat (epoch_id e))"
    by (simp add: visible_entry_def)
  moreover have "car_wf (e + 1) xs m" using b lt' b(8) lt by (auto simp: car_wf_def)
  ultimately show "car_base (e + 1) xs m M r0" using base by (simp add: car_base_def)
qed

lemma car_next_ready:
  assumes e: "e < 2 ^ 32" "e + 1 < 2 ^ 32" and inv: "car_inv e M r0 W s" and idle: "car_idle s" and dn: "car_init_done s"
    and wf: "car_row_wf (e, crow s, M) (xmem x)" and ex: "row_exec_inv (cpend s) R M r0 x" and fill: "car_writers W \<subseteq> filled x"
  shows "car_ready (e + 1) (crow s) (cptr s) (cbufs s) (cspare s) (xmem x)
    (if car_writers W = {} then M else the (cpend s (Max (car_writers W))))
    (if car_writers W = {} then r0 else xrec x (Max (car_writers W)))"
proof -
  note d = car_init_done_row [OF inv idle dn] and br = car_barrier [OF e(1) inv idle dn]
  have "car_base (e + 1) (car_slots (crow s)) (xmem x) (if car_writers W = {} then M else the (cpend s (Max (car_writers W))))
      (if car_writers W = {} then r0 else xrec x (Max (car_writers W))) \<and> epoch_part (e + 1) (car_slots (crow s)) = {}"
  proof (cases "car_writers W = {}")
    case True
    then have "cpend s = Map.empty" using br(3) by auto
    then have part: "epoch_part e (car_slots (crow s)) = {}" using d(2) by auto
    obtain r1 where b: "car_base e (car_slots (crow s)) (xmem x) M r1" using wf by (auto simp: car_row_wf_def)
    moreover have "stab (xmem x) M r0" by (rule row_exec_invD(1) [OF ex])
    ultimately have "car_base e (car_slots (crow s)) (xmem x) M r0" by (simp add: car_base_def)
    from car_next_base_idle [OF this part e(2,1)] True show ?thesis by simp
  next
    case False
    have "stab (xmem x) v (xrec x i)" if "car_row_pending (e, crow s, M) i = Some v" for i v
      using row_exec_invD(2) [OF ex, of i v] that fill br(2,3) by (auto simp: domI)
    from car_next_base [OF wf e(2,1) this] False br(2,3) show ?thesis by simp
  qed
  then show ?thesis using d(4,5,6) by (simp add: car_ready_def)
qed

lemma caracal_epoch_run:
  assumes "car_writes_ok W" and "car_ready e a p c sp m M r0" and "e < 2 ^ 32" and "e + 1 < 2 ^ 32"
    and "R \<subseteq> {..<4096}" and "set isched \<subseteq> {..<64}" and "set xsched \<subseteq> actors (car_writers W) R"
  shows "\<exists>res. caracal_epoch sz e isched xsched (car_init_start a p c sp m W) = Inr res \<and>
    (\<forall>s x. res = Some (s, x) \<longrightarrow> row_exec_done (car_writers W) R x \<longrightarrow>
       (\<forall>n \<in> R. xout x n = Some (must_read (car_writers W) r0 (xrec x) n))
       \<and> car_ready (e + 1) (crow s) (cptr s) (cbufs s) (cspare s) (xmem x)
           (if car_writers W = {} then M else the (cpend s (Max (car_writers W))))
           (if car_writers W = {} then r0 else xrec x (Max (car_writers W))))"
proof -
  note st = car_inv_start [OF assms(2,1)]
  obtain s where run: "car_init_run e isched (car_init_start a p c sp m W) = Inr s" "car_inv e M r0 W s"
    using car_init_run_ok [OF assms(1,3) st(1) assms(6)] by blast
  have idle: "car_idle s" by (rule car_idle_run [OF st(2) assms(6) run(1)])
  show ?thesis
  proof (cases "car_init_done s")
    case False
    then show ?thesis using run by (simp add: caracal_epoch_def)
  next
    case True
    note br = car_barrier [OF assms(3) run(2) idle True]
    have rdr: "\<forall>n \<in> R. n < 4096" using assms(5) by auto
    from caracal_exec.exec_any_schedule [where row = "(e, crow s, M)" and R = R and ?r0.0 = r0 and s = "row_exec_start (cstore s)"
        and sched = xsched and sz = sz] br rdr assms(7)
    obtain x where x: "row_exec_run (car_row_read (e, crow s, M)) (cpend s) sz xsched (row_exec_start (cstore s)) = Inr x"
      "row_exec_inv (cpend s) R M r0 x" "car_row_wf (e, crow s, M) (xmem x)"
      by (auto simp: row_exec_start_def car_row_base_def)
    have rd: "car_row_read (e, crow s, M) = (\<lambda>n m. caracal_read (\<lambda>table key. Some 0) 0 0 (car_executor e n) (car_row_db (crow s) m))"
      by (simp add: car_row_read_def fun_eq_iff)
    have "xout x n = Some (must_read (car_writers W) r0 (xrec x) n)"
      if "row_exec_done (car_writers W) R x" "n \<in> R" for n
      using row_exec_invD(4) [OF x(2) that(2)] that br(3) by (auto simp: row_exec_done_def)
    moreover have "car_writers W \<subseteq> filled x" if "row_exec_done (car_writers W) R x" using that by (simp add: row_exec_done_def)
    ultimately show ?thesis
      using run True x(1) car_next_ready [OF assms(3,4) run(2) idle True x(3,2)] by (simp add: caracal_epoch_def rd)
  qed
qed

lemma caracal_epoch_finish:
  assumes "car_writes_ok W" and "car_ready e a p c sp m M r0" and "e < 2 ^ 32"
    and "R \<subseteq> {..<4096}" and "set isched \<subseteq> {..<64}"
  shows "\<exists>irest xsched s x. set irest \<subseteq> {..<64} \<and> set xsched \<subseteq> actors (car_writers W) R
    \<and> caracal_epoch sz e (isched @ irest) xsched (car_init_start a p c sp m W) = Inr (Some (s, x))
    \<and> row_exec_done (car_writers W) R x"
proof -
  note st = car_inv_start [OF assms(2,1)]
  obtain s1 where s1: "car_init_run e isched (car_init_start a p c sp m W) = Inr s1" "car_inv e M r0 W s1"
    using car_init_run_ok [OF assms(1,3) st(1) assms(5)] by blast
  have idle1: "car_idle s1" by (rule car_idle_run [OF st(2) assms(5) s1(1)])
  obtain irest s where s: "set irest \<subseteq> {..<64}" "car_init_run e irest s1 = Inr s" "car_init_done s"
    using car_init_completes [OF assms(1,3) s1(2) idle1] by blast
  have inv: "car_inv e M r0 W s" using car_init_run_ok [OF assms(1,3) s1(2) s(1)] s(2) by auto
  have idle: "car_idle s" by (rule car_idle_run [OF idle1 s(1,2)])
  have app: "car_init_run e (xs @ ys) t = ebind (car_init_run e xs t) (car_init_run e ys)" for xs ys t
    by (induction xs arbitrary: t) (auto simp: ebind_def split: sum.splits)
  note br = car_barrier [OF assms(3) inv idle s(3)]
  have rdr: "\<forall>n \<in> R. n < 4096" "finite R" using assms(4) by (auto intro: finite_subset)
  from caracal_exec.exec_completes [where row = "(e, crow s, M)" and R = R and ?r0.0 = r0 and s = "row_exec_start (cstore s)" and sz = sz] br rdr
  obtain xsched x where x: "set xsched \<subseteq> actors (car_writers W) R"
    "row_exec_run (car_row_read (e, crow s, M)) (cpend s) sz xsched (row_exec_start (cstore s)) = Inr x"
    "row_exec_done (car_writers W) R x" by (auto simp: row_exec_start_def car_row_base_def)
  have rd: "car_row_read (e, crow s, M) = (\<lambda>n m. caracal_read (\<lambda>table key. Some 0) 0 0 (car_executor e n) (car_row_db (crow s) m))"
    by (simp add: car_row_read_def fun_eq_iff)
  have "caracal_epoch sz e (isched @ irest) xsched (car_init_start a p c sp m W) = Inr (Some (s, x))"
    using s1(1) s(2,3) x(2) by (simp add: caracal_epoch_def app rd)
  then show ?thesis using s(1) x(1,3) by blast
qed

section \<open>Properties\<close>

text \<open>C8: Take a Caracal row that is ready for epoch \<open>e\<close>, any assignment of distinct writing transactions to the 64
  workers, any interleaving of the workers' accesses in the initialization phase (direct appends, installation of a
  row buffer, per-core buffers, batch appends, the final batch append) and any interleaving of readers and writers in
  the execution phase. No assertion fails, no version is used after it is freed and none is freed twice. Once all
  have finished, every reader got the record of the last writer before it in serial order (the record that ended the
  last epoch if there is none), and the row is ready for the next epoch with the last writer's version, or the old
  one if nobody wrote the row.\<close>

theorem caracal_epoch_serial:
  assumes "car_writes_ok W" and "car_ready e a p c sp m M r0" and "e < 2 ^ 32" and "e + 1 < 2 ^ 32"
    and "R \<subseteq> {..<4096}" and "set isched \<subseteq> {..<64}" and "set xsched \<subseteq> actors (car_writers W) R"
  shows "\<exists>res. caracal_epoch sz e isched xsched (car_init_start a p c sp m W) = Inr res \<and>
    (\<forall>s x. res = Some (s, x) \<longrightarrow> row_exec_done (car_writers W) R x \<longrightarrow>
       (\<forall>n \<in> R. xout x n = Some (must_read (car_writers W) r0 (xrec x) n))
       \<and> car_ready (e + 1) (crow s) (cptr s) (cbufs s) (cspare s) (xmem x)
           (if car_writers W = {} then M else the (cpend s (Max (car_writers W))))
           (if car_writers W = {} then r0 else xrec x (Max (car_writers W))))"
  using assms by (rule caracal_epoch_run)

text \<open>No schedule of a Caracal epoch blocks: whatever the workers have done so far in the initialization phase,
  the phase can be completed (a lock is only held by a worker that releases it in its next step), and then the
  execution phase can be completed.\<close>

theorem caracal_epoch_completes:
  assumes "car_writes_ok W" and "car_ready e a p c sp m M r0" and "e < 2 ^ 32"
    and "R \<subseteq> {..<4096}" and "set isched \<subseteq> {..<64}"
  shows "\<exists>irest xsched s x. set irest \<subseteq> {..<64} \<and> set xsched \<subseteq> actors (car_writers W) R
    \<and> caracal_epoch sz e (isched @ irest) xsched (car_init_start a p c sp m W) = Inr (Some (s, x))
    \<and> row_exec_done (car_writers W) R x"
  using assms by (rule caracal_epoch_finish)

section \<open>Witnesses\<close>

text \<open>A row as the loader leaves it is ready for the first epoch, with all buffers free.\<close>

definition car_free_buffers :: row_buffer_controller where
  "car_free_buffers = \<lparr>row_buffers = (\<lambda>_. row_buffer_init), used_buffers = 0\<rparr>"

lemma loaded_car_ready:
  obtains val m where "car_insert_into_index 1 (snd (new_record 8 mem_init)) = Inr (val, m)"
    "car_ready 1 (car_global val) (row_buffer_ptr val) car_free_buffers (\<lambda>_. None) m 2 1"
proof -
  have r: "new_record 8 mem_init = (1, snd (new_record 8 mem_init))" by (simp add: new_record_def mem_init_def)
  note n = new_record_ok [OF mem_ok_init r]
  obtain v m where v: "new_version \<lparr>ver_rec = 1, ver_status = STABLE, ver_deleted = False\<rparr> (snd (new_record 8 mem_init)) = (v, m)"
    by fastforce
  have fr: "\<And>u x. vers (snd (new_record 8 mem_init)) u = Some x \<Longrightarrow> ver_rec x \<noteq> 1" using n(4) by (simp add: mem_init_def)
  have v2: "v = 2" "stab m v 1"
    using new_stable_version_ok [OF n(1) _ fr v] n(2,6) by (simp_all add: mem_init_def stab_def)
  have wf: "car_wf 1 [(0, v)] m" by (rule car_wf_loaded [OF n(1) _ fr v]) (use n(2) in simp_all)
  then have lt: "0 < epoch_id 1" by (simp add: car_wf_def)
  have dom: "dom (car_entries [(0, v)]) = {0}" by (simp only: dom_car_entries) simp
  have "car_entries [(0, v)] 0 = Some v" "0 < unat (epoch_id 1)" using lt by (simp_all add: car_entries_def word_less_nat_alt)
  then have "visible_entry (car_entries [(0, v)]) (unat (epoch_id 1)) = Some (0, v)"
    unfolding visible_entry_Some dom by blast
  then have "car_base 1 [(0, v)] m v 1" using wf v2(2) by (simp add: car_base_def)
  moreover have "epoch_part 1 [(0, v)] = {}" using lt by (auto simp: epoch_part_def)
  moreover have "car_pool None car_free_buffers (\<lambda>_. None) (\<lambda>w. CEnd)"
    by (rule car_poolI) (simp_all add: car_free_buffers_def row_buffer_init_def held_def NUM_BUFFERS_def)
  moreover have "car_insert_into_index 1 (snd (new_record 8 mem_init)) =
      Inr (\<lparr>car_global = \<lparr>car_rwl = 0, car_slots = [(0, v)]\<rparr>, row_buffer_ptr = None\<rparr>, m)"
    using v v2(1) by (simp add: car_insert_into_index_def append_with_no_gc_def)
  ultimately show ?thesis using that v2(1) by (simp add: car_ready_def)
qed

lemma sample_car_writes: "car_writes_ok ((\<lambda>_. [])(0 := [0], 1 := [1, 65]))" "car_writers ((\<lambda>_. [])(0 := [0], 1 := [1, 65])) = {0, 1, 65}"
  by (auto simp: car_writes_ok_def car_writers_def split: if_splits)

theorem caracal_epoch_serial_witness:
  "\<exists>val m isched xsched s x. car_insert_into_index 1 (snd (new_record 8 mem_init)) = Inr (val, m)
     \<and> caracal_epoch 8 1 isched xsched
         (car_init_start (car_global val) (row_buffer_ptr val) car_free_buffers (\<lambda>_. None) m ((\<lambda>_. [])(0 := [0], 1 := [1, 65]))) = Inr (Some (s, x))
     \<and> row_exec_done {0, 1, 65} {70} x \<and> xout x 70 = Some (xrec x 65)"
proof -
  let ?W = "(\<lambda>_. [])(0 := [0], 1 := [1, 65])"
  obtain val m where v: "car_insert_into_index 1 (snd (new_record 8 mem_init)) = Inr (val, m)"
    "car_ready 1 (car_global val) (row_buffer_ptr val) car_free_buffers (\<lambda>_. None) m 2 1" by (rule loaded_car_ready)
  from caracal_epoch_finish [OF sample_car_writes(1) v(2), of "{70}" "[]" 8] obtain isched xsched s x where
    run: "set isched \<subseteq> {..<64}" "set xsched \<subseteq> actors (car_writers ?W) {70}"
    "caracal_epoch 8 1 isched xsched (car_init_start (car_global val) (row_buffer_ptr val) car_free_buffers (\<lambda>_. None) m ?W) = Inr (Some (s, x))"
    "row_exec_done (car_writers ?W) {70} x" by auto
  from caracal_epoch_serial [OF sample_car_writes(1) v(2), of "{70}" isched xsched 8] run
  have "xout x 70 = Some (must_read {0, 1, 65} 1 (xrec x) 70)" unfolding sample_car_writes(2) by simp
  moreover have "visible_in {0, 1, 65} 70 = Some 65" by (simp add: visible_in_Some)
  then have "must_read {0, 1, 65} 1 (xrec x) 70 = xrec x 65" by (simp add: must_read_def)
  ultimately show ?thesis using v(1) run(3,4) unfolding sample_car_writes(2) by metis
qed

theorem caracal_epoch_completes_witness:
  "\<exists>val m irest xsched s x. car_insert_into_index 1 (snd (new_record 8 mem_init)) = Inr (val, m)
     \<and> caracal_epoch 8 1 ([0, 1, 0] @ irest) xsched
         (car_init_start (car_global val) (row_buffer_ptr val) car_free_buffers (\<lambda>_. None) m ((\<lambda>_. [])(0 := [0], 1 := [1, 65]))) = Inr (Some (s, x))"
proof -
  obtain val m where v: "car_insert_into_index 1 (snd (new_record 8 mem_init)) = Inr (val, m)"
    "car_ready 1 (car_global val) (row_buffer_ptr val) car_free_buffers (\<lambda>_. None) m 2 1" by (rule loaded_car_ready)
  from caracal_epoch_completes [OF sample_car_writes(1) v(2), of "{70}" "[0, 1, 0]" 8] v(1)
  show ?thesis by auto
qed

end
