(* ===== verification/Cheetah_Bitmap.thy ===== *)
theory Cheetah_Bitmap
  imports Two_Level Version_Store Version_Array Lock
begin

text \<open>
  protocols/cheetah/include/rw_bitmaps.hpp: the write bitmap of a row. The write phase records
  which transactions write the row, the read phase creates placeholders for the versions that
  will be read, and the execution phase fills them and collects them again.
\<close>

section \<open>class WriteBitmap\<close>

record write_bitmap =
  ref_cnt :: int
  wb_lock :: int
  wb_core_bitmap :: u64
  tx_bitmaps :: "u64 list"
  placeholders :: "nat \<Rightarrow> nat option"
  wb_master :: nat
  previous_master :: nat

definition count_prefix_sum :: "nat \<Rightarrow> u64 \<Rightarrow> int" where
  "count_prefix_sum core cb = count_bits (cb AND fill_the_left_side_until_before_the_given_position core)"

definition insert_tx_bitmap :: "int \<Rightarrow> u64 \<Rightarrow> write_bitmap \<Rightarrow> write_bitmap" where
  "insert_tx_bitmap insert_pos tx_bitmap w = w\<lparr>tx_bitmaps := vector_insert (nat insert_pos) tx_bitmap (tx_bitmaps w)\<rparr>"

definition update_core_bitmap :: "nat \<Rightarrow> write_bitmap \<Rightarrow> write_bitmap res" where
  "update_core_bitmap core w =
     ebind (set_bit_in_bitmap (wb_core_bitmap w) core) (\<lambda>cb. Inr (w\<lparr>wb_core_bitmap := cb\<rparr>))"

definition update_tx_bitmap :: "int \<Rightarrow> nat \<Rightarrow> write_bitmap \<Rightarrow> write_bitmap res" where
  "update_tx_bitmap pos tx w =
     assert_then (pos < int (length (tx_bitmaps w)))
       (ebind (set_bit_in_bitmap (tx_bitmaps w ! nat pos) tx) (\<lambda>b.
          Inr (w\<lparr>tx_bitmaps := (tx_bitmaps w)[nat pos := b]\<rparr>)))"

definition update_bitmap :: "nat \<Rightarrow> u64 \<Rightarrow> write_bitmap \<Rightarrow> write_bitmap res" where
  "update_bitmap core tx_bitmap w =
     (let insert_pos = count_prefix_sum core (wb_core_bitmap w)
      in assert_then (\<not> is_bit_set_at_the_position (wb_core_bitmap w) core)
           (ebind (update_core_bitmap core (insert_tx_bitmap insert_pos tx_bitmap w)) (\<lambda>w'.
              assert_then (is_bit_set_at_the_position (wb_core_bitmap w') core) (Inr w'))))"

definition wb_get_serial_id :: "nat \<Rightarrow> nat \<Rightarrow> nat" where
  "wb_get_serial_id core tx = core * 64 + tx"

definition identify_visible_version_in_bitmaps :: "nat \<Rightarrow> nat \<Rightarrow> write_bitmap \<Rightarrow> (bool \<times> nat \<times> nat) res" where
  "identify_visible_version_in_bitmaps core tx w =
     ebind (find_the_two_largest_among_or_less_than (wb_core_bitmap w) core) (\<lambda>(second_core, first_core).
       if first_core = - 1 then assert_then (first_core = - 1 \<and> second_core = - 1) (Inr (False, 0, 0))
       else
         let first_core_pos = count_prefix_sum (nat first_core) (wb_core_bitmap w)
         in assert_then (first_core_pos < int (length (tx_bitmaps w)))
           (if first_core = int core then
              ebind (find_the_largest_among_less_than (tx_bitmaps w ! nat first_core_pos) tx) (\<lambda>first_tx.
                if first_tx \<noteq> - 1 then Inr (True, nat first_core, nat first_tx)
                else if second_core \<noteq> - 1 then
                  let second_core_pos = count_prefix_sum (nat second_core) (wb_core_bitmap w)
                  in assert_then (second_core_pos < first_core_pos)
                       (ebind (find_the_largest (tx_bitmaps w ! nat second_core_pos)) (\<lambda>t.
                          Inr (True, nat second_core, nat t)))
                else Inr (False, 0, 0))
            else assert_then (0 \<le> first_core \<and> first_core < int core)
              (ebind (find_the_largest (tx_bitmaps w ! nat first_core_pos)) (\<lambda>t.
                 Inr (True, nat first_core, nat t)))))"

text \<open>
  \<open>append_pending_version\<close> of the read phase. The part under \<open>lock_\<close> is atomic, so the
  lock is free when the call returns.
\<close>

definition count_reader :: "write_bitmap \<Rightarrow> write_bitmap" where
  "count_reader w =
     (let (ref_cnt_old, r1) = fetch_add (ref_cnt w) 1
      in w\<lparr>ref_cnt := if ref_cnt_old = 0 then snd (fetch_add r1 1) else r1\<rparr>)"

definition master_version :: "write_bitmap \<Rightarrow> mem \<Rightarrow> nat res" where
  "master_version w m =
     ebind (load_version (wb_master w) m) (\<lambda>x.
       assert_then (ver_status x = STABLE) (assert_then (wb_master w \<noteq> nullptr) (Inr (wb_master w))))"

definition get_placeholder :: "nat \<Rightarrow> write_bitmap \<Rightarrow> mem \<Rightarrow> nat \<times> write_bitmap \<times> mem" where
  "get_placeholder visible_id w m =
     (case placeholders w visible_id of
        Some v \<Rightarrow> (v, w, m)
      | None \<Rightarrow> (let (v, m1) = create_pending_version m
                 in (v, w\<lparr>placeholders := (placeholders w)(visible_id \<mapsto> v)\<rparr>, m1)))"

definition wb_append_pending_version ::
  "nat \<Rightarrow> nat \<Rightarrow> write_bitmap \<Rightarrow> mem \<Rightarrow> (nat \<times> write_bitmap \<times> mem) res" where
  "wb_append_pending_version core tx w m =
     (let w1 = count_reader w
      in if wb_core_bitmap w1 \<noteq> 0 then
           ebind (identify_visible_version_in_bitmaps core tx w1) (\<lambda>(is_found, visible_core, visible_tx).
             if is_found then
               (case get_placeholder (wb_get_serial_id visible_core visible_tx) w1 m of (v, w2, m2) \<Rightarrow>
                  assert_then (v \<noteq> nullptr) (Inr (v, w2, m2)))
             else ebind (master_version w1 m) (\<lambda>v. Inr (v, w1, m)))
         else assert_then (placeholders w1 = Map.empty)
                (ebind (master_version w1 m) (\<lambda>v. Inr (v, w1, m))))"

definition wb_gc :: "nat \<Rightarrow> mem \<Rightarrow> mem res" where
  "wb_gc version m =
     assert_then (version \<noteq> nullptr) (ebind (load_version version m) (\<lambda>x.
       assert_then (ver_status x = STABLE) (delete_version version m)))"

text \<open>The placeholders are an unordered map; the list is the order of its iteration.\<close>

fun gc_placeholders :: "(nat \<times> nat) list \<Rightarrow> mem \<Rightarrow> mem res" where
  "gc_placeholders [] m = Inr m"
| "gc_placeholders ((i, version) # rest) m =
     ebind (load_version version m) (\<lambda>x.
       assert_then (ver_status x = STABLE) (ebind (wb_gc version m) (gc_placeholders rest)))"

definition placeholder_list :: "write_bitmap \<Rightarrow> (nat \<times> nat) list" where
  "placeholder_list w =
     map (\<lambda>i. (i, the (placeholders w i))) (filter (\<lambda>i. placeholders w i \<noteq> None) [0..<4096])"

text \<open>The atomic decrement of \<open>decrement_ref_cnt\<close>, and what the final reader then does under the lock.\<close>

definition sub_ref_cnt :: "write_bitmap \<Rightarrow> int \<times> write_bitmap" where
  "sub_ref_cnt w = (ref_cnt w - 1, w\<lparr>ref_cnt := ref_cnt w - 1\<rparr>)"

definition final_reader_gc :: "write_bitmap \<Rightarrow> mem \<Rightarrow> (write_bitmap \<times> mem) res" where
  "final_reader_gc w m =
     ebind (if previous_master w \<noteq> nullptr
            then ebind (wb_gc (previous_master w) m) (\<lambda>m1.
                   assert_then (wb_master w \<noteq> nullptr) (Inr (w\<lparr>previous_master := nullptr\<rparr>, m1)))
            else Inr (w, m)) (\<lambda>(w1, m1).
       ebind (if placeholders w1 \<noteq> Map.empty
              then ebind (gc_placeholders (placeholder_list w1) m1) (\<lambda>m2.
                     Inr (w1\<lparr>placeholders := Map.empty\<rparr>, m2))
              else Inr (w1, m1)) (\<lambda>(w2, m2).
         assert_then (previous_master w2 = nullptr)
           (assert_then (placeholders w2 = Map.empty)
             (Inr (snd (sub_ref_cnt w2), m2)))))"

definition decrement_ref_cnt :: "write_bitmap \<Rightarrow> mem \<Rightarrow> (write_bitmap \<times> mem) res" where
  "decrement_ref_cnt w m =
     (case sub_ref_cnt w of (ref_cnt_new, w1) \<Rightarrow>
        if ref_cnt_new = 1 then final_reader_gc w1 m else Inr (w1, m))"

definition clear_bitmaps :: "write_bitmap \<Rightarrow> write_bitmap" where
  "clear_bitmaps w = w\<lparr>wb_core_bitmap := 0, tx_bitmaps := []\<rparr>"

definition is_final_state :: "nat \<Rightarrow> nat \<Rightarrow> write_bitmap \<Rightarrow> bool res" where
  "is_final_state core tx w =
     (if wb_core_bitmap w \<noteq> 0 then
        ebind (find_the_largest (wb_core_bitmap w)) (\<lambda>last_core.
          if last_core = int core then
            guard (tx_bitmaps w \<noteq> []) OutOfRange
              (assert_then (last (tx_bitmaps w) \<noteq> 0)
                (ebind (find_the_largest (last (tx_bitmaps w))) (\<lambda>last_tx. Inr (last_tx = int tx))))
          else Inr False)
      else Inr False)"

text \<open>\<open>identify_write_version\<close> runs under the lock; the result is \<open>nullptr\<close> if nobody reads the version.\<close>

definition identify_write_version ::
  "nat \<Rightarrow> nat \<Rightarrow> write_bitmap \<Rightarrow> mem \<Rightarrow> (nat \<times> write_bitmap \<times> mem) res" where
  "identify_write_version core tx w m =
     (let serial_id = wb_get_serial_id core tx; itr = placeholders w serial_id
      in ebind (is_final_state core tx w) (\<lambda>final.
           if final then
             case (case itr of
                     None \<Rightarrow> (let (v, m1) = create_pending_version m in (v, w, m1))
                   | Some v \<Rightarrow> (v, w\<lparr>placeholders := (placeholders w)(serial_id := None)\<rparr>, m)) of
               (version, w1, m1) \<Rightarrow>
                 ebind (if ref_cnt w1 = 0
                        then ebind (wb_gc (wb_master w1) m1) (\<lambda>m2.
                               assert_then (placeholders w1 = Map.empty) (Inr (w1\<lparr>wb_master := nullptr\<rparr>, m2)))
                        else Inr (w1\<lparr>previous_master := wb_master w1\<rparr>, m1)) (\<lambda>(w2, m2).
                   let w3 = w2\<lparr>wb_master := version\<rparr>;
                       w4 = if wb_core_bitmap w3 \<noteq> 0 then clear_bitmaps w3 else w3
                   in assert_then (wb_core_bitmap w4 = 0) (assert_then (tx_bitmaps w4 = [])
                        (Inr (version, w4, m2))))
           else Inr (case itr of Some v \<Rightarrow> v | None \<Rightarrow> nullptr, w, m)))"

section \<open>The bitmaps as a visibility search\<close>

definition tb_of :: "write_bitmap \<Rightarrow> nat \<Rightarrow> u64" where
  "tb_of w c = tx_bitmaps w ! card {d \<in> ones (wb_core_bitmap w). d < c}"

definition wb_ids :: "write_bitmap \<Rightarrow> nat set" where
  "wb_ids w = two_level_ids (wb_core_bitmap w) (tb_of w)"

definition wb_ok :: "write_bitmap \<Rightarrow> bool" where
  "wb_ok w \<longleftrightarrow> length (tx_bitmaps w) = card (ones (wb_core_bitmap w)) \<and> 0 \<notin> set (tx_bitmaps w)"

definition wb_search :: "write_bitmap \<Rightarrow> nat \<Rightarrow> nat option res" where
  "wb_search w n =
     ebind (identify_visible_version_in_bitmaps (n div 64) (n mod 64) w) (\<lambda>(is_found, core, tx).
       Inr (if is_found then Some (wb_get_serial_id core tx) else None))"

lemma wb_frame [simp]:
  "wb_ok (w\<lparr>ref_cnt := c\<rparr>) = wb_ok w" "wb_ids (w\<lparr>ref_cnt := c\<rparr>) = wb_ids w"
  "wb_ok (w\<lparr>wb_lock := c\<rparr>) = wb_ok w" "wb_ids (w\<lparr>wb_lock := c\<rparr>) = wb_ids w"
  "wb_ok (w\<lparr>placeholders := p\<rparr>) = wb_ok w" "wb_ids (w\<lparr>placeholders := p\<rparr>) = wb_ids w"
  "wb_ok (w\<lparr>wb_master := v\<rparr>) = wb_ok w" "wb_ids (w\<lparr>wb_master := v\<rparr>) = wb_ids w"
  "wb_ok (w\<lparr>previous_master := v\<rparr>) = wb_ok w" "wb_ids (w\<lparr>previous_master := v\<rparr>) = wb_ids w"
  by (simp_all add: wb_ok_def wb_ids_def two_level_ids_def tb_of_def)

lemma count_prefix_sum_eq: "c \<le> 64 \<Longrightarrow> count_prefix_sum c cb = int (card {d \<in> ones cb. d < c})"
  by (simp add: count_prefix_sum_def count_bits_def popcount_card ones_and Int_def lessThan_def)

lemma prefix_less:
  fixes S :: "nat set"
  assumes "finite S" and "s \<in> S" and "s < f"
  shows "card {d \<in> S. d < s} < card {d \<in> S. d < f}"
  using assms by (intro psubset_card_mono) auto

lemma prefix_less_card:
  fixes S :: "nat set"
  assumes "finite S" and "s \<in> S"
  shows "card {d \<in> S. d < s} < card S"
  using assms by (intro psubset_card_mono) auto

lemma identify_in_bitmaps_two_level:
  assumes ok: "wb_ok w" and cb: "wb_core_bitmap w \<noteq> 0" and core: "core < 64"
  shows "identify_visible_version_in_bitmaps core tx w = two_level (wb_core_bitmap w) (tb_of w) core tx"
proof -
  let ?S = "ones (wb_core_bitmap w)"
  have pos: "count_prefix_sum c (wb_core_bitmap w) = int (card {d \<in> ?S. d < c})"
    "count_prefix_sum c (wb_core_bitmap w) < int (length (tx_bitmaps w))" if "c \<in> ?S" for c
    using that ones_less [OF that] ok prefix_less_card [OF finite_ones that]
    by (simp_all add: count_prefix_sum_eq wb_ok_def)
  note two = find_the_two_largest_eq [OF cb core]
  show ?thesis
  proof (rule visible_in_cases [of ?S "Suc core"])
    assume "visible_in ?S (Suc core) = None"
    then show ?thesis by (simp add: identify_visible_version_in_bitmaps_def two_level_def two)
  next
    fix f assume f: "visible_in ?S (Suc core) = Some f" "f \<in> ?S"
    show ?thesis
    proof (rule visible_in_cases [of ?S f])
      assume "visible_in ?S f = None"
      then show ?thesis using pos [OF f(2)]
        by (simp add: identify_visible_version_in_bitmaps_def two_level_def two f(1) tb_of_def Let_def)
    next
      fix s assume s: "visible_in ?S f = Some s" "s \<in> ?S" "s < f"
      then show ?thesis using pos(2) [OF f(2)] prefix_less [OF finite_ones s(2,3)] core ones_less [OF f(2)] ones_less [OF s(2)]
        by (auto simp: identify_visible_version_in_bitmaps_def two_level_def two f(1) tb_of_def Let_def
            count_prefix_sum_eq cong: if_cong)
    qed
  qed
qed

lemma tb_of_not_0: "wb_ok w \<Longrightarrow> c \<in> ones (wb_core_bitmap w) \<Longrightarrow> tb_of w c \<noteq> 0"
  unfolding wb_ok_def tb_of_def by (metis finite_ones nth_mem prefix_less_card)

lemma wb_identify_spec:
  assumes "wb_ok w" and "n < 4096" and "wb_core_bitmap w \<noteq> 0"
  shows "identify_visible_version_in_bitmaps (n div 64) (n mod 64) w = Inr (found_pos (visible_in (wb_ids w) n))"
  using assms identify_in_bitmaps_two_level [of w "n div 64" "n mod 64"]
    two_level_spec [where tb = "tb_of w", OF assms(3) tb_of_not_0 [OF assms(1)] assms(2)]
  by (simp add: wb_ids_def)

interpretation wb: version_lookup wb_ok wb_ids wb_search "\<lambda>w n. n < 4096 \<and> wb_core_bitmap w \<noteq> 0"
proof (unfold_locales, goal_cases)
  case (1 w n)
  then show ?case
    by (cases "visible_in (wb_ids w) n")
      (simp_all add: wb_search_def wb_identify_spec wb_get_serial_id_def)
qed

section \<open>The write phase\<close>

lemma nth_vector_insert:
  assumes "k \<le> length xs"
  shows "i < k \<Longrightarrow> vector_insert k b xs ! i = xs ! i" "vector_insert k b xs ! k = b"
    "k \<le> i \<Longrightarrow> vector_insert k b xs ! Suc i = xs ! i"
  using assms by (auto simp: vector_insert_def nth_append)

lemma update_bitmap_ok:
  assumes ok: "wb_ok w" and core: "core < 64" "core \<notin> ones (wb_core_bitmap w)" and b: "b \<noteq> 0"
  obtains w' where "update_bitmap core b w = Inr w'" "wb_ok w'"
    "ones (wb_core_bitmap w') = insert core (ones (wb_core_bitmap w))"
    "wb_ids w' = wb_ids w \<union> (\<lambda>t. core * 64 + t) ` ones b"
    "w' = w\<lparr>wb_core_bitmap := wb_core_bitmap w', tx_bitmaps := tx_bitmaps w'\<rparr>"
proof -
  let ?S = "ones (wb_core_bitmap w)" let ?k = "card {d \<in> ?S. d < core}" let ?xs = "tx_bitmaps w"
  define w' where "w' = w\<lparr>tx_bitmaps := vector_insert ?k b ?xs,
     wb_core_bitmap := wb_core_bitmap w OR set_bit_at_the_given_location core\<rparr>"
  have S': "ones (wb_core_bitmap w') = insert core ?S" using core(1) by (simp add: w'_def)
  have kl: "?k \<le> length ?xs" using ok by (auto simp: wb_ok_def intro: card_mono)
  have up: "update_bitmap core b w = Inr w'"
    using core by (simp add: update_bitmap_def count_prefix_sum_eq insert_tx_bitmap_def update_core_bitmap_def
        bitmap_simps w'_def)
  have "length (vector_insert ?k b ?xs) = Suc (length ?xs)" using kl by (simp add: vector_insert_def)
  then have ok': "wb_ok w'"
    using ok b core S' by (auto simp: wb_ok_def w'_def)
  have tb: "tb_of w' c = (if c = core then b else tb_of w c)" if c: "c \<in> insert core ?S" for c
  proof -
    consider "c = core" | "c < core" "c \<in> ?S" | "core < c" "c \<in> ?S" using c by fastforce
    then show ?thesis
    proof cases
      case 1
      have "{d \<in> insert core ?S. d < core} = {d \<in> ?S. d < core}" by auto
      then show ?thesis using 1 S' nth_vector_insert(2) [OF kl] by (simp add: tb_of_def) (simp add: w'_def)
    next
      case 2
      then have eq: "{d \<in> insert core ?S. d < c} = {d \<in> ?S. d < c}" by auto
      have "card {d \<in> ?S. d < c} < ?k" using 2 by (intro prefix_less) auto
      then show ?thesis using 2 S' eq nth_vector_insert(1) [OF kl] by (simp add: tb_of_def) (simp add: w'_def)
    next
      case 3
      then have "{d \<in> insert core ?S. d < c} = insert core {d \<in> ?S. d < c}" by auto
      then have eq: "card {d \<in> insert core ?S. d < c} = Suc (card {d \<in> ?S. d < c})" using core(2) by simp
      have "?k \<le> card {d \<in> ?S. d < c}" using 3 by (intro card_mono) auto
      then show ?thesis using 3 S' eq nth_vector_insert(3) [OF kl] by (simp add: tb_of_def) (simp add: w'_def)
    qed
  qed
  have "wb_ids w' = wb_ids w \<union> (\<lambda>t. core * 64 + t) ` ones b"
  proof (rule set_eqI)
    fix i
    have "i \<in> wb_ids w' \<longleftrightarrow> i div 64 \<in> ?S \<and> i mod 64 \<in> ones (tb_of w (i div 64)) \<or> i div 64 = core \<and> i mod 64 \<in> ones b"
      using tb [of "i div 64"] core(2) by (auto simp: wb_ids_def two_level_ids_def S' split: if_splits)
    moreover have "i div 64 = core \<and> i mod 64 \<in> ones b \<longleftrightarrow> i \<in> (\<lambda>t. core * 64 + t) ` ones b"
    proof
      assume "i div 64 = core \<and> i mod 64 \<in> ones b"
      then show "i \<in> (\<lambda>t. core * 64 + t) ` ones b" by (intro image_eqI [of _ _ "i mod 64"]) auto
    next
      assume "i \<in> (\<lambda>t. core * 64 + t) ` ones b"
      then obtain t where "i = core * 64 + t" "t \<in> ones b" "t < 64" using ones_less by blast
      then show "i div 64 = core \<and> i mod 64 \<in> ones b" by simp
    qed
    ultimately show "i \<in> wb_ids w' \<longleftrightarrow> i \<in> wb_ids w \<union> (\<lambda>t. core * 64 + t) ` ones b"
      by (auto simp: wb_ids_def two_level_ids_def)
  qed
  with that up ok' S' show ?thesis by (simp add: w'_def)
qed

text \<open>The final writer is the one with the largest id.\<close>

lemma is_final_state_eq:
  assumes ok: "wb_ok w" and n: "n < 4096"
  shows "is_final_state (n div 64) (n mod 64) w = Inr (wb_core_bitmap w \<noteq> 0 \<and> n = Max (wb_ids w))"
proof (cases "wb_core_bitmap w = 0")
  case False
  let ?S = "ones (wb_core_bitmap w)" let ?c = "Max ?S" let ?t = "Max (ones (tb_of w ?c))"
  have c: "?c \<in> ?S" using False by (simp add: Max_in)
  have tb0: "tb_of w ?c \<noteq> 0" by (rule tb_of_not_0 [OF ok c])
  then have t: "?t \<in> ones (tb_of w ?c)" by (simp add: Max_in)
  have ne: "tx_bitmaps w \<noteq> []" using ok False by (auto simp: wb_ok_def)
  have "?S = insert ?c {d \<in> ?S. d < ?c}" using c by (auto simp: le_less) (metis Max_ge finite_ones le_less)
  then have "card ?S = Suc (card {d \<in> ?S. d < ?c})" by (metis (no_types, lifting) card_insert_disjoint finite_ones finite_subset insertI2 mem_Collect_eq order_less_irrefl subsetI)
  then have last: "last (tx_bitmaps w) = tb_of w ?c" using ok ne by (simp add: last_conv_nth tb_of_def wb_ok_def)
  have fin: "finite (wb_ids w)"
    by (rule finite_subset [of _ "{..<4096}"]) (auto simp: wb_ids_def two_level_ids_def dest!: ones_less)
  have max: "Max (wb_ids w) = ?c * 64 + ?t"
  proof (rule Max_eq_if [OF fin])
    show "?c * 64 + ?t \<in> wb_ids w" using c t ones_less [OF t] by (simp add: wb_ids_def two_level_ids_at)
    fix x assume "x \<in> wb_ids w"
    then have x: "x div 64 \<in> ?S" "x mod 64 \<in> ones (tb_of w (x div 64))" by (auto simp: wb_ids_def two_level_ids_def)
    then have "x div 64 < ?c \<or> x div 64 = ?c \<and> x mod 64 \<le> ?t" by (metis Max_ge finite_ones le_less)
    then show "x \<le> ?c * 64 + ?t" by (rule pos_le)
  qed
  have "n = ?c * 64 + ?t \<longleftrightarrow> ?c = n div 64 \<and> ?t = n mod 64" using ones_less [OF t] by auto
  then show ?thesis
    using False tb0 ne by (auto simp: is_final_state_def bitmap_simps last max)
qed (simp add: is_final_state_def)

section \<open>Properties\<close>

text \<open>C29: On a well-formed write bitmap of Cheetah, with one transaction bitmap per writing core in the order of the
  cores, the search of any transaction finds the last writer before it in serial order, and publishing the
  bitmap of a further core adds exactly that core's writers, wherever its bitmap has to be inserted.\<close>

theorem write_bitmap_search:
  assumes "wb_ok w" and "n < 4096" and "core < 64" and "core \<notin> ones (wb_core_bitmap w)" and "b \<noteq> 0"
  shows "\<exists>w'. update_bitmap core b w = Inr w' \<and> wb_ok w'
    \<and> identify_visible_version_in_bitmaps (n div 64) (n mod 64) w' =
        Inr (found_pos (visible_in (wb_ids w \<union> (\<lambda>t. core * 64 + t) ` ones b) n))"
proof -
  obtain w' where w': "update_bitmap core b w = Inr w'" "wb_ok w'"
    "ones (wb_core_bitmap w') = insert core (ones (wb_core_bitmap w))"
    "wb_ids w' = wb_ids w \<union> (\<lambda>t. core * 64 + t) ` ones b"
    by (rule update_bitmap_ok [OF assms(1,3,4,5)]) blast
  from w'(3) have "wb_core_bitmap w' \<noteq> 0" by force
  from wb_identify_spec [OF w'(2) assms(2) this] w' show ?thesis by auto
qed

theorem write_bitmap_search_witness:
  "\<exists>w'. update_bitmap 1 (set_bit_at_the_given_location 3) \<lparr>ref_cnt = 0, wb_lock = 0, wb_core_bitmap = 0, tx_bitmaps = [],
      placeholders = Map.empty, wb_master = 1, previous_master = 0\<rparr> = Inr w'
    \<and> identify_visible_version_in_bitmaps 2 5 w' = Inr (True, 1, 3)"
proof -
  let ?w = "\<lparr>ref_cnt = 0, wb_lock = 0, wb_core_bitmap = 0, tx_bitmaps = [],
      placeholders = Map.empty, wb_master = 1, previous_master = 0\<rparr>"
  let ?b = "set_bit_at_the_given_location 3"
  have o: "ones ?b = {3}" by simp
  have b: "?b \<noteq> 0" using o by (metis insert_not_empty ones_0)
  have i: "wb_ids ?w = {}" "wb_ok ?w" by (simp_all add: wb_ids_def two_level_ids_def wb_ok_def)
  have "visible_in {67} 133 = Some 67" by (simp add: visible_in_Some)
  with write_bitmap_search [OF i(2), of 133 1 ?b] b i(1) o show ?thesis by auto
qed

end
