(* ===== verification/Cheetah.thy ===== *)
theory Cheetah
  imports Cheetah_Bitmap
begin

text \<open>
  The protocol class of protocols/cheetah/include/cheetah.hpp and its loader, as the calls of
  one thread; \<open>Inr None\<close> is a spin loop that does not leave in the given state.
\<close>

section \<open>State\<close>

record cheetah_db =
  hvalues :: "nat \<Rightarrow> write_bitmap"
  hmem :: mem

text \<open>\<open>bitmaps_\<close> is an unordered map from rows to this worker's transaction bitmap.\<close>

record cheetah_thread =
  hthr_core :: nat
  hthr_serial_id :: nat
  hthr_epoch :: nat
  hwrite_set :: "nat \<Rightarrow> nat list"
  hwritten_tables :: "nat set"
  hbitmaps :: "(nat \<times> u64) list"

definition put_wb :: "nat \<Rightarrow> write_bitmap \<Rightarrow> cheetah_db \<Rightarrow> cheetah_db" where
  "put_wb k w db = db\<lparr>hvalues := (hvalues db)(k := w)\<rparr>"

section \<open>The write phase\<close>

definition ch_terminate_transaction :: "cheetah_thread \<Rightarrow> cheetah_thread" where
  "ch_terminate_transaction t =
     t\<lparr>hwrite_set := (\<lambda>table_id. if table_id \<in> hwritten_tables t then [] else hwrite_set t table_id),
       hwritten_tables := {}\<rparr>"

text \<open>\<open>bitmaps_[w_bitmap]\<close> inserts \<open>0\<close> for a new row.\<close>

definition mark_bitmap :: "nat \<Rightarrow> nat \<Rightarrow> (nat \<times> u64) list \<Rightarrow> (nat \<times> u64) list res" where
  "mark_bitmap k tx bms =
     (case map_of bms k of
        None \<Rightarrow> ebind (set_bit_in_bitmap 0 tx) (\<lambda>b. Inr ((k, b) # bms))
      | Some b0 \<Rightarrow> ebind (set_bit_in_bitmap b0 tx) (\<lambda>b. Inr (map (\<lambda>(j, x). (j, if j = k then b else x)) bms)))"

definition update_write_bitmaps ::
  "(nat \<Rightarrow> nat \<Rightarrow> nat option) \<Rightarrow> nat \<Rightarrow> nat \<Rightarrow> cheetah_thread \<Rightarrow> (nat \<times> cheetah_thread) res" where
  "update_write_bitmaps idx table_id key t =
     (let t1 = t\<lparr>hwritten_tables := insert table_id (hwritten_tables t)\<rparr>
      in assert_then (length (hwrite_set t1 table_id) \<le> 10)
           (if key \<notin> set (hwrite_set t1 table_id) then
              (case idx table_id key of
                 None \<Rightarrow> Inl AssertFailed
               | Some k \<Rightarrow>
                   ebind (mark_bitmap k (hthr_serial_id t1 mod 64) (hbitmaps t1)) (\<lambda>bms.
                     assert_then (map_of bms k \<noteq> Some 0)
                       (Inr (k, t1\<lparr>hbitmaps := bms,
                                   hwrite_set := (hwrite_set t1)(table_id := hwrite_set t1 table_id @ [key])\<rparr>))))
            else Inl AssertFailed))"

fun ch_finalize_pass :: "nat \<Rightarrow> (nat \<times> u64) list \<Rightarrow> cheetah_db \<Rightarrow> ((nat \<times> u64) list \<times> cheetah_db) res" where
  "ch_finalize_pass core [] db = Inr ([], db)"
| "ch_finalize_pass core ((k, tx_bitmap) # rest) db =
     (case try_lock (wb_lock (hvalues db k)) of (ok, c) \<Rightarrow>
        if \<not> ok then ebind (ch_finalize_pass core rest db) (\<lambda>(left, db'). Inr ((k, tx_bitmap) # left, db'))
        else ebind (update_bitmap core tx_bitmap ((hvalues db k)\<lparr>wb_lock := c\<rparr>)) (\<lambda>w.
               ch_finalize_pass core rest (put_wb k (w\<lparr>wb_lock := unlock (wb_lock w)\<rparr>) db)))"

text \<open>Passes over the map until it is empty; \<open>None\<close> says that \<open>fuel\<close> passes were not enough.\<close>

fun finalize_update_write_bitmaps :: "nat \<Rightarrow> cheetah_thread \<Rightarrow> cheetah_db \<Rightarrow> (cheetah_thread \<times> cheetah_db) option res" where
  "finalize_update_write_bitmaps fuel t db =
     (if hbitmaps t = [] then Inr (Some (t, db))
      else case fuel of 0 \<Rightarrow> Inr None
           | Suc fuel' \<Rightarrow>
               ebind (ch_finalize_pass (hthr_core t) (hbitmaps t) db) (\<lambda>(left, db').
                 finalize_update_write_bitmaps fuel' (t\<lparr>hbitmaps := left\<rparr>) db'))"

section \<open>The read phase\<close>

definition ch_append_pending_version ::
  "(nat \<Rightarrow> nat \<Rightarrow> nat option) \<Rightarrow> nat \<Rightarrow> nat \<Rightarrow> cheetah_thread \<Rightarrow> cheetah_db
   \<Rightarrow> (nat \<times> nat \<times> cheetah_thread \<times> cheetah_db) res" where
  "ch_append_pending_version idx table_id key t db =
     (let t1 = t\<lparr>hwritten_tables := insert table_id (hwritten_tables t)\<rparr>
      in if key \<notin> set (hwrite_set t1 table_id) then
           (case idx table_id key of
              None \<Rightarrow> Inl AssertFailed
            | Some k \<Rightarrow>
                ebind (wb_append_pending_version (hthr_core t1) (hthr_serial_id t1 mod 64) (hvalues db k) (hmem db))
                  (\<lambda>(pending, w, m).
                     assert_then (pending \<noteq> nullptr)
                       (Inr (pending, k,
                             t1\<lparr>hwrite_set := (hwrite_set t1)(table_id := hwrite_set t1 table_id @ [key])\<rparr>,
                             (put_wb k w db)\<lparr>hmem := m\<rparr>))))
         else Inl AssertFailed)"

section \<open>The execution phase\<close>

definition cheetah_read :: "nat \<Rightarrow> nat \<Rightarrow> cheetah_db \<Rightarrow> (nat \<times> cheetah_db) option res" where
  "cheetah_read pending k db =
     ebind (wait_stable_and_execute_read pending (hmem db)) (\<lambda>r.
       case r of None \<Rightarrow> Inr None
       | Some rc \<Rightarrow>
           ebind (decrement_ref_cnt (hvalues db k) (hmem db)) (\<lambda>(w, m).
             Inr (Some (rc, (put_wb k w db)\<lparr>hmem := m\<rparr>))))"

definition cheetah_upsert :: "(nat \<Rightarrow> nat) \<Rightarrow> nat \<Rightarrow> nat \<Rightarrow> cheetah_thread \<Rightarrow> cheetah_db \<Rightarrow> (nat \<times> cheetah_db) res" where
  "cheetah_upsert record_size table_id k t db =
     ebind (identify_write_version (hthr_core t) (hthr_serial_id t mod 64) (hvalues db k) (hmem db))
       (\<lambda>(pending, w, m).
          let db1 = (put_wb k w db)\<lparr>hmem := m\<rparr>
          in if pending \<noteq> nullptr then
               ebind (upsert (record_size table_id) pending m) (\<lambda>(r, m'). Inr (r, db1\<lparr>hmem := m'\<rparr>))
             else Inr (nullptr, db1))"

definition cheetah_write :: "(nat \<Rightarrow> nat) \<Rightarrow> nat \<Rightarrow> nat \<Rightarrow> cheetah_thread \<Rightarrow> cheetah_db \<Rightarrow> (nat \<times> cheetah_db) res" where
  "cheetah_write record_size table_id k t db = cheetah_upsert record_size table_id k t db"

section \<open>Loading\<close>

definition ch_insert_into_index :: "nat \<Rightarrow> mem \<Rightarrow> write_bitmap \<times> mem" where
  "ch_insert_into_index r m =
     (let (version, m1) = new_version \<lparr>ver_rec = r, ver_status = STABLE, ver_deleted = False\<rparr> m
      in (\<lparr>ref_cnt = 0, wb_lock = 0, wb_core_bitmap = 0, tx_bitmaps = [], placeholders = Map.empty,
           wb_master = version, previous_master = nullptr\<rparr>, m1))"

fun ch_load_all_tables :: "nat \<Rightarrow> nat \<Rightarrow> cheetah_db \<Rightarrow> cheetah_db" where
  "ch_load_all_tables record_size 0 db = db"
| "ch_load_all_tables record_size (Suc key) db =
     (let db = ch_load_all_tables record_size key db;
          (r, m1) = new_record record_size (hmem db); (val, m2) = ch_insert_into_index r m1
      in (put_wb key val db)\<lparr>hmem := m2\<rparr>)"

end
