(* ===== verification/Cheetah_Epoch.thy ===== *)
theory Cheetah_Epoch
  imports Cheetah
begin

text \<open>
  One row of Cheetah through the read phase and the execution phase of an epoch. \<open>W\<close> is the set
  of serial ids that write the row, \<open>R\<close> the set that reads it; in the execution phase the
  readers and writers interleave at their atomic accesses. No version is used after it is freed,
  none is freed twice, none leaks, and every reader gets the record of the version it must see.
\<close>

section \<open>The machine of the execution phase\<close>

datatype reader_pc = RWait | RStable | RRead nat | RFinal | RDone
datatype writer_pc = WWait | WGot nat | WDone

text \<open>
  \<open>ptr\<close> is the version each reader got in the read phase. \<open>fver\<close>, \<open>wrec\<close> and \<open>out\<close> record
  the version of the final writer, the records written and the records read.
\<close>

record exec_conf =
  xw :: write_bitmap
  xm :: mem
  rst :: "nat \<Rightarrow> reader_pc"
  wst :: "nat \<Rightarrow> writer_pc"
  fver :: nat
  wrec :: "nat \<Rightarrow> nat"
  out :: "nat \<Rightarrow> nat option"

text \<open>
  A reader's next access: see a stable status (or spin), load the record, decrement the reference
  count, and collect if it was the last.
\<close>

definition reader_step :: "(nat \<Rightarrow> nat) \<Rightarrow> nat \<Rightarrow> exec_conf \<Rightarrow> exec_conf res" where
  "reader_step ptr n s =
     (case rst s n of
        RWait \<Rightarrow>
          ebind (wait_stable_and_execute_read (ptr n) (xm s)) (\<lambda>r.
            Inr (case r of None \<Rightarrow> s | Some _ \<Rightarrow> s\<lparr>rst := (rst s)(n := RStable)\<rparr>))
      | RStable \<Rightarrow>
          ebind (execute_read (ptr n) (xm s)) (\<lambda>r.
            Inr (s\<lparr>rst := (rst s)(n := RRead r), out := (out s)(n \<mapsto> r)\<rparr>))
      | RRead r \<Rightarrow>
          (case sub_ref_cnt (xw s) of (ref_cnt_new, w) \<Rightarrow>
             Inr (s\<lparr>xw := w, rst := (rst s)(n := if ref_cnt_new = 1 then RFinal else RDone)\<rparr>))
      | RFinal \<Rightarrow>
          ebind (final_reader_gc (xw s) (xm s)) (\<lambda>(w, m).
            Inr (s\<lparr>xw := w, xm := m, rst := (rst s)(n := RDone)\<rparr>))
      | RDone \<Rightarrow> Inr s)"

definition writer_step :: "nat \<Rightarrow> nat \<Rightarrow> nat \<Rightarrow> exec_conf \<Rightarrow> exec_conf res" where
  "writer_step f sz n s =
     (case wst s n of
        WWait \<Rightarrow>
          ebind (identify_write_version (n div 64) (n mod 64) (xw s) (xm s)) (\<lambda>(v, w, m).
            Inr (s\<lparr>xw := w, xm := m, wst := (wst s)(n := WGot v), fver := if n = f then v else fver s\<rparr>))
      | WGot v \<Rightarrow>
          (if v \<noteq> nullptr then
             ebind (upsert sz v (xm s)) (\<lambda>(r, m).
               Inr (s\<lparr>xm := m, wst := (wst s)(n := WDone), wrec := (wrec s)(n := r)\<rparr>))
           else Inr (s\<lparr>wst := (wst s)(n := WDone)\<rparr>))
      | WDone \<Rightarrow> Inr s)"

section \<open>Collection by the final reader\<close>

lemma wb_gc_ok:
  assumes "mem_ok m" and "stable m v"
  obtains m' where "wb_gc v m = Inr m'" "mem_ok m'" "vers m' = (vers m)(v := None)" "brk m' = brk m"
proof -
  obtain x where x: "load_version v m = Inr x" "ver_status x = STABLE" using stable_load [OF assms(2,1)] by blast
  then have "live m v" "v \<noteq> nullptr" by (auto simp: load_version_Inr live_def)
  with x delete_version_ok [OF assms(1)] that show ?thesis by (simp add: wb_gc_def) metis
qed

lemma gc_placeholders_ok:
  assumes "mem_ok m" and "distinct (map snd xs)" and "\<forall>p \<in> set xs. stable m (snd p)"
  shows "\<exists>m'. gc_placeholders xs m = Inr m' \<and> mem_ok m' \<and> vers m' = vers m |` (- (snd ` set xs)) \<and> brk m' = brk m"
  using assms
proof (induction xs arbitrary: m)
  case (Cons p xs)
  obtain i v where p: "p = (i, v)" by fastforce
  have st: "stable m v" using Cons.prems(3) by (simp add: p)
  obtain x where x: "load_version v m = Inr x" "ver_status x = STABLE" using stable_load [OF st Cons.prems(1)] by blast
  obtain m1 where m1: "wb_gc v m = Inr m1" "mem_ok m1" "vers m1 = (vers m)(v := None)" "brk m1 = brk m"
    by (rule wb_gc_ok [OF Cons.prems(1) st])
  have "\<forall>q \<in> set xs. stable m1 (snd q)" using Cons.prems(2,3) by (auto simp: stable_def m1(3) p)
  with Cons.IH [OF m1(2)] Cons.prems(2) obtain m' where m':
    "gc_placeholders xs m1 = Inr m'" "mem_ok m'" "vers m' = vers m1 |` (- (snd ` set xs))" "brk m' = brk m1"
    by (auto simp: p)
  have "vers m' = vers m |` (- (snd ` set (p # xs)))" by (auto simp: m'(3) m1(3) p restrict_map_def fun_eq_iff)
  with m' m1 x show ?case by (simp add: p)
qed (simp add: restrict_map_def)

lemma set_placeholder_list:
  "dom (placeholders w) \<subseteq> {..<4096} \<Longrightarrow> set (placeholder_list w) = {(i, v). placeholders w i = Some v}"
  by (force simp: placeholder_list_def)

lemma distinct_placeholder_list:
  assumes "inj_on (placeholders w) (dom (placeholders w))"
  shows "distinct (map snd (placeholder_list w))"
proof -
  let ?is = "filter (\<lambda>i. placeholders w i \<noteq> None) [0..<4096]"
  have "inj_on (the \<circ> placeholders w) (set ?is)"
    using assms by (auto simp: inj_on_def dom_def)
  then have "distinct (map (the \<circ> placeholders w) ?is)" by (simp add: distinct_map del: o_apply)
  moreover have "map snd (placeholder_list w) = map (the \<circ> placeholders w) ?is" by (simp add: placeholder_list_def)
  ultimately show ?thesis by (simp only:)
qed

lemma final_reader_gc_ok:
  assumes ok: "mem_ok m" and dom: "dom (placeholders w) \<subseteq> {..<4096}"
    and inj: "inj_on (placeholders w) (dom (placeholders w))"
    and stb: "\<forall>v \<in> ran (placeholders w). stable m v" and mst: "wb_master w \<noteq> nullptr"
    and prev: "previous_master w \<noteq> nullptr \<longrightarrow> stable m (previous_master w) \<and> previous_master w \<notin> ran (placeholders w)"
  obtains m' where "final_reader_gc w m =
      Inr (w\<lparr>previous_master := nullptr, placeholders := Map.empty, ref_cnt := ref_cnt w - 1\<rparr>, m')"
    "mem_ok m'" "vers m' = vers m |` (- (ran (placeholders w) \<union> (if previous_master w = nullptr then {} else {previous_master w})))"
    "brk m' = brk m"
proof -
  let ?w1 = "w\<lparr>previous_master := nullptr\<rparr>"
  have "\<exists>m1. (if previous_master w \<noteq> nullptr
            then ebind (wb_gc (previous_master w) m) (\<lambda>m1.
                   assert_then (wb_master w \<noteq> nullptr) (Inr (?w1, m1)))
            else Inr (w, m)) = Inr (?w1, m1) \<and> mem_ok m1 \<and> brk m1 = brk m
      \<and> vers m1 = vers m |` (- (if previous_master w = nullptr then {} else {previous_master w}))"
  proof (cases "previous_master w = nullptr")
    case True
    then have "?w1 = w" by (metis (full_types) write_bitmap.surjective write_bitmap.update_convs(7))
    then show ?thesis using True ok by (simp add: restrict_map_def)
  next
    case False
    with prev have "stable m (previous_master w)" by blast
    from wb_gc_ok [OF ok this] obtain m1 where "wb_gc (previous_master w) m = Inr m1" "mem_ok m1"
      "vers m1 = (vers m)(previous_master w := None)" "brk m1 = brk m" by metis
    then show ?thesis using False mst by (auto simp: restrict_map_def fun_eq_iff)
  qed
  then obtain m1 where m1: "(if previous_master w \<noteq> nullptr
            then ebind (wb_gc (previous_master w) m) (\<lambda>m1.
                   assert_then (wb_master w \<noteq> nullptr) (Inr (?w1, m1)))
            else Inr (w, m)) = Inr (?w1, m1)" "mem_ok m1" "brk m1 = brk m"
      "vers m1 = vers m |` (- (if previous_master w = nullptr then {} else {previous_master w}))" by blast
  have pl: "set (placeholder_list ?w1) = {(i, v). placeholders w i = Some v}"
    using set_placeholder_list [of ?w1] dom by simp
  then have ran: "snd ` set (placeholder_list ?w1) = ran (placeholders w)" by (force simp: ran_def)
  have "\<forall>p \<in> set (placeholder_list ?w1). stable m1 (snd p)"
    using stb prev by (auto simp: pl ran_def stable_def m1(4) restrict_map_def)
  with gc_placeholders_ok [OF m1(2) distinct_placeholder_list, of ?w1] inj obtain m2 where m2:
    "gc_placeholders (placeholder_list ?w1) m1 = Inr m2" "mem_ok m2" "vers m2 = vers m1 |` (- ran (placeholders w))"
    "brk m2 = brk m1" by (auto simp: ran)
  let ?w2 = "?w1\<lparr>placeholders := Map.empty\<rparr>"
  have m2e: "m2 = m1 \<and> ?w2 = ?w1" if "placeholders w = Map.empty"
  proof -
    have "placeholder_list ?w1 = []" using pl that by simp
    moreover have "?w2 = ?w1" using that by (metis write_bitmap.surjective write_bitmap.update_convs(5,7) write_bitmap.select_convs(5))
    ultimately show ?thesis using m2(1) by simp
  qed
  have "final_reader_gc w m = Inr (?w2\<lparr>ref_cnt := ref_cnt w - 1\<rparr>, m2)"
    unfolding final_reader_gc_def m1(1) ebind_Inr prod.case
    using m2(1) m2e by (cases "placeholders w = Map.empty") (auto simp: sub_ref_cnt_def)
  moreover have "vers m2 = vers m |` (- (ran (placeholders w) \<union> (if previous_master w = nullptr then {} else {previous_master w})))"
    by (auto simp: m2(3) m1(4) restrict_map_def fun_eq_iff)
  ultimately show ?thesis using that [of m2] m2 m1(3) by simp
qed

section \<open>The invariant\<close>

text \<open>
  What the read phase leaves: a placeholder for every version some reader will see, and for each
  reader the version it will read.
\<close>

definition placed ::
  "nat set \<Rightarrow> nat set \<Rightarrow> (nat \<Rightarrow> nat option) \<Rightarrow> nat \<Rightarrow> (nat \<Rightarrow> nat) \<Rightarrow> bool" where
  "placed W R P M0 ptr \<longleftrightarrow> W \<subseteq> {..<4096} \<and> R \<subseteq> {..<4096} \<and> dom P = {i. \<exists>n \<in> R. visible_in W n = Some i}
     \<and> inj_on P (dom P) \<and> M0 \<notin> ran P \<and> M0 \<noteq> nullptr \<and> nullptr \<notin> ran P
     \<and> (\<forall>n \<in> R. ptr n = (case visible_in W n of None \<Rightarrow> M0 | Some i \<Rightarrow> the (P i)))"

lemma placed_dom: "placed W R P M0 ptr \<Longrightarrow> i \<in> dom P \<longleftrightarrow> (\<exists>n \<in> R. visible_in W n = Some i)"
  by (simp add: placed_def)

lemma placedD:
  assumes "placed W R P M0 ptr"
  shows "M0 \<notin> ran P" "M0 \<noteq> nullptr" "nullptr \<notin> ran P" "inj_on P (dom P)"
    "P i = Some v \<Longrightarrow> P j = Some v \<Longrightarrow> i = j" "W \<subseteq> {..<4096}" "R \<subseteq> {..<4096}"
  using assms unfolding placed_def inj_on_def by (blast, blast, blast, blast, metis domI, blast, blast)

definition final_seen :: "nat set \<Rightarrow> exec_conf \<Rightarrow> bool" where
  "final_seen W s \<longleftrightarrow> W \<noteq> {} \<and> wst s (Max W) \<noteq> WWait"

definition quiet :: "nat set \<Rightarrow> exec_conf \<Rightarrow> bool" where
  "quiet R s \<longleftrightarrow> (\<forall>n \<in> R. rst s n = RDone)"

definition counted :: "nat set \<Rightarrow> exec_conf \<Rightarrow> nat set" where
  "counted R s = {n \<in> R. rst s n \<noteq> RFinal \<and> rst s n \<noteq> RDone}"

text \<open>
  The row, given whether the final writer came (\<open>fin\<close>) and whether all readers are done
  (\<open>q\<close>), with \<open>u\<close> readers still counted.
\<close>

definition row_inv ::
  "nat set \<Rightarrow> (nat \<Rightarrow> nat option) \<Rightarrow> nat \<Rightarrow> nat \<Rightarrow> bool \<Rightarrow> bool \<Rightarrow> nat \<Rightarrow> write_bitmap \<Rightarrow> bool" where
  "row_inv W P M0 fv fin q u w \<longleftrightarrow>
     (if W \<noteq> {} \<and> \<not> fin then wb_ok w \<and> wb_core_bitmap w \<noteq> 0 \<and> wb_ids w = W
      else wb_core_bitmap w = 0 \<and> tx_bitmaps w = [])
     \<and> ref_cnt w = (if q then 0 else int u + 1)
     \<and> placeholders w = (if q then Map.empty else if fin then P(Max W := None) else P)
     \<and> previous_master w = (if fin \<and> \<not> q then M0 else nullptr)
     \<and> wb_master w = (if fin then fv else M0)"

definition ver_inv :: "(nat \<Rightarrow> writer_pc) \<Rightarrow> (nat \<Rightarrow> nat) \<Rightarrow> mem \<Rightarrow> nat \<Rightarrow> nat \<Rightarrow> bool" where
  "ver_inv ws wr m i v \<longleftrightarrow> (if ws i = WDone then stab m v (wr i) else pend m v)"

text \<open>
  The store: which versions are alive, and in which state; \<open>B\<close> is the store before the epoch, which
  the row's other versions keep.
\<close>

definition mem_inv ::
  "nat set \<Rightarrow> (nat \<Rightarrow> nat option) \<Rightarrow> (nat \<Rightarrow> version option) \<Rightarrow> nat \<Rightarrow> nat \<Rightarrow> nat \<Rightarrow> bool \<Rightarrow> bool
   \<Rightarrow> (nat \<Rightarrow> writer_pc) \<Rightarrow> (nat \<Rightarrow> nat) \<Rightarrow> mem \<Rightarrow> bool" where
  "mem_inv W P B M0 r0 fv fin q ws wr m \<longleftrightarrow> mem_ok m
     \<and> (if fin \<and> q then vers m M0 = None else stab m M0 r0)
     \<and> (\<forall>i v. P i = Some v \<longrightarrow> i \<noteq> Max W \<longrightarrow> (if q then vers m v = None else ver_inv ws wr m i v))
     \<and> (\<forall>v. P (Max W) = Some v \<longrightarrow> (if fin then fv = v else pend m v))
     \<and> (fin \<longrightarrow> fv \<noteq> nullptr \<and> ver_inv ws wr m (Max W) fv \<and> fv \<noteq> M0)
     \<and> (fin \<and> P (Max W) = None \<longrightarrow> fv \<notin> ran P)
     \<and> M0 < brk m \<and> (\<forall>v \<in> ran P. v < brk m)
     \<and> (\<forall>u. u \<noteq> M0 \<longrightarrow> u \<notin> ran P \<longrightarrow> (fin \<longrightarrow> u \<noteq> fv) \<longrightarrow> vers m u = B u)"

definition pc_inv ::
  "nat set \<Rightarrow> nat set \<Rightarrow> (nat \<Rightarrow> nat option) \<Rightarrow> nat \<Rightarrow> nat \<Rightarrow> (nat \<Rightarrow> reader_pc) \<Rightarrow> (nat \<Rightarrow> writer_pc) \<Rightarrow> (nat \<Rightarrow> nat)
   \<Rightarrow> (nat \<Rightarrow> nat option) \<Rightarrow> bool" where
  "pc_inv W R P r0 fv rs ws wr o' \<longleftrightarrow>
     (\<forall>n \<in> W. \<forall>v. ws n = WGot v \<longrightarrow> v = (if n = Max W then fv else case P n of Some v \<Rightarrow> v | None \<Rightarrow> nullptr))
     \<and> (\<forall>n \<in> R. rs n \<noteq> RWait \<longrightarrow> (\<forall>i. visible_in W n = Some i \<longrightarrow> ws i = WDone))
     \<and> (\<forall>n \<in> R. o' n = (if rs n = RWait \<or> rs n = RStable then None
          else Some (case visible_in W n of None \<Rightarrow> r0 | Some i \<Rightarrow> wr i)))
     \<and> (\<forall>n \<in> R. rs n = RFinal \<longrightarrow> (\<forall>k \<in> R. k \<noteq> n \<longrightarrow> rs k = RDone))"

definition exec_inv ::
  "nat set \<Rightarrow> nat set \<Rightarrow> (nat \<Rightarrow> nat option) \<Rightarrow> (nat \<Rightarrow> version option) \<Rightarrow> nat \<Rightarrow> nat \<Rightarrow> exec_conf \<Rightarrow> bool" where
  "exec_inv W R P B M0 r0 s \<longleftrightarrow>
     row_inv W P M0 (fver s) (final_seen W s) (quiet R s) (card (counted R s)) (xw s)
     \<and> mem_inv W P B M0 r0 (fver s) (final_seen W s) (quiet R s) (wst s) (wrec s) (xm s)
     \<and> pc_inv W R P r0 (fver s) (rst s) (wst s) (wrec s) (out s)"

lemma exec_invD:
  assumes "exec_inv W R P B M0 r0 s"
  shows "row_inv W P M0 (fver s) (final_seen W s) (quiet R s) (card (counted R s)) (xw s)"
    "mem_inv W P B M0 r0 (fver s) (final_seen W s) (quiet R s) (wst s) (wrec s) (xm s)"
    "pc_inv W R P r0 (fver s) (rst s) (wst s) (wrec s) (out s)"
  using assms by (simp_all add: exec_inv_def)

lemma mem_invD:
  assumes "mem_inv W P B M0 r0 fv fin q ws wr m"
  shows "mem_ok m" "fin \<Longrightarrow> q \<Longrightarrow> vers m M0 = None" "\<not> fin \<or> \<not> q \<Longrightarrow> stab m M0 r0"
    "P i = Some v \<Longrightarrow> i \<noteq> Max W \<Longrightarrow> \<not> q \<Longrightarrow> ver_inv ws wr m i v"
    "P i = Some v \<Longrightarrow> i \<noteq> Max W \<Longrightarrow> q \<Longrightarrow> vers m v = None"
    "P (Max W) = Some v \<Longrightarrow> fin \<Longrightarrow> fv = v" "P (Max W) = Some v \<Longrightarrow> \<not> fin \<Longrightarrow> pend m v"
    "fin \<Longrightarrow> fv \<noteq> nullptr" "fin \<Longrightarrow> ver_inv ws wr m (Max W) fv" "fin \<Longrightarrow> fv \<noteq> M0"
    "fin \<Longrightarrow> P (Max W) = None \<Longrightarrow> fv \<notin> ran P" "M0 < brk m" "v \<in> ran P \<Longrightarrow> v < brk m"
    "u \<noteq> M0 \<Longrightarrow> u \<notin> ran P \<Longrightarrow> fin \<longrightarrow> u \<noteq> fv \<Longrightarrow> vers m u = B u"
  using assms unfolding mem_inv_def by (simp_all split: if_splits)

lemma pc_invD:
  assumes "pc_inv W R P r0 fv rs ws wr o'"
  shows "\<forall>n \<in> W. \<forall>v. ws n = WGot v \<longrightarrow> v = (if n = Max W then fv else case P n of Some v \<Rightarrow> v | None \<Rightarrow> nullptr)"
    "\<forall>n \<in> R. rs n \<noteq> RWait \<longrightarrow> (\<forall>i. visible_in W n = Some i \<longrightarrow> ws i = WDone)"
    "\<forall>n \<in> R. o' n = (if rs n = RWait \<or> rs n = RStable then None
       else Some (case visible_in W n of None \<Rightarrow> r0 | Some i \<Rightarrow> wr i))"
    "\<forall>n \<in> R. rs n = RFinal \<longrightarrow> (\<forall>k \<in> R. k \<noteq> n \<longrightarrow> rs k = RDone)"
  using assms unfolding pc_inv_def by blast+

lemma not_quiet: "n \<in> R \<Longrightarrow> rst s n \<noteq> RDone \<Longrightarrow> \<not> quiet R s"
  by (auto simp: quiet_def)

text \<open>The version a waiting reader looks at.\<close>

lemma ptr_state:
  assumes pl: "placed W R P M0 ptr" and inv: "exec_inv W R P B M0 r0 s" and n: "n \<in> R" "\<not> quiet R s"
  shows "visible_in W n = None \<Longrightarrow> stab (xm s) (ptr n) r0"
    and "visible_in W n = Some i \<Longrightarrow> if wst s i = WDone then stab (xm s) (ptr n) (wrec s i) else pend (xm s) (ptr n)"
    and "ptr n \<noteq> nullptr"
proof -
  note mi = exec_invD(2) [OF inv]
  show "stab (xm s) (ptr n) r0" if "visible_in W n = None"
    using that n mi pl by (simp add: mem_inv_def placed_def)
  show "if wst s i = WDone then stab (xm s) (ptr n) (wrec s i) else pend (xm s) (ptr n)" if v: "visible_in W n = Some i"
  proof -
    have "i \<in> dom P" using v n(1) pl by (auto simp: placed_def)
    then obtain p where p1: "P i = Some p" by blast
    moreover from p1 have "ptr n = p" using v n(1) pl by (simp add: placed_def)
    ultimately have p: "P i = Some p" "ptr n = p" .
    have "W \<noteq> {}" using v by (auto simp: visible_in_Some)
    show ?thesis
    proof (cases "i = Max W")
      case True
      then show ?thesis using mi p \<open>W \<noteq> {}\<close> n(2)
        by (cases "final_seen W s") (auto simp: mem_inv_def ver_inv_def final_seen_def split: if_splits)
    next
      case False
      then show ?thesis using mi p n(2) by (auto simp: mem_inv_def ver_inv_def)
    qed
  qed
  have "the (P i) \<in> ran P" if "visible_in W n = Some i" for i
  proof -
    have "i \<in> dom P" using that n(1) pl by (auto simp: placed_def)
    then show ?thesis by (auto simp: ran_def)
  qed
  moreover have "M0 \<noteq> nullptr" "nullptr \<notin> ran P"
    "ptr n = (case visible_in W n of None \<Rightarrow> M0 | Some i \<Rightarrow> the (P i))" using pl n(1) by (simp_all add: placed_def)
  ultimately show "ptr n \<noteq> nullptr" by (cases "visible_in W n") (simp, metis option.simps(5))
qed

section \<open>Readers\<close>

text \<open>A reader that moves on without touching the row.\<close>

lemma exec_inv_reader_moves:
  assumes inv: "exec_inv W R P B M0 r0 s" and n: "n \<in> R" "rst s n \<noteq> RFinal" "rst s n \<noteq> RDone"
    and pc: "pc \<noteq> RFinal" "pc \<noteq> RDone"
    and vis: "\<And>i. pc \<noteq> RWait \<Longrightarrow> visible_in W n = Some i \<Longrightarrow> wst s i = WDone"
    and o': "o' = (if pc = RWait \<or> pc = RStable then None else Some (case visible_in W n of None \<Rightarrow> r0 | Some i \<Rightarrow> wrec s i))"
  shows "exec_inv W R P B M0 r0 (s\<lparr>rst := (rst s)(n := pc), out := (out s)(n := o')\<rparr>)"
proof -
  let ?s = "s\<lparr>rst := (rst s)(n := pc), out := (out s)(n := o')\<rparr>"
  have "quiet R ?s = quiet R s" "counted R ?s = counted R s" "final_seen W ?s = final_seen W s"
    using n pc by (auto simp: quiet_def counted_def final_seen_def)
  moreover have "pc_inv W R P r0 (fver s) (rst ?s) (wst s) (wrec s) (out ?s)"
    unfolding pc_inv_def
  proof (intro conjI)
    show "\<forall>k \<in> R. rst ?s k \<noteq> RWait \<longrightarrow> (\<forall>i. visible_in W k = Some i \<longrightarrow> wst s i = WDone)"
      using pc_invD(2) [OF exec_invD(3) [OF inv]] vis by simp
    show "\<forall>k \<in> R. out ?s k = (if rst ?s k = RWait \<or> rst ?s k = RStable then None
          else Some (case visible_in W k of None \<Rightarrow> r0 | Some i \<Rightarrow> wrec s i))"
      using pc_invD(3) [OF exec_invD(3) [OF inv]] o' by simp
    show "\<forall>k \<in> R. rst ?s k = RFinal \<longrightarrow> (\<forall>j \<in> R. j \<noteq> k \<longrightarrow> rst ?s j = RDone)"
    proof (intro ballI impI)
      fix k j assume k: "k \<in> R" "rst ?s k = RFinal" "j \<in> R" "j \<noteq> k"
      then have "k \<noteq> n" "rst s k = RFinal" using pc by (auto split: if_splits)
      then have "rst s n = RDone" using pc_invD(4) [OF exec_invD(3) [OF inv]] k(1) n(1) by metis
      then show "rst ?s j = RDone" using n(3) by simp
    qed
  qed (use pc_invD(1) [OF exec_invD(3) [OF inv]] in simp)
  ultimately show ?thesis using exec_invD(1,2) [OF inv] by (simp add: exec_inv_def)
qed

lemma reader_waits:
  assumes pl: "placed W R P M0 ptr" and inv: "exec_inv W R P B M0 r0 s" and n: "n \<in> R" "rst s n = RWait"
  shows "\<exists>s'. reader_step ptr n s = Inr s' \<and> exec_inv W R P B M0 r0 s'"
proof -
  have nq: "\<not> quiet R s" by (rule not_quiet [OF n(1)]) (simp add: n(2))
  note ps = ptr_state [OF pl inv n(1) nq]
  have o0: "out s n = None" using pc_invD(3) [OF exec_invD(3) [OF inv]] n by simp
  have mv: "exec_inv W R P B M0 r0 (s\<lparr>rst := (rst s)(n := RStable)\<rparr>)"
    if "\<And>i. visible_in W n = Some i \<Longrightarrow> wst s i = WDone"
    using exec_inv_reader_moves [OF inv n(1), of RStable None] n that o0 by (simp add: fun_upd_idem)
  show ?thesis
  proof (cases "visible_in W n")
    case None
    then show ?thesis using mv ps(1,3) by (simp add: reader_step_def n wait_stab)
  next
    case (Some i)
    show ?thesis
    proof (cases "wst s i = WDone")
      case True
      then show ?thesis using mv Some ps(2,3) wait_stab [of "ptr n"] by (simp add: reader_step_def n)
    next
      case False
      then show ?thesis using inv ps(2) [OF Some] ps(3) wait_pend by (simp add: reader_step_def n)
    qed
  qed
qed

lemma reader_reads:
  assumes pl: "placed W R P M0 ptr" and inv: "exec_inv W R P B M0 r0 s" and n: "n \<in> R" "rst s n = RStable"
  shows "\<exists>s'. reader_step ptr n s = Inr s' \<and> exec_inv W R P B M0 r0 s'"
proof -
  have nq: "\<not> quiet R s" by (rule not_quiet [OF n(1)]) (simp add: n(2))
  note ps = ptr_state [OF pl inv n(1) nq]
  let ?r = "case visible_in W n of None \<Rightarrow> r0 | Some i \<Rightarrow> wrec s i"
  have dn: "wst s i = WDone" if "visible_in W n = Some i" for i
    using pc_invD(2) [OF exec_invD(3) [OF inv]] n that by auto
  have "stab (xm s) (ptr n) ?r"
    using ps(1,2) dn by (cases "visible_in W n") auto
  then have "execute_read (ptr n) (xm s) = Inr ?r" using ps(3) read_stab by blast
  moreover have "exec_inv W R P B M0 r0 (s\<lparr>rst := (rst s)(n := RRead ?r), out := (out s)(n := Some ?r)\<rparr>)"
    using exec_inv_reader_moves [OF inv n(1), of "RRead ?r" "Some ?r"] n dn by simp
  ultimately show ?thesis by (simp add: reader_step_def n)
qed

lemma finite_counted: "placed W R P M0 ptr \<Longrightarrow> finite (counted R s)"
  by (rule finite_subset [of _ "{..<4096}"]) (auto simp: placed_def counted_def)

lemma reader_decrements:
  assumes pl: "placed W R P M0 ptr" and inv: "exec_inv W R P B M0 r0 s" and n: "n \<in> R" "rst s n = RRead r"
  shows "\<exists>s'. reader_step ptr n s = Inr s' \<and> exec_inv W R P B M0 r0 s'"
proof -
  have nq: "\<not> quiet R s" by (rule not_quiet [OF n(1)]) (simp add: n(2))
  have nc: "n \<in> counted R s" using n by (simp add: counted_def)
  note ri = exec_invD(1) [OF inv] and pi = exec_invD(3) [OF inv]
  have rc: "ref_cnt (xw s) = int (card (counted R s)) + 1" using ri nq by (simp add: row_inv_def)
  let ?last = "card (counted R s) = 1"
  let ?pc = "if ?last then RFinal else RDone" let ?w = "(xw s)\<lparr>ref_cnt := ref_cnt (xw s) - 1\<rparr>"
  let ?s = "s\<lparr>xw := ?w, rst := (rst s)(n := ?pc)\<rparr>"
  have c': "counted R ?s = counted R s - {n}" using n by (auto simp: counted_def)
  then have card': "int (card (counted R ?s)) + 1 = int (card (counted R s))"
    using nc finite_counted [OF pl, of s] card_Suc_Diff1 [of "counted R s" n] by simp
  have others: "rst s k = RDone" if "k \<in> R" "k \<noteq> n" "?last" for k
  proof -
    have "counted R s = {n}" using that(3) nc by (auto simp: card_1_singleton_iff)
    then have "rst s k = RFinal \<or> rst s k = RDone" using that by (auto simp: counted_def)
    moreover have "rst s k \<noteq> RFinal"
    proof
      assume "rst s k = RFinal"
      then have "rst s n = RDone" using pc_invD(4) [OF pi] that(1,2) n(1) by metis
      then show False using n(2) by simp
    qed
    ultimately show ?thesis by blast
  qed
  have q': "\<not> quiet R ?s"
  proof (cases "?last")
    case True
    then show ?thesis using n by (auto simp: quiet_def)
  next
    case False
    then have "counted R s \<noteq> {n}" by (metis card_1_singleton_iff One_nat_def)
    then obtain k where "k \<in> counted R s" "k \<noteq> n" using nc by blast
    then show ?thesis by (auto simp: quiet_def counted_def)
  qed
  have "row_inv W P M0 (fver s) (final_seen W s) (quiet R s) (card (counted R ?s)) ?w"
    using ri nq card' rc by (auto simp: row_inv_def split: if_splits)
  moreover have "pc_inv W R P r0 (fver s) (rst ?s) (wst s) (wrec s) (out s)"
    unfolding pc_inv_def
  proof (intro conjI)
    show "\<forall>k \<in> R. rst ?s k \<noteq> RWait \<longrightarrow> (\<forall>i. visible_in W k = Some i \<longrightarrow> wst s i = WDone)"
      using pc_invD(2) [OF pi] n by auto
    show "\<forall>k \<in> R. out s k = (if rst ?s k = RWait \<or> rst ?s k = RStable then None
          else Some (case visible_in W k of None \<Rightarrow> r0 | Some i \<Rightarrow> wrec s i))"
      using pc_invD(3) [OF pi] n by simp
    show "\<forall>k \<in> R. rst ?s k = RFinal \<longrightarrow> (\<forall>j \<in> R. j \<noteq> k \<longrightarrow> rst ?s j = RDone)"
      using pc_invD(4) [OF pi] n others by auto
  qed (use pc_invD(1) [OF pi] in simp)
  ultimately have "exec_inv W R P B M0 r0 ?s"
    using exec_invD(2) [OF inv] q' nq by (simp add: exec_inv_def final_seen_def)
  moreover have "reader_step ptr n s = Inr ?s"
    by (simp add: reader_step_def n sub_ref_cnt_def rc)
  ultimately show ?thesis by blast
qed

lemma reader_collects:
  assumes pl: "placed W R P M0 ptr" and inv: "exec_inv W R P B M0 r0 s" and n: "n \<in> R" "rst s n = RFinal"
  shows "\<exists>s'. reader_step ptr n s = Inr s' \<and> exec_inv W R P B M0 r0 s'"
proof -
  have nq: "\<not> quiet R s" by (rule not_quiet [OF n(1)]) (simp add: n(2))
  note ri = exec_invD(1) [OF inv] and mi = exec_invD(2) [OF inv] and pi = exec_invD(3) [OF inv]
  have alone: "rst s k = RDone" if "k \<in> R" "k \<noteq> n" for k using pc_invD(4) [OF pi] n that by metis
  then have cnt: "counted R s = {}" using n by (auto simp: counted_def)
  have dn: "wst s i = WDone" if "i \<in> dom P" for i
  proof -
    from that have "\<exists>k \<in> R. visible_in W k = Some i" by (simp only: placed_dom [OF pl])
    then obtain k where k: "k \<in> R" "visible_in W k = Some i" ..
    then have "rst s k \<noteq> RWait" using alone n by (cases "k = n") auto
    then show ?thesis using pc_invD(2) [OF pi] k by blast
  qed
  let ?fin = "final_seen W s" let ?w = "xw s" let ?m = "xm s"
  have ph: "placeholders ?w = (if ?fin then P(Max W := None) else P)" using ri nq by (simp add: row_inv_def)
  have nofin: "Max W \<notin> dom P" if "\<not> ?fin"
  proof
    assume d: "Max W \<in> dom P"
    then have "W \<noteq> {}" using pl by (auto simp: placed_def visible_in_Some)
    with dn [OF d] that show False by (simp add: final_seen_def)
  qed
  have sub: "placeholders ?w \<subseteq>\<^sub>m P" and off: "Max W \<notin> dom (placeholders ?w)"
    using nofin by (auto simp: ph map_le_def)
  then have ran: "ran (placeholders ?w) \<subseteq> ran P" and dom: "dom (placeholders ?w) \<subseteq> dom P"
    by (auto simp: ran_def map_le_def dom_def) (metis domI domIff option.distinct(1))+
  have st: "stable ?m v" if "v \<in> ran (placeholders ?w)" for v
  proof -
    from that obtain i where i: "placeholders ?w i = Some v" by (auto simp: ran_def)
    then have "P i = Some v" "i \<noteq> Max W" using sub off by (auto simp: map_le_def dom_def)
    moreover from this have "wst s i = WDone" using dn by blast
    ultimately have "stab ?m v (wrec s i)" using mem_invD(4) [OF mi, of i v] nq by (simp add: ver_inv_def)
    then show ?thesis by (rule stab_stable)
  qed
  have M0: "M0 \<notin> ran P" "M0 \<noteq> nullptr" using pl by (auto simp: placed_def)
  have prv: "previous_master ?w = (if ?fin then M0 else nullptr)" using ri nq by (simp add: row_inv_def)
  have d4: "dom (placeholders ?w) \<subseteq> {..<4096}"
    using dom pl by (auto simp: placed_def visible_in_Some subset_iff)
  have inj: "inj_on (placeholders ?w) (dom (placeholders ?w))"
    using pl sub dom unfolding placed_def inj_on_def map_le_def by (metis subsetD)
  have mst: "wb_master ?w \<noteq> nullptr" using ri mi M0(2) by (auto simp: row_inv_def mem_inv_def)
  have prev: "previous_master ?w \<noteq> nullptr \<longrightarrow> stable ?m (previous_master ?w) \<and> previous_master ?w \<notin> ran (placeholders ?w)"
    using prv mi nq M0 ran by (auto simp: mem_inv_def intro: stab_stable)
  have stall: "\<forall>v \<in> ran (placeholders ?w). stable ?m v" using st by blast
  have mok: "mem_ok ?m" using mi by (simp add: mem_inv_def)
  let ?free = "ran (placeholders ?w) \<union> (if previous_master ?w = nullptr then {} else {previous_master ?w})"
  let ?w' = "?w\<lparr>previous_master := nullptr, placeholders := Map.empty, ref_cnt := ref_cnt ?w - 1\<rparr>"
  obtain m' where m': "final_reader_gc ?w ?m = Inr (?w', m')" "mem_ok m'" "vers m' = vers ?m |` (- ?free)" "brk m' = brk ?m"
    by (rule final_reader_gc_ok [OF mok d4 inj stall mst prev])
  let ?s = "s\<lparr>xw := ?w', xm := m', rst := (rst s)(n := RDone)\<rparr>"
  have q': "quiet R ?s" "final_seen W ?s = ?fin" using alone by (auto simp: quiet_def final_seen_def)
  have ri': "row_inv W P M0 (fver s) ?fin True (card (counted R ?s)) ?w'"
    using ri nq cnt by (auto simp: row_inv_def split: if_splits)
  have keep: "vers m' v = vers ?m v" if "v \<notin> ran (placeholders ?w)" "?fin \<longrightarrow> v \<noteq> M0" for v
    using that by (auto simp: m'(3) restrict_map_def prv)
  have fvk: "fver s \<notin> ran (placeholders ?w)" if ?fin
  proof
    assume "fver s \<in> ran (placeholders ?w)"
    then obtain i where pi: "placeholders ?w i = Some (fver s)" by (auto simp: ran_def)
    then have i: "P i = Some (fver s)" "i \<noteq> Max W" using sub off by (auto simp: map_le_def dom_def)
    show False
    proof (cases "P (Max W)")
      case None
      then show False using mi that i(1) by (auto simp: mem_inv_def ran_def)
    next
      case (Some v)
      then have "P (Max W) = P i" using mi that i(1) by (simp add: mem_inv_def)
      then show False using pl i Some unfolding placed_def inj_on_def by (metis domI)
    qed
  qed
  have mi': "mem_inv W P B M0 r0 (fver s) ?fin True (wst s) (wrec s) m'"
    unfolding mem_inv_def
  proof (intro conjI)
    show "if ?fin \<and> True then vers m' M0 = None else stab m' M0 r0"
      using keep [of M0] M0 ran mi nq by (auto simp: m'(3) restrict_map_def prv mem_inv_def stab_def)
    show "\<forall>i v. P i = Some v \<longrightarrow> i \<noteq> Max W \<longrightarrow> (if True then vers m' v = None else ver_inv (wst s) (wrec s) m' i v)"
      by (auto simp: m'(3) restrict_map_def ran_def ph)
    show "\<forall>v. P (Max W) = Some v \<longrightarrow> (if ?fin then fver s = v else pend m' v)"
      using mi nofin by (auto simp: mem_inv_def)
    show "?fin \<longrightarrow> fver s \<noteq> nullptr \<and> ver_inv (wst s) (wrec s) m' (Max W) (fver s) \<and> fver s \<noteq> M0"
      using mi fvk keep [of "fver s"] by (auto simp: mem_inv_def ver_inv_def stab_def pend_def)
    show "?fin \<and> P (Max W) = None \<longrightarrow> fver s \<notin> ran P" using mi by (simp add: mem_inv_def)
    show "M0 < brk m'" "\<forall>v \<in> ran P. v < brk m'" using mem_invD(12,13) [OF mi] m'(4) by simp_all
    show "\<forall>u. u \<noteq> M0 \<longrightarrow> u \<notin> ran P \<longrightarrow> (?fin \<longrightarrow> u \<noteq> fver s) \<longrightarrow> vers m' u = B u"
      using keep ran mem_invD(14) [OF mi] by (metis subsetD)
  qed (rule m'(2))
  have pi': "pc_inv W R P r0 (fver s) (rst ?s) (wst s) (wrec s) (out s)"
    unfolding pc_inv_def
  proof (intro conjI)
    show "\<forall>k \<in> R. rst ?s k \<noteq> RWait \<longrightarrow> (\<forall>i. visible_in W k = Some i \<longrightarrow> wst s i = WDone)"
      using pc_invD(2) [OF pi] n by auto
    show "\<forall>k \<in> R. out s k = (if rst ?s k = RWait \<or> rst ?s k = RStable then None
          else Some (case visible_in W k of None \<Rightarrow> r0 | Some i \<Rightarrow> wrec s i))"
      using pc_invD(3) [OF pi] n by simp
    show "\<forall>k \<in> R. rst ?s k = RFinal \<longrightarrow> (\<forall>j \<in> R. j \<noteq> k \<longrightarrow> rst ?s j = RDone)"
      using alone by auto
  qed (use pc_invD(1) [OF pi] in simp)
  have "exec_inv W R P B M0 r0 ?s" using ri' mi' pi' q' by (simp add: exec_inv_def)
  moreover have "reader_step ptr n s = Inr ?s" by (simp add: reader_step_def n m'(1))
  ultimately show ?thesis by blast
qed

section \<open>Writers\<close>

lemma ver_inv_cong: "vers m' v = vers m v \<Longrightarrow> ver_inv ws wr m' i v = ver_inv ws wr m i v"
  by (simp add: ver_inv_def stab_def pend_def)

lemma ver_inv_wst: "ws n \<noteq> WDone \<Longrightarrow> pc \<noteq> WDone \<Longrightarrow> ver_inv (ws(n := pc)) = ver_inv ws"
  by (auto simp: ver_inv_def fun_eq_iff)

lemma mem_inv_wst:
  "ws n \<noteq> WDone \<Longrightarrow> pc \<noteq> WDone \<Longrightarrow>
     mem_inv W P B M0 r0 fv fin q (ws(n := pc)) wr m = mem_inv W P B M0 r0 fv fin q ws wr m"
  by (simp add: mem_inv_def ver_inv_wst)

lemma pc_inv_got:
  assumes pi: "pc_inv W R P r0 fv rs ws wr o'" and n: "ws n = WWait"
    and v: "if n = Max W then fv' = v else fv' = fv \<and> v = (case P n of Some v \<Rightarrow> v | None \<Rightarrow> nullptr)"
  shows "pc_inv W R P r0 fv' rs (ws(n := WGot v)) wr o'"
  unfolding pc_inv_def
proof (intro conjI)
  show "\<forall>k \<in> W. \<forall>u. (ws(n := WGot v)) k = WGot u
      \<longrightarrow> u = (if k = Max W then fv' else case P k of Some v \<Rightarrow> v | None \<Rightarrow> nullptr)"
    using pc_invD(1) [OF pi] v by (auto split: if_splits)
  show "\<forall>k \<in> R. rs k \<noteq> RWait \<longrightarrow> (\<forall>i. visible_in W k = Some i \<longrightarrow> (ws(n := WGot v)) i = WDone)"
    using pc_invD(2) [OF pi] n by fastforce
qed (use pc_invD(3,4) [OF pi] in simp_all)

text \<open>A version whose writer is not done and that some reader must see keeps that reader waiting.\<close>

lemma unread_when_quiet:
  assumes pl: "placed W R P M0 ptr" and pi: "pc_inv W R P r0 fv (rst s) (wst s) wr o'"
    and n: "wst s n \<noteq> WDone" and q: "quiet R s"
  shows "P n = None"
proof (rule ccontr)
  assume "P n \<noteq> None"
  then have "\<exists>k \<in> R. visible_in W k = Some n" using placed_dom [OF pl, of n] by blast
  then obtain k where k: "k \<in> R" "visible_in W k = Some n" ..
  then have "rst s k = RDone" using q by (simp add: quiet_def)
  then have "wst s n = WDone" using pc_invD(2) [OF pi] k by (metis reader_pc.distinct(7))
  with n show False ..
qed

lemma writer_passes:
  assumes pl: "placed W R P M0 ptr" and inv: "exec_inv W R P B M0 r0 s"
    and n: "n \<in> W" "wst s n = WWait" "n \<noteq> Max W"
  shows "\<exists>s'. writer_step (Max W) sz n s = Inr s' \<and> exec_inv W R P B M0 r0 s'"
proof -
  note ri = exec_invD(1) [OF inv] and pi = exec_invD(3) [OF inv]
  have n4: "n < 4096" "W \<noteq> {}" using n(1) pl by (auto simp: placed_def)
  have nf: "is_final_state (n div 64) (n mod 64) (xw s) = Inr False"
    using is_final_state_eq [OF _ n4(1), of "xw s"] ri n(3) n4(2)
    by (cases "final_seen W s") (simp_all add: row_inv_def is_final_state_def)
  have ph: "placeholders (xw s) n = P n"
    using ri n(3) unread_when_quiet [OF pl pi, of n] n(2) by (simp add: row_inv_def split: if_splits)
  let ?v = "case P n of Some v \<Rightarrow> v | None \<Rightarrow> nullptr"
  let ?s = "s\<lparr>wst := (wst s)(n := WGot ?v)\<rparr>"
  have "writer_step (Max W) sz n s = Inr ?s"
    using n nf ph by (simp add: writer_step_def identify_write_version_def wb_get_serial_id_def Let_def mult.commute)
  moreover have "exec_inv W R P B M0 r0 ?s"
    using inv n pc_inv_got [OF pi n(2), of "fver s"]
    by (simp add: exec_inv_def final_seen_def quiet_def counted_def mem_inv_wst)
  ultimately show ?thesis by blast
qed

text \<open>The final writer's version: its placeholder if somebody reads it, a new version otherwise.\<close>

lemma final_version:
  assumes pl: "placed W R P M0 ptr" and mi: "mem_inv W P B M0 r0 fv False q ws wr m"
    and w: "placeholders w = (if q then Map.empty else P)" and q: "q \<Longrightarrow> P (Max W) = None"
  obtains v m1 where
    "(case placeholders w (Max W) of
        None \<Rightarrow> (let (v, m1) = create_pending_version m in (v, w, m1))
      | Some v \<Rightarrow> (v, w\<lparr>placeholders := (placeholders w)(Max W := None)\<rparr>, m))
     = (v, w\<lparr>placeholders := (placeholders w)(Max W := None)\<rparr>, m1)"
    "mem_ok m1" "pend m1 v" "v \<noteq> nullptr" "v \<noteq> M0" "brk m \<le> brk m1" "\<And>u. u \<noteq> v \<Longrightarrow> vers m1 u = vers m u"
    "P (Max W) = None \<Longrightarrow> v \<notin> ran P" "P (Max W) \<noteq> None \<Longrightarrow> P (Max W) = Some v"
proof (cases "P (Max W)")
  case None
  obtain v m1 where c: "create_pending_version m = (v, m1)" by fastforce
  note cr = create_pending_version_ok [OF mem_invD(1) [OF mi] c]
  have "placeholders w (Max W) = None" using w None by simp
  moreover from this have "w\<lparr>placeholders := (placeholders w)(Max W := None)\<rparr> = w" by (simp add: fun_upd_idem)
  moreover have "brk m \<le> brk m1" using c by (auto simp: create_pending_version_eq)
  moreover have "pend m1 v" by (simp add: pend_def cr(5))
  moreover have "v \<noteq> M0" using mem_invD(12) [OF mi] cr(4) by simp
  moreover have "v \<notin> ran P" using mem_invD(13) [OF mi] cr(4) by fastforce
  ultimately show ?thesis using that [of v m1] c cr None by simp
next
  case (Some v)
  then have nq: "\<not> q" using q by auto
  have "v \<in> ran P" using Some by (auto simp: ran_def)
  then have "v \<noteq> M0" "v \<noteq> nullptr" using placedD(1,3) [OF pl] by metis+
  moreover have "pend m v" using mem_invD(7) [OF mi Some] by simp
  moreover have "placeholders w (Max W) = Some v" using w nq Some by simp
  ultimately show ?thesis by (intro that [of v m]) (simp_all add: Some mem_invD(1) [OF mi])
qed

lemma row_inv_final:
  assumes "row_inv W P M0 fv False q u w" and "W \<noteq> {}"
  shows "row_inv W P M0 v True q u
    (w\<lparr>placeholders := (placeholders w)(Max W := None), previous_master := if q then nullptr else M0,
        wb_master := v, wb_core_bitmap := 0, tx_bitmaps := []\<rparr>)"
  using assms by (simp add: row_inv_def split: if_splits)

lemma mem_inv_final:
  assumes pl: "placed W R P M0 ptr" and mi: "mem_inv W P B M0 r0 fv False q ws wr m" and nd: "ws (Max W) \<noteq> WDone"
    and ok: "mem_ok m1" and v: "pend m1 v" "v \<noteq> nullptr" "v \<noteq> M0"
    and b: "brk m \<le> brk m1" and keep: "\<And>u. u \<noteq> v \<Longrightarrow> u \<noteq> M0 \<or> \<not> q \<Longrightarrow> vers m1 u = vers m u"
    and gone: "q \<Longrightarrow> vers m1 M0 = None" and new: "P (Max W) = None \<Longrightarrow> v \<notin> ran P"
    and old: "P (Max W) \<noteq> None \<Longrightarrow> P (Max W) = Some v"
  shows "mem_inv W P B M0 r0 v True q ws wr m1"
  unfolding mem_inv_def
proof (intro conjI)
  show "if True \<and> q then vers m1 M0 = None else stab m1 M0 r0"
    using gone keep [of M0] mem_invD(3) [OF mi] v(3) by (auto simp: stab_def)
  show "\<forall>i u. P i = Some u \<longrightarrow> i \<noteq> Max W \<longrightarrow> (if q then vers m1 u = None else ver_inv ws wr m1 i u)"
  proof (intro allI impI)
    fix i u assume i: "P i = Some u" "i \<noteq> Max W"
    have "u \<in> ran P" using i by (auto simp: ran_def)
    moreover from this have "u \<noteq> M0" using placedD(1) [OF pl] by metis
    moreover have "u \<noteq> v"
    proof
      assume uv: "u = v"
      then have "P (Max W) = Some v" using old new \<open>u \<in> ran P\<close> by metis
      then show False using placedD(5) [OF pl] i uv by metis
    qed
    ultimately have "vers m1 u = vers m u" using keep by metis
    then show "if q then vers m1 u = None else ver_inv ws wr m1 i u"
      using mem_invD(4,5) [OF mi i] ver_inv_cong [of m1 u m] by (cases q) simp_all
  qed
  show "M0 < brk m1" using mem_invD(12) [OF mi] b by simp
  show "\<forall>u \<in> ran P. u < brk m1" using mem_invD(13) [OF mi] b by fastforce
  show "\<forall>u. u \<noteq> M0 \<longrightarrow> u \<notin> ran P \<longrightarrow> (True \<longrightarrow> u \<noteq> v) \<longrightarrow> vers m1 u = B u"
    using keep mem_invD(14) [OF mi] by metis
qed (use ok v nd new old in \<open>auto simp: ver_inv_def\<close>)

lemma writer_finalizes:
  assumes pl: "placed W R P M0 ptr" and inv: "exec_inv W R P B M0 r0 s" and n: "n \<in> W" "wst s n = WWait" "n = Max W"
  shows "\<exists>s'. writer_step (Max W) sz n s = Inr s' \<and> exec_inv W R P B M0 r0 s'"
proof -
  have n4: "n < 4096" "W \<noteq> {}" using n(1) pl by (auto simp: placed_def)
  let ?q = "quiet R s" let ?w = "xw s"
  have nfin: "final_seen W s = False" using n by (simp add: final_seen_def)
  note ri = exec_invD(1) [OF inv, unfolded nfin] and mi = exec_invD(2) [OF inv, unfolded nfin] and pi = exec_invD(3) [OF inv]
  have row: "wb_ok ?w" "wb_core_bitmap ?w \<noteq> 0" "wb_ids ?w = W" "wb_master ?w = M0" "previous_master ?w = nullptr"
    "placeholders ?w = (if ?q then Map.empty else P)" "ref_cnt ?w = 0 \<longleftrightarrow> ?q"
    using ri n4(2) by (auto simp: row_inv_def)
  have fs: "is_final_state (n div 64) (n mod 64) ?w = Inr True"
    using is_final_state_eq [OF row(1) n4(1)] row n(3) by simp
  have qn: "P (Max W) = None" if ?q using unread_when_quiet [OF pl pi _ that, of n] n by simp
  let ?w1 = "?w\<lparr>placeholders := (placeholders ?w)(Max W := None)\<rparr>"
  obtain v m1 where v: "(case placeholders ?w (Max W) of
        None \<Rightarrow> (let (v, m1) = create_pending_version (xm s) in (v, ?w, m1))
      | Some v \<Rightarrow> (v, ?w1, xm s)) = (v, ?w1, m1)"
    "mem_ok m1" "pend m1 v" "v \<noteq> nullptr" "v \<noteq> M0" "brk (xm s) \<le> brk m1"
    "\<And>u. u \<noteq> v \<Longrightarrow> vers m1 u = vers (xm s) u"
    "P (Max W) = None \<Longrightarrow> v \<notin> ran P" "P (Max W) \<noteq> None \<Longrightarrow> P (Max W) = Some v"
    using final_version [OF pl mi row(6) qn] by (metis (no_types, lifting))
  let ?w' = "?w1\<lparr>previous_master := if ?q then nullptr else M0, wb_master := v, wb_core_bitmap := 0, tx_bitmaps := []\<rparr>"
  have "\<exists>m2. identify_write_version (n div 64) (n mod 64) ?w (xm s) = Inr (v, ?w', m2) \<and> mem_inv W P B M0 r0 v True ?q (wst s) (wrec s) m2"
  proof (cases ?q)
    case True
    have "stable m1 M0" using mem_invD(3) [OF mi] v(5) v(7) [of M0] by (auto simp: stab_def stable_def)
    then obtain m2 where m2: "wb_gc M0 m1 = Inr m2" "mem_ok m2" "vers m2 = (vers m1)(M0 := None)" "brk m2 = brk m1"
      by (rule wb_gc_ok [OF v(2)])
    have w0: "?w\<lparr>previous_master := nullptr\<rparr> = ?w" using row(5) by (metis write_bitmap.surjective write_bitmap.update_convs(7))
    have "mem_inv W P B M0 r0 v True ?q (wst s) (wrec s) m2"
      by (rule mem_inv_final [OF pl mi _ m2(2) _ v(4,5)]) (use n v m2 True in \<open>auto simp: pend_def\<close>)
    moreover have "identify_write_version (n div 64) (n mod 64) ?w (xm s) = Inr (v, ?w', m2)"
      using v(1) fs n(3) row True m2(1)
      by (simp add: identify_write_version_def wb_get_serial_id_def Let_def mult.commute clear_bitmaps_def)
    ultimately show ?thesis by blast
  next
    case False
    have "mem_inv W P B M0 r0 v True ?q (wst s) (wrec s) m1"
      by (rule mem_inv_final [OF pl mi _ v(2-5)]) (use n v False in auto)
    moreover have "identify_write_version (n div 64) (n mod 64) ?w (xm s) = Inr (v, ?w', m1)"
      using v(1) fs n(3) row False
      by (simp add: identify_write_version_def wb_get_serial_id_def Let_def mult.commute clear_bitmaps_def)
    ultimately show ?thesis by blast
  qed
  then obtain m2 where m2: "identify_write_version (n div 64) (n mod 64) ?w (xm s) = Inr (v, ?w', m2)"
    "mem_inv W P B M0 r0 v True ?q (wst s) (wrec s) m2" by blast
  let ?s = "s\<lparr>xw := ?w', xm := m2, wst := (wst s)(n := WGot v), fver := v\<rparr>"
  have "writer_step (Max W) sz n s = Inr ?s" using n m2(1) by (simp add: writer_step_def)
  moreover have "exec_inv W R P B M0 r0 ?s"
    using row_inv_final [OF ri n4(2), of v] m2(2) pc_inv_got [OF pi n(2), of v v] n n4(2)
    by (simp add: exec_inv_def final_seen_def quiet_def counted_def mem_inv_wst)
  ultimately show ?thesis by blast
qed

text \<open>The version a writer fills is its own: no other writer's placeholder and not the master.\<close>

definition owns :: "nat set \<Rightarrow> (nat \<Rightarrow> nat option) \<Rightarrow> nat \<Rightarrow> bool \<Rightarrow> nat \<Rightarrow> nat \<Rightarrow> bool" where
  "owns W P fv fin n v \<longleftrightarrow> (if n = Max W then fin \<and> v = fv else P n = Some v)"

lemma owns_unique:
  assumes pl: "placed W R P M0 ptr" and mi: "mem_inv W P B M0 r0 fv fin q ws wr m"
    and o: "owns W P fv fin n v" "owns W P fv fin k v"
  shows "n = k"
proof -
  have max: "P i \<noteq> Some fv" if "fin" "i \<noteq> Max W" for i
  proof (cases "P (Max W)")
    case None
    then show ?thesis using mem_invD(11) [OF mi that(1)] by (auto simp: ran_def)
  next
    case (Some u)
    then show ?thesis using mem_invD(6) [OF mi Some that(1)] placedD(5) [OF pl, of i u "Max W"] that(2) by auto
  qed
  then show ?thesis using o placedD(5) [OF pl, of n v k] by (auto simp: owns_def split: if_splits)
qed

lemma owns_not_master:
  assumes "placed W R P M0 ptr" and "mem_inv W P B M0 r0 fv fin q ws wr m" and "owns W P fv fin n v"
  shows "v \<noteq> M0"
  using mem_invD(10) [OF assms(2)] placedD(1) [OF assms(1)] assms(3) by (auto simp: owns_def ran_def split: if_splits)

lemma mem_inv_upsert:
  assumes pl: "placed W R P M0 ptr" and mi: "mem_inv W P B M0 r0 fv fin q ws wr m"
    and own: "owns W P fv fin n v" and n: "ws n \<noteq> WDone" "n \<noteq> Max W \<longrightarrow> \<not> q"
    and m': "mem_ok m'" "vers m v = Some x" "vers m' = (vers m)(v \<mapsto> x\<lparr>ver_rec := r, ver_status := STABLE\<rparr>)" "brk m \<le> brk m'"
  shows "mem_inv W P B M0 r0 fv fin q (ws(n := WDone)) (wr(n := r)) m'"
proof -
  let ?ver = "ver_inv (ws(n := WDone)) (wr(n := r)) m'"
  have mine: "?ver n v" by (simp add: ver_inv_def stab_def m'(3))
  have frame: "?ver k u" if "ver_inv ws wr m k u" "k \<noteq> n" "u \<noteq> v" for k u
    using that by (auto simp: ver_inv_def stab_def pend_def m'(3) split: if_splits)
  have other: "u \<noteq> v" if "owns W P fv fin k u" "k \<noteq> n" for k u
    using owns_unique [OF pl mi own, of k] that by blast
  have mM: "vers m' M0 = vers m M0" using owns_not_master [OF pl mi own] by (simp add: m'(3))
  show ?thesis
    unfolding mem_inv_def
  proof (intro conjI)
    show "if fin \<and> q then vers m' M0 = None else stab m' M0 r0"
      using mem_invD(2,3) [OF mi] by (auto simp: mM stab_def)
    show "\<forall>i u. P i = Some u \<longrightarrow> i \<noteq> Max W \<longrightarrow> (if q then vers m' u = None else ?ver i u)"
    proof (intro allI impI)
      fix i u assume i: "P i = Some u" "i \<noteq> Max W"
      then have oi: "owns W P fv fin i u" by (simp add: owns_def)
      show "if q then vers m' u = None else ?ver i u"
      proof (cases "i = n")
        case True
        then have "u = v" using i own by (simp add: owns_def)
        then show ?thesis using mine True i n(2) by simp
      next
        case False
        then show ?thesis using other [OF oi False] frame [of i u] mem_invD(4,5) [OF mi i] by (simp add: m'(3))
      qed
    qed
    show "\<forall>u. P (Max W) = Some u \<longrightarrow> (if fin then fv = u else pend m' u)"
    proof (intro allI impI)
      fix u assume u: "P (Max W) = Some u"
      show "if fin then fv = u else pend m' u"
      proof (cases fin)
        case False
        then have "n \<noteq> Max W" "P n = Some v" using own by (auto simp: owns_def split: if_splits)
        then have "u \<noteq> v" using placedD(5) [OF pl, of n v "Max W"] u by auto
        then show ?thesis using False mem_invD(7) [OF mi u] by (simp add: pend_def m'(3))
      qed (use mem_invD(6) [OF mi u] in simp)
    qed
    show "fin \<longrightarrow> fv \<noteq> nullptr \<and> ?ver (Max W) fv \<and> fv \<noteq> M0"
    proof
      assume f: fin
      then have of: "owns W P fv fin (Max W) fv" by (simp add: owns_def)
      have "?ver (Max W) fv"
      proof (cases "n = Max W")
        case True
        then show ?thesis using mine own by (simp add: owns_def)
      next
        case False
        then show ?thesis using other [OF of] frame mem_invD(9) [OF mi f] by metis
      qed
      then show "fv \<noteq> nullptr \<and> ?ver (Max W) fv \<and> fv \<noteq> M0" using mem_invD(8,10) [OF mi f] by simp
    qed
    show "fin \<and> P (Max W) = None \<longrightarrow> fv \<notin> ran P" using mem_invD(11) [OF mi] by blast
    show "M0 < brk m'" "\<forall>u \<in> ran P. u < brk m'" using mem_invD(12,13) [OF mi] m'(4) by fastforce+
    show "\<forall>u. u \<noteq> M0 \<longrightarrow> u \<notin> ran P \<longrightarrow> (fin \<longrightarrow> u \<noteq> fv) \<longrightarrow> vers m' u = B u"
    proof (intro allI impI)
      fix u assume u: "u \<noteq> M0" "u \<notin> ran P" "fin \<longrightarrow> u \<noteq> fv"
      then have "u \<noteq> v" using own by (auto simp: owns_def ran_def split: if_splits)
      then show "vers m' u = B u" using mem_invD(14) [OF mi u] by (simp add: m'(3))
    qed
  qed (rule m'(1))
qed

lemma pc_inv_done:
  assumes pi: "pc_inv W R P r0 fv rs ws wr o'" and n: "ws n \<noteq> WDone"
  shows "pc_inv W R P r0 fv rs (ws(n := WDone)) (wr(n := r)) o'"
  unfolding pc_inv_def
proof (intro conjI)
  show "\<forall>k \<in> W. \<forall>u. (ws(n := WDone)) k = WGot u
      \<longrightarrow> u = (if k = Max W then fv else case P k of Some v \<Rightarrow> v | None \<Rightarrow> nullptr)"
    using pc_invD(1) [OF pi] by (auto split: if_splits)
  show "\<forall>k \<in> R. rs k \<noteq> RWait \<longrightarrow> (\<forall>i. visible_in W k = Some i \<longrightarrow> (ws(n := WDone)) i = WDone)"
    using pc_invD(2) [OF pi] by simp
  show "\<forall>k \<in> R. o' k = (if rs k = RWait \<or> rs k = RStable then None
          else Some (case visible_in W k of None \<Rightarrow> r0 | Some i \<Rightarrow> (wr(n := r)) i))"
  proof
    fix k assume k: "k \<in> R"
    have "visible_in W k \<noteq> Some n" if "rs k \<noteq> RWait" using pc_invD(2) [OF pi] k n that by blast
    then have "rs k \<noteq> RWait \<Longrightarrow> (case visible_in W k of None \<Rightarrow> r0 | Some i \<Rightarrow> (wr(n := r)) i)
        = (case visible_in W k of None \<Rightarrow> r0 | Some i \<Rightarrow> wr i)" by (auto split: option.split)
    then show "o' k = (if rs k = RWait \<or> rs k = RStable then None
          else Some (case visible_in W k of None \<Rightarrow> r0 | Some i \<Rightarrow> (wr(n := r)) i))"
      using pc_invD(3) [OF pi] k by simp
  qed
qed (use pc_invD(4) [OF pi] in simp)

lemma writer_fills:
  assumes pl: "placed W R P M0 ptr" and inv: "exec_inv W R P B M0 r0 s" and n: "n \<in> W" "wst s n = WGot v"
  shows "\<exists>s'. writer_step (Max W) sz n s = Inr s' \<and> exec_inv W R P B M0 r0 s'"
proof -
  let ?fin = "final_seen W s" let ?q = "quiet R s"
  note ri = exec_invD(1) [OF inv] and mi = exec_invD(2) [OF inv] and pi = exec_invD(3) [OF inv]
  have nd: "wst s n \<noteq> WDone" using n by simp
  have v: "v = (if n = Max W then fver s else case P n of Some v \<Rightarrow> v | None \<Rightarrow> nullptr)"
    using pc_invD(1) [OF pi] n by blast
  have mx: "?fin" if "n = Max W" using that n by (auto simp: final_seen_def)
  show ?thesis
  proof (cases "v = nullptr")
    case True
    then have n2: "n \<noteq> Max W" using v mx mem_invD(8) [OF mi] by auto
    have "P n \<noteq> Some nullptr" using placedD(3) [OF pl] by (auto simp: ran_def)
    then have Pn: "P n = None" using v n2 True by (auto split: option.splits)
    let ?s = "s\<lparr>wst := (wst s)(n := WDone)\<rparr>"
    have vi: "ver_inv ((wst s)(n := WDone)) wr m i = ver_inv (wst s) wr m i" if "i \<noteq> n" for wr m i
      using that by (simp add: ver_inv_def fun_eq_iff)
    have "mem_inv W P B M0 r0 (fver s) ?fin ?q ((wst s)(n := WDone)) (wrec s) (xm s)"
      unfolding mem_inv_def
    proof (intro conjI)
      show "\<forall>i v. P i = Some v \<longrightarrow> i \<noteq> Max W
          \<longrightarrow> (if ?q then vers (xm s) v = None else ver_inv ((wst s)(n := WDone)) (wrec s) (xm s) i v)"
      proof (intro allI impI)
        fix i u assume i: "P i = Some u" "i \<noteq> Max W"
        then have "i \<noteq> n" using Pn by auto
        then show "if ?q then vers (xm s) u = None else ver_inv ((wst s)(n := WDone)) (wrec s) (xm s) i u"
          using mem_invD(4,5) [OF mi i] by (simp add: vi)
      qed
    qed (use mi n2 vi [of "Max W"] in \<open>simp_all add: mem_inv_def\<close>)
    moreover have "pc_inv W R P r0 (fver s) (rst s) ((wst s)(n := WDone)) (wrec s) (out s)"
      using pc_inv_done [OF pi nd, of "wrec s n"] by simp
    ultimately have "exec_inv W R P B M0 r0 ?s"
      using ri n2 by (simp add: exec_inv_def final_seen_def quiet_def counted_def)
    moreover have "writer_step (Max W) sz n s = Inr ?s" by (simp add: writer_step_def n True)
    ultimately show ?thesis by blast
  next
    case False
    have own: "owns W P (fver s) ?fin n v" using v mx False by (auto simp: owns_def split: option.splits if_splits)
    have nq: "\<not> ?q" if "n \<noteq> Max W"
      using unread_when_quiet [OF pl pi nd] own that by (auto simp: owns_def)
    have "ver_inv (wst s) (wrec s) (xm s) n v"
      using own mem_invD(4) [OF mi, of n v] mem_invD(9) [OF mi] nq by (auto simp: owns_def split: if_splits)
    then have "pend (xm s) v" using nd by (simp add: ver_inv_def)
    then obtain r m' x where u: "upsert sz v (xm s) = Inr (r, m')" "mem_ok m'" "vers (xm s) v = Some x"
      "vers m' = (vers (xm s))(v \<mapsto> x\<lparr>ver_rec := r, ver_status := STABLE\<rparr>)" "brk (xm s) \<le> brk m'"
      using pend_upsert [OF mem_invD(1) [OF mi] _ False] by metis
    let ?s = "s\<lparr>xm := m', wst := (wst s)(n := WDone), wrec := (wrec s)(n := r)\<rparr>"
    have "final_seen W ?s = ?fin" using mx n by (auto simp: final_seen_def)
    then have "exec_inv W R P B M0 r0 ?s"
      using ri mem_inv_upsert [OF pl mi own nd _ u(2-5)] nq pc_inv_done [OF pi nd, of r]
      by (simp add: exec_inv_def quiet_def counted_def)
    moreover have "writer_step (Max W) sz n s = Inr ?s" by (simp add: writer_step_def n False u(1))
    ultimately show ?thesis by blast
  qed
qed

section \<open>Every schedule of the execution phase\<close>

definition exec_step :: "(nat \<Rightarrow> nat) \<Rightarrow> nat \<Rightarrow> nat \<Rightarrow> actor \<Rightarrow> exec_conf \<Rightarrow> exec_conf res" where
  "exec_step ptr f sz a s = (case a of Reader n \<Rightarrow> reader_step ptr n s | Writer n \<Rightarrow> writer_step f sz n s)"

fun exec_run :: "(nat \<Rightarrow> nat) \<Rightarrow> nat \<Rightarrow> nat \<Rightarrow> actor list \<Rightarrow> exec_conf \<Rightarrow> exec_conf res" where
  "exec_run ptr f sz [] s = Inr s"
| "exec_run ptr f sz (a # sched) s = ebind (exec_step ptr f sz a s) (exec_run ptr f sz sched)"

lemma reader_step_ok:
  assumes "placed W R P M0 ptr" and "exec_inv W R P B M0 r0 s" and "n \<in> R"
  shows "\<exists>s'. reader_step ptr n s = Inr s' \<and> exec_inv W R P B M0 r0 s'"
  using reader_waits [OF assms] reader_reads [OF assms] reader_decrements [OF assms] reader_collects [OF assms] assms(2)
  by (cases "rst s n") (auto simp: reader_step_def)

lemma writer_step_ok:
  assumes "placed W R P M0 ptr" and "exec_inv W R P B M0 r0 s" and "n \<in> W"
  shows "\<exists>s'. writer_step (Max W) sz n s = Inr s' \<and> exec_inv W R P B M0 r0 s'"
  using writer_passes [OF assms] writer_finalizes [OF assms] writer_fills [OF assms] assms(2)
  by (cases "wst s n"; cases "n = Max W") (auto simp: writer_step_def)

lemma exec_step_ok:
  assumes "placed W R P M0 ptr" and "exec_inv W R P B M0 r0 s" and "a \<in> actors W R"
  shows "\<exists>s'. exec_step ptr (Max W) sz a s = Inr s' \<and> exec_inv W R P B M0 r0 s'"
  using assms(3) reader_step_ok [OF assms(1,2)] writer_step_ok [OF assms(1,2)]
  by (auto simp: exec_step_def actors_def)

lemma exec_run_ok:
  assumes "placed W R P M0 ptr" and "exec_inv W R P B M0 r0 s" and "set sched \<subseteq> actors W R"
  shows "\<exists>s'. exec_run ptr (Max W) sz sched s = Inr s' \<and> exec_inv W R P B M0 r0 s'"
  using assms(2,3)
proof (induction sched arbitrary: s)
  case (Cons a sched)
  from exec_step_ok [OF assms(1) Cons.prems(1), of a] Cons.prems(2) obtain s1 where
    "exec_step ptr (Max W) sz a s = Inr s1" "exec_inv W R P B M0 r0 s1" by auto
  with Cons.IH Cons.prems(2) show ?case by simp
qed simp

end
