(* ===== verification/Cheetah_Phases.thy ===== *)
theory Cheetah_Phases
  imports Cheetah_Epoch
begin

text \<open>
  The three phases of a Cheetah epoch on one row, composed as executables/ycsb_cheetah.cpp runs
  them: every worker that writes the row publishes its bitmap, every reader gets its version, then
  readers and writers execute in any interleaving. The row ends as it began, with the final
  writer's version as its master and every other version of the epoch freed.
\<close>

section \<open>The write phase\<close>

text \<open>The updates of \<open>finalize_update_write_bitmaps\<close> on the row, in the order its lock was taken.\<close>

fun write_phase :: "(nat \<times> u64) list \<Rightarrow> write_bitmap \<Rightarrow> write_bitmap res" where
  "write_phase [] w = Inr w"
| "write_phase ((core, tx_bitmap) # rest) w = ebind (update_bitmap core tx_bitmap w) (write_phase rest)"

definition writer_ids :: "(nat \<times> u64) list \<Rightarrow> nat set" where
  "writer_ids us = (\<Union>(core, b) \<in> set us. (\<lambda>t. core * 64 + t) ` ones b)"

definition row_idle :: "nat \<Rightarrow> write_bitmap \<Rightarrow> bool" where
  "row_idle M0 w \<longleftrightarrow> ref_cnt w = 0 \<and> wb_core_bitmap w = 0 \<and> tx_bitmaps w = [] \<and> placeholders w = Map.empty
     \<and> wb_master w = M0 \<and> previous_master w = nullptr"

definition updates_ok :: "(nat \<times> u64) list \<Rightarrow> bool" where
  "updates_ok us \<longleftrightarrow> distinct (map fst us) \<and> (\<forall>(core, b) \<in> set us. core < 64 \<and> b \<noteq> 0)"

lemma writer_ids_simps [simp]:
  "writer_ids [] = {}" "writer_ids ((core, b) # us) = (\<lambda>t. core * 64 + t) ` ones b \<union> writer_ids us"
  by (auto simp: writer_ids_def)

lemma writer_ids_less: "updates_ok us \<Longrightarrow> writer_ids us \<subseteq> {..<4096}"
  by (fastforce simp: updates_ok_def writer_ids_def dest: ones_less)

lemma writer_ids_empty: "updates_ok us \<Longrightarrow> writer_ids us = {} \<longleftrightarrow> us = []"
  by (cases us) (auto simp: updates_ok_def)

lemma write_phase_extends:
  assumes "updates_ok us" and "wb_ok w" and "ones (wb_core_bitmap w) \<inter> fst ` set us = {}"
  shows "\<exists>w'. write_phase us w = Inr w' \<and> wb_ok w' \<and> wb_ids w' = wb_ids w \<union> writer_ids us
    \<and> ones (wb_core_bitmap w') = ones (wb_core_bitmap w) \<union> fst ` set us
    \<and> w' = w\<lparr>wb_core_bitmap := wb_core_bitmap w', tx_bitmaps := tx_bitmaps w'\<rparr>"
  using assms
proof (induction us arbitrary: w)
  case (Cons u us)
  obtain core b where u: "u = (core, b)" by fastforce
  have c: "core < 64" "core \<notin> ones (wb_core_bitmap w)" "b \<noteq> 0" using Cons.prems(1,3) by (auto simp: updates_ok_def u)
  obtain w1 where w1: "update_bitmap core b w = Inr w1" "wb_ok w1"
    "ones (wb_core_bitmap w1) = insert core (ones (wb_core_bitmap w))"
    "wb_ids w1 = wb_ids w \<union> (\<lambda>t. core * 64 + t) ` ones b"
    "w1 = w\<lparr>wb_core_bitmap := wb_core_bitmap w1, tx_bitmaps := tx_bitmaps w1\<rparr>"
    by (rule update_bitmap_ok [OF Cons.prems(2) c])
  have us: "updates_ok us" "core \<notin> fst ` set us" using Cons.prems(1) by (auto simp: updates_ok_def u)
  have dj: "ones (wb_core_bitmap w1) \<inter> fst ` set us = {}" using Cons.prems(3) w1(3) us(2) by (auto simp: u)
  from Cons.IH [OF us(1) w1(2) dj] obtain w' where w': "write_phase us w1 = Inr w'" "wb_ok w'"
    "wb_ids w' = wb_ids w1 \<union> writer_ids us" "ones (wb_core_bitmap w') = ones (wb_core_bitmap w1) \<union> fst ` set us"
    "w' = w1\<lparr>wb_core_bitmap := wb_core_bitmap w', tx_bitmaps := tx_bitmaps w'\<rparr>" by blast
  have "w' = w\<lparr>wb_core_bitmap := wb_core_bitmap w', tx_bitmaps := tx_bitmaps w'\<rparr>"
    by (subst w'(5), subst w1(5)) simp
  moreover have "wb_ids w' = wb_ids w \<union> writer_ids (u # us)" using w'(3) w1(4) by (auto simp: u)
  moreover have "ones (wb_core_bitmap w') = ones (wb_core_bitmap w) \<union> fst ` set (u # us)" using w'(4) w1(3) by (auto simp: u)
  moreover have "write_phase (u # us) w = Inr w'" using w1(1) w'(1) by (simp add: u)
  ultimately show ?case using w'(2) by blast
qed simp

lemma wb_ok_cleared: "wb_core_bitmap w = 0 \<Longrightarrow> tx_bitmaps w = [] \<Longrightarrow> wb_ok w \<and> wb_ids w = {}"
  by (simp add: wb_ok_def wb_ids_def two_level_ids_def)

lemma write_phase_ok:
  assumes us: "updates_ok us" and w: "row_idle M0 w"
  obtains w' where "write_phase us w = Inr w'" "wb_ok w'" "wb_ids w' = writer_ids us"
    "wb_core_bitmap w' = 0 \<longleftrightarrow> us = []" "us = [] \<Longrightarrow> tx_bitmaps w' = []"
    "ref_cnt w' = 0" "placeholders w' = Map.empty" "wb_master w' = M0" "previous_master w' = nullptr"
proof -
  have c: "wb_core_bitmap w = 0" "tx_bitmaps w = []" using w by (simp_all add: row_idle_def)
  have ok: "wb_ok w" "wb_ids w = {}" "ones (wb_core_bitmap w) \<inter> fst ` set us = {}"
    using wb_ok_cleared [OF c] c by simp_all
  from write_phase_extends [OF us ok(1,3)] obtain w' where w': "write_phase us w = Inr w'" "wb_ok w'"
    "wb_ids w' = wb_ids w \<union> writer_ids us" "ones (wb_core_bitmap w') = ones (wb_core_bitmap w) \<union> fst ` set us"
    "w' = w\<lparr>wb_core_bitmap := wb_core_bitmap w', tx_bitmaps := tx_bitmaps w'\<rparr>" by blast
  have "ref_cnt w' = ref_cnt w" "placeholders w' = placeholders w" "wb_master w' = wb_master w"
    "previous_master w' = previous_master w" by (subst w'(5), simp)+
  moreover have "wb_core_bitmap w' = 0 \<longleftrightarrow> us = []" using w'(4) c(1) by (metis image_is_empty ones_eq_empty_iff set_empty sup_bot_left)
  moreover have "us = [] \<Longrightarrow> tx_bitmaps w' = []" using w'(1) c(2) by simp
  ultimately show ?thesis using that w' ok(2) w by (simp add: row_idle_def)
qed

section \<open>The read phase\<close>

text \<open>
  The calls of \<open>append_pending_version\<close> on the row, in any order. The counter updates of two calls
  commute and nothing decrements the counter in this phase, so a call is one step.
\<close>

fun read_phase ::
  "nat list \<Rightarrow> (nat \<Rightarrow> nat) \<Rightarrow> write_bitmap \<Rightarrow> mem \<Rightarrow> ((nat \<Rightarrow> nat) \<times> write_bitmap \<times> mem) res" where
  "read_phase [] ptr w m = Inr (ptr, w, m)"
| "read_phase (n # ns) ptr w m =
     ebind (wb_append_pending_version (n div 64) (n mod 64) w m) (\<lambda>(v, w1, m1).
       read_phase ns (ptr(n := v)) w1 m1)"

lemma placed_extend_old:
  assumes pl: "placed W S P M0 ptr" and n: "n < 4096"
    and v: "case visible_in W n of None \<Rightarrow> v = M0 | Some i \<Rightarrow> P i = Some v"
  shows "placed W (insert n S) P M0 (ptr(n := v))"
proof -
  have "dom P = {i. \<exists>k \<in> insert n S. visible_in W k = Some i}"
    using pl v unfolding placed_def by (cases "visible_in W n") (auto simp: dom_def)
  moreover have "\<forall>k \<in> insert n S. (ptr(n := v)) k = (case visible_in W k of None \<Rightarrow> M0 | Some i \<Rightarrow> the (P i))"
    using pl v unfolding placed_def by (auto split: option.splits)
  moreover have "insert n S \<subseteq> {..<4096}" using placedD(7) [OF pl] n by simp
  ultimately show ?thesis using placedD(1-4,6) [OF pl] unfolding placed_def by (intro conjI)
qed

lemma placed_extend_new:
  assumes pl: "placed W S P M0 ptr" and n: "n < 4096"
    and i: "visible_in W n = Some i" "P i = None" and v: "v \<notin> ran P" "v \<noteq> M0" "v \<noteq> nullptr"
  shows "placed W (insert n S) (P(i \<mapsto> v)) M0 (ptr(n := v))"
proof -
  have ran: "ran (P(i \<mapsto> v)) = insert v (ran P)" using i(2) by (rule ran_map_upd)
  have "dom (P(i \<mapsto> v)) = {j. \<exists>k \<in> insert n S. visible_in W k = Some j}"
    using pl i(1) unfolding placed_def by auto
  moreover have "inj_on (P(i \<mapsto> v)) (dom (P(i \<mapsto> v)))"
    using placedD(5) [OF pl] v(1) by (auto simp: inj_on_def ran_def split: if_splits)
  moreover have "\<forall>k \<in> insert n S. (ptr(n := v)) k = (case visible_in W k of None \<Rightarrow> M0 | Some j \<Rightarrow> the ((P(i \<mapsto> v)) j))"
  proof
    fix k assume k: "k \<in> insert n S"
    have "visible_in W k \<noteq> Some i" if "k \<noteq> n" using k that i(2) placed_dom [OF pl, of i] by auto
    then show "(ptr(n := v)) k = (case visible_in W k of None \<Rightarrow> M0 | Some j \<Rightarrow> the ((P(i \<mapsto> v)) j))"
      using k pl i(1) unfolding placed_def by (auto split: option.split)
  qed
  ultimately show ?thesis using pl n v ran by (simp add: placed_def)
qed

definition read_inv ::
  "nat set \<Rightarrow> nat set \<Rightarrow> (nat \<Rightarrow> version option) \<Rightarrow> nat \<Rightarrow> nat \<Rightarrow> (nat \<Rightarrow> nat) \<Rightarrow> write_bitmap \<Rightarrow> mem \<Rightarrow> bool" where
  "read_inv W S B M0 r0 ptr w m \<longleftrightarrow> placed W S (placeholders w) M0 ptr
     \<and> mem_inv W (placeholders w) B M0 r0 0 False False (\<lambda>_. WWait) (\<lambda>_. 0) m
     \<and> ref_cnt w = (if S = {} then 0 else int (card S) + 1)
     \<and> wb_ok w \<and> wb_ids w = W \<and> (wb_core_bitmap w = 0 \<longleftrightarrow> W = {}) \<and> (W = {} \<longrightarrow> tx_bitmaps w = [])
     \<and> wb_master w = M0 \<and> previous_master w = nullptr \<and> (\<forall>v \<in> ran (placeholders w). B v = None)"

lemma read_invD:
  assumes "read_inv W S B M0 r0 ptr w m"
  shows "placed W S (placeholders w) M0 ptr"
    "mem_inv W (placeholders w) B M0 r0 0 False False (\<lambda>_. WWait) (\<lambda>_. 0) m"
    "ref_cnt w = (if S = {} then 0 else int (card S) + 1)"
    "wb_ok w" "wb_ids w = W" "wb_core_bitmap w = 0 \<longleftrightarrow> W = {}" "wb_master w = M0" "previous_master w = nullptr"
    "\<forall>v \<in> ran (placeholders w). B v = None"
  using assms unfolding read_inv_def by blast+

lemma count_reader_eq: "count_reader w = w\<lparr>ref_cnt := if ref_cnt w = 0 then 2 else ref_cnt w + 1\<rparr>"
  by (simp add: count_reader_def fetch_add_def)

lemma master_version_eq: "stab m (wb_master w) r \<Longrightarrow> wb_master w \<noteq> nullptr \<Longrightarrow> master_version w m = Inr (wb_master w)"
  by (auto simp: stab_def master_version_def load_version_def)

lemma mem_inv_place:
  assumes mi: "mem_inv W P B M0 r0 0 False False (\<lambda>_. WWait) (\<lambda>_. 0) m" and c: "create_pending_version m = (v, m1)"
    and i: "P i = None" and M0: "M0 \<noteq> v"
  shows "mem_inv W (P(i \<mapsto> v)) B M0 r0 0 False False (\<lambda>_. WWait) (\<lambda>_. 0) m1"
proof -
  note cr = create_pending_version_ok [OF mem_invD(1) [OF mi] c]
  have ran: "ran (P(i \<mapsto> v)) = insert v (ran P)" using i by (rule ran_map_upd)
  have pend: "pend m1 u" if "(P(i \<mapsto> v)) j = Some u" for j u
  proof (cases "u = v")
    case False
    then have "P j = Some u" using that by (auto split: if_splits)
    then have "pend m u" using mem_invD(4,7) [OF mi] by (cases "j = Max W") (auto simp: ver_inv_def)
    then show ?thesis using False by (simp add: pend_def cr(5))
  qed (simp add: pend_def cr(5))
  have b: "brk m1 = brk m + 1" using c by (auto simp: create_pending_version_eq)
  show ?thesis
    unfolding mem_inv_def
  proof (intro conjI)
    show "if False \<and> False then vers m1 M0 = None else stab m1 M0 r0"
      using mem_invD(3) [OF mi] M0 by (simp add: stab_def cr(5))
    show "\<forall>u \<in> ran (P(i \<mapsto> v)). u < brk m1" unfolding ran using mem_invD(13) [OF mi] cr(4) b by fastforce
    show "\<forall>u. u \<noteq> M0 \<longrightarrow> u \<notin> ran (P(i \<mapsto> v)) \<longrightarrow> (False \<longrightarrow> u \<noteq> 0) \<longrightarrow> vers m1 u = B u"
      using mem_invD(14) [OF mi] by (simp add: ran cr(5))
  qed (use pend mem_invD(12) [OF mi] cr(1) b in \<open>simp_all add: ver_inv_def\<close>)
qed

lemma read_step:
  assumes inv: "read_inv W S B M0 r0 ptr w m" and n: "n < 4096" "n \<notin> S"
  shows "\<exists>v w1 m1. wb_append_pending_version (n div 64) (n mod 64) w m = Inr (v, w1, m1)
    \<and> read_inv W (insert n S) B M0 r0 (ptr(n := v)) w1 m1"
proof -
  note pl = read_invD(1) [OF inv] and mi = read_invD(2) [OF inv]
  let ?P = "placeholders w" let ?w = "count_reader w"
  have "finite S" using placedD(7) [OF pl] by (rule finite_subset) simp
  then have rc: "ref_cnt ?w = int (card (insert n S)) + 1"
    using read_invD(3) [OF inv] n(2) by (simp add: count_reader_eq)
  have id: "wb_core_bitmap ?w \<noteq> 0 \<Longrightarrow> identify_visible_version_in_bitmaps (n div 64) (n mod 64) ?w = Inr (found_pos (visible_in W n))"
    using wb_identify_spec [OF _ n(1), of ?w] read_invD(4,5) [OF inv] by (simp add: count_reader_eq)
  have frame: "read_inv W (insert n S) B M0 r0 (ptr(n := v)) (?w\<lparr>placeholders := P\<rparr>) m1"
    if "placed W (insert n S) P M0 (ptr(n := v))" "mem_inv W P B M0 r0 0 False False (\<lambda>_. WWait) (\<lambda>_. 0) m1"
      "\<forall>v \<in> ran P. B v = None" for v P m1
    using inv that rc unfolding read_inv_def by (simp add: count_reader_eq)
  have same: "?w\<lparr>placeholders := ?P\<rparr> = ?w" by (simp add: count_reader_eq)
  have mv: "master_version ?w m = Inr M0"
    using mem_invD(3) [OF mi] read_invD(7) [OF inv] placedD(2) [OF pl] master_version_eq [of m ?w r0]
    by (simp add: count_reader_eq)
  show ?thesis
  proof (cases "visible_in W n")
    case None
    then have pl': "placed W (insert n S) ?P M0 (ptr(n := M0))" by (intro placed_extend_old [OF pl n(1)]) simp
    have "?P = Map.empty" if "wb_core_bitmap ?w = 0"
    proof -
      have "W = {}" using that read_invD(6) [OF inv] by (simp add: count_reader_eq)
      then have "dom ?P = {}" using placed_dom [OF pl] by auto
      then show ?thesis by simp
    qed
    then have "wb_append_pending_version (n div 64) (n mod 64) w m = Inr (M0, ?w, m)"
      using id None mv by (cases "wb_core_bitmap ?w = 0")
        (simp_all add: wb_append_pending_version_def Let_def, simp add: count_reader_eq)
    then show ?thesis using frame [OF pl' mi read_invD(9) [OF inv]] by (simp add: same)
  next
    case (Some i)
    then have cb: "wb_core_bitmap ?w \<noteq> 0" using read_invD(6) [OF inv] by (auto simp: count_reader_eq visible_in_Some)
    have ph: "placeholders ?w = ?P" by (simp add: count_reader_eq)
    have ap: "wb_append_pending_version (n div 64) (n mod 64) w m =
        (case get_placeholder i ?w m of (v, w2, m2) \<Rightarrow> assert_then (v \<noteq> nullptr) (Inr (v, w2, m2)))"
      using id [OF cb] cb Some by (simp add: wb_append_pending_version_def Let_def wb_get_serial_id_def split: prod.split)
    show ?thesis
    proof (cases "?P i")
      case (Some v)
      then have "v \<in> ran ?P" by (auto simp: ran_def)
      then have "v \<noteq> nullptr" using placedD(3) [OF pl] by metis
      moreover have "placed W (insert n S) ?P M0 (ptr(n := v))"
        by (rule placed_extend_old [OF pl n(1)]) (simp add: Some \<open>visible_in W n = Some i\<close>)
      ultimately show ?thesis using frame [of ?P v m] mi read_invD(9) [OF inv] by (simp add: ap get_placeholder_def ph Some same)
    next
      case None
      obtain v m1 where c: "create_pending_version m = (v, m1)" by fastforce
      note cr = create_pending_version_ok [OF mem_invD(1) [OF mi] c]
      have v: "v \<notin> ran ?P" "v \<noteq> M0" using mem_invD(12,13) [OF mi] cr(4) by fastforce+
      have "placed W (insert n S) (?P(i \<mapsto> v)) M0 (ptr(n := v))"
        by (rule placed_extend_new [OF pl n(1) Some None v cr(3)])
      moreover have "mem_inv W (?P(i \<mapsto> v)) B M0 r0 0 False False (\<lambda>_. WWait) (\<lambda>_. 0) m1"
        by (rule mem_inv_place [OF mi c None]) (use v in simp)
      moreover have "B v = None" using mem_invD(14) [OF mi v(2,1)] cr(2) by simp
      then have "\<forall>u \<in> ran (?P(i \<mapsto> v)). B u = None" using read_invD(9) [OF inv] by (simp add: ran_map_upd [of ?P i v] None)
      ultimately show ?thesis using frame [of "?P(i \<mapsto> v)" v m1] cr(3) by (simp add: ap get_placeholder_def ph None c)
    qed
  qed
qed

lemma read_phase_ok:
  assumes "read_inv W S B M0 r0 ptr w m" and "set ns \<subseteq> {..<4096}" and "distinct ns" and "set ns \<inter> S = {}"
  shows "\<exists>ptr' w' m'. read_phase ns ptr w m = Inr (ptr', w', m') \<and> read_inv W (S \<union> set ns) B M0 r0 ptr' w' m'"
  using assms
proof (induction ns arbitrary: S ptr w m)
  case (Cons n ns)
  from read_step [OF Cons.prems(1), of n] Cons.prems(2,4) obtain v w1 m1 where
    1: "wb_append_pending_version (n div 64) (n mod 64) w m = Inr (v, w1, m1)" "read_inv W (insert n S) B M0 r0 (ptr(n := v)) w1 m1"
    by auto
  from Cons.IH [OF 1(2)] Cons.prems(2-4) 1(1) show ?case by (simp del: fun_upd_apply)
qed simp

section \<open>The epoch\<close>

definition exec_start :: "write_bitmap \<Rightarrow> mem \<Rightarrow> exec_conf" where
  "exec_start w m =
     \<lparr>xw = w, xm = m, rst = (\<lambda>_. RWait), wst = (\<lambda>_. WWait), fver = 0, wrec = (\<lambda>_. 0), out = Map.empty\<rparr>"

definition row_epoch ::
  "nat \<Rightarrow> (nat \<times> u64) list \<Rightarrow> nat list \<Rightarrow> actor list \<Rightarrow> write_bitmap \<Rightarrow> mem \<Rightarrow> exec_conf res" where
  "row_epoch sz us ns sched w m =
     ebind (write_phase us w) (\<lambda>w1.
       ebind (read_phase ns (\<lambda>_. nullptr) w1 m) (\<lambda>(ptr, w2, m2).
         exec_run ptr (Max (writer_ids us)) sz sched (exec_start w2 m2)))"

lemma exec_inv_start:
  assumes inv: "read_inv W R B M0 r0 ptr w m"
  shows "exec_inv W R (placeholders w) B M0 r0 (exec_start w m)"
proof -
  let ?s = "exec_start w m" let ?P = "placeholders w"
  note pl = read_invD(1) [OF inv] and mi = read_invD(2) [OF inv]
  have q: "quiet R ?s \<longleftrightarrow> R = {}" "counted R ?s = R" "final_seen W ?s = False"
    by (auto simp: quiet_def counted_def final_seen_def exec_start_def)
  have e: "?P = Map.empty" if "R = {}"
  proof -
    have "dom ?P = {}" using placed_dom [OF pl] that by auto
    then show ?thesis by simp
  qed
  have "row_inv W ?P M0 0 False (R = {}) (card R) w"
    using inv e by (auto simp: row_inv_def read_inv_def)
  moreover have "mem_inv W ?P B M0 r0 0 False (R = {}) (\<lambda>_. WWait) (\<lambda>_. 0) m"
  proof (cases "R = {}")
    case True
    then show ?thesis using mi e [OF True] by (simp add: mem_inv_def)
  qed (use mi in simp)
  moreover have "pc_inv W R ?P r0 0 (\<lambda>_. RWait) (\<lambda>_. WWait) (\<lambda>_. 0) Map.empty"
    by (simp add: pc_inv_def)
  ultimately show ?thesis by (simp only: exec_inv_def q) (simp add: exec_start_def)
qed

lemma read_inv_start:
  assumes us: "updates_ok us" and w: "row_idle M0 w" and m: "mem_ok m" "stab m M0 r0"
  shows "\<exists>w'. write_phase us w = Inr w' \<and> read_inv (writer_ids us) {} (vers m) M0 r0 (\<lambda>_. nullptr) w' m"
proof -
  obtain w' where w': "write_phase us w = Inr w'" "wb_ok w'" "wb_ids w' = writer_ids us"
    "wb_core_bitmap w' = 0 \<longleftrightarrow> us = []" "us = [] \<Longrightarrow> tx_bitmaps w' = []"
    "ref_cnt w' = 0" "placeholders w' = Map.empty" "wb_master w' = M0" "previous_master w' = nullptr"
    using write_phase_ok [OF us w] by metis
  have M0: "M0 \<noteq> nullptr" "M0 < brk m" using m mem_okD(2) by (fastforce simp: stab_def)+
  have "read_inv (writer_ids us) {} (vers m) M0 r0 (\<lambda>_. nullptr) w' m"
    using w' M0 m writer_ids_empty [OF us] writer_ids_less [OF us]
    by (simp add: read_inv_def placed_def mem_inv_def)
  with w'(1) show ?thesis by blast
qed

lemma row_epoch_inv:
  assumes us: "updates_ok us" and w: "row_idle M0 w" and m: "mem_ok m" "stab m M0 r0"
    and ns: "set ns \<subseteq> {..<4096}" "distinct ns" and sched: "set sched \<subseteq> actors (writer_ids us) (set ns)"
  obtains P ptr s where "row_epoch sz us ns sched w m = Inr s" "placed (writer_ids us) (set ns) P M0 ptr"
    "exec_inv (writer_ids us) (set ns) P (vers m) M0 r0 s" "\<And>v. v \<in> ran P \<Longrightarrow> vers m v = None"
    "\<And>rest. row_epoch sz us ns (sched @ rest) w m = exec_run ptr (Max (writer_ids us)) sz rest s"
proof -
  let ?W = "writer_ids us"
  from read_inv_start [OF us w m] obtain w1 where 1: "write_phase us w = Inr w1"
    "read_inv ?W {} (vers m) M0 r0 (\<lambda>_. nullptr) w1 m" by blast
  from read_phase_ok [OF 1(2) ns] obtain ptr w2 m2 where 2: "read_phase ns (\<lambda>_. nullptr) w1 m = Inr (ptr, w2, m2)"
    "read_inv ?W (set ns) (vers m) M0 r0 ptr w2 m2" by auto
  note pl = read_invD(1) [OF 2(2)]
  from exec_run_ok [OF pl exec_inv_start [OF 2(2)] sched, of sz] obtain s where
    3: "exec_run ptr (Max ?W) sz sched (exec_start w2 m2) = Inr s" "exec_inv ?W (set ns) (placeholders w2) (vers m) M0 r0 s" by blast
  have app: "exec_run ptr f sz (xs @ ys) c = ebind (exec_run ptr f sz xs c) (exec_run ptr f sz ys)" for f xs ys c
    by (induction xs arbitrary: c) (auto simp: ebind_def split: sum.splits)
  show ?thesis using that [OF _ pl 3(2)] read_invD(9) [OF 2(2)] 1(1) 2(1) 3(1) by (simp add: row_epoch_def app)
qed

section \<open>The end of the epoch\<close>

definition all_done :: "nat set \<Rightarrow> nat set \<Rightarrow> exec_conf \<Rightarrow> bool" where
  "all_done W R s \<longleftrightarrow> (\<forall>n \<in> R. rst s n = RDone) \<and> (\<forall>n \<in> W. wst s n = WDone)"

lemma done_quiet:
  assumes pl: "placed W R P M0 ptr" and dn: "all_done W R s"
  shows "finite W" "quiet R s" "final_seen W s \<longleftrightarrow> W \<noteq> {}"
proof -
  show fin: "finite W" using placedD(6) [OF pl] by (rule finite_subset) simp
  show "quiet R s" using dn by (simp add: all_done_def quiet_def)
  have "wst s (Max W) = WDone" if "W \<noteq> {}" using dn Max_in [OF fin that] by (simp add: all_done_def)
  then show "final_seen W s \<longleftrightarrow> W \<noteq> {}" by (cases "W = {}") (simp_all add: final_seen_def)
qed

lemma done_row:
  assumes pl: "placed W R P M0 ptr" and inv: "exec_inv W R P B M0 r0 s" and dn: "all_done W R s"
  shows "row_idle (if W = {} then M0 else fver s) (xw s)"
    and "\<forall>n \<in> R. out s n = Some (must_read W r0 (wrec s) n)"
proof -
  note fin = done_quiet(1) [OF pl dn] and q = done_quiet(2,3) [OF pl dn]
  show "row_idle (if W = {} then M0 else fver s) (xw s)"
    using exec_invD(1) [OF inv] q by (auto simp: row_inv_def row_idle_def split: if_splits)
  show "\<forall>n \<in> R. out s n = Some (must_read W r0 (wrec s) n)"
    using pc_invD(3) [OF exec_invD(3) [OF inv]] dn by (simp add: all_done_def must_read_def)
qed

text \<open>
  Nothing leaks and nothing else is touched: the store holds what it held, with the old master
  replaced by the final writer's version.
\<close>

lemma done_store:
  assumes pl: "placed W R P M0 ptr" and inv: "exec_inv W R P B M0 r0 s" and dn: "all_done W R s"
    and B: "\<And>v. v \<in> ran P \<Longrightarrow> B v = None"
  shows "mem_ok (xm s)" and "stab (xm s) (wb_master (xw s)) (if W = {} then r0 else wrec s (Max W))"
    and "u \<noteq> wb_master (xw s) \<Longrightarrow> vers (xm s) u = (if u = M0 then None else B u)"
proof -
  note mi = exec_invD(2) [OF inv]
  note fin = done_quiet(1) [OF pl dn] and q = done_quiet(2,3) [OF pl dn]
  have mst: "wb_master (xw s) = (if W = {} then M0 else fver s)"
    using done_row(1) [OF pl inv dn] by (simp add: row_idle_def)
  show "mem_ok (xm s)" by (rule mem_invD(1) [OF mi])
  show "stab (xm s) (wb_master (xw s)) (if W = {} then r0 else wrec s (Max W))"
  proof (cases "W = {}")
    case True
    then show ?thesis using mem_invD(3) [OF mi] q mst by simp
  next
    case False
    then have "wst s (Max W) = WDone" using dn Max_in [OF fin] by (simp add: all_done_def)
    then show ?thesis using mem_invD(9) [OF mi] q False mst by (simp add: ver_inv_def)
  qed
  show "vers (xm s) u = (if u = M0 then None else B u)" if u: "u \<noteq> wb_master (xw s)"
  proof (cases "u = M0")
    case True
    then have "W \<noteq> {}" using u mst by auto
    then show ?thesis using True mem_invD(2) [OF mi] q by simp
  next
    case False
    show ?thesis
    proof (cases "u \<in> ran P")
      case True
      then obtain i where i: "P i = Some u" by (auto simp: ran_def)
      have W: "W \<noteq> {}" using placed_dom [OF pl, of i] i by (auto simp: visible_in_Some)
      have "i \<noteq> Max W" using mem_invD(6) [OF mi, of u] i u mst W q by auto
      then show ?thesis using mem_invD(5) [OF mi i _ q(1)] B [OF True] False by simp
    next
      case np: False
      have "final_seen W s \<longrightarrow> u \<noteq> fver s" using u mst q(2) by (cases "W = {}") simp_all
      then show ?thesis using mem_invD(14) [OF mi False np] False by simp
    qed
  qed
qed

section \<open>The epoch can always be completed\<close>

fun wrank :: "writer_pc \<Rightarrow> nat" where
  "wrank WWait = 2" | "wrank (WGot v) = 1" | "wrank WDone = 0"

fun rrank :: "reader_pc \<Rightarrow> nat" where
  "rrank RWait = 4" | "rrank RStable = 3" | "rrank (RRead r) = 2" | "rrank RFinal = 1" | "rrank RDone = 0"

definition exec_work :: "nat set \<Rightarrow> nat set \<Rightarrow> exec_conf \<Rightarrow> nat" where
  "exec_work W R s = (\<Sum>n \<in> W. wrank (wst s n)) + (\<Sum>n \<in> R. rrank (rst s n))"

lemma writer_step_works:
  assumes "writer_step f sz n s = Inr s'" and "wst s n \<noteq> WDone"
  shows "rst s' = rst s" "\<exists>pc. wst s' = (wst s)(n := pc) \<and> wrank pc < wrank (wst s n)"
  using assms by (auto simp: writer_step_def ebind_def split: writer_pc.splits sum.splits if_splits)

lemma reader_step_works:
  assumes "reader_step ptr n s = Inr s'" and "rst s n \<noteq> RDone"
    and "rst s n = RWait \<Longrightarrow> wait_stable_and_execute_read (ptr n) (xm s) \<noteq> Inr None"
  shows "wst s' = wst s" "\<exists>pc. rst s' = (rst s)(n := pc) \<and> rrank pc < rrank (rst s n)"
  using assms by (auto simp: reader_step_def ebind_def sub_ref_cnt_def split: reader_pc.splits sum.splits if_splits option.splits)

lemma sum_upd_less:
  fixes g :: "'a \<Rightarrow> nat"
  assumes "finite A" and "n \<in> A" and "g pc < g (h n)"
  shows "(\<Sum>k \<in> A. g ((h(n := pc)) k)) < (\<Sum>k \<in> A. g (h k))"
  using assms by (intro sum_strict_mono_ex1) auto

lemma some_actor_advances:
  assumes pl: "placed W R P M0 ptr" and inv: "exec_inv W R P B M0 r0 s" and nd: "\<not> all_done W R s"
  shows "\<exists>a \<in> actors W R. \<exists>s'. exec_step ptr (Max W) sz a s = Inr s' \<and> exec_inv W R P B M0 r0 s'
    \<and> exec_work W R s' < exec_work W R s"
proof -
  have fin: "finite W" "finite R" using placedD(6,7) [OF pl] finite_subset by blast+
  show ?thesis
  proof (cases "\<forall>n \<in> W. wst s n = WDone")
    case False
    then obtain n where n: "n \<in> W" "wst s n \<noteq> WDone" by blast
    from writer_step_ok [OF pl inv n(1), of sz] obtain s' where s': "writer_step (Max W) sz n s = Inr s'"
      "exec_inv W R P B M0 r0 s'" by blast
    from writer_step_works [OF s'(1) n(2)] obtain pc where "rst s' = rst s" "wst s' = (wst s)(n := pc)"
      "wrank pc < wrank (wst s n)" by blast
    then have "exec_work W R s' < exec_work W R s" using sum_upd_less [OF fin(1) n(1)] by (simp add: exec_work_def del: fun_upd_apply)
    then show ?thesis using s' n(1) by (intro bexI [of _ "Writer n"]) (auto simp: exec_step_def actors_def)
  next
    case True
    with nd obtain n where n: "n \<in> R" "rst s n \<noteq> RDone" by (auto simp: all_done_def)
    from reader_step_ok [OF pl inv n(1)] obtain s' where s': "reader_step ptr n s = Inr s'"
      "exec_inv W R P B M0 r0 s'" by blast
    note ps = ptr_state [OF pl inv n(1) not_quiet [OF n]]
    have "visible_in W n = Some i \<Longrightarrow> wst s i = WDone" for i using True by (simp add: visible_in_Some)
    then obtain r where "stab (xm s) (ptr n) r" using ps(1,2) by (cases "visible_in W n") auto
    then have "wait_stable_and_execute_read (ptr n) (xm s) \<noteq> Inr None" using wait_stab [OF ps(3)] by simp
    from reader_step_works [OF s'(1) n(2) this] obtain pc where "wst s' = wst s" "rst s' = (rst s)(n := pc)"
      "rrank pc < rrank (rst s n)" by blast
    then have "exec_work W R s' < exec_work W R s" using sum_upd_less [OF fin(2) n(1)] by (simp add: exec_work_def del: fun_upd_apply)
    then show ?thesis using s' n(1) by (intro bexI [of _ "Reader n"]) (auto simp: exec_step_def actors_def)
  qed
qed

lemma exec_can_finish:
  assumes pl: "placed W R P M0 ptr" and "exec_inv W R P B M0 r0 s"
  shows "\<exists>sched s'. set sched \<subseteq> actors W R \<and> exec_run ptr (Max W) sz sched s = Inr s'
    \<and> exec_inv W R P B M0 r0 s' \<and> all_done W R s'"
  using assms(2)
proof (induction "exec_work W R s" arbitrary: s rule: less_induct)
  case less
  show ?case
  proof (cases "all_done W R s")
    case True
    then show ?thesis using less.prems by (intro exI [of _ "[]"] exI [of _ s]) simp
  next
    case False
    from some_actor_advances [OF pl less.prems False, of sz] obtain a s1 where
      s1: "a \<in> actors W R" "exec_step ptr (Max W) sz a s = Inr s1" "exec_inv W R P B M0 r0 s1"
      "exec_work W R s1 < exec_work W R s" by blast
    from less.hyps [OF s1(4,3)] obtain sched s' where "set sched \<subseteq> actors W R"
      "exec_run ptr (Max W) sz sched s1 = Inr s'" "exec_inv W R P B M0 r0 s'" "all_done W R s'" by blast
    then show ?thesis using s1(1,2) by (intro exI [of _ "a # sched"] exI [of _ s']) simp
  qed
qed

section \<open>Loading\<close>

lemma ch_insert_ok:
  assumes m: "mem_ok m" and r: "new_record sz m = (r, m1)" and l: "ch_insert_into_index r m1 = (w, m2)"
  shows "row_idle (wb_master w) w" "mem_ok m2" "stab m2 (wb_master w) r"
proof -
  note a = new_record_ok [OF m r]
  obtain v where v: "new_version \<lparr>ver_rec = r, ver_status = STABLE, ver_deleted = False\<rparr> m1 = (v, m2)"
    "wb_master w = v" "row_idle v w"
    using l by (auto simp: ch_insert_into_index_def row_idle_def split: prod.splits)
  have "ver_rec x \<noteq> r" if "vers m1 u = Some x" for u x using ver_rec_less [OF m, of u x] that a by auto
  then have d: "mem_ok m2" "vers m2 = (vers m1)(v \<mapsto> \<lparr>ver_rec = r, ver_status = STABLE, ver_deleted = False\<rparr>)"
    using new_stable_version_ok [OF a(1) _ _ v(1)] a(2) by simp_all
  show "row_idle (wb_master w) w" "mem_ok m2" "stab m2 (wb_master w) r" using d v by (simp_all add: stab_def)
qed

lemma row_epoch_run:
  assumes "updates_ok us" and "row_idle M0 w" and "mem_ok m" and "stab m M0 r0"
    and "set ns \<subseteq> {..<4096}" and "distinct ns" and "set sched \<subseteq> actors (writer_ids us) (set ns)"
  shows "\<exists>s. row_epoch sz us ns sched w m = Inr s
    \<and> (all_done (writer_ids us) (set ns) s \<longrightarrow>
        (\<forall>n \<in> set ns. out s n = Some (must_read (writer_ids us) r0 (wrec s) n))
        \<and> row_idle (wb_master (xw s)) (xw s) \<and> mem_ok (xm s)
        \<and> stab (xm s) (wb_master (xw s)) (if us = [] then r0 else wrec s (Max (writer_ids us)))
        \<and> (\<forall>v. v \<noteq> wb_master (xw s) \<longrightarrow> vers (xm s) v = (if v = M0 then None else vers m v)))"
proof -
  obtain P ptr s where s: "row_epoch sz us ns sched w m = Inr s" "placed (writer_ids us) (set ns) P M0 ptr"
    "exec_inv (writer_ids us) (set ns) P (vers m) M0 r0 s" "\<And>v. v \<in> ran P \<Longrightarrow> vers m v = None"
    using row_epoch_inv [OF assms] by metis
  note d = done_row [OF s(2,3)] and e = done_store [OF s(2,3) _ s(4)]
  have "row_idle (wb_master (xw s)) (xw s)" if "all_done (writer_ids us) (set ns) s"
    using d(1) [OF that] by (simp add: row_idle_def)
  then show ?thesis using s(1) d(2) e writer_ids_empty [OF assms(1)] by simp
qed

lemma row_epoch_finish:
  assumes "updates_ok us" and "row_idle M0 w" and "mem_ok m" and "stab m M0 r0"
    and "set ns \<subseteq> {..<4096}" and "distinct ns" and "set sched \<subseteq> actors (writer_ids us) (set ns)"
  shows "\<exists>rest s. set rest \<subseteq> actors (writer_ids us) (set ns)
    \<and> row_epoch sz us ns (sched @ rest) w m = Inr s \<and> all_done (writer_ids us) (set ns) s"
proof -
  obtain P ptr s where s: "placed (writer_ids us) (set ns) P M0 ptr"
    "exec_inv (writer_ids us) (set ns) P (vers m) M0 r0 s"
    "\<And>rest. row_epoch sz us ns (sched @ rest) w m = exec_run ptr (Max (writer_ids us)) sz rest s"
    using row_epoch_inv [OF assms] by metis
  from exec_can_finish [OF s(1,2), of sz] s(3) show ?thesis by metis
qed

section \<open>Properties\<close>

text \<open>C7: Take an idle row with a stable master, any workers that publish their bitmaps in any order,
  any readers that get their versions in any order, and any interleaving of the readers' and
  writers' accesses in the execution phase. No assertion fails, no version is used after it is freed
  and none is freed twice. Once all have finished, every reader got the record of the last writer
  before it in serial order (the old master's record if there is none), the row is idle again with
  the final writer's version as its master, and the store is the old one with only the master
  replaced: every other version of the epoch is freed.\<close>

theorem cheetah_epoch_serial:
  assumes "updates_ok us" and "row_idle M0 w" and "mem_ok m" and "stab m M0 r0"
    and "set ns \<subseteq> {..<4096}" and "distinct ns" and "set sched \<subseteq> actors (writer_ids us) (set ns)"
  shows "\<exists>s. row_epoch sz us ns sched w m = Inr s
    \<and> (all_done (writer_ids us) (set ns) s \<longrightarrow>
        (\<forall>n \<in> set ns. out s n = Some (must_read (writer_ids us) r0 (wrec s) n))
        \<and> row_idle (wb_master (xw s)) (xw s) \<and> mem_ok (xm s)
        \<and> stab (xm s) (wb_master (xw s)) (if us = [] then r0 else wrec s (Max (writer_ids us)))
        \<and> (\<forall>v. v \<noteq> wb_master (xw s) \<longrightarrow> vers (xm s) v = (if v = M0 then None else vers m v)))"
  using assms by (rule row_epoch_run)

theorem cheetah_epoch_serial_witness:
  "\<exists>w m sched s. ch_insert_into_index 1 (snd (new_record 8 mem_init)) = (w, m)
     \<and> row_epoch 8 [(0, 5)] [1, 62] sched w m = Inr s \<and> all_done {61, 63} {1, 62} s
     \<and> out s 1 = Some 1 \<and> out s 62 = Some (wrec s 61)"
proof -
  obtain w m where l: "ch_insert_into_index 1 (snd (new_record 8 mem_init)) = (w, m)" by fastforce
  have "new_record 8 mem_init = (1, snd (new_record 8 mem_init))" by (simp add: new_record_def mem_init_def)
  note r = ch_insert_ok [OF mem_ok_init this l]
  have u: "updates_ok [(0, 5)]" by (simp add: updates_ok_def)
  have "bit (5 :: u64) k \<longleftrightarrow> k = 0 \<or> k = 2" for k by (auto simp: bit_numeral_rec bit_1_iff gr0_conv_Suc split: nat.splits)
  then have "p \<in> ones 5 \<longleftrightarrow> p \<in> {61, 63}" for p by (simp add: ones_def) arith
  then have "ones 5 = {61, 63}" by blast
  then have ids: "writer_ids [(0, 5)] = {61, 63}" by simp
  from row_epoch_finish [OF u r, of "[1, 62]" "[]" 8] obtain sched s where
    run: "set sched \<subseteq> actors (writer_ids [(0, 5)]) (set [1, 62])" "row_epoch 8 [(0, 5)] [1, 62] sched w m = Inr s"
    "all_done (writer_ids [(0, 5)]) (set [1, 62]) s" by auto
  from cheetah_epoch_serial [OF u r, of "[1, 62]" sched 8] run
  have "out s 1 = Some (must_read {61, 63} 1 (wrec s) 1)" "out s 62 = Some (must_read {61, 63} 1 (wrec s) 62)" unfolding ids by simp_all
  moreover have "visible_in {61, 63} 1 = None" "visible_in {61, 63} 62 = Some 61"
    by (auto simp: visible_in_Some) (simp add: visible_in_def)
  then have "must_read {61, 63} 1 (wrec s) 1 = 1" "must_read {61, 63} 1 (wrec s) 62 = wrec s 61" by (simp_all add: must_read_def)
  ultimately show ?thesis using l run(2,3) unfolding ids by (intro exI [of _ w] exI [of _ m] exI [of _ sched] exI [of _ s]) simp
qed

text \<open>No schedule blocks: whatever the readers and writers of a row have done so far, the epoch
  can be completed from there (readers only wait for writers, and writers wait for nobody).\<close>

theorem cheetah_epoch_completes:
  assumes "updates_ok us" and "row_idle M0 w" and "mem_ok m" and "stab m M0 r0"
    and "set ns \<subseteq> {..<4096}" and "distinct ns" and "set sched \<subseteq> actors (writer_ids us) (set ns)"
  shows "\<exists>rest s. set rest \<subseteq> actors (writer_ids us) (set ns)
    \<and> row_epoch sz us ns (sched @ rest) w m = Inr s \<and> all_done (writer_ids us) (set ns) s"
  using assms by (rule row_epoch_finish)

theorem cheetah_epoch_completes_witness:
  "\<exists>w m rest s. ch_insert_into_index 1 (snd (new_record 8 mem_init)) = (w, m)
     \<and> row_epoch 8 [(1, 1)] [3] ([Reader 3] @ rest) w m = Inr s \<and> all_done (writer_ids [(1, 1)]) (set [3]) s"
proof -
  obtain w m where l: "ch_insert_into_index 1 (snd (new_record 8 mem_init)) = (w, m)" by fastforce
  have "new_record 8 mem_init = (1, snd (new_record 8 mem_init))" by (simp add: new_record_def mem_init_def)
  note r = ch_insert_ok [OF mem_ok_init this l]
  have u: "updates_ok [(1, 1)]" by (simp add: updates_ok_def)
  have "set [Reader 3] \<subseteq> actors (writer_ids [(1, 1)]) (set [3])" by (simp add: actors_def)
  then show ?thesis using cheetah_epoch_completes [OF u r, of "[3]" "[Reader 3]" 8] l by auto
qed

end
