(* ===== verification/Rand_Gen.thy ===== *)
theory Rand_Gen
  imports Prelude "HOL-Library.Multiset"
begin

text \<open>
  The generators of utils/random.hpp and the helpers of utils/utils.hpp that draw from them.
  A generator is passed as explicit state. \<open>std::random_device\<close> only provides the seed.
\<close>

section \<open>utils/random.hpp\<close>

text \<open>class SplitMix64: the result and the new state.\<close>

definition splitmix64 :: "u64 \<Rightarrow> u64 \<times> u64" where
  "splitmix64 x =
     (let x' = x + 0x9e3779b97f4a7c15;
          z = x';
          z = (z XOR drop_bit 30 z) * 0xbf58476d1ce4e5b9;
          z = (z XOR drop_bit 27 z) * 0x94d049bb133111eb
      in (z XOR drop_bit 31 z, x'))"

text \<open>class Xoshiro256PlusPlus\<close>

record xoshiro =
  s0 :: u64
  s1 :: u64
  s2 :: u64
  s3 :: u64

definition rotl :: "u64 \<Rightarrow> nat \<Rightarrow> u64" where
  "rotl x k = push_bit k x OR drop_bit (64 - k) x"

definition xo_state_step :: "xoshiro \<Rightarrow> xoshiro" where
  "xo_state_step s =
     (let t = push_bit 17 (s1 s);
          s = s\<lparr>s2 := s2 s XOR s0 s\<rparr>;
          s = s\<lparr>s3 := s3 s XOR s1 s\<rparr>;
          s = s\<lparr>s1 := s1 s XOR s2 s\<rparr>;
          s = s\<lparr>s0 := s0 s XOR s3 s\<rparr>;
          s = s\<lparr>s2 := s2 s XOR t\<rparr>
      in s\<lparr>s3 := rotl (s3 s) 45\<rparr>)"

definition xo_next :: "xoshiro \<Rightarrow> u64 \<times> xoshiro" where
  "xo_next s = (rotl (s0 s + s3 s) 23 + s0 s, xo_state_step s)"

definition xo_zero :: xoshiro where
  "xo_zero = \<lparr>s0 = 0, s1 = 0, s2 = 0, s3 = 0\<rparr>"

definition xo_xor :: "xoshiro \<Rightarrow> xoshiro \<Rightarrow> xoshiro" where
  "xo_xor a b = \<lparr>s0 = s0 a XOR s0 b, s1 = s1 a XOR s1 b, s2 = s2 a XOR s2 b, s3 = s3 a XOR s3 b\<rparr>"

definition JUMP :: "u64 list" where
  "JUMP = [0x180ec6d33cfd0aba, 0xd5a61266f0c9392c, 0xa9582618e03fc9aa, 0x39abdc4529b1661c]"

definition LONG_JUMP :: "u64 list" where
  "LONG_JUMP = [0x76e15d3efefdcbbf, 0xc5004e441c522fb3, 0x77710069854ee241, 0x39109bb02acbe635]"

text \<open>The double loop over the words of a table and their bits, lowest bit first.\<close>

definition table_bits :: "u64 list \<Rightarrow> bool list" where
  "table_bits tbl = concat (map (\<lambda>w. map (bit w) [0..<64]) tbl)"

fun jump_bits :: "bool list \<Rightarrow> xoshiro \<Rightarrow> xoshiro \<Rightarrow> xoshiro" where
  "jump_bits [] acc s = acc"
| "jump_bits (b # bs) acc s = jump_bits bs (if b then xo_xor acc s else acc) (snd (xo_next s))"

definition jump_once :: "xoshiro \<Rightarrow> xoshiro" where
  "jump_once s = jump_bits (table_bits JUMP) xo_zero s"

definition long_jump :: "xoshiro \<Rightarrow> xoshiro" where
  "long_jump s = jump_bits (table_bits LONG_JUMP) xo_zero s"

definition jump :: "nat \<Rightarrow> xoshiro \<Rightarrow> xoshiro" where
  "jump num_jumps s = (jump_once ^^ num_jumps) s"

definition xo_init :: "u64 \<Rightarrow> nat \<Rightarrow> xoshiro" where
  "xo_init seed num_jumps =
     (let (a, x1) = splitmix64 seed; (b, x2) = splitmix64 x1; (c, x3) = splitmix64 x2
      in jump num_jumps \<lparr>s0 = seed, s1 = a, s2 = b, s3 = c\<rparr>)"

section \<open>utils/utils.hpp\<close>

text \<open>
  Copies at most \<open>out_buf_size - 1\<close> characters up to the terminator; the result is the buffer's
  new contents with the written length. Reading past the end of \<open>inp\<close> is \<open>OutOfRange\<close>.
\<close>

fun copy_cstr_loop :: "char list \<Rightarrow> char list \<Rightarrow> nat \<Rightarrow> nat \<Rightarrow> nat \<Rightarrow> (nat \<times> char list) res" where
  "copy_cstr_loop out inp n 0 i = Inr (i, out[i := CHR 0x00])"
| "copy_cstr_loop out inp n (Suc k) i =
     (if i < n - 1 then
        guard (i < length inp) OutOfRange
          (if inp ! i = CHR 0x00 then Inr (i, out[i := CHR 0x00])
           else copy_cstr_loop (out[i := inp ! i]) inp n k (i + 1))
      else Inr (i, out[i := CHR 0x00]))"

definition copy_cstr :: "char list \<Rightarrow> char list \<Rightarrow> nat \<Rightarrow> (nat \<times> char list) res" where
  "copy_cstr out inp out_buf_size =
     (if out_buf_size = 0 then Inr (0, out) else copy_cstr_loop out inp out_buf_size out_buf_size 0)"

text \<open>\<open>%\<close> by zero is undefined; it happens when the range covers all of \<open>uint64_t\<close>.\<close>

definition urand_int :: "u64 \<Rightarrow> u64 \<Rightarrow> xoshiro \<Rightarrow> (u64 \<times> xoshiro) res" where
  "urand_int mn mx rng =
     guard (mx - mn + 1 \<noteq> 0) OutOfRange
       (case xo_next rng of (r, rng') \<Rightarrow> Inr (r mod (mx - mn + 1) + mn, rng'))"

definition alnum_chars :: string where
  "alnum_chars = ''0123456789ABCDEFGHIJKLMNOPQRSTUVWXYZabcdefghijklmnopqrstuvwxyz''"

definition digit_chars :: string where
  "digit_chars = ''0123456789''"

fun random_chars :: "string \<Rightarrow> nat \<Rightarrow> xoshiro \<Rightarrow> (string \<times> xoshiro) res" where
  "random_chars c 0 rng = Inr ([], rng)"
| "random_chars c (Suc n) rng =
     ebind (urand_int 0 (of_nat (length c - 1)) rng) (\<lambda>(k, rng1).
       ebind (random_chars c n rng1) (\<lambda>(s, rng2). Inr (c ! unat k # s, rng2)))"

text \<open>The written string without its terminator.\<close>

definition make_random_astring :: "u64 \<Rightarrow> u64 \<Rightarrow> xoshiro \<Rightarrow> (string \<times> xoshiro) res" where
  "make_random_astring min_len max_len rng =
     ebind (urand_int min_len max_len rng) (\<lambda>(len, rng1). random_chars alnum_chars (unat len) rng1)"

definition make_random_nstring :: "u64 \<Rightarrow> u64 \<Rightarrow> xoshiro \<Rightarrow> (string \<times> xoshiro) res" where
  "make_random_nstring min_len max_len rng =
     ebind (urand_int min_len max_len rng) (\<lambda>(len, rng1). random_chars digit_chars (unat len) rng1)"

text \<open>struct Permutation: the identity on \<open>min..max\<close>, then the shuffle from position \<open>i\<close> on.\<close>

definition swap_at :: "nat \<Rightarrow> nat \<Rightarrow> 'a list \<Rightarrow> 'a list" where
  "swap_at i j xs = xs[i := xs ! j, j := xs ! i]"

function shuffle_from :: "nat \<Rightarrow> nat list \<Rightarrow> xoshiro \<Rightarrow> (nat list \<times> xoshiro) res" where
  "shuffle_from i perm rng =
     (if i < length perm - 1 then
        ebind (urand_int 0 (of_nat (length perm - i - 1)) rng) (\<lambda>(j, rng').
          assert_then (i + unat j < length perm)
            (shuffle_from (i + 1) (if j \<noteq> 0 then swap_at i (i + unat j) perm else perm) rng'))
      else Inr (perm, rng))"
  by auto
termination by (relation "measure (\<lambda>(i, perm, rng). length perm - i)") (auto simp: swap_at_def split: if_splits)

declare shuffle_from.simps [simp del]

definition make_permutation :: "nat \<Rightarrow> nat \<Rightarrow> xoshiro \<Rightarrow> (nat list \<times> xoshiro) res" where
  "make_permutation mn mx rng =
     assert_then (mn \<le> mx)
       (let perm = [mn..<mx + 1]; i = mn + length perm
        in assert_then (i - 1 = mx) (shuffle_from 0 perm rng))"

section \<open>The state step of the generator\<close>

lemma bit_rotl: "k < 64 \<Longrightarrow> bit (rotl x k) n \<longleftrightarrow> n < 64 \<and> bit x (if k \<le> n then n - k else 64 + n - k)"
  by (auto simp: rotl_def bit_or_iff bit_push_bit_iff bit_drop_bit_eq dest: bit_imp_le_length)

lemma rotl_xor: "k < 64 \<Longrightarrow> rotl (x XOR y) k = rotl x k XOR rotl y k"
  by (rule bit_eqI) (simp add: bit_rotl bit_xor_iff)

lemma xo_step_eq:
  "xo_state_step s = \<lparr>s0 = s0 s XOR (s3 s XOR s1 s), s1 = s1 s XOR (s2 s XOR s0 s),
     s2 = (s2 s XOR s0 s) XOR push_bit 17 (s1 s), s3 = rotl (s3 s XOR s1 s) 45\<rparr>"
  by (simp add: xo_state_step_def Let_def)

lemma xo_step_linear: "xo_state_step (xo_xor a b) = xo_xor (xo_state_step a) (xo_state_step b)"
  by (simp add: xo_step_eq xo_xor_def rotl_xor push_bit_xor xor.assoc xor.left_commute)

lemma xo_step_zero: "xo_state_step xo_zero = xo_zero"
  by (simp add: xo_step_eq xo_zero_def rotl_def)

text \<open>A word is determined by its exclusive or with its own shift.\<close>

lemma xor_shift_inject:
  assumes eq: "x XOR push_bit 17 x = y XOR push_bit 17 (y :: u64)"
  shows "x = y"
proof (rule bit_eqI)
  fix n assume "possible_bit TYPE(u64) n"
  then show "bit x n \<longleftrightarrow> bit y n"
  proof (induction n rule: less_induct)
    case (less n)
    have "bit (x XOR push_bit 17 x) n \<longleftrightarrow> bit (y XOR push_bit 17 y) n" by (simp add: eq)
    moreover have "bit (push_bit 17 x) n \<longleftrightarrow> bit (push_bit 17 y) n"
      using less by (auto simp: bit_push_bit_iff)
    ultimately show ?case by (auto simp: bit_xor_iff)
  qed
qed

lemma rotl_inject: "k < 64 \<Longrightarrow> rotl x k = rotl y k \<longleftrightarrow> x = y"
proof
  assume k: "k < 64" and eq: "rotl x k = rotl y k"
  show "x = y"
  proof (rule bit_eqI)
    fix n assume "possible_bit TYPE(u64) n"
    then have "n < 64" by simp
    then have "(if k \<le> (n + k) mod 64 then (n + k) mod 64 - k else 64 + (n + k) mod 64 - k) = n"
      using k by (cases "n + k < 64") (auto simp: le_mod_geq)
    then show "bit x n \<longleftrightarrow> bit y n"
      using bit_rotl [OF k, of x "(n + k) mod 64"] bit_rotl [OF k, of y "(n + k) mod 64"] eq by simp
  qed
qed simp

lemma xor_cancel: "x XOR z = y XOR z \<Longrightarrow> x = (y :: u64)"
  by (drule arg_cong [where f = "\<lambda>w. w XOR z"]) (simp add: xor.assoc)

lemma xo_step_inject:
  assumes "xo_state_step a = xo_state_step b"
  shows "a = b"
proof -
  have e: "s0 a XOR (s3 a XOR s1 a) = s0 b XOR (s3 b XOR s1 b)" "s1 a XOR (s2 a XOR s0 a) = s1 b XOR (s2 b XOR s0 b)"
    "(s2 a XOR s0 a) XOR push_bit 17 (s1 a) = (s2 b XOR s0 b) XOR push_bit 17 (s1 b)" "s3 a XOR s1 a = s3 b XOR s1 b"
    using arg_cong [OF assms, of s0] arg_cong [OF assms, of s1] arg_cong [OF assms, of s2]
      arg_cong [OF assms, of s3] by (simp_all only: xo_step_eq xoshiro.select_convs rotl_inject [of 45, simplified])
  from e(1) have s0: "s0 a = s0 b" unfolding e(4) by (rule xor_cancel)
  have "x XOR y = (x XOR z) XOR (z XOR y)" for x y z :: u64
    by (simp add: xor.assoc xor.left_commute)
  then have "s1 a XOR push_bit 17 (s1 a) = s1 b XOR push_bit 17 (s1 b)" using e(2,3) by metis
  then have s1: "s1 a = s1 b" by (rule xor_shift_inject)
  from e(4) have s3: "s3 a = s3 b" unfolding s1 by (rule xor_cancel)
  from e(3) have "s2 a XOR s0 b = s2 b XOR s0 b" unfolding s1 s0 by (rule xor_cancel)
  then have "s2 a = s2 b" by (rule xor_cancel)
  with s0 s1 s3 show ?thesis by simp
qed

instance xoshiro_ext :: (finite) finite
proof
  have "surj (\<lambda>(a, b, c, d, z :: 'a). \<lparr>s0 = a, s1 = b, s2 = c, s3 = d, \<dots> = z\<rparr>)"
  proof (rule surjI)
    fix s :: "'a xoshiro_ext"
    show "(case (s0 s, s1 s, s2 s, s3 s, xoshiro.more s) of (a, b, c, d, z) \<Rightarrow> \<lparr>s0 = a, s1 = b, s2 = c, s3 = d, \<dots> = z\<rparr>) = s"
      by simp
  qed
  then show "finite (UNIV :: 'a xoshiro_ext set)" using finite_imageI [OF finite_class.finite_UNIV] by (rule subst)
qed

lemma xo_step_bij: "bij xo_state_step"
proof -
  have "inj xo_state_step" by (rule injI) (rule xo_step_inject)
  then show ?thesis using finite_UNIV_inj_surj [OF finite_class.finite_UNIV] by (simp add: bij_def)
qed

section \<open>Draws\<close>

text \<open>The draw reduced to the size of the range, and the range as an interval that may wrap around.\<close>

lemma urand_offset:
  assumes "d + 1 \<noteq> (0 :: u64)"
  shows "x mod (d + 1) \<le> d"
proof -
  have "0 < d + 1" using assms by (simp add: word_neq_0_conv)
  then have "x mod (d + 1) < d + 1" by (rule word_mod_less_divisor)
  then show ?thesis using inc_le [of d "x mod (d + 1)"] by (meson not_le)
qed

lemma cyclic_range:
  assumes "r - mn \<le> mx - (mn :: u64)"
  shows "if mn \<le> mx then mn \<le> r \<and> r \<le> mx else mn \<le> r \<or> r \<le> mx"
  using assms unsigned_less [of mx, where 'a = nat] unsigned_less [of mn, where 'a = nat]
  by (auto simp: word_le_nat_alt unat_sub_if' split: if_splits)

lemma urand_int_bounds:
  assumes "mn \<le> mx" and "mx - mn + 1 \<noteq> 0"
  obtains r rng' where "urand_int mn mx rng = Inr (r, rng')" "mn \<le> r" "r \<le> mx" "rng' = xo_state_step rng"
proof -
  let ?r = "fst (xo_next rng) mod (mx - mn + 1) + mn"
  have "?r - mn \<le> mx - mn" using urand_offset [OF assms(2)] by simp
  then have "mn \<le> ?r \<and> ?r \<le> mx" using cyclic_range [of ?r mn mx] assms(1) by simp
  then show ?thesis using that assms(2) by (simp add: urand_int_def xo_next_def)
qed

lemma mset_swap_at: "i < length xs \<Longrightarrow> j < length xs \<Longrightarrow> mset (swap_at i j xs) = mset xs"
  unfolding swap_at_def by (rule mset_swap)

lemma shuffle_from_ok:
  assumes "length perm < 2 ^ 64"
  shows "\<exists>p rng'. shuffle_from i perm rng = Inr (p, rng') \<and> mset p = mset perm"
  using assms
proof (induction i perm rng rule: shuffle_from.induct)
  case (1 i perm rng)
  show ?case
  proof (cases "i < length perm - 1")
    case True
    let ?m = "of_nat (length perm - i - 1) :: u64"
    have m: "unat ?m = length perm - i - 1" using 1(2) by (simp add: unat_of_nat take_bit_nat_eq_self)
    have m1: "?m - 0 + 1 \<noteq> 0"
    proof
      assume "?m - 0 + 1 = 0"
      moreover have "Suc (length perm - i - 1) = length perm - i" using True by simp
      then have "?m - 0 + 1 = of_nat (length perm - i)" by (metis add.commute diff_zero of_nat_Suc)
      moreover define n where "n = length perm - i"
      ultimately have "unat (of_nat n :: u64) = 0" by simp
      moreover have "0 < n" "n < 2 ^ 64" using True 1(2) by (auto simp: n_def)
      ultimately show False by (simp add: unat_of_nat take_bit_nat_eq_self)
    qed
    obtain j rng' where j: "urand_int 0 ?m rng = Inr (j, rng')" "j \<le> ?m"
      by (rule urand_int_bounds [OF word_zero_le m1])
    then have jl: "i + unat j < length perm" using m True by (simp add: word_le_nat_alt)
    let ?p = "if j \<noteq> 0 then swap_at i (i + unat j) perm else perm"
    have "mset ?p = mset perm" using jl by (simp add: mset_swap_at)
    moreover have "length ?p = length perm" by (simp add: swap_at_def)
    ultimately show ?thesis
      using 1(1) [OF True, of "(j, rng')" j rng'] 1(2) True j(1) jl
      by (subst shuffle_from.simps) simp
  next
    case False
    then show ?thesis by (subst shuffle_from.simps) simp
  qed
qed

section \<open>Properties\<close>

text \<open>C36: For all bounds, \<open>urand_int\<close> fails (a division by zero) exactly when the lower bound is one above the upper one
  in 64-bit arithmetic, so that the size of the range wraps around to 0; this is the full range from 0 to the largest
  value, and every range with \<open>max = min - 1\<close>. Otherwise it draws once, and the result lies between the bounds, or,
  when they are given in descending order, outside the gap between them.\<close>

theorem urand_int_range:
  "if mn = mx + 1 then urand_int mn mx rng = Inl OutOfRange
   else \<exists>r. urand_int mn mx rng = Inr (r, snd (xo_next rng)) \<and> (if mn \<le> mx then mn \<le> r \<and> r \<le> mx else mn \<le> r \<or> r \<le> mx)"
proof (cases "mn = mx + 1")
  case True
  then show ?thesis by (simp add: urand_int_def)
next
  case False
  have wrap: "mx - mn + 1 = 0 \<longleftrightarrow> mn = mx + 1" by (auto simp: algebra_simps)
  let ?r = "fst (xo_next rng) mod (mx - mn + 1) + mn"
  have r: "urand_int mn mx rng = Inr (?r, snd (xo_next rng))"
    using False by (simp add: urand_int_def wrap split: prod.split)
  have "?r - mn \<le> mx - mn"
    using urand_offset [of "mx - mn" "fst (xo_next rng)"] False wrap by simp
  then have "if mn \<le> mx then mn \<le> ?r \<and> ?r \<le> mx else mn \<le> ?r \<or> ?r \<le> mx" by (rule cyclic_range)
  then show ?thesis using False r by auto
qed

theorem urand_int_range_witness:
  "(\<exists>r rng'. urand_int 1 100 (xo_init 5 0) = Inr (r, rng') \<and> 1 \<le> r \<and> r \<le> 100) \<and> urand_int 8 7 (xo_init 5 0) = Inl OutOfRange"
  using urand_int_range [of 1 100 "xo_init 5 0"] urand_int_range [of 8 7 "xo_init 5 0"] by (auto simp: word_le_def)

text \<open>C35: The constructor of \<open>Permutation\<close> returns for every ascending range that fits the 64-bit counters, and the
  result is a permutation of the range.\<close>

theorem permutation_permutes:
  assumes "mn \<le> mx" and "mx - mn < 2 ^ 64 - 1"
  shows "\<exists>p rng'. make_permutation mn mx rng = Inr (p, rng') \<and> mset p = mset [mn..<mx + 1]"
proof -
  have "length [mn..<mx + 1] < 2 ^ 64" using assms by simp
  from shuffle_from_ok [OF this] show ?thesis using assms(1) unfolding make_permutation_def by (auto simp: Let_def)
qed

theorem permutation_permutes_witness:
  "\<exists>p rng'. make_permutation 1 10 (xo_init 5 0) = Inr (p, rng') \<and> mset p = mset [1..<11]"
  using permutation_permutes [of 1 10 "xo_init 5 0"] by simp

end
