(* ===== verification/Operations.thy ===== *)
theory Operations
  imports Rand_Gen
begin

text \<open>
  The YCSB workload: the configuration of benchmarks/ycsb/include/config.hpp and the operation
  sets of the transactions (class OperationSet of protocols/serval, caracal and cheetah, which
  build the same sets). The floating-point formula of \<open>FastZipf\<close> is a parameter
  \<open>zipf\<close>: a function of one draw of the generator.
\<close>

section \<open>benchmarks/ycsb/include/config.hpp\<close>

record ycsb_config =
  read_propotion :: int
  update_propotion :: int
  readmodifywrite_propotion :: int
  num_records :: nat
  num_threads :: nat
  reps_per_txn :: nat
  does_random_abort :: bool
  protocol_name :: string

definition ycsb_config_init :: ycsb_config where
  "ycsb_config_init = \<lparr>read_propotion = - 1, update_propotion = - 1, readmodifywrite_propotion = - 1,
     num_records = 0, num_threads = 1, reps_per_txn = 0, does_random_abort = False, protocol_name = []\<rparr>"

definition set_workload :: "int \<Rightarrow> int \<Rightarrow> int \<Rightarrow> ycsb_config \<Rightarrow> ycsb_config res" where
  "set_workload r u rmw c =
     (let c' = c\<lparr>read_propotion := r, update_propotion := u, readmodifywrite_propotion := rmw\<rparr>
      in if r + u + rmw \<noteq> 100 then Inl (RuntimeError ''invalid workload'') else Inr c')"

definition set_workload_type :: "string \<Rightarrow> ycsb_config \<Rightarrow> ycsb_config res" where
  "set_workload_type workload_type c =
     (if workload_type = ''A'' then set_workload 50 50 0 c
      else if workload_type = ''B'' then set_workload 95 5 0 c
      else if workload_type = ''C'' then set_workload 100 0 0 c
      else if workload_type = ''F'' then set_workload 50 0 50 c
      else if workload_type = ''X'' then set_workload 0 100 0 c
      else if workload_type = ''W90'' then set_workload 10 90 0 c
      else if workload_type = ''W80'' then set_workload 20 80 0 c
      else Inl (RuntimeError ''unknown workload''))"

definition get_read_propotion :: "ycsb_config \<Rightarrow> int res" where
  "get_read_propotion c =
     (if read_propotion c < 0 then Inl (RuntimeError ''workload unset'') else Inr (read_propotion c))"

definition get_update_propotion :: "ycsb_config \<Rightarrow> int res" where
  "get_update_propotion c =
     (if update_propotion c < 0 then Inl (RuntimeError ''workload unset'') else Inr (update_propotion c))"

definition get_readmodifywrite_propotion :: "ycsb_config \<Rightarrow> int res" where
  "get_readmodifywrite_propotion c =
     (if readmodifywrite_propotion c < 0 then Inl (RuntimeError ''workload unset'')
      else Inr (readmodifywrite_propotion c))"

definition get_max_reps_per_txn :: nat where
  "get_max_reps_per_txn = 1000"

definition set_reps_per_txn :: "nat \<Rightarrow> ycsb_config \<Rightarrow> ycsb_config res" where
  "set_reps_per_txn reps c =
     (if get_max_reps_per_txn < reps then Inl (RuntimeError ''invalid reps per txn'')
      else Inr (c\<lparr>reps_per_txn := reps\<rparr>))"

section \<open>class OperationSet\<close>

datatype ope_kind = Read | Update

record operation =
  ope :: ope_kind
  index :: nat
  op_value :: nat
  op_pending :: nat

text \<open>\<open>w_set_\<close> points to operations of \<open>rw_set_\<close>; it is kept as their positions there.\<close>

record operation_set =
  rw_set :: "operation list"
  w_set :: "nat list"

definition new_operation :: "ope_kind \<Rightarrow> nat \<Rightarrow> operation" where
  "new_operation k idx = \<lparr>ope = k, index = idx, op_value = 0, op_pending = 0\<rparr>"

definition has_key :: "operation_set \<Rightarrow> nat \<Rightarrow> bool" where
  "has_key os key \<longleftrightarrow> find (\<lambda>p. index p = key) (rw_set os) \<noteq> None"

definition contented_keys :: "nat list" where
  "contented_keys = map (\<lambda>i. 131072 * i) [0..<77]"

text \<open>The rejection loop; it draws until the key is new, so it need not return.\<close>

partial_function (option) fresh_key ::
  "(u64 \<Rightarrow> nat) \<Rightarrow> operation_set \<Rightarrow> xoshiro \<Rightarrow> (nat \<times> xoshiro) option" where
  "fresh_key key_of os rng =
     (case xo_next rng of (r, rng') \<Rightarrow>
        if has_key os (key_of r) then fresh_key key_of os rng' else Some (key_of r, rng'))"

definition add_operation :: "int \<Rightarrow> int \<Rightarrow> nat \<Rightarrow> operation_set \<Rightarrow> operation_set" where
  "add_operation operation_type read_prop key os =
     (if operation_type \<le> read_prop
      then os\<lparr>rw_set := rw_set os @ [new_operation Read key]\<rparr>
      else os\<lparr>rw_set := rw_set os @ [new_operation Update key], w_set := w_set os @ [length (rw_set os)]\<rparr>)"

fun add_operations ::
  "(u64 \<Rightarrow> nat) \<Rightarrow> int \<Rightarrow> nat \<Rightarrow> operation_set \<times> xoshiro \<Rightarrow> (operation_set \<times> xoshiro) option res" where
  "add_operations key_of read_prop 0 st = Inr (Some st)"
| "add_operations key_of read_prop (Suc j) (os, rng) =
     ebind (urand_int 1 100 rng) (\<lambda>(operation_type, rng1).
       case fresh_key key_of os rng1 of
         None \<Rightarrow> Inr None
       | Some (key, rng2) \<Rightarrow>
           add_operations key_of read_prop j (add_operation (uint operation_type) read_prop key os, rng2))"

definition make_operation_set ::
  "(u64 \<Rightarrow> nat) \<Rightarrow> ycsb_config \<Rightarrow> xoshiro \<Rightarrow> (operation_set \<times> xoshiro) option res" where
  "make_operation_set zipf c rng =
     ebind (get_read_propotion c) (\<lambda>read_prop.
       ebind (add_operations zipf read_prop 3 (\<lparr>rw_set = [], w_set = []\<rparr>, rng)) (\<lambda>r.
         case r of None \<Rightarrow> Inr None
         | Some st \<Rightarrow> add_operations (\<lambda>x. contented_keys ! (zipf x mod 77)) read_prop 7 st))"

text \<open>Cheetah's debugging check.\<close>

definition no_dupulicate_key :: "operation_set \<Rightarrow> bool" where
  "no_dupulicate_key os \<longleftrightarrow>
     list_all (\<lambda>ope1. length (filter (\<lambda>ope2. index ope1 = index ope2) (rw_set os)) \<le> 1) (rw_set os)"

section \<open>The generated sets\<close>

definition positions_of_updates :: "operation list \<Rightarrow> nat list" where
  "positions_of_updates xs = filter (\<lambda>i. ope (xs ! i) = Update) [0..<length xs]"

definition op_set_ok :: "operation_set \<Rightarrow> bool" where
  "op_set_ok os \<longleftrightarrow> distinct (map index (rw_set os)) \<and> w_set os = positions_of_updates (rw_set os)
     \<and> (\<forall>p \<in> set (rw_set os). op_pending p = 0)"

lemma has_key_iff: "has_key os key \<longleftrightarrow> key \<in> index ` set (rw_set os)"
  by (auto simp: has_key_def find_None_iff)

lemma positions_append:
  "positions_of_updates (xs @ [p]) = positions_of_updates xs @ (if ope p = Update then [length xs] else [])"
  by (auto simp: positions_of_updates_def nth_append intro!: filter_cong)

lemma add_operation_ok:
  "op_set_ok os \<Longrightarrow> \<not> has_key os key \<Longrightarrow> op_set_ok (add_operation t p key os)"
  by (auto simp: op_set_ok_def add_operation_def new_operation_def has_key_iff positions_append)

lemma rw_set_add [simp]:
  "map index (rw_set (add_operation t p key os)) = map index (rw_set os) @ [key]"
  by (simp add: add_operation_def new_operation_def)

lemma fresh_key_Some:
  assumes "fresh_key key_of os rng = Some y"
  shows "\<not> has_key os (fst y) \<and> fst y \<in> range key_of"
  using assms
proof (rule fresh_key.raw_induct [rotated])
  fix f :: "(u64 \<Rightarrow> nat) \<Rightarrow> operation_set \<Rightarrow> xoshiro \<Rightarrow> (nat \<times> xoshiro) option" and key_of os rng y
  assume "\<And>key_of os rng y. f key_of os rng = Some y \<Longrightarrow> \<not> has_key os (fst y) \<and> fst y \<in> range key_of"
    and "(case xo_next rng of (r, rng') \<Rightarrow> if has_key os (key_of r) then f key_of os rng' else Some (key_of r, rng')) = Some y"
  then show "\<not> has_key os (fst y) \<and> fst y \<in> range key_of"
    by (auto split: prod.splits if_splits)
qed

lemma snd_xo_next [simp]: "snd (xo_next rng) = xo_state_step rng"
  by (simp add: xo_next_def)

text \<open>The generator walks around a cycle, so every number it ever draws comes again.\<close>

definition draws :: "xoshiro \<Rightarrow> u64 set" where
  "draws rng = range (\<lambda>k. fst (xo_next ((xo_state_step ^^ k) rng)))"

lemma xo_cycle: "\<exists>n. (xo_state_step ^^ n) ((xo_state_step ^^ k) rng) = (xo_state_step ^^ j) rng"
proof -
  have "inj xo_state_step" using xo_step_bij by (simp add: bij_def)
  then obtain p where p: "0 < p" "(xo_state_step ^^ p) rng = rng"
    using funpow_inj_finite [of xo_state_step rng] finite_subset [OF subset_UNIV finite_class.finite_UNIV] by metis
  have "(xo_state_step ^^ (p * i)) rng = rng" for i
    using p(2) by (induction i) (simp_all add: funpow_add)
  moreover have "j + p * k - k + k = j + p * k" using p(1) by (simp add: trans_le_add2)
  ultimately show ?thesis by (metis comp_apply funpow_add)
qed

lemma draws_cycle: "draws ((xo_state_step ^^ k) rng) = draws rng"
proof
  show "draws ((xo_state_step ^^ k) rng) \<subseteq> draws rng"
    unfolding draws_def by (auto simp flip: comp_apply [of "xo_state_step ^^ _"] funpow_add)
  show "draws rng \<subseteq> draws ((xo_state_step ^^ k) rng)"
  proof
    fix x assume "x \<in> draws rng"
    then obtain j where "x = fst (xo_next ((xo_state_step ^^ j) rng))" by (auto simp: draws_def)
    with xo_cycle [of k rng j] show "x \<in> draws ((xo_state_step ^^ k) rng)" unfolding draws_def by (metis rangeI)
  qed
qed

lemma fresh_key_returns:
  "\<not> has_key os (key_of (fst (xo_next ((xo_state_step ^^ n) rng)))) \<Longrightarrow>
     \<exists>key k. fresh_key key_of os rng = Some (key, (xo_state_step ^^ k) rng)"
proof (induction n arbitrary: rng)
  case 0
  have "fresh_key key_of os rng = Some (key_of (fst (xo_next rng)), (xo_state_step ^^ 1) rng)"
    using 0 by (subst fresh_key.simps) (simp add: case_prod_unfold)
  then show ?case by blast
next
  case (Suc n)
  show ?case
  proof (cases "has_key os (key_of (fst (xo_next rng)))")
    case True
    from Suc.prems have "\<not> has_key os (key_of (fst (xo_next ((xo_state_step ^^ n) (xo_state_step rng)))))"
      unfolding funpow_Suc_right comp_apply .
    from Suc.IH [OF this] obtain key k where
      "fresh_key key_of os (xo_state_step rng) = Some (key, (xo_state_step ^^ Suc k) rng)"
      unfolding funpow_Suc_right comp_apply by blast
    moreover have "fresh_key key_of os rng = fresh_key key_of os (xo_state_step rng)"
      using True by (subst fresh_key.simps) (simp add: case_prod_unfold)
    ultimately show ?thesis by metis
  next
    case False
    then have "fresh_key key_of os rng = Some (key_of (fst (xo_next rng)), (xo_state_step ^^ 1) rng)"
      by (subst fresh_key.simps) (simp add: case_prod_unfold)
    then show ?thesis by blast
  qed
qed

definition extends_set :: "(u64 \<Rightarrow> nat) \<Rightarrow> nat \<Rightarrow> operation_set \<Rightarrow> operation_set \<Rightarrow> bool" where
  "extends_set key_of n os os' \<longleftrightarrow> op_set_ok os' \<and>
     (\<exists>ys. rw_set os' = rw_set os @ ys \<and> length ys = n \<and> index ` set ys \<subseteq> range key_of)"

lemma add_operations_extends:
  assumes "add_operations key_of p n (os, rng) = Inr (Some (os', rng'))" and "op_set_ok os"
  shows "extends_set key_of n os os'"
  using assms
proof (induction n arbitrary: os rng)
  case (Suc n)
  then obtain t :: u64 and rng1 where "(case fresh_key key_of os rng1 of None \<Rightarrow> Inr None
      | Some (key, rng2) \<Rightarrow> add_operations key_of p n (add_operation (uint t) p key os, rng2)) = Inr (Some (os', rng'))"
    by (auto simp: ebind_eq_Inr)
  then obtain key rng2 where f: "fresh_key key_of os rng1 = Some (key, rng2)"
    and rec: "add_operations key_of p n (add_operation (uint t) p key os, rng2) = Inr (Some (os', rng'))"
    by (auto split: option.splits)
  have key: "\<not> has_key os key" "key \<in> range key_of" using fresh_key_Some [OF f] by auto
  from Suc.IH [OF rec add_operation_ok [OF Suc.prems(2) key(1)]] obtain ys where
    "op_set_ok os'" "rw_set os' = rw_set (add_operation (uint t) p key os) @ ys" "length ys = n"
    "index ` set ys \<subseteq> range key_of" unfolding extends_set_def by blast
  with key(2) show ?case
    unfolding extends_set_def by (auto simp: add_operation_def new_operation_def split: if_splits)
qed (simp add: extends_set_def)

text \<open>The rejection loops return as long as the generator's cycle holds keys enough.\<close>

lemma add_operations_returns:
  assumes "length (rw_set os) + n \<le> card (key_of ` draws rng)"
  shows "\<exists>os' k. add_operations key_of p n (os, rng) = Inr (Some (os', (xo_state_step ^^ k) rng))
    \<and> length (rw_set os') = length (rw_set os) + n"
  using assms
proof (induction n arbitrary: os rng)
  case 0
  have "rng = (xo_state_step ^^ 0) rng" by simp
  then show ?case by (intro exI [of _ os] exI [of _ 0]) simp
next
  case (Suc n)
  obtain t where t: "urand_int 1 100 rng = Inr (t, xo_state_step rng)"
    by (rule urand_int_bounds [of 1 100]) (auto simp: word_le_def)
  have d: "draws (xo_state_step rng) = draws rng" using draws_cycle [of 1 rng] by simp
  have "card (index ` set (rw_set os)) < card (key_of ` draws rng)"
    using Suc.prems card_image_le [of "set (rw_set os)" index] card_length [of "rw_set os"] by simp
  then have "\<not> key_of ` draws rng \<subseteq> index ` set (rw_set os)" by (meson List.finite_set card_mono finite_imageI not_le)
  then have "\<exists>r \<in> draws (xo_state_step rng). \<not> has_key os (key_of r)" by (auto simp: has_key_iff d)
  then obtain k where "\<not> has_key os (key_of (fst (xo_next ((xo_state_step ^^ k) (xo_state_step rng)))))"
    unfolding draws_def by blast
  from fresh_key_returns [where n = k and key_of = key_of, OF this] obtain key j where
    f: "fresh_key key_of os (xo_state_step rng) = Some (key, (xo_state_step ^^ Suc j) rng)"
    unfolding funpow_Suc_right comp_apply by blast
  let ?os = "add_operation (uint t) p key os"
  have len: "length (rw_set ?os) = Suc (length (rw_set os))" by (simp add: add_operation_def)
  then have "length (rw_set ?os) + n \<le> card (key_of ` draws ((xo_state_step ^^ Suc j) rng))"
    using Suc.prems unfolding draws_cycle by simp
  from Suc.IH [OF this] obtain os' i where
    r: "add_operations key_of p n (?os, (xo_state_step ^^ Suc j) rng) = Inr (Some (os', (xo_state_step ^^ i) ((xo_state_step ^^ Suc j) rng)))"
    "length (rw_set os') = length (rw_set os) + Suc n" using len by auto
  then show ?case using t f by (auto simp flip: comp_apply [of "xo_state_step ^^ i"] funpow_add simp del: funpow.simps)
qed

lemma op_set_ok_no_duplicate:
  assumes "op_set_ok os"
  shows "no_dupulicate_key os"
proof -
  have one: "length (filter (\<lambda>q. index p = index q) xs) \<le> 1" if "distinct (map index xs)" for p and xs :: "operation list"
  proof -
    have "filter (\<lambda>q. index p = index q) xs = [] \<or> (\<exists>q. filter (\<lambda>q. index p = index q) xs = [q])"
      using that by (induction xs) (auto simp: filter_empty_conv)
    then show ?thesis by auto
  qed
  show ?thesis using assms one [of "rw_set os"] unfolding no_dupulicate_key_def op_set_ok_def list_all_iff by blast
qed

lemma contented_keys_range: "contented_keys ! (k mod 77) = 131072 * (k mod 77)"
  by (simp add: contented_keys_def)

lemma make_operation_set_returns:
  assumes "0 \<le> read_propotion c" and "10 \<le> card ((\<lambda>x. zipf x mod 77) ` draws rng)"
  shows "\<exists>os k. make_operation_set zipf c rng = Inr (Some (os, (xo_state_step ^^ k) rng))"
proof -
  let ?ck = "\<lambda>x. contented_keys ! (zipf x mod 77)" let ?p = "read_propotion c"
  have fin: "finite (zipf ` draws rng)" by (simp add: finite_subset [OF subset_UNIV finite_class.finite_UNIV])
  have "(\<lambda>x. zipf x mod 77) ` draws rng = (\<lambda>k. k mod 77) ` zipf ` draws rng" by auto
  then have z: "10 \<le> card (zipf ` draws rng)" using assms(2) card_image_le [OF fin, of "\<lambda>k. k mod 77"] by simp
  from add_operations_returns [of "\<lparr>rw_set = [], w_set = []\<rparr>" 3 zipf rng ?p] z obtain os1 k where
    r: "add_operations zipf ?p 3 (\<lparr>rw_set = [], w_set = []\<rparr>, rng) = Inr (Some (os1, (xo_state_step ^^ k) rng))"
    "length (rw_set os1) = 3" by auto
  have "?ck ` draws rng = (\<lambda>k. 131072 * k) ` (\<lambda>x. zipf x mod 77) ` draws rng" by (simp add: image_image contented_keys_range)
  then have "card (?ck ` draws rng) = card ((\<lambda>x. zipf x mod 77) ` draws rng)" by (simp add: card_image inj_on_def)
  then have "length (rw_set os1) + 7 \<le> card (?ck ` draws ((xo_state_step ^^ k) rng))"
    using assms(2) r(2) unfolding draws_cycle by simp
  from add_operations_returns [OF this, of ?p] obtain os2 j where
    "add_operations ?ck ?p 7 (os1, (xo_state_step ^^ k) rng) = Inr (Some (os2, (xo_state_step ^^ (j + k)) rng))"
    by (auto simp: funpow_add)
  then show ?thesis using r(1) assms(1) by (auto simp: make_operation_set_def get_read_propotion_def)
qed

text \<open>What the constructor returns.\<close>

lemma make_operation_set_ok:
  assumes "make_operation_set zipf c rng = Inr (Some (os, rng'))"
  shows "op_set_ok os" "length (rw_set os) = 10" "p \<in> set (take 3 (rw_set os)) \<Longrightarrow> index p \<in> range zipf"
    "p \<in> set (drop 3 (rw_set os)) \<Longrightarrow> \<exists>i < 77. index p = 131072 * i"
proof -
  let ?ck = "\<lambda>x. contented_keys ! (zipf x mod 77)" let ?p = "read_propotion c"
  obtain os1 rng1 where r: "add_operations zipf ?p 3 (\<lparr>rw_set = [], w_set = []\<rparr>, rng) = Inr (Some (os1, rng1))"
    "add_operations ?ck ?p 7 (os1, rng1) = Inr (Some (os, rng'))"
    using assms by (auto simp: make_operation_set_def get_read_propotion_def ebind_eq_Inr split: if_splits option.splits)
  have "op_set_ok \<lparr>rw_set = [], w_set = []\<rparr>" by (simp add: op_set_ok_def positions_of_updates_def)
  from add_operations_extends [OF r(1) this] have e1: "op_set_ok os1" "length (rw_set os1) = 3" "index ` set (rw_set os1) \<subseteq> range zipf"
    by (auto simp: extends_set_def)
  from add_operations_extends [OF r(2) e1(1)] obtain ys where e2: "op_set_ok os" "rw_set os = rw_set os1 @ ys"
    "length ys = 7" "index ` set ys \<subseteq> range ?ck" by (auto simp: extends_set_def)
  show "op_set_ok os" "length (rw_set os) = 10" using e1(2) e2 by simp_all
  show "index p \<in> range zipf" if "p \<in> set (take 3 (rw_set os))" using that e1(2,3) e2(2) by auto
  show "\<exists>i < 77. index p = 131072 * i" if "p \<in> set (drop 3 (rw_set os))"
  proof -
    from that have "p \<in> set ys" using e1(2) e2(2) by simp
    then obtain x where "index p = ?ck x" using e2(4) by blast
    then show ?thesis using contented_keys_range [of "zipf x"] by (intro exI [of _ "zipf x mod 77"]) simp
  qed
qed

text \<open>A generator and a key distribution with enough different keys, computed.\<close>

fun first_draws :: "nat \<Rightarrow> xoshiro \<Rightarrow> u64 list" where
  "first_draws 0 s = []"
| "first_draws (Suc n) s = fst (xo_next s) # first_draws n (snd (xo_next s))"

lemma first_draws_subset: "set (first_draws n s) \<subseteq> draws s"
proof (induction n s rule: first_draws.induct)
  case (2 n s)
  have "fst (xo_next s) \<in> draws s" unfolding draws_def by (rule image_eqI [of _ _ 0]) simp_all
  with 2 draws_cycle [of 1 s] show ?case by simp
qed simp

definition sample_rng :: xoshiro where
  "sample_rng = \<lparr>s0 = 1, s1 = 2, s2 = 3, s3 = 4\<rparr>"

lemma sample_first_draws: "map (\<lambda>x. x mod 77) (first_draws (Suc (Suc (Suc (Suc (Suc (Suc (Suc (Suc (Suc (Suc 0)))))))))) sample_rng) = [63, 5, 2, 73, 7, 13, 53, 17, 21, 69]"
  by (simp add: sample_rng_def xo_next_def xo_step_eq rotl_def)

lemma sample_draws: "10 \<le> card ((\<lambda>x. unat (x mod 77) mod 77) ` draws sample_rng)"
proof -
  let ?f = "\<lambda>x :: u64. unat (x mod 77) mod 77"
  let ?ds = "first_draws (Suc (Suc (Suc (Suc (Suc (Suc (Suc (Suc (Suc (Suc 0)))))))))) sample_rng"
  have "map ?f ?ds = map (\<lambda>y. unat y mod 77) (map (\<lambda>x. x mod 77) ?ds)" by simp
  also have "\<dots> = [63, 5, 2, 73, 7, 13, 53, 17, 21, 69]" unfolding sample_first_draws by simp
  finally have "?f ` set ?ds = set [63, 5, 2, 73, 7, 13, 53, 17, 21, 69]" by (metis list.set_map)
  moreover have "card (set [63, 5, 2, 73, 7, 13, 53, 17, 21, 69 :: nat]) = 10" by simp
  moreover have "finite (?f ` draws sample_rng)" by (simp add: finite_subset [OF subset_UNIV finite_class.finite_UNIV])
  ultimately show ?thesis using card_mono [OF _ image_mono [OF first_draws_subset]] by metis
qed

section \<open>Properties\<close>

text \<open>C32: Every operation set that the constructor returns has ten operations on ten different records, the last
  seven of them on contended records (multiples of 131072), and \<open>w_set_\<close> points at exactly the updates, in order.\<close>

theorem operation_set_keys:
  assumes "make_operation_set zipf c rng = Inr (Some (os, rng'))"
  shows "length (rw_set os) = 10 \<and> distinct (map index (rw_set os)) \<and> no_dupulicate_key os
    \<and> w_set os = positions_of_updates (rw_set os)
    \<and> (\<forall>p \<in> set (drop 3 (rw_set os)). \<exists>i < 77. index p = 131072 * i)"
  using make_operation_set_ok [OF assms] op_set_ok_no_duplicate by (simp add: op_set_ok_def)

theorem operation_set_keys_witness:
  "\<exists>os rng'. make_operation_set (\<lambda>x. unat (x mod 77)) (ycsb_config_init\<lparr>read_propotion := 50\<rparr>) sample_rng = Inr (Some (os, rng'))
     \<and> length (rw_set os) = 10 \<and> distinct (map index (rw_set os))"
proof -
  have "0 \<le> read_propotion (ycsb_config_init\<lparr>read_propotion := 50\<rparr>)" by simp
  from make_operation_set_returns [OF this sample_draws] obtain os rng' where
    "make_operation_set (\<lambda>x. unat (x mod 77)) (ycsb_config_init\<lparr>read_propotion := 50\<rparr>) sample_rng = Inr (Some (os, rng'))" by blast
  with operation_set_keys [OF this] show ?thesis by blast
qed

text \<open>C34: The constructor returns: its rejection loops end for every generator whose cycle yields at least ten
  different contended records.\<close>

theorem operation_set_returns:
  assumes "0 \<le> read_propotion c" and "10 \<le> card ((\<lambda>x. zipf x mod 77) ` draws rng)"
  shows "\<exists>os rng'. make_operation_set zipf c rng = Inr (Some (os, rng'))"
  using make_operation_set_returns [OF assms] by blast

theorem operation_set_returns_witness:
  "\<exists>os rng'. make_operation_set (\<lambda>x. unat (x mod 77)) (ycsb_config_init\<lparr>read_propotion := 50\<rparr>) sample_rng = Inr (Some (os, rng'))"
  by (rule operation_set_returns [OF _ sample_draws]) simp

end
