(* ===== verification/Barrier.thy ===== *)
theory Barrier
  imports Prelude
begin

text \<open>
  protocols/ycsb_common/rendezvous_barrier.hpp with \<open>rendezvous_barrier_to_start\<close> of the
  executables, one atomic access at a time: between two barriers the threads run a phase, and no
  thread starts a phase before all have finished the previous one.
\<close>

section \<open>class RendezvousBarrierVariable\<close>

datatype barrier_type = BeforeExp | Exp | InitPhase | ExecPhase | NewEpoc | Size

record barrier_variable =
  start :: barrier_type
  ready :: int
  num_children :: int

definition barrier_variable_init :: "int \<Rightarrow> barrier_variable" where
  "barrier_variable_init n = \<lparr>start = BeforeExp, ready = n, num_children = n\<rparr>"

text \<open>The spin loops as one test each: whether the loop is left.\<close>

definition wait_all_children_ready :: "barrier_variable \<Rightarrow> bool" where
  "wait_all_children_ready v \<longleftrightarrow> \<not> 0 < ready v"

definition send_start_to_all_children :: "barrier_type \<Rightarrow> barrier_variable \<Rightarrow> barrier_variable" where
  "send_start_to_all_children type v = v\<lparr>start := type\<rparr>"

definition barrier_initialize :: "barrier_variable \<Rightarrow> barrier_variable" where
  "barrier_initialize v = v\<lparr>ready := num_children v\<rparr>"

definition send_ready_to_parent :: "barrier_variable \<Rightarrow> barrier_variable" where
  "send_ready_to_parent v = v\<lparr>ready := ready v - 1\<rparr>"

definition wait_start :: "barrier_type \<Rightarrow> barrier_variable \<Rightarrow> bool" where
  "wait_start type v \<longleftrightarrow> \<not> start v \<noteq> type"

section \<open>class RendezvousBarrier and rendezvous_barrier_to_start\<close>

text \<open>
  Where a thread is: working after \<open>k\<close> barriers, waiting in \<open>wait_start\<close>, or (the parent) in
  \<open>wait_all_children_ready\<close>, before \<open>initialize\<close>, or before \<open>send_start_to_all_children\<close>.
\<close>

datatype barrier_pc = Working nat | WaitStart nat | WaitReady nat | Initialize nat | SendStart nat

record barrier_state =
  bvar :: barrier_variable
  bpc :: "nat \<Rightarrow> barrier_pc"

definition parent_id :: nat where
  "parent_id = 63"

definition wait_all_children_and_send_start :: "barrier_type list \<Rightarrow> barrier_pc \<Rightarrow> barrier_variable \<Rightarrow> barrier_pc \<times> barrier_variable" where
  "wait_all_children_and_send_start prog pc v =
     (case pc of
        Working k \<Rightarrow> (if k < length prog then (WaitReady k, v) else (pc, v))
      | WaitReady k \<Rightarrow> (if wait_all_children_ready v then (Initialize k, v) else (pc, v))
      | Initialize k \<Rightarrow> (SendStart k, barrier_initialize v)
      | SendStart k \<Rightarrow> (Working (Suc k), send_start_to_all_children (prog ! k) v)
      | WaitStart k \<Rightarrow> (pc, v))"

definition send_ready_and_wait_start :: "barrier_type list \<Rightarrow> barrier_pc \<Rightarrow> barrier_variable \<Rightarrow> barrier_pc \<times> barrier_variable" where
  "send_ready_and_wait_start prog pc v =
     (case pc of
        Working k \<Rightarrow> (if k < length prog then (WaitStart k, send_ready_to_parent v) else (pc, v))
      | WaitStart k \<Rightarrow> (if wait_start (prog ! k) v then (Working (Suc k), v) else (pc, v))
      | _ \<Rightarrow> (pc, v))"

definition rendezvous_barrier_to_start :: "barrier_type list \<Rightarrow> nat \<Rightarrow> barrier_state \<Rightarrow> barrier_state" where
  "rendezvous_barrier_to_start prog worker_id s =
     (case (if worker_id = parent_id then wait_all_children_and_send_start prog (bpc s worker_id) (bvar s)
            else send_ready_and_wait_start prog (bpc s worker_id) (bvar s)) of
        (pc, v) \<Rightarrow> \<lparr>bvar = v, bpc = (bpc s)(worker_id := pc)\<rparr>)"

text \<open>The constructor call of \<open>main\<close> and the threads' first instruction.\<close>

definition barrier_init :: "nat \<Rightarrow> barrier_state" where
  "barrier_init num_threads = \<lparr>bvar = barrier_variable_init (int num_threads - 1), bpc = (\<lambda>_. Working 0)\<rparr>"

text \<open>The barriers that \<open>run_tx\<close> passes in \<open>epochs\<close> epochs: Serval and Caracal, and Cheetah.\<close>

definition run_tx_barriers :: "nat \<Rightarrow> barrier_type list" where
  "run_tx_barriers epochs = Exp # concat (replicate epochs [ExecPhase, NewEpoc])"

definition run_tx_barriers_cheetah :: "nat \<Rightarrow> barrier_type list" where
  "run_tx_barriers_cheetah epochs = Exp # concat (replicate epochs [InitPhase, ExecPhase, NewEpoc])"

inductive barrier_reachable :: "nat \<Rightarrow> barrier_type list \<Rightarrow> barrier_state \<Rightarrow> bool" for num_threads prog where
  init: "barrier_reachable num_threads prog (barrier_init num_threads)"
| step: "barrier_reachable num_threads prog s \<Longrightarrow> t < num_threads \<Longrightarrow>
    barrier_reachable num_threads prog (rendezvous_barrier_to_start prog t s)"

fun barrier_run :: "barrier_type list \<Rightarrow> nat list \<Rightarrow> barrier_state \<Rightarrow> barrier_state" where
  "barrier_run prog [] s = s"
| "barrier_run prog (t # ts) s = barrier_run prog ts (rendezvous_barrier_to_start prog t s)"

section \<open>The invariant\<close>

text \<open>Neighbouring barriers have different types, and the first is not the initial one.\<close>

definition barriers_alternate :: "barrier_type list \<Rightarrow> bool" where
  "barriers_alternate prog \<longleftrightarrow> distinct_adj (BeforeExp # prog)"

definition last_start :: "barrier_type list \<Rightarrow> nat \<Rightarrow> barrier_type" where
  "last_start prog k = (BeforeExp # prog) ! k"

definition arrived :: "nat \<Rightarrow> nat \<Rightarrow> barrier_state \<Rightarrow> nat set" where
  "arrived n k s = {t. t < n \<and> t \<noteq> parent_id \<and> bpc s t = WaitStart k}"

text \<open>
  With the parent at barrier \<open>K\<close>, a child has been released from barrier \<open>K - 1\<close> and not noticed
  yet, works, or has arrived at barrier \<open>K\<close>.
\<close>

definition child_ok :: "nat \<Rightarrow> nat \<Rightarrow> barrier_pc \<Rightarrow> bool" where
  "child_ok len K pc \<longleftrightarrow> pc = Working K \<or> pc = WaitStart K \<and> K < len \<or> (\<exists>k. K = Suc k \<and> pc = WaitStart k)"

definition barrier_inv :: "nat \<Rightarrow> barrier_type list \<Rightarrow> barrier_state \<Rightarrow> bool" where
  "barrier_inv n prog s \<longleftrightarrow> num_children (bvar s) = int n - 1 \<and>
     (\<exists>K \<le> length prog. start (bvar s) = last_start prog K
        \<and> (\<forall>t < n. t \<noteq> parent_id \<longrightarrow> child_ok (length prog) K (bpc s t))
        \<and> (bpc s parent_id = Working K \<and> ready (bvar s) = int n - 1 - int (card (arrived n K s))
           \<or> K < length prog \<and> bpc s parent_id = WaitReady K \<and> ready (bvar s) = int n - 1 - int (card (arrived n K s))
           \<or> K < length prog \<and> bpc s parent_id = Initialize K \<and> card (arrived n K s) = n - 1
           \<or> K < length prog \<and> bpc s parent_id = SendStart K \<and> card (arrived n K s) = n - 1 \<and> ready (bvar s) = int n - 1))"

lemma arrived_children: "arrived n k s \<subseteq> {..<n} - {parent_id}" "finite (arrived n k s)"
  by (auto simp: arrived_def)

lemma all_arrived:
  assumes "parent_id < n" and "card (arrived n k s) = n - 1" and "t < n" "t \<noteq> parent_id"
  shows "bpc s t = WaitStart k"
proof -
  have "card ({..<n} - {parent_id}) = n - 1" using assms(1) by simp
  then have "arrived n k s = {..<n} - {parent_id}" using arrived_children(1) assms(2) by (metis card_subset_eq finite_Diff finite_lessThan)
  then have "t \<in> arrived n k s" using assms(3,4) by simp
  then show ?thesis by (simp add: arrived_def)
qed

lemma last_start_next: "barriers_alternate prog \<Longrightarrow> k < length prog \<Longrightarrow> last_start prog k \<noteq> prog ! k"
  unfolding barriers_alternate_def last_start_def by (metis distinct_adj_conv_nth length_Cons Suc_less_eq nth_Cons_Suc diff_Suc_1)

lemma last_start_Suc [simp]: "last_start prog (Suc k) = prog ! k"
  by (simp add: last_start_def)

lemma barrier_inv_init: "parent_id < n \<Longrightarrow> barrier_inv n prog (barrier_init n)"
  unfolding barrier_inv_def
  by (auto simp: barrier_init_def barrier_variable_init_def child_ok_def arrived_def last_start_def intro!: exI [of _ 0])

definition parent_ok :: "nat \<Rightarrow> nat \<Rightarrow> nat \<Rightarrow> barrier_state \<Rightarrow> bool" where
  "parent_ok n len K s \<longleftrightarrow>
     bpc s parent_id = Working K \<and> ready (bvar s) = int n - 1 - int (card (arrived n K s))
     \<or> K < len \<and> bpc s parent_id = WaitReady K \<and> ready (bvar s) = int n - 1 - int (card (arrived n K s))
     \<or> K < len \<and> bpc s parent_id = Initialize K \<and> card (arrived n K s) = n - 1
     \<or> K < len \<and> bpc s parent_id = SendStart K \<and> card (arrived n K s) = n - 1 \<and> ready (bvar s) = int n - 1"

lemma barrier_invE:
  assumes "barrier_inv n prog s"
  obtains K where "num_children (bvar s) = int n - 1" "K \<le> length prog" "start (bvar s) = last_start prog K"
    "\<And>t. t < n \<Longrightarrow> t \<noteq> parent_id \<Longrightarrow> child_ok (length prog) K (bpc s t)" "parent_ok n (length prog) K s"
  using assms unfolding barrier_inv_def parent_ok_def by blast

lemma barrier_invI:
  assumes "num_children (bvar s) = int n - 1" "K \<le> length prog" "start (bvar s) = last_start prog K"
    "\<And>t. t < n \<Longrightarrow> t \<noteq> parent_id \<Longrightarrow> child_ok (length prog) K (bpc s t)" "parent_ok n (length prog) K s"
  shows "barrier_inv n prog s"
  using assms unfolding barrier_inv_def parent_ok_def by blast

lemma parent_step:
  assumes n: "parent_id < n" and inv: "barrier_inv n prog s"
  shows "barrier_inv n prog (rendezvous_barrier_to_start prog parent_id s)" (is "barrier_inv n prog ?s")
proof (rule barrier_invE [OF inv])
  fix K assume nc: "num_children (bvar s) = int n - 1" and K: "K \<le> length prog" and st: "start (bvar s) = last_start prog K"
    and ch: "\<And>t. t < n \<Longrightarrow> t \<noteq> parent_id \<Longrightarrow> child_ok (length prog) K (bpc s t)" and pa: "parent_ok n (length prog) K s"
  have arr: "arrived n k ?s = arrived n k s" for k by (auto simp: arrived_def rendezvous_barrier_to_start_def split: prod.splits)
  have kids: "bpc ?s t = bpc s t" if "t \<noteq> parent_id" for t using that by (simp add: rendezvous_barrier_to_start_def split: prod.splits)
  note defs = rendezvous_barrier_to_start_def wait_all_children_and_send_start_def wait_all_children_ready_def
    barrier_initialize_def send_start_to_all_children_def
  from pa consider (Working) "bpc s parent_id = Working K" "ready (bvar s) = int n - 1 - int (card (arrived n K s))"
    | (WaitReady) "K < length prog" "bpc s parent_id = WaitReady K" "ready (bvar s) = int n - 1 - int (card (arrived n K s))"
    | (Initialize) "K < length prog" "bpc s parent_id = Initialize K" "card (arrived n K s) = n - 1"
    | (SendStart) "K < length prog" "bpc s parent_id = SendStart K" "card (arrived n K s) = n - 1" "ready (bvar s) = int n - 1"
    unfolding parent_ok_def by blast
  then show ?thesis
  proof cases
    case Working
    show ?thesis by (rule barrier_invI [of _ _ K]) (use nc K st ch kids Working in \<open>simp_all add: parent_ok_def arr\<close>, simp_all add: defs)
  next
    case WaitReady
    have "card (arrived n K s) \<le> n - 1" using card_mono [OF _ arrived_children(1), of n K s] n by simp
    then have "card (arrived n K s) = n - 1" if "\<not> 0 < ready (bvar s)" using that WaitReady(3) by linarith
    then show ?thesis by (intro barrier_invI [of _ _ K]) (use nc K st ch kids WaitReady in \<open>simp_all add: parent_ok_def arr\<close>, simp_all add: defs)
  next
    case Initialize
    then show ?thesis by (intro barrier_invI [of _ _ K]) (use nc K st ch kids in \<open>simp_all add: parent_ok_def arr\<close>, simp_all add: defs)
  next
    case SendStart
    have w: "bpc s t = WaitStart K" if "t < n" "t \<noteq> parent_id" for t using all_arrived [OF n SendStart(3) that] .
    then have "arrived n (Suc K) s = {}" by (auto simp: arrived_def)
    then show ?thesis using SendStart nc kids w
      by (intro barrier_invI [of _ _ "Suc K"]) (simp_all add: parent_ok_def arr child_ok_def, simp_all add: defs)
  qed
qed

lemma child_step:
  assumes n: "parent_id < n" and alt: "barriers_alternate prog" and inv: "barrier_inv n prog s" and t: "t < n" "t \<noteq> parent_id"
  shows "barrier_inv n prog (rendezvous_barrier_to_start prog t s)" (is "barrier_inv n prog ?s")
proof (rule barrier_invE [OF inv])
  fix K assume nc: "num_children (bvar s) = int n - 1" and K: "K \<le> length prog" and st: "start (bvar s) = last_start prog K"
    and ch: "\<And>t. t < n \<Longrightarrow> t \<noteq> parent_id \<Longrightarrow> child_ok (length prog) K (bpc s t)" and pa: "parent_ok n (length prog) K s"
  have pp: "bpc ?s parent_id = bpc s parent_id" using t(2) by (simp add: rendezvous_barrier_to_start_def split: prod.splits)
  note defs = rendezvous_barrier_to_start_def send_ready_and_wait_start_def wait_start_def send_ready_to_parent_def
  have same: "bpc s t = WaitStart K" if "card (arrived n K s) = n - 1" by (rule all_arrived [OF n that t])
  from ch [OF t] consider (Working) "bpc s t = Working K" | (Wait) "bpc s t = WaitStart K" "K < length prog"
    | (Released) k where "K = Suc k" "bpc s t = WaitStart k" unfolding child_ok_def by blast
  then show ?thesis
  proof cases
    case Working
    show ?thesis
    proof (cases "K < length prog")
      case True
      have s: "?s = \<lparr>bvar = (bvar s)\<lparr>ready := ready (bvar s) - 1\<rparr>, bpc = (bpc s)(t := WaitStart K)\<rparr>"
        using Working True t(2) by (simp add: defs)
      have "arrived n K ?s = insert t (arrived n K s)" using t by (auto simp: arrived_def s)
      moreover have "t \<notin> arrived n K s" using Working by (simp add: arrived_def)
      ultimately have card: "card (arrived n K ?s) = Suc (card (arrived n K s))" using arrived_children(2) by simp
      have "parent_ok n (length prog) K ?s"
        using pa same Working pp unfolding parent_ok_def card by (auto simp: s)
      then show ?thesis using nc K st ch True by (intro barrier_invI [of _ _ K]) (simp_all add: s child_ok_def)
    next
      case False
      then have "?s = s" using Working t(2) by (intro barrier_state.equality) (simp_all add: defs fun_upd_idem)
      then show ?thesis using inv by simp
    qed
  next
    case Wait
    then have "?s = s" using t(2) st last_start_next [OF alt Wait(2)]
      by (intro barrier_state.equality) (simp_all add: defs fun_upd_idem)
    then show ?thesis using inv by simp
  next
    case (Released k)
    have s: "?s = s\<lparr>bpc := (bpc s)(t := Working K)\<rparr>"
      using Released t(2) st by (intro barrier_state.equality) (simp_all add: defs)
    have "arrived n K ?s = arrived n K s" using Released by (auto simp: arrived_def s)
    then have "parent_ok n (length prog) K ?s" using pa pp unfolding parent_ok_def by (simp add: s)
    then show ?thesis using nc K st ch by (intro barrier_invI [of _ _ K]) (simp_all add: s child_ok_def)
  qed
qed

lemma barrier_reachable_inv:
  assumes "parent_id < n" and "barriers_alternate prog" and "barrier_reachable n prog s"
  shows "barrier_inv n prog s"
  using assms(3)
proof induction
  case init
  show ?case by (rule barrier_inv_init [OF assms(1)])
next
  case (step s t)
  then show ?case using parent_step [OF assms(1)] child_step [OF assms(1,2)] by (cases "t = parent_id") auto
qed

section \<open>Progress\<close>

definition barrier_work :: "nat \<Rightarrow> barrier_pc \<Rightarrow> nat" where
  "barrier_work len pc = (case pc of Working k \<Rightarrow> 4 * (len - k) | WaitStart k \<Rightarrow> 4 * (len - k) - 1
     | WaitReady k \<Rightarrow> 4 * (len - k) - 1 | Initialize k \<Rightarrow> 4 * (len - k) - 2 | SendStart k \<Rightarrow> 4 * (len - k) - 3)"

lemma barrier_frame: "u \<noteq> t \<Longrightarrow> bpc (rendezvous_barrier_to_start prog t s) u = bpc s u"
  by (simp add: rendezvous_barrier_to_start_def split: prod.splits)

lemma barrier_progress:
  assumes n: "parent_id < n" and inv: "barrier_inv n prog s" and nd: "\<exists>t < n. bpc s t \<noteq> Working (length prog)"
  obtains t where "t < n" "barrier_work (length prog) (bpc (rendezvous_barrier_to_start prog t s) t) < barrier_work (length prog) (bpc s t)"
proof (rule barrier_invE [OF inv])
  fix K assume K: "K \<le> length prog" and st: "start (bvar s) = last_start prog K"
    and ch: "\<And>t. t < n \<Longrightarrow> t \<noteq> parent_id \<Longrightarrow> child_ok (length prog) K (bpc s t)" and pa: "parent_ok n (length prog) K s"
  note defs = rendezvous_barrier_to_start_def send_ready_and_wait_start_def wait_start_def send_ready_to_parent_def
    wait_all_children_and_send_start_def wait_all_children_ready_def barrier_work_def
  show ?thesis
  proof (cases "\<exists>t < n. t \<noteq> parent_id \<and> (bpc s t = Working K \<and> K < length prog \<or> (\<exists>k. K = Suc k \<and> bpc s t = WaitStart k))")
    case True
    then obtain t where t: "t < n" "t \<noteq> parent_id" "bpc s t = Working K \<and> K < length prog \<or> (\<exists>k. K = Suc k \<and> bpc s t = WaitStart k)" by blast
    then show ?thesis using that [OF t(1)] st K by (auto simp: defs)
  next
    case False
    then have kids: "bpc s t = WaitStart K \<and> K < length prog \<or> bpc s t = Working K \<and> K = length prog" if "t < n" "t \<noteq> parent_id" for t
      using ch [OF that] that K unfolding child_ok_def by auto
    show ?thesis
    proof (cases "K < length prog")
      case True
      then have "arrived n K s = {..<n} - {parent_id}" using kids by (auto simp: arrived_def)
      then have "card (arrived n K s) = n - 1" using n by simp
      then have "bpc s parent_id = Working K \<or> bpc s parent_id = WaitReady K \<and> \<not> 0 < ready (bvar s) \<or> bpc s parent_id = Initialize K
          \<or> bpc s parent_id = SendStart K"
        using pa n unfolding parent_ok_def by auto
      then show ?thesis using that [OF n] True by (auto simp: defs)
    next
      case no: False
      then have "bpc s t = Working (length prog)" if "t < n" for t
        using kids [OF that] pa K by (cases "t = parent_id") (auto simp: parent_ok_def)
      then show ?thesis using nd by blast
    qed
  qed
qed

lemma barrier_completes:
  assumes n: "parent_id < n" and alt: "barriers_alternate prog"
  shows "barrier_inv n prog s \<Longrightarrow> \<exists>ts. set ts \<subseteq> {..<n} \<and> (\<forall>t < n. bpc (barrier_run prog ts s) t = Working (length prog))"
proof (induction "\<Sum>t < n. barrier_work (length prog) (bpc s t)" arbitrary: s rule: less_induct)
  case less
  show ?case
  proof (cases "\<exists>t < n. bpc s t \<noteq> Working (length prog)")
    case False
    then show ?thesis by (intro exI [of _ "[]"]) simp
  next
    case True
    let ?w = "\<lambda>s t. barrier_work (length prog) (bpc s t)"
    obtain t where t: "t < n" "?w (rendezvous_barrier_to_start prog t s) t < ?w s t"
      using barrier_progress [OF n less.prems True] by blast
    let ?s = "rendezvous_barrier_to_start prog t s"
    have "barrier_inv n prog ?s"
      using parent_step [OF n less.prems] child_step [OF n alt less.prems t(1)] by (cases "t = parent_id") auto
    moreover have "?w ?s u \<le> ?w s u" for u using t(2) barrier_frame [of u t prog s] by (cases "u = t") auto
    then have "(\<Sum>u < n. ?w ?s u) < (\<Sum>u < n. ?w s u)" using t by (intro sum_strict_mono_ex1) auto
    ultimately obtain ts where "set ts \<subseteq> {..<n}" "\<forall>u < n. bpc (barrier_run prog ts ?s) u = Working (length prog)"
      using less.hyps by blast
    then show ?thesis using t(1) by (intro exI [of _ "t # ts"]) simp
  qed
qed

lemma rounds_alternate:
  "x \<noteq> ExecPhase \<Longrightarrow> distinct_adj (x # concat (replicate k [ExecPhase, NewEpoc]))"
  "x \<noteq> InitPhase \<Longrightarrow> distinct_adj (x # concat (replicate k [InitPhase, ExecPhase, NewEpoc]))"
  by (induction k arbitrary: x) (simp_all add: distinct_adj_Cons_Cons)

lemma run_tx_alternate:
  "barriers_alternate (run_tx_barriers epochs)" "barriers_alternate (run_tx_barriers_cheetah epochs)"
  by (simp_all add: barriers_alternate_def run_tx_barriers_def run_tx_barriers_cheetah_def distinct_adj_Cons_Cons rounds_alternate)

lemma no_parent_stuck:
  assumes "n \<le> parent_id" and "barriers_alternate prog" and "barrier_reachable n prog s"
  shows "start (bvar s) = BeforeExp \<and> (\<forall>t < n. bpc s t = Working 0 \<or> bpc s t = WaitStart 0 \<and> prog \<noteq> [])"
  using assms(3)
proof induction
  case init
  then show ?case by (simp add: barrier_init_def barrier_variable_init_def)
next
  case (step s t)
  have "t \<noteq> parent_id" using step.hyps assms(1) by simp
  moreover have "prog ! 0 \<noteq> BeforeExp" if "prog \<noteq> []" using last_start_next [OF assms(2), of 0] that by (auto simp: last_start_def)
  moreover have "bpc s t = Working 0 \<or> bpc s t = WaitStart 0 \<and> prog \<noteq> []" using step by blast
  ultimately show ?case using step.IH
    by (auto simp: rendezvous_barrier_to_start_def send_ready_and_wait_start_def wait_start_def send_ready_to_parent_def split: if_splits)
qed

section \<open>Properties\<close>

text \<open>C5: With at least 64 threads the rendezvous barrier keeps the phases of an experiment apart, for any number of
  epochs and any interleaving of the threads' accesses to the barrier, in the executables of Serval and Caracal and in
  that of Cheetah: all threads that are working between two barriers have passed the same number of barriers, so
  nobody still runs a phase when another one runs the next.\<close>

theorem barrier_separates_phases:
  assumes "64 \<le> num_threads" and "prog = run_tx_barriers epochs \<or> prog = run_tx_barriers_cheetah epochs"
    and "barrier_reachable num_threads prog s" and "t < num_threads" and "u < num_threads"
    and "bpc s t = Working k" and "bpc s u = Working k'"
  shows "k = k'"
proof -
  have "parent_id < num_threads" "barriers_alternate prog" using assms(1,2) run_tx_alternate by (auto simp: parent_id_def)
  then have "barrier_inv num_threads prog s" using barrier_reachable_inv assms(3) by blast
  then show ?thesis
  proof (rule barrier_invE)
    fix K assume ch: "\<And>t. t < num_threads \<Longrightarrow> t \<noteq> parent_id \<Longrightarrow> child_ok (length prog) K (bpc s t)" and pa: "parent_ok num_threads (length prog) K s"
    have "j = K" if "v < num_threads" "bpc s v = Working j" for v j
      using ch [OF that(1)] pa that(2) by (cases "v = parent_id") (auto simp: child_ok_def parent_ok_def)
    then show ?thesis using assms(4-7) by blast
  qed
qed

theorem barrier_separates_phases_witness:
  "\<exists>k. bpc (rendezvous_barrier_to_start (run_tx_barriers 1) 3 (barrier_init 64)) 5 = Working k
     \<and> bpc (rendezvous_barrier_to_start (run_tx_barriers 1) 3 (barrier_init 64)) 63 = Working k"
proof -
  let ?s = "rendezvous_barrier_to_start (run_tx_barriers 1) 3 (barrier_init 64)"
  have r: "barrier_reachable 64 (run_tx_barriers 1) ?s" by (intro barrier_reachable.step barrier_reachable.init) simp
  obtain k k' where "bpc ?s 5 = Working k" "bpc ?s 63 = Working k'" by (simp add: barrier_frame barrier_init_def)
  with barrier_separates_phases [OF _ _ r, of 1 5 63 k k'] show ?thesis by auto
qed

text \<open>C11: With at least 64 threads no interleaving blocks: from every reachable state all threads can pass all their
  barriers.\<close>

theorem barrier_no_deadlock:
  assumes "64 \<le> num_threads" and "prog = run_tx_barriers epochs \<or> prog = run_tx_barriers_cheetah epochs"
    and "barrier_reachable num_threads prog s"
  shows "\<exists>ts. set ts \<subseteq> {..<num_threads} \<and> (\<forall>t < num_threads. bpc (barrier_run prog ts s) t = Working (length prog))"
proof -
  have n: "parent_id < num_threads" "barriers_alternate prog" using assms(1,2) run_tx_alternate by (auto simp: parent_id_def)
  show ?thesis by (rule barrier_completes [OF n barrier_reachable_inv [OF n assms(3)]])
qed

theorem barrier_no_deadlock_witness:
  "\<exists>ts. set ts \<subseteq> {..<64} \<and> bpc (barrier_run (run_tx_barriers_cheetah 2) ts (barrier_init 64)) ` {..<64}
     = {Working (length (run_tx_barriers_cheetah 2))}"
proof -
  obtain ts where "set ts \<subseteq> {..<64}" "\<forall>t < 64. bpc (barrier_run (run_tx_barriers_cheetah 2) ts (barrier_init 64)) t
     = Working (length (run_tx_barriers_cheetah 2))"
    using barrier_no_deadlock [OF _ _ barrier_reachable.init, of 64 "run_tx_barriers_cheetah 2" 2] by auto
  then show ?thesis by (intro exI [of _ ts]) (auto simp: image_iff intro!: exI [of _ 0] bexI [of _ 0])
qed

text \<open>C26: With fewer than 64 threads the experiment hangs at its first barrier: \<open>rendezvous_barrier_to_start\<close> takes the
  thread with id 63 for the parent whatever \<open>num_threads\<close> is, so nobody sends the start and no thread ever passes a
  barrier.\<close>

theorem barrier_hangs_below_64_threads:
  assumes "num_threads < 64" and "barrier_reachable num_threads (run_tx_barriers epochs) s" and "t < num_threads"
  shows "bpc s t = Working 0 \<or> bpc s t = WaitStart 0"
  using no_parent_stuck [OF _ run_tx_alternate(1) assms(2)] assms(1,3) by (auto simp: parent_id_def)

theorem barrier_hangs_below_64_threads_witness:
  "bpc (rendezvous_barrier_to_start (run_tx_barriers 1) 3 (barrier_init 16)) 3 = WaitStart 0"
proof -
  have r: "barrier_reachable 16 (run_tx_barriers 1) (rendezvous_barrier_to_start (run_tx_barriers 1) 3 (barrier_init 16))"
    by (intro barrier_reachable.step barrier_reachable.init) simp
  have "bpc (rendezvous_barrier_to_start (run_tx_barriers 1) 3 (barrier_init 16)) 3 \<noteq> Working 0"
    by (simp add: rendezvous_barrier_to_start_def parent_id_def send_ready_and_wait_start_def barrier_init_def run_tx_barriers_def)
  then show ?thesis using barrier_hangs_below_64_threads [OF _ r, of 3] by simp
qed

end
