(* ===== verification/Workers.thy ===== *)
theory Workers
  imports Serval_Epoch Caracal_Phases Cheetah_Phases Operations Barrier
begin

text \<open>
  The loops of executables/ycsb_serval.cpp, ycsb_caracal.cpp and ycsb_cheetah.cpp: how a worker
  runs the transactions of an epoch, phase by phase, on top of the protocol classes. \<open>None\<close>
  stands for a call that spins in the given state. The row-level theorems start from the
  assignment of serial ids these loops make.
\<close>

section \<open>Constants\<close>

definition NUM_CORE :: nat where
  "NUM_CORE = 64"

text \<open>A compile-time parameter; the default of CMakeLists.txt.\<close>

definition NUM_TXS_IN_ONE_EPOCH :: nat where
  "NUM_TXS_IN_ONE_EPOCH = 4096"

definition NUM_TXS_IN_ONE_EPOCH_IN_ONE_CORE :: nat where
  "NUM_TXS_IN_ONE_EPOCH_IN_ONE_CORE = NUM_TXS_IN_ONE_EPOCH div NUM_CORE"

definition NUM_EPOCH :: nat where
  "NUM_EPOCH = 1000"

definition head_in_the_epoch :: "nat \<Rightarrow> nat" where
  "head_in_the_epoch epoch = (epoch - 1) * NUM_TXS_IN_ONE_EPOCH"

text \<open>The two ways in which a worker's \<open>i\<close>-th transaction gets its serial id.\<close>

definition sequential_id :: "nat \<Rightarrow> nat \<Rightarrow> nat" where
  "sequential_id worker_id i = worker_id * 64 + i"

definition round_robin_id :: "nat \<Rightarrow> nat \<Rightarrow> nat" where
  "round_robin_id worker_id i = i * 64 + worker_id"

text \<open>
  The one table. \<open>get_id<Record>()\<close> gives the size of the record; with one table only, its number
  does not matter.
\<close>

definition record_table :: nat where
  "record_table = 0"

definition has_write :: "operation_set \<Rightarrow> nat \<Rightarrow> bool" where
  "has_write tx key \<longleftrightarrow> list_ex (\<lambda>j. index (rw_set tx ! j) = key) (w_set tx)"

definition set_pending :: "nat \<Rightarrow> nat \<Rightarrow> operation_set \<Rightarrow> operation_set" where
  "set_pending j p tx = tx\<lparr>rw_set := (rw_set tx)[j := (rw_set tx ! j)\<lparr>op_pending := p\<rparr>]\<rparr>"

section \<open>Serval\<close>

fun serval_init_ops ::
  "index_find \<Rightarrow> nat list \<Rightarrow> operation_set \<Rightarrow> serval_thread \<Rightarrow> serval_db
   \<Rightarrow> (operation_set \<times> serval_thread \<times> serval_db) option res" where
  "serval_init_ops idx [] tx t db = Inr (Some (tx, t, db))"
| "serval_init_ops idx (j # js) tx t db =
     ebind (append_pending_version idx record_table (index (rw_set tx ! j)) (op_pending (rw_set tx ! j)) t db) (\<lambda>r.
       case r of None \<Rightarrow> Inr None
       | Some (p, t', db') \<Rightarrow> serval_init_ops idx js (set_pending j p tx) t' db')"

fun serval_init_loop ::
  "index_find \<Rightarrow> nat \<Rightarrow> nat \<Rightarrow> nat list \<Rightarrow> operation_set list \<Rightarrow> serval_thread \<Rightarrow> serval_db
   \<Rightarrow> (operation_set list \<times> serval_thread \<times> serval_db) option res" where
  "serval_init_loop idx worker_id head [] txs t db = Inr (Some (txs, t, db))"
| "serval_init_loop idx worker_id head (i # is) txs t db =
     (let t1 = t\<lparr>thr_serial_id := sequential_id worker_id i\<rparr>; k = head + sequential_id worker_id i
      in guard (k < length txs) OutOfRange
           (ebind (serval_init_ops idx (w_set (txs ! k)) (txs ! k) t1 db) (\<lambda>r.
              case r of None \<Rightarrow> Inr None
              | Some (tx, t2, db') \<Rightarrow>
                  serval_init_loop idx worker_id head is (txs[k := tx]) (terminate_transaction t2) db')))"

definition serval_do_initialization_phase ::
  "index_find \<Rightarrow> nat \<Rightarrow> nat \<Rightarrow> operation_set list \<Rightarrow> serval_thread \<Rightarrow> serval_db
   \<Rightarrow> (operation_set list \<times> serval_thread \<times> serval_db) option res" where
  "serval_do_initialization_phase idx worker_id head txs t db =
     serval_init_loop idx worker_id head [0..<NUM_TXS_IN_ONE_EPOCH_IN_ONE_CORE] txs (t\<lparr>thr_core := worker_id\<rparr>) db"

fun serval_exec_ops ::
  "index_find \<Rightarrow> (nat \<Rightarrow> nat) \<Rightarrow> operation list \<Rightarrow> serval_thread \<Rightarrow> serval_db \<Rightarrow> serval_db option res" where
  "serval_exec_ops idx record_size [] t db = Inr (Some db)"
| "serval_exec_ops idx record_size (op # ops) t db =
     (case ope op of
        Read \<Rightarrow> ebind (serval_read idx record_table (index op) t db) (\<lambda>r.
                  case r of None \<Rightarrow> Inr None | Some _ \<Rightarrow> serval_exec_ops idx record_size ops t db)
      | Update \<Rightarrow>
          if op_pending op \<noteq> nullptr then
            ebind (serval_write record_size record_table (op_pending op) db) (\<lambda>(_, db').
              serval_exec_ops idx record_size ops t db')
          else serval_exec_ops idx record_size ops t db)"

fun serval_exec_loop ::
  "index_find \<Rightarrow> (nat \<Rightarrow> nat) \<Rightarrow> nat \<Rightarrow> nat \<Rightarrow> nat list \<Rightarrow> operation_set list \<Rightarrow> serval_thread \<Rightarrow> serval_db
   \<Rightarrow> (serval_thread \<times> serval_db) option res" where
  "serval_exec_loop idx record_size worker_id head [] txs t db = Inr (Some (t, db))"
| "serval_exec_loop idx record_size worker_id head (i # is) txs t db =
     assert_then (i < length txs)
       (let t1 = t\<lparr>thr_serial_id := round_robin_id worker_id i, thr_core := i\<rparr>; k = head + round_robin_id worker_id i
        in guard (k < length txs) OutOfRange
             (ebind (serval_exec_ops idx record_size (rw_set (txs ! k)) t1 db) (\<lambda>r.
                case r of None \<Rightarrow> Inr None
                | Some db' \<Rightarrow> serval_exec_loop idx record_size worker_id head is txs t1 db')))"

definition serval_do_execution_phase ::
  "index_find \<Rightarrow> (nat \<Rightarrow> nat) \<Rightarrow> nat \<Rightarrow> nat \<Rightarrow> operation_set list \<Rightarrow> serval_thread \<Rightarrow> serval_db
   \<Rightarrow> (serval_thread \<times> serval_db) option res" where
  "serval_do_execution_phase idx record_size worker_id head txs t db =
     serval_exec_loop idx record_size worker_id head [0..<NUM_TXS_IN_ONE_EPOCH_IN_ONE_CORE] txs t db"

section \<open>Caracal\<close>

fun caracal_init_ops ::
  "index_find \<Rightarrow> nat list \<Rightarrow> operation_set \<Rightarrow> caracal_thread \<Rightarrow> caracal_db
   \<Rightarrow> (operation_set \<times> caracal_thread \<times> caracal_db) option res" where
  "caracal_init_ops idx [] tx t db = Inr (Some (tx, t, db))"
| "caracal_init_ops idx (j # js) tx t db =
     ebind (car_append_pending_version idx record_table (index (rw_set tx ! j)) (op_pending (rw_set tx ! j)) t db) (\<lambda>r.
       case r of None \<Rightarrow> Inr None
       | Some (p, t', db') \<Rightarrow> caracal_init_ops idx js (set_pending j p tx) t' db')"

fun caracal_init_loop ::
  "index_find \<Rightarrow> nat \<Rightarrow> nat \<Rightarrow> nat list \<Rightarrow> operation_set list \<Rightarrow> caracal_thread \<Rightarrow> caracal_db
   \<Rightarrow> (operation_set list \<times> caracal_thread \<times> caracal_db) option res" where
  "caracal_init_loop idx worker_id head [] txs t db = Inr (Some (txs, t, db))"
| "caracal_init_loop idx worker_id head (i # is) txs t db =
     (let t1 = t\<lparr>cthr_serial_id := of_nat (round_robin_id worker_id i)\<rparr>; k = head + round_robin_id worker_id i
      in guard (k < length txs) OutOfRange
           (ebind (caracal_init_ops idx (w_set (txs ! k)) (txs ! k) t1 db) (\<lambda>r.
              case r of None \<Rightarrow> Inr None
              | Some (tx, t2, db') \<Rightarrow>
                  caracal_init_loop idx worker_id head is (txs[k := tx]) (car_terminate_transaction t2) db')))"

definition caracal_do_initialization_phase ::
  "nat \<Rightarrow> index_find \<Rightarrow> nat \<Rightarrow> nat \<Rightarrow> operation_set list \<Rightarrow> caracal_thread \<Rightarrow> caracal_db
   \<Rightarrow> (operation_set list \<times> caracal_thread \<times> caracal_db) option res" where
  "caracal_do_initialization_phase fuel idx worker_id head txs t db =
     ebind (caracal_init_loop idx worker_id head [0..<NUM_TXS_IN_ONE_EPOCH_IN_ONE_CORE] txs t db) (\<lambda>r.
       case r of None \<Rightarrow> Inr None
       | Some (txs', t', db') \<Rightarrow>
           ebind (finalize_batch_append_optimized fuel t' db') (\<lambda>r'.
             case r' of None \<Rightarrow> Inr None | Some (t2, db2) \<Rightarrow> Inr (Some (txs', t2, db2))))"

fun caracal_exec_ops ::
  "index_find \<Rightarrow> (nat \<Rightarrow> nat) \<Rightarrow> operation list \<Rightarrow> caracal_thread \<Rightarrow> caracal_db \<Rightarrow> caracal_db option res" where
  "caracal_exec_ops idx record_size [] t db = Inr (Some db)"
| "caracal_exec_ops idx record_size (op # ops) t db =
     (case ope op of
        Read \<Rightarrow> ebind (caracal_read idx record_table (index op) t db) (\<lambda>r.
                  case r of None \<Rightarrow> Inr None | Some _ \<Rightarrow> caracal_exec_ops idx record_size ops t db)
      | Update \<Rightarrow>
          if op_pending op \<noteq> nullptr then
            ebind (caracal_write record_size record_table (op_pending op) db) (\<lambda>(_, db').
              caracal_exec_ops idx record_size ops t db')
          else caracal_exec_ops idx record_size ops t db)"

fun caracal_exec_loop ::
  "index_find \<Rightarrow> (nat \<Rightarrow> nat) \<Rightarrow> nat \<Rightarrow> nat \<Rightarrow> nat list \<Rightarrow> operation_set list \<Rightarrow> caracal_thread \<Rightarrow> caracal_db
   \<Rightarrow> (caracal_thread \<times> caracal_db) option res" where
  "caracal_exec_loop idx record_size worker_id head [] txs t db = Inr (Some (t, db))"
| "caracal_exec_loop idx record_size worker_id head (i # is) txs t db =
     assert_then (i < length txs)
       (let t1 = t\<lparr>cthr_serial_id := of_nat (round_robin_id worker_id i)\<rparr>; k = head + round_robin_id worker_id i
        in guard (k < length txs) OutOfRange
             (ebind (caracal_exec_ops idx record_size (rw_set (txs ! k)) t1 db) (\<lambda>r.
                case r of None \<Rightarrow> Inr None
                | Some db' \<Rightarrow> caracal_exec_loop idx record_size worker_id head is txs t1 db')))"

definition caracal_do_execution_phase ::
  "index_find \<Rightarrow> (nat \<Rightarrow> nat) \<Rightarrow> nat \<Rightarrow> nat \<Rightarrow> operation_set list \<Rightarrow> caracal_thread \<Rightarrow> caracal_db
   \<Rightarrow> (caracal_thread \<times> caracal_db) option res" where
  "caracal_do_execution_phase idx record_size worker_id head txs t db =
     caracal_exec_loop idx record_size worker_id head [0..<NUM_TXS_IN_ONE_EPOCH_IN_ONE_CORE] txs t db"

section \<open>Cheetah\<close>

text \<open>
  Cheetah's operations also point to the write bitmap of their row; the pointers of a
  transaction are kept beside it, by the position of the operation.
\<close>

type_synonym ch_tx = "operation_set \<times> (nat \<Rightarrow> nat option)"

fun cheetah_write_ops ::
  "index_find \<Rightarrow> nat list \<Rightarrow> ch_tx \<Rightarrow> cheetah_thread \<Rightarrow> (ch_tx \<times> cheetah_thread) res" where
  "cheetah_write_ops idx [] tx t = Inr (tx, t)"
| "cheetah_write_ops idx (j # js) (tx, bm) t =
     ebind (update_write_bitmaps idx record_table (index (rw_set tx ! j)) t) (\<lambda>(k, t').
       cheetah_write_ops idx js (tx, bm(j \<mapsto> k)) t')"

fun cheetah_write_loop ::
  "index_find \<Rightarrow> nat \<Rightarrow> nat \<Rightarrow> nat list \<Rightarrow> ch_tx list \<Rightarrow> cheetah_thread \<Rightarrow> (ch_tx list \<times> cheetah_thread) res" where
  "cheetah_write_loop idx worker_id head [] txs t = Inr (txs, t)"
| "cheetah_write_loop idx worker_id head (i # is) txs t =
     (let t1 = t\<lparr>hthr_serial_id := sequential_id worker_id i\<rparr>; k = head + sequential_id worker_id i
      in guard (k < length txs) OutOfRange
           (ebind (cheetah_write_ops idx (w_set (fst (txs ! k))) (txs ! k) t1) (\<lambda>(tx, t2).
              cheetah_write_loop idx worker_id head is (txs[k := tx]) (ch_terminate_transaction t2))))"

definition do_write_phase ::
  "nat \<Rightarrow> index_find \<Rightarrow> nat \<Rightarrow> nat \<Rightarrow> ch_tx list \<Rightarrow> cheetah_thread \<Rightarrow> cheetah_db
   \<Rightarrow> (ch_tx list \<times> cheetah_thread \<times> cheetah_db) option res" where
  "do_write_phase fuel idx worker_id head txs t db =
     ebind (cheetah_write_loop idx worker_id head [0..<NUM_TXS_IN_ONE_EPOCH_IN_ONE_CORE] txs (t\<lparr>hthr_core := worker_id\<rparr>))
       (\<lambda>(txs', t'). ebind (finalize_update_write_bitmaps fuel t' db) (\<lambda>r.
          case r of None \<Rightarrow> Inr None | Some (t2, db') \<Rightarrow> Inr (Some (txs', t2, db'))))"

fun cheetah_read_ops ::
  "index_find \<Rightarrow> nat list \<Rightarrow> ch_tx \<Rightarrow> cheetah_thread \<Rightarrow> cheetah_db \<Rightarrow> (ch_tx \<times> cheetah_thread \<times> cheetah_db) res" where
  "cheetah_read_ops idx [] tx t db = Inr (tx, t, db)"
| "cheetah_read_ops idx (j # js) (tx, bm) t db =
     (if ope (rw_set tx ! j) = Read then
        ebind (ch_append_pending_version idx record_table (index (rw_set tx ! j)) t db) (\<lambda>(p, k, t', db').
          assert_then (p \<noteq> nullptr) (cheetah_read_ops idx js (set_pending j p tx, bm(j \<mapsto> k)) t' db'))
      else cheetah_read_ops idx js (tx, bm) t db)"

fun cheetah_read_loop ::
  "index_find \<Rightarrow> nat \<Rightarrow> nat \<Rightarrow> nat list \<Rightarrow> ch_tx list \<Rightarrow> cheetah_thread \<Rightarrow> cheetah_db
   \<Rightarrow> (ch_tx list \<times> cheetah_thread \<times> cheetah_db) res" where
  "cheetah_read_loop idx worker_id head [] txs t db = Inr (txs, t, db)"
| "cheetah_read_loop idx worker_id head (i # is) txs t db =
     (let t1 = t\<lparr>hthr_serial_id := sequential_id worker_id i\<rparr>; k = head + sequential_id worker_id i
      in guard (k < length txs) OutOfRange
           (ebind (cheetah_read_ops idx [0..<length (rw_set (fst (txs ! k)))] (txs ! k) t1 db) (\<lambda>(tx, t2, db').
              cheetah_read_loop idx worker_id head is (txs[k := tx]) (ch_terminate_transaction t2) db')))"

definition do_read_phase ::
  "index_find \<Rightarrow> nat \<Rightarrow> nat \<Rightarrow> ch_tx list \<Rightarrow> cheetah_thread \<Rightarrow> cheetah_db
   \<Rightarrow> (ch_tx list \<times> cheetah_thread \<times> cheetah_db) res" where
  "do_read_phase idx worker_id head txs t db =
     cheetah_read_loop idx worker_id head [0..<NUM_TXS_IN_ONE_EPOCH_IN_ONE_CORE] txs (t\<lparr>hthr_core := worker_id\<rparr>) db"

fun cheetah_exec_ops ::
  "(nat \<Rightarrow> nat) \<Rightarrow> nat list \<Rightarrow> ch_tx \<Rightarrow> cheetah_thread \<Rightarrow> cheetah_db \<Rightarrow> cheetah_db option res" where
  "cheetah_exec_ops record_size [] tx t db = Inr (Some db)"
| "cheetah_exec_ops record_size (j # js) (tx, bm) t db =
     (let op = rw_set tx ! j in
      case ope op of
        Read \<Rightarrow>
          assert_then (op_pending op \<noteq> nullptr)
            (case bm j of None \<Rightarrow> Inl NullDeref
             | Some k \<Rightarrow> ebind (cheetah_read (op_pending op) k db) (\<lambda>r.
                 case r of None \<Rightarrow> Inr None | Some (_, db') \<Rightarrow> cheetah_exec_ops record_size js (tx, bm) t db'))
      | Update \<Rightarrow>
          (case bm j of None \<Rightarrow> Inl NullDeref
           | Some k \<Rightarrow> ebind (cheetah_write record_size record_table k t db) (\<lambda>(_, db').
               cheetah_exec_ops record_size js (tx, bm) t db')))"

fun cheetah_exec_loop ::
  "(nat \<Rightarrow> nat) \<Rightarrow> nat \<Rightarrow> nat \<Rightarrow> nat list \<Rightarrow> ch_tx list \<Rightarrow> cheetah_thread \<Rightarrow> cheetah_db
   \<Rightarrow> (cheetah_thread \<times> cheetah_db) option res" where
  "cheetah_exec_loop record_size worker_id head [] txs t db = Inr (Some (t, db))"
| "cheetah_exec_loop record_size worker_id head (i # is) txs t db =
     assert_then (i < length txs)
       (let t1 = t\<lparr>hthr_serial_id := round_robin_id worker_id i, hthr_core := i\<rparr>; k = head + round_robin_id worker_id i
        in guard (k < length txs) OutOfRange
             (ebind (cheetah_exec_ops record_size [0..<length (rw_set (fst (txs ! k)))] (txs ! k) t1 db) (\<lambda>r.
                case r of None \<Rightarrow> Inr None
                | Some db' \<Rightarrow> cheetah_exec_loop record_size worker_id head is txs t1 db')))"

definition cheetah_do_execution_phase ::
  "(nat \<Rightarrow> nat) \<Rightarrow> nat \<Rightarrow> nat \<Rightarrow> ch_tx list \<Rightarrow> cheetah_thread \<Rightarrow> cheetah_db \<Rightarrow> (cheetah_thread \<times> cheetah_db) option res" where
  "cheetah_do_execution_phase record_size worker_id head txs t db =
     cheetah_exec_loop record_size worker_id head [0..<NUM_TXS_IN_ONE_EPOCH_IN_ONE_CORE] txs t db"

section \<open>The serial ids of an epoch\<close>

lemma txs_per_core [simp]: "NUM_TXS_IN_ONE_EPOCH_IN_ONE_CORE = 64"
  by (simp add: NUM_TXS_IN_ONE_EPOCH_IN_ONE_CORE_def NUM_TXS_IN_ONE_EPOCH_def NUM_CORE_def)

lemma sequential_bij: "bij_betw (\<lambda>(w, i). sequential_id w i) ({..<64} \<times> {..<64}) {..<4096}"
  by (rule bij_betw_byWitness [where f' = "\<lambda>n. (n div 64, n mod 64)"]) (auto simp: sequential_id_def less_mult_imp_div_less)

lemma round_robin_bij: "bij_betw (\<lambda>(w, i). round_robin_id w i) ({..<64} \<times> {..<64}) {..<4096}"
  by (rule bij_betw_byWitness [where f' = "\<lambda>n. (n mod 64, n div 64)"]) (auto simp: round_robin_id_def less_mult_imp_div_less)

text \<open>
  The writes of a worker to a row in an epoch, in the order in which the initialization phase of
  Serval and the write phase of Cheetah make them, and in Caracal's order.
\<close>

definition row_writes :: "(nat \<Rightarrow> nat \<Rightarrow> nat) \<Rightarrow> operation_set list \<Rightarrow> nat \<Rightarrow> nat \<Rightarrow> nat \<Rightarrow> nat list" where
  "row_writes assign txs head key w =
     (if w < 64 then filter (\<lambda>s. has_write (txs ! (head + s)) key) (map (assign w) [0..<64]) else [])"

definition row_writers :: "operation_set list \<Rightarrow> nat \<Rightarrow> nat \<Rightarrow> nat set" where
  "row_writers txs head key = {s. s < 4096 \<and> has_write (txs ! (head + s)) key}"

lemma row_writes_mem:
  "w < 64 \<Longrightarrow> i < 64 \<Longrightarrow> has_write (txs ! (head + assign w i)) key \<Longrightarrow> assign w i \<in> set (row_writes assign txs head key w)"
  by (simp add: row_writes_def)

lemma row_writes_sequential:
  assumes "\<forall>w < 64. \<exists>i < 64. \<not> has_write (txs ! (head + sequential_id w i)) key"
  shows "writes_ok (row_writes sequential_id txs head key)"
    "epoch_writers (row_writes sequential_id txs head key) = row_writers txs head key"
proof -
  let ?h = "\<lambda>s. has_write (txs ! (head + s)) key"
  have srt: "sorted_wrt (<) (map (sequential_id w) [0..<64])" for w
    unfolding sorted_wrt_map by (rule sorted_wrt_mono_rel [OF _ sorted_wrt_upt]) (simp add: sequential_id_def)
  have len: "length (filter ?h (map (sequential_id w) [0..<64])) \<le> 63" if "w < 64" for w
  proof -
    obtain i where "i < 64" "\<not> ?h (sequential_id w i)" using assms \<open>w < 64\<close> by blast
    then have "length (filter ?h (map (sequential_id w) [0..<64])) < length (map (sequential_id w) [0..<64])"
      by (intro length_filter_less [of "sequential_id w i"]) auto
    then show ?thesis by simp
  qed
  show "writes_ok (row_writes sequential_id txs head key)"
    unfolding writes_ok_def using len srt by (auto simp: row_writes_def sorted_wrt_filter sequential_id_def)
  have "s \<in> (\<Union>w < 64. set (row_writes sequential_id txs head key w)) \<longleftrightarrow> s \<in> row_writers txs head key" for s
  proof
    assume "s \<in> row_writers txs head key"
    then have s: "s < 4096" "?h s" by (auto simp: row_writers_def)
    then have d: "s div 64 < 64" "sequential_id (s div 64) (s mod 64) = s" "s mod 64 < 64"
      by (simp_all add: sequential_id_def less_mult_imp_div_less)
    with row_writes_mem [of "s div 64" "s mod 64" txs head sequential_id key] s(2)
    have "s \<in> set (row_writes sequential_id txs head key (s div 64))" by simp
    with d(1) show "s \<in> (\<Union>w < 64. set (row_writes sequential_id txs head key w))" by blast
  qed (auto simp: row_writes_def row_writers_def sequential_id_def)
  then show "epoch_writers (row_writes sequential_id txs head key) = row_writers txs head key"
    unfolding epoch_writers_def by blast
qed

lemma row_writes_round_robin:
  "car_writes_ok (row_writes round_robin_id txs head key)"
  "car_writers (row_writes round_robin_id txs head key) = row_writers txs head key"
proof -
  let ?h = "\<lambda>s. has_write (txs ! (head + s)) key"
  have mem: "s mod 64 = w \<and> s < 4096 \<and> ?h s" if "s \<in> set (row_writes round_robin_id txs head key w)" for s w
    using that by (auto simp: row_writes_def round_robin_id_def split: if_splits)
  have "distinct (row_writes round_robin_id txs head key w)" for w
    by (auto simp: row_writes_def distinct_map inj_on_def round_robin_id_def intro!: distinct_filter)
  moreover have "set (row_writes round_robin_id txs head key w) \<inter> set (row_writes round_robin_id txs head key u) = {}" if "w \<noteq> u" for w u
    using that mem [of _ w] mem [of _ u] by blast
  moreover have "set (row_writes round_robin_id txs head key w) \<subseteq> {..<4096}" for w using mem [of _ w] by blast
  moreover have "row_writes round_robin_id txs head key w = []" if "64 \<le> w" for w using that by (simp add: row_writes_def)
  ultimately show "car_writes_ok (row_writes round_robin_id txs head key)"
    unfolding car_writes_ok_def by blast
  have "s \<in> set (row_writes round_robin_id txs head key (s mod 64))" if "s \<in> row_writers txs head key" for s
  proof -
    have s: "s < 4096" "?h s" using that by (auto simp: row_writers_def)
    then have "s div 64 < 64" "round_robin_id (s mod 64) (s div 64) = s" by (simp_all add: round_robin_id_def less_mult_imp_div_less)
    with row_writes_mem [of "s mod 64" "s div 64" txs head round_robin_id key] s(2) show ?thesis by simp
  qed
  then show "car_writers (row_writes round_robin_id txs head key) = row_writers txs head key"
    unfolding car_writers_def using mem by (auto simp: row_writers_def)
qed

end
