(* ===== verification/Experiment.thy ===== *)
theory Experiment
  imports Workers
begin

text \<open>
  A row through the epochs of an experiment. The interface \<open>epoch_protocol\<close> is what one epoch
  of a protocol promises; from it follows that the whole run is equivalent, on the row, to running
  all transactions of all epochs one after the other. Caracal and Cheetah implement it for every
  workload, Serval only for rows that are written in every epoch.
\<close>

section \<open>Serial histories\<close>

text \<open>
  What the readers of an epoch got and what its writers wrote. In the serial order of the
  transactions a reader gets the record of the last writer before it, over all epochs.
\<close>

type_synonym epoch_history = "(nat \<Rightarrow> nat option) \<times> (nat \<Rightarrow> nat)"

definition next_record :: "nat set \<Rightarrow> (nat \<Rightarrow> nat) \<Rightarrow> nat \<Rightarrow> nat" where
  "next_record W rc r = (if W = {} then r else rc (Max W))"

fun serial_history :: "(nat \<Rightarrow> nat set) \<Rightarrow> (nat \<Rightarrow> nat set) \<Rightarrow> nat \<Rightarrow> nat \<Rightarrow> epoch_history list \<Rightarrow> bool" where
  "serial_history W R e r [] = True"
| "serial_history W R e r ((got, rc) # hs) =
     ((\<forall>n \<in> R e. got n = Some (must_read (W e) r rc n)) \<and> serial_history W R (Suc e) (next_record (W e) rc r) hs)"

text \<open>
  The loop over the epochs of \<open>run_tx\<close>, on one row: \<open>None\<close> if the schedule of an epoch does not
  bring all workers to its last barrier.
\<close>

fun run_epochs ::
  "(nat \<Rightarrow> 'row \<Rightarrow> ('row \<times> 'h) option res) \<Rightarrow> nat \<Rightarrow> nat \<Rightarrow> 'row \<Rightarrow> ('row \<times> 'h list) option res" where
  "run_epochs epoch_step e 0 row = Inr (Some (row, []))"
| "run_epochs epoch_step e (Suc n) row =
     ebind (epoch_step e row) (\<lambda>r. case r of None \<Rightarrow> Inr None
       | Some (row1, h) \<Rightarrow> ebind (run_epochs epoch_step (Suc e) n row1) (\<lambda>r1. case r1 of None \<Rightarrow> Inr None
           | Some (row2, hs) \<Rightarrow> Inr (Some (row2, h # hs))))"

lemma run_epochs_cong:
  "(\<And>k. e \<le> k \<Longrightarrow> f k = g k) \<Longrightarrow> run_epochs f e n row = run_epochs g e n row"
proof (induction n arbitrary: e row)
  case (Suc n)
  have "run_epochs f (Suc e) n = run_epochs g (Suc e) n" using Suc.IH [of "Suc e"] Suc.prems by fastforce
  then show ?case using Suc.prems [of e] by (simp cong: option.case_cong)
qed simp

section \<open>The interface of an epoch\<close>

locale epoch_protocol =
  fixes epoch_step :: "'sched \<Rightarrow> nat \<Rightarrow> 'row \<Rightarrow> ('row \<times> epoch_history) option res"
    and ready :: "nat \<Rightarrow> 'row \<Rightarrow> nat \<Rightarrow> bool"
    and writers readers :: "nat \<Rightarrow> nat set"
    and limit :: nat
  assumes epoch_returns: "ready e row r \<Longrightarrow> e < limit \<Longrightarrow> \<exists>res. epoch_step sc e row = Inr res"
    and epoch_reads: "ready e row r \<Longrightarrow> e < limit \<Longrightarrow> epoch_step sc e row = Inr (Some (row', got, rc)) \<Longrightarrow>
      n \<in> readers e \<Longrightarrow> got n = Some (must_read (writers e) r rc n)"
    and epoch_ready: "ready e row r \<Longrightarrow> e < limit \<Longrightarrow> epoch_step sc e row = Inr (Some (row', got, rc)) \<Longrightarrow>
      ready (Suc e) row' (next_record (writers e) rc r)"
    and epoch_finish: "ready e row r \<Longrightarrow> e < limit \<Longrightarrow> \<exists>sc row' h. epoch_step sc e row = Inr (Some (row', h))"
begin

lemma run_serial:
  "ready e row r \<Longrightarrow> e + n \<le> limit \<Longrightarrow> \<exists>res. run_epochs (\<lambda>k. epoch_step (sc k) k) e n row = Inr res \<and>
     (\<forall>row' hs. res = Some (row', hs) \<longrightarrow> length hs = n \<and> serial_history writers readers e r hs)"
proof (induction n arbitrary: e row r)
  case (Suc n)
  have e: "e < limit" "Suc e + n \<le> limit" using Suc.prems(2) by auto
  obtain res where res: "epoch_step (sc e) e row = Inr res" using epoch_returns [OF Suc.prems(1) e(1)] by blast
  show ?case
  proof (cases res)
    case None
    then show ?thesis using res by simp
  next
    case (Some t)
    obtain row1 got rc where t: "t = (row1, got, rc)" by (metis prod_cases3)
    have step: "epoch_step (sc e) e row = Inr (Some (row1, got, rc))" using res Some t by simp
    from Suc.IH [OF epoch_ready [OF Suc.prems(1) e(1) step] e(2)] obtain res1 where
      r1: "run_epochs (\<lambda>k. epoch_step (sc k) k) (Suc e) n row1 = Inr res1"
      "\<And>row' hs. res1 = Some (row', hs) \<Longrightarrow> length hs = n \<and> serial_history writers readers (Suc e) (next_record (writers e) rc r) hs"
      by blast
    show ?thesis using step r1 epoch_reads [OF Suc.prems(1) e(1) step] by (cases res1) auto
  qed
qed simp

lemma run_completes:
  "ready e row r \<Longrightarrow> e + n \<le> limit \<Longrightarrow> \<exists>sc row' hs. run_epochs (\<lambda>k. epoch_step (sc k) k) e n row = Inr (Some (row', hs))"
proof (induction n arbitrary: e row r)
  case (Suc n)
  have e: "e < limit" "Suc e + n \<le> limit" using Suc.prems(2) by auto
  from epoch_finish [OF Suc.prems(1) e(1)] obtain s0 row1 got rc where
    s0: "epoch_step s0 e row = Inr (Some (row1, got, rc))" by (metis prod.exhaust)
  from Suc.IH [OF epoch_ready [OF Suc.prems(1) e(1) s0] e(2)] obtain sc row2 hs where
    sc: "run_epochs (\<lambda>k. epoch_step (sc k) k) (Suc e) n row1 = Inr (Some (row2, hs))" by blast
  let ?sc = "sc(e := s0)"
  have "run_epochs (\<lambda>k. epoch_step (?sc k) k) (Suc e) n row1 = run_epochs (\<lambda>k. epoch_step (sc k) k) (Suc e) n row1"
    by (rule run_epochs_cong) simp
  then have "run_epochs (\<lambda>k. epoch_step (?sc k) k) e (Suc n) row = Inr (Some (row2, (got, rc) # hs))"
    using s0 sc by simp
  then show ?case by blast
qed simp

end

section \<open>Readers and writers of a row\<close>

definition has_read :: "operation_set \<Rightarrow> nat \<Rightarrow> bool" where
  "has_read tx key \<longleftrightarrow> list_ex (\<lambda>p. ope p = Read \<and> index p = key) (rw_set tx)"

definition row_readers :: "operation_set list \<Rightarrow> nat \<Rightarrow> nat \<Rightarrow> nat set" where
  "row_readers txs head key = {s. s < 4096 \<and> has_read (txs ! (head + s)) key}"

abbreviation writers_at :: "operation_set list \<Rightarrow> nat \<Rightarrow> nat \<Rightarrow> nat set" where
  "writers_at txs key e \<equiv> row_writers txs (head_in_the_epoch e) key"

abbreviation readers_at :: "operation_set list \<Rightarrow> nat \<Rightarrow> nat \<Rightarrow> nat set" where
  "readers_at txs key e \<equiv> row_readers txs (head_in_the_epoch e) key"

lemma readers_at_less: "readers_at txs key e \<subseteq> {..<4096}"
  by (auto simp: row_readers_def)

text \<open>Entries of a schedule that name no thread of the row are skipped.\<close>

abbreviation row_actors :: "operation_set list \<Rightarrow> nat \<Rightarrow> nat \<Rightarrow> actor list \<Rightarrow> actor list" where
  "row_actors txs key e xs \<equiv> filter (\<lambda>a. a \<in> actors (writers_at txs key e) (readers_at txs key e)) xs"

lemma row_actors_all: "set xs \<subseteq> actors (writers_at txs key e) (readers_at txs key e) \<Longrightarrow> row_actors txs key e xs = xs"
  by (auto simp: filter_id_conv)

section \<open>Caracal\<close>

record car_row =
  rarray :: car_array
  rbuffer :: "nat option"
  rbuffers :: row_buffer_controller
  rspare :: "nat \<Rightarrow> nat option"
  rmem :: mem

definition caracal_step ::
  "nat \<Rightarrow> operation_set list \<Rightarrow> nat \<Rightarrow> nat list \<times> actor list \<Rightarrow> nat \<Rightarrow> car_row \<Rightarrow> (car_row \<times> epoch_history) option res" where
  "caracal_step sz txs key sc e row =
     ebind (caracal_epoch sz (of_nat e) (filter (\<lambda>w. w < 64) (fst sc)) (row_actors txs key e (snd sc))
         (car_init_start (rarray row) (rbuffer row) (rbuffers row) (rspare row) (rmem row)
           (row_writes round_robin_id txs (head_in_the_epoch e) key))) (\<lambda>r.
       case r of None \<Rightarrow> Inr None
       | Some (s, x) \<Rightarrow>
           Inr (if row_exec_done (writers_at txs key e) (readers_at txs key e) x
                then Some (\<lparr>rarray = crow s, rbuffer = cptr s, rbuffers = cbufs s, rspare = cspare s, rmem = xmem x\<rparr>,
                           xout x, xrec x)
                else None))"

definition car_row_ready :: "nat \<Rightarrow> car_row \<Rightarrow> nat \<Rightarrow> bool" where
  "car_row_ready e row r \<longleftrightarrow>
     (\<exists>M. car_ready (of_nat e) (rarray row) (rbuffer row) (rbuffers row) (rspare row) (rmem row) M r)"

lemma epoch_word: "e < 2 ^ 32 - 1 \<Longrightarrow> (of_nat e :: u64) < 2 ^ 32 \<and> (of_nat e :: u64) + 1 < 2 ^ 32"
proof -
  assume "e < 2 ^ 32 - 1"
  have u: "unat (of_nat k :: u64) = k" if "k < 2 ^ 32" for k using that by (simp add: unat_of_nat take_bit_nat_eq_self)
  have "unat (of_nat e :: u64) = e" "unat (of_nat (Suc e) :: u64) = Suc e"
    by (rule u, use \<open>e < 2 ^ 32 - 1\<close> in simp)+
  moreover have "unat (2 ^ 32 :: u64) = 2 ^ 32" by simp
  moreover have "of_nat e + 1 = (of_nat (Suc e) :: u64)" by simp
  ultimately show ?thesis using \<open>e < 2 ^ 32 - 1\<close> by (metis less_diff_conv Suc_eq_plus1 Suc_lessD word_less_nat_alt)
qed

lemma caracal_step_run:
  assumes "car_row_ready e row r" and "e < 2 ^ 32 - 1"
  shows "\<exists>res. caracal_step sz txs key sc e row = Inr res \<and> (\<forall>row' got rc. res = Some (row', got, rc) \<longrightarrow>
    (\<forall>n \<in> readers_at txs key e. got n = Some (must_read (writers_at txs key e) r rc n))
    \<and> car_row_ready (Suc e) row' (next_record (writers_at txs key e) rc r))"
proof -
  obtain M where M: "car_ready (of_nat e) (rarray row) (rbuffer row) (rbuffers row) (rspare row) (rmem row) M r"
    using assms(1) by (auto simp: car_row_ready_def)
  note w = row_writes_round_robin [of txs "head_in_the_epoch e" key] and b = epoch_word [OF assms(2)]
  have "set (filter (\<lambda>w. w < 64) (fst sc)) \<subseteq> {..<64}"
    "set (row_actors txs key e (snd sc)) \<subseteq> actors (car_writers (row_writes round_robin_id txs (head_in_the_epoch e) key)) (readers_at txs key e)"
    using w(2) by auto
  note run = caracal_epoch_run [OF w(1) M conjunct1 [OF b] conjunct2 [OF b] readers_at_less this, of sz, unfolded w(2)]
  have suc: "of_nat (Suc e) = (of_nat e + 1 :: u64)" by simp
  from run obtain res where res: "caracal_epoch sz (of_nat e) (filter (\<lambda>w. w < 64) (fst sc)) (row_actors txs key e (snd sc))
      (car_init_start (rarray row) (rbuffer row) (rbuffers row) (rspare row) (rmem row)
        (row_writes round_robin_id txs (head_in_the_epoch e) key)) = Inr res"
    "\<And>s x. res = Some (s, x) \<Longrightarrow> row_exec_done (writers_at txs key e) (readers_at txs key e) x \<Longrightarrow>
      (\<forall>n \<in> readers_at txs key e. xout x n = Some (must_read (writers_at txs key e) r (xrec x) n)) \<and>
      (\<exists>M. car_ready (of_nat (Suc e)) (crow s) (cptr s) (cbufs s) (cspare s) (xmem x) M
         (if writers_at txs key e = {} then r else xrec x (Max (writers_at txs key e))))"
    unfolding suc by blast
  show ?thesis
  proof (cases res)
    case (Some t)
    then show ?thesis using res
      by (cases t) (simp add: caracal_step_def car_row_ready_def next_record_def)
  qed (simp add: caracal_step_def res)
qed

lemma caracal_step_finish:
  assumes "car_row_ready e row r" and "e < 2 ^ 32 - 1"
  shows "\<exists>sc row' h. caracal_step sz txs key sc e row = Inr (Some (row', h))"
proof -
  obtain M where M: "car_ready (of_nat e) (rarray row) (rbuffer row) (rbuffers row) (rspare row) (rmem row) M r"
    using assms(1) by (auto simp: car_row_ready_def)
  note w = row_writes_round_robin [of txs "head_in_the_epoch e" key] and b = epoch_word [OF assms(2)]
  from caracal_epoch_finish [OF w(1) M conjunct1 [OF b] readers_at_less [of txs e key], of "[]" sz, unfolded w(2)]
  obtain ws xs s x where run: "set ws \<subseteq> {..<64}" "set xs \<subseteq> actors (writers_at txs key e) (readers_at txs key e)"
    "caracal_epoch sz (of_nat e) ws xs (car_init_start (rarray row) (rbuffer row) (rbuffers row) (rspare row) (rmem row)
      (row_writes round_robin_id txs (head_in_the_epoch e) key)) = Inr (Some (s, x))"
    "row_exec_done (writers_at txs key e) (readers_at txs key e) x" by auto
  have "filter (\<lambda>w. w < 64) ws = ws" "row_actors txs key e xs = xs" using run(1,2) by (auto simp: filter_id_conv)
  then have "\<exists>row' h. caracal_step sz txs key (ws, xs) e row = Inr (Some (row', h))"
    using run(3,4) by (simp add: caracal_step_def)
  then show ?thesis by blast
qed

interpretation caracal_run: epoch_protocol "caracal_step sz txs key" car_row_ready "writers_at txs key" "readers_at txs key" "2 ^ 32 - 1"
  for sz :: nat and txs :: "operation_set list" and key :: nat
proof unfold_locales
  fix e row r sc assume e: "car_row_ready e row r" "e < 2 ^ 32 - 1"
  note run = caracal_step_run [OF e, of sz txs key sc]
  show "\<exists>res. caracal_step sz txs key sc e row = Inr res" using run by blast
  show "\<exists>sc row' h. caracal_step sz txs key sc e row = Inr (Some (row', h))" by (rule caracal_step_finish [OF e])
  fix row' got rc assume st: "caracal_step sz txs key sc e row = Inr (Some (row', got, rc))"
  show "car_row_ready (Suc e) row' (next_record (writers_at txs key e) rc r)" using run st by auto
  fix n assume "n \<in> readers_at txs key e"
  then show "got n = Some (must_read (writers_at txs key e) r rc n)" using run st by auto
qed

section \<open>Cheetah\<close>

text \<open>
  The bitmap a worker publishes for the row: a bit for each of its transactions that writes it
  (\<open>update_write_bitmaps\<close>), and the workers that have one, in the order they take the row's lock.
  A list names who comes first; workers it leaves out come last.
\<close>

definition in_order :: "nat list \<Rightarrow> nat \<Rightarrow> (nat \<Rightarrow> bool) \<Rightarrow> nat list" where
  "in_order first n P = filter (\<lambda>i. i < n \<and> P i) (remdups (first @ [0..<n]))"

definition worker_bitmap :: "nat list \<Rightarrow> u64" where
  "worker_bitmap ids = fold (\<lambda>s b. b OR set_bit_at_the_given_location (get_tx_serial s)) ids 0"

definition row_updates :: "operation_set list \<Rightarrow> nat \<Rightarrow> nat \<Rightarrow> nat list \<Rightarrow> (nat \<times> u64) list" where
  "row_updates txs head key first =
     map (\<lambda>w. (w, worker_bitmap (row_writes sequential_id txs head key w)))
       (in_order first 64 (\<lambda>w. row_writes sequential_id txs head key w \<noteq> []))"

lemma in_order [simp]: "set (in_order first n P) = {i. i < n \<and> P i}" "distinct (in_order first n P)"
  by (auto simp: in_order_def)

lemma worker_bitmap_ones: "ones (worker_bitmap ids) = (\<lambda>s. s mod 64) ` set ids"
proof -
  have "ones (fold (\<lambda>s b. b OR set_bit_at_the_given_location (get_tx_serial s)) ids b) = ones b \<union> (\<lambda>s. s mod 64) ` set ids" for b
    by (induction ids arbitrary: b) (auto simp: get_tx_serial_def)
  then show ?thesis by (simp add: worker_bitmap_def)
qed

lemma row_writes_seq_div: "s \<in> set (row_writes sequential_id txs head key w) \<Longrightarrow> w < 64 \<and> s div 64 = w \<and> s < 4096 \<and> has_write (txs ! (head + s)) key"
  by (auto simp: row_writes_def sequential_id_def split: if_splits)

lemma row_updates_ok: "updates_ok (row_updates txs head key first)"
proof -
  have "worker_bitmap ids \<noteq> 0" if "ids \<noteq> []" for ids using worker_bitmap_ones [of ids] that by auto
  then show ?thesis by (auto simp: updates_ok_def row_updates_def comp_def)
qed

lemma row_updates_ids: "writer_ids (row_updates txs head key first) = row_writers txs head key"
proof -
  let ?ws = "row_writes sequential_id txs head key"
  have "writer_ids (row_updates txs head key first) = (\<Union>w \<in> {w. w < 64 \<and> ?ws w \<noteq> []}. (\<lambda>s. w * 64 + s mod 64) ` set (?ws w))"
    by (auto simp: writer_ids_def row_updates_def worker_bitmap_ones)
  also have "\<dots> = (\<Union>w < 64. set (?ws w))"
  proof -
    have "(\<lambda>s. w * 64 + s mod 64) ` set (?ws w) = set (?ws w)" for w
    proof -
      have "w * 64 + s mod 64 = s" if "s \<in> set (?ws w)" for s using row_writes_seq_div [OF that] by (metis div_mult_mod_eq)
      then show ?thesis by (auto simp: image_iff)
    qed
    then show ?thesis by auto
  qed
  also have "\<dots> = row_writers txs head key"
  proof (intro equalityI subsetI)
    fix s assume "s \<in> row_writers txs head key"
    then have s: "s < 4096" "has_write (txs ! (head + s)) key" by (auto simp: row_writers_def)
    then have d: "s div 64 < 64" "sequential_id (s div 64) (s mod 64) = s" by (simp_all add: sequential_id_def less_mult_imp_div_less)
    with row_writes_mem [of "s div 64" "s mod 64" txs head sequential_id key] s(2)
    have "s \<in> set (?ws (s div 64))" by simp
    with d(1) show "s \<in> (\<Union>w < 64. set (?ws w))" by blast
  qed (auto simp: row_writers_def dest: row_writes_seq_div)
  finally show ?thesis .
qed

definition cheetah_step ::
  "nat \<Rightarrow> operation_set list \<Rightarrow> nat \<Rightarrow> nat list \<times> nat list \<times> actor list \<Rightarrow> nat \<Rightarrow> write_bitmap \<times> mem
   \<Rightarrow> ((write_bitmap \<times> mem) \<times> epoch_history) option res" where
  "cheetah_step sz txs key sc e row =
     (case (sc, row) of ((wfirst, rfirst, xs), (w, m)) \<Rightarrow>
        ebind (row_epoch sz (row_updates txs (head_in_the_epoch e) key wfirst)
            (in_order rfirst 4096 (\<lambda>n. has_read (txs ! (head_in_the_epoch e + n)) key)) (row_actors txs key e xs) w m) (\<lambda>s.
          Inr (if all_done (writers_at txs key e) (readers_at txs key e) s
               then Some ((xw s, xm s), out s, wrec s) else None)))"

definition ch_row_ready :: "nat \<Rightarrow> write_bitmap \<times> mem \<Rightarrow> nat \<Rightarrow> bool" where
  "ch_row_ready e row r \<longleftrightarrow> row_idle (wb_master (fst row)) (fst row) \<and> mem_ok (snd row) \<and> stab (snd row) (wb_master (fst row)) r"

lemma ch_readers: "set (in_order first 4096 (\<lambda>n. has_read (txs ! (head_in_the_epoch e + n)) key)) = readers_at txs key e"
  by (simp add: row_readers_def)

interpretation cheetah_run: epoch_protocol "cheetah_step sz txs key" ch_row_ready "writers_at txs key" "readers_at txs key" limit
  for sz :: nat and txs :: "operation_set list" and key limit :: nat
proof unfold_locales
  fix e r and row :: "write_bitmap \<times> mem" and sc :: "nat list \<times> nat list \<times> actor list" assume rd: "ch_row_ready e row r"
  obtain w m wf rf xs where s: "row = (w, m)" "sc = (wf, rf, xs)" by (metis prod.exhaust)
  let ?us = "\<lambda>wf. row_updates txs (head_in_the_epoch e) key wf"
  let ?ns = "\<lambda>rf. in_order rf 4096 (\<lambda>n. has_read (txs ! (head_in_the_epoch e + n)) key)"
  have rd': "row_idle (wb_master w) w" "mem_ok m" "stab m (wb_master w) r" using rd by (simp_all add: ch_row_ready_def s)
  have sub: "set (?ns rf) \<subseteq> {..<4096}" for rf by auto
  note us = row_updates_ids [of txs "head_in_the_epoch e" key] and ns = ch_readers [of _ txs e key]
  have emp: "?us wf = [] \<longleftrightarrow> writers_at txs key e = {}" for wf using writer_ids_empty [OF row_updates_ok] us by metis
  have act: "set (row_actors txs key e xs) \<subseteq> actors (writer_ids (?us wf)) (set (?ns rf))" unfolding us ns by auto
  from row_epoch_run [OF row_updates_ok rd' sub in_order(2) act, of sz, unfolded us ns emp]
  obtain x where x: "row_epoch sz (?us wf) (?ns rf) (row_actors txs key e xs) w m = Inr x"
    "all_done (writers_at txs key e) (readers_at txs key e) x \<Longrightarrow>
      (\<forall>n \<in> readers_at txs key e. out x n = Some (must_read (writers_at txs key e) r (wrec x) n))
      \<and> ch_row_ready (Suc e) (xw x, xm x) (next_record (writers_at txs key e) (wrec x) r)"
    by (auto simp: ch_row_ready_def next_record_def)
  show "\<exists>res. cheetah_step sz txs key sc e row = Inr res" using x(1) by (simp add: cheetah_step_def s)
  have none: "set [] \<subseteq> actors (writer_ids (?us [])) (set (?ns []))" by simp
  from row_epoch_finish [OF row_updates_ok rd' sub in_order(2) none, of sz, unfolded us ns]
  obtain xs' x' where x': "set xs' \<subseteq> actors (writers_at txs key e) (readers_at txs key e)"
    "row_epoch sz (?us []) (?ns []) xs' w m = Inr x'" "all_done (writers_at txs key e) (readers_at txs key e) x'" by auto
  then have "cheetah_step sz txs key ([], [], xs') e row = Inr (Some ((xw x', xm x'), out x', wrec x'))"
    by (simp add: cheetah_step_def s row_actors_all)
  then show "\<exists>sc row' h. cheetah_step sz txs key sc e row = Inr (Some (row', h))" by blast
  fix row' got rc assume st: "cheetah_step sz txs key sc e row = Inr (Some (row', got, rc))"
  have dn: "all_done (writers_at txs key e) (readers_at txs key e) x" "row' = (xw x, xm x)" "got = out x" "rc = wrec x"
    using st x(1) by (auto simp: cheetah_step_def s split: if_splits)
  show "ch_row_ready (Suc e) row' (next_record (writers_at txs key e) rc r)" using x(2) dn by simp
  fix n assume "n \<in> readers_at txs key e"
  then show "got n = Some (must_read (writers_at txs key e) r rc n)" using x(2) dn by simp
qed

section \<open>Serval\<close>

type_synonym serval_row = "row_region_controller \<times> serval_value \<times> mem"

definition serval_step ::
  "nat \<Rightarrow> operation_set list \<Rightarrow> nat \<Rightarrow> nat list \<times> actor list \<Rightarrow> nat \<Rightarrow> serval_row \<Rightarrow> (serval_row \<times> epoch_history) option res" where
  "serval_step sz txs key sc e row =
     (case (sc, row) of ((ws, xs), (ctl, val, m)) \<Rightarrow>
        ebind (serval_epoch sz e (row_writes sequential_id txs (head_in_the_epoch e) key) ws (row_actors txs key e xs) ctl val m) (\<lambda>r.
          case r of None \<Rightarrow> Inr None
          | Some (s, x) \<Rightarrow>
              Inr (if row_exec_done (writers_at txs key e) (readers_at txs key e) x
                   then Some ((ictl s, ival s, xmem x), xout x, xrec x) else None)))"

text \<open>
  Every epoch writes the row, and no worker writes it in all of its 64 transactions: Serval's
  per-core arrays hold 63 versions, and a row that is not written in an epoch is read stale.
\<close>

definition serval_load :: "operation_set list \<Rightarrow> nat \<Rightarrow> nat \<Rightarrow> bool" where
  "serval_load txs key limit \<longleftrightarrow> (\<forall>e < limit. writers_at txs key e \<noteq> {} \<and>
     (\<forall>w < 64. \<exists>i < 64. \<not> has_write (txs ! (head_in_the_epoch e + sequential_id w i)) key))"

definition serval_row_ready :: "operation_set list \<Rightarrow> nat \<Rightarrow> nat \<Rightarrow> nat \<Rightarrow> serval_row \<Rightarrow> nat \<Rightarrow> bool" where
  "serval_row_ready txs key limit e row r \<longleftrightarrow> serval_load txs key limit \<and>
     (case row of (ctl, val, m) \<Rightarrow> row_ready e ctl val m \<and> stab m (row_final ctl val) r)"

interpretation serval_run: epoch_protocol "serval_step sz txs key" "serval_row_ready txs key limit"
    "writers_at txs key" "readers_at txs key" limit
  for sz :: nat and txs :: "operation_set list" and key limit :: nat
proof unfold_locales
  fix e r and row :: serval_row and sc :: "nat list \<times> actor list"
  assume rd: "serval_row_ready txs key limit e row r" and e: "e < limit"
  obtain ctl val m ws xs where s: "row = (ctl, val, m)" "sc = (ws, xs)" by (metis prod.exhaust)
  let ?W = "row_writes sequential_id txs (head_in_the_epoch e) key" and ?w = "writers_at txs key e" and ?R = "readers_at txs key e"
  have ld: "serval_load txs key limit" "row_ready e ctl val m" "stab m (row_final ctl val) r"
    using rd by (simp_all add: serval_row_ready_def s)
  then have w: "writes_ok ?W" "epoch_writers ?W = ?w" "?w \<noteq> {}"
    using row_writes_sequential [of txs "head_in_the_epoch e" key] e by (auto simp: serval_load_def)
  have ne: "epoch_writers ?W \<noteq> {}" using w(2,3) by simp
  have act: "set (row_actors txs key e xs) \<subseteq> actors (epoch_writers ?W) ?R" unfolding w(2) by auto
  from serval_epoch_run [OF w(1) ld(2,3) ne readers_at_less act, of sz ws, unfolded w(2)]
  obtain res where res: "serval_epoch sz e ?W ws (row_actors txs key e xs) ctl val m = Inr res"
    "\<And>s x. res = Some (s, x) \<Longrightarrow> row_exec_done ?w ?R x \<Longrightarrow> (\<forall>n \<in> ?R. xout x n = Some (must_read ?w r (xrec x) n))
      \<and> serval_row_ready txs key limit (Suc e) (ictl s, ival s, xmem x) (next_record ?w (xrec x) r)"
    using w(3) ld(1) by (auto simp: serval_row_ready_def next_record_def)
  show "\<exists>res. serval_step sz txs key sc e row = Inr res"
    using res(1) by (auto simp: serval_step_def s split: option.splits)
  from epoch_run_exists [OF w(1) ld(2,3) ne readers_at_less [of txs e key], of sz "[]", unfolded w(2)]
  obtain ws' xs' s' x' where x': "set xs' \<subseteq> actors ?w ?R" "serval_epoch sz e ?W ws' xs' ctl val m = Inr (Some (s', x'))"
    "row_exec_done ?w ?R x'" by auto
  then have "serval_step sz txs key (ws', xs') e row = Inr (Some ((ictl s', ival s', xmem x'), xout x', xrec x'))"
    by (simp add: serval_step_def s row_actors_all)
  then show "\<exists>sc row' h. serval_step sz txs key sc e row = Inr (Some (row', h))" by blast
  fix row' got rc assume st: "serval_step sz txs key sc e row = Inr (Some (row', got, rc))"
  then obtain s0 x where dn: "res = Some (s0, x)" "row_exec_done ?w ?R x" "row' = (ictl s0, ival s0, xmem x)" "got = xout x" "rc = xrec x"
    using res(1) by (auto simp: serval_step_def s split: option.splits if_splits)
  show "serval_row_ready txs key limit (Suc e) row' (next_record ?w rc r)" using res(2) dn by simp
  fix n assume "n \<in> ?R"
  then show "got n = Some (must_read ?w r rc n)" using res(2) dn by simp
qed

end
