(* ===== verification/Db_Execution.thy ===== *)
theory Db_Execution
  imports Row_Execution Workers
begin

text \<open>
  The execution phase of the whole database: \<open>do_execution_phase\<close> of the executables, with the
  64 workers interleaved at their operations and every transaction touching several rows. It
  runs on rows that meet \<open>row_execution\<close>, whose versions do not overlap.
\<close>

section \<open>The machine\<close>

text \<open>
  The operations a worker executes, in its order, each with the serial id of its transaction:
  the two nested loops of \<open>do_execution_phase\<close>.
\<close>

definition worker_program :: "operation_set list \<Rightarrow> nat \<Rightarrow> nat \<Rightarrow> (nat \<times> operation) list" where
  "worker_program txs head w =
     (if w < NUM_CORE
      then concat (map (\<lambda>n. map (Pair n) (rw_set (txs ! (head + n))))
             (map (round_robin_id w) [0..<NUM_TXS_IN_ONE_EPOCH_IN_ONE_CORE]))
      else [])"

text \<open>
  \<open>xpos\<close> counts the operations a worker has executed; \<open>drec\<close> and \<open>dout\<close> hold, by key and serial
  id, the records written and read.
\<close>

record db_exec =
  dmem :: mem
  xpos :: "nat \<Rightarrow> nat"
  drec :: "nat \<Rightarrow> nat \<Rightarrow> nat option"
  dout :: "nat \<Rightarrow> nat \<Rightarrow> nat option"

definition db_exec_start :: "mem \<Rightarrow> db_exec" where
  "db_exec_start m = \<lparr>dmem = m, xpos = (\<lambda>_. 0), drec = (\<lambda>_. Map.empty), dout = (\<lambda>_. Map.empty)\<rparr>"

text \<open>
  \<open>ptr k n\<close> is the \<open>pending_\<close> pointer of transaction \<open>n\<close>'s update of key \<open>k\<close>, \<open>None\<close> for
  \<open>nullptr\<close>. A read that meets a pending version stays where it is.
\<close>

definition db_exec_step ::
  "(nat \<Rightarrow> nat \<Rightarrow> mem \<Rightarrow> nat option res) \<Rightarrow> (nat \<Rightarrow> nat \<Rightarrow> nat option) \<Rightarrow> nat \<Rightarrow> (nat \<Rightarrow> (nat \<times> operation) list)
   \<Rightarrow> nat \<Rightarrow> db_exec \<Rightarrow> db_exec res" where
  "db_exec_step read_key ptr sz prog w s =
     (if xpos s w < length (prog w) then
        case prog w ! xpos s w of (n, op) \<Rightarrow>
          let k = index op; s1 = s\<lparr>xpos := (xpos s)(w := xpos s w + 1)\<rparr> in
          (case ope op of
             Read \<Rightarrow> ebind (read_key k n (dmem s)) (\<lambda>r.
               Inr (case r of None \<Rightarrow> s | Some rc \<Rightarrow> s1\<lparr>dout := (dout s)(k := (dout s k)(n \<mapsto> rc))\<rparr>))
           | Update \<Rightarrow>
               (case ptr k n of None \<Rightarrow> Inr s1
                | Some v \<Rightarrow> ebind (upsert sz v (dmem s)) (\<lambda>(r, m).
                    Inr (s1\<lparr>dmem := m, drec := (drec s)(k := (drec s k)(n \<mapsto> r))\<rparr>))))
      else Inr s)"

text \<open>A schedule is a list of workers.\<close>

fun db_exec_run ::
  "(nat \<Rightarrow> nat \<Rightarrow> mem \<Rightarrow> nat option res) \<Rightarrow> (nat \<Rightarrow> nat \<Rightarrow> nat option) \<Rightarrow> nat \<Rightarrow> (nat \<Rightarrow> (nat \<times> operation) list)
   \<Rightarrow> nat list \<Rightarrow> db_exec \<Rightarrow> db_exec res" where
  "db_exec_run read_key ptr sz prog [] s = Inr s"
| "db_exec_run read_key ptr sz prog (w # sched) s =
     ebind (db_exec_step read_key ptr sz prog w s) (db_exec_run read_key ptr sz prog sched)"

definition db_exec_done :: "(nat \<Rightarrow> (nat \<times> operation) list) \<Rightarrow> db_exec \<Rightarrow> bool" where
  "db_exec_done prog s \<longleftrightarrow> (\<forall>w < NUM_CORE. length (prog w) \<le> xpos s w)"

section \<open>Programs\<close>

text \<open>
  Each worker's transactions come in serial order, no two operations of a transaction have the
  same key, and every pending version belongs to an update of some worker.
\<close>

definition program_ok :: "nat set \<Rightarrow> (nat \<Rightarrow> nat \<Rightarrow> nat option) \<Rightarrow> (nat \<Rightarrow> (nat \<times> operation) list) \<Rightarrow> bool" where
  "program_ok K ptr prog \<longleftrightarrow> (\<forall>w. NUM_CORE \<le> w \<longrightarrow> prog w = []) \<and> (\<forall>w. sorted (map fst (prog w)))
     \<and> (\<forall>w n op. (n, op) \<in> set (prog w) \<longrightarrow> n < 4096 \<and> index op \<in> K)
     \<and> (\<forall>w p n op w' p' op'. p < length (prog w) \<longrightarrow> p' < length (prog w') \<longrightarrow> prog w ! p = (n, op) \<longrightarrow>
          prog w' ! p' = (n, op') \<longrightarrow> index op = index op' \<longrightarrow> w = w' \<and> p = p')
     \<and> (\<forall>k \<in> K. \<forall>i \<in> dom (ptr k). \<exists>w op. (i, op) \<in> set (prog w) \<and> ope op = Update \<and> index op = k)"

lemma program_okD:
  assumes "program_ok K ptr prog"
  shows "NUM_CORE \<le> w \<Longrightarrow> prog w = []" "sorted (map fst (prog w))"
    "p < length (prog w) \<Longrightarrow> prog w ! p = (n, op) \<Longrightarrow> n < 4096 \<and> index op \<in> K"
    "p < length (prog w) \<Longrightarrow> p' < length (prog w') \<Longrightarrow> prog w ! p = (n, op) \<Longrightarrow>
       prog w' ! p' = (n, op') \<Longrightarrow> index op = index op' \<Longrightarrow> w = w' \<and> p = p'"
    "k \<in> K \<Longrightarrow> ptr k i \<noteq> None \<Longrightarrow> \<exists>w op. (i, op) \<in> set (prog w) \<and> ope op = Update \<and> index op = k"
  using assms unfolding program_ok_def by (fastforce dest: nth_mem)+

section \<open>The invariant\<close>

text \<open>What the phase looks like from the row of key \<open>k\<close>.\<close>

definition exec_view :: "nat \<Rightarrow> db_exec \<Rightarrow> row_exec" where
  "exec_view k s = \<lparr>xmem = dmem s, filled = dom (drec s k),
     xrec = (\<lambda>i. case drec s k i of None \<Rightarrow> 0 | Some r \<Rightarrow> r), xout = dout s k\<rparr>"

lemma exec_view_simps [simp]:
  "xmem (exec_view k s) = dmem s" "filled (exec_view k s) = dom (drec s k)" "xout (exec_view k s) = dout s k"
  by (simp_all add: exec_view_def)

text \<open>The operations with an effect are those before their worker's position.\<close>

definition executed :: "(nat \<Rightarrow> nat \<Rightarrow> nat option) \<Rightarrow> (nat \<Rightarrow> (nat \<times> operation) list) \<Rightarrow> db_exec \<Rightarrow> bool" where
  "executed ptr prog s \<longleftrightarrow> (\<forall>w. xpos s w \<le> length (prog w)) \<and>
     (\<forall>w p n op. p < length (prog w) \<longrightarrow> prog w ! p = (n, op) \<longrightarrow>
        (ope op = Read \<longrightarrow> (dout s (index op) n \<noteq> None \<longleftrightarrow> p < xpos s w)) \<and>
        (ope op = Update \<longrightarrow> ptr (index op) n \<noteq> None \<longrightarrow> (drec s (index op) n \<noteq> None \<longleftrightarrow> p < xpos s w)))"

lemma executedD:
  assumes "executed ptr prog s"
  shows "xpos s w \<le> length (prog w)"
    "p < length (prog w) \<Longrightarrow> prog w ! p = (n, op) \<Longrightarrow> ope op = Read \<Longrightarrow> dout s (index op) n \<noteq> None \<longleftrightarrow> p < xpos s w"
    "p < length (prog w) \<Longrightarrow> prog w ! p = (n, op) \<Longrightarrow> ope op = Update \<Longrightarrow> ptr (index op) n \<noteq> None \<Longrightarrow>
       drec s (index op) n \<noteq> None \<longleftrightarrow> p < xpos s w"
  using assms unfolding executed_def by blast+

text \<open>A step that records the effect of the next operation.\<close>

lemma executed_step:
  assumes prog: "program_ok K ptr prog" and ex: "executed ptr prog s"
    and p: "xpos s w < length (prog w)" "prog w ! xpos s w = (n, op)"
    and out: "dout s' = (if ope op = Read then (dout s)(index op := (dout s (index op))(n \<mapsto> r)) else dout s)"
    and rec: "drec s' = (if ope op = Update \<and> ptr (index op) n \<noteq> None
      then (drec s)(index op := (drec s (index op))(n \<mapsto> r')) else drec s)"
    and pos: "xpos s' = (xpos s)(w := xpos s w + 1)"
  shows "executed ptr prog s'"
  unfolding executed_def
proof (intro conjI allI impI)
  fix u show "xpos s' u \<le> length (prog u)" using executedD(1) [OF ex, of u] p(1) by (simp add: pos)
next
  fix u q i o' assume q: "q < length (prog u)" "prog u ! q = (i, o')"
  have same: "u = w \<and> q = xpos s w" if "index o' = index op" "i = n"
    using program_okD(4) [OF prog q(1) p(1) q(2)] p(2) that by blast
  have this_one: "o' = op \<and> i = n" if "u = w" "q = xpos s w" using p(2) q(2) that by simp
  have lt: "q < xpos s' u \<longleftrightarrow> q < xpos s u \<or> (u = w \<and> q = xpos s w)" by (auto simp: pos)
  show "dout s' (index o') i \<noteq> None \<longleftrightarrow> q < xpos s' u" if r: "ope o' = Read"
  proof (cases "u = w \<and> q = xpos s w")
    case True
    then show ?thesis using this_one r by (simp add: lt out pos)
  next
    case False
    then have "dout s' (index o') i = dout s (index o') i" using same by (auto simp: out)
    then show ?thesis using executedD(2) [OF ex q r] False by (simp add: lt) blast
  qed
  show "drec s' (index o') i \<noteq> None \<longleftrightarrow> q < xpos s' u" if r: "ope o' = Update" "ptr (index o') i \<noteq> None"
  proof (cases "u = w \<and> q = xpos s w")
    case True
    then show ?thesis using this_one r by (simp add: lt rec pos)
  next
    case False
    then have "drec s' (index o') i = drec s (index o') i" using same by (auto simp: rec)
    then show ?thesis using executedD(3) [OF ex q r] False by (simp add: lt) blast
  qed
qed

definition db_exec_inv ::
  "('row \<Rightarrow> nat \<Rightarrow> nat option) \<Rightarrow> ('row \<Rightarrow> nat) \<Rightarrow> ('row \<Rightarrow> mem \<Rightarrow> bool) \<Rightarrow> nat set \<Rightarrow> (nat \<Rightarrow> 'row) \<Rightarrow> (nat \<Rightarrow> nat)
   \<Rightarrow> (nat \<Rightarrow> (nat \<times> operation) list) \<Rightarrow> db_exec \<Rightarrow> bool" where
  "db_exec_inv pending base rok K row r0 prog s \<longleftrightarrow>
     (\<forall>k \<in> K. row_exec_inv (pending (row k)) {..<4096} (base (row k)) (r0 k) (exec_view k s) \<and> rok (row k) (dmem s))
     \<and> executed (\<lambda>k. pending (row k)) prog s"

lemma db_exec_invD:
  assumes "db_exec_inv pending base rok K row r0 prog s"
  shows "k \<in> K \<Longrightarrow> row_exec_inv (pending (row k)) {..<4096} (base (row k)) (r0 k) (exec_view k s)"
    "k \<in> K \<Longrightarrow> rok (row k) (dmem s)" "executed (\<lambda>k. pending (row k)) prog s"
  using assms by (simp_all add: db_exec_inv_def)

lemma row_exec_frame:
  assumes "row_exec_inv p R M r0 x" and "vers m M = vers (xmem x) M" and "\<And>i v. p i = Some v \<Longrightarrow> vers m v = vers (xmem x) v"
  shows "row_exec_inv p R M r0 (x\<lparr>xmem := m\<rparr>)"
proof -
  have "stab m v r = stab (xmem x) v r" "pend m v = pend (xmem x) v" if "p i = Some v" for i v r
    using assms(3) [OF that] by (simp_all add: stab_def pend_def)
  moreover have "stab m M r0 = stab (xmem x) M r0" using assms(2) by (simp add: stab_def)
  ultimately show ?thesis using assms(1) by (simp add: row_exec_inv_def)
qed

text \<open>The worker's next operation does not have to wait.\<close>

definition can_go :: "(nat \<Rightarrow> nat \<Rightarrow> nat option) \<Rightarrow> (nat \<Rightarrow> (nat \<times> operation) list) \<Rightarrow> nat \<Rightarrow> db_exec \<Rightarrow> bool" where
  "can_go ptr prog w s \<longleftrightarrow> xpos s w < length (prog w) \<and>
     (case prog w ! xpos s w of (n, op) \<Rightarrow>
        ope op = Read \<longrightarrow> (\<forall>i. visible_in (dom (ptr (index op))) n = Some i \<longrightarrow> drec s (index op) i \<noteq> None))"

text \<open>The transaction with the smallest serial id never waits.\<close>

lemma some_can_go:
  assumes prog: "program_ok K ptr prog" and ex: "executed ptr prog s" and left: "\<not> db_exec_done prog s"
  obtains w where "w < NUM_CORE" "can_go ptr prog w s"
proof -
  let ?P = "\<lambda>w. w < NUM_CORE \<and> xpos s w < length (prog w)" let ?n = "\<lambda>w. fst (prog w ! xpos s w)"
  obtain w0 where "?P w0" using left by (auto simp: db_exec_done_def not_le)
  from ex_has_least_nat [of ?P, OF this, of ?n] obtain w where w: "?P w" "\<And>u. ?P u \<Longrightarrow> ?n w \<le> ?n u" by blast
  obtain n op where op: "prog w ! xpos s w = (n, op)" by fastforce
  have K: "index op \<in> K" using program_okD(3) [OF prog _ op] w(1) by blast
  have "drec s (index op) i \<noteq> None" if vis: "visible_in (dom (ptr (index op))) n = Some i" for i
  proof -
    have i: "ptr (index op) i \<noteq> None" "i < n" using vis by (auto simp: visible_in_Some)
    from program_okD(5) [OF prog K i(1)] obtain u o' q where u: "q < length (prog u)" "prog u ! q = (i, o')"
      "ope o' = Update" "index o' = index op" by (metis in_set_conv_nth)
    have "q < xpos s u"
    proof (rule ccontr)
      assume late: "\<not> q < xpos s u"
      then have "?P u" using u(1) program_okD(1) [OF prog, of u] by (cases "NUM_CORE \<le> u") auto
      moreover have "?n u \<le> i"
        using sorted_nth_mono [OF program_okD(2) [OF prog, of u], of "xpos s u" q] late u(1,2) by simp
      ultimately show False using w(2) [of u] i(2) op by simp
    qed
    then show ?thesis using executedD(3) [OF ex u(1-3)] i(1) u(4) by simp
  qed
  then have "can_go ptr prog w s" using w(1) op by (simp add: can_go_def)
  with w(1) that show ?thesis by blast
qed

lemma db_exec_run_append:
  "db_exec_run rk p sz prog (xs @ ys) s = ebind (db_exec_run rk p sz prog xs s) (db_exec_run rk p sz prog ys)"
  by (induction xs arbitrary: s) (auto simp: ebind_def split: sum.splits)

text \<open>Only the rows of the keys matter.\<close>

lemma db_exec_step_cong:
  assumes "program_ok K ptr prog" and "\<And>k. k \<in> K \<Longrightarrow> rk k = rk' k" and "\<And>k. k \<in> K \<Longrightarrow> ptr k = ptr' k"
  shows "db_exec_step rk ptr sz prog w s = db_exec_step rk' ptr' sz prog w s"
proof (cases "xpos s w < length (prog w)")
  case True
  obtain n op where op: "prog w ! xpos s w = (n, op)" by fastforce
  then have "index op \<in> K" using program_okD(3) [OF assms(1) True op] by blast
  then have "rk (index op) = rk' (index op)" "ptr (index op) = ptr' (index op)" using assms(2,3) by blast+
  then show ?thesis using True op by (cases "ope op") (simp_all add: db_exec_step_def Let_def)
qed (simp add: db_exec_step_def)

lemma db_exec_run_cong:
  assumes "program_ok K ptr prog" and "\<And>k. k \<in> K \<Longrightarrow> rk k = rk' k" and "\<And>k. k \<in> K \<Longrightarrow> ptr k = ptr' k"
  shows "db_exec_run rk ptr sz prog sched s = db_exec_run rk' ptr' sz prog sched s"
  by (induction sched arbitrary: s) (auto simp: db_exec_step_cong [OF assms] ebind_def split: sum.splits)

section \<open>The interface\<close>

text \<open>\<open>foot\<close> holds the versions a row depends on.\<close>

locale db_execution = row_execution read_row pending base wf reader
  for read_row :: "'row \<Rightarrow> nat \<Rightarrow> mem \<Rightarrow> nat option res" and pending :: "'row \<Rightarrow> nat \<Rightarrow> nat option"
    and base :: "'row \<Rightarrow> nat" and wf :: "'row \<Rightarrow> mem \<Rightarrow> bool" and reader :: "nat \<Rightarrow> bool" +
  fixes foot :: "'row \<Rightarrow> nat set"
  assumes wf_frame: "wf row m \<Longrightarrow> mem_ok m' \<Longrightarrow> \<forall>v \<in> foot row. vers m' v = vers m v \<Longrightarrow> wf row m'"
    and foot_base: "wf row m \<Longrightarrow> base row \<in> foot row"
    and foot_pending: "wf row m \<Longrightarrow> pending row i = Some v \<Longrightarrow> v \<in> foot row"
    and all_readers: "n < 4096 \<Longrightarrow> reader n"
begin

abbreviation rows_apart :: "nat set \<Rightarrow> (nat \<Rightarrow> 'row) \<Rightarrow> bool" where
  "rows_apart K row \<equiv> \<forall>k \<in> K. \<forall>l \<in> K. k \<noteq> l \<longrightarrow> foot (row k) \<inter> foot (row l) = {}"

lemma inv_other_row:
  assumes inv: "db_exec_inv pending base wf K row r0 prog s" and apart: "rows_apart K row" and k: "k \<in> K" "l \<in> K" "l \<noteq> k"
    and m: "mem_ok m" "\<And>u. u \<notin> foot (row k) \<Longrightarrow> vers m u = vers (dmem s) u"
  shows "row_exec_inv (pending (row l)) {..<4096} (base (row l)) (r0 l) ((exec_view l s)\<lparr>xmem := m\<rparr>)" "wf (row l) m"
proof -
  note w = db_exec_invD(2) [where rok = wf, OF inv k(2)]
  have same: "vers m u = vers (dmem s) u" if "u \<in> foot (row l)" for u using that m(2) apart k by blast
  show "wf (row l) m" using wf_frame [OF w m(1)] same by blast
  show "row_exec_inv (pending (row l)) {..<4096} (base (row l)) (r0 l) ((exec_view l s)\<lparr>xmem := m\<rparr>)"
    by (rule row_exec_frame [OF db_exec_invD(1) [OF inv k(2)]]) (use same foot_base [OF w] foot_pending [OF w] in auto)
qed

lemma db_read_ok:
  assumes prog: "program_ok K (\<lambda>k. pending (row k)) prog" and inv: "db_exec_inv pending base wf K row r0 prog s"
    and p: "xpos s w < length (prog w)" "prog w ! xpos s w = (n, op)" "ope op = Read"
  obtains s' where "db_exec_step (\<lambda>k. read_row (row k)) (\<lambda>k. pending (row k)) sz prog w s = Inr s'"
    "db_exec_inv pending base wf K row r0 prog s'"
    "xpos s' = (if can_go (\<lambda>k. pending (row k)) prog w s then (xpos s)(w := xpos s w + 1) else xpos s)"
proof -
  let ?k = "index op" let ?row = "row ?k" let ?v = "exec_view ?k s" let ?p = "\<lambda>k. pending (row k)"
  have K: "?k \<in> K" "n < 4096" using program_okD(3) [OF prog p(1,2)] by blast+
  note ik = db_exec_invD(1) [OF inv K(1)] and wk = db_exec_invD(2) [where rok = wf, OF inv K(1)] and ex = db_exec_invD(3) [OF inv]
  let ?r = "must_read (dom (pending ?row)) (r0 ?k) (xrec ?v) n"
  have go: "can_go ?p prog w s \<longleftrightarrow> (\<forall>i. visible_in (dom (pending ?row)) n = Some i \<longrightarrow> i \<in> filled ?v)"
    using p by (auto simp: can_go_def)
  have rd: "read_row ?row n (dmem s) = Inr (if can_go ?p prog w s then Some ?r else None)"
    unfolding read_law [OF wk all_readers [OF K(2)]] go using visible_version [OF ik, of n] by simp
  show ?thesis
  proof (cases "can_go ?p prog w s")
    case False
    then have "db_exec_step (\<lambda>k. read_row (row k)) ?p sz prog w s = Inr s" using p rd by (simp add: db_exec_step_def Let_def)
    then show ?thesis using that inv False by simp
  next
    case True
    let ?s = "s\<lparr>xpos := (xpos s)(w := xpos s w + 1), dout := (dout s)(?k := (dout s ?k)(n \<mapsto> ?r))\<rparr>"
    have "xout ?v n = None" using executedD(2) [OF ex p] by auto
    from reader_exec(2) [OF ik _ _ all_readers [OF K(2)] this] True wk K(2)
    have "row_exec_inv (pending ?row) {..<4096} (base ?row) (r0 ?k) (exec_view ?k ?s)"
      unfolding go by (simp add: exec_view_def)
    then have "row_exec_inv (pending (row l)) {..<4096} (base (row l)) (r0 l) (exec_view l ?s)" if "l \<in> K" for l
      using db_exec_invD(1) [OF inv that] by (cases "l = ?k") (simp_all add: exec_view_def)
    moreover have "executed ?p prog ?s" by (rule executed_step [OF prog ex p(1,2)]) (use p(3) in auto)
    moreover have "wf (row l) (dmem ?s)" if "l \<in> K" for l using db_exec_invD(2) [where rok = wf, OF inv that] by simp
    ultimately have "db_exec_inv pending base wf K row r0 prog ?s" by (simp add: db_exec_inv_def)
    moreover have "db_exec_step (\<lambda>k. read_row (row k)) ?p sz prog w s = Inr ?s" using p rd True by (simp add: db_exec_step_def Let_def)
    ultimately show ?thesis using that True by simp
  qed
qed

lemma db_write_ok:
  assumes prog: "program_ok K (\<lambda>k. pending (row k)) prog" and inv: "db_exec_inv pending base wf K row r0 prog s"
    and apart: "rows_apart K row"
    and p: "xpos s w < length (prog w)" "prog w ! xpos s w = (n, op)" "ope op = Update"
  obtains s' where "db_exec_step (\<lambda>k. read_row (row k)) (\<lambda>k. pending (row k)) sz prog w s = Inr s'"
    "db_exec_inv pending base wf K row r0 prog s'" "xpos s' = (xpos s)(w := xpos s w + 1)"
proof -
  let ?k = "index op" let ?row = "row ?k" let ?v = "exec_view ?k s" let ?p = "\<lambda>k. pending (row k)"
  have K: "?k \<in> K" using program_okD(3) [OF prog p(1,2)] by blast
  note ik = db_exec_invD(1) [OF inv K] and wk = db_exec_invD(2) [where rok = wf, OF inv K] and ex = db_exec_invD(3) [OF inv]
  show ?thesis
  proof (cases "pending ?row n")
    case None
    let ?s = "s\<lparr>xpos := (xpos s)(w := xpos s w + 1)\<rparr>"
    have "exec_view l ?s = exec_view l s" for l by (simp add: exec_view_def)
    moreover have "executed ?p prog ?s" by (rule executed_step [OF prog ex p(1,2)]) (use p(3) None in auto)
    ultimately have "db_exec_inv pending base wf K row r0 prog ?s" using inv by (simp add: db_exec_inv_def)
    moreover have "db_exec_step (\<lambda>k. read_row (row k)) ?p sz prog w s = Inr ?s" using p None by (simp add: db_exec_step_def Let_def)
    ultimately show ?thesis using that by simp
  next
    case (Some v)
    have n: "n \<notin> filled ?v" using executedD(3) [OF ex p] Some by (auto simp: dom_def)
    from writer_exec [OF ik _ n] wk Some obtain x where x: "row_exec_step (read_row ?row) (pending ?row) sz (Writer n) ?v = Inr x"
      "row_exec_inv (pending ?row) {..<4096} (base ?row) (r0 ?k) x" "wf ?row (xmem x)" by auto
    then obtain r m where u: "upsert sz v (dmem s) = Inr (r, m)" "x = ?v\<lparr>xmem := m, filled := insert n (filled ?v), xrec := (xrec ?v)(n := r)\<rparr>"
      using n Some by (auto simp: row_exec_step_def ebind_eq_Inr)
    let ?s = "s\<lparr>xpos := (xpos s)(w := xpos s w + 1), dmem := m, drec := (drec s)(?k := (drec s ?k)(n \<mapsto> r))\<rparr>"
    have vk: "exec_view ?k ?s = x" by (auto simp: exec_view_def u(2))
    have vm: "vers m y = vers (dmem s) y" if "y \<notin> foot ?row" for y
      using u(1) that foot_pending [OF wk Some] by (auto simp: upsert_def new_record_def ebind_eq_Inr)
    have mok: "mem_ok m" using wf_mem [OF x(3)] u(2) by simp
    have "row_exec_inv (pending (row l)) {..<4096} (base (row l)) (r0 l) (exec_view l ?s) \<and> wf (row l) m" if "l \<in> K" for l
    proof (cases "l = ?k")
      case True
      then show ?thesis using x(2,3) vk u(2) by simp
    next
      case False
      moreover have "exec_view l ?s = (exec_view l s)\<lparr>xmem := m\<rparr>" using False by (simp add: exec_view_def)
      ultimately show ?thesis using inv_other_row [OF inv apart K that False mok vm] by simp
    qed
    moreover have "executed ?p prog ?s" by (rule executed_step [OF prog ex p(1,2)]) (use p(3) Some in auto)
    ultimately have "db_exec_inv pending base wf K row r0 prog ?s" by (simp add: db_exec_inv_def)
    moreover have "db_exec_step (\<lambda>k. read_row (row k)) ?p sz prog w s = Inr ?s" using p Some u(1) by (simp add: db_exec_step_def Let_def)
    ultimately show ?thesis using that by simp
  qed
qed

text \<open>Every step of every worker succeeds; one that does not wait moves the worker ahead.\<close>

lemma db_step_ok:
  assumes "program_ok K (\<lambda>k. pending (row k)) prog" and "rows_apart K row" and "db_exec_inv pending base wf K row r0 prog s"
  shows "\<exists>s'. db_exec_step (\<lambda>k. read_row (row k)) (\<lambda>k. pending (row k)) sz prog w s = Inr s'
    \<and> db_exec_inv pending base wf K row r0 prog s'
    \<and> xpos s' = (if can_go (\<lambda>k. pending (row k)) prog w s then (xpos s)(w := xpos s w + 1) else xpos s)"
proof (cases "xpos s w < length (prog w)")
  case True
  obtain n op where op: "prog w ! xpos s w = (n, op)" by fastforce
  show ?thesis
  proof (cases "ope op")
    case Read
    show ?thesis by (rule db_read_ok [OF assms(1,3) True op Read, of sz]) blast
  next
    case Update
    have "can_go (\<lambda>k. pending (row k)) prog w s" using True op Update by (simp add: can_go_def)
    moreover obtain s' where "db_exec_step (\<lambda>k. read_row (row k)) (\<lambda>k. pending (row k)) sz prog w s = Inr s'"
      "db_exec_inv pending base wf K row r0 prog s'" "xpos s' = (xpos s)(w := xpos s w + 1)"
      by (rule db_write_ok [OF assms(1,3,2) True op Update, of sz])
    ultimately show ?thesis by simp
  qed
qed (use assms(3) in \<open>simp add: db_exec_step_def can_go_def\<close>)

lemma db_exec_any_schedule:
  assumes "program_ok K (\<lambda>k. pending (row k)) prog" and "rows_apart K row" and "db_exec_inv pending base wf K row r0 prog s"
  shows "\<exists>s'. db_exec_run (\<lambda>k. read_row (row k)) (\<lambda>k. pending (row k)) sz prog sched s = Inr s'
    \<and> db_exec_inv pending base wf K row r0 prog s'"
  using assms(3)
proof (induction sched arbitrary: s)
  case (Cons w sched)
  from db_step_ok [OF assms(1,2) Cons.prems, of sz w] Cons.IH show ?case by fastforce
qed simp

lemma db_exec_completes:
  assumes "program_ok K (\<lambda>k. pending (row k)) prog" and "rows_apart K row" and "db_exec_inv pending base wf K row r0 prog s"
  shows "\<exists>sched s'. db_exec_run (\<lambda>k. read_row (row k)) (\<lambda>k. pending (row k)) sz prog sched s = Inr s' \<and> db_exec_done prog s'"
  using assms(3)
proof (induction "\<Sum>w < NUM_CORE. length (prog w) - xpos s w" arbitrary: s rule: less_induct)
  case less
  show ?case
  proof (cases "db_exec_done prog s")
    case True
    then show ?thesis by (intro exI [of _ "[]"] exI [of _ s]) simp
  next
    case False
    from some_can_go [OF assms(1) db_exec_invD(3) [OF less.prems] False] obtain w where
      w: "w < NUM_CORE" "can_go (\<lambda>k. pending (row k)) prog w s" by blast
    with db_step_ok [OF assms(1,2) less.prems, of sz w] obtain s1 where
      s1: "db_exec_step (\<lambda>k. read_row (row k)) (\<lambda>k. pending (row k)) sz prog w s = Inr s1"
      "db_exec_inv pending base wf K row r0 prog s1" "xpos s1 = (xpos s)(w := xpos s w + 1)" by auto
    have "xpos s w < length (prog w)" using w(2) by (simp add: can_go_def)
    then have "(\<Sum>u < NUM_CORE. length (prog u) - xpos s1 u) < (\<Sum>u < NUM_CORE. length (prog u) - xpos s u)"
      using w(1) s1(3) by (intro sum_strict_mono_ex1) auto
    from less.hyps [OF this s1(2)] obtain sched s' where
      "db_exec_run (\<lambda>k. read_row (row k)) (\<lambda>k. pending (row k)) sz prog sched s1 = Inr s'" "db_exec_done prog s'" by blast
    then show ?thesis using s1(1) by (intro exI [of _ "w # sched"] exI [of _ s']) simp
  qed
qed

text \<open>Once all workers have finished, every read got what it must and every version is filled.\<close>

lemma db_exec_results:
  assumes prog: "program_ok K (\<lambda>k. pending (row k)) prog" and inv: "db_exec_inv pending base wf K row r0 prog s" and dn: "db_exec_done prog s"
  shows "(n, op) \<in> set (prog w) \<Longrightarrow> ope op = Read \<Longrightarrow>
      dout s (index op) n = Some (must_read (dom (pending (row (index op)))) (r0 (index op)) (xrec (exec_view (index op) s)) n)"
    and "k \<in> K \<Longrightarrow> dom (pending (row k)) \<subseteq> dom (drec s k)"
proof -
  note ex = db_exec_invD(3) [OF inv]
  have past: "p < xpos s u" if "p < length (prog u)" for p u
    using that dn program_okD(1) [OF prog, of u] unfolding db_exec_done_def by (cases "u < NUM_CORE") (auto intro: less_le_trans)
  show "dout s (index op) n = Some (must_read (dom (pending (row (index op)))) (r0 (index op)) (xrec (exec_view (index op) s)) n)"
    if m: "(n, op) \<in> set (prog w)" and r: "ope op = Read"
  proof -
    obtain p where p: "p < length (prog w)" "prog w ! p = (n, op)" using m by (metis in_set_conv_nth)
    then obtain rc where "dout s (index op) n = Some rc" using executedD(2) [OF ex p r] past by auto
    moreover have "n < 4096" "index op \<in> K" using program_okD(3) [OF prog p] by blast+
    ultimately show ?thesis using row_exec_invD(4) [OF db_exec_invD(1) [OF inv], of "index op" n rc] by simp
  qed
  show "dom (pending (row k)) \<subseteq> dom (drec s k)" if k: "k \<in> K"
  proof
    fix i assume "i \<in> dom (pending (row k))"
    then have pi: "pending (row k) i \<noteq> None" by blast
    from program_okD(5) [OF prog k pi] obtain w op p where "p < length (prog w)" "prog w ! p = (i, op)" "ope op = Update" "index op = k"
      by (metis in_set_conv_nth)
    then show "i \<in> dom (drec s k)" using executedD(3) [OF ex, of p w i op] past pi by auto
  qed
qed

end

section \<open>The workers' programs\<close>

lemma tagged_concat_set: "set (concat (map (\<lambda>n. map (Pair n) (g n)) ns)) = {(n, x). n \<in> set ns \<and> x \<in> set (g n)}"
  by auto

lemma tagged_concat_sorted: "sorted ns \<Longrightarrow> sorted (map fst (concat (map (\<lambda>n. map (Pair n) (g n)) ns)))"
proof (induction ns)
  case (Cons n ns)
  have "sorted (map fst (map (Pair n) xs))" for xs :: "'b list" by (induction xs) auto
  with Cons show ?case by (auto simp: sorted_append simp del: map_map)
qed simp

lemma tagged_concat_distinct:
  assumes "distinct ns" and "\<And>n. n \<in> set ns \<Longrightarrow> distinct (map f (g n))"
  shows "distinct (map (\<lambda>(n, x). (n, f x)) (concat (map (\<lambda>n. map (Pair n) (g n)) ns)))"
  using assms
proof (induction ns)
  case (Cons n ns)
  have "distinct (map (\<lambda>(n, x). (n, f x)) (map (Pair n) (g n)))"
    using Cons.prems(2) [of n] by (auto simp: distinct_map inj_on_def)
  moreover have "(\<lambda>(n, x). (n, f x)) ` set (map (Pair n) (g n)) \<inter>
      (\<lambda>(n, x). (n, f x)) ` set (concat (map (\<lambda>n. map (Pair n) (g n)) ns)) = {}"
    using Cons.prems(1) by auto
  ultimately show ?case using Cons by (simp only: list.map concat.simps map_append distinct_append set_map) simp
qed simp

lemma worker_program_set:
  "(n, op) \<in> set (worker_program txs head w) \<longleftrightarrow> n < 4096 \<and> n mod 64 = w \<and> op \<in> set (rw_set (txs ! (head + n)))"
proof -
  have "n \<in> set (map (round_robin_id w) [0..<64]) \<longleftrightarrow> n < 4096 \<and> n mod 64 = w" if "w < 64"
  proof
    assume "n < 4096 \<and> n mod 64 = w"
    then have "n = round_robin_id w (n div 64)" "n div 64 < 64" by (auto simp: round_robin_id_def)
    then show "n \<in> set (map (round_robin_id w) [0..<64])" by auto
  qed (use that in \<open>auto simp: round_robin_id_def\<close>)
  moreover have "n mod 64 \<noteq> w" if "\<not> w < 64" using that mod_less_divisor [of 64 n] by auto
  ultimately show ?thesis
    unfolding worker_program_def NUM_CORE_def txs_per_core by (simp only: tagged_concat_set split: if_split) auto
qed

lemma worker_program_ok:
  assumes ops: "\<And>n. n < 4096 \<Longrightarrow> distinct (map index (rw_set (txs ! (head + n)))) \<and> index ` set (rw_set (txs ! (head + n))) \<subseteq> K"
    and ptr: "\<And>k i. k \<in> K \<Longrightarrow> ptr k i \<noteq> None \<Longrightarrow> i < 4096 \<and> (\<exists>op \<in> set (rw_set (txs ! (head + i))). ope op = Update \<and> index op = k)"
  shows "program_ok K ptr (worker_program txs head)"
  unfolding program_ok_def
proof (intro conjI allI impI ballI)
  fix w show "worker_program txs head w = []" if "NUM_CORE \<le> w" using that by (simp add: worker_program_def)
  have "sorted (map (round_robin_id w) [0..<64])" by (auto simp: sorted_wrt_map round_robin_id_def sorted_wrt_iff_nth_less)
  then show "sorted (map fst (worker_program txs head w))"
    unfolding worker_program_def txs_per_core by (cases "w < NUM_CORE") (simp_all only: if_True if_False tagged_concat_sorted list.map sorted_simps)
  fix n op assume "(n, op) \<in> set (worker_program txs head w)"
  then show "n < 4096" "index op \<in> K" using ops [of n] by (auto simp: worker_program_set)
next
  fix w p n op w' p' op'
  assume p: "p < length (worker_program txs head w)" "p' < length (worker_program txs head w')"
    "worker_program txs head w ! p = (n, op)" "worker_program txs head w' ! p' = (n, op')" "index op = index op'"
  then have "(n, op) \<in> set (worker_program txs head w)" "(n, op') \<in> set (worker_program txs head w')" by (metis nth_mem)+
  then show ww: "w = w'" by (simp add: worker_program_set)
  let ?f = "\<lambda>(n, op). (n, index op)"
  have "distinct (map (round_robin_id w) [0..<64])" by (auto simp: distinct_map inj_on_def round_robin_id_def)
  moreover have "distinct (map index (rw_set (txs ! (head + n))))" if "n \<in> set (map (round_robin_id w) [0..<64])" "w < 64" for n
    using ops [of n] that by (auto simp: round_robin_id_def)
  ultimately have "distinct (map ?f (worker_program txs head w))"
    unfolding worker_program_def NUM_CORE_def txs_per_core
    by (cases "w < 64") (simp_all only: if_True if_False tagged_concat_distinct list.map distinct.simps)
  moreover have "map ?f (worker_program txs head w) ! p = map ?f (worker_program txs head w) ! p'"
    using p ww by simp
  ultimately show "p = p'" using p(1,2) ww nth_eq_iff_index_eq [of "map ?f (worker_program txs head w)" p p'] by simp
next
  fix k i assume "k \<in> K" "i \<in> dom (ptr k)"
  then obtain op where "i < 4096" "op \<in> set (rw_set (txs ! (head + i)))" "ope op = Update" "index op = k"
    using ptr [of k i] by auto
  then show "\<exists>w op. (i, op) \<in> set (worker_program txs head w) \<and> ope op = Update \<and> index op = k"
    by (auto simp: worker_program_set)
qed

end
