(* ===== verification/Serval_Frame.thy ===== *)
theory Serval_Frame
  imports Serval_Epoch Db_Execution
begin

text \<open>
  What one Serval row depends on, and what the accesses to a row leave alone: the facts that let
  the rows of a database, which share the store and the regions, be treated one by one.
\<close>

section \<open>The footprint of a row\<close>

definition row_foot :: "row_region_controller \<Rightarrow> serval_value \<Rightarrow> nat set" where
  "row_foot ctl val = insert (master val) (row_versions ctl val)"

lemma row_foot_rwl [simp]: "row_foot ctl (val\<lparr>rwl := c\<rparr>) = row_foot ctl val"
  by (simp add: row_foot_def)

lemma row_foot_less: "row_ok ctl val m \<Longrightarrow> v \<in> row_foot ctl val \<Longrightarrow> v < brk m"
  using live_less_brk stable_live row_okD(1,2,5) unfolding row_foot_def by (metis insertE)

lemma row_final_foot:
  assumes ok: "row_ok ctl val m"
  shows "row_final ctl val \<in> row_foot ctl val"
proof (cases "ids_slots (global_array val) = []")
  case True
  show ?thesis
  proof (cases "row_region_ptr val")
    case (Some k)
    let ?r = "regions ctl k" let ?c = "Max (ones (core_bitmap ?r))"
    have rk: "region_ok (?r, m)" using row_okD(7) [OF ok Some] by simp
    show ?thesis
    proof (cases "core_bitmap ?r = 0")
      case False
      then have c: "?c \<in> ones (core_bitmap ?r)" by (simp add: Max_in)
      then have "pcva_ok (arrays ?r ?c)" "transaction_bitmap (arrays ?r ?c) \<noteq> 0" using region_okD(4,5) [OF rk c] by auto
      then have "slots (arrays ?r ?c) \<noteq> []" by (auto simp: pcva_ok_def)
      then have "last (slots (arrays ?r ?c)) \<in> region_slots ?r" using ones_less [OF c] by (auto simp: region_slots_iff)
      then show ?thesis using True Some False by (simp add: row_final_def row_foot_def row_versions_def)
    qed (use True Some in \<open>simp add: row_final_def row_foot_def\<close>)
  qed (use True in \<open>simp add: row_final_def row_foot_def\<close>)
qed (auto simp: row_final_def row_foot_def row_versions_def)

text \<open>What stays the same of a row when the store and the regions of other rows change.\<close>

definition row_kept :: "row_region_controller \<Rightarrow> serval_value \<Rightarrow> mem \<Rightarrow> row_region_controller \<Rightarrow> mem \<Rightarrow> bool" where
  "row_kept ctl val m ctl' m' \<longleftrightarrow> mem_ok m' \<and> used ctl \<le> used ctl' \<and> (\<forall>v \<in> row_foot ctl val. vers m' v = vers m v)
     \<and> (\<forall>j. row_region_ptr val = Some j \<longrightarrow> regions ctl' j = regions ctl j)"

lemma row_kept_views:
  assumes "row_kept ctl val m ctl' m'"
  shows "row_versions ctl' val = row_versions ctl val" "row_entries ctl' val = row_entries ctl val"
    "row_final ctl' val = row_final ctl val" "row_foot ctl' val = row_foot ctl val"
proof -
  show v: "row_versions ctl' val = row_versions ctl val"
    using assms by (auto simp: row_kept_def row_versions_def split: option.splits)
  then show "row_foot ctl' val = row_foot ctl val" by (simp add: row_foot_def)
  show "row_entries ctl' val = row_entries ctl val" "row_final ctl' val = row_final ctl val"
    using assms by (auto simp: row_kept_def row_entries_def row_final_def split: option.splits)
qed

lemma row_kept_vers: "row_kept ctl val m ctl' m' \<Longrightarrow> v \<in> row_foot ctl val \<Longrightarrow> vers m' v = vers m v"
  by (simp add: row_kept_def)

lemma row_kept_stable:
  assumes "row_kept ctl val m ctl' m'" and "v \<in> row_foot ctl val"
  shows "stable m' v = stable m v" "live m' v = live m v" "stab m' v r = stab m v r"
  using row_kept_vers [OF assms] by (simp_all add: stable_def live_def stab_def)

lemma row_kept_ok:
  assumes ok: "row_ok ctl val m" and kept: "row_kept ctl val m ctl' m'"
  shows "row_ok ctl' val m'"
proof -
  note k = row_kept_stable [OF kept] and w = row_kept_views [OF kept]
  have "stable m' (master val)" using row_okD(2) [OF ok] k(1) by (simp add: row_foot_def)
  moreover have "live m' v \<and> v \<noteq> master val" if "v \<in> row_versions ctl val" for v
    using row_okD(5,6) [OF ok that] k(2) [of v] that by (simp add: row_foot_def)
  moreover have "ids_slots (global_array val) = [] \<and> j < used ctl' \<and> region_ok (regions ctl' j, m')"
    if j: "row_region_ptr val = Some j" for j
  proof -
    have r: "ids_slots (global_array val) = []" "j < used ctl" "region_ok (regions ctl j, m)" using row_okD(7) [OF ok j] by auto
    have "vers m' v = vers m v" if "v \<in> region_slots (regions ctl j)" for v
      using row_kept_vers [OF kept] that j by (simp add: row_foot_def row_versions_def)
    moreover have "regions ctl' j = regions ctl j" "used ctl \<le> used ctl'" "mem_ok m'" using kept j by (auto simp: row_kept_def)
    ultimately show ?thesis using r region_ok_mem_mono [OF r(3)] by simp
  qed
  ultimately show ?thesis using ok kept w(1) unfolding row_ok_def row_kept_def by (auto split: option.splits)
qed

lemma row_kept_cur: "row_cur ctl val m \<Longrightarrow> row_kept ctl val m ctl' m' \<Longrightarrow> row_cur ctl' val m'"
  using row_kept_ok unfolding row_cur_def by blast

lemma row_part_ok: "row_part e M val ctl m p \<Longrightarrow> row_ok ctl val m"
  by (auto simp: row_part_def row_cur_def split: if_splits)

lemma row_kept_part:
  assumes rp: "row_part e M val ctl m p" and kept: "row_kept ctl val m ctl' m'" and rrc: "rrc_ok ctl'"
    and room: "row_region_ptr val = None \<Longrightarrow> used ctl' < NUM_REGIONS"
  shows "row_part e M val ctl' m' p"
proof (cases "val_epoch val < e")
  case True
  then have r: "p = Map.empty" "row_ok ctl val m" "\<forall>v \<in> row_versions ctl val. stable m v" "row_final ctl val = M"
    using rp by (auto simp: row_part_def)
  have "stable m' v" if "v \<in> row_versions ctl val" for v
    using r(3) row_kept_stable(1) [OF kept] that by (simp add: row_foot_def)
  then show ?thesis using r row_kept_ok [OF r(2) kept] row_kept_views [OF kept] rp rrc room True by (simp add: row_part_def)
next
  case False
  then have e: "val_epoch val = e" using rp by (simp add: row_part_def)
  note now = row_part_now [OF rp e]
  have "vers m' v = vers m v" if "p i = Some v" for i v
    using row_entries_versions [OF now(1)] now(2) that row_kept_vers [OF kept] by (simp add: row_foot_def)
  then have "pendings_ok m' p" using now(4) unfolding pendings_ok_def by metis
  then show ?thesis using now row_kept_cur [OF now(1) kept] row_kept_views [OF kept] e rrc room by (simp add: row_part_def)
qed

section \<open>What a step on a row changes\<close>

text \<open>
  The row's own versions and fresh ones, its own region or the next unused one; nothing else.
\<close>

definition row_moves ::
  "row_region_controller \<Rightarrow> serval_value \<Rightarrow> mem \<Rightarrow> row_region_controller \<Rightarrow> serval_value \<Rightarrow> mem \<Rightarrow> bool" where
  "row_moves ctl val m ctl' val' m' \<longleftrightarrow> brk m \<le> brk m'
     \<and> row_foot ctl' val' \<subseteq> row_foot ctl val \<union> {brk m..}
     \<and> (\<forall>v < brk m. v \<notin> row_foot ctl val \<longrightarrow> vers m' v = vers m v)
     \<and> (\<forall>j. row_region_ptr val' \<noteq> Some j \<longrightarrow> regions ctl' j = regions ctl j)
     \<and> (row_region_ptr val' = row_region_ptr val \<and> used ctl' = used ctl
        \<or> row_region_ptr val = None \<and> row_region_ptr val' = Some (used ctl) \<and> used ctl' = Suc (used ctl))"

lemma row_moves_same [simp]: "row_moves ctl val m ctl (val\<lparr>rwl := c\<rparr>) m" "row_moves ctl val m ctl val m"
  by (auto simp: row_moves_def)

lemma row_moves_try: "val_try_lock val = (ok, val') \<Longrightarrow> row_moves ctl val m ctl val' m"
  by (cases "try_lock (rwl val)") (auto simp: val_try_lock_def)

lemma row_moves_unlock [simp]: "row_moves ctl val m ctl (val_unlock val) m"
  by (simp add: val_unlock_def)

lemma row_moves_initialize:
  assumes "row_ok ctl val m" and "\<forall>v \<in> row_versions ctl val. stable m v" and "initialize_the_row e val ctl m = Inr (val', ctl', m')"
  shows "row_moves ctl val m ctl' val' m'"
proof (rule initialize_the_row_ok [OF assms(1,2), of e])
  fix v1 c1 m1
  assume "initialize_the_row e val ctl m = Inr (v1, c1, m1)" "used c1 = used ctl" "row_region_ptr v1 = row_region_ptr val"
    "\<And>v. v \<noteq> master val \<Longrightarrow> v \<notin> row_versions ctl val \<Longrightarrow> vers m1 v = vers m v"
    "\<And>j. row_region_ptr val \<noteq> Some j \<Longrightarrow> regions c1 j = regions ctl j" "brk m1 = brk m"
    "insert (master v1) (row_versions c1 v1) \<subseteq> insert (master val) (row_versions ctl val)"
  then show ?thesis using assms(3) by (auto simp: row_moves_def row_foot_def)
qed

lemma row_moves_unconted:
  assumes rp: "row_part e M val ctl m p" and e: "val_epoch val = e" and none: "row_region_ptr val = None"
    and i: "i < 4096" "i \<notin> dom p" and a: "append_to_unconted_row i val m = Inr (v, val', m')"
  shows "row_moves ctl val m ctl val' m'"
proof -
  note now = row_part_now [OF rp e]
  have "i \<notin> dom (row_entries ctl val)" using i(2) now(2) by simp
  from append_to_unconted_row_ok [OF now(1) none i(1) this] obtain v1 m1 where
    "append_to_unconted_row i val m = Inr (brk m, v1, m1)" "row_region_ptr v1 = None" "master v1 = master val"
    "vers m1 = (vers m)(brk m \<mapsto> \<lparr>ver_rec = nullptr, ver_status = PENDING, ver_deleted = False\<rparr>)" "brk m1 = brk m + 1"
    "row_versions ctl v1 = insert (brk m) (row_versions ctl val)" by metis
  then show ?thesis using a none by (auto simp: row_moves_def row_foot_def)
qed

lemma row_moves_contented:
  assumes rp: "row_part e M val ctl m p" and e: "val_epoch val = e" and k: "row_region_ptr val = Some k"
    and i: "i < 4096" "\<forall>j \<in> core_ids p (i div 64). j < i" "card (core_ids p (i div 64)) < 63"
    and a: "append_to_contented_row (i div 64) i k ctl m = Inr (v, ctl', m')"
  shows "row_moves ctl val m ctl' val m'"
proof -
  note now = row_part_now [OF rp e]
  have *: "\<forall>j \<in> core_ids (row_entries ctl val) (i div 64). j < i" "card (core_ids (row_entries ctl val) (i div 64)) < 63"
    using i now(2) by simp_all
  show ?thesis
  proof (rule append_to_contented_row_ok [OF now(1) k i(1) *])
    fix r m1
    assume b: "append_to_contented_row (i div 64) i k ctl m = Inr (brk m, ctl\<lparr>regions := (regions ctl)(k := r)\<rparr>, m1)"
      "brk m1 = brk m + 1"
      "\<And>w. w \<noteq> brk m \<Longrightarrow> w \<in> region_slots r \<or> w \<notin> region_slots (regions ctl k) \<Longrightarrow> vers m1 w = vers m w"
      "row_versions (ctl\<lparr>regions := (regions ctl)(k := r)\<rparr>) val \<subseteq> insert (brk m) (row_versions ctl val)"
    have "region_slots (regions ctl k) \<subseteq> row_foot ctl val" by (auto simp: row_foot_def row_versions_def k)
    then have "vers m1 v = vers m v" if "v < brk m" "v \<notin> row_foot ctl val" for v using b(3) [of v] that by blast
    then show ?thesis using a b(1,2,4) k by (auto simp: row_moves_def row_foot_def)
  qed
qed

lemma row_moves_install:
  assumes rp: "row_part e M val ctl m p" and e: "val_epoch val = e" and cap: "\<forall>c. card (core_ids p c) \<le> 63"
    and a: "install_region val ctl m = Inr (k, val', ctl', m')"
  shows "row_moves ctl val m ctl' val' m'"
proof (cases "row_region_ptr val")
  case None
  note now = row_part_now [OF rp e]
  have "\<forall>c. card (core_ids (row_entries ctl val) c) \<le> 63" using cap now(2) by simp
  then show ?thesis
  proof (rule install_region_ok [OF now(1) None now(5) now(6) [OF None]])
    fix v1 c1 m1
    assume "install_region val ctl m = Inr (used ctl, v1, c1, m1)" "row_region_ptr v1 = Some (used ctl)" "master v1 = master val"
      "used c1 = used ctl + 1" "\<And>k. k \<noteq> used ctl \<Longrightarrow> regions c1 k = regions ctl k" "vers m1 = vers m" "brk m1 = brk m"
      "row_versions c1 v1 \<subseteq> row_versions ctl val"
    then show ?thesis using a None by (auto simp: row_moves_def row_foot_def)
  qed
qed (use a in \<open>simp add: install_region_def\<close>)

lemma init_step_moves:
  assumes wr: "writes_ok W" and inv: "init_inv e M W s" and st: "init_step e w s = Inr s'"
  shows "row_moves (ictl s) (ival s) (imem s) (ictl s') (ival s') (imem s')"
proof -
  note rp = init_invD(3) [OF inv] and says = init_invD(4) [OF inv, of w] and pr = init_invD(2) [OF inv]
  obtain ok v where t: "val_try_lock (ival s) = (ok, v)" by fastforce
  note tr = row_moves_try [OF t]
  show ?thesis
  proof (cases "ipc s w")
    case (GuardInit i)
    show ?thesis
    proof (cases "val_epoch (ival s) < e")
      case True
      then have "row_ok (ictl s) (ival s) (imem s)" "\<forall>v \<in> row_versions (ictl s) (ival s). stable (imem s) v"
        using rp by (simp_all add: row_part_def)
      from row_moves_initialize [OF this] show ?thesis using st True GuardInit by (auto simp: init_step_def ebind_eq_Inr)
    qed (use st GuardInit in \<open>auto simp: init_step_def\<close>)
  next
    case (Locked i)
    have f: "i div 64 = w" "i < 4096" "i \<notin> dom (pendings s)" "\<forall>j \<in> core_ids (pendings s) w. j < i"
      "card (core_ids (pendings s) w) < 63" using progress_append [OF wr pr, of w i "AppendUnlock i"] by (auto simp: Locked)
    have e: "val_epoch (ival s) = e" using says by (simp add: Locked)
    show ?thesis
    proof (cases "row_region_ptr (ival s)")
      case None
      with st Locked obtain v val m where "append_to_unconted_row i (ival s) (imem s) = Inr (v, val, m)"
        "ictl s' = ictl s" "ival s' = val" "imem s' = m" by (auto simp: init_step_def ebind_eq_Inr)
      with row_moves_unconted [OF rp e None f(2,3)] show ?thesis by simp
    next
      case (Some k)
      with st Locked f(1) obtain v ctl m where "append_to_contented_row (i div 64) i k (ictl s) (imem s) = Inr (v, ctl, m)"
        "ictl s' = ctl" "ival s' = ival s" "imem s' = m" by (auto simp: init_step_def ebind_eq_Inr)
      with row_moves_contented [OF rp e Some f(2)] f show ?thesis by simp
    qed
  next
    case (RegionAppend i k)
    have f: "i div 64 = w" "i < 4096" "\<forall>j \<in> core_ids (pendings s) w. j < i" "card (core_ids (pendings s) w) < 63"
      using progress_append [OF wr pr, of w i Ready] by (auto simp: RegionAppend)
    have e: "val_epoch (ival s) = e" "row_region_ptr (ival s) = Some k" using says by (simp_all add: RegionAppend)
    from st RegionAppend f(1) obtain v ctl m where "append_to_contented_row (i div 64) i k (ictl s) (imem s) = Inr (v, ctl, m)"
      "ictl s' = ctl" "ival s' = ival s" "imem s' = m" by (auto simp: init_step_def ebind_eq_Inr)
    with row_moves_contented [OF rp e f(2)] f show ?thesis by simp
  next
    case (Install i)
    have e: "val_epoch (ival s) = e" using says by (simp add: Install)
    from st Install obtain k val ctl m where "install_region (ival s) (ictl s) (imem s) = Inr (k, val, ctl, m)"
      "ictl s' = ctl" "ival s' = val" "imem s' = m" by (auto simp: init_step_def ebind_eq_Inr)
    moreover have "\<forall>c. card (core_ids (pendings s) c) \<le> 63" using core_ids_card_le [OF wr inv] by blast
    ultimately show ?thesis using row_moves_install [OF rp e] by simp
  qed (use st t tr in \<open>auto simp: init_step_def guard_eq_Inr split: list.splits option.splits if_splits\<close>)
qed

lemma init_step_others:
  assumes "init_step e w s = Inr s'"
  shows "u \<noteq> w \<Longrightarrow> ipc s' u = ipc s u" "u \<noteq> w \<Longrightarrow> todo s' u = todo s u" "ipc s w \<noteq> Ready \<Longrightarrow> todo s' w = todo s w"
  using assms
  by (auto simp: init_step_def ebind_eq_Inr guard_eq_Inr split: init_pc.splits list.splits prod.splits option.splits)

text \<open>What a step on one row means for the others.\<close>

lemma row_moves_kept:
  assumes mv: "row_moves ctl val m ctl' val' m'" and ok: "row_ok ctl other m" and m': "mem_ok m'"
    and foot: "row_foot ctl val \<inter> row_foot ctl other = {}"
    and ptr: "row_region_ptr other = None \<or> row_region_ptr val \<noteq> row_region_ptr other"
  shows "row_kept ctl other m ctl' m'" "row_foot ctl' val' \<inter> row_foot ctl' other = {}"
    "row_region_ptr other = None \<or> row_region_ptr val' \<noteq> row_region_ptr other"
proof -
  have less: "v < brk m" if "v \<in> row_foot ctl other" for v using row_foot_less [OF ok that] .
  have j: "j < used ctl" if "row_region_ptr other = Some j" for j using row_okD(7) [OF ok that] by simp
  show p: "row_region_ptr other = None \<or> row_region_ptr val' \<noteq> row_region_ptr other"
    using mv ptr j by (fastforce simp: row_moves_def)
  have "vers m' v = vers m v" if "v \<in> row_foot ctl other" for v using mv less that foot by (auto simp: row_moves_def)
  moreover have "used ctl \<le> used ctl'" using mv by (auto simp: row_moves_def)
  moreover have "regions ctl' j = regions ctl j" if "row_region_ptr other = Some j" for j
    using mv p that by (auto simp: row_moves_def)
  ultimately show kept: "row_kept ctl other m ctl' m'" using m' by (simp add: row_kept_def)
  have "v \<notin> row_foot ctl other" if "v \<in> row_foot ctl' val'" for v
    using mv that foot less by (fastforce simp: row_moves_def)
  then show "row_foot ctl' val' \<inter> row_foot ctl' other = {}" using row_kept_views(4) [OF kept] by blast
qed

section \<open>The execution phase\<close>

text \<open>
  A row as the execution phase of epoch \<open>e\<close> finds it. If no transaction writes it in the epoch, a
  read returns the record of the master version, and the row's final version keeps its record \<open>f\<close>.
\<close>

type_synonym db_row = "nat \<times> serval_value \<times> row_region_controller \<times> nat"

definition db_row_read :: "db_row \<Rightarrow> nat \<Rightarrow> mem \<Rightarrow> nat option res" where
  "db_row_read row n m = (case row of (e, val, ctl, f) \<Rightarrow> serval_read_row (serval_executor e n) val ctl m)"

definition db_row_pending :: "db_row \<Rightarrow> nat \<Rightarrow> nat option" where
  "db_row_pending row = (case row of (e, val, ctl, f) \<Rightarrow> if val_epoch val = e then row_entries ctl val else Map.empty)"

definition db_row_base :: "db_row \<Rightarrow> nat" where
  "db_row_base row = (case row of (e, val, ctl, f) \<Rightarrow> master val)"

definition db_row_wf :: "db_row \<Rightarrow> mem \<Rightarrow> bool" where
  "db_row_wf row m = (case row of (e, val, ctl, f) \<Rightarrow>
     if val_epoch val = e then row_cur ctl val m
     else row_ok ctl val m \<and> (\<forall>v \<in> row_versions ctl val. stable m v) \<and> stab m (row_final ctl val) f)"

definition db_row_foot :: "db_row \<Rightarrow> nat set" where
  "db_row_foot row = (case row of (e, val, ctl, f) \<Rightarrow> row_foot ctl val)"

lemmas db_row_defs = db_row_read_def db_row_pending_def db_row_base_def db_row_wf_def db_row_foot_def

lemma db_row_ok: "db_row_wf (e, val, ctl, f) m \<Longrightarrow> row_ok ctl val m"
  by (auto simp: db_row_wf_def row_cur_def split: if_splits)

text \<open>A row that the epoch writes is one of the interface \<open>serval_exec\<close>.\<close>

lemma db_row_current:
  assumes "val_epoch val = e"
  shows "db_row_wf (e, val, ctl, f) m = serval_row_wf (e, val, ctl) m" "db_row_pending (e, val, ctl, f) = serval_row_pending (e, val, ctl)"
    "db_row_read (e, val, ctl, f) = serval_row_read (e, val, ctl)" "db_row_base (e, val, ctl, f) = serval_row_base (e, val, ctl)"
  using assms by (simp_all add: db_row_defs serval_row_defs fun_eq_iff)

lemma unwritten_read:
  assumes "row_ok ctl val m" and "val_epoch val \<noteq> e"
  shows "serval_read_row (serval_executor e n) val ctl m = Inr (read_of m (master val))"
  using master_read [OF assms(1)] assms(2) by (simp add: serval_read_row_def serval_executor_def)

interpretation serval_rows: db_execution db_row_read db_row_pending db_row_base db_row_wf "\<lambda>n. n < 4096" db_row_foot
proof (unfold_locales, goal_cases)
  case (1 row m n)
  obtain e val ctl f where row: "row = (e, val, ctl, f)" by (metis prod_cases4)
  show ?case
  proof (cases "val_epoch val = e")
    case True
    then show ?thesis using serval_exec.read_law [of "(e, val, ctl)" m n] 1 unfolding row db_row_current [OF True] by blast
  next
    case False
    have none: "visible_entry (\<lambda>_. None) n = (None :: (nat \<times> nat) option)" by (simp add: visible_entry_None)
    show ?thesis using unwritten_read [OF db_row_ok [OF 1(1) [unfolded row]] False] False
      by (simp add: row db_row_read_def db_row_pending_def db_row_base_def none)
  qed
next
  case (2 row m)
  then show ?case by (cases row) (blast dest: db_row_ok row_okD(1))
next
  case (3 row m i v m' x r)
  obtain e val ctl f where row: "row = (e, val, ctl, f)" by (metis prod_cases4)
  then have e: "val_epoch val = e" using 3(2) by (auto simp: db_row_pending_def split: if_splits)
  show ?case using serval_exec.wf_fill [of "(e, val, ctl)" m i v m' x r] 3 unfolding row db_row_current [OF e] by blast
next
  case (4 row m i v j)
  obtain e val ctl f where row: "row = (e, val, ctl, f)" by (metis prod_cases4)
  then have e: "val_epoch val = e" using 4(2) by (auto simp: db_row_pending_def split: if_splits)
  show ?case using serval_exec.pending_inject [of "(e, val, ctl)" m i v j] 4 unfolding row db_row_current [OF e] by blast
next
  case (5 row m i v)
  obtain e val ctl f where row: "row = (e, val, ctl, f)" by (metis prod_cases4)
  then have e: "val_epoch val = e" using 5(2) by (auto simp: db_row_pending_def split: if_splits)
  show ?case using serval_exec.pending_not [of "(e, val, ctl)" m i v] 5 unfolding row db_row_current [OF e] by blast
next
  case (6 row m)
  obtain e val ctl f where row: "row = (e, val, ctl, f)" by (metis prod_cases4)
  show ?case
  proof (cases "val_epoch val = e")
    case True
    show ?thesis using serval_exec.pending_finite [of "(e, val, ctl)" m] 6 unfolding row db_row_current [OF True] by blast
  qed (simp add: row db_row_pending_def)
next
  case (7 row m m')
  obtain e val ctl f where row: "row = (e, val, ctl, f)" by (metis prod_cases4)
  have kept: "row_kept ctl val m ctl m'" using 7(2,3) by (simp add: row_kept_def row db_row_foot_def)
  show ?case
  proof (cases "val_epoch val = e")
    case True
    then show ?thesis using row_kept_cur [OF _ kept] 7(1) by (simp add: row db_row_wf_def)
  next
    case False
    then have r: "row_ok ctl val m" "\<forall>v \<in> row_versions ctl val. stable m v" "stab m (row_final ctl val) f"
      using 7(1) by (simp_all add: row db_row_wf_def)
    have "stable m' v" if "v \<in> row_versions ctl val" for v
      using r(2) row_kept_stable(1) [OF kept] that by (simp add: row_foot_def)
    then show ?thesis using False row_kept_ok [OF r(1) kept] row_kept_stable(3) [OF kept row_final_foot [OF r(1)]] r(3)
      by (simp add: row db_row_wf_def)
  qed
next
  case (8 row m)
  then show ?case by (cases row) (simp add: db_row_base_def db_row_foot_def row_foot_def)
next
  case (9 row m i v)
  obtain e val ctl f where row: "row = (e, val, ctl, f)" by (metis prod_cases4)
  then show ?case using 9 row_entries_versions
    by (auto simp: db_row_pending_def db_row_wf_def db_row_foot_def row_foot_def split: if_splits)
next
  case (10 n)
  then show ?case .
qed

end
