(* ===== verification/Db_Programs.thy ===== *)
theory Db_Programs
  imports Db_Execution Experiment
begin

text \<open>
  The appends that the workers make to the rows of a database in the initialization phase of an
  epoch, and a small workload that the witnesses share.
\<close>

section \<open>The initialization phase\<close>

text \<open>The appends of a worker in its order, each with its key and the serial id of its transaction.\<close>

definition init_program :: "(nat \<Rightarrow> nat \<Rightarrow> nat) \<Rightarrow> operation_set list \<Rightarrow> nat \<Rightarrow> nat \<Rightarrow> (nat \<times> nat) list" where
  "init_program assign txs head w =
     (if w < NUM_CORE
      then concat (map (\<lambda>n. map (\<lambda>j. (index (rw_set (txs ! (head + n)) ! j), n)) (w_set (txs ! (head + n))))
             (map (assign w) [0..<NUM_TXS_IN_ONE_EPOCH_IN_ONE_CORE]))
      else [])"

section \<open>The programs of the workers, by row\<close>

text \<open>Of each row, the workers' programs make the writes of \<open>row_writes\<close>.\<close>

lemma concat_tagged_filter:
  assumes "\<And>n. n \<in> set ns \<Longrightarrow> map snd (filter (\<lambda>x. fst x = k) (g n)) = (if h n then [n] else [])"
  shows "map snd (filter (\<lambda>x. fst x = k) (concat (map g ns))) = filter h ns"
  using assms by (induction ns) auto

lemma has_write_iff:
  assumes "op_set_ok tx"
  shows "has_write tx k \<longleftrightarrow> (\<exists>op \<in> set (rw_set tx). ope op = Update \<and> index op = k)"
  using assms by (force simp: has_write_def op_set_ok_def positions_of_updates_def list_ex_iff in_set_conv_nth)

lemma tagged_writes:
  assumes ok: "op_set_ok tx"
  shows "map snd (filter (\<lambda>x. fst x = k) (map (\<lambda>j. (index (rw_set tx ! j), n)) (w_set tx))) = (if has_write tx k then [n] else [])"
proof -
  let ?js = "filter (\<lambda>j. index (rw_set tx ! j) = k) (w_set tx)"
  have w: "w_set tx = positions_of_updates (rw_set tx)" "distinct (map index (rw_set tx))" using ok by (simp_all add: op_set_ok_def)
  have same: "i = j" if "i \<in> set ?js" "j \<in> set ?js" for i j
    using that w nth_eq_iff_index_eq [OF w(2), of i j] by (auto simp: positions_of_updates_def)
  have d: "distinct ?js" by (simp add: w(1) positions_of_updates_def)
  have "?js = [] \<or> (\<exists>j. ?js = [j])"
  proof (cases ?js)
    case (Cons j js)
    have "js = []"
    proof (cases js)
      case (Cons i rest)
      then have "i \<in> set ?js" "j \<in> set ?js" using \<open>?js = j # js\<close> by simp_all
      then have "i = j" by (rule same)
      then show ?thesis using d \<open>?js = j # js\<close> Cons by simp
    qed
    with Cons show ?thesis by simp
  qed simp
  moreover have "?js = [] \<longleftrightarrow> \<not> has_write tx k" by (auto simp: has_write_def list_ex_iff filter_empty_conv)
  moreover have "map snd (filter (\<lambda>x. fst x = k) (map (\<lambda>j. (index (rw_set tx ! j), n)) js))
      = map (\<lambda>_. n) (filter (\<lambda>j. index (rw_set tx ! j) = k) js)" for js by (induction js) auto
  ultimately show ?thesis by auto
qed

lemma assign_less: "w < 64 \<Longrightarrow> i < 64 \<Longrightarrow> sequential_id w i < 4096" "w < 64 \<Longrightarrow> i < 64 \<Longrightarrow> round_robin_id w i < 4096"
  by (simp_all add: sequential_id_def round_robin_id_def)

lemma init_program_row:
  assumes ids: "\<And>w i. w < 64 \<Longrightarrow> i < 64 \<Longrightarrow> assign w i < 4096"
    and ops: "\<And>n. n < 4096 \<Longrightarrow> op_set_ok (txs ! (head + n))"
  shows "map snd (filter (\<lambda>x. fst x = k) (init_program assign txs head w)) = row_writes assign txs head k w"
proof (cases "w < 64")
  case True
  have "op_set_ok (txs ! (head + n))" if "n \<in> set (map (assign w) [0..<64])" for n
    using that True ids by (intro ops) auto
  then show ?thesis
    unfolding init_program_def row_writes_def NUM_CORE_def txs_per_core if_P [OF True]
    by (rule concat_tagged_filter [OF tagged_writes])
qed (simp add: init_program_def row_writes_def NUM_CORE_def)

lemma init_program_keys:
  assumes ids: "\<And>w i. w < 64 \<Longrightarrow> i < 64 \<Longrightarrow> assign w i < 4096"
    and ops: "\<And>n. n < 4096 \<Longrightarrow> op_set_ok (txs ! (head + n)) \<and> index ` set (rw_set (txs ! (head + n))) \<subseteq> D"
    and key: "k \<in> fst ` set (init_program assign txs head w)"
  shows "k \<in> D" "row_writers txs head k \<noteq> {}"
proof -
  from key obtain i j where i: "i < 64" "w < 64" "j \<in> set (w_set (txs ! (head + assign w i)))"
    "k = index (rw_set (txs ! (head + assign w i)) ! j)"
    by (auto simp: init_program_def NUM_CORE_def split: if_splits)
  define n where "n = assign w i"
  have n: "n < 4096" "j \<in> set (w_set (txs ! (head + n)))" "k = index (rw_set (txs ! (head + n)) ! j)"
    using i ids by (simp_all add: n_def)
  then have "has_write (txs ! (head + n)) k" by (auto simp: has_write_def list_ex_iff)
  then show "row_writers txs head k \<noteq> {}" using n(1) by (auto simp: row_writers_def)
  have "j < length (rw_set (txs ! (head + n)))" using ops [OF n(1)] n(2) by (auto simp: op_set_ok_def positions_of_updates_def)
  then show "k \<in> D" using ops [OF n(1)] n(3) by (auto simp: subset_iff)
qed

text \<open>\<open>row k\<close> is the object the index finds for key \<open>k\<close>.\<close>

definition rows_index :: "index_find \<Rightarrow> (nat \<Rightarrow> nat) \<Rightarrow> nat set \<Rightarrow> nat set \<Rightarrow> bool" where
  "rows_index idx row D S \<longleftrightarrow> (\<forall>k \<in> D. idx record_table k = Some (row k)) \<and> inj_on row D \<and> S \<subseteq> D"

section \<open>A sample for the witnesses\<close>

text \<open>In every epoch transaction 0 writes both rows of a table of two, and transaction 70 reads them.\<close>

definition sample_tx :: "nat \<Rightarrow> operation_set" where
  "sample_tx n =
     (if n = 0 then \<lparr>rw_set = [new_operation Update 0, new_operation Update 1], w_set = [0, 1]\<rparr>
      else if n = 70 then \<lparr>rw_set = [new_operation Read 0, new_operation Read 1], w_set = []\<rparr>
      else \<lparr>rw_set = [], w_set = []\<rparr>)"

definition sample_batches :: "operation_set list" where
  "sample_batches = map (\<lambda>n. sample_tx (n mod NUM_TXS_IN_ONE_EPOCH)) [0..<NUM_TXS_IN_ONE_EPOCH * NUM_EPOCH]"

definition sample_find :: index_find where
  "sample_find table_id key = (if table_id = record_table \<and> key < 2 then Some key else None)"

lemma sample_batch_nth:
  assumes "1 \<le> e" "e \<le> NUM_EPOCH" "n < 4096"
  shows "sample_batches ! (head_in_the_epoch e + n) = sample_tx n"
proof -
  have "(e - 1) * 4096 + n < 4096 * 1000" using assms by (simp add: NUM_EPOCH_def)
  then show ?thesis using assms(3) by (simp add: sample_batches_def head_in_the_epoch_def NUM_TXS_IN_ONE_EPOCH_def NUM_EPOCH_def)
qed

lemma sample_tx_writes: "has_write (sample_tx n) k \<longleftrightarrow> n = 0 \<and> k < 2" and sample_tx_reads: "has_read (sample_tx n) k \<longleftrightarrow> n = 70 \<and> k < 2"
  by (auto simp: sample_tx_def has_write_def has_read_def new_operation_def)

lemma sample_tx_ok: "op_set_ok (sample_tx n)" "index ` set (rw_set (sample_tx n)) \<subseteq> {..<2}"
  by (simp_all add: sample_tx_def op_set_ok_def positions_of_updates_def new_operation_def)

lemma sample_writers:
  assumes "1 \<le> e" "e \<le> NUM_EPOCH"
  shows "writers_at sample_batches k e = (if k < 2 then {0} else {})" "readers_at sample_batches k e = (if k < 2 then {70} else {})"
  using sample_batch_nth [OF assms] sample_batch_nth [OF assms, of 0]
  by (auto simp: row_writers_def row_readers_def sample_tx_writes sample_tx_reads)

lemma sample_rows_index: "rows_index sample_find (\<lambda>k. k) {..<2} {..<2}"
  by (simp add: rows_index_def sample_find_def)

end
