(* ===== verification/Serval_Database.thy ===== *)
theory Serval_Database
  imports Serval_Frame Db_Programs
begin

text \<open>
  An epoch of Serval over a whole database: the initialization phase, in which the 64 workers
  append the pending versions of their transactions to all rows, interleaved at their accesses,
  and the execution phase of Db_Execution. The rows share the store and the row regions.
\<close>

section \<open>The initialization phase\<close>

text \<open>
  \<open>dpc\<close> is where a worker is in \<open>do_append_pending_version\<close>, \<open>dkey\<close> the key it is working on,
  \<open>dtodo\<close> what it has still to start; \<open>dpend\<close> holds the pointers stored in the operations, by
  key and serial id.
\<close>

record db_init =
  dvals :: "nat \<Rightarrow> serval_value"
  dctl :: row_region_controller
  dstore :: mem
  dpc :: "nat \<Rightarrow> init_pc"
  dkey :: "nat \<Rightarrow> nat"
  dtodo :: "nat \<Rightarrow> (nat \<times> nat) list"
  dpend :: "nat \<Rightarrow> nat \<Rightarrow> nat option"

definition db_init_start :: "(nat \<Rightarrow> (nat \<times> nat) list) \<Rightarrow> serval_db \<Rightarrow> db_init" where
  "db_init_start prog db =
     \<lparr>dvals = svalues db, dctl = sctl db, dstore = smem db, dpc = (\<lambda>_. Ready), dkey = (\<lambda>_. 0), dtodo = prog,
      dpend = (\<lambda>_. Map.empty)\<rparr>"

text \<open>What the phase looks like from the row at \<open>p\<close>, of key \<open>k\<close>.\<close>

definition init_view :: "nat \<Rightarrow> nat \<Rightarrow> db_init \<Rightarrow> init_conf" where
  "init_view p k s =
     \<lparr>ival = dvals s p, ictl = dctl s, imem = dstore s, ipc = (\<lambda>w. if dkey s w = k then dpc s w else Ready),
      todo = (\<lambda>w. map snd (filter (\<lambda>x. fst x = k) (dtodo s w))), pendings = dpend s k\<rparr>"

text \<open>
  \<open>append_pending_version\<close> refuses a key that is in the write set of the transaction, that is,
  one it has appended a version to; then it looks up the row and works on it access by access.
\<close>

definition db_init_step :: "index_find \<Rightarrow> nat \<Rightarrow> nat \<Rightarrow> db_init \<Rightarrow> db_init res" where
  "db_init_step idx epoch w s =
     (if dpc s w = Ready then
        (case dtodo s w of [] \<Rightarrow> Inr s
         | (k, n) # rest \<Rightarrow>
             if dpend s k n \<noteq> None then Inl (RuntimeError ''error'')
             else (case idx record_table k of None \<Rightarrow> Inl not_found
              | Some _ \<Rightarrow> Inr (s\<lparr>dkey := (dkey s)(w := k), dtodo := (dtodo s)(w := rest), dpc := (dpc s)(w := GuardLoop n)\<rparr>)))
      else
        (case idx record_table (dkey s w) of None \<Rightarrow> Inl not_found
         | Some p \<Rightarrow> ebind (init_step epoch w (init_view p (dkey s w) s)) (\<lambda>c.
             Inr (s\<lparr>dvals := (dvals s)(p := ival c), dctl := ictl c, dstore := imem c, dpc := (dpc s)(w := ipc c w),
                    dpend := (dpend s)(dkey s w := pendings c)\<rparr>))))"

text \<open>A schedule is a list of workers.\<close>

fun db_init_run :: "index_find \<Rightarrow> nat \<Rightarrow> nat list \<Rightarrow> db_init \<Rightarrow> db_init res" where
  "db_init_run idx epoch [] s = Inr s"
| "db_init_run idx epoch (w # sched) s = ebind (db_init_step idx epoch w s) (db_init_run idx epoch sched)"

definition db_init_done :: "db_init \<Rightarrow> bool" where
  "db_init_done s \<longleftrightarrow> (\<forall>w < NUM_CORE. dpc s w = Ready \<and> dtodo s w = [])"

section \<open>Databases at rest\<close>

definition row_rested :: "nat \<Rightarrow> row_region_controller \<Rightarrow> serval_value \<Rightarrow> mem \<Rightarrow> bool" where
  "row_rested e ctl val m \<longleftrightarrow> row_ok ctl val m \<and> (\<forall>v \<in> row_versions ctl val. stable m v) \<and> rwl val = 0 \<and> val_epoch val < e"

definition rows_disjoint :: "nat set \<Rightarrow> (nat \<Rightarrow> nat) \<Rightarrow> row_region_controller \<Rightarrow> (nat \<Rightarrow> serval_value) \<Rightarrow> bool" where
  "rows_disjoint D row ctl vals \<longleftrightarrow> (\<forall>k \<in> D. \<forall>l \<in> D. k \<noteq> l \<longrightarrow>
     row_foot ctl (vals (row k)) \<inter> row_foot ctl (vals (row l)) = {}
     \<and> (row_region_ptr (vals (row k)) = None \<or> row_region_ptr (vals (row k)) \<noteq> row_region_ptr (vals (row l))))"

text \<open>There are regions left for all the rows of \<open>S\<close> that have none.\<close>

definition region_room :: "nat set \<Rightarrow> (nat \<Rightarrow> nat) \<Rightarrow> row_region_controller \<Rightarrow> (nat \<Rightarrow> serval_value) \<Rightarrow> bool" where
  "region_room S row ctl vals \<longleftrightarrow> finite S \<and> used ctl + card {k \<in> S. row_region_ptr (vals (row k)) = None} \<le> NUM_REGIONS"

text \<open>
  The database before epoch \<open>e\<close>: \<open>row k\<close> is the \<open>Value\<close> object of key \<open>k\<close>, \<open>m0\<close> and \<open>f0\<close> are the
  records of the master versions and of the versions that ended the last epochs.
\<close>

definition serval_db_ready ::
  "nat \<Rightarrow> (nat \<Rightarrow> nat) \<Rightarrow> nat set \<Rightarrow> nat set \<Rightarrow> (nat \<Rightarrow> nat) \<Rightarrow> (nat \<Rightarrow> nat) \<Rightarrow> serval_db \<Rightarrow> bool" where
  "serval_db_ready e row D S m0 f0 db \<longleftrightarrow> rrc_ok (sctl db) \<and> rows_disjoint D row (sctl db) (svalues db)
     \<and> region_room S row (sctl db) (svalues db)
     \<and> (\<forall>k \<in> D. row_rested e (sctl db) (svalues db (row k)) (smem db)
          \<and> stab (smem db) (master (svalues db (row k))) (m0 k)
          \<and> stab (smem db) (row_final (sctl db) (svalues db (row k))) (f0 k))"

lemma rows_disjointD:
  assumes "rows_disjoint D row ctl vals" and "k \<in> D" and "l \<in> D" and "k \<noteq> l"
  shows "row_foot ctl (vals (row k)) \<inter> row_foot ctl (vals (row l)) = {}"
    "row_region_ptr (vals (row k)) = None \<or> row_region_ptr (vals (row k)) \<noteq> row_region_ptr (vals (row l))"
    "row_region_ptr (vals (row l)) = None \<or> row_region_ptr (vals (row k)) \<noteq> row_region_ptr (vals (row l))"
  using assms unfolding rows_disjoint_def by (blast, blast, metis)

lemma row_rested_kept: "row_rested e ctl val m \<Longrightarrow> row_kept ctl val m ctl' m' \<Longrightarrow> row_rested e ctl' val m'"
  using row_kept_ok row_kept_stable(1) row_kept_views(1) unfolding row_rested_def row_foot_def by (metis insertCI)

section \<open>The invariant\<close>

text \<open>A row some transaction of the epoch writes, and one that none writes.\<close>

definition written_row :: "nat \<Rightarrow> nat \<Rightarrow> nat \<Rightarrow> (nat \<Rightarrow> nat list) \<Rightarrow> init_conf \<Rightarrow> bool" where
  "written_row e M r W c \<longleftrightarrow> init_inv e M W c \<and> stab (imem c) M r"

definition unwritten_row :: "nat \<Rightarrow> nat \<Rightarrow> nat \<Rightarrow> init_conf \<Rightarrow> bool" where
  "unwritten_row e r f c \<longleftrightarrow> row_rested e (ictl c) (ival c) (imem c) \<and> stab (imem c) (master (ival c)) r
     \<and> stab (imem c) (row_final (ictl c) (ival c)) f \<and> pendings c = Map.empty"

definition db_init_inv ::
  "nat \<Rightarrow> (nat \<Rightarrow> nat) \<Rightarrow> nat set \<Rightarrow> nat set \<Rightarrow> nat set \<Rightarrow> (nat \<Rightarrow> nat \<Rightarrow> nat list) \<Rightarrow> (nat \<Rightarrow> nat) \<Rightarrow> (nat \<Rightarrow> nat) \<Rightarrow> (nat \<Rightarrow> nat)
   \<Rightarrow> db_init \<Rightarrow> bool" where
  "db_init_inv e row D S H W M m0 f0 s \<longleftrightarrow> rrc_ok (dctl s) \<and> rows_disjoint D row (dctl s) (dvals s)
     \<and> region_room S row (dctl s) (dvals s)
     \<and> (\<forall>k \<in> H. written_row e (M k) (f0 k) (W k) (init_view (row k) k s))
     \<and> (\<forall>k \<in> D - H. unwritten_row e (m0 k) (f0 k) (init_view (row k) k s))
     \<and> (\<forall>w. fst ` set (dtodo s w) \<subseteq> H \<and> (dpc s w \<noteq> Ready \<longrightarrow> dkey s w \<in> H))"

lemma db_init_invD:
  assumes "db_init_inv e row D S H W M m0 f0 s"
  shows "rrc_ok (dctl s)" "rows_disjoint D row (dctl s) (dvals s)" "region_room S row (dctl s) (dvals s)"
    "k \<in> H \<Longrightarrow> written_row e (M k) (f0 k) (W k) (init_view (row k) k s)"
    "k \<in> D \<Longrightarrow> k \<notin> H \<Longrightarrow> unwritten_row e (m0 k) (f0 k) (init_view (row k) k s)"
    "fst ` set (dtodo s w) \<subseteq> H" "dpc s w \<noteq> Ready \<Longrightarrow> dkey s w \<in> H"
  using assms unfolding db_init_inv_def by blast+

lemma init_view_simps [simp]:
  "ival (init_view p k s) = dvals s p" "ictl (init_view p k s) = dctl s" "imem (init_view p k s) = dstore s"
  "ipc (init_view p k s) w = (if dkey s w = k then dpc s w else Ready)"
  "todo (init_view p k s) w = map snd (filter (\<lambda>x. fst x = k) (dtodo s w))" "pendings (init_view p k s) = dpend s k"
  by (simp_all add: init_view_def)

lemma row_part_base: "row_part e M val ctl m p \<Longrightarrow> M \<in> row_foot ctl val"
  using row_final_foot by (auto simp: row_part_def row_foot_def split: if_splits)

text \<open>Rows that a step leaves alone.\<close>

lemma written_row_kept:
  assumes wr: "written_row e M r W c" and kept: "row_kept (ictl c) (ival c) (imem c) ctl m" and rrc: "rrc_ok ctl"
    and room: "row_region_ptr (ival c) = None \<Longrightarrow> used ctl < NUM_REGIONS"
  shows "written_row e M r W (c\<lparr>ictl := ctl, imem := m\<rparr>)"
proof -
  have inv: "init_inv e M W c" and st: "stab (imem c) M r" using wr by (simp_all add: written_row_def)
  note rp = init_invD(3) [OF inv]
  have "stab m M r" using st row_kept_stable(3) [OF kept row_part_base [OF rp]] by simp
  then show ?thesis
    using init_invD [OF inv] row_kept_part [OF rp kept rrc room] by (simp add: written_row_def init_inv_def)
qed

lemma unwritten_row_kept:
  assumes "unwritten_row e r f c" and kept: "row_kept (ictl c) (ival c) (imem c) ctl m"
  shows "unwritten_row e r f (c\<lparr>ictl := ctl, imem := m\<rparr>)"
proof -
  have u: "row_rested e (ictl c) (ival c) (imem c)" "stab (imem c) (master (ival c)) r"
    "stab (imem c) (row_final (ictl c) (ival c)) f" "pendings c = Map.empty" using assms(1) by (simp_all add: unwritten_row_def)
  have "row_final (ictl c) (ival c) \<in> row_foot (ictl c) (ival c)" using row_final_foot u(1) by (auto simp: row_rested_def)
  moreover have "master (ival c) \<in> row_foot (ictl c) (ival c)" by (simp add: row_foot_def)
  ultimately show ?thesis
    using u row_rested_kept [OF u(1) kept] row_kept_stable(3) [OF kept] row_kept_views(3) [OF kept]
    by (simp add: unwritten_row_def)
qed

section \<open>Every step succeeds and keeps the invariant\<close>

text \<open>The state after worker \<open>w\<close> made an access to the row at \<open>p\<close>, of key \<open>k\<close>.\<close>

definition init_put :: "nat \<Rightarrow> nat \<Rightarrow> nat \<Rightarrow> init_conf \<Rightarrow> db_init \<Rightarrow> db_init" where
  "init_put w p k c s = s\<lparr>dvals := (dvals s)(p := ival c), dctl := ictl c, dstore := imem c, dpc := (dpc s)(w := ipc c w),
     dpend := (dpend s)(k := pendings c)\<rparr>"

lemma init_view_put:
  assumes k: "dkey s w = k" and st: "init_step e w (init_view p k s) = Inr c" and pc: "dpc s w \<noteq> Ready"
  shows "init_view p k (init_put w p k c s) = c"
proof -
  note o = init_step_others [OF st]
  have "(if dkey s u = k then ((dpc s)(w := ipc c w)) u else Ready) = ipc c u" for u
    using o(1) [of u] k by (cases "u = w") auto
  moreover have "map snd (filter (\<lambda>x. fst x = k) (dtodo s u)) = todo c u" for u
    using o(2) [of u] o(3) k pc by (cases "u = w") auto
  ultimately have "ipc (init_view p k (init_put w p k c s)) = ipc c" "todo (init_view p k (init_put w p k c s)) = todo c"
    by (simp_all add: init_put_def init_view_def cong: if_cong)
  then show ?thesis by (intro init_conf.equality) (simp_all add: init_put_def)
qed

lemma init_view_put_other:
  assumes "dkey s w = k" and "l \<noteq> k" and "q \<noteq> p"
  shows "init_view q l (init_put w p k c s) = (init_view q l s)\<lparr>ictl := ictl c, imem := imem c\<rparr>"
  using assms by (auto simp: init_view_def init_put_def fun_eq_iff)

lemma region_room_put:
  assumes room: "region_room S row ctl vals" and kS: "k \<in> S" and SD: "S \<subseteq> D" and inj: "inj_on row D"
    and mv: "row_moves ctl (vals (row k)) m ctl' val' m'"
  shows "region_room S row ctl' (vals(row k := val'))"
proof -
  let ?N = "{l \<in> S. row_region_ptr (vals (row l)) = None}" let ?N' = "{l \<in> S. row_region_ptr ((vals(row k := val')) (row l)) = None}"
  have fin: "finite S" "used ctl + card ?N \<le> NUM_REGIONS" using room by (simp_all add: region_room_def)
  have at: "row l = row k \<longleftrightarrow> l = k" if "l \<in> S" for l using inj that kS SD by (auto simp: inj_on_def)
  have "used ctl' + card ?N' \<le> used ctl + card ?N"
  proof (cases "row_region_ptr val' = row_region_ptr (vals (row k))")
    case True
    then have "?N' = ?N" using at by auto
    then show ?thesis using mv True by (auto simp: row_moves_def)
  next
    case False
    then have m: "row_region_ptr (vals (row k)) = None" "row_region_ptr val' \<noteq> None" "used ctl' = Suc (used ctl)"
      using mv by (auto simp: row_moves_def)
    then have N: "?N' = ?N - {k}" "k \<in> ?N" using at kS by auto
    have "finite ?N" using fin(1) by simp
    then have "Suc (card ?N') = card ?N" unfolding N(1) by (rule card_Suc_Diff1 [OF _ N(2)])
    then show ?thesis using m(3) by simp
  qed
  then show ?thesis using fin by (simp add: region_room_def)
qed

lemma region_room_less:
  assumes "region_room S row ctl vals" and "k \<in> S" and "row_region_ptr (vals (row k)) = None"
  shows "used ctl < NUM_REGIONS"
proof -
  have "0 < card {k \<in> S. row_region_ptr (vals (row k)) = None}" using assms by (auto simp: region_room_def card_gt_0_iff)
  then show ?thesis using assms(1) by (auto simp: region_room_def)
qed

text \<open>The assumptions on the rows that all the lemmas share.\<close>

definition rows_ok :: "index_find \<Rightarrow> (nat \<Rightarrow> nat) \<Rightarrow> nat set \<Rightarrow> nat set \<Rightarrow> nat set \<Rightarrow> (nat \<Rightarrow> nat \<Rightarrow> nat list) \<Rightarrow> bool" where
  "rows_ok idx row D S H W \<longleftrightarrow> (\<forall>k \<in> D. idx record_table k = Some (row k)) \<and> inj_on row D \<and> H \<subseteq> S \<and> S \<subseteq> D
     \<and> (\<forall>k \<in> H. writes_ok (W k))"

lemma rows_okD:
  assumes "rows_ok idx row D S H W"
  shows "k \<in> D \<Longrightarrow> idx record_table k = Some (row k)" "inj_on row D" "k \<in> H \<Longrightarrow> k \<in> S" "k \<in> H \<Longrightarrow> k \<in> D" "S \<subseteq> D"
    "k \<in> H \<Longrightarrow> writes_ok (W k)" "k \<in> D \<Longrightarrow> l \<in> D \<Longrightarrow> row k = row l \<longleftrightarrow> k = l"
  using assms unfolding rows_ok_def by (auto simp: inj_on_def)

lemma any_row_ok:
  assumes "db_init_inv e row D S H W M m0 f0 s" and "k \<in> D"
  shows "row_ok (dctl s) (dvals s (row k)) (dstore s)"
  using db_init_invD(4,5) [OF assms(1), of k] assms(2) row_part_ok init_invD(3)
  by (cases "k \<in> H") (fastforce simp: written_row_def unwritten_row_def row_rested_def)+

lemma db_inv_put:
  assumes rows: "rows_ok idx row D S H W" and inv: "db_init_inv e row D S H W M m0 f0 s" and pc: "dpc s w \<noteq> Ready" and k: "dkey s w = k"
    and st: "init_step e w (init_view (row k) k s) = Inr c" and ic: "init_inv e (M k) (W k) c"
  shows "db_init_inv e row D S H W M m0 f0 (init_put w (row k) k c s)"
proof -
  let ?s = "init_put w (row k) k c s"
  note r = rows_okD [OF rows] and d = db_init_invD [OF inv]
  have kH: "k \<in> H" "k \<in> D" "k \<in> S" using d(7) [OF pc] k r(3,4) by simp_all
  have wk: "written_row e (M k) (f0 k) (W k) (init_view (row k) k s)" by (rule d(4) [OF kH(1)])
  then have ivk: "init_inv e (M k) (W k) (init_view (row k) k s)" by (simp add: written_row_def)
  have mv: "row_moves (dctl s) (dvals s (row k)) (dstore s) (ictl c) (ival c) (imem c)"
    using init_step_moves [OF r(6) [OF kH(1)] ivk st] by simp
  note rp = init_invD(3) [OF ic]
  have mok: "mem_ok (imem c)" and rrc: "rrc_ok (ictl c)" using row_okD(1) [OF row_part_ok [OF rp]] rp by (auto simp: row_part_def)
  have room: "region_room S row (ictl c) ((dvals s)(row k := ival c))" by (rule region_room_put [OF d(3) kH(3) r(5,2) mv])
  have val: "((dvals s)(row k := ival c)) (row l) = (if l = k then ival c else dvals s (row l))" if "l \<in> D" for l
    using r(7) [OF that kH(2)] by auto
  have kept: "row_kept (dctl s) (dvals s (row l)) (dstore s) (ictl c) (imem c)"
    "row_foot (ictl c) (ival c) \<inter> row_foot (ictl c) (dvals s (row l)) = {}"
    "row_region_ptr (dvals s (row l)) = None \<or> row_region_ptr (ival c) \<noteq> row_region_ptr (dvals s (row l))"
    if "l \<in> D" "l \<noteq> k" for l
    using row_moves_kept [OF mv any_row_ok [OF inv that(1)] mok] rows_disjointD(1,3) [OF d(2) kH(2) that(1)] that(2) by blast+
  have view: "init_view (row l) l ?s = (init_view (row l) l s)\<lparr>ictl := ictl c, imem := imem c\<rparr>" if "l \<in> D" "l \<noteq> k" for l
    using init_view_put_other [OF k] that r(7) [OF that(1) kH(2)] by blast
  have "written_row e (M l) (f0 l) (W l) (init_view (row l) l ?s)" if l: "l \<in> H" for l
  proof (cases "l = k")
    case True
    have "mem_evolves (dstore s) (imem c)" using init_step_evolves [OF st] by simp
    moreover have "vers (imem c) (M k) \<noteq> None"
      using row_part_base [OF rp] row_okD(2,5) [OF row_part_ok [OF rp]] by (auto simp: row_foot_def stable_def live_def)
    ultimately have "stab (imem c) (M k) (f0 k)" using mem_evolves_stab [OF row_okD(1) [OF any_row_ok [OF inv kH(2)]]] wk by (simp add: written_row_def)
    then show ?thesis using ic init_view_put [OF k st pc] True by (simp add: written_row_def)
  next
    case False
    have "used (ictl c) < NUM_REGIONS" if "row_region_ptr (dvals s (row l)) = None"
      using region_room_less [OF room r(3) [OF l]] that val r(4) [OF l] False by simp
    then show ?thesis unfolding view [OF r(4) [OF l] False]
      using written_row_kept [OF d(4) [OF l], of "ictl c" "imem c"] kept(1) [OF r(4) [OF l] False] rrc by simp
  qed
  moreover have "unwritten_row e (m0 l) (f0 l) (init_view (row l) l ?s)" if l: "l \<in> D" "l \<notin> H" for l
  proof -
    have "l \<noteq> k" using l kH(1) by blast
    then show ?thesis unfolding view [OF l(1) \<open>l \<noteq> k\<close>]
      using unwritten_row_kept [OF d(5) [OF l], of "ictl c" "imem c"] kept(1) [OF l(1)] by simp
  qed
  moreover have "rows_disjoint D row (dctl ?s) (dvals ?s)"
    unfolding rows_disjoint_def
  proof (intro ballI impI)
    fix a b assume ab: "a \<in> D" "b \<in> D" "a \<noteq> b"
    let ?ok = "\<lambda>u v. row_foot (ictl c) u \<inter> row_foot (ictl c) v = {} \<and> (row_region_ptr u = None \<or> row_region_ptr u \<noteq> row_region_ptr v)"
    consider "a = k" | "b = k" | "a \<noteq> k" "b \<noteq> k" by blast
    then have "?ok (if a = k then ival c else dvals s (row a)) (if b = k then ival c else dvals s (row b))"
    proof cases
      case 1
      then show ?thesis using kept(2,3) [OF ab(2)] ab(3) by auto
    next
      case 2
      then show ?thesis using kept(2,3) [OF ab(1)] ab(3) by auto
    next
      case 3
      then show ?thesis using rows_disjointD(1,2) [OF d(2) ab] row_kept_views(4) [OF kept(1)] ab by simp
    qed
    then show "row_foot (dctl ?s) (dvals ?s (row a)) \<inter> row_foot (dctl ?s) (dvals ?s (row b)) = {}
        \<and> (row_region_ptr (dvals ?s (row a)) = None \<or> row_region_ptr (dvals ?s (row a)) \<noteq> row_region_ptr (dvals ?s (row b)))"
      using val ab by (simp add: init_put_def)
  qed
  moreover have "fst ` set (dtodo ?s u) \<subseteq> H \<and> (dpc ?s u \<noteq> Ready \<longrightarrow> dkey ?s u \<in> H)" for u
    using d(6,7) kH(1) k by (simp add: init_put_def)
  moreover have "rrc_ok (dctl ?s)" "region_room S row (dctl ?s) (dvals ?s)"
    using rrc room by (simp_all add: init_put_def)
  ultimately show ?thesis by (simp add: db_init_inv_def)
qed

text \<open>A worker takes its next operation.\<close>

lemma db_inv_take:
  assumes rows: "rows_ok idx row D S H W" and inv: "db_init_inv e row D S H W M m0 f0 s" and pc: "dpc s w = Ready"
    and td: "dtodo s w = (k, n) # rest"
  defines "s' \<equiv> s\<lparr>dkey := (dkey s)(w := k), dtodo := (dtodo s)(w := rest), dpc := (dpc s)(w := GuardLoop n)\<rparr>"
  shows "k \<in> H" "dpend s k n = None" "db_init_inv e row D S H W M m0 f0 s'"
proof -
  note r = rows_okD [OF rows] and d = db_init_invD [OF inv]
  show kH: "k \<in> H" using d(6) [of w] td by simp
  have wk: "init_inv e (M k) (W k) (init_view (row k) k s)" "stab (dstore s) (M k) (f0 k)"
    using d(4) [OF kH] by (simp_all add: written_row_def)
  have todo: "todo (init_view (row k) k s) w = n # map snd (filter (\<lambda>x. fst x = k) rest)" by (simp add: td)
  show "dpend s k n = None"
  proof -
    obtain xs where xs: "W k w = xs @ n # map snd (filter (\<lambda>x. fst x = k) rest)" "core_ids (dpend s k) w = set xs"
      using init_invD(2) [OF wk(1)] pc todo unfolding progress_part_def by (metis append.simps(1) current.simps(1) init_view_simps(4,6))
    have "sorted_wrt (<) (W k w)" "\<forall>i \<in> set (W k w). i div 64 = w" using r(6) [OF kH] by (simp_all add: writes_ok_def)
    then have "n \<notin> set xs" "n div 64 = w" unfolding xs(1) by (auto simp: sorted_wrt_append)
    then have "n \<notin> dom (dpend s k)" using xs(2) by (auto simp: core_ids_def)
    then show ?thesis by blast
  qed
  have "init_step e w (init_view (row k) k s) = Inr (init_view (row k) k s')"
    using pc todo by (auto simp: init_step_def init_view_def s'_def fun_eq_iff)
  then have vk: "init_inv e (M k) (W k) (init_view (row k) k s')" using init_step_ok [OF r(6) [OF kH] wk(1), of w] by simp
  have other: "init_view p l s' = init_view p l s" if "l \<noteq> k" for p l
    using that pc td by (auto simp: init_view_def s'_def fun_eq_iff)
  have "written_row e (M l) (f0 l) (W l) (init_view (row l) l s')" if "l \<in> H" for l
    using d(4) [OF that] vk wk(2) other by (cases "l = k") (simp_all add: written_row_def, simp add: s'_def)
  moreover have "unwritten_row e (m0 l) (f0 l) (init_view (row l) l s')" if "l \<in> D" "l \<notin> H" for l
    using d(5) [OF that] other kH that by (cases "l = k") simp_all
  moreover have "fst ` set (dtodo s' u) \<subseteq> H \<and> (dpc s' u \<noteq> Ready \<longrightarrow> dkey s' u \<in> H)" for u
    using d(6) [of u] d(7) [of u] td kH by (cases "u = w") (simp_all add: s'_def)
  ultimately show "db_init_inv e row D S H W M m0 f0 s'" using d(1-3) by (simp add: db_init_inv_def) (simp add: s'_def)
qed

lemma view_inv:
  assumes "db_init_inv e row D S H W M m0 f0 s" and "k \<in> H"
  shows "init_inv e (M k) (W k) (init_view (row k) k s)"
  using db_init_invD(4) [OF assms] by (simp add: written_row_def)

definition db_work :: "db_init \<Rightarrow> nat \<Rightarrow> nat" where
  "db_work s w = pc_rank (dpc s w) + 13 * length (dtodo s w)"

text \<open>
  Every access of every worker succeeds, and one by a worker that meets no taken lock brings that
  worker nearer to the end.
\<close>

lemma db_init_step_ok:
  assumes rows: "rows_ok idx row D S H W" and inv: "db_init_inv e row D S H W M m0 f0 s"
  shows "\<exists>s'. db_init_step idx e w s = Inr s' \<and> db_init_inv e row D S H W M m0 f0 s'
    \<and> (\<forall>u. u \<noteq> w \<longrightarrow> db_work s' u = db_work s u)
    \<and> (db_work s w \<noteq> 0 \<longrightarrow> (dpc s w = Ready \<or> holding (dpc s w) \<or> rwl (dvals s (row (dkey s w))) = 0) \<longrightarrow> db_work s' w < db_work s w)"
proof (cases "dpc s w = Ready")
  case True
  show ?thesis
  proof (cases "dtodo s w")
    case Nil
    then have "db_init_step idx e w s = Inr s" "db_work s w = 0" using True by (simp_all add: db_init_step_def db_work_def)
    then show ?thesis using inv by simp
  next
    case (Cons q rest)
    obtain k n where td: "dtodo s w = (k, n) # rest" using Cons by (cases q) simp
    note t = db_inv_take [OF rows inv True td]
    have "idx record_table k = Some (row k)" using rows_okD(1,4) [OF rows] t(1) by blast
    then have "db_init_step idx e w s =
        Inr (s\<lparr>dkey := (dkey s)(w := k), dtodo := (dtodo s)(w := rest), dpc := (dpc s)(w := GuardLoop n)\<rparr>)"
      using True td t(2) by (simp add: db_init_step_def)
    then show ?thesis using t(3) True td by (auto simp: db_work_def)
  qed
next
  case pc: False
  define k where "k = dkey s w"
  have kH: "k \<in> H" using db_init_invD(7) [OF inv pc] by (simp add: k_def)
  have i: "idx record_table k = Some (row k)" and wr: "writes_ok (W k)" using rows_okD(1,4,6) [OF rows] kH by blast+
  let ?v = "init_view (row k) k s"
  have iv: "init_inv e (M k) (W k) ?v" by (rule view_inv [OF inv kH])
  obtain c where c: "init_step e w ?v = Inr c" "init_inv e (M k) (W k) c" using init_step_ok [OF wr iv, of w] by blast
  let ?s = "init_put w (row k) k c s"
  have st: "db_init_step idx e w s = Inr ?s" using pc i c(1) by (simp add: db_init_step_def init_put_def flip: k_def)
  have own: "db_work ?s u = db_work s u" if "u \<noteq> w" for u using that by (simp add: db_work_def init_put_def)
  have "db_work ?s w < db_work s w" if "holding (dpc s w) \<or> rwl (dvals s (row k)) = 0"
  proof -
    have "work_left ?v w \<noteq> 0" using pc by (cases "dpc s w") (auto simp: work_left_def k_def)
    from step_decreases [OF c(1) this] that have "work_left c w < work_left ?v w" by (simp add: k_def)
    moreover have "todo c w = todo ?v w" using init_step_others(3) [OF c(1)] pc by (simp add: k_def)
    ultimately show ?thesis by (simp add: work_left_def db_work_def init_put_def k_def)
  qed
  then show ?thesis using st own db_inv_put [OF rows inv pc k_def [symmetric] c] pc by (auto simp: k_def)
qed

lemma db_init_run_ok:
  assumes rows: "rows_ok idx row D S H W" and "db_init_inv e row D S H W M m0 f0 s"
  shows "\<exists>s'. db_init_run idx e sched s = Inr s' \<and> db_init_inv e row D S H W M m0 f0 s'"
  using assms(2)
proof (induction sched arbitrary: s)
  case (Cons w sched)
  from db_init_step_ok [OF rows Cons.prems, of w] Cons.IH show ?case by fastforce
qed simp

section \<open>Progress\<close>

text \<open>Workers that take part are among the 64.\<close>

lemma db_work_outside:
  assumes rows: "rows_ok idx row D S H W" and inv: "db_init_inv e row D S H W M m0 f0 s" and "db_work s w \<noteq> 0"
  shows "w < NUM_CORE"
proof -
  have "\<exists>k \<in> H. W k w \<noteq> []"
  proof (cases "dpc s w = Ready")
    case True
    then obtain k n rest where td: "dtodo s w = (k, n) # rest" using assms(3) by (cases "dtodo s w") (auto simp: db_work_def)
    then have kH: "k \<in> H" using db_init_invD(6) [OF inv, of w] by simp
    have "progress_part (W k) (pendings (init_view (row k) k s)) (ipc (init_view (row k) k s)) (todo (init_view (row k) k s))"
      by (rule init_invD(2) [OF view_inv [OF inv kH]])
    then obtain xs where "W k w = xs @ current (ipc (init_view (row k) k s) w) @ todo (init_view (row k) k s) w"
      unfolding progress_part_def by blast
    then have "W k w \<noteq> []" by (simp add: td)
    then show ?thesis using kH by blast
  next
    case False
    then have kH: "dkey s w \<in> H" by (rule db_init_invD(7) [OF inv])
    have "progress_part (W (dkey s w)) (pendings (init_view (row (dkey s w)) (dkey s w) s)) (ipc (init_view (row (dkey s w)) (dkey s w) s))
        (todo (init_view (row (dkey s w)) (dkey s w) s))"
      by (rule init_invD(2) [OF view_inv [OF inv kH]])
    then have "W (dkey s w) w \<noteq> []" using False unfolding progress_part_def by fastforce
    with kH show ?thesis by blast
  qed
  then show ?thesis using rows_okD(6) [OF rows] unfolding writes_ok_def NUM_CORE_def by (meson not_less)
qed

lemma lock_part_free: "lock_part c pcs \<Longrightarrow> c = 0 \<or> (\<exists>w. holding (pcs w))"
  by (auto simp: lock_part_def split: if_splits)

lemma some_db_worker_advances:
  assumes rows: "rows_ok idx row D S H W" and inv: "db_init_inv e row D S H W M m0 f0 s" and left: "\<not> db_init_done s"
  obtains w s' where "w < NUM_CORE" "db_init_step idx e w s = Inr s'" "db_init_inv e row D S H W M m0 f0 s'"
    "db_work s' w < db_work s w" "\<forall>u. u \<noteq> w \<longrightarrow> db_work s' u = db_work s u"
proof -
  have rank: "pc_rank pc = 0 \<longleftrightarrow> pc = Ready" for pc by (cases pc) simp_all
  obtain u where "dpc s u \<noteq> Ready \<or> dtodo s u \<noteq> []" using left by (auto simp: db_init_done_def)
  then have u: "db_work s u \<noteq> 0" by (auto simp: db_work_def rank)
  have "\<exists>w. db_work s w \<noteq> 0 \<and> (dpc s w = Ready \<or> holding (dpc s w) \<or> rwl (dvals s (row (dkey s w))) = 0)"
  proof (cases "dpc s u = Ready")
    case False
    let ?k = "dkey s u" let ?v = "init_view (row ?k) ?k s"
    have kH: "?k \<in> H" by (rule db_init_invD(7) [OF inv False])
    have "lock_part (rwl (ival ?v)) (ipc ?v)"
      by (rule init_invD(1) [OF view_inv [OF inv kH]])
    from lock_part_free [OF this] have "rwl (dvals s (row ?k)) = 0 \<or> (\<exists>w. holding (ipc ?v w))" by (simp only: init_view_simps(1))
    then show ?thesis
    proof
      assume "\<exists>w. holding (ipc ?v w)"
      then obtain w where w: "holding (dpc s w)" by (auto split: if_splits)
      then have "db_work s w \<noteq> 0" by (cases "dpc s w") (auto simp: db_work_def)
      with w show ?thesis by blast
    qed (use u in blast)
  qed (use u in blast)
  then obtain w where w: "db_work s w \<noteq> 0" "dpc s w = Ready \<or> holding (dpc s w) \<or> rwl (dvals s (row (dkey s w))) = 0" by blast
  from db_init_step_ok [OF rows inv, of w] w that db_work_outside [OF rows inv w(1)] show ?thesis by blast
qed

lemma db_init_can_finish:
  assumes rows: "rows_ok idx row D S H W" and "db_init_inv e row D S H W M m0 f0 s"
  shows "\<exists>sched s'. db_init_run idx e sched s = Inr s' \<and> db_init_inv e row D S H W M m0 f0 s' \<and> db_init_done s'"
  using assms(2)
proof (induction "\<Sum>w < NUM_CORE. db_work s w" arbitrary: s rule: less_induct)
  case less
  show ?case
  proof (cases "db_init_done s")
    case True
    then show ?thesis using less.prems by (intro exI [of _ "[]"] exI [of _ s]) simp
  next
    case False
    from some_db_worker_advances [OF rows less.prems False] obtain w s1 where
      s1: "w < NUM_CORE" "db_init_step idx e w s = Inr s1" "db_init_inv e row D S H W M m0 f0 s1" "db_work s1 w < db_work s w"
      "\<forall>u. u \<noteq> w \<longrightarrow> db_work s1 u = db_work s u" by blast
    have "(\<Sum>u < NUM_CORE. db_work s1 u) < (\<Sum>u < NUM_CORE. db_work s u)"
      using s1 by (intro sum_strict_mono_ex1) (auto, metis le_refl less_imp_le)
    from less.hyps [OF this s1(3)] obtain sched s' where
      "db_init_run idx e sched s1 = Inr s'" "db_init_inv e row D S H W M m0 f0 s'" "db_init_done s'" by blast
    then show ?thesis using s1(2) by (intro exI [of _ "w # sched"] exI [of _ s']) simp
  qed
qed

section \<open>The epoch\<close>

text \<open>
  \<open>do_initialization_phase\<close> of all workers, the barrier, and \<open>do_execution_phase\<close>: the new
  database, the records read and the records written, by key and serial id; \<open>None\<close> if the
  schedules do not bring all workers to the end of their phase.
\<close>

definition serval_db_epoch ::
  "index_find \<Rightarrow> nat \<Rightarrow> operation_set list \<Rightarrow> nat list \<times> nat list \<Rightarrow> nat \<Rightarrow> serval_db
   \<Rightarrow> (serval_db \<times> (nat \<Rightarrow> nat \<Rightarrow> nat option) \<times> (nat \<Rightarrow> nat \<Rightarrow> nat)) option res" where
  "serval_db_epoch idx sz txs sched e db =
     ebind (db_init_run idx e (fst sched) (db_init_start (init_program sequential_id txs (head_in_the_epoch e)) db)) (\<lambda>s.
       if db_init_done s then
         ebind (db_exec_run
             (\<lambda>k n m. serval_read idx record_table k (serval_executor e n) \<lparr>svalues = dvals s, sctl = dctl s, smem = m\<rparr>)
             (dpend s) sz (worker_program txs (head_in_the_epoch e)) (snd sched) (db_exec_start (dstore s))) (\<lambda>x.
           Inr (if db_exec_done (worker_program txs (head_in_the_epoch e)) x
             then Some (\<lparr>svalues = dvals s, sctl = dctl s, smem = dmem x\<rparr>, dout x, \<lambda>k. xrec (exec_view k x)) else None))
       else Inr None)"

text \<open>
  The transactions of epoch \<open>e\<close>: operation sets as the constructors make them, on the keys \<open>D\<close>;
  the rows they write are among \<open>S\<close>, and no worker writes a row in all of its 64 transactions.
\<close>

definition serval_batch :: "operation_set list \<Rightarrow> nat \<Rightarrow> nat set \<Rightarrow> nat set \<Rightarrow> bool" where
  "serval_batch txs e D S \<longleftrightarrow> head_in_the_epoch e + 4096 \<le> length txs \<and>
     (\<forall>n < 4096. op_set_ok (txs ! (head_in_the_epoch e + n)) \<and> index ` set (rw_set (txs ! (head_in_the_epoch e + n))) \<subseteq> D)
     \<and> (\<forall>k \<in> D. writers_at txs k e \<noteq> {} \<longrightarrow> k \<in> S)
     \<and> (\<forall>k \<in> D. \<forall>w < 64. \<exists>i < 64. \<not> has_write (txs ! (head_in_the_epoch e + sequential_id w i)) k)"

text \<open>The record a read must find if no writer of its epoch precedes it.\<close>

definition base_record :: "operation_set list \<Rightarrow> nat \<Rightarrow> (nat \<Rightarrow> nat) \<Rightarrow> (nat \<Rightarrow> nat) \<Rightarrow> nat \<Rightarrow> nat" where
  "base_record txs e m0 f0 k = (if writers_at txs k e = {} then m0 k else f0 k)"

abbreviation written_keys :: "operation_set list \<Rightarrow> nat \<Rightarrow> nat set \<Rightarrow> nat set" where
  "written_keys txs e D \<equiv> {k \<in> D. writers_at txs k e \<noteq> {}}"

abbreviation key_writes :: "operation_set list \<Rightarrow> nat \<Rightarrow> nat \<Rightarrow> nat \<Rightarrow> nat list" where
  "key_writes txs e k \<equiv> row_writes sequential_id txs (head_in_the_epoch e) k"

lemma serval_batchD:
  assumes "serval_batch txs e D S"
  shows "n < 4096 \<Longrightarrow> op_set_ok (txs ! (head_in_the_epoch e + n))"
    "n < 4096 \<Longrightarrow> index ` set (rw_set (txs ! (head_in_the_epoch e + n))) \<subseteq> D"
    "k \<in> D \<Longrightarrow> writers_at txs k e \<noteq> {} \<Longrightarrow> k \<in> S"
    "k \<in> D \<Longrightarrow> writes_ok (key_writes txs e k)" "k \<in> D \<Longrightarrow> epoch_writers (key_writes txs e k) = writers_at txs k e"
proof -
  show "n < 4096 \<Longrightarrow> op_set_ok (txs ! (head_in_the_epoch e + n))"
    "n < 4096 \<Longrightarrow> index ` set (rw_set (txs ! (head_in_the_epoch e + n))) \<subseteq> D"
    "k \<in> D \<Longrightarrow> writers_at txs k e \<noteq> {} \<Longrightarrow> k \<in> S" using assms by (simp_all add: serval_batch_def)
  assume "k \<in> D"
  then have "\<forall>w < 64. \<exists>i < 64. \<not> has_write (txs ! (head_in_the_epoch e + sequential_id w i)) k"
    using assms by (simp add: serval_batch_def)
  then show "writes_ok (key_writes txs e k)" "epoch_writers (key_writes txs e k) = writers_at txs k e"
    by (rule row_writes_sequential)+
qed

lemma batch_rows_ok:
  assumes "serval_batch txs e D S" and "rows_index idx row D S"
  shows "rows_ok idx row D S (written_keys txs e D) (key_writes txs e)"
  using assms serval_batchD(3,4) [OF assms(1)] unfolding rows_ok_def rows_index_def by auto

lemma serval_db_readyD:
  assumes "serval_db_ready e row D S m0 f0 db"
  shows "rrc_ok (sctl db)" "rows_disjoint D row (sctl db) (svalues db)" "region_room S row (sctl db) (svalues db)"
    "k \<in> D \<Longrightarrow> row_rested e (sctl db) (svalues db (row k)) (smem db)"
    "k \<in> D \<Longrightarrow> stab (smem db) (master (svalues db (row k))) (m0 k)"
    "k \<in> D \<Longrightarrow> stab (smem db) (row_final (sctl db) (svalues db (row k))) (f0 k)"
  using assms unfolding serval_db_ready_def by blast+

lemma db_init_inv_start:
  assumes batch: "serval_batch txs e D S" and ready: "serval_db_ready e row D S m0 f0 db"
  shows "db_init_inv e row D S (written_keys txs e D) (key_writes txs e) (\<lambda>k. row_final (sctl db) (svalues db (row k))) m0 f0
    (db_init_start (init_program sequential_id txs (head_in_the_epoch e)) db)"
proof -
  let ?s = "db_init_start (init_program sequential_id txs (head_in_the_epoch e)) db" let ?H = "written_keys txs e D"
  note b = serval_batchD [OF batch] and r = serval_db_readyD [OF ready]
  have view: "init_view (row k) k ?s = init_start (svalues db (row k)) (sctl db) (smem db) (key_writes txs e k)" for k
    using init_program_row [where assign = sequential_id, OF assign_less(1) b(1)] by (simp add: init_view_def db_init_start_def init_start_def cong: if_cong)
  have "written_row e (row_final (sctl db) (svalues db (row k))) (f0 k) (key_writes txs e k) (init_view (row k) k ?s)" if k: "k \<in> ?H" for k
  proof -
    have kD: "k \<in> D" "k \<in> S" using k b(3) by auto
    then have "row_region_ptr (svalues db (row k)) = None \<longrightarrow> used (sctl db) < NUM_REGIONS"
      using region_room_less [OF r(3)] by blast
    with r(1) r(4) [OF kD(1)] r(6) [OF kD(1)] show ?thesis
      unfolding view written_row_def row_rested_def by (intro conjI init_inv_start) (simp_all add: init_start_def)
  qed
  moreover have "unwritten_row e (m0 k) (f0 k) (init_view (row k) k ?s)" if "k \<in> D - ?H" for k
    using that r(4-6) [of k] unfolding view by (simp add: unwritten_row_def init_start_def)
  moreover have "fst ` set (dtodo ?s w) \<subseteq> ?H \<and> (dpc ?s w \<noteq> Ready \<longrightarrow> dkey ?s w \<in> ?H)" for w
    using init_program_keys [where assign = sequential_id and txs = txs and head = "head_in_the_epoch e" and D = D and w = w, OF assign_less(1)] b(1,2) by (auto simp: db_init_start_def)
  ultimately show ?thesis using r(1-3) by (simp add: db_init_inv_def) (simp add: db_init_start_def)
qed

text \<open>The rows at the barrier.\<close>

abbreviation barrier_row :: "nat \<Rightarrow> (nat \<Rightarrow> nat) \<Rightarrow> (nat \<Rightarrow> nat) \<Rightarrow> db_init \<Rightarrow> nat \<Rightarrow> db_row" where
  "barrier_row e row f0 s k \<equiv> (e, dvals s (row k), dctl s, f0 k)"

lemma barrier_written:
  assumes batch: "serval_batch txs e D S" and inv: "db_init_inv e row D S (written_keys txs e D) (key_writes txs e) M m0 f0 s"
    and dn: "db_init_done s" and k: "k \<in> D" "writers_at txs k e \<noteq> {}"
  shows "db_row_wf (barrier_row e row f0 s k) (dstore s)" "db_row_pending (barrier_row e row f0 s k) = dpend s k"
    "db_row_base (barrier_row e row f0 s k) = M k" "dom (dpend s k) = writers_at txs k e" "pendings_ok (dstore s) (dpend s k)"
    "rwl (dvals s (row k)) = 0" "val_epoch (dvals s (row k)) = e" "stab (dstore s) (M k) (f0 k)"
proof -
  let ?v = "init_view (row k) k s"
  note b = serval_batchD(4,5) [OF batch k(1)]
  have kH: "k \<in> written_keys txs e D" using k by blast
  have "init_done ?v" using dn by (simp add: init_done_def db_init_done_def NUM_CORE_def)
  moreover have "epoch_writers (key_writes txs e k) \<noteq> {}" using b(2) k(2) by simp
  ultimately have bs: "serval_row_wf (e, dvals s (row k), dctl s) (dstore s)" "serval_row_pending (e, dvals s (row k), dctl s) = dpend s k"
    "serval_row_base (e, dvals s (row k), dctl s) = M k" "dom (dpend s k) = epoch_writers (key_writes txs e k)" "rwl (dvals s (row k)) = 0"
    "pendings_ok (dstore s) (dpend s k)"
    using barrier_state [OF b(1) view_inv [OF inv kH]] by simp_all
  have e: "val_epoch (dvals s (row k)) = e" using bs(1) by (simp add: serval_row_defs)
  show "db_row_wf (barrier_row e row f0 s k) (dstore s)" "db_row_pending (barrier_row e row f0 s k) = dpend s k"
    "db_row_base (barrier_row e row f0 s k) = M k" "dom (dpend s k) = writers_at txs k e" "pendings_ok (dstore s) (dpend s k)"
    "rwl (dvals s (row k)) = 0" "val_epoch (dvals s (row k)) = e"
    using bs b(2) e by (simp_all add: db_row_current)
  show "stab (dstore s) (M k) (f0 k)" using db_init_invD(4) [OF inv kH] by (simp add: written_row_def)
qed

lemma barrier_unwritten:
  assumes inv: "db_init_inv e row D S (written_keys txs e D) (key_writes txs e) M m0 f0 s" and k: "k \<in> D" "writers_at txs k e = {}"
  shows "db_row_wf (barrier_row e row f0 s k) (dstore s)" "db_row_pending (barrier_row e row f0 s k) = Map.empty" "dpend s k = Map.empty"
    "db_row_base (barrier_row e row f0 s k) = master (dvals s (row k))" "stab (dstore s) (master (dvals s (row k))) (m0 k)"
    "row_rested e (dctl s) (dvals s (row k)) (dstore s)"
proof -
  have "unwritten_row e (m0 k) (f0 k) (init_view (row k) k s)" using db_init_invD(5) [OF inv k(1)] k(2) by simp
  then show "db_row_wf (barrier_row e row f0 s k) (dstore s)" "db_row_pending (barrier_row e row f0 s k) = Map.empty" "dpend s k = Map.empty"
    "db_row_base (barrier_row e row f0 s k) = master (dvals s (row k))" "stab (dstore s) (master (dvals s (row k))) (m0 k)"
    "row_rested e (dctl s) (dvals s (row k)) (dstore s)"
    by (simp_all add: unwritten_row_def row_rested_def db_row_defs)
qed

lemma barrier_rows:
  assumes batch: "serval_batch txs e D S" and inv: "db_init_inv e row D S (written_keys txs e D) (key_writes txs e) M m0 f0 s"
    and dn: "db_init_done s"
  defines "br \<equiv> barrier_row e row f0 s"
  shows "k \<in> D \<Longrightarrow> db_row_pending (br k) = dpend s k" "k \<in> D \<Longrightarrow> dom (dpend s k) = writers_at txs k e"
    "serval_rows.rows_apart D br"
    "program_ok D (\<lambda>k. db_row_pending (br k)) (worker_program txs (head_in_the_epoch e))"
    "db_exec_inv db_row_pending db_row_base db_row_wf D br (base_record txs e m0 f0) (worker_program txs (head_in_the_epoch e))
       (db_exec_start (dstore s))"
proof -
  note b = serval_batchD [OF batch]
  note w = barrier_written [OF batch inv dn] and u = barrier_unwritten [OF inv]
  show p: "db_row_pending (br k) = dpend s k" if "k \<in> D" for k
    unfolding br_def using w(2) [OF that] u(2,3) [OF that] by (cases "writers_at txs k e = {}") simp_all
  show d: "dom (dpend s k) = writers_at txs k e" if "k \<in> D" for k
    using w(4) [OF that] u(3) [OF that] by (cases "writers_at txs k e = {}") simp_all
  show "serval_rows.rows_apart D br" 
    unfolding br_def db_row_foot_def prod.case using rows_disjointD(1) [OF db_init_invD(2) [OF inv]] by blast
  show "program_ok D (\<lambda>k. db_row_pending (br k)) (worker_program txs (head_in_the_epoch e))"
  proof (rule worker_program_ok)
    fix n :: nat assume "n < 4096"
    then show "distinct (map index (rw_set (txs ! (head_in_the_epoch e + n)))) \<and> index ` set (rw_set (txs ! (head_in_the_epoch e + n))) \<subseteq> D"
      using b(1,2) by (simp add: op_set_ok_def)
  next
    fix k i assume k: "k \<in> D" "db_row_pending (br k) i \<noteq> None"
    then have "i \<in> dom (dpend s k)" using p [OF k(1)] by auto
    then have "i \<in> writers_at txs k e" using d [OF k(1)] by simp
    then have i: "i < 4096" "has_write (txs ! (head_in_the_epoch e + i)) k" by (simp_all add: row_writers_def)
    then show "i < 4096 \<and> (\<exists>op \<in> set (rw_set (txs ! (head_in_the_epoch e + i))). ope op = Update \<and> index op = k)"
      using has_write_iff [OF b(1) [OF i(1)]] by simp
  qed
  have "row_exec_inv (db_row_pending (br k)) {..<4096} (db_row_base (br k)) (base_record txs e m0 f0 k) (row_exec_start (dstore s))
      \<and> db_row_wf (br k) (dstore s)" if k: "k \<in> D" for k
  proof (cases "writers_at txs k e = {}")
    case True
    have "pendings_ok (dstore s) Map.empty" by (simp add: pendings_ok_def)
    then show ?thesis using u [OF k True] True exec_start_inv by (simp add: br_def base_record_def)
  next
    case False
    then show ?thesis using w [OF k False] exec_start_inv by (simp add: br_def base_record_def)
  qed
  moreover have "exec_view k (db_exec_start (dstore s)) = row_exec_start (dstore s)" for k
    by (simp add: exec_view_def db_exec_start_def row_exec_start_def)
  moreover have "executed (\<lambda>k. db_row_pending (br k)) (worker_program txs (head_in_the_epoch e)) (db_exec_start (dstore s))"
    by (simp add: executed_def db_exec_start_def)
  ultimately show "db_exec_inv db_row_pending db_row_base db_row_wf D br (base_record txs e m0 f0) (worker_program txs (head_in_the_epoch e))
       (db_exec_start (dstore s))" by (simp add: db_exec_inv_def) (simp add: db_exec_start_def)
qed

text \<open>At the end of the epoch the database is ready for the next one.\<close>

lemma db_after_epoch:
  assumes batch: "serval_batch txs e D S" and inv: "db_init_inv e row D S (written_keys txs e D) (key_writes txs e) M m0 f0 s"
    and dn: "db_init_done s"
    and x: "db_exec_inv db_row_pending db_row_base db_row_wf D (barrier_row e row f0 s) (base_record txs e m0 f0)
      (worker_program txs (head_in_the_epoch e)) x" and xd: "db_exec_done (worker_program txs (head_in_the_epoch e)) x"
  shows "serval_db_ready (Suc e) row D S (base_record txs e m0 f0)
    (\<lambda>k. next_record (writers_at txs k e) (xrec (exec_view k x)) (f0 k)) \<lparr>svalues = dvals s, sctl = dctl s, smem = dmem x\<rparr>"
proof -
  let ?br = "barrier_row e row f0 s"
  note br = barrier_rows [OF batch inv dn]
  have "row_rested (Suc e) (dctl s) (dvals s (row k)) (dmem x)
      \<and> stab (dmem x) (master (dvals s (row k))) (base_record txs e m0 f0 k)
      \<and> stab (dmem x) (row_final (dctl s) (dvals s (row k))) (next_record (writers_at txs k e) (xrec (exec_view k x)) (f0 k))"
    if k: "k \<in> D" for k
  proof -
    note xi = db_exec_invD(1) [OF x k] and wf = db_exec_invD(2) [where rok = db_row_wf, OF x k]
    have ms: "stab (dmem x) (master (dvals s (row k))) (base_record txs e m0 f0 k)"
      using row_exec_invD(1) [OF xi] by (simp add: db_row_base_def)
    show ?thesis
    proof (cases "writers_at txs k e = {}")
      case True
      have r: "row_rested e (dctl s) (dvals s (row k)) (dstore s)" by (rule barrier_unwritten(6) [OF inv k True])
      then show ?thesis using wf ms True by (simp add: db_row_wf_def row_rested_def next_record_def)
    next
      case False
      note w = barrier_written [OF batch inv dn k False]
      have en: "row_entries (dctl s) (dvals s (row k)) = dpend s k" using w(2,7) by (simp add: db_row_pending_def)
      have fill: "row_exec_inv (row_entries (dctl s) (dvals s (row k))) {..<4096} (db_row_base (?br k)) (base_record txs e m0 f0 k) (exec_view k x)"
        using xi w(2) en by simp
      have filled: "dom (row_entries (dctl s) (dvals s (row k))) \<subseteq> filled (exec_view k x)"
        using serval_rows.db_exec_results(2) [OF br(4) x xd k] en w(2) by simp
      have wf': "serval_row_wf (e, dvals s (row k), dctl s) (dmem x)" using wf db_row_current(1) [OF w(7)] by simp
      have room: "row_region_ptr (dvals s (row k)) = None \<longrightarrow> used (dctl s) < NUM_REGIONS"
        using region_room_less [OF db_init_invD(3) [OF inv] serval_batchD(3) [OF batch k False]] by blast
      have ne: "dom (row_entries (dctl s) (dvals s (row k))) \<noteq> {}" using en w(4) False by simp
      from row_ready_again [OF wf' fill exec_view_simps(1) filled w(6) db_init_invD(1) [OF inv] room ne]
      show ?thesis using ms False w(4) en by (simp add: row_ready_def row_rested_def next_record_def)
    qed
  qed
  then show ?thesis using db_init_invD(1-3) [OF inv] by (simp add: serval_db_ready_def)
qed

text \<open>The phases of an epoch, put together.\<close>

lemma serval_db_exec_eq:
  assumes "serval_batch txs e D S" and "rows_index idx row D S" and "db_init_inv e row D S (written_keys txs e D) (key_writes txs e) M m0 f0 s"
    and "db_init_done s"
  shows "db_exec_run
      (\<lambda>k n m. serval_read idx record_table k (serval_executor e n) \<lparr>svalues = dvals s, sctl = dctl s, smem = m\<rparr>)
      (dpend s) sz (worker_program txs (head_in_the_epoch e)) xs x =
    db_exec_run (\<lambda>k. db_row_read (barrier_row e row f0 s k)) (\<lambda>k. db_row_pending (barrier_row e row f0 s k)) sz
      (worker_program txs (head_in_the_epoch e)) xs x"
proof (rule sym, rule db_exec_run_cong)
  note br = barrier_rows [OF assms(1,3,4)]
  show "program_ok D (\<lambda>k. db_row_pending (barrier_row e row f0 s k)) (worker_program txs (head_in_the_epoch e))" by (rule br(4))
  fix k assume k: "k \<in> D"
  then have "idx record_table k = Some (row k)" using assms(2) by (simp add: rows_index_def)
  then show "db_row_read (barrier_row e row f0 s k) =
      (\<lambda>n m. serval_read idx record_table k (serval_executor e n) \<lparr>svalues = dvals s, sctl = dctl s, smem = m\<rparr>)"
    by (simp add: fun_eq_iff db_row_read_def serval_read_def)
  show "db_row_pending (barrier_row e row f0 s k) = dpend s k" by (rule br(1) [OF k])
qed

lemma serval_db_epoch_run:
  assumes batch: "serval_batch txs e D S" and idx: "rows_index idx row D S" and ready: "serval_db_ready e row D S m0 f0 db"
  shows "\<exists>res. serval_db_epoch idx sz txs sched e db = Inr res \<and> (\<forall>db' got rc. res = Some (db', got, rc) \<longrightarrow>
    (\<forall>k \<in> D. \<forall>n \<in> readers_at txs k e. got k n = Some (must_read (writers_at txs k e) (base_record txs e m0 f0 k) (rc k) n))
    \<and> serval_db_ready (Suc e) row D S (base_record txs e m0 f0) (\<lambda>k. next_record (writers_at txs k e) (rc k) (f0 k)) db')"
proof -
  let ?M = "\<lambda>k. row_final (sctl db) (svalues db (row k))" let ?p = "worker_program txs (head_in_the_epoch e)"
  from db_init_run_ok [OF batch_rows_ok [OF batch idx] db_init_inv_start [OF batch ready], of "fst sched"] obtain s where
    s: "db_init_run idx e (fst sched) (db_init_start (init_program sequential_id txs (head_in_the_epoch e)) db) = Inr s"
    "db_init_inv e row D S (written_keys txs e D) (key_writes txs e) ?M m0 f0 s" by blast
  show ?thesis
  proof (cases "db_init_done s")
    case False
    then show ?thesis using s(1) by (simp add: serval_db_epoch_def)
  next
    case dn: True
    let ?br = "barrier_row e row f0 s"
    note br = barrier_rows [OF batch s(2) dn]
    from serval_rows.db_exec_any_schedule [OF br(4,3,5), of sz "snd sched"] obtain x where
      x: "db_exec_run (\<lambda>k. db_row_read (?br k)) (\<lambda>k. db_row_pending (?br k)) sz ?p (snd sched) (db_exec_start (dstore s)) = Inr x"
      "db_exec_inv db_row_pending db_row_base db_row_wf D ?br (base_record txs e m0 f0) ?p x" by blast
    have "dout x k n = Some (must_read (writers_at txs k e) (base_record txs e m0 f0 k) (xrec (exec_view k x)) n)"
      if xd: "db_exec_done ?p x" and k: "k \<in> D" and n: "n \<in> readers_at txs k e" for k n
    proof -
      obtain op where "op \<in> set (rw_set (txs ! (head_in_the_epoch e + n)))" "ope op = Read" "index op = k" "n < 4096"
        using n by (auto simp: row_readers_def has_read_def list_ex_iff)
      then have "(n, op) \<in> set (?p (n mod 64))" "ope op = Read" "index op = k" by (simp_all add: worker_program_set)
      with serval_rows.db_exec_results(1) [OF br(4) x(2) xd this(1,2)] br(1,2) [OF k] show ?thesis by simp
    qed
    then show ?thesis
      using s(1) dn x(1) db_after_epoch [OF batch s(2) dn x(2)] serval_db_exec_eq [OF batch idx s(2) dn]
      by (auto simp: serval_db_epoch_def)
  qed
qed

lemma db_init_run_append: "db_init_run idx e (xs @ ys) s = ebind (db_init_run idx e xs s) (db_init_run idx e ys)"
  by (induction xs arbitrary: s) (auto simp: ebind_def split: sum.splits)

lemma serval_db_epoch_finish:
  assumes batch: "serval_batch txs e D S" and idx: "rows_index idx row D S" and ready: "serval_db_ready e row D S m0 f0 db"
  shows "\<exists>irest xrest db' h. serval_db_epoch idx sz txs (ws @ irest, xs @ xrest) e db = Inr (Some (db', h))"
proof -
  let ?M = "\<lambda>k. row_final (sctl db) (svalues db (row k))" let ?p = "worker_program txs (head_in_the_epoch e)"
  note rows = batch_rows_ok [OF batch idx]
  from db_init_run_ok [OF rows db_init_inv_start [OF batch ready], of ws] obtain s0 where
    s0: "db_init_run idx e ws (db_init_start (init_program sequential_id txs (head_in_the_epoch e)) db) = Inr s0"
    "db_init_inv e row D S (written_keys txs e D) (key_writes txs e) ?M m0 f0 s0" by blast
  from db_init_can_finish [OF rows s0(2)] obtain irest s where s: "db_init_run idx e irest s0 = Inr s"
    "db_init_inv e row D S (written_keys txs e D) (key_writes txs e) ?M m0 f0 s" "db_init_done s" by blast
  let ?br = "barrier_row e row f0 s" let ?run = "db_exec_run (\<lambda>k. db_row_read (?br k)) (\<lambda>k. db_row_pending (?br k)) sz ?p"
  note br = barrier_rows [OF batch s(2,3)]
  from serval_rows.db_exec_any_schedule [OF br(4,3,5), of sz xs] obtain x0 where
    x0: "?run xs (db_exec_start (dstore s)) = Inr x0"
    "db_exec_inv db_row_pending db_row_base db_row_wf D ?br (base_record txs e m0 f0) ?p x0" by blast
  from serval_rows.db_exec_completes [OF br(4,3) x0(2), of sz] obtain xrest x where x: "?run xrest x0 = Inr x" "db_exec_done ?p x" by blast
  have "db_init_run idx e (ws @ irest) (db_init_start (init_program sequential_id txs (head_in_the_epoch e)) db) = Inr s"
    using s0(1) s(1) by (simp add: db_init_run_append)
  moreover have "?run (xs @ xrest) (db_exec_start (dstore s)) = Inr x" using x0(1) x(1) by (simp add: db_exec_run_append)
  ultimately have "serval_db_epoch idx sz txs (ws @ irest, xs @ xrest) e db =
      Inr (Some (\<lparr>svalues = dvals s, sctl = dctl s, smem = dmem x\<rparr>, dout x, \<lambda>k. xrec (exec_view k x)))"
    using s(3) x(2) serval_db_exec_eq [OF batch idx s(2,3)] by (simp add: serval_db_epoch_def)
  then show ?thesis by blast
qed

section \<open>The experiment\<close>

text \<open>
  What the transactions of the epochs from \<open>e\<close> on read and wrote, key by key, in the serial order.
  A row's first reads in an epoch get what the row had before its writes: the record that ended the
  epoch that last wrote it if the epoch writes it too, and the one before that otherwise.
\<close>

fun db_history ::
  "(nat \<Rightarrow> nat \<Rightarrow> nat set) \<Rightarrow> (nat \<Rightarrow> nat \<Rightarrow> nat set) \<Rightarrow> nat set \<Rightarrow> nat \<Rightarrow> (nat \<Rightarrow> nat) \<Rightarrow> (nat \<Rightarrow> nat)
   \<Rightarrow> ((nat \<Rightarrow> nat \<Rightarrow> nat option) \<times> (nat \<Rightarrow> nat \<Rightarrow> nat)) list \<Rightarrow> bool" where
  "db_history wrs rds D e m f [] = True"
| "db_history wrs rds D e m f ((got, rc) # hs) =
     (let base = (\<lambda>k. if wrs k e = {} then m k else f k) in
      (\<forall>k \<in> D. \<forall>n \<in> rds k e. got k n = Some (must_read (wrs k e) (base k) (rc k) n))
      \<and> db_history wrs rds D (Suc e) base (\<lambda>k. next_record (wrs k e) (rc k) (f k)) hs)"

lemma base_record_eq: "base_record txs e m f = (\<lambda>k. if writers_at txs k e = {} then m k else f k)"
  by (simp add: base_record_def fun_eq_iff)

lemma serval_db_run_serial:
  assumes idx: "rows_index idx row D S"
  shows "(\<And>k. e \<le> k \<Longrightarrow> k < e + n \<Longrightarrow> serval_batch txs k D S) \<Longrightarrow> serval_db_ready e row D S m0 f0 db \<Longrightarrow>
    \<exists>res. run_epochs (\<lambda>k. serval_db_epoch idx sz txs (sched k) k) e n db = Inr res \<and>
      (\<forall>db' hs. res = Some (db', hs) \<longrightarrow> length hs = n \<and> db_history (writers_at txs) (readers_at txs) D e m0 f0 hs)"
proof (induction n arbitrary: e db m0 f0)
  case (Suc n)
  have batch: "serval_batch txs e D S" using Suc.prems(1) by simp
  from serval_db_epoch_run [OF batch idx Suc.prems(2), of sz "sched e"] obtain res where
    res: "serval_db_epoch idx sz txs (sched e) e db = Inr res"
    "\<And>db' got rc. res = Some (db', got, rc) \<Longrightarrow>
      (\<forall>k \<in> D. \<forall>n \<in> readers_at txs k e. got k n = Some (must_read (writers_at txs k e) (base_record txs e m0 f0 k) (rc k) n))
      \<and> serval_db_ready (Suc e) row D S (base_record txs e m0 f0) (\<lambda>k. next_record (writers_at txs k e) (rc k) (f0 k)) db'"
    by blast
  show ?case
  proof (cases res)
    case None
    then show ?thesis using res(1) by simp
  next
    case (Some t)
    obtain db1 got rc where t: "t = (db1, got, rc)" by (metis prod_cases3)
    note r = res(2) [OF Some [unfolded t]]
    have later: "serval_batch txs k D S" if "Suc e \<le> k" "k < Suc e + n" for k using Suc.prems(1) that by simp
    from Suc.IH [OF later conjunct2 [OF r]] obtain res1 where
      r1: "run_epochs (\<lambda>k. serval_db_epoch idx sz txs (sched k) k) (Suc e) n db1 = Inr res1"
      "\<And>db' hs. res1 = Some (db', hs) \<Longrightarrow> length hs = n \<and> db_history (writers_at txs) (readers_at txs) D (Suc e)
         (base_record txs e m0 f0) (\<lambda>k. next_record (writers_at txs k e) (rc k) (f0 k)) hs" by blast
    show ?thesis using res(1) Some t r1 conjunct1 [OF r] unfolding base_record_eq by (cases res1) (auto simp: Let_def)
  qed
qed simp

section \<open>Loading\<close>

lemma serval_insert_frame:
  assumes "serval_insert_into_index r r2 m = Inr (val, m')"
  shows "row_foot ctl val = {brk m, Suc (brk m)}" "v < brk m \<Longrightarrow> vers m' v = vers m v" "row_region_ptr val = None"
  using assms by (auto simp: serval_insert_into_index_def new_version_def ebind_eq_Inr gva_append_def guard_eq_Inr upper_bound_def
      vector_insert_def row_foot_def row_versions_def split: if_splits)

definition empty_db :: serval_db where
  "empty_db = \<lparr>svalues = (\<lambda>_. \<lparr>rwl = 0, val_epoch = 0, master = nullptr, global_array = \<lparr>ids_slots = []\<rparr>, row_region_ptr = None\<rparr>),
     sctl = rrc_init, smem = mem_init\<rparr>"

definition loaded :: "nat \<Rightarrow> serval_db \<Rightarrow> bool" where
  "loaded n db \<longleftrightarrow> mem_ok (smem db) \<and> sctl db = rrc_init \<and> rows_disjoint {..<n} (\<lambda>k. k) (sctl db) (svalues db)
     \<and> (\<forall>k < n. row_rested 1 (sctl db) (svalues db k) (smem db) \<and> row_region_ptr (svalues db k) = None)"

lemma loadedD:
  assumes "loaded n db"
  shows "mem_ok (smem db)" "sctl db = rrc_init" "rows_disjoint {..<n} (\<lambda>k. k) rrc_init (svalues db)"
    "k < n \<Longrightarrow> row_rested 1 rrc_init (svalues db k) (smem db)" "k < n \<Longrightarrow> row_region_ptr (svalues db k) = None"
  using assms unfolding loaded_def by (blast, blast, metis, metis, blast)

lemma load_ok: "\<exists>db. serval_load_all_tables sz n empty_db = Inr db \<and> loaded n db"
proof (induction n)
  case 0
  then show ?case by (simp add: loaded_def rows_disjoint_def empty_db_def)
next
  case (Suc n)
  then obtain db where db: "serval_load_all_tables sz n empty_db = Inr db" "loaded n db" by blast
  let ?ctl = "rrc_init"
  note l = loadedD [OF db(2)]
  obtain r m1 where r: "new_record sz (smem db) = (r, m1)" by fastforce
  obtain r2 m2 where r2: "new_record sz m1 = (r2, m2)" by fastforce
  note a = new_record_ok [OF l(1) r]
  note b = new_record_ok [OF a(1) r2]
  obtain val m3 where v: "serval_insert_into_index r r2 m2 = Inr (val, m3)" "row_ok ?ctl val m3"
    "\<forall>v \<in> row_versions ?ctl val. stable m3 v" "rwl val = 0" "val_epoch val = 0"
    by (rule serval_insert_ok [OF l(1) r r2, of ?ctl]) blast
  note f = serval_insert_frame [OF v(1)]
  have kept: "row_kept ?ctl (svalues db k) (smem db) ?ctl m3" and less: "\<forall>u \<in> row_foot ?ctl (svalues db k). u < brk m2" if k: "k < n" for k
  proof -
    have ok: "row_ok ?ctl (svalues db k) (smem db)" using l(4) [OF k] by (simp add: row_rested_def)
    show less: "\<forall>u \<in> row_foot ?ctl (svalues db k). u < brk m2" using row_foot_less [OF ok] a(6) b(6) by fastforce
    then show "row_kept ?ctl (svalues db k) (smem db) ?ctl m3"
      using row_okD(1) [OF v(2)] f(2) a(4) b(4) by (simp add: row_kept_def)
  qed
  let ?db = "(put_val n val db)\<lparr>smem := m3\<rparr>"
  have "row_rested 1 ?ctl (svalues ?db k) m3 \<and> row_region_ptr (svalues ?db k) = None" if "k < Suc n" for k
    using that row_rested_kept [OF l(4) kept] l(5) v(2-5) f(3)
    by (cases "k = n") (simp_all add: put_val_def row_rested_def less_Suc_eq)
  moreover have "rows_disjoint {..<Suc n} (\<lambda>k. k) ?ctl (svalues ?db)"
    unfolding rows_disjoint_def
  proof (intro ballI impI conjI)
    fix k j assume kj: "k \<in> {..<Suc n}" "j \<in> {..<Suc n}" "k \<noteq> j"
    then show "row_foot ?ctl (svalues ?db k) \<inter> row_foot ?ctl (svalues ?db j) = {}"
      using rows_disjointD(1) [OF l(3), of k j] less [of k] less [of j] f(1) [of ?ctl]
      by (cases "k = n"; cases "j = n") (auto simp: put_val_def less_Suc_eq)
    show "row_region_ptr (svalues ?db k) = None \<or> row_region_ptr (svalues ?db k) \<noteq> row_region_ptr (svalues ?db j)"
      using kj l(5) f(3) by (auto simp: put_val_def less_Suc_eq)
  qed
  ultimately have "loaded (Suc n) ?db" using row_okD(1) [OF v(2)] l(2) by (simp add: loaded_def put_val_def)
  then show ?case using db(1) r r2 v(1) by simp
qed

lemma load_ready:
  assumes "S \<subseteq> {..<n}" and "card S \<le> NUM_REGIONS"
  shows "\<exists>db m0 f0. serval_load_all_tables sz n empty_db = Inr db \<and> serval_db_ready 1 (\<lambda>k. k) {..<n} S m0 f0 db"
proof -
  obtain db where db: "serval_load_all_tables sz n empty_db = Inr db" "loaded n db" using load_ok by blast
  let ?rec = "\<lambda>v. ver_rec (the (vers (smem db) v))"
  have rec: "stab (smem db) v (?rec v)" if "stable (smem db) v" for v using that by (auto simp: stable_def stab_def)
  note l = loadedD(2-4) [OF db(2)]
  have st: "stable (smem db) v" if "k < n" "v \<in> row_foot rrc_init (svalues db k)" for k v
    using l(3) [OF that(1)] that(2) row_okD(2) by (auto simp: row_rested_def row_foot_def)
  have "stab (smem db) (master (svalues db k)) (?rec (master (svalues db k)))
      \<and> stab (smem db) (row_final rrc_init (svalues db k)) (?rec (row_final rrc_init (svalues db k)))" if k: "k < n" for k
    using rec st [OF k] row_final_foot l(3) [OF k] by (auto simp: row_rested_def row_foot_def)
  moreover have "card {k \<in> S. row_region_ptr (svalues db k) = None} \<le> card S"
    using assms(1) finite_subset by (intro card_mono) auto
  then have "region_room S (\<lambda>k. k) rrc_init (svalues db)"
    using assms finite_subset [OF assms(1)] l(1) by (simp add: region_room_def rrc_init_def)
  moreover have "rrc_ok rrc_init" by (simp add: rrc_ok_def rrc_init_def)
  ultimately have "serval_db_ready 1 (\<lambda>k. k) {..<n} S (\<lambda>k. ?rec (master (svalues db k)))
      (\<lambda>k. ?rec (row_final rrc_init (svalues db k))) db" using l by (simp add: serval_db_ready_def)
  with db(1) show ?thesis by blast
qed

lemma serval_db_run_completes:
  assumes idx: "rows_index idx row D S"
  shows "(\<And>k. e \<le> k \<Longrightarrow> k < e + n \<Longrightarrow> serval_batch txs k D S) \<Longrightarrow> serval_db_ready e row D S m0 f0 db \<Longrightarrow>
    \<exists>sched db' hs. run_epochs (\<lambda>k. serval_db_epoch idx sz txs (sched k) k) e n db = Inr (Some (db', hs))"
proof (induction n arbitrary: e db m0 f0)
  case (Suc n)
  have batch: "serval_batch txs e D S" using Suc.prems(1) by simp
  from serval_db_epoch_finish [OF batch idx Suc.prems(2), of sz "[]" "[]"] obtain ws xs db1 h where
    s0: "serval_db_epoch idx sz txs (ws, xs) e db = Inr (Some (db1, h))" by auto
  from serval_db_epoch_run [OF batch idx Suc.prems(2), of sz "(ws, xs)"] s0 have
    "serval_db_ready (Suc e) row D S (base_record txs e m0 f0) (\<lambda>k. next_record (writers_at txs k e) (snd h k) (f0 k)) db1"
    by (cases h) auto
  from Suc.IH [OF _ this] Suc.prems(1) obtain sched db2 hs where
    r: "run_epochs (\<lambda>k. serval_db_epoch idx sz txs (sched k) k) (Suc e) n db1 = Inr (Some (db2, hs))" by auto
  let ?s = "sched(e := (ws, xs))"
  have "run_epochs (\<lambda>k. serval_db_epoch idx sz txs (?s k) k) (Suc e) n db1 = Inr (Some (db2, hs))"
    unfolding r [symmetric] by (rule run_epochs_cong) simp
  then have "run_epochs (\<lambda>k. serval_db_epoch idx sz txs (?s k) k) e (Suc n) db = Inr (Some (db2, h # hs))"
    using s0 by simp
  then show ?case by blast
qed simp

section \<open>The sample for the witnesses\<close>

lemma sample_serval_batch:
  assumes e: "1 \<le> e" "e \<le> NUM_EPOCH"
  shows "serval_batch sample_batches e {..<2} {..<2}"
  unfolding serval_batch_def
proof (intro conjI allI impI ballI)
  have "(e - 1) * 4096 + 4096 \<le> 4096 * 1000" using e by (simp add: NUM_EPOCH_def)
  then show "head_in_the_epoch e + 4096 \<le> length sample_batches"
    by (simp add: sample_batches_def head_in_the_epoch_def NUM_TXS_IN_ONE_EPOCH_def NUM_EPOCH_def)
next
  fix n :: nat assume n: "n < 4096"
  show "op_set_ok (sample_batches ! (head_in_the_epoch e + n))"
    unfolding sample_batch_nth [OF e n] by (rule sample_tx_ok)
  show "index ` set (rw_set (sample_batches ! (head_in_the_epoch e + n))) \<subseteq> {..<2}"
    unfolding sample_batch_nth [OF e n] by (rule sample_tx_ok)
next
  fix k w :: nat assume "w < 64"
  then have "sequential_id w 1 < 4096" "sequential_id w 1 \<noteq> 0" by (simp_all add: sequential_id_def)
  then show "\<exists>i < 64. \<not> has_write (sample_batches ! (head_in_the_epoch e + sequential_id w i)) k"
    using sample_batch_nth [OF e] by (intro exI [of _ 1]) (simp add: sample_tx_writes)
qed

section \<open>Properties\<close>

text \<open>C1: A whole Serval experiment on a whole database. Take any table that is ready for the first epoch and any
  transactions as the workload makes them, such that no worker writes a row in all of its 64 transactions of an epoch
  and the row regions suffice for the rows that are written. For any interleaving of the 64 workers' accesses in all
  the initialization phases and of their operations in all the execution phases, over all the rows at once, no assertion
  fails, no exception is thrown and no freed version is used. If every epoch reaches its last barrier, every read of
  every transaction on every key got the record of the last writer before it in the serial order of the epoch, and if no
  writer precedes it, the record the row had before: the final record of its last writing epoch if this epoch writes the
  row too, and the one before that otherwise.\<close>

theorem serval_database_serial:
  assumes "rows_index idx row D S" and "\<And>e. 1 \<le> e \<Longrightarrow> e \<le> NUM_EPOCH \<Longrightarrow> serval_batch txs e D S"
    and "serval_db_ready 1 row D S m0 f0 db"
  shows "\<exists>res. run_epochs (\<lambda>e. serval_db_epoch idx sz txs (sched e) e) 1 NUM_EPOCH db = Inr res \<and>
    (\<forall>db' hs. res = Some (db', hs) \<longrightarrow> length hs = NUM_EPOCH \<and> db_history (writers_at txs) (readers_at txs) D 1 m0 f0 hs)"
  by (rule serval_db_run_serial [OF assms(1) _ assms(3)]) (use assms(2) in simp)

theorem serval_database_serial_witness:
  "\<exists>db sched db' hs. serval_load_all_tables 8 2 empty_db = Inr db
     \<and> run_epochs (\<lambda>e. serval_db_epoch sample_find 8 sample_batches (sched e) e) 1 NUM_EPOCH db = Inr (Some (db', hs))
     \<and> length hs = NUM_EPOCH \<and> fst (hd hs) 0 70 = Some (snd (hd hs) 0 0) \<and> fst (hd hs) 1 70 = Some (snd (hd hs) 1 0)"
proof -
  have "card {..<2 :: nat} \<le> NUM_REGIONS" by (simp add: NUM_REGIONS_def)
  from load_ready [OF order_refl this, of 8] obtain db m0 f0 where
    db: "serval_load_all_tables 8 2 empty_db = Inr db" "serval_db_ready 1 (\<lambda>k. k) {..<2} {..<2} m0 f0 db" by blast
  have b: "serval_batch sample_batches e {..<2} {..<2}" if "1 \<le> e" "e < 1 + NUM_EPOCH" for e using sample_serval_batch that by simp
  from serval_db_run_completes [where e = 1 and n = NUM_EPOCH and sz = 8, OF sample_rows_index b db(2)] obtain sched db' hs where
    r: "run_epochs (\<lambda>e. serval_db_epoch sample_find 8 sample_batches (sched e) e) 1 NUM_EPOCH db = Inr (Some (db', hs))" by auto
  from serval_database_serial [OF sample_rows_index sample_serval_batch db(2), of 8 sched] r
  have h: "length hs = NUM_EPOCH" "db_history (writers_at sample_batches) (readers_at sample_batches) {..<2} 1 m0 f0 hs" by simp_all
  have "1 \<le> (1 :: nat)" "1 \<le> NUM_EPOCH" by (simp_all add: NUM_EPOCH_def)
  note sw = sample_writers [OF this]
  obtain got rc rest where hs: "hs = (got, rc) # rest" using h(1) by (cases hs) (auto simp: NUM_EPOCH_def)
  have "got k 70 = Some (must_read {0} (f0 k) (rc k) 70)" if "k < 2" for k
    using h(2) that sw unfolding hs by (simp add: Let_def)
  moreover have "must_read {0} x y 70 = y 0" for x :: nat and y
  proof -
    have "visible_in {0} 70 = Some 0" by (simp add: visible_in_Some)
    then show ?thesis by (simp add: must_read_def)
  qed
  ultimately have "got 0 70 = Some (rc 0 0)" "got 1 70 = Some (rc 1 0)" by simp_all
  with db(1) r h(1) show ?thesis unfolding hs by fastforce
qed

text \<open>C2: Nothing blocks an epoch of Serval on the whole database: whatever the workers have done so far in the
  initialization phase, on whatever rows, all of them can finish it, and whatever they have done in the execution phase
  of their transactions, which wait for each other's versions on many rows, all of them can finish that too.\<close>

theorem serval_database_completes:
  assumes "serval_batch txs e D S" and "rows_index idx row D S" and "serval_db_ready e row D S m0 f0 db"
  shows "\<exists>irest xrest db' h. serval_db_epoch idx sz txs (ws @ irest, xs @ xrest) e db = Inr (Some (db', h))"
  by (rule serval_db_epoch_finish [OF assms])

theorem serval_database_completes_witness:
  "\<exists>db irest xrest db' h. serval_load_all_tables 8 2 empty_db = Inr db
     \<and> serval_db_epoch sample_find 8 sample_batches ([0, 0, 0] @ irest, [6] @ xrest) 1 db = Inr (Some (db', h))"
proof -
  have "card {..<2 :: nat} \<le> NUM_REGIONS" by (simp add: NUM_REGIONS_def)
  from load_ready [OF order_refl this, of 8] obtain db m0 f0 where
    db: "serval_load_all_tables 8 2 empty_db = Inr db" "serval_db_ready 1 (\<lambda>k. k) {..<2} {..<2} m0 f0 db" by blast
  have "serval_batch sample_batches 1 {..<2} {..<2}" by (rule sample_serval_batch) (simp_all add: NUM_EPOCH_def)
  from serval_database_completes [OF this sample_rows_index db(2)] db(1) show ?thesis by blast
qed

text \<open>C20: The loader makes a well-formed database: loading a table of any size into the empty store succeeds and gives
  rows whose locks are free and whose versions are stable, alive and not shared with other rows, ready for the first epoch;
  any rows that the regions suffice for may be written.\<close>

theorem serval_load_well_formed:
  assumes "S \<subseteq> {..<n}" and "card S \<le> NUM_REGIONS"
  shows "\<exists>db m0 f0. serval_load_all_tables sz n empty_db = Inr db \<and> serval_db_ready 1 (\<lambda>k. k) {..<n} S m0 f0 db"
  by (rule load_ready [OF assms])

theorem serval_load_well_formed_witness:
  "\<exists>db m0 f0. serval_load_all_tables 8 3 empty_db = Inr db \<and> serval_db_ready 1 (\<lambda>k. k) {..<3} {0, 2} m0 f0 db"
  by (rule serval_load_well_formed) (auto simp: NUM_REGIONS_def)

end
