(* ===== verification/Printed.thy ===== *)
theory Printed
  imports Main
begin

text \<open>
  Text that programs read and write: what is sent to \<open>std::cout\<close>, and decimal numbers as
  \<open>std::stoi\<close> reads them.
\<close>

section \<open>Output\<close>

text \<open>What is sent to \<open>std::cout\<close>, piece by piece.\<close>

datatype printed = Str string | Num int | Endl

definition numbers :: "printed list \<Rightarrow> int list" where
  "numbers os = concat (map (\<lambda>x. case x of Num i \<Rightarrow> [i] | _ \<Rightarrow> []) os)"

lemma numbers_simps [simp]:
  "numbers [] = []" "numbers (Num i # os) = i # numbers os" "numbers (Str t # os) = numbers os" "numbers (Endl # os) = numbers os"
  "numbers (os @ os') = numbers os @ numbers os'"
  by (simp_all add: numbers_def)

lemma numbers_concat: "numbers (concat xs) = concat (map numbers xs)"
  by (induction xs) simp_all

section \<open>Decimal numbers\<close>

definition is_space :: "char \<Rightarrow> bool" where
  "is_space c \<longleftrightarrow> 9 \<le> (of_char c :: nat) \<and> (of_char c :: nat) \<le> 13 \<or> c = CHR 0x20"

definition is_digit :: "char \<Rightarrow> bool" where
  "is_digit c \<longleftrightarrow> 48 \<le> (of_char c :: nat) \<and> (of_char c :: nat) \<le> 57"

definition digit_value :: "char \<Rightarrow> nat" where
  "digit_value c = of_char c - 48"

definition digits_value :: "string \<Rightarrow> nat" where
  "digits_value ds = foldl (\<lambda>n c. n * 10 + digit_value c) 0 ds"

definition digit :: "nat \<Rightarrow> char" where
  "digit d = char_of (48 + d)"

fun decimal :: "nat \<Rightarrow> string" where
  "decimal n = (if n < 10 then [digit n] else decimal (n div 10) @ [digit (n mod 10)])"

declare decimal.simps [simp del]

definition decimal_int :: "int \<Rightarrow> string" where
  "decimal_int i = (if i < 0 then CHR ''-'' # decimal (nat (- i)) else decimal (nat i))"

lemma of_char_digit: "d < 10 \<Longrightarrow> (of_char (digit d) :: nat) = 48 + d"
  by (simp add: digit_def of_char_of)

lemma digit_ok [simp]: "d < 10 \<Longrightarrow> is_digit (digit d)" "d < 10 \<Longrightarrow> digit_value (digit d) = d"
  by (simp_all add: is_digit_def digit_value_def of_char_digit)

lemma decimal_digits: "list_all is_digit (decimal n)" "decimal n \<noteq> []"
  by (induction n rule: decimal.induct) (subst decimal.simps, simp)+

lemma digits_value_snoc: "digits_value (ds @ [c]) = digits_value ds * 10 + digit_value c"
  by (simp add: digits_value_def)

lemma digits_value_decimal: "digits_value (decimal n) = n"
proof (induction n rule: decimal.induct)
  case (1 n)
  show ?case
  proof (cases "n < 10")
    case True
    then show ?thesis by (subst decimal.simps) (simp add: digits_value_def)
  next
    case False
    then show ?thesis using 1 by (subst decimal.simps) (simp add: digits_value_snoc)
  qed
qed

lemma takeWhile_all: "list_all P xs \<Longrightarrow> takeWhile P xs = xs"
  by (simp add: list_all_iff)

lemma digit_no_sign: "is_digit c \<Longrightarrow> \<not> is_space c \<and> c \<noteq> CHR ''-'' \<and> c \<noteq> CHR ''+''"
  by (auto simp: is_digit_def is_space_def)

section \<open>std::stoi in base 10\<close>

datatype stoi_error = Invalid_argument | Out_of_range

definition read_sign :: "string \<Rightarrow> bool \<times> string" where
  "read_sign s = (case s of CHR ''-'' # r \<Rightarrow> (True, r) | CHR ''+'' # r \<Rightarrow> (False, r) | _ \<Rightarrow> (False, s))"

definition stoi :: "string \<Rightarrow> stoi_error + int" where
  "stoi s =
     (case read_sign (dropWhile is_space s) of (negative, r) \<Rightarrow>
        let ds = takeWhile is_digit r; n = int (digits_value ds); i = if negative then - n else n
        in if ds = [] then Inl Invalid_argument
           else if i < - (2 ^ 31) \<or> 2 ^ 31 \<le> i then Inl Out_of_range else Inr i)"

lemma read_sign_digit: "is_digit c \<Longrightarrow> read_sign (c # r) = (False, c # r)"
  using digit_no_sign [of c] by (auto simp: read_sign_def split: char.splits bool.splits)

lemma stoi_decimal_int:
  assumes "- (2 ^ 31) \<le> i" and "i < 2 ^ 31"
  shows "stoi (decimal_int i) = Inr i"
proof (cases "i < 0")
  case True
  have "read_sign (dropWhile is_space (decimal_int i)) = (True, decimal (nat (- i)))"
    using True by (simp add: decimal_int_def is_space_def read_sign_def)
  then show ?thesis using assms True decimal_digits [of "nat (- i)"]
    by (simp add: stoi_def takeWhile_all digits_value_decimal)
next
  case False
  obtain c r where c: "decimal (nat i) = c # r" using decimal_digits(2) [of "nat i"] by (cases "decimal (nat i)") auto
  then have "is_digit c" using decimal_digits(1) [of "nat i"] by simp
  then have "read_sign (dropWhile is_space (decimal_int i)) = (False, decimal (nat i))"
    using False c digit_no_sign [of c] read_sign_digit by (simp add: decimal_int_def)
  then show ?thesis using assms False decimal_digits [of "nat i"]
    by (simp add: stoi_def takeWhile_all digits_value_decimal)
qed

end
