(* ===== verification/Database_Print.thy ===== *)
theory Database_Print
  imports Serval_Database Printed
begin

text \<open>
  The check of the database that executables/ycsb_serval.cpp and ycsb_caracal.cpp keep for the end
  of a run: \<open>print_database\<close> asserts that all versions are stable and belong to transactions that
  write the row, and prints their ids. What a run of Serval leaves behind passes these assertions.
\<close>

section \<open>print_database of Serval\<close>

text \<open>\<open>txs[i]\<close> reads past the end of the vector without a check.\<close>

definition tx_at :: "operation_set list \<Rightarrow> nat \<Rightarrow> operation_set res" where
  "tx_at txs i = guard (i < length txs) OutOfRange (Inr (txs ! i))"

fun print_global_array ::
  "operation_set list \<Rightarrow> nat \<Rightarrow> nat \<Rightarrow> mem \<Rightarrow> (int \<times> nat) list \<Rightarrow> printed list res" where
  "print_global_array txs head key m [] = Inr []"
| "print_global_array txs head key m ((i, version) # rest) =
     assert_then (0 \<le> i) (ebind (load_version version m) (\<lambda>x. assert_then (ver_status x = STABLE)
       (ebind (tx_at txs (head + nat i)) (\<lambda>tx. assert_then (has_write tx key)
         (ebind (print_global_array txs head key m rest) (\<lambda>os. Inr (Num i # Str '' '' # os)))))))"

text \<open>
  The loop that looks for the transaction of the next slot. A shift by 64 or more is undefined.
\<close>

function next_txid :: "u64 \<Rightarrow> nat \<Rightarrow> nat res" where
  "next_txid tx_bitmap txid =
     (if 64 \<le> txid then Inl OutOfRange
      else if tx_bitmap AND set_bit_at_the_given_location txid = 0 then next_txid tx_bitmap (txid + 1)
      else Inr txid)"
  by pat_completeness auto
termination by (relation "measure (\<lambda>(b, txid). 64 - txid)") auto

declare next_txid.simps [simp del]

text \<open>What is printed when a version's transaction does not write the row.\<close>

definition print_mismatch :: "operation_set list \<Rightarrow> nat \<Rightarrow> nat \<Rightarrow> nat \<Rightarrow> nat \<Rightarrow> nat \<Rightarrow> printed list res" where
  "print_mismatch txs head key core txid serial_id =
     ebind (tx_at txs serial_id) (\<lambda>tx.
       Inr ([Str ''<<<<<<<<<'', Str ''head_in_the_epoch: '', Num (int head), Str '', serial_id: '', Num (int serial_id),
             Str '', core: '', Num (int core), Str '', txid: '', Num (int txid)]
            @ (if has_write tx key then [Str '', true ''] else []) @ [Str ''>>>>>>>>'', Endl]))"

fun print_slots ::
  "operation_set list \<Rightarrow> nat \<Rightarrow> nat \<Rightarrow> nat \<Rightarrow> mem \<Rightarrow> nat list \<Rightarrow> u64 \<Rightarrow> nat \<Rightarrow> printed list res" where
  "print_slots txs head key core m [] tx_bitmap txid = Inr []"
| "print_slots txs head key core m (version # rest) tx_bitmap txid =
     ebind (load_version version m) (\<lambda>x. assert_then (ver_status x = STABLE)
       (ebind (next_txid tx_bitmap txid) (\<lambda>txid.
          let tx_bitmap = tx_bitmap AND NOT (set_bit_at_the_given_location txid);
              serial_id = core * 64 + txid
          in ebind (tx_at txs (head + serial_id)) (\<lambda>tx.
               ebind (if has_write tx key then Inr [] else print_mismatch txs head key core txid serial_id) (\<lambda>ms.
                 ebind (print_slots txs head key core m rest tx_bitmap txid) (\<lambda>os.
                   Inr (Num (int serial_id) # Str '' '' # ms @ os)))))))"

fun print_cores :: "operation_set list \<Rightarrow> nat \<Rightarrow> nat \<Rightarrow> mem \<Rightarrow> row_region \<Rightarrow> nat list \<Rightarrow> printed list res" where
  "print_cores txs head key m r [] = Inr []"
| "print_cores txs head key m r (core # rest) =
     ebind (if is_bit_set_at_the_position (core_bitmap r) core
            then assert_then (pcva_length (arrays r core) = int (length (slots (arrays r core))))
              (print_slots txs head key core m (slots (arrays r core)) (transaction_bitmap (arrays r core)) 0)
            else Inr [])
       (\<lambda>os. ebind (print_cores txs head key m r rest) (\<lambda>os'. Inr (os @ os')))"

definition print_row ::
  "operation_set list \<Rightarrow> nat \<Rightarrow> serval_value \<Rightarrow> row_region_controller \<Rightarrow> mem \<Rightarrow> printed list res" where
  "print_row txs key val ctl m =
     (if 0 < val_epoch val then
        let head = (val_epoch val - 1) * NUM_TXS_IN_ONE_EPOCH
        in ebind (print_global_array txs head key m (ids_slots (global_array val))) (\<lambda>g.
             ebind (if val_has_dirty_region ctl val
                    then (case row_region_ptr val of
                            None \<Rightarrow> Inl NullDeref
                          | Some k \<Rightarrow> ebind (print_cores txs head key m (regions ctl k) [0..<64]) (\<lambda>os. Inr (os @ [Endl])))
                    else Inr [])
               (\<lambda>r. Inr (Str ''global_array: '' # g @ [Endl, Str ''region: ''] @ r @ [Endl])))
      else Inr [])"

text \<open>The loop over the keys; it returns at the first key that the index does not have.\<close>

fun print_keys :: "index_find \<Rightarrow> operation_set list \<Rightarrow> serval_db \<Rightarrow> nat list \<Rightarrow> printed list res" where
  "print_keys idx txs db [] = Inr []"
| "print_keys idx txs db (key # keys) =
     (case idx record_table key of
        None \<Rightarrow> Inr []
      | Some p \<Rightarrow> ebind (print_row txs key (svalues db p) (sctl db) (smem db)) (\<lambda>os.
          ebind (print_keys idx txs db keys) (\<lambda>os'. Inr (os @ os'))))"

definition serval_print_database :: "index_find \<Rightarrow> ycsb_config \<Rightarrow> operation_set list \<Rightarrow> serval_db \<Rightarrow> printed list res" where
  "serval_print_database idx c txs db = print_keys idx txs db [0..<num_records c]"

section \<open>print_database and print_transactions of Caracal\<close>

fun car_print_versions :: "mem \<Rightarrow> id_slots \<Rightarrow> printed list res" where
  "car_print_versions m [] = Inr []"
| "car_print_versions m ((i, version) # rest) =
     ebind (load_version version m) (\<lambda>x. assert_then (ver_status x = STABLE)
       (ebind (car_print_versions m rest) (\<lambda>os. Inr (Num (uint i) # Str '', '' # os))))"

fun car_print_keys :: "index_find \<Rightarrow> caracal_db \<Rightarrow> nat list \<Rightarrow> printed list res" where
  "car_print_keys idx db [] = Inr []"
| "car_print_keys idx db (key # keys) =
     (case idx record_table key of
        None \<Rightarrow> Inr []
      | Some p \<Rightarrow> ebind (car_print_versions (cmem db) (car_slots (car_global (cvalues db p)))) (\<lambda>os.
          ebind (car_print_keys idx db keys) (\<lambda>os'. Inr ([Num (int key), Str '': ''] @ os @ [Endl] @ os'))))"

definition caracal_print_database :: "index_find \<Rightarrow> ycsb_config \<Rightarrow> caracal_db \<Rightarrow> printed list res" where
  "caracal_print_database idx c db = car_print_keys idx db [0..<num_records c]"

definition print_transaction :: "operation_set list \<Rightarrow> nat \<Rightarrow> printed list" where
  "print_transaction txs i =
     [Str ''Tx'', Num (int i), Str '': '', Endl]
     @ concat (map (\<lambda>j. [Num (int (index (rw_set (txs ! i) ! j))), Str '' '']) (w_set (txs ! i))) @ [Endl]"

definition print_transactions :: "operation_set list \<Rightarrow> printed list" where
  "print_transactions txs = concat (map (print_transaction txs) [0..<length txs])"

section \<open>The ids of a row are printed in order\<close>

lemma next_txid_Least:
  assumes "t \<in> ones b" and "n \<le> t" and "\<forall>x \<in> ones b. n \<le> x \<longrightarrow> t \<le> x"
  shows "next_txid b n = Inr t"
  using assms
proof (induction b n rule: next_txid.induct)
  case (1 b n)
  have t: "t < 64" using 1(2) by (rule ones_less)
  then have n: "n < 64" using 1(3) by simp
  have iff: "b AND set_bit_at_the_given_location n = 0 \<longleftrightarrow> n \<notin> ones b"
    using is_bit_set_iff [OF n, of b] unfolding is_bit_set_at_the_position_def by blast
  show ?case
  proof (cases "n = t")
    case True
    then show ?thesis using 1(2) n iff by (simp add: next_txid.simps)
  next
    case False
    then have nb: "n \<notin> ones b" using 1(3,4) by fastforce
    have "next_txid b (n + 1) = Inr t" using n iff nb False 1(2-4) by (intro 1(1)) auto
    then show ?thesis using n iff nb by (subst next_txid.simps) simp
  qed
qed

lemma filter_upt_first:
  fixes t n k :: nat
  assumes "P t" and "n \<le> t" and "t < k" and "\<And>x. P x \<Longrightarrow> n \<le> x \<Longrightarrow> t \<le> x"
  shows "filter P [n..<k] = t # filter P [Suc t..<k]"
proof -
  have "[n..<k] = [n..<t] @ [t..<k]" using assms(2,3) upt_add_eq_append [of n t "k - t"] by simp
  moreover have "filter P [n..<t] = []" using assms(4) by (force simp: filter_empty_conv)
  ultimately show ?thesis using assms(1,3) by (simp add: upt_conv_Cons)
qed

text \<open>A version of the row is stable and belongs to a transaction that writes it.\<close>

definition rightful :: "operation_set list \<Rightarrow> nat \<Rightarrow> nat \<Rightarrow> nat \<Rightarrow> bool" where
  "rightful txs head key i \<longleftrightarrow> head + i < length txs \<and> has_write (txs ! (head + i)) key"

lemma rightful_tx: "rightful txs head key i \<Longrightarrow> \<exists>tx. tx_at txs (head + i) = Inr tx \<and> has_write tx key"
  by (simp add: rightful_def tx_at_def)

lemma print_slots_ok:
  assumes "mem_ok m" and "\<forall>v \<in> set vs. stable m v" and "length vs = card (ones b)" and "\<forall>t \<in> ones b. n \<le> t"
    and "\<forall>t \<in> ones b. rightful txs head key (core * 64 + t)"
  shows "\<exists>os. print_slots txs head key core m vs b n = Inr os
    \<and> numbers os = map (\<lambda>t. int (core * 64 + t)) (filter (\<lambda>t. t \<in> ones b) [n..<64]) \<and> Str ''<<<<<<<<<'' \<notin> set os"
  using assms(2-)
proof (induction vs arbitrary: b n)
  case Nil
  then have "ones b = {}" by simp
  then show ?case by simp
next
  case (Cons v vs)
  obtain x where x: "load_version v m = Inr x" "ver_status x = STABLE" using stable_load [of m v] Cons.prems(1) assms(1) by auto
  have ne: "ones b \<noteq> {}" using Cons.prems(2) by (metis card.empty length_0_conv list.distinct(1))
  define t where "t = Min (ones b)"
  have t: "t \<in> ones b" "\<And>x. x \<in> ones b \<Longrightarrow> t \<le> x" using ne by (simp_all add: t_def)
  have t64: "t < 64" by (rule ones_less [OF t(1)])
  have nt: "next_txid b n = Inr t" using t Cons.prems(3) by (intro next_txid_Least) auto
  let ?b = "b AND NOT (set_bit_at_the_given_location t)"
  have b: "ones ?b = ones b - {t}" using t64 by (auto simp: ones_and ones_not dest: ones_less)
  have "card (ones b) = Suc (card (ones ?b))" unfolding b using t(1) by (metis card_Suc_Diff1 finite_ones)
  then have "length vs = card (ones ?b)" using Cons.prems(2) by simp
  with Cons.IH [of ?b t] Cons.prems(1,4) t(2) obtain os where os: "print_slots txs head key core m vs ?b t = Inr os"
    "numbers os = map (\<lambda>t. int (core * 64 + t)) (filter (\<lambda>t. t \<in> ones ?b) [t..<64])" "Str ''<<<<<<<<<'' \<notin> set os"
    by (auto simp: b)
  obtain tx where tx: "tx_at txs (head + (core * 64 + t)) = Inr tx" "has_write tx key"
    using rightful_tx Cons.prems(4) t(1) by blast
  have "filter (\<lambda>t. t \<in> ones ?b) [t..<64] = filter (\<lambda>x. x \<in> ones b) [Suc t..<64]"
    using t64 by (simp add: b upt_conv_Cons) (auto intro: filter_cong)
  moreover have "filter (\<lambda>x. x \<in> ones b) [n..<64] = t # filter (\<lambda>x. x \<in> ones b) [Suc t..<64]"
    using t Cons.prems(3) t64 by (intro filter_upt_first) auto
  ultimately show ?case using x nt os tx by (simp add: Let_def)
qed

lemma upt_blocks: "[0..<n * m] = concat (map (\<lambda>c. map (\<lambda>t. c * m + t) [0..<m]) [0..<n])"
proof (induction n)
  case (Suc n)
  have "[0..<Suc n * m] = [0..<n * m] @ [n * m..<n * m + m]" using upt_add_eq_append [of 0 "n * m" m] by (simp add: add.commute)
  also have "[n * m..<n * m + m] = map (\<lambda>t. n * m + t) [0..<m]" by (simp add: map_add_upt [symmetric] add.commute)
  finally show ?case using Suc by simp
qed simp

lemma print_cores_ok:
  assumes "mem_ok m" and "set cs \<subseteq> {..<64}"
    and "\<And>c. c \<in> ones (core_bitmap r) \<Longrightarrow> pcva_ok (arrays r c) \<and> (\<forall>v \<in> set (slots (arrays r c)). stable m v)"
    and "\<forall>i \<in> dom (region_entries r). rightful txs head key i"
  shows "\<exists>os. print_cores txs head key m r cs = Inr os
    \<and> numbers os = map int (filter (\<lambda>i. i \<in> dom (region_entries r)) (concat (map (\<lambda>c. map (\<lambda>t. c * 64 + t) [0..<64]) cs)))
    \<and> Str ''<<<<<<<<<'' \<notin> set os"
  using assms(2)
proof (induction cs)
  case (Cons c cs)
  then obtain os where os: "print_cores txs head key m r cs = Inr os"
    "numbers os = map int (filter (\<lambda>i. i \<in> dom (region_entries r)) (concat (map (\<lambda>c. map (\<lambda>t. c * 64 + t) [0..<64]) cs)))"
    "Str ''<<<<<<<<<'' \<notin> set os" by auto
  have c: "c < 64" using Cons.prems by simp
  let ?a = "arrays r c"
  have mem: "c * 64 + t \<in> dom (region_entries r) \<longleftrightarrow> c \<in> ones (core_bitmap r) \<and> t \<in> ones (transaction_bitmap ?a)"
    if "t < 64" for t
  proof -
    have "region_entries r (c * 64 + t) = (if c \<in> ones (core_bitmap r) then pcva_entries ?a t else None)"
      using that by (simp add: region_entries_def cong: if_cong)
    then show ?thesis by (simp add: domIff pcva_entries_def)
  qed
  have row: "filter (\<lambda>i. i \<in> dom (region_entries r)) (map (\<lambda>t. c * 64 + t) [0..<64]) =
      (if c \<in> ones (core_bitmap r) then map (\<lambda>t. c * 64 + t) (filter (\<lambda>t. t \<in> ones (transaction_bitmap ?a)) [0..<64]) else [])"
  proof -
    have "filter (\<lambda>t. c * 64 + t \<in> dom (region_entries r)) [0..<64] = filter (\<lambda>t. c \<in> ones (core_bitmap r) \<and> t \<in> ones (transaction_bitmap ?a)) [0..<64]"
      using mem by (intro filter_cong) (auto simp only: set_upt atLeastLessThan_iff)
    then show ?thesis by (simp add: filter_map comp_def del: upt_rec_numeral)
  qed
  show ?case
  proof (cases "c \<in> ones (core_bitmap r)")
    case True
    have a: "pcva_ok ?a" "\<forall>v \<in> set (slots ?a). stable m v" using assms(3) [OF True] by simp_all
    have len: "length (slots ?a) = card (ones (transaction_bitmap ?a))" using a(1) by (simp add: pcva_ok_def)
    have "\<forall>t \<in> ones (transaction_bitmap ?a). rightful txs head key (c * 64 + t)" using assms(4) mem True ones_less by blast
    from print_slots_ok [OF assms(1) a(2) len _ this, of 0] obtain os1 where
      os1: "print_slots txs head key c m (slots ?a) (transaction_bitmap ?a) 0 = Inr os1"
      "numbers os1 = map (\<lambda>t. int (c * 64 + t)) (filter (\<lambda>t. t \<in> ones (transaction_bitmap ?a)) [0..<64])"
      "Str ''<<<<<<<<<'' \<notin> set os1" by auto
    have "pcva_length ?a = int (length (slots ?a))" by (simp add: pcva_length_def popcount_card len)
    then show ?thesis using True c os os1 row by (simp add: is_bit_set_iff comp_def del: upt_rec_numeral)
  next
    case False
    then show ?thesis using c os row by (simp add: is_bit_set_iff del: upt_rec_numeral)
  qed
qed simp

lemma print_global_array_ok:
  assumes "mem_ok m" and "\<forall>p \<in> set xs. 0 \<le> fst p \<and> stable m (snd p) \<and> rightful txs head key (nat (fst p))"
  shows "\<exists>os. print_global_array txs head key m xs = Inr os \<and> numbers os = map fst xs \<and> Str ''<<<<<<<<<'' \<notin> set os"
  using assms(2)
proof (induction xs)
  case (Cons p xs)
  obtain i v where p: "p = (i, v)" by (cases p)
  obtain x where "load_version v m = Inr x" "ver_status x = STABLE" using stable_load [of m v] Cons.prems assms(1) by (auto simp: p)
  moreover obtain tx where "tx_at txs (head + nat i) = Inr tx" "has_write tx key"
    using rightful_tx [of txs head key "nat i"] Cons.prems by (auto simp: p)
  moreover obtain os where "print_global_array txs head key m xs = Inr os" "numbers os = map fst xs" "Str ''<<<<<<<<<'' \<notin> set os"
    using Cons by auto
  ultimately show ?case using Cons.prems by (simp add: p)
qed simp


lemma ascending_ids:
  assumes "ascending xs" and "\<forall>p \<in> set xs. 0 \<le> fst p \<and> fst p < 4096"
  shows "map fst xs = map int (filter (\<lambda>i. int i \<in> fst ` set xs) [0..<4096])"
proof (rule sorted_distinct_set_unique)
  show "sorted (map fst xs)" "distinct (map fst xs)" using assms(1) by (simp_all only: strict_sorted_iff)
  show "sorted (map int (filter (\<lambda>i. int i \<in> fst ` set xs) [0..<4096]))"
    by (simp add: sorted_map sorted_wrt_filter sorted_upt del: upt_rec_numeral)
  show "distinct (map int (filter (\<lambda>i. int i \<in> fst ` set xs) [0..<4096]))" by (simp add: distinct_map del: upt_rec_numeral)
  have "x \<in> int ` {i. i < 4096 \<and> int i \<in> fst ` set xs}" if "x \<in> fst ` set xs" for x
    using assms(2) that by (intro image_eqI [of _ _ "nat x"]) auto
  then show "set (map fst xs) = set (map int (filter (\<lambda>i. int i \<in> fst ` set xs) [0..<4096]))"
    by (auto simp del: upt_rec_numeral)
qed

text \<open>A row at the end of an epoch: stable versions of transactions that write it.\<close>

lemma print_row_ok:
  assumes ok: "row_ok ctl val m" and st: "\<forall>v \<in> row_versions ctl val. stable m v"
    and pos: "0 < val_epoch val" "\<forall>p \<in> set (ids_slots (global_array val)). 0 \<le> fst p"
    and right: "\<forall>i \<in> dom (row_entries ctl val). rightful txs ((val_epoch val - 1) * NUM_TXS_IN_ONE_EPOCH) key i"
  shows "\<exists>os. print_row txs key val ctl m = Inr os
    \<and> numbers os = map int (filter (\<lambda>i. i \<in> dom (row_entries ctl val)) [0..<4096]) \<and> Str ''<<<<<<<<<'' \<notin> set os"
proof (cases "row_region_ptr val")
  case None
  let ?xs = "ids_slots (global_array val)"
  have e: "row_entries ctl val = gva_entries (global_array val)" by (simp add: row_entries_def None)
  have "stable m (snd p) \<and> rightful txs ((val_epoch val - 1) * NUM_TXS_IN_ONE_EPOCH) key (nat (fst p))" if "p \<in> set ?xs" for p
  proof
    show "stable m (snd p)" using st that by (simp add: row_versions_def)
    have "int (nat (fst p)) \<in> fst ` set ?xs" using pos(2) that by simp
    then show "rightful txs ((val_epoch val - 1) * NUM_TXS_IN_ONE_EPOCH) key (nat (fst p))"
      using right unfolding e dom_gva_entries_iff [symmetric] by blast
  qed
  then obtain os where os: "print_global_array txs ((val_epoch val - 1) * NUM_TXS_IN_ONE_EPOCH) key m ?xs = Inr os"
    "numbers os = map fst ?xs" "Str ''<<<<<<<<<'' \<notin> set os"
    using print_global_array_ok [OF row_okD(1) [OF ok], of ?xs txs "(val_epoch val - 1) * NUM_TXS_IN_ONE_EPOCH" key] pos(2) by blast
  have "map fst ?xs = map int (filter (\<lambda>i. i \<in> dom (row_entries ctl val)) [0..<4096])"
    using ascending_ids [OF row_okD(3) [OF ok]] row_okD(8) [OF ok] pos(2) by (simp add: e dom_gva_entries_iff del: upt_rec_numeral)
  then show ?thesis using os pos(1) by (simp add: print_row_def val_has_dirty_region_def None Let_def del: upt_rec_numeral)
next
  case (Some k)
  let ?r = "regions ctl k"
  have r: "ids_slots (global_array val) = []" "region_ok (?r, m)" using row_okD(7) [OF ok Some] by simp_all
  have e: "row_entries ctl val = region_entries ?r" by (simp add: row_entries_def Some)
  show ?thesis
  proof (cases "core_bitmap ?r = 0")
    case True
    then have "region_entries ?r = Map.empty" by (simp add: region_entries_def fun_eq_iff)
    then show ?thesis using True r(1) pos(1) by (simp add: print_row_def val_has_dirty_region_def region_is_dirty_def Some Let_def e)
  next
    case False
    have "pcva_ok (arrays ?r c) \<and> (\<forall>v \<in> set (slots (arrays ?r c)). stable m v)" if "c \<in> ones (core_bitmap ?r)" for c
      using region_okD(4) [OF r(2) that] st ones_less [OF that] by (auto simp: row_versions_def Some region_slots_iff)
    moreover have "set [0..<64] \<subseteq> {..<64 :: nat}" by auto
    moreover have "\<forall>i \<in> dom (region_entries ?r). rightful txs ((val_epoch val - 1) * NUM_TXS_IN_ONE_EPOCH) key i"
      using right by (simp add: e)
    ultimately obtain os where
      os: "print_cores txs ((val_epoch val - 1) * NUM_TXS_IN_ONE_EPOCH) key m ?r [0..<64] = Inr os"
      "numbers os = map int (filter (\<lambda>i. i \<in> dom (region_entries ?r)) (concat (map (\<lambda>c. map (\<lambda>t. c * 64 + t) [0..<64]) [0..<64])))"
      "Str ''<<<<<<<<<'' \<notin> set os"
      using print_cores_ok [OF row_okD(1) [OF ok]] by blast
    have "[0..<4096] = concat (map (\<lambda>c. map (\<lambda>t. c * 64 + t) [0..<64]) [0..<64 :: nat])" using upt_blocks [of 64 64] by simp
    then show ?thesis using os False r(1) pos(1)
      by (simp add: print_row_def val_has_dirty_region_def region_is_dirty_def Some Let_def e del: upt_rec_numeral)
  qed
qed

section \<open>What a run leaves behind\<close>

text \<open>The last of the first \<open>e\<close> epochs that writes a row, 0 if none does.\<close>

fun last_written :: "operation_set list \<Rightarrow> nat \<Rightarrow> nat \<Rightarrow> nat" where
  "last_written txs key 0 = 0"
| "last_written txs key (Suc e) = (if writers_at txs key (Suc e) = {} then last_written txs key e else Suc e)"

lemma last_written_le: "last_written txs key e \<le> e"
  by (induction e) auto

text \<open>The rows hold the versions of their last epoch.\<close>

definition db_recorded :: "operation_set list \<Rightarrow> nat \<Rightarrow> (nat \<Rightarrow> nat) \<Rightarrow> nat set \<Rightarrow> serval_db \<Rightarrow> bool" where
  "db_recorded txs e row D db \<longleftrightarrow> (\<forall>k \<in> D. let val = svalues db (row k) in
     val_epoch val = last_written txs k e \<and>
     (0 < val_epoch val \<longrightarrow> (\<forall>p \<in> set (ids_slots (global_array val)). 0 \<le> fst p)
        \<and> dom (row_entries (sctl db) val) = writers_at txs k (val_epoch val)))"

text \<open>The initialization phase leaves the rows alone that the epoch does not write.\<close>

lemma db_init_step_apart:
  assumes rows: "rows_ok idx row D S H W" and inv: "db_init_inv e row D S H W M m0 f0 s" and st: "db_init_step idx e w s = Inr s'"
    and k: "k \<in> D" "k \<notin> H"
  shows "dvals s' (row k) = dvals s (row k)" "row_entries (dctl s') (dvals s (row k)) = row_entries (dctl s) (dvals s (row k))"
proof -
  have "dvals s' (row k) = dvals s (row k) \<and> row_entries (dctl s') (dvals s (row k)) = row_entries (dctl s) (dvals s (row k))"
  proof (cases "dpc s w = Ready")
    case True
    then show ?thesis using st by (auto simp: db_init_step_def split: list.splits if_splits option.splits)
  next
    case False
    define q where "q = dkey s w"
    note r = rows_okD [OF rows]
    have qH: "q \<in> H" using db_init_invD(7) [OF inv False] by (simp add: q_def)
    then have q: "q \<in> D" "q \<noteq> k" using r(4) k(2) by auto
    obtain c where c: "init_step e w (init_view (row q) q s) = Inr c" "init_inv e (M q) (W q) c"
      using init_step_ok [OF r(6) [OF qH] view_inv [OF inv qH], of w] by blast
    have s': "s' = init_put w (row q) q c s"
      using st False r(1) [OF q(1)] c(1) by (simp add: db_init_step_def init_put_def flip: q_def)
    have mv: "row_moves (dctl s) (dvals s (row q)) (dstore s) (ictl c) (ival c) (imem c)"
      using init_step_moves [OF r(6) [OF qH] view_inv [OF inv qH] c(1)] by simp
    have "mem_ok (imem c)" using row_okD(1) [OF row_part_ok [OF init_invD(3) [OF c(2)]]] .
    from row_moves_kept(1) [OF mv any_row_ok [OF inv k(1)] this] rows_disjointD(1,3) [OF db_init_invD(2) [OF inv] q(1) k(1) q(2)]
    have "row_kept (dctl s) (dvals s (row k)) (dstore s) (ictl c) (imem c)" by blast
    from row_kept_views(2) [OF this] show ?thesis using r(7) [OF k(1) q(1)] q(2) by (simp add: s' init_put_def)
  qed
  then show "dvals s' (row k) = dvals s (row k)" "row_entries (dctl s') (dvals s (row k)) = row_entries (dctl s) (dvals s (row k))"
    by simp_all
qed

lemma db_init_run_apart:
  assumes rows: "rows_ok idx row D S H W" and k: "k \<in> D" "k \<notin> H"
  shows "db_init_inv e row D S H W M m0 f0 s \<Longrightarrow> db_init_run idx e sched s = Inr s' \<Longrightarrow>
    dvals s' (row k) = dvals s (row k) \<and> row_entries (dctl s') (dvals s (row k)) = row_entries (dctl s) (dvals s (row k))"
proof (induction sched arbitrary: s)
  case (Cons w sched)
  from db_init_step_ok [OF rows Cons.prems(1), of w] obtain s1 where
    s1: "db_init_step idx e w s = Inr s1" "db_init_inv e row D S H W M m0 f0 s1" by blast
  from Cons.IH [OF s1(2)] Cons.prems(2) s1(1) db_init_step_apart [OF rows Cons.prems(1) s1(1) k] show ?case by simp
qed simp

lemma serval_db_epoch_recorded:
  assumes batch: "serval_batch txs (Suc e) D S" and idx: "rows_index idx row D S" and ready: "serval_db_ready (Suc e) row D S m0 f0 db"
    and rec: "db_recorded txs e row D db" and run: "serval_db_epoch idx sz txs sched (Suc e) db = Inr (Some (db', h))"
  shows "db_recorded txs (Suc e) row D db'"
proof -
  let ?start = "db_init_start (init_program sequential_id txs (head_in_the_epoch (Suc e))) db"
  note rows = batch_rows_ok [OF batch idx] and inv0 = db_init_inv_start [OF batch ready]
  from db_init_run_ok [OF rows inv0, of "fst sched"] obtain s where
    s: "db_init_run idx (Suc e) (fst sched) ?start = Inr s"
    "db_init_inv (Suc e) row D S (written_keys txs (Suc e) D) (key_writes txs (Suc e)) (\<lambda>k. row_final (sctl db) (svalues db (row k))) m0 f0 s"
    by blast
  then have dn: "db_init_done s" and db': "svalues db' = dvals s" "sctl db' = dctl s"
    using run by (auto simp: serval_db_epoch_def ebind_eq_Inr split: if_splits)
  show ?thesis
    unfolding db_recorded_def db' Let_def
  proof (intro ballI)
    fix k assume k: "k \<in> D"
    let ?v = "dvals s (row k)"
    show "val_epoch ?v = last_written txs k (Suc e) \<and> (0 < val_epoch ?v \<longrightarrow>
      (\<forall>p \<in> set (ids_slots (global_array ?v)). 0 \<le> fst p) \<and> dom (row_entries (dctl s) ?v) = writers_at txs k (val_epoch ?v))"
    proof (cases "writers_at txs k (Suc e) = {}")
      case True
      then have "k \<notin> written_keys txs (Suc e) D" by simp
      from db_init_run_apart [OF rows k this inv0 s(1)]
      have "?v = svalues db (row k)" "row_entries (dctl s) ?v = row_entries (sctl db) (svalues db (row k))"
        by (simp_all add: db_init_start_def)
      then show ?thesis using rec k True by (simp add: db_recorded_def Let_def)
    next
      case False
      note w = barrier_written [OF batch s(2) dn k False]
      have "row_cur (dctl s) ?v (dstore s)" using w(1) db_row_current(1) [OF w(7)] by (simp add: serval_row_wf_def)
      moreover have "dom (row_entries (dctl s) ?v) = writers_at txs k (Suc e)" using w(2,4,7) by (simp add: db_row_pending_def)
      ultimately show ?thesis using w(7) False by (simp add: row_cur_def)
    qed
  qed
qed

lemma serval_db_run_recorded:
  assumes idx: "rows_index idx row D S"
  shows "(\<And>k. Suc e \<le> k \<Longrightarrow> k \<le> e + n \<Longrightarrow> serval_batch txs k D S) \<Longrightarrow> serval_db_ready (Suc e) row D S m0 f0 db \<Longrightarrow>
    db_recorded txs e row D db \<Longrightarrow> run_epochs (\<lambda>k. serval_db_epoch idx sz txs (sched k) k) (Suc e) n db = Inr (Some (db', hs)) \<Longrightarrow>
    db_recorded txs (e + n) row D db' \<and> (\<exists>m f. serval_db_ready (Suc (e + n)) row D S m f db')"
proof (induction n arbitrary: e db m0 f0 hs)
  case (Suc n)
  have batch: "serval_batch txs (Suc e) D S" using Suc.prems(1) by simp
  obtain db1 got rc hs1 where r: "serval_db_epoch idx sz txs (sched (Suc e)) (Suc e) db = Inr (Some (db1, got, rc))"
    "run_epochs (\<lambda>k. serval_db_epoch idx sz txs (sched k) k) (Suc (Suc e)) n db1 = Inr (Some (db', hs1))"
    using Suc.prems(4) by (auto simp: ebind_eq_Inr split: option.splits)
  from serval_db_epoch_run [OF batch idx Suc.prems(2), of sz "sched (Suc e)"] r(1) have
    "serval_db_ready (Suc (Suc e)) row D S (base_record txs (Suc e) m0 f0) (\<lambda>k. next_record (writers_at txs k (Suc e)) (rc k) (f0 k)) db1"
    by auto
  from Suc.IH [OF _ this serval_db_epoch_recorded [OF batch idx Suc.prems(2,3) r(1)] r(2)] Suc.prems(1) show ?case by simp
qed auto

text \<open>The ids that are printed for a row: the writers of the last epoch that writes it, in ascending order.\<close>

definition final_ids :: "operation_set list \<Rightarrow> nat \<Rightarrow> nat list" where
  "final_ids txs key =
     (let e = last_written txs key NUM_EPOCH
      in if e = 0 then [] else filter (\<lambda>i. has_write (txs ! (head_in_the_epoch e + i)) key) [0..<4096])"

lemma print_keys_ok:
  assumes idx: "rows_index idx row D S" and batch: "\<And>k. 1 \<le> k \<Longrightarrow> k \<le> NUM_EPOCH \<Longrightarrow> serval_batch txs k D S"
    and ready: "serval_db_ready (Suc NUM_EPOCH) row D S m f db" and rec: "db_recorded txs NUM_EPOCH row D db" and ks: "set ks \<subseteq> D"
  shows "\<exists>os. print_keys idx txs db ks = Inr os \<and> numbers os = concat (map (\<lambda>k. map int (final_ids txs k)) ks)
    \<and> Str ''<<<<<<<<<'' \<notin> set os"
  using ks
proof (induction ks)
  case (Cons k ks)
  then have k: "k \<in> D" "idx record_table k = Some (row k)" using idx by (simp_all add: rows_index_def)
  let ?v = "svalues db (row k)" let ?e = "last_written txs k NUM_EPOCH"
  have rt: "row_ok (sctl db) ?v (smem db)" "\<forall>v \<in> row_versions (sctl db) ?v. stable (smem db) v"
    using serval_db_readyD(4) [OF ready k(1)] by (simp_all add: row_rested_def)
  have ve: "val_epoch ?v = ?e" using rec k(1) by (simp add: db_recorded_def Let_def)
  have "\<exists>os. print_row txs k ?v (sctl db) (smem db) = Inr os \<and> numbers os = map int (final_ids txs k) \<and> Str ''<<<<<<<<<'' \<notin> set os"
  proof (cases "?e = 0")
    case True
    then show ?thesis by (simp add: print_row_def ve final_ids_def)
  next
    case False
    have d: "\<forall>p \<in> set (ids_slots (global_array ?v)). 0 \<le> fst p" "dom (row_entries (sctl db) ?v) = writers_at txs k ?e"
      using rec k(1) False ve by (simp_all add: db_recorded_def Let_def)
    have "head_in_the_epoch ?e + 4096 \<le> length txs"
      using batch [of ?e] False last_written_le [of txs k NUM_EPOCH] by (simp add: serval_batch_def)
    then have "\<forall>i \<in> writers_at txs k ?e. rightful txs ((?e - 1) * NUM_TXS_IN_ONE_EPOCH) k i"
      by (auto simp: row_writers_def rightful_def head_in_the_epoch_def)
    with print_row_ok [OF rt, of txs k] d ve False obtain os where
      os: "print_row txs k ?v (sctl db) (smem db) = Inr os" "numbers os = map int (filter (\<lambda>i. i \<in> writers_at txs k ?e) [0..<4096])"
      "Str ''<<<<<<<<<'' \<notin> set os" by (auto simp del: upt_rec_numeral)
    have "filter (\<lambda>i. i \<in> writers_at txs k ?e) [0..<4096] = final_ids txs k"
      unfolding final_ids_def Let_def if_not_P [OF False] by (intro filter_cong) (auto simp: row_writers_def simp del: upt_rec_numeral)
    with os show ?thesis by simp
  qed
  with Cons k(2) show ?case by auto
qed simp

section \<open>Caracal's check after a run\<close>

context epoch_protocol
begin

lemma run_ready:
  "ready e row r \<Longrightarrow> e + n \<le> limit \<Longrightarrow> run_epochs (\<lambda>k. epoch_step (sc k) k) e n row = Inr (Some (row', hs)) \<Longrightarrow>
    \<exists>r'. ready (e + n) row' r'"
proof (induction n arbitrary: e row r hs)
  case (Suc n)
  obtain row1 got rc hs1 where st: "epoch_step (sc e) e row = Inr (Some (row1, got, rc))"
    and rest: "run_epochs (\<lambda>k. epoch_step (sc k) k) (Suc e) n row1 = Inr (Some (row', hs1))"
    using Suc.prems(3) by (auto simp: ebind_eq_Inr split: option.splits)
  have "e < limit" "Suc e + n \<le> limit" using Suc.prems(2) by auto
  from Suc.IH [OF epoch_ready [OF Suc.prems(1) this(1) st] this(2) rest] show ?case by simp
qed auto

end

lemma car_print_versions_ok:
  assumes "mem_ok m" and "\<forall>p \<in> set xs. stable m (snd p)"
  shows "\<exists>os. car_print_versions m xs = Inr os \<and> numbers os = map (uint \<circ> fst) xs"
  using assms(2)
proof (induction xs)
  case (Cons p xs)
  then obtain os where "car_print_versions m xs = Inr os" "numbers os = map (uint \<circ> fst) xs" by auto
  moreover obtain x where "load_version (snd p) m = Inr x" "ver_status x = STABLE" using stable_load [of m "snd p"] Cons.prems assms(1) by auto
  ultimately show ?case by (cases p) simp
qed simp

text \<open>
  The assertion of Caracal's \<open>print_database\<close> holds on a row after a whole experiment, and the ids
  of all versions the row still has are printed.
\<close>

lemma caracal_row_prints:
  assumes "car_row_ready 1 row r" and "run_epochs (\<lambda>e. caracal_step sz txs key (sc e) e) 1 NUM_EPOCH row = Inr (Some (row', hs))"
  shows "\<exists>os. car_print_versions (rmem row') (car_slots (rarray row')) = Inr os
    \<and> numbers os = map (uint \<circ> fst) (car_slots (rarray row')) \<and> numbers os \<noteq> []"
proof -
  have "1 + NUM_EPOCH \<le> 2 ^ 32 - 1" by (simp add: NUM_EPOCH_def)
  from caracal_run.run_ready [OF assms(1) this assms(2)] obtain M r' where
    b: "car_base (of_nat (1 + NUM_EPOCH)) (car_slots (rarray row')) (rmem row') M r'"
    "epoch_part (of_nat (1 + NUM_EPOCH)) (car_slots (rarray row')) = {}" by (auto simp: car_row_ready_def car_ready_def)
  have "stable (rmem row') (snd p)" if "p \<in> set (car_slots (rarray row'))" for p
  proof -
    have "p \<notin> epoch_part (of_nat (1 + NUM_EPOCH)) (car_slots (rarray row'))" using b(2) by blast
    then have "fst p < convert_to_serial_id_with_epoch (of_nat (1 + NUM_EPOCH)) 0" using that by (simp add: epoch_part_def)
    then show ?thesis by (rule car_baseD(8) [OF b(1) that])
  qed
  with car_print_versions_ok [OF car_baseD(1) [OF b(1)]] car_baseD(5) [OF b(1)] show ?thesis by fastforce
qed

lemma print_transactions_numbers:
  "numbers (print_transactions txs) =
     concat (map (\<lambda>i. int i # map (\<lambda>j. int (index (rw_set (txs ! i) ! j))) (w_set (txs ! i))) [0..<length txs])"
  by (simp add: print_transactions_def print_transaction_def numbers_concat comp_def)

section \<open>Property\<close>

text \<open>C21: What a run of Serval leaves in the database passes the program's own check. Load a table, run all epochs of any
  transactions as the workload makes them, under any schedules, and call \<open>print_database\<close>: no assertion fails, no freed
  version is used, the loop over the bits of the transaction bitmaps stops within the 64 bits, no mismatch is reported, and
  the ids printed for a row are those of the transactions that write it in the last epoch that writes it at all, in the
  serial order, whether the row's versions are in the global array or in a region.\<close>

theorem serval_prints_writers:
  assumes "rows_index idx (\<lambda>k. k) {..<num_records c} S" and "card S \<le> NUM_REGIONS"
    and "\<And>e. 1 \<le> e \<Longrightarrow> e \<le> NUM_EPOCH \<Longrightarrow> serval_batch txs e {..<num_records c} S"
    and "serval_load_all_tables sz (num_records c) empty_db = Inr db0"
    and "run_epochs (\<lambda>e. serval_db_epoch idx sz txs (sched e) e) 1 NUM_EPOCH db0 = Inr (Some (db, hs))"
  shows "\<exists>os. serval_print_database idx c txs db = Inr os
    \<and> numbers os = concat (map (\<lambda>k. map int (final_ids txs k)) [0..<num_records c]) \<and> Str ''<<<<<<<<<'' \<notin> set os"
proof -
  let ?D = "{..<num_records c}"
  obtain m0 f0 where ready: "serval_db_ready 1 (\<lambda>k. k) ?D S m0 f0 db0"
    using load_ready [of S "num_records c" sz] assms(1,2,4) by (auto simp: rows_index_def)
  have "db_recorded txs 0 (\<lambda>k. k) ?D db0"
    using serval_db_readyD(4) [OF ready] by (simp add: db_recorded_def row_rested_def Let_def)
  moreover have "run_epochs (\<lambda>k. serval_db_epoch idx sz txs (sched k) k) (Suc 0) NUM_EPOCH db0 = Inr (Some (db, hs))"
    using assms(5) by simp
  moreover have "serval_batch txs k ?D S" if "Suc 0 \<le> k" "k \<le> 0 + NUM_EPOCH" for k using assms(3) that by simp
  ultimately obtain m f where "db_recorded txs NUM_EPOCH (\<lambda>k. k) ?D db" "serval_db_ready (Suc NUM_EPOCH) (\<lambda>k. k) ?D S m f db"
    using serval_db_run_recorded [OF assms(1), of 0 NUM_EPOCH] ready by fastforce
  moreover have "set [0..<num_records c] \<subseteq> ?D" by auto
  ultimately show ?thesis using print_keys_ok [OF assms(1,3)] unfolding serval_print_database_def by blast
qed

lemma sample_final_ids: "k < 2 \<Longrightarrow> final_ids sample_batches k = [0]"
proof -
  assume k: "k < 2"
  have e: "1 \<le> NUM_EPOCH" "NUM_EPOCH \<le> NUM_EPOCH" by (simp_all add: NUM_EPOCH_def)
  have "last_written sample_batches k (Suc n) = Suc n" if "Suc n \<le> NUM_EPOCH" for n
    using sample_writers(1) [of "Suc n" k] that k by simp
  from this [of "NUM_EPOCH - 1"] have l: "last_written sample_batches k NUM_EPOCH = NUM_EPOCH" by (simp add: NUM_EPOCH_def)
  have "filter (\<lambda>i. has_write (sample_batches ! (head_in_the_epoch NUM_EPOCH + i)) k) [0..<4096] = filter (\<lambda>i. i = 0) [0..<4096]"
    using sample_batch_nth [OF e] k by (intro filter_cong) (simp_all add: sample_tx_writes del: upt_rec_numeral)
  also have "\<dots> = [0]" by (subst upt_conv_Cons) (auto simp: filter_empty_conv simp del: upt_rec_numeral)
  finally show ?thesis using e by (simp add: final_ids_def l)
qed

theorem serval_prints_writers_witness:
  "\<exists>db0 sched db hs os. serval_load_all_tables 8 2 empty_db = Inr db0
     \<and> run_epochs (\<lambda>e. serval_db_epoch sample_find 8 sample_batches (sched e) e) 1 NUM_EPOCH db0 = Inr (Some (db, hs))
     \<and> serval_print_database sample_find (ycsb_config_init\<lparr>num_records := 2\<rparr>) sample_batches db = Inr os \<and> numbers os = [0, 0]"
proof -
  let ?c = "ycsb_config_init\<lparr>num_records := 2\<rparr>"
  have card: "card {..<2 :: nat} \<le> NUM_REGIONS" by (simp add: NUM_REGIONS_def)
  from load_ready [OF order_refl this, of 8] obtain db0 m0 f0 where
    db: "serval_load_all_tables 8 2 empty_db = Inr db0" "serval_db_ready 1 (\<lambda>k. k) {..<2} {..<2} m0 f0 db0" by blast
  have b: "serval_batch sample_batches e {..<2} {..<2}" if "1 \<le> e" "e < 1 + NUM_EPOCH" for e using sample_serval_batch that by simp
  from serval_db_run_completes [where e = 1 and n = NUM_EPOCH and sz = 8, OF sample_rows_index b db(2)] obtain sched db1 hs where
    r: "run_epochs (\<lambda>e. serval_db_epoch sample_find 8 sample_batches (sched e) e) 1 NUM_EPOCH db0 = Inr (Some (db1, hs))" by auto
  have n: "num_records ?c = 2" by simp
  from serval_prints_writers [of sample_find ?c "{..<2}" sample_batches 8 db0, unfolded n, OF sample_rows_index card sample_serval_batch db(1) r]
  obtain os where os: "serval_print_database sample_find ?c sample_batches db1 = Inr os"
    "numbers os = concat (map (\<lambda>k. map int (final_ids sample_batches k)) [0..<2])" by blast
  have "numbers os = [0, 0]" using os(2) sample_final_ids [of 0] sample_final_ids [of 1] by (simp add: numeral_2_eq_2)
  with db(1) r os(1) show ?thesis by blast
qed

end
