(* ===== verification/Operation_Sets.thy ===== *)
theory Operation_Sets
  imports Operations
begin

text \<open>
  The constructors of class OperationSet in protocols/caracal/include/operation_set.hpp and
  protocols/cheetah/include/operation_set.hpp, loop by loop, and that from one generator they build
  the operations that Serval's constructor (theory Operations) builds: the three protocols run the
  same transactions.
\<close>

section \<open>The rejection loop\<close>

text \<open>\<open>while\<close> the key is taken, draw again; the loop need not return.\<close>

partial_function (option) redraw :: "(nat \<Rightarrow> bool) \<Rightarrow> (u64 \<Rightarrow> nat) \<Rightarrow> nat \<Rightarrow> xoshiro \<Rightarrow> (nat \<times> xoshiro) option" where
  "redraw is_taken key_of key rng =
     (if is_taken key then (case xo_next rng of (r, rng') \<Rightarrow> redraw is_taken key_of (key_of r) rng') else Some (key, rng))"

section \<open>Caracal\<close>

text \<open>The loop over \<open>j < 3\<close>: \<open>n\<close> iterations are left.\<close>

fun caracal_three_keys :: "(u64 \<Rightarrow> nat) \<Rightarrow> ycsb_config \<Rightarrow> nat \<Rightarrow> operation_set \<times> xoshiro \<Rightarrow> (operation_set \<times> xoshiro) option res" where
  "caracal_three_keys zipf c 0 st = Inr (Some st)"
| "caracal_three_keys zipf c (Suc n) (os, rng) =
     ebind (urand_int 1 100 rng) (\<lambda>(operation_type, rng1).
       case xo_next rng1 of (r, rng2) \<Rightarrow>
         case redraw (has_key os) zipf (zipf r) rng2 of
           None \<Rightarrow> Inr None
         | Some (three_of_ten_key, rng3) \<Rightarrow>
             ebind (get_read_propotion c) (\<lambda>read_prop.
               if uint operation_type \<le> read_prop
               then caracal_three_keys zipf c n (os\<lparr>rw_set := rw_set os @ [new_operation Read three_of_ten_key]\<rparr>, rng3)
               else
                 let os1 = os\<lparr>w_set := w_set os @ [length (rw_set os)]\<rparr>
                 in caracal_three_keys zipf c n (os1\<lparr>rw_set := rw_set os1 @ [new_operation Update three_of_ten_key]\<rparr>, rng3)))"

fun caracal_seven_keys :: "(u64 \<Rightarrow> nat) \<Rightarrow> ycsb_config \<Rightarrow> nat \<Rightarrow> operation_set \<times> xoshiro \<Rightarrow> (operation_set \<times> xoshiro) option res" where
  "caracal_seven_keys zipf c 0 st = Inr (Some st)"
| "caracal_seven_keys zipf c (Suc n) (os, rng) =
     ebind (urand_int 1 100 rng) (\<lambda>(operation_type, rng1).
       case xo_next rng1 of (r, rng2) \<Rightarrow>
         case redraw (has_key os) (\<lambda>r. contented_keys ! (zipf r mod 77)) (contented_keys ! (zipf r mod 77)) rng2 of
           None \<Rightarrow> Inr None
         | Some (seven_of_ten_key, rng3) \<Rightarrow>
             ebind (get_read_propotion c) (\<lambda>read_prop.
               if uint operation_type \<le> read_prop
               then caracal_seven_keys zipf c n (os\<lparr>rw_set := rw_set os @ [new_operation Read seven_of_ten_key]\<rparr>, rng3)
               else
                 let os1 = os\<lparr>w_set := w_set os @ [length (rw_set os)]\<rparr>
                 in caracal_seven_keys zipf c n (os1\<lparr>rw_set := rw_set os1 @ [new_operation Update seven_of_ten_key]\<rparr>, rng3)))"

definition caracal_operation_set :: "(u64 \<Rightarrow> nat) \<Rightarrow> ycsb_config \<Rightarrow> xoshiro \<Rightarrow> (operation_set \<times> xoshiro) option res" where
  "caracal_operation_set zipf c rng =
     ebind (caracal_three_keys zipf c 3 (\<lparr>rw_set = [], w_set = []\<rparr>, rng)) (\<lambda>r.
       case r of None \<Rightarrow> Inr None | Some st \<Rightarrow> caracal_seven_keys zipf c 7 st)"

section \<open>Cheetah\<close>

text \<open>Its operations have a pointer to a write bitmap as well.\<close>

record ch_operation = operation +
  op_w_bitmap :: nat

record ch_operation_set =
  ch_rw_set :: "ch_operation list"
  ch_w_set :: "nat list"

definition ch_new_operation :: "ope_kind \<Rightarrow> nat \<Rightarrow> ch_operation" where
  "ch_new_operation operation idx = \<lparr>ope = operation, index = idx, op_value = 0, op_pending = 0, op_w_bitmap = 0\<rparr>"

definition ch_has_key :: "ch_operation_set \<Rightarrow> nat \<Rightarrow> bool" where
  "ch_has_key os key \<longleftrightarrow> find (\<lambda>p. index p = key) (ch_rw_set os) \<noteq> None"

definition ch_no_dupulicate_key :: "ch_operation_set \<Rightarrow> bool" where
  "ch_no_dupulicate_key os \<longleftrightarrow>
     list_all (\<lambda>ope1. \<not> 1 < length (filter (\<lambda>ope2. index ope1 = index ope2) (ch_rw_set os))) (ch_rw_set os)"

fun cheetah_three_keys :: "(u64 \<Rightarrow> nat) \<Rightarrow> ycsb_config \<Rightarrow> nat \<Rightarrow> ch_operation_set \<times> xoshiro \<Rightarrow> (ch_operation_set \<times> xoshiro) option res" where
  "cheetah_three_keys zipf c 0 st = Inr (Some st)"
| "cheetah_three_keys zipf c (Suc n) (os, rng) =
     ebind (urand_int 1 100 rng) (\<lambda>(operation_type, rng1).
       case xo_next rng1 of (r, rng2) \<Rightarrow>
         case redraw (ch_has_key os) zipf (zipf r) rng2 of
           None \<Rightarrow> Inr None
         | Some (three_of_ten_key, rng3) \<Rightarrow>
             ebind (get_read_propotion c) (\<lambda>read_prop.
               if uint operation_type \<le> read_prop
               then cheetah_three_keys zipf c n (os\<lparr>ch_rw_set := ch_rw_set os @ [ch_new_operation Read three_of_ten_key]\<rparr>, rng3)
               else
                 let os1 = os\<lparr>ch_w_set := ch_w_set os @ [length (ch_rw_set os)]\<rparr>
                 in cheetah_three_keys zipf c n (os1\<lparr>ch_rw_set := ch_rw_set os1 @ [ch_new_operation Update three_of_ten_key]\<rparr>, rng3)))"

fun cheetah_seven_keys :: "(u64 \<Rightarrow> nat) \<Rightarrow> ycsb_config \<Rightarrow> nat \<Rightarrow> ch_operation_set \<times> xoshiro \<Rightarrow> (ch_operation_set \<times> xoshiro) option res" where
  "cheetah_seven_keys zipf c 0 st = Inr (Some st)"
| "cheetah_seven_keys zipf c (Suc n) (os, rng) =
     ebind (urand_int 1 100 rng) (\<lambda>(operation_type, rng1).
       case xo_next rng1 of (r, rng2) \<Rightarrow>
         case redraw (ch_has_key os) (\<lambda>r. contented_keys ! (zipf r mod 77)) (contented_keys ! (zipf r mod 77)) rng2 of
           None \<Rightarrow> Inr None
         | Some (seven_of_ten_key, rng3) \<Rightarrow>
             ebind (get_read_propotion c) (\<lambda>read_prop.
               if uint operation_type \<le> read_prop
               then cheetah_seven_keys zipf c n (os\<lparr>ch_rw_set := ch_rw_set os @ [ch_new_operation Read seven_of_ten_key]\<rparr>, rng3)
               else
                 let os1 = os\<lparr>ch_w_set := ch_w_set os @ [length (ch_rw_set os)]\<rparr>
                 in cheetah_seven_keys zipf c n (os1\<lparr>ch_rw_set := ch_rw_set os1 @ [ch_new_operation Update seven_of_ten_key]\<rparr>, rng3)))"

definition cheetah_operation_set :: "(u64 \<Rightarrow> nat) \<Rightarrow> ycsb_config \<Rightarrow> xoshiro \<Rightarrow> (ch_operation_set \<times> xoshiro) option res" where
  "cheetah_operation_set zipf c rng =
     ebind (cheetah_three_keys zipf c 3 (\<lparr>ch_rw_set = [], ch_w_set = []\<rparr>, rng)) (\<lambda>r.
       case r of None \<Rightarrow> Inr None | Some st \<Rightarrow> cheetah_seven_keys zipf c 7 st)"

section \<open>The loop draws what Serval's loop draws\<close>

lemma fresh_redraw:
  "fresh_key key_of os rng = Some y \<Longrightarrow> (case xo_next rng of (r, rng') \<Rightarrow> redraw (has_key os) key_of (key_of r) rng') = Some y"
proof (rule fresh_key.raw_induct [rotated])
  fix f :: "(u64 \<Rightarrow> nat) \<Rightarrow> operation_set \<Rightarrow> xoshiro \<Rightarrow> (nat \<times> xoshiro) option" and key_of os rng y
  assume IH: "\<And>key_of os rng y. f key_of os rng = Some y \<Longrightarrow>
      (case xo_next rng of (r, rng') \<Rightarrow> redraw (has_key os) key_of (key_of r) rng') = Some y"
    and eq: "(case xo_next rng of (r, rng') \<Rightarrow> if has_key os (key_of r) then f key_of os rng' else Some (key_of r, rng')) = Some y"
  obtain r rng' where x: "xo_next rng = (r, rng')" by (cases "xo_next rng")
  show "(case xo_next rng of (r, rng') \<Rightarrow> redraw (has_key os) key_of (key_of r) rng') = Some y"
  proof (cases "has_key os (key_of r)")
    case True
    then have "f key_of os rng' = Some y" using eq x by simp
    from IH [OF this] show ?thesis using x True by (simp add: redraw.simps [of "has_key os" key_of "key_of r"])
  next
    case False
    then show ?thesis using eq x by (simp add: redraw.simps)
  qed
qed

lemma redraw_fresh:
  "redraw is_taken key_of key rng = Some y \<Longrightarrow> is_taken = has_key os \<Longrightarrow>
    (if has_key os key then fresh_key key_of os rng else Some (key, rng)) = Some y"
proof (induction arbitrary: os rule: redraw.raw_induct [rotated, consumes 1])
  case (1 f is_taken key_of key rng y)
  show ?case
  proof (cases "has_key os key")
    case True
    obtain r rng' where x: "xo_next rng = (r, rng')" by (cases "xo_next rng")
    have "f is_taken key_of (key_of r) rng' = Some y" using "1.hyps" True x "1.prems" by simp
    from "1.IH" [OF this, of os] "1.prems" True x show ?thesis by (subst fresh_key.simps) simp
  next
    case False
    then show ?thesis using "1.prems" "1.hyps" by simp
  qed
qed

lemma redraw_eq: "(case xo_next rng of (r, rng') \<Rightarrow> redraw (has_key os) key_of (key_of r) rng') = fresh_key key_of os rng"
proof (cases "case xo_next rng of (r, rng') \<Rightarrow> redraw (has_key os) key_of (key_of r) rng'")
  case None
  then show ?thesis using fresh_redraw [of key_of os rng] by (cases "fresh_key key_of os rng") auto
next
  case (Some y)
  obtain r rng' where x: "xo_next rng = (r, rng')" by (cases "xo_next rng")
  from Some x have "redraw (has_key os) key_of (key_of r) rng' = Some y" by simp
  from redraw_fresh [OF this refl] show ?thesis using Some x by (subst fresh_key.simps) simp
qed

section \<open>The same operation sets\<close>

lemma redraw_at: "xo_next rng = (r, rng') \<Longrightarrow> redraw (has_key os) key_of (key_of r) rng' = fresh_key key_of os rng"
  using redraw_eq [where rng = rng and os = os and key_of = key_of] by simp

lemma read_propotion_known: "0 \<le> read_propotion c \<Longrightarrow> get_read_propotion c = Inr (read_propotion c)"
  by (simp add: get_read_propotion_def)

lemma add_operation_cases:
  "t \<le> p \<Longrightarrow> os\<lparr>rw_set := rw_set os @ [new_operation Read key]\<rparr> = add_operation t p key os"
  "\<not> t \<le> p \<Longrightarrow> os\<lparr>w_set := w_set os @ [length (rw_set os)], rw_set := rw_set os @ [new_operation Update key]\<rparr> = add_operation t p key os"
  by (simp_all add: add_operation_def)

text \<open>A loop whose iteration draws and adds as Serval's does is Serval's loop.\<close>

lemma loop_is_add_operations:
  assumes "\<And>st. f 0 st = Inr (Some st)"
    and "\<And>n os rng t rng1 r rng2. urand_int 1 100 rng = Inr (t, rng1) \<Longrightarrow> xo_next rng1 = (r, rng2) \<Longrightarrow>
      f (Suc n) (os, rng) = (case redraw (has_key os) key_of (key_of r) rng2 of None \<Rightarrow> Inr None
        | Some (key, rng3) \<Rightarrow> f n (add_operation (uint t) p key os, rng3))"
  shows "f n st = add_operations key_of p n st"
proof (induction n arbitrary: st)
  case (Suc n)
  obtain os rng where st: "st = (os, rng)" by (cases st)
  obtain t where t: "urand_int 1 100 rng = Inr (t, xo_state_step rng)"
    by (rule urand_int_bounds [of 1 100]) (auto simp: word_le_def)
  obtain r rng2 where x: "xo_next (xo_state_step rng) = (r, rng2)" by (cases "xo_next (xo_state_step rng)")
  show ?case
    by (cases "fresh_key key_of os (xo_state_step rng)") (auto simp: st assms(2) [OF t x] redraw_at [OF x] t Suc.IH)
qed (simp add: assms(1))

lemma caracal_loops:
  assumes "0 \<le> read_propotion c"
  shows "caracal_three_keys zipf c n st = add_operations zipf (read_propotion c) n st"
    "caracal_seven_keys zipf c n st = add_operations (\<lambda>r. contented_keys ! (zipf r mod 77)) (read_propotion c) n st"
  by (rule loop_is_add_operations [of "caracal_three_keys zipf c"],
      auto simp: read_propotion_known [OF assms] add_operation_cases Let_def split: option.split)
    (rule loop_is_add_operations [of "caracal_seven_keys zipf c"],
      auto simp: read_propotion_known [OF assms] add_operation_cases Let_def split: option.split)

text \<open>Cheetah's operations without their bitmap pointers.\<close>

definition plain_set :: "ch_operation_set \<Rightarrow> operation_set" where
  "plain_set os = \<lparr>rw_set = map operation.truncate (ch_rw_set os), w_set = ch_w_set os\<rparr>"

definition plain_result :: "(ch_operation_set \<times> xoshiro) option res \<Rightarrow> (operation_set \<times> xoshiro) option res" where
  "plain_result = map_sum id (map_option (apfst plain_set))"

lemma plain_result_simps [simp]:
  "plain_result (Inl e) = Inl e" "plain_result (Inr None) = Inr None" "plain_result (Inr (Some (os, rng))) = Inr (Some (plain_set os, rng))"
  by (simp_all add: plain_result_def)

lemma ch_has_key_plain: "ch_has_key os = has_key (plain_set os)"
  by (auto simp: fun_eq_iff ch_has_key_def has_key_def plain_set_def find_None_iff operation.truncate_def)

lemma ch_new_plain: "operation.truncate (ch_new_operation k idx) = new_operation k idx"
  by (simp add: ch_new_operation_def new_operation_def operation.truncate_def)

lemma ch_add_plain:
  "t \<le> p \<Longrightarrow> plain_set (os\<lparr>ch_rw_set := ch_rw_set os @ [ch_new_operation Read key]\<rparr>) = add_operation t p key (plain_set os)"
  "\<not> t \<le> p \<Longrightarrow> plain_set (os\<lparr>ch_w_set := ch_w_set os @ [length (ch_rw_set os)], ch_rw_set := ch_rw_set os @ [ch_new_operation Update key]\<rparr>) =
     add_operation t p key (plain_set os)"
  by (simp_all add: plain_set_def add_operation_def ch_new_plain)

lemma ch_loop_is_add_operations:
  assumes "\<And>st. f 0 st = Inr (Some st)"
    and "\<And>n os rng t rng1 r rng2. urand_int 1 100 rng = Inr (t, rng1) \<Longrightarrow> xo_next rng1 = (r, rng2) \<Longrightarrow>
      (case redraw (has_key (plain_set os)) key_of (key_of r) rng2 of None \<Rightarrow> f (Suc n) (os, rng) = Inr None
        | Some (key, rng3) \<Rightarrow> \<exists>os'. f (Suc n) (os, rng) = f n (os', rng3) \<and> plain_set os' = add_operation (uint t) p key (plain_set os))"
  shows "plain_result (f n (os, rng)) = add_operations key_of p n (plain_set os, rng)"
proof (induction n arbitrary: os rng)
  case (Suc n)
  obtain t where t: "urand_int 1 100 rng = Inr (t, xo_state_step rng)"
    by (rule urand_int_bounds [of 1 100]) (auto simp: word_le_def)
  obtain r rng2 where x: "xo_next (xo_state_step rng) = (r, rng2)" by (cases "xo_next (xo_state_step rng)")
  note step = assms(2) [OF t x, where os = os and n = n]
  show ?case
  proof (cases "fresh_key key_of (plain_set os) (xo_state_step rng)")
    case None
    then show ?thesis using step by (simp add: t redraw_at [OF x])
  next
    case (Some y)
    then obtain key rng3 where y: "fresh_key key_of (plain_set os) (xo_state_step rng) = Some (key, rng3)" by (cases y) simp
    with step obtain os' where "f (Suc n) (os, rng) = f n (os', rng3)" "plain_set os' = add_operation (uint t) p key (plain_set os)"
      by (auto simp: redraw_at [OF x])
    then show ?thesis by (simp add: t y Suc.IH)
  qed
qed (simp add: assms(1))

lemma cheetah_loops:
  assumes "0 \<le> read_propotion c"
  shows "plain_result (cheetah_three_keys zipf c n (os, rng)) = add_operations zipf (read_propotion c) n (plain_set os, rng)"
    "plain_result (cheetah_seven_keys zipf c n (os, rng)) =
       add_operations (\<lambda>r. contented_keys ! (zipf r mod 77)) (read_propotion c) n (plain_set os, rng)"
  by (rule ch_loop_is_add_operations [of "cheetah_three_keys zipf c"],
      auto simp: read_propotion_known [OF assms] ch_has_key_plain Let_def ch_add_plain intro!: exI split: option.split)
    (rule ch_loop_is_add_operations [of "cheetah_seven_keys zipf c"],
      auto simp: read_propotion_known [OF assms] ch_has_key_plain Let_def ch_add_plain intro!: exI split: option.split)

lemma unset_proportion:
  assumes "\<not> 0 \<le> read_propotion c"
  shows "\<exists>e. make_operation_set zipf c rng = Inl e \<and> caracal_operation_set zipf c rng = Inl e \<and> cheetah_operation_set zipf c rng = Inl e"
proof -
  obtain t where t: "urand_int 1 100 rng = Inr (t, xo_state_step rng)"
    by (rule urand_int_bounds [of 1 100]) (auto simp: word_le_def)
  have empty: "redraw P key_of key rng' = Some (key, rng')" if "\<not> P key" for P key_of key rng'
    using that by (simp add: redraw.simps)
  show ?thesis using assms
    by (auto simp: numeral_3_eq_3 make_operation_set_def caracal_operation_set_def cheetah_operation_set_def get_read_propotion_def t empty
        has_key_def ch_has_key_def case_prod_unfold)
qed

text \<open>C33: The three protocols' constructors build the same operations on the same records from the same
  generator, and fail or do not return in the same cases; Cheetah's operations only have a further pointer.\<close>

theorem operation_sets_agree:
  "caracal_operation_set zipf c rng = make_operation_set zipf c rng
    \<and> plain_result (cheetah_operation_set zipf c rng) = make_operation_set zipf c rng"
proof (cases "0 \<le> read_propotion c")
  case True
  have car: "caracal_operation_set zipf c rng = make_operation_set zipf c rng"
    by (simp add: caracal_operation_set_def make_operation_set_def caracal_loops [OF True] read_propotion_known [OF True] cong: option.case_cong)
  let ?three = "cheetah_three_keys zipf c 3 (\<lparr>ch_rw_set = [], ch_w_set = []\<rparr>, rng)"
  have three: "plain_result ?three = add_operations zipf (read_propotion c) 3 (\<lparr>rw_set = [], w_set = []\<rparr>, rng)"
    using cheetah_loops(1) [OF True] by (simp add: plain_set_def)
  have "plain_result (cheetah_operation_set zipf c rng) = make_operation_set zipf c rng"
  proof (cases ?three)
    case (Inl e)
    then show ?thesis using three by (simp add: cheetah_operation_set_def make_operation_set_def read_propotion_known [OF True] flip: three)
  next
    case (Inr r)
    show ?thesis
    proof (cases r)
      case None
      then show ?thesis by (simp add: cheetah_operation_set_def make_operation_set_def read_propotion_known [OF True] Inr flip: three)
    next
      case (Some st)
      obtain os rng' where "st = (os, rng')" by (cases st)
      with Some Inr show ?thesis
        by (simp add: cheetah_operation_set_def make_operation_set_def read_propotion_known [OF True] cheetah_loops(2) [OF True] flip: three)
    qed
  qed
  with car show ?thesis by simp
next
  case False
  from unset_proportion [OF this, of zipf rng] show ?thesis by auto
qed

end
