(* ===== verification/Caracal_Frame.thy ===== *)
theory Caracal_Frame
  imports Caracal_Phases Db_Execution
begin

text \<open>
  What one Caracal row depends on, and what the accesses to a row leave alone: the facts that let
  the rows of a database, which share the store, the row buffers and the workers' spare buffers,
  be treated one by one.
\<close>

section \<open>The footprint of a row\<close>

definition car_foot :: "car_conf \<Rightarrow> nat set" where
  "car_foot s = snd ` set (car_slots (crow s)) \<union> (\<Union>w. snd ` set (core_buffer s w))"

lemma car_base_foot:
  assumes base: "car_base e xs m M r0"
  shows "M \<in> snd ` set xs"
proof -
  obtain i where "visible_entry (car_entries xs) (unat (epoch_id e)) = Some (i, M)" using base by (auto simp: car_base_def)
  then show ?thesis unfolding visible_entry_Some
    by (auto simp: car_entries_def split: if_splits dest!: map_of_SomeD intro: rev_image_eqI)
qed

lemma car_base_frame:
  assumes base: "car_base e xs m M r0" and m': "mem_ok m'" and same: "\<forall>v \<in> snd ` set xs. vers m' v = vers m v"
  shows "car_base e xs m' M r0"
proof -
  have "live m' (snd p) = live m (snd p)" "stable m' (snd p) = stable m (snd p)" if "p \<in> set xs" for p
    using same that by (simp_all add: live_def stable_def)
  moreover have "vers m' M = vers m M" using same car_base_foot [OF base] by blast
  then have "stab m' M r0" using car_baseD(9) [OF base] by (simp add: stab_def)
  ultimately show ?thesis using base m' by (auto simp: car_base_def car_wf_def)
qed

lemma car_data_foot:
  assumes d: "car_data e M r0 (car_slots (crow s)) (cstore s) pnd (core_buffer s)" and v: "pnd i = Some v"
  shows "v \<in> car_foot s"
proof -
  have "(gid e i, v) \<in> {(gid e i, v) |i v. pnd i = Some v}" using v by blast
  then have "(gid e i, v) \<in> epoch_part e (car_slots (crow s)) \<union> (\<Union>w. set (core_buffer s w))"
    using car_dataD(2) [OF d] by blast
  then show ?thesis unfolding car_foot_def epoch_part_def by force
qed

lemma car_data_frame:
  assumes d: "car_data e M r0 (car_slots (crow s)) (cstore s) pnd (core_buffer s)" and m': "mem_ok m'"
    and same: "\<forall>v \<in> car_foot s. vers m' v = vers (cstore s) v"
  shows "car_data e M r0 (car_slots (crow s)) m' pnd (core_buffer s)"
proof -
  have "\<forall>v \<in> snd ` set (car_slots (crow s)). vers m' v = vers (cstore s) v" using same by (auto simp: car_foot_def)
  note base = car_base_frame [OF car_dataD(1) [OF d] m' this]
  have "pend m' v = pend (cstore s) v" if "pnd i = Some v" for i v
    using same car_data_foot [OF d that] by (simp add: pend_def)
  then show ?thesis using car_dataD(2-7) [OF d] by (intro car_dataI [OF base]) simp_all
qed

lemma car_foot_less:
  assumes d: "car_data e M r0 (car_slots (crow s)) (cstore s) pnd (core_buffer s)" and v: "v \<in> car_foot s"
  shows "v < brk (cstore s)"
proof -
  have "live (cstore s) v"
  proof (cases "v \<in> snd ` set (car_slots (crow s))")
    case True
    then show ?thesis using car_baseD(7) [OF car_dataD(1) [OF d]] by auto
  next
    case False
    then obtain w p where "p \<in> set (core_buffer s w)" "v = snd p" using v by (auto simp: car_foot_def)
    then obtain i where "pnd i = Some v" using car_data_version [OF d] by blast
    then show ?thesis using car_dataD(6) [OF d] by (auto simp: pend_def live_def)
  qed
  then show ?thesis using live_less_brk car_baseD(1) [OF car_dataD(1) [OF d]] by blast
qed

section \<open>What a step on a row changes\<close>

text \<open>Collections and appends change versions of the array only.\<close>

lemma minor_gc_loop_frame:
  "minor_gc_loop sid xs m = Inr (zs, m') \<Longrightarrow> set zs \<subseteq> set xs \<and> brk m' = brk m \<and> (\<forall>v. v \<notin> snd ` set xs \<longrightarrow> vers m' v = vers m v)"
proof (induction sid xs m arbitrary: zs m' rule: minor_gc_loop.induct)
  case (1 sid p q rest m)
  show ?case
  proof (cases "sid \<le> fst q")
    case False
    with 1(2) obtain m1 where m1: "car_gc p sid m = Inr m1" "minor_gc_loop sid (q # rest) m1 = Inr (zs, m')"
      by (auto simp: ebind_eq_Inr)
    have "brk m1 = brk m \<and> (\<forall>v. v \<noteq> snd p \<longrightarrow> vers m1 v = vers m v)"
      using m1(1) by (auto simp: car_gc_def delete_version_def ebind_eq_Inr guard_eq_Inr)
    with 1(1) [OF False m1] show ?thesis by auto
  qed (use 1(2) in auto)
qed auto

lemma car_minor_gc_frame:
  assumes "car_minor_gc e xs m = Inr (zs, m')"
  shows "set zs \<subseteq> set xs" "brk m' = brk m" "v \<notin> snd ` set xs \<Longrightarrow> vers m' v = vers m v"
  using assms minor_gc_loop_frame [of "epoch_id e" xs m zs m'] by (auto simp: car_minor_gc_def Let_def ebind_eq_Inr guard_eq_Inr)

lemma append_all_frame: "append_all_no_gc buf xs = Inr xs' \<Longrightarrow> set xs' = set xs \<union> set buf"
  by (induction buf xs arbitrary: xs' rule: append_all_no_gc.induct) (auto simp: append_with_no_gc_def ebind_eq_Inr guard_eq_Inr)

lemma batch_append_frame:
  assumes "batch_append buf e xs m = Inr (xs', buf', m')"
  shows "set xs' \<subseteq> set xs \<union> set buf" "buf' = []" "brk m' = brk m" "v \<notin> snd ` set xs \<Longrightarrow> vers m' v = vers m v"
proof -
  obtain zs where g: "car_minor_gc e xs m = Inr (zs, m')" "append_all_no_gc buf zs = Inr xs'" "buf' = []"
    using assms by (auto simp: batch_append_def ebind_eq_Inr)
  show "buf' = []" by (rule g(3))
  show "set xs' \<subseteq> set xs \<union> set buf" using append_all_frame [OF g(2)] car_minor_gc_frame(1) [OF g(1)] by blast
  show "brk m' = brk m" "v \<notin> snd ` set xs \<Longrightarrow> vers m' v = vers m v" using car_minor_gc_frame(2,3) [OF g(1)] by simp_all
qed

lemma append_with_gc_frame:
  assumes "append_with_gc e n v0 xs m = Inr (xs', m')"
  shows "snd ` set xs' \<subseteq> insert v0 (snd ` set xs)" "brk m' = brk m" "v \<notin> snd ` set xs \<Longrightarrow> vers m' v = vers m v"
proof -
  obtain zs where g: "car_minor_gc e xs m = Inr (zs, m')" "xs' = insert_ascending (convert_to_serial_id_with_epoch e n) v0 zs"
    using assms by (auto simp: append_with_gc_def append_with_no_gc_def ebind_eq_Inr guard_eq_Inr)
  show "snd ` set xs' \<subseteq> insert v0 (snd ` set xs)" using car_minor_gc_frame(1) [OF g(1)] by (auto simp: g(2))
  show "brk m' = brk m" "v \<notin> snd ` set xs \<Longrightarrow> vers m' v = vers m v" using car_minor_gc_frame(2,3) [OF g(1)] by simp_all
qed

text \<open>
  The row's own versions and fresh ones, its own row buffer; the worker may take the next unused
  row buffer or install the one it holds.
\<close>

abbreviation held_by :: "car_conf \<Rightarrow> nat \<Rightarrow> nat option" where
  "held_by s \<equiv> held (cspare s) (cpc s)"

definition pool_move :: "nat \<Rightarrow> car_conf \<Rightarrow> car_conf \<Rightarrow> bool" where
  "pool_move w s s' \<longleftrightarrow>
     (cptr s' = cptr s \<and> used_buffers (cbufs s') = used_buffers (cbufs s) \<and> held_by s' w = held_by s w)
     \<or> (cptr s' = cptr s \<and> used_buffers (cbufs s') = Suc (used_buffers (cbufs s)) \<and> held_by s w = None
         \<and> held_by s' w = Some (used_buffers (cbufs s)))
     \<or> (cptr s = None \<and> used_buffers (cbufs s') = used_buffers (cbufs s) \<and> held_by s' w = None
         \<and> (\<exists>b. cptr s' = Some b \<and> held_by s w = Some b))"

definition car_moves :: "nat \<Rightarrow> car_conf \<Rightarrow> car_conf \<Rightarrow> bool" where
  "car_moves w s s' \<longleftrightarrow> brk (cstore s) \<le> brk (cstore s')
     \<and> car_foot s' \<subseteq> car_foot s \<union> {brk (cstore s)..}
     \<and> (\<forall>v < brk (cstore s). v \<notin> car_foot s \<longrightarrow> vers (cstore s') v = vers (cstore s) v)
     \<and> (\<forall>b. cptr s' \<noteq> Some b \<longrightarrow> row_buffers (cbufs s') b = row_buffers (cbufs s) b)
     \<and> pool_move w s s'"

lemma car_foot_set:
  assumes "cptr s = Some b"
  shows "car_foot (set_core_buffer b w buf s) = snd ` set (car_slots (crow s)) \<union> (\<Union>u. snd ` set (if u = w then buf else core_buffer s u))"
  using assms by (simp add: car_foot_def core_buffer_set fun_upd_def)

lemma car_foot_simps [simp]:
  "car_foot (s\<lparr>cstore := m\<rparr>) = car_foot s" "car_foot (s\<lparr>cspare := sp\<rparr>) = car_foot s" "car_foot (s\<lparr>cpc := pcs\<rparr>) = car_foot s"
  "car_foot (s\<lparr>ctodo := t\<rparr>) = car_foot s" "car_foot (s\<lparr>cpend := pd\<rparr>) = car_foot s" "car_foot (s\<lparr>cregistered := r\<rparr>) = car_foot s"
  "car_foot (s\<lparr>crow := a\<rparr>) = snd ` set (car_slots a) \<union> (\<Union>w. snd ` set (core_buffer s w))"
  by (simp_all add: car_foot_def)

text \<open>A step that goes to another program point.\<close>

lemma pool_move_pc:
  assumes "cptr s' = cptr s" and "used_buffers (cbufs s') = used_buffers (cbufs s)" and "cspare s' w = cspare s w"
    and "installing (cpc s' w) = installing (cpc s w)"
  shows "pool_move w s s'"
proof -
  have "held_by s' w = held_by s w" using assms(3,4) by (cases "installing (cpc s w)") (simp_all add: held_def)
  then show ?thesis using assms(1,2) by (simp add: pool_move_def)
qed

lemma car_moves_refl [simp]: "car_moves w s s"
  by (simp add: car_moves_def pool_move_def)

lemma car_moves_goto:
  assumes "car_slots a = car_slots (crow s)" and "installing pc = installing (cpc s w)"
  shows "car_moves w s (s\<lparr>crow := a, cpc := (cpc s)(w := pc)\<rparr>)" "car_moves w s (s\<lparr>ctodo := t, cpc := (cpc s)(w := pc)\<rparr>)"
  using assms by (auto simp: car_moves_def car_foot_def pool_move_def held_def)

lemma car_moves_batch:
  assumes st: "car_batch e w pc s = Inr s'" and "installing pc = None" and "installing (cpc s w) = None"
  shows "car_moves w s (s'\<lparr>cregistered := reg\<rparr>)"
proof -
  obtain b xs buf m where b: "cptr s = Some b" "batch_append (core_buffer s w) e (car_slots (crow s)) (cstore s) = Inr (xs, buf, m)"
    "s' = (set_core_buffer b w buf s)\<lparr>crow := car_unlock ((crow s)\<lparr>car_slots := xs\<rparr>), cstore := m, cpc := (cpc s)(w := pc)\<rparr>"
    using st by (auto simp: car_batch_def ebind_eq_Inr split: option.splits)
  note f = batch_append_frame [OF b(2)]
  have "pool_move w s (s'\<lparr>cregistered := reg\<rparr>)"
    by (rule pool_move_pc) (use assms in \<open>simp_all add: b(3) set_core_buffer_def\<close>)
  moreover have "car_foot (s'\<lparr>cregistered := reg\<rparr>) = snd ` set xs \<union> (\<Union>u. snd ` set (if u = w then [] else core_buffer s u))"
    by (simp add: b(3) core_buffer_set [OF b(1)] car_unlock_def f(2) fun_upd_def)
  moreover have "snd ` set xs \<subseteq> car_foot s" using f(1) by (force simp: car_foot_def)
  moreover have "snd ` set (if u = w then [] else core_buffer s u) \<subseteq> car_foot s" for u by (auto simp: car_foot_def)
  ultimately have "pool_move w s (s'\<lparr>cregistered := reg\<rparr>)" "car_foot (s'\<lparr>cregistered := reg\<rparr>) \<subseteq> car_foot s" by (simp_all only:) blast
  moreover have "row_buffers (cbufs s') d = row_buffers (cbufs s) d" if "cptr s' \<noteq> Some d" for d
    using that b(1) by (auto simp: b(3) set_core_buffer_def)
  moreover have "vers m v = vers (cstore s) v" if "v \<notin> car_foot s" for v using f(4) [of v] that by (simp add: car_foot_def)
  ultimately show ?thesis using f(3) by (auto simp: car_moves_def) (simp_all add: b(3))
qed

lemma car_init_step_moves:
  assumes inv: "car_inv e M r0 W s" and st: "car_init_step e w s = Inr s'"
  shows "car_moves w s s'"
proof (cases "cpc s w")
  case CNext
  then show ?thesis using st car_moves_goto(1) [where a = "crow s" and s = s and w = w] car_moves_goto(2) [where s = s and w = w and a = "crow s"]
    by (auto simp: car_init_step_def split: list.splits)
next
  case (CTryLock i)
  obtain ok a where t: "car_try_lock (crow s) = (ok, a)" by fastforce
  have "car_slots a = car_slots (crow s)" using t by (cases "try_lock (car_rwl (crow s))") (auto simp: car_try_lock_def)
  from car_moves_goto(1) [OF this, of _ w] show ?thesis using st t CTryLock by (auto simp: car_init_step_def)
next
  case CFinal
  obtain ok a where t: "car_try_lock (crow s) = (ok, a)" by fastforce
  have "car_slots a = car_slots (crow s)" using t by (cases "try_lock (car_rwl (crow s))") (auto simp: car_try_lock_def)
  from car_moves_goto(1) [OF this, of _ w]
  show ?thesis using st t CFinal by (auto simp: car_init_step_def split: if_splits)
next
  case CBatch
  have sl: "car_slots a = car_slots (crow s)" if "car_lock (crow s) = Some a" for a using that by (auto simp: car_lock_def)
  show ?thesis using st CBatch car_moves_goto(1) [OF sl, of _ CBatchLocked w]
    by (auto simp: car_init_step_def split: option.splits)
next
  case CBatchLocked
  then have "car_batch e w CNext s = Inr s'" using st by (simp add: car_init_step_def)
  from car_moves_batch [OF this, of "cregistered s'"] CBatchLocked show ?thesis by simp
next
  case CFinalLocked
  then obtain s1 where s1: "car_batch e w CEnd s = Inr s1" "s' = s1\<lparr>cregistered := cregistered s1 - {w}\<rparr>"
    using st by (auto simp: car_init_step_def ebind_eq_Inr)
  from car_moves_batch [OF s1(1)] CFinalLocked show ?thesis by (simp add: s1(2))
next
  case CEnd
  then show ?thesis using st by (simp add: car_init_step_def)
next
  case (CAppendLocked i)
  obtain v m1 where c: "create_pending_version (cstore s) = (v, m1)" by fastforce
  obtain xs m2 where a: "append_with_gc e (of_nat i) v (car_slots (crow s)) m1 = Inr (xs, m2)"
    "s' = s\<lparr>crow := car_unlock ((crow s)\<lparr>car_slots := xs\<rparr>), cstore := m2, cpend := (cpend s)(i \<mapsto> v), cpc := (cpc s)(w := CNext)\<rparr>"
    using st CAppendLocked c by (auto simp: car_init_step_def ebind_eq_Inr guard_eq_Inr)
  note n = c [unfolded create_pending_version_eq] and f = append_with_gc_frame [OF a(1)]
  have "pool_move w s s'" by (rule pool_move_pc) (simp_all add: a(2) CAppendLocked)
  moreover have "car_foot s' \<subseteq> car_foot s \<union> {brk (cstore s)..}"
    using f(1) n by (auto simp: a(2) car_foot_def car_unlock_def)
  moreover have "vers m2 u = vers (cstore s) u" if "u < brk (cstore s)" "u \<notin> car_foot s" for u
    using f(3) [of u] that n by (auto simp: car_foot_def)
  ultimately show ?thesis using f(2) n by (auto simp: car_moves_def a(2))
next
  case (CFetch i)
  have none: "core_buffer s' u = core_buffer s u" "crow s' = crow s" for u
    using st CFetch by (auto simp: car_init_step_def core_buffer_def fetch_new_buffer_def ebind_eq_Inr guard_eq_Inr split: option.splits if_splits)
  have "pool_move w s s'" "row_buffers (cbufs s') = row_buffers (cbufs s)" "cstore s' = cstore s"
    using st CFetch by (auto simp: car_init_step_def pool_move_def held_def fetch_new_buffer_def ebind_eq_Inr guard_eq_Inr split: option.splits if_splits)
  then show ?thesis by (auto simp: car_moves_def car_foot_def none)
next
  case (CInstall i b)
  note p = car_invD(4) [OF inv]
  have sp: "cspare s w = None" using car_poolD(4) [OF p, of w] CInstall by simp
  have h: "held_by s w = Some b" using CInstall by (simp add: held_def)
  have "row_buffers (cbufs s) b u = []" for u using car_poolD(2) [OF p h] by simp
  then have cb: "core_buffer s' u = core_buffer s u" for u
    using st CInstall by (auto simp: car_init_step_def compare_exchange_def core_buffer_def split: option.splits if_splits)
  have "pool_move w s s'"
    using st CInstall sp by (auto simp: car_init_step_def compare_exchange_def pool_move_def held_def split: if_splits)
  moreover have "crow s' = crow s" "cbufs s' = cbufs s" "cstore s' = cstore s"
    using st CInstall by (auto simp: car_init_step_def compare_exchange_def split: if_splits)
  ultimately show ?thesis by (auto simp: car_moves_def car_foot_def cb)
next
  case (CInsert i)
  obtain v m1 where c: "create_pending_version (cstore s) = (v, m1)" by fastforce
  note n = c [unfolded create_pending_version_eq]
  obtain b ok buf where a: "cptr s = Some b" "appendable v e (of_nat i) (core_buffer s w) = Inr (ok, buf)"
    "s' = (set_core_buffer b w buf s)\<lparr>cstore := m1, cpend := (cpend s)(i \<mapsto> v),
       cregistered := (if ok then insert w (cregistered s) else cregistered s), cpc := (cpc s)(w := if ok then CNext else CBatch)\<rparr>"
    using st CInsert c by (auto simp: car_init_step_def ebind_eq_Inr split: option.splits)
  have "pool_move w s s'" by (rule pool_move_pc) (simp_all add: a(3) CInsert set_core_buffer_def)
  moreover have buf: "snd ` set buf \<subseteq> insert v (snd ` set (core_buffer s w))"
    using a(2) by (auto simp: appendable_def Let_def guard_eq_Inr)
  have "snd ` set (if u = w then buf else core_buffer s u) \<subseteq> car_foot s \<union> {brk (cstore s)..}" for u
  proof (cases "u = w")
    case True
    have "v \<in> {brk (cstore s)..}" "snd ` set (core_buffer s w) \<subseteq> car_foot s" using n by (auto simp: car_foot_def)
    with buf show ?thesis unfolding if_P [OF True] by blast
  qed (auto simp: car_foot_def)
  then have "(\<Union>u. snd ` set (if u = w then buf else core_buffer s u)) \<subseteq> car_foot s \<union> {brk (cstore s)..}" by blast
  moreover have "car_foot s' = snd ` set (car_slots (crow s)) \<union> (\<Union>u. snd ` set (if u = w then buf else core_buffer s u))"
    by (simp add: a(3) car_foot_set [OF a(1)])
  moreover have "snd ` set (car_slots (crow s)) \<subseteq> car_foot s" by (simp add: car_foot_def)
  ultimately have "pool_move w s s'" "car_foot s' \<subseteq> car_foot s \<union> {brk (cstore s)..}" by (simp_all only:) blast
  moreover have "row_buffers (cbufs s') d = row_buffers (cbufs s) d" if "cptr s' \<noteq> Some d" for d
    using that a(1) by (auto simp: a(3) set_core_buffer_def)
  ultimately show ?thesis using n by (auto simp: car_moves_def) (simp_all add: a(3))
qed

lemma car_init_step_others:
  assumes "car_init_step e w s = Inr s'"
  shows "u \<noteq> w \<Longrightarrow> cspare s' u = cspare s u" "u \<noteq> w \<Longrightarrow> u \<in> cregistered s' \<longleftrightarrow> u \<in> cregistered s"
    "cpc s w \<noteq> CNext \<Longrightarrow> ctodo s' w = ctodo s w"
  using assms by (auto simp: car_init_step_def car_batch_def Let_def ebind_eq_Inr guard_eq_Inr case_prod_unfold
      split: car_pc.splits list.splits option.splits if_splits)

section \<open>What a step on one row means for the others\<close>

text \<open>The pool of row buffers as another row sees it, given how many buffers are in use at most.\<close>

lemma car_pool_other:
  assumes p: "car_pool q c sp pcs" and h: "held sp' pcs' = held sp pcs"
    and "\<And>w b. held sp pcs w = Some b \<Longrightarrow> q' \<noteq> Some b" and "\<And>b. q' = Some b \<Longrightarrow> b < used_buffers c"
    and "\<And>w. installing (pcs' w) \<noteq> None \<Longrightarrow> sp' w = None"
    and "used_buffers c + card {w. w < 64 \<and> held sp pcs w = None \<and> (q' = None \<or> before_fetch (pcs' w))} \<le> NUM_BUFFERS"
  shows "car_pool q' c sp' pcs'"
proof (rule car_poolI, unfold h)
  show "used_buffers c \<le> b \<Longrightarrow> row_buffers c b w = []" for b w by (rule car_poolD(1) [OF p])
  show "held sp pcs w = Some b \<Longrightarrow> b < used_buffers c \<and> q' \<noteq> Some b \<and> (\<forall>u. row_buffers c b u = [])" for w b
    using car_poolD(2) [OF p] assms(3) by blast
  show "held sp pcs w = Some b \<Longrightarrow> held sp pcs u = Some b \<Longrightarrow> w = u" for w u b by (rule car_poolD(3) [OF p])
qed (fact assms)+

text \<open>Row \<open>t\<close> after a step that took the row of \<open>s\<close> to \<open>s'\<close>.\<close>

lemma car_inv_other:
  assumes inv: "car_inv e M r0 W t" and mv: "car_moves w s s'" and same: "cbufs s = cbufs t" "cstore s = cstore t"
    and m': "mem_ok (cstore s')" and foot: "car_foot s \<inter> car_foot t = {}" and ptr: "cptr t = None \<or> cptr s' \<noteq> cptr t"
    and pl: "car_pool (cptr t) (cbufs s') sp' (cpc t)"
  defines "t' \<equiv> t\<lparr>cbufs := cbufs s', cstore := cstore s', cspare := sp'\<rparr>"
  shows "car_inv e M r0 W t'" "car_foot t' = car_foot t" "car_foot s' \<inter> car_foot t' = {}"
proof -
  note d = car_invD(1) [OF inv]
  have "row_buffers (cbufs s') b = row_buffers (cbufs t) b" if "cptr t = Some b" for b
    using mv ptr that by (auto simp: car_moves_def same)
  then have cb: "core_buffer t' = core_buffer t" by (auto simp: t'_def core_buffer_def fun_eq_iff split: option.splits)
  then show ft: "car_foot t' = car_foot t" by (simp add: car_foot_def t'_def)
  have less: "v < brk (cstore t)" if "v \<in> car_foot t" for v by (rule car_foot_less [OF d that])
  then have "\<forall>v \<in> car_foot t. vers (cstore s') v = vers (cstore t) v"
    using mv foot by (auto simp: car_moves_def same)
  from car_data_frame [OF d m' this] have "car_data e M r0 (car_slots (crow t')) (cstore t') (cpend t') (core_buffer t')"
    unfolding cb by (simp add: t'_def)
  then show "car_inv e M r0 W t'" using car_invD(2,3,5) [OF inv] pl unfolding car_inv_def cb by (simp add: t'_def)
  show "car_foot s' \<inter> car_foot t' = {}" unfolding ft using mv foot less by (fastforce simp: car_moves_def same)
qed

section \<open>The execution phase\<close>

definition car_row_foot :: "car_row \<Rightarrow> nat set" where
  "car_row_foot row = (case row of (e, a, M) \<Rightarrow> snd ` set (car_slots a))"

interpretation caracal_rows: db_execution car_row_read car_row_pending car_row_base car_row_wf "\<lambda>n. n < 4096" car_row_foot
proof (unfold_locales, goal_cases)
  case (1 row m m')
  then show ?case using car_base_frame by (cases row) (fastforce simp: car_row_wf_def car_row_foot_def)
next
  case (2 row m)
  then show ?case using car_base_foot by (cases row) (auto simp: car_row_wf_def car_row_base_def car_row_foot_def)
next
  case (3 row m i v)
  obtain e a M where row: "row = (e, a, M)" by (metis prod_cases3)
  have "(gid e i, v) \<in> epoch_part e (car_slots a)" using car_row_entries [OF 3(1) [unfolded row]] 3(2) by (simp add: row)
  then show ?case by (force simp: row car_row_foot_def epoch_part_def)
next
  case (4 n)
  then show ?case .
qed

end
