(* ===== verification/Db_Runs.thy ===== *)
theory Db_Runs
  imports Experiment
begin

text \<open>
  Experiments on a whole database: the loop over the epochs of \<open>run_tx\<close>, where an epoch gives the
  new database and, by key and serial id, what was read and what was written.
\<close>

type_synonym db_history = "(nat \<Rightarrow> nat \<Rightarrow> nat option) \<times> (nat \<Rightarrow> nat \<Rightarrow> nat)"

definition key_history :: "nat \<Rightarrow> db_history list \<Rightarrow> epoch_history list" where
  "key_history k hs = map (\<lambda>(got, rc). (got k, rc k)) hs"

text \<open>
  \<open>ready e f st\<close> says that the database can begin epoch \<open>e\<close>, with \<open>f k\<close> the record that ended the last
  epochs on key \<open>k\<close>.
\<close>

locale database_protocol =
  fixes epoch_step :: "'sched \<Rightarrow> nat \<Rightarrow> 'st \<Rightarrow> ('st \<times> db_history) option res"
    and ready :: "nat \<Rightarrow> (nat \<Rightarrow> nat) \<Rightarrow> 'st \<Rightarrow> bool"
    and writers readers :: "nat \<Rightarrow> nat \<Rightarrow> nat set"
    and limit :: nat
  assumes db_epoch_runs: "ready e f st \<Longrightarrow> e < limit \<Longrightarrow> \<exists>res. epoch_step sc e st = Inr res \<and>
      (\<forall>st' got rc. res = Some (st', got, rc) \<longrightarrow>
         (\<forall>k. \<forall>n \<in> readers k e. got k n = Some (must_read (writers k e) (f k) (rc k) n))
         \<and> ready (Suc e) (\<lambda>k. next_record (writers k e) (rc k) (f k)) st')"
    and db_epoch_finishes: "ready e f st \<Longrightarrow> e < limit \<Longrightarrow> \<exists>sc st' h. epoch_step sc e st = Inr (Some (st', h))"
begin

lemma db_run_serial:
  "ready e f st \<Longrightarrow> e + n \<le> limit \<Longrightarrow> \<exists>res. run_epochs (\<lambda>k. epoch_step (sc k) k) e n st = Inr res \<and>
     (\<forall>st' hs. res = Some (st', hs) \<longrightarrow> length hs = n
        \<and> (\<forall>k. serial_history (writers k) (readers k) e (f k) (key_history k hs)) \<and> (\<exists>f'. ready (e + n) f' st'))"
proof (induction n arbitrary: e f st)
  case 0
  then show ?case by (auto simp: key_history_def)
next
  case (Suc n)
  have e: "e < limit" "Suc e + n \<le> limit" using Suc.prems(2) by auto
  obtain res where res: "epoch_step (sc e) e st = Inr res" "\<And>st' got rc. res = Some (st', got, rc) \<Longrightarrow>
      (\<forall>k. \<forall>n \<in> readers k e. got k n = Some (must_read (writers k e) (f k) (rc k) n))
      \<and> ready (Suc e) (\<lambda>k. next_record (writers k e) (rc k) (f k)) st'"
    using db_epoch_runs [OF Suc.prems(1) e(1), of "sc e"] by blast
  show ?case
  proof (cases res)
    case None
    then show ?thesis using res(1) by simp
  next
    case (Some t)
    obtain st1 got rc where t: "t = (st1, got, rc)" by (metis prod_cases3)
    note one = res(2) [OF Some [unfolded t]]
    from Suc.IH [OF conjunct2 [OF one] e(2)] obtain res1 where
      r1: "run_epochs (\<lambda>k. epoch_step (sc k) k) (Suc e) n st1 = Inr res1"
      "\<And>st' hs. res1 = Some (st', hs) \<Longrightarrow> length hs = n
        \<and> (\<forall>k. serial_history (writers k) (readers k) (Suc e) (next_record (writers k e) (rc k) (f k)) (key_history k hs))
        \<and> (\<exists>f'. ready (Suc e + n) f' st')" by blast
    show ?thesis
    proof (cases res1)
      case None
      then show ?thesis using res(1) Some t r1(1) by simp
    next
      case (Some t1)
      obtain st2 hs where t1: "t1 = (st2, hs)" by fastforce
      have "run_epochs (\<lambda>k. epoch_step (sc k) k) e (Suc n) st = Inr (Some (st2, (got, rc) # hs))"
        using res(1) \<open>res = Some t\<close> t r1(1) Some t1 by simp
      moreover have "serial_history (writers k) (readers k) e (f k) (key_history k ((got, rc) # hs))" for k
        using r1(2) [OF Some [unfolded t1]] conjunct1 [OF one] by (simp add: key_history_def)
      ultimately show ?thesis using r1(2) [OF Some [unfolded t1]] by auto
    qed
  qed
qed

lemma db_run_completes:
  "ready e f st \<Longrightarrow> e + n \<le> limit \<Longrightarrow> \<exists>sc st' hs. run_epochs (\<lambda>k. epoch_step (sc k) k) e n st = Inr (Some (st', hs))"
proof (induction n arbitrary: e f st)
  case (Suc n)
  have e: "e < limit" "Suc e + n \<le> limit" using Suc.prems(2) by auto
  from db_epoch_finishes [OF Suc.prems(1) e(1)] obtain s0 st1 got rc where
    s0: "epoch_step s0 e st = Inr (Some (st1, got, rc))" by (metis prod.exhaust)
  have "ready (Suc e) (\<lambda>k. next_record (writers k e) (rc k) (f k)) st1"
    using db_epoch_runs [OF Suc.prems(1) e(1), of s0] s0 by simp
  from Suc.IH [OF this e(2)] obtain sc st2 hs where
    sc: "run_epochs (\<lambda>k. epoch_step (sc k) k) (Suc e) n st1 = Inr (Some (st2, hs))" by blast
  let ?sc = "sc(e := s0)"
  have "run_epochs (\<lambda>k. epoch_step (?sc k) k) (Suc e) n st1 = run_epochs (\<lambda>k. epoch_step (sc k) k) (Suc e) n st1"
    by (rule run_epochs_cong) simp
  then have "run_epochs (\<lambda>k. epoch_step (?sc k) k) e (Suc n) st = Inr (Some (st2, (got, rc) # hs))"
    using s0 sc by simp
  then show ?case by blast
qed simp

end

end
