(* ===== verification/Caracal_Database.thy ===== *)
theory Caracal_Database
  imports Caracal_Frame Db_Programs Db_Runs
begin

text \<open>
  An epoch of Caracal over a whole database: the initialization phase, in which the 64 workers
  append the pending versions of their transactions to all rows and at its end empty their per-core
  buffers, interleaved at their accesses, and the execution phase of Db_Execution. The rows share
  the store and the row buffers, and every worker takes its spare buffer from row to row.
\<close>

section \<open>The initialization phase\<close>

text \<open>
  \<open>bpc\<close> is where a worker is in \<open>do_append_pending_version\<close> or \<open>finalize_batch_append_optimized\<close>,
  \<open>bkey\<close> the key of the row it is working on, \<open>btodo\<close> the appends it has still to start; \<open>bpend\<close>
  holds the pointers stored in the operations, by key and serial id. \<open>breg\<close> is
  \<open>appended_core_buffers_\<close>, its rows named by their keys, in the order of iteration from the row the
  worker is at.
\<close>

record car_db_init =
  bvals :: "nat \<Rightarrow> car_value"
  bctl :: row_buffer_controller
  bstore :: mem
  bspare :: "nat \<Rightarrow> nat option"
  bpc :: "nat \<Rightarrow> car_pc"
  bkey :: "nat \<Rightarrow> nat"
  btodo :: "nat \<Rightarrow> (nat \<times> nat) list"
  bpend :: "nat \<Rightarrow> nat \<Rightarrow> nat option"
  breg :: "nat \<Rightarrow> nat list"

definition car_db_start :: "(nat \<Rightarrow> (nat \<times> nat) list) \<Rightarrow> (nat \<Rightarrow> nat option) \<Rightarrow> caracal_db \<Rightarrow> car_db_init" where
  "car_db_start prog spares db =
     \<lparr>bvals = cvalues db, bctl = cctl db, bstore = cmem db, bspare = spares, bpc = (\<lambda>w. if w < NUM_CORE then CNext else CEnd),
      bkey = (\<lambda>_. 0), btodo = prog, bpend = (\<lambda>_. Map.empty), breg = (\<lambda>_. [])\<rparr>"

text \<open>
  What the phase looks like from the row at \<open>p\<close>, of key \<open>k\<close>. A worker that is at another row is
  between two appends to this one; in the final batch appends it still has this row before it, or
  has finished with it.
\<close>

definition row_pc :: "nat \<Rightarrow> nat \<Rightarrow> car_pc \<Rightarrow> nat list \<Rightarrow> car_pc" where
  "row_pc k l pc reg =
     (if l = k \<or> pc = CEnd then pc else if final_pc pc then (if k \<in> set reg then CFinal else CEnd) else CNext)"

definition car_view :: "nat \<Rightarrow> nat \<Rightarrow> car_db_init \<Rightarrow> car_conf" where
  "car_view p k s =
     \<lparr>crow = car_global (bvals s p), cptr = row_buffer_ptr (bvals s p), cbufs = bctl s, cstore = bstore s,
      cspare = (\<lambda>w. if bkey s w = k then bspare s w else held (bspare s) (bpc s) w),
      cpc = (\<lambda>w. row_pc k (bkey s w) (bpc s w) (breg s w)),
      ctodo = (\<lambda>w. map snd (filter (\<lambda>x. fst x = k) (btodo s w))), cpend = bpend s k,
      cregistered = {w. k \<in> set (breg s w)}\<rparr>"

text \<open>
  The state after worker \<open>w\<close> made an access to the row at \<open>p\<close>, of key \<open>k\<close>. The rows a worker has
  registered are in an unordered map in the source; the model goes through them in one fixed order.
\<close>

definition car_put :: "nat \<Rightarrow> nat \<Rightarrow> nat \<Rightarrow> car_conf \<Rightarrow> car_db_init \<Rightarrow> car_db_init" where
  "car_put w p k c s =
     s\<lparr>bvals := (bvals s)(p := \<lparr>car_global = crow c, row_buffer_ptr = cptr c\<rparr>), bctl := cbufs c, bstore := cstore c,
       bspare := (bspare s)(w := cspare c w), bpc := (bpc s)(w := cpc c w), bpend := (bpend s)(k := cpend c),
       breg := (breg s)(w := if w \<in> cregistered c then List.insert k (breg s w) else remove1 k (breg s w))\<rparr>"

text \<open>
  The loops of \<open>finalize_batch_append_optimized\<close>: a row whose lock is taken is passed by, and
  comes again after the others; a row that is done is erased.
\<close>

definition next_place :: "nat \<Rightarrow> car_pc \<Rightarrow> nat list \<Rightarrow> nat \<times> car_pc \<times> nat list" where
  "next_place k pc reg =
     (case pc of CFinal \<Rightarrow> (hd (rotate1 reg), CFinal, rotate1 reg)
      | CEnd \<Rightarrow> (case reg of [] \<Rightarrow> (k, CEnd, []) | l # _ \<Rightarrow> (l, CFinal, reg))
      | _ \<Rightarrow> (k, pc, reg))"

definition next_row :: "nat \<Rightarrow> car_db_init \<Rightarrow> car_db_init" where
  "next_row w s =
     (case next_place (bkey s w) (bpc s w) (breg s w) of (k, pc, reg) \<Rightarrow>
        s\<lparr>bkey := (bkey s)(w := k), bpc := (bpc s)(w := pc), breg := (breg s)(w := reg)\<rparr>)"

text \<open>
  \<open>append_pending_version\<close> refuses a key that is in the write set of the transaction, that is,
  one it has appended a version to; then it looks up the row and works on it access by access.
\<close>

definition car_db_step :: "index_find \<Rightarrow> u64 \<Rightarrow> nat \<Rightarrow> car_db_init \<Rightarrow> car_db_init res" where
  "car_db_step idx e w s =
     (case bpc s w of
        CEnd \<Rightarrow> Inr s
      | CNext \<Rightarrow>
          (case btodo s w of
             [] \<Rightarrow> Inr (next_row w (s\<lparr>bpc := (bpc s)(w := CEnd)\<rparr>))
           | (k, n) # rest \<Rightarrow>
               assert_then (0 < e)
                 (if bpend s k n \<noteq> None then Inl (RuntimeError ''error'')
                  else case idx record_table k of None \<Rightarrow> Inl AssertFailed
                   | Some p \<Rightarrow> Inr (s\<lparr>bkey := (bkey s)(w := k), btodo := (btodo s)(w := rest),
                       bpc := (bpc s)(w := if row_buffer_ptr (bvals s p) \<noteq> None then CInsert n else CTryLock n)\<rparr>)))
      | _ \<Rightarrow>
          (case idx record_table (bkey s w) of None \<Rightarrow> Inl AssertFailed
           | Some p \<Rightarrow> ebind (car_init_step e w (car_view p (bkey s w) s)) (\<lambda>c.
               Inr (next_row w (car_put w p (bkey s w) c s)))))"

text \<open>A schedule is a list of workers.\<close>

fun car_db_run :: "index_find \<Rightarrow> u64 \<Rightarrow> nat list \<Rightarrow> car_db_init \<Rightarrow> car_db_init res" where
  "car_db_run idx e [] s = Inr s"
| "car_db_run idx e (w # sched) s = ebind (car_db_step idx e w s) (car_db_run idx e sched)"

definition car_db_done :: "car_db_init \<Rightarrow> bool" where
  "car_db_done s \<longleftrightarrow> (\<forall>w < NUM_CORE. bpc s w = CEnd)"

section \<open>The invariant\<close>

abbreviation bheld :: "car_db_init \<Rightarrow> nat \<Rightarrow> nat option" where
  "bheld s \<equiv> held (bspare s) (bpc s)"

text \<open>
  The row buffers in use are installed at rows or held by workers, so that there are enough for
  the rows of \<open>S\<close>.
\<close>

definition buffer_room :: "nat set \<Rightarrow> (nat \<Rightarrow> nat) \<Rightarrow> (nat \<Rightarrow> car_value) \<Rightarrow> nat \<Rightarrow> (nat \<Rightarrow> nat option) \<Rightarrow> bool" where
  "buffer_room S row vals u h \<longleftrightarrow> finite S \<and> card S + 64 \<le> NUM_BUFFERS
     \<and> u \<le> card {k \<in> S. row_buffer_ptr (vals (row k)) \<noteq> None} + card {w. w < 64 \<and> h w \<noteq> None}"

definition cars_apart :: "nat set \<Rightarrow> (nat \<Rightarrow> nat) \<Rightarrow> car_db_init \<Rightarrow> bool" where
  "cars_apart D row s \<longleftrightarrow> (\<forall>k \<in> D. \<forall>l \<in> D. k \<noteq> l \<longrightarrow>
     car_foot (car_view (row k) k s) \<inter> car_foot (car_view (row l) l s) = {}
     \<and> (row_buffer_ptr (bvals s (row k)) = None \<or> row_buffer_ptr (bvals s (row k)) \<noteq> row_buffer_ptr (bvals s (row l))))"

text \<open>Where a worker can be, with key \<open>l\<close>, appends \<open>ops\<close> and registered rows \<open>reg\<close>.\<close>

definition worker_ok :: "nat set \<Rightarrow> nat \<Rightarrow> car_pc \<Rightarrow> (nat \<times> nat) list \<Rightarrow> nat list \<Rightarrow> bool" where
  "worker_ok S l pc ops reg \<longleftrightarrow> fst ` set ops \<subseteq> S \<and> set reg \<subseteq> S \<and> distinct reg
     \<and> (pc \<noteq> CNext \<longrightarrow> pc \<noteq> CEnd \<longrightarrow> l \<in> S) \<and> (final_pc pc \<longrightarrow> ops = [] \<and> reg \<noteq> [] \<and> l = hd reg)
     \<and> (pc = CEnd \<longrightarrow> ops = [] \<and> reg = [])"

definition car_db_inv ::
  "u64 \<Rightarrow> (nat \<Rightarrow> nat) \<Rightarrow> nat set \<Rightarrow> nat set \<Rightarrow> (nat \<Rightarrow> nat \<Rightarrow> nat list) \<Rightarrow> (nat \<Rightarrow> nat) \<Rightarrow> (nat \<Rightarrow> nat) \<Rightarrow> car_db_init \<Rightarrow> bool" where
  "car_db_inv e row D S W M r0 s \<longleftrightarrow> (\<forall>k \<in> D. car_inv e (M k) (r0 k) (W k) (car_view (row k) k s))
     \<and> cars_apart D row s \<and> buffer_room S row (bvals s) (used_buffers (bctl s)) (bheld s)
     \<and> (\<forall>w. worker_ok S (bkey s w) (bpc s w) (btodo s w) (breg s w)) \<and> (\<forall>w \<ge> 64. bpc s w = CEnd)"

text \<open>The assumptions on the rows that all the lemmas share.\<close>

definition car_rows_ok :: "index_find \<Rightarrow> (nat \<Rightarrow> nat) \<Rightarrow> nat set \<Rightarrow> nat set \<Rightarrow> (nat \<Rightarrow> nat \<Rightarrow> nat list) \<Rightarrow> bool" where
  "car_rows_ok idx row D S W \<longleftrightarrow> (\<forall>k \<in> D. idx record_table k = Some (row k)) \<and> inj_on row D \<and> S \<subseteq> D
     \<and> (\<forall>k \<in> D. car_writes_ok (W k))"

lemma car_rows_okD:
  assumes "car_rows_ok idx row D S W"
  shows "k \<in> D \<Longrightarrow> idx record_table k = Some (row k)" "k \<in> S \<Longrightarrow> k \<in> D" "k \<in> D \<Longrightarrow> car_writes_ok (W k)"
    "k \<in> D \<Longrightarrow> l \<in> D \<Longrightarrow> row k = row l \<longleftrightarrow> k = l"
  using assms unfolding car_rows_ok_def by (auto simp: inj_on_def)

lemma car_db_invD:
  assumes "car_db_inv e row D S W M r0 s"
  shows "k \<in> D \<Longrightarrow> car_inv e (M k) (r0 k) (W k) (car_view (row k) k s)" "cars_apart D row s"
    "buffer_room S row (bvals s) (used_buffers (bctl s)) (bheld s)"
    "worker_ok S (bkey s w) (bpc s w) (btodo s w) (breg s w)" "64 \<le> w \<Longrightarrow> bpc s w = CEnd"
  using assms unfolding car_db_inv_def by blast+

lemma worker_okD:
  assumes "worker_ok S l pc ops reg"
  shows "fst ` set ops \<subseteq> S" "set reg \<subseteq> S" "distinct reg" "pc \<noteq> CNext \<Longrightarrow> pc \<noteq> CEnd \<Longrightarrow> l \<in> S"
    "final_pc pc \<Longrightarrow> ops = [] \<and> reg \<noteq> [] \<and> l = hd reg" "pc = CEnd \<Longrightarrow> ops = [] \<and> reg = []"
  using assms unfolding worker_ok_def by blast+

lemma cars_apartD:
  assumes "cars_apart D row s" and "k \<in> D" and "l \<in> D" and "k \<noteq> l"
  shows "car_foot (car_view (row k) k s) \<inter> car_foot (car_view (row l) l s) = {}"
    "row_buffer_ptr (bvals s (row l)) = None \<or> row_buffer_ptr (bvals s (row k)) \<noteq> row_buffer_ptr (bvals s (row l))"
  using assms unfolding cars_apart_def by (blast, metis)

lemma car_view_simps [simp]:
  "crow (car_view p k s) = car_global (bvals s p)" "cptr (car_view p k s) = row_buffer_ptr (bvals s p)"
  "cbufs (car_view p k s) = bctl s" "cstore (car_view p k s) = bstore s"
  "cpc (car_view p k s) w = row_pc k (bkey s w) (bpc s w) (breg s w)"
  "ctodo (car_view p k s) w = map snd (filter (\<lambda>x. fst x = k) (btodo s w))" "cpend (car_view p k s) = bpend s k"
  "w \<in> cregistered (car_view p k s) \<longleftrightarrow> k \<in> set (breg s w)"
  "cspare (car_view p k s) w = (if bkey s w = k then bspare s w else bheld s w)"
  by (simp_all add: car_view_def)

text \<open>Every row sees the same buffers in the hands of the workers.\<close>

lemma view_held [simp]: "held_by (car_view p k s) = bheld s"
  by (auto simp: fun_eq_iff held_def row_pc_def split: option.splits)

lemma buffer_room_needs:
  assumes "buffer_room S row vals u h"
  shows "u + card {w. w < 64 \<and> h w = None \<and> P w} \<le> NUM_BUFFERS"
proof -
  let ?A = "{w. w < 64 \<and> h w \<noteq> None}" let ?B = "{w. w < 64 \<and> h w = None \<and> P w}"
  have "card {k \<in> S. row_buffer_ptr (vals (row k)) \<noteq> None} \<le> card S"
    using assms by (intro card_mono) (auto simp: buffer_room_def)
  moreover have "card ?A + card ?B = card (?A \<union> ?B)" by (intro card_Un_disjoint [symmetric]) auto
  moreover have "card (?A \<union> ?B) \<le> card {..<64 :: nat}" by (intro card_mono) auto
  ultimately show ?thesis using assms by (simp add: buffer_room_def)
qed

section \<open>What a step does to the pool of row buffers\<close>

lemma pool_move_held:
  assumes mv: "pool_move w v c" and others: "\<And>u. u \<noteq> w \<Longrightarrow> held_by c u = held_by v u" and "held_by c u = Some b"
  shows "held_by v u = Some b \<or> b = used_buffers (cbufs v)"
  using assms by (cases "u = w") (auto simp: pool_move_def)

lemma buffer_room_move:
  assumes room: "buffer_room S row vals (used_buffers (cbufs v)) (held_by v)" and mv: "pool_move w v c"
    and others: "\<And>u. u \<noteq> w \<Longrightarrow> held_by c u = held_by v u" and w: "w < 64" and k: "k \<in> S" and ptr: "cptr v = row_buffer_ptr (vals (row k))"
    and inj: "\<And>l. l \<in> S \<Longrightarrow> row l = row k \<longleftrightarrow> l = k" and val: "row_buffer_ptr val = cptr c"
  shows "buffer_room S row (vals(row k := val)) (used_buffers (cbufs c)) (held_by c)"
proof -
  let ?A = "{l \<in> S. row_buffer_ptr (vals (row l)) \<noteq> None}" let ?A' = "{l \<in> S. row_buffer_ptr ((vals(row k := val)) (row l)) \<noteq> None}"
  let ?B = "{u. u < 64 \<and> held_by v u \<noteq> None}" let ?B' = "{u. u < 64 \<and> held_by c u \<noteq> None}"
  have fin: "finite S" "finite ?A" "finite ?B" and le: "card S + 64 \<le> NUM_BUFFERS" "used_buffers (cbufs v) \<le> card ?A + card ?B"
    using room by (auto simp: buffer_room_def)
  have hu: "held_by c u = (if u = w then held_by c w else held_by v u)" for u using others by simp
  have A': "l \<in> ?A' \<longleftrightarrow> l \<in> S \<and> (if l = k then cptr c \<noteq> None else row_buffer_ptr (vals (row l)) \<noteq> None)" for l using inj val by auto
  from mv consider (same) "cptr c = cptr v" "used_buffers (cbufs c) = used_buffers (cbufs v)" "held_by c w = held_by v w"
    | (fetch) "cptr c = cptr v" "used_buffers (cbufs c) = Suc (used_buffers (cbufs v))" "held_by v w = None" "held_by c w \<noteq> None"
    | (install) "cptr v = None" "cptr c \<noteq> None" "used_buffers (cbufs c) = used_buffers (cbufs v)" "held_by v w \<noteq> None" "held_by c w = None"
    unfolding pool_move_def by auto
  then have "used_buffers (cbufs c) \<le> card ?A' + card ?B'"
  proof cases
    case same
    have "?A' = ?A" using A' ptr same(1) by auto
    moreover have "?B' = ?B" using hu same(3) by (metis (mono_tags, lifting))
    ultimately show ?thesis using le(2) same(2) by simp
  next
    case fetch
    have "?A' = ?A" using A' ptr fetch(1) by auto
    moreover have "u \<in> ?B' \<longleftrightarrow> u = w \<or> u \<in> ?B" for u using fetch(4) w others by (cases "u = w") simp_all
    then have "?B' = insert w ?B" "w \<notin> ?B" using fetch(3) by auto
    ultimately show ?thesis using le(2) fetch(2) fin(3) by simp
  next
    case install
    have "?A' = insert k ?A" "k \<notin> ?A" using A' ptr install(1,2) k by auto
    moreover have "u \<in> ?B' \<longleftrightarrow> u \<noteq> w \<and> u \<in> ?B" for u using install(5) others by (cases "u = w") simp_all
    then have "?B' = ?B - {w}" "w \<in> ?B" using install(4) w by auto
    moreover have "Suc (card (?B - {w})) = card ?B" by (rule card_Suc_Diff1 [OF fin(3) calculation(4)])
    ultimately show ?thesis using le(2) install(3) fin(2) by simp
  qed
  then show ?thesis using fin(1) le(1) by (simp add: buffer_room_def)
qed

section \<open>Where a step takes the worker\<close>

lemma car_step_pc:
  assumes st: "car_init_step e w v = Inr c" and pc: "cpc v w \<noteq> CNext" "cpc v w \<noteq> CEnd"
  shows "\<not> final_pc (cpc v w) \<Longrightarrow> \<not> final_pc (cpc c w) \<and> cpc c w \<noteq> CEnd \<and> (w \<in> cregistered v \<longrightarrow> w \<in> cregistered c)"
    "cpc v w = CFinal \<Longrightarrow> (cpc c w = CFinal \<or> cpc c w = CFinalLocked) \<and> (w \<in> cregistered c \<longleftrightarrow> w \<in> cregistered v)"
    "cpc v w = CFinalLocked \<Longrightarrow> cpc c w = CEnd \<and> w \<notin> cregistered c"
    "w \<in> cregistered c \<Longrightarrow> w \<notin> cregistered v \<Longrightarrow> \<exists>i. cpc v w = CInsert i \<and> cpc c w = CNext"
  using st pc by (auto simp: car_init_step_def car_batch_def Let_def ebind_eq_Inr guard_eq_Inr case_prod_unfold
      split: car_pc.splits list.splits option.splits if_splits)

lemma hd_rotate1: "xs \<noteq> [] \<Longrightarrow> hd (rotate1 xs) \<in> set xs"
  by (metis hd_in_set length_0_conv length_rotate1 set_rotate1)

lemma next_place_same: "pc \<noteq> CFinal \<Longrightarrow> pc \<noteq> CEnd \<Longrightarrow> next_place k pc reg = (k, pc, reg)"
  by (cases pc) (simp_all add: next_place_def)

lemma place_ok:
  assumes ok: "worker_ok S k p ops reg" and p: "p \<noteq> CNext" "p \<noteq> CEnd"
    and a: "\<not> final_pc p \<longrightarrow> \<not> final_pc q \<and> q \<noteq> CEnd \<and> (k \<in> set reg \<longrightarrow> r)"
    and b: "p = CFinal \<longrightarrow> (q = CFinal \<or> q = CFinalLocked) \<and> (r \<longleftrightarrow> k \<in> set reg)"
    and c: "p = CFinalLocked \<longrightarrow> q = CEnd \<and> \<not> r"
    and np: "next_place k q (if r then List.insert k reg else remove1 k reg) = (l, pc, reg')"
  shows "row_pc k l pc reg' = q" "j \<noteq> k \<Longrightarrow> row_pc j l pc reg' = row_pc j k p reg"
    "set reg' = (if r then insert k (set reg) else set reg - {k})" "worker_ok S l pc ops reg'" "installing pc = installing q"
    "l \<noteq> k \<Longrightarrow> installing q = None"
    "car_rank q < car_rank p \<Longrightarrow> (r \<Longrightarrow> k \<notin> set reg \<Longrightarrow> \<exists>i. p = CInsert i \<and> q = CNext)
      \<Longrightarrow> 2 * car_rank pc + 5 * length reg' < 2 * car_rank p + 5 * length reg"
proof -
  note wk = worker_okD [OF ok]
  have kS: "k \<in> S" using wk(4) p by blast
  let ?goal = "row_pc k l pc reg' = q \<and> (\<forall>j. j \<noteq> k \<longrightarrow> row_pc j l pc reg' = row_pc j k p reg)
    \<and> set reg' = (if r then insert k (set reg) else set reg - {k}) \<and> worker_ok S l pc ops reg' \<and> installing pc = installing q
    \<and> (l \<noteq> k \<longrightarrow> installing q = None) \<and> (car_rank q < car_rank p \<longrightarrow> (r \<longrightarrow> k \<notin> set reg \<longrightarrow> (\<exists>i. p = CInsert i \<and> q = CNext))
      \<longrightarrow> 2 * car_rank pc + 5 * length reg' < 2 * car_rank p + 5 * length reg)"
  consider (append) "\<not> final_pc p" | (final) "p = CFinal" | (batch) "p = CFinalLocked" by blast
  then have ?goal
  proof cases
    case append
    then have q: "\<not> final_pc q" "q \<noteq> CEnd" "k \<in> set reg \<Longrightarrow> r" using a by blast+
    then have e: "l = k" "pc = q" "reg' = (if r then List.insert k reg else remove1 k reg)"
      using np next_place_same [of q k] by auto
    have "worker_ok S k q ops reg'" using wk q kS by (auto simp: worker_ok_def e(3) dest: in_set_remove1)
    moreover have "length reg' \<le> length reg + (if r \<and> k \<notin> set reg then 1 else 0)"
      by (auto simp: e(3) length_remove1)
    then have "2 * car_rank q + 5 * length reg' < 2 * car_rank p + 5 * length reg"
      if "car_rank q < car_rank p" "r \<longrightarrow> k \<notin> set reg \<longrightarrow> (\<exists>i. p = CInsert i \<and> q = CNext)"
      using that by (auto split: if_splits)
    moreover have "set reg' = (if r then insert k (set reg) else set reg - {k})" using wk(3) by (simp add: e(3) set_remove1_eq)
    ultimately show ?thesis using q p append by (auto simp: e(1,2) row_pc_def)
  next
    case final
    then have t: "ops = []" "reg \<noteq> []" "k = hd reg" "r" "k \<in> set reg" using wk(5) b hd_in_set [of reg] by auto
    show ?thesis
    proof (cases "q = CFinal")
      case True
      then have e: "l = hd (rotate1 reg)" "pc = CFinal" "reg' = rotate1 reg" using np t(4,5) by (auto simp: next_place_def List.insert_def)
      have "l \<in> set reg" using hd_rotate1 [OF t(2)] by (simp add: e(1))
      then show ?thesis using wk(2,3) t True final by (auto simp: e row_pc_def worker_ok_def)
    next
      case False
      then have q: "q = CFinalLocked" using b final by blast
      then have e: "l = k" "pc = q" "reg' = reg" using np next_place_same t(4,5) by (simp_all add: List.insert_def)
      then show ?thesis using wk(2,3) t kS final q by (auto simp: row_pc_def worker_ok_def)
    qed
  next
    case batch
    then have t: "ops = []" "reg \<noteq> []" "k = hd reg" "\<not> r" "q = CEnd" using wk(5) c by auto
    obtain rest where reg: "reg = k # rest" using t(2,3) by (cases reg) auto
    then have rest: "k \<notin> set rest" "distinct rest" "set rest \<subseteq> S" using wk(2,3) by auto
    show ?thesis
    proof (cases rest)
      case Nil
      then have "l = k" "pc = CEnd" "reg' = []" using np t(4,5) by (simp_all add: reg next_place_def)
      then show ?thesis using t(1,4,5) batch Nil by (auto simp: reg row_pc_def worker_ok_def)
    next
      case (Cons x xs)
      then have "l = x" "pc = CFinal" "reg' = rest" using np t(4,5) by (auto simp: reg next_place_def)
      then show ?thesis using t(1,4,5) batch Cons rest by (auto simp: reg row_pc_def worker_ok_def)
    qed
  qed
  then have g: "row_pc k l pc reg' = q" "\<forall>j. j \<noteq> k \<longrightarrow> row_pc j l pc reg' = row_pc j k p reg"
    "set reg' = (if r then insert k (set reg) else set reg - {k})" "worker_ok S l pc ops reg'" "installing pc = installing q"
    "l \<noteq> k \<longrightarrow> installing q = None" "car_rank q < car_rank p \<longrightarrow> (r \<longrightarrow> k \<notin> set reg \<longrightarrow> (\<exists>i. p = CInsert i \<and> q = CNext))
      \<longrightarrow> 2 * car_rank pc + 5 * length reg' < 2 * car_rank p + 5 * length reg"
    by - (elim conjE, assumption)+
  show "row_pc k l pc reg' = q" "set reg' = (if r then insert k (set reg) else set reg - {k})" "worker_ok S l pc ops reg'"
    "installing pc = installing q" by (fact g)+
  show "j \<noteq> k \<Longrightarrow> row_pc j l pc reg' = row_pc j k p reg" by (rule g(2) [rule_format])
  show "l \<noteq> k \<Longrightarrow> installing q = None" by (rule g(6) [rule_format])
  show "car_rank q < car_rank p \<Longrightarrow> (r \<Longrightarrow> k \<notin> set reg \<Longrightarrow> \<exists>i. p = CInsert i \<and> q = CNext)
      \<Longrightarrow> 2 * car_rank pc + 5 * length reg' < 2 * car_rank p + 5 * length reg" by (rule g(7) [rule_format]) blast+
qed

section \<open>Every step succeeds and keeps the invariant\<close>

definition car_access :: "nat \<Rightarrow> nat \<Rightarrow> nat \<Rightarrow> car_conf \<Rightarrow> car_db_init \<Rightarrow> car_db_init" where
  "car_access w p k c s = next_row w (car_put w p k c s)"

lemma car_access_fields:
  fixes p :: nat
  assumes np: "next_place (bkey s w) (cpc c w) (if w \<in> cregistered c then List.insert k (breg s w) else remove1 k (breg s w)) = (l, pc, reg)"
  defines "s' \<equiv> car_access w p k c s"
  shows "bvals s' = (bvals s)(p := \<lparr>car_global = crow c, row_buffer_ptr = cptr c\<rparr>)" "bctl s' = cbufs c" "bstore s' = cstore c"
    "bspare s' = (bspare s)(w := cspare c w)" "bpc s' = (bpc s)(w := pc)" "bkey s' = (bkey s)(w := l)" "btodo s' = btodo s"
    "bpend s' = (bpend s)(k := cpend c)" "breg s' = (breg s)(w := reg)"
  using np by (simp_all add: s'_def car_access_def next_row_def car_put_def)

lemma car_access_views:
  assumes k: "bkey s w = k" and pc: "bpc s w \<noteq> CNext" "bpc s w \<noteq> CEnd"
    and ok: "worker_ok S k (bpc s w) (btodo s w) (breg s w)" and st: "car_init_step e w (car_view p k s) = Inr c"
  defines "s' \<equiv> car_access w p k c s"
  shows "car_view p k s' = c"
    "j \<noteq> k \<Longrightarrow> q \<noteq> p \<Longrightarrow>
       car_view q j s' = (car_view q j s)\<lparr>cbufs := cbufs c, cstore := cstore c, cspare := cspare (car_view q j s')\<rparr>"
    "worker_ok S (bkey s' w) (bpc s' w) (btodo s' w) (breg s' w)" "bheld s' = held_by c"
    "car_rank (cpc c w) < car_rank (bpc s w) \<Longrightarrow>
       2 * car_rank (bpc s' w) + 5 * length (breg s' w) < 2 * car_rank (bpc s w) + 5 * length (breg s w)"
proof -
  let ?v = "car_view p k s" let ?reg = "if w \<in> cregistered c then List.insert k (breg s w) else remove1 k (breg s w)"
  obtain l pc' reg where np: "next_place (bkey s w) (cpc c w) ?reg = (l, pc', reg)" by (metis prod_cases3)
  note f = car_access_fields [where p = p, OF np, folded s'_def]
  have vpc: "cpc ?v w = bpc s w" by (simp add: row_pc_def k)
  then have "cpc ?v w \<noteq> CNext" "cpc ?v w \<noteq> CEnd" using pc by simp_all
  note sp = car_step_pc [OF st this, unfolded vpc car_view_simps(8)] and o = car_init_step_others [OF st] and fr = car_init_step_frame [OF st]
  have "\<not> final_pc (bpc s w) \<longrightarrow> \<not> final_pc (cpc c w) \<and> cpc c w \<noteq> CEnd \<and> (k \<in> set (breg s w) \<longrightarrow> w \<in> cregistered c)"
    "bpc s w = CFinal \<longrightarrow> (cpc c w = CFinal \<or> cpc c w = CFinalLocked) \<and> (w \<in> cregistered c \<longleftrightarrow> k \<in> set (breg s w))"
    "bpc s w = CFinalLocked \<longrightarrow> cpc c w = CEnd \<and> w \<notin> cregistered c" using sp(1-3) by blast+
  note pl = place_ok [OF ok pc this np [unfolded k]]
  show wk: "worker_ok S (bkey s' w) (bpc s' w) (btodo s' w) (breg s' w)" using pl(4) by (simp add: f)
  show "2 * car_rank (bpc s' w) + 5 * length (breg s' w) < 2 * car_rank (bpc s w) + 5 * length (breg s w)"
    if "car_rank (cpc c w) < car_rank (bpc s w)" using pl(7) [OF that sp(4)] by (simp add: f)
  have reg: "x \<in> set reg \<longleftrightarrow> (if x = k then w \<in> cregistered c else x \<in> set (breg s w))" for x using pl(3) by auto
  show v: "car_view p k s' = c"
  proof (rule car_conf.equality)
    show "cspare (car_view p k s') = cspare c"
    proof
      fix u show "cspare (car_view p k s') u = cspare c u"
      proof (cases "u = w")
        case True
        have "held ((bspare s)(w := cspare c w)) ((bpc s)(w := pc')) w = cspare c w" if "l \<noteq> k"
          using pl(5) pl(6) [OF that] by (simp add: held_def)
        then show ?thesis using True by (simp add: f)
      next
        case False
        then show ?thesis using o(1) [of u] by (simp add: f held_def split: option.splits)
      qed
    qed
    show "cpc (car_view p k s') = cpc c"
    proof
      fix u show "cpc (car_view p k s') u = cpc c u" using pl(1) fr(1) [of u] by (cases "u = w") (simp_all add: f)
    qed
    show "ctodo (car_view p k s') = ctodo c"
    proof
      fix u show "ctodo (car_view p k s') u = ctodo c u"
        using o(3) fr(2) [of u] pc vpc by (cases "u = w") (simp_all add: f)
    qed
    have "u \<in> cregistered (car_view p k s') \<longleftrightarrow> u \<in> cregistered c" for u
      using reg [of k] o(2) [of u] by (cases "u = w") (simp_all add: f)
    then show "cregistered (car_view p k s') = cregistered c" by blast
  qed (simp_all add: f)
  show "bheld s' = held_by c" using view_held [of p k s'] unfolding v by simp
  show "car_view q j s' = (car_view q j s)\<lparr>cbufs := cbufs c, cstore := cstore c, cspare := cspare (car_view q j s')\<rparr>"
    if j: "j \<noteq> k" "q \<noteq> p"
  proof (rule car_conf.equality)
    show "cpc (car_view q j s') = cpc ((car_view q j s)\<lparr>cbufs := cbufs c, cstore := cstore c, cspare := cspare (car_view q j s')\<rparr>)"
      using pl(2) [OF j(1)] k by (auto simp: fun_eq_iff f)
    have "u \<in> cregistered (car_view q j s') \<longleftrightarrow> u \<in> cregistered (car_view q j s)" for u
      using reg [of j] j(1) by (simp add: f)
    then show "cregistered (car_view q j s') = cregistered ((car_view q j s)\<lparr>cbufs := cbufs c, cstore := cstore c, cspare := cspare (car_view q j s')\<rparr>)"
      by auto
  qed (use j in \<open>simp_all add: f fun_eq_iff\<close>)
qed

text \<open>Another row sees of the access what it sees of the pool and the store.\<close>

lemma car_access_other:
  assumes rows: "car_rows_ok idx row D S W" and inv: "car_db_inv e row D S W M r0 s" and k: "bkey s w = k"
    and pc: "bpc s w \<noteq> CNext" "bpc s w \<noteq> CEnd" and st: "car_init_step e w (car_view (row k) k s) = Inr c"
    and ic: "car_inv e (M k) (r0 k) (W k) c" and l: "l \<in> D" "l \<noteq> k"
    and room: "buffer_room S row vals (used_buffers (cbufs c)) (held_by c)"
  defines "s' \<equiv> car_access w (row k) k c s" and "t' \<equiv> car_view (row l) l (car_access w (row k) k c s)"
  shows "car_inv e (M l) (r0 l) (W l) t'" "car_foot t' = car_foot (car_view (row l) l s)" "car_foot c \<inter> car_foot t' = {}"
    "row_buffer_ptr (bvals s (row l)) = None \<or> cptr c \<noteq> row_buffer_ptr (bvals s (row l))"
proof -
  let ?v = "car_view (row k) k s" let ?t = "car_view (row l) l s"
  note d = car_db_invD [OF inv]
  have kD: "k \<in> D" using worker_okD(4) [OF d(4) [of w] pc] car_rows_okD(2) [OF rows] k by blast
  note iv = d(1) [OF kD] and it = d(1) [OF l(1)] and mv = car_init_step_moves [OF d(1) [OF kD] st]
  have pm: "pool_move w ?v c" using mv by (simp add: car_moves_def)
  have oth: "held_by c u = held_by ?v u" if "u \<noteq> w" for u
    using car_init_step_others(1) [OF st that] car_init_step_frame(1) [OF st that] by (simp only: held_def)
  have ne: "row l \<noteq> row k" using car_rows_okD(4) [OF rows l(1) kD] l(2) by simp
  note av = car_access_views [OF k pc d(4) [of w, unfolded k] st, folded s'_def]
  have t': "t' = ?t\<lparr>cbufs := cbufs c, cstore := cstore c, cspare := cspare t'\<rparr>"
    using av(2) [OF l(2) ne] by (simp add: t'_def s'_def)
  have pcs: "cpc t' = cpc ?t" by (subst t') simp
  have ht: "held (cspare t') (cpc ?t) = held_by c"
  proof -
    have "held (cspare t') (cpc t') = bheld s'" unfolding t'_def s'_def by (rule view_held)
    then show ?thesis unfolding pcs av(4) .
  qed
  note pt = car_invD(4) [OF it]
  have lt: "b < used_buffers (bctl s)" if "row_buffer_ptr (bvals s (row l)) = Some b" for b using car_poolD(5) [OF pt] that by simp
  have hl: "row_buffer_ptr (bvals s (row l)) \<noteq> Some b" if "held_by c u = Some b" for u b
    using pool_move_held [OF pm oth that] car_poolD(2) [OF pt, of u b] lt by auto
  show ptr: "row_buffer_ptr (bvals s (row l)) = None \<or> cptr c \<noteq> row_buffer_ptr (bvals s (row l))"
  proof (cases "cptr c = cptr ?v")
    case True
    then show ?thesis using cars_apartD(2) [OF d(2) kD l(1)] l(2) by simp
  next
    case False
    then obtain b where "cptr c = Some b" "held_by ?v w = Some b" using pm by (auto simp: pool_move_def)
    then show ?thesis using car_poolD(2) [OF pt, of w b] by auto
  qed
  have "car_pool (cptr ?t) (cbufs c) (cspare t') (cpc ?t)"
  proof (rule car_pool_other [OF car_invD(4) [OF ic] ht])
    show "held_by c u = Some b \<Longrightarrow> cptr ?t \<noteq> Some b" for u b using hl by simp
    show "b < used_buffers (cbufs c)" if "cptr ?t = Some b" for b using lt that pm by (auto simp: pool_move_def)
    show "used_buffers (cbufs c) + card {u. u < 64 \<and> held_by c u = None \<and> (cptr ?t = None \<or> before_fetch (cpc ?t u))} \<le> NUM_BUFFERS"
      by (rule buffer_room_needs [OF room])
    fix u assume i: "installing (cpc ?t u) \<noteq> None"
    then have u: "u \<noteq> w" using k l(2) by (auto simp: row_pc_def split: if_splits)
    have "cspare ?t u = None" using car_poolD(4) [OF pt i] .
    moreover have "held_by t' u = held_by ?t u" using ht oth [OF u] by (simp add: pcs)
    moreover have "bkey s u = l" using i by (auto simp: row_pc_def split: if_splits)
    ultimately show "cspare t' u = None"
      using i u car_access_fields [where p = "row k" and s = s and c = c and w = w and k = k, folded s'_def]
      by (metis (no_types, lifting) car_view_simps(9) fun_upd_other prod_cases3 s'_def t'_def)
  qed
  note o = car_inv_other [OF it mv _ _ _ _ _ this, folded t']
  have m: "mem_ok (cstore c)" using car_baseD(1) [OF car_dataD(1) [OF car_invD(1) [OF ic]]] .
  have apart: "car_foot ?v \<inter> car_foot ?t = {}" by (rule cars_apartD(1) [OF d(2) kD l(1)]) (use l(2) in simp)
  show "car_inv e (M l) (r0 l) (W l) t'" "car_foot t' = car_foot ?t" "car_foot c \<inter> car_foot t' = {}"
    by (rule o; use m apart ptr in simp)+
qed

lemma car_inv_access:
  assumes rows: "car_rows_ok idx row D S W" and inv: "car_db_inv e row D S W M r0 s" and k: "bkey s w = k"
    and pc: "bpc s w \<noteq> CNext" "bpc s w \<noteq> CEnd" and st: "car_init_step e w (car_view (row k) k s) = Inr c"
    and ic: "car_inv e (M k) (r0 k) (W k) c"
  shows "car_db_inv e row D S W M r0 (car_access w (row k) k c s)"
proof -
  let ?v = "car_view (row k) k s" let ?s = "car_access w (row k) k c s"
  note d = car_db_invD [OF inv] and av = car_access_views [OF k pc d(4) [of w, unfolded k] st]
  have kS: "k \<in> S" and kD: "k \<in> D" using worker_okD(4) [OF d(4) [of w] pc] car_rows_okD(2) [OF rows] k by blast+
  have w: "w < 64" using d(5) [of w] pc by (meson not_le)
  obtain l pc' reg where np: "next_place (bkey s w) (cpc c w)
      (if w \<in> cregistered c then List.insert k (breg s w) else remove1 k (breg s w)) = (l, pc', reg)" by (metis prod_cases3)
  note f = car_access_fields [where p = "row k", OF np]
  have pm: "pool_move w ?v c" using car_init_step_moves [OF d(1) [OF kD] st] by (simp add: car_moves_def)
  have oth: "held_by c u = held_by ?v u" if "u \<noteq> w" for u
    using car_init_step_others(1) [OF st that] car_init_step_frame(1) [OF st that] by (simp only: held_def)
  have same: "row l = row k \<longleftrightarrow> l = k" if "l \<in> D" for l by (rule car_rows_okD(4) [OF rows that kD])
  have room: "buffer_room S row (bvals ?s) (used_buffers (cbufs c)) (held_by c)"
    unfolding f(1) by (rule buffer_room_move [OF _ pm oth w kS]) (use d(3) same car_rows_okD(2) [OF rows] in simp_all)
  note other = car_access_other [OF rows inv k pc st ic _ _ room]
  have own: "car_view (row k) k ?s = c" by (rule av(1))
  have "car_inv e (M j) (r0 j) (W j) (car_view (row j) j ?s)" if "j \<in> D" for j
    using other(1) [OF that] ic own by (cases "j = k") simp_all
  moreover have "cars_apart D row ?s"
    unfolding cars_apart_def
  proof (intro ballI impI)
    fix a b assume ab: "a \<in> D" "b \<in> D" "a \<noteq> b"
    have ptr: "row_buffer_ptr (bvals ?s (row j)) = (if j = k then cptr c else row_buffer_ptr (bvals s (row j)))" if "j \<in> D" for j
      using same [OF that] by (simp add: f(1))
    consider "a = k" | "b = k" | "a \<noteq> k" "b \<noteq> k" by blast
    then show "car_foot (car_view (row a) a ?s) \<inter> car_foot (car_view (row b) b ?s) = {} \<and>
      (row_buffer_ptr (bvals ?s (row a)) = None \<or> row_buffer_ptr (bvals ?s (row a)) \<noteq> row_buffer_ptr (bvals ?s (row b)))"
    proof cases
      case 1
      then show ?thesis using other(3,4) [OF ab(2)] ab own ptr by auto
    next
      case 2
      then show ?thesis using other(3,4) [OF ab(1)] ab own ptr by auto
    next
      case 3
      then show ?thesis using cars_apartD [OF d(2) ab(2,1)] ab other(2) [OF ab(1)] other(2) [OF ab(2)] ptr by auto
    qed
  qed
  moreover have "worker_ok S (bkey ?s u) (bpc ?s u) (btodo ?s u) (breg ?s u)" for u
    using av(3) d(4) [of u] by (cases "u = w") (simp_all add: f)
  moreover have "bpc ?s u = CEnd" if "64 \<le> u" for u using d(5) [OF that] that w by (simp add: f)
  ultimately show ?thesis using room av(4) by (simp add: car_db_inv_def f(2))
qed

text \<open>A worker takes its next append.\<close>

lemma car_inv_take:
  assumes rows: "car_rows_ok idx row D S W" and inv: "car_db_inv e row D S W M r0 s" and e: "e < 2 ^ 32"
    and pc: "bpc s w = CNext" and td: "btodo s w = (k, n) # rest"
  defines "s' \<equiv> s\<lparr>bkey := (bkey s)(w := k), btodo := (btodo s)(w := rest),
      bpc := (bpc s)(w := if row_buffer_ptr (bvals s (row k)) \<noteq> None then CInsert n else CTryLock n)\<rparr>"
  shows "k \<in> D" "bpend s k n = None" "car_db_inv e row D S W M r0 s'"
proof -
  note d = car_db_invD [OF inv]
  have kS: "k \<in> S" using worker_okD(1) [OF d(4) [of w]] td by simp
  then show kD: "k \<in> D" by (rule car_rows_okD(2) [OF rows])
  have w: "w < 64" using d(5) [of w] pc by (metis car_pc.distinct(19) not_le)
  let ?v = "car_view (row k) k s" and ?pc = "if row_buffer_ptr (bvals s (row k)) \<noteq> None then CInsert n else CTryLock n"
  have pcv: "cpc ?v w = CNext" "cpc (car_view p l s) w = CNext" for p l using pc by (simp_all add: row_pc_def)
  have tdv: "ctodo ?v w = n # map snd (filter (\<lambda>x. fst x = k) rest)" by (simp add: td)
  note wr = car_rows_okD(3) [OF rows kD] and iv = d(1) [OF kD]
  have t: "car_todo (W k) (cpc ?v) (ctodo ?v) (cpend ?v)" by (rule car_invD(2) [OF iv])
  show "bpend s k n = None"
  proof -
    have "remaining (cpc ?v) (ctodo ?v) w = n # map snd (filter (\<lambda>x. fst x = k) rest)"
      using pcv(1) tdv by (simp only: remaining_def in_flight.simps append_Nil)
    then have r: "n \<in> set (remaining (cpc ?v) (ctodo ?v) w)" by simp
    moreover obtain xs where "W k w = xs @ remaining (cpc ?v) (ctodo ?v) w" using t unfolding car_todo_def by blast
    ultimately have nW: "n \<in> set (W k w)" by simp
    have no: "n \<notin> set (W k u)" if "u \<noteq> w" for u using wr that nW unfolding car_writes_ok_def by blast
    have dom: "dom (cpend ?v) = (\<Union>u. set (W k u) - set (remaining (cpc ?v) (ctodo ?v) u))" using t by (simp add: car_todo_def)
    have "n \<notin> dom (cpend ?v)"
    proof
      assume "n \<in> dom (cpend ?v)"
      then obtain u where "n \<in> set (W k u)" "n \<notin> set (remaining (cpc ?v) (ctodo ?v) u)" unfolding dom by blast
      with no [of u] r show False by (cases "u = w") simp_all
    qed
    then show ?thesis by (simp add: domIff)
  qed
  have step: "car_init_step e w ?v = Inr (car_view (row k) k s')"
  proof -
    have "car_init_step e w ?v = Inr (?v\<lparr>ctodo := (ctodo ?v)(w := map snd (filter (\<lambda>x. fst x = k) rest)),
        cpc := (cpc ?v)(w := ?pc)\<rparr>)"
      using pcv(1) tdv by (simp add: car_init_step_def Let_def)
    moreover have "?v\<lparr>ctodo := (ctodo ?v)(w := map snd (filter (\<lambda>x. fst x = k) rest)), cpc := (cpc ?v)(w := ?pc)\<rparr> = car_view (row k) k s'"
      using pc by (intro car_conf.equality) (auto simp: s'_def fun_eq_iff row_pc_def held_def split: option.splits)
    ultimately show ?thesis by simp
  qed
  have vk: "car_inv e (M k) (r0 k) (W k) (car_view (row k) k s')" using car_init_step_ok [OF wr e iv w] step by simp
  have other: "car_view p l s' = car_view p l s" if "l \<noteq> k" for p l
    using that pc td by (intro car_conf.equality) (auto simp: s'_def fun_eq_iff row_pc_def held_def split: option.splits)
  have foot: "car_foot (car_view (row l) l s') = car_foot (car_view (row l) l s)" for l
    by (simp add: car_foot_def core_buffer_def s'_def)
  have "car_inv e (M l) (r0 l) (W l) (car_view (row l) l s')" if "l \<in> D" for l
    using vk d(1) [OF that] other by (cases "l = k") simp_all
  moreover have "cars_apart D row s'" using d(2) unfolding cars_apart_def foot by (simp add: s'_def)
  moreover have "bheld s' = bheld s" using pc by (auto simp: fun_eq_iff held_def s'_def split: option.splits)
  moreover have "worker_ok S (bkey s' u) (bpc s' u) (btodo s' u) (breg s' u)" for u
    using d(4) [of u] pc td kS by (cases "u = w") (auto simp: s'_def worker_ok_def)
  moreover have "bpc s' u = CEnd" if "64 \<le> u" for u using d(5) [OF that] that w by (simp add: s'_def)
  ultimately show "car_db_inv e row D S W M r0 s'" using d(3) unfolding car_db_inv_def by (simp add: s'_def)
qed

text \<open>A worker has made all its appends.\<close>

lemma car_inv_appended:
  assumes rows: "car_rows_ok idx row D S W" and inv: "car_db_inv e row D S W M r0 s" and e: "e < 2 ^ 32"
    and pc: "bpc s w = CNext" and td: "btodo s w = []"
  defines "s' \<equiv> next_row w (s\<lparr>bpc := (bpc s)(w := CEnd)\<rparr>)"
  shows "car_db_inv e row D S W M r0 s'" "car_rank (bpc s' w) < car_rank (bpc s w)"
    "\<And>u. breg s' u = breg s u" "\<And>u. btodo s' u = btodo s u" "\<And>u. u \<noteq> w \<Longrightarrow> bpc s' u = bpc s u"
proof -
  note d = car_db_invD [OF inv]
  have w: "w < 64" using d(5) [of w] pc by (metis car_pc.distinct(19) not_le)
  obtain l where s': "s' = s\<lparr>bkey := (bkey s)(w := l), bpc := (bpc s)(w := if breg s w = [] then CEnd else CFinal)\<rparr>"
    "breg s w \<noteq> [] \<Longrightarrow> l = hd (breg s w)" "breg s w \<noteq> [] \<Longrightarrow> l \<in> set (breg s w)"
  proof (cases "breg s w")
    case Nil
    then have "(breg s)(w := []) = breg s" by (simp add: fun_upd_idem)
    then show ?thesis using Nil by (intro that [of "bkey s w"]) (simp_all add: s'_def next_row_def next_place_def)
  next
    case (Cons x xs)
    then have "(breg s)(w := x # xs) = breg s" by (simp add: fun_upd_idem)
    then show ?thesis using Cons by (intro that [of x]) (simp_all add: s'_def next_row_def next_place_def)
  qed
  show "car_rank (bpc s' w) < car_rank (bpc s w)" "\<And>u. breg s' u = breg s u" "\<And>u. btodo s' u = btodo s u"
    "\<And>u. u \<noteq> w \<Longrightarrow> bpc s' u = bpc s u" using pc by (simp_all add: s')
  have step: "car_init_step e w (car_view p k s) = Inr (car_view p k s')" for p k
  proof -
    let ?v = "car_view p k s" let ?pc = "if w \<in> cregistered ?v then CFinal else CEnd"
    have "cpc ?v w = CNext" "ctodo ?v w = []" using pc td by (simp_all add: row_pc_def)
    then have "car_init_step e w ?v = Inr (?v\<lparr>cpc := (cpc ?v)(w := ?pc)\<rparr>)" by (simp add: car_init_step_def)
    moreover have "?v\<lparr>cpc := (cpc ?v)(w := ?pc)\<rparr> = car_view p k s'"
      using pc s'(3) by (intro car_conf.equality) (auto simp: s'(1) fun_eq_iff row_pc_def held_def split: option.splits)
    ultimately show ?thesis by simp
  qed
  have "car_inv e (M k) (r0 k) (W k) (car_view (row k) k s')" if "k \<in> D" for k
    using car_init_step_ok [OF car_rows_okD(3) [OF rows that] e d(1) [OF that] w] step by simp
  moreover have "car_foot (car_view (row k) k s') = car_foot (car_view (row k) k s)" for k
    by (simp add: car_foot_def core_buffer_def s'(1))
  then have "cars_apart D row s'" using d(2) unfolding cars_apart_def by (simp add: s'(1))
  moreover have "bheld s' = bheld s" using pc by (auto simp: fun_eq_iff held_def s'(1) split: option.splits)
  moreover have "worker_ok S (bkey s' u) (bpc s' u) (btodo s' u) (breg s' u)" for u
    using d(4) [of u] pc td s'(2,3) by (cases "u = w") (auto simp: s'(1) worker_ok_def)
  moreover have "bpc s' u = CEnd" if "64 \<le> u" for u using d(5) [OF that] that w by (simp add: s'(1))
  ultimately show "car_db_inv e row D S W M r0 s'" using d(3) unfolding car_db_inv_def by (simp add: s'(1))
qed

definition car_db_work :: "car_db_init \<Rightarrow> nat \<Rightarrow> nat" where
  "car_db_work s w = 20 * length (btodo s w) + 2 * car_rank (bpc s w) + 5 * length (breg s w)"

text \<open>
  Every access of every worker succeeds, and one by a worker that meets no taken lock brings that
  worker nearer to the end.
\<close>

definition can_advance :: "(nat \<Rightarrow> nat) \<Rightarrow> nat \<Rightarrow> car_db_init \<Rightarrow> bool" where
  "can_advance row w s \<longleftrightarrow> bpc s w \<noteq> CEnd \<and>
     (bpc s w = CNext \<or> locked_pc (bpc s w) \<or> car_rwl (car_global (bvals s (row (bkey s w)))) = 0)"

lemma car_db_step_ok:
  assumes rows: "car_rows_ok idx row D S W" and inv: "car_db_inv e row D S W M r0 s" and e: "0 < e" "e < 2 ^ 32"
  shows "\<exists>s'. car_db_step idx e w s = Inr s' \<and> car_db_inv e row D S W M r0 s'
    \<and> (\<forall>u. u \<noteq> w \<longrightarrow> car_db_work s' u = car_db_work s u)
    \<and> (can_advance row w s \<longrightarrow> car_db_work s' w < car_db_work s w)"
proof -
  consider (idle) "bpc s w = CEnd" | (fin) "bpc s w = CNext" "btodo s w = []"
    | (take) k n rest where "bpc s w = CNext" "btodo s w = (k, n) # rest" | (work) "bpc s w \<noteq> CNext" "bpc s w \<noteq> CEnd"
    by (metis neq_Nil_conv prod.exhaust)
  then show ?thesis
  proof cases
    case idle
    then show ?thesis using inv by (simp add: car_db_step_def can_advance_def)
  next
    case fin
    note a = car_inv_appended [OF rows inv e(2) fin]
    show ?thesis using a fin by (intro exI [of _ "next_row w (s\<lparr>bpc := (bpc s)(w := CEnd)\<rparr>)"]) (simp add: car_db_step_def car_db_work_def)
  next
    case take
    note t = car_inv_take [OF rows inv e(2) take]
    have "idx record_table k = Some (row k)" by (rule car_rows_okD(1) [OF rows t(1)])
    then show ?thesis using t take e(1) by (auto simp: car_db_step_def car_db_work_def)
  next
    case work
    define k where "k = bkey s w"
    have kD: "k \<in> D"
      using worker_okD(4) [OF car_db_invD(4) [OF inv, of w] work] car_rows_okD(2) [OF rows] by (simp add: k_def)
    have w: "w < 64" using car_db_invD(5) [OF inv, of w] work by (meson not_le)
    let ?v = "car_view (row k) k s"
    obtain c where c: "car_init_step e w ?v = Inr c" "car_inv e (M k) (r0 k) (W k) c"
      using car_init_step_ok [OF car_rows_okD(3) [OF rows kD] e(2) car_db_invD(1) [OF inv kD] w] by blast
    let ?s = "car_access w (row k) k c s"
    have i: "idx record_table k = Some (row k)" by (rule car_rows_okD(1) [OF rows kD])
    have st: "car_db_step idx e w s = Inr ?s"
      using work i c(1) by (cases "bpc s w") (simp_all add: car_db_step_def car_access_def flip: k_def)
    have ok: "worker_ok S k (bpc s w) (btodo s w) (breg s w)" using car_db_invD(4) [OF inv, of w] by (simp add: k_def)
    note av = car_access_views [OF k_def [symmetric] work ok c(1)]
    obtain l pc reg where "next_place (bkey s w) (cpc c w)
        (if w \<in> cregistered c then List.insert k (breg s w) else remove1 k (breg s w)) = (l, pc, reg)" by (metis prod_cases3)
    note f = car_access_fields [where p = "row k", OF this]
    have own: "car_db_work ?s u = car_db_work s u" if "u \<noteq> w" for u using that by (simp add: car_db_work_def f)
    have "car_db_work ?s w < car_db_work s w" if "can_advance row w s"
    proof -
      have vpc: "cpc ?v w = bpc s w" by (simp add: row_pc_def k_def)
      then have "car_work c w < car_work ?v w"
        using car_step_progress [OF c(1)] work that by (simp add: can_advance_def k_def)
      moreover have "ctodo c w = ctodo ?v w" using car_init_step_others(3) [OF c(1)] work vpc by simp
      ultimately have "car_rank (cpc c w) < car_rank (bpc s w)" by (simp only: car_work_def vpc)
      from av(5) [OF this] show ?thesis by (simp add: car_db_work_def f(7))
    qed
    then show ?thesis using st own car_inv_access [OF rows inv k_def [symmetric] work c] by blast
  qed
qed

lemma car_db_run_ok:
  assumes rows: "car_rows_ok idx row D S W" and "car_db_inv e row D S W M r0 s" and e: "0 < e" "e < 2 ^ 32"
  shows "\<exists>s'. car_db_run idx e sched s = Inr s' \<and> car_db_inv e row D S W M r0 s'"
  using assms(2)
proof (induction sched arbitrary: s)
  case (Cons w sched)
  from car_db_step_ok [OF rows Cons.prems e, of w] Cons.IH show ?case by fastforce
qed simp

lemma car_db_run_append: "car_db_run idx e (xs @ ys) s = ebind (car_db_run idx e xs s) (car_db_run idx e ys)"
  by (induction xs arbitrary: s) (auto simp: ebind_def split: sum.splits)

section \<open>Progress\<close>

lemma some_car_worker_advances:
  assumes inv: "car_db_inv e row D S W M r0 s" and rows: "car_rows_ok idx row D S W" and left: "\<not> car_db_done s"
  obtains w where "w < NUM_CORE" "can_advance row w s"
proof (cases "\<exists>w. locked_pc (bpc s w)")
  case True
  then obtain w where w: "locked_pc (bpc s w)" by blast
  then have "can_advance row w s" "bpc s w \<noteq> CEnd" by (auto simp: can_advance_def)
  moreover from this have "w < NUM_CORE" using car_db_invD(5) [OF inv, of w] unfolding NUM_CORE_def by (meson not_le)
  ultimately show ?thesis using that by blast
next
  case False
  obtain w where w: "w < NUM_CORE" "bpc s w \<noteq> CEnd" using left by (auto simp: car_db_done_def)
  have "car_rwl (car_global (bvals s (row (bkey s w)))) = 0" if "bpc s w \<noteq> CNext"
  proof -
    let ?k = "bkey s w" let ?v = "car_view (row ?k) ?k s"
    have kD: "?k \<in> D" using worker_okD(4) [OF car_db_invD(4) [OF inv, of w] that w(2)] car_rows_okD(2) [OF rows] by blast
    have "\<not> locked_pc (cpc ?v u)" for u using False by (auto simp: row_pc_def)
    then show ?thesis using car_invD(3) [OF car_db_invD(1) [OF inv kD]] by (simp add: car_locks_def)
  qed
  then show ?thesis using that w by (auto simp: can_advance_def)
qed

lemma car_db_can_finish:
  assumes rows: "car_rows_ok idx row D S W" and "car_db_inv e row D S W M r0 s" and e: "0 < e" "e < 2 ^ 32"
  shows "\<exists>sched s'. car_db_run idx e sched s = Inr s' \<and> car_db_inv e row D S W M r0 s' \<and> car_db_done s'"
  using assms(2)
proof (induction "\<Sum>w < NUM_CORE. car_db_work s w" arbitrary: s rule: less_induct)
  case less
  show ?case
  proof (cases "car_db_done s")
    case True
    then show ?thesis using less.prems by (intro exI [of _ "[]"] exI [of _ s]) simp
  next
    case False
    from some_car_worker_advances [OF less.prems rows False] obtain w where w: "w < NUM_CORE" "can_advance row w s" by blast
    with car_db_step_ok [OF rows less.prems e, of w] obtain s1 where
      s1: "car_db_step idx e w s = Inr s1" "car_db_inv e row D S W M r0 s1" "car_db_work s1 w < car_db_work s w"
      "\<And>u. u \<noteq> w \<Longrightarrow> car_db_work s1 u = car_db_work s u" by blast
    have "car_db_work s1 u \<le> car_db_work s u" for u using s1(3,4) by (cases "u = w") simp_all
    then have "(\<Sum>u < NUM_CORE. car_db_work s1 u) < (\<Sum>u < NUM_CORE. car_db_work s u)"
      using w(1) s1(3) by (intro sum_strict_mono_ex1) auto
    from less.hyps [OF this s1(2)] obtain sched s' where
      "car_db_run idx e sched s1 = Inr s'" "car_db_inv e row D S W M r0 s'" "car_db_done s'" by blast
    then show ?thesis using s1(1) by (intro exI [of _ "w # sched"] exI [of _ s']) simp
  qed
qed

section \<open>The epoch\<close>

text \<open>
  \<open>do_initialization_phase\<close> of all workers, the barrier, and \<open>do_execution_phase\<close>, from a database
  and the workers' spare buffers: the new ones, the records read and the records written, by key and
  serial id; \<open>None\<close> if the schedules do not bring all workers to the end of their phase.
\<close>

type_synonym caracal_state = "caracal_db \<times> (nat \<Rightarrow> nat option)"

definition caracal_db_epoch ::
  "index_find \<Rightarrow> nat \<Rightarrow> operation_set list \<Rightarrow> nat list \<times> nat list \<Rightarrow> nat \<Rightarrow> caracal_state
   \<Rightarrow> (caracal_state \<times> (nat \<Rightarrow> nat \<Rightarrow> nat option) \<times> (nat \<Rightarrow> nat \<Rightarrow> nat)) option res" where
  "caracal_db_epoch idx sz txs sched e st =
     ebind (car_db_run idx (of_nat e) (fst sched)
         (car_db_start (init_program round_robin_id txs (head_in_the_epoch e)) (snd st) (fst st))) (\<lambda>s.
       if car_db_done s then
         ebind (db_exec_run
             (\<lambda>k n m. caracal_read idx record_table k (car_executor (of_nat e) n) \<lparr>cvalues = bvals s, cctl = bctl s, cmem = m\<rparr>)
             (bpend s) sz (worker_program txs (head_in_the_epoch e)) (snd sched) (db_exec_start (bstore s))) (\<lambda>x.
           Inr (if db_exec_done (worker_program txs (head_in_the_epoch e)) x
             then Some ((\<lparr>cvalues = bvals s, cctl = bctl s, cmem = dmem x\<rparr>, bspare s), dout x, \<lambda>k. xrec (exec_view k x)) else None))
       else Inr None)"

text \<open>
  The transactions of epoch \<open>e\<close>: operation sets as the constructors make them, on the keys \<open>D\<close>;
  the rows they write are among \<open>S\<close>.
\<close>

definition caracal_batch :: "operation_set list \<Rightarrow> nat \<Rightarrow> nat set \<Rightarrow> nat set \<Rightarrow> bool" where
  "caracal_batch txs e D S \<longleftrightarrow> head_in_the_epoch e + 4096 \<le> length txs \<and>
     (\<forall>n < 4096. op_set_ok (txs ! (head_in_the_epoch e + n)) \<and> index ` set (rw_set (txs ! (head_in_the_epoch e + n))) \<subseteq> D)
     \<and> (\<forall>k \<in> D. writers_at txs k e \<noteq> {} \<longrightarrow> k \<in> S)"

text \<open>The database before epoch \<open>e\<close>: \<open>f0\<close> are the records of the versions that ended the last epochs.\<close>

definition arrays_apart :: "nat set \<Rightarrow> (nat \<Rightarrow> nat) \<Rightarrow> (nat \<Rightarrow> car_value) \<Rightarrow> bool" where
  "arrays_apart D row vals \<longleftrightarrow> (\<forall>k \<in> D. \<forall>l \<in> D. k \<noteq> l \<longrightarrow>
     snd ` set (car_slots (car_global (vals (row k)))) \<inter> snd ` set (car_slots (car_global (vals (row l)))) = {}
     \<and> (row_buffer_ptr (vals (row k)) = None \<or> row_buffer_ptr (vals (row k)) \<noteq> row_buffer_ptr (vals (row l))))"

definition caracal_db_ready :: "nat \<Rightarrow> (nat \<Rightarrow> nat) \<Rightarrow> nat set \<Rightarrow> nat set \<Rightarrow> (nat \<Rightarrow> nat) \<Rightarrow> caracal_state \<Rightarrow> bool" where
  "caracal_db_ready e row D S f0 st \<longleftrightarrow>
     (\<forall>k \<in> D. \<exists>M. car_ready (of_nat e) (car_global (cvalues (fst st) (row k))) (row_buffer_ptr (cvalues (fst st) (row k)))
        (cctl (fst st)) (snd st) (cmem (fst st)) M (f0 k))
     \<and> arrays_apart D row (cvalues (fst st))
     \<and> buffer_room S row (cvalues (fst st)) (used_buffers (cctl (fst st))) (snd st)"

abbreviation caracal_writes :: "operation_set list \<Rightarrow> nat \<Rightarrow> nat \<Rightarrow> nat \<Rightarrow> nat list" where
  "caracal_writes txs e k \<equiv> row_writes round_robin_id txs (head_in_the_epoch e) k"

lemma caracal_batchD:
  assumes "caracal_batch txs e D S"
  shows "n < 4096 \<Longrightarrow> op_set_ok (txs ! (head_in_the_epoch e + n))"
    "n < 4096 \<Longrightarrow> index ` set (rw_set (txs ! (head_in_the_epoch e + n))) \<subseteq> D"
    "k \<in> D \<Longrightarrow> writers_at txs k e \<noteq> {} \<Longrightarrow> k \<in> S"
  using assms by (simp_all add: caracal_batch_def)

lemma batch_car_rows_ok: "rows_index idx row D S \<Longrightarrow> car_rows_ok idx row D S (caracal_writes txs e)"
  using row_writes_round_robin(1) by (simp add: rows_index_def car_rows_ok_def)

lemma car_start_view:
  assumes "caracal_batch txs e D S"
  shows "car_view p k (car_db_start (init_program round_robin_id txs (head_in_the_epoch e)) sp db) =
    car_init_start (car_global (cvalues db p)) (row_buffer_ptr (cvalues db p)) (cctl db) sp (cmem db) (caracal_writes txs e k)"
proof -
  note r = init_program_row [where assign = round_robin_id and txs = txs and head = "head_in_the_epoch e", OF assign_less(2) caracal_batchD(1) [OF assms]]
  show ?thesis by (intro car_conf.equality)
    (auto simp: car_view_def car_db_start_def car_init_start_def fun_eq_iff row_pc_def held_def NUM_CORE_def r split: option.splits)
qed

lemma car_db_inv_start:
  assumes batch: "caracal_batch txs e D S" and ready: "caracal_db_ready e row D S f0 (db, sp)"
  obtains M where "car_db_inv (of_nat e) row D S (caracal_writes txs e) M f0
    (car_db_start (init_program round_robin_id txs (head_in_the_epoch e)) sp db)"
proof -
  let ?s = "car_db_start (init_program round_robin_id txs (head_in_the_epoch e)) sp db"
  have "\<exists>M. \<forall>k \<in> D. car_ready (of_nat e) (car_global (cvalues db (row k))) (row_buffer_ptr (cvalues db (row k))) (cctl db) sp (cmem db) (M k) (f0 k)"
    using ready by (intro bchoice) (simp add: caracal_db_ready_def)
  then obtain M where M: "\<And>k. k \<in> D \<Longrightarrow> car_ready (of_nat e) (car_global (cvalues db (row k))) (row_buffer_ptr (cvalues db (row k)))
      (cctl db) sp (cmem db) (M k) (f0 k)" by blast
  note view = car_start_view [OF batch]
  have inv: "car_inv (of_nat e) (M k) (f0 k) (caracal_writes txs e k) (car_view (row k) k ?s)" if "k \<in> D" for k
    unfolding view by (rule car_inv_start(1) [OF M [OF that] row_writes_round_robin(1)])
  have "core_buffer (car_view (row k) k ?s) w = []" if "k \<in> D" for k w
    using M [OF that] by (auto simp: car_ready_def view core_buffer_def car_init_start_def split: option.splits)
  then have foot: "car_foot (car_view (row k) k ?s) = snd ` set (car_slots (car_global (cvalues db (row k))))" if "k \<in> D" for k
    using that by (simp add: car_foot_def) (simp add: car_db_start_def)
  have "cars_apart D row ?s" using ready foot
    by (simp add: cars_apart_def caracal_db_ready_def arrays_apart_def) (simp add: car_db_start_def)
  moreover have "bheld ?s = sp" by (auto simp: held_def car_db_start_def fun_eq_iff)
  moreover have "worker_ok S (bkey ?s w) (bpc ?s w) (btodo ?s w) (breg ?s w)" for w
  proof -
    let ?p = "init_program round_robin_id txs (head_in_the_epoch e) w"
    have ops: "op_set_ok (txs ! (head_in_the_epoch e + n)) \<and> index ` set (rw_set (txs ! (head_in_the_epoch e + n))) \<subseteq> D" if "n < 4096" for n
      using caracal_batchD(1,2) [OF batch that] by (rule conjI)
    have "k \<in> S" if k: "k \<in> fst ` set ?p" for k
      by (rule caracal_batchD(3) [OF batch]) (rule init_program_keys [where assign = round_robin_id, OF assign_less(2) ops k], assumption+)+
    then have "fst ` set ?p \<subseteq> S" by blast
    moreover have "?p = []" if "\<not> w < NUM_CORE" using that by (simp add: init_program_def)
    ultimately show ?thesis by (simp add: worker_ok_def car_db_start_def)
  qed
  ultimately have "car_db_inv (of_nat e) row D S (caracal_writes txs e) M f0 ?s"
    using inv ready unfolding car_db_inv_def by (simp add: caracal_db_ready_def) (simp add: car_db_start_def NUM_CORE_def)
  then show ?thesis by (rule that)
qed

text \<open>The rows at the barrier.\<close>

abbreviation car_barrier_row :: "nat \<Rightarrow> (nat \<Rightarrow> nat) \<Rightarrow> (nat \<Rightarrow> nat) \<Rightarrow> car_db_init \<Rightarrow> nat \<Rightarrow> Caracal_Phases.car_row" where
  "car_barrier_row e row M s k \<equiv> (of_nat e, car_global (bvals s (row k)), M k)"

lemma car_view_done:
  assumes inv: "car_db_inv e row D S W M r0 s" and dn: "car_db_done s"
  shows "bpc s w = CEnd" "car_idle (car_view p k s)" "car_init_done (car_view p k s)" "cspare (car_view p k s) = bspare s"
proof -
  show pc: "bpc s w = CEnd" for w using car_db_invD(5) [OF inv] dn unfolding car_db_done_def NUM_CORE_def by (meson not_le)
  then show "car_idle (car_view p k s)" "car_init_done (car_view p k s)" by (simp_all add: car_idle_def car_init_done_def row_pc_def)
  show "cspare (car_view p k s) = bspare s" by (simp add: fun_eq_iff held_def pc)
qed

lemma car_barrier_rows:
  assumes batch: "caracal_batch txs e D S" and inv: "car_db_inv (of_nat e) row D S (caracal_writes txs e) M f0 s"
    and dn: "car_db_done s" and e: "e < 2 ^ 32 - 1"
  defines "br \<equiv> car_barrier_row e row M s"
  shows "k \<in> D \<Longrightarrow> car_row_pending (br k) = bpend s k" "k \<in> D \<Longrightarrow> dom (bpend s k) = writers_at txs k e"
    "caracal_rows.rows_apart D br"
    "program_ok D (\<lambda>k. car_row_pending (br k)) (worker_program txs (head_in_the_epoch e))"
    "db_exec_inv car_row_pending car_row_base car_row_wf D br f0 (worker_program txs (head_in_the_epoch e)) (db_exec_start (bstore s))"
proof -
  note b = caracal_batchD [OF batch] and v = car_view_done [OF inv dn] and d = car_db_invD [OF inv]
  have bar: "car_row_wf (br k) (bstore s)" "car_row_pending (br k) = bpend s k" "dom (bpend s k) = writers_at txs k e"
    "row_exec_inv (bpend s k) {..<4096} (M k) (f0 k) (row_exec_start (bstore s))" if "k \<in> D" for k
    using car_barrier [OF conjunct1 [OF epoch_word [OF e]] d(1) [OF that] v(2,3)] row_writes_round_robin(2)
    by (simp_all add: br_def)
  show p: "car_row_pending (br k) = bpend s k" and dm: "dom (bpend s k) = writers_at txs k e" if "k \<in> D" for k
    by (rule bar [OF that])+
  have "car_row_foot (br k) \<subseteq> car_foot (car_view (row k) k s)" for k by (simp add: br_def car_row_foot_def car_foot_def)
  then show "caracal_rows.rows_apart D br" using cars_apartD(1) [OF d(2)] by blast
  show "program_ok D (\<lambda>k. car_row_pending (br k)) (worker_program txs (head_in_the_epoch e))"
  proof (rule worker_program_ok)
    fix n :: nat assume "n < 4096"
    then show "distinct (map index (rw_set (txs ! (head_in_the_epoch e + n)))) \<and> index ` set (rw_set (txs ! (head_in_the_epoch e + n))) \<subseteq> D"
      using b(1,2) by (simp add: op_set_ok_def)
  next
    fix k i assume k: "k \<in> D" "car_row_pending (br k) i \<noteq> None"
    then have "i \<in> dom (bpend s k)" using p [OF k(1)] by auto
    then have i: "i < 4096" "has_write (txs ! (head_in_the_epoch e + i)) k" using dm [OF k(1)] by (simp_all add: row_writers_def)
    then show "i < 4096 \<and> (\<exists>op \<in> set (rw_set (txs ! (head_in_the_epoch e + i))). ope op = Update \<and> index op = k)"
      using has_write_iff [OF b(1) [OF i(1)]] by simp
  qed
  have "exec_view k (db_exec_start (bstore s)) = row_exec_start (bstore s)" for k
    by (simp add: exec_view_def db_exec_start_def row_exec_start_def)
  moreover have "executed (\<lambda>k. car_row_pending (br k)) (worker_program txs (head_in_the_epoch e)) (db_exec_start (bstore s))"
    by (simp add: executed_def db_exec_start_def)
  moreover have "car_row_base (br k) = M k" for k by (simp add: br_def car_row_base_def)
  moreover have "dmem (db_exec_start (bstore s)) = bstore s" by (simp add: db_exec_start_def)
  ultimately show "db_exec_inv car_row_pending car_row_base car_row_wf D br f0 (worker_program txs (head_in_the_epoch e))
      (db_exec_start (bstore s))" using bar by (simp add: db_exec_inv_def)
qed

text \<open>At the end of the epoch the database is ready for the next one.\<close>

lemma car_after_epoch:
  assumes batch: "caracal_batch txs e D S" and inv: "car_db_inv (of_nat e) row D S (caracal_writes txs e) M f0 s"
    and dn: "car_db_done s" and e: "e < 2 ^ 32 - 1"
    and x: "db_exec_inv car_row_pending car_row_base car_row_wf D (car_barrier_row e row M s) f0 (worker_program txs (head_in_the_epoch e)) x"
    and xd: "db_exec_done (worker_program txs (head_in_the_epoch e)) x"
  shows "caracal_db_ready (Suc e) row D S (\<lambda>k. next_record (writers_at txs k e) (xrec (exec_view k x)) (f0 k))
    (\<lparr>cvalues = bvals s, cctl = bctl s, cmem = dmem x\<rparr>, bspare s)"
proof -
  let ?br = "car_barrier_row e row M s"
  note br = car_barrier_rows [OF batch inv dn e] and v = car_view_done [OF inv dn] and d = car_db_invD [OF inv]
  note w = row_writes_round_robin(2) [of txs "head_in_the_epoch e"] and ew = epoch_word [OF e]
  have "\<exists>M'. car_ready (of_nat e + 1) (car_global (bvals s (row k))) (row_buffer_ptr (bvals s (row k))) (bctl s) (bspare s) (dmem x) M'
      (next_record (writers_at txs k e) (xrec (exec_view k x)) (f0 k))" if k: "k \<in> D" for k
  proof -
    note xi = db_exec_invD(1) [OF x k] and wf = db_exec_invD(2) [where rok = car_row_wf, OF x k]
    have ex: "row_exec_inv (bpend s k) {..<4096} (M k) (f0 k) (exec_view k x)"
      using xi br(1) [OF k] by (simp add: car_row_base_def)
    have "writers_at txs k e \<subseteq> filled (exec_view k x)"
      using caracal_rows.db_exec_results(2) [OF br(4) x xd k] br(1,2) [OF k] by simp
    from car_next_ready [OF conjunct1 [OF ew] conjunct2 [OF ew] d(1) [OF k] v(2,3), unfolded w car_view_simps v(4), OF _ ex this] wf
    show ?thesis unfolding next_record_def exec_view_simps by blast
  qed
  moreover have "arrays_apart D row (bvals s)"
  proof -
    have "snd ` set (car_slots (car_global (bvals s (row k)))) \<subseteq> car_foot (car_view (row k) k s)" for k by (simp add: car_foot_def)
    then show ?thesis using d(2) unfolding arrays_apart_def cars_apart_def by blast
  qed
  moreover have "bheld s = bspare s" by (simp add: fun_eq_iff held_def v(1))
  ultimately show ?thesis using d(3) by (simp add: caracal_db_ready_def add.commute)
qed

text \<open>The phases of an epoch, put together.\<close>

lemma caracal_db_exec_eq:
  assumes batch: "caracal_batch txs e D S" and idx: "rows_index idx row D S"
    and inv: "car_db_inv (of_nat e) row D S (caracal_writes txs e) M f0 s" and dn: "car_db_done s" and e: "e < 2 ^ 32 - 1"
  shows "db_exec_run
      (\<lambda>k n m. caracal_read idx record_table k (car_executor (of_nat e) n) \<lparr>cvalues = bvals s, cctl = bctl s, cmem = m\<rparr>)
      (bpend s) sz (worker_program txs (head_in_the_epoch e)) xs x =
    db_exec_run (\<lambda>k. car_row_read (car_barrier_row e row M s k)) (\<lambda>k. car_row_pending (car_barrier_row e row M s k)) sz
      (worker_program txs (head_in_the_epoch e)) xs x"
proof (rule sym, rule db_exec_run_cong)
  note br = car_barrier_rows [OF batch inv dn e]
  show "program_ok D (\<lambda>k. car_row_pending (car_barrier_row e row M s k)) (worker_program txs (head_in_the_epoch e))" by (rule br(4))
  fix k assume k: "k \<in> D"
  then have "idx record_table k = Some (row k)" using idx by (simp add: rows_index_def)
  then show "car_row_read (car_barrier_row e row M s k) =
      (\<lambda>n m. caracal_read idx record_table k (car_executor (of_nat e) n) \<lparr>cvalues = bvals s, cctl = bctl s, cmem = m\<rparr>)"
    by (simp add: fun_eq_iff car_row_read_def caracal_read_def car_row_db_def)
  show "car_row_pending (car_barrier_row e row M s k) = bpend s k" by (rule br(1) [OF k])
qed

lemma epoch_pos: "1 \<le> e \<Longrightarrow> e < 2 ^ 32 - 1 \<Longrightarrow> (0 :: u64) < of_nat e"
  using u64_of_nat_inverse [of e] by (simp add: word_less_nat_alt)

lemma caracal_db_epoch_run:
  assumes batch: "caracal_batch txs e D S" and idx: "rows_index idx row D S" and ready: "caracal_db_ready e row D S f0 st"
    and e: "1 \<le> e" "e < 2 ^ 32 - 1"
  shows "\<exists>res. caracal_db_epoch idx sz txs sched e st = Inr res \<and> (\<forall>st' got rc. res = Some (st', got, rc) \<longrightarrow>
    (\<forall>k \<in> D. \<forall>n \<in> readers_at txs k e. got k n = Some (must_read (writers_at txs k e) (f0 k) (rc k) n))
    \<and> caracal_db_ready (Suc e) row D S (\<lambda>k. next_record (writers_at txs k e) (rc k) (f0 k)) st')"
proof -
  obtain db sp where st: "st = (db, sp)" by fastforce
  let ?p = "worker_program txs (head_in_the_epoch e)" and ?start = "car_db_start (init_program round_robin_id txs (head_in_the_epoch e)) sp db"
  note rows = batch_car_rows_ok [OF idx, of txs e] and ew = epoch_pos [OF e] conjunct1 [OF epoch_word [OF e(2)]]
  obtain M where i: "car_db_inv (of_nat e) row D S (caracal_writes txs e) M f0 ?start" by (rule car_db_inv_start [OF batch ready [unfolded st]])
  from car_db_run_ok [OF rows i ew, of "fst sched"] obtain s where
    s: "car_db_run idx (of_nat e) (fst sched) ?start = Inr s" "car_db_inv (of_nat e) row D S (caracal_writes txs e) M f0 s" by blast
  show ?thesis
  proof (cases "car_db_done s")
    case False
    then show ?thesis using s(1) by (simp add: caracal_db_epoch_def st)
  next
    case dn: True
    let ?br = "car_barrier_row e row M s"
    note br = car_barrier_rows [OF batch s(2) dn e(2)]
    from caracal_rows.db_exec_any_schedule [OF br(4,3,5), of sz "snd sched"] obtain x where
      x: "db_exec_run (\<lambda>k. car_row_read (?br k)) (\<lambda>k. car_row_pending (?br k)) sz ?p (snd sched) (db_exec_start (bstore s)) = Inr x"
      "db_exec_inv car_row_pending car_row_base car_row_wf D ?br f0 ?p x" by blast
    have "dout x k n = Some (must_read (writers_at txs k e) (f0 k) (xrec (exec_view k x)) n)"
      if xd: "db_exec_done ?p x" and k: "k \<in> D" and n: "n \<in> readers_at txs k e" for k n
    proof -
      obtain op where "op \<in> set (rw_set (txs ! (head_in_the_epoch e + n)))" "ope op = Read" "index op = k" "n < 4096"
        using n by (auto simp: row_readers_def has_read_def list_ex_iff)
      then have "(n, op) \<in> set (?p (n mod 64))" "ope op = Read" "index op = k" by (simp_all add: worker_program_set)
      with caracal_rows.db_exec_results(1) [OF br(4) x(2) xd this(1,2)] br(1,2) [OF k] show ?thesis by simp
    qed
    then show ?thesis
      using s(1) dn x(1) car_after_epoch [OF batch s(2) dn e(2) x(2)] caracal_db_exec_eq [OF batch idx s(2) dn e(2)]
      by (auto simp: caracal_db_epoch_def st)
  qed
qed

lemma caracal_db_epoch_finish:
  assumes batch: "caracal_batch txs e D S" and idx: "rows_index idx row D S" and ready: "caracal_db_ready e row D S f0 st"
    and e: "1 \<le> e" "e < 2 ^ 32 - 1"
  shows "\<exists>irest xrest st' h. caracal_db_epoch idx sz txs (ws @ irest, xs @ xrest) e st = Inr (Some (st', h))"
proof -
  obtain db sp where st: "st = (db, sp)" by fastforce
  let ?p = "worker_program txs (head_in_the_epoch e)" and ?start = "car_db_start (init_program round_robin_id txs (head_in_the_epoch e)) sp db"
  note rows = batch_car_rows_ok [OF idx, of txs e] and ew = epoch_pos [OF e] conjunct1 [OF epoch_word [OF e(2)]]
  obtain M where i: "car_db_inv (of_nat e) row D S (caracal_writes txs e) M f0 ?start" by (rule car_db_inv_start [OF batch ready [unfolded st]])
  from car_db_run_ok [OF rows i ew, of ws] obtain s0 where s0: "car_db_run idx (of_nat e) ws ?start = Inr s0"
    "car_db_inv (of_nat e) row D S (caracal_writes txs e) M f0 s0" by blast
  from car_db_can_finish [OF rows s0(2) ew] obtain irest s where s: "car_db_run idx (of_nat e) irest s0 = Inr s"
    "car_db_inv (of_nat e) row D S (caracal_writes txs e) M f0 s" "car_db_done s" by blast
  let ?br = "car_barrier_row e row M s" let ?run = "db_exec_run (\<lambda>k. car_row_read (?br k)) (\<lambda>k. car_row_pending (?br k)) sz ?p"
  note br = car_barrier_rows [OF batch s(2,3) e(2)]
  from caracal_rows.db_exec_any_schedule [OF br(4,3,5), of sz xs] obtain x0 where
    x0: "?run xs (db_exec_start (bstore s)) = Inr x0" "db_exec_inv car_row_pending car_row_base car_row_wf D ?br f0 ?p x0" by blast
  from caracal_rows.db_exec_completes [OF br(4,3) x0(2), of sz] obtain xrest x where x: "?run xrest x0 = Inr x" "db_exec_done ?p x" by blast
  have "car_db_run idx (of_nat e) (ws @ irest) ?start = Inr s" using s0(1) s(1) by (simp add: car_db_run_append)
  moreover have "?run (xs @ xrest) (db_exec_start (bstore s)) = Inr x" using x0(1) x(1) by (simp add: db_exec_run_append)
  ultimately have "caracal_db_epoch idx sz txs (ws @ irest, xs @ xrest) e st =
      Inr (Some ((\<lparr>cvalues = bvals s, cctl = bctl s, cmem = dmem x\<rparr>, bspare s), dout x, \<lambda>k. xrec (exec_view k x)))"
    using s(3) x(2) caracal_db_exec_eq [OF batch idx s(2,3) e(2)] by (simp add: caracal_db_epoch_def st)
  then show ?thesis by blast
qed

section \<open>The experiment\<close>

definition caracal_run_ready ::
  "index_find \<Rightarrow> operation_set list \<Rightarrow> (nat \<Rightarrow> nat) \<Rightarrow> nat set \<Rightarrow> nat set \<Rightarrow> nat \<Rightarrow> (nat \<Rightarrow> nat) \<Rightarrow> caracal_state \<Rightarrow> bool" where
  "caracal_run_ready idx txs row D S e f0 st \<longleftrightarrow> rows_index idx row D S
     \<and> (\<forall>e. 1 \<le> e \<longrightarrow> e \<le> NUM_EPOCH \<longrightarrow> caracal_batch txs e D S) \<and> 1 \<le> e \<and> caracal_db_ready e row D S f0 st"

lemma no_key_reads:
  assumes "caracal_batch txs e D S" and "k \<notin> D"
  shows "readers_at txs k e = {}"
proof -
  have False if n: "n < 4096" "has_read (txs ! (head_in_the_epoch e + n)) k" for n
  proof -
    obtain op where "op \<in> set (rw_set (txs ! (head_in_the_epoch e + n)))" "index op = k"
      using n(2) by (auto simp: has_read_def list_ex_iff)
    then have "k \<in> index ` set (rw_set (txs ! (head_in_the_epoch e + n)))" by blast
    then show False using caracal_batchD(2) [OF assms(1) n(1)] assms(2) by blast
  qed
  then show ?thesis by (auto simp: row_readers_def)
qed

interpretation caracal_database: database_protocol "caracal_db_epoch idx sz txs" "caracal_run_ready idx txs row D S"
    "writers_at txs" "readers_at txs" "Suc NUM_EPOCH"
  for idx :: index_find and sz :: nat and txs :: "operation_set list" and row :: "nat \<Rightarrow> nat" and D S :: "nat set"
proof unfold_locales
  fix e f st sc assume rd: "caracal_run_ready idx txs row D S e f st" and lim: "e < Suc NUM_EPOCH"
  then have r: "rows_index idx row D S" "caracal_batch txs e D S" "caracal_db_ready e row D S f st" "1 \<le> e" "e < 2 ^ 32 - 1"
    by (simp_all add: caracal_run_ready_def NUM_EPOCH_def)
  from caracal_db_epoch_run [OF r(2,1,3-5), of sz sc] obtain res where res: "caracal_db_epoch idx sz txs sc e st = Inr res"
    "\<And>st' got rc. res = Some (st', got, rc) \<Longrightarrow>
      (\<forall>k \<in> D. \<forall>n \<in> readers_at txs k e. got k n = Some (must_read (writers_at txs k e) (f k) (rc k) n))
      \<and> caracal_db_ready (Suc e) row D S (\<lambda>k. next_record (writers_at txs k e) (rc k) (f k)) st'" by blast
  have "(\<forall>k. \<forall>n \<in> readers_at txs k e. got k n = Some (must_read (writers_at txs k e) (f k) (rc k) n))
      \<and> caracal_run_ready idx txs row D S (Suc e) (\<lambda>k. next_record (writers_at txs k e) (rc k) (f k)) st'"
    if "res = Some (st', got, rc)" for st' got rc
    using res(2) [OF that] no_key_reads [OF r(2)] rd unfolding caracal_run_ready_def by auto
  with res(1) show "\<exists>res. caracal_db_epoch idx sz txs sc e st = Inr res \<and> (\<forall>st' got rc. res = Some (st', got, rc) \<longrightarrow>
      (\<forall>k. \<forall>n \<in> readers_at txs k e. got k n = Some (must_read (writers_at txs k e) (f k) (rc k) n))
      \<and> caracal_run_ready idx txs row D S (Suc e) (\<lambda>k. next_record (writers_at txs k e) (rc k) (f k)) st')" by blast
  from caracal_db_epoch_finish [OF r(2,1,3-5), of sz "[]" "[]"]
  show "\<exists>sc st' h. caracal_db_epoch idx sz txs sc e st = Inr (Some (st', h))" by blast
qed

lemma caracal_db_run_serial:
  assumes "rows_index idx row D S" and "\<And>e. 1 \<le> e \<Longrightarrow> e \<le> NUM_EPOCH \<Longrightarrow> caracal_batch txs e D S" and "caracal_db_ready 1 row D S f0 st"
  shows "\<exists>res. run_epochs (\<lambda>e. caracal_db_epoch idx sz txs (sched e) e) 1 NUM_EPOCH st = Inr res \<and>
    (\<forall>st' hs. res = Some (st', hs) \<longrightarrow> length hs = NUM_EPOCH \<and>
       (\<forall>k. serial_history (writers_at txs k) (readers_at txs k) 1 (f0 k) (key_history k hs)))"
proof -
  have "caracal_run_ready idx txs row D S 1 f0 st" using assms by (simp add: caracal_run_ready_def)
  from caracal_database.db_run_serial [OF this, of NUM_EPOCH sz sched] show ?thesis by auto
qed

lemma caracal_db_run_completes:
  assumes "rows_index idx row D S" and "\<And>e. 1 \<le> e \<Longrightarrow> e \<le> NUM_EPOCH \<Longrightarrow> caracal_batch txs e D S" and "caracal_db_ready 1 row D S f0 st"
  shows "\<exists>sched st' hs. run_epochs (\<lambda>e. caracal_db_epoch idx sz txs (sched e) e) 1 NUM_EPOCH st = Inr (Some (st', hs))"
proof -
  have "caracal_run_ready idx txs row D S 1 f0 st" using assms by (simp add: caracal_run_ready_def)
  from caracal_database.db_run_completes [OF this, of NUM_EPOCH sz] show ?thesis by auto
qed

section \<open>Loading\<close>

definition empty_caracal_db :: caracal_db where
  "empty_caracal_db = \<lparr>cvalues = (\<lambda>_. \<lparr>car_global = \<lparr>car_rwl = 0, car_slots = []\<rparr>, row_buffer_ptr = None\<rparr>),
     cctl = \<lparr>row_buffers = (\<lambda>_. row_buffer_init), used_buffers = 0\<rparr>, cmem = mem_init\<rparr>"

text \<open>Every row holds one version of its own, with global id 0.\<close>

definition car_loaded :: "nat \<Rightarrow> (nat \<Rightarrow> nat) \<Rightarrow> caracal_db \<Rightarrow> bool" where
  "car_loaded n f db \<longleftrightarrow> mem_ok (cmem db) \<and> cctl db = car_free_buffers \<and> inj_on f {..<n}
     \<and> (\<forall>k < n. cvalues db k = \<lparr>car_global = \<lparr>car_rwl = 0, car_slots = [(0, f k)]\<rparr>, row_buffer_ptr = None\<rparr> \<and> stable (cmem db) (f k))"

lemma stable_less_brk: "mem_ok m \<Longrightarrow> stable m v \<Longrightarrow> v < brk m"
  using mem_okD(2) by (fastforce simp: stable_def)

lemma car_load_ok: "\<exists>db f. car_load_all_tables sz n empty_caracal_db = Inr db \<and> car_loaded n f db"
proof (induction n)
  case 0
  then show ?case by (simp add: car_loaded_def empty_caracal_db_def car_free_buffers_def)
next
  case (Suc n)
  then obtain db f where db: "car_load_all_tables sz n empty_caracal_db = Inr db" "car_loaded n f db" by blast
  then have l: "mem_ok (cmem db)" "cctl db = car_free_buffers" "inj_on f {..<n}"
    "\<And>k. k < n \<Longrightarrow> cvalues db k = \<lparr>car_global = \<lparr>car_rwl = 0, car_slots = [(0, f k)]\<rparr>, row_buffer_ptr = None\<rparr>"
    "\<And>k. k < n \<Longrightarrow> stable (cmem db) (f k)" by (auto simp: car_loaded_def)
  obtain r m1 where r: "new_record sz (cmem db) = (r, m1)" by fastforce
  note a = new_record_ok [OF l(1) r]
  have fresh: "ver_rec x \<noteq> r" if "vers m1 v = Some x" for v x
  proof
    assume "ver_rec x = r"
    then have "recs (cmem db) (brk (cmem db)) \<noteq> None" using mem_okD(4) [OF l(1), of v x] that a(3) by (auto simp: a(4,5))
    then show False using mem_ok_fresh [OF l(1)] by simp
  qed
  obtain v m2 where v: "new_version \<lparr>ver_rec = r, ver_status = STABLE, ver_deleted = False\<rparr> m1 = (v, m2)" by fastforce
  have b: "mem_ok m2" "v = brk m1" "vers m2 = (vers m1)(v \<mapsto> \<lparr>ver_rec = r, ver_status = STABLE, ver_deleted = False\<rparr>)"
    by (rule new_stable_version_ok [OF a(1) _ _ v]; use a(2) fresh in auto)+
  have v0: "v \<noteq> nullptr" using mem_okD(1) [OF l(1)] b(2) a(6) by simp
  have old: "f k < v" "stable m2 (f k)" if "k < n" for k
  proof -
    show "f k < v" using stable_less_brk [OF l(1) l(5) [OF that]] b(2) a(6) by simp
    then show "stable m2 (f k)" using l(5) [OF that] by (simp add: stable_def b(3) a(4))
  qed
  let ?db = "db\<lparr>cvalues := (cvalues db)(n := \<lparr>car_global = \<lparr>car_rwl = 0, car_slots = [(0, v)]\<rparr>, row_buffer_ptr = None\<rparr>), cmem := m2\<rparr>"
  have "inj_on (f(n := v)) {..<Suc n}"
  proof -
    have "v \<notin> f ` {..<n}" using old(1) by fastforce
    then show ?thesis using l(3) by (simp add: lessThan_Suc inj_on_fun_updI)
  qed
  moreover have "stable m2 v" by (simp add: stable_def b(3))
  ultimately have "car_loaded (Suc n) (f(n := v)) ?db"
    using b(1) l(2,4) old(2) by (auto simp: car_loaded_def less_Suc_eq)
  moreover have "car_load_all_tables sz (Suc n) empty_caracal_db = Inr ?db"
    using db(1) r v v0 by (simp add: car_insert_into_index_def append_with_no_gc_def)
  ultimately show ?case by blast
qed

lemma first_epoch_id: "(0 :: u64) < epoch_id 1"
  by (simp add: word_less_nat_alt unat_convert)

lemma single_version_ready:
  assumes m: "mem_ok m" and v: "stable m v"
  shows "\<exists>r. car_ready 1 \<lparr>car_rwl = 0, car_slots = [(0, v)]\<rparr> None car_free_buffers (\<lambda>_. None) m v r"
proof -
  have lv: "live m v" "v \<noteq> nullptr" using stable_live [OF v m] by (simp_all add: live_def)
  note lt = first_epoch_id
  have dom: "dom (car_entries [(0, v)]) = {0}" by (simp only: dom_car_entries) simp
  have "car_entries [(0, v)] 0 = Some v" "0 < unat (epoch_id 1)" using lt by (simp_all add: car_entries_def word_less_nat_alt)
  then have "visible_entry (car_entries [(0, v)]) (unat (epoch_id 1)) = Some (0, v)" unfolding visible_entry_Some dom by blast
  moreover have "car_wf 1 [(0, v)] m" using m v lv lt by (simp add: car_wf_def car_ok_def)
  moreover obtain r where "stab m v r" using v by (auto simp: stable_def stab_def)
  ultimately have "car_base 1 [(0, v)] m v r" by (simp add: car_base_def)
  moreover have "epoch_part 1 [(0, v)] = {}" using lt by (auto simp: epoch_part_def)
  moreover have "car_pool None car_free_buffers (\<lambda>_. None) (\<lambda>w. CEnd)"
    by (rule car_poolI) (simp_all add: car_free_buffers_def row_buffer_init_def held_def NUM_BUFFERS_def)
  ultimately show ?thesis by (auto simp: car_ready_def)
qed

lemma car_load_ready:
  assumes S: "S \<subseteq> {..<n}" "card S + 64 \<le> NUM_BUFFERS"
  shows "\<exists>db f0. car_load_all_tables sz n empty_caracal_db = Inr db \<and> caracal_db_ready 1 (\<lambda>k. k) {..<n} S f0 (db, \<lambda>_. None)"
proof -
  obtain db f where db: "car_load_all_tables sz n empty_caracal_db = Inr db" "car_loaded n f db" using car_load_ok by blast
  then have l: "mem_ok (cmem db)" "cctl db = car_free_buffers" "inj_on f {..<n}"
    "\<And>k. k < n \<Longrightarrow> cvalues db k = \<lparr>car_global = \<lparr>car_rwl = 0, car_slots = [(0, f k)]\<rparr>, row_buffer_ptr = None\<rparr>"
    "\<And>k. k < n \<Longrightarrow> stable (cmem db) (f k)" by (auto simp: car_loaded_def)
  have "\<exists>f0. \<forall>k < n. car_ready 1 \<lparr>car_rwl = 0, car_slots = [(0, f k)]\<rparr> None car_free_buffers (\<lambda>_. None) (cmem db) (f k) (f0 k)"
    using single_version_ready [OF l(1) l(5)] by metis
  then obtain f0 where f0: "\<forall>k < n. car_ready 1 \<lparr>car_rwl = 0, car_slots = [(0, f k)]\<rparr> None car_free_buffers (\<lambda>_. None) (cmem db) (f k) (f0 k)"
    by blast
  have "arrays_apart {..<n} (\<lambda>k. k) (cvalues db)"
    using l(3,4) by (auto simp: arrays_apart_def inj_on_def)
  moreover have "finite S" using S(1) finite_subset by blast
  then have "buffer_room S (\<lambda>k. k) (cvalues db) (used_buffers (cctl db)) (\<lambda>_. None)"
    using S(2) by (simp add: buffer_room_def l(2) car_free_buffers_def)
  ultimately have "caracal_db_ready 1 (\<lambda>k. k) {..<n} S f0 (db, \<lambda>_. None)"
    using f0 l(2,4) by (auto simp: caracal_db_ready_def)
  with db(1) show ?thesis by blast
qed

section \<open>The sample for the witnesses\<close>

lemma sample_caracal_batch:
  assumes e: "1 \<le> e" "e \<le> NUM_EPOCH"
  shows "caracal_batch sample_batches e {..<2} {..<2}"
  unfolding caracal_batch_def
proof (intro conjI allI impI ballI)
  have "(e - 1) * 4096 + 4096 \<le> 4096 * 1000" using e by (simp add: NUM_EPOCH_def)
  then show "head_in_the_epoch e + 4096 \<le> length sample_batches"
    by (simp add: sample_batches_def head_in_the_epoch_def NUM_TXS_IN_ONE_EPOCH_def NUM_EPOCH_def)
next
  fix n :: nat assume n: "n < 4096"
  show "op_set_ok (sample_batches ! (head_in_the_epoch e + n))"
    unfolding sample_batch_nth [OF e n] by (rule sample_tx_ok)
  show "index ` set (rw_set (sample_batches ! (head_in_the_epoch e + n))) \<subseteq> {..<2}"
    unfolding sample_batch_nth [OF e n] by (rule sample_tx_ok)
qed

lemma sample_loaded:
  obtains db f0 where "car_load_all_tables 8 2 empty_caracal_db = Inr db"
    "caracal_db_ready 1 (\<lambda>k. k) {..<2} {..<2} f0 (db, \<lambda>_. None)"
proof -
  have "card {..<2 :: nat} + 64 \<le> NUM_BUFFERS" by (simp add: NUM_BUFFERS_def)
  from car_load_ready [OF order_refl this, of 8] that show ?thesis by blast
qed

section \<open>Properties\<close>

text \<open>C3: A whole Caracal experiment on a whole database. Take any table that is ready for the first epoch and any
  transactions as the workload makes them, where the row buffers suffice for the rows that are written and one per
  worker. For any interleaving of the 64 workers' accesses in all the initialization phases (direct appends, row
  buffers taken, installed or kept as spare ones for other rows, per-core buffers, batch appends, the final batch
  appends that pass by locked rows) and of their operations in all the execution phases, over all the rows at once, no
  assertion fails, no exception is thrown, no freed version is used and none is freed twice. If every epoch reaches its
  last barrier, all reads on every key are those of the serial execution of all transactions of all epochs.\<close>

theorem caracal_database_serial:
  assumes "rows_index idx row D S" and "\<And>e. 1 \<le> e \<Longrightarrow> e \<le> NUM_EPOCH \<Longrightarrow> caracal_batch txs e D S"
    and "caracal_db_ready 1 row D S f0 (db, spares)"
  shows "\<exists>res. run_epochs (\<lambda>e. caracal_db_epoch idx sz txs (sched e) e) 1 NUM_EPOCH (db, spares) = Inr res \<and>
    (\<forall>st' hs. res = Some (st', hs) \<longrightarrow> length hs = NUM_EPOCH \<and>
       (\<forall>k. serial_history (writers_at txs k) (readers_at txs k) 1 (f0 k) (key_history k hs)))"
  by (rule caracal_db_run_serial [OF assms])

theorem caracal_database_serial_witness:
  "\<exists>db sched st' hs. car_load_all_tables 8 2 empty_caracal_db = Inr db
     \<and> run_epochs (\<lambda>e. caracal_db_epoch sample_find 8 sample_batches (sched e) e) 1 NUM_EPOCH (db, \<lambda>_. None) = Inr (Some (st', hs))
     \<and> length hs = NUM_EPOCH \<and> fst (hd hs) 0 70 = Some (snd (hd hs) 0 0) \<and> fst (hd hs) 1 70 = Some (snd (hd hs) 1 0)"
proof -
  obtain db f0 where db: "car_load_all_tables 8 2 empty_caracal_db = Inr db"
    "caracal_db_ready 1 (\<lambda>k. k) {..<2} {..<2} f0 (db, \<lambda>_. None)" by (rule sample_loaded)
  from caracal_db_run_completes [OF sample_rows_index sample_caracal_batch db(2), of 8] obtain sched st' hs where
    r: "run_epochs (\<lambda>e. caracal_db_epoch sample_find 8 sample_batches (sched e) e) 1 NUM_EPOCH (db, \<lambda>_. None) = Inr (Some (st', hs))" by blast
  from caracal_database_serial [OF sample_rows_index sample_caracal_batch db(2), of 8 sched] r
  have h: "length hs = NUM_EPOCH"
    "\<And>k. serial_history (writers_at sample_batches k) (readers_at sample_batches k) 1 (f0 k) (key_history k hs)" by auto
  have "1 \<le> (1 :: nat)" "1 \<le> NUM_EPOCH" by (simp_all add: NUM_EPOCH_def)
  note sw = sample_writers [OF this]
  obtain got rc rest where hs: "hs = (got, rc) # rest" using h(1) by (cases hs) (auto simp: NUM_EPOCH_def)
  have "got k 70 = Some (must_read {0} (f0 k) (rc k) 70)" if "k < 2" for k
    using h(2) [of k] that sw unfolding hs by (simp add: key_history_def)
  moreover have "must_read {0} x y 70 = y 0" for x :: nat and y
  proof -
    have "visible_in {0} 70 = Some 0" by (simp add: visible_in_Some)
    then show ?thesis by (simp add: must_read_def)
  qed
  ultimately have "got 0 70 = Some (rc 0 0)" "got 1 70 = Some (rc 1 0)" by simp_all
  with db(1) r h(1) show ?thesis unfolding hs by fastforce
qed

text \<open>C10: Nothing blocks an epoch of Caracal on the whole database: whatever the workers have done so far in the
  initialization phase, on whatever rows, all of them can finish it with all their per-core buffers appended, though each
  passes by rows that are locked, and whatever they have done in the execution phase of their transactions, which wait
  for each other's versions on many rows, all of them can finish that too.\<close>

theorem caracal_database_completes:
  assumes "caracal_batch txs e D S" and "rows_index idx row D S" and "caracal_db_ready e row D S f0 st"
    and "1 \<le> e" and "e < 2 ^ 32 - 1"
  shows "\<exists>irest xrest st' h. caracal_db_epoch idx sz txs (ws @ irest, xs @ xrest) e st = Inr (Some (st', h))"
  by (rule caracal_db_epoch_finish [OF assms])

theorem caracal_database_completes_witness:
  "\<exists>db irest xrest st' h. car_load_all_tables 8 2 empty_caracal_db = Inr db
     \<and> caracal_db_epoch sample_find 8 sample_batches ([0, 0, 0] @ irest, [6] @ xrest) 1 (db, \<lambda>_. None) = Inr (Some (st', h))"
proof -
  obtain db f0 where db: "car_load_all_tables 8 2 empty_caracal_db = Inr db"
    "caracal_db_ready 1 (\<lambda>k. k) {..<2} {..<2} f0 (db, \<lambda>_. None)" by (rule sample_loaded)
  have "caracal_batch sample_batches 1 {..<2} {..<2}" by (rule sample_caracal_batch) (simp_all add: NUM_EPOCH_def)
  from caracal_database_completes [OF this sample_rows_index db(2), of 8 "[0, 0, 0]" "[6]"] db(1) show ?thesis by fastforce
qed

end
