(* ===== verification/Cheetah_Frame.thy ===== *)
theory Cheetah_Frame
  imports Cheetah_Phases
begin

text \<open>
  What the accesses to one row of Cheetah leave alone of the others. The rows share the store and
  nothing else: a row owns its master and its placeholders, and later the final version; what it
  does not own it does not change, and what it comes to own is newly allocated.
\<close>

section \<open>The versions of a row\<close>

definition ch_foot :: "(nat \<Rightarrow> nat option) \<Rightarrow> nat \<Rightarrow> bool \<Rightarrow> nat \<Rightarrow> nat set" where
  "ch_foot P M0 fin fv = insert M0 (ran P \<union> (if fin then {fv} else {}))"

lemma ch_foot_less:
  assumes mi: "mem_inv W P B M0 r0 fv fin q ws wr m" and v: "v \<in> ch_foot P M0 fin fv"
  shows "v < brk m"
proof (cases "fin \<and> v = fv")
  case True
  then have "ver_inv ws wr m (Max W) v" using mem_invD(9) [OF mi] by simp
  then have "vers m v \<noteq> None" by (auto simp: ver_inv_def stab_def pend_def split: if_splits)
  then show ?thesis using mem_okD(2) [OF mem_invD(1) [OF mi]] by auto
qed (use v mem_invD(12,13) [OF mi] in \<open>auto simp: ch_foot_def split: if_splits\<close>)

lemma stab_pend_cong:
  assumes "vers m' v = vers m v"
  shows "stab m' v r = stab m v r" "pend m' v = pend m v" "ver_inv ws wr m' i v = ver_inv ws wr m i v"
  using assms by (simp_all add: stab_def pend_def ver_inv_def)

text \<open>The store before the epoch, as the row sees it after a step of another row.\<close>

definition ch_rest :: "nat set \<Rightarrow> (nat \<Rightarrow> version option) \<Rightarrow> mem \<Rightarrow> nat \<Rightarrow> version option" where
  "ch_rest F B m = (\<lambda>v. if v \<in> F then B v else vers m v)"

lemma mem_inv_frame:
  assumes mi: "mem_inv W P B M0 r0 fv fin q ws wr m" and m': "mem_ok m'" "brk m \<le> brk m'"
    and same: "\<And>v. v \<in> ch_foot P M0 fin fv \<Longrightarrow> vers m' v = vers m v"
  shows "mem_inv W P (ch_rest (ch_foot P M0 fin fv) B m') M0 r0 fv fin q ws wr m'"
proof -
  have own: "vers m' M0 = vers m M0" "\<And>i v. P i = Some v \<Longrightarrow> vers m' v = vers m v" "fin \<Longrightarrow> vers m' fv = vers m fv"
    using same by (auto simp: ch_foot_def intro: ranI)
  show ?thesis
    unfolding mem_inv_def
  proof (intro conjI)
    show "mem_ok m'" by (rule m'(1))
    show "if fin \<and> q then vers m' M0 = None else stab m' M0 r0"
      using mem_invD(2,3) [OF mi] own(1) stab_pend_cong(1) [OF own(1)] by auto
    show "\<forall>i v. P i = Some v \<longrightarrow> i \<noteq> Max W \<longrightarrow> (if q then vers m' v = None else ver_inv ws wr m' i v)"
      using mem_invD(4,5) [OF mi] own(2) stab_pend_cong(3) [OF own(2)] by simp
    show "\<forall>v. P (Max W) = Some v \<longrightarrow> (if fin then fv = v else pend m' v)"
      using mem_invD(6,7) [OF mi] stab_pend_cong(2) [OF own(2)] by simp
    show "fin \<longrightarrow> fv \<noteq> nullptr \<and> ver_inv ws wr m' (Max W) fv \<and> fv \<noteq> M0"
      using mem_invD(8,9,10) [OF mi] stab_pend_cong(3) [OF own(3)] by simp
    show "fin \<and> P (Max W) = None \<longrightarrow> fv \<notin> ran P" using mem_invD(11) [OF mi] by simp
    show "M0 < brk m'" "\<forall>v \<in> ran P. v < brk m'" using mem_invD(12,13) [OF mi] m'(2) less_le_trans by blast+
    show "\<forall>u. u \<noteq> M0 \<longrightarrow> u \<notin> ran P \<longrightarrow> (fin \<longrightarrow> u \<noteq> fv) \<longrightarrow> vers m' u = ch_rest (ch_foot P M0 fin fv) B m' u"
      by (simp add: ch_rest_def ch_foot_def)
  qed
qed

lemma mem_inv_outside:
  assumes "mem_inv W P B M0 r0 fv fin q ws wr m" and "mem_inv W' P' B M0 r0' fv' fin' q' ws' wr' m'"
    and "u \<notin> ch_foot P M0 fin fv" and "u \<notin> ch_foot P' M0 fin' fv'"
  shows "vers m' u = vers m u"
  using mem_invD(14) [OF assms(1), of u] mem_invD(14) [OF assms(2), of u] assms(3,4) by (auto simp: ch_foot_def split: if_splits)

section \<open>The read phase\<close>

abbreviation read_foot :: "nat \<Rightarrow> write_bitmap \<Rightarrow> nat set" where
  "read_foot M0 w \<equiv> ch_foot (placeholders w) M0 False 0"

lemma read_inv_mem_ok: "read_inv W S B M0 r0 ptr w m \<Longrightarrow> mem_ok m"
  using mem_invD(1) read_invD(2) by blast

lemma read_inv_frame:
  assumes inv: "read_inv W S B M0 r0 ptr w m" and m': "mem_ok m'" "brk m \<le> brk m'"
    and same: "\<And>v. v \<in> read_foot M0 w \<Longrightarrow> vers m' v = vers m v"
  shows "read_inv W S (ch_rest (read_foot M0 w) B m') M0 r0 ptr w m'"
  using inv mem_inv_frame [OF read_invD(2) [OF inv] m' same]
  unfolding read_inv_def by (simp add: ch_rest_def ch_foot_def)

text \<open>In the read phase a row's versions are all alive.\<close>

lemma read_foot_alive:
  assumes inv: "read_inv W S B M0 r0 ptr w m" and v: "v \<in> read_foot M0 w"
  shows "vers m v \<noteq> None"
proof (cases "v = M0")
  case True
  then show ?thesis using mem_invD(3) [OF read_invD(2) [OF inv]] by (auto simp: stab_def)
next
  case False
  then obtain i where i: "placeholders w i = Some v" using v by (auto simp: ch_foot_def ran_def)
  then have "pend m v" using mem_invD(4,7) [OF read_invD(2) [OF inv]] by (cases "i = Max W") (auto simp: ver_inv_def)
  then show ?thesis by (auto simp: pend_def)
qed

text \<open>A call on one row and the versions of another.\<close>

lemma read_inv_others:
  assumes inv: "read_inv W S B M0 r0 ptr w m" and inv': "read_inv W' S' B M0 r0 ptr' w' m'"
    and v: "vers m v \<noteq> None" "v \<notin> read_foot M0 w"
  shows "v \<notin> read_foot M0 w'" "vers m' v = vers m v"
proof -
  have "B v \<noteq> None" using mem_invD(14) [OF read_invD(2) [OF inv], of v] v by (simp add: ch_foot_def)
  then show f: "v \<notin> read_foot M0 w'" using read_invD(9) [OF inv'] v(2) by (auto simp: ch_foot_def)
  show "vers m' v = vers m v" by (rule mem_inv_outside [OF read_invD(2) [OF inv] read_invD(2) [OF inv'] v(2) f])
qed

lemma wb_append_brk:
  assumes "wb_append_pending_version core tx w m = Inr (v, w', m')"
  shows "brk m \<le> brk m'" "wb_lock w' = wb_lock w"
  using assms by (auto simp: wb_append_pending_version_def get_placeholder_def create_pending_version_eq count_reader_eq Let_def
      ebind_eq_Inr guard_eq_Inr split: if_splits option.splits prod.splits)

lemma wb_append_ran:
  assumes "wb_append_pending_version core tx w m = Inr (v, w', m')"
  shows "ran (placeholders w) \<subseteq> ran (placeholders w')"
  using assms by (auto simp: wb_append_pending_version_def get_placeholder_def count_reader_eq Let_def ran_map_upd
      ebind_eq_Inr guard_eq_Inr split: if_splits option.splits prod.splits)

section \<open>The execution phase\<close>

lemma wb_gc_brk: "wb_gc v m = Inr m' \<Longrightarrow> brk m' = brk m"
  by (auto simp: wb_gc_def delete_version_def ebind_eq_Inr guard_eq_Inr)

lemma gc_placeholders_brk: "gc_placeholders xs m = Inr m' \<Longrightarrow> brk m' = brk m"
proof (induction xs m rule: gc_placeholders.induct)
  case (2 i v xs m)
  then show ?case using wb_gc_brk by (fastforce simp: ebind_eq_Inr guard_eq_Inr)
qed simp

lemma final_reader_gc_brk:
  assumes "final_reader_gc w m = Inr (w', m')"
  shows "brk m' = brk m" "wb_lock w' = wb_lock w"
  using assms wb_gc_brk gc_placeholders_brk
  by (fastforce simp: final_reader_gc_def sub_ref_cnt_def ebind_eq_Inr guard_eq_Inr split: if_splits)+

lemma identify_write_brk:
  assumes "identify_write_version core tx w m = Inr (v, w', m')"
  shows "brk m \<le> brk m'" "wb_lock w' = wb_lock w" "v = nullptr \<or> v \<in> ran (placeholders w) \<or> v = brk m"
proof -
  obtain final where f: "is_final_state core tx w = Inr final"
    using assms unfolding identify_write_version_def Let_def by (auto simp only: ebind_eq_Inr)
  show "brk m \<le> brk m'" "wb_lock w' = wb_lock w" "v = nullptr \<or> v \<in> ran (placeholders w) \<or> v = brk m"
    using assms f wb_gc_brk
    by (auto simp: identify_write_version_def Let_def create_pending_version_eq clear_bitmaps_def ebind_eq_Inr guard_eq_Inr
        intro: ranI split: if_splits option.splits)
qed

lemma reader_step_brk:
  assumes "reader_step ptr n s = Inr s'"
  shows "brk (xm s) \<le> brk (xm s')" "wb_lock (xw s') = wb_lock (xw s)" "wst s' = wst s" "fver s' = fver s" "wrec s' = wrec s"
    "k \<noteq> n \<Longrightarrow> rst s' k = rst s k"
  using assms by (auto simp: reader_step_def sub_ref_cnt_def ebind_eq_Inr dest: final_reader_gc_brk
      split: reader_pc.splits option.splits)

lemma writer_step_cases:
  assumes "writer_step f sz n s = Inr s'"
  obtains (got) v w m where "wst s n = WWait" "identify_write_version (n div 64) (n mod 64) (xw s) (xm s) = Inr (v, w, m)"
      "s' = s\<lparr>xw := w, xm := m, wst := (wst s)(n := WGot v), fver := if n = f then v else fver s\<rparr>"
  | (fill) v r m where "wst s n = WGot v" "upsert sz v (xm s) = Inr (r, m)"
      "s' = s\<lparr>xm := m, wst := (wst s)(n := WDone), wrec := (wrec s)(n := r)\<rparr>"
  | (pass) "wst s n \<noteq> WWait" "s' = s\<lparr>wst := (wst s)(n := WDone)\<rparr>"
proof (cases "wst s n")
  case WDone
  then have "s' = s\<lparr>wst := (wst s)(n := WDone)\<rparr>" using assms by (simp add: writer_step_def fun_upd_idem)
  then show ?thesis using WDone pass by simp
next
  case WWait
  then obtain x where x: "identify_write_version (n div 64) (n mod 64) (xw s) (xm s) = Inr x"
    using assms by (cases "identify_write_version (n div 64) (n mod 64) (xw s) (xm s)") (simp_all add: writer_step_def)
  obtain v w m where v: "x = (v, w, m)" by (metis prod_cases3)
  from assms WWait x v have "s' = s\<lparr>xw := w, xm := m, wst := (wst s)(n := WGot v), fver := if n = f then v else fver s\<rparr>"
    by (simp only: writer_step_def writer_pc.case ebind_Inr prod.case sum.inject)
  with WWait x v got show ?thesis by blast
qed (use assms fill pass in \<open>auto simp: writer_step_def ebind_eq_Inr split: if_splits\<close>)

lemma writer_step_brk:
  assumes "writer_step f sz n s = Inr s'"
  shows "brk (xm s) \<le> brk (xm s')" "wb_lock (xw s') = wb_lock (xw s)" "rst s' = rst s" "out s' = out s"
    "n \<noteq> f \<or> wst s n \<noteq> WWait \<Longrightarrow> fver s' = fver s" "wst s' n \<noteq> WWait" "k \<noteq> n \<Longrightarrow> wst s' k = wst s k"
    "n = f \<Longrightarrow> wst s n = WWait \<Longrightarrow> fver s' = nullptr \<or> fver s' \<in> ran (placeholders (xw s)) \<or> fver s' = brk (xm s)"
  using assms by (cases rule: writer_step_cases; auto simp: upsert_brk dest: identify_write_brk(1-3))+

definition exec_foot :: "nat set \<Rightarrow> (nat \<Rightarrow> nat option) \<Rightarrow> nat \<Rightarrow> exec_conf \<Rightarrow> nat set" where
  "exec_foot W P M0 s = ch_foot P M0 (final_seen W s) (fver s)"

lemma row_inv_placeholders: "row_inv W P M0 fv fin q u w \<Longrightarrow> ran (placeholders w) \<subseteq> ran P"
  by (auto simp: row_inv_def ran_def split: if_splits)

lemma exec_foot_reader:
  assumes "reader_step ptr n s = Inr s'"
  shows "exec_foot W P M0 s' = exec_foot W P M0 s"
  using reader_step_brk [OF assms] by (simp add: exec_foot_def final_seen_def)

lemma exec_foot_writer:
  assumes st: "writer_step (Max W) sz n s = Inr s'" and inv: "exec_inv W R P B M0 r0 s" "exec_inv W R P B M0 r0 s'"
    and v: "v \<in> exec_foot W P M0 s'"
  shows "v \<in> exec_foot W P M0 s \<or> v = brk (xm s)"
proof (cases "v \<in> insert M0 (ran P)")
  case False
  then have v': "final_seen W s'" "v = fver s'" using v by (auto simp: exec_foot_def ch_foot_def split: if_splits)
  note b = writer_step_brk [OF st]
  show ?thesis
  proof (cases "n = Max W \<and> wst s n = WWait")
    case True
    have "v \<noteq> nullptr" using mem_invD(8) [OF exec_invD(2) [OF inv(2)] v'(1)] v'(2) by simp
    then have "v \<in> ran (placeholders (xw s)) \<or> v = brk (xm s)" using b(8) True v'(2) by metis
    then show ?thesis using row_inv_placeholders [OF exec_invD(1) [OF inv(1)]] False by blast
  next
    case no: False
    then have "fver s' = fver s" using b(5) by blast
    moreover have "final_seen W s" using v'(1) no b(7) [of "Max W"] by (auto simp: final_seen_def)
    ultimately show ?thesis using v'(2) by (simp add: exec_foot_def ch_foot_def)
  qed
qed (auto simp: exec_foot_def ch_foot_def)

lemma exec_foot_grows:
  assumes st: "writer_step (Max W) sz n s = Inr s'" and v: "v \<in> exec_foot W P M0 s"
  shows "v \<in> exec_foot W P M0 s'"
proof (cases "final_seen W s")
  case True
  note b = writer_step_brk [OF st]
  have "wst s' (Max W) \<noteq> WWait" using b(6) b(7) [of "Max W"] True by (cases "n = Max W") (auto simp: final_seen_def)
  moreover have "fver s' = fver s" using b(5) True by (auto simp: final_seen_def)
  ultimately show ?thesis using v True by (auto simp: exec_foot_def ch_foot_def final_seen_def)
qed (use v in \<open>auto simp: exec_foot_def ch_foot_def\<close>)

lemma exec_inv_less:
  assumes "exec_inv W R P B M0 r0 s" and "v \<in> exec_foot W P M0 s"
  shows "v < brk (xm s)"
  using ch_foot_less [OF exec_invD(2) [OF assms(1)]] assms(2) unfolding exec_foot_def by blast

lemma exec_inv_outside:
  assumes inv: "exec_inv W R P B M0 r0 s" "exec_inv W R P B M0 r0 s'"
    and "u \<notin> exec_foot W P M0 s" and "u \<notin> exec_foot W P M0 s'"
  shows "vers (xm s') u = vers (xm s) u"
  using mem_inv_outside [OF exec_invD(2) [OF inv(1)] exec_invD(2) [OF inv(2)]] assms(3,4) unfolding exec_foot_def by blast

lemma exec_inv_frame:
  assumes inv: "exec_inv W R P B M0 r0 s" and m': "mem_ok m'" "brk (xm s) \<le> brk m'"
    and same: "\<And>v. v \<in> exec_foot W P M0 s \<Longrightarrow> vers m' v = vers (xm s) v"
  shows "exec_inv W R P (ch_rest (exec_foot W P M0 s) B m') M0 r0 (s\<lparr>xm := m'\<rparr>)"
  using exec_invD [OF inv] mem_inv_frame [OF exec_invD(2) [OF inv] m'] same
  by (simp add: exec_inv_def exec_foot_def final_seen_def quiet_def counted_def)

end
