(* ===== verification/Cheetah_Init.thy ===== *)
theory Cheetah_Init
  imports Cheetah_Frame Db_Programs
begin

text \<open>
  The write phase and the read phase of Cheetah over a whole database: the 64 workers go through
  the transactions of an epoch and announce what they write, then get the versions they will read,
  interleaved at their calls and, where they publish their bitmaps, at their accesses to the rows'
  locks.
\<close>

section \<open>The programs of the workers\<close>

text \<open>What a worker does in order: an operation on a key for a serial id, or the end of a transaction.\<close>

datatype ch_item = ChOp nat nat | ChEnd

definition ch_items :: "(operation_set \<Rightarrow> nat list) \<Rightarrow> operation_set list \<Rightarrow> nat \<Rightarrow> nat \<Rightarrow> ch_item list" where
  "ch_items keys txs head w =
     (if w < NUM_CORE
      then concat (map (\<lambda>n. map (\<lambda>k. ChOp k n) (keys (txs ! (head + n))) @ [ChEnd])
             (map (sequential_id w) [0..<NUM_TXS_IN_ONE_EPOCH_IN_ONE_CORE]))
      else [])"

definition write_keys :: "operation_set \<Rightarrow> nat list" where
  "write_keys tx = map (\<lambda>j. index (rw_set tx ! j)) (w_set tx)"

definition read_keys :: "operation_set \<Rightarrow> nat list" where
  "read_keys tx = map index (filter (\<lambda>op. ope op = Read) (rw_set tx))"

lemma set_write_keys: "k \<in> set (write_keys tx) \<longleftrightarrow> has_write tx k"
  by (auto simp: write_keys_def has_write_def list_ex_iff)

lemma set_read_keys: "k \<in> set (read_keys tx) \<longleftrightarrow> has_read tx k"
  by (auto simp: read_keys_def has_read_def list_ex_iff)

lemma distinct_keys:
  assumes "op_set_ok tx"
  shows "distinct (write_keys tx)" "distinct (read_keys tx)" "length (write_keys tx) \<le> length (rw_set tx)"
    "length (read_keys tx) \<le> length (rw_set tx)"
proof -
  have ok: "w_set tx = positions_of_updates (rw_set tx)" "distinct (map index (rw_set tx))" using assms by (simp_all add: op_set_ok_def)
  have "inj_on (\<lambda>j. index (rw_set tx ! j)) (set (positions_of_updates (rw_set tx)))"
    using nth_eq_iff_index_eq [OF ok(2)] by (intro inj_onI) (auto simp: positions_of_updates_def)
  then show "distinct (write_keys tx)" by (simp add: write_keys_def ok(1) distinct_map) (simp add: positions_of_updates_def)
  show "distinct (read_keys tx)" using ok(2) by (simp add: read_keys_def distinct_map_filter)
  show "length (write_keys tx) \<le> length (rw_set tx)" "length (read_keys tx) \<le> length (rw_set tx)"
    using length_filter_le [of _ "[0..<length (rw_set tx)]"] by (auto simp: write_keys_def read_keys_def ok(1) positions_of_updates_def)
qed

text \<open>Programs that the write sets accept; \<open>ks\<close> are the keys of the transaction the worker is in.\<close>

fun items_ok :: "nat set \<Rightarrow> nat list \<Rightarrow> ch_item list \<Rightarrow> bool" where
  "items_ok D ks [] = (ks = [])"
| "items_ok D ks (ChOp k n # xs) =
     (k \<in> D \<and> k \<notin> set ks \<and> length ks \<le> 10 \<and> ChOp k n \<notin> set xs \<and> items_ok D (ks @ [k]) xs)"
| "items_ok D ks (ChEnd # xs) = items_ok D [] xs"

lemma items_ok_keys: "items_ok D ks xs \<Longrightarrow> ChOp k n \<in> set xs \<Longrightarrow> k \<in> D"
  by (induction D ks xs rule: items_ok.induct) auto

lemma items_ok_block:
  assumes "distinct (ks @ js)" and "length (ks @ js) \<le> 10" and "set js \<subseteq> D" and "\<And>k. ChOp k n \<notin> set rest" and "items_ok D [] rest"
  shows "items_ok D ks (map (\<lambda>k. ChOp k n) js @ ChEnd # rest)"
  using assms by (induction js arbitrary: ks) auto

lemma items_ok_concat:
  assumes "distinct ns" and "\<And>n. n \<in> set ns \<Longrightarrow> distinct (f n) \<and> length (f n) \<le> 10 \<and> set (f n) \<subseteq> D"
  shows "items_ok D [] (concat (map (\<lambda>n. map (\<lambda>k. ChOp k n) (f n) @ [ChEnd]) ns))"
  using assms
proof (induction ns)
  case (Cons n ns)
  have "items_ok D [] (map (\<lambda>k. ChOp k n) (f n) @ ChEnd # concat (map (\<lambda>n. map (\<lambda>k. ChOp k n) (f n) @ [ChEnd]) ns))"
    using Cons by (intro items_ok_block) auto
  then show ?case by simp
qed simp

lemma set_items: "ChOp k n \<in> set (concat (map (\<lambda>n. map (\<lambda>k. ChOp k n) (f n) @ [ChEnd]) ns)) \<longleftrightarrow> n \<in> set ns \<and> k \<in> set (f n)"
  by (induction ns) auto

lemma set_ch_items:
  "ChOp k n \<in> set (ch_items keys txs head w) \<longleftrightarrow> n < 4096 \<and> n div 64 = w \<and> k \<in> set (keys (txs ! (head + n)))"
proof -
  have "n \<in> set (map (sequential_id w) [0..<64]) \<longleftrightarrow> n < 4096 \<and> n div 64 = w" if "w < 64"
  proof
    assume "n < 4096 \<and> n div 64 = w"
    then have "n = sequential_id w (n mod 64)" by (auto simp: sequential_id_def)
    then show "n \<in> set (map (sequential_id w) [0..<64])" by (metis atLeastLessThan_iff imageI list.set_map mod_less_divisor set_upt zero_le zero_less_numeral)
  qed (use that in \<open>auto simp: sequential_id_def\<close>)
  moreover have "\<not> (n < 4096 \<and> n div 64 = w)" if "\<not> w < 64" using that by auto
  ultimately show ?thesis unfolding ch_items_def NUM_CORE_def txs_per_core
    by (simp only: set_items split: if_split) auto
qed

lemma ch_items_ok:
  assumes "\<And>n. n < 4096 \<Longrightarrow> distinct (keys (txs ! (head + n))) \<and> length (keys (txs ! (head + n))) \<le> 10 \<and> set (keys (txs ! (head + n))) \<subseteq> D"
  shows "items_ok D [] (ch_items keys txs head w)"
proof (cases "w < 64")
  case True
  have "distinct (map (sequential_id w) [0..<64])" by (auto simp: distinct_map inj_on_def sequential_id_def)
  moreover have "n < 4096" if "n \<in> set (map (sequential_id w) [0..<64])" for n using that True assign_less(1) by auto
  ultimately show ?thesis using assms True
    unfolding ch_items_def NUM_CORE_def txs_per_core if_P [OF True] by (intro items_ok_concat) auto
qed (simp add: ch_items_def NUM_CORE_def)

text \<open>A worker's write set holds the keys of the transaction it is in.\<close>

definition in_transaction :: "nat set \<Rightarrow> cheetah_thread \<Rightarrow> ch_item list \<Rightarrow> bool" where
  "in_transaction D t xs \<longleftrightarrow> items_ok D (hwrite_set t record_table) xs
     \<and> (hwrite_set t record_table \<noteq> [] \<longrightarrow> record_table \<in> hwritten_tables t)"

lemma in_transaction_end:
  assumes "in_transaction D t (ChEnd # xs)"
  shows "in_transaction D (ch_terminate_transaction t) xs"
  using assms by (auto simp: in_transaction_def ch_terminate_transaction_def)

lemma terminate_fields [simp]:
  "hthr_core (ch_terminate_transaction t) = hthr_core t" "hbitmaps (ch_terminate_transaction t) = hbitmaps t"
  by (simp_all add: ch_terminate_transaction_def)

section \<open>The write phase\<close>

text \<open>
  \<open>bitmaps_\<close> of a worker is in its thread, its rows in the order of iteration; \<open>wlocked\<close> says that the
  worker holds the lock of the first of them. \<open>wptr\<close> are the pointers \<open>w_bitmap_\<close> of the operations,
  by key and serial id.
\<close>

record ch_write =
  wrows :: "nat \<Rightarrow> write_bitmap"
  wthr :: "nat \<Rightarrow> cheetah_thread"
  witems :: "nat \<Rightarrow> ch_item list"
  wlocked :: "nat \<Rightarrow> bool"
  wptr :: "nat \<Rightarrow> nat \<Rightarrow> nat option"

definition ch_write_start :: "operation_set list \<Rightarrow> nat \<Rightarrow> cheetah_db \<Rightarrow> (nat \<Rightarrow> cheetah_thread) \<Rightarrow> ch_write" where
  "ch_write_start txs head db thr =
     \<lparr>wrows = hvalues db, wthr = (\<lambda>w. (thr w)\<lparr>hthr_core := w\<rparr>), witems = ch_items write_keys txs head,
      wlocked = (\<lambda>_. False), wptr = (\<lambda>_. Map.empty)\<rparr>"

text \<open>
  A row whose lock is taken is passed by, and comes again after the others. The bitmaps are in an
  unordered map in the source; the model goes through them in one fixed order.
\<close>

definition ch_publish_step :: "nat \<Rightarrow> ch_write \<Rightarrow> ch_write res" where
  "ch_publish_step w s =
     (let t = wthr s w in
      case hbitmaps t of
        [] \<Rightarrow> Inr s
      | (p, tx_bitmap) # rest \<Rightarrow>
          if wlocked s w then
            ebind (update_bitmap (hthr_core t) tx_bitmap (wrows s p)) (\<lambda>x.
              Inr (s\<lparr>wrows := (wrows s)(p := x\<lparr>wb_lock := unlock (wb_lock x)\<rparr>),
                     wthr := (wthr s)(w := t\<lparr>hbitmaps := rest\<rparr>), wlocked := (wlocked s)(w := False)\<rparr>))
          else
            (case try_lock (wb_lock (wrows s p)) of (ok, c) \<Rightarrow>
               Inr (if ok then s\<lparr>wrows := (wrows s)(p := (wrows s p)\<lparr>wb_lock := c\<rparr>), wlocked := (wlocked s)(w := True)\<rparr>
                    else s\<lparr>wthr := (wthr s)(w := t\<lparr>hbitmaps := rest @ [(p, tx_bitmap)]\<rparr>)\<rparr>)))"

definition ch_write_step :: "index_find \<Rightarrow> nat \<Rightarrow> ch_write \<Rightarrow> ch_write res" where
  "ch_write_step idx w s =
     (case witems s w of
        [] \<Rightarrow> ch_publish_step w s
      | ChOp k n # rest \<Rightarrow>
          ebind (update_write_bitmaps idx record_table k ((wthr s w)\<lparr>hthr_serial_id := n\<rparr>)) (\<lambda>(p, t).
            Inr (s\<lparr>wthr := (wthr s)(w := t), witems := (witems s)(w := rest), wptr := (wptr s)(k := (wptr s k)(n \<mapsto> p))\<rparr>))
      | ChEnd # rest \<Rightarrow>
          Inr (s\<lparr>wthr := (wthr s)(w := ch_terminate_transaction (wthr s w)), witems := (witems s)(w := rest)\<rparr>))"

fun ch_write_run :: "index_find \<Rightarrow> nat list \<Rightarrow> ch_write \<Rightarrow> ch_write res" where
  "ch_write_run idx [] s = Inr s"
| "ch_write_run idx (w # sched) s = ebind (ch_write_step idx w s) (ch_write_run idx sched)"

definition ch_write_done :: "ch_write \<Rightarrow> bool" where
  "ch_write_done s \<longleftrightarrow> (\<forall>w < NUM_CORE. witems s w = [] \<and> hbitmaps (wthr s w) = [])"

subsection \<open>The bitmaps of a worker\<close>

definition mark_ones :: "(nat \<times> u64) list \<Rightarrow> nat \<Rightarrow> nat set" where
  "mark_ones bms p = (case map_of bms p of None \<Rightarrow> {} | Some b \<Rightarrow> ones b)"

definition marks_ok :: "nat set \<Rightarrow> (nat \<times> u64) list \<Rightarrow> bool" where
  "marks_ok Q bms \<longleftrightarrow> distinct (map fst bms) \<and> fst ` set bms \<subseteq> Q \<and> 0 \<notin> snd ` set bms"

lemma mark_ones_less: "t \<in> mark_ones bms p \<Longrightarrow> t < 64"
  by (auto simp: mark_ones_def dest: ones_less split: option.splits)

lemma mark_ones_Nil [simp]: "mark_ones [] p = {}"
  by (simp add: mark_ones_def)

lemma mark_ones_rotate:
  assumes "distinct (map fst (x # bms))"
  shows "mark_ones (bms @ [x]) p = mark_ones (x # bms) p"
proof -
  have "map_of (bms @ [x]) = map_of (x # bms)" using assms by (intro map_of_inject_set [THEN iffD2]) auto
  then show ?thesis by (simp add: mark_ones_def)
qed

lemma mark_ones_tl:
  assumes "marks_ok Q ((p, b) # bms)"
  shows "mark_ones bms p = {}" "mark_ones ((p, b) # bms) p = ones b" "q \<noteq> p \<Longrightarrow> mark_ones ((p, b) # bms) q = mark_ones bms q"
proof -
  have "map_of bms p = None" using assms by (auto simp: marks_ok_def map_of_eq_None_iff)
  then show "mark_ones bms p = {}" by (simp add: mark_ones_def)
qed (simp_all add: mark_ones_def)

lemma map_of_replace: "map_of (map (\<lambda>(j, x). (j, if j = p then b else x)) bms) = (\<lambda>q. if q = p \<and> map_of bms p \<noteq> None then Some b else map_of bms q)"
  by (induction bms) (auto simp: fun_eq_iff)

lemma mark_bitmap_ok:
  assumes ok: "marks_ok Q bms" and p: "p \<in> Q" and tx: "tx < 64" "tx \<notin> mark_ones bms p"
  shows "\<exists>bms'. mark_bitmap p tx bms = Inr bms' \<and> marks_ok Q bms' \<and> map_of bms' p \<noteq> Some 0 \<and> length bms' \<le> Suc (length bms)
    \<and> mark_ones bms' = (mark_ones bms)(p := insert tx (mark_ones bms p))"
proof -
  have nz: "b OR set_bit_at_the_given_location tx \<noteq> 0" for b
    using ones_or_set_bit [OF tx(1), of b] by (metis insert_not_empty ones_0)
  show ?thesis
  proof (cases "map_of bms p")
    case None
    let ?b = "0 OR set_bit_at_the_given_location tx"
    have "mark_bitmap p tx bms = Inr ((p, ?b) # bms)" using None tx by (simp add: mark_bitmap_def set_bit_in_bitmap_eq)
    moreover have "marks_ok Q ((p, ?b) # bms)" using ok p None nz [of 0] by (simp add: marks_ok_def map_of_eq_None_iff)
    moreover have "mark_ones ((p, ?b) # bms) = (mark_ones bms)(p := insert tx (mark_ones bms p))"
      using tx(1) ones_or_set_bit [OF tx(1), of 0] None by (auto simp: mark_ones_def fun_eq_iff)
    moreover have "map_of ((p, ?b) # bms) p \<noteq> Some 0" using nz [of 0] by simp
    ultimately show ?thesis by (intro exI [of _ "(p, ?b) # bms"]) simp
  next
    case (Some b0)
    let ?b = "b0 OR set_bit_at_the_given_location tx" and ?bms = "map (\<lambda>(j, x). (j, if j = p then b0 OR set_bit_at_the_given_location tx else x)) bms"
    have t: "tx \<notin> ones b0" using tx(2) Some by (simp add: mark_ones_def)
    have "mark_bitmap p tx bms = Inr ?bms" using Some t tx(1) by (simp add: mark_bitmap_def set_bit_in_bitmap_eq)
    moreover have keys: "map fst ?bms = map fst bms" by auto
    have "0 \<notin> snd ` set ?bms" using ok nz [of b0] by (fastforce simp: marks_ok_def image_iff split: if_splits)
    then have "marks_ok Q ?bms" using ok keys unfolding marks_ok_def by (metis list.set_map)
    moreover have "mark_ones ?bms = (mark_ones bms)(p := insert tx (mark_ones bms p))"
      using Some ones_or_set_bit [OF tx(1)] by (auto simp: mark_ones_def map_of_replace fun_eq_iff)
    moreover have "map_of ?bms p \<noteq> Some 0" using nz Some by (simp add: map_of_replace)
    ultimately show ?thesis by (intro exI [of _ ?bms]) simp
  qed
qed

text \<open>A call of \<open>update_write_bitmaps\<close> in a program the write set accepts.\<close>

lemma update_write_bitmaps_ok:
  assumes idx: "idx record_table k = Some p" and tr: "in_transaction D t (ChOp k n # xs)"
    and bms: "marks_ok Q (hbitmaps t)" "p \<in> Q" "n mod 64 \<notin> mark_ones (hbitmaps t) p"
  shows "\<exists>t'. update_write_bitmaps idx record_table k (t\<lparr>hthr_serial_id := n\<rparr>) = Inr (p, t') \<and> in_transaction D t' xs
    \<and> marks_ok Q (hbitmaps t') \<and> hthr_core t' = hthr_core t \<and> length (hbitmaps t') \<le> Suc (length (hbitmaps t))
    \<and> mark_ones (hbitmaps t') = (mark_ones (hbitmaps t))(p := insert (n mod 64) (mark_ones (hbitmaps t) p))"
proof -
  have k: "k \<notin> set (hwrite_set t record_table)" "length (hwrite_set t record_table) \<le> 10"
    "items_ok D (hwrite_set t record_table @ [k]) xs" using tr by (simp_all add: in_transaction_def)
  from mark_bitmap_ok [OF bms(1,2) _ bms(3)] obtain b where b: "mark_bitmap p (n mod 64) (hbitmaps t) = Inr b" "marks_ok Q b"
    "map_of b p \<noteq> Some 0" "length b \<le> Suc (length (hbitmaps t))"
    "mark_ones b = (mark_ones (hbitmaps t))(p := insert (n mod 64) (mark_ones (hbitmaps t) p))" by auto
  let ?t = "t\<lparr>hthr_serial_id := n, hwritten_tables := insert record_table (hwritten_tables t), hbitmaps := b,
      hwrite_set := (hwrite_set t)(record_table := hwrite_set t record_table @ [k])\<rparr>"
  have "update_write_bitmaps idx record_table k (t\<lparr>hthr_serial_id := n\<rparr>) = Inr (p, ?t)"
    using k(1,2) idx b(1,3) by (simp add: update_write_bitmaps_def)
  moreover have "in_transaction D ?t xs" using k(3) by (simp add: in_transaction_def)
  ultimately show ?thesis using b(2,4,5) by (intro exI [of _ ?t]) simp
qed

subsection \<open>The invariant\<close>

text \<open>The serial ids that a worker has still to publish for a row.\<close>

definition ids_left :: "nat \<Rightarrow> nat \<Rightarrow> nat \<Rightarrow> ch_write \<Rightarrow> nat set" where
  "ids_left k p w s = {n. ChOp k n \<in> set (witems s w)} \<union> (\<lambda>t. w * 64 + t) ` mark_ones (hbitmaps (wthr s w)) p"

definition holds_lock :: "ch_write \<Rightarrow> nat \<Rightarrow> nat \<Rightarrow> bool" where
  "holds_lock s p w \<longleftrightarrow> wlocked s w \<and> fst (hd (hbitmaps (wthr s w))) = p"

definition writer_ok :: "nat set \<Rightarrow> (nat \<Rightarrow> nat) \<Rightarrow> nat \<Rightarrow> ch_write \<Rightarrow> bool" where
  "writer_ok D row w s \<longleftrightarrow> in_transaction D (wthr s w) (witems s w) \<and> marks_ok (row ` D) (hbitmaps (wthr s w))
     \<and> hthr_core (wthr s w) = w
     \<and> (\<forall>k n. ChOp k n \<in> set (witems s w) \<longrightarrow> n < 4096 \<and> n div 64 = w \<and> n mod 64 \<notin> mark_ones (hbitmaps (wthr s w)) (row k))
     \<and> (wlocked s w \<longrightarrow> witems s w = [] \<and> hbitmaps (wthr s w) \<noteq> [])
     \<and> (64 \<le> w \<longrightarrow> witems s w = [] \<and> hbitmaps (wthr s w) = [])"

definition row_written :: "nat set \<Rightarrow> nat \<Rightarrow> nat \<Rightarrow> nat \<Rightarrow> ch_write \<Rightarrow> bool" where
  "row_written W M0 k p s \<longleftrightarrow> wb_ok (wrows s p) \<and> ref_cnt (wrows s p) = 0 \<and> placeholders (wrows s p) = Map.empty
     \<and> wb_master (wrows s p) = M0 \<and> previous_master (wrows s p) = nullptr
     \<and> wb_lock (wrows s p) = (if \<exists>w. holds_lock s p w then - 1 else 0)
     \<and> W = wb_ids (wrows s p) \<union> (\<Union>w < 64. ids_left k p w s)
     \<and> (\<forall>w \<in> ones (wb_core_bitmap (wrows s p)). ids_left k p w s = {})
     \<and> (\<forall>n \<in> W. wptr s k n = Some p \<or> ChOp k n \<in> set (witems s (n div 64)))"

definition ch_write_inv :: "nat set \<Rightarrow> (nat \<Rightarrow> nat) \<Rightarrow> (nat \<Rightarrow> nat set) \<Rightarrow> (nat \<Rightarrow> nat) \<Rightarrow> ch_write \<Rightarrow> bool" where
  "ch_write_inv D row W M0 s \<longleftrightarrow> (\<forall>w. writer_ok D row w s) \<and> (\<forall>k \<in> D. row_written (W k) (M0 k) k (row k) s)
     \<and> (\<forall>p w u. holds_lock s p w \<longrightarrow> holds_lock s p u \<longrightarrow> w = u)"

lemma ch_write_invD:
  assumes "ch_write_inv D row W M0 s"
  shows "writer_ok D row w s" "k \<in> D \<Longrightarrow> row_written (W k) (M0 k) k (row k) s"
    "holds_lock s p w \<Longrightarrow> holds_lock s p u \<Longrightarrow> w = u"
  using assms unfolding ch_write_inv_def by blast+

lemma writer_okD:
  assumes "writer_ok D row w s"
  shows "in_transaction D (wthr s w) (witems s w)" "marks_ok (row ` D) (hbitmaps (wthr s w))" "hthr_core (wthr s w) = w"
    "ChOp k n \<in> set (witems s w) \<Longrightarrow> n < 4096 \<and> n div 64 = w \<and> n mod 64 \<notin> mark_ones (hbitmaps (wthr s w)) (row k)"
    "wlocked s w \<Longrightarrow> witems s w = [] \<and> hbitmaps (wthr s w) \<noteq> []" "64 \<le> w \<Longrightarrow> witems s w = [] \<and> hbitmaps (wthr s w) = []"
  using assms unfolding writer_ok_def by blast+

lemma writer_ok_other:
  assumes "writer_ok D row u s" and "wthr s' u = wthr s u" and "witems s' u = witems s u" and "wlocked s' u = wlocked s u"
  shows "writer_ok D row u s'"
  using assms by (simp add: writer_ok_def)

lemma row_writtenD:
  assumes "row_written W M0 k p s"
  shows "wb_ok (wrows s p)" "wb_lock (wrows s p) = (if \<exists>w. holds_lock s p w then - 1 else 0)"
    "W = wb_ids (wrows s p) \<union> (\<Union>w < 64. ids_left k p w s)" "w \<in> ones (wb_core_bitmap (wrows s p)) \<Longrightarrow> ids_left k p w s = {}"
    "n \<in> W \<Longrightarrow> wptr s k n = Some p \<or> ChOp k n \<in> set (witems s (n div 64))"
  using assms unfolding row_written_def by blast+

lemma row_written_cong:
  assumes rw: "row_written W M0 k p s" and x: "wrows s' p = (wrows s p)\<lparr>wb_lock := if \<exists>w. holds_lock s' p w then - 1 else 0\<rparr>"
    and left: "\<And>u. ids_left k p u s' = ids_left k p u s"
    and ptr: "\<And>n. wptr s k n = Some p \<or> ChOp k n \<in> set (witems s (n div 64)) \<Longrightarrow>
      wptr s' k n = Some p \<or> ChOp k n \<in> set (witems s' (n div 64))"
  shows "row_written W M0 k p s'"
  using rw ptr unfolding row_written_def left x by simp

lemma row_lock_id: "row_written W M0 k p s \<Longrightarrow> wrows s p = (wrows s p)\<lparr>wb_lock := if \<exists>w. holds_lock s p w then - 1 else 0\<rparr>"
  using row_writtenD(2) [of W M0 k p s] by (intro write_bitmap.equality) simp_all

subsection \<open>The steps\<close>

lemma rows_index_inj: "rows_index idx row D S \<Longrightarrow> inj_on row D"
  by (simp add: rows_index_def)

text \<open>A step in the transactions changes no row and no lock.\<close>

lemma ch_write_local:
  assumes inv: "ch_write_inv D row W M0 s" and s': "s' = s\<lparr>wthr := (wthr s)(w := t), witems := (witems s)(w := xs), wptr := q\<rparr>"
    and nl: "\<not> wlocked s w" and wk: "writer_ok D row w s'" and left: "\<And>k. k \<in> D \<Longrightarrow> ids_left k (row k) w s' = ids_left k (row k) w s"
    and ptr: "\<And>k n. k \<in> D \<Longrightarrow> wptr s k n = Some (row k) \<or> ChOp k n \<in> set (witems s (n div 64)) \<Longrightarrow>
      wptr s' k n = Some (row k) \<or> ChOp k n \<in> set (witems s' (n div 64))"
  shows "ch_write_inv D row W M0 s'"
proof -
  have h: "holds_lock s' p u = holds_lock s p u" for p u using nl by (cases "u = w") (simp_all add: s' holds_lock_def)
  have "writer_ok D row u s'" for u
    using wk writer_ok_other [OF ch_write_invD(1) [OF inv, of u], of s'] by (cases "u = w") (simp_all add: s')
  moreover have "row_written (W k) (M0 k) k (row k) s'" if k: "k \<in> D" for k
  proof (rule row_written_cong [OF ch_write_invD(2) [OF inv k]])
    show "wrows s' (row k) = (wrows s (row k))\<lparr>wb_lock := if \<exists>w. holds_lock s' (row k) w then - 1 else 0\<rparr>"
      using row_lock_id [OF ch_write_invD(2) [OF inv k]] unfolding h by (simp add: s')
    show "ids_left k (row k) u s' = ids_left k (row k) u s" for u
      using left [OF k] by (cases "u = w") (simp_all add: s' ids_left_def)
  qed (rule ptr [OF k])
  moreover have "\<forall>p w u. holds_lock s' p w \<longrightarrow> holds_lock s' p u \<longrightarrow> w = u" using ch_write_invD(3) [OF inv] unfolding h by metis
  ultimately show ?thesis unfolding ch_write_inv_def by simp
qed

lemma ch_write_op:
  assumes rows: "rows_index idx row D S" and inv: "ch_write_inv D row W M0 s"
    and it: "witems s w = ChOp k n # rest"
  shows "\<exists>s'. ch_write_step idx w s = Inr s' \<and> ch_write_inv D row W M0 s' \<and> wlocked s' = wlocked s
    \<and> length (hbitmaps (wthr s' w)) \<le> Suc (length (hbitmaps (wthr s w))) \<and> witems s' = (witems s)(w := rest)
    \<and> (\<forall>u. u \<noteq> w \<longrightarrow> wthr s' u = wthr s u)"
proof -
  have idx: "idx record_table k = Some (row k)" if "k \<in> D" for k using rows that by (simp add: rows_index_def)
  note inj = rows_index_inj [OF rows]
  note wk = writer_okD [OF ch_write_invD(1) [OF inv, of w]]
  have tr: "in_transaction D (wthr s w) (ChOp k n # rest)" using wk(1) it by simp
  have ks: "k \<in> D" "ChOp k n \<notin> set rest" "\<And>j m. ChOp j m \<in> set rest \<Longrightarrow> j \<in> D"
    using tr by (auto simp: in_transaction_def dest: items_ok_keys)
  have n: "n div 64 = w" "n mod 64 \<notin> mark_ones (hbitmaps (wthr s w)) (row k)" using wk(4) [of k n] it by simp_all
  have rk: "row k \<in> row ` D" using ks(1) by blast
  from update_write_bitmaps_ok [where idx = idx, OF idx [OF ks(1)] tr wk(2) rk n(2)] obtain t where
    t: "update_write_bitmaps idx record_table k ((wthr s w)\<lparr>hthr_serial_id := n\<rparr>) = Inr (row k, t)" "in_transaction D t rest"
    "marks_ok (row ` D) (hbitmaps t)" "hthr_core t = hthr_core (wthr s w)" "length (hbitmaps t) \<le> Suc (length (hbitmaps (wthr s w)))"
    "mark_ones (hbitmaps t) = (mark_ones (hbitmaps (wthr s w)))(row k := insert (n mod 64) (mark_ones (hbitmaps (wthr s w)) (row k)))" by auto
  let ?s = "s\<lparr>wthr := (wthr s)(w := t), witems := (witems s)(w := rest), wptr := (wptr s)(k := (wptr s k)(n \<mapsto> row k))\<rparr>"
  have nl: "\<not> wlocked s w" using wk(5) it by auto
  have same: "row j = row k \<longleftrightarrow> j = k" if "j \<in> D" for j using inj ks(1) that by (auto simp: inj_on_def)
  have nw: "w * 64 + n mod 64 = n" using n(1) by auto
  have "m mod 64 \<noteq> n mod 64" if "ChOp k m \<in> set rest" for m
  proof -
    have "m div 64 = w" "m \<noteq> n" using wk(4) [of k m] ks(2) it that by auto
    then show ?thesis using n(1) by (metis div_mult_mod_eq)
  qed
  then have "writer_ok D row w ?s" using t wk(3,4,6) nl it ks(3) same by (fastforce simp: writer_ok_def)
  moreover have "ids_left j (row j) w ?s = ids_left j (row j) w s" if "j \<in> D" for j
    using same [OF that] nw it by (auto simp: ids_left_def t(6))
  ultimately have "ch_write_inv D row W M0 ?s"
    by (rule ch_write_local [OF inv refl nl]) (use it same in \<open>auto split: if_splits\<close>)
  then show ?thesis using t(1,5) it by (intro exI [of _ ?s]) (simp add: ch_write_step_def)
qed

lemma ch_write_end:
  assumes inv: "ch_write_inv D row W M0 s" and it: "witems s w = ChEnd # rest"
  shows "\<exists>s'. ch_write_step idx w s = Inr s' \<and> ch_write_inv D row W M0 s' \<and> wlocked s' = wlocked s
    \<and> length (hbitmaps (wthr s' w)) \<le> Suc (length (hbitmaps (wthr s w))) \<and> witems s' = (witems s)(w := rest)
    \<and> (\<forall>u. u \<noteq> w \<longrightarrow> wthr s' u = wthr s u)"
proof -
  note wk = writer_okD [OF ch_write_invD(1) [OF inv, of w]]
  let ?s = "s\<lparr>wthr := (wthr s)(w := ch_terminate_transaction (wthr s w)), witems := (witems s)(w := rest), wptr := wptr s\<rparr>"
  have nl: "\<not> wlocked s w" using wk(5) it by auto
  have "in_transaction D (ch_terminate_transaction (wthr s w)) rest" using wk(1) it by (intro in_transaction_end) simp
  then have "writer_ok D row w ?s" using wk(2,3,4,6) nl it by (auto simp: writer_ok_def)
  then have "ch_write_inv D row W M0 ?s"
    by (rule ch_write_local [OF inv refl nl]) (use it in \<open>auto simp: ids_left_def\<close>)
  then show ?thesis using it by (intro exI [of _ ?s]) (simp add: ch_write_step_def)
qed

lemma ch_write_pass:
  assumes inv: "ch_write_inv D row W M0 s" and it: "witems s w = []" "hbitmaps (wthr s w) = (p, b) # rest" "\<not> wlocked s w"
    and lk: "wb_lock (wrows s p) \<noteq> 0"
  shows "\<exists>s'. ch_write_step idx w s = Inr s' \<and> ch_write_inv D row W M0 s'"
proof -
  note wk = writer_okD [OF ch_write_invD(1) [OF inv, of w]]
  let ?t = "(wthr s w)\<lparr>hbitmaps := rest @ [(p, b)]\<rparr>"
  let ?s = "s\<lparr>wthr := (wthr s)(w := ?t), witems := (witems s)(w := []), wptr := wptr s\<rparr>"
  have m: "marks_ok (row ` D) ((p, b) # rest)" using wk(2) it(2) by simp
  then have rot: "mark_ones (rest @ [(p, b)]) q = mark_ones (hbitmaps (wthr s w)) q" for q
    unfolding it(2) by (intro mark_ones_rotate) (simp add: marks_ok_def)
  have "marks_ok (row ` D) (rest @ [(p, b)])" using m by (auto simp: marks_ok_def)
  moreover have "in_transaction D ?t []" using wk(1) it(1) by (simp add: in_transaction_def)
  ultimately have "writer_ok D row w ?s" using wk(3,6) it by (auto simp: writer_ok_def)
  then have "ch_write_inv D row W M0 ?s"
    by (rule ch_write_local [OF inv refl it(3)]) (use it(1) in \<open>auto simp: ids_left_def rot\<close>)
  moreover have "ch_write_step idx w s = Inr (s\<lparr>wthr := (wthr s)(w := ?t)\<rparr>)"
    using it lk by (simp add: ch_write_step_def ch_publish_step_def)
  moreover have "s\<lparr>wthr := (wthr s)(w := ?t)\<rparr> = ?s" using it(1) by (simp add: fun_upd_idem)
  ultimately show ?thesis by simp
qed

lemma ch_write_lock:
  assumes inv: "ch_write_inv D row W M0 s" and it: "witems s w = []" "hbitmaps (wthr s w) = (p, b) # rest" "\<not> wlocked s w"
    and lk: "wb_lock (wrows s p) = 0"
  shows "\<exists>s'. ch_write_step idx w s = Inr s' \<and> ch_write_inv D row W M0 s'
    \<and> witems s' = witems s \<and> wthr s' = wthr s \<and> wlocked s' = (wlocked s)(w := True)"
proof -
  note wk = writer_okD [OF ch_write_invD(1) [OF inv, of w]]
  let ?s = "s\<lparr>wrows := (wrows s)(p := (wrows s p)\<lparr>wb_lock := - 1\<rparr>), wlocked := (wlocked s)(w := True)\<rparr>"
  obtain k where k: "k \<in> D" "p = row k" using wk(2) it(2) by (auto simp: marks_ok_def)
  have free: "\<not> holds_lock s p u" for u using row_writtenD(2) [OF ch_write_invD(2) [OF inv k(1)]] lk k(2) by (auto split: if_splits)
  have h: "holds_lock ?s q u \<longleftrightarrow> (if u = w then q = p else holds_lock s q u)" for q u
    using it(2) by (auto simp: holds_lock_def)
  have nh: "\<not> holds_lock s q w" for q using it(3) by (simp add: holds_lock_def)
  have "writer_ok D row u ?s" for u using ch_write_invD(1) [OF inv, of u] it by (cases "u = w") (auto simp: writer_ok_def)
  moreover have "row_written (W j) (M0 j) j (row j) ?s" if j: "j \<in> D" for j
  proof (rule row_written_cong [OF ch_write_invD(2) [OF inv j]])
    have "(\<exists>u. holds_lock ?s (row j) u) \<longleftrightarrow> row j = p \<or> (\<exists>u. holds_lock s (row j) u)" unfolding h using nh by metis
    then show "wrows ?s (row j) = (wrows s (row j))\<lparr>wb_lock := if \<exists>u. holds_lock ?s (row j) u then - 1 else 0\<rparr>"
      using row_lock_id [OF ch_write_invD(2) [OF inv j]] by simp
  qed (simp_all add: ids_left_def)
  moreover have "\<forall>q u v. holds_lock ?s q u \<longrightarrow> holds_lock ?s q v \<longrightarrow> u = v"
    unfolding h using ch_write_invD(3) [OF inv] free by metis
  ultimately have "ch_write_inv D row W M0 ?s" unfolding ch_write_inv_def by simp
  moreover have "ch_write_step idx w s = Inr ?s" using it lk by (simp add: ch_write_step_def ch_publish_step_def)
  ultimately show ?thesis by (intro exI [of _ ?s]) simp
qed

lemma ch_write_publish:
  assumes inj: "inj_on row D" and inv: "ch_write_inv D row W M0 s" and lk: "wlocked s w"
  shows "\<exists>s'. ch_write_step idx w s = Inr s' \<and> ch_write_inv D row W M0 s' \<and> witems s' = witems s
    \<and> wlocked s' = (wlocked s)(w := False) \<and> Suc (length (hbitmaps (wthr s' w))) = length (hbitmaps (wthr s w))
    \<and> (\<forall>u. u \<noteq> w \<longrightarrow> wthr s' u = wthr s u)"
proof -
  note wk = writer_okD [OF ch_write_invD(1) [OF inv, of w]]
  obtain p b rest where bms: "hbitmaps (wthr s w) = (p, b) # rest" using wk(5) lk by (cases "hbitmaps (wthr s w)") auto
  have it: "witems s w = []" and w64: "w < 64" using wk(5,6) lk bms by (auto simp: not_le [symmetric])
  note m = wk(2) [unfolded bms]
  obtain k where k: "k \<in> D" "p = row k" using m by (auto simp: marks_ok_def)
  have b: "b \<noteq> 0" using m by (auto simp: marks_ok_def)
  note rw = row_writtenD [OF ch_write_invD(2) [OF inv k(1)], folded k(2)]
  have own: "ids_left k p w s = (\<lambda>t. w * 64 + t) ` ones b" using it mark_ones_tl(2) [OF m] by (simp add: ids_left_def bms)
  then have nw: "w \<notin> ones (wb_core_bitmap (wrows s p))" using rw(4) [of w] b by auto
  obtain x where x: "update_bitmap w b (wrows s p) = Inr x" "wb_ok x"
    "ones (wb_core_bitmap x) = insert w (ones (wb_core_bitmap (wrows s p)))"
    "wb_ids x = wb_ids (wrows s p) \<union> (\<lambda>t. w * 64 + t) ` ones b"
    "x = (wrows s p)\<lparr>wb_core_bitmap := wb_core_bitmap x, tx_bitmaps := tx_bitmaps x\<rparr>"
    by (rule update_bitmap_ok [OF rw(1) w64 nw b])
  have xf: "ref_cnt x = ref_cnt (wrows s p)" "placeholders x = placeholders (wrows s p)" "wb_master x = wb_master (wrows s p)"
    "previous_master x = previous_master (wrows s p)" "wb_lock x = wb_lock (wrows s p)" by (subst x(5), simp)+
  have hw: "holds_lock s p w" using lk by (simp add: holds_lock_def bms)
  then have "wb_lock x = - 1" using rw(2) xf(5) by auto
  let ?s = "s\<lparr>wrows := (wrows s)(p := x\<lparr>wb_lock := 0\<rparr>), wthr := (wthr s)(w := (wthr s w)\<lparr>hbitmaps := rest\<rparr>),
      wlocked := (wlocked s)(w := False)\<rparr>"
  have step: "ch_write_step idx w s = Inr ?s"
    using it bms lk x(1) wk(3) \<open>wb_lock x = - 1\<close> by (simp add: ch_write_step_def ch_publish_step_def)
  have h: "holds_lock ?s q u \<longleftrightarrow> u \<noteq> w \<and> holds_lock s q u" for q u by (auto simp: holds_lock_def)
  have only: "u = w" if "holds_lock s p u" for u using ch_write_invD(3) [OF inv that hw] .
  have noth: "\<not> holds_lock s q w" if "q \<noteq> p" for q using that by (simp add: holds_lock_def bms)
  have left: "ids_left j q u ?s = (if u = w \<and> q = p then {n. ChOp j n \<in> set (witems s w)} else ids_left j q u s)" for j q u
    using mark_ones_tl(1,3) [OF m] by (auto simp: ids_left_def bms)
  have "marks_ok (row ` D) rest" using m by (auto simp: marks_ok_def)
  moreover have "in_transaction D ((wthr s w)\<lparr>hbitmaps := rest\<rparr>) []" using wk(1) it by (simp add: in_transaction_def)
  ultimately have "writer_ok D row u ?s" for u
    using ch_write_invD(1) [OF inv, of u] it wk(3) w64 by (cases "u = w") (auto simp: writer_ok_def)
  moreover have "row_written (W j) (M0 j) j (row j) ?s" if j: "j \<in> D" for j
  proof (cases "row j = p")
    case True
    then have jk: "j = k" using inj j k by (auto simp: inj_on_def)
    have "(\<Union>u < 64. ids_left k p u s) = (\<lambda>t. w * 64 + t) ` ones b \<union> (\<Union>u < 64. ids_left k p u ?s)"
      using w64 own it by (auto simp: left split: if_splits)
    then have ids: "W k = wb_ids x \<union> (\<Union>u < 64. ids_left k p u ?s)" using rw(3) x(4) by auto
    have cores: "ids_left k p u ?s = {}" if "u \<in> ones (wb_core_bitmap x)" for u using that rw(4) x(3) it by (auto simp: left)
    have "\<not> (\<exists>u. holds_lock ?s p u)" unfolding h using only by blast
    then have "row_written (W k) (M0 k) k p ?s"
      using ch_write_invD(2) [OF inv k(1), folded k(2)] x(2) xf ids cores rw(5) unfolding row_written_def by (auto simp: wb_frame)
    then show ?thesis using True jk by simp
  next
    case False
    show ?thesis
    proof (rule row_written_cong [OF ch_write_invD(2) [OF inv j]])
      have "(\<exists>u. holds_lock ?s (row j) u) = (\<exists>u. holds_lock s (row j) u)" unfolding h using noth [OF False] by metis
      then show "wrows ?s (row j) = (wrows s (row j))\<lparr>wb_lock := if \<exists>u. holds_lock ?s (row j) u then - 1 else 0\<rparr>"
        using row_lock_id [OF ch_write_invD(2) [OF inv j]] False by simp
      show "ids_left j (row j) u ?s = ids_left j (row j) u s" for u using False by (simp add: left)
    qed simp
  qed
  moreover have "\<forall>q u v. holds_lock ?s q u \<longrightarrow> holds_lock ?s q v \<longrightarrow> u = v" unfolding h using ch_write_invD(3) [OF inv] by blast
  ultimately have "ch_write_inv D row W M0 ?s" unfolding ch_write_inv_def by simp
  then show ?thesis using step bms by (intro exI [of _ ?s]) simp
qed

lemma ch_write_step_ok:
  assumes rows: "rows_index idx row D S" and inv: "ch_write_inv D row W M0 s"
  shows "\<exists>s'. ch_write_step idx w s = Inr s' \<and> ch_write_inv D row W M0 s'"
proof (cases "witems s w")
  case Nil
  show ?thesis
  proof (cases "hbitmaps (wthr s w)")
    case bms: (Cons x rest)
    obtain p b where x: "x = (p, b)" by fastforce
    show ?thesis
      using ch_write_publish [OF rows_index_inj [OF rows] inv] ch_write_pass [OF inv Nil] ch_write_lock [OF inv Nil] bms x by metis
  qed (use inv Nil in \<open>simp add: ch_write_step_def ch_publish_step_def\<close>)
next
  case (Cons i rest)
  then show ?thesis using ch_write_op [OF rows inv] ch_write_end [OF inv] by (cases i) metis+
qed

lemma ch_write_run_ok:
  assumes rows: "rows_index idx row D S" and "ch_write_inv D row W M0 s"
  shows "\<exists>s'. ch_write_run idx sched s = Inr s' \<and> ch_write_inv D row W M0 s'"
  using assms(2)
proof (induction sched arbitrary: s)
  case (Cons w sched)
  from ch_write_step_ok [OF rows Cons.prems, of w] obtain s1 where
    "ch_write_step idx w s = Inr s1" "ch_write_inv D row W M0 s1" by blast
  with Cons.IH show ?case by simp
qed simp

lemma ch_write_run_append: "ch_write_run idx (xs @ ys) s = ebind (ch_write_run idx xs s) (ch_write_run idx ys)"
  by (induction xs arbitrary: s) (auto simp: ebind_def split: sum.splits)

subsection \<open>The phase can be completed\<close>

definition ch_write_work :: "ch_write \<Rightarrow> nat \<Rightarrow> nat" where
  "ch_write_work s w = 3 * length (witems s w) + 2 * length (hbitmaps (wthr s w)) + (if wlocked s w then 0 else 1)"

lemma ch_write_advances:
  assumes rows: "rows_index idx row D S" and inv: "ch_write_inv D row W M0 s"
    and nd: "\<not> ch_write_done s"
  shows "\<exists>w < 64. \<exists>s'. ch_write_step idx w s = Inr s' \<and> ch_write_inv D row W M0 s' \<and> ch_write_work s' w < ch_write_work s w
    \<and> (\<forall>u. u \<noteq> w \<longrightarrow> ch_write_work s' u = ch_write_work s u)"
proof -
  note wk = writer_okD [OF ch_write_invD(1) [OF inv]]
  consider (items) w where "w < 64" "witems s w \<noteq> []" | (locked) w where "wlocked s w" "\<And>u. u < 64 \<Longrightarrow> witems s u = []"
    | (free) w where "w < 64" "witems s w = []" "hbitmaps (wthr s w) \<noteq> []" "\<And>u. \<not> wlocked s u"
    using nd unfolding ch_write_done_def NUM_CORE_def by metis
  then show ?thesis
  proof cases
    case items
    then obtain i rest where it: "witems s w = i # rest" by (cases "witems s w") auto
    have "\<exists>s'. ch_write_step idx w s = Inr s' \<and> ch_write_inv D row W M0 s' \<and> wlocked s' = wlocked s
        \<and> length (hbitmaps (wthr s' w)) \<le> Suc (length (hbitmaps (wthr s w))) \<and> witems s' = (witems s)(w := rest)
        \<and> (\<forall>u. u \<noteq> w \<longrightarrow> wthr s' u = wthr s u)"
      using ch_write_op [OF rows inv] ch_write_end [OF inv] it by (cases i) metis+
    then show ?thesis using items(1) it by (fastforce simp: ch_write_work_def)
  next
    case locked
    then have w: "w < 64" using wk(5,6) [of w] not_le by blast
    from ch_write_publish [OF rows_index_inj [OF rows] inv locked(1), of idx] obtain s' where "ch_write_step idx w s = Inr s'" "ch_write_inv D row W M0 s'"
      "witems s' = witems s" "wlocked s' = (wlocked s)(w := False)" "Suc (length (hbitmaps (wthr s' w))) = length (hbitmaps (wthr s w))"
      "\<And>u. u \<noteq> w \<Longrightarrow> wthr s' u = wthr s u" by blast
    then show ?thesis using w locked(1) by (intro exI [of _ w]) (simp add: ch_write_work_def)
  next
    case free
    obtain p b rest where bms: "hbitmaps (wthr s w) = (p, b) # rest" using free(3) by (cases "hbitmaps (wthr s w)") auto
    obtain k where "k \<in> D" "p = row k" using wk(2) [of w] bms by (auto simp: marks_ok_def)
    then have "wb_lock (wrows s p) = 0"
      using row_writtenD(2) [OF ch_write_invD(2) [OF inv]] free(4) by (simp add: holds_lock_def)
    from ch_write_lock [OF inv free(2) bms free(4) this, of idx] obtain s' where "ch_write_step idx w s = Inr s'"
      "ch_write_inv D row W M0 s'" "witems s' = witems s" "wthr s' = wthr s" "wlocked s' = (wlocked s)(w := True)" by blast
    then show ?thesis using free(1,4) by (intro exI [of _ w]) (simp add: ch_write_work_def)
  qed
qed

lemma sum_one_less:
  fixes f g :: "nat \<Rightarrow> nat"
  assumes "w < 64" and "g w < f w" and "\<And>u. u \<noteq> w \<Longrightarrow> g u = f u"
  shows "(\<Sum>u < 64. g u) < (\<Sum>u < 64. f u)"
proof (rule sum_strict_mono_ex1)
  show "\<forall>u \<in> {..<64}. g u \<le> f u" using assms by (metis less_imp_le order_refl)
qed (use assms in auto)

lemma ch_write_can_finish:
  assumes rows: "rows_index idx row D S" and "ch_write_inv D row W M0 s"
  shows "\<exists>sched s'. ch_write_run idx sched s = Inr s' \<and> ch_write_inv D row W M0 s' \<and> ch_write_done s'"
  using assms(2)
proof (induction "\<Sum>w < 64. ch_write_work s w" arbitrary: s rule: less_induct)
  case less
  show ?case
  proof (cases "ch_write_done s")
    case True
    then show ?thesis using less.prems by (intro exI [of _ "[]"] exI [of _ s]) simp
  next
    case False
    from ch_write_advances [OF rows less.prems False] obtain w s1 where
      s1: "w < 64" "ch_write_step idx w s = Inr s1" "ch_write_inv D row W M0 s1" "ch_write_work s1 w < ch_write_work s w"
      "\<And>u. u \<noteq> w \<Longrightarrow> ch_write_work s1 u = ch_write_work s u" by blast
    have "(\<Sum>w < 64. ch_write_work s1 w) < (\<Sum>w < 64. ch_write_work s w)" by (rule sum_one_less [where w = w]) (use s1(1,4,5) in auto)
    from less.hyps [OF this s1(3)] obtain sched s' where
      "ch_write_run idx sched s1 = Inr s'" "ch_write_inv D row W M0 s'" "ch_write_done s'" by blast
    then show ?thesis using s1(2) by (intro exI [of _ "w # sched"] exI [of _ s']) simp
  qed
qed

subsection \<open>Its start and its end\<close>

text \<open>The transactions of an epoch, from position \<open>head\<close>: as the constructors make them, on the keys \<open>D\<close>.\<close>

definition ch_batch :: "operation_set list \<Rightarrow> nat \<Rightarrow> nat set \<Rightarrow> bool" where
  "ch_batch txs head D \<longleftrightarrow> head + 4096 \<le> length txs \<and>
     (\<forall>n < 4096. op_set_ok (txs ! (head + n)) \<and> length (rw_set (txs ! (head + n))) \<le> 10
        \<and> index ` set (rw_set (txs ! (head + n))) \<subseteq> D)"

lemma ch_batchD:
  assumes "ch_batch txs head D" and "n < 4096"
  shows "op_set_ok (txs ! (head + n))" "length (rw_set (txs ! (head + n))) \<le> 10" "index ` set (rw_set (txs ! (head + n))) \<subseteq> D"
  using assms by (simp_all add: ch_batch_def)

lemma ch_batch_items:
  assumes "ch_batch txs head D"
  shows "items_ok D [] (ch_items write_keys txs head w)" "items_ok D [] (ch_items read_keys txs head w)"
proof -
  have b: "distinct (write_keys (txs ! (head + n))) \<and> length (write_keys (txs ! (head + n))) \<le> 10 \<and> set (write_keys (txs ! (head + n))) \<subseteq> D"
    "distinct (read_keys (txs ! (head + n))) \<and> length (read_keys (txs ! (head + n))) \<le> 10 \<and> set (read_keys (txs ! (head + n))) \<subseteq> D"
    if "n < 4096" for n
  proof -
    note d = ch_batchD [OF assms that] and k = distinct_keys [OF ch_batchD(1) [OF assms that]]
    have "set (write_keys (txs ! (head + n))) \<subseteq> index ` set (rw_set (txs ! (head + n)))"
      using d(1) by (auto simp: write_keys_def op_set_ok_def positions_of_updates_def)
    moreover have "set (read_keys (txs ! (head + n))) \<subseteq> index ` set (rw_set (txs ! (head + n)))" by (auto simp: read_keys_def)
    ultimately show "distinct (write_keys (txs ! (head + n))) \<and> length (write_keys (txs ! (head + n))) \<le> 10 \<and> set (write_keys (txs ! (head + n))) \<subseteq> D"
      "distinct (read_keys (txs ! (head + n))) \<and> length (read_keys (txs ! (head + n))) \<le> 10 \<and> set (read_keys (txs ! (head + n))) \<subseteq> D"
      using d k by force+
  qed
  show "items_ok D [] (ch_items write_keys txs head w)" "items_ok D [] (ch_items read_keys txs head w)"
    by (rule ch_items_ok, rule b, assumption)+
qed

lemma ch_items_beyond: "64 \<le> w \<Longrightarrow> ch_items keys txs head w = []"
  by (simp add: ch_items_def NUM_CORE_def)

definition threads_idle :: "(nat \<Rightarrow> cheetah_thread) \<Rightarrow> bool" where
  "threads_idle thr \<longleftrightarrow> (\<forall>w. hwrite_set (thr w) record_table = [] \<and> hbitmaps (thr w) = [])"

lemma ch_write_inv_start:
  assumes batch: "ch_batch txs head D" and idle: "threads_idle thr"
    and rows: "\<And>k. k \<in> D \<Longrightarrow> row_idle (M0 k) (hvalues db (row k)) \<and> wb_lock (hvalues db (row k)) = 0"
  shows "ch_write_inv D row (row_writers txs head) M0 (ch_write_start txs head db thr)"
proof -
  let ?s = "ch_write_start txs head db thr"
  have sel: "witems ?s = ch_items write_keys txs head" "wlocked ?s = (\<lambda>_. False)" "wrows ?s = hvalues db"
    "wthr ?s w = (thr w)\<lparr>hthr_core := w\<rparr>" for w by (simp_all add: ch_write_start_def)
  have t: "hwrite_set (thr w) record_table = []" "hbitmaps (thr w) = []" for w using idle by (simp_all add: threads_idle_def)
  have "writer_ok D row w ?s" for w
    using ch_batch_items(1) [OF batch] ch_items_beyond
    by (auto simp: writer_ok_def sel t in_transaction_def marks_ok_def set_ch_items)
  moreover have "row_written (row_writers txs head k) (M0 k) k (row k) ?s" if k: "k \<in> D" for k
  proof -
    have r: "row_idle (M0 k) (hvalues db (row k))" "wb_lock (hvalues db (row k)) = 0" using rows [OF k] by auto
    then have c: "wb_core_bitmap (hvalues db (row k)) = 0" "tx_bitmaps (hvalues db (row k)) = []" by (simp_all add: row_idle_def)
    have left: "ids_left k (row k) w ?s = {n. n < 4096 \<and> n div 64 = w \<and> has_write (txs ! (head + n)) k}" for w
      by (auto simp: ids_left_def sel t set_ch_items set_write_keys)
    have "row_writers txs head k = (\<Union>w < 64. ids_left k (row k) w ?s)"
      by (force simp: left row_writers_def)
    then show ?thesis using r wb_ok_cleared [OF c] c
      by (auto simp: row_written_def sel holds_lock_def row_idle_def set_ch_items set_write_keys row_writers_def)
  qed
  ultimately show ?thesis by (simp add: ch_write_inv_def holds_lock_def sel)
qed

lemma read_inv_published:
  assumes x: "wb_ok x" "wb_ids x = W" "ref_cnt x = 0" "placeholders x = Map.empty" "wb_master x = M0" "previous_master x = nullptr"
    and m: "mem_ok m" "stab m M0 r0" and W: "W \<subseteq> {..<4096}"
  shows "read_inv W {} (vers m) M0 r0 ptr x m"
proof -
  have M0: "M0 \<noteq> nullptr" "M0 < brk m" using m mem_okD(2) by (fastforce simp: stab_def)+
  have z: "wb_core_bitmap x = 0 \<Longrightarrow> tx_bitmaps x = []" using x(1) by (simp add: wb_ok_def)
  have "wb_core_bitmap x = 0 \<longleftrightarrow> W = {}"
  proof
    assume "wb_core_bitmap x = 0"
    then show "W = {}" using wb_ok_cleared z x(2) by blast
  next
    assume e: "W = {}"
    show "wb_core_bitmap x = 0"
    proof (rule ccontr)
      assume "wb_core_bitmap x \<noteq> 0"
      then obtain c where c: "c \<in> ones (wb_core_bitmap x)" using ones_eq_empty_iff by blast
      then obtain t where t: "t \<in> ones (tb_of x c)" using tb_of_not_0 [OF x(1)] ones_eq_empty_iff by blast
      then have "c * 64 + t \<in> wb_ids x" using c ones_less [OF t] by (simp add: wb_ids_def two_level_ids_at)
      then show False using e x(2) by blast
    qed
  qed
  then show ?thesis using x m W M0 z by (simp add: read_inv_def placed_def mem_inv_def)
qed

lemma ch_write_end_state:
  assumes inv: "ch_write_inv D row (row_writers txs head) M0 s" and dn: "ch_write_done s" and m: "mem_ok m"
    and r0: "\<And>k. k \<in> D \<Longrightarrow> stab m (M0 k) (r0 k)"
  shows "k \<in> D \<Longrightarrow> read_inv (row_writers txs head k) {} (vers m) (M0 k) (r0 k) ptr (wrows s (row k)) m"
    "k \<in> D \<Longrightarrow> wb_lock (wrows s (row k)) = 0" "k \<in> D \<Longrightarrow> n \<in> row_writers txs head k \<Longrightarrow> wptr s k n = Some (row k)"
    "threads_idle (wthr s)"
proof -
  note wk = writer_okD [OF ch_write_invD(1) [OF inv]]
  have e: "witems s w = []" "hbitmaps (wthr s w) = []" for w
    using dn wk(6) [of w] by (cases "w < 64"; auto simp: ch_write_done_def NUM_CORE_def)+
  then have nl: "\<not> wlocked s w" for w using wk(5) by blast
  show "threads_idle (wthr s)" using wk(1) e by (auto simp: threads_idle_def in_transaction_def)
  have left: "ids_left k p w s = {}" for k p w using e by (simp add: ids_left_def)
  assume k: "k \<in> D"
  note rw = ch_write_invD(2) [OF inv k] and rwD = row_writtenD [OF ch_write_invD(2) [OF inv k]]
  show "wb_lock (wrows s (row k)) = 0" using rwD(2) nl by (simp add: holds_lock_def)
  show "wptr s k n = Some (row k)" if "n \<in> row_writers txs head k" using rwD(5) [OF that] e by simp
  show "read_inv (row_writers txs head k) {} (vers m) (M0 k) (r0 k) ptr (wrows s (row k)) m"
    using rw left m r0 [OF k] by (intro read_inv_published) (auto simp: row_written_def row_writers_def)
qed

section \<open>The read phase\<close>

text \<open>
  \<open>rpend\<close> and \<open>rptr\<close> are the pointers \<open>pending_\<close> and \<open>w_bitmap_\<close> of the operations, by key and serial id.
\<close>

record ch_read =
  rdb :: cheetah_db
  rthr :: "nat \<Rightarrow> cheetah_thread"
  ritems :: "nat \<Rightarrow> ch_item list"
  rpend :: "nat \<Rightarrow> nat \<Rightarrow> nat"
  rptr :: "nat \<Rightarrow> nat \<Rightarrow> nat option"

definition ch_read_start :: "operation_set list \<Rightarrow> nat \<Rightarrow> mem \<Rightarrow> ch_write \<Rightarrow> ch_read" where
  "ch_read_start txs head m s =
     \<lparr>rdb = \<lparr>hvalues = wrows s, hmem = m\<rparr>, rthr = (\<lambda>w. (wthr s w)\<lparr>hthr_core := w\<rparr>),
      ritems = ch_items read_keys txs head, rpend = (\<lambda>_ _. nullptr), rptr = wptr s\<rparr>"

definition ch_read_step :: "index_find \<Rightarrow> nat \<Rightarrow> ch_read \<Rightarrow> ch_read res" where
  "ch_read_step idx w s =
     (case ritems s w of
        [] \<Rightarrow> Inr s
      | ChOp k n # rest \<Rightarrow>
          ebind (ch_append_pending_version idx record_table k ((rthr s w)\<lparr>hthr_serial_id := n\<rparr>) (rdb s)) (\<lambda>(v, p, t, db).
            assert_then (v \<noteq> nullptr)
              (Inr (s\<lparr>rdb := db, rthr := (rthr s)(w := t), ritems := (ritems s)(w := rest),
                      rpend := (rpend s)(k := (rpend s k)(n := v)), rptr := (rptr s)(k := (rptr s k)(n \<mapsto> p))\<rparr>)))
      | ChEnd # rest \<Rightarrow>
          Inr (s\<lparr>rthr := (rthr s)(w := ch_terminate_transaction (rthr s w)), ritems := (ritems s)(w := rest)\<rparr>))"

fun ch_read_run :: "index_find \<Rightarrow> nat list \<Rightarrow> ch_read \<Rightarrow> ch_read res" where
  "ch_read_run idx [] s = Inr s"
| "ch_read_run idx (w # sched) s = ebind (ch_read_step idx w s) (ch_read_run idx sched)"

definition ch_read_done :: "ch_read \<Rightarrow> bool" where
  "ch_read_done s \<longleftrightarrow> (\<forall>w < NUM_CORE. ritems s w = [])"

subsection \<open>The invariant\<close>

text \<open>The readers of a row that have their version.\<close>

definition served :: "nat set \<Rightarrow> nat \<Rightarrow> ch_read \<Rightarrow> nat set" where
  "served R k s = {n \<in> R. \<forall>w. ChOp k n \<notin> set (ritems s w)}"

definition reader_ok :: "nat set \<Rightarrow> (nat \<Rightarrow> nat set) \<Rightarrow> nat \<Rightarrow> ch_read \<Rightarrow> bool" where
  "reader_ok D R w s \<longleftrightarrow> in_transaction D (rthr s w) (ritems s w) \<and> hthr_core (rthr s w) = w \<and> hbitmaps (rthr s w) = []
     \<and> (\<forall>k n. ChOp k n \<in> set (ritems s w) \<longrightarrow> n \<in> R k \<and> n < 4096 \<and> n div 64 = w) \<and> (64 \<le> w \<longrightarrow> ritems s w = [])"

definition row_read ::
  "nat set \<Rightarrow> nat set \<Rightarrow> nat \<Rightarrow> nat \<Rightarrow> nat \<Rightarrow> nat \<Rightarrow> ch_read \<Rightarrow> bool" where
  "row_read W S M0 r0 k p s \<longleftrightarrow> (\<exists>B. read_inv W S B M0 r0 (rpend s k) (hvalues (rdb s) p) (hmem (rdb s)))
     \<and> wb_lock (hvalues (rdb s) p) = 0 \<and> (\<forall>n \<in> W \<union> S. rptr s k n = Some p)"

definition ch_read_inv ::
  "nat set \<Rightarrow> (nat \<Rightarrow> nat) \<Rightarrow> (nat \<Rightarrow> nat set) \<Rightarrow> (nat \<Rightarrow> nat set) \<Rightarrow> (nat \<Rightarrow> nat) \<Rightarrow> (nat \<Rightarrow> nat) \<Rightarrow> ch_read \<Rightarrow> bool" where
  "ch_read_inv D row W R M0 r0 s \<longleftrightarrow> mem_ok (hmem (rdb s)) \<and> (\<forall>w. reader_ok D R w s)
     \<and> (\<forall>k \<in> D. row_read (W k) (served (R k) k s) (M0 k) (r0 k) k (row k) s)
     \<and> (\<forall>k \<in> D. \<forall>l \<in> D. k \<noteq> l \<longrightarrow>
          read_foot (M0 k) (hvalues (rdb s) (row k)) \<inter> read_foot (M0 l) (hvalues (rdb s) (row l)) = {})
     \<and> (\<forall>v \<in> dom (vers (hmem (rdb s))). \<exists>k \<in> D. v \<in> read_foot (M0 k) (hvalues (rdb s) (row k)))"

lemma ch_read_invD:
  assumes "ch_read_inv D row W R M0 r0 s"
  shows "mem_ok (hmem (rdb s))" "reader_ok D R w s" "k \<in> D \<Longrightarrow> row_read (W k) (served (R k) k s) (M0 k) (r0 k) k (row k) s"
    "k \<in> D \<Longrightarrow> l \<in> D \<Longrightarrow> k \<noteq> l \<Longrightarrow> read_foot (M0 k) (hvalues (rdb s) (row k)) \<inter> read_foot (M0 l) (hvalues (rdb s) (row l)) = {}"
    "v \<in> dom (vers (hmem (rdb s))) \<Longrightarrow> \<exists>k \<in> D. v \<in> read_foot (M0 k) (hvalues (rdb s) (row k))"
  using assms unfolding ch_read_inv_def by blast+

lemma reader_okD:
  assumes "reader_ok D R w s"
  shows "in_transaction D (rthr s w) (ritems s w)" "hthr_core (rthr s w) = w" "hbitmaps (rthr s w) = []"
    "ChOp k n \<in> set (ritems s w) \<Longrightarrow> n \<in> R k \<and> n < 4096 \<and> n div 64 = w" "64 \<le> w \<Longrightarrow> ritems s w = []"
  using assms unfolding reader_ok_def by blast+

lemma reader_ok_other: "reader_ok D R u s \<Longrightarrow> rthr s' u = rthr s u \<Longrightarrow> ritems s' u = ritems s u \<Longrightarrow> reader_ok D R u s'"
  by (simp add: reader_ok_def)

lemma read_inv_ptr:
  assumes "read_inv W S B M0 r0 ptr w m" and "n \<in> S"
  shows "ptr n \<noteq> nullptr"
proof -
  note pl = read_invD(1) [OF assms(1)]
  show ?thesis
  proof (cases "visible_in W n")
    case None
    then show ?thesis using pl assms(2) by (simp add: placed_def)
  next
    case (Some i)
    then have "i \<in> dom (placeholders w)" using placed_dom [OF pl] assms(2) by blast
    then obtain v where v: "placeholders w i = Some v" by blast
    then have "v \<noteq> nullptr" using placedD(3) [OF pl] by (metis ranI)
    moreover have "ptr n = v" using Some v pl assms(2) by (simp add: placed_def)
    ultimately show ?thesis by simp
  qed
qed

subsection \<open>The steps\<close>

lemma items_after:
  assumes "f w = i # rest"
  shows "(\<forall>u. x \<notin> set ((f(w := rest)) u)) \<longleftrightarrow> x \<notin> set rest \<and> (\<forall>u. u \<noteq> w \<longrightarrow> x \<notin> set (f u))"
    "(\<forall>u. x \<notin> set (f u)) \<longleftrightarrow> x \<noteq> i \<and> x \<notin> set rest \<and> (\<forall>u. u \<noteq> w \<longrightarrow> x \<notin> set (f u))"
proof -
  have "set (f w) = insert i (set rest)" using assms by simp
  then show "(\<forall>u. x \<notin> set (f u)) \<longleftrightarrow> x \<noteq> i \<and> x \<notin> set rest \<and> (\<forall>u. u \<noteq> w \<longrightarrow> x \<notin> set (f u))" by (metis insert_iff)
qed (metis fun_upd_other fun_upd_same)

lemma served_after:
  assumes "ritems s w = i # rest" and "ritems s' = (ritems s)(w := rest)"
  shows "served R k s' = {n \<in> R. ChOp k n \<notin> set rest \<and> (\<forall>u. u \<noteq> w \<longrightarrow> ChOp k n \<notin> set (ritems s u))}"
    "served R k s = {n \<in> served R k s'. ChOp k n \<noteq> i}"
  unfolding served_def assms(2) items_after [of "ritems s", OF assms(1)] by blast+

lemma ch_read_op:
  assumes rows: "rows_index idx row D S" and inv: "ch_read_inv D row W R M0 r0 s" and it: "ritems s w = ChOp k n # rest"
  shows "\<exists>s'. ch_read_step idx w s = Inr s' \<and> ch_read_inv D row W R M0 r0 s' \<and> ritems s' = (ritems s)(w := rest)"
proof -
  note rd = reader_okD [OF ch_read_invD(2) [OF inv, of w]]
  have tr: "in_transaction D (rthr s w) (ChOp k n # rest)" using rd(1) it by simp
  have k: "k \<in> D" "ChOp k n \<notin> set rest" "k \<notin> set (hwrite_set (rthr s w) record_table)"
    "items_ok D (hwrite_set (rthr s w) record_table @ [k]) rest" using tr by (simp_all add: in_transaction_def)
  have idx: "idx record_table k = Some (row k)" using rows k(1) by (simp add: rows_index_def)
  have n: "n \<in> R k" "n < 4096" "n div 64 = w" using rd(4) [of k n] it by simp_all
  have ns: "n \<notin> served (R k) k s" using it by (auto simp: served_def intro!: exI [of _ w])
  have same: "row j = row k \<longleftrightarrow> j = k" if "j \<in> D" for j using rows_index_inj [OF rows] k(1) that by (auto simp: inj_on_def)
  obtain B where B: "read_inv (W k) (served (R k) k s) B (M0 k) (r0 k) (rpend s k) (hvalues (rdb s) (row k)) (hmem (rdb s))"
    using ch_read_invD(3) [OF inv k(1)] by (auto simp: row_read_def)
  from read_step [OF B n(2) ns] obtain v x m where
    call: "wb_append_pending_version (n div 64) (n mod 64) (hvalues (rdb s) (row k)) (hmem (rdb s)) = Inr (v, x, m)" and
    B': "read_inv (W k) (insert n (served (R k) k s)) B (M0 k) (r0 k) ((rpend s k)(n := v)) x m" by blast
  note brk = wb_append_brk [OF call]
  have v: "v \<noteq> nullptr" using read_inv_ptr [OF B', of n] by simp
  let ?db = "(put_wb (row k) x (rdb s))\<lparr>hmem := m\<rparr>"
  let ?t = "(rthr s w)\<lparr>hthr_serial_id := n, hwritten_tables := insert record_table (hwritten_tables (rthr s w)),
      hwrite_set := (hwrite_set (rthr s w))(record_table := hwrite_set (rthr s w) record_table @ [k])\<rparr>"
  let ?s = "s\<lparr>rdb := ?db, rthr := (rthr s)(w := ?t), ritems := (ritems s)(w := rest),
      rpend := (rpend s)(k := (rpend s k)(n := v)), rptr := (rptr s)(k := (rptr s k)(n \<mapsto> row k))\<rparr>"
  have "ch_append_pending_version idx record_table k ((rthr s w)\<lparr>hthr_serial_id := n\<rparr>) (rdb s) = Inr (v, row k, ?t, ?db)"
    using k(3) idx call n(3) rd(2) v by (simp add: ch_append_pending_version_def Let_def)
  then have step: "ch_read_step idx w s = Inr ?s" using it v by (simp add: ch_read_step_def)
  have "in_transaction D ?t rest" using k(4) by (simp add: in_transaction_def)
  then have workers: "reader_ok D R u ?s" for u
    using ch_read_invD(2) [OF inv, of u] rd it by (cases "u = w") (auto simp: reader_ok_def)
  have after: "ritems ?s = (ritems s)(w := rest)" by simp
  have own: "served (R k) k ?s = insert n (served (R k) k s)"
  proof -
    have "ChOp k n \<notin> set (ritems s u)" if "u \<noteq> w" for u
      using reader_okD(4) [OF ch_read_invD(2) [OF inv, of u], of k n] that n(3) by blast
    then have "n \<in> served (R k) k ?s" using n(1) k(2) unfolding served_after(1) [OF it after] by blast
    then show ?thesis unfolding served_after(2) [OF it after] by auto
  qed
  have others: "served (R j) j ?s = served (R j) j s" if "j \<noteq> k" for j using that unfolding served_after(2) [OF it after] by auto
  have frame: "read_foot (M0 j) (hvalues (rdb s) (row j)) \<inter> read_foot (M0 k) x = {}"
      "u \<in> read_foot (M0 j) (hvalues (rdb s) (row j)) \<Longrightarrow> vers m u = vers (hmem (rdb s)) u" if j: "j \<in> D" "j \<noteq> k" for j u
  proof -
    obtain B1 where B1: "read_inv (W j) (served (R j) j s) B1 (M0 j) (r0 j) (rpend s j) (hvalues (rdb s) (row j)) (hmem (rdb s))"
      using ch_read_invD(3) [OF inv j(1)] by (auto simp: row_read_def)
    have a: "u \<notin> read_foot (M0 k) x \<and> vers m u = vers (hmem (rdb s)) u" if u: "u \<in> read_foot (M0 j) (hvalues (rdb s) (row j))" for u
    proof -
      have "u \<notin> read_foot (M0 k) (hvalues (rdb s) (row k))" using ch_read_invD(4) [OF inv j(1) k(1) j(2)] u by blast
      with read_inv_others [OF B B' read_foot_alive [OF B1 u]] show ?thesis by blast
    qed
    then show "read_foot (M0 j) (hvalues (rdb s) (row j)) \<inter> read_foot (M0 k) x = {}" by blast
    show "vers m u = vers (hmem (rdb s)) u" if "u \<in> read_foot (M0 j) (hvalues (rdb s) (row j))" using a [OF that] by blast
  qed
  have hv: "hvalues (rdb ?s) (row j) = (if j = k then x else hvalues (rdb s) (row j))" if "j \<in> D" for j
    using same [OF that] by (simp add: put_wb_def)
  have "row_read (W j) (served (R j) j ?s) (M0 j) (r0 j) j (row j) ?s" if j: "j \<in> D" for j
  proof (cases "j = k")
    case True
    have "wb_lock x = 0" "\<forall>i \<in> W k \<union> served (R k) k s. rptr s k i = Some (row k)"
      using ch_read_invD(3) [OF inv k(1)] brk(2) by (simp_all add: row_read_def)
    then show ?thesis using B' own hv [OF k(1)] by (auto simp: row_read_def True put_wb_def)
  next
    case False
    obtain B1 where B1: "read_inv (W j) (served (R j) j s) B1 (M0 j) (r0 j) (rpend s j) (hvalues (rdb s) (row j)) (hmem (rdb s))"
      using ch_read_invD(3) [OF inv j] by (auto simp: row_read_def)
    from read_inv_frame [OF B1 read_inv_mem_ok [OF B'] brk(1) frame(2) [OF j False]]
    have "\<exists>B. read_inv (W j) (served (R j) j s) B (M0 j) (r0 j) (rpend s j) (hvalues (rdb s) (row j)) m" by blast
    then show ?thesis using ch_read_invD(3) [OF inv j] hv [OF j] False others [OF False] by (simp add: row_read_def)
  qed
  moreover have "read_foot (M0 i) (hvalues (rdb ?s) (row i)) \<inter> read_foot (M0 j) (hvalues (rdb ?s) (row j)) = {}"
    if "i \<in> D" "j \<in> D" "i \<noteq> j" for i j
    using frame(1) [of i] frame(1) [of j] ch_read_invD(4) [OF inv that] that hv [OF that(1)] hv [OF that(2)]
    by (cases "i = k"; cases "j = k") (simp_all add: Int_commute)
  moreover have "\<exists>j \<in> D. u \<in> read_foot (M0 j) (hvalues (rdb ?s) (row j))" if u: "u \<in> dom (vers m)" for u
  proof (cases "u \<in> read_foot (M0 k) x")
    case True
    then show ?thesis using k(1) hv [OF k(1)] by (intro bexI [of _ k]) simp_all
  next
    case False
    then have "u \<notin> read_foot (M0 k) (hvalues (rdb s) (row k))" using wb_append_ran [OF call] by (auto simp: ch_foot_def)
    then have "u \<in> dom (vers (hmem (rdb s)))"
      using u mem_inv_outside [OF read_invD(2) [OF B] read_invD(2) [OF B'] _ False] by (simp add: domIff)
    then obtain j where j: "j \<in> D" "u \<in> read_foot (M0 j) (hvalues (rdb s) (row j))" using ch_read_invD(5) [OF inv] by blast
    then have "j \<noteq> k" using \<open>u \<notin> read_foot (M0 k) (hvalues (rdb s) (row k))\<close> by blast
    then show ?thesis using j hv [OF j(1)] by (intro bexI [of _ j]) simp_all
  qed
  ultimately have "ch_read_inv D row W R M0 r0 ?s" using read_inv_mem_ok [OF B'] workers unfolding ch_read_inv_def by simp
  then show ?thesis using step by (intro exI [of _ ?s]) simp
qed

lemma ch_read_end:
  assumes inv: "ch_read_inv D row W R M0 r0 s" and it: "ritems s w = ChEnd # rest"
  shows "\<exists>s'. ch_read_step idx w s = Inr s' \<and> ch_read_inv D row W R M0 r0 s' \<and> ritems s' = (ritems s)(w := rest)"
proof -
  note rd = reader_okD [OF ch_read_invD(2) [OF inv, of w]]
  let ?s = "s\<lparr>rthr := (rthr s)(w := ch_terminate_transaction (rthr s w)), ritems := (ritems s)(w := rest)\<rparr>"
  have "in_transaction D (ch_terminate_transaction (rthr s w)) rest" using rd(1) it by (intro in_transaction_end) simp
  then have workers: "reader_ok D R u ?s" for u using ch_read_invD(2) [OF inv, of u] rd it by (cases "u = w") (auto simp: reader_ok_def)
  have after: "ritems ?s = (ritems s)(w := rest)" by simp
  have sv: "served (R k) k ?s = served (R k) k s" for k unfolding served_after(2) [OF it after] by auto
  have "row_read (W k) (served (R k) k ?s) (M0 k) (r0 k) k (row k) ?s" if "k \<in> D" for k
    using ch_read_invD(3) [OF inv that] unfolding sv by (simp add: row_read_def)
  then have "ch_read_inv D row W R M0 r0 ?s" using ch_read_invD(1,4,5) [OF inv] workers unfolding ch_read_inv_def by simp
  then show ?thesis using it by (intro exI [of _ ?s]) (simp add: ch_read_step_def)
qed

lemma ch_read_item:
  assumes "rows_index idx row D S" and "ch_read_inv D row W R M0 r0 s" and "ritems s w = i # rest"
  shows "\<exists>s'. ch_read_step idx w s = Inr s' \<and> ch_read_inv D row W R M0 r0 s' \<and> ritems s' = (ritems s)(w := rest)"
  using ch_read_op [OF assms(1,2)] ch_read_end [OF assms(2)] assms(3) by (cases i) metis+

lemma ch_read_run_ok:
  assumes rows: "rows_index idx row D S" and "ch_read_inv D row W R M0 r0 s"
  shows "\<exists>s'. ch_read_run idx sched s = Inr s' \<and> ch_read_inv D row W R M0 r0 s'"
  using assms(2)
proof (induction sched arbitrary: s)
  case (Cons w sched)
  have "\<exists>s1. ch_read_step idx w s = Inr s1 \<and> ch_read_inv D row W R M0 r0 s1"
  proof (cases "ritems s w")
    case (Cons i rest)
    then show ?thesis using ch_read_item [OF rows Cons.prems] by blast
  qed (use Cons.prems in \<open>simp add: ch_read_step_def\<close>)
  with Cons.IH show ?case by fastforce
qed simp

lemma ch_read_run_append: "ch_read_run idx (xs @ ys) s = ebind (ch_read_run idx xs s) (ch_read_run idx ys)"
  by (induction xs arbitrary: s) (auto simp: ebind_def split: sum.splits)

lemma ch_read_can_finish:
  assumes rows: "rows_index idx row D S" and "ch_read_inv D row W R M0 r0 s"
  shows "\<exists>sched s'. ch_read_run idx sched s = Inr s' \<and> ch_read_inv D row W R M0 r0 s' \<and> ch_read_done s'"
  using assms(2)
proof (induction "\<Sum>w < 64. length (ritems s w)" arbitrary: s rule: less_induct)
  case less
  show ?case
  proof (cases "ch_read_done s")
    case True
    then show ?thesis using less.prems by (intro exI [of _ "[]"] exI [of _ s]) simp
  next
    case False
    then obtain w i rest where w: "w < 64" "ritems s w = i # rest" by (auto simp: ch_read_done_def NUM_CORE_def neq_Nil_conv)
    from ch_read_item [OF rows less.prems w(2)] obtain s1 where
      s1: "ch_read_step idx w s = Inr s1" "ch_read_inv D row W R M0 r0 s1" "ritems s1 = (ritems s)(w := rest)" by blast
    have "(\<Sum>w < 64. length (ritems s1 w)) < (\<Sum>w < 64. length (ritems s w))"
      by (rule sum_one_less [where w = w]) (use w s1(3) in auto)
    from less.hyps [OF this s1(2)] obtain sched s' where
      "ch_read_run idx sched s1 = Inr s'" "ch_read_inv D row W R M0 r0 s'" "ch_read_done s'" by blast
    then show ?thesis using s1(1) by (intro exI [of _ "w # sched"] exI [of _ s']) simp
  qed
qed

subsection \<open>Its start and its end\<close>

lemma ch_read_inv_start:
  assumes batch: "ch_batch txs head D" and inv: "ch_write_inv D row (row_writers txs head) M0 s" and dn: "ch_write_done s"
    and m: "mem_ok m" and r0: "\<And>k. k \<in> D \<Longrightarrow> stab m (M0 k) (r0 k)" and apart: "inj_on M0 D"
    and alive: "dom (vers m) \<subseteq> M0 ` D"
  shows "ch_read_inv D row (row_writers txs head) (row_readers txs head) M0 r0 (ch_read_start txs head m s)"
proof -
  let ?s = "ch_read_start txs head m s"
  have sel: "rdb ?s = \<lparr>hvalues = wrows s, hmem = m\<rparr>" "rthr ?s w = (wthr s w)\<lparr>hthr_core := w\<rparr>"
    "ritems ?s = ch_items read_keys txs head" "rpend ?s k = (\<lambda>_. nullptr)" "rptr ?s = wptr s" for w k
    by (simp_all add: ch_read_start_def)
  note e = ch_write_end_state [OF inv dn m r0]
  have t: "hwrite_set (wthr s w) record_table = []" "hbitmaps (wthr s w) = []" for w using e(4) by (simp_all add: threads_idle_def)
  have "reader_ok D (row_readers txs head) w ?s" for w
    using ch_batch_items(2) [OF batch] ch_items_beyond
    by (auto simp: reader_ok_def sel t in_transaction_def set_ch_items set_read_keys row_readers_def)
  moreover have "row_read (row_writers txs head k) (served (row_readers txs head k) k ?s) (M0 k) (r0 k) k (row k) ?s" if k: "k \<in> D" for k
  proof -
    have "served (row_readers txs head k) k ?s = {}"
      by (auto simp: served_def sel set_ch_items set_read_keys row_readers_def)
    then show ?thesis using e(1-3) [OF _ k] k by (auto simp: row_read_def sel)
  qed
  moreover have foot: "read_foot (M0 k) (hvalues (rdb ?s) (row k)) = {M0 k}" if "k \<in> D" for k
    using ch_write_invD(2) [OF inv that] by (simp add: sel ch_foot_def row_written_def)
  then have "read_foot (M0 k) (hvalues (rdb ?s) (row k)) \<inter> read_foot (M0 l) (hvalues (rdb ?s) (row l)) = {}"
    if "k \<in> D" "l \<in> D" "k \<noteq> l" for k l using that apart by (auto simp: inj_on_def)
  moreover have "\<exists>k \<in> D. v \<in> read_foot (M0 k) (hvalues (rdb ?s) (row k))" if "v \<in> dom (vers m)" for v
    using alive that foot by blast
  ultimately show ?thesis using m by (simp add: ch_read_inv_def sel)
qed

lemma ch_read_end_state:
  assumes inv: "ch_read_inv D row W R M0 r0 s" and dn: "ch_read_done s"
  shows "k \<in> D \<Longrightarrow> \<exists>B. read_inv (W k) (R k) B (M0 k) (r0 k) (rpend s k) (hvalues (rdb s) (row k)) (hmem (rdb s))"
    "k \<in> D \<Longrightarrow> wb_lock (hvalues (rdb s) (row k)) = 0" "k \<in> D \<Longrightarrow> n \<in> W k \<union> R k \<Longrightarrow> rptr s k n = Some (row k)"
    "threads_idle (rthr s)"
proof -
  note rd = reader_okD [OF ch_read_invD(2) [OF inv]]
  have e: "ritems s w = []" for w using dn rd(5) [of w] by (cases "w < 64") (auto simp: ch_read_done_def NUM_CORE_def)
  show "threads_idle (rthr s)" using rd(1,3) e by (auto simp: threads_idle_def in_transaction_def)
  have sv: "served (R k) k s = R k" for k using e by (simp add: served_def)
  assume k: "k \<in> D"
  note rr = ch_read_invD(3) [OF inv k, unfolded sv row_read_def]
  show "\<exists>B. read_inv (W k) (R k) B (M0 k) (r0 k) (rpend s k) (hvalues (rdb s) (row k)) (hmem (rdb s))"
    "wb_lock (hvalues (rdb s) (row k)) = 0" using rr by blast+
  show "rptr s k n = Some (row k)" if "n \<in> W k \<union> R k" using rr that by blast
qed

end
