(* ===== verification/Cheetah_Database.thy ===== *)
theory Cheetah_Database
  imports Cheetah_Init Db_Runs
begin

text \<open>
  An epoch of Cheetah over a whole database: the write phase and the read phase of Cheetah_Init, and
  the execution phase, with the 64 workers interleaved at their atomic accesses to all rows. The
  experiment of \<open>NUM_EPOCH\<close> such epochs is serial, and the store holds one version of every row
  after each of them.
\<close>

section \<open>The execution phase\<close>

text \<open>
  \<open>eprog\<close> are the operations a worker has left, the first of them begun; \<open>ereader\<close> and \<open>ewriter\<close> say how
  far the operations are, \<open>ewritten\<close> and \<open>eread\<close> hold the records written and read, by key and serial
  id; \<open>efinal\<close> is the final writer's version, by key.
\<close>

record ch_exec =
  erows :: "nat \<Rightarrow> write_bitmap"
  estore :: mem
  eprog :: "nat \<Rightarrow> (nat \<times> operation) list"
  ereader :: "nat \<Rightarrow> nat \<Rightarrow> reader_pc"
  ewriter :: "nat \<Rightarrow> nat \<Rightarrow> writer_pc"
  efinal :: "nat \<Rightarrow> nat"
  ewritten :: "nat \<Rightarrow> nat \<Rightarrow> nat"
  eread :: "nat \<Rightarrow> nat \<Rightarrow> nat option"

definition ch_exec_start :: "operation_set list \<Rightarrow> nat \<Rightarrow> cheetah_db \<Rightarrow> ch_exec" where
  "ch_exec_start txs head db =
     \<lparr>erows = hvalues db, estore = hmem db, eprog = worker_program txs head, ereader = (\<lambda>_ _. RWait), ewriter = (\<lambda>_ _. WWait),
      efinal = (\<lambda>_. nullptr), ewritten = (\<lambda>_ _. 0), eread = (\<lambda>_. Map.empty)\<rparr>"

text \<open>The phase as the row at \<open>p\<close>, of key \<open>k\<close>, sees it, and the state after an access to that row.\<close>

definition ch_view :: "nat \<Rightarrow> nat \<Rightarrow> ch_exec \<Rightarrow> exec_conf" where
  "ch_view p k s =
     \<lparr>xw = erows s p, xm = estore s, rst = ereader s k, wst = ewriter s k, fver = efinal s k, wrec = ewritten s k, out = eread s k\<rparr>"

definition ch_put :: "nat \<Rightarrow> nat \<Rightarrow> exec_conf \<Rightarrow> ch_exec \<Rightarrow> ch_exec" where
  "ch_put p k x s =
     s\<lparr>erows := (erows s)(p := xw x), estore := xm x, ereader := (ereader s)(k := rst x), ewriter := (ewriter s)(k := wst x),
       efinal := (efinal s)(k := fver x), ewritten := (ewritten s)(k := wrec x), eread := (eread s)(k := out x)\<rparr>"

text \<open>
  A worker's next access. \<open>ptr\<close> and \<open>bm\<close> are the pointers \<open>pending_\<close> and \<open>w_bitmap_\<close> the read phase left
  in the operations; \<open>final k\<close> is the last writer of key \<open>k\<close>, whose version \<open>efinal\<close> records.
\<close>

definition ch_exec_step ::
  "nat \<Rightarrow> (nat \<Rightarrow> nat) \<Rightarrow> (nat \<Rightarrow> nat \<Rightarrow> nat) \<Rightarrow> (nat \<Rightarrow> nat \<Rightarrow> nat option) \<Rightarrow> nat \<Rightarrow> ch_exec \<Rightarrow> ch_exec res" where
  "ch_exec_step sz final ptr bm w s =
     (case eprog s w of
        [] \<Rightarrow> Inr s
      | (n, op) # rest \<Rightarrow>
          (let k = index op; done = s\<lparr>eprog := (eprog s)(w := rest)\<rparr> in
           case ope op of
             Read \<Rightarrow>
               assert_then (ptr k n \<noteq> nullptr)
                 (case bm k n of None \<Rightarrow> Inl NullDeref
                  | Some p \<Rightarrow> ebind (reader_step (ptr k) n (ch_view p k s)) (\<lambda>x.
                      Inr (ch_put p k x (if rst x n = RDone then done else s))))
           | Update \<Rightarrow>
               (case bm k n of None \<Rightarrow> Inl NullDeref
                | Some p \<Rightarrow> ebind (writer_step (final k) sz n (ch_view p k s)) (\<lambda>x.
                    Inr (ch_put p k x (if wst x n = WDone then done else s))))))"

fun ch_exec_run ::
  "nat \<Rightarrow> (nat \<Rightarrow> nat) \<Rightarrow> (nat \<Rightarrow> nat \<Rightarrow> nat) \<Rightarrow> (nat \<Rightarrow> nat \<Rightarrow> nat option) \<Rightarrow> nat list \<Rightarrow> ch_exec \<Rightarrow> ch_exec res" where
  "ch_exec_run sz final ptr bm [] s = Inr s"
| "ch_exec_run sz final ptr bm (w # sched) s = ebind (ch_exec_step sz final ptr bm w s) (ch_exec_run sz final ptr bm sched)"

definition ch_exec_done :: "ch_exec \<Rightarrow> bool" where
  "ch_exec_done s \<longleftrightarrow> (\<forall>w < NUM_CORE. eprog s w = [])"

lemma ch_view_simps [simp]:
  "xw (ch_view p k s) = erows s p" "xm (ch_view p k s) = estore s" "rst (ch_view p k s) = ereader s k"
  "wst (ch_view p k s) = ewriter s k" "fver (ch_view p k s) = efinal s k" "wrec (ch_view p k s) = ewritten s k"
  "out (ch_view p k s) = eread s k"
  by (simp_all add: ch_view_def)

lemma ch_view_put: "ch_view p k (ch_put p k x s) = x"
  by (simp add: ch_view_def ch_put_def)

lemma ch_view_put_other: "q \<noteq> p \<Longrightarrow> j \<noteq> k \<Longrightarrow> ch_view q j (ch_put p k x s) = (ch_view q j s)\<lparr>xm := xm x\<rparr>"
  by (simp add: ch_view_def ch_put_def)

lemma ch_put_eprog [simp]: "eprog (ch_put p k x s) = eprog s" "ch_view q j (s\<lparr>eprog := f\<rparr>) = ch_view q j s"
  by (simp_all add: ch_put_def ch_view_def)

subsection \<open>The invariant\<close>

text \<open>The versions of a row.\<close>

abbreviation db_foot :: "nat set \<Rightarrow> (nat \<Rightarrow> nat option) \<Rightarrow> nat \<Rightarrow> nat \<Rightarrow> nat \<Rightarrow> ch_exec \<Rightarrow> nat set" where
  "db_foot W P M0 p k s \<equiv> exec_foot W P M0 (ch_view p k s)"

definition row_executes ::
  "nat set \<Rightarrow> nat set \<Rightarrow> (nat \<Rightarrow> nat option) \<Rightarrow> nat \<Rightarrow> nat \<Rightarrow> exec_conf \<Rightarrow> bool" where
  "row_executes W R P M0 r0 x \<longleftrightarrow> (\<exists>B. exec_inv W R P B M0 r0 x \<and> (\<forall>v \<in> ran P. B v = None)) \<and> wb_lock (xw x) = 0"

text \<open>A worker's operations, in serial order, and the operations that are not finished.\<close>

definition ops_ok :: "nat set \<Rightarrow> (nat \<Rightarrow> nat set) \<Rightarrow> (nat \<Rightarrow> nat set) \<Rightarrow> nat \<Rightarrow> (nat \<times> operation) list \<Rightarrow> bool" where
  "ops_ok D W R w xs \<longleftrightarrow> sorted (map fst xs) \<and> (64 \<le> w \<longrightarrow> xs = [])
     \<and> (\<forall>(n, op) \<in> set xs. n mod 64 = w \<and> index op \<in> D \<and> (ope op = Read \<longrightarrow> n \<in> R (index op)) \<and> (ope op = Update \<longrightarrow> n \<in> W (index op)))"

definition unfinished :: "ch_exec \<Rightarrow> ope_kind \<Rightarrow> nat \<Rightarrow> nat \<Rightarrow> bool" where
  "unfinished s t k n \<longleftrightarrow> (\<exists>op. (n, op) \<in> set (eprog s (n mod 64)) \<and> ope op = t \<and> index op = k)"

definition ch_exec_inv ::
  "nat set \<Rightarrow> (nat \<Rightarrow> nat) \<Rightarrow> (nat \<Rightarrow> nat set) \<Rightarrow> (nat \<Rightarrow> nat set) \<Rightarrow> (nat \<Rightarrow> nat \<Rightarrow> nat option) \<Rightarrow> (nat \<Rightarrow> nat) \<Rightarrow> (nat \<Rightarrow> nat)
   \<Rightarrow> ch_exec \<Rightarrow> bool" where
  "ch_exec_inv D row W R P M0 r0 s \<longleftrightarrow> mem_ok (estore s)
     \<and> (\<forall>k \<in> D. row_executes (W k) (R k) (P k) (M0 k) (r0 k) (ch_view (row k) k s))
     \<and> (\<forall>k \<in> D. \<forall>l \<in> D. k \<noteq> l \<longrightarrow> db_foot (W k) (P k) (M0 k) (row k) k s \<inter> db_foot (W l) (P l) (M0 l) (row l) l s = {})
     \<and> (\<forall>v \<in> dom (vers (estore s)). \<exists>k \<in> D. v \<in> db_foot (W k) (P k) (M0 k) (row k) k s)
     \<and> (\<forall>w. ops_ok D W R w (eprog s w))
     \<and> (\<forall>k \<in> D. (\<forall>n \<in> R k. ereader s k n = RDone \<or> unfinished s Read k n) \<and> (\<forall>n \<in> W k. ewriter s k n = WDone \<or> unfinished s Update k n))"

lemma ch_exec_invD:
  assumes "ch_exec_inv D row W R P M0 r0 s"
  shows "mem_ok (estore s)" "k \<in> D \<Longrightarrow> row_executes (W k) (R k) (P k) (M0 k) (r0 k) (ch_view (row k) k s)"
    "k \<in> D \<Longrightarrow> l \<in> D \<Longrightarrow> k \<noteq> l \<Longrightarrow> db_foot (W k) (P k) (M0 k) (row k) k s \<inter> db_foot (W l) (P l) (M0 l) (row l) l s = {}"
    "v \<in> dom (vers (estore s)) \<Longrightarrow> \<exists>k \<in> D. v \<in> db_foot (W k) (P k) (M0 k) (row k) k s"
    "ops_ok D W R w (eprog s w)"
    "k \<in> D \<Longrightarrow> n \<in> R k \<Longrightarrow> ereader s k n = RDone \<or> unfinished s Read k n"
    "k \<in> D \<Longrightarrow> n \<in> W k \<Longrightarrow> ewriter s k n = WDone \<or> unfinished s Update k n"
  using assms unfolding ch_exec_inv_def by blast+

text \<open>What the read phase hands over: the pointers in the operations.\<close>

definition pointers_ok ::
  "nat set \<Rightarrow> (nat \<Rightarrow> nat) \<Rightarrow> (nat \<Rightarrow> nat set) \<Rightarrow> (nat \<Rightarrow> nat set) \<Rightarrow> (nat \<Rightarrow> nat \<Rightarrow> nat option) \<Rightarrow> (nat \<Rightarrow> nat)
   \<Rightarrow> (nat \<Rightarrow> nat \<Rightarrow> nat) \<Rightarrow> (nat \<Rightarrow> nat \<Rightarrow> nat option) \<Rightarrow> bool" where
  "pointers_ok D row W R P M0 ptr bm \<longleftrightarrow> inj_on row D \<and>
     (\<forall>k \<in> D. placed (W k) (R k) (P k) (M0 k) (ptr k) \<and> (\<forall>n \<in> R k. ptr k n \<noteq> nullptr) \<and> (\<forall>n \<in> W k \<union> R k. bm k n = Some (row k)))"

lemma pointers_okD:
  assumes "pointers_ok D row W R P M0 ptr bm"
  shows "k \<in> D \<Longrightarrow> placed (W k) (R k) (P k) (M0 k) (ptr k)" "k \<in> D \<Longrightarrow> n \<in> R k \<Longrightarrow> ptr k n \<noteq> nullptr"
    "k \<in> D \<Longrightarrow> n \<in> W k \<union> R k \<Longrightarrow> bm k n = Some (row k)" "k \<in> D \<Longrightarrow> l \<in> D \<Longrightarrow> row k = row l \<longleftrightarrow> k = l"
  using assms unfolding pointers_ok_def by (auto simp: inj_on_def)

subsection \<open>An access to a row\<close>

text \<open>What it takes of an access to a row for the others: all of it is in the versions the row owns.\<close>

definition row_moves :: "nat set \<Rightarrow> (nat \<Rightarrow> nat option) \<Rightarrow> nat \<Rightarrow> exec_conf \<Rightarrow> exec_conf \<Rightarrow> bool" where
  "row_moves W P M0 x y \<longleftrightarrow> brk (xm x) \<le> brk (xm y) \<and> wb_lock (xw y) = wb_lock (xw x)
     \<and> exec_foot W P M0 x \<subseteq> exec_foot W P M0 y \<and> exec_foot W P M0 y \<subseteq> insert (brk (xm x)) (exec_foot W P M0 x)"

lemma reader_moves: "reader_step ptr n x = Inr y \<Longrightarrow> row_moves W P M0 x y"
  using exec_foot_reader reader_step_brk(1,2) by (auto simp: row_moves_def)

lemma writer_moves:
  assumes st: "writer_step (Max W) sz n x = Inr y" and inv: "exec_inv W R P B M0 r0 x" "exec_inv W R P B M0 r0 y"
  shows "row_moves W P M0 x y"
  unfolding row_moves_def
proof (intro conjI subsetI)
  show "v \<in> exec_foot W P M0 y" if "v \<in> exec_foot W P M0 x" for v by (rule exec_foot_grows [OF st that])
  show "v \<in> insert (brk (xm x)) (exec_foot W P M0 x)" if "v \<in> exec_foot W P M0 y" for v using exec_foot_writer [OF st inv that] by blast
qed (rule writer_step_brk(1,2) [OF st])+

lemma ch_exec_access:
  assumes inv: "ch_exec_inv D row W R P M0 r0 s" and k: "k \<in> D" and inj: "inj_on row D"
    and x: "exec_inv (W k) (R k) (P k) B (M0 k) (r0 k) (ch_view (row k) k s)" "exec_inv (W k) (R k) (P k) B (M0 k) (r0 k) x"
    and B: "\<forall>v \<in> ran (P k). B v = None" and mv: "row_moves (W k) (P k) (M0 k) (ch_view (row k) k s) x"
    and s': "s' = ch_put (row k) k x (s\<lparr>eprog := f\<rparr>)" and ops: "\<And>w. ops_ok D W R w (f w)"
    and todo: "\<And>j n. j \<in> D \<Longrightarrow> n \<in> R j \<Longrightarrow> ereader s' j n = RDone \<or> unfinished s' Read j n"
      "\<And>j n. j \<in> D \<Longrightarrow> n \<in> W j \<Longrightarrow> ewriter s' j n = WDone \<or> unfinished s' Update j n"
  shows "ch_exec_inv D row W R P M0 r0 s'"
proof -
  let ?F = "\<lambda>j. db_foot (W j) (P j) (M0 j) (row j) j s" and ?F' = "\<lambda>j. db_foot (W j) (P j) (M0 j) (row j) j s'"
  have st: "estore s' = xm x" by (simp add: s' ch_put_def)
  have own: "ch_view (row k) k s' = x" by (simp add: s' ch_view_put)
  have other: "ch_view (row j) j s' = (ch_view (row j) j s)\<lparr>xm := xm x\<rparr>" if "j \<in> D" "j \<noteq> k" for j
  proof -
    have "row j \<noteq> row k" using inj k that by (auto simp: inj_on_def)
    then show ?thesis using that(2) by (simp add: s' ch_view_put_other)
  qed
  have F: "?F' j = ?F j" if "j \<in> D" "j \<noteq> k" for j unfolding other [OF that] by (simp add: exec_foot_def final_seen_def)
  have Fk: "?F k \<subseteq> ?F' k" "?F' k \<subseteq> insert (brk (estore s)) (?F k)" "brk (estore s) \<le> brk (xm x)" "wb_lock (xw x) = wb_lock (erows s (row k))"
    using mv unfolding own row_moves_def by simp_all
  have less: "v < brk (estore s)" if "j \<in> D" "v \<in> ?F j" for j v
    using ch_exec_invD(2) [OF inv that(1)] exec_inv_less [OF _ that(2)] by (auto simp: row_executes_def)
  have apart: "?F j \<inter> ?F' k = {}" if "j \<in> D" "j \<noteq> k" for j
    using ch_exec_invD(3) [OF inv that(1) k that(2)] Fk(2) less [OF that(1)] by blast
  have same: "vers (xm x) v = vers (estore s) v" if "v \<notin> ?F' k" for v
    using exec_inv_outside [OF x] that Fk(1) unfolding own by auto
  have m: "mem_ok (xm x)" by (rule mem_invD(1) [OF exec_invD(2) [OF x(2)]])
  have "row_executes (W j) (R j) (P j) (M0 j) (r0 j) (ch_view (row j) j s')" if j: "j \<in> D" for j
  proof (cases "j = k")
    case True
    have "wb_lock (xw x) = 0" using ch_exec_invD(2) [OF inv k] Fk(4) by (simp add: row_executes_def)
    then show ?thesis using x(2) B True unfolding True own row_executes_def by blast
  next
    case False
    obtain B1 where B1: "exec_inv (W j) (R j) (P j) B1 (M0 j) (r0 j) (ch_view (row j) j s)" "\<forall>v \<in> ran (P j). B1 v = None"
      "wb_lock (erows s (row j)) = 0" using ch_exec_invD(2) [OF inv j] by (auto simp: row_executes_def)
    have "vers (xm x) v = vers (xm (ch_view (row j) j s)) v" if "v \<in> ?F j" for v using same [of v] apart [OF j False] that by auto
    from exec_inv_frame [OF B1(1) m _ this] Fk(3) have
      "exec_inv (W j) (R j) (P j) (ch_rest (?F j) B1 (xm x)) (M0 j) (r0 j) (ch_view (row j) j s')" unfolding other [OF j False] by simp
    moreover have "\<forall>v \<in> ran (P j). ch_rest (?F j) B1 (xm x) v = None" using B1(2) by (simp add: ch_rest_def exec_foot_def ch_foot_def)
    moreover have "wb_lock (xw (ch_view (row j) j s')) = 0" using B1(3) unfolding other [OF j False] by simp
    ultimately show ?thesis unfolding row_executes_def by blast
  qed
  moreover have "?F' i \<inter> ?F' j = {}" if "i \<in> D" "j \<in> D" "i \<noteq> j" for i j
    using that apart [of i] apart [of j] F [of i] F [of j] ch_exec_invD(3) [OF inv that] by (cases "i = k"; cases "j = k") auto
  moreover have "\<exists>j \<in> D. v \<in> ?F' j" if v: "v \<in> dom (vers (xm x))" for v
  proof (cases "v \<in> ?F' k")
    case False
    then have "v \<in> dom (vers (estore s))" using v same by (simp add: domIff)
    then obtain j where j: "j \<in> D" "v \<in> ?F j" using ch_exec_invD(4) [OF inv] by blast
    then have "j \<noteq> k" using False Fk(1) by blast
    then show ?thesis using j F by blast
  qed (use k in blast)
  ultimately show ?thesis using m ops todo unfolding ch_exec_inv_def st by (simp add: s')
qed

subsection \<open>Every step succeeds\<close>

lemma ops_ok_Cons: "ops_ok D W R w (x # xs) \<Longrightarrow> ops_ok D W R w xs"
  by (auto simp: ops_ok_def)

lemma ops_okD:
  assumes "ops_ok D W R w xs" and "(n, op) \<in> set xs"
  shows "n mod 64 = w" "index op \<in> D" "ope op = Read \<Longrightarrow> n \<in> R (index op)" "ope op = Update \<Longrightarrow> n \<in> W (index op)" "w < 64"
  using assms by (auto simp: ops_ok_def not_le [symmetric])

text \<open>A finished operation leaves the program.\<close>

lemma unfinished_after:
  assumes "eprog s w = (n, op) # rest" and "eprog s' = (eprog s)(w := rest)"
  shows "unfinished s t k i \<Longrightarrow> unfinished s' t k i \<or> i = n \<and> t = ope op \<and> k = index op"
proof -
  assume "unfinished s t k i"
  then obtain q where q: "(i, q) \<in> set (eprog s (i mod 64))" "ope q = t" "index q = k" by (auto simp: unfinished_def)
  show ?thesis
  proof (cases "i mod 64 = w")
    case True
    then show ?thesis using q assms by (auto simp: unfinished_def)
  next
    case False
    then show ?thesis using q assms(2) by (auto simp: unfinished_def)
  qed
qed

lemma unfinished_same: "eprog s' = eprog s \<Longrightarrow> unfinished s' = unfinished s"
  by (simp add: unfinished_def fun_eq_iff)

lemma ch_exec_read:
  assumes ok: "pointers_ok D row W R P M0 ptr bm" and inv: "ch_exec_inv D row W R P M0 r0 s"
    and it: "eprog s w = (n, op) # rest" and op: "ope op = Read"
  shows "\<exists>x s'. reader_step (ptr (index op)) n (ch_view (row (index op)) (index op) s) = Inr x
    \<and> ch_exec_step sz (\<lambda>k. Max (W k)) ptr bm w s = Inr s' \<and> ch_exec_inv D row W R P M0 r0 s'
    \<and> s' = ch_put (row (index op)) (index op) x (s\<lparr>eprog := if rst x n = RDone then (eprog s)(w := rest) else eprog s\<rparr>)"
proof -
  let ?k = "index op" let ?v = "ch_view (row ?k) ?k s"
  note oD = ops_okD [OF ch_exec_invD(5) [OF inv, of w], of n op, unfolded it]
  have k: "?k \<in> D" and n: "n \<in> R ?k" and nw: "n mod 64 = w" using oD op by simp_all
  obtain B where B: "exec_inv (W ?k) (R ?k) (P ?k) B (M0 ?k) (r0 ?k) ?v" "\<forall>v \<in> ran (P ?k). B v = None"
    using ch_exec_invD(2) [OF inv k] by (auto simp: row_executes_def)
  from reader_step_ok [OF pointers_okD(1) [OF ok k] B(1) n] obtain x where
    x: "reader_step (ptr ?k) n ?v = Inr x" "exec_inv (W ?k) (R ?k) (P ?k) B (M0 ?k) (r0 ?k) x" by blast
  note rs = reader_step_brk [OF x(1)]
  let ?f = "if rst x n = RDone then (eprog s)(w := rest) else eprog s"
  let ?s = "ch_put (row ?k) ?k x (s\<lparr>eprog := ?f\<rparr>)"
  have step: "ch_exec_step sz (\<lambda>k. Max (W k)) ptr bm w s = Inr ?s"
    using it op x(1) pointers_okD(2,3) [OF ok k] n by (simp add: ch_exec_step_def Let_def)
  have pr: "eprog ?s = ?f" "ereader ?s j = (if j = ?k then rst x else ereader s j)" "ewriter ?s j = ewriter s j" for j
    using rs(3) by (simp_all add: ch_put_def)
  have un: "unfinished ?s t j i \<or> rst x n = RDone \<and> i = n \<and> t = Read \<and> j = ?k" if "unfinished s t j i" for t j i
    using unfinished_after [OF it, of ?s t j i] unfinished_same [of ?s s] pr(1) that op by (cases "rst x n = RDone") auto
  have "ch_exec_inv D row W R P M0 r0 ?s"
  proof (rule ch_exec_access [OF inv k _ B(1) x(2) B(2) reader_moves [OF x(1)] refl])
    show "inj_on row D" using ok by (simp add: pointers_ok_def)
    show "ops_ok D W R u (?f u)" for u using ch_exec_invD(5) [OF inv, of u] ops_ok_Cons [of D W R w "(n, op)" rest] it by auto
    fix j i assume j: "j \<in> D"
    show "ewriter ?s j i = WDone \<or> unfinished ?s Update j i" if "i \<in> W j"
      using ch_exec_invD(7) [OF inv j that] un pr(3) by fastforce
    show "ereader ?s j i = RDone \<or> unfinished ?s Read j i" if "i \<in> R j"
    proof (cases "unfinished s Read j i")
      case True
      then show ?thesis using un [OF True] pr(2) by auto
    next
      case False
      then have d: "ereader s j i = RDone" using ch_exec_invD(6) [OF inv j that] by blast
      have "unfinished s Read ?k n" using it nw op by (auto simp: unfinished_def)
      then have "\<not> (j = ?k \<and> i = n)" using False by blast
      then show ?thesis using d pr(2) rs(6) by auto
    qed
  qed
  with x(1) step show ?thesis by (intro exI [of _ x] exI [of _ ?s]) simp
qed

lemma ch_exec_write:
  assumes ok: "pointers_ok D row W R P M0 ptr bm" and inv: "ch_exec_inv D row W R P M0 r0 s"
    and it: "eprog s w = (n, op) # rest" and op: "ope op = Update"
  shows "\<exists>x s'. writer_step (Max (W (index op))) sz n (ch_view (row (index op)) (index op) s) = Inr x
    \<and> ch_exec_step sz (\<lambda>k. Max (W k)) ptr bm w s = Inr s' \<and> ch_exec_inv D row W R P M0 r0 s'
    \<and> s' = ch_put (row (index op)) (index op) x (s\<lparr>eprog := if wst x n = WDone then (eprog s)(w := rest) else eprog s\<rparr>)"
proof -
  let ?k = "index op" let ?v = "ch_view (row ?k) ?k s"
  note oD = ops_okD [OF ch_exec_invD(5) [OF inv, of w], of n op, unfolded it]
  have k: "?k \<in> D" and n: "n \<in> W ?k" and nw: "n mod 64 = w" using oD op by simp_all
  obtain B where B: "exec_inv (W ?k) (R ?k) (P ?k) B (M0 ?k) (r0 ?k) ?v" "\<forall>v \<in> ran (P ?k). B v = None"
    using ch_exec_invD(2) [OF inv k] by (auto simp: row_executes_def)
  from writer_step_ok [OF pointers_okD(1) [OF ok k] B(1) n, of sz] obtain x where
    x: "writer_step (Max (W ?k)) sz n ?v = Inr x" "exec_inv (W ?k) (R ?k) (P ?k) B (M0 ?k) (r0 ?k) x" by blast
  note ws = writer_step_brk [OF x(1)]
  let ?f = "if wst x n = WDone then (eprog s)(w := rest) else eprog s"
  let ?s = "ch_put (row ?k) ?k x (s\<lparr>eprog := ?f\<rparr>)"
  have step: "ch_exec_step sz (\<lambda>k. Max (W k)) ptr bm w s = Inr ?s"
    using it op x(1) pointers_okD(3) [OF ok k] n by (simp add: ch_exec_step_def Let_def)
  have pr: "eprog ?s = ?f" "ewriter ?s j = (if j = ?k then wst x else ewriter s j)" "ereader ?s j = ereader s j" for j
    using ws(3) by (simp_all add: ch_put_def)
  have un: "unfinished ?s t j i \<or> wst x n = WDone \<and> i = n \<and> t = Update \<and> j = ?k" if "unfinished s t j i" for t j i
    using unfinished_after [OF it, of ?s t j i] unfinished_same [of ?s s] pr(1) that op by (cases "wst x n = WDone") auto
  have "ch_exec_inv D row W R P M0 r0 ?s"
  proof (rule ch_exec_access [OF inv k _ B(1) x(2) B(2) writer_moves [OF x(1) B(1) x(2)] refl])
    show "inj_on row D" using ok by (simp add: pointers_ok_def)
    show "ops_ok D W R u (?f u)" for u using ch_exec_invD(5) [OF inv, of u] ops_ok_Cons [of D W R w "(n, op)" rest] it by auto
    fix j i assume j: "j \<in> D"
    show "ereader ?s j i = RDone \<or> unfinished ?s Read j i" if "i \<in> R j"
      using ch_exec_invD(6) [OF inv j that] un pr(3) by fastforce
    show "ewriter ?s j i = WDone \<or> unfinished ?s Update j i" if "i \<in> W j"
    proof (cases "unfinished s Update j i")
      case True
      then show ?thesis using un [OF True] pr(2) by auto
    next
      case False
      then have d: "ewriter s j i = WDone" using ch_exec_invD(7) [OF inv j that] by blast
      have "unfinished s Update ?k n" using it nw op by (auto simp: unfinished_def)
      then have "\<not> (j = ?k \<and> i = n)" using False by blast
      then show ?thesis using d pr(2) ws(7) by auto
    qed
  qed
  with x(1) step show ?thesis by (intro exI [of _ x] exI [of _ ?s]) simp
qed

lemma ch_exec_step_ok:
  assumes "pointers_ok D row W R P M0 ptr bm" and "ch_exec_inv D row W R P M0 r0 s"
  shows "\<exists>s'. ch_exec_step sz (\<lambda>k. Max (W k)) ptr bm w s = Inr s' \<and> ch_exec_inv D row W R P M0 r0 s'"
proof (cases "eprog s w")
  case (Cons x rest)
  then obtain n op where it: "eprog s w = (n, op) # rest" by (cases x) auto
  show ?thesis using ch_exec_read [OF assms it] ch_exec_write [OF assms it] by (cases "ope op") blast+
qed (use assms(2) in \<open>simp add: ch_exec_step_def\<close>)

lemma ch_exec_run_ok:
  assumes ok: "pointers_ok D row W R P M0 ptr bm" and "ch_exec_inv D row W R P M0 r0 s"
  shows "\<exists>s'. ch_exec_run sz (\<lambda>k. Max (W k)) ptr bm sched s = Inr s' \<and> ch_exec_inv D row W R P M0 r0 s'"
  using assms(2)
proof (induction sched arbitrary: s)
  case (Cons w sched)
  from ch_exec_step_ok [OF ok Cons.prems, of sz w] obtain s1 where
    "ch_exec_step sz (\<lambda>k. Max (W k)) ptr bm w s = Inr s1" "ch_exec_inv D row W R P M0 r0 s1" by blast
  with Cons.IH show ?case by simp
qed simp

lemma ch_exec_run_append:
  "ch_exec_run sz f ptr bm (xs @ ys) s = ebind (ch_exec_run sz f ptr bm xs s) (ch_exec_run sz f ptr bm ys)"
  by (induction xs arbitrary: s) (auto simp: ebind_def split: sum.splits)

subsection \<open>The phase can be completed\<close>

definition op_rank :: "ch_exec \<Rightarrow> nat \<times> operation \<Rightarrow> nat" where
  "op_rank s x = (case ope (snd x) of Read \<Rightarrow> rrank (ereader s (index (snd x)) (fst x))
     | Update \<Rightarrow> wrank (ewriter s (index (snd x)) (fst x)))"

definition ch_exec_work :: "ch_exec \<Rightarrow> nat \<Rightarrow> nat" where
  "ch_exec_work s w = (case eprog s w of [] \<Rightarrow> 0 | x # xs \<Rightarrow> 6 * length xs + 1 + op_rank s x)"

lemma op_rank_le: "op_rank s x \<le> 4"
proof -
  have "rrank r \<le> 4" "wrank q \<le> 4" for r q by (cases r; simp) (cases q; simp)
  then show ?thesis by (simp add: op_rank_def split: ope_kind.split)
qed

lemma ch_exec_work_step:
  assumes "eprog s w = x # rest" and "eprog s' w = rest \<or> eprog s' w = x # rest \<and> op_rank s' x < op_rank s x"
  shows "ch_exec_work s' w < ch_exec_work s w"
proof (cases rest)
  case (Cons y ys)
  then show ?thesis using assms op_rank_le [of s' y] by (auto simp: ch_exec_work_def)
qed (use assms in \<open>auto simp: ch_exec_work_def\<close>)

text \<open>A step of one worker does not change what the others have left.\<close>

lemma ch_exec_work_other:
  assumes inv: "ch_exec_inv D row W R P M0 r0 s" and u: "u \<noteq> w" and it: "eprog s w = (n, op) # rest"
    and s': "eprog s' u = eprog s u" "\<And>j i. i \<noteq> n \<Longrightarrow> ereader s' j i = ereader s j i" "\<And>j i. i \<noteq> n \<Longrightarrow> ewriter s' j i = ewriter s j i"
  shows "ch_exec_work s' u = ch_exec_work s u"
proof (cases "eprog s u")
  case (Cons x xs)
  obtain i q where x: "x = (i, q)" by fastforce
  have "n mod 64 = w" "i mod 64 = u"
    using ops_okD(1) [OF ch_exec_invD(5) [OF inv]] it Cons x by (metis list.set_intros(1))+
  then have "i \<noteq> n" using u by blast
  then have "op_rank s' x = op_rank s x" using s'(2,3) by (simp add: op_rank_def x split: ope_kind.split)
  then show ?thesis using s'(1) Cons by (simp add: ch_exec_work_def)
qed (simp add: ch_exec_work_def s'(1))

text \<open>The oldest unfinished transaction does not wait: what it reads was written by older ones.\<close>

lemma ch_exec_read_advances:
  assumes ok: "pointers_ok D row W R P M0 ptr bm" and inv: "ch_exec_inv D row W R P M0 r0 s"
    and it: "eprog s w = (n, op) # rest" and op: "ope op = Read" and nd: "ereader s (index op) n \<noteq> RDone"
    and oldest: "\<And>u i q. (i, q) \<in> set (eprog s u) \<Longrightarrow> n \<le> i"
    and x: "reader_step (ptr (index op)) n (ch_view (row (index op)) (index op) s) = Inr x"
  shows "rrank (rst x n) < rrank (ereader s (index op) n)"
proof -
  let ?k = "index op" let ?v = "ch_view (row ?k) ?k s"
  note oD = ops_okD [OF ch_exec_invD(5) [OF inv, of w], of n op, unfolded it]
  have k: "?k \<in> D" and n: "n \<in> R ?k" using oD op by simp_all
  obtain B where B: "exec_inv (W ?k) (R ?k) (P ?k) B (M0 ?k) (r0 ?k) ?v" using ch_exec_invD(2) [OF inv k] by (auto simp: row_executes_def)
  have dn: "wst ?v i = WDone" if "visible_in (W ?k) n = Some i" for i
  proof -
    have i: "i \<in> W ?k" "i < n" using that by (simp_all add: visible_in_Some)
    have "\<not> unfinished s Update ?k i"
    proof
      assume "unfinished s Update ?k i"
      then obtain q where "(i, q) \<in> set (eprog s (i mod 64))" by (auto simp: unfinished_def)
      then show False using oldest i(2) by fastforce
    qed
    then show ?thesis using ch_exec_invD(7) [OF inv k i(1)] by simp
  qed
  note ps = ptr_state [OF pointers_okD(1) [OF ok k] B n not_quiet [OF n, of ?v]]
  have nd': "rst ?v n \<noteq> RDone" using nd by simp
  obtain r where r: "stab (xm ?v) (ptr ?k n) r" using ps(1,2) nd' dn by (cases "visible_in (W ?k) n") auto
  have "wait_stable_and_execute_read (ptr ?k n) (xm ?v) \<noteq> Inr None" using wait_stab [OF ps(3) r] nd' by simp
  from reader_step_works(2) [OF x nd' this] show ?thesis by auto
qed

lemma ch_exec_advances:
  assumes ok: "pointers_ok D row W R P M0 ptr bm" and inv: "ch_exec_inv D row W R P M0 r0 s" and nd: "\<not> ch_exec_done s"
  shows "\<exists>w < 64. \<exists>s'. ch_exec_step sz (\<lambda>k. Max (W k)) ptr bm w s = Inr s' \<and> ch_exec_inv D row W R P M0 r0 s'
    \<and> ch_exec_work s' w < ch_exec_work s w \<and> (\<forall>u. u \<noteq> w \<longrightarrow> ch_exec_work s' u = ch_exec_work s u)"
proof -
  obtain v where "eprog s v \<noteq> []" using nd by (auto simp: ch_exec_done_def)
  then have "hd (eprog s v) \<in> set (eprog s v)" by simp
  then have "(fst (hd (eprog s v)), snd (hd (eprog s v))) \<in> set (eprog s v)" by simp
  then have "\<exists>i. \<exists>u q. (i, q) \<in> set (eprog s u)" by blast
  then obtain n u q where n: "(n, q) \<in> set (eprog s u)" and least: "\<And>i v p. (i, p) \<in> set (eprog s v) \<Longrightarrow> n \<le> i"
    using exists_least_iff [of "\<lambda>i. \<exists>u q. (i, q) \<in> set (eprog s u)"] by (metis not_le)
  obtain h op rest where it: "eprog s u = (h, op) # rest" using n by (cases "eprog s u") auto
  have "h \<le> n" using ch_exec_invD(5) [OF inv, of u] n it by (force simp: ops_ok_def)
  then have hn: "h = n" using least [of h op u] it by simp
  note it = it [unfolded hn]
  have w: "u < 64" using ops_okD(5) [OF ch_exec_invD(5) [OF inv] n] .
  show ?thesis
  proof (cases "ope op")
    case Read
    from ch_exec_read [OF ok inv it Read, of sz] obtain x s' where
      x: "reader_step (ptr (index op)) n (ch_view (row (index op)) (index op) s) = Inr x"
      "ch_exec_step sz (\<lambda>k. Max (W k)) ptr bm u s = Inr s'" "ch_exec_inv D row W R P M0 r0 s'"
      "s' = ch_put (row (index op)) (index op) x (s\<lparr>eprog := if rst x n = RDone then (eprog s)(u := rest) else eprog s\<rparr>)" by blast
    note rs = reader_step_brk [OF x(1)]
    have f: "eprog s' = (if rst x n = RDone then (eprog s)(u := rest) else eprog s)"
      "ereader s' j = (if j = index op then rst x else ereader s j)" "ewriter s' j = ewriter s j" for j
      using rs(3) by (simp_all add: x(4) ch_put_def)
    have "ereader s (index op) n \<noteq> RDone" if "rst x n \<noteq> RDone" using x(1) that by (auto simp: reader_step_def)
    then have "rst x n \<noteq> RDone \<Longrightarrow> op_rank s' (n, op) < op_rank s (n, op)"
      using ch_exec_read_advances [OF ok inv it Read _ least x(1)] f(2) Read by (simp add: op_rank_def)
    then have "ch_exec_work s' u < ch_exec_work s u" using it f(1) by (intro ch_exec_work_step [OF it]) auto
    moreover have "ch_exec_work s' v = ch_exec_work s v" if "v \<noteq> u" for v
      by (rule ch_exec_work_other [OF inv that it]) (use f rs(6) that in auto)
    ultimately show ?thesis using x(2,3) w by blast
  next
    case Update
    from ch_exec_write [OF ok inv it Update, of sz] obtain x s' where
      x: "writer_step (Max (W (index op))) sz n (ch_view (row (index op)) (index op) s) = Inr x"
      "ch_exec_step sz (\<lambda>k. Max (W k)) ptr bm u s = Inr s'" "ch_exec_inv D row W R P M0 r0 s'"
      "s' = ch_put (row (index op)) (index op) x (s\<lparr>eprog := if wst x n = WDone then (eprog s)(u := rest) else eprog s\<rparr>)" by blast
    note ws = writer_step_brk [OF x(1)]
    have f: "eprog s' = (if wst x n = WDone then (eprog s)(u := rest) else eprog s)"
      "ewriter s' j = (if j = index op then wst x else ewriter s j)" "ereader s' j = ereader s j" for j
      using ws(3) by (simp_all add: x(4) ch_put_def)
    have nd: "ewriter s (index op) n \<noteq> WDone" if "wst x n \<noteq> WDone" using x(1) that by (auto simp: writer_step_def)
    have "wst x n \<noteq> WDone \<Longrightarrow> op_rank s' (n, op) < op_rank s (n, op)"
      using writer_step_works(2) [OF x(1)] nd f(2) Update by (auto simp: op_rank_def)
    then have "ch_exec_work s' u < ch_exec_work s u" using it f(1) by (intro ch_exec_work_step [OF it]) auto
    moreover have "ch_exec_work s' v = ch_exec_work s v" if "v \<noteq> u" for v
      by (rule ch_exec_work_other [OF inv that it]) (use f ws(7) that in auto)
    ultimately show ?thesis using x(2,3) w by blast
  qed
qed

lemma ch_exec_can_finish:
  assumes ok: "pointers_ok D row W R P M0 ptr bm" and "ch_exec_inv D row W R P M0 r0 s"
  shows "\<exists>sched s'. ch_exec_run sz (\<lambda>k. Max (W k)) ptr bm sched s = Inr s' \<and> ch_exec_inv D row W R P M0 r0 s' \<and> ch_exec_done s'"
  using assms(2)
proof (induction "\<Sum>w < 64. ch_exec_work s w" arbitrary: s rule: less_induct)
  case less
  show ?case
  proof (cases "ch_exec_done s")
    case True
    then show ?thesis using less.prems by (intro exI [of _ "[]"] exI [of _ s]) simp
  next
    case False
    from ch_exec_advances [OF ok less.prems False, of sz] obtain w s1 where
      s1: "w < 64" "ch_exec_step sz (\<lambda>k. Max (W k)) ptr bm w s = Inr s1" "ch_exec_inv D row W R P M0 r0 s1"
      "ch_exec_work s1 w < ch_exec_work s w" "\<And>u. u \<noteq> w \<Longrightarrow> ch_exec_work s1 u = ch_exec_work s u" by blast
    have "(\<Sum>w < 64. ch_exec_work s1 w) < (\<Sum>w < 64. ch_exec_work s w)" by (rule sum_one_less [where w = w]) (use s1(1,4,5) in auto)
    from less.hyps [OF this s1(3)] obtain sched s' where
      "ch_exec_run sz (\<lambda>k. Max (W k)) ptr bm sched s1 = Inr s'" "ch_exec_inv D row W R P M0 r0 s'" "ch_exec_done s'" by blast
    then show ?thesis using s1(2) by (intro exI [of _ "w # sched"] exI [of _ s']) simp
  qed
qed

subsection \<open>Its start and its end\<close>

lemma ch_worker_program:
  assumes batch: "ch_batch txs head D"
  shows "ops_ok D (row_writers txs head) (row_readers txs head) w (worker_program txs head w)"
proof -
  have "distinct (map index (rw_set (txs ! (head + n)))) \<and> index ` set (rw_set (txs ! (head + n))) \<subseteq> D" if "n < 4096" for n
    using ch_batchD(1,3) [OF batch that] by (simp add: op_set_ok_def)
  from worker_program_ok [where ptr = "\<lambda>_ _. None", OF this] have ok: "program_ok D (\<lambda>_ _. None) (worker_program txs head)" by simp
  have "n mod 64 = w \<and> index op \<in> D \<and> (ope op = Read \<longrightarrow> n \<in> row_readers txs head (index op)) \<and> (ope op = Update \<longrightarrow> n \<in> row_writers txs head (index op))"
    if "(n, op) \<in> set (worker_program txs head w)" for n op
  proof -
    have n: "n < 4096" "n mod 64 = w" "op \<in> set (rw_set (txs ! (head + n)))" using that by (simp_all add: worker_program_set)
    have "ope op = Update \<Longrightarrow> has_write (txs ! (head + n)) (index op)" using n(3) has_write_iff [OF ch_batchD(1) [OF batch n(1)]] by blast
    moreover have "ope op = Read \<Longrightarrow> has_read (txs ! (head + n)) (index op)" using n(3) by (auto simp: has_read_def list_ex_iff)
    moreover have "index op \<in> D" using ch_batchD(3) [OF batch n(1)] n(3) by blast
    ultimately show ?thesis using n(1,2) by (simp add: row_readers_def row_writers_def)
  qed
  then show ?thesis using program_okD(1,2) [OF ok, of w] by (auto simp: ops_ok_def NUM_CORE_def)
qed

lemma ch_unfinished_start:
  assumes batch: "ch_batch txs head D" and s: "eprog s = worker_program txs head"
  shows "n \<in> row_readers txs head k \<Longrightarrow> unfinished s Read k n" "n \<in> row_writers txs head k \<Longrightarrow> unfinished s Update k n"
proof -
  show "unfinished s Read k n" if "n \<in> row_readers txs head k"
    using that by (auto simp: unfinished_def s worker_program_set row_readers_def has_read_def list_ex_iff)
  show "unfinished s Update k n" if "n \<in> row_writers txs head k"
    using that has_write_iff [OF ch_batchD(1) [OF batch]] by (force simp: unfinished_def s worker_program_set row_writers_def)
qed

lemma ch_exec_inv_start:
  assumes batch: "ch_batch txs head D" and rows: "rows_index idx row D S"
    and inv: "ch_read_inv D row (row_writers txs head) (row_readers txs head) M0 r0 r" and dn: "ch_read_done r"
  defines "P \<equiv> \<lambda>k. placeholders (hvalues (rdb r) (row k))"
  shows "pointers_ok D row (row_writers txs head) (row_readers txs head) P M0 (rpend r) (rptr r)"
    "ch_exec_inv D row (row_writers txs head) (row_readers txs head) P M0 r0 (ch_exec_start txs head (rdb r))"
proof -
  let ?W = "row_writers txs head" and ?R = "row_readers txs head" and ?s = "ch_exec_start txs head (rdb r)"
  note e = ch_read_end_state [OF inv dn]
  have pl: "placed (?W k) (?R k) (P k) (M0 k) (rpend r k)" "\<forall>n \<in> ?R k. rpend r k n \<noteq> nullptr" if "k \<in> D" for k
    using e(1) [OF that] read_invD(1) read_inv_ptr unfolding P_def by blast+
  have bm: "\<forall>n \<in> ?W k \<union> ?R k. rptr r k n = Some (row k)" if "k \<in> D" for k using e(3) [OF that] by blast
  show "pointers_ok D row ?W ?R P M0 (rpend r) (rptr r)"
    using pl bm rows_index_inj [OF rows] unfolding pointers_ok_def by blast
  have view: "ch_view (row k) k ?s = exec_start (hvalues (rdb r) (row k)) (hmem (rdb r))" for k
    by (simp add: ch_view_def ch_exec_start_def exec_start_def)
  have foot: "db_foot (?W k) (P k) (M0 k) (row k) k ?s = read_foot (M0 k) (hvalues (rdb r) (row k))" for k
    unfolding view by (simp add: exec_foot_def final_seen_def exec_start_def ch_foot_def P_def)
  have ex: "row_executes (?W k) (?R k) (P k) (M0 k) (r0 k) (ch_view (row k) k ?s)" if k: "k \<in> D" for k
  proof -
    obtain B where B: "read_inv (?W k) (?R k) B (M0 k) (r0 k) (rpend r k) (hvalues (rdb r) (row k)) (hmem (rdb r))"
      using e(1) [OF k] by blast
    from exec_inv_start [OF B] read_invD(9) [OF B] e(2) [OF k] show ?thesis
      unfolding view row_executes_def P_def by (simp add: exec_start_def) blast
  qed
  have sel: "estore ?s = hmem (rdb r)" "eprog ?s = worker_program txs head" by (simp_all add: ch_exec_start_def)
  show "ch_exec_inv D row ?W ?R P M0 r0 ?s"
    unfolding ch_exec_inv_def foot sel
    using ch_read_invD(1,4,5) [OF inv] ex ch_worker_program [OF batch] ch_unfinished_start [OF batch sel(2)] by simp
qed

text \<open>What a whole epoch leaves: every row idle, and one version for each.\<close>

definition masters :: "(nat \<Rightarrow> nat) \<Rightarrow> cheetah_db \<Rightarrow> nat \<Rightarrow> nat" where
  "masters row db k = wb_master (hvalues db (row k))"

definition cheetah_db_ready :: "(nat \<Rightarrow> nat) \<Rightarrow> nat set \<Rightarrow> (nat \<Rightarrow> nat) \<Rightarrow> cheetah_db \<times> (nat \<Rightarrow> cheetah_thread) \<Rightarrow> bool" where
  "cheetah_db_ready row D f0 st \<longleftrightarrow> mem_ok (hmem (fst st)) \<and> threads_idle (snd st)
     \<and> (\<forall>k \<in> D. row_idle (masters row (fst st) k) (hvalues (fst st) (row k)) \<and> wb_lock (hvalues (fst st) (row k)) = 0
          \<and> stab (hmem (fst st)) (masters row (fst st) k) (f0 k))
     \<and> inj_on (masters row (fst st)) D \<and> dom (vers (hmem (fst st))) = masters row (fst st) ` D"

lemma ch_row_end:
  assumes pl: "placed W R P M0 ptr" and x: "row_executes W R P M0 r0 x" and dn: "all_done W R x"
  shows "\<forall>n \<in> R. out x n = Some (must_read W r0 (wrec x) n)" "row_idle (wb_master (xw x)) (xw x)"
    "stab (xm x) (wb_master (xw x)) (next_record W (wrec x) r0)" "wb_master (xw x) \<in> exec_foot W P M0 x"
    "v \<in> exec_foot W P M0 x \<Longrightarrow> vers (xm x) v \<noteq> None \<Longrightarrow> v = wb_master (xw x)"
proof -
  obtain B where B: "exec_inv W R P B M0 r0 x" "\<And>v. v \<in> ran P \<Longrightarrow> B v = None" using x by (auto simp: row_executes_def)
  note r = done_row [OF pl B(1) dn] and st = done_store [OF pl B(1) dn B(2)]
  show "\<forall>n \<in> R. out x n = Some (must_read W r0 (wrec x) n)" by (rule r(2))
  have mst: "wb_master (xw x) = (if W = {} then M0 else fver x)" using r(1) by (simp add: row_idle_def)
  then show "row_idle (wb_master (xw x)) (xw x)" using r(1) by simp
  show "stab (xm x) (wb_master (xw x)) (next_record W (wrec x) r0)" using st(2) by (simp add: next_record_def)
  show m: "wb_master (xw x) \<in> exec_foot W P M0 x"
    using done_quiet(3) [OF pl dn] mst by (simp add: exec_foot_def ch_foot_def)
  assume v: "v \<in> exec_foot W P M0 x" "vers (xm x) v \<noteq> None"
  show "v = wb_master (xw x)"
  proof (rule ccontr)
    assume n: "v \<noteq> wb_master (xw x)"
    then have "vers (xm x) v = (if v = M0 then None else B v)" using done_store(3) [OF pl B(1) dn] B(2) by blast
    moreover have "v = M0 \<or> v \<in> ran P" using v(1) n mst done_quiet(3) [OF pl dn] by (auto simp: exec_foot_def ch_foot_def split: if_splits)
    ultimately show False using v(2) B(2) by (auto split: if_splits)
  qed
qed

lemma ch_exec_end_state:
  assumes ok: "pointers_ok D row W R P M0 ptr bm" and inv: "ch_exec_inv D row W R P M0 r0 x" and dn: "ch_exec_done x"
    and idle: "threads_idle thr"
  shows "\<forall>k \<in> D. \<forall>n \<in> R k. eread x k n = Some (must_read (W k) (r0 k) (ewritten x k) n)"
    "cheetah_db_ready row D (\<lambda>k. next_record (W k) (ewritten x k) (r0 k)) (\<lparr>hvalues = erows x, hmem = estore x\<rparr>, thr)"
proof -
  let ?db = "\<lparr>hvalues = erows x, hmem = estore x\<rparr>" let ?F = "\<lambda>k. db_foot (W k) (P k) (M0 k) (row k) k x"
  have e: "eprog x w = []" for w
    using dn ch_exec_invD(5) [OF inv, of w] by (cases "w < 64") (auto simp: ch_exec_done_def ops_ok_def NUM_CORE_def)
  have ad: "all_done (W k) (R k) (ch_view (row k) k x)" if "k \<in> D" for k
    using ch_exec_invD(6,7) [OF inv that] e by (auto simp: all_done_def unfinished_def)
  note r = ch_row_end [OF pointers_okD(1) [OF ok] ch_exec_invD(2) [OF inv] ad]
  show "\<forall>k \<in> D. \<forall>n \<in> R k. eread x k n = Some (must_read (W k) (r0 k) (ewritten x k) n)" using r(1) by simp
  have mem: "masters row ?db k \<in> ?F k" if "k \<in> D" for k using r(4) [OF that that that] by (simp add: masters_def)
  have "inj_on (masters row ?db) D"
  proof (rule inj_onI)
    fix k l assume k: "k \<in> D" and l: "l \<in> D" and "masters row ?db k = masters row ?db l"
    then show "k = l" using mem [OF k] mem [OF l] ch_exec_invD(3) [OF inv k l] by (cases "k = l") auto
  qed
  moreover have "stab (estore x) (masters row ?db k) (next_record (W k) (ewritten x k) (r0 k))" if "k \<in> D" for k
    using r(3) [OF that that that] by (simp add: masters_def)
  moreover have "dom (vers (estore x)) = masters row ?db ` D"
  proof (intro equalityI subsetI)
    fix v assume v: "v \<in> dom (vers (estore x))"
    then obtain k where k: "k \<in> D" "v \<in> ?F k" using ch_exec_invD(4) [OF inv] by blast
    then have "v = masters row ?db k" using r(5) [OF k(1) k(1) k(1) k(2)] v by (simp add: masters_def domIff)
    then show "v \<in> masters row ?db ` D" using k(1) by blast
  next
    fix v assume "v \<in> masters row ?db ` D"
    then obtain k where "k \<in> D" "v = masters row ?db k" by blast
    then show "v \<in> dom (vers (estore x))" using r(3) [of k] by (auto simp: masters_def stab_def)
  qed
  ultimately show "cheetah_db_ready row D (\<lambda>k. next_record (W k) (ewritten x k) (r0 k)) (?db, thr)"
    using ch_exec_invD(1,2) [OF inv] idle r(2) by (auto simp: cheetah_db_ready_def masters_def row_executes_def)
qed

section \<open>The epoch\<close>

text \<open>
  \<open>do_write_phase\<close>, \<open>do_read_phase\<close> and \<open>do_execution_phase\<close> of all workers with the barriers between
  them: the new database and the workers' protocol objects, and the records read and written, by key
  and serial id; \<open>None\<close> if the schedules do not bring all workers to the end of their phase.
\<close>

type_synonym cheetah_state = "cheetah_db \<times> (nat \<Rightarrow> cheetah_thread)"

definition cheetah_db_epoch ::
  "index_find \<Rightarrow> nat \<Rightarrow> operation_set list \<Rightarrow> nat list \<times> nat list \<times> nat list \<Rightarrow> nat \<Rightarrow> cheetah_state
   \<Rightarrow> (cheetah_state \<times> db_history) option res" where
  "cheetah_db_epoch idx sz txs sched e st =
     (let (ws, rs, xs) = sched; (db, thr) = st; head = head_in_the_epoch e in
      ebind (ch_write_run idx ws (ch_write_start txs head db thr)) (\<lambda>s.
        if ch_write_done s then
          ebind (ch_read_run idx rs (ch_read_start txs head (hmem db) s)) (\<lambda>r.
            if ch_read_done r then
              ebind (ch_exec_run sz (\<lambda>k. Max (row_writers txs head k)) (rpend r) (rptr r) xs (ch_exec_start txs head (rdb r))) (\<lambda>x.
                Inr (if ch_exec_done x then Some ((\<lparr>hvalues = erows x, hmem = estore x\<rparr>, rthr r), eread x, ewritten x) else None))
            else Inr None)
        else Inr None))"

lemma cheetah_db_readyD:
  assumes "cheetah_db_ready row D f0 (db, thr)"
  shows "mem_ok (hmem db)" "threads_idle thr" "k \<in> D \<Longrightarrow> row_idle (masters row db k) (hvalues db (row k)) \<and> wb_lock (hvalues db (row k)) = 0"
    "k \<in> D \<Longrightarrow> stab (hmem db) (masters row db k) (f0 k)" "inj_on (masters row db) D" "dom (vers (hmem db)) = masters row db ` D"
  using assms by (auto simp: cheetah_db_ready_def)

lemma cheetah_db_epoch_run:
  assumes batch: "ch_batch txs (head_in_the_epoch e) D" and rows: "rows_index idx row D S" and ready: "cheetah_db_ready row D f0 st"
  shows "\<exists>res. cheetah_db_epoch idx sz txs sched e st = Inr res \<and> (\<forall>st' got rc. res = Some (st', got, rc) \<longrightarrow>
    (\<forall>k \<in> D. \<forall>n \<in> readers_at txs k e. got k n = Some (must_read (writers_at txs k e) (f0 k) (rc k) n))
    \<and> cheetah_db_ready row D (\<lambda>k. next_record (writers_at txs k e) (rc k) (f0 k)) st')"
proof -
  obtain db thr ws rs xs where st: "st = (db, thr)" "sched = (ws, rs, xs)" by (metis prod.exhaust)
  let ?h = "head_in_the_epoch e" let ?W = "row_writers txs ?h" and ?M = "masters row db"
  note rd = cheetah_db_readyD [OF ready [unfolded st]]
  have start: "ch_write_inv D row ?W ?M (ch_write_start txs ?h db thr)" by (rule ch_write_inv_start [OF batch rd(2,3)])
  from ch_write_run_ok [OF rows start, of ws] obtain s where
    s: "ch_write_run idx ws (ch_write_start txs ?h db thr) = Inr s" "ch_write_inv D row ?W ?M s" by blast
  show ?thesis
  proof (cases "ch_write_done s")
    case wd: True
    note i = ch_read_inv_start [OF batch s(2) wd rd(1,4,5)]
    from ch_read_run_ok [OF rows i] rd(6) obtain r where
      r: "ch_read_run idx rs (ch_read_start txs ?h (hmem db) s) = Inr r" "ch_read_inv D row ?W (row_readers txs ?h) ?M f0 r" by blast
    show ?thesis
    proof (cases "ch_read_done r")
      case rdn: True
      note j = ch_exec_inv_start [OF batch rows r(2) rdn]
      from ch_exec_run_ok [OF j, of sz xs] obtain x where
        x: "ch_exec_run sz (\<lambda>k. Max (?W k)) (rpend r) (rptr r) xs (ch_exec_start txs ?h (rdb r)) = Inr x"
        "ch_exec_inv D row ?W (row_readers txs ?h) (\<lambda>k. placeholders (hvalues (rdb r) (row k))) ?M f0 x" by blast
      show ?thesis using s(1) wd r(1) rdn x(1) ch_exec_end_state [OF j(1) x(2) _ ch_read_end_state(4) [OF r(2) rdn]]
        by (auto simp: cheetah_db_epoch_def st Let_def)
    qed (use s(1) wd r(1) in \<open>simp add: cheetah_db_epoch_def st Let_def\<close>)
  qed (use s(1) in \<open>simp add: cheetah_db_epoch_def st Let_def\<close>)
qed

lemma cheetah_db_epoch_finish:
  assumes batch: "ch_batch txs (head_in_the_epoch e) D" and rows: "rows_index idx row D S" and ready: "cheetah_db_ready row D f0 st"
  shows "\<exists>wrest rrest xrest st' h. cheetah_db_epoch idx sz txs (ws @ wrest, rs @ rrest, xs @ xrest) e st = Inr (Some (st', h))"
proof -
  obtain db thr where st: "st = (db, thr)" by fastforce
  let ?h = "head_in_the_epoch e" let ?W = "row_writers txs ?h" and ?M = "masters row db"
  note rd = cheetah_db_readyD [OF ready [unfolded st]]
  have start: "ch_write_inv D row ?W ?M (ch_write_start txs ?h db thr)" by (rule ch_write_inv_start [OF batch rd(2,3)])
  from ch_write_run_ok [OF rows start, of ws] obtain s0 where
    s0: "ch_write_run idx ws (ch_write_start txs ?h db thr) = Inr s0" "ch_write_inv D row ?W ?M s0" by blast
  from ch_write_can_finish [OF rows s0(2)] obtain wrest s where
    s: "ch_write_run idx wrest s0 = Inr s" "ch_write_inv D row ?W ?M s" "ch_write_done s" by blast
  note i = ch_read_inv_start [OF batch s(2,3) rd(1,4,5)]
  from ch_read_run_ok [OF rows i, of rs] rd(6) obtain r0 where
    r0: "ch_read_run idx rs (ch_read_start txs ?h (hmem db) s) = Inr r0" "ch_read_inv D row ?W (row_readers txs ?h) ?M f0 r0" by blast
  from ch_read_can_finish [OF rows r0(2)] obtain rrest r where
    r: "ch_read_run idx rrest r0 = Inr r" "ch_read_inv D row ?W (row_readers txs ?h) ?M f0 r" "ch_read_done r" by blast
  note j = ch_exec_inv_start [OF batch rows r(2,3)]
  from ch_exec_run_ok [OF j, of sz xs] obtain x0 where
    x0: "ch_exec_run sz (\<lambda>k. Max (?W k)) (rpend r) (rptr r) xs (ch_exec_start txs ?h (rdb r)) = Inr x0"
    "ch_exec_inv D row ?W (row_readers txs ?h) (\<lambda>k. placeholders (hvalues (rdb r) (row k))) ?M f0 x0" by blast
  from ch_exec_can_finish [OF j(1) x0(2), of sz] obtain xrest x where
    x: "ch_exec_run sz (\<lambda>k. Max (?W k)) (rpend r) (rptr r) xrest x0 = Inr x" "ch_exec_done x" by blast
  have "cheetah_db_epoch idx sz txs (ws @ wrest, rs @ rrest, xs @ xrest) e st =
      Inr (Some ((\<lparr>hvalues = erows x, hmem = estore x\<rparr>, rthr r), eread x, ewritten x))"
    using s0(1) s(1,3) r0(1) r(1,3) x0(1) x
    by (simp add: cheetah_db_epoch_def st Let_def ch_write_run_append ch_read_run_append ch_exec_run_append)
  then show ?thesis by blast
qed

section \<open>The experiment\<close>

definition cheetah_run_ready ::
  "index_find \<Rightarrow> operation_set list \<Rightarrow> (nat \<Rightarrow> nat) \<Rightarrow> nat set \<Rightarrow> nat \<Rightarrow> (nat \<Rightarrow> nat) \<Rightarrow> cheetah_state \<Rightarrow> bool" where
  "cheetah_run_ready idx txs row D e f st \<longleftrightarrow> rows_index idx row D {}
     \<and> (\<forall>e. 1 \<le> e \<longrightarrow> e \<le> NUM_EPOCH \<longrightarrow> ch_batch txs (head_in_the_epoch e) D) \<and> 1 \<le> e \<and> cheetah_db_ready row D f st"

lemma ch_batch_readers:
  assumes "ch_batch txs head D" and "n \<in> row_readers txs head k"
  shows "k \<in> D"
  using assms ch_batchD(3) [OF assms(1)] by (fastforce simp: row_readers_def has_read_def list_ex_iff)

interpretation cheetah_database: database_protocol "cheetah_db_epoch idx sz txs" "cheetah_run_ready idx txs row D"
    "writers_at txs" "readers_at txs" "Suc NUM_EPOCH"
  for idx :: index_find and sz :: nat and txs :: "operation_set list" and row :: "nat \<Rightarrow> nat" and D :: "nat set"
proof unfold_locales
  fix e f st sc assume rd: "cheetah_run_ready idx txs row D e f st" and lim: "e < Suc NUM_EPOCH"
  then have r: "rows_index idx row D {}" "ch_batch txs (head_in_the_epoch e) D" "cheetah_db_ready row D f st"
    by (simp_all add: cheetah_run_ready_def)
  from cheetah_db_epoch_run [OF r(2,1,3), of sz sc] obtain res where res: "cheetah_db_epoch idx sz txs sc e st = Inr res"
    "\<And>st' got rc. res = Some (st', got, rc) \<Longrightarrow>
      (\<forall>k \<in> D. \<forall>n \<in> readers_at txs k e. got k n = Some (must_read (writers_at txs k e) (f k) (rc k) n))
      \<and> cheetah_db_ready row D (\<lambda>k. next_record (writers_at txs k e) (rc k) (f k)) st'" by blast
  have "(\<forall>k. \<forall>n \<in> readers_at txs k e. got k n = Some (must_read (writers_at txs k e) (f k) (rc k) n))
      \<and> cheetah_run_ready idx txs row D (Suc e) (\<lambda>k. next_record (writers_at txs k e) (rc k) (f k)) st'"
    if "res = Some (st', got, rc)" for st' got rc
    using res(2) [OF that] ch_batch_readers [OF r(2)] rd unfolding cheetah_run_ready_def by simp
  with res(1) show "\<exists>res. cheetah_db_epoch idx sz txs sc e st = Inr res \<and> (\<forall>st' got rc. res = Some (st', got, rc) \<longrightarrow>
      (\<forall>k. \<forall>n \<in> readers_at txs k e. got k n = Some (must_read (writers_at txs k e) (f k) (rc k) n))
      \<and> cheetah_run_ready idx txs row D (Suc e) (\<lambda>k. next_record (writers_at txs k e) (rc k) (f k)) st')" by blast
  from cheetah_db_epoch_finish [OF r(2,1,3), of sz "[]" "[]" "[]"]
  show "\<exists>sc st' h. cheetah_db_epoch idx sz txs sc e st = Inr (Some (st', h))" by blast
qed

section \<open>Loading\<close>

definition empty_cheetah_db :: cheetah_db where
  "empty_cheetah_db = \<lparr>hvalues = (\<lambda>_. \<lparr>ref_cnt = 0, wb_lock = 0, wb_core_bitmap = 0, tx_bitmaps = [], placeholders = Map.empty,
     wb_master = nullptr, previous_master = nullptr\<rparr>), hmem = mem_init\<rparr>"

text \<open>The protocol objects of the workers as \<open>run_tx\<close> makes them.\<close>

definition cheetah_threads :: "nat \<Rightarrow> cheetah_thread" where
  "cheetah_threads worker_id = \<lparr>hthr_core = worker_id, hthr_serial_id = worker_id, hthr_epoch = 0,
     hwrite_set = (\<lambda>_. []), hwritten_tables = {}, hbitmaps = []\<rparr>"

lemma cheetah_threads_idle: "threads_idle cheetah_threads"
  by (simp add: threads_idle_def cheetah_threads_def)

definition ch_loaded :: "nat \<Rightarrow> cheetah_db \<Rightarrow> bool" where
  "ch_loaded n db \<longleftrightarrow> mem_ok (hmem db) \<and> inj_on (masters (\<lambda>k. k) db) {..<n} \<and> dom (vers (hmem db)) = masters (\<lambda>k. k) db ` {..<n}
     \<and> (\<forall>k < n. row_idle (masters (\<lambda>k. k) db k) (hvalues db k) \<and> wb_lock (hvalues db k) = 0
          \<and> stable (hmem db) (masters (\<lambda>k. k) db k))"

lemma ch_load_ok: "ch_loaded n (ch_load_all_tables sz n empty_cheetah_db)"
proof (induction n)
  case 0
  show ?case using mem_ok_init by (simp add: ch_loaded_def empty_cheetah_db_def mem_init_def)
next
  case (Suc n)
  let ?db = "ch_load_all_tables sz n empty_cheetah_db"
  have l: "mem_ok (hmem ?db)" "inj_on (masters (\<lambda>k. k) ?db) {..<n}" "dom (vers (hmem ?db)) = masters (\<lambda>k. k) ?db ` {..<n}"
    "\<And>k. k < n \<Longrightarrow> row_idle (masters (\<lambda>k. k) ?db k) (hvalues ?db k) \<and> wb_lock (hvalues ?db k) = 0
      \<and> stable (hmem ?db) (masters (\<lambda>k. k) ?db k)" using Suc.IH by (simp_all add: ch_loaded_def)
  obtain r m1 where r: "new_record sz (hmem ?db) = (r, m1)" by fastforce
  note a = new_record_ok [OF l(1) r]
  have "ver_rec x \<noteq> r" if "vers m1 v = Some x" for v x using ver_rec_less [OF l(1), of v x] that a by auto
  moreover obtain v m2 where v: "new_version \<lparr>ver_rec = r, ver_status = STABLE, ver_deleted = False\<rparr> m1 = (v, m2)" by fastforce
  ultimately have b: "mem_ok m2" "v = brk m1" "vers m2 = (vers m1)(v \<mapsto> \<lparr>ver_rec = r, ver_status = STABLE, ver_deleted = False\<rparr>)"
    using new_stable_version_ok [OF a(1) _ _ v] a(2) by simp_all
  let ?w = "\<lparr>ref_cnt = 0, wb_lock = 0, wb_core_bitmap = 0, tx_bitmaps = [], placeholders = Map.empty, wb_master = v, previous_master = nullptr\<rparr>"
  let ?db' = "(put_wb n ?w ?db)\<lparr>hmem := m2\<rparr>"
  have load: "ch_load_all_tables sz (Suc n) empty_cheetah_db = ?db'" using r v by (simp add: ch_insert_into_index_def Let_def)
  have v0: "vers (hmem ?db) v = None" using mem_ok_fresh [OF a(1)] b(2) a(4) by simp
  have mst: "masters (\<lambda>k. k) ?db' k = (if k = n then v else masters (\<lambda>k. k) ?db k)" for k by (simp add: masters_def put_wb_def)
  have img: "masters (\<lambda>k. k) ?db' ` {..<Suc n} = insert v (masters (\<lambda>k. k) ?db ` {..<n})"
    by (auto simp: mst lessThan_Suc image_iff)
  have new: "v \<notin> masters (\<lambda>k. k) ?db ` {..<n}" using v0 l(3) by (auto simp: domIff)
  have "inj_on (masters (\<lambda>k. k) ?db') {..<Suc n}"
    using l(2) new by (auto simp: inj_on_def mst less_Suc_eq)
  moreover have "dom (vers m2) = masters (\<lambda>k. k) ?db' ` {..<Suc n}" unfolding img by (simp add: b(3) a(4) l(3))
  moreover have "row_idle (masters (\<lambda>k. k) ?db' k) (hvalues ?db' k) \<and> wb_lock (hvalues ?db' k) = 0
      \<and> stable m2 (masters (\<lambda>k. k) ?db' k)" if "k < Suc n" for k
  proof (cases "k = n")
    case True
    then show ?thesis unfolding mst by (simp add: put_wb_def row_idle_def stable_def b(3))
  next
    case False
    then have k: "k < n" using that by simp
    then have "masters (\<lambda>k. k) ?db k \<noteq> v" using new by blast
    then show ?thesis using l(4) [OF k] False unfolding mst by (simp add: put_wb_def stable_def b(3) a(4))
  qed
  ultimately show ?case unfolding load ch_loaded_def using b(1) by (simp add: put_wb_def)
qed

lemma ch_load_ready:
  obtains f where "cheetah_db_ready (\<lambda>k. k) {..<n} f (ch_load_all_tables sz n empty_cheetah_db, cheetah_threads)"
proof -
  let ?db = "ch_load_all_tables sz n empty_cheetah_db"
  note l = ch_load_ok [of n sz, unfolded ch_loaded_def]
  have "\<forall>k \<in> {..<n}. \<exists>r. stab (hmem ?db) (masters (\<lambda>k. k) ?db k) r" using l by (auto simp: stable_def stab_def)
  then obtain f where "\<forall>k \<in> {..<n}. stab (hmem ?db) (masters (\<lambda>k. k) ?db k) (f k)" by (rule bchoice [THEN exE])
  then have "cheetah_db_ready (\<lambda>k. k) {..<n} f (?db, cheetah_threads)"
    using l cheetah_threads_idle by (simp add: cheetah_db_ready_def)
  then show ?thesis by (rule that)
qed

lemma sample_ch_batch:
  assumes e: "1 \<le> e" "e \<le> NUM_EPOCH"
  shows "ch_batch sample_batches (head_in_the_epoch e) {..<2}"
  unfolding ch_batch_def
proof (intro conjI allI impI)
  have "(e - 1) * 4096 + 4096 \<le> 4096 * 1000" using e by (simp add: NUM_EPOCH_def)
  then show "head_in_the_epoch e + 4096 \<le> length sample_batches"
    by (simp add: sample_batches_def head_in_the_epoch_def NUM_TXS_IN_ONE_EPOCH_def NUM_EPOCH_def)
next
  fix n :: nat assume n: "n < 4096"
  show "op_set_ok (sample_batches ! (head_in_the_epoch e + n))"
    "index ` set (rw_set (sample_batches ! (head_in_the_epoch e + n))) \<subseteq> {..<2}"
    unfolding sample_batch_nth [OF e n] by (rule sample_tx_ok)+
  show "length (rw_set (sample_batches ! (head_in_the_epoch e + n))) \<le> 10"
    unfolding sample_batch_nth [OF e n] by (simp add: sample_tx_def)
qed

section \<open>Properties\<close>

text \<open>C4: A whole Cheetah experiment on a whole database. Take any table of idle rows with stable masters and any
  transactions as the workload makes them. For any interleaving of the 64 workers in all the phases of all the epochs,
  over all the rows at once (announcing writes and publishing them under the rows' locks, getting the versions to read,
  reading, writing, counting readers and collecting), no assertion fails, no freed version is used and none is freed
  twice. If every epoch reaches its last barrier, all reads on every key are those of the serial execution of all
  transactions of all epochs, and the store holds exactly one version for every row: everything else has been freed.\<close>

theorem cheetah_database_serial:
  assumes "rows_index idx row D {}" and "\<And>e. 1 \<le> e \<Longrightarrow> e \<le> NUM_EPOCH \<Longrightarrow> ch_batch txs (head_in_the_epoch e) D"
    and "cheetah_db_ready row D f0 (db, thr)"
  shows "\<exists>res. run_epochs (\<lambda>e. cheetah_db_epoch idx sz txs (sched e) e) 1 NUM_EPOCH (db, thr) = Inr res \<and>
    (\<forall>db' thr' hs. res = Some ((db', thr'), hs) \<longrightarrow> length hs = NUM_EPOCH
       \<and> (\<forall>k. serial_history (writers_at txs k) (readers_at txs k) 1 (f0 k) (key_history k hs))
       \<and> inj_on (masters row db') D \<and> dom (vers (hmem db')) = masters row db' ` D)"
proof -
  have "cheetah_run_ready idx txs row D 1 f0 (db, thr)" using assms by (simp add: cheetah_run_ready_def)
  from cheetah_database.db_run_serial [OF this, of NUM_EPOCH sz sched] obtain res where
    "run_epochs (\<lambda>e. cheetah_db_epoch idx sz txs (sched e) e) 1 NUM_EPOCH (db, thr) = Inr res"
    "\<And>st' hs. res = Some (st', hs) \<Longrightarrow> length hs = NUM_EPOCH
      \<and> (\<forall>k. serial_history (writers_at txs k) (readers_at txs k) 1 (f0 k) (key_history k hs))
      \<and> (\<exists>f. cheetah_run_ready idx txs row D (1 + NUM_EPOCH) f st')" by auto
  then show ?thesis by (fastforce simp: cheetah_run_ready_def dest: cheetah_db_readyD(5,6))
qed

theorem cheetah_database_serial_witness:
  "\<exists>sched db' thr' hs. run_epochs (\<lambda>e. cheetah_db_epoch sample_find 8 sample_batches (sched e) e) 1 NUM_EPOCH
       (ch_load_all_tables 8 2 empty_cheetah_db, cheetah_threads) = Inr (Some ((db', thr'), hs))
     \<and> length hs = NUM_EPOCH \<and> fst (hd hs) 0 70 = Some (snd (hd hs) 0 0) \<and> fst (hd hs) 1 70 = Some (snd (hd hs) 1 0)
     \<and> dom (vers (hmem db')) = masters (\<lambda>k. k) db' ` {..<2}"
proof -
  obtain f0 where f0: "cheetah_db_ready (\<lambda>k. k) {..<2} f0 (ch_load_all_tables 8 2 empty_cheetah_db, cheetah_threads)" by (rule ch_load_ready)
  let ?st = "(ch_load_all_tables 8 2 empty_cheetah_db, cheetah_threads)"
  have ix: "rows_index sample_find (\<lambda>k. k) {..<2} {}" using sample_rows_index by (simp add: rows_index_def)
  have "cheetah_run_ready sample_find sample_batches (\<lambda>k. k) {..<2} 1 f0 ?st"
    using ix f0 sample_ch_batch by (simp add: cheetah_run_ready_def)
  from cheetah_database.db_run_completes [OF this, of NUM_EPOCH 8] obtain sched db' thr' hs where
    r: "run_epochs (\<lambda>e. cheetah_db_epoch sample_find 8 sample_batches (sched e) e) 1 NUM_EPOCH ?st = Inr (Some ((db', thr'), hs))" by auto
  from cheetah_database_serial [OF ix sample_ch_batch f0, of 8 sched] r
  have h: "length hs = NUM_EPOCH" "dom (vers (hmem db')) = masters (\<lambda>k. k) db' ` {..<2}"
    "\<And>k. serial_history (writers_at sample_batches k) (readers_at sample_batches k) 1 (f0 k) (key_history k hs)" by auto
  have "1 \<le> (1 :: nat)" "1 \<le> NUM_EPOCH" by (simp_all add: NUM_EPOCH_def)
  note sw = sample_writers [OF this]
  obtain got rc rest where hs: "hs = (got, rc) # rest" using h(1) by (cases hs) (auto simp: NUM_EPOCH_def)
  have "got k 70 = Some (must_read {0} (f0 k) (rc k) 70)" if "k < 2" for k
    using h(3) [of k] that sw unfolding hs by (simp add: key_history_def)
  moreover have "must_read {0} x y 70 = y 0" for x :: nat and y
  proof -
    have "visible_in {0} 70 = Some 0" by (simp add: visible_in_Some)
    then show ?thesis by (simp add: must_read_def)
  qed
  ultimately have "got 0 70 = Some (rc 0 0)" "got 1 70 = Some (rc 1 0)" by simp_all
  with r h(1,2) show ?thesis unfolding hs by fastforce
qed

text \<open>C9: Nothing blocks an epoch of Cheetah on the whole database: whatever the workers have done so far in a
  phase, on whatever rows, all of them can finish it and the phases after it, though they pass by rows that are locked
  and wait for each other's versions on many rows.\<close>

theorem cheetah_database_completes:
  assumes "ch_batch txs (head_in_the_epoch e) D" and "rows_index idx row D S" and "cheetah_db_ready row D f0 st"
  shows "\<exists>wrest rrest xrest st' h. cheetah_db_epoch idx sz txs (ws @ wrest, rs @ rrest, xs @ xrest) e st = Inr (Some (st', h))"
  by (rule cheetah_db_epoch_finish [OF assms])

theorem cheetah_database_completes_witness:
  "\<exists>wrest rrest xrest st' h. cheetah_db_epoch sample_find 8 sample_batches ([0, 1, 0] @ wrest, [1] @ rrest, [6, 0] @ xrest) 1
     (ch_load_all_tables 8 2 empty_cheetah_db, cheetah_threads) = Inr (Some (st', h))"
proof -
  obtain f0 where f0: "cheetah_db_ready (\<lambda>k. k) {..<2} f0 (ch_load_all_tables 8 2 empty_cheetah_db, cheetah_threads)" by (rule ch_load_ready)
  have "ch_batch sample_batches (head_in_the_epoch 1) {..<2}" by (rule sample_ch_batch) (simp_all add: NUM_EPOCH_def)
  from cheetah_database_completes [OF this sample_rows_index f0, of 8 "[0, 1, 0]" "[1]" "[6, 0]"] show ?thesis .
qed

end
