(* ===== verification/Main_Program.thy ===== *)
theory Main_Program
  imports Database_Print Operation_Sets Caracal_Database Cheetah_Database
begin

text \<open>
  \<open>main\<close> of the three executables up to the start of the threads: the command line, the
  configuration, the loaded tables and the transactions of the whole run. The skew is text that
  \<open>std::stod\<close> turns into a floating-point number; the number and the distribution \<open>zipf_int\<close>
  makes of it are parameters.
\<close>

section \<open>The command line\<close>

text \<open>How \<open>main\<close> may end early: \<open>exit\<close>, an exception of the standard library, or an error of the program.\<close>

datatype main_error = Exit nat | Bad_number stoi_error | Length_error | Failed cxx_error

definition mbind :: "'e + 'a \<Rightarrow> ('a \<Rightarrow> 'e + 'b) \<Rightarrow> 'e + 'b" where
  "mbind r f = (case r of Inl e \<Rightarrow> Inl e | Inr x \<Rightarrow> f x)"

lemma mbind_simps [simp]: "mbind (Inl e) f = Inl e" "mbind (Inr x) f = f x"
  by (simp_all add: mbind_def)

lemma mbind_Inr: "mbind r f = Inr y \<longleftrightarrow> (\<exists>x. r = Inr x \<and> f x = Inr y)"
  by (cases r) simp_all

definition failing :: "'a res \<Rightarrow> main_error + 'a" where
  "failing r = map_sum Failed id r"

lemma failing_simps [simp]: "failing (Inl e) = Inl (Failed e)" "failing (Inr x) = Inr x" "failing r = Inr x \<longleftrightarrow> r = Inr x"
  by (cases r, simp_all add: failing_def)+

definition int_arg :: "string list \<Rightarrow> nat \<Rightarrow> main_error + int" where
  "int_arg argv i = map_sum Bad_number id (stoi (argv ! i))"

text \<open>A conversion from \<open>int\<close> to \<open>uint64_t\<close> or \<open>size_t\<close>.\<close>

definition to_u64 :: "int \<Rightarrow> nat" where
  "to_u64 i = unat (word_of_int i :: u64)"

record 'd settings =
  config :: ycsb_config
  skew :: 'd
  thread_count :: int

definition main_config :: "(string \<Rightarrow> main_error + 'd) \<Rightarrow> string list \<Rightarrow> main_error + 'd settings" where
  "main_config stod argv =
     (if length argv \<noteq> 9 then Inl (Exit 1)
      else mbind (int_arg argv 1) (\<lambda>seconds.
        let protocol = argv ! 2; workload_type = argv ! 3 in
        mbind (int_arg argv 4) (\<lambda>records. mbind (int_arg argv 5) (\<lambda>threads. mbind (stod (argv ! 6)) (\<lambda>sk.
        mbind (int_arg argv 7) (\<lambda>reps. mbind (int_arg argv 8) (\<lambda>exp_id.
          if \<not> 0 < seconds then Inl (Failed AssertFailed)
          else mbind (failing (set_workload_type workload_type (ycsb_config_init\<lparr>protocol_name := protocol\<rparr>))) (\<lambda>c.
            mbind (failing (set_reps_per_txn (to_u64 reps) (c\<lparr>num_records := to_u64 records, num_threads := to_u64 threads\<rparr>))) (\<lambda>c.
              Inr \<lparr>config = c, skew = sk, thread_count = threads\<rparr>)))))))))"

section \<open>Tables and transactions\<close>

definition NUM_ALL_TXS :: nat where
  "NUM_ALL_TXS = NUM_TXS_IN_ONE_EPOCH * NUM_EPOCH"

text \<open>The constructor of the vector of operation sets; \<open>None\<close> if one of them does not return.\<close>

fun construct_all :: "(xoshiro \<Rightarrow> ('s \<times> xoshiro) option res) \<Rightarrow> nat \<Rightarrow> xoshiro \<Rightarrow> 's list option res" where
  "construct_all ctor 0 rng = Inr (Some [])"
| "construct_all ctor (Suc n) rng =
     ebind (ctor rng) (\<lambda>r. case r of None \<Rightarrow> Inr None
       | Some (tx, rng1) \<Rightarrow> ebind (construct_all ctor n rng1) (\<lambda>r1. Inr (map_option (\<lambda>txs. tx # txs) r1)))"

text \<open>
  What is printed before the tables are loaded. The line that the loader prints after it, with the NUMA
  node that the operating system reports, is left out.
\<close>

definition loading_text :: "ycsb_config \<Rightarrow> nat \<Rightarrow> printed list" where
  "loading_text c payload_size =
     [Str ''Loading all tables with '', Num (int (num_records c)), Str '' record(s) each with '', Num (int payload_size),
      Str '' bytes'', Endl]"

text \<open>
  The tables, the threads' vector, which is reserved before the threads start, and the transactions.
  The result is what the threads get, and what has been printed.
\<close>

definition start_threads ::
  "'d settings \<Rightarrow> nat \<Rightarrow> (ycsb_config \<Rightarrow> 'db res) \<Rightarrow> (ycsb_config \<Rightarrow> xoshiro \<Rightarrow> ('s \<times> xoshiro) option res) \<Rightarrow> xoshiro
   \<Rightarrow> main_error + ('db \<times> 's list \<times> printed list) option" where
  "start_threads s payload_size load ctor rng =
     mbind (failing (load (config s))) (\<lambda>db.
       if thread_count s < 0 then Inl Length_error
       else mbind (failing (construct_all (ctor (config s)) NUM_ALL_TXS rng)) (\<lambda>r.
         Inr (map_option (\<lambda>txs. (db, txs, loading_text (config s) payload_size @ [Str ''Loaded'', Endl])) r)))"

definition first_transaction_text :: "operation_set list \<Rightarrow> printed list" where
  "first_transaction_text txs = concat (map (\<lambda>p. [Num (int (index p)), Endl]) (rw_set (txs ! 0)))"

text \<open>
  The distribution depends on the skew and the number of records. It is a total function: the assertions
  of \<open>FastZipf\<close> that the skew is in \<open>[0, 1)\<close>, on the floating-point number, are taken to hold.
\<close>

type_synonym 'd zipf = "'d \<Rightarrow> nat \<Rightarrow> u64 \<Rightarrow> nat"

definition serval_main ::
  "(string \<Rightarrow> main_error + 'd) \<Rightarrow> 'd zipf \<Rightarrow> nat \<Rightarrow> string list \<Rightarrow> xoshiro
   \<Rightarrow> main_error + (ycsb_config \<times> serval_db \<times> operation_set list \<times> printed list) option" where
  "serval_main stod zipf payload_size argv rng =
     mbind (main_config stod argv) (\<lambda>s.
       mbind (start_threads s payload_size (\<lambda>c. serval_load_all_tables payload_size (num_records c) empty_db)
           (\<lambda>c. make_operation_set (zipf (skew s) (num_records c)) c) rng) (\<lambda>r.
         Inr (map_option (\<lambda>(db, txs, os). (config s, db, txs, os @ first_transaction_text txs)) r)))"

definition caracal_main ::
  "(string \<Rightarrow> main_error + 'd) \<Rightarrow> 'd zipf \<Rightarrow> nat \<Rightarrow> string list \<Rightarrow> xoshiro
   \<Rightarrow> main_error + (ycsb_config \<times> caracal_db \<times> operation_set list \<times> printed list) option" where
  "caracal_main stod zipf payload_size argv rng =
     mbind (main_config stod argv) (\<lambda>s.
       mbind (start_threads s payload_size
           (\<lambda>c. car_load_all_tables payload_size (num_records c) empty_caracal_db)
           (\<lambda>c. caracal_operation_set (zipf (skew s) (num_records c)) c) rng) (\<lambda>r.
         Inr (map_option (\<lambda>(db, txs, os). (config s, db, txs, os @ first_transaction_text txs)) r)))"

text \<open>Cheetah's \<open>main\<close> prints another line instead of the first transaction.\<close>

definition cheetah_main ::
  "(string \<Rightarrow> main_error + 'd) \<Rightarrow> 'd zipf \<Rightarrow> nat \<Rightarrow> string list \<Rightarrow> xoshiro
   \<Rightarrow> main_error + (ycsb_config \<times> cheetah_db \<times> ch_operation_set list \<times> printed list) option" where
  "cheetah_main stod zipf payload_size argv rng =
     mbind (main_config stod argv) (\<lambda>s.
       mbind (start_threads s payload_size
           (\<lambda>c. Inr (ch_load_all_tables payload_size (num_records c) empty_cheetah_db))
           (\<lambda>c. cheetah_operation_set (zipf (skew s) (num_records c)) c) rng) (\<lambda>r.
         Inr (map_option (\<lambda>(db, txs, os). (config s, db, txs, os @ [Str ''start...'', Endl])) r)))"

section \<open>What the command line does\<close>

lemma to_u64_nonneg: "0 \<le> i \<Longrightarrow> i < 2 ^ 64 \<Longrightarrow> to_u64 i = nat i"
  by (simp add: to_u64_def unat_eq_nat_uint uint_word_of_int take_bit_int_eq_self)

lemma to_u64_neg: "- (2 ^ 64) \<le> i \<Longrightarrow> i < 0 \<Longrightarrow> to_u64 i = nat (2 ^ 64 + i)"
proof -
  assume i: "- (2 ^ 64) \<le> i" "i < 0"
  have "i mod 2 ^ 64 = (i + 2 ^ 64) mod 2 ^ 64" by simp
  also have "\<dots> = i + 2 ^ 64" using i by (intro mod_pos_pos_trivial) simp_all
  finally show ?thesis by (simp add: to_u64_def unat_eq_nat_uint uint_word_of_int take_bit_eq_mod add.commute)
qed

text \<open>The shares of reads, updates and read-modify-writes of the workload types.\<close>

definition workload_shares :: "string \<Rightarrow> (int \<times> int \<times> int) option" where
  "workload_shares t = map_of [(''A'', 50, 50, 0), (''B'', 95, 5, 0), (''C'', 100, 0, 0), (''F'', 50, 0, 50),
     (''X'', 0, 100, 0), (''W90'', 10, 90, 0), (''W80'', 20, 80, 0)] t"

lemma set_workload_type_shares:
  "set_workload_type t c =
     (case workload_shares t of None \<Rightarrow> Inl (RuntimeError ''unknown workload'')
      | Some (r, u, m) \<Rightarrow> Inr (c\<lparr>read_propotion := r, update_propotion := u, readmodifywrite_propotion := m\<rparr>))"
  by (simp add: set_workload_type_def workload_shares_def set_workload_def)

text \<open>
  \<open>main\<close> on well-formed numbers: which command lines it accepts, with which error it refuses the
  others, and the configuration. A negative number of repetitions is refused as a too large one; a
  negative number of records is accepted as a huge one.
\<close>

lemma main_config_decimal:
  assumes "\<And>i. i \<in> {seconds, records, threads, reps, exp_id} \<Longrightarrow> - (2 ^ 31) \<le> i \<and> i < 2 ^ 31" and "stod skew_text = Inr sk"
  shows "main_config stod [prog, decimal_int seconds, protocol, wt, decimal_int records, decimal_int threads, skew_text,
      decimal_int reps, decimal_int exp_id] =
    (if seconds \<le> 0 then Inl (Failed AssertFailed)
     else case workload_shares wt of None \<Rightarrow> Inl (Failed (RuntimeError ''unknown workload''))
       | Some (r, u, m) \<Rightarrow>
           if reps < 0 \<or> 1000 < reps then Inl (Failed (RuntimeError ''invalid reps per txn''))
           else Inr \<lparr>config = \<lparr>read_propotion = r, update_propotion = u, readmodifywrite_propotion = m,
               num_records = (if records < 0 then nat (2 ^ 64 + records) else nat records), num_threads = to_u64 threads,
               reps_per_txn = nat reps, does_random_abort = False, protocol_name = protocol\<rparr>, skew = sk, thread_count = threads\<rparr>)"
proof -
  let ?argv = "[prog, decimal_int seconds, protocol, wt, decimal_int records, decimal_int threads, skew_text, decimal_int reps, decimal_int exp_id]"
  have arg: "map_sum Bad_number id (stoi (decimal_int i)) = (Inr i :: main_error + int)" if "i \<in> {seconds, records, threads, reps, exp_id}" for i
    using stoi_decimal_int assms(1) [OF that] by simp
  have args: "int_arg ?argv 1 = Inr seconds" "int_arg ?argv 4 = Inr records" "int_arg ?argv 5 = Inr threads" "int_arg ?argv 7 = Inr reps"
    "int_arg ?argv 8 = Inr exp_id" "stod (?argv ! 6) = Inr sk" "?argv ! 2 = protocol" "?argv ! 3 = wt" "length ?argv = 9"
    by (simp_all add: int_arg_def arg assms(2))
  have u: "to_u64 i = (if i < 0 then nat (2 ^ 64 + i) else nat i)" if "i \<in> {seconds, records, threads, reps, exp_id}" for i
    using assms(1) [OF that] to_u64_nonneg [of i] to_u64_neg [of i] by (cases "i < 0") auto
  have rec: "to_u64 records = (if records < 0 then nat (2 ^ 64 + records) else nat records)" by (rule u) simp
  have "to_u64 reps = (if reps < 0 then nat (2 ^ 64 + reps) else nat reps)" by (rule u) simp
  moreover have "- (2 ^ 31) \<le> reps" using assms(1) [of reps] by blast
  ultimately have rep: "get_max_reps_per_txn < to_u64 reps \<longleftrightarrow> reps < 0 \<or> 1000 < reps" "\<not> reps < 0 \<Longrightarrow> to_u64 reps = nat reps"
    by (auto simp: get_max_reps_per_txn_def)
  show ?thesis
  proof (cases "workload_shares wt")
    case None
    then show ?thesis unfolding main_config_def Let_def args mbind_simps set_workload_type_shares by simp
  next
    case (Some t)
    obtain r u m where t: "t = (r, u, m)" by (metis prod_cases3)
    show ?thesis
      unfolding main_config_def Let_def args mbind_simps set_workload_type_shares Some t
      by (simp add: set_reps_per_txn_def ycsb_config_init_def rec rep(1)) (simp add: rep(2))
  qed
qed

lemma main_config_argc: "length argv \<noteq> 9 \<Longrightarrow> main_config stod argv = Inl (Exit 1)"
  by (simp add: main_config_def)

section \<open>What the threads get\<close>

lemma construct_all_ok:
  assumes "construct_all ctor n rng = Inr (Some txs)" and "\<And>rng tx rng'. ctor rng = Inr (Some (tx, rng')) \<Longrightarrow> P tx"
  shows "length txs = n \<and> (\<forall>tx \<in> set txs. P tx)"
  using assms(1)
proof (induction n arbitrary: rng txs)
  case (Suc n)
  obtain tx rng1 txs1 where "ctor rng = Inr (Some (tx, rng1))" "construct_all ctor n rng1 = Inr (Some txs1)" "txs = tx # txs1"
    using Suc.prems by (auto simp: ebind_eq_Inr split: option.splits)
  then show ?case using Suc.IH assms(2) by auto
qed simp

lemma construct_all_returns:
  assumes "0 \<le> read_propotion c" and "10 \<le> card ((\<lambda>x. zipf x mod 77) ` draws rng)"
  shows "\<exists>txs. construct_all (make_operation_set zipf c) n rng = Inr (Some txs)"
  using assms(2)
proof (induction n arbitrary: rng)
  case (Suc n)
  obtain os k where os: "make_operation_set zipf c rng = Inr (Some (os, (xo_state_step ^^ k) rng))"
    using make_operation_set_returns [OF assms(1) Suc.prems] by blast
  have "10 \<le> card ((\<lambda>x. zipf x mod 77) ` draws ((xo_state_step ^^ k) rng))" using Suc.prems by (simp add: draws_cycle)
  from Suc.IH [OF this] os show ?case by auto
qed simp

lemma serval_main_Inr:
  assumes "serval_main stod zipf sz argv rng = Inr (Some (c, db, txs, os))"
  obtains s where "main_config stod argv = Inr s" "c = config s" "serval_load_all_tables sz (num_records c) empty_db = Inr db"
    "construct_all (make_operation_set (zipf (skew s) (num_records c)) c) NUM_ALL_TXS rng = Inr (Some txs)"
  using assms that by (auto simp: serval_main_def start_threads_def mbind_Inr split: if_splits)

text \<open>Seven different records out of 77: a short table has at most six of them.\<close>

lemma missing_record:
  assumes "op_set_ok tx" and "length (rw_set tx) = 10" and "\<And>p. p \<in> set (drop 3 (rw_set tx)) \<Longrightarrow> \<exists>i < 77. index p = 131072 * i"
    and "n \<le> 131072 * 6"
  shows "\<exists>p \<in> set (rw_set tx). n \<le> index p"
proof (rule ccontr)
  assume "\<not> (\<exists>p \<in> set (rw_set tx). n \<le> index p)"
  then have less: "index p < n" if "p \<in> set (rw_set tx)" for p using that by (simp add: not_le)
  have "index ` set (drop 3 (rw_set tx)) \<subseteq> (\<lambda>i. 131072 * i) ` {..<6}"
  proof
    fix k assume "k \<in> index ` set (drop 3 (rw_set tx))"
    then obtain p where p: "p \<in> set (drop 3 (rw_set tx))" "k = index p" by blast
    then obtain i where i: "index p = 131072 * i" using assms(3) by blast
    have "131072 * i < 131072 * (6 :: nat)" using less [OF in_set_dropD [OF p(1)]] assms(4) i by simp
    then show "k \<in> (\<lambda>i. 131072 * i) ` {..<6}" using p(2) i by simp
  qed
  then have "card (index ` set (drop 3 (rw_set tx))) \<le> card ((\<lambda>i :: nat. 131072 * i) ` {..<6})" by (intro card_mono) simp_all
  also have "\<dots> \<le> 6" using card_image_le [of "{..<6 :: nat}" "\<lambda>i. 131072 * i"] by simp
  finally have "card (set (map index (drop 3 (rw_set tx)))) \<le> 6" by simp
  moreover have "distinct (map index (drop 3 (rw_set tx)))"
    using assms(1) unfolding drop_map [symmetric] by (intro distinct_drop) (simp add: op_set_ok_def)
  ultimately show False using assms(2) distinct_card [of "map index (drop 3 (rw_set tx))"] by simp
qed

section \<open>A sample for the witnesses\<close>

definition sample_argv :: "int \<Rightarrow> string list" where
  "sample_argv records = [''ycsb_serval'', decimal_int 10, ''serval'', ''A'', decimal_int records, decimal_int 64, ''0'', decimal_int 10,
     decimal_int 1]"

definition sample_zipf :: "unit zipf" where
  "sample_zipf sk n x = unat (x mod 77)"

lemma sample_main:
  assumes "0 \<le> records" and "records < 2 ^ 31"
  obtains c db txs os where "serval_main (\<lambda>_. Inr ()) sample_zipf 8 (sample_argv records) sample_rng = Inr (Some (c, db, txs, os))"
    "num_records c = nat records"
proof -
  let ?c = "\<lparr>read_propotion = 50, update_propotion = 50, readmodifywrite_propotion = 0, num_records = nat records,
      num_threads = to_u64 64, reps_per_txn = 10, does_random_abort = False, protocol_name = ''serval''\<rparr>"
  have range: "- (2 ^ 31) \<le> i \<and> i < 2 ^ 31" if "i \<in> {10, records, 64, 10, 1}" for i :: int using that assms by auto
  have shares: "workload_shares ''A'' = Some (50, 50, 0)" by (simp add: workload_shares_def)
  have cfg: "main_config (\<lambda>_. Inr ()) (sample_argv records) = Inr \<lparr>config = ?c, skew = (), thread_count = 64\<rparr>"
    using assms(1) unfolding sample_argv_def by (subst main_config_decimal [OF range]) (simp_all add: shares)
  obtain db where db: "serval_load_all_tables 8 (nat records) empty_db = Inr db" using load_ok by blast
  have "10 \<le> card ((\<lambda>x. sample_zipf () (nat records) x mod 77) ` draws sample_rng)"
    using sample_draws by (simp add: sample_zipf_def)
  then obtain txs where txs: "construct_all (make_operation_set (sample_zipf () (nat records)) ?c) NUM_ALL_TXS sample_rng = Inr (Some txs)"
    using construct_all_returns [of ?c "sample_zipf () (nat records)" sample_rng NUM_ALL_TXS] by fastforce
  show ?thesis
  proof (rule that)
    show "serval_main (\<lambda>_. Inr ()) sample_zipf 8 (sample_argv records) sample_rng =
        Inr (Some (?c, db, txs, (loading_text ?c 8 @ [Str ''Loaded'', Endl]) @ first_transaction_text txs))"
      using cfg db txs by (simp add: serval_main_def start_threads_def)
  qed simp
qed

section \<open>Properties\<close>

text \<open>C22: What Serval's \<open>main\<close> hands to its threads, whatever the command line and the random numbers are: \<open>NUM_ALL_TXS\<close>
  transactions with ten operations on ten different records each and a write set that points at the updates, and a table
  of as many well-formed rows as the command line says, ready for the first epoch. If the table is larger than the last of
  the 77 contended records and the distribution draws from the table, all operations are on records of the table.\<close>

theorem serval_main_sets_up:
  assumes "serval_main stod zipf sz argv rng = Inr (Some (c, db, txs, os))"
  shows "length txs = NUM_ALL_TXS \<and> (\<forall>tx \<in> set txs. op_set_ok tx \<and> length (rw_set tx) = 10)
    \<and> (\<exists>m0 f0. serval_db_ready 1 (\<lambda>k. k) {..<num_records c} {} m0 f0 db)
    \<and> (131072 * 76 < num_records c \<longrightarrow> (\<forall>sk r. zipf sk (num_records c) r < num_records c) \<longrightarrow>
        (\<forall>tx \<in> set txs. index ` set (rw_set tx) \<subseteq> {..<num_records c}))"
proof -
  obtain s :: "_ settings" where s: "c = config s" "serval_load_all_tables sz (num_records c) empty_db = Inr db"
    "construct_all (make_operation_set (zipf (skew s) (num_records c)) c) NUM_ALL_TXS rng = Inr (Some txs)"
    by (rule serval_main_Inr [OF assms]) blast
  let ?z = "zipf (skew s) (num_records c)"
  have "length txs = NUM_ALL_TXS \<and> (\<forall>tx \<in> set txs. op_set_ok tx \<and> length (rw_set tx) = 10
      \<and> (131072 * 76 < num_records c \<longrightarrow> (\<forall>r. ?z r < num_records c) \<longrightarrow> index ` set (rw_set tx) \<subseteq> {..<num_records c}))"
  proof (rule construct_all_ok [OF s(3)])
    fix rng tx rng' assume ctor: "make_operation_set ?z c rng = Inr (Some (tx, rng'))"
    note ok = make_operation_set_ok [OF ctor]
    have "index p < num_records c" if big: "131072 * 76 < num_records c" and z: "\<forall>r. ?z r < num_records c" and p: "p \<in> set (rw_set tx)" for p
    proof (cases "p \<in> set (take 3 (rw_set tx))")
      case True
      then obtain r where "index p = ?z r" using ok(3) by blast
      then show ?thesis using z by simp
    next
      case False
      then have "p \<in> set (drop 3 (rw_set tx))" using p by (metis UnE append_take_drop_id set_append)
      then obtain i where "i < 77" "index p = 131072 * i" using ok(4) by blast
      then show ?thesis using big by simp
    qed
    then show "op_set_ok tx \<and> length (rw_set tx) = 10
        \<and> (131072 * 76 < num_records c \<longrightarrow> (\<forall>r. ?z r < num_records c) \<longrightarrow> index ` set (rw_set tx) \<subseteq> {..<num_records c})"
      using ok(1,2) by auto
  qed
  moreover obtain m0 f0 where "serval_db_ready 1 (\<lambda>k. k) {..<num_records c} {} m0 f0 db"
    using load_ready [of "{}" "num_records c" sz] s(2) by auto
  ultimately show ?thesis by blast
qed

theorem serval_main_sets_up_witness:
  "\<exists>c db txs os. serval_main (\<lambda>_. Inr ()) sample_zipf 8 (sample_argv 10000000) sample_rng = Inr (Some (c, db, txs, os))
     \<and> length txs = NUM_ALL_TXS \<and> num_records c = 10000000"
proof -
  obtain c db txs os where m: "serval_main (\<lambda>_. Inr ()) sample_zipf 8 (sample_argv 10000000) sample_rng = Inr (Some (c, db, txs, os))"
    "num_records c = nat 10000000" by (rule sample_main [of 10000000]) simp_all
  with serval_main_sets_up [OF m(1)] show ?thesis by auto
qed

text \<open>C23: The number of records on the command line is not checked against the fixed positions of the contended records:
  with 786432 records or fewer, every transaction of the run has an operation on a record that is not in the table, and
  executing that operation fails, whether it is an update in the initialization phase or a read.\<close>

theorem small_table_fails:
  assumes "serval_main stod zipf sz argv rng = Inr (Some (c, db, txs, os))" and "num_records c \<le> 131072 * 6"
    and "\<And>k. num_records c \<le> k \<Longrightarrow> idx record_table k = None" and "i < NUM_ALL_TXS"
  shows "\<exists>op \<in> set (rw_set (txs ! i)). num_records c \<le> index op
    \<and> (\<forall>t d. serval_read idx record_table (index op) t d = Inl not_found)
    \<and> (\<forall>t d p. index op \<in> set (write_set t record_table) \<or>
         append_pending_version idx record_table (index op) p t d = Inl not_found)"
proof -
  obtain s :: "_ settings" where s: "c = config s"
    "construct_all (make_operation_set (zipf (skew s) (num_records c)) c) NUM_ALL_TXS rng = Inr (Some txs)"
    by (rule serval_main_Inr [OF assms(1)]) blast
  have "length txs = NUM_ALL_TXS \<and> (\<forall>tx \<in> set txs. \<exists>p \<in> set (rw_set tx). num_records c \<le> index p)"
    by (rule construct_all_ok [OF s(2)]) (rule missing_record [OF make_operation_set_ok(1,2,4) assms(2)])
  moreover from this have "txs ! i \<in> set txs" using assms(4) by simp
  ultimately obtain op where op: "op \<in> set (rw_set (txs ! i))" "num_records c \<le> index op" by blast
  have none: "idx record_table (index op) = None" by (rule assms(3) [OF op(2)])
  have "serval_read idx record_table (index op) t d = Inl not_found" for t d by (simp add: serval_read_def none)
  moreover have "index op \<in> set (write_set t record_table) \<or> append_pending_version idx record_table (index op) p t d = Inl not_found" for t d p
    by (cases "index op \<in> set (write_set t record_table)") (simp_all add: append_pending_version_def Let_def none)
  ultimately show ?thesis using op by blast
qed

theorem small_table_fails_witness:
  "\<exists>c db txs os. serval_main (\<lambda>_. Inr ()) sample_zipf 8 (sample_argv 1000) sample_rng = Inr (Some (c, db, txs, os))
     \<and> (\<exists>op \<in> set (rw_set (txs ! 5)). 1000 \<le> index op)"
proof -
  obtain c db txs os where m: "serval_main (\<lambda>_. Inr ()) sample_zipf 8 (sample_argv 1000) sample_rng = Inr (Some (c, db, txs, os))"
    "num_records c = nat 1000" by (rule sample_main [of 1000]) simp_all
  have "5 < NUM_ALL_TXS" by (simp add: NUM_ALL_TXS_def NUM_TXS_IN_ONE_EPOCH_def NUM_EPOCH_def)
  then have "\<exists>op \<in> set (rw_set (txs ! 5)). num_records c \<le> index op"
    using small_table_fails [OF m(1), of "\<lambda>_ k. if k < num_records c then Some k else None" 5] m(2) by auto
  with m show ?thesis by auto
qed

end
