(* ===== verification/Prototypes.thy ===== *)
theory Prototypes
  imports Version_Array Printed "HOL-Library.Word"
begin

text \<open>
  The experiments of tony_test that the containers of the protocols grew out of: the first buffer
  and global array of Caracal (caracal_buffer.cpp) and the operations on 64-bit masks
  (find_latest_pos.cpp, mask_clear.cpp, shift_bit.cpp, atomic_or_fetch.cpp, bit_builtin.cpp).
\<close>

section \<open>caracal_buffer.cpp\<close>

text \<open>Pairs of a transaction id and a version, which is a number here.\<close>

type_synonym proto_slots = "(u64 \<times> u64) list"

definition proto_buffer_init :: proto_slots where
  "proto_buffer_init = [(1, 0)]"

definition proto_array_init :: proto_slots where
  "proto_array_init = [(0, 0)]"

text \<open>What \<open>appendable\<close> returns, the buffer, and what is printed; the code after its first return is dead.\<close>

definition proto_appendable :: "u64 \<Rightarrow> u64 \<Rightarrow> proto_slots \<Rightarrow> bool \<times> proto_slots \<times> printed list" where
  "proto_appendable version tx_id b =
     (let b' = insert_ascending tx_id version b
      in (True, b', if length b' < 4 then [Str ''buffer is appendable'', Endl] else []))"

definition proto_append :: "u64 \<Rightarrow> u64 \<Rightarrow> proto_slots \<Rightarrow> proto_slots" where
  "proto_append version tx_id xs = insert_ascending tx_id version xs"

text \<open>The array and the buffer after it.\<close>

definition proto_batch_append :: "proto_slots \<Rightarrow> proto_slots \<Rightarrow> proto_slots \<times> proto_slots" where
  "proto_batch_append buffer xs = (fold (\<lambda>p ys. proto_append (snd p) (fst p) ys) buffer xs, [])"

definition proto_is_exist :: "u64 \<Rightarrow> proto_slots \<Rightarrow> bool" where
  "proto_is_exist tx xs \<longleftrightarrow> find (\<lambda>p. fst p = tx) xs \<noteq> None"

definition proto_search_visible_version :: "u64 \<Rightarrow> proto_slots \<Rightarrow> u64 \<times> u64" where
  "proto_search_visible_version tx_id xs =
     (if xs = [] \<or> tx_id \<le> fst (hd xs) then (0, 0) else xs ! (upper_bound (\<lambda>p. tx_id < fst p) xs - 1))"

definition proto_is_empty :: "proto_slots \<Rightarrow> bool" where
  "proto_is_empty xs \<longleftrightarrow> xs = []"

definition proto_latest :: "proto_slots \<Rightarrow> u64 \<times> u64" where
  "proto_latest xs = (if proto_is_empty xs then (0, 0) else last xs)"

definition proto_print :: "proto_slots \<Rightarrow> printed list" where
  "proto_print xs = concat (map (\<lambda>p. [Num (uint (fst p)), Str '' '', Num (uint (snd p)), Endl]) xs)"

definition proto_buffer_print :: "proto_slots \<Rightarrow> printed list" where
  "proto_buffer_print xs = concat (map (\<lambda>p. [Num (uint (fst p)), Str '' '', Num (uint (snd p)), Str '' '', Endl]) xs)"

definition print_bool :: "bool \<Rightarrow> printed list" where
  "print_bool b = [Num (if b then 1 else 0), Endl]"

definition proto_main :: "printed list" where
  "proto_main =
     (let (_, b1, t1) = proto_appendable 4 4 proto_buffer_init; (_, b2, t2) = proto_appendable 3 3 b1;
          (_, b3, t3) = proto_appendable 6 7 b2; (_, b4, t4) = proto_appendable 12 13 b3;
          a1 = proto_append 2 3 proto_array_init; a2 = proto_append 6 7 a1; a3 = proto_append 4 5 a2;
          (a4, b5) = proto_batch_append b4 a3
      in [Str ''buffer test'', Endl] @ t1 @ t2 @ t3 @ t4 @ proto_buffer_print b4
         @ [Str ''global array test'', Endl] @ proto_print a3
         @ [Str ''global array batched append from buffer'', Endl]
         @ [Str ''global array after batch append'', Endl] @ proto_print a4
         @ print_bool (proto_is_exist 13 a4)
         @ (let p = proto_search_visible_version 12 a4 in [Num (uint (fst p)), Str '' '', Num (uint (snd p)), Endl])
         @ (let p = proto_latest a4 in [Num (uint (fst p)), Str '' '', Num (uint (snd p)), Endl])
         @ print_bool (proto_is_empty a4))"

text \<open>The buffer never reports that it is full.\<close>

lemma proto_never_full: "fst (proto_appendable version tx_id b)"
  by (simp add: proto_appendable_def Let_def)

lemma proto_append_sorted: "ascending xs \<Longrightarrow> tx_id \<notin> fst ` set xs \<Longrightarrow> ascending (proto_append version tx_id xs)"
  unfolding proto_append_def by (rule ascending_insert)

text \<open>
  The search of the prototype looks for the last entry up to and including the transaction itself,
  where the protocol's looks for the last entry before it.
\<close>

lemma proto_search_spec:
  assumes asc: "ascending xs" and "xs \<noteq> []" and "fst (hd xs) < tx_id"
  shows "proto_search_visible_version tx_id xs \<in> set xs"
    "fst (proto_search_visible_version tx_id xs) \<le> tx_id"
    "\<And>p. p \<in> set xs \<Longrightarrow> fst p \<le> tx_id \<Longrightarrow> fst p \<le> fst (proto_search_visible_version tx_id xs)"
proof -
  have "upper_bound (\<lambda>p. tx_id < fst p) xs = length (takeWhile (\<lambda>p. \<not> tx_id < fst p) xs)" by (simp add: upper_bound_def)
  moreover define n where "n = length (takeWhile (\<lambda>p. \<not> tx_id < fst p) xs)"
  ultimately have ub: "upper_bound (\<lambda>p. tx_id < fst p) xs = n" by simp
  have n: "0 < n" "n \<le> length xs" using assms(2,3) by (cases xs; auto simp: n_def length_takeWhile_le)+
  have p: "proto_search_visible_version tx_id xs = xs ! (n - 1)"
  proof -
    have "\<not> tx_id \<le> fst (hd xs)" using assms(3) by simp
    then show ?thesis using assms(2) by (simp add: proto_search_visible_version_def ub)
  qed
  show "proto_search_visible_version tx_id xs \<in> set xs" unfolding p using n by simp
  have "takeWhile (\<lambda>p. \<not> tx_id < fst p) xs ! (n - 1) \<in> set (takeWhile (\<lambda>p. \<not> tx_id < fst p) xs)"
    using n(1) by (intro nth_mem) (simp add: n_def)
  then have "xs ! (n - 1) \<in> set (takeWhile (\<lambda>p. \<not> tx_id < fst p) xs)" using n(1) by (simp add: takeWhile_nth n_def)
  then show "fst (proto_search_visible_version tx_id xs) \<le> tx_id" unfolding p by (auto dest: set_takeWhileD)
  fix q assume q: "q \<in> set xs" "fst q \<le> tx_id"
  then obtain i where i: "i < length xs" "q = xs ! i" by (auto simp: in_set_conv_nth)
  have mono: "fst (xs ! a) \<le> fst (xs ! b)" if "a \<le> b" "b < length xs" for a b
    using asc that by (cases "a = b") (auto simp: sorted_wrt_iff_nth_less less_imp_le)
  show "fst q \<le> fst (proto_search_visible_version tx_id xs)"
  proof (cases "i < n")
    case True
    then show ?thesis unfolding p i(2) using n by (intro mono) auto
  next
    case False
    then have nl: "n < length xs" using i(1) by simp
    then have "tx_id < fst (xs ! n)" using nth_length_takeWhile [of "\<lambda>p. \<not> tx_id < fst p" xs] by (simp add: n_def)
    also have "\<dots> \<le> fst q" unfolding i(2) using False i(1) by (intro mono) auto
    finally show ?thesis using q(2) by simp
  qed
qed

text \<open>What the program prints.\<close>

lemma proto_main_numbers:
  "numbers proto_main = [1, 0, 3, 3, 4, 4, 7, 6, 13, 12, 0, 0, 3, 2, 5, 4, 7, 6,
     0, 0, 1, 0, 3, 2, 3, 3, 4, 4, 5, 4, 7, 6, 7, 6, 13, 12, 1, 7, 6, 13, 12, 0]"
  by (simp add: proto_main_def proto_appendable_def proto_buffer_init_def proto_array_init_def proto_append_def
      proto_batch_append_def proto_print_def proto_buffer_print_def print_bool_def proto_is_exist_def
      proto_search_visible_version_def proto_latest_def proto_is_empty_def upper_bound_def)

section \<open>Masks: find_latest_pos.cpp, mask_clear.cpp, shift_bit.cpp\<close>

text \<open>A shift by 64 is undefined, and so is counting the leading zeros of 0.\<close>

definition clear_left :: "u64 \<Rightarrow> nat \<Rightarrow> u64 res" where
  "clear_left bits pos = guard (pos + 1 < 64) OutOfRange (Inr (bits AND (push_bit (pos + 1) 1 - 1)))"

definition clear_right :: "u64 \<Rightarrow> nat \<Rightarrow> u64 res" where
  "clear_right bits pos = guard (pos < 64) OutOfRange (Inr (bits AND NOT (push_bit pos 1 - 1)))"

definition num_leading_zeros :: "u64 \<Rightarrow> nat res" where
  "num_leading_zeros x =
     guard (x \<noteq> 0) OutOfRange (Inr (length (takeWhile (\<lambda>k. \<not> bit x (63 - k)) [0..<64])))"

definition first_one_from_right :: "u64 \<Rightarrow> nat" where
  "first_one_from_right x = (case find (bit x) [0..<64] of None \<Rightarrow> 0 | Some n \<Rightarrow> Suc n)"

definition num_trailing_zeros :: "u64 \<Rightarrow> nat res" where
  "num_trailing_zeros x = guard (x \<noteq> 0) OutOfRange (Inr (length (takeWhile (\<lambda>k. \<not> bit x k) [0..<64])))"

definition find_latest_pos :: "u64 \<Rightarrow> nat \<Rightarrow> nat res" where
  "find_latest_pos bits pos =
     ebind (clear_left bits pos) (\<lambda>masked_bits. ebind (num_leading_zeros masked_bits) (\<lambda>n. Inr (64 - n)))"

definition setbit :: "u64 \<Rightarrow> int \<Rightarrow> u64" where
  "setbit bits pos = (if pos < 0 \<or> 64 \<le> pos then bits else bits OR push_bit (nat pos) 1)"

lemma mask_u64: "push_bit n 1 - 1 = (mask n :: u64)"
  by (simp add: mask_eq_exp_minus_1 push_bit_eq_mult)

lemma bit_clear_left: "pos < 63 \<Longrightarrow> \<exists>y. clear_left bits pos = Inr y \<and> (\<forall>k. bit y k \<longleftrightarrow> bit bits k \<and> k \<le> pos)"
  unfolding clear_left_def mask_u64 by (auto simp: bit_and_iff bit_mask_iff)

lemma bit_clear_right: "pos < 64 \<Longrightarrow> \<exists>y. clear_right bits pos = Inr y \<and> (\<forall>k. bit y k \<longleftrightarrow> bit bits k \<and> pos \<le> k)"
  unfolding clear_right_def mask_u64 by (auto simp: bit_and_iff bit_mask_iff bit_not_iff dest: bit_imp_le_length)

lemma bit_setbit: "bit (setbit bits pos) k \<longleftrightarrow> bit bits k \<or> 0 \<le> pos \<and> pos < 64 \<and> k = nat pos"
  by (auto simp: setbit_def bit_or_iff bit_exp_iff)

lemma num_leading_zeros_Max:
  fixes x :: u64
  assumes "x \<noteq> 0"
  shows "num_leading_zeros x = Inr (63 - Max {k. bit x k})"
proof -
  have fin: "finite {k. bit x k}" by (rule finite_subset [of _ "{..<64}"]) (auto dest: bit_imp_le_length)
  obtain k where k: "bit x k" using assms by (auto simp: bit_eq_iff)
  define M where "M = Max {k. bit x k}"
  have M: "bit x M" using Max_in [OF fin] k by (auto simp: M_def)
  have le: "j \<le> M" if "bit x j" for j unfolding M_def using fin that by simp
  have M64: "M < 64" using bit_imp_le_length [OF M] by simp
  have "[0..<64] = [0..<63 - M] @ (63 - M) # [Suc (63 - M)..<64]" 
  proof -
    have "[0..<64] = [0..<63 - M] @ [63 - M..<64]" using upt_add_eq_append [of 0 "63 - M" "Suc M"] M64 by (simp del: upt_Suc)
    also have "[63 - M..<64] = (63 - M) # [Suc (63 - M)..<64]" by (rule upt_conv_Cons) simp
    finally show ?thesis .
  qed
  moreover have "takeWhile (\<lambda>k. \<not> bit x (63 - k)) ([0..<63 - M] @ (63 - M) # [Suc (63 - M)..<64]) = [0..<63 - M]"
  proof -
    have "\<not> bit x (63 - j)" if "j < 63 - M" for j using le [of "63 - j"] that by auto
    then show ?thesis using M M64 by (subst takeWhile_append2) auto
  qed
  ultimately show ?thesis using assms by (simp add: num_leading_zeros_def M_def del: upt_rec_numeral)
qed

text \<open>
  \<open>find_latest_pos\<close> counts from 1: it returns the position after the last set bit up to \<open>pos\<close>.
\<close>

lemma find_latest_pos_spec:
  assumes "pos < 63" and "k \<le> pos" and "bit bits k"
  shows "find_latest_pos bits pos = Inr (Suc (Max {j. bit bits j \<and> j \<le> pos}))"
proof -
  obtain y where y: "clear_left bits pos = Inr y" "\<And>k. bit y k \<longleftrightarrow> bit bits k \<and> k \<le> pos" using bit_clear_left [OF assms(1)] by blast
  have "bit y k" using y(2) assms(2,3) by simp
  then have nz: "y \<noteq> 0" by auto
  have "Max {j. bit y j} < 64"
  proof -
    have "{j. bit y j} \<noteq> {}" "finite {j. bit y j}" using \<open>bit y k\<close> y(2) by (auto intro: finite_subset [of _ "{..pos}"])
    then have "bit y (Max {j. bit y j})" using Max_in by blast
    then show ?thesis using bit_imp_le_length by fastforce
  qed
  then show ?thesis using num_leading_zeros_Max [OF nz] y by (simp add: find_latest_pos_def)
qed

lemma find_latest_pos_sample: "find_latest_pos 0xFC 4 = Inr 5"
  by (simp add: find_latest_pos_def clear_left_def num_leading_zeros_def upt_rec)

section \<open>atomic_or_fetch.cpp\<close>

text \<open>Every thread sets its bit in the shared map, one after the other in any order.\<close>

definition or_worker :: "nat \<Rightarrow> u64 \<Rightarrow> u64" where
  "or_worker tid bit_map = bit_map OR push_bit tid 1"

definition or_threads :: "nat list \<Rightarrow> u64" where
  "or_threads order = fold or_worker order 0"

lemma bit_or_fold: "bit (fold or_worker order bm) k \<longleftrightarrow> bit bm k \<or> k < 64 \<and> k \<in> set order"
  by (induction order arbitrary: bm) (auto simp: or_worker_def bit_or_iff bit_exp_iff)

lemma or_threads_all:
  assumes "set order = {..<64}"
  shows "or_threads order = - 1"
proof (rule bit_word_eqI)
  fix k assume "k < LENGTH(64)"
  then show "bit (or_threads order) k = bit (- 1 :: u64) k" by (simp add: or_threads_def bit_or_fold assms)
qed

end
