(* ===== verification/Serval_GC.thy ===== *)
theory Serval_GC
  imports Serval_Init Caracal
begin

text \<open>
  class MajorGC of protocols/serval/include/major_gc.hpp: rows written in an epoch are collected under
  it, and some epochs later the core frees their versions but the final one. The map of rows by epoch
  is Caracal's; \<open>Inr None\<close> is a row whose lock is held.
\<close>

section \<open>class MajorGC\<close>

definition gc_own_array :: "nat \<Rightarrow> serval_value \<Rightarrow> row_region_controller \<Rightarrow> mem \<Rightarrow> (row_region_controller \<times> mem) res" where
  "gc_own_array core val ctl m =
     (case row_region_ptr val of
        None \<Rightarrow> Inr (ctl, m)
      | Some k \<Rightarrow> ebind (region_gc_and_initialize_tx_bitmap core (regions ctl k) m) (\<lambda>(r, m1).
          Inr (ctl\<lparr>regions := (regions ctl)(k := r)\<rparr>, m1)))"

definition gc_value ::
  "nat \<Rightarrow> nat \<Rightarrow> serval_value \<Rightarrow> row_region_controller \<Rightarrow> mem \<Rightarrow> (serval_value \<times> row_region_controller \<times> mem) option res" where
  "gc_value core new_epoch val ctl m =
     assert_then (val_epoch val \<le> new_epoch)
       (if val_epoch val = new_epoch then
          ebind (gc_own_array core val ctl m) (\<lambda>(ctl1, m1). Inr (Some (val, ctl1, m1)))
        else
          case val_lock val of
            None \<Rightarrow> Inr None
          | Some val1 \<Rightarrow>
              if val_epoch val1 = new_epoch then
                let val2 = val_unlock val1
                in ebind (gc_own_array core val2 ctl m) (\<lambda>(ctl1, m1). Inr (Some (val2, ctl1, m1)))
              else
                ebind (initialize_the_row new_epoch val1 ctl m) (\<lambda>(val2, ctl1, m1).
                  ebind (gc_own_array core val2 ctl1 m1) (\<lambda>(ctl2, m2).
                    Inr (Some (val_unlock val2, ctl2, m2)))))"

fun gc_values :: "nat \<Rightarrow> nat \<Rightarrow> nat list \<Rightarrow> serval_db \<Rightarrow> serval_db option res" where
  "gc_values core new_epoch [] db = Inr (Some db)"
| "gc_values core new_epoch (k # ks) db =
     ebind (gc_value core new_epoch (svalues db k) (sctl db) (smem db)) (\<lambda>r.
       case r of
         None \<Rightarrow> Inr None
       | Some (val, ctl, m) \<Rightarrow> gc_values core new_epoch ks ((put_val k val db)\<lparr>sctl := ctl, smem := m\<rparr>))"

definition serval_k :: u64 where
  "serval_k = 4"

fun serval_major_gc :: "nat \<Rightarrow> u64 \<Rightarrow> gc_map \<Rightarrow> serval_db \<Rightarrow> (gc_map \<times> serval_db) option res" where
  "serval_major_gc core new_epoch [] db = Inr (Some ([], db))"
| "serval_major_gc core new_epoch ((epoch, vals) # rest) db =
     (if new_epoch - serval_k \<le> epoch then Inr (Some ((epoch, vals) # rest, db))
      else ebind (gc_values core (unat new_epoch) vals db) (\<lambda>r.
             case r of None \<Rightarrow> Inr None | Some db' \<Rightarrow> serval_major_gc core new_epoch rest db'))"

section \<open>One row\<close>

text \<open>
  A row that core \<open>core\<close> may collect at the start of epoch \<open>e\<close>: nobody holds its lock, and if another
  core has already begun the epoch on it, this core has not written to it in the epoch.
\<close>

definition collectable :: "nat \<Rightarrow> nat \<Rightarrow> row_region_controller \<Rightarrow> mem \<Rightarrow> serval_value \<Rightarrow> bool" where
  "collectable core e ctl m val \<longleftrightarrow> row_ok ctl val m \<and> rwl val = 0 \<and> val_epoch val \<le> e
     \<and> (val_epoch val = e \<longrightarrow> (\<forall>k. row_region_ptr val = Some k \<longrightarrow> core \<notin> ones (core_bitmap (regions ctl k))))
     \<and> (val_epoch val < e \<longrightarrow> (\<forall>v \<in> row_versions ctl val. stable m v))"

definition footprint :: "row_region_controller \<Rightarrow> serval_value \<Rightarrow> nat set" where
  "footprint ctl val = insert (master val) (row_versions ctl val)"

lemma row_ok_frame:
  assumes "row_ok ctl val m" and "mem_ok m'" and "\<And>v. v \<in> footprint ctl val \<Longrightarrow> vers m' v = vers m v"
    and "\<And>k. row_region_ptr val = Some k \<Longrightarrow> regions ctl' k = regions ctl k" and "used ctl' = used ctl"
  shows "row_ok ctl' val m'" "row_versions ctl' val = row_versions ctl val"
proof -
  show rv: "row_versions ctl' val = row_versions ctl val"
    using assms(4) by (auto simp: row_versions_def split: option.splits)
  have reg: "case row_region_ptr val of None \<Rightarrow> True
      | Some k \<Rightarrow> ids_slots (global_array val) = [] \<and> k < used ctl' \<and> region_ok (regions ctl' k, m')"
  proof (cases "row_region_ptr val")
    case (Some k)
    note kr = row_okD(7) [OF assms(1) Some]
    have "v \<in> footprint ctl val" if "v \<in> region_slots (regions ctl k)" for v
      using that by (simp add: footprint_def row_versions_def Some)
    then have "region_ok (regions ctl k, m')" using kr assms(2,3) by (intro region_ok_mem_mono [of _ m m']) blast+
    with kr show ?thesis unfolding Some by (simp only: option.case assms(4) [OF Some] assms(5) simp_thms)
  qed simp
  have "live m' v \<and> v \<noteq> master val" if "v \<in> row_versions ctl val" for v
  proof -
    have "vers m' v = vers m v" by (rule assms(3)) (simp add: footprint_def that)
    then show ?thesis using row_okD(5,6) [OF assms(1) that] by (simp add: live_def)
  qed
  then have "\<forall>v \<in> row_versions ctl' val. live m' v \<and> v \<noteq> master val" unfolding rv by blast
  moreover have "vers m' (master val) = vers m (master val)" by (rule assms(3)) (simp add: footprint_def)
  then have "stable m' (master val)" using row_okD(2) [OF assms(1)] by (simp add: stable_def)
  moreover have "\<forall>p \<in> set (ids_slots (global_array val)). - 1 \<le> fst p \<and> fst p < 4096" using row_okD(8) [OF assms(1)] by blast
  ultimately show "row_ok ctl' val m'"
    unfolding row_ok_def using row_okD(3,4) [OF assms(1)] assms(2) reg by (intro conjI)
qed

lemma slots_init: "slots pcva_init = []"
  by (simp add: pcva_init_def)

lemma own_array_freed:
  assumes ok: "row_ok ctl val m" and core: "core < 64"
    and idle: "\<And>k. row_region_ptr val = Some k \<Longrightarrow> core \<notin> ones (core_bitmap (regions ctl k))"
  obtains ctl' m' where "gc_own_array core val ctl m = Inr (ctl', m')" "row_ok ctl' val m'"
    "used ctl' = used ctl" "row_versions ctl' val \<subseteq> row_versions ctl val" "row_entries ctl' val = row_entries ctl val"
    "\<forall>v. v \<notin> row_versions ctl val \<or> v \<in> row_versions ctl' val \<longrightarrow> vers m' v = vers m v"
    "\<forall>j. row_region_ptr val \<noteq> Some j \<longrightarrow> regions ctl' j = regions ctl j"
    "\<forall>k. row_region_ptr val = Some k \<longrightarrow> core_bitmap (regions ctl' k) = core_bitmap (regions ctl k) \<and> slots (arrays (regions ctl' k) core) = []"
proof (cases "row_region_ptr val")
  case None
  then show thesis using that [of ctl m] ok by (simp add: gc_own_array_def)
next
  case (Some k)
  let ?r = "regions ctl k" let ?s = "set (slots (arrays ?r core))"
  have kr: "ids_slots (global_array val) = []" "k < used ctl" "region_ok (?r, m)" using row_okD(7) [OF ok Some] by auto
  have idle': "core \<notin> ones (core_bitmap ?r)" by (rule idle [OF Some])
  obtain m' where m': "gc_versions (slots (arrays ?r core)) m = Inr m'" "mem_ok m'" "vers m' = vers m |` (- ?s)"
    using gc_versions_ok [OF region_okD(1) [OF kr(3)] region_okD(2) [OF kr(3) core]] region_okD(6) [OF kr(3) core idle'] by metis
  let ?r' = "?r\<lparr>arrays := (arrays ?r)(core := pcva_init)\<rparr>" let ?ctl' = "ctl\<lparr>regions := (regions ctl)(k := ?r')\<rparr>"
  have "pcva_do_gc_and_initialize_tx_bitmap (arrays ?r core) m = Inr (pcva_init, m')"
    by (simp add: pcva_do_gc_and_initialize_tx_bitmap_def pcva_minor_gc_def pcva_init_def m'(1))
  then have own: "gc_own_array core val ctl m = Inr (?ctl', m')"
    using core by (simp add: gc_own_array_def Some region_gc_and_initialize_tx_bitmap_def LOGICAL_CORE_SIZE_def)
  have rv: "row_versions ctl val = region_slots ?r" "row_versions ?ctl' val = region_slots ?r'"
    by (simp_all add: row_versions_def Some kr)
  have sub: "region_slots ?r' \<subseteq> region_slots ?r - ?s"
  proof
    fix v assume "v \<in> region_slots ?r'"
    then obtain d where d: "d < 64" "d \<noteq> core" "v \<in> set (slots (arrays ?r d))"
      by (auto simp: region_slots_def slots_init split: if_splits)
    then show "v \<in> region_slots ?r - ?s" using region_okD(3) [OF kr(3) d(1) core d(2)] by (auto simp: region_slots_def)
  qed
  have keep: "vers m' v = vers m v" if "v \<notin> ?s" for v using that by (simp add: m'(3))
  have "region_ok (?r', m')"
  proof -
    have "region_ok (?r', m)" using kr(3) core idle' unfolding region_ok_def by (auto simp: pcva_init_def)
    then show ?thesis using m'(2) by (rule region_ok_mem_mono) (use sub keep in auto)
  qed
  moreover have "master val \<notin> ?s" using row_okD(6) [OF ok] core unfolding rv(1) region_slots_def by blast
  then have "stable m' (master val)" using row_okD(2) [OF ok] keep by (simp add: stable_def)
  moreover have "live m' v \<and> v \<noteq> master val" if "v \<in> region_slots ?r'" for v
    using row_okD(5,6) [OF ok, of v] subsetD [OF sub that] keep [of v] unfolding rv(1) by (simp add: live_def)
  ultimately have "row_ok ?ctl' val m'" using m'(2) kr by (simp add: row_ok_def rv(2) Some)
  moreover have "row_entries ?ctl' val = row_entries ctl val"
    using idle' by (auto simp: row_entries_def Some region_entries_def fun_eq_iff)
  moreover have "vers m' v = vers m v" if "v \<notin> row_versions ctl val \<or> v \<in> row_versions ?ctl' val" for v
    using that sub keep [of v] core unfolding rv region_slots_def by blast
  ultimately show thesis by (intro that [OF own]) (use sub Some in \<open>auto simp: rv slots_init\<close>)
qed

lemma row_final_in:
  assumes ok: "row_ok ctl val m" and stb: "\<forall>v \<in> row_versions ctl val. stable m v"
  shows "row_final ctl val \<in> footprint ctl val"
proof (cases "ids_slots (global_array val) = []")
  case False
  then show ?thesis by (auto simp: row_final_def footprint_def row_versions_def)
next
  case nil: True
  show ?thesis
  proof (cases "row_region_ptr val")
    case None
    then show ?thesis by (simp add: row_final_def footprint_def nil)
  next
    case (Some k)
    have rv: "row_versions ctl val = region_slots (regions ctl k)" by (simp add: row_versions_def Some nil)
    show ?thesis
    proof (cases "core_bitmap (regions ctl k) = 0")
      case False
      have "region_ok (regions ctl k, m)" using row_okD(7) [OF ok Some] by simp
      from region_pop_final_state_ok [OF this False] stb rv show ?thesis
        by (auto simp: row_final_def footprint_def nil Some False)
    qed (simp add: row_final_def footprint_def nil Some)
  qed
qed

lemma initialize_the_row_shrinks:
  assumes ok: "row_ok ctl val m" and stb: "\<forall>v \<in> row_versions ctl val. stable m v"
    and init: "initialize_the_row e val ctl m = Inr (val', ctl', m')"
  shows "row_versions ctl' val' \<subseteq> row_versions ctl val"
proof -
  consider (global) "ids_slots (global_array val) \<noteq> []"
    | (region) k where "row_region_ptr val = Some k" "core_bitmap (regions ctl k) \<noteq> 0"
    | (clean) "ids_slots (global_array val) = []" "\<And>k. row_region_ptr val = Some k \<Longrightarrow> core_bitmap (regions ctl k) = 0"
    by (cases "row_region_ptr val") auto
  then show ?thesis
  proof cases
    case global
    from initialize_global [OF ok stb global, of e] init have "row_versions ctl' val' = {}"
      by (metis (no_types, lifting) Inr_inject Pair_inject list.set(1) image_empty option.case(1) row_versions_def sup_bot.right_neutral)
    then show ?thesis by simp
  next
    case (region k)
    have "ids_slots (global_array val) = []" using row_okD(7) [OF ok region(1)] by simp
    with region have rv: "row_versions ctl val = region_slots (regions ctl k)" by (simp add: row_versions_def)
    obtain val1 r1 m1 where "initialize_the_row e val ctl m = Inr (val1, ctl\<lparr>regions := (regions ctl)(k := r1)\<rparr>, m1)"
      "ids_slots (global_array val1) = []" "row_region_ptr val1 = Some k" "region_slots r1 \<subseteq> region_slots (regions ctl k)"
      by (rule initialize_region [OF ok stb region])
    moreover from this init have "row_versions ctl' val' = region_slots r1" by (auto simp: row_versions_def)
    ultimately show ?thesis by (simp add: rv)
  next
    case clean
    then have "\<not> gva_is_dirty (global_array val) \<and> \<not> val_has_dirty_region ctl val"
      by (auto simp: gva_is_dirty_def gva_is_empty_def val_has_dirty_region_def region_is_dirty_def split: option.split)
    then show ?thesis using init by (auto simp: initialize_the_row_def row_versions_def)
  qed
qed

lemma row_ok_rwl [simp]:
  "row_ok ctl (val\<lparr>rwl := c\<rparr>) m = row_ok ctl val m" "row_versions ctl (val\<lparr>rwl := c\<rparr>) = row_versions ctl val"
  "row_final ctl (val\<lparr>rwl := c\<rparr>) = row_final ctl val" "row_entries ctl (val\<lparr>rwl := c\<rparr>) = row_entries ctl val"
  "footprint ctl (val\<lparr>rwl := c\<rparr>) = footprint ctl val"
  by (simp_all add: row_ok_def row_versions_def row_final_def row_entries_def footprint_def split: option.split)

text \<open>Collecting a row: it ends in the new epoch with its final version as master, and the own core's array is empty.\<close>

lemma gc_value_ok:
  assumes col: "collectable core e ctl m val" and core: "core < 64"
  obtains val' ctl' m' where "gc_value core e val ctl m = Inr (Some (val', ctl', m'))" "collectable core e ctl' m' val'"
    "val_epoch val' = e" "master val' = (if val_epoch val = e then master val else row_final ctl val)"
    "row_region_ptr val' = row_region_ptr val" "used ctl' = used ctl" "footprint ctl' val' \<subseteq> footprint ctl val"
    "\<And>v. v \<notin> footprint ctl val \<Longrightarrow> vers m' v = vers m v" "\<And>j. row_region_ptr val \<noteq> Some j \<Longrightarrow> regions ctl' j = regions ctl j"
    "\<And>k. row_region_ptr val = Some k \<Longrightarrow> slots (arrays (regions ctl' k) core) = []"
proof (cases "val_epoch val = e")
  case True
  have ok: "row_ok ctl val m" "rwl val = 0" and idle: "\<And>k. row_region_ptr val = Some k \<Longrightarrow> core \<notin> ones (core_bitmap (regions ctl k))"
    using col True by (auto simp: collectable_def)
  obtain ctl' m' where o: "gc_own_array core val ctl m = Inr (ctl', m')" "row_ok ctl' val m'"
    "used ctl' = used ctl" "row_versions ctl' val \<subseteq> row_versions ctl val" "row_entries ctl' val = row_entries ctl val"
    "\<forall>v. v \<notin> row_versions ctl val \<or> v \<in> row_versions ctl' val \<longrightarrow> vers m' v = vers m v"
    "\<forall>j. row_region_ptr val \<noteq> Some j \<longrightarrow> regions ctl' j = regions ctl j"
    "\<forall>k. row_region_ptr val = Some k \<longrightarrow> core_bitmap (regions ctl' k) = core_bitmap (regions ctl k) \<and> slots (arrays (regions ctl' k) core) = []"
    by (rule own_array_freed [OF ok(1) core idle])
  have "gc_value core e val ctl m = Inr (Some (val, ctl', m'))" using True o(1) by (simp add: gc_value_def)
  moreover have "collectable core e ctl' m' val" using True ok o(2,8) idle by (simp add: collectable_def)
  ultimately show thesis by (rule that) (use True o(3,4,6,7,8) in \<open>auto simp: footprint_def\<close>)
next
  case False
  have ok: "row_ok ctl val m" "rwl val = 0" "val_epoch val \<le> e" and stb: "\<forall>v \<in> row_versions ctl val. stable m v"
    using col False by (auto simp: collectable_def)
  let ?v1 = "val\<lparr>rwl := - 1\<rparr>"
  have stb1: "\<forall>v \<in> row_versions ctl ?v1. stable m v" and ok1: "row_ok ctl ?v1 m" using stb ok by simp_all
  obtain v2 c2 m2 where i: "initialize_the_row e ?v1 ctl m = Inr (v2, c2, m2)" "row_ok c2 v2 m2"
    "master v2 = row_final ctl ?v1" "val_epoch v2 = e" "row_entries c2 v2 = Map.empty"
    "\<forall>v \<in> row_versions c2 v2. stable m2 v" "used c2 = used ctl" "rwl v2 = rwl ?v1"
    "row_region_ptr v2 = row_region_ptr ?v1" "ids_slots (global_array v2) = []"
    "\<And>k. row_region_ptr ?v1 = Some k \<Longrightarrow> core_bitmap (regions c2 k) = 0"
    "\<And>v. v \<noteq> master ?v1 \<Longrightarrow> v \<notin> row_versions ctl ?v1 \<Longrightarrow> vers m2 v = vers m v"
    "\<And>j. row_region_ptr ?v1 \<noteq> Some j \<Longrightarrow> regions c2 j = regions ctl j" "brk m2 = brk m"
    by (rule initialize_the_row_ok [OF ok1 stb1, of e]) blast
  have sub: "row_versions c2 v2 \<subseteq> row_versions ctl val" using initialize_the_row_shrinks [OF ok1 stb1 i(1)] by simp
  obtain c3 m3 where o: "gc_own_array core v2 c2 m2 = Inr (c3, m3)" "row_ok c3 v2 m3"
    "used c3 = used c2" "row_versions c3 v2 \<subseteq> row_versions c2 v2" "row_entries c3 v2 = row_entries c2 v2"
    "\<forall>v. v \<notin> row_versions c2 v2 \<or> v \<in> row_versions c3 v2 \<longrightarrow> vers m3 v = vers m2 v"
    "\<forall>j. row_region_ptr v2 \<noteq> Some j \<longrightarrow> regions c3 j = regions c2 j"
    "\<forall>k. row_region_ptr v2 = Some k \<longrightarrow> core_bitmap (regions c3 k) = core_bitmap (regions c2 k) \<and> slots (arrays (regions c3 k) core) = []"
  proof (rule own_array_freed [OF i(2) core])
    show "core \<notin> ones (core_bitmap (regions c2 k))" if "row_region_ptr v2 = Some k" for k
      using i(11) [of k] that i(9) by simp
  qed
  let ?val = "v2\<lparr>rwl := 0\<rparr>"
  have "gc_value core e val ctl m = Inr (Some (?val, c3, m3))"
    using False ok(2,3) i(1,8) o(1) by (simp add: gc_value_def val_lock_def val_unlock_def)
  moreover have "collectable core e c3 m3 ?val"
    using i(4,9,11) o(2,8) by (auto simp: collectable_def)
  ultimately show thesis
  proof (rule that)
    have "row_final ctl val \<in> footprint ctl val" by (rule row_final_in [OF ok(1) stb])
    then show "footprint c3 ?val \<subseteq> footprint ctl val" using i(3) sub o(4) by (auto simp: footprint_def)
    show "vers m3 v = vers m v" if "v \<notin> footprint ctl val" for v
      using that i(12) [of v] o(6) sub by (auto simp: footprint_def)
  qed (use False i(3,4,7,9,13) o(3,7,8) in auto)
qed

section \<open>All rows of an epoch\<close>

text \<open>The rows of \<open>K\<close> may be collected, and no two of them share versions or a region.\<close>

definition rows_collectable :: "nat \<Rightarrow> nat \<Rightarrow> nat set \<Rightarrow> serval_db \<Rightarrow> bool" where
  "rows_collectable core e K db \<longleftrightarrow>
     (\<forall>k \<in> K. collectable core e (sctl db) (smem db) (svalues db k))
     \<and> (\<forall>j \<in> K. \<forall>k \<in> K. j \<noteq> k \<longrightarrow> footprint (sctl db) (svalues db j) \<inter> footprint (sctl db) (svalues db k) = {}
          \<and> (\<forall>r. row_region_ptr (svalues db j) = Some r \<longrightarrow> row_region_ptr (svalues db k) \<noteq> Some r))"

definition collected_row :: "nat \<Rightarrow> serval_db \<Rightarrow> serval_db \<Rightarrow> nat \<Rightarrow> bool" where
  "collected_row e db db' k \<longleftrightarrow> val_epoch (svalues db' k) = e
     \<and> master (svalues db' k) = (if val_epoch (svalues db k) = e then master (svalues db k) else row_final (sctl db) (svalues db k))"

definition same_row :: "serval_db \<Rightarrow> serval_db \<Rightarrow> nat \<Rightarrow> bool" where
  "same_row db db' k \<longleftrightarrow> svalues db' k = svalues db k \<and> row_final (sctl db') (svalues db k) = row_final (sctl db) (svalues db k)"

lemma row_trans:
  "same_row a b k \<Longrightarrow> same_row b c k \<Longrightarrow> same_row a c k"
  "same_row a b k \<Longrightarrow> collected_row e b c k \<Longrightarrow> collected_row e a c k"
  "collected_row e a b k \<Longrightarrow> same_row b c k \<Longrightarrow> collected_row e a c k"
  "collected_row e a b k \<Longrightarrow> collected_row e b c k \<Longrightarrow> collected_row e a c k"
  by (auto simp: same_row_def collected_row_def split: if_splits)

lemma collectable_frame:
  assumes "collectable core e ctl m val" and "mem_ok m'" and "\<And>v. v \<in> footprint ctl val \<Longrightarrow> vers m' v = vers m v"
    and "\<And>k. row_region_ptr val = Some k \<Longrightarrow> regions ctl' k = regions ctl k" and "used ctl' = used ctl"
  shows "collectable core e ctl' m' val" "footprint ctl' val = footprint ctl val" "row_final ctl' val = row_final ctl val"
proof -
  have ok: "row_ok ctl val m" using assms(1) by (simp add: collectable_def)
  note fr = row_ok_frame [OF ok assms(2-5)]
  have "stable m' v" if "v \<in> row_versions ctl val" "stable m v" for v
    using that assms(3) [of v] by (simp add: stable_def footprint_def)
  then show "collectable core e ctl' m' val"
    using assms(1,4) fr unfolding collectable_def by (metis (no_types, lifting))
  show "footprint ctl' val = footprint ctl val" using fr(2) by (simp add: footprint_def)
  show "row_final ctl' val = row_final ctl val" using assms(4) by (auto simp: row_final_def split: option.split)
qed

lemma gc_one_row:
  assumes rows: "rows_collectable core e K db" and k: "k \<in> K" and core: "core < 64"
  shows "\<exists>db'. (\<forall>ks. gc_values core e (k # ks) db = gc_values core e ks db') \<and> rows_collectable core e K db'
    \<and> collected_row e db db' k \<and> (\<forall>j \<in> K. j \<noteq> k \<longrightarrow> same_row db db' j)"
proof -
  let ?val = "svalues db k"
  have col: "collectable core e (sctl db) (smem db) ?val" using rows k by (simp add: rows_collectable_def)
  obtain val ctl m where g: "gc_value core e ?val (sctl db) (smem db) = Inr (Some (val, ctl, m))" "collectable core e ctl m val"
    "val_epoch val = e" "master val = (if val_epoch ?val = e then master ?val else row_final (sctl db) ?val)"
    "row_region_ptr val = row_region_ptr ?val" "used ctl = used (sctl db)" "footprint ctl val \<subseteq> footprint (sctl db) ?val"
    "\<And>v. v \<notin> footprint (sctl db) ?val \<Longrightarrow> vers m v = vers (smem db) v"
    "\<And>j. row_region_ptr ?val \<noteq> Some j \<Longrightarrow> regions ctl j = regions (sctl db) j"
    by (rule gc_value_ok [OF col core]) blast
  let ?db = "(put_val k val db)\<lparr>sctl := ctl, smem := m\<rparr>"
  have mok: "mem_ok m" using g(2) row_okD(1) by (auto simp: collectable_def)
  have other: "collectable core e ctl m (svalues db j)" "footprint ctl (svalues db j) = footprint (sctl db) (svalues db j)"
    "row_final ctl (svalues db j) = row_final (sctl db) (svalues db j)" if j: "j \<in> K" "j \<noteq> k" for j
  proof -
    have c: "collectable core e (sctl db) (smem db) (svalues db j)" using rows j by (simp add: rows_collectable_def)
    have d: "footprint (sctl db) (svalues db j) \<inter> footprint (sctl db) ?val = {}"
      "\<And>r. row_region_ptr (svalues db j) = Some r \<Longrightarrow> row_region_ptr ?val \<noteq> Some r"
      using rows j k by (simp_all add: rows_collectable_def)
    have "vers m v = vers (smem db) v" if "v \<in> footprint (sctl db) (svalues db j)" for v using g(8) [of v] d(1) that by blast
    moreover have "regions ctl r = regions (sctl db) r" if "row_region_ptr (svalues db j) = Some r" for r
      using g(9) [OF d(2) [OF that]] .
    ultimately show "collectable core e ctl m (svalues db j)" "footprint ctl (svalues db j) = footprint (sctl db) (svalues db j)"
      "row_final ctl (svalues db j) = row_final (sctl db) (svalues db j)"
      using collectable_frame [OF c mok _ _ g(6)] by blast+
  qed
  have sv: "svalues (put_val k val db) j = (if j = k then val else svalues db j)" for j by (simp add: put_val_def)
  have "rows_collectable core e K ?db"
    unfolding rows_collectable_def
  proof (intro conjI ballI impI)
    show "collectable core e (sctl ?db) (smem ?db) (svalues ?db j)" if "j \<in> K" for j
      using that g(2) other(1) by (simp add: sv)
    fix i j assume ij: "i \<in> K" "j \<in> K" "i \<noteq> j"
    have fp: "footprint ctl (svalues ?db l) \<subseteq> footprint (sctl db) (svalues db l)" if "l \<in> K" for l
      using that g(7) other(2) by (simp add: sv)
    have "footprint (sctl db) (svalues db i) \<inter> footprint (sctl db) (svalues db j) = {}" using rows ij by (simp add: rows_collectable_def)
    with fp [OF ij(1)] fp [OF ij(2)] show "footprint (sctl ?db) (svalues ?db i) \<inter> footprint (sctl ?db) (svalues ?db j) = {}" by auto
    have ptr: "row_region_ptr (svalues ?db l) = row_region_ptr (svalues db l)" for l using g(5) by (simp add: sv)
    show "\<forall>r. row_region_ptr (svalues ?db i) = Some r \<longrightarrow> row_region_ptr (svalues ?db j) \<noteq> Some r"
      using rows ij unfolding ptr rows_collectable_def by blast
  qed
  moreover have "collected_row e db ?db k" using g(3,4) by (simp add: collected_row_def sv)
  moreover have "\<forall>j \<in> K. j \<noteq> k \<longrightarrow> same_row db ?db j" using other(3) by (simp add: same_row_def sv)
  moreover have "\<forall>ks. gc_values core e (k # ks) db = gc_values core e ks ?db" by (simp add: g(1))
  ultimately show ?thesis by blast
qed

lemma gc_values_ok:
  assumes "rows_collectable core e K db" and "set ks \<subseteq> K" and core: "core < 64"
  shows "\<exists>db'. gc_values core e ks db = Inr (Some db') \<and> rows_collectable core e K db'
    \<and> (\<forall>k \<in> set ks. collected_row e db db' k) \<and> (\<forall>k \<in> K - set ks. same_row db db' k)"
  using assms(1,2)
proof (induction ks arbitrary: db)
  case Nil
  then show ?case by (simp add: same_row_def)
next
  case (Cons k ks)
  have k: "k \<in> K" using Cons.prems(2) by simp
  obtain db1 where g: "\<forall>ks. gc_values core e (k # ks) db = gc_values core e ks db1"
    and db1: "rows_collectable core e K db1" "collected_row e db db1 k" "\<forall>j \<in> K. j \<noteq> k \<longrightarrow> same_row db db1 j"
    using gc_one_row [OF Cons.prems(1) k core] by blast
  obtain db' where r: "gc_values core e ks db1 = Inr (Some db')" "rows_collectable core e K db'"
    "\<forall>j \<in> set ks. collected_row e db1 db' j" "\<forall>j \<in> K - set ks. same_row db1 db' j"
    using Cons.IH [OF db1(1)] Cons.prems(2) by auto
  have "collected_row e db db' j" if "j \<in> set (k # ks)" for j
  proof (cases "j = k")
    case True
    show ?thesis
    proof (cases "k \<in> set ks")
      case in_ks: True
      with r(3) db1(2) show ?thesis unfolding True by (blast intro: row_trans)
    next
      case False
      with r(4) k db1(2) show ?thesis unfolding True by (blast intro: row_trans)
    qed
  next
    case False
    with that have "j \<in> set ks" "j \<in> K" using Cons.prems(2) by auto
    with False r(3) db1(3) show ?thesis by (blast intro: row_trans)
  qed
  moreover have "same_row db db' j" if "j \<in> K - set (k # ks)" for j
    using that r(4) db1(3) by (auto intro: row_trans(1))
  moreover have "gc_values core e (k # ks) db = Inr (Some db')" using g r(1) by (simp del: gc_values.simps)
  ultimately show ?case using r(2) by blast
qed

text \<open>The rows that are collected: those under epochs more than \<open>k_\<close> behind, computed on \<open>uint64_t\<close>.\<close>

definition due :: "u64 \<Rightarrow> u64 \<times> nat list \<Rightarrow> bool" where
  "due new_epoch p \<longleftrightarrow> \<not> new_epoch - serval_k \<le> fst p"

lemma serval_major_gc_step:
  assumes "rows_collectable core (unat e) K db" and "\<forall>p \<in> set g. set (snd p) \<subseteq> K" and "core < 64" and "sorted (map fst g)"
  shows "\<exists>db'. serval_major_gc core e g db = Inr (Some (filter (\<lambda>p. \<not> due e p) g, db')) \<and> rows_collectable core (unat e) K db'
    \<and> (\<forall>k \<in> K. if \<exists>p \<in> set g. due e p \<and> k \<in> set (snd p) then collected_row (unat e) db db' k else same_row db db' k)"
  using assms(1,2,4)
proof (induction g arbitrary: db)
  case Nil
  then show ?case by (simp add: same_row_def)
next
  case (Cons p g)
  obtain ep ks where p: "p = (ep, ks)" by (cases p)
  show ?case
  proof (cases "due e p")
    case False
    then have le: "e - serval_k \<le> ep" by (simp add: due_def p)
    have "\<not> due e q" if "q \<in> set g" for q
      using Cons.prems(3) that le by (auto simp: due_def p intro: order_trans)
    then have none: "\<forall>q \<in> set (p # g). \<not> due e q" using False by simp
    then have "filter (\<lambda>p. \<not> due e p) (p # g) = p # g" by (simp add: filter_id_conv)
    then show ?thesis using Cons.prems(1) none le by (auto simp: p same_row_def)
  next
    case True
    have ks: "set ks \<subseteq> K" "\<forall>q \<in> set g. set (snd q) \<subseteq> K" "sorted (map fst g)" using Cons.prems(2,3) by (auto simp: p)
    obtain db1 where g1: "gc_values core (unat e) ks db = Inr (Some db1)" "rows_collectable core (unat e) K db1"
      "\<forall>k \<in> set ks. collected_row (unat e) db db1 k" "\<forall>k \<in> K - set ks. same_row db db1 k"
      using gc_values_ok [OF Cons.prems(1) ks(1) assms(3)] by blast
    obtain db' where g2: "serval_major_gc core e g db1 = Inr (Some (filter (\<lambda>p. \<not> due e p) g, db'))" "rows_collectable core (unat e) K db'"
      "\<forall>k \<in> K. if \<exists>q \<in> set g. due e q \<and> k \<in> set (snd q) then collected_row (unat e) db1 db' k else same_row db1 db' k"
      using Cons.IH [OF g1(2) ks(2,3)] by blast
    have "serval_major_gc core e (p # g) db = Inr (Some (filter (\<lambda>p. \<not> due e p) (p # g), db'))"
      using True g1(1) g2(1) by (simp add: p due_def)
    moreover have "if \<exists>q \<in> set (p # g). due e q \<and> k \<in> set (snd q) then collected_row (unat e) db db' k else same_row db db' k" if k: "k \<in> K" for k
    proof -
      have step: "if \<exists>q \<in> set g. due e q \<and> k \<in> set (snd q) then collected_row (unat e) db1 db' k else same_row db1 db' k" using g2(3) k by blast
      show ?thesis
      proof (cases "k \<in> set ks")
        case in_ks: True
        then have "collected_row (unat e) db db1 k" using g1(3) by blast
        then have "collected_row (unat e) db db' k" using step by (auto intro: row_trans split: if_splits)
        then show ?thesis using True in_ks by (auto simp: p)
      next
        case False
        then have "same_row db db1 k" using g1(4) k by blast
        with step show ?thesis using False by (auto simp: p intro: row_trans split: if_splits)
      qed
    qed
    ultimately show ?thesis using g2(2) by blast
  qed
qed

lemma due_iff:
  assumes "fst p \<le> e"
  shows "due e p \<longleftrightarrow> unat e < 4 \<or> unat (fst p) + 4 < unat e"
proof -
  have b: "unat (fst p) \<le> unat e" "unat e < 2 ^ 64"
    using assms unsigned_less [of e, where ?'a = nat] by (simp_all add: word_le_nat_alt)
  show ?thesis
  proof (cases "unat e < 4")
    case True
    then have "unat (e - 4) = unat e + (2 ^ 64 - 4)" by (simp add: unat_sub_if_size word_size word_le_nat_alt)
    then show ?thesis using True b by (simp add: due_def serval_k_def word_le_nat_alt)
  next
    case False
    then have "unat (e - 4) = unat e - 4" by (simp add: unat_sub word_le_nat_alt)
    then show ?thesis using False by (auto simp: due_def serval_k_def word_le_nat_alt)
  qed
qed

text \<open>C16: The major collector returns, and every row under an epoch more than four behind the new one ends in the new epoch
  with the final version of the epoch it was last written in as its master version; all other rows keep their state and
  stay in the map. In the first three epochs the subtraction \<open>new_epoch - k_\<close> wraps around, and every row is collected.\<close>

theorem serval_major_gc_collects:
  assumes "rows_collectable core (unat e) K db" and "\<forall>p \<in> set g. set (snd p) \<subseteq> K \<and> fst p \<le> e" and "core < 64" and "sorted (map fst g)"
  defines "old \<equiv> \<lambda>p. unat e < 4 \<or> unat (fst p) + 4 < unat e"
  shows "\<exists>db'. serval_major_gc core e g db = Inr (Some (filter (\<lambda>p. \<not> old p) g, db')) \<and> rows_collectable core (unat e) K db'
    \<and> (\<forall>k \<in> K. if \<exists>p \<in> set g. old p \<and> k \<in> set (snd p) then collected_row (unat e) db db' k else same_row db db' k)"
proof -
  have sub: "\<forall>p \<in> set g. set (snd p) \<subseteq> K" using assms(2) by blast
  have d: "due e p = old p" if "p \<in> set g" for p using due_iff [of p e] assms(2) that by (auto simp: old_def)
  have f: "filter (\<lambda>p. \<not> due e p) g = filter (\<lambda>p. \<not> old p) g" using d by (intro filter_cong) auto
  have "(\<exists>p \<in> set g. due e p \<and> k \<in> set (snd p)) \<longleftrightarrow> (\<exists>p \<in> set g. old p \<and> k \<in> set (snd p))" for k using d by blast
  then show ?thesis using serval_major_gc_step [OF assms(1) sub assms(3,4)] unfolding f by simp
qed

lemma serval_major_gc_collects_witness:
  "\<exists>val m db'. serval_insert_into_index 1 2 (snd (new_record 8 (snd (new_record 8 mem_init)))) = Inr (val, m)
    \<and> serval_major_gc 0 2 [(1, [7])] \<lparr>svalues = (\<lambda>_. val), sctl = rrc_init, smem = m\<rparr> = Inr (Some ([], db'))
    \<and> val_epoch (svalues db' 7) = 2 \<and> master (svalues db' 7) = row_final rrc_init val"
proof -
  have r: "new_record 8 mem_init = (1, snd (new_record 8 mem_init))"
    "new_record 8 (snd (new_record 8 mem_init)) = (2, snd (new_record 8 (snd (new_record 8 mem_init))))"
    by (simp_all add: new_record_def mem_init_def)
  obtain val m where v: "serval_insert_into_index 1 2 (snd (new_record 8 (snd (new_record 8 mem_init)))) = Inr (val, m)"
    "row_ok rrc_init val m" "\<forall>v \<in> row_versions rrc_init val. stable m v" "rwl val = 0" "val_epoch val = 0"
    "row_region_ptr val = None" "stab m (row_final rrc_init val) 1"
    by (rule serval_insert_ok [OF mem_ok_init r, of rrc_init]) blast
  let ?db = "\<lparr>svalues = (\<lambda>_. val), sctl = rrc_init, smem = m\<rparr>"
  have rows: "rows_collectable 0 (unat (2 :: u64)) {7} ?db"
    using v by (simp add: rows_collectable_def collectable_def)
  obtain db' where "serval_major_gc 0 2 [(1, [7])] ?db = Inr (Some ([], db'))" "collected_row 2 ?db db' 7"
    using serval_major_gc_collects [OF rows, of "[(1, [7])]"] by auto
  then show ?thesis using v(1,5) by (auto simp: collected_row_def)
qed

end
