(* ===== verification/Bit_Fields.thy ===== *)
theory Bit_Fields
  imports Prelude
begin

text \<open>
  The unions of bit-fields and an integer that the sources use for packed ids
  (protocols/common/tidword.hpp, protocols/common/transaction_id.hpp): a field is a range of bits
  of the integer, the first field declared in the least significant ones.
\<close>

section \<open>Fields of a word\<close>

definition get_field :: "nat \<Rightarrow> nat \<Rightarrow> 'a::len word \<Rightarrow> 'a word" where
  "get_field off width x = take_bit width (drop_bit off x)"

text \<open>An assignment keeps the bits of the value that fit and the other fields.\<close>

definition set_field :: "nat \<Rightarrow> nat \<Rightarrow> 'a::len word \<Rightarrow> 'a word \<Rightarrow> 'a word" where
  "set_field off width v x = (x AND NOT (push_bit off (mask width))) OR push_bit off (take_bit width v)"

named_theorems bitfield_simps \<open>reading a packed id after an assignment\<close>

lemma bit_set_field:
  "bit (set_field off width v x :: 'a::len word) n \<longleftrightarrow> n < LENGTH('a) \<and>
     (if off \<le> n \<and> n < off + width then bit v (n - off) else bit x n)"
  by (auto simp: set_field_def bit_or_iff bit_and_iff bit_not_iff bit_push_bit_iff bit_mask_iff bit_take_bit_iff
      dest: bit_imp_le_length)

lemma get_set_field [bitfield_simps]:
  assumes "off + width \<le> LENGTH('a)"
  shows "get_field off width (set_field off width v (x :: 'a::len word)) = take_bit width v"
  by (rule bit_word_eqI) (use assms in \<open>auto simp: get_field_def bit_take_bit_iff bit_drop_bit_eq bit_set_field\<close>)

lemma get_set_other [bitfield_simps]:
  assumes "off + width \<le> off' \<or> off' + width' \<le> off"
  shows "get_field off width (set_field off' width' v (x :: 'a::len word)) = get_field off width x"
  by (rule bit_word_eqI) (use assms in \<open>auto simp: get_field_def bit_take_bit_iff bit_drop_bit_eq bit_set_field dest: bit_imp_le_length\<close>)

lemma get_field_0 [simp]: "get_field off width 0 = 0"
  by (simp add: get_field_def)

text \<open>A field assigned above all bits that are set adds to the number.\<close>

lemma set_field_clear:
  assumes "\<And>n. off \<le> n \<Longrightarrow> n < off + width \<Longrightarrow> \<not> bit x n"
  shows "set_field off width v (x :: 'a::len word) = x + push_bit off (take_bit width v)"
proof -
  have "set_field off width v x = x OR push_bit off (take_bit width v)"
    by (rule bit_word_eqI) (use assms in \<open>auto simp: bit_set_field bit_or_iff bit_push_bit_iff bit_take_bit_iff\<close>)
  also have "\<dots> = x + push_bit off (take_bit width v)"
  proof -
    have "x AND push_bit off (take_bit width v) = 0"
      by (rule bit_word_eqI) (use assms in \<open>auto simp: bit_and_iff bit_push_bit_iff bit_take_bit_iff\<close>)
    then show ?thesis by (simp add: disjunctive_add_eq_or)
  qed
  finally show ?thesis .
qed

lemma unat_push_take:
  assumes "off + width \<le> LENGTH('a)"
  shows "unat (push_bit off (take_bit width v) :: 'a::len word) = unat v mod 2 ^ width * 2 ^ off"
proof -
  have "unat v mod 2 ^ width < 2 ^ width" by simp
  then have "unat v mod 2 ^ width * 2 ^ off < 2 ^ width * 2 ^ off" by simp
  also have "\<dots> \<le> 2 ^ LENGTH('a)" using assms by (metis power_add power_increasing one_le_numeral add.commute)
  finally have "unat v mod 2 ^ width * 2 ^ off < 2 ^ LENGTH('a)" .
  then show ?thesis
    by (simp only: unsigned_push_bit_eq unsigned_take_bit_eq) (simp add: push_bit_eq_mult take_bit_eq_mod)
qed

section \<open>struct TidWord\<close>

type_synonym tid_word = u64

definition tid_word_init :: tid_word where
  "tid_word_init = 0"

definition tw_lock :: "tid_word \<Rightarrow> bool" where
  "tw_lock obj \<longleftrightarrow> get_field 0 1 obj \<noteq> 0"

definition tw_latest :: "tid_word \<Rightarrow> bool" where
  "tw_latest obj \<longleftrightarrow> get_field 1 1 obj \<noteq> 0"

definition tw_absent :: "tid_word \<Rightarrow> bool" where
  "tw_absent obj \<longleftrightarrow> get_field 2 1 obj \<noteq> 0"

definition tw_tid :: "tid_word \<Rightarrow> u64" where
  "tw_tid obj = get_field 3 29 obj"

definition tw_epoch :: "tid_word \<Rightarrow> u64" where
  "tw_epoch obj = get_field 32 32 obj"

section \<open>struct TxID\<close>

type_synonym tx_id = u64

text \<open>Thread id and counter are \<open>uint32_t\<close> arguments of the constructor.\<close>

definition make_tx_id :: "u32 \<Rightarrow> u32 \<Rightarrow> tx_id" where
  "make_tx_id thread_id tx_counter = set_field 32 32 (ucast thread_id) (set_field 0 32 (ucast tx_counter) 0)"

definition txid_tx_counter :: "tx_id \<Rightarrow> u64" where
  "txid_tx_counter txid = get_field 0 32 txid"

definition txid_thread_id :: "tx_id \<Rightarrow> u64" where
  "txid_thread_id txid = get_field 32 32 txid"

lemma take_bit_ucast: "LENGTH('a) \<le> n \<Longrightarrow> take_bit n (ucast (x :: 'a::len word) :: 'b::len word) = ucast x"
  by (rule bit_word_eqI) (auto simp: bit_take_bit_iff bit_ucast_iff dest: bit_imp_le_length)

lemma make_tx_id_fields [simp]:
  "txid_thread_id (make_tx_id t c) = ucast t" "txid_tx_counter (make_tx_id t c) = ucast c"
  by (simp_all add: make_tx_id_def txid_thread_id_def txid_tx_counter_def bitfield_simps take_bit_ucast)

lemma unat_ucast_up: "LENGTH('a) \<le> LENGTH('b) \<Longrightarrow> unat (ucast (x :: 'a::len word) :: 'b::len word) = unat x"
proof -
  assume "LENGTH('a) \<le> LENGTH('b)"
  then have "(2 :: nat) ^ LENGTH('a) \<le> 2 ^ LENGTH('b)" by (rule power_increasing) simp
  with unsigned_less [of x, where ?'a = nat] have "unat x < 2 ^ LENGTH('b)" by (rule less_le_trans)
  then show ?thesis by (simp add: unsigned_ucast_eq take_bit_nat_eq_self)
qed

lemma ucast_u32_inject: "(ucast (x :: u32) :: u64) = ucast y \<longleftrightarrow> x = y"
proof
  assume "(ucast x :: u64) = ucast y"
  then have "unat (ucast x :: u64) = unat (ucast y :: u64)" by simp
  then show "x = y" by (simp add: unat_ucast_up word_unat_eq_iff)
qed simp

lemma make_tx_id_inject: "make_tx_id t c = make_tx_id t' c' \<longleftrightarrow> t = t' \<and> c = c'"
  by (metis make_tx_id_fields ucast_u32_inject)

end
