(* ===== verification/Epoch_Manager.thy ===== *)
theory Epoch_Manager
  imports Bit_Fields Lock
begin

text \<open>
  protocols/common/epoch_manager.hpp: the global epoch, the workers' epochs and the reclamation of
  memory by epochs. The manager and the workers run concurrently; their calls are split at their
  atomic accesses and interleave at that granularity.
\<close>

section \<open>class Worker\<close>

record em_worker =
  em_worker_id :: u32
  em_tx_counter :: u32
  worker_epoch :: u32

text \<open>The constructor leaves \<open>worker_epoch\<close> uninitialized: it is an argument here.\<close>

definition em_worker_init :: "u32 \<Rightarrow> u32 \<Rightarrow> em_worker" where
  "em_worker_init wid garbage = \<lparr>em_worker_id = wid, em_tx_counter = 1, worker_epoch = garbage\<rparr>"

text \<open>\<open>begin_tx\<close> after it has loaded the global epoch \<open>g\<close>: the new transaction's id and epoch.\<close>

definition em_begin_tx :: "u32 \<Rightarrow> em_worker \<Rightarrow> (tx_id \<times> u32) \<times> em_worker" where
  "em_begin_tx g w =
     (let w1 = w\<lparr>worker_epoch := store_release (worker_epoch w) g\<rparr>;
          txid = make_tx_id (em_worker_id w1) (em_tx_counter w1);
          w2 = w1\<lparr>em_tx_counter := em_tx_counter w1 + 1\<rparr>
      in ((txid, load_acquire (worker_epoch w2)), w2))"

section \<open>class EpochManager\<close>

text \<open>The vector of workers holds pointers, or \<open>nullptr\<close>.\<close>

definition em_init :: "nat \<Rightarrow> nat option list" where
  "em_init num_workers = replicate num_workers None"

definition set_worker :: "nat \<Rightarrow> nat \<Rightarrow> nat option list \<Rightarrow> nat option list res" where
  "set_worker worker_id worker ws =
     guard (worker_id < length ws) OutOfRange
       (assert_then (ws ! worker_id = None) (Inr (ws[worker_id := Some worker])))"

text \<open>One iteration of the loop of \<open>get_smallest_worker_epoch\<close>, and the whole loop.\<close>

definition smaller_epoch :: "(nat \<Rightarrow> em_worker) \<Rightarrow> nat option \<Rightarrow> u32 \<Rightarrow> u32" where
  "smaller_epoch objs w smallest =
     (case w of None \<Rightarrow> smallest | Some p \<Rightarrow> min (load_acquire (worker_epoch (objs p))) smallest)"

definition get_smallest_worker_epoch :: "(nat \<Rightarrow> em_worker) \<Rightarrow> nat option list \<Rightarrow> u32" where
  "get_smallest_worker_epoch objs ws = fold (smaller_epoch objs) ws 0xFFFFFFFF"

definition increment_epoch :: "(nat \<Rightarrow> em_worker) \<Rightarrow> nat option list \<Rightarrow> u32 \<Rightarrow> bool \<times> u32" where
  "increment_epoch objs ws global =
     (let e = load_acquire global
      in if e = get_smallest_worker_epoch objs ws then (True, snd (fetch_add global 1)) else (False, global))"

section \<open>class GarbageCollector\<close>

text \<open>A \<open>std::multimap\<close> as its entries in order; equal keys stay in the order of insertion.\<close>

fun multimap_emplace :: "'k::linorder \<Rightarrow> 'v \<Rightarrow> ('k \<times> 'v) list \<Rightarrow> ('k \<times> 'v) list" where
  "multimap_emplace k v [] = [(k, v)]"
| "multimap_emplace k v ((j, u) # xs) = (if k < j then (k, v) # (j, u) # xs else (j, u) # multimap_emplace k v xs)"

text \<open>The entries before and from \<open>upper_bound(k)\<close>.\<close>

definition upto_bound :: "'k::linorder \<Rightarrow> ('k \<times> 'v) list \<Rightarrow> ('k \<times> 'v) list" where
  "upto_bound k xs = takeWhile (\<lambda>p. fst p \<le> k) xs"

definition from_bound :: "'k::linorder \<Rightarrow> ('k \<times> 'v) list \<Rightarrow> ('k \<times> 'v) list" where
  "from_bound k xs = dropWhile (\<lambda>p. fst p \<le> k) xs"

definition em_collect :: "u32 \<Rightarrow> nat \<Rightarrow> (u32 \<times> nat) list \<Rightarrow> (u32 \<times> nat) list" where
  "em_collect current_epoch ptr container = multimap_emplace current_epoch ptr container"

text \<open>The entries whose pointers are deallocated, and the container that is left.\<close>

definition em_remove :: "u32 \<Rightarrow> (u32 \<times> nat) list \<Rightarrow> (u32 \<times> nat) list \<times> (u32 \<times> nat) list" where
  "em_remove current_epoch container =
     (if current_epoch \<ge> 2
      then (upto_bound (current_epoch - 2) container, from_bound (current_epoch - 2) container)
      else ([], container))"

lemma set_multimap_emplace [simp]: "set (multimap_emplace k v xs) = insert (k, v) (set xs)"
  by (induction k v xs rule: multimap_emplace.induct) auto

lemma sorted_multimap_emplace: "sorted (map fst xs) \<Longrightarrow> sorted (map fst (multimap_emplace k v xs))"
  by (induction k v xs rule: multimap_emplace.induct) auto

lemma set_upto_bound: "sorted (map fst xs) \<Longrightarrow> set (upto_bound k xs) = {p \<in> set xs. fst p \<le> k}"
proof (induction xs)
  case (Cons p xs)
  show ?case
  proof (cases "fst p \<le> k")
    case False
    then have "\<not> fst q \<le> k" if "q \<in> set xs" for q using Cons.prems that by fastforce
    then show ?thesis using False by (auto simp: upto_bound_def)
  qed (use Cons in \<open>auto simp: upto_bound_def\<close>)
qed (simp add: upto_bound_def)

lemma bounds_split: "upto_bound k xs @ from_bound k xs = xs"
  by (simp add: upto_bound_def from_bound_def)

section \<open>Interleavings\<close>

text \<open>
  The manager's thread: between two calls of \<open>increment_epoch\<close>, or in its loop with the global
  epoch it loaded, the workers still to look at and the smallest epoch so far. A worker is between
  transactions, has loaded the global epoch in \<open>begin_tx\<close> and not stored it yet, or runs a
  transaction.
\<close>

datatype manager_pc = MIdle | MScan u32 "nat option list" u32

datatype worker_pc = WIdle | WLoaded u32 | WRunning

record em_state =
  global_epoch :: u32
  em_slots :: "nat option list"
  em_objs :: "nat \<Rightarrow> em_worker"
  em_mpc :: manager_pc
  em_wpc :: "nat \<Rightarrow> worker_pc"
  em_gc :: "nat \<Rightarrow> (u32 \<times> nat) list"
  em_ticks :: nat

datatype em_event = Manage | BeginLoad nat | BeginStore nat | Collect nat nat | Remove nat | EndTx nat

definition manage_step :: "em_state \<Rightarrow> em_state" where
  "manage_step s =
     (case em_mpc s of
        MIdle \<Rightarrow> s\<lparr>em_mpc := MScan (load_acquire (global_epoch s)) (em_slots s) 0xFFFFFFFF\<rparr>
      | MScan e [] smallest \<Rightarrow>
          if e = smallest then s\<lparr>global_epoch := snd (fetch_add (global_epoch s) 1), em_mpc := MIdle, em_ticks := Suc (em_ticks s)\<rparr>
          else s\<lparr>em_mpc := MIdle\<rparr>
      | MScan e (w # ws) smallest \<Rightarrow> s\<lparr>em_mpc := MScan e ws (smaller_epoch (em_objs s) w smallest)\<rparr>)"

text \<open>
  Only registered workers run transactions; a transaction passes its epoch to the collector.
\<close>

definition em_step :: "em_event \<Rightarrow> em_state \<Rightarrow> em_state" where
  "em_step ev s =
     (case ev of
        Manage \<Rightarrow> manage_step s
      | BeginLoad w \<Rightarrow>
          if Some w \<in> set (em_slots s) \<and> em_wpc s w = WIdle
          then s\<lparr>em_wpc := (em_wpc s)(w := WLoaded (load_acquire (global_epoch s)))\<rparr> else s
      | BeginStore w \<Rightarrow>
          (case em_wpc s w of
             WLoaded g \<Rightarrow> s\<lparr>em_objs := (em_objs s)(w := snd (em_begin_tx g (em_objs s w))), em_wpc := (em_wpc s)(w := WRunning)\<rparr>
           | _ \<Rightarrow> s)
      | Collect w p \<Rightarrow>
          if em_wpc s w = WRunning then s\<lparr>em_gc := (em_gc s)(w := em_collect (worker_epoch (em_objs s w)) p (em_gc s w))\<rparr> else s
      | Remove w \<Rightarrow>
          if em_wpc s w = WRunning then s\<lparr>em_gc := (em_gc s)(w := snd (em_remove (worker_epoch (em_objs s w)) (em_gc s w)))\<rparr> else s
      | EndTx w \<Rightarrow> if em_wpc s w = WRunning then s\<lparr>em_wpc := (em_wpc s)(w := WIdle)\<rparr> else s)"

definition em_start :: "nat option list \<Rightarrow> (nat \<Rightarrow> em_worker) \<Rightarrow> em_state" where
  "em_start ws objs = \<lparr>global_epoch = 1, em_slots = ws, em_objs = objs, em_mpc = MIdle, em_wpc = (\<lambda>_. WIdle),
     em_gc = (\<lambda>_. []), em_ticks = 0\<rparr>"

inductive em_reachable :: "nat option list \<Rightarrow> (nat \<Rightarrow> em_worker) \<Rightarrow> em_state \<Rightarrow> bool" for ws objs where
  start: "em_reachable ws objs (em_start ws objs)"
| step: "em_reachable ws objs s \<Longrightarrow> em_reachable ws objs (em_step ev s)"

fun em_run :: "em_event list \<Rightarrow> em_state \<Rightarrow> em_state" where
  "em_run [] s = s"
| "em_run (ev # evs) s = em_run evs (em_step ev s)"

lemma em_run_reachable: "em_reachable ws objs s \<Longrightarrow> em_reachable ws objs (em_run evs s)"
  by (induction evs arbitrary: s) (auto intro: em_reachable.step)

section \<open>The invariant\<close>

text \<open>
  No registered worker is more than one epoch behind the global one, nor ahead of it; what it has
  loaded is not behind its own epoch; and what the manager has seen so far is a lower bound of the
  epochs of the workers it has looked at.
\<close>

definition em_epochs :: "em_state \<Rightarrow> bool" where
  "em_epochs s \<longleftrightarrow> unat (global_epoch s) = Suc (em_ticks s) \<and>
     (\<forall>w. Some w \<in> set (em_slots s) \<longrightarrow>
        unat (worker_epoch (em_objs s w)) \<le> Suc (em_ticks s) \<and> em_ticks s \<le> unat (worker_epoch (em_objs s w)) \<and>
        (\<forall>g. em_wpc s w = WLoaded g \<longrightarrow> worker_epoch (em_objs s w) \<le> g \<and> unat g \<le> Suc (em_ticks s)))
     \<and> (\<forall>w. em_wpc s w \<noteq> WIdle \<longrightarrow> Some w \<in> set (em_slots s))"

definition em_scan :: "em_state \<Rightarrow> bool" where
  "em_scan s \<longleftrightarrow> (\<forall>e rest smallest. em_mpc s = MScan e rest smallest \<longrightarrow> e = global_epoch s \<and>
     (\<exists>seen. em_slots s = seen @ rest \<and> (\<forall>w. Some w \<in> set seen \<longrightarrow> smallest \<le> worker_epoch (em_objs s w))))"

definition em_inv :: "em_state \<Rightarrow> bool" where
  "em_inv s \<longleftrightarrow> em_epochs s \<and> em_scan s \<and> (\<forall>w. sorted (map fst (em_gc s w)))"

lemma em_epochsD:
  assumes "em_epochs s"
  shows "unat (global_epoch s) = Suc (em_ticks s)"
    "Some w \<in> set (em_slots s) \<Longrightarrow> unat (worker_epoch (em_objs s w)) \<le> Suc (em_ticks s)"
    "Some w \<in> set (em_slots s) \<Longrightarrow> em_ticks s \<le> unat (worker_epoch (em_objs s w))"
    "em_wpc s w = WLoaded g \<Longrightarrow> worker_epoch (em_objs s w) \<le> g \<and> unat g \<le> Suc (em_ticks s)"
    "em_wpc s w \<noteq> WIdle \<Longrightarrow> Some w \<in> set (em_slots s)"
  using assms unfolding em_epochs_def by (blast, blast, blast, (metis worker_pc.distinct(1)), blast)

lemma em_epochsI:
  assumes "unat (global_epoch s) = Suc (em_ticks s)"
    and "\<And>w. Some w \<in> set (em_slots s) \<Longrightarrow> unat (worker_epoch (em_objs s w)) \<le> Suc (em_ticks s)"
    and "\<And>w. Some w \<in> set (em_slots s) \<Longrightarrow> em_ticks s \<le> unat (worker_epoch (em_objs s w))"
    and "\<And>w g. em_wpc s w = WLoaded g \<Longrightarrow> worker_epoch (em_objs s w) \<le> g \<and> unat g \<le> Suc (em_ticks s)"
    and "\<And>w. em_wpc s w \<noteq> WIdle \<Longrightarrow> Some w \<in> set (em_slots s)"
  shows "em_epochs s"
  unfolding em_epochs_def using assms by blast

lemma em_begin_tx_epoch [simp]: "worker_epoch (snd (em_begin_tx g w)) = g" "snd (fst (em_begin_tx g w)) = g"
  by (simp_all add: em_begin_tx_def Let_def store_release_def load_acquire_def)

lemma smaller_epoch_le:
  "smaller_epoch objs w m \<le> m" "w = Some p \<Longrightarrow> smaller_epoch objs w m \<le> worker_epoch (objs p)"
  by (auto simp: smaller_epoch_def load_acquire_def split: option.splits)

lemma em_scanI:
  assumes "em_slots s = em_slots t" "em_mpc s = em_mpc t" "global_epoch s = global_epoch t"
    "\<And>w. Some w \<in> set (em_slots t) \<Longrightarrow> worker_epoch (em_objs t w) \<le> worker_epoch (em_objs s w)" "em_scan t"
  shows "em_scan s"
proof (unfold em_scan_def, intro allI impI)
  fix e rest smallest assume "em_mpc s = MScan e rest smallest"
  with assms(5) obtain seen where s: "e = global_epoch t" "em_slots t = seen @ rest"
    "\<And>w. Some w \<in> set seen \<Longrightarrow> smallest \<le> worker_epoch (em_objs t w)" unfolding em_scan_def assms(2) by blast
  have "smallest \<le> worker_epoch (em_objs s w)" if "Some w \<in> set seen" for w
    using s(3) [OF that] assms(4) [of w] that s(2) by (auto intro: order_trans)
  then show "e = global_epoch s \<and> (\<exists>seen. em_slots s = seen @ rest \<and> (\<forall>w. Some w \<in> set seen \<longrightarrow> smallest \<le> worker_epoch (em_objs s w)))"
    using s assms(1,3) by auto
qed

lemma manage_step_inv:
  assumes inv: "em_inv s" and b: "Suc (em_ticks s) < 2 ^ 32 - 1"
  shows "em_inv (manage_step s)"
proof (cases "em_mpc s")
  case MIdle
  then show ?thesis using inv by (auto simp: em_inv_def manage_step_def em_epochs_def em_scan_def load_acquire_def)
next
  case (MScan e rest smallest)
  with inv obtain seen where sc: "e = global_epoch s" "em_slots s = seen @ rest"
    "\<And>w. Some w \<in> set seen \<Longrightarrow> smallest \<le> worker_epoch (em_objs s w)" by (auto simp: em_inv_def em_scan_def)
  show ?thesis
  proof (cases rest)
    case Nil
    show ?thesis
    proof (cases "e = smallest")
      case True
      have g: "unat (global_epoch s) = Suc (em_ticks s)" using inv by (simp add: em_inv_def em_epochs_def)
      have "unat (global_epoch s + 1) = Suc (Suc (em_ticks s))"
        using b g by (simp add: unat_word_ariths)
      moreover have "Suc (em_ticks s) \<le> unat (worker_epoch (em_objs s w))" if "Some w \<in> set (em_slots s)" for w
        using sc(1) sc(3) [of w] that Nil sc(2) True g by (simp add: word_le_nat_alt)
      moreover have "unat g' \<le> Suc (Suc (em_ticks s))" if "em_wpc s w = WLoaded g'" for w g'
        using inv em_epochsD(4) [of s, OF _ that] by (auto simp: em_inv_def)
      ultimately show ?thesis using inv True Nil MScan
        by (auto simp: em_inv_def manage_step_def em_epochs_def em_scan_def fetch_add_def le_SucI)
    qed (use inv Nil MScan in \<open>auto simp: em_inv_def manage_step_def em_epochs_def em_scan_def\<close>)
  next
    case (Cons w ws)
    let ?m = "smaller_epoch (em_objs s) w smallest"
    have "?m \<le> worker_epoch (em_objs s v)" if "Some v \<in> set (seen @ [w])" for v
      using that sc(3) [of v] smaller_epoch_le(1) [where objs = "em_objs s" and w = w and m = smallest]
        smaller_epoch_le(2) [where objs = "em_objs s" and w = w and m = smallest] by (auto intro: order_trans)
    then have "em_scan (manage_step s)" using sc(1,2) MScan Cons
      by (auto simp: em_scan_def manage_step_def intro!: exI [of _ "seen @ [w]"])
    then show ?thesis using inv MScan Cons by (auto simp: em_inv_def manage_step_def em_epochs_def)
  qed
qed

lemma em_ticks_mono: "em_ticks s \<le> em_ticks (em_step ev s)"
  by (auto simp: em_step_def manage_step_def split: em_event.splits manager_pc.splits list.splits worker_pc.splits)

lemma em_step_slots [simp]: "em_slots (em_step ev s) = em_slots s"
  by (auto simp: em_step_def manage_step_def split: em_event.splits manager_pc.splits list.splits worker_pc.splits)

lemma em_step_inv:
  assumes inv: "em_inv s" and b: "em_ticks (em_step ev s) < 2 ^ 32 - 2"
  shows "em_inv (em_step ev s)"
proof -
  have t: "Suc (em_ticks s) < 2 ^ 32 - 1" using b em_ticks_mono [of s ev] by simp
  have ep: "em_epochs s" and sc: "em_scan s" and srt: "\<And>w. sorted (map fst (em_gc s w))" using inv by (auto simp: em_inv_def)
  show ?thesis
  proof (cases ev)
    case Manage
    then show ?thesis using manage_step_inv [OF inv t] by (simp add: em_step_def)
  next
    case (BeginLoad w)
    have "worker_epoch (em_objs s w) \<le> global_epoch s" if "Some w \<in> set (em_slots s)"
      using em_epochsD(1,2) [OF ep] that by (simp add: word_le_nat_alt)
    then show ?thesis using ep sc srt BeginLoad
      by (auto simp: em_step_def em_inv_def em_epochs_def load_acquire_def intro!: em_scanI [OF _ _ _ _ sc])
  next
    case (BeginStore w)
    show ?thesis
    proof (cases "em_wpc s w")
      case (WLoaded g)
      have g: "worker_epoch (em_objs s w) \<le> g" "unat g \<le> Suc (em_ticks s)" "Some w \<in> set (em_slots s)"
        using em_epochsD(4,5) [OF ep, of w] WLoaded by auto
      then have "em_ticks s \<le> unat g" using em_epochsD(3) [OF ep g(3)] by (simp add: word_le_nat_alt)
      moreover have "em_scan (em_step ev s)"
        by (rule em_scanI [OF _ _ _ _ sc]) (use g(1) BeginStore WLoaded in \<open>auto simp: em_step_def\<close>)
      moreover have "em_epochs (em_step ev s)"
        by (rule em_epochsI) (use em_epochsD [OF ep] BeginStore WLoaded g(2,3) \<open>em_ticks s \<le> unat g\<close> in \<open>auto simp: em_step_def split: if_splits\<close>)
      ultimately show ?thesis using srt BeginStore WLoaded by (simp add: em_step_def em_inv_def)
    qed (use inv BeginStore in \<open>simp_all add: em_step_def\<close>)
  next
    case (Collect w p)
    have "em_scan (em_step ev s)" by (rule em_scanI [OF _ _ _ _ sc]) (use Collect in \<open>auto simp: em_step_def\<close>)
    moreover have "sorted (map fst (em_collect k p (em_gc s w)))" for k
      unfolding em_collect_def by (rule sorted_multimap_emplace [OF srt])
    ultimately show ?thesis using ep srt Collect by (auto simp: em_step_def em_inv_def em_epochs_def)
  next
    case (Remove w)
    have "em_scan (em_step ev s)" by (rule em_scanI [OF _ _ _ _ sc]) (use Remove in \<open>auto simp: em_step_def\<close>)
    moreover have "sorted (map fst (snd (em_remove k (em_gc s w))))" for k
      using srt [of w] bounds_split [of "k - 2" "em_gc s w"] by (metis em_remove_def map_append snd_conv sorted_append)
    ultimately show ?thesis using ep srt Remove by (auto simp: em_step_def em_inv_def em_epochs_def)
  next
    case (EndTx w)
    have "em_scan (em_step ev s)" by (rule em_scanI [OF _ _ _ _ sc]) (use EndTx in \<open>auto simp: em_step_def\<close>)
    then show ?thesis using ep srt EndTx by (auto simp: em_step_def em_inv_def em_epochs_def)
  qed
qed

lemma em_reachable_inv:
  assumes "em_reachable ws objs s" and "\<And>w. Some w \<in> set ws \<Longrightarrow> worker_epoch (objs w) \<le> 1" and "em_ticks s < 2 ^ 32 - 2"
  shows "em_inv s \<and> em_slots s = ws"
  using assms(1,3)
proof induction
  case start
  have "unat (worker_epoch (objs w)) \<le> 1" if "Some w \<in> set ws" for w
    using assms(2) [OF that] by (simp add: word_le_nat_alt)
  then show ?case by (auto simp: em_inv_def em_start_def em_epochs_def em_scan_def)
next
  case (step s ev)
  then have "em_ticks s < 2 ^ 32 - 2" using em_ticks_mono [of s ev] by simp
  then show ?case using step em_step_inv by simp
qed

section \<open>Properties\<close>

text \<open>C17: Reclamation by epochs is safe, for any interleaving of the manager's scans and the workers' accesses, as long as
  the 32-bit epoch does not wrap around and the workers were constructed with an epoch of at most 1: when a
  transaction deallocates a pointer that was retired in epoch \<open>e\<close>, every transaction that is running began in a later
  epoch than \<open>e\<close>, so none of them can have found the pointer before it was retired.\<close>

theorem epoch_reclamation_safe:
  assumes "em_reachable ws objs s" and "\<forall>w. Some w \<in> set ws \<longrightarrow> worker_epoch (objs w) \<le> 1" and "em_ticks s < 2 ^ 32 - 2"
    and "em_wpc s w = WRunning" and "(e, p) \<in> set (fst (em_remove (worker_epoch (em_objs s w)) (em_gc s w)))"
    and "em_wpc s v = WRunning"
  shows "e < worker_epoch (em_objs s v)"
proof -
  have inv: "em_epochs s" "sorted (map fst (em_gc s w))"
    using em_reachable_inv [OF assms(1) _ assms(3)] assms(2) by (auto simp: em_inv_def)
  let ?c = "worker_epoch (em_objs s w)"
  have reg: "Some w \<in> set (em_slots s)" "Some v \<in> set (em_slots s)"
    using em_epochsD(5) [OF inv(1), of w] em_epochsD(5) [OF inv(1), of v] assms(4,6) by auto
  have c: "2 \<le> ?c" "e \<le> ?c - 2"
    using assms(5) inv(2) by (auto simp: em_remove_def set_upto_bound split: if_splits)
  then have "unat e \<le> unat ?c - 2" by (simp add: word_le_nat_alt unat_sub)
  moreover have "2 \<le> unat ?c" using c(1) by (simp add: word_le_nat_alt)
  moreover have "unat ?c \<le> Suc (unat (worker_epoch (em_objs s v)))"
    using em_epochsD(2) [OF inv(1) reg(1)] em_epochsD(3) [OF inv(1) reg(2)] by linarith
  ultimately show ?thesis by (simp add: word_less_nat_alt)
qed

text \<open>Worker 0 retires pointer 7 in epoch 1 and removes it in epoch 3, while worker 1 runs in epoch 2.\<close>

definition reclaiming_run :: "em_event list" where
  "reclaiming_run = [BeginLoad 0, BeginStore 0, Collect 0 7, EndTx 0, BeginLoad 1, BeginStore 1, EndTx 1,
     Manage, Manage, Manage, Manage, BeginLoad 0, BeginStore 0, EndTx 0, BeginLoad 1, BeginStore 1,
     Manage, Manage, Manage, Manage, BeginLoad 0, BeginStore 0]"

abbreviation reclaiming_state :: em_state where
  "reclaiming_state \<equiv> em_run reclaiming_run (em_start [Some 0, Some 1] (\<lambda>w. em_worker_init (of_nat w) 0))"

lemma reclaiming_state:
  "em_ticks reclaiming_state = 2" "em_wpc reclaiming_state 0 = WRunning" "em_wpc reclaiming_state 1 = WRunning"
  "fst (em_remove (worker_epoch (em_objs reclaiming_state 0)) (em_gc reclaiming_state 0)) = [(1, 7)]"
  by code_simp+

theorem epoch_reclamation_safe_witness:
  "fst (em_remove (worker_epoch (em_objs reclaiming_state 0)) (em_gc reclaiming_state 0)) = [(1, 7)]
   \<and> 1 < worker_epoch (em_objs reclaiming_state 1)"
  using epoch_reclamation_safe [OF em_run_reachable [OF em_reachable.start], of "[Some 0, Some 1]" "\<lambda>w. em_worker_init (of_nat w) 0"
      reclaiming_run 0 1 7 1] reclaiming_state
  by (simp add: em_worker_init_def)

end
