(* ===== verification/Timestamps.thy ===== *)
theory Timestamps
  imports Epoch_Manager "HOL-Library.Multiset"
begin

text \<open>
  protocols/common/timestamp_manager.hpp: timestamps from per-worker counters, the one-sided
  synchronization of the counters, and the reclamation of memory by timestamps. Only the owner of a
  counter writes it, and what it reads of the others may be any value they had, so a call is one
  step.
\<close>

section \<open>The state\<close>

record ts_worker =
  txn_cnt :: u64
  smallest_txn_cnt :: u64
  largest_txn_cnt :: u64
  ts_worker_id :: u8
  synchronize_cnt :: u64
  next_worker_offset :: u8
  abort_cnt :: u64
  ts_tx_counter :: u32

definition ts_worker_init :: "u32 \<Rightarrow> u64 \<Rightarrow> ts_worker" where
  "ts_worker_init worker_id sync_cnt =
     \<lparr>txn_cnt = 1, smallest_txn_cnt = 1, largest_txn_cnt = 1, ts_worker_id = ucast worker_id, synchronize_cnt = sync_cnt,
      next_worker_offset = 0, abort_cnt = 0, ts_tx_counter = 1\<rparr>"

record ts_manager =
  num_workers :: u8
  max_worker_id :: u8
  ts_workers :: "nat option list"

definition ts_manager_init :: "u8 \<Rightarrow> ts_manager" where
  "ts_manager_init n = \<lparr>num_workers = n, max_worker_id = n - 1, ts_workers = replicate (unat n) None\<rparr>"

definition ts_set_worker :: "u8 \<Rightarrow> nat \<Rightarrow> ts_manager \<Rightarrow> ts_manager res" where
  "ts_set_worker worker_id worker tsm =
     guard (unat worker_id < length (ts_workers tsm)) OutOfRange
       (Inr (tsm\<lparr>ts_workers := (ts_workers tsm)[unat worker_id := Some worker]\<rparr>))"

section \<open>class TimeStampManager\<close>

definition get_gc_txn_cnt :: "(nat \<Rightarrow> ts_worker) \<Rightarrow> ts_manager \<Rightarrow> u64 \<times> u64" where
  "get_gc_txn_cnt objs tsm =
     fold (\<lambda>w (smallest, largest). case w of None \<Rightarrow> (smallest, largest)
             | Some p \<Rightarrow> let c = load_acquire (txn_cnt (objs p)) in (min c smallest, max c largest))
       (ts_workers tsm) (- 1, 0)"

definition set_gc_ts :: "ts_manager \<Rightarrow> (nat \<Rightarrow> ts_worker) \<Rightarrow> (nat \<Rightarrow> ts_worker)" where
  "set_gc_ts tsm objs =
     (case get_gc_txn_cnt objs tsm of (smallest, largest) \<Rightarrow>
        fold (\<lambda>w objs. case w of None \<Rightarrow> objs
                | Some p \<Rightarrow> objs(p := (objs p)\<lparr>smallest_txn_cnt := smallest - 1, largest_txn_cnt := largest\<rparr>))
          (ts_workers tsm) objs)"

text \<open>The worker that \<open>synchronize\<close> looks at; the arithmetic is on \<open>int\<close>.\<close>

definition next_worker_id :: "ts_manager \<Rightarrow> u8 \<Rightarrow> u8 \<Rightarrow> nat" where
  "next_worker_id tsm worker_id offset =
     (unat worker_id + (unat offset mod unat (max_worker_id tsm) + 1)) mod unat (num_workers tsm)"

definition tsm_synchronize :: "ts_manager \<Rightarrow> u8 \<Rightarrow> u64 \<Rightarrow> u8 \<Rightarrow> (nat \<Rightarrow> ts_worker) \<Rightarrow> (nat \<Rightarrow> ts_worker) res" where
  "tsm_synchronize tsm worker_id cnt offset objs =
     (if max_worker_id tsm = 0 then Inr objs
      else guard (num_workers tsm \<noteq> 0) OutOfRange
        (let n = next_worker_id tsm worker_id offset
         in guard (n < length (ts_workers tsm)) OutOfRange
              (case ts_workers tsm ! n of None \<Rightarrow> Inr objs
               | Some p \<Rightarrow>
                   let next_txn_cnt = load_acquire (txn_cnt (objs p))
                   in if cnt < next_txn_cnt then
                        guard (unat worker_id < length (ts_workers tsm)) OutOfRange
                          (case ts_workers tsm ! unat worker_id of None \<Rightarrow> Inl NullDeref
                           | Some q \<Rightarrow> Inr (objs(q := (objs q)\<lparr>txn_cnt := next_txn_cnt\<rparr>)))
                      else Inr objs)))"

section \<open>class Worker\<close>

definition get_ts :: "u8 \<Rightarrow> u64 \<Rightarrow> u64" where
  "get_ts worker_id cnt = push_bit 8 cnt OR ucast worker_id"

definition synchronize :: "ts_manager \<Rightarrow> nat \<Rightarrow> (nat \<Rightarrow> ts_worker) \<Rightarrow> (nat \<Rightarrow> ts_worker) res" where
  "synchronize tsm w objs =
     tsm_synchronize tsm (ts_worker_id (objs w)) (load_acquire (txn_cnt (objs w))) (next_worker_offset (objs w))
       (objs(w := (objs w)\<lparr>next_worker_offset := next_worker_offset (objs w) + 1\<rparr>))"

text \<open>The part that \<open>get_new_ts\<close> and \<open>get_abort_boosted_ts\<close> share: add, synchronize every so often, make the timestamp.\<close>

definition draw_ts :: "ts_manager \<Rightarrow> u64 \<Rightarrow> nat \<Rightarrow> (nat \<Rightarrow> ts_worker) \<Rightarrow> (u64 \<times> (nat \<Rightarrow> ts_worker)) res" where
  "draw_ts tsm step w objs =
     (let (cnt, c') = fetch_add (txn_cnt (objs w)) step;
          objs1 = objs(w := (objs w)\<lparr>txn_cnt := c'\<rparr>)
      in guard (synchronize_cnt (objs w) \<noteq> 0) OutOfRange
           (ebind (if cnt mod synchronize_cnt (objs w) = 0 then synchronize tsm w objs1 else Inr objs1) (\<lambda>objs2.
              Inr (get_ts (ts_worker_id (objs w)) cnt, objs2))))"

definition get_new_ts :: "ts_manager \<Rightarrow> nat \<Rightarrow> (nat \<Rightarrow> ts_worker) \<Rightarrow> (u64 \<times> (nat \<Rightarrow> ts_worker)) res" where
  "get_new_ts tsm w objs = draw_ts tsm 1 w (objs(w := (objs w)\<lparr>abort_cnt := 0\<rparr>))"

definition get_abort_boosted_ts :: "ts_manager \<Rightarrow> nat \<Rightarrow> (nat \<Rightarrow> ts_worker) \<Rightarrow> (u64 \<times> (nat \<Rightarrow> ts_worker)) res" where
  "get_abort_boosted_ts tsm w objs =
     (let a = abort_cnt (objs w) + 1
      in draw_ts tsm (2 ^ unat (min a 2)) w (objs(w := (objs w)\<lparr>abort_cnt := a\<rparr>)))"

definition get_smallest_ts :: "ts_worker \<Rightarrow> u64" where
  "get_smallest_ts w = get_ts (ts_worker_id w) (load_acquire (smallest_txn_cnt w))"

definition get_largest_ts :: "ts_worker \<Rightarrow> u64" where
  "get_largest_ts w = get_ts (ts_worker_id w) (load_acquire (largest_txn_cnt w))"

text \<open>The arguments of the new transaction: its id, timestamp, and the bounds.\<close>

definition ts_begin_tx :: "ts_manager \<Rightarrow> nat \<Rightarrow> (nat \<Rightarrow> ts_worker) \<Rightarrow> ((tx_id \<times> u64 \<times> u64 \<times> u64) \<times> (nat \<Rightarrow> ts_worker)) res" where
  "ts_begin_tx tsm w objs =
     (let txid = make_tx_id (ucast (ts_worker_id (objs w))) (ts_tx_counter (objs w))
      in ebind (get_new_ts tsm w (objs(w := (objs w)\<lparr>ts_tx_counter := ts_tx_counter (objs w) + 1\<rparr>))) (\<lambda>(ts, objs').
           Inr ((txid, ts, get_smallest_ts (objs' w), get_largest_ts (objs' w)), objs')))"

section \<open>class GarbageCollector\<close>

record ts_gc =
  temp_gc_map :: "(u64 \<times> nat) list"
  ts_gc_map :: "(u64 \<times> nat) list"

definition ts_collect :: "u64 \<Rightarrow> nat \<Rightarrow> ts_gc \<Rightarrow> ts_gc" where
  "ts_collect current_largest_ts ptr g = g\<lparr>temp_gc_map := multimap_emplace current_largest_ts ptr (temp_gc_map g)\<rparr>"

definition attach_new_ts :: "u64 \<Rightarrow> ts_gc \<Rightarrow> ts_gc" where
  "attach_new_ts new_largest_ts g =
     \<lparr>temp_gc_map = from_bound new_largest_ts (temp_gc_map g),
      ts_gc_map = fold (\<lambda>(_, ptr). multimap_emplace new_largest_ts ptr) (upto_bound new_largest_ts (temp_gc_map g)) (ts_gc_map g)\<rparr>"

definition ts_remove :: "u64 \<Rightarrow> u64 \<Rightarrow> ts_gc \<Rightarrow> nat list \<times> ts_gc" where
  "ts_remove smallest_ts new_largest_ts g =
     (let g1 = attach_new_ts new_largest_ts g
      in (map snd (upto_bound smallest_ts (ts_gc_map g1)), g1\<lparr>ts_gc_map := from_bound smallest_ts (ts_gc_map g1)\<rparr>))"

section \<open>Histories of calls\<close>

datatype ts_event = NewTs nat | BoostedTs nat | SetGc

text \<open>The timestamps handed out, with their workers, latest first.\<close>

fun ts_run :: "ts_manager \<Rightarrow> ts_event list \<Rightarrow> (nat \<times> u64) list \<times> (nat \<Rightarrow> ts_worker) \<Rightarrow> ((nat \<times> u64) list \<times> (nat \<Rightarrow> ts_worker)) res" where
  "ts_run tsm [] (hs, objs) = Inr (hs, objs)"
| "ts_run tsm (NewTs w # evs) (hs, objs) =
     ebind (get_new_ts tsm w objs) (\<lambda>(ts, objs'). ts_run tsm evs ((w, ts) # hs, objs'))"
| "ts_run tsm (BoostedTs w # evs) (hs, objs) =
     ebind (get_abort_boosted_ts tsm w objs) (\<lambda>(ts, objs'). ts_run tsm evs ((w, ts) # hs, objs'))"
| "ts_run tsm (SetGc # evs) (hs, objs) = ts_run tsm evs (hs, set_gc_ts tsm objs)"

definition ts_start :: "u64 \<Rightarrow> nat \<Rightarrow> ts_worker" where
  "ts_start sync_cnt w = ts_worker_init (of_nat w) sync_cnt"

definition all_workers :: "nat \<Rightarrow> ts_manager" where
  "all_workers n = (ts_manager_init (of_nat n))\<lparr>ts_workers := map Some [0..<n]\<rparr>"

section \<open>Timestamps are unique\<close>

lemma unat_get_ts:
  assumes "unat cnt < 2 ^ 56"
  shows "unat (get_ts wid cnt) = unat cnt * 256 + unat wid"
proof -
  have "push_bit 8 cnt AND (ucast wid :: u64) = 0"
    by (rule bit_word_eqI) (auto simp: bit_and_iff bit_push_bit_iff bit_ucast_iff dest: bit_imp_le_length)
  then have "get_ts wid cnt = push_bit 8 cnt + ucast wid" by (simp add: get_ts_def disjunctive_add_eq_or)
  moreover have p: "unat (push_bit 8 cnt) = unat cnt * 256"
    using assms by (simp only: unsigned_push_bit_eq) (simp add: push_bit_eq_mult take_bit_nat_eq_self)
  moreover have w: "unat (ucast wid :: u64) = unat wid" by (simp add: unat_ucast_up)
  moreover have "unat wid < 256" using unsigned_less [of wid, where ?'a = nat] by simp
  ultimately show ?thesis using assms by (simp add: unat_word_ariths)
qed

text \<open>
  \<open>B\<close> bounds all counters, which are positive; \<open>hs\<close> are the timestamps handed out so far, each below its worker's
  counter, and each worker's in descending order (the latest first).
\<close>

definition ts_inv :: "nat \<Rightarrow> nat \<Rightarrow> (nat \<times> u64) list \<Rightarrow> (nat \<Rightarrow> ts_worker) \<Rightarrow> bool" where
  "ts_inv n B hs objs \<longleftrightarrow>
     (\<forall>w < n. ts_worker_id (objs w) = of_nat w \<and> synchronize_cnt (objs w) \<noteq> 0 \<and> 0 < unat (txn_cnt (objs w))
        \<and> unat (txn_cnt (objs w)) \<le> B)
     \<and> (\<forall>(w, ts) \<in> set hs. w < n \<and> unat ts mod 256 = w \<and> unat ts div 256 < unat (txn_cnt (objs w)))
     \<and> sorted_wrt (\<lambda>p q. fst p = fst q \<longrightarrow> snd q < snd p) hs"

lemma all_workers_simps [simp]:
  assumes "n < 256"
  shows "unat (num_workers (all_workers n)) = n" "ts_workers (all_workers n) = map Some [0..<n]"
    "0 < n \<Longrightarrow> unat (max_worker_id (all_workers n)) = n - 1"
  using assms by (simp_all add: all_workers_def ts_manager_init_def unat_of_nat take_bit_nat_eq_self unat_sub word_le_nat_alt)

text \<open>The worker that is looked at is another one.\<close>

lemma next_worker_id_other:
  assumes "n < 256" and "w < n" and "max_worker_id (all_workers n) \<noteq> 0"
  shows "next_worker_id (all_workers n) (of_nat w) off < n" "next_worker_id (all_workers n) (of_nat w) off \<noteq> w"
proof -
  have m: "unat (max_worker_id (all_workers n)) = n - 1" using assms by simp
  with assms(3) have "n - 1 \<noteq> 0" by (metis unat_eq_0)
  then have k: "unat off mod (n - 1) + 1 < n" using mod_less_divisor [of "n - 1" "unat off"] by linarith
  have "(w + k) mod n \<noteq> w" if "0 < k" "k < n" for k
    using that assms(2) by (cases "w + k < n") (auto simp: le_mod_geq)
  from this [OF _ k] have "(w + (unat off mod (n - 1) + 1)) mod n \<noteq> w" by simp
  moreover have "next_worker_id (all_workers n) (of_nat w) off = (w + (unat off mod (n - 1) + 1)) mod n"
    using assms(1,2) unfolding next_worker_id_def m by (simp add: unat_of_nat take_bit_nat_eq_self)
  ultimately show "next_worker_id (all_workers n) (of_nat w) off < n" "next_worker_id (all_workers n) (of_nat w) off \<noteq> w"
    using assms(2) by simp_all
qed

lemma tsm_synchronize_eq:
  assumes n: "n < 256" "w < n" and m: "max_worker_id (all_workers n) \<noteq> 0"
  shows "tsm_synchronize (all_workers n) (of_nat w) cnt off objs =
    (let c = txn_cnt (objs (next_worker_id (all_workers n) (of_nat w) off))
     in Inr (if cnt < c then objs(w := (objs w)\<lparr>txn_cnt := c\<rparr>) else objs))"
proof -
  have nz: "num_workers (all_workers n) \<noteq> 0" using n all_workers_simps(1) [OF n(1)] by (metis unsigned_0 less_nat_zero_code)
  have w: "unat (of_nat w :: u8) = w" using n by (simp add: unat_of_nat take_bit_nat_eq_self)
  show ?thesis using next_worker_id_other [OF n m] nz n w m by (simp add: tsm_synchronize_def Let_def load_acquire_def)
qed

lemma tsm_synchronize_ok:
  assumes n: "n < 256" "w < n" and objs: "ts_worker_id (objs w) = of_nat w"
  shows "\<exists>c. tsm_synchronize (all_workers n) (of_nat w) cnt off objs = Inr (objs(w := (objs w)\<lparr>txn_cnt := c\<rparr>))
    \<and> (c = txn_cnt (objs w) \<or> cnt < c \<and> (\<exists>v < n. c = txn_cnt (objs v)))"
proof (cases "max_worker_id (all_workers n) = 0")
  case True
  then show ?thesis by (intro exI [of _ "txn_cnt (objs w)"]) (simp add: tsm_synchronize_def)
next
  case False
  let ?c = "txn_cnt (objs (next_worker_id (all_workers n) (of_nat w) off))"
  show ?thesis using tsm_synchronize_eq [OF n False, of cnt off objs] next_worker_id_other(1) [OF n False]
    by (intro exI [of _ "if cnt < ?c then ?c else txn_cnt (objs w)"]) (auto simp: Let_def)
qed

lemma draw_ts_ok:
  assumes inv: "ts_inv n B hs objs" and n: "n < 256" "w < n" and B: "B + 4 < 2 ^ 56" and st: "1 \<le> unat st" "unat st \<le> 4"
  shows "\<exists>ts objs'. draw_ts (all_workers n) st w objs = Inr (ts, objs') \<and> ts_inv n (B + 4) ((w, ts) # hs) objs'"
proof -
  let ?c = "txn_cnt (objs w)" let ?o1 = "objs(w := (objs w)\<lparr>txn_cnt := ?c + st\<rparr>)"
  let ?o2 = "?o1(w := (?o1 w)\<lparr>next_worker_offset := next_worker_offset (?o1 w) + 1\<rparr>)"
  have w: "ts_worker_id (objs w) = of_nat w" "synchronize_cnt (objs w) \<noteq> 0" "unat ?c \<le> B"
    using inv n(2) by (auto simp: ts_inv_def)
  have c1: "unat (?c + st) = unat ?c + unat st" using w(3) B st(2) by (simp add: unat_word_ariths)
  have bd: "unat (txn_cnt (?o1 v)) \<le> B + 4" if "v < n" for v
    using that inv c1 st w(3) by (auto simp: ts_inv_def le_SucI trans_le_add1)
  obtain o' c where o': "draw_ts (all_workers n) st w objs = Inr (get_ts (of_nat w) ?c, o')" "txn_cnt (o' w) = c"
    "\<And>v. v \<noteq> w \<Longrightarrow> o' v = objs v" "ts_worker_id (o' w) = of_nat w" "synchronize_cnt (o' w) = synchronize_cnt (objs w)"
    "unat ?c + unat st \<le> unat c" "unat c \<le> B + 4"
  proof (cases "?c mod synchronize_cnt (objs w) = 0")
    case False
    then have "draw_ts (all_workers n) st w objs = Inr (get_ts (of_nat w) ?c, ?o1)"
      using w by (simp add: draw_ts_def fetch_add_def Let_def)
    then show thesis using that [of ?o1 "?c + st"] w c1 bd [OF n(2)] by simp
  next
    case True
    from tsm_synchronize_ok [OF n, of ?o2 "?c + st" "next_worker_offset (objs w)"] w obtain c where
      c: "tsm_synchronize (all_workers n) (of_nat w) (?c + st) (next_worker_offset (objs w)) ?o2 = Inr (?o2(w := (?o2 w)\<lparr>txn_cnt := c\<rparr>))"
      "c = ?c + st \<or> ?c + st < c \<and> (\<exists>v < n. c = txn_cnt (?o2 v))" by auto
    have "draw_ts (all_workers n) st w objs = Inr (get_ts (of_nat w) ?c, ?o2(w := (?o2 w)\<lparr>txn_cnt := c\<rparr>))"
      using w True c(1) by (simp add: draw_ts_def fetch_add_def Let_def synchronize_def load_acquire_def)
    moreover have "unat (txn_cnt (objs v)) \<le> B" if "v < n" for v using inv that by (simp add: ts_inv_def)
    then have "unat ?c + unat st \<le> unat c \<and> unat c \<le> B + 4"
      using c(2) c1 w(3) st(2) by (fastforce simp: word_less_nat_alt split: if_splits)
    ultimately show thesis using that [of "?o2(w := (?o2 w)\<lparr>txn_cnt := c\<rparr>)" c] w by simp
  qed
  have ts: "unat (get_ts (of_nat w) ?c) = unat ?c * 256 + w"
    using unat_get_ts [of ?c "of_nat w"] w(3) B n by (simp add: unat_of_nat take_bit_nat_eq_self)
  have "snd p < get_ts (of_nat w) ?c" if "p \<in> set hs" "fst p = w" for p
  proof -
    have p: "unat (snd p) mod 256 = w" "unat (snd p) div 256 < unat ?c" using inv that by (auto simp: ts_inv_def)
    then have "unat (snd p) < unat ?c * 256 + w" by (metis div_mult_mod_eq add_less_cancel_right mult_less_cancel2 zero_less_numeral)
    then show ?thesis by (simp add: word_less_nat_alt ts)
  qed
  moreover have "unat ts div 256 < unat (txn_cnt (o' v))" if "(v, ts) \<in> set hs" for v ts
    using inv that o'(2,6) o'(3) [of v] by (cases "v = w") (fastforce simp: ts_inv_def)+
  moreover have "unat (txn_cnt (o' v)) \<le> B + 4" if "v < n" for v
    using inv that o'(2,7) o'(3) [of v] by (cases "v = w") (auto simp: ts_inv_def)
  moreover have "ts_worker_id (o' v) = of_nat v \<and> synchronize_cnt (o' v) \<noteq> 0 \<and> 0 < unat (txn_cnt (o' v))" if "v < n" for v
    using inv that o'(2,4-6) o'(3) [of v] w(2) st(1) by (cases "v = w") (auto simp: ts_inv_def)
  ultimately have "ts_inv n (B + 4) ((w, get_ts (of_nat w) ?c) # hs) o'"
    using inv n o'(2,6) st ts by (auto simp: ts_inv_def)
  then show ?thesis using o'(1) by blast
qed

lemma set_gc_ts_frame:
  "txn_cnt (set_gc_ts tsm objs w) = txn_cnt (objs w)" "ts_worker_id (set_gc_ts tsm objs w) = ts_worker_id (objs w)"
  "synchronize_cnt (set_gc_ts tsm objs w) = synchronize_cnt (objs w)"
proof -
  let ?f = "\<lambda>a b w objs. case w of None \<Rightarrow> objs | Some p \<Rightarrow> objs(p := (objs p)\<lparr>smallest_txn_cnt := a, largest_txn_cnt := b\<rparr>)"
  have "txn_cnt (fold (?f a b) ws objs w) = txn_cnt (objs w) \<and> ts_worker_id (fold (?f a b) ws objs w) = ts_worker_id (objs w)
    \<and> synchronize_cnt (fold (?f a b) ws objs w) = synchronize_cnt (objs w)" for a b ws
    by (induction ws arbitrary: objs) (auto split: option.splits)
  then show "txn_cnt (set_gc_ts tsm objs w) = txn_cnt (objs w)" "ts_worker_id (set_gc_ts tsm objs w) = ts_worker_id (objs w)"
    "synchronize_cnt (set_gc_ts tsm objs w) = synchronize_cnt (objs w)"
    by (simp_all add: set_gc_ts_def split: prod.split)
qed

lemma ts_inv_frame:
  assumes "ts_inv n B hs objs" and "\<And>w. txn_cnt (objs' w) = txn_cnt (objs w) \<and> ts_worker_id (objs' w) = ts_worker_id (objs w)
    \<and> synchronize_cnt (objs' w) = synchronize_cnt (objs w)"
  shows "ts_inv n B hs objs'"
  using assms unfolding ts_inv_def by simp

definition event_ok :: "nat \<Rightarrow> ts_event \<Rightarrow> bool" where
  "event_ok n ev = (case ev of NewTs w \<Rightarrow> w < n | BoostedTs w \<Rightarrow> w < n | SetGc \<Rightarrow> True)"

lemma boost_step: "1 \<le> unat (2 ^ unat (min (a :: u64) 2) :: u64)" "unat (2 ^ unat (min a 2) :: u64) \<le> 4"
proof -
  have "unat (min a 2 :: u64) \<le> 2" by (simp add: min_def word_le_nat_alt)
  then consider "unat (min a 2) = 0" | "unat (min a 2) = 1" | "unat (min a 2) = 2" by linarith
  then show "1 \<le> unat (2 ^ unat (min (a :: u64) 2) :: u64)" "unat (2 ^ unat (min a 2) :: u64) \<le> 4" by (cases; simp)+
qed

lemma ts_run_ok:
  assumes "n < 256" and "ts_inv n B hs objs" and "list_all (event_ok n) evs" and "B + 4 * length evs < 2 ^ 56"
  shows "\<exists>hs' objs'. ts_run (all_workers n) evs (hs, objs) = Inr (hs', objs') \<and> ts_inv n (B + 4 * length evs) hs' objs'"
  using assms(2-4)
proof (induction evs arbitrary: B hs objs)
  case (Cons ev evs)
  have b: "B + 4 < 2 ^ 56" "(B + 4) + 4 * length evs < 2 ^ 56" "list_all (event_ok n) evs" using Cons.prems by auto
  have set: "ts_inv n B hs (objs(w := (objs w)\<lparr>abort_cnt := a\<rparr>))" for w a
    by (rule ts_inv_frame [OF Cons.prems(1)]) simp
  have step: "\<exists>hs' objs'. ts_run (all_workers n) evs ((w, ts) # hs, o1) = Inr (hs', objs') \<and> ts_inv n (B + 4 * length (ev # evs)) hs' objs'"
    if "ts_inv n (B + 4) ((w, ts) # hs) o1" for w ts o1
    using Cons.IH [OF that b(3,2)] by (simp add: algebra_simps)
  show ?case
  proof (cases ev)
    case (NewTs w)
    then have w: "w < n" using Cons.prems(2) by (simp add: event_ok_def)
    from draw_ts_ok [OF set assms(1) w b(1), of 1 w 0] step show ?thesis by (fastforce simp: NewTs get_new_ts_def)
  next
    case (BoostedTs w)
    then have w: "w < n" using Cons.prems(2) by (simp add: event_ok_def)
    let ?a = "abort_cnt (objs w) + 1"
    from draw_ts_ok [OF set assms(1) w b(1) boost_step [of ?a], of w ?a] step show ?thesis
      by (fastforce simp: BoostedTs get_abort_boosted_ts_def Let_def)
  next
    case SetGc
    have "ts_inv n B hs (set_gc_ts (all_workers n) objs)" by (rule ts_inv_frame [OF Cons.prems(1)]) (simp add: set_gc_ts_frame)
    then have "ts_inv n (B + 4) hs (set_gc_ts (all_workers n) objs)" by (auto simp: ts_inv_def)
    from Cons.IH [OF this b(3,2)] show ?thesis by (simp add: SetGc algebra_simps)
  qed
qed simp

lemma ts_inv_start: "n < 256 \<Longrightarrow> sync_cnt \<noteq> 0 \<Longrightarrow> ts_inv n 1 [] (ts_start sync_cnt)"
proof -
  have "(ucast (of_nat w :: u32) :: u8) = of_nat w" if "w < 256" for w
    using that by (simp add: word_unat_eq_iff unsigned_ucast_eq unat_of_nat take_bit_nat_eq_self)
  then show "n < 256 \<Longrightarrow> sync_cnt \<noteq> 0 \<Longrightarrow> ts_inv n 1 [] (ts_start sync_cnt)"
    by (simp add: ts_inv_def ts_start_def ts_worker_init_def)
qed

lemma ts_inv_distinct:
  assumes "ts_inv n B hs objs"
  shows "distinct (map snd hs)"
proof -
  have "snd p \<noteq> snd q" if "p \<in> set hs" "q \<in> set hs" "fst p = fst q \<longrightarrow> snd q < snd p" for p q
  proof
    assume eq: "snd p = snd q"
    have "unat (snd p) mod 256 = fst p" "unat (snd q) mod 256 = fst q" using assms that(1,2) by (auto simp: ts_inv_def)
    then have "fst p = fst q" using eq by simp
    then show False using that(3) eq by simp
  qed
  moreover have "sorted_wrt (\<lambda>p q. fst p = fst q \<longrightarrow> snd q < snd p) hs" using assms by (simp add: ts_inv_def)
  ultimately have "sorted_wrt (\<lambda>p q. snd p \<noteq> snd q) hs" by (metis (mono_tags, lifting) sorted_wrt_mono_rel)
  then show ?thesis by (induction hs) auto
qed

lemma ts_run_length:
  "ts_run tsm evs (hs, objs) = Inr (hs', objs') \<Longrightarrow> length hs' = length hs + length (filter (\<lambda>ev. ev \<noteq> SetGc) evs)"
proof (induction evs arbitrary: hs objs)
  case (Cons ev evs)
  then show ?case by (cases ev) (auto simp: ebind_eq_Inr)
qed simp

section \<open>The bound for reclamation\<close>

lemma gc_txn_cnt_less:
  "x < fst (get_gc_txn_cnt objs (all_workers n)) \<longleftrightarrow> x < - 1 \<and> (\<forall>v < n. x < txn_cnt (objs v))" if "n < 256"
proof -
  let ?f = "\<lambda>w (smallest, largest). case w of None \<Rightarrow> (smallest, largest)
             | Some p \<Rightarrow> let c = load_acquire (txn_cnt (objs p)) in (min c smallest, max c largest)"
  have "x < fst (fold ?f (map Some xs) a) \<longleftrightarrow> x < fst a \<and> (\<forall>v \<in> set xs. x < txn_cnt (objs v))" for xs a
    by (induction xs arbitrary: a) (auto simp: load_acquire_def Let_def split: prod.split)
  from this [of "[0..<n]" "(- 1, 0)"] show ?thesis using that by (auto simp: get_gc_txn_cnt_def)
qed

lemma set_gc_ts_smallest:
  assumes "n < 256" and "w < n"
  shows "smallest_txn_cnt (set_gc_ts (all_workers n) objs w) = fst (get_gc_txn_cnt objs (all_workers n)) - 1"
proof -
  let ?g = "\<lambda>a b w objs. case w of None \<Rightarrow> objs | Some p \<Rightarrow> objs(p := (objs p)\<lparr>smallest_txn_cnt := a, largest_txn_cnt := b\<rparr>)"
  have "smallest_txn_cnt (fold (?g a b) (map Some xs) objs w) = (if w \<in> set xs then a else smallest_txn_cnt (objs w))"
    for a b xs and objs :: "nat \<Rightarrow> ts_worker"
    by (induction xs arbitrary: objs) auto
  then show ?thesis using assms by (simp add: set_gc_ts_def split: prod.split)
qed

lemma get_ts_less:
  assumes "unat a < 2 ^ 56" and "unat b < 2 ^ 56"
  shows "get_ts wid a < get_ts wid b \<longleftrightarrow> a < b"
  using assms by (simp add: word_less_nat_alt unat_get_ts)

text \<open>The smallest timestamp, against one with a counter that the workers' counters do not fall below.\<close>

lemma gc_bound_less:
  assumes n: "n < 256" "w < n" and wid: "ts_worker_id (objs w) = of_nat w"
    and B: "unat c + 1 < 2 ^ 56" "\<And>v. v < n \<Longrightarrow> 0 < unat (txn_cnt (objs v)) \<and> unat (txn_cnt (objs v)) < 2 ^ 56"
  shows "get_ts (of_nat w) c < get_smallest_ts (set_gc_ts (all_workers n) objs w) \<longleftrightarrow> (\<forall>v < n. c + 1 < txn_cnt (objs v))"
proof -
  let ?m = "fst (get_gc_txn_cnt objs (all_workers n))"
  note less = gc_txn_cnt_less [OF n(1), of _ objs]
  have c1: "unat (c + 1) = unat c + 1" using B(1) by (simp add: unat_word_ariths)
  have "0 < ?m" unfolding less
    using B(2) by (auto simp: word_gt_0 unat_gt_0)
  moreover have "\<not> txn_cnt (objs w) < ?m" using n(2) by (auto simp: less)
  ultimately have m: "0 < unat ?m" "unat ?m < 2 ^ 56"
    using B(2) [OF n(2)] by (simp_all add: word_less_nat_alt)
  then have m1: "unat (?m - 1) = unat ?m - 1" by (simp add: unat_sub word_le_nat_alt)
  have "get_ts (of_nat w) c < get_smallest_ts (set_gc_ts (all_workers n) objs w) \<longleftrightarrow> c < ?m - 1"
    using get_ts_less [of c "?m - 1" "of_nat w"] m m1 B(1) wid set_gc_ts_smallest [OF n, of objs]
    by (simp add: get_smallest_ts_def load_acquire_def set_gc_ts_frame)
  also have "\<dots> \<longleftrightarrow> c + 1 < ?m" using m m1 c1 by (auto simp: word_less_nat_alt)
  also have "\<dots> \<longleftrightarrow> (\<forall>v < n. c + 1 < txn_cnt (objs v))"
    unfolding less
    using c1 B(1) by (simp add: word_less_nat_alt unsigned_minus_1_eq_mask mask_eq_exp_minus_1)
  finally show ?thesis .
qed

text \<open>A draw, with the counter that it leaves.\<close>

lemma get_new_ts_eq:
  assumes inv: "ts_inv n B hs objs" and n: "n < 256" "w < n"
  obtains objs' where "get_new_ts (all_workers n) w objs = Inr (get_ts (of_nat w) (txn_cnt (objs w)), objs')"
    and "\<forall>v. v \<noteq> w \<longrightarrow> objs' v = objs v" and "ts_worker_id (objs' w) = of_nat w"
    and "(txn_cnt (objs w) + 1 < txn_cnt (objs' w)) \<longleftrightarrow>
      max_worker_id (all_workers n) \<noteq> 0 \<and> txn_cnt (objs w) mod synchronize_cnt (objs w) = 0
      \<and> txn_cnt (objs w) + 1 < txn_cnt (objs (next_worker_id (all_workers n) (of_nat w) (next_worker_offset (objs w))))"
proof -
  let ?c = "txn_cnt (objs w)" let ?o1 = "objs(w := (objs w)\<lparr>abort_cnt := 0, txn_cnt := ?c + 1\<rparr>)"
  let ?o2 = "?o1(w := (?o1 w)\<lparr>next_worker_offset := next_worker_offset (objs w) + 1\<rparr>)"
  have w: "ts_worker_id (objs w) = of_nat w" "synchronize_cnt (objs w) \<noteq> 0" using inv n(2) by (auto simp: ts_inv_def)
  note draw = get_new_ts_def draw_ts_def fetch_add_def Let_def w synchronize_def load_acquire_def
  show thesis
  proof (cases "?c mod synchronize_cnt (objs w) = 0 \<and> max_worker_id (all_workers n) \<noteq> 0")
    case True
    let ?v = "next_worker_id (all_workers n) (of_nat w) (next_worker_offset (objs w))"
    have "?o2 ?v = objs ?v" using next_worker_id_other(2) [OF n] True by simp
    then show ?thesis using True that [of "if ?c + 1 < txn_cnt (objs ?v) then ?o2(w := (?o2 w)\<lparr>txn_cnt := txn_cnt (objs ?v)\<rparr>) else ?o2"]
      by (simp add: draw tsm_synchronize_eq [OF n])
  next
    case False
    then show ?thesis using that [of "if ?c mod synchronize_cnt (objs w) = 0 then ?o2 else ?o1"]
      by (auto simp: draw tsm_synchronize_def)
  qed
qed

section \<open>Reclamation\<close>

lemma mset_multimap_emplace [simp]: "mset (multimap_emplace k v xs) = add_mset (k, v) (mset xs)"
  by (induction k v xs rule: multimap_emplace.induct) auto

lemma bounds_filter:
  assumes "sorted (map fst xs)"
  shows "upto_bound k xs = filter (\<lambda>p. fst p \<le> k) xs \<and> from_bound k xs = filter (\<lambda>p. \<not> fst p \<le> k) xs"
  using assms
proof (induction xs)
  case (Cons p xs)
  show ?case
  proof (cases "fst p \<le> k")
    case False
    then have "\<not> fst q \<le> k" if "q \<in> set xs" for q using Cons.prems that by fastforce
    then show ?thesis using False by (auto simp: upto_bound_def from_bound_def filter_empty_conv intro!: filter_True [symmetric])
  qed (use Cons in \<open>simp_all add: upto_bound_def from_bound_def\<close>)
qed (simp add: upto_bound_def from_bound_def)

lemma mset_bounds:
  assumes "sorted (map fst xs)"
  shows "mset (upto_bound k xs) = filter_mset (\<lambda>p. fst p \<le> k) (mset xs)" "mset (from_bound k xs) = filter_mset (\<lambda>p. \<not> fst p \<le> k) (mset xs)"
    "sorted (map fst (from_bound k xs))"
  using bounds_filter [OF assms, of k] sorted_filter [OF assms] by simp_all

lemma fold_emplace:
  "mset (fold (\<lambda>(_, ptr). multimap_emplace k ptr) xs g) = mset (map (\<lambda>p. (k, snd p)) xs) + mset g"
  "sorted (map fst g) \<Longrightarrow> sorted (map fst (fold (\<lambda>(_, ptr). multimap_emplace k ptr) xs g))"
  by (induction xs arbitrary: g) (auto simp: sorted_multimap_emplace)

section \<open>Properties\<close>

text \<open>C19: Up to 255 registered workers draw fewer than 2 to the 50 timestamps, in any order of their calls, with
  boosted draws after aborts and synchronizations of their counters in between: no call fails, all timestamps that
  are handed out are different, and those of one worker ascend.\<close>

theorem timestamps_unique:
  assumes "n < 256" and "sync_cnt \<noteq> 0" and "list_all (event_ok n) evs" and "length evs < 2 ^ 50"
  shows "\<exists>hs objs. ts_run (all_workers n) evs ([], ts_start sync_cnt) = Inr (hs, objs)
    \<and> length hs = length (filter (\<lambda>ev. ev \<noteq> SetGc) evs) \<and> distinct (map snd hs)
    \<and> sorted_wrt (\<lambda>p q. fst p = fst q \<longrightarrow> snd q < snd p) hs"
proof -
  have "1 + 4 * length evs < 2 ^ 56" using assms(4) by simp
  from ts_run_ok [OF assms(1) ts_inv_start [OF assms(1,2)] assms(3) this] obtain hs objs where
    r: "ts_run (all_workers n) evs ([], ts_start sync_cnt) = Inr (hs, objs)" "ts_inv n (1 + 4 * length evs) hs objs" by blast
  moreover have "sorted_wrt (\<lambda>p q. fst p = fst q \<longrightarrow> snd q < snd p) hs" using r(2) by (simp add: ts_inv_def)
  ultimately show ?thesis using ts_run_length [OF r(1)] ts_inv_distinct [OF r(2)] by auto
qed

theorem timestamps_unique_witness:
  "\<exists>hs objs. ts_run (all_workers 2) [NewTs 1, NewTs 0, BoostedTs 1, SetGc, NewTs 1] ([], ts_start 2) = Inr (hs, objs)
     \<and> length hs = 4 \<and> distinct (map snd hs)"
  using timestamps_unique [of 2 2 "[NewTs 1, NewTs 0, BoostedTs 1, SetGc, NewTs 1]"] by (auto simp: event_ok_def)

text \<open>C40: The bound for reclamation is not a lower bound of the running transactions' timestamps. After any history of
  fewer than 2 to the 50 calls by up to 255 workers, the next draw of a worker succeeds; if \<open>set_gc_ts\<close> is called
  right after it, the smallest timestamp that the worker then sees is above the timestamp it has just drawn, for the
  transaction that has only begun, exactly when there are other workers, the draw synchronized the counters, and the
  counters of all the other workers were more than one ahead.\<close>

theorem smallest_ts_overtakes:
  assumes "n < 256" and "sync_cnt \<noteq> 0" and "list_all (event_ok n) evs" and "length evs < 2 ^ 50"
    and "ts_run (all_workers n) evs ([], ts_start sync_cnt) = Inr (hs, objs)" and "w < n"
  shows "\<exists>ts objs'. get_new_ts (all_workers n) w objs = Inr (ts, objs')
    \<and> (ts < get_smallest_ts (set_gc_ts (all_workers n) objs' w) \<longleftrightarrow>
         2 \<le> n \<and> txn_cnt (objs w) mod synchronize_cnt (objs w) = 0
         \<and> (\<forall>v < n. v \<noteq> w \<longrightarrow> txn_cnt (objs w) + 1 < txn_cnt (objs v)))"
proof -
  let ?c = "txn_cnt (objs w)" let ?B = "1 + 4 * length evs"
  have B: "?B + 4 < 2 ^ 56" using assms(4) by simp
  have inv: "ts_inv n ?B hs objs"
    using ts_run_ok [OF assms(1) ts_inv_start [OF assms(1,2)] assms(3)] assms(4,5) by fastforce
  have cnt: "0 < unat (txn_cnt (objs v))" "unat (txn_cnt (objs v)) \<le> ?B" if "v < n" for v
    using inv that by (auto simp: ts_inv_def)
  obtain objs' where d: "get_new_ts (all_workers n) w objs = Inr (get_ts (of_nat w) ?c, objs')"
    "\<forall>v. v \<noteq> w \<longrightarrow> objs' v = objs v" "ts_worker_id (objs' w) = of_nat w" 
    "?c + 1 < txn_cnt (objs' w) \<longleftrightarrow> max_worker_id (all_workers n) \<noteq> 0 \<and> ?c mod synchronize_cnt (objs w) = 0
      \<and> ?c + 1 < txn_cnt (objs (next_worker_id (all_workers n) (of_nat w) (next_worker_offset (objs w))))"
    by (rule get_new_ts_eq [OF inv assms(1,6)])
  have "\<exists>hs'. ts_inv n (?B + 4) hs' objs'"
  proof -
    have "ts_inv n ?B hs (objs(w := (objs w)\<lparr>abort_cnt := 0\<rparr>))" by (rule ts_inv_frame [OF inv]) simp
    from draw_ts_ok [OF this assms(1,6) B, of 1] d(1) show ?thesis by (auto simp: get_new_ts_def)
  qed
  then obtain hs' where inv': "ts_inv n (?B + 4) hs' objs'" by blast
  have several: "max_worker_id (all_workers n) \<noteq> 0 \<longleftrightarrow> 2 \<le> n"
    using all_workers_simps(3) [OF assms(1)] assms(6) unat_eq_0 [of "max_worker_id (all_workers n)"] by linarith
  have own: "?c + 1 < txn_cnt (objs' w) \<and> (\<forall>v < n. v \<noteq> w \<longrightarrow> ?c + 1 < txn_cnt (objs' v)) \<longleftrightarrow>
      2 \<le> n \<and> ?c mod synchronize_cnt (objs w) = 0 \<and> (\<forall>v < n. v \<noteq> w \<longrightarrow> ?c + 1 < txn_cnt (objs v))"
    using d(2,4) next_worker_id_other [OF assms(1,6)] several by metis
  have "0 < unat (txn_cnt (objs' v)) \<and> unat (txn_cnt (objs' v)) < 2 ^ 56" if "v < n" for v
    using inv' that B by (auto simp: ts_inv_def)
  note counters = this
  have c: "unat ?c + 1 < 2 ^ 56" using cnt(2) [OF assms(6)] B by simp
  have "get_ts (of_nat w) ?c < get_smallest_ts (set_gc_ts (all_workers n) objs' w) \<longleftrightarrow> (\<forall>v < n. ?c + 1 < txn_cnt (objs' v))"
    by (rule gc_bound_less) (use assms(1,6) d(3) c counters in auto)
  then show ?thesis using d(1) own assms(6) by metis
qed

theorem smallest_ts_overtakes_witness:
  "\<exists>hs objs ts objs'. ts_run (all_workers 2) [NewTs 1, NewTs 1, NewTs 1, NewTs 1, NewTs 0] ([], ts_start 2) = Inr (hs, objs)
     \<and> get_new_ts (all_workers 2) 0 objs = Inr (ts, objs') \<and> ts < get_smallest_ts (set_gc_ts (all_workers 2) objs' 0)"
proof -
  let ?evs = "[NewTs 1, NewTs 1, NewTs 1, NewTs 1, NewTs 0]"
  have "case ts_run (all_workers 2) ?evs ([], ts_start 2) of
      Inl e \<Rightarrow> False | Inr (hs, objs) \<Rightarrow> txn_cnt (objs 0) = 2 \<and> txn_cnt (objs 1) = 5 \<and> synchronize_cnt (objs 0) = 2"
    by (simp add: get_new_ts_def draw_ts_def synchronize_def tsm_synchronize_def next_worker_id_def fetch_add_def load_acquire_def
        ts_start_def ts_worker_init_def all_workers_def ts_manager_init_def Let_def upt_rec)
  then obtain hs objs where r: "ts_run (all_workers 2) ?evs ([], ts_start 2) = Inr (hs, objs)"
    and c: "txn_cnt (objs 0) = 2" "txn_cnt (objs 1) = 5" "synchronize_cnt (objs 0) = 2"
    by (auto split: sum.splits)
  have "(\<forall>v < 2. v \<noteq> 0 \<longrightarrow> (2 :: u64) + 1 < txn_cnt (objs v))" using c(2) by (auto simp: less_2_cases_iff)
  then show ?thesis using smallest_ts_overtakes [of 2 2 ?evs hs objs 0] r c by (fastforce simp: event_ok_def)
qed

text \<open>The two-stage container of retired pointers loses nothing and frees nothing twice: \<open>remove\<close> frees exactly the
  pointers whose timestamp is at most the smallest one, and with them, if the new largest timestamp is at most the
  smallest one too, those collected up to the new largest one; all others stay.\<close>

theorem ts_remove_exact:
  assumes "sorted (map fst (temp_gc_map g))" and "sorted (map fst (ts_gc_map g))" and "ts_remove s l g = (freed, g')"
  shows "mset freed = image_mset snd (filter_mset (\<lambda>p. fst p \<le> s) (mset (ts_gc_map g)))
      + (if l \<le> s then image_mset snd (filter_mset (\<lambda>p. fst p \<le> l) (mset (temp_gc_map g))) else {#})
    \<and> mset freed + mset (map snd (temp_gc_map g')) + mset (map snd (ts_gc_map g'))
      = mset (map snd (temp_gc_map g)) + mset (map snd (ts_gc_map g))
    \<and> sorted (map fst (temp_gc_map g')) \<and> sorted (map fst (ts_gc_map g'))"
proof -
  let ?up = "upto_bound l (temp_gc_map g)" let ?gc = "fold (\<lambda>(_, ptr). multimap_emplace l ptr) ?up (ts_gc_map g)"
  have f: "freed = map snd (upto_bound s ?gc)" "temp_gc_map g' = from_bound l (temp_gc_map g)" "ts_gc_map g' = from_bound s ?gc"
    using assms(3) by (auto simp: ts_remove_def attach_new_ts_def Let_def)
  have srt: "sorted (map fst ?gc)" by (rule fold_emplace(2) [OF assms(2)])
  have gc: "mset ?gc = image_mset (\<lambda>p. (l, snd p)) (filter_mset (\<lambda>p. fst p \<le> l) (mset (temp_gc_map g))) + mset (ts_gc_map g)"
    by (simp add: fold_emplace(1) mset_bounds(1) [OF assms(1)])
  have "mset freed = image_mset snd (filter_mset (\<lambda>p. fst p \<le> s) (mset ?gc))"
    by (simp add: f mset_bounds(1) [OF srt])
  also have "\<dots> = image_mset snd (filter_mset (\<lambda>p. fst p \<le> s) (mset (ts_gc_map g)))
      + (if l \<le> s then image_mset snd (filter_mset (\<lambda>p. fst p \<le> l) (mset (temp_gc_map g))) else {#})"
    by (simp add: gc filter_mset_image_mset image_mset.compositionality comp_def)
  finally have freed: "mset freed = \<dots>" .
  have split: "mset (map snd (upto_bound k xs)) + mset (map snd (from_bound k xs)) = mset (map snd xs)" for k and xs :: "(u64 \<times> nat) list"
    by (metis bounds_split map_append mset_append)
  have "mset (map snd ?gc) = mset (map snd ?up) + mset (map snd (ts_gc_map g))"
    using gc by (simp add: mset_bounds(1) [OF assms(1)] image_mset.compositionality comp_def)
  then have "mset freed + mset (map snd (temp_gc_map g')) + mset (map snd (ts_gc_map g'))
      = mset (map snd (temp_gc_map g)) + mset (map snd (ts_gc_map g))"
    using split [of s ?gc] split [of l "temp_gc_map g"] by (simp add: f algebra_simps)
  then show ?thesis using freed mset_bounds(3) [OF assms(1)] mset_bounds(3) [OF srt] by (simp add: f)
qed

theorem ts_remove_exact_witness:
  "\<exists>freed g'. ts_remove 5 4 (ts_collect 3 30 \<lparr>temp_gc_map = [(9, 90)], ts_gc_map = [(2, 20), (8, 80)]\<rparr>) = (freed, g')
     \<and> mset freed = {#20, 30#}"
proof -
  let ?g = "ts_collect 3 30 \<lparr>temp_gc_map = [(9, 90)], ts_gc_map = [(2, 20), (8, 80)]\<rparr>"
  obtain freed g' where r: "ts_remove 5 4 ?g = (freed, g')" by fastforce
  have "sorted (map fst (temp_gc_map ?g))" "sorted (map fst (ts_gc_map ?g))" by (simp_all add: ts_collect_def)
  from ts_remove_exact [OF this r] have "mset freed = {#20, 30#}" by (simp add: ts_collect_def)
  then show ?thesis using r by blast
qed

end
