(* ===== verification/Xoshiro_Jump.thy ===== *)
theory Xoshiro_Jump
  imports Rand_Gen
begin

text \<open>
  The jumps of class Xoshiro256PlusPlus against the number of calls that the comments of
  utils/random.hpp state for them. A list of bits is a polynomial over the field of two elements
  and acts on the states with the state step for its variable; the loops of the jumps evaluate the
  polynomial of their table. The state step is annihilated by \<open>characteristic\<close>, so the polynomials
  can be squared modulo it, and 128 and 192 squarings of the variable give the two tables.
\<close>

section \<open>States as vectors\<close>

lemma xo_xor_simps [simp]: "xo_xor a xo_zero = a" "xo_xor xo_zero a = a" "xo_xor a a = xo_zero"
  by (simp_all add: xo_xor_def xo_zero_def)

lemma xo_xor_assoc: "xo_xor (xo_xor a b) c = xo_xor a (xo_xor b c)"
  by (simp add: xo_xor_def xor.assoc)

lemma xo_xor_commute: "xo_xor a b = xo_xor b a"
  by (simp add: xo_xor_def xor.commute)

lemma xo_xor_left_commute: "xo_xor a (xo_xor b c) = xo_xor b (xo_xor a c)"
  by (simp add: xo_xor_def xor.left_commute)

lemmas xo_xor_ac = xo_xor_assoc xo_xor_commute xo_xor_left_commute

lemma xo_xor_self [simp]: "xo_xor a (xo_xor a b) = b"
  by (simp flip: xo_xor_assoc)

lemma xo_xor_eq_zero: "xo_xor a b = xo_zero \<longleftrightarrow> a = b"
  by (metis xo_xor_self xo_xor_simps(1,3))

lemma xo_steps_linear: "(xo_state_step ^^ n) (xo_xor a b) = xo_xor ((xo_state_step ^^ n) a) ((xo_state_step ^^ n) b)"
  by (induction n) (simp_all add: xo_step_linear)

lemma xo_steps_zero [simp]: "(xo_state_step ^^ n) xo_zero = xo_zero"
  by (induction n) (simp_all add: xo_step_zero)

lemma xo_step_eq_zero: "xo_state_step s = xo_zero \<longleftrightarrow> s = xo_zero"
  using xo_step_inject [of s xo_zero] by (auto simp: xo_step_zero)

text \<open>The state step moves every state but the zero state.\<close>

lemma xo_step_fixed:
  assumes "xo_state_step s = s"
  shows "s = xo_zero"
proof -
  have e: "s0 s XOR (s3 s XOR s1 s) = s0 s" "s1 s XOR (s2 s XOR s0 s) = s1 s"
    "(s2 s XOR s0 s) XOR push_bit 17 (s1 s) = s2 s" "rotl (s3 s XOR s1 s) 45 = s3 s"
    using arg_cong [OF assms, of s0] arg_cong [OF assms, of s1] arg_cong [OF assms, of s2]
      arg_cong [OF assms, of s3] by (simp_all add: xo_step_eq)
  have cancel: "y = 0" if "x XOR y = x" for x y :: u64
    using that by (metis xor.assoc xor.left_neutral xor_self_eq)
  have z: "s3 s XOR s1 s = 0" "s2 s XOR s0 s = 0" using cancel e(1,2) by blast+
  then have s3: "s3 s = 0" using e(4) by (simp add: rotl_def)
  then have s1: "s1 s = 0" using z(1) by simp
  then have s2: "s2 s = 0" using e(3) z(2) by simp
  then have "s0 s = 0" using z(2) by simp
  then show ?thesis using s1 s2 s3 by (simp add: xo_zero_def)
qed

section \<open>Polynomials acting on states\<close>

fun pact :: "bool list \<Rightarrow> xoshiro \<Rightarrow> xoshiro" where
  "pact [] s = xo_zero"
| "pact (b # bs) s = xo_xor (if b then s else xo_zero) (pact bs (xo_state_step s))"

lemma jump_bits_pact: "jump_bits bs acc s = xo_xor acc (pact bs s)"
  by (induction bs acc s rule: jump_bits.induct) (simp_all add: xo_next_def xo_xor_ac)

lemma pact_linear: "pact q (xo_xor a b) = xo_xor (pact q a) (pact q b)"
  by (induction q arbitrary: a b) (simp_all add: xo_step_linear xo_xor_ac)

lemma pact_step: "pact q (xo_state_step s) = xo_state_step (pact q s)"
  by (induction q arbitrary: s) (simp_all add: xo_step_linear xo_step_zero)

lemma pact_steps: "pact q ((xo_state_step ^^ n) s) = (xo_state_step ^^ n) (pact q s)"
  by (induction n) (simp_all add: pact_step)

lemma pact_zero [simp]: "pact q xo_zero = xo_zero"
  by (induction q) (simp_all add: xo_step_zero)

lemma pact_append: "pact (p @ q) s = xo_xor (pact p s) (pact q ((xo_state_step ^^ length p) s))"
  by (induction p arbitrary: s) (simp_all add: xo_xor_ac funpow_swap1)

lemma pact_replicate [simp]: "pact (replicate n False) s = xo_zero"
  by (induction n arbitrary: s) simp_all

lemma pact_commute: "pact p (pact q s) = pact q (pact p s)"
  by (induction p arbitrary: s) (simp_all add: pact_linear pact_step flip: pact_step)

fun padd :: "bool list \<Rightarrow> bool list \<Rightarrow> bool list" where
  "padd [] q = q"
| "padd p [] = p"
| "padd (a # p) (b # q) = (a \<noteq> b) # padd p q"

lemma pact_padd: "pact (padd p q) s = xo_xor (pact p s) (pact q s)"
  by (induction p q arbitrary: s rule: padd.induct) (auto simp: xo_xor_ac)

lemma length_padd [simp]: "length (padd p q) = max (length p) (length q)"
  by (induction p q rule: padd.induct) auto

text \<open>Squaring spreads the coefficients.\<close>

fun psquare :: "bool list \<Rightarrow> bool list" where
  "psquare [] = []"
| "psquare (b # bs) = b # False # psquare bs"

lemma length_psquare [simp]: "length (psquare q) = 2 * length q"
  by (induction q) simp_all

lemma psquare_append: "psquare (p @ q) = psquare p @ psquare q"
  by (induction p) simp_all

lemma pact_psquare: "pact (psquare q) s = pact q (pact q s)"
proof (induction q arbitrary: s)
  case (Cons b q)
  then show ?case by (simp add: pact_linear pact_step xo_step_linear xo_xor_ac)
qed simp

text \<open>The sum of the polynomials of a table that a list of bits selects.\<close>

fun select_sum :: "bool list \<Rightarrow> bool list list \<Rightarrow> bool list \<Rightarrow> bool list" where
  "select_sum (b # bs) (q # qs) acc = select_sum bs qs (if b then padd q acc else acc)"
| "select_sum bs qs acc = acc"

lemma select_sum_eval:
  "select_sum (True # bs) (q # qs) acc = select_sum bs qs (padd q acc)"
  "select_sum (False # bs) (q # qs) acc = select_sum bs qs acc" "select_sum [] qs acc = acc"
  by simp_all

lemma length_table_bits [simp]: "length (table_bits tbl) = 64 * length tbl"
  by (induction tbl) (simp_all add: table_bits_def)

section \<open>Evaluation of the polynomials\<close>

text \<open>The bits of a numeral, and equations that need no case analysis of their right-hand sides.\<close>

fun num_bits :: "nat \<Rightarrow> num \<Rightarrow> bool list" where
  "num_bits 0 k = []"
| "num_bits (Suc n) num.One = True # replicate n False"
| "num_bits (Suc n) (num.Bit0 k) = False # num_bits n k"
| "num_bits (Suc n) (num.Bit1 k) = True # num_bits n k"

lemma num_bits_int: "map (bit (numeral k :: int)) [0..<n] = num_bits n k"
proof (induction n k rule: num_bits.induct)
  case (2 n)
  then show ?case by (simp add: map_upt_Suc del: upt_Suc) (simp add: list_eq_iff_nth_eq)
qed (simp_all add: map_upt_Suc del: upt_Suc)

lemma num_bits_word: "map (bit (numeral k :: u64)) [0..<64] = num_bits 64 k"
  unfolding num_bits_int [symmetric] by (simp add: bit_numeral_word_iff)

lemma table_bits_eval:
  "table_bits (numeral k # tbl) = num_bits 64 k @ table_bits tbl" "table_bits [] = []"
  by (simp_all only: table_bits_def list.map concat.simps num_bits_word)

lemma num_bits_numeral:
  "num_bits (numeral m) num.One = True # replicate (pred_numeral m) False"
  "num_bits (numeral m) (num.Bit0 k) = False # num_bits (pred_numeral m) k"
  "num_bits (numeral m) (num.Bit1 k) = True # num_bits (pred_numeral m) k"
  by (simp_all add: numeral_eq_Suc)

lemma list_numeral:
  "replicate (numeral m) x = x # replicate (pred_numeral m) x" "replicate 0 x = []"
  "take (numeral m) (y # ys) = y # take (pred_numeral m) ys" "take 0 ys = []"
  "drop (numeral m) (y # ys) = drop (pred_numeral m) ys" "drop 0 ys = ys"
  "(y # ys) @ zs = y # (ys @ zs)" "[] @ zs = zs"
  by (simp_all add: numeral_eq_Suc)

lemma padd_eval:
  "padd (True # p) (True # q) = False # padd p q" "padd (True # p) (False # q) = True # padd p q"
  "padd (False # p) (True # q) = True # padd p q" "padd (False # p) (False # q) = False # padd p q"
  "padd [] q = q" "padd p [] = p"
  by (auto elim: list.exhaust) (cases p; simp)

lemmas bits_eval = table_bits_eval num_bits_numeral num_bits.simps(1) list_numeral padd_eval select_sum_eval
  pred_numeral_simps BitM.simps

section \<open>States as lists of bits\<close>

definition word_of :: "bool list \<Rightarrow> u64" where
  "word_of bs = horner_sum of_bool 2 bs"

lemma bit_word_of: "bit (word_of bs) n \<longleftrightarrow> n < 64 \<and> n < length bs \<and> bs ! n"
  by (simp add: word_of_def bit_horner_sum_bit_word_iff)

lemma nth_padd: "n < length (padd p q) \<and> padd p q ! n \<longleftrightarrow> (n < length p \<and> p ! n) \<noteq> (n < length q \<and> q ! n)"
  by (induction p q arbitrary: n rule: padd.induct) (auto simp: nth_Cons split: nat.splits)

lemma word_of_padd: "word_of (padd p q) = word_of p XOR word_of q"
  by (rule bit_eqI) (use nth_padd in \<open>auto simp: bit_word_of bit_xor_iff\<close>)

definition of_bits :: "bool list \<Rightarrow> xoshiro" where
  "of_bits bs = \<lparr>s0 = word_of bs, s1 = word_of (drop 64 bs), s2 = word_of (drop 128 bs), s3 = word_of (drop 192 bs)\<rparr>"

lemma drop_padd: "drop n (padd p q) = padd (drop n p) (drop n q)"
proof (induction p q arbitrary: n rule: padd.induct)
  case (2 a p)
  show ?case by (cases "drop n (a # p)") simp_all
next
  case (3 a p b q)
  then show ?case by (cases n) simp_all
qed simp

lemma of_bits_padd: "of_bits (padd p q) = xo_xor (of_bits p) (of_bits q)"
  by (simp add: of_bits_def xo_xor_def word_of_padd drop_padd)

text \<open>The state step on four lists of 64 bits.\<close>

type_synonym bit_state = "bool list \<times> bool list \<times> bool list \<times> bool list"

definition bit_words :: "bool list \<Rightarrow> bool list \<Rightarrow> bool list \<Rightarrow> bool list \<Rightarrow> bit_state" where
  "bit_words a b x y = (padd a x, padd b y, padd y (replicate 17 False @ take 47 b), drop 19 x @ take 19 x)"

fun bit_step :: "bit_state \<Rightarrow> bit_state" where
  "bit_step (a, b, c, d) = bit_words a b (padd d b) (padd c a)"

fun words_of :: "bit_state \<Rightarrow> xoshiro" where
  "words_of (a, b, c, d) = \<lparr>s0 = word_of a, s1 = word_of b, s2 = word_of c, s3 = word_of d\<rparr>"

fun wf_bits :: "bit_state \<Rightarrow> bool" where
  "wf_bits (a, b, c, d) \<longleftrightarrow> length a = 64 \<and> length b = 64 \<and> length c = 64 \<and> length d = 64"

lemma word_of_push: "length b = 64 \<Longrightarrow> word_of (replicate 17 False @ take 47 b) = push_bit 17 (word_of b)"
  by (rule bit_eqI) (auto simp: bit_word_of bit_push_bit_iff nth_append)

lemma word_of_rotl: "length x = 64 \<Longrightarrow> word_of (drop 19 x @ take 19 x) = rotl (word_of x) 45"
  by (rule bit_eqI) (auto simp: bit_word_of bit_rotl nth_append)

lemma bit_step: "wf_bits t \<Longrightarrow> wf_bits (bit_step t) \<and> words_of (bit_step t) = xo_state_step (words_of t)"
  by (cases t) (simp add: bit_words_def xo_step_eq word_of_padd word_of_push word_of_rotl xor.commute)

lemma of_bits_words: "wf_bits (a, b, c, d) \<Longrightarrow> of_bits (a @ b @ c @ d) = words_of (a, b, c, d)"
  by (auto simp: of_bits_def bit_word_of nth_append intro!: bit_eqI)

text \<open>The states that follow a state.\<close>

fun krylov :: "nat \<Rightarrow> bit_state \<Rightarrow> bool list list" where
  "krylov 0 t = []"
| "krylov (Suc n) (a, b, c, d) = (a @ b @ c @ d) # krylov n (bit_step (a, b, c, d))"

lemma select_krylov:
  "length bs \<le> n \<Longrightarrow> wf_bits t \<Longrightarrow> of_bits (select_sum bs (krylov n t) acc) = xo_xor (of_bits acc) (pact bs (words_of t))"
proof (induction bs arbitrary: n t acc)
  case (Cons b bs)
  obtain m where n: "n = Suc m" "length bs \<le> m" using Cons.prems(1) by (cases n) auto
  obtain a1 a2 a3 a4 where t: "t = (a1, a2, a3, a4)" by (cases t)
  show ?case using Cons.IH [OF n(2), of "bit_step t"] bit_step [OF Cons.prems(2)] of_bits_words Cons.prems(2)
    by (simp add: n(1) t of_bits_padd xo_xor_ac del: bit_step.simps)
qed simp

section \<open>The characteristic polynomial\<close>

text \<open>All but the leading coefficient, of degree 256.\<close>

definition char_low :: "u64 list" where
  "char_low = [0x9d116f2bb0f0f001, 0x0280002bcefd1a5e, 0x04b4edcf26259f85, 0x0003c03c3f3ecb19]"

definition characteristic :: "bool list" where
  "characteristic = table_bits char_low @ [True]"

text \<open>The state whose only bit is the last one of the last word, and the polynomials that take it to the states
  with one bit at the positions from 62 down to 45 of the last word.\<close>

definition last_bit :: bit_state where
  "last_bit = (replicate 64 False, replicate 64 False, replicate 64 False, replicate 63 False @ [True])"

definition bit_polynomials :: "u64 list list" where
  "bit_polynomials =
    [[0x5ad70d6324e318a4, 0x2a84e33b775de9ef, 0x0741494560304f7a, 0x1f46e3d245c3d3eb],
     [0x15de0ccdde694168, 0xfbb2adf4f612bbb5, 0xa2e81b4e8c332aa8, 0x85db99dedb20492a],
     [0xc255e882d29a5545, 0x1945b931e116e0fe, 0x82157e7de66ea9db, 0xa2eb4fe59ecb1665],
     [0xf18fb77d89a0eb59, 0x3a52bb15cf9b1b9c, 0xc2d57148ad2a7d75, 0x67ce5a1273ee844c],
     [0xab2085bb670a8629, 0x1b2019eef168ec68, 0xef8ad97fd848f5f8, 0xa86e598c867f5b2e],
     [0xf0fd8b8afd48c1ce, 0x39e2e322b04da83c, 0x8d9c36be4b3db23b, 0xf6108e3664aa69f4],
     [0x4e2648f7ada9ea1a, 0xd6be10deeb37d85d, 0xb59cf3b2b846d8e6, 0x5ea156f8fb7f1581],
     [0x7e4cd0be293836df, 0x2d0e79d21671b858, 0x41a4883cb2b01eda, 0x2778545d8eda4874],
     [0xb393c262231227c4, 0xa82f33bc9216409a, 0xaf7c98236e587afa, 0xaea0c6e8ebf2bf80],
     [0x9a35ffe78b80666f, 0x309d10564b5f8ba1, 0xc4483f8a3ecc1d16, 0xae78e60c101bde5f],
     [0x4213a3c0def28eef, 0x8dd92edac3a20e39, 0xd5cd05f8fa492c54, 0x90950faab191b7a7],
     [0xf1b979b594e13f91, 0x782a8b29cd96f0ef, 0x1f70cd65e39be721, 0xcccad17c6b9dc124],
     [0x950eab203128ebdb, 0x919fd5417e09d7a6, 0xe7ada7a304d88342, 0x28247536b3023a6e],
     [0x43af287e37bf5a23, 0xd11afaa0c975638e, 0x047b493ce5117093, 0xf98391748930bd83],
     [0xdd623df4972ee497, 0x935dc1d6d9881097, 0xb275f100c273eb59, 0x2377fda45e57f21a],
     [0xcec634ba5bf1a469, 0x9e4d844b00720b03, 0x9cba380d4d40d5ad, 0xe8fd6f5b32f5afce],
     [0xa6ef198edd3d7f5a, 0xe61c26b9061fd6ec, 0xea6026e19ffc0c4a, 0x5f9532ec95387480],
     [0x5b7de6f538659c1f, 0xa6bcc0e8d4671662, 0x0301eb2dc2912a5d, 0x141aa84fee7e6ac7]]"

text \<open>A list with exactly one bit.\<close>

fun no_bit :: "bool list \<Rightarrow> bool" where
  "no_bit [] = True"
| "no_bit (b # bs) = (if b then False else no_bit bs)"

fun one_bit :: "nat \<Rightarrow> bool list \<Rightarrow> bool" where
  "one_bit 0 (b # bs) = (if b then no_bit bs else False)"
| "one_bit (Suc n) (b # bs) = (if b then False else one_bit n bs)"
| "one_bit n [] = False"

fun reach_bits :: "nat \<Rightarrow> u64 list list \<Rightarrow> bool list list \<Rightarrow> bool" where
  "reach_bits n [] qs = True"
| "reach_bits n (tbl # tbls) qs =
     (one_bit n (select_sum (table_bits tbl) qs (replicate 256 False)) \<and> reach_bits (n - 1) tbls qs)"

lemma one_bit_eval:
  "no_bit (True # bs) = False" "no_bit (False # bs) = no_bit bs" "no_bit [] = True"
  "one_bit 0 (True # bs) = no_bit bs" "one_bit 0 (False # bs) = False"
  "one_bit (numeral m) (True # bs) = False" "one_bit (numeral m) (False # bs) = one_bit (pred_numeral m) bs"
  by (simp_all add: numeral_eq_Suc)

lemma reach_bits_eval:
  "reach_bits n [] qs = True"
  "reach_bits (numeral m) (tbl # tbls) qs =
     (one_bit (numeral m) (select_sum (table_bits tbl) qs (replicate 256 False)) \<and> reach_bits (pred_numeral m) tbls qs)"
  by (simp_all add: numeral_eq_Suc)

lemma krylov_eval:
  "krylov (numeral m) (a, b, c, d) = (a @ b @ c @ d) # krylov (pred_numeral m) (bit_step (a, b, c, d))" "krylov 0 t = []"
  by (simp_all add: numeral_eq_Suc)

lemma reach_bits_ok: "reach_bits 254 bit_polynomials (krylov 256 last_bit)"
  by (simp only: last_bit_def bit_polynomials_def bits_eval krylov_eval bit_step.simps bit_words_def reach_bits_eval
      one_bit_eval simp_thms)

lemma characteristic_ok: "no_bit (select_sum characteristic (krylov 257 last_bit) (replicate 256 False))"
  by (simp only: last_bit_def characteristic_def char_low_def bits_eval krylov_eval bit_step.simps bit_words_def one_bit_eval)

text \<open>The single words of a state.\<close>

definition in0 :: "u64 \<Rightarrow> xoshiro" where "in0 w = xo_zero\<lparr>s0 := w\<rparr>"
definition in1 :: "u64 \<Rightarrow> xoshiro" where "in1 w = xo_zero\<lparr>s1 := w\<rparr>"
definition in2 :: "u64 \<Rightarrow> xoshiro" where "in2 w = xo_zero\<lparr>s2 := w\<rparr>"
definition in3 :: "u64 \<Rightarrow> xoshiro" where "in3 w = xo_zero\<lparr>s3 := w\<rparr>"

lemmas in_defs = in0_def in1_def in2_def in3_def xo_zero_def xo_xor_def

lemma rotl_0 [simp]: "rotl 0 k = 0"
  by (simp add: rotl_def)

lemma step_in:
  "xo_state_step (in0 w) = xo_xor (in0 w) (xo_xor (in1 w) (in2 w))"
  "xo_state_step (in1 w) = xo_xor (in0 w) (xo_xor (in1 w) (xo_xor (in2 (push_bit 17 w)) (in3 (rotl w 45))))"
  "xo_state_step (in2 w) = xo_xor (in1 w) (in2 w)"
  "xo_state_step (in3 w) = xo_xor (in0 w) (in3 (rotl w 45))"
  by (simp_all add: xo_step_eq in_defs)

definition only_bit :: "nat \<Rightarrow> u64" where
  "only_bit k = push_bit k 1"

lemma bit_only_bit: "bit (only_bit k) n \<longleftrightarrow> n = k \<and> k < 64"
  by (auto simp: only_bit_def bit_exp_iff)

lemma all_nth_Cons: "(\<forall>i < length (b # bs). P i ((b # bs) ! i)) \<longleftrightarrow> P 0 b \<and> (\<forall>i < length bs. P (Suc i) (bs ! i))"
  by (auto simp: nth_Cons less_Suc_eq_0_disj split: nat.splits)

lemma no_bit_nth: "no_bit bs \<longleftrightarrow> (\<forall>i < length bs. \<not> bs ! i)"
proof (induction bs)
  case (Cons b bs)
  show ?case using Cons.IH all_nth_Cons [of b bs "\<lambda>i x. \<not> x"] by simp
qed simp

lemma no_bit_zero: "no_bit bs \<Longrightarrow> of_bits bs = xo_zero"
  by (auto simp: of_bits_def xo_zero_def bit_word_of no_bit_nth intro!: bit_eqI)

lemma one_bit_nth: "one_bit n bs \<Longrightarrow> n < length bs \<and> (\<forall>i < length bs. bs ! i \<longleftrightarrow> i = n)"
  by (induction n bs rule: one_bit.induct) (auto simp: no_bit_nth nth_Cons split: if_splits nat.splits)

lemma one_bit_in3: "one_bit (192 + k) bs \<Longrightarrow> k < 64 \<Longrightarrow> of_bits bs = in3 (only_bit k)"
  by (drule one_bit_nth) (auto simp: of_bits_def in_defs bit_word_of bit_only_bit intro!: bit_eqI)

lemma last_bit_words: "words_of last_bit = in3 (only_bit 63)" "wf_bits last_bit"
proof -
  have "no_bit (replicate n False)" for n by (induction n) simp_all
  then have "word_of (replicate n False) = 0" for n using no_bit_zero [of "replicate n False"] by (simp add: of_bits_def xo_zero_def)
  moreover have "word_of (replicate 63 False @ [True]) = only_bit 63"
    by (rule bit_eqI) (auto simp: bit_word_of nth_append bit_only_bit less_Suc_eq)
  ultimately show "words_of last_bit = in3 (only_bit 63)" by (simp add: last_bit_def in_defs)
qed (simp add: last_bit_def)

text \<open>The residue of a state is linear and commutes with the step.\<close>

abbreviation residue :: "xoshiro \<Rightarrow> xoshiro" where
  "residue \<equiv> pact characteristic"

lemma residue_linear: "residue a = xo_zero \<Longrightarrow> residue b = xo_zero \<Longrightarrow> residue (xo_xor a b) = xo_zero"
  by (simp add: pact_linear)

lemma residue_step: "residue (xo_state_step s) = xo_zero \<longleftrightarrow> residue s = xo_zero"
  by (simp add: pact_step xo_step_eq_zero)

lemma residue_diff: "residue (xo_xor (xo_state_step s) s) = xo_zero \<longleftrightarrow> residue s = xo_zero"
  using xo_step_fixed [of "residue s"] by (auto simp: pact_linear pact_step xo_xor_eq_zero xo_step_zero)

lemma residue_last: "residue (in3 (only_bit 63)) = xo_zero"
proof -
  have "of_bits (replicate 256 False) = xo_zero" by (rule no_bit_zero) (simp add: no_bit_nth)
  then show ?thesis
    using select_krylov [of characteristic 257 last_bit "replicate 256 False"] no_bit_zero [OF characteristic_ok]
    by (simp add: last_bit_words characteristic_def char_low_def)
qed

lemma reach_bits_nth:
  "reach_bits n tbls qs \<Longrightarrow> i < length tbls \<Longrightarrow> one_bit (n - i) (select_sum (table_bits (tbls ! i)) qs (replicate 256 False))"
  by (induction n tbls qs arbitrary: i rule: reach_bits.induct) (auto simp: nth_Cons split: nat.splits)

lemma residue_top:
  assumes "45 \<le> k" and "k < 64"
  shows "residue (in3 (only_bit k)) = xo_zero"
proof (cases "k = 63")
  case False
  let ?tbl = "bit_polynomials ! (62 - k)"
  have len: "length bit_polynomials = 18" "list_all (\<lambda>tbl. length tbl = 4) bit_polynomials" by (simp_all add: bit_polynomials_def)
  then have "length ?tbl = 4" using assms by (auto simp: list_all_length)
  moreover have "of_bits (replicate 256 False) = xo_zero" by (rule no_bit_zero) (simp add: no_bit_nth)
  ultimately have s: "of_bits (select_sum (table_bits ?tbl) (krylov 256 last_bit) (replicate 256 False)) = pact (table_bits ?tbl) (in3 (only_bit 63))"
    using select_krylov [of "table_bits ?tbl" 256 last_bit "replicate 256 False"] by (simp add: last_bit_words)
  have "254 - (62 - k) = 192 + k" using assms False by simp
  then have "one_bit (192 + k) (select_sum (table_bits ?tbl) (krylov 256 last_bit) (replicate 256 False))"
    using reach_bits_nth [OF reach_bits_ok, of "62 - k"] len(1) assms by simp
  from one_bit_in3 [OF this assms(2)] have "in3 (only_bit k) = pact (table_bits ?tbl) (in3 (only_bit 63))" using s by simp
  then show ?thesis using pact_commute [of characteristic] residue_last by simp
qed (simp add: residue_last)

text \<open>A residue that vanishes on the last word of some states does on the word before the rotation, too.\<close>

lemma residue_back:
  assumes "residue (in3 w) = xo_zero" and "residue (in3 (push_bit 17 w)) = xo_zero" and "residue (in3 (rotl (push_bit 17 w) 45)) = xo_zero"
  shows "residue (in0 w) = xo_zero" "residue (in3 (rotl w 45)) = xo_zero"
proof -
  let ?z = "\<lambda>s. residue s = xo_zero" let ?v = "push_bit 17 w"
  have "in0 u = xo_xor (xo_state_step (in3 u)) (in3 (rotl u 45))" for u by (simp add: step_in xo_xor_ac)
  then have "?z (in0 ?v)" using assms(2,3) by (metis residue_linear residue_step)
  moreover have d: "xo_xor (xo_state_step (in0 u)) (in0 u) = xo_state_step (in2 u)" for u by (simp add: step_in xo_xor_ac)
  ultimately have "?z (in2 ?v)" by (metis residue_diff residue_step)
  moreover have "xo_xor (xo_state_step (in1 w)) (in1 w) = xo_xor (xo_state_step (in3 w)) (in2 ?v)" by (simp add: step_in xo_xor_ac)
  ultimately have "?z (in1 w)" using assms(1) by (metis residue_diff residue_linear residue_step)
  moreover have "xo_xor (xo_state_step (in2 w)) (in2 w) = in1 w" by (simp add: step_in xo_xor_ac)
  ultimately have "?z (in2 w)" by (metis residue_diff)
  then show z0: "?z (in0 w)" using d by (metis residue_diff residue_step)
  have "in3 (rotl w 45) = xo_xor (xo_state_step (in3 w)) (in0 w)" by (simp add: step_in xo_xor_ac)
  then show "?z (in3 (rotl w 45))" using assms(1) z0 by (metis residue_linear residue_step)
qed

lemma push_only_bit: "push_bit 17 (only_bit k) = only_bit (k + 17)"
  by (rule bit_eqI) (auto simp: bit_push_bit_iff bit_only_bit)

lemma rotl_only_bit: "k < 64 \<Longrightarrow> 19 \<le> k \<Longrightarrow> rotl (only_bit k) 45 = only_bit (k - 19)"
  by (rule bit_eqI) (auto simp: bit_rotl bit_only_bit)

lemma only_bit_out: "64 \<le> k \<Longrightarrow> only_bit k = 0"
  by (rule bit_eqI) (simp add: bit_only_bit)

lemma residue_in3_bit: "residue (in3 (only_bit k)) = xo_zero"
proof (induction "64 - k" arbitrary: k rule: less_induct)
  case less
  have in3_0: "in3 0 = xo_zero" by (simp add: in_defs)
  consider "64 \<le> k" | "45 \<le> k" "k < 64" | "k < 45" by linarith
  then show ?case
  proof cases
    case 3
    have shifted: "rotl (only_bit (k + 36)) 45 = (if k + 36 < 64 then only_bit (k + 17) else 0)"
      using rotl_only_bit [of "k + 36"] by (simp add: only_bit_out add.commute)
    have "residue (in3 (rotl (only_bit (k + 36)) 45)) = xo_zero" using less [of "k + 17"] 3 by (simp add: shifted in3_0)
    then have "residue (in3 (rotl (only_bit (k + 19)) 45)) = xo_zero"
      using residue_back(2) [of "only_bit (k + 19)"] less [of "k + 19"] less [of "k + 36"] 3 by (simp add: push_only_bit add.commute)
    then show ?thesis using rotl_only_bit [of "k + 19"] 3 by simp
  qed (simp_all add: residue_top only_bit_out in3_0)
qed

lemma word_xor_induct:
  assumes "P 0" and "\<And>k. k < 64 \<Longrightarrow> P (only_bit k)" and "\<And>u v. P u \<Longrightarrow> P v \<Longrightarrow> P (u XOR v)"
  shows "P (w :: u64)"
proof -
  have "P (take_bit n w)" if "n \<le> 64" for n
    using that
  proof (induction n)
    case (Suc n)
    have "take_bit (Suc n) w = take_bit n w XOR (if bit w n then only_bit n else 0)"
      by (rule bit_eqI) (auto simp: bit_take_bit_iff bit_xor_iff bit_only_bit less_Suc_eq)
    then show ?case using Suc assms by (cases "bit w n") auto
  qed (simp add: assms(1))
  from this [of 64] show ?thesis by (simp add: take_bit_word_eq_self)
qed

lemma residue_zero: "residue s = xo_zero"
proof -
  have xor: "in3 (u XOR v) = xo_xor (in3 u) (in3 v)" "in3 0 = xo_zero" for u v by (simp_all add: in_defs)
  have z3: "residue (in3 w) = xo_zero" for w
    by (rule word_xor_induct) (simp_all add: residue_in3_bit xor pact_linear)
  have z0: "residue (in0 w) = xo_zero" for w by (intro residue_back(1) z3)
  then have z2: "residue (in2 w) = xo_zero" for w
    using residue_diff [of "in0 w"] residue_step [of "in2 w"] by (simp add: step_in xo_xor_ac)
  then have z1: "residue (in1 w) = xo_zero" for w
    using residue_diff [of "in2 w"] by (simp add: step_in xo_xor_ac)
  have "s = xo_xor (in0 (s0 s)) (xo_xor (in1 (s1 s)) (xo_xor (in2 (s2 s)) (in3 (s3 s))))" by (simp add: in_defs)
  then show ?thesis using z0 z1 z2 z3 residue_linear by metis
qed

lemma steps_256: "(xo_state_step ^^ 256) s = pact (table_bits char_low) s"
proof -
  have "xo_xor (pact (table_bits char_low) s) ((xo_state_step ^^ 256) s) = xo_zero"
    using residue_zero [of s] unfolding characteristic_def pact_append by (simp add: char_low_def)
  then show ?thesis by (simp add: xo_xor_eq_zero)
qed

section \<open>Squaring modulo the characteristic polynomial\<close>

fun reduce_top :: "bool \<Rightarrow> bool list \<Rightarrow> bool list \<Rightarrow> bool list" where
  "reduce_top False low q = q"
| "reduce_top True low q = padd low q"

definition pshift :: "bool list \<Rightarrow> bool list \<Rightarrow> bool list" where
  "pshift low q = reduce_top (last q) low (False # butlast q)"

text \<open>The even powers of the variable from the 256th on.\<close>

fun even_powers :: "nat \<Rightarrow> bool list \<Rightarrow> bool list \<Rightarrow> bool list list" where
  "even_powers 0 low q = []"
| "even_powers (Suc n) low q = q # even_powers n low (pshift low (pshift low q))"

definition pow_table :: "bool list list" where
  "pow_table = even_powers 128 (table_bits char_low) (table_bits char_low)"

definition psquare_mod :: "bool list list \<Rightarrow> bool list \<Rightarrow> bool list" where
  "psquare_mod tbl q = select_sum (drop 128 q) tbl (psquare (take 128 q))"

fun squarings :: "nat \<Rightarrow> bool list list \<Rightarrow> bool list \<Rightarrow> bool list" where
  "squarings 0 tbl q = q"
| "squarings (Suc n) tbl q = squarings n tbl (psquare_mod tbl q)"

lemma pact_pshift:
  assumes "length q = 256"
  shows "pact (pshift (table_bits char_low) q) s = xo_state_step (pact q s)"
    and "length (pshift (table_bits char_low) q) = 256"
proof -
  have "q = butlast q @ [last q]" using assms by (metis append_butlast_last_id list.size(3) zero_neq_numeral)
  then have "pact q (xo_state_step s) = xo_xor (pact (butlast q) (xo_state_step s)) (pact [last q] ((xo_state_step ^^ 256) s))"
    using pact_append [of "butlast q" "[last q]" "xo_state_step s"] assms funpow_swap1 [of xo_state_step 255 s] by (simp flip: funpow.simps(2)) (simp add: eval_nat_numeral)
  then show "pact (pshift (table_bits char_low) q) s = xo_state_step (pact q s)"
    by (cases "last q") (simp_all add: pshift_def pact_padd steps_256 xo_xor_ac flip: pact_step)
  show "length (pshift (table_bits char_low) q) = 256"
    using assms by (cases "last q") (simp_all add: pshift_def char_low_def)
qed

lemma pact_even_powers:
  "length bs \<le> n \<Longrightarrow> length q = 256 \<Longrightarrow>
     pact (select_sum bs (even_powers n (table_bits char_low) q) acc) s = xo_xor (pact acc s) (pact (psquare bs) (pact q s))"
proof (induction bs arbitrary: n q acc)
  case (Cons b bs)
  let ?q = "pshift (table_bits char_low) (pshift (table_bits char_low) q)"
  obtain m where n: "n = Suc m" "length bs \<le> m" using Cons.prems(1) by (cases n) auto
  have q: "pact ?q s = xo_state_step (xo_state_step (pact q s))" "length ?q = 256"
    using pact_pshift Cons.prems(2) by simp_all
  show ?case using Cons.IH [OF n(2) q(2)] by (simp add: n(1) q(1) pact_padd xo_xor_ac)
qed simp

lemma pact_psquare_mod:
  assumes "length q = 256"
  shows "pact (psquare_mod pow_table q) s = pact q (pact q s)" "length (psquare_mod pow_table q) = 256"
proof -
  have low: "length (table_bits char_low) = 256" by (simp add: char_low_def)
  have "psquare q = psquare (take 128 q) @ psquare (drop 128 q)" by (simp flip: psquare_append)
  then have "pact q (pact q s) = xo_xor (pact (psquare (take 128 q)) s) (pact (psquare (drop 128 q)) ((xo_state_step ^^ 256) s))"
    using assms by (simp flip: pact_psquare add: pact_append)
  then show "pact (psquare_mod pow_table q) s = pact q (pact q s)"
    using assms low by (simp add: psquare_mod_def pow_table_def pact_even_powers steps_256)
  have "length (select_sum bs (even_powers n (table_bits char_low) r) acc) = 256"
    if "length acc = 256" "length r = 256" for bs n r acc
    using that
  proof (induction bs arbitrary: n r acc)
    case (Cons b bs)
    then show ?case using pact_pshift(2) by (cases n) simp_all
  qed simp
  then show "length (psquare_mod pow_table q) = 256" using assms low by (simp add: psquare_mod_def pow_table_def)
qed

lemma pact_squarings:
  assumes "length q = 256" and "\<And>s. pact q s = (xo_state_step ^^ m) s"
  shows "pact (squarings n pow_table q) s = (xo_state_step ^^ (m * 2 ^ n)) s"
  using assms
proof (induction n arbitrary: q m)
  case (Suc n)
  have "pact (psquare_mod pow_table q) s = (xo_state_step ^^ (2 * m)) s" for s
    using pact_psquare_mod(1) [OF Suc.prems(1), of s] Suc.prems(2) by (simp add: mult_2 funpow_add)
  then show ?case using Suc.IH [OF pact_psquare_mod(2) [OF Suc.prems(1)], of "2 * m"] by (simp add: algebra_simps)
qed simp

section \<open>The tables of the jumps\<close>

text \<open>The powers of the variable with the exponents 2 to the 32, 64, 96 and 160.\<close>

definition power_32 :: "u64 list" where
  "power_32 = [0x58120d583c112f69, 0x7d8d0632bd08e6ac, 0x214fafc0fbdbc208, 0x0e055d3520fdb9d7]"

definition power_64 :: "u64 list" where
  "power_64 = [0xb13c16e8096f0754, 0xb60d6c5b8c78f106, 0x34faff184785c20a, 0x12e4a2fbfc19bff9]"

definition power_96 :: "u64 list" where
  "power_96 = [0x148c356c3114b7a9, 0xcdb45d7def42c317, 0xb27c05962ea56a13, 0x31eebb6c82a9615f]"

definition power_160 :: "u64 list" where
  "power_160 = [0xc04b4f9c5d26c200, 0x69e6e6e431a2d40b, 0x4823b45b89dc689c, 0xf567382197055bf0]"

lemma last_butlast_eval:
  "last (a # b # q) = last (b # q)" "butlast (a # b # q) = a # butlast (b # q)" "last [a] = a" "butlast [a] = []"
  by simp_all

lemma squarings_numeral:
  "even_powers (numeral k) low q = q # even_powers (pred_numeral k) low (pshift low (pshift low q))"
  "squarings (numeral k) tbl q = squarings (pred_numeral k) tbl (psquare_mod tbl q)"
  by (simp_all add: numeral_eq_Suc)

lemmas squarings_eval = bits_eval last_butlast_eval squarings_numeral even_powers.simps(1) squarings.simps(1)
  pow_table_def char_low_def pshift_def reduce_top.simps psquare_mod_def psquare.simps

lemma squarings_32: "squarings 32 pow_table (False # True # replicate 254 False) = table_bits power_32"
  by (simp only: squarings_eval power_32_def)

lemma squarings_64: "squarings 32 pow_table (table_bits power_32) = table_bits power_64"
  by (simp only: squarings_eval power_32_def power_64_def)

lemma squarings_96: "squarings 32 pow_table (table_bits power_64) = table_bits power_96"
  by (simp only: squarings_eval power_64_def power_96_def)

lemma squarings_128: "squarings 32 pow_table (table_bits power_96) = table_bits JUMP"
  by (simp only: squarings_eval power_96_def JUMP_def)

lemma squarings_160: "squarings 32 pow_table (table_bits JUMP) = table_bits power_160"
  by (simp only: squarings_eval JUMP_def power_160_def)

lemma squarings_192: "squarings 32 pow_table (table_bits power_160) = table_bits LONG_JUMP"
  by (simp only: squarings_eval power_160_def LONG_JUMP_def)

text \<open>Each table acts as the number of steps that its comment names.\<close>

lemma pact_tables:
  "pact (table_bits JUMP) s = (xo_state_step ^^ 2 ^ 128) s" "pact (table_bits LONG_JUMP) s = (xo_state_step ^^ 2 ^ 192) s"
proof -
  have next32: "pact (squarings 32 pow_table q) s = (xo_state_step ^^ 2 ^ (n + 32)) s"
    if "length q = 256" "\<And>s. pact q s = (xo_state_step ^^ 2 ^ n) s" for q n s
    using pact_squarings [OF that, of 32 s] by (simp only: power_add)
  have len: "length (table_bits power_32) = 256" "length (table_bits power_64) = 256" "length (table_bits power_96) = 256"
    "length (table_bits JUMP) = 256" "length (table_bits power_160) = 256"
    by (simp_all add: power_32_def power_64_def power_96_def JUMP_def power_160_def)
  have p0: "pact (False # True # replicate 254 False) s = (xo_state_step ^^ 2 ^ 0) s" for s by simp
  have p32: "pact (table_bits power_32) s = (xo_state_step ^^ 2 ^ (0 + 32)) s" for s
    unfolding squarings_32 [symmetric] by (rule next32) (use p0 in simp_all)
  have p64: "pact (table_bits power_64) s = (xo_state_step ^^ 2 ^ (0 + 32 + 32)) s" for s
    unfolding squarings_64 [symmetric] by (rule next32 [OF len(1) p32])
  have p96: "pact (table_bits power_96) s = (xo_state_step ^^ 2 ^ (0 + 32 + 32 + 32)) s" for s
    unfolding squarings_96 [symmetric] by (rule next32 [OF len(2) p64])
  have p128: "pact (table_bits JUMP) s = (xo_state_step ^^ 2 ^ (0 + 32 + 32 + 32 + 32)) s" for s
    unfolding squarings_128 [symmetric] by (rule next32 [OF len(3) p96])
  have p160: "pact (table_bits power_160) s = (xo_state_step ^^ 2 ^ (0 + 32 + 32 + 32 + 32 + 32)) s" for s
    unfolding squarings_160 [symmetric] by (rule next32 [OF len(4) p128])
  have p192: "pact (table_bits LONG_JUMP) s = (xo_state_step ^^ 2 ^ (0 + 32 + 32 + 32 + 32 + 32 + 32)) s" for s
    unfolding squarings_192 [symmetric] by (rule next32 [OF len(5) p160])
  have e: "(0::nat) + 32 + 32 + 32 + 32 = 128" "(128::nat) + 32 + 32 = 192" by simp_all
  show "pact (table_bits JUMP) s = (xo_state_step ^^ 2 ^ 128) s" using p128 unfolding e .
  show "pact (table_bits LONG_JUMP) s = (xo_state_step ^^ 2 ^ 192) s" using p192 unfolding e .
qed

section \<open>Properties\<close>

text \<open>C37: The jumps skip the numbers of calls that their comments state: from every state, \<open>num_jumps\<close> jumps lead to the
  state that \<open>num_jumps\<close> times 2 to the 128 calls of the generator lead to, and a long jump to the one after 2 to the
  192 calls. Every call changes the state by a bijection.\<close>

theorem generator_jumps:
  "jump num_jumps s = ((\<lambda>s. snd (xo_next s)) ^^ (num_jumps * 2 ^ 128)) s
   \<and> long_jump s = ((\<lambda>s. snd (xo_next s)) ^^ (2 ^ 192)) s
   \<and> bij (\<lambda>s. snd (xo_next s))"
proof -
  have next_step: "(\<lambda>s. snd (xo_next s)) = xo_state_step" by (simp add: xo_next_def fun_eq_iff)
  have "jump_once = xo_state_step ^^ 2 ^ 128"
    by (rule ext) (simp only: jump_once_def jump_bits_pact xo_xor_simps pact_tables)
  then have "jump num_jumps s = (xo_state_step ^^ (num_jumps * 2 ^ 128)) s"
    unfolding jump_def by (metis funpow_mult mult.commute)
  moreover have "long_jump s = (xo_state_step ^^ 2 ^ 192) s"
    by (simp only: long_jump_def jump_bits_pact xo_xor_simps pact_tables)
  ultimately show ?thesis unfolding next_step by (simp only: xo_step_bij simp_thms)
qed

end
