(* ===== verification/Byte_Order.thy ===== *)
theory Byte_Order
  imports Prelude
begin

text \<open>
  The keys of indexes/masstree.hpp: an integer key is stored byte-swapped, so that the bytes of
  its memory image compare as the number does.
\<close>

section \<open>Memory images of 64-bit integers\<close>

definition byte_of :: "nat \<Rightarrow> u64 \<Rightarrow> u8" where
  "byte_of k x = ucast (drop_bit (8 * k) x)"

text \<open>The eight bytes in memory, least significant first, and the integer read from eight bytes.\<close>

definition push_byte :: "u64 \<Rightarrow> u8 \<Rightarrow> u64" where
  "push_byte acc b = push_bit 8 acc OR ucast b"

definition memory_image :: "u64 \<Rightarrow> u8 list" where
  "memory_image x = map (\<lambda>k. byte_of k x) [0..<8]"

definition load_u64 :: "u8 list \<Rightarrow> u64" where
  "load_u64 bs = foldr (\<lambda>b acc. push_byte acc b) (take 8 bs) 0"

text \<open>\<open>__builtin_bswap64\<close>.\<close>

definition bswap64 :: "u64 \<Rightarrow> u64" where
  "bswap64 x = fold (\<lambda>k acc. push_byte acc (byte_of k x)) [0..<8] 0"

lemma upt_8: "[0..<8] = [0, 1, 2, 3, 4, 5, 6, 7 :: nat]"
  by (simp add: upt_rec)

lemma bit_byte_of: "bit (byte_of k x) n \<longleftrightarrow> n < 8 \<and> bit x (8 * k + n)"
  by (auto simp: byte_of_def bit_ucast_iff bit_drop_bit_eq)

lemma byte_push_0 [simp]: "byte_of 0 (push_byte acc b) = b"
  by (rule bit_word_eqI) (auto simp: push_byte_def bit_byte_of bit_or_iff bit_push_bit_iff bit_ucast_iff)

lemma byte_push_Suc: "k < 7 \<Longrightarrow> byte_of (Suc k) (push_byte acc b) = byte_of k acc"
proof -
  have "\<not> bit b (8 * Suc k + n)" for n by (auto dest: bit_imp_le_length)
  then show "k < 7 \<Longrightarrow> byte_of (Suc k) (push_byte acc b) = byte_of k acc"
    by (intro bit_word_eqI) (auto simp: push_byte_def bit_byte_of bit_or_iff bit_push_bit_iff bit_ucast_iff)
qed

lemma byte_push [simp]:
  "byte_of (Suc 0) (push_byte acc b) = byte_of 0 acc" "byte_of 2 (push_byte acc b) = byte_of (Suc 0) acc"
  "byte_of 3 (push_byte acc b) = byte_of 2 acc" "byte_of 4 (push_byte acc b) = byte_of 3 acc"
  "byte_of 5 (push_byte acc b) = byte_of 4 acc" "byte_of 6 (push_byte acc b) = byte_of 5 acc"
  "byte_of 7 (push_byte acc b) = byte_of 6 acc"
proof -
  have n: "2 = Suc 1" "3 = Suc 2" "4 = Suc 3" "5 = Suc 4" "6 = Suc 5" "7 = Suc (6 :: nat)" by simp_all
  show "byte_of (Suc 0) (push_byte acc b) = byte_of 0 acc" by (rule byte_push_Suc) simp
  show "byte_of 2 (push_byte acc b) = byte_of (Suc 0) acc" unfolding n(1) by (subst byte_push_Suc) simp_all
  show "byte_of 3 (push_byte acc b) = byte_of 2 acc" unfolding n(2) by (rule byte_push_Suc) simp
  show "byte_of 4 (push_byte acc b) = byte_of 3 acc" unfolding n(3) by (rule byte_push_Suc) simp
  show "byte_of 5 (push_byte acc b) = byte_of 4 acc" unfolding n(4) by (rule byte_push_Suc) simp
  show "byte_of 6 (push_byte acc b) = byte_of 5 acc" unfolding n(5) by (rule byte_push_Suc) simp
  show "byte_of 7 (push_byte acc b) = byte_of 6 acc" unfolding n(6) by (rule byte_push_Suc) simp
qed

lemma bytes_eqI:
  assumes "\<And>k. k < 8 \<Longrightarrow> byte_of k x = byte_of k y"
  shows "x = y"
proof (rule bit_word_eqI)
  fix n assume "n < LENGTH(64)"
  then have "n div 8 < 8" by simp
  from assms [OF this] have "bit (byte_of (n div 8) x) (n mod 8) = bit (byte_of (n div 8) y) (n mod 8)" by simp
  then show "bit x n = bit y n" by (simp add: bit_byte_of)
qed

lemma less_8: "k < 8 \<Longrightarrow> k = 0 \<or> k = 1 \<or> k = 2 \<or> k = 3 \<or> k = 4 \<or> k = 5 \<or> k = 6 \<or> k = (7 :: nat)"
  by arith

lemma byte_bswap64: "k < 8 \<Longrightarrow> byte_of k (bswap64 x) = byte_of (7 - k) x"
  by (drule less_8) (auto simp: bswap64_def upt_8)

lemma bswap64_bswap64 [simp]: "bswap64 (bswap64 x) = x"
  by (rule bytes_eqI) (simp add: byte_bswap64)

lemma load_memory_image [simp]: "load_u64 (memory_image x) = x"
proof (rule bytes_eqI)
  fix k :: nat assume "k < 8"
  then show "byte_of k (load_u64 (memory_image x)) = byte_of k x"
    by (drule_tac less_8) (auto simp: load_u64_def memory_image_def upt_8)
qed

lemma length_memory_image [simp]: "length (memory_image x) = 8"
  by (simp add: memory_image_def)

section \<open>memcmp\<close>

text \<open>The sign of the difference at the first position of the first \<open>n\<close> that differs.\<close>

fun memcmp :: "nat \<Rightarrow> u8 list \<Rightarrow> u8 list \<Rightarrow> int" where
  "memcmp (Suc n) (x # xs) (y # ys) = (if x = y then memcmp n xs ys else if x < y then - 1 else 1)"
| "memcmp n xs ys = 0"

definition digits_value :: "nat list \<Rightarrow> nat" where
  "digits_value ds = foldl (\<lambda>a d. a * 256 + d) 0 ds"

lemma digits_value_append: "digits_value (ds @ es) = digits_value ds * 256 ^ length es + digits_value es"
proof (induction es rule: rev_induct)
  case (snoc e es)
  have "digits_value (ds @ es @ [e]) = digits_value (ds @ es) * 256 + e" by (simp add: digits_value_def)
  moreover have "digits_value (es @ [e]) = digits_value es * 256 + e" by (simp add: digits_value_def)
  ultimately show ?case using snoc by (simp add: algebra_simps)
qed (simp add: digits_value_def)

lemma digits_value_Cons: "digits_value (d # ds) = d * 256 ^ length ds + digits_value ds"
  using digits_value_append [of "[d]" ds] by (simp add: digits_value_def)

lemma digits_value_less: "\<forall>d \<in> set ds. d < 256 \<Longrightarrow> digits_value ds < 256 ^ length ds"
proof (induction ds)
  case (Cons d ds)
  then have "digits_value ds < 256 ^ length ds" "d + 1 \<le> 256" by auto
  then have "digits_value ds + d * 256 ^ length ds < 256 ^ length ds + d * 256 ^ length ds" by simp
  also have "\<dots> = (d + 1) * 256 ^ length ds" by (simp add: algebra_simps)
  also have "\<dots> \<le> 256 * 256 ^ length ds" using \<open>d + 1 \<le> 256\<close> by (rule mult_le_mono1)
  finally show ?case by (simp add: digits_value_Cons algebra_simps)
qed (simp add: digits_value_def)

lemma unat_byte_less: "unat (b :: u8) < 256"
  using unsigned_less [of b, where ?'a = nat] by simp

lemma memcmp_value:
  assumes "length xs = n" and "length ys = n"
  shows "(memcmp n xs ys < 0 \<longleftrightarrow> digits_value (map unat xs) < digits_value (map unat ys))
    \<and> (memcmp n xs ys = 0 \<longleftrightarrow> xs = ys) \<and> (memcmp n xs ys > 0 \<longleftrightarrow> digits_value (map unat ys) < digits_value (map unat xs))"
  using assms
proof (induction n xs ys rule: memcmp.induct)
  case (1 n x xs y ys)
  let ?v = "\<lambda>xs. digits_value (map unat (xs :: u8 list))"
  have len: "length xs = n" "length ys = n" using "1.prems"(1,2) by simp_all
  have b: "?v xs < 256 ^ n" "?v ys < 256 ^ n"
    using digits_value_less [of "map unat xs"] digits_value_less [of "map unat ys"] len unat_byte_less by auto
  have less: "a * 256 ^ n + p < c * 256 ^ n + q" if "a < c" "p < 256 ^ n" for a c p q :: nat
  proof -
    have "(a + 1) * 256 ^ n \<le> c * 256 ^ n" using that(1) by (intro mult_le_mono1) simp
    then show ?thesis using that(2) by (simp add: algebra_simps)
  qed
  show ?case
  proof (cases "x = y")
    case True
    then show ?thesis using "1.IH" [OF True len] len by (simp add: digits_value_Cons)
  next
    case False
    show ?thesis
    proof (cases "x < y")
      case True
      then have "?v (x # xs) < ?v (y # ys)" using less [of "unat x" "unat y" "?v xs" "?v ys"] b len
        by (simp add: digits_value_Cons word_less_nat_alt)
      then show ?thesis using True False by simp
    next
      case nl: False
      then have "y < x" using False by simp
      then have "?v (y # ys) < ?v (x # xs)" using less [of "unat y" "unat x" "?v ys" "?v xs"] b len
        by (simp add: digits_value_Cons word_less_nat_alt)
      then show ?thesis using nl False by simp
    qed
  qed
qed simp_all

section \<open>Keys\<close>

text \<open>The bytes under which an integer key is stored.\<close>

definition key_bytes :: "u64 \<Rightarrow> u8 list" where
  "key_bytes key = memory_image (bswap64 key)"

lemma length_key_bytes [simp]: "length (key_bytes k) = 8"
  by (simp add: key_bytes_def)

lemma key_bytes_eq: "key_bytes key = map (\<lambda>k. byte_of (7 - k) key) [0..<8]"
  by (simp add: key_bytes_def memory_image_def byte_bswap64)

lemma unat_byte_of: "unat (byte_of k x) = unat x div 256 ^ k mod 256"
proof -
  have "unat (drop_bit (8 * k) x) = unat x div 256 ^ k"
    using unsigned_less [of x, where ?'a = nat]
    by (simp only: unsigned_drop_bit_eq) (simp add: drop_bit_eq_div power_mult take_bit_nat_eq_self)
  then show ?thesis by (simp add: byte_of_def unsigned_ucast_eq take_bit_eq_mod)
qed

lemma digits_mod: "digits_value (map (\<lambda>k. n div 256 ^ (m - 1 - k) mod 256) [0..<m]) = n mod 256 ^ m"
proof (induction m)
  case (Suc m)
  have "map (\<lambda>k. n div 256 ^ (Suc m - 1 - k) mod 256) [0..<Suc m] = (n div 256 ^ m mod 256) # map (\<lambda>k. n div 256 ^ (m - 1 - k) mod 256) [0..<m]"
    by (simp add: upt_conv_Cons map_Suc_upt [symmetric] comp_def del: upt_Suc)
  then have "digits_value (map (\<lambda>k. n div 256 ^ (Suc m - 1 - k) mod 256) [0..<Suc m]) = n div 256 ^ m mod 256 * 256 ^ m + n mod 256 ^ m"
    using Suc by (simp only: digits_value_Cons length_map length_upt) simp
  also have "\<dots> = n mod (256 ^ m * 256)" unfolding mod_mult2_eq by simp
  finally show ?case by (simp only: power_Suc2)
qed (simp add: digits_value_def)

lemma key_value: "digits_value (map unat (key_bytes key)) = unat key"
proof -
  have "map unat (key_bytes key) = map (\<lambda>k. unat key div 256 ^ (8 - 1 - k) mod 256) [0..<8]"
    by (simp add: key_bytes_eq unat_byte_of comp_def)
  then have "digits_value (map unat (key_bytes key)) = unat key mod 256 ^ 8" by (simp only: digits_mod)
  moreover have "unat key < 256 ^ 8" using unsigned_less [of key, where ?'a = nat] by simp
  ultimately show ?thesis by simp
qed

lemma memcmp_key_bytes:
  "memcmp 8 (key_bytes a) (key_bytes b) < 0 \<longleftrightarrow> a < b" "memcmp 8 (key_bytes a) (key_bytes b) = 0 \<longleftrightarrow> a = b"
  "memcmp 8 (key_bytes a) (key_bytes b) > 0 \<longleftrightarrow> b < a"
proof -
  note m = memcmp_value [OF length_key_bytes [of a] length_key_bytes [of b]]
  show "memcmp 8 (key_bytes a) (key_bytes b) < 0 \<longleftrightarrow> a < b" "memcmp 8 (key_bytes a) (key_bytes b) > 0 \<longleftrightarrow> b < a"
    using m by (simp_all add: key_value word_less_nat_alt)
  have "key_bytes a = key_bytes b \<longleftrightarrow> a = b"
    by (metis key_bytes_def load_memory_image bswap64_bswap64)
  then show "memcmp 8 (key_bytes a) (key_bytes b) = 0 \<longleftrightarrow> a = b" using m by simp
qed

lemma key_of_bytes [simp]: "bswap64 (load_u64 (key_bytes key)) = key"
  by (simp add: key_bytes_def)

lemma key_bytes_inject [simp]: "key_bytes a = key_bytes b \<longleftrightarrow> a = b"
  by (metis key_of_bytes)

lemma memory_image_load:
  assumes "length bs = 8"
  shows "memory_image (load_u64 bs) = bs"
proof -
  have "length bs = Suc (Suc (Suc (Suc (Suc (Suc (Suc (Suc 0)))))))" using assms by simp
  then show ?thesis by (auto simp: length_Suc_conv memory_image_def load_u64_def upt_8)
qed

lemma key_bytes_surj:
  assumes "length bs = 8"
  shows "key_bytes (bswap64 (load_u64 bs)) = bs"
  using memory_image_load [OF assms] by (simp add: key_bytes_def)

end
