(* ===== verification/Masstree_Wrapper.thy ===== *)
theory Masstree_Wrapper
  imports Byte_Order
begin

text \<open>
  indexes/masstree_wrapper.hpp. The Masstree library is not part of the repository: its cursors and
  scans are the parameter \<open>masstree\<close> of the definitions, and what the wrapper relies on is the
  hypothesis \<open>masstree_laws\<close>. The threads' \<open>threadinfo\<close> handles are left out.
\<close>

section \<open>The library's interface\<close>

text \<open>What a scan shows to its scanner, in order: the leaves and the values.\<close>

datatype mt_visit = VisitLeaf nat u64 | VisitValue "u8 list" nat

text \<open>
  The operations of a cursor for a key: whether the key was found, its value, the leaf that holds or
  would hold it, the leaf's versions before and after the operation, the assignment to the value, and
  \<open>finish\<close> with its argument (1 inserts, -1 removes, 0 only releases the leaf).
\<close>

record 't masstree =
  mt_find :: "'t \<Rightarrow> u8 list \<Rightarrow> bool"
  mt_value :: "'t \<Rightarrow> u8 list \<Rightarrow> nat"
  mt_node :: "'t \<Rightarrow> u8 list \<Rightarrow> nat"
  mt_full_version :: "'t \<Rightarrow> u8 list \<Rightarrow> u64"
  mt_previous_version :: "'t \<Rightarrow> u8 list \<Rightarrow> u64"
  mt_next_version :: "'t \<Rightarrow> u8 list \<Rightarrow> int \<Rightarrow> u64"
  mt_set_value :: "'t \<Rightarrow> u8 list \<Rightarrow> nat \<Rightarrow> 't"
  mt_finish :: "'t \<Rightarrow> u8 list \<Rightarrow> int \<Rightarrow> 't"
  mt_node_version :: "'t \<Rightarrow> nat \<Rightarrow> u64"
  mt_scan :: "'t \<Rightarrow> u8 list \<Rightarrow> bool \<Rightarrow> mt_visit list"
  mt_rscan :: "'t \<Rightarrow> u8 list \<Rightarrow> bool \<Rightarrow> mt_visit list"

record node_info =
  ni_node :: nat
  ni_old_version :: u64
  ni_new_version :: u64

definition node_info_init :: node_info where
  "node_info_init = \<lparr>ni_node = 0, ni_old_version = 0, ni_new_version = 0\<rparr>"

section \<open>Single keys\<close>

definition insert_value :: "'t masstree \<Rightarrow> u8 list \<Rightarrow> nat \<Rightarrow> 't \<Rightarrow> bool \<times> 't" where
  "insert_value mt key value t =
     (if mt_find mt t key then (False, mt_finish mt t key 0)
      else (True, mt_finish mt (mt_set_value mt t key value) key 1))"

definition insert_value_and_get_nodeinfo_on_success ::
  "'t masstree \<Rightarrow> u8 list \<Rightarrow> nat \<Rightarrow> node_info \<Rightarrow> 't \<Rightarrow> bool \<times> node_info \<times> 't" where
  "insert_value_and_get_nodeinfo_on_success mt key value ni t =
     (if mt_find mt t key then (False, ni, mt_finish mt t key 0)
      else (True, \<lparr>ni_node = mt_node mt t key, ni_old_version = mt_previous_version mt t key,
                   ni_new_version = mt_next_version mt t key 1\<rparr>,
            mt_finish mt (mt_set_value mt t key value) key 1))"

definition get_value :: "'t masstree \<Rightarrow> u8 list \<Rightarrow> 't \<Rightarrow> nat" where
  "get_value mt key t = (if mt_find mt t key then mt_value mt t key else 0)"

definition get_value_and_get_nodeinfo_on_failure ::
  "'t masstree \<Rightarrow> u8 list \<Rightarrow> node_info \<Rightarrow> 't \<Rightarrow> nat \<times> node_info" where
  "get_value_and_get_nodeinfo_on_failure mt key ni t =
     (if mt_find mt t key then (mt_value mt t key, ni)
      else (0, \<lparr>ni_node = mt_node mt t key, ni_old_version = mt_full_version mt t key, ni_new_version = mt_full_version mt t key\<rparr>))"

definition update_value :: "'t masstree \<Rightarrow> u8 list \<Rightarrow> nat \<Rightarrow> 't \<Rightarrow> (bool \<times> 't) res" where
  "update_value mt key value t =
     (if mt_find mt t key then
        let t1 = mt_set_value mt t key value
        in assert_then (mt_previous_version mt t1 key = mt_next_version mt t1 key 0) (Inr (True, mt_finish mt t1 key 0))
      else Inr (False, mt_finish mt t key 0))"

definition update_value_and_get_nodeinfo_on_failure ::
  "'t masstree \<Rightarrow> u8 list \<Rightarrow> nat \<Rightarrow> node_info \<Rightarrow> 't \<Rightarrow> (bool \<times> node_info \<times> 't) res" where
  "update_value_and_get_nodeinfo_on_failure mt key value ni t =
     (if mt_find mt t key then
        let t1 = mt_set_value mt t key value
        in assert_then (mt_previous_version mt t1 key = mt_next_version mt t1 key 0) (Inr (True, ni, mt_finish mt t1 key 0))
      else
        let ni1 = \<lparr>ni_node = mt_node mt t key, ni_old_version = mt_previous_version mt t key, ni_new_version = mt_next_version mt t key 0\<rparr>
        in assert_then (ni_old_version ni1 = ni_new_version ni1) (Inr (False, ni1, mt_finish mt t key 0)))"

definition remove_value :: "'t masstree \<Rightarrow> u8 list \<Rightarrow> 't \<Rightarrow> (bool \<times> 't) res" where
  "remove_value mt key t =
     (if mt_find mt t key then Inr (True, mt_finish mt t key (- 1))
      else assert_then (mt_previous_version mt t key = mt_next_version mt t key 0) (Inr (False, mt_finish mt t key 0)))"

definition remove_value_and_get_nodeinfo_on_failure ::
  "'t masstree \<Rightarrow> u8 list \<Rightarrow> node_info \<Rightarrow> 't \<Rightarrow> (bool \<times> node_info \<times> 't) res" where
  "remove_value_and_get_nodeinfo_on_failure mt key ni t =
     (if mt_find mt t key then Inr (True, ni, mt_finish mt t key (- 1))
      else
        let ni1 = \<lparr>ni_node = mt_node mt t key, ni_old_version = mt_previous_version mt t key, ni_new_version = mt_next_version mt t key 0\<rparr>
        in assert_then (ni_old_version ni1 = ni_new_version ni1) (Inr (False, ni1, mt_finish mt t key 0)))"

section \<open>Scans\<close>

text \<open>
  The callbacks transform a state of their own and the flag \<open>continue_flag\<close>.
\<close>

record 's callback =
  per_node_func :: "nat \<Rightarrow> u64 \<Rightarrow> 's \<times> bool \<Rightarrow> 's \<times> bool"
  per_kv_func :: "u8 list \<Rightarrow> nat \<Rightarrow> 's \<times> bool \<Rightarrow> 's \<times> bool"

record 's scanner =
  sc_state :: 's
  continue_flag :: bool
  scan_num_cnt :: int

definition call_kv :: "'s callback \<Rightarrow> u8 list \<Rightarrow> nat \<Rightarrow> 's scanner \<Rightarrow> 's scanner" where
  "call_kv cb key val s =
     (case per_kv_func cb key val (sc_state s, continue_flag s) of (x, c) \<Rightarrow> s\<lparr>sc_state := x, continue_flag := c\<rparr>)"

definition visit_leaf :: "'s callback \<Rightarrow> nat \<Rightarrow> u64 \<Rightarrow> 's scanner \<Rightarrow> 's scanner" where
  "visit_leaf cb node version s =
     (case per_node_func cb node version (sc_state s, continue_flag s) of (x, c) \<Rightarrow> s\<lparr>sc_state := x, continue_flag := c\<rparr>)"

text \<open>\<open>SearchRangeScanner::visit_value\<close>; the end key is \<open>None\<close> if its pointer is null.\<close>

definition visit_value ::
  "u8 list option \<Rightarrow> bool \<Rightarrow> int \<Rightarrow> 's callback \<Rightarrow> u8 list \<Rightarrow> nat \<Rightarrow> 's scanner \<Rightarrow> bool \<times> 's scanner" where
  "visit_value rkey r_exclusive max_scan_num cb key val s =
     (if \<not> continue_flag s \<or> max_scan_num \<ge> 0 \<and> scan_num_cnt s \<ge> max_scan_num then (False, s)
      else
        let s1 = s\<lparr>scan_num_cnt := scan_num_cnt s + 1\<rparr>
        in case rkey of
             None \<Rightarrow> (True, call_kv cb key val s1)
           | Some rk \<Rightarrow>
               let res = memcmp (min (length rk) (length key)) rk key;
                   smaller_than_end_key = res > 0;
                   same_as_end_key_but_shorter = (res = 0 \<and> length rk > length key);
                   same_as_end_key_inclusive = (res = 0 \<and> length rk = length key \<and> \<not> r_exclusive)
               in if smaller_than_end_key \<or> same_as_end_key_but_shorter \<or> same_as_end_key_inclusive
                  then (True, call_kv cb key val s1) else (False, s1))"

text \<open>\<open>BackwordScanner::visit_value\<close>.\<close>

definition visit_value_backward ::
  "u8 list option \<Rightarrow> bool \<Rightarrow> int \<Rightarrow> 's callback \<Rightarrow> u8 list \<Rightarrow> nat \<Rightarrow> 's scanner \<Rightarrow> bool \<times> 's scanner" where
  "visit_value_backward lkey l_exclusive max_scan_num cb key val s =
     (if \<not> continue_flag s \<or> max_scan_num \<ge> 0 \<and> scan_num_cnt s \<ge> max_scan_num then (False, s)
      else
        let s1 = s\<lparr>scan_num_cnt := scan_num_cnt s + 1\<rparr>
        in case lkey of
             None \<Rightarrow> (True, call_kv cb key val s1)
           | Some lk \<Rightarrow>
               let res = memcmp (min (length lk) (length key)) lk key;
                   bigger_than_end_key = res < 0;
                   same_as_end_key_but_longer = (res = 0 \<and> length lk < length key);
                   same_as_end_key_inclusive = (res = 0 \<and> length lk = length key \<and> \<not> l_exclusive)
               in if bigger_than_end_key \<or> same_as_end_key_but_longer \<or> same_as_end_key_inclusive
                  then (True, call_kv cb key val s1) else (False, s1))"

text \<open>
  A scan shows leaves and values to the scanner until \<open>visit_value\<close> returns false. What there is to show
  is the library's (\<open>mt_scan\<close>, \<open>mt_rscan\<close>); that it stops there is the contract of a scanner, which the
  wrapper's scanners are written against.
\<close>

fun scan_visits ::
  "(u8 list \<Rightarrow> nat \<Rightarrow> 's scanner \<Rightarrow> bool \<times> 's scanner) \<Rightarrow> 's callback \<Rightarrow> mt_visit list \<Rightarrow> 's scanner \<Rightarrow> 's scanner" where
  "scan_visits vv cb [] s = s"
| "scan_visits vv cb (VisitLeaf node version # vs) s = scan_visits vv cb vs (visit_leaf cb node version s)"
| "scan_visits vv cb (VisitValue key val # vs) s =
     (case vv key val s of (True, s1) \<Rightarrow> scan_visits vv cb vs s1 | (False, s1) \<Rightarrow> s1)"

definition scanner_init :: "'s \<Rightarrow> 's scanner" where
  "scanner_init x = \<lparr>sc_state = x, continue_flag = True, scan_num_cnt = 0\<rparr>"

text \<open>An empty string (the default \<open>Str\<close>) stands for a null start key.\<close>

definition scan ::
  "'t masstree \<Rightarrow> u8 list option \<Rightarrow> bool \<Rightarrow> u8 list option \<Rightarrow> bool \<Rightarrow> 's callback \<Rightarrow> int \<Rightarrow> 't \<Rightarrow> 's \<Rightarrow> 's" where
  "scan mt lkey l_exclusive rkey r_exclusive cb max_scan_num t x =
     (let mtkey = (case lkey of None \<Rightarrow> [] | Some k \<Rightarrow> k)
      in sc_state (scan_visits (visit_value rkey r_exclusive max_scan_num cb) cb (mt_scan mt t mtkey (\<not> l_exclusive)) (scanner_init x)))"

text \<open>The start key is \<open>rkey\<close>, but it is \<open>lkey\<close> that is tested for null.\<close>

definition rscan ::
  "'t masstree \<Rightarrow> u8 list option \<Rightarrow> bool \<Rightarrow> u8 list option \<Rightarrow> bool \<Rightarrow> 's callback \<Rightarrow> int \<Rightarrow> 't \<Rightarrow> 's \<Rightarrow> 's res" where
  "rscan mt lkey l_exclusive rkey r_exclusive cb max_scan_num t x =
     ebind (case lkey of None \<Rightarrow> Inr [] | Some _ \<Rightarrow> (case rkey of None \<Rightarrow> Inl NullDeref | Some k \<Rightarrow> Inr k)) (\<lambda>mtkey.
       Inr (sc_state (scan_visits (visit_value_backward lkey l_exclusive max_scan_num cb) cb
         (mt_rscan mt t mtkey (\<not> r_exclusive)) (scanner_init x))))"

definition get_version_value :: "'t masstree \<Rightarrow> nat \<Rightarrow> 't \<Rightarrow> u64" where
  "get_version_value mt n t = mt_node_version mt t n"

section \<open>What the wrapper relies on\<close>

text \<open>
  \<open>entries\<close> are the keys of a table with their values. All keys in use have eight bytes, so the
  library's order of byte strings is \<open>memcmp\<close> on eight bytes.
\<close>

definition visited :: "mt_visit list \<Rightarrow> (u8 list \<times> nat) list" where
  "visited vs = List.map_filter (\<lambda>v. case v of VisitLeaf _ _ \<Rightarrow> None | VisitValue k x \<Rightarrow> Some (k, x)) vs"

definition masstree_laws :: "'t masstree \<Rightarrow> ('t \<Rightarrow> bool) \<Rightarrow> ('t \<Rightarrow> u8 list \<rightharpoonup> nat) \<Rightarrow> bool" where
  "masstree_laws mt ok entries \<longleftrightarrow>
     (\<forall>t k. ok t \<longrightarrow> (mt_find mt t k \<longleftrightarrow> entries t k \<noteq> None) \<and> (\<forall>v. entries t k = Some v \<longrightarrow> mt_value mt t k = v)
        \<and> mt_previous_version mt t k = mt_next_version mt t k 0
        \<and> ok (mt_finish mt t k 0) \<and> entries (mt_finish mt t k 0) = entries t)
     \<and> (\<forall>t k v. ok t \<longrightarrow> length k = 8 \<longrightarrow> entries t k = None \<longrightarrow>
          ok (mt_finish mt (mt_set_value mt t k v) k 1) \<and> entries (mt_finish mt (mt_set_value mt t k v) k 1) = (entries t)(k \<mapsto> v))
     \<and> (\<forall>t k. ok t \<longrightarrow> entries t k \<noteq> None \<longrightarrow>
          ok (mt_finish mt t k (- 1)) \<and> entries (mt_finish mt t k (- 1)) = (entries t)(k := None))
     \<and> (\<forall>t k incl. ok t \<longrightarrow> length k = 8 \<longrightarrow>
          sorted_wrt (\<lambda>a b. memcmp 8 (fst a) (fst b) < 0) (visited (mt_scan mt t k incl))
          \<and> set (visited (mt_scan mt t k incl)) = {(j, v). entries t j = Some v \<and> (memcmp 8 k j < 0 \<or> incl \<and> j = k)})
     \<and> (\<forall>t k incl. ok t \<longrightarrow> length k = 8 \<longrightarrow>
          sorted_wrt (\<lambda>a b. memcmp 8 (fst b) (fst a) < 0) (visited (mt_rscan mt t k incl))
          \<and> set (visited (mt_rscan mt t k incl)) = {(j, v). entries t j = Some v \<and> (memcmp 8 j k < 0 \<or> incl \<and> j = k)})
     \<and> (\<forall>t k. ok t \<longrightarrow> entries t k \<noteq> None \<longrightarrow> length k = 8)"

lemma masstree_lawsD:
  assumes "masstree_laws mt ok entries" and "ok t"
  shows "mt_find mt t k \<longleftrightarrow> entries t k \<noteq> None" "entries t k = Some v \<Longrightarrow> mt_value mt t k = v"
    "mt_previous_version mt t k = mt_next_version mt t k 0"
    "ok (mt_finish mt t k 0)" "entries (mt_finish mt t k 0) = entries t"
    "length k = 8 \<Longrightarrow> entries t k = None \<Longrightarrow> ok (mt_finish mt (mt_set_value mt t k v) k 1)"
    "length k = 8 \<Longrightarrow> entries t k = None \<Longrightarrow> entries (mt_finish mt (mt_set_value mt t k v) k 1) = (entries t)(k \<mapsto> v)"
    "entries t k \<noteq> None \<Longrightarrow> ok (mt_finish mt t k (- 1))"
    "entries t k \<noteq> None \<Longrightarrow> entries (mt_finish mt t k (- 1)) = (entries t)(k := None)"
    "length k = 8 \<Longrightarrow> sorted_wrt (\<lambda>a b. memcmp 8 (fst a) (fst b) < 0) (visited (mt_scan mt t k incl))"
    "length k = 8 \<Longrightarrow> set (visited (mt_scan mt t k incl)) = {(j, v). entries t j = Some v \<and> (memcmp 8 k j < 0 \<or> incl \<and> j = k)}"
    "length k = 8 \<Longrightarrow> sorted_wrt (\<lambda>a b. memcmp 8 (fst b) (fst a) < 0) (visited (mt_rscan mt t k incl))"
    "length k = 8 \<Longrightarrow> set (visited (mt_rscan mt t k incl)) = {(j, v). entries t j = Some v \<and> (memcmp 8 j k < 0 \<or> incl \<and> j = k)}"
    "entries t k \<noteq> None \<Longrightarrow> length k = 8"
  using assms unfolding masstree_laws_def by (simp_all del: not_None_eq)

end
