(* ===== verification/Masstree_Indexes.thy ===== *)
theory Masstree_Indexes
  imports Masstree_Wrapper
begin

text \<open>
  indexes/masstree.hpp: one table per table id, integer keys, lookups, insertions with the
  validation of leaf versions, and range scans into an ordered map. The result is related to the
  map from keys to values that a table stands for.
\<close>

section \<open>State\<close>

datatype index_result = OK | NOT_FOUND | BAD_INSERT | NOT_INSERTED | NOT_DELETED | BAD_SCAN

text \<open>Leaves and their versions; \<open>emplace\<close> does not overwrite.\<close>

type_synonym node_map = "nat \<rightharpoonup> u64"

definition node_emplace :: "nat \<Rightarrow> u64 \<Rightarrow> node_map \<Rightarrow> node_map" where
  "node_emplace n v nm = (if nm n = None then nm(n \<mapsto> v) else nm)"

text \<open>\<open>std::map<Key, Value*>\<close> as its entries in ascending order.\<close>

type_synonym kv_map = "(u64 \<times> nat) list"

fun kv_emplace :: "u64 \<Rightarrow> nat \<Rightarrow> kv_map \<Rightarrow> kv_map" where
  "kv_emplace k v [] = [(k, v)]"
| "kv_emplace k v ((j, u) # m) =
     (if k < j then (k, v) # (j, u) # m else if k = j then (j, u) # m else (j, u) # kv_emplace k v m)"

type_synonym 't indexes = "u64 \<Rightarrow> 't"

section \<open>Lookups and updates\<close>

definition idx_find :: "'t masstree \<Rightarrow> u64 \<Rightarrow> u64 \<Rightarrow> 't indexes \<Rightarrow> index_result \<times> nat" where
  "idx_find mt table_id key idx =
     (let key_buf = key_bytes key; val = get_value mt key_buf (idx table_id)
      in (if val = 0 then NOT_FOUND else OK, val))"

definition idx_find_node ::
  "'t masstree \<Rightarrow> u64 \<Rightarrow> u64 \<Rightarrow> node_map \<Rightarrow> 't indexes \<Rightarrow> index_result \<times> nat \<times> node_map" where
  "idx_find_node mt table_id key nm idx =
     (let key_buf = key_bytes key;
          (val, ni) = get_value_and_get_nodeinfo_on_failure mt key_buf node_info_init (idx table_id)
      in if val = 0 then (NOT_FOUND, val, node_emplace (ni_node ni) (ni_new_version ni) nm) else (OK, val, nm))"

definition idx_insert :: "'t masstree \<Rightarrow> u64 \<Rightarrow> u64 \<Rightarrow> nat \<Rightarrow> 't indexes \<Rightarrow> index_result \<times> 't indexes" where
  "idx_insert mt table_id key val idx =
     (let (inserted, t) = insert_value mt (key_bytes key) val (idx table_id)
      in (if inserted then OK else NOT_INSERTED, idx(table_id := t)))"

definition idx_insert_info ::
  "'t masstree \<Rightarrow> u64 \<Rightarrow> u64 \<Rightarrow> nat \<Rightarrow> node_info \<Rightarrow> 't indexes \<Rightarrow> index_result \<times> node_info \<times> 't indexes" where
  "idx_insert_info mt table_id key val ni idx =
     (let (inserted, ni1, t) = insert_value_and_get_nodeinfo_on_success mt (key_bytes key) val ni (idx table_id)
      in (if inserted then OK else NOT_INSERTED, ni1, idx(table_id := t)))"

definition idx_insert_node ::
  "'t masstree \<Rightarrow> u64 \<Rightarrow> u64 \<Rightarrow> nat \<Rightarrow> node_map \<Rightarrow> 't indexes \<Rightarrow> index_result \<times> node_map \<times> 't indexes" where
  "idx_insert_node mt table_id key val nm idx =
     (let (inserted, ni, t) = insert_value_and_get_nodeinfo_on_success mt (key_bytes key) val node_info_init (idx table_id);
          idx1 = idx(table_id := t)
      in if inserted then
           case nm (ni_node ni) of
             None \<Rightarrow> (OK, nm, idx1)
           | Some version \<Rightarrow>
               if version \<noteq> ni_old_version ni then (BAD_INSERT, nm, idx1)
               else (OK, nm(ni_node ni \<mapsto> ni_new_version ni), idx1)
         else (NOT_INSERTED, nm, idx1))"

definition idx_remove :: "'t masstree \<Rightarrow> u64 \<Rightarrow> u64 \<Rightarrow> 't indexes \<Rightarrow> (index_result \<times> 't indexes) res" where
  "idx_remove mt table_id key idx =
     ebind (remove_value mt (key_bytes key) (idx table_id)) (\<lambda>(removed, t).
       Inr (if removed then OK else NOT_DELETED, idx(table_id := t)))"

definition idx_get_version_value :: "'t masstree \<Rightarrow> u64 \<Rightarrow> nat \<Rightarrow> 't indexes \<Rightarrow> u64" where
  "idx_get_version_value mt table_id node idx = get_version_value mt node (idx table_id)"

section \<open>Ranges\<close>

text \<open>The next key and value, or what the caller's variables held before.\<close>

definition get_next_kv :: "'t masstree \<Rightarrow> u64 \<Rightarrow> u64 \<Rightarrow> u64 \<times> nat \<Rightarrow> 't indexes \<Rightarrow> index_result \<times> u64 \<times> nat" where
  "get_next_kv mt table_id lkey before idx =
     (OK, scan mt (Some (key_bytes lkey)) True (Some (key_bytes (- 1))) False
        \<lparr>per_node_func = (\<lambda>node version x. x),
         per_kv_func = (\<lambda>key val (x, c). ((bswap64 (load_u64 key), val), c))\<rparr> 1 (idx table_id) before)"

definition get_kv_in_range_with ::
  "'t masstree \<Rightarrow> u64 \<Rightarrow> u64 \<Rightarrow> u64 \<Rightarrow> (nat \<Rightarrow> u64 \<Rightarrow> 's \<times> bool \<Rightarrow> 's \<times> bool) \<Rightarrow> (u64 \<Rightarrow> nat \<Rightarrow> 's \<times> bool \<Rightarrow> 's \<times> bool)
   \<Rightarrow> 't indexes \<Rightarrow> 's \<Rightarrow> index_result \<times> 's" where
  "get_kv_in_range_with mt table_id lkey rkey node_func kv_func idx x =
     (OK, scan mt (Some (key_bytes lkey)) False (Some (key_bytes rkey)) True
        \<lparr>per_node_func = node_func, per_kv_func = (\<lambda>key val. kv_func (bswap64 (load_u64 key)) val)\<rparr> (- 1) (idx table_id) x)"

definition get_kv_in_rev_range_with ::
  "'t masstree \<Rightarrow> u64 \<Rightarrow> u64 \<Rightarrow> u64 \<Rightarrow> (nat \<Rightarrow> u64 \<Rightarrow> 's \<times> bool \<Rightarrow> 's \<times> bool) \<Rightarrow> (u64 \<Rightarrow> nat \<Rightarrow> 's \<times> bool \<Rightarrow> 's \<times> bool)
   \<Rightarrow> 't indexes \<Rightarrow> 's \<Rightarrow> (index_result \<times> 's) res" where
  "get_kv_in_rev_range_with mt table_id lkey rkey node_func kv_func idx x =
     ebind (rscan mt (Some (key_bytes lkey)) True (Some (key_bytes rkey)) False
        \<lparr>per_node_func = node_func, per_kv_func = (\<lambda>key val. kv_func (bswap64 (load_u64 key)) val)\<rparr> (- 1) (idx table_id) x)
       (\<lambda>x'. Inr (OK, x'))"

text \<open>The callback that fills the map until it has \<open>count\<close> entries, and the one that records and checks leaf versions.\<close>

definition collect_kv :: "int \<Rightarrow> u64 \<Rightarrow> nat \<Rightarrow> kv_map \<times> bool \<Rightarrow> kv_map \<times> bool" where
  "collect_kv cnt key val s =
     (case s of (m, c) \<Rightarrow>
        let m1 = kv_emplace key val m
        in (m1, if cnt \<noteq> - 1 \<and> int (length m1) \<ge> cnt then False else c))"

definition check_node :: "nat \<Rightarrow> u64 \<Rightarrow> (node_map \<times> bool) \<times> bool \<Rightarrow> (node_map \<times> bool) \<times> bool" where
  "check_node leaf version s =
     (case s of ((nm, caught), c) \<Rightarrow>
        case nm leaf of
          None \<Rightarrow> ((nm(leaf \<mapsto> version), caught), c)
        | Some v \<Rightarrow> if v \<noteq> version then ((nm, True), False) else ((nm, caught), c))"

definition get_kv_in_range ::
  "'t masstree \<Rightarrow> u64 \<Rightarrow> u64 \<Rightarrow> u64 \<Rightarrow> int \<Rightarrow> 't indexes \<Rightarrow> kv_map \<Rightarrow> index_result \<times> kv_map" where
  "get_kv_in_range mt table_id lkey rkey cnt idx m =
     (OK, snd (get_kv_in_range_with mt table_id lkey rkey (\<lambda>leaf version s. s) (collect_kv cnt) idx m))"

definition get_kv_in_range_node ::
  "'t masstree \<Rightarrow> u64 \<Rightarrow> u64 \<Rightarrow> u64 \<Rightarrow> int \<Rightarrow> 't indexes \<Rightarrow> kv_map \<Rightarrow> node_map \<Rightarrow> index_result \<times> kv_map \<times> node_map" where
  "get_kv_in_range_node mt table_id lkey rkey cnt idx m nm =
     (case snd (get_kv_in_range_with mt table_id lkey rkey
         (\<lambda>leaf version ((m, n), c). case check_node leaf version (n, c) of (n', c') \<Rightarrow> ((m, n'), c'))
         (\<lambda>key val ((m, n), c). case collect_kv cnt key val (m, c) of (m', c') \<Rightarrow> ((m', n), c')) idx (m, (nm, False))) of
       (m', (nm', caught)) \<Rightarrow> (if caught then BAD_SCAN else OK, m', nm'))"

definition get_kv_in_rev_range ::
  "'t masstree \<Rightarrow> u64 \<Rightarrow> u64 \<Rightarrow> u64 \<Rightarrow> int \<Rightarrow> 't indexes \<Rightarrow> kv_map \<Rightarrow> (index_result \<times> kv_map) res" where
  "get_kv_in_rev_range mt table_id lkey rkey cnt idx m =
     ebind (get_kv_in_rev_range_with mt table_id lkey rkey (\<lambda>leaf version s. s) (collect_kv cnt) idx m) (\<lambda>(_, m'). Inr (OK, m'))"

definition get_kv_in_rev_range_node ::
  "'t masstree \<Rightarrow> u64 \<Rightarrow> u64 \<Rightarrow> u64 \<Rightarrow> int \<Rightarrow> 't indexes \<Rightarrow> kv_map \<Rightarrow> node_map \<Rightarrow> (index_result \<times> kv_map \<times> node_map) res" where
  "get_kv_in_rev_range_node mt table_id lkey rkey cnt idx m nm =
     ebind (get_kv_in_rev_range_with mt table_id lkey rkey
         (\<lambda>leaf version ((m, n), c). case check_node leaf version (n, c) of (n', c') \<Rightarrow> ((m, n'), c'))
         (\<lambda>key val ((m, n), c). case collect_kv cnt key val (m, c) of (m', c') \<Rightarrow> ((m', n), c')) idx (m, (nm, False)))
       (\<lambda>(_, (m', (nm', caught))). Inr (if caught then BAD_SCAN else OK, m', nm'))"

section \<open>What a table stands for\<close>

definition index_map :: "('t \<Rightarrow> u8 list \<rightharpoonup> nat) \<Rightarrow> 't indexes \<Rightarrow> u64 \<Rightarrow> u64 \<rightharpoonup> nat" where
  "index_map entries idx table_id key = entries (idx table_id) (key_bytes key)"

definition key_of :: "u8 list \<times> nat \<Rightarrow> u64 \<times> nat" where
  "key_of p = (bswap64 (load_u64 (fst p)), snd p)"

lemma key_of_simps [simp]: "fst (key_of p) = bswap64 (load_u64 (fst p))" "snd (key_of p) = snd p"
  by (simp_all add: key_of_def)

text \<open>The decoded keys and values that the two scans show.\<close>

lemma scanned:
  assumes laws: "masstree_laws mt ok entries" and t: "ok t"
  defines "fwd \<equiv> \<lambda>key incl. map key_of (visited (mt_scan mt t (key_bytes key) incl))"
    and "bwd \<equiv> \<lambda>key incl. map key_of (visited (mt_rscan mt t (key_bytes key) incl))"
  shows "sorted_wrt (<) (map fst (fwd key incl))"
    "set (fwd key incl) = {(k, v). entries t (key_bytes k) = Some v \<and> (key < k \<or> incl \<and> k = key)}"
    "sorted_wrt (>) (map fst (bwd key incl))"
    "set (bwd key incl) = {(k, v). entries t (key_bytes k) = Some v \<and> (k < key \<or> incl \<and> k = key)}"
    "p \<in> set (visited (mt_scan mt t (key_bytes key) incl)) \<union> set (visited (mt_rscan mt t (key_bytes key) incl)) \<Longrightarrow>
      fst p = key_bytes (fst (key_of p))"
proof -
  note l = masstree_lawsD [OF laws t]
  let ?F = "visited (mt_scan mt t (key_bytes key) incl)" and ?B = "visited (mt_rscan mt t (key_bytes key) incl)"
  note sF = l(11) [OF length_key_bytes, of key incl] and sB = l(13) [OF length_key_bytes, of key incl]
  have "length (fst p) = 8" if "p \<in> set ?F \<union> set ?B" for p
    using that l(14) [of "fst p"] unfolding sF sB by auto
  then have kb: "fst p = key_bytes (fst (key_of p))" if "p \<in> set ?F \<union> set ?B" for p using that by (simp add: key_bytes_surj)
  then show "p \<in> set ?F \<union> set ?B \<Longrightarrow> fst p = key_bytes (fst (key_of p))" .
  have "sorted_wrt (\<lambda>a b. fst (key_of a) < fst (key_of b)) ?F"
    by (rule sorted_wrt_mono_rel [OF _ l(10) [OF length_key_bytes]]) (metis UnI1 kb memcmp_key_bytes(1))
  then show "sorted_wrt (<) (map fst (fwd key incl))" by (simp add: fwd_def sorted_wrt_map)
  have "sorted_wrt (\<lambda>a b. fst (key_of b) < fst (key_of a)) ?B"
    by (rule sorted_wrt_mono_rel [OF _ l(12) [OF length_key_bytes]]) (metis UnI2 kb memcmp_key_bytes(1))
  then show "sorted_wrt (>) (map fst (bwd key incl))" by (simp add: bwd_def sorted_wrt_map)
  show "set (fwd key incl) = {(k, v). entries t (key_bytes k) = Some v \<and> (key < k \<or> incl \<and> k = key)}"
  proof (intro set_eqI iffI)
    fix x assume "x \<in> set (fwd key incl)"
    then obtain j v where p: "(j, v) \<in> set ?F" "x = key_of (j, v)" by (auto simp: fwd_def)
    obtain k where k: "j = key_bytes k" using kb [of "(j, v)"] p(1) by auto
    have "(key_bytes k, v) \<in> {(j, v). entries t j = Some v \<and> (memcmp 8 (key_bytes key) j < 0 \<or> incl \<and> j = key_bytes key)}"
      using p(1) unfolding sF k .
    then show "x \<in> {(k, v). entries t (key_bytes k) = Some v \<and> (key < k \<or> incl \<and> k = key)}"
      by (simp add: p(2) k key_of_def memcmp_key_bytes)
  next
    fix x assume "x \<in> {(k, v). entries t (key_bytes k) = Some v \<and> (key < k \<or> incl \<and> k = key)}"
    then have "(key_bytes (fst x), snd x) \<in> set ?F" unfolding sF by (auto simp: memcmp_key_bytes)
    then show "x \<in> set (fwd key incl)" unfolding fwd_def by (auto simp: key_of_def intro!: rev_image_eqI)
  qed
  show "set (bwd key incl) = {(k, v). entries t (key_bytes k) = Some v \<and> (k < key \<or> incl \<and> k = key)}"
  proof (intro set_eqI iffI)
    fix x assume "x \<in> set (bwd key incl)"
    then obtain j v where p: "(j, v) \<in> set ?B" "x = key_of (j, v)" by (auto simp: bwd_def)
    obtain k where k: "j = key_bytes k" using kb [of "(j, v)"] p(1) by auto
    have "(key_bytes k, v) \<in> {(j, v). entries t j = Some v \<and> (memcmp 8 j (key_bytes key) < 0 \<or> incl \<and> j = key_bytes key)}"
      using p(1) unfolding sB k .
    then show "x \<in> {(k, v). entries t (key_bytes k) = Some v \<and> (k < key \<or> incl \<and> k = key)}"
      by (simp add: p(2) k key_of_def memcmp_key_bytes)
  next
    fix x assume "x \<in> {(k, v). entries t (key_bytes k) = Some v \<and> (k < key \<or> incl \<and> k = key)}"
    then have "(key_bytes (fst x), snd x) \<in> set ?B" unfolding sB by (auto simp: memcmp_key_bytes)
    then show "x \<in> set (bwd key incl)" unfolding bwd_def by (auto simp: key_of_def intro!: rev_image_eqI)
  qed
qed

section \<open>Filling the map\<close>

lemma kv_emplace_last: "\<forall>p \<in> set m. fst p < k \<Longrightarrow> kv_emplace k v m = m @ [(k, v)]"
  by (induction k v m rule: kv_emplace.induct) auto

lemma kv_emplace_first: "\<forall>p \<in> set m. k < fst p \<Longrightarrow> kv_emplace k v m = (k, v) # m"
  by (cases m) auto

text \<open>How many entries a range with \<open>cnt\<close> takes when \<open>have\<close> are already there.\<close>

definition wanted :: "int \<Rightarrow> nat \<Rightarrow> nat \<Rightarrow> nat" where
  "wanted cnt have all = (if cnt = - 1 then all else nat (max 1 (cnt - int have)))"

abbreviation collect_callback :: "int \<Rightarrow> kv_map callback" where
  "collect_callback cnt \<equiv> \<lparr>per_node_func = (\<lambda>leaf version s. s), per_kv_func = (\<lambda>key val. collect_kv cnt (bswap64 (load_u64 key)) val)\<rparr>"

lemma visit_leaf_id [simp]: "visit_leaf (collect_callback cnt) n v s = s"
  by (simp add: visit_leaf_def)

lemma visited_simps [simp]:
  "visited [] = []" "visited (VisitLeaf n v # vs) = visited vs" "visited (VisitValue k x # vs) = (k, x) # visited vs"
  by (simp_all add: visited_def map_filter_simps)

lemma visit_stopped:
  "\<not> continue_flag s \<Longrightarrow> scan_visits (visit_value rk ex mx (collect_callback cnt)) (collect_callback cnt) vs s = s"
  "\<not> continue_flag s \<Longrightarrow> scan_visits (visit_value_backward rk ex mx (collect_callback cnt)) (collect_callback cnt) vs s = s"
proof (induction vs)
  case (Cons a vs)
  { case 1 then show ?case using Cons by (cases a) (simp_all add: visit_value_def) }
  { case 2 then show ?case using Cons by (cases a) (simp_all add: visit_value_backward_def) }
qed simp_all

lemma call_collect:
  "call_kv (collect_callback cnt) (key_bytes k) v s =
     s\<lparr>sc_state := kv_emplace k v (sc_state s),
       continue_flag := (if cnt \<noteq> - 1 \<and> int (length (kv_emplace k v (sc_state s))) \<ge> cnt then False else continue_flag s)\<rparr>"
  by (simp add: call_kv_def collect_kv_def Let_def)

lemma visit_value_range:
  "continue_flag s \<Longrightarrow> visit_value (Some (key_bytes r)) True (- 1) cb (key_bytes k) v s =
     (if k < r then (True, call_kv cb (key_bytes k) v (s\<lparr>scan_num_cnt := scan_num_cnt s + 1\<rparr>)) else (False, s\<lparr>scan_num_cnt := scan_num_cnt s + 1\<rparr>))"
  "continue_flag s \<Longrightarrow> visit_value_backward (Some (key_bytes l)) True (- 1) cb (key_bytes k) v s =
     (if l < k then (True, call_kv cb (key_bytes k) v (s\<lparr>scan_num_cnt := scan_num_cnt s + 1\<rparr>)) else (False, s\<lparr>scan_num_cnt := scan_num_cnt s + 1\<rparr>))"
  by (simp_all add: visit_value_def visit_value_backward_def Let_def memcmp_key_bytes)

lemma wanted_Suc:
  "cnt = - 1 \<or> int (Suc n) < cnt \<Longrightarrow> wanted cnt n (Suc a) = Suc (wanted cnt (Suc n) a)"
  "cnt \<noteq> - 1 \<Longrightarrow> cnt \<le> int (Suc n) \<Longrightarrow> wanted cnt n a = 1"
  by (auto simp: wanted_def)

lemma key_of_bytes_pair [simp]: "key_of (key_bytes k, v) = (k, v)"
  by (simp add: key_of_def)

lemma fill_forward:
  assumes "\<forall>p \<in> set (visited vs). fst p = key_bytes (fst (key_of p))" and "sorted_wrt (<) (map fst (map key_of (visited vs)))"
    and "\<forall>p \<in> set (sc_state s). \<forall>q \<in> set (visited vs). fst p < fst (key_of q)" and "continue_flag s"
  shows "sc_state (scan_visits (visit_value (Some (key_bytes r)) True (- 1) (collect_callback cnt)) (collect_callback cnt) vs s) =
    (let L = takeWhile (\<lambda>p. fst p < r) (map key_of (visited vs)) in sc_state s @ take (wanted cnt (length (sc_state s)) (length L)) L)"
  using assms
proof (induction vs arbitrary: s)
  case (Cons a vs)
  show ?case
  proof (cases a)
    case (VisitLeaf n v)
    with Cons.prems have "?thesis" if "visited (a # vs) = visited vs"
      using Cons.IH [of s] that by (simp only: scan_visits.simps visit_leaf_id)
    then show ?thesis by (simp add: VisitLeaf)
  next
    case (VisitValue j v)
    obtain k where k: "j = key_bytes k" using Cons.prems(1) VisitValue by auto
    let ?m = "sc_state s" let ?s = "call_kv (collect_callback cnt) (key_bytes k) v (s\<lparr>scan_num_cnt := scan_num_cnt s + 1\<rparr>)"
    have last: "kv_emplace k v ?m = ?m @ [(k, v)]" using Cons.prems(3) VisitValue k by (intro kv_emplace_last) auto
    have rest: "\<forall>p \<in> set (visited vs). fst p = key_bytes (fst (key_of p))" "sorted_wrt (<) (map fst (map key_of (visited vs)))"
      using Cons.prems(1,2) unfolding VisitValue visited_simps by simp_all
    show ?thesis
    proof (cases "k < r")
      case False
      have "continue_flag s" by (rule Cons.prems(4))
      with False show ?thesis by (simp add: VisitValue k visit_value_range)
    next
      case less: True
      let ?L = "takeWhile (\<lambda>p. fst p < r) (map key_of (visited vs))"
      have st: "sc_state ?s = ?m @ [(k, v)]" by (simp add: call_collect last)
      show ?thesis
      proof (cases "cnt \<noteq> - 1 \<and> cnt \<le> int (Suc (length ?m))")
        case True
        then have "\<not> continue_flag ?s" by (simp add: call_collect last)
        moreover have "continue_flag s" by (rule Cons.prems(4))
        ultimately show ?thesis using less True st
          by (simp add: VisitValue k visit_value_range visit_stopped wanted_Suc(2) del: call_collect)
      next
        case False
        then have "continue_flag ?s" using Cons.prems(4) by (simp add: call_collect last)
        moreover have "\<forall>p \<in> set (sc_state ?s). \<forall>q \<in> set (visited vs). fst p < fst (key_of q)"
          using Cons.prems(2,3) unfolding st by (auto simp: VisitValue k)
        ultimately have "sc_state (scan_visits (visit_value (Some (key_bytes r)) True (- 1) (collect_callback cnt)) (collect_callback cnt) vs ?s) =
            (?m @ [(k, v)]) @ take (wanted cnt (Suc (length ?m)) (length ?L)) ?L"
          using Cons.IH [of ?s] rest st by (simp only: Let_def length_append_singleton length_Cons)
        moreover have "wanted cnt (length ?m) (Suc (length ?L)) = Suc (wanted cnt (Suc (length ?m)) (length ?L))"
          using False by (intro wanted_Suc(1)) auto
        moreover have "continue_flag s" by (rule Cons.prems(4))
        ultimately show ?thesis using less
          by (simp add: VisitValue k visit_value_range)
      qed
    qed
  qed
qed simp

lemma fill_backward:
  assumes "\<forall>p \<in> set (visited vs). fst p = key_bytes (fst (key_of p))" and "sorted_wrt (>) (map fst (map key_of (visited vs)))"
    and "\<forall>p \<in> set (sc_state s). \<forall>q \<in> set (visited vs). fst (key_of q) < fst p" and "continue_flag s"
  shows "sc_state (scan_visits (visit_value_backward (Some (key_bytes l)) True (- 1) (collect_callback cnt)) (collect_callback cnt) vs s) =
    (let L = takeWhile (\<lambda>p. l < fst p) (map key_of (visited vs)) in rev (take (wanted cnt (length (sc_state s)) (length L)) L) @ sc_state s)"
  using assms
proof (induction vs arbitrary: s)
  case (Cons a vs)
  show ?case
  proof (cases a)
    case (VisitLeaf n v)
    with Cons.prems have "?thesis" if "visited (a # vs) = visited vs"
      using Cons.IH [of s] that by (simp only: scan_visits.simps visit_leaf_id)
    then show ?thesis by (simp add: VisitLeaf)
  next
    case (VisitValue j v)
    obtain k where k: "j = key_bytes k" using Cons.prems(1) VisitValue by auto
    let ?m = "sc_state s" let ?s = "call_kv (collect_callback cnt) (key_bytes k) v (s\<lparr>scan_num_cnt := scan_num_cnt s + 1\<rparr>)"
    have first: "kv_emplace k v ?m = (k, v) # ?m" using Cons.prems(3) VisitValue k by (intro kv_emplace_first) auto
    have rest: "\<forall>p \<in> set (visited vs). fst p = key_bytes (fst (key_of p))" "sorted_wrt (>) (map fst (map key_of (visited vs)))"
      using Cons.prems(1,2) unfolding VisitValue visited_simps by simp_all
    show ?thesis
    proof (cases "l < k")
      case False
      have "continue_flag s" by (rule Cons.prems(4))
      with False show ?thesis by (simp add: VisitValue k visit_value_range)
    next
      case less: True
      let ?L = "takeWhile (\<lambda>p. l < fst p) (map key_of (visited vs))"
      have st: "sc_state ?s = (k, v) # ?m" by (simp add: call_collect first)
      show ?thesis
      proof (cases "cnt \<noteq> - 1 \<and> cnt \<le> int (Suc (length ?m))")
        case True
        then have "\<not> continue_flag ?s" by (simp add: call_collect first)
        moreover have "continue_flag s" by (rule Cons.prems(4))
        ultimately show ?thesis using less True st
          by (simp add: VisitValue k visit_value_range visit_stopped wanted_Suc(2) del: call_collect)
      next
        case False
        then have "continue_flag ?s" using Cons.prems(4) by (simp add: call_collect first)
        moreover have "\<forall>p \<in> set (sc_state ?s). \<forall>q \<in> set (visited vs). fst (key_of q) < fst p"
          using Cons.prems(2,3) unfolding st by (auto simp: VisitValue k)
        ultimately have "sc_state (scan_visits (visit_value_backward (Some (key_bytes l)) True (- 1) (collect_callback cnt)) (collect_callback cnt) vs ?s) =
            rev (take (wanted cnt (Suc (length ?m)) (length ?L)) ?L) @ (k, v) # ?m"
          using Cons.IH [of ?s] rest st by (simp only: Let_def length_append_singleton length_Cons)
        moreover have "wanted cnt (length ?m) (Suc (length ?L)) = Suc (wanted cnt (Suc (length ?m)) (length ?L))"
          using False by (intro wanted_Suc(1)) auto
        moreover have "continue_flag s" by (rule Cons.prems(4))
        ultimately show ?thesis using less
          by (simp add: VisitValue k visit_value_range)
      qed
    qed
  qed
qed simp

section \<open>Range scans\<close>

lemma takeWhile_sorted:
  "sorted_wrt (<) (map f xs) \<Longrightarrow> takeWhile (\<lambda>p. f p < b) xs = filter (\<lambda>p. f p < b) xs"
  "sorted_wrt (>) (map f xs) \<Longrightarrow> takeWhile (\<lambda>p. b < f p) xs = filter (\<lambda>p. b < f p) xs" for f :: "'a \<Rightarrow> 'b :: linorder"
proof -
  show "sorted_wrt (<) (map f xs) \<Longrightarrow> takeWhile (\<lambda>p. f p < b) xs = filter (\<lambda>p. f p < b) xs"
  proof (induction xs)
    case (Cons x xs)
    have "\<forall>y \<in> set xs. \<not> f y < b" if "\<not> f x < b" using Cons.prems that by fastforce
    then show ?case using Cons by simp
  qed simp
  show "sorted_wrt (>) (map f xs) \<Longrightarrow> takeWhile (\<lambda>p. b < f p) xs = filter (\<lambda>p. b < f p) xs"
  proof (induction xs)
    case (Cons x xs)
    have "\<forall>y \<in> set xs. \<not> b < f y" if "\<not> b < f x" using Cons.prems that by fastforce
    then show ?case using Cons by simp
  qed simp
qed

lemma sorted_wrt_map_filter: "sorted_wrt R (map f xs) \<Longrightarrow> sorted_wrt R (map f (filter P xs))"
  by (simp add: sorted_wrt_map sorted_wrt_filter)

text \<open>How many of the entries of a range a scan into an empty map takes.\<close>

definition taken :: "int \<Rightarrow> nat \<Rightarrow> nat" where
  "taken cnt all = (if cnt = - 1 then all else nat (max 1 cnt))"

lemma wanted_0 [simp]: "wanted cnt 0 all = taken cnt all"
  by (simp add: wanted_def taken_def)

text \<open>A scan from an empty map in ascending order.\<close>

lemma range_scan:
  assumes "masstree_laws mt ok entries" and "ok (idx table_id)"
  shows "\<exists>full. sorted_wrt (<) (map fst full)
    \<and> set full = {(k, v). index_map entries idx table_id k = Some v \<and> lkey \<le> k \<and> k < rkey}
    \<and> get_kv_in_range mt table_id lkey rkey cnt idx [] = (OK, take (taken cnt (length full)) full)"
proof -
  let ?vs = "mt_scan mt (idx table_id) (key_bytes lkey) True"
  let ?all = "map key_of (visited ?vs)" let ?L = "filter (\<lambda>p. fst p < rkey) ?all"
  note sc = scanned [OF assms, where key = lkey and incl = True]
  have "set ?L = {(k, v). index_map entries idx table_id k = Some v \<and> lkey \<le> k \<and> k < rkey}"
    unfolding set_filter sc(2) by (auto simp: index_map_def)
  moreover have "sc_state (scan_visits (visit_value (Some (key_bytes rkey)) True (- 1) (collect_callback cnt)) (collect_callback cnt) ?vs (scanner_init [])) =
      take (taken cnt (length ?L)) ?L"
    by (subst fill_forward) (use sc(1,5) in \<open>auto simp: scanner_init_def takeWhile_sorted Let_def\<close>)
  then have "get_kv_in_range mt table_id lkey rkey cnt idx [] = (OK, take (taken cnt (length ?L)) ?L)"
    by (simp add: get_kv_in_range_def get_kv_in_range_with_def scan_def)
  ultimately show ?thesis using sorted_wrt_map_filter [OF sc(1)] by blast
qed

text \<open>A scan in descending order.\<close>

lemma rev_range_scan:
  assumes "masstree_laws mt ok entries" and "ok (idx table_id)"
  shows "\<exists>full. sorted_wrt (<) (map fst full)
    \<and> set full = {(k, v). index_map entries idx table_id k = Some v \<and> lkey < k \<and> k \<le> rkey}
    \<and> get_kv_in_rev_range mt table_id lkey rkey cnt idx [] = Inr (OK, drop (length full - taken cnt (length full)) full)"
proof -
  let ?vs = "mt_rscan mt (idx table_id) (key_bytes rkey) True"
  let ?all = "map key_of (visited ?vs)" let ?L = "filter (\<lambda>p. lkey < fst p) ?all"
  note sc = scanned [OF assms, where key = rkey and incl = True]
  have "set (rev ?L) = {(k, v). index_map entries idx table_id k = Some v \<and> lkey < k \<and> k \<le> rkey}"
    unfolding set_rev set_filter sc(4) by (auto simp: index_map_def)
  moreover have "sorted_wrt (<) (map fst (rev ?L))"
    using sorted_wrt_map_filter [OF sc(3)] by (simp add: sorted_wrt_rev flip: rev_map)
  moreover have "sc_state (scan_visits (visit_value_backward (Some (key_bytes lkey)) True (- 1) (collect_callback cnt)) (collect_callback cnt) ?vs (scanner_init [])) =
      rev (take (taken cnt (length ?L)) ?L)"
    by (subst fill_backward) (use sc(3,5) in \<open>auto simp: scanner_init_def takeWhile_sorted Let_def\<close>)
  then have "get_kv_in_rev_range mt table_id lkey rkey cnt idx [] = Inr (OK, drop (length (rev ?L) - taken cnt (length (rev ?L))) (rev ?L))"
    by (simp add: get_kv_in_rev_range_def get_kv_in_rev_range_with_def rscan_def rev_take)
  ultimately show ?thesis by blast
qed

text \<open>C15: In a table whose Masstree keeps its promises, a range scan from an empty map returns the keys of
  \<open>[lkey, rkey)\<close> with their values, in ascending order: all of them for a count of -1, otherwise the first
  \<open>count\<close> of them, but at least one even for a count of zero. The reverse scan returns those of \<open>(lkey, rkey]\<close>,
  otherwise the greatest ones.\<close>

theorem range_scans_exact:
  assumes "masstree_laws mt ok entries" and "ok (idx table_id)"
  shows "(\<exists>full. sorted_wrt (<) (map fst full)
      \<and> set full = {(k, v). index_map entries idx table_id k = Some v \<and> lkey \<le> k \<and> k < rkey}
      \<and> get_kv_in_range mt table_id lkey rkey cnt idx [] = (OK, take (taken cnt (length full)) full))
    \<and> (\<exists>full. sorted_wrt (<) (map fst full)
      \<and> set full = {(k, v). index_map entries idx table_id k = Some v \<and> lkey < k \<and> k \<le> rkey}
      \<and> get_kv_in_rev_range mt table_id lkey rkey cnt idx [] = Inr (OK, drop (length full - taken cnt (length full)) full))"
  using range_scan [where idx = idx and table_id = table_id, OF assms]
    rev_range_scan [where idx = idx and table_id = table_id, OF assms] by (rule conjI)

section \<open>The next key\<close>

abbreviation next_callback :: "(u64 \<times> nat) callback" where
  "next_callback \<equiv> \<lparr>per_node_func = (\<lambda>node version x. x), per_kv_func = (\<lambda>key val (x, c). ((bswap64 (load_u64 key), val), c))\<rparr>"

lemma next_visit:
  "continue_flag s \<Longrightarrow> scan_num_cnt s = 0 \<Longrightarrow>
    visit_value (Some (key_bytes (- 1))) False 1 next_callback (key_bytes k) v s = (True, s\<lparr>sc_state := (k, v), scan_num_cnt := 1\<rparr>)"
proof -
  have "key_bytes (- 1) = key_bytes k \<or> k < - 1" by (metis word_order.not_eq_extremum)
  then show "continue_flag s \<Longrightarrow> scan_num_cnt s = 0 \<Longrightarrow> ?thesis"
    by (auto simp: visit_value_def Let_def memcmp_key_bytes call_kv_def)
qed

lemma next_stays:
  "scan_num_cnt s = 1 \<Longrightarrow>
    sc_state (scan_visits (visit_value (Some (key_bytes (- 1))) False 1 next_callback) next_callback vs s) = sc_state s"
proof (induction vs)
  case (Cons a vs)
  then show ?case by (cases a) (auto simp: visit_value_def visit_leaf_def)
qed simp

lemma next_first:
  assumes "\<forall>p \<in> set (visited vs). fst p = key_bytes (fst (key_of p))" and "continue_flag s" "scan_num_cnt s = 0"
  shows "sc_state (scan_visits (visit_value (Some (key_bytes (- 1))) False 1 next_callback) next_callback vs s) =
    (case visited vs of [] \<Rightarrow> sc_state s | p # _ \<Rightarrow> key_of p)"
  using assms(1)
proof (induction vs)
  case (Cons a vs)
  show ?case
  proof (cases a)
    case (VisitLeaf n v)
    have leaf: "visit_leaf next_callback n v s = s" by (simp add: visit_leaf_def)
    have "\<forall>p \<in> set (visited vs). fst p = key_bytes (fst (key_of p))" using Cons.prems unfolding VisitLeaf visited_simps .
    from Cons.IH [OF this] show ?thesis by (simp only: VisitLeaf scan_visits.simps visited_simps leaf)
  next
    case (VisitValue j v)
    obtain k where k: "j = key_bytes k" using Cons.prems VisitValue by auto
    show ?thesis using assms(2,3) by (simp add: VisitValue k next_visit next_stays)
  qed
qed simp

text \<open>C38: \<open>get_next_kv\<close> delivers the smallest key above the given one with its value. When there is
  none it still returns OK, and the caller's variables keep what they held.\<close>

theorem next_key:
  assumes "masstree_laws mt ok entries" and "ok (idx table_id)"
  shows "if \<exists>k > lkey. index_map entries idx table_id k \<noteq> None
    then \<exists>k v. get_next_kv mt table_id lkey before idx = (OK, k, v) \<and> lkey < k \<and> index_map entries idx table_id k = Some v
      \<and> \<not> (\<exists>j > lkey. j < k \<and> index_map entries idx table_id j \<noteq> None)
    else get_next_kv mt table_id lkey before idx = (OK, before)"
proof -
  let ?vs = "mt_scan mt (idx table_id) (key_bytes lkey) False" let ?all = "map key_of (visited ?vs)"
  note sc = scanned [OF assms, where key = lkey and incl = False]
  have all: "set ?all = {(k, v). index_map entries idx table_id k = Some v \<and> lkey < k}"
    unfolding sc(2) by (simp add: index_map_def)
  have "sc_state (scan_visits (visit_value (Some (key_bytes (- 1))) False 1 next_callback) next_callback ?vs (scanner_init before)) =
      (case visited ?vs of [] \<Rightarrow> before | p # _ \<Rightarrow> key_of p)"
    by (subst next_first) (use sc(5) in \<open>auto simp: scanner_init_def split: list.split\<close>)
  then have res: "get_next_kv mt table_id lkey before idx = (OK, case ?all of [] \<Rightarrow> before | p # _ \<Rightarrow> p)"
    by (simp add: get_next_kv_def scan_def split: list.split)
  show ?thesis
  proof (cases ?all)
    case Nil
    then have "\<not> (\<exists>k > lkey. index_map entries idx table_id k \<noteq> None)" using all by fastforce
    then show ?thesis using res Nil by auto
  next
    case (Cons p ps)
    obtain k v where p: "p = (k, v)" by (cases p)
    have k: "lkey < k" "index_map entries idx table_id k = Some v" using all Cons p by auto
    have "\<not> (\<exists>j > lkey. j < k \<and> index_map entries idx table_id j \<noteq> None)"
    proof
      assume "\<exists>j > lkey. j < k \<and> index_map entries idx table_id j \<noteq> None"
      then obtain j u where j: "j < k" "(j, u) \<in> set ?all" using all by auto
      then have "(j, u) \<in> set ps" using Cons p by auto
      then have "k < j" using sc(1) unfolding Cons p by auto
      then show False using j(1) by simp
    qed
    then show ?thesis using res Cons p k by auto
  qed
qed

section \<open>Lookups, insertions and removals\<close>

text \<open>C18: Lookups, insertions and removals act on a table as on a map from keys to values: a key is
  inserted only if it is absent, a removal reports whether it was there, and other tables are not
  touched.\<close>

theorem index_refines_map:
  assumes "masstree_laws mt ok entries" and "ok (idx table_id)"
  defines "m \<equiv> index_map entries idx table_id"
  shows "idx_find mt table_id key idx = (case m key of None \<Rightarrow> (NOT_FOUND, 0) | Some v \<Rightarrow> (if v = 0 then NOT_FOUND else OK, v))
    \<and> (case idx_insert mt table_id key val idx of (res, idx') \<Rightarrow>
        res = (if m key = None then OK else NOT_INSERTED) \<and> ok (idx' table_id)
        \<and> index_map entries idx' = (index_map entries idx)(table_id := if m key = None then m(key \<mapsto> val) else m))
    \<and> (\<exists>idx'. idx_remove mt table_id key idx = Inr (if m key = None then NOT_DELETED else OK, idx') \<and> ok (idx' table_id)
        \<and> index_map entries idx' = (index_map entries idx)(table_id := m(key := None)))"
proof -
  note l = masstree_lawsD [OF assms(1,2)]
  have m: "m = (\<lambda>k. entries (idx table_id) (key_bytes k))" by (simp add: m_def index_map_def fun_eq_iff)
  have upd: "index_map entries (idx(table_id := t)) = (index_map entries idx)(table_id := \<lambda>k. entries t (key_bytes k))" for t
    by (simp add: index_map_def fun_eq_iff)
  show ?thesis
  proof (cases "m key")
    case None
    then have no: "entries (idx table_id) (key_bytes key) = None" by (simp add: m)
    have f: "idx_find mt table_id key idx = (NOT_FOUND, 0)"
      by (simp add: idx_find_def get_value_def l(1) no)
    have i: "idx_insert mt table_id key val idx = (OK, idx(table_id := mt_finish mt (mt_set_value mt (idx table_id) (key_bytes key) val) (key_bytes key) 1))"
      by (simp add: idx_insert_def insert_value_def l(1) no)
    have r: "idx_remove mt table_id key idx = Inr (NOT_DELETED, idx(table_id := mt_finish mt (idx table_id) (key_bytes key) 0))"
      by (simp add: idx_remove_def remove_value_def l(1,3) no)
    have "m(key := None) = m" using None by auto
    then show ?thesis using None by (simp add: f i r upd l(4,5,6,7) no) (auto simp: m fun_eq_iff)
  next
    case (Some v)
    then have so: "entries (idx table_id) (key_bytes key) = Some v" by (simp add: m)
    have f: "idx_find mt table_id key idx = (if v = 0 then NOT_FOUND else OK, v)"
      by (simp add: idx_find_def get_value_def l(1) l(2) [OF so] so)
    have i: "idx_insert mt table_id key val idx = (NOT_INSERTED, idx(table_id := mt_finish mt (idx table_id) (key_bytes key) 0))"
      by (simp add: idx_insert_def insert_value_def l(1) so)
    have r: "idx_remove mt table_id key idx = Inr (OK, idx(table_id := mt_finish mt (idx table_id) (key_bytes key) (- 1)))"
      by (simp add: idx_remove_def remove_value_def l(1) so)
    show ?thesis using Some by (simp add: f i r upd l(4,5,8,9) so) (auto simp: m fun_eq_iff)
  qed
qed

text \<open>An insertion with a node map inserts the value before it looks at the leaf's version: when
  it answers BAD_INSERT because the recorded version is an old one, the key is in the table.\<close>

theorem bad_insert_inserts:
  assumes "masstree_laws mt ok entries" and "ok (idx table_id)"
    and "index_map entries idx table_id key = None"
  shows "case idx_insert_node mt table_id key val nm idx of (res, nm', idx') \<Rightarrow>
    res = (case nm (mt_node mt (idx table_id) (key_bytes key)) of None \<Rightarrow> OK
           | Some version \<Rightarrow> if version \<noteq> mt_previous_version mt (idx table_id) (key_bytes key) then BAD_INSERT else OK)
    \<and> index_map entries idx' table_id = (index_map entries idx table_id)(key \<mapsto> val)"
proof -
  note l = masstree_lawsD [OF assms(1,2)]
  have no: "entries (idx table_id) (key_bytes key) = None" using assms(3) by (simp add: index_map_def)
  have "index_map entries (idx(table_id := mt_finish mt (mt_set_value mt (idx table_id) (key_bytes key) val) (key_bytes key) 1)) table_id =
      (index_map entries idx table_id)(key \<mapsto> val)"
    by (auto simp: index_map_def fun_eq_iff l(7) no)
  then show ?thesis
    by (simp add: idx_insert_node_def insert_value_and_get_nodeinfo_on_success_def l(1) no split: option.split)
qed

section \<open>A concrete Masstree\<close>

text \<open>
  A table as a sorted list of keys with their values in one leaf, and the value that is written
  at the cursor of an insertion; it keeps the promises of \<open>masstree_laws\<close>.
\<close>

type_synonym sample_table = "kv_map \<times> nat"

definition bytes_key :: "u8 list \<Rightarrow> u64" where
  "bytes_key bs = bswap64 (load_u64 bs)"

lemma bytes_key_bytes [simp]: "bytes_key (key_bytes k) = k"
  by (simp add: bytes_key_def)

definition sample_entries :: "sample_table \<Rightarrow> u8 list \<rightharpoonup> nat" where
  "sample_entries t bs = (if length bs = 8 then map_of (fst t) (bytes_key bs) else None)"

definition sample_scan :: "(u64 \<times> nat \<Rightarrow> bool) \<Rightarrow> kv_map \<Rightarrow> mt_visit list" where
  "sample_scan P m = VisitLeaf 0 0 # map (\<lambda>(k, v). VisitValue (key_bytes k) v) (filter P m)"

definition sample_masstree :: "sample_table masstree" where
  "sample_masstree = \<lparr>mt_find = (\<lambda>t k. sample_entries t k \<noteq> None), mt_value = (\<lambda>t k. the (sample_entries t k)),
     mt_node = (\<lambda>t k. 0), mt_full_version = (\<lambda>t k. 0), mt_previous_version = (\<lambda>t k. 0),
     mt_next_version = (\<lambda>t k op. if op = 0 then 0 else 1), mt_set_value = (\<lambda>(m, u) k v. (m, v)),
     mt_finish = (\<lambda>(m, u) k op. (if op = 1 then kv_emplace (bytes_key k) u m
        else if op = - 1 then filter (\<lambda>p. fst p \<noteq> bytes_key k) m else m, u)),
     mt_node_version = (\<lambda>t n. 0),
     mt_scan = (\<lambda>t k incl. sample_scan (\<lambda>p. bytes_key k < fst p \<or> incl \<and> fst p = bytes_key k) (fst t)),
     mt_rscan = (\<lambda>t k incl. sample_scan (\<lambda>p. fst p < bytes_key k \<or> incl \<and> fst p = bytes_key k) (rev (fst t)))\<rparr>"

definition sample_ok :: "sample_table \<Rightarrow> bool" where
  "sample_ok t \<longleftrightarrow> sorted_wrt (<) (map fst (fst t))"

lemma map_of_filter_key: "map_of (filter (\<lambda>p. fst p \<noteq> k) m) = (map_of m)(k := None)"
  by (induction m) auto

lemma kv_emplace_sorted:
  "sorted_wrt (<) (map fst m) \<Longrightarrow> map_of m k = None \<Longrightarrow>
    sorted_wrt (<) (map fst (kv_emplace k v m)) \<and> map_of (kv_emplace k v m) = (map_of m)(k \<mapsto> v)
    \<and> set (kv_emplace k v m) = insert (k, v) (set m)"
  by (induction k v m rule: kv_emplace.induct) (auto split: if_splits simp: fun_eq_iff)

lemma sorted_map_of_iff: "sorted_wrt (<) (map fst m) \<Longrightarrow> (k, v) \<in> set m \<longleftrightarrow> map_of m k = Some v" for m :: kv_map
  by (simp add: strict_sorted_iff)

lemma visited_sample_scan [simp]: "visited (sample_scan P m) = map (\<lambda>(k, v). (key_bytes k, v)) (filter P m)"
  by (induction m) (auto simp: sample_scan_def)

lemma length_8_bytes: "length bs = 8 \<Longrightarrow> bs = key_bytes (bytes_key bs)"
  by (simp add: bytes_key_def key_bytes_surj)

lemma sample_entries_Some: "sample_entries t bs = Some v \<longleftrightarrow> (\<exists>k. bs = key_bytes k \<and> map_of (fst t) k = Some v)"
  by (auto simp: sample_entries_def dest: length_8_bytes split: if_splits)

lemma sample_entries_upd:
  "length bs = 8 \<Longrightarrow> map_of (fst t') = (map_of (fst t))(bytes_key bs := x) \<Longrightarrow> sample_entries t' = (sample_entries t)(bs := x)"
  by (auto simp: sample_entries_def fun_eq_iff) (metis length_8_bytes)

lemma sample_masstree_laws: "masstree_laws sample_masstree sample_ok sample_entries"
  unfolding masstree_laws_def
proof (intro conjI allI impI, goal_cases)
  case (6 t k v)
  then show ?case by (cases t) (simp add: sample_masstree_def sample_ok_def sample_entries_def kv_emplace_sorted)
next
  case (7 t k v)
  obtain m u where t: "t = (m, u)" by (cases t)
  have "sample_entries (kv_emplace (bytes_key k) v m, v) = (sample_entries (m, u))(k := Some v)"
    by (rule sample_entries_upd) (use 7 in \<open>auto simp: t sample_ok_def sample_entries_def kv_emplace_sorted\<close>)
  then show ?case by (simp add: t sample_masstree_def)
next
  case (8 t k)
  then show ?case by (cases t) (auto simp: sample_masstree_def sample_ok_def sorted_wrt_map sorted_wrt_filter)
next
  case (9 t k)
  then have "length k = 8" by (simp add: sample_entries_def split: if_splits)
  then show ?case by (cases t) (auto simp: sample_masstree_def map_of_filter_key intro!: sample_entries_upd)
next
  case (10 t k incl)
  then show ?case
    by (auto simp: sample_masstree_def sample_ok_def sorted_wrt_map memcmp_key_bytes split_def intro: sorted_wrt_filter)
next
  case (11 t k incl)
  have s: "sorted_wrt (<) (map fst (fst t))" using 11 by (simp add: sample_ok_def)
  obtain j where k: "k = key_bytes j" using 11 length_8_bytes by blast
  show ?case
    by (auto simp: sample_masstree_def k sample_entries_Some memcmp_key_bytes sorted_map_of_iff [OF s] image_iff)
next
  case (12 t k incl)
  then show ?case
    by (auto simp: sample_masstree_def sample_ok_def sorted_wrt_map sorted_wrt_rev memcmp_key_bytes split_def rev_filter [symmetric] intro: sorted_wrt_filter)
next
  case (13 t k incl)
  have s: "sorted_wrt (<) (map fst (fst t))" using 13 by (simp add: sample_ok_def)
  obtain j where k: "k = key_bytes j" using 13 length_8_bytes by blast
  show ?case
    by (auto simp: sample_masstree_def k sample_entries_Some memcmp_key_bytes sorted_map_of_iff [OF s] image_iff)
qed (auto simp: sample_masstree_def sample_ok_def sample_entries_def split: if_splits prod.splits)

definition sample_indexes :: "sample_table indexes" where
  "sample_indexes table_id = (if table_id = 7 then [(1, 10), (5, 50), (9, 90)] else [], 0)"

lemma sample_indexes_ok: "sample_ok (sample_indexes table_id)"
  by (simp add: sample_indexes_def sample_ok_def)

lemma range_scans_exact_witness:
  "(\<exists>full. set full = {(k, v). index_map sample_entries sample_indexes 7 k = Some v \<and> 1 \<le> k \<and> k < 9}
      \<and> get_kv_in_range sample_masstree 7 1 9 0 sample_indexes [] = (OK, take (taken 0 (length full)) full))
    \<and> get_kv_in_range sample_masstree 7 1 9 0 sample_indexes [] = (OK, [(1, 10)])
    \<and> get_kv_in_range sample_masstree 7 1 9 (- 1) sample_indexes [] = (OK, [(1, 10), (5, 50)])
    \<and> get_kv_in_rev_range sample_masstree 7 1 9 1 sample_indexes [] = Inr (OK, [(9, 90)])"
proof (intro conjI)
  show "\<exists>full. set full = {(k, v). index_map sample_entries sample_indexes 7 k = Some v \<and> 1 \<le> k \<and> k < 9}
      \<and> get_kv_in_range sample_masstree 7 1 9 0 sample_indexes [] = (OK, take (taken 0 (length full)) full)"
    using range_scans_exact [OF sample_masstree_laws, of sample_indexes 7 1 9 0] sample_indexes_ok by blast
qed code_simp+

lemma next_key_witness:
  "(if \<exists>k > (9 :: u64). index_map sample_entries sample_indexes 7 k \<noteq> None
    then \<exists>k v. get_next_kv sample_masstree 7 9 (0, 0) sample_indexes = (OK, k, v) \<and> 9 < k \<and> index_map sample_entries sample_indexes 7 k = Some v
      \<and> \<not> (\<exists>j > 9. j < k \<and> index_map sample_entries sample_indexes 7 j \<noteq> None)
    else get_next_kv sample_masstree 7 9 (0, 0) sample_indexes = (OK, 0, 0))
    \<and> get_next_kv sample_masstree 7 9 (0, 0) sample_indexes = (OK, 0, 0)
    \<and> get_next_kv sample_masstree 7 5 (0, 0) sample_indexes = (OK, 9, 90)"
proof (intro conjI)
  show "if \<exists>k > (9 :: u64). index_map sample_entries sample_indexes 7 k \<noteq> None
    then \<exists>k v. get_next_kv sample_masstree 7 9 (0, 0) sample_indexes = (OK, k, v) \<and> 9 < k \<and> index_map sample_entries sample_indexes 7 k = Some v
      \<and> \<not> (\<exists>j > 9. j < k \<and> index_map sample_entries sample_indexes 7 j \<noteq> None)
    else get_next_kv sample_masstree 7 9 (0, 0) sample_indexes = (OK, 0, 0)"
    by (rule next_key [OF sample_masstree_laws sample_indexes_ok])
qed code_simp+

lemma index_refines_map_witness:
  "idx_find sample_masstree 7 5 sample_indexes = (OK, 50)
    \<and> (case idx_insert sample_masstree 7 5 60 sample_indexes of (res, idx') \<Rightarrow> res = NOT_INSERTED)
    \<and> (\<exists>idx'. idx_remove sample_masstree 7 5 sample_indexes = Inr (OK, idx') \<and> index_map sample_entries idx' 7 5 = None)"
proof -
  have m: "index_map sample_entries sample_indexes 7 5 = Some 50"
    by (simp add: index_map_def sample_entries_def sample_indexes_def)
  from index_refines_map [where idx = sample_indexes, OF sample_masstree_laws sample_indexes_ok, where table_id = 7 and key = 5 and val = 60] show ?thesis
    by (auto simp: m split: prod.splits intro: exI)
qed

lemma bad_insert_inserts_witness:
  "case idx_insert_node sample_masstree 7 6 60 [0 \<mapsto> 3] sample_indexes of (res, nm', idx') \<Rightarrow>
    res = BAD_INSERT \<and> index_map sample_entries idx' 7 6 = Some 60"
proof -
  have m: "index_map sample_entries sample_indexes 7 6 = None"
    by (simp add: index_map_def sample_entries_def sample_indexes_def)
  from bad_insert_inserts [where idx = sample_indexes, OF sample_masstree_laws sample_indexes_ok m, where val = 60 and nm = "[0 \<mapsto> 3]"] show ?thesis
    by (auto simp: sample_masstree_def)
qed

end
