(* ===== verification/Record_Keys.thy ===== *)
theory Record_Keys
  imports Bit_Fields Rand_Gen "HOL-Library.Char_ord"
begin

text \<open>
  The packed keys of the TPC-C tables (benchmarks/tpcc/include/record_key.hpp), the keys of the
  secondary indexes and the table ids (protocols/tpcc_common/record_misc.hpp). A key's integer orders
  the records of a table, which is what range scans rely on.
\<close>

type_synonym u16 = "16 word"

section \<open>Primary keys\<close>

text \<open>\<open>create_key\<close> of each table: assignments to the fields of a key that is zero.\<close>

definition stock_key :: "u16 \<Rightarrow> u32 \<Rightarrow> u64" where
  "stock_key w_id i_id = set_field 0 32 (ucast i_id) (set_field 32 16 (ucast w_id) 0)"

definition district_key :: "u16 \<Rightarrow> u8 \<Rightarrow> u32" where
  "district_key w_id d_id = set_field 0 8 (ucast d_id) (set_field 8 16 (ucast w_id) 0)"

definition customer_key :: "u16 \<Rightarrow> u8 \<Rightarrow> u32 \<Rightarrow> u64" where
  "customer_key w_id d_id c_id =
     set_field 0 32 (ucast c_id) (set_field 32 8 (ucast d_id) (set_field 40 16 (ucast w_id) 0))"

definition order_key :: "u16 \<Rightarrow> u8 \<Rightarrow> u32 \<Rightarrow> u64" where
  "order_key w_id d_id o_id =
     set_field 0 32 (ucast o_id) (set_field 32 8 (ucast d_id) (set_field 40 16 (ucast w_id) 0))"

definition order_line_key :: "u16 \<Rightarrow> u8 \<Rightarrow> u32 \<Rightarrow> u8 \<Rightarrow> u64" where
  "order_line_key w_id d_id o_id ol_number =
     set_field 8 32 (ucast o_id) (set_field 40 8 (ucast d_id) (set_field 48 16 (ucast w_id)
       (set_field 0 8 (ucast ol_number) 0)))"

definition new_order_key :: "u16 \<Rightarrow> u8 \<Rightarrow> u32 \<Rightarrow> u64" where
  "new_order_key w_id d_id o_id =
     set_field 0 32 (ucast o_id) (set_field 32 8 (ucast d_id) (set_field 40 16 (ucast w_id) 0))"

section \<open>struct OrderSecondaryKey\<close>

definition order_secondary_key :: "u16 \<Rightarrow> u8 \<Rightarrow> u32 \<Rightarrow> u32 \<Rightarrow> u64" where
  "order_secondary_key w_id d_id c_id o_id =
     set_field 0 32 (ucast o_id) (set_field 32 16 (ucast c_id) (set_field 48 4 (ucast d_id) (set_field 52 12 (ucast w_id) 0)))"

definition osk_less :: "u64 \<Rightarrow> u64 \<Rightarrow> bool" where
  "osk_less a b \<longleftrightarrow> a < b"

definition osk_eq :: "u64 \<Rightarrow> u64 \<Rightarrow> bool" where
  "osk_eq a b \<longleftrightarrow> a = b"

text \<open>The columns of an order that its keys are made of.\<close>

record order_columns =
  o_w_id :: u16
  o_d_id :: u8
  o_id :: u32
  o_c_id :: u32

definition order_secondary_key_of :: "order_columns \<Rightarrow> u64" where
  "order_secondary_key_of r =
     (let k = set_field 52 12 (ucast (o_w_id r)) 0; k = set_field 48 4 (ucast (o_d_id r)) k;
          k = set_field 32 16 (ucast (o_c_id r)) k
      in set_field 0 32 (ucast (o_id r)) k)"

lemma order_secondary_key_of_eq: "order_secondary_key_of r = order_secondary_key (o_w_id r) (o_d_id r) (o_c_id r) (o_id r)"
  by (simp add: order_secondary_key_of_def order_secondary_key_def Let_def)

section \<open>Strings\<close>

text \<open>Characters compare as unsigned; \<open>copy_cstr\<close> is in theory Rand_Gen.\<close>

fun strncmp :: "nat \<Rightarrow> string \<Rightarrow> string \<Rightarrow> int" where
  "strncmp (Suc n) (x # xs) (y # ys) =
     (if x < y then - 1 else if y < x then 1 else if x = CHR 0x00 then 0 else strncmp n xs ys)"
| "strncmp n xs ys = 0"

section \<open>struct CustomerSecondaryKey\<close>

record customer_secondary_key =
  csk_num :: u32
  csk_last :: string

definition MAX_LAST :: nat where
  "MAX_LAST = 16"

text \<open>The constructors leave \<open>c_last\<close> as it is: \<open>garbage\<close>.\<close>

definition csk_init :: "string \<Rightarrow> u32 \<Rightarrow> customer_secondary_key" where
  "csk_init garbage num = \<lparr>csk_num = num, csk_last = garbage\<rparr>"

definition csk_copy :: "string \<Rightarrow> u32 \<Rightarrow> customer_secondary_key \<Rightarrow> customer_secondary_key res" where
  "csk_copy garbage num0 c =
     (let num = set_field 0 8 (get_field 0 8 (csk_num c)) num0; num = set_field 8 16 (get_field 8 16 (csk_num c)) num;
          num = set_field 24 8 0 num
      in ebind (copy_cstr garbage (csk_last c) (MAX_LAST + 1)) (\<lambda>(_, buf). Inr \<lparr>csk_num = num, csk_last = buf\<rparr>))"

definition cmp_c_last :: "customer_secondary_key \<Rightarrow> customer_secondary_key \<Rightarrow> int" where
  "cmp_c_last a b = strncmp MAX_LAST (csk_last a) (csk_last b)"

definition csk_less :: "customer_secondary_key \<Rightarrow> customer_secondary_key \<Rightarrow> bool" where
  "csk_less a b \<longleftrightarrow> (if csk_num a = csk_num b then cmp_c_last a b < 0 else csk_num a < csk_num b)"

definition csk_eq :: "customer_secondary_key \<Rightarrow> customer_secondary_key \<Rightarrow> bool" where
  "csk_eq a b \<longleftrightarrow> csk_num a = csk_num b \<and> cmp_c_last a b = 0"

definition create_csk :: "string \<Rightarrow> u16 \<Rightarrow> u8 \<Rightarrow> string \<Rightarrow> customer_secondary_key res" where
  "create_csk garbage w_id d_id c_last_in =
     (let k = csk_init garbage 0; k = k\<lparr>csk_num := set_field 8 16 (ucast w_id) (csk_num k)\<rparr>;
          k = k\<lparr>csk_num := set_field 0 8 (ucast d_id) (csk_num k)\<rparr>
      in ebind (copy_cstr (csk_last k) c_last_in (MAX_LAST + 1)) (\<lambda>(_, buf). Inr (k\<lparr>csk_last := buf\<rparr>)))"

section \<open>Table ids\<close>

datatype tpcc_record = Item | Warehouse | Stock | District | Customer | CustomerSecondary | History | Order | OrderSecondary | NewOrder | OrderLine

fun get_table_id :: "tpcc_record \<Rightarrow> u64 res" where
  "get_table_id Item = Inr 1"
| "get_table_id Warehouse = Inr 2"
| "get_table_id Stock = Inr 3"
| "get_table_id District = Inr 4"
| "get_table_id Customer = Inr 5"
| "get_table_id CustomerSecondary = Inl AssertFailed"
| "get_table_id History = Inr 7"
| "get_table_id Order = Inr 8"
| "get_table_id OrderSecondary = Inr 9"
| "get_table_id NewOrder = Inr 10"
| "get_table_id OrderLine = Inr 11"

lemma get_table_id_inject: "get_table_id a = Inr i \<Longrightarrow> get_table_id b = Inr i \<Longrightarrow> a = b"
  by (cases a; cases b) auto

section \<open>The numbers of the keys\<close>

text \<open>Two digits to the base \<open>n\<close>.\<close>

lemma digits_less:
  assumes "b < n" and "b' < n"
  shows "a * n + b < a' * n + b' \<longleftrightarrow> a < a' \<or> a = a' \<and> b < (b' :: nat)"
proof -
  have less: "x * n + c < y * n + d" if "x < y" "c < n" for x y c d
  proof -
    have "Suc x * n \<le> y * n" using that(1) by (intro mult_le_mono1) simp
    then show ?thesis using that(2) by simp
  qed
  consider "a < a'" | "a = a'" | "a' < a" by linarith
  then show ?thesis
  proof cases
    case 1
    then show ?thesis using less [of a a' b b'] assms by simp
  next
    case 3
    then show ?thesis using less [of a' a b' b] assms by simp
  qed simp
qed

lemma digits_eq:
  assumes "b < n" and "b' < n"
  shows "a * n + b = a' * n + b' \<longleftrightarrow> a = a' \<and> b = (b' :: nat)"
  using digits_less [OF assms, of a a'] digits_less [OF assms(2,1), of a' a] by (metis linorder_neqE_nat less_irrefl)

lemma set_field_value:
  assumes "off + width \<le> LENGTH('a)" and "\<And>n. off \<le> n \<Longrightarrow> n < off + width \<Longrightarrow> \<not> bit x n"
    and "unat x + unat v mod 2 ^ width * 2 ^ off < 2 ^ LENGTH('a)"
  shows "unat (set_field off width v (x :: 'a::len word)) = unat x + unat v mod 2 ^ width * 2 ^ off"
  using assms(3) by (simp add: set_field_clear [OF assms(2)] unat_word_ariths unat_push_take [OF assms(1)])

lemma not_bit_0_field: "\<not> bit (0 :: 'a::len word) n"
  by simp

lemma not_bit_set_field:
  "\<not> bit x n \<Longrightarrow> n < off \<or> off + width \<le> n \<Longrightarrow> \<not> bit (set_field off width v x) n"
  by (auto simp: bit_set_field)

lemma order_secondary_key_value:
  "unat (order_secondary_key w d c i) =
     ((unat w mod 2 ^ 12 * 2 ^ 4 + unat d mod 2 ^ 4) * 2 ^ 16 + unat c mod 2 ^ 16) * 2 ^ 32 + unat i"
proof -
  have b: "unat w mod 2 ^ 12 < 2 ^ 12" "unat d mod 2 ^ 4 < 2 ^ 4" "unat c mod 2 ^ 16 < 2 ^ 16" "unat i < 2 ^ 32"
    using unsigned_less [of i, where ?'a = nat] by simp_all
  let ?w = "set_field 52 12 (ucast w) 0 :: u64" let ?d = "set_field 48 4 (ucast d) ?w" let ?c = "set_field 32 16 (ucast c) ?d"
  have w: "unat ?w = unat w mod 2 ^ 12 * 2 ^ 52"
    by (subst set_field_value) (use b in \<open>simp_all add: unat_ucast_up\<close>)
  have d: "unat ?d = unat w mod 2 ^ 12 * 2 ^ 52 + unat d mod 2 ^ 4 * 2 ^ 48"
    by (subst set_field_value) (use b w in \<open>simp_all add: unat_ucast_up not_bit_set_field\<close>)
  have c: "unat ?c = unat w mod 2 ^ 12 * 2 ^ 52 + unat d mod 2 ^ 4 * 2 ^ 48 + unat c mod 2 ^ 16 * 2 ^ 32"
    by (subst set_field_value) (use b d in \<open>simp_all add: unat_ucast_up not_bit_set_field\<close>)
  have "unat (order_secondary_key w d c i) = unat w mod 2 ^ 12 * 2 ^ 52 + unat d mod 2 ^ 4 * 2 ^ 48 + unat c mod 2 ^ 16 * 2 ^ 32 + unat i"
    unfolding order_secondary_key_def
    by (subst set_field_value) (use b c in \<open>simp_all add: unat_ucast_up not_bit_set_field\<close>)
  then show ?thesis by (simp add: algebra_simps)
qed

lemma order_line_key_value:
  "unat (order_line_key w d i l) = ((unat w * 2 ^ 8 + unat d) * 2 ^ 32 + unat i) * 2 ^ 8 + unat l"
proof -
  have b: "unat w < 2 ^ 16" "unat d < 2 ^ 8" "unat i < 2 ^ 32" "unat l < 2 ^ 8"
    using unsigned_less [of w, where ?'a = nat] unsigned_less [of d, where ?'a = nat] unsigned_less [of i, where ?'a = nat]
      unsigned_less [of l, where ?'a = nat] by simp_all
  let ?l = "set_field 0 8 (ucast l) 0 :: u64" let ?w = "set_field 48 16 (ucast w) ?l" let ?d = "set_field 40 8 (ucast d) ?w"
  have l: "unat ?l = unat l"
    by (subst set_field_value) (use b in \<open>simp_all add: unat_ucast_up\<close>)
  have w: "unat ?w = unat l + unat w * 2 ^ 48"
    by (subst set_field_value) (use b l in \<open>simp_all add: unat_ucast_up not_bit_set_field\<close>)
  have d: "unat ?d = unat l + unat w * 2 ^ 48 + unat d * 2 ^ 40"
    by (subst set_field_value) (use b w in \<open>simp_all add: unat_ucast_up not_bit_set_field\<close>)
  have "unat (order_line_key w d i l) = unat l + unat w * 2 ^ 48 + unat d * 2 ^ 40 + unat i * 2 ^ 8"
    unfolding order_line_key_def
    by (subst set_field_value) (use b d in \<open>simp_all add: unat_ucast_up not_bit_set_field\<close>)
  then show ?thesis by (simp add: algebra_simps)
qed

lemma order_key_value: "unat (order_key w d i) = (unat w * 2 ^ 8 + unat d) * 2 ^ 32 + unat i"
proof -
  have b: "unat w < 2 ^ 16" "unat d < 2 ^ 8" "unat i < 2 ^ 32"
    using unsigned_less [of w, where ?'a = nat] unsigned_less [of d, where ?'a = nat] unsigned_less [of i, where ?'a = nat]
    by simp_all
  let ?w = "set_field 40 16 (ucast w) 0 :: u64" let ?d = "set_field 32 8 (ucast d) ?w"
  have w: "unat ?w = unat w * 2 ^ 40"
    by (subst set_field_value) (use b in \<open>simp_all add: unat_ucast_up\<close>)
  have d: "unat ?d = unat w * 2 ^ 40 + unat d * 2 ^ 32"
    by (subst set_field_value) (use b w in \<open>simp_all add: unat_ucast_up not_bit_set_field\<close>)
  have "unat (order_key w d i) = unat w * 2 ^ 40 + unat d * 2 ^ 32 + unat i"
    unfolding order_key_def
    by (subst set_field_value) (use b d in \<open>simp_all add: unat_ucast_up not_bit_set_field\<close>)
  then show ?thesis by (simp add: algebra_simps)
qed

text \<open>Comparing such numbers compares the columns one after the other.\<close>

lemma lexordp_digits3:
  assumes "b < n" "b' < n" "c < m" "c' < m"
  shows "(a * n + b) * m + c < (a' * n + b') * m + c' \<longleftrightarrow> ord_class.lexordp [a, b, c] [a', b', c' :: nat]"
  using assms by (auto simp: digits_less digits_eq)

lemma lexordp_digits4:
  assumes "b < n" "b' < n" "c < m" "c' < m" "d < l" "d' < l"
  shows "((a * n + b) * m + c) * l + d < ((a' * n + b') * m + c') * l + d' \<longleftrightarrow> ord_class.lexordp [a, b, c, d] [a', b', c', d' :: nat]"
  using assms by (auto simp: digits_less digits_eq)

lemma unat_bounds: "unat (x :: u8) < 2 ^ 8" "unat (y :: u16) < 2 ^ 16" "unat (z :: u32) < 2 ^ 32"
  using unsigned_less [of x, where ?'a = nat] unsigned_less [of y, where ?'a = nat] unsigned_less [of z, where ?'a = nat] by simp_all

text \<open>C39: The integer of a key orders the records by their columns: orders by warehouse, district and number, order
  lines by their number after that, and the secondary index by warehouse, district, customer and order number. Of the
  secondary key's columns only 12, 4 and 16 bits count, so that warehouse 4096 falls on warehouse 0.\<close>

theorem keys_order_records:
  "(order_key w d i < order_key w' d' i' \<longleftrightarrow> ord_class.lexordp [unat w, unat d, unat i] [unat w', unat d', unat i'])
    \<and> (order_line_key w d i l < order_line_key w' d' i' l' \<longleftrightarrow>
        ord_class.lexordp [unat w, unat d, unat i, unat l] [unat w', unat d', unat i', unat l'])
    \<and> (osk_less (order_secondary_key w d c i) (order_secondary_key w' d' c' i') \<longleftrightarrow>
        ord_class.lexordp [unat w mod 4096, unat d mod 16, unat c mod 65536, unat i]
          [unat w' mod 4096, unat d' mod 16, unat c' mod 65536, unat i'])
    \<and> osk_eq (order_secondary_key 4096 d c i) (order_secondary_key 0 d c i)"
proof -
  have "order_key w d i < order_key w' d' i' \<longleftrightarrow> ord_class.lexordp [unat w, unat d, unat i] [unat w', unat d', unat i']"
    unfolding word_less_nat_alt order_key_value by (rule lexordp_digits3) (rule unat_bounds)+
  moreover have "order_line_key w d i l < order_line_key w' d' i' l' \<longleftrightarrow>
      ord_class.lexordp [unat w, unat d, unat i, unat l] [unat w', unat d', unat i', unat l']"
    unfolding word_less_nat_alt order_line_key_value by (rule lexordp_digits4) (rule unat_bounds)+
  moreover have "osk_less (order_secondary_key w d c i) (order_secondary_key w' d' c' i') \<longleftrightarrow>
      ord_class.lexordp [unat w mod 2 ^ 12, unat d mod 2 ^ 4, unat c mod 2 ^ 16, unat i]
        [unat w' mod 2 ^ 12, unat d' mod 2 ^ 4, unat c' mod 2 ^ 16, unat i']"
    unfolding osk_less_def word_less_nat_alt order_secondary_key_value by (rule lexordp_digits4) (simp_all add: unat_bounds(3) [simplified])
  moreover have "osk_eq (order_secondary_key 4096 d c i) (order_secondary_key 0 d c i)"
    unfolding osk_eq_def word_unat_eq_iff order_secondary_key_value by simp
  ultimately show ?thesis by simp
qed

section \<open>The secondary key of customers\<close>

text \<open>The characters before the terminating zero.\<close>

definition c_string :: "string \<Rightarrow> string" where
  "c_string buf = takeWhile (\<lambda>c. c \<noteq> CHR 0x00) buf"

lemma drop_update_at: "i < length xs \<Longrightarrow> drop i (xs[i := x]) = x # drop (Suc i) xs"
  by (simp add: Cons_nth_drop_Suc [symmetric])

lemma copy_cstr_loop_result:
  assumes "CHR 0x00 \<in> set (drop i inp)" and "i + k = sz" and "0 < k" and "sz \<le> length out"
  shows "\<exists>out'. copy_cstr_loop out inp sz k i = Inr (i + length (take (sz - 1 - i) (c_string (drop i inp))), out')
    \<and> take i out' = take i out \<and> length out' = length out
    \<and> (\<exists>rest. drop i out' = take (sz - 1 - i) (c_string (drop i inp)) @ CHR 0x00 # rest)"
  using assms
proof (induction k arbitrary: i out)
  case (Suc k)
  have out: "i < length out" using Suc.prems by simp
  show ?case
  proof (cases "i < sz - 1")
    case False
    then have "sz - 1 - i = 0" by simp
    then show ?thesis using False out by (simp add: drop_update_at)
  next
    case less: True
    have len: "i < length inp" using Suc.prems(1) by (metis drop_eq_Nil2 empty_iff leI list.set(1))
    have inp: "drop i inp = inp ! i # drop (Suc i) inp" by (simp add: Cons_nth_drop_Suc len)
    show ?thesis
    proof (cases "inp ! i = CHR 0x00")
      case True
      then show ?thesis using less len out by (simp add: inp c_string_def drop_update_at)
    next
      case False
      let ?out = "out[i := inp ! i]"
      have "\<exists>out'. copy_cstr_loop ?out inp sz k (Suc i) = Inr (Suc i + length (take (sz - 1 - Suc i) (c_string (drop (Suc i) inp))), out')
          \<and> take (Suc i) out' = take (Suc i) ?out \<and> length out' = length ?out
          \<and> (\<exists>rest. drop (Suc i) out' = take (sz - 1 - Suc i) (c_string (drop (Suc i) inp)) @ CHR 0x00 # rest)"
        by (rule Suc.IH) (use less False out Suc.prems inp in auto)
      then obtain out' rest where r: "copy_cstr_loop ?out inp sz k (Suc i) = Inr (Suc i + length (take (sz - 1 - Suc i) (c_string (drop (Suc i) inp))), out')"
        "take (Suc i) out' = take (Suc i) ?out" "length out' = length out"
        "drop (Suc i) out' = take (sz - 1 - Suc i) (c_string (drop (Suc i) inp)) @ CHR 0x00 # rest" by auto
      have nth: "out' ! i = inp ! i" using arg_cong [OF r(2), of "\<lambda>xs. xs ! i"] out by simp
      have d: "drop i out' = inp ! i # drop (Suc i) out'" using r(3) out nth by (simp add: Cons_nth_drop_Suc [symmetric])
      have t: "take i out' = take i out" using arg_cong [OF r(2), of "take i"] by simp
      have k: "sz - Suc i = Suc (sz - Suc (Suc i))" using less by simp
      show ?thesis using less len False out r t by (auto simp: inp c_string_def d k)
    qed
  qed
qed simp

text \<open>Copying a terminated string: at most \<open>sz - 1\<close> of its characters, and a terminating zero.\<close>

lemma copy_cstr_result:
  assumes "CHR 0x00 \<in> set inp" and "0 < sz" and "sz \<le> length out"
  obtains out' rest where
    "copy_cstr out inp sz = Inr (length (take (sz - 1) (c_string inp)), out')"
    "out' = take (sz - 1) (c_string inp) @ CHR 0x00 # rest" "length out' = length out"
  using copy_cstr_loop_result [of 0 inp sz sz out] assms by (auto simp: copy_cstr_def)

lemma c_string_no_zero: "CHR 0x00 \<notin> set (c_string xs)"
  unfolding c_string_def by (metis set_takeWhileD)

lemma char_pos: "x \<noteq> CHR 0x00 \<longleftrightarrow> CHR 0x00 < (x :: char)"
proof -
  have "(of_char x :: nat) = of_char (CHR 0x00) \<longleftrightarrow> x = CHR 0x00" by (rule of_char_eq_iff)
  then show ?thesis by (auto simp: less_char_def)
qed

lemma strncmp_strings:
  assumes "CHR 0x00 \<notin> set s" and "CHR 0x00 \<notin> set t" and "length s \<le> n" and "length t \<le> n"
  shows "(strncmp n (s @ CHR 0x00 # u) (t @ CHR 0x00 # v) < 0 \<longleftrightarrow> ord_class.lexordp s t) \<and> (strncmp n (s @ CHR 0x00 # u) (t @ CHR 0x00 # v) = 0 \<longleftrightarrow> s = t)"
  using assms
proof (induction s arbitrary: t n)
  case Nil
  have "\<not> c < CHR 0x00" for c by (simp add: less_char_def)
  moreover have "CHR 0x00 < c" if "c \<in> set t" for c using Nil.prems(2) that char_pos by metis
  ultimately show ?case using Nil.prems(4) by (cases t; cases n) auto
next
  case (Cons x s)
  obtain m where n: "n = Suc m" using Cons.prems(3) by (cases n) simp_all
  show ?case
  proof (cases t)
    case Nil
    have "CHR 0x00 < x" using Cons.prems(1) char_pos [of x] by auto
    then show ?thesis using Nil by (auto simp: n)
  next
    case t: (Cons y t')
    have "(strncmp m (s @ CHR 0x00 # u) (t' @ CHR 0x00 # v) < 0 \<longleftrightarrow> ord_class.lexordp s t') \<and> (strncmp m (s @ CHR 0x00 # u) (t' @ CHR 0x00 # v) = 0 \<longleftrightarrow> s = t')"
      by (rule Cons.IH) (use Cons.prems in \<open>auto simp: n t\<close>)
    then show ?thesis using Cons.prems by (auto simp: n t)
  qed
qed

lemma create_csk_result:
  assumes "CHR 0x00 \<in> set name" and "length garbage = MAX_LAST + 1"
  obtains k rest where "create_csk garbage w d name = Inr k" "unat (csk_num k) = unat w * 2 ^ 8 + unat d"
    "csk_last k = take MAX_LAST (c_string name) @ CHR 0x00 # rest"
proof -
  obtain out rest where o: "copy_cstr garbage name (MAX_LAST + 1) = Inr (length (take (MAX_LAST + 1 - 1) (c_string name)), out)"
    "out = take (MAX_LAST + 1 - 1) (c_string name) @ CHR 0x00 # rest"
    by (rule copy_cstr_result [OF assms(1), of "MAX_LAST + 1" garbage]) (use assms(2) in auto)
  let ?w = "set_field 8 16 (ucast w) 0 :: u32"
  have w: "unat ?w = unat w * 2 ^ 8"
    by (subst set_field_value) (use unat_bounds(2) [of w] in \<open>simp_all add: unat_ucast_up\<close>)
  have d: "unat (set_field 0 8 (ucast d) ?w) = unat w * 2 ^ 8 + unat d"
    by (subst set_field_value) (use unat_bounds(1) [of d] unat_bounds(2) [of w] w in \<open>simp_all add: unat_ucast_up not_bit_set_field\<close>)
  have "create_csk garbage w d name = Inr \<lparr>csk_num = set_field 0 8 (ucast d) ?w, csk_last = out\<rparr>"
    using o(1) by (simp add: create_csk_def csk_init_def Let_def)
  then show thesis using that [of "\<lparr>csk_num = set_field 0 8 (ucast d) ?w, csk_last = out\<rparr>" rest] d o(2) by simp
qed

text \<open>The keys made from two customers compare first by warehouse and district, then by the first sixteen characters of
  their last names as strings; they are equal exactly if these agree.\<close>

theorem customer_names_order:
  assumes "CHR 0x00 \<in> set name" and "CHR 0x00 \<in> set name'" and "length garbage = MAX_LAST + 1" and "length garbage' = MAX_LAST + 1"
  shows "\<exists>k k'. create_csk garbage w d name = Inr k \<and> create_csk garbage' w' d' name' = Inr k'
    \<and> (csk_less k k' \<longleftrightarrow> unat w < unat w' \<or> w = w' \<and> (unat d < unat d'
        \<or> d = d' \<and> ord_class.lexordp (take 16 (c_string name)) (take 16 (c_string name'))))
    \<and> (csk_eq k k' \<longleftrightarrow> w = w' \<and> d = d' \<and> take 16 (c_string name) = take 16 (c_string name'))"
proof -
  obtain k rest where k: "create_csk garbage w d name = Inr k" "unat (csk_num k) = unat w * 2 ^ 8 + unat d"
    "csk_last k = take MAX_LAST (c_string name) @ CHR 0x00 # rest" by (rule create_csk_result [OF assms(1,3)])
  obtain k' rest' where k': "create_csk garbage' w' d' name' = Inr k'" "unat (csk_num k') = unat w' * 2 ^ 8 + unat d'"
    "csk_last k' = take MAX_LAST (c_string name') @ CHR 0x00 # rest'" by (rule create_csk_result [OF assms(2,4)])
  have less: "csk_num k < csk_num k' \<longleftrightarrow> unat w < unat w' \<or> unat w = unat w' \<and> unat d < unat d'"
    unfolding word_less_nat_alt k(2) k'(2) by (rule digits_less) (rule unat_bounds)+
  have eq: "csk_num k = csk_num k' \<longleftrightarrow> unat w = unat w' \<and> unat d = unat d'"
    unfolding word_unat_eq_iff k(2) k'(2) by (rule digits_eq) (rule unat_bounds)+
  have "(cmp_c_last k k' < 0 \<longleftrightarrow> ord_class.lexordp (take 16 (c_string name)) (take 16 (c_string name')))
      \<and> (cmp_c_last k k' = 0 \<longleftrightarrow> take 16 (c_string name) = take 16 (c_string name'))"
    unfolding cmp_c_last_def k(3) k'(3) MAX_LAST_def
    by (rule strncmp_strings) (use c_string_no_zero in \<open>auto dest: in_set_takeD\<close>)
  then show ?thesis using k(1) k'(1) less eq by (auto simp: csk_less_def csk_eq_def word_unat_eq_iff)
qed

lemma customer_names_order_witness:
  "\<exists>k k'. create_csk (replicate 17 (CHR 0x00)) 1 2 (''BAR'' @ [CHR 0x00]) = Inr k \<and> create_csk (replicate 17 (CHR ''x'')) 1 2 (''BAZ'' @ [CHR 0x00]) = Inr k' \<and> csk_less k k'"
proof -
  have "ord_class.lexordp ''BAR'' ''BAZ''" by (simp add: less_char_def)
  with customer_names_order [of "''BAR'' @ [CHR 0x00]" "''BAZ'' @ [CHR 0x00]" "replicate 17 (CHR 0x00)" "replicate 17 (CHR ''x'')" 1 2 1 2]
  show ?thesis by (auto simp: MAX_LAST_def c_string_def)
qed

end
