(* ===== verification/Schema.thy ===== *)
theory Schema
  imports Prelude
begin

text \<open>
  protocols/common/schema.hpp: the record sizes and secondary tables by table id, and the write sets
  of protocols/serval/include/readwriteset.hpp.
\<close>

section \<open>class Schema\<close>

record table_info =
  rec_size :: u64
  secondary :: u64

definition table_info_init :: table_info where
  "table_info_init = \<lparr>rec_size = 0, secondary = 0\<rparr>"

type_synonym schema = "u64 \<rightharpoonup> table_info"

text \<open>\<open>operator[]\<close> inserts the default entry, \<open>at\<close> throws.\<close>

definition schema_at :: "schema \<Rightarrow> u64 \<Rightarrow> table_info res" where
  "schema_at sch table_id = (case sch table_id of None \<Rightarrow> Inl OutOfRange | Some i \<Rightarrow> Inr i)"

definition schema_entry :: "schema \<Rightarrow> u64 \<Rightarrow> table_info" where
  "schema_entry sch table_id = (case sch table_id of None \<Rightarrow> table_info_init | Some i \<Rightarrow> i)"

definition get_record_size :: "schema \<Rightarrow> u64 \<Rightarrow> u64 res" where
  "get_record_size sch table_id = ebind (schema_at sch table_id) (\<lambda>i. Inr (rec_size i))"

definition has_secondary_table :: "schema \<Rightarrow> u64 \<Rightarrow> bool res" where
  "has_secondary_table sch table_id = ebind (schema_at sch table_id) (\<lambda>i. Inr (secondary i \<noteq> 0))"

definition get_secondary_table :: "schema \<Rightarrow> u64 \<Rightarrow> u64 res" where
  "get_secondary_table sch table_id = ebind (schema_at sch table_id) (\<lambda>i. Inr (secondary i))"

definition set_record_size :: "u64 \<Rightarrow> u64 \<Rightarrow> schema \<Rightarrow> schema" where
  "set_record_size table_id sz sch = sch(table_id \<mapsto> (schema_entry sch table_id)\<lparr>rec_size := sz\<rparr>)"

definition set_secondary_index :: "u64 \<Rightarrow> u64 \<Rightarrow> schema \<Rightarrow> schema" where
  "set_secondary_index primary snd_table sch = sch(primary \<mapsto> (schema_entry sch primary)\<lparr>secondary := snd_table\<rparr>)"

text \<open>The order of the returned vector is the hash table's and is left open.\<close>

definition get_tables :: "schema \<Rightarrow> u64 set" where
  "get_tables sch = dom sch"

lemma schema_set_get [simp]:
  "get_record_size (set_record_size t n sch) u = (if u = t then Inr n else get_record_size sch u)"
  "get_secondary_table (set_secondary_index t s sch) u = (if u = t then Inr s else get_secondary_table sch u)"
  "get_record_size (set_secondary_index t s sch) u = (if u = t then Inr (rec_size (schema_entry sch t)) else get_record_size sch u)"
  by (simp_all add: get_record_size_def get_secondary_table_def set_record_size_def set_secondary_index_def schema_at_def)

lemma get_tables_set [simp]:
  "get_tables (set_record_size t n sch) = insert t (get_tables sch)"
  "get_tables (set_secondary_index t s sch) = insert t (get_tables sch)"
  by (simp_all add: get_tables_def set_record_size_def set_secondary_index_def)

text \<open>A table whose primary id was registered for a secondary index only has records of size zero.\<close>

lemma secondary_first: "sch t = None \<Longrightarrow> get_record_size (set_secondary_index t s sch) t = Inr 0"
  by (simp add: schema_entry_def table_info_init_def)

section \<open>class WriteSet\<close>

type_synonym 'k write_sets = "u64 \<Rightarrow> 'k list"

definition get_table :: "u64 \<Rightarrow> 'k write_sets \<Rightarrow> 'k list" where
  "get_table table_id ws = ws table_id"

end
