(* ===== verification/Spec2Isabelle.thy ===== *)
theory Spec2Isabelle
  imports Experiment Main_Program Prototypes Operation_Sets Serval_GC Timestamps Xoshiro_Jump Masstree_Indexes Record_Keys Schema
begin

text \<open>
  This library models mvdcc, a study of deterministic multi-version concurrency control in C++. Three
  executables (executables/ycsb_serval.cpp, ycsb_caracal.cpp, ycsb_cheetah.cpp) run the same YCSB
  workload with one protocol each. Every worker thread runs epochs of 64 transactions: in an
  initialization phase it announces the writes of its transactions on the rows, after a barrier it
  executes transactions in an execution phase, where a read waits for the version it has to see, and a
  second barrier ends the epoch. The purpose of the code is that all reads are those of the serial
  execution in the order of the transactions' ids.

  Parts and theories.

  Shared. Prelude has the errors of C++ as values (a failed assertion, an exception, the use of a null
  pointer or of freed memory), their sequencing and lemmas on lists and maps. Bitmap is utils/bitmap.hpp
  on 64-bit words. Lock is protocols/common/readwritelock.hpp and utils/atomic_wrapper.hpp, as calls and
  as interleavings of atomic accesses. Version_Store is the heap of versions and records with their
  status (protocols' version.hpp; a freed version is gone, and using it is an error). Stats has the
  counters of benchmarks/ycsb/include/tx_utils.hpp, Printed the output to std::cout and the decimal
  numbers of std::stoi. Version_Array is the interface of the containers that
  hold a row's versions by transaction id: a locale with append, lookup and the promise that a lookup
  finds the last entry before the reader; Two_Level is the search in two levels of bitmaps.
  Row_Execution is the execution phase on a row as a locale over such a container, Db_Execution the
  execution phase of all workers on all rows as a locale over rows of that kind. Db_Programs has what
  the workers go through in the two phases, by the assignment of transactions to workers, the
  hypothesis rows_index on the index that leads from keys to rows, and the transactions of the
  witnesses.

  Serval. Serval_Region has the global version array, the per-core arrays, the regions and their
  controller (protocols/serval/include/row_region.hpp), Serval_Row the row (value.hpp), Serval the
  protocol class (serval.hpp) and the loader (serval/ycsb/initializer.hpp), Serval_Init the
  initialization phase one atomic access at a time, Serval_Epoch whole epochs of a row, Serval_GC the
  major collector (major_gc.hpp). Serval_Frame has the footprint of a row and what an access to one row
  leaves alone of the others, Serval_Database the epochs of the whole database, with the accesses of
  the 64 workers to all rows interleaved, and the table as it is loaded.

  Caracal. Caracal_Buffer has the per-core buffers and the global array (row_buffer.hpp, value.hpp),
  Caracal the protocol class, the loader and the collector (caracal.hpp, initializer.hpp, major_gc.hpp),
  Caracal_Epoch the initialization phase one access at a time, Caracal_Phases whole epochs of a row.
  Caracal_Frame has the footprint of a row and what an access to one row does to the store and the pool
  of row buffers as the other rows see them, Caracal_Database the epochs of the whole database: the
  workers go from row to row in their appends and in finalize_batch_append_optimized, and carry their
  spare buffers along.

  Cheetah. Cheetah_Bitmap has the write bitmap with placeholders and reference counting
  (rw_bitmaps.hpp), Cheetah the protocol class and the loader, Cheetah_Epoch the execution phase one
  access at a time, Cheetah_Phases whole epochs of a row. Cheetah_Frame has the footprint of a row and
  what an access to one row leaves alone of the others, Cheetah_Init the write phase and the read phase
  of the whole database, Cheetah_Database its execution phase and its epochs.

  Workload and run. Rand_Gen is utils/random.hpp and the random functions of utils/utils.hpp,
  Xoshiro_Jump the proof that the jumps of its generator skip 2 to the 128 and 2 to the 192 calls, by
  the evaluation of the tables as polynomials modulo the characteristic polynomial of a call; Operations
  the configuration and Serval's operation sets (operation_set.hpp), Operation_Sets those of Caracal and
  Cheetah. Barrier is protocols/ycsb_common/rendezvous_barrier.hpp with the barriers of the
  executables, one access at a time. Workers has the loops of the workers over transactions and
  operations (do_initialization_phase and its like), Experiment the loop over epochs: a locale over one
  epoch of a protocol on a row, interpreted for all three; Db_Runs the same over an epoch of a whole
  database, interpreted for Caracal and Cheetah. Database_Print is print_database and
  print_transactions of the executables, Main_Program their main up to the start of the threads: the
  command line, the configuration, the tables and the transactions. Prototypes has the experiments of
  tony_test that the containers grew out of.

  Index. Byte_Order has memcmp and the byte-swapped keys, Masstree_Wrapper is
  indexes/masstree_wrapper.hpp, Masstree_Indexes indexes/masstree.hpp. The Masstree library is not part
  of the repository: its cursors and scans are a parameter, a record of functions, and the hypothesis
  masstree_laws says what a sorted map does on lookup, insertion, removal and scan. A concrete
  instance of it serves the witnesses.

  Left from the code base the protocols come from, and not used by the executables: Bit_Fields
  (tidword.hpp, transaction_id.hpp), Epoch_Manager (epoch_manager.hpp), Timestamps
  (timestamp_manager.hpp), Record_Keys (the TPC-C keys of record_key.hpp and tpcc_common/record_misc.hpp),
  Schema (schema.hpp, readwriteset.hpp).

  State and operations. A struct or class is a record, a pointer to a version, record or region a natural
  number with 0 for null, a vector a list, a std::map or multimap a sorted list of entries, a 64-bit
  integer that is used as a bitmap, a hash or a wrapping number a word, and other counters natural
  numbers. An operation takes the state and returns it updated, in the error type where the code asserts,
  throws or dereferences; a spin loop that does not leave in the given state is None where the calls of
  one thread are modelled, and a program counter that stays where interleavings are modelled.

  What is shown. Containers: lookups return the entry the specification names, whatever the order of
  the appends, and collection is invisible. Phases: for every schedule of atomic accesses no assertion
  fails, no freed version is used and the reads are the serial ones, and from every reachable state the
  phase can be completed. This is shown of the whole database: all rows and all workers at once, over
  NUM_EPOCH epochs, from the table that the loader builds. The program's own print_database accepts what
  a run of Serval leaves behind; a run of Cheetah leaves one version for every row in the store. A
  row of Serval that an epoch does not write shows the readers of that epoch the record before its last
  one; the theorems say so, and serval_stale_read isolates it. The barrier separates the phases and does
  not block with 64 threads; with fewer it does. The lock excludes. The operation sets have ten different
  records, are equal for the three protocols, and their rejection loops end; main hands a well-formed
  table and well-formed transactions to the threads, but does not refuse tables that lack the contended
  records. The index acts as a map from integer keys, its range scans return exactly the keys of the
  range, in order. Reclamation by epochs frees nothing a running transaction may see; timestamps are
  unique, but the bound for reclamation by timestamps overtakes running transactions; smallest_ts_overtakes
  says exactly when.

  Granularity. In the interleavings a worker's step is one access to memory that others write: a lock, a
  status, a counter or what the lock guards (the part under a lock is one step). A call that only
  touches the worker's own objects and the index is one step, and so is a call of Cheetah's read phase,
  whose counter updates commute with those of the others and whose container is under the lock.

  Bounds. Workers and transactions per worker are 64 each, as the code has it (serial ids below 4096).
  Serval's theorems suppose at most 63 writes of one worker to a row per epoch, because the code's
  assertion fails at the 64th, and as many row regions as there are written rows, because any of them
  may be contended; Caracal's suppose as many row buffers as there are written rows and workers, because
  every worker may hold a spare one. Epochs of Caracal stay below the 32 bits of a global id. There is no fuel: loops are
  structural recursions or proved to end, rejection loops are partial functions that are proved to
  return, and loops over schedules take the schedule.

  Not modelled. Weak memory (every access is sequentially consistent); the floating-point formulas
  of utils/zipf.hpp and std::stod, which are parameters; thread creation, timing, statistics by the cycle
  counter, result files, logging, performance counters and NUMA, which are calls of the operating system;
  the TPC-C transactions and records, which the executables do not use; the test programs test.cpp and
  test; transaction.hpp of the three protocols, which is commented out. Small liberties: the loaders put
  the rows under their keys into the value maps, and the index that leads to them is the parameter with
  the hypothesis rows_index (Index::insert and set_record_size are modelled in Masstree_Indexes and
  Schema); the one table has the number 0 in place of the size of its record; unordered maps are gone
  through in a fixed order; the skew is taken to satisfy the assertions of utils/zipf.hpp; the line that
  names the NUMA node is not printed.
\<close>

section \<open>Sample workloads\<close>

text \<open>
  \<open>NUM_ALL_TXS\<close> transactions on one key: every 64th updates it, the others read it.
\<close>

definition sample_txs :: "operation_set list" where
  "sample_txs = map (\<lambda>i. if i mod 64 = 0 then \<lparr>rw_set = [new_operation Update 7], w_set = [0]\<rparr>
                         else \<lparr>rw_set = [new_operation Read 7], w_set = []\<rparr>) [0..<4096 * NUM_EPOCH]"

lemma sample_write: "k < 4096 * NUM_EPOCH \<Longrightarrow> has_write (sample_txs ! k) 7 \<longleftrightarrow> k mod 64 = 0"
  by (simp add: sample_txs_def has_write_def new_operation_def del: upt_rec_numeral)

lemma sample_load: "serval_load sample_txs 7 (NUM_EPOCH + 1)"
  unfolding serval_load_def
proof (intro allI impI conjI)
  fix e assume e: "e < NUM_EPOCH + 1"
  have k: "head_in_the_epoch e + i < 4096 * NUM_EPOCH" "(head_in_the_epoch e + i) mod 64 = i mod 64" if "i < 4096" for i
  proof -
    have h: "head_in_the_epoch e = (e - 1) * 64 * 64" by (simp add: head_in_the_epoch_def NUM_TXS_IN_ONE_EPOCH_def)
    have "e - 1 < NUM_EPOCH" using e by (simp add: NUM_EPOCH_def)
    then have "(e - 1) * 4096 + 4096 \<le> NUM_EPOCH * 4096" using mult_le_mono1 [of "Suc (e - 1)" NUM_EPOCH 4096] by simp
    then show "head_in_the_epoch e + i < 4096 * NUM_EPOCH" using that by (simp add: h)
    show "(head_in_the_epoch e + i) mod 64 = i mod 64" unfolding h by (rule mod_mult_self3)
  qed
  show "writers_at sample_txs 7 e \<noteq> {}" using k [of 0] sample_write [of "head_in_the_epoch e + 0"] by (auto simp: row_writers_def intro!: exI [of _ 0])
  fix w :: nat assume w: "w < 64"
  then have s: "sequential_id w 1 < 4096" "sequential_id w 1 mod 64 = 1" unfolding sequential_id_def by (simp, presburger)
  then have "\<not> has_write (sample_txs ! (head_in_the_epoch e + sequential_id w 1)) 7" using sample_write k [OF s(1)] by simp
  then show "\<exists>i < 64. \<not> has_write (sample_txs ! (head_in_the_epoch e + sequential_id w i)) 7" by (intro exI [of _ 1]) simp
qed

section \<open>Whole experiments\<close>

text \<open>The same for a single row: a Caracal experiment of \<open>NUM_EPOCH\<close> epochs on a row that is ready for the first one, for any transactions and
  any schedules of the workers in both phases of every epoch: no assertion fails and no freed version is used. If
  every epoch reaches its last barrier, all reads of all epochs are those of the serial execution, in which each
  transaction gets the record of the last writer before it in the same or an earlier epoch. Schedules
  with which every epoch reaches its last barrier exist.\<close>

theorem caracal_run_serial:
  assumes "car_row_ready 1 row r"
  shows "(\<exists>res. run_epochs (\<lambda>e. caracal_step sz txs key (sc e) e) 1 NUM_EPOCH row = Inr res \<and>
      (\<forall>row' hs. res = Some (row', hs) \<longrightarrow> length hs = NUM_EPOCH \<and> serial_history (writers_at txs key) (readers_at txs key) 1 r hs))
    \<and> (\<exists>sc row' hs. run_epochs (\<lambda>e. caracal_step sz txs key (sc e) e) 1 NUM_EPOCH row = Inr (Some (row', hs)))"
proof
  have lim: "1 + NUM_EPOCH \<le> 2 ^ 32 - 1" by (simp add: NUM_EPOCH_def)
  show "\<exists>res. run_epochs (\<lambda>e. caracal_step sz txs key (sc e) e) 1 NUM_EPOCH row = Inr res \<and>
      (\<forall>row' hs. res = Some (row', hs) \<longrightarrow> length hs = NUM_EPOCH \<and> serial_history (writers_at txs key) (readers_at txs key) 1 r hs)"
    by (rule caracal_run.run_serial [OF assms lim])
  show "\<exists>sc row' hs. run_epochs (\<lambda>e. caracal_step sz txs key (sc e) e) 1 NUM_EPOCH row = Inr (Some (row', hs))"
    by (rule caracal_run.run_completes [OF assms lim])
qed

theorem caracal_run_serial_witness:
  "\<exists>val m sc row' hs. car_insert_into_index 1 (snd (new_record 8 mem_init)) = Inr (val, m)
     \<and> run_epochs (\<lambda>e. caracal_step 8 sample_txs 7 (sc e) e) 1 NUM_EPOCH
         \<lparr>rarray = car_global val, rbuffer = row_buffer_ptr val, rbuffers = car_free_buffers, rspare = (\<lambda>_. None), rmem = m\<rparr>
       = Inr (Some (row', hs))
     \<and> length hs = NUM_EPOCH \<and> serial_history (writers_at sample_txs 7) (readers_at sample_txs 7) 1 1 hs"
proof -
  obtain val m where v: "car_insert_into_index 1 (snd (new_record 8 mem_init)) = Inr (val, m)"
    "car_ready 1 (car_global val) (row_buffer_ptr val) car_free_buffers (\<lambda>_. None) m 2 1" by (rule loaded_car_ready)
  let ?row = "\<lparr>rarray = car_global val, rbuffer = row_buffer_ptr val, rbuffers = car_free_buffers, rspare = (\<lambda>_. None), rmem = m\<rparr>"
  have rd: "car_row_ready 1 ?row 1" using v(2) by (auto simp: car_row_ready_def)
  from conjunct2 [OF caracal_run_serial [OF rd, of 8 sample_txs 7]] obtain sc row' hs where
    run: "run_epochs (\<lambda>e. caracal_step 8 sample_txs 7 (sc e) e) 1 NUM_EPOCH ?row = Inr (Some (row', hs))" by blast
  from conjunct1 [OF caracal_run_serial [OF rd, of 8 sample_txs 7 sc]] run
  have "length hs = NUM_EPOCH \<and> serial_history (writers_at sample_txs 7) (readers_at sample_txs 7) 1 1 hs" by simp
  with v(1) run show ?thesis by blast
qed

text \<open>A Cheetah experiment on a row with a stable master and no writes pending, for any transactions, any order in which
  the workers publish their bitmaps and get the readers' versions, and any schedules of the execution phases: no
  assertion fails, no freed version is used and none is freed twice. If every epoch reaches its last barrier, all
  reads of all epochs are those of the serial execution. Schedules with which every epoch reaches its last
  barrier exist.\<close>

theorem cheetah_run_serial:
  assumes "ch_row_ready 1 row r"
  shows "(\<exists>res. run_epochs (\<lambda>e. cheetah_step sz txs key (sc e) e) 1 NUM_EPOCH row = Inr res \<and>
      (\<forall>row' hs. res = Some (row', hs) \<longrightarrow> length hs = NUM_EPOCH \<and> serial_history (writers_at txs key) (readers_at txs key) 1 r hs))
    \<and> (\<exists>sc row' hs. run_epochs (\<lambda>e. cheetah_step sz txs key (sc e) e) 1 NUM_EPOCH row = Inr (Some (row', hs)))"
proof
  show "\<exists>res. run_epochs (\<lambda>e. cheetah_step sz txs key (sc e) e) 1 NUM_EPOCH row = Inr res \<and>
      (\<forall>row' hs. res = Some (row', hs) \<longrightarrow> length hs = NUM_EPOCH \<and> serial_history (writers_at txs key) (readers_at txs key) 1 r hs)"
    by (rule cheetah_run.run_serial [OF assms order_refl])
  show "\<exists>sc row' hs. run_epochs (\<lambda>e. cheetah_step sz txs key (sc e) e) 1 NUM_EPOCH row = Inr (Some (row', hs))"
    by (rule cheetah_run.run_completes [OF assms order_refl])
qed

theorem cheetah_run_serial_witness:
  "\<exists>row sc row' hs. ch_insert_into_index 1 (snd (new_record 8 mem_init)) = row
     \<and> run_epochs (\<lambda>e. cheetah_step 8 sample_txs 7 (sc e) e) 1 NUM_EPOCH row = Inr (Some (row', hs))
     \<and> length hs = NUM_EPOCH \<and> serial_history (writers_at sample_txs 7) (readers_at sample_txs 7) 1 1 hs"
proof -
  obtain w m where l: "ch_insert_into_index 1 (snd (new_record 8 mem_init)) = (w, m)" by fastforce
  have "new_record 8 mem_init = (1, snd (new_record 8 mem_init))" by (simp add: new_record_def mem_init_def)
  from ch_insert_ok [OF mem_ok_init this l] have rd: "ch_row_ready 1 (w, m) 1" by (simp add: ch_row_ready_def)
  from conjunct2 [OF cheetah_run_serial [OF rd, of 8 sample_txs 7]] obtain sc row' hs where
    run: "run_epochs (\<lambda>e. cheetah_step 8 sample_txs 7 (sc e) e) 1 NUM_EPOCH (w, m) = Inr (Some (row', hs))" by blast
  from conjunct1 [OF cheetah_run_serial [OF rd, of 8 sample_txs 7 sc]] run
  have "length hs = NUM_EPOCH \<and> serial_history (writers_at sample_txs 7) (readers_at sample_txs 7) 1 1 hs" by simp
  with l run show ?thesis by blast
qed

text \<open>A Serval experiment on a row that every epoch writes, with at most 63 writes to it from one worker in an epoch:
  for any schedules, no assertion fails and no freed version is used. If every epoch reaches its last barrier, all reads
  of all epochs are those of the serial execution. Schedules with which every epoch reaches its last barrier exist.\<close>

theorem serval_run_serial:
  assumes "serval_row_ready txs key (NUM_EPOCH + 1) 1 row r"
  shows "(\<exists>res. run_epochs (\<lambda>e. serval_step sz txs key (sc e) e) 1 NUM_EPOCH row = Inr res \<and>
      (\<forall>row' hs. res = Some (row', hs) \<longrightarrow> length hs = NUM_EPOCH \<and> serial_history (writers_at txs key) (readers_at txs key) 1 r hs))
    \<and> (\<exists>sc row' hs. run_epochs (\<lambda>e. serval_step sz txs key (sc e) e) 1 NUM_EPOCH row = Inr (Some (row', hs)))"
proof
  have lim: "1 + NUM_EPOCH \<le> NUM_EPOCH + 1" by simp
  show "\<exists>res. run_epochs (\<lambda>e. serval_step sz txs key (sc e) e) 1 NUM_EPOCH row = Inr res \<and>
      (\<forall>row' hs. res = Some (row', hs) \<longrightarrow> length hs = NUM_EPOCH \<and> serial_history (writers_at txs key) (readers_at txs key) 1 r hs)"
    by (rule serval_run.run_serial [OF assms lim])
  show "\<exists>sc row' hs. run_epochs (\<lambda>e. serval_step sz txs key (sc e) e) 1 NUM_EPOCH row = Inr (Some (row', hs))"
    by (rule serval_run.run_completes [OF assms lim])
qed

theorem serval_run_serial_witness:
  "\<exists>val m sc row' hs. serval_insert_into_index 1 2 (snd (new_record 8 (snd (new_record 8 mem_init)))) = Inr (val, m)
     \<and> run_epochs (\<lambda>e. serval_step 8 sample_txs 7 (sc e) e) 1 NUM_EPOCH (rrc_init, val, m) = Inr (Some (row', hs))
     \<and> length hs = NUM_EPOCH \<and> serial_history (writers_at sample_txs 7) (readers_at sample_txs 7) 1 1 hs"
proof -
  obtain val m where v: "serval_insert_into_index 1 2 (snd (new_record 8 (snd (new_record 8 mem_init)))) = Inr (val, m)"
    "row_ready 1 rrc_init val m" "stab m (row_final rrc_init val) 1" by (rule loaded_row_ready)
  have rd: "serval_row_ready sample_txs 7 (NUM_EPOCH + 1) 1 (rrc_init, val, m) 1"
    using v(2,3) sample_load by (simp add: serval_row_ready_def)
  from conjunct2 [OF serval_run_serial [OF rd, of 8]] obtain sc row' hs where
    run: "run_epochs (\<lambda>e. serval_step 8 sample_txs 7 (sc e) e) 1 NUM_EPOCH (rrc_init, val, m) = Inr (Some (row', hs))" by blast
  from conjunct1 [OF serval_run_serial [OF rd, of 8 sc]] run
  have "length hs = NUM_EPOCH \<and> serial_history (writers_at sample_txs 7) (readers_at sample_txs 7) 1 1 hs" by (cases row') simp
  with v(1) run show ?thesis by blast
qed

end
